(* ===== verification/Prelude.thy ===== *)
theory Prelude
  imports Main "HOL-Library.Word"
begin

text \<open>
  Shared vocabulary of the development: the unsigned machine integers of the
  sources, Rust's \<open>Result\<close> as a sum type with an explicit store, checked
  arithmetic, and the least-significant-bit-first reading of a bit vector as a
  number, with the generic lemmas the component theories rest on.
\<close>

unbundle bit_operations_syntax

named_theorems lit_simps \<open>facts on literals and their encoding\<close>
named_theorems bits_simps \<open>facts on bit vectors read as numbers\<close>

type_synonym u32 = "32 word"
type_synonym u64 = "64 word"
type_synonym 'a vec = "'a list"

section \<open>Fallible, state-passing computations\<close>

text \<open>
  A Rust method \<open>fn f(&mut self, ..) -> Result<T, E>\<close> takes the store and returns
  the result together with the store it leaves behind, also when it fails.
\<close>

type_synonym ('s, 'e, 'a) outcome = "('e + 'a) \<times> 's"

definition sbind :: "('s, 'e, 'a) outcome \<Rightarrow> ('a \<Rightarrow> 's \<Rightarrow> ('s, 'e, 'b) outcome) \<Rightarrow> ('s, 'e, 'b) outcome"
  where "sbind m f = (case m of (Inl e, s) \<Rightarrow> (Inl e, s) | (Inr a, s) \<Rightarrow> f a s)"

definition smap :: "('a \<Rightarrow> 'b) \<Rightarrow> ('s, 'e, 'a) outcome \<Rightarrow> ('s, 'e, 'b) outcome"
  where "smap f m = (case m of (Inl e, s) \<Rightarrow> (Inl e, s) | (Inr a, s) \<Rightarrow> (Inr (f a), s))"

lemma sbind_simps [simp]:
  "sbind (Inl e, s) f = (Inl e, s)"
  "sbind (Inr a, s) f = f a s"
  by (simp_all add: sbind_def)

lemma smap_simps [simp]:
  "smap g (Inl e, s) = (Inl e, s)"
  "smap g (Inr a, s) = (Inr (g a), s)"
  by (simp_all add: smap_def)

lemma sbind_cong [fundef_cong]:
  assumes "m = m'" and "\<And>a s. m' = (Inr a, s) \<Longrightarrow> f a s = f' a s"
  shows "sbind m f = sbind m' f'"
  using assms by (auto simp: sbind_def split: prod.splits sum.splits)

text \<open>
  Where the store a failing call leaves behind is never looked at again, the
  result alone is a sum.
\<close>

definition rbind :: "'e + 'a \<Rightarrow> ('a \<Rightarrow> 'e + 'b) \<Rightarrow> 'e + 'b"
  where "rbind m f = (case m of Inl e \<Rightarrow> Inl e | Inr a \<Rightarrow> f a)"

lemma rbind_simps [simp]:
  "rbind (Inl e) f = Inl e"
  "rbind (Inr a) f = f a"
  by (simp_all add: rbind_def)

lemma rbind_cong [fundef_cong]:
  assumes "m = m'" and "\<And>a. m' = Inr a \<Longrightarrow> f a = f' a"
  shows "rbind m f = rbind m' f'"
  using assms by (auto simp: rbind_def split: sum.splits)

lemma rbind_eq_Inr: "rbind m f = Inr b \<longleftrightarrow> (\<exists>a. m = Inr a \<and> f a = Inr b)"
  by (auto simp: rbind_def split: sum.splits)

section \<open>Checked arithmetic\<close>

definition checked_add :: "'a::len word \<Rightarrow> 'a word \<Rightarrow> 'a word option"
  where "checked_add a b = (if unat a + unat b < 2 ^ LENGTH('a) then Some (a + b) else None)"

definition checked_mul :: "'a::len word \<Rightarrow> 'a word \<Rightarrow> 'a word option"
  where "checked_mul a b = (if unat a * unat b < 2 ^ LENGTH('a) then Some (a * b) else None)"

lemma checked_add_SomeD: "checked_add a b = Some c \<Longrightarrow> unat c = unat a + unat b"
  by (auto simp: checked_add_def unat_word_ariths split: if_splits)

lemma checked_mul_SomeD: "checked_mul a b = Some c \<Longrightarrow> unat c = unat a * unat b"
  by (auto simp: checked_mul_def unat_word_ariths split: if_splits)

definition u32_of_usize :: "nat \<Rightarrow> u32 option"
  where "u32_of_usize n = (if n < 2 ^ 32 then Some (of_nat n) else None)"

lemma u32_of_usize_SomeD: "u32_of_usize n = Some w \<Longrightarrow> unat w = n \<and> n < 2 ^ 32"
  by (auto simp: u32_of_usize_def unat_of_nat split: if_splits)

section \<open>List access with bounds\<close>

definition list_get :: "'a list \<Rightarrow> nat \<Rightarrow> 'a option"
  where "list_get xs i = (if i < length xs then Some (xs ! i) else None)"

lemma list_get_append_old: "i < length xs \<Longrightarrow> list_get (xs @ ys) i = list_get xs i"
  by (simp add: list_get_def nth_append)

lemma list_get_append_new [simp]: "list_get (xs @ [y]) (length xs) = Some y"
  by (simp add: list_get_def)

lemma list_get_Some_iff: "list_get xs i = Some x \<longleftrightarrow> i < length xs \<and> xs ! i = x"
  by (auto simp: list_get_def)

lemma list_get_None_iff: "list_get xs i = None \<longleftrightarrow> length xs \<le> i"
  by (auto simp: list_get_def)

section \<open>Iterators over a state\<close>

text \<open>An iterator chain \<open>xs.map(f).collect()\<close> whose closure can fail and changes the state.\<close>

fun smapM :: "('x \<Rightarrow> 's \<Rightarrow> ('s, 'e, 'y) outcome) \<Rightarrow> 'x list \<Rightarrow> 's \<Rightarrow> ('s, 'e, 'y list) outcome"
  where
    "smapM f [] s = (Inr [], s)"
  | "smapM f (x # xs) s = sbind (f x s) (\<lambda>y s. smap (Cons y) (smapM f xs s))"

text \<open>A loop that updates an accumulator and stops at the first error.\<close>

fun sfoldM :: "('x \<Rightarrow> 'a \<Rightarrow> 's \<Rightarrow> ('s, 'e, 'a) outcome) \<Rightarrow> 'x list \<Rightarrow> 'a \<Rightarrow> 's \<Rightarrow> ('s, 'e, 'a) outcome"
  where
    "sfoldM f [] a s = (Inr a, s)"
  | "sfoldM f (x # xs) a s = sbind (f x a s) (\<lambda>a s. sfoldM f xs a s)"

lemma smapM_cong [fundef_cong]:
  assumes "xs = xs'" and "s = s'" and "\<And>x s. x \<in> set xs' \<Longrightarrow> f x s = f' x s"
  shows "smapM f xs s = smapM f' xs' s'"
  using assms(3) unfolding assms(1,2)
  by (induction xs' arbitrary: s') (auto simp: sbind_def split: prod.splits sum.splits)

section \<open>Bit vectors, least significant bit first\<close>

fun bits_val :: "bool list \<Rightarrow> nat"
  where
    "bits_val [] = 0"
  | "bits_val (b # bs) = of_bool b + 2 * bits_val bs"

lemma bits_val_less [bits_simps]: "bits_val bs < 2 ^ length bs"
  by (induction bs) auto

lemma bits_val_append [bits_simps]: "bits_val (xs @ ys) = bits_val xs + 2 ^ length xs * bits_val ys"
  by (induction xs) (auto simp: algebra_simps)

lemma bits_val_replicate_False [simp]: "bits_val (replicate n False) = 0"
  by (induction n) auto

lemma bits_val_inj: "length xs = length ys \<Longrightarrow> bits_val xs = bits_val ys \<Longrightarrow> xs = ys"
proof (induction xs ys rule: list_induct2)
  case Nil
  then show ?case by simp
next
  case (Cons x xs y ys)
  from Cons.prems have "of_bool x + 2 * bits_val xs = of_bool y + 2 * bits_val ys" by simp
  then have "of_bool x = (of_bool y :: nat)" "bits_val xs = bits_val ys"
    by (cases x; cases y; simp; presburger)+
  with Cons.IH show ?case by (cases x; cases y) simp_all
qed

lemma bits_val_not: "bits_val (map Not bs) + bits_val bs + 1 = 2 ^ length bs"
  by (induction bs) (auto simp: of_bool_def)

text \<open>The number a vector denotes when its top bit is a sign.\<close>

definition signed_val :: "bool list \<Rightarrow> int"
  where "signed_val bs = int (bits_val bs) - (if bs \<noteq> [] \<and> last bs then 2 ^ length bs else 0)"

end
