(* ===== verification/Logic_Lit.thy ===== *)
theory Logic_Lit
  imports Prelude
begin

text \<open>
  Node identifiers, complemented-edge literals and node kinds of
  \<^verbatim>\<open>crates/opto-ir/src/logic.rs\<close>. A literal packs a node index and an
  inversion bit into 32 bits; the lemmas show that the packing loses nothing and
  that it fails exactly when the index does not fit.
\<close>

unbundle bit_operations_syntax

section \<open>Definitions\<close>

datatype logic_error = LogicError string

definition LogicError_capacity :: "string \<Rightarrow> logic_error"
  where "LogicError_capacity kind = LogicError (''logic '' @ kind @ '' exceeds 32-bit capacity'')"

datatype NodeId = NodeId (node_raw: u32)

definition NodeId_CONSTANT :: NodeId
  where "NodeId_CONSTANT = NodeId 0"

definition NodeId_from_index :: "nat \<Rightarrow> logic_error + NodeId"
  where "NodeId_from_index index =
    (case u32_of_usize index of
       None \<Rightarrow> Inl (LogicError_capacity ''node ID'')
     | Some w \<Rightarrow> Inr (NodeId w))"

definition NodeId_index :: "NodeId \<Rightarrow> nat"
  where "NodeId_index n = unat (node_raw n)"

datatype Lit = Lit (lit_raw: u32)

definition Lit_FALSE :: Lit where "Lit_FALSE = Lit 0"

definition Lit_TRUE :: Lit where "Lit_TRUE = Lit 1"

definition Lit_from_node :: "NodeId \<Rightarrow> logic_error + Lit"
  where "Lit_from_node node =
    (case checked_mul (node_raw node) 2 of
       None \<Rightarrow> Inl (LogicError_capacity ''literal'')
     | Some w \<Rightarrow> Inr (Lit w))"

definition Lit_node :: "Lit \<Rightarrow> NodeId"
  where "Lit_node l = NodeId (drop_bit 1 (lit_raw l))"

definition is_inverted :: "Lit \<Rightarrow> bool"
  where "is_inverted l \<longleftrightarrow> lit_raw l AND 1 \<noteq> 0"

definition inverted :: "Lit \<Rightarrow> Lit"
  where "inverted l = Lit (lit_raw l XOR 1)"

definition positive :: "Lit \<Rightarrow> Lit"
  where "positive l = Lit (lit_raw l AND NOT 1)"

definition with_phase :: "Lit \<Rightarrow> bool \<Rightarrow> Lit"
  where "with_phase l flip = (if flip then inverted l else l)"

datatype NodeKind = Constant | Input | And | Xor | Mux

text \<open>The derived order of \<^verbatim>\<open>Lit\<close> compares the packed words.\<close>

instantiation Lit :: linorder
begin

definition less_eq_Lit :: "Lit \<Rightarrow> Lit \<Rightarrow> bool"
  where "less_eq_Lit a b \<longleftrightarrow> lit_raw a \<le> lit_raw b"

definition less_Lit :: "Lit \<Rightarrow> Lit \<Rightarrow> bool"
  where "less_Lit a b \<longleftrightarrow> lit_raw a < lit_raw b"

instance
  by standard (auto simp: less_eq_Lit_def less_Lit_def intro: Lit.expand)

end

definition ordered :: "Lit \<Rightarrow> Lit \<Rightarrow> Lit \<times> Lit"
  where "ordered left right = (if left \<le> right then (left, right) else (right, left))"

abbreviation lit_index :: "Lit \<Rightarrow> nat"
  where "lit_index l \<equiv> NodeId_index (Lit_node l)"

section \<open>The packing of a node and a phase\<close>

lemma is_inverted_bit: "is_inverted l = bit (lit_raw l) 0"
  by (simp add: is_inverted_def and_one_eq odd_iff_mod_2_eq_one bit_0 flip: even_iff_mod_2_eq_zero)

lemma Lit_eq_iff: "l = l' \<longleftrightarrow> Lit_node l = Lit_node l' \<and> is_inverted l = is_inverted l'"
proof -
  have "w = w'" if "drop_bit 1 w = drop_bit 1 w'" "bit w 0 = bit w' 0" for w w' :: u32
  proof (rule bit_word_eqI)
    fix n assume "n < LENGTH(32)"
    show "bit w n = bit w' n"
    proof (cases n)
      case 0 with that show ?thesis by simp
    next
      case (Suc m)
      have "bit (drop_bit 1 w) m = bit (drop_bit 1 w') m" using that(1) by simp
      then show ?thesis by (simp add: bit_drop_bit_eq Suc)
    qed
  qed
  then show ?thesis
    by (cases l; cases l') (auto simp: Lit_node_def is_inverted_bit)
qed

lemma is_inverted_inverted [simp, lit_simps]: "is_inverted (inverted l) = (\<not> is_inverted l)"
  by (simp add: is_inverted_bit inverted_def bit_xor_iff bit_1_iff)

lemma is_inverted_positive [simp, lit_simps]: "\<not> is_inverted (positive l)"
  by (simp add: is_inverted_bit positive_def bit_and_iff bit_not_iff bit_1_iff)

lemma Lit_node_inverted [simp, lit_simps]: "Lit_node (inverted l) = Lit_node l"
  by (auto simp: Lit_node_def inverted_def intro!: bit_word_eqI
      simp: bit_drop_bit_eq bit_xor_iff bit_1_iff)

lemma Lit_node_positive [simp, lit_simps]: "Lit_node (positive l) = Lit_node l"
proof -
  have "bit (w AND NOT 1) (Suc n) = bit w (Suc n)" for w :: u32 and n
    unfolding bit_and_iff bit_not_iff bit_1_iff
    using bit_imp_le_length [of w "Suc n"] by (auto simp: possible_bit_def)
  then have "drop_bit 1 (w AND NOT 1) = drop_bit 1 w" for w :: u32
    by (intro bit_word_eqI) (simp only: bit_drop_bit_eq o_def plus_1_eq_Suc)
  then show ?thesis unfolding Lit_node_def positive_def by (simp only: Lit.sel)
qed

lemma inverted_inverted [simp, lit_simps]: "inverted (inverted l) = l"
  by (simp add: Lit_eq_iff)

lemma inverted_neq [simp, lit_simps]: "inverted l \<noteq> l" "l \<noteq> inverted l"
  by (auto simp: Lit_eq_iff)

lemma positive_id: "\<not> is_inverted l \<Longrightarrow> positive l = l"
  by (simp add: Lit_eq_iff)

lemma positive_inverted_id: "is_inverted l \<Longrightarrow> positive l = inverted l"
  by (simp add: Lit_eq_iff)

lemma Lit_node_with_phase [simp, lit_simps]: "Lit_node (with_phase l p) = Lit_node l"
  by (simp add: with_phase_def)

lemma is_inverted_with_phase [simp, lit_simps]: "is_inverted (with_phase l p) = (is_inverted l \<noteq> p)"
  by (simp add: with_phase_def)

lemma Lit_node_FALSE [simp, lit_simps]: "Lit_node Lit_FALSE = NodeId_CONSTANT"
  by (simp add: Lit_node_def Lit_FALSE_def NodeId_CONSTANT_def)

lemma Lit_node_TRUE [simp, lit_simps]: "Lit_node Lit_TRUE = NodeId_CONSTANT"
  by (simp add: Lit_node_def Lit_TRUE_def NodeId_CONSTANT_def drop_bit_Suc)

lemma is_inverted_FALSE [simp, lit_simps]: "\<not> is_inverted Lit_FALSE"
  by (simp add: is_inverted_bit Lit_FALSE_def)

lemma is_inverted_TRUE [simp, lit_simps]: "is_inverted Lit_TRUE"
  by (simp add: is_inverted_bit Lit_TRUE_def)

lemma NodeId_index_inj: "NodeId_index a = NodeId_index b \<longleftrightarrow> a = b"
  by (cases a; cases b) (simp add: NodeId_index_def word_unat_eq_iff)

lemma NodeId_index_bound: "NodeId_index n < 2 ^ 32"
  using unsigned_less [of "node_raw n"] by (simp add: NodeId_index_def)

lemma NodeId_index_CONSTANT [simp]: "NodeId_index NodeId_CONSTANT = 0"
  by (simp add: NodeId_index_def NodeId_CONSTANT_def)

lemma NodeId_from_index_Inr:
  "NodeId_from_index i = Inr n \<longleftrightarrow> i < 2 ^ 32 \<and> NodeId_index n = i"
  by (cases n) (auto simp: NodeId_from_index_def u32_of_usize_def NodeId_index_def unat_of_nat
      split: if_splits option.splits)

lemma Lit_from_node_Inr:
  "Lit_from_node n = Inr l \<longleftrightarrow> NodeId_index n < 2 ^ 31 \<and> Lit_node l = n \<and> \<not> is_inverted l"
proof -
  have drop: "drop_bit 1 (w * 2) = w" if "unat w * 2 < 2 ^ 32" for w :: u32
  proof -
    have "unat (w * 2) = unat w * 2" using that by (simp add: unat_word_ariths)
    then have "unat (drop_bit 1 (w * 2)) = unat w"
      by (simp add: drop_bit_eq_div unat_div)
    then show ?thesis by (simp add: word_unat_eq_iff)
  qed
  have low: "\<not> bit (w * 2) 0" for w :: u32
    by (simp add: bit_0)
  show ?thesis
  proof
    assume "Lit_from_node n = Inr l"
    then have "l = Lit (node_raw n * 2)" and "unat (node_raw n) * 2 < 2 ^ 32"
      by (auto simp: Lit_from_node_def checked_mul_def split: option.splits if_splits)
    then show "NodeId_index n < 2 ^ 31 \<and> Lit_node l = n \<and> \<not> is_inverted l"
      using drop low by (auto simp: NodeId_index_def Lit_node_def is_inverted_bit)
  next
    assume r: "NodeId_index n < 2 ^ 31 \<and> Lit_node l = n \<and> \<not> is_inverted l"
    then have b: "unat (node_raw n) * 2 < 2 ^ 32" by (simp add: NodeId_index_def)
    have "l = Lit (node_raw n * 2)"
      using r drop [OF b] low by (subst Lit_eq_iff) (auto simp: Lit_node_def is_inverted_bit)
    with b show "Lit_from_node n = Inr l"
      by (simp add: Lit_from_node_def checked_mul_def)
  qed
qed

lemma Lit_from_node_ok:
  assumes "NodeId_index n < 2 ^ 31"
  obtains l where "Lit_from_node n = Inr l" and "Lit_node l = n" and "\<not> is_inverted l"
proof -
  have "Lit_from_node n = Inr (Lit (node_raw n * 2))"
    using assms by (simp add: Lit_from_node_def checked_mul_def NodeId_index_def)
  with that show thesis using Lit_from_node_Inr [of n] by blast
qed

lemma Lit_from_node_full: "2 ^ 31 \<le> NodeId_index n \<Longrightarrow> Lit_from_node n = Inl (LogicError_capacity ''literal'')"
  by (simp add: Lit_from_node_def checked_mul_def NodeId_index_def)

lemma lit_index_bound: "lit_index l < 2 ^ 31"
proof -
  have "unat (drop_bit 1 (lit_raw l)) = unat (lit_raw l) div 2"
    by (simp add: drop_bit_eq_div unat_div)
  moreover have "unat (lit_raw l) < 2 ^ 32" using unsigned_less [of "lit_raw l"] by simp
  ultimately show ?thesis by (simp add: NodeId_index_def Lit_node_def)
qed

end
