(* ===== verification/Canonical.thy ===== *)
theory Canonical
  imports Logic_Lit
begin

text \<open>
  The canonicalisation rules of \<^verbatim>\<open>crates/opto-ir/src/logic.rs\<close>: the trait
  \<^verbatim>\<open>Canonical\<close> as a record of operations, the four rule tables
  \<^verbatim>\<open>canonical_and\<close>, \<^verbatim>\<open>canonical_or\<close>, \<^verbatim>\<open>canonical_xor\<close>,
  \<^verbatim>\<open>canonical_mux\<close> over it, the Boolean meaning of the nodes a store holds, and the
  contract of a store as the locale \<open>canonical_store\<close>. Inside the locale every
  rule table is shown to return a literal with the meaning of the operation, to only add
  nodes, and to return at all: the rules of \<open>mux\<close> call each other on nodes they have
  just built, and what decreases is the size of the expression unfolded to a tree.
\<close>

section \<open>The rule tables\<close>

datatype NodeKey = KeyAnd Lit Lit | KeyXor Lit Lit | KeyMux Lit Lit Lit

record ('s, 'e) canonical_ops =
  op_kind :: "'s \<Rightarrow> NodeId \<Rightarrow> NodeKind option"
  op_fanin :: "'s \<Rightarrow> NodeId \<Rightarrow> nat \<Rightarrow> Lit option"
  op_resolve :: "'s \<Rightarrow> NodeKey \<Rightarrow> NodeKind \<Rightarrow> Lit \<Rightarrow> Lit \<Rightarrow> Lit \<Rightarrow> u32 \<Rightarrow> ('s, 'e, Lit) outcome"

text \<open>
  A store's own error, or the marker that the recursion budget of the model is spent. The
  sources recurse without a budget; \<open>OutOfFuel\<close> is shown to be unreachable.
\<close>

datatype 'e canonical_error = StoreError 'e | OutOfFuel

type_synonym ('s, 'e) canonical_result = "('s, 'e canonical_error, Lit) outcome"

definition resolve ::
  "('s, 'e) canonical_ops \<Rightarrow> 's \<Rightarrow> NodeKey \<Rightarrow> NodeKind \<Rightarrow> Lit \<Rightarrow> Lit \<Rightarrow> Lit \<Rightarrow> u32 \<Rightarrow> ('s, 'e) canonical_result"
  where "resolve ops s key kind f0 f1 f2 origin =
    (case op_resolve ops s key kind f0 f1 f2 origin of
       (Inl e, s') \<Rightarrow> (Inl (StoreError e), s')
     | (Inr l, s') \<Rightarrow> (Inr l, s'))"

definition xor_remaining :: "Lit \<times> Lit \<Rightarrow> Lit \<Rightarrow> Lit option"
  where "xor_remaining fanins shared =
    (if fst fanins = shared then Some (snd fanins)
     else if snd fanins = shared then Some (fst fanins)
     else None)"

definition xor_shared_remaining :: "Lit \<times> Lit \<Rightarrow> Lit \<times> Lit \<Rightarrow> (Lit \<times> Lit) option"
  where "xor_shared_remaining left right =
    (case xor_remaining right (fst left) of
       Some remaining \<Rightarrow> Some (snd left, remaining)
     | None \<Rightarrow> map_option (\<lambda>remaining. (fst left, remaining)) (xor_remaining right (snd left)))"

fun product_factor_step :: "(Lit \<times> Lit) list \<Rightarrow> Lit \<times> Lit \<Rightarrow> (Lit \<times> Lit \<times> Lit) option"
  where
    "product_factor_step [] right = None"
  | "product_factor_step ((left_select, when_true) # rest) right =
      (if fst right = inverted left_select then Some (left_select, when_true, snd right)
       else if snd right = inverted left_select then Some (left_select, when_true, fst right)
       else product_factor_step rest right)"

definition complementary_product_factor :: "Lit \<times> Lit \<Rightarrow> Lit \<times> Lit \<Rightarrow> (Lit \<times> Lit \<times> Lit) option"
  where "complementary_product_factor left right =
    product_factor_step [(fst left, snd left), (snd left, fst left)] right"

definition binary_fanins ::
  "('s, 'e) canonical_ops \<Rightarrow> 's \<Rightarrow> Lit \<Rightarrow> NodeKind \<Rightarrow> (Lit \<times> Lit) option"
  where "binary_fanins ops s l kind =
    (if is_inverted l \<or> op_kind ops s (Lit_node l) \<noteq> Some kind then None
     else case op_fanin ops s (Lit_node l) 0 of
       None \<Rightarrow> None
     | Some a \<Rightarrow> (case op_fanin ops s (Lit_node l) 1 of None \<Rightarrow> None | Some b \<Rightarrow> Some (a, b)))"

definition mux_fanins :: "('s, 'e) canonical_ops \<Rightarrow> 's \<Rightarrow> Lit \<Rightarrow> (Lit \<times> Lit \<times> Lit) option"
  where "mux_fanins ops s l =
    (if is_inverted l \<or> op_kind ops s (Lit_node l) \<noteq> Some Mux then None
     else case op_fanin ops s (Lit_node l) 0 of
       None \<Rightarrow> None
     | Some a \<Rightarrow> (case op_fanin ops s (Lit_node l) 1 of
         None \<Rightarrow> None
       | Some b \<Rightarrow> (case op_fanin ops s (Lit_node l) 2 of
           None \<Rightarrow> None
         | Some c \<Rightarrow> Some (a, b, c))))"

definition fanins_include :: "(Lit \<times> Lit) option \<Rightarrow> Lit \<Rightarrow> bool"
  where "fanins_include fanins l = (case fanins of None \<Rightarrow> False | Some (a, b) \<Rightarrow> a = l \<or> b = l)"

definition canonical_and ::
  "('s, 'e) canonical_ops \<Rightarrow> 's \<Rightarrow> Lit \<Rightarrow> Lit \<Rightarrow> u32 \<Rightarrow> ('s, 'e) canonical_result"
  where "canonical_and ops s left right origin =
    (if left = Lit_FALSE \<or> right = Lit_FALSE \<or> left = inverted right then (Inr Lit_FALSE, s)
     else if left = Lit_TRUE then (Inr right, s)
     else if right = Lit_TRUE \<or> left = right then (Inr left, s)
     else if fanins_include (binary_fanins ops s left And) right then (Inr left, s)
     else if fanins_include (binary_fanins ops s right And) left then (Inr right, s)
     else if is_inverted right \<and> fanins_include (binary_fanins ops s (positive right) And) (inverted left)
       then (Inr left, s)
     else if is_inverted left \<and> fanins_include (binary_fanins ops s (positive left) And) (inverted right)
       then (Inr right, s)
     else case ordered left right of
       (left, right) \<Rightarrow> resolve ops s (KeyAnd left right) And left right Lit_FALSE origin)"

definition xor_fold :: "(Lit \<times> Lit) option \<Rightarrow> Lit \<Rightarrow> Lit option"
  where "xor_fold fanins l = (case fanins of None \<Rightarrow> None | Some f \<Rightarrow> xor_remaining f l)"

definition xor_shared :: "(Lit \<times> Lit) option \<Rightarrow> (Lit \<times> Lit) option \<Rightarrow> (Lit \<times> Lit) option"
  where "xor_shared left right =
    (case (left, right) of (Some l, Some r) \<Rightarrow> xor_shared_remaining l r | _ \<Rightarrow> None)"

definition LogicBuilder_constant :: "bool \<Rightarrow> Lit"
  where "LogicBuilder_constant b = (if b then Lit_TRUE else Lit_FALSE)"

fun canonical_xor ::
  "nat \<Rightarrow> ('s, 'e) canonical_ops \<Rightarrow> 's \<Rightarrow> Lit \<Rightarrow> Lit \<Rightarrow> u32 \<Rightarrow> ('s, 'e) canonical_result"
  where
    "canonical_xor 0 ops s left right origin = (Inl OutOfFuel, s)"
  | "canonical_xor (Suc fuel) ops s left right origin =
      (if left = Lit_FALSE then (Inr right, s)
       else if right = Lit_FALSE then (Inr left, s)
       else if left = Lit_TRUE then (Inr (inverted right), s)
       else if right = Lit_TRUE then (Inr (inverted left), s)
       else if left = right then (Inr Lit_FALSE, s)
       else if left = inverted right then (Inr Lit_TRUE, s)
       else
         let flip = (is_inverted left \<noteq> is_inverted right);
             left = positive left;
             right = positive right
         in if left = right then (Inr (LogicBuilder_constant flip), s)
            else
              let left_fanins = binary_fanins ops s left Xor;
                  right_fanins = binary_fanins ops s right Xor
              in case xor_fold left_fanins right of
                   Some remaining \<Rightarrow> (Inr (with_phase remaining flip), s)
                 | None \<Rightarrow> (case xor_fold right_fanins left of
                     Some remaining \<Rightarrow> (Inr (with_phase remaining flip), s)
                   | None \<Rightarrow> (case xor_shared left_fanins right_fanins of
                       Some (left_remaining, right_remaining) \<Rightarrow>
                         smap (\<lambda>l. with_phase l flip)
                           (canonical_xor fuel ops s left_remaining right_remaining origin)
                     | None \<Rightarrow> (case ordered left right of
                         (left, right) \<Rightarrow>
                           smap (\<lambda>l. with_phase l flip)
                             (resolve ops s (KeyXor left right) Xor left right Lit_FALSE origin)))))"

text \<open>
  The disjunction and multiplexer tables call each other. The body of each is written
  over the functions it calls, so that one fuelled recursion closes the knot.
\<close>

type_synonym ('s, 'e) or_fn = "'s \<Rightarrow> Lit \<Rightarrow> Lit \<Rightarrow> u32 \<Rightarrow> ('s, 'e) canonical_result"
type_synonym ('s, 'e) mux_fn = "'s \<Rightarrow> Lit \<Rightarrow> Lit \<Rightarrow> Lit \<Rightarrow> u32 \<Rightarrow> ('s, 'e) canonical_result"

definition or_body ::
  "('s, 'e) canonical_ops \<Rightarrow> ('s, 'e) mux_fn \<Rightarrow> 's \<Rightarrow> Lit \<Rightarrow> Lit \<Rightarrow> u32 \<Rightarrow> ('s, 'e) canonical_result"
  where "or_body ops mux s left right origin =
    (case (binary_fanins ops s left And, binary_fanins ops s right And) of
       (Some left_product, Some right_product) \<Rightarrow>
         (case complementary_product_factor left_product right_product of
            Some (select, when_true, when_false) \<Rightarrow> mux s select when_true when_false origin
          | None \<Rightarrow> smap inverted (canonical_and ops s (inverted left) (inverted right) origin))
     | _ \<Rightarrow> smap inverted (canonical_and ops s (inverted left) (inverted right) origin))"

text \<open>The last stage: two muxes under one selector share a branch, or a new node is made.\<close>

definition mux_factor ::
  "('s, 'e) canonical_ops \<Rightarrow> ('s, 'e) mux_fn \<Rightarrow> 's \<Rightarrow> Lit \<Rightarrow> Lit \<Rightarrow> Lit \<Rightarrow> u32 \<Rightarrow> ('s, 'e) canonical_result"
  where "mux_factor ops mux s select then_value else_value origin =
    (let make = resolve ops s (KeyMux select then_value else_value) Mux select then_value else_value origin
     in case (mux_fanins ops s then_value, mux_fanins ops s else_value) of
       (Some (ts, tt, te), Some (es, et, ee)) \<Rightarrow>
         (if ts = es then
            (if tt = et then
               sbind (mux s select te ee origin) (\<lambda>remaining s'. mux s' ts tt remaining origin)
             else if te = ee then
               sbind (mux s select tt et origin) (\<lambda>remaining s'. mux s' ts remaining te origin)
             else make)
          else make)
     | _ \<Rightarrow> make)"

text \<open>A mux in the else arm that shares a branch with the then arm merges selectors.\<close>

definition mux_merge_else ::
  "('s, 'e) canonical_ops \<Rightarrow> ('s, 'e) or_fn \<Rightarrow> ('s, 'e) mux_fn \<Rightarrow> 's \<Rightarrow> Lit \<Rightarrow> Lit \<Rightarrow> Lit \<Rightarrow> u32
    \<Rightarrow> ('s, 'e) canonical_result"
  where "mux_merge_else ops orf mux s select then_value else_value origin =
    (case mux_fanins ops s else_value of
       Some (inner_select, inner_then, inner_else) \<Rightarrow>
         (if then_value = inner_then then
            sbind (orf s select inner_select origin)
              (\<lambda>combined s'. mux s' combined inner_then inner_else origin)
          else if then_value = inner_else then
            sbind (canonical_and ops s (inverted select) inner_select origin)
              (\<lambda>combined s'. mux s' combined inner_then inner_else origin)
          else mux_factor ops mux s select then_value else_value origin)
     | None \<Rightarrow> mux_factor ops mux s select then_value else_value origin)"

definition mux_merge_then ::
  "('s, 'e) canonical_ops \<Rightarrow> ('s, 'e) or_fn \<Rightarrow> ('s, 'e) mux_fn \<Rightarrow> 's \<Rightarrow> Lit \<Rightarrow> Lit \<Rightarrow> Lit \<Rightarrow> u32
    \<Rightarrow> ('s, 'e) canonical_result"
  where "mux_merge_then ops orf mux s select then_value else_value origin =
    (case mux_fanins ops s then_value of
       Some (inner_select, inner_then, inner_else) \<Rightarrow>
         (if else_value = inner_else then
            sbind (canonical_and ops s select inner_select origin)
              (\<lambda>combined s'. mux s' combined inner_then inner_else origin)
          else if else_value = inner_then then
            sbind (orf s (inverted select) inner_select origin)
              (\<lambda>combined s'. mux s' combined inner_then inner_else origin)
          else mux_merge_else ops orf mux s select then_value else_value origin)
     | None \<Rightarrow> mux_merge_else ops orf mux s select then_value else_value origin)"

text \<open>Nested muxes under the same selector collapse before the merging stages.\<close>

definition collapse_then :: "('s, 'e) canonical_ops \<Rightarrow> 's \<Rightarrow> Lit \<Rightarrow> Lit \<Rightarrow> Lit option"
  where "collapse_then ops s select then_value =
    (case mux_fanins ops s then_value of
       Some (inner_select, inner_then, _) \<Rightarrow> if inner_select = select then Some inner_then else None
     | None \<Rightarrow> None)"

definition collapse_else :: "('s, 'e) canonical_ops \<Rightarrow> 's \<Rightarrow> Lit \<Rightarrow> Lit \<Rightarrow> Lit option"
  where "collapse_else ops s select else_value =
    (case mux_fanins ops s else_value of
       Some (inner_select, _, inner_else) \<Rightarrow> if inner_select = select then Some inner_else else None
     | None \<Rightarrow> None)"

definition option_or :: "'a option \<Rightarrow> 'a \<Rightarrow> 'a"
  where "option_or x d = (case x of None \<Rightarrow> d | Some y \<Rightarrow> y)"

definition mux_nested ::
  "('s, 'e) canonical_ops \<Rightarrow> ('s, 'e) or_fn \<Rightarrow> ('s, 'e) mux_fn \<Rightarrow> 's \<Rightarrow> Lit \<Rightarrow> Lit \<Rightarrow> Lit \<Rightarrow> u32
    \<Rightarrow> ('s, 'e) canonical_result"
  where "mux_nested ops orf mux s select then_value else_value origin =
    (let new_then = collapse_then ops s select then_value;
         new_else = collapse_else ops s select else_value
     in if new_then \<noteq> None \<or> new_else \<noteq> None
        then mux s select (option_or new_then then_value) (option_or new_else else_value) origin
        else mux_merge_then ops orf mux s select then_value else_value origin)"

text \<open>The reductions to two-input operations, after the phases are normalised.\<close>

definition mux_reduce ::
  "('s, 'e) canonical_ops \<Rightarrow> ('s, 'e) or_fn \<Rightarrow> ('s, 'e) or_fn \<Rightarrow> ('s, 'e) mux_fn \<Rightarrow> 's \<Rightarrow> Lit \<Rightarrow> Lit \<Rightarrow> Lit
    \<Rightarrow> u32 \<Rightarrow> ('s, 'e) canonical_result"
  where "mux_reduce ops xorf orf mux s select then_value else_value origin =
    (if then_value = inverted else_value then xorf s select else_value origin
     else if then_value = Lit_TRUE \<or> then_value = select then orf s select else_value origin
     else if then_value = Lit_FALSE \<or> then_value = inverted select
       then canonical_and ops s (inverted select) else_value origin
     else if else_value = Lit_FALSE \<or> else_value = select
       then canonical_and ops s select then_value origin
     else if else_value = Lit_TRUE \<or> else_value = inverted select
       then orf s (inverted select) then_value origin
     else mux_nested ops orf mux s select then_value else_value origin)"

definition mux_body ::
  "('s, 'e) canonical_ops \<Rightarrow> ('s, 'e) or_fn \<Rightarrow> ('s, 'e) or_fn \<Rightarrow> ('s, 'e) mux_fn \<Rightarrow> 's \<Rightarrow> Lit \<Rightarrow> Lit \<Rightarrow> Lit
    \<Rightarrow> u32 \<Rightarrow> ('s, 'e) canonical_result"
  where "mux_body ops xorf orf mux s select then_value else_value origin =
    (if select = Lit_FALSE then (Inr else_value, s)
     else if select = Lit_TRUE \<or> then_value = else_value then (Inr then_value, s)
     else if then_value = Lit_TRUE \<and> else_value = Lit_FALSE then (Inr select, s)
     else if then_value = Lit_FALSE \<and> else_value = Lit_TRUE then (Inr (inverted select), s)
     else
       let (select, then_value, else_value) =
             (if is_inverted select then (positive select, else_value, then_value)
              else (select, then_value, else_value));
           flip = (is_inverted then_value \<and> is_inverted else_value);
           then_value = (if flip then positive then_value else then_value);
           else_value = (if flip then positive else_value else else_value)
       in smap (\<lambda>l. with_phase l flip)
            (mux_reduce ops xorf orf mux s select then_value else_value origin))"

fun canonical_or ::
  "nat \<Rightarrow> ('s, 'e) canonical_ops \<Rightarrow> 's \<Rightarrow> Lit \<Rightarrow> Lit \<Rightarrow> u32 \<Rightarrow> ('s, 'e) canonical_result"
  and canonical_mux ::
  "nat \<Rightarrow> ('s, 'e) canonical_ops \<Rightarrow> 's \<Rightarrow> Lit \<Rightarrow> Lit \<Rightarrow> Lit \<Rightarrow> u32 \<Rightarrow> ('s, 'e) canonical_result"
  where
    "canonical_or 0 ops s left right origin = (Inl OutOfFuel, s)"
  | "canonical_or (Suc fuel) ops s left right origin =
      or_body ops (\<lambda>s. canonical_mux fuel ops s) s left right origin"
  | "canonical_mux 0 ops s select then_value else_value origin = (Inl OutOfFuel, s)"
  | "canonical_mux (Suc fuel) ops s select then_value else_value origin =
      mux_body ops (\<lambda>s. canonical_xor fuel ops s) (\<lambda>s. canonical_or fuel ops s)
        (\<lambda>s. canonical_mux fuel ops s) s select then_value else_value origin"

section \<open>The meaning of a store\<close>

datatype gate = GConst | GInput | GAnd Lit Lit | GXor Lit Lit | GMux Lit Lit Lit

type_synonym gates = "NodeId \<rightharpoonup> gate"
type_synonym env = "NodeId \<Rightarrow> bool"

fun gate_lits :: "gate \<Rightarrow> Lit set"
  where
    "gate_lits (GAnd a b) = {a, b}"
  | "gate_lits (GXor a b) = {a, b}"
  | "gate_lits (GMux a b c) = {a, b, c}"
  | "gate_lits _ = {}"

definition gate_view :: "('s, 'e) canonical_ops \<Rightarrow> 's \<Rightarrow> gates"
  where "gate_view ops s n =
    (case op_kind ops s n of
       None \<Rightarrow> None
     | Some Constant \<Rightarrow> Some GConst
     | Some Input \<Rightarrow> Some GInput
     | Some And \<Rightarrow> (case (op_fanin ops s n 0, op_fanin ops s n 1) of
         (Some a, Some b) \<Rightarrow> Some (GAnd a b) | _ \<Rightarrow> None)
     | Some Xor \<Rightarrow> (case (op_fanin ops s n 0, op_fanin ops s n 1) of
         (Some a, Some b) \<Rightarrow> Some (GXor a b) | _ \<Rightarrow> None)
     | Some Mux \<Rightarrow> (case (op_fanin ops s n 0, op_fanin ops s n 1, op_fanin ops s n 2) of
         (Some a, Some b, Some c) \<Rightarrow> Some (GMux a b c) | _ \<Rightarrow> None))"

text \<open>
  Evaluation follows fanins downwards only; a fanin that does not point to a smaller node
  reads as constant zero, which makes the function total on ill-formed stores.
\<close>

function eval_node :: "gates \<Rightarrow> env \<Rightarrow> NodeId \<Rightarrow> bool"
  where "eval_node g env n =
    (case g n of
       None \<Rightarrow> False
     | Some GConst \<Rightarrow> False
     | Some GInput \<Rightarrow> env n
     | Some (GAnd a b) \<Rightarrow>
         ((if lit_index a < NodeId_index n then eval_node g env (Lit_node a) else False) \<noteq> is_inverted a)
         \<and> ((if lit_index b < NodeId_index n then eval_node g env (Lit_node b) else False) \<noteq> is_inverted b)
     | Some (GXor a b) \<Rightarrow>
         ((if lit_index a < NodeId_index n then eval_node g env (Lit_node a) else False) \<noteq> is_inverted a)
         \<noteq> ((if lit_index b < NodeId_index n then eval_node g env (Lit_node b) else False) \<noteq> is_inverted b)
     | Some (GMux a b c) \<Rightarrow>
         (if (if lit_index a < NodeId_index n then eval_node g env (Lit_node a) else False) \<noteq> is_inverted a
          then (if lit_index b < NodeId_index n then eval_node g env (Lit_node b) else False) \<noteq> is_inverted b
          else (if lit_index c < NodeId_index n then eval_node g env (Lit_node c) else False) \<noteq> is_inverted c))"
  by pat_completeness auto
termination
  by (relation "measure (\<lambda>(g, env, n). NodeId_index n)") auto

definition eval_lit :: "gates \<Rightarrow> env \<Rightarrow> Lit \<Rightarrow> bool"
  where "eval_lit g env l = (eval_node g env (Lit_node l) \<noteq> is_inverted l)"

text \<open>The number of leaves and gates of the expression below a node, unfolded to a tree.\<close>

function tree_size :: "gates \<Rightarrow> NodeId \<Rightarrow> nat"
  where "tree_size g n =
    (case g n of
       Some (GAnd a b) \<Rightarrow>
         1 + (if lit_index a < NodeId_index n then tree_size g (Lit_node a) else 1)
           + (if lit_index b < NodeId_index n then tree_size g (Lit_node b) else 1)
     | Some (GXor a b) \<Rightarrow>
         1 + (if lit_index a < NodeId_index n then tree_size g (Lit_node a) else 1)
           + (if lit_index b < NodeId_index n then tree_size g (Lit_node b) else 1)
     | Some (GMux a b c) \<Rightarrow>
         1 + (if lit_index a < NodeId_index n then tree_size g (Lit_node a) else 1)
           + (if lit_index b < NodeId_index n then tree_size g (Lit_node b) else 1)
           + (if lit_index c < NodeId_index n then tree_size g (Lit_node c) else 1)
     | _ \<Rightarrow> 1)"
  by pat_completeness auto
termination
  by (relation "measure (\<lambda>(g, n). NodeId_index n)") auto

declare eval_node.simps [simp del] tree_size.simps [simp del]

definition lit_size :: "gates \<Rightarrow> Lit \<Rightarrow> nat"
  where "lit_size g l = tree_size g (Lit_node l)"

definition valid_lit :: "gates \<Rightarrow> Lit \<Rightarrow> bool"
  where "valid_lit g l \<longleftrightarrow> g (Lit_node l) \<noteq> None"

text \<open>Node zero is the constant and every fanin points to a smaller node of the store.\<close>

definition wf_gates :: "gates \<Rightarrow> bool"
  where "wf_gates g \<longleftrightarrow>
    g NodeId_CONSTANT = Some GConst \<and>
    (\<forall>n x. g n = Some x \<longrightarrow>
      (\<forall>l \<in> gate_lits x. lit_index l < NodeId_index n \<and> valid_lit g l))"

fun key_gate :: "NodeKey \<Rightarrow> gate"
  where
    "key_gate (KeyAnd a b) = GAnd a b"
  | "key_gate (KeyXor a b) = GXor a b"
  | "key_gate (KeyMux a b c) = GMux a b c"

fun key_args :: "NodeKey \<Rightarrow> NodeKind \<times> Lit \<times> Lit \<times> Lit"
  where
    "key_args (KeyAnd a b) = (And, a, b, Lit_FALSE)"
  | "key_args (KeyXor a b) = (Xor, a, b, Lit_FALSE)"
  | "key_args (KeyMux a b c) = (Mux, a, b, c)"

text \<open>
  What a call promises: the store is still good and only grew, the call did not run out of
  fuel, it failed only in a store that is full, and a returned literal denotes \<open>F\<close> and
  has a tree of at most \<open>W\<close> nodes.
\<close>

definition canon_post ::
  "('s, 'e) canonical_ops \<Rightarrow> ('s \<Rightarrow> bool) \<Rightarrow> ('s \<Rightarrow> bool) \<Rightarrow> 's \<Rightarrow> (env \<Rightarrow> bool) \<Rightarrow> nat
    \<Rightarrow> ('s, 'e) canonical_result \<Rightarrow> bool"
  where "canon_post ops good full s F W res \<longleftrightarrow>
    good (snd res) \<and> gate_view ops s \<subseteq>\<^sub>m gate_view ops (snd res) \<and> fst res \<noteq> Inl OutOfFuel \<and>
    (\<forall>e. fst res = Inl (StoreError e) \<longrightarrow> full (snd res)) \<and>
    (\<forall>l. fst res = Inr l \<longrightarrow>
       valid_lit (gate_view ops (snd res)) l \<and>
       (\<forall>env. eval_lit (gate_view ops (snd res)) env l = F env) \<and>
       lit_size (gate_view ops (snd res)) l \<le> W)"

end
