(* ===== verification/Canonical_Correct.thy ===== *)
theory Canonical_Correct
  imports Canonical
begin

text \<open>
  Correctness and termination of the canonicalisation rules, once for every store that
  keeps the contract \<open>canonical_store\<close>.
\<close>

section \<open>Evaluation and size over a well-formed view\<close>

lemma wf_constD: "wf_gates g \<Longrightarrow> g NodeId_CONSTANT = Some GConst"
  by (simp add: wf_gates_def)

lemma wf_litD:
  assumes "wf_gates g" and "g n = Some x" and "l \<in> gate_lits x"
  shows "lit_index l < NodeId_index n" and "valid_lit g l"
  using assms unfolding wf_gates_def by blast+

lemma eval_lit_phase [simp]:
  "eval_lit g env (inverted l) = (\<not> eval_lit g env l)"
  "eval_lit g env (with_phase l p) = (eval_lit g env l \<noteq> p)"
  "eval_lit g env (positive l) = (eval_lit g env l \<noteq> is_inverted l)"
  by (auto simp: eval_lit_def)

lemma lit_size_phase [simp]:
  "lit_size g (inverted l) = lit_size g l"
  "lit_size g (with_phase l p) = lit_size g l"
  "lit_size g (positive l) = lit_size g l"
  by (simp_all add: lit_size_def)

lemma valid_lit_phase [simp]:
  "valid_lit g (inverted l) = valid_lit g l"
  "valid_lit g (with_phase l p) = valid_lit g l"
  "valid_lit g (positive l) = valid_lit g l"
  by (simp_all add: valid_lit_def)

lemma tree_size_pos: "0 < tree_size g n"
  by (subst tree_size.simps) (auto split: option.splits gate.splits)

lemma lit_size_pos: "0 < lit_size g l" "Suc 0 \<le> lit_size g l"
  using tree_size_pos [of g "Lit_node l"] by (simp_all add: lit_size_def)

lemma eval_const [simp]:
  assumes "wf_gates g"
  shows "\<not> eval_lit g env Lit_FALSE" and "eval_lit g env Lit_TRUE"
    and "eval_lit g env (LogicBuilder_constant b) = b"
  using wf_constD [OF assms]
  by (simp_all add: eval_lit_def LogicBuilder_constant_def eval_node.simps [of g env NodeId_CONSTANT])

lemma valid_const [simp]:
  assumes "wf_gates g"
  shows "valid_lit g Lit_FALSE" and "valid_lit g Lit_TRUE" and "valid_lit g (LogicBuilder_constant b)"
  using wf_constD [OF assms] by (simp_all add: valid_lit_def LogicBuilder_constant_def)

lemma size_const [simp]:
  assumes "wf_gates g"
  shows "lit_size g Lit_FALSE = 1" and "lit_size g Lit_TRUE = 1"
    and "lit_size g (LogicBuilder_constant b) = 1"
  using wf_constD [OF assms]
  by (simp_all add: lit_size_def LogicBuilder_constant_def tree_size.simps [of g NodeId_CONSTANT])

lemma gate_eval:
  assumes "wf_gates g" and "g (Lit_node l) = Some x" and "\<not> is_inverted l"
  shows "x = GAnd a b \<Longrightarrow> eval_lit g env l = (eval_lit g env a \<and> eval_lit g env b)"
    and "x = GXor a b \<Longrightarrow> eval_lit g env l = (eval_lit g env a \<noteq> eval_lit g env b)"
    and "x = GMux a b c \<Longrightarrow>
      eval_lit g env l = (if eval_lit g env a then eval_lit g env b else eval_lit g env c)"
  using wf_litD [OF assms(1,2)] assms(2,3)
  by (auto simp: eval_lit_def eval_node.simps [of g env "Lit_node l"])

lemma gate_size:
  assumes "wf_gates g" and "g (Lit_node l) = Some x"
  shows "x = GAnd a b \<Longrightarrow> lit_size g l = 1 + lit_size g a + lit_size g b"
    and "x = GXor a b \<Longrightarrow> lit_size g l = 1 + lit_size g a + lit_size g b"
    and "x = GMux a b c \<Longrightarrow> lit_size g l = 1 + lit_size g a + lit_size g b + lit_size g c"
  using wf_litD [OF assms] assms(2)
  by (auto simp: lit_size_def tree_size.simps [of g "Lit_node l"])

text \<open>Growing a store changes neither the meaning nor the size of what it already holds.\<close>

lemma eval_node_mono:
  assumes "wf_gates g" and "g \<subseteq>\<^sub>m g'" and "g n = Some x"
  shows "eval_node g' env n = eval_node g env n"
  using assms(3)
proof (induction "NodeId_index n" arbitrary: n x rule: less_induct)
  case less
  have g': "g' n = Some x" using less.prems assms(2) by (auto simp: map_le_def dom_def)
  have sub: "eval_node g' env (Lit_node l) = eval_node g env (Lit_node l)" if "l \<in> gate_lits x" for l
    using wf_litD [OF assms(1) less.prems that] less.hyps by (auto simp: valid_lit_def)
  show ?case
    using less.prems g' sub
    by (cases x) (simp_all add: eval_node.simps [of _ env n])
qed

lemma tree_size_mono:
  assumes "wf_gates g" and "g \<subseteq>\<^sub>m g'" and "g n = Some x"
  shows "tree_size g' n = tree_size g n"
  using assms(3)
proof (induction "NodeId_index n" arbitrary: n x rule: less_induct)
  case less
  have g': "g' n = Some x" using less.prems assms(2) by (auto simp: map_le_def dom_def)
  have sub: "tree_size g' (Lit_node l) = tree_size g (Lit_node l)" if "l \<in> gate_lits x" for l
    using wf_litD [OF assms(1) less.prems that] less.hyps by (auto simp: valid_lit_def)
  show ?case
    using less.prems g' sub
    by (cases x) (simp_all add: tree_size.simps [of _ n])
qed

lemma view_mono:
  assumes "wf_gates g" and "g \<subseteq>\<^sub>m g'" and "valid_lit g l"
  shows "eval_lit g' env l = eval_lit g env l" and "lit_size g' l = lit_size g l"
    and "valid_lit g' l"
proof -
  obtain x where x: "g (Lit_node l) = Some x" using assms(3) by (auto simp: valid_lit_def)
  then have "g' (Lit_node l) = Some x" using assms(2) by (auto simp: map_le_def dom_def)
  then show "valid_lit g' l" by (simp add: valid_lit_def)
  show "eval_lit g' env l = eval_lit g env l"
    by (simp add: eval_lit_def eval_node_mono [OF assms(1,2) x])
  show "lit_size g' l = lit_size g l"
    by (simp add: lit_size_def tree_size_mono [OF assms(1,2) x])
qed

section \<open>The fanin queries read the view\<close>

lemma binary_fanins_And:
  assumes "binary_fanins ops s l And = Some (a, b)"
  shows "\<not> is_inverted l" and "gate_view ops s (Lit_node l) = Some (GAnd a b)"
  using assms by (auto simp: binary_fanins_def gate_view_def split: if_splits option.splits)

lemma binary_fanins_Xor:
  assumes "binary_fanins ops s l Xor = Some (a, b)"
  shows "\<not> is_inverted l" and "gate_view ops s (Lit_node l) = Some (GXor a b)"
  using assms by (auto simp: binary_fanins_def gate_view_def split: if_splits option.splits)

lemma mux_fanins_Mux:
  assumes "mux_fanins ops s l = Some (a, b, c)"
  shows "\<not> is_inverted l" and "gate_view ops s (Lit_node l) = Some (GMux a b c)"
  using assms by (auto simp: mux_fanins_def gate_view_def split: if_splits option.splits)

lemma and_node_facts:
  assumes "wf_gates (gate_view ops s)" and "binary_fanins ops s l And = Some (a, b)"
  shows "eval_lit (gate_view ops s) env l =
      (eval_lit (gate_view ops s) env a \<and> eval_lit (gate_view ops s) env b)"
    and "lit_size (gate_view ops s) l = 1 + lit_size (gate_view ops s) a + lit_size (gate_view ops s) b"
    and "valid_lit (gate_view ops s) a" and "valid_lit (gate_view ops s) b"
  using gate_eval(1) [OF assms(1) binary_fanins_And(2,1) [OF assms(2)]]
    gate_size(1) [OF assms(1) binary_fanins_And(2) [OF assms(2)]]
    wf_litD(2) [OF assms(1) binary_fanins_And(2) [OF assms(2)]]
  by auto

lemma xor_node_facts:
  assumes "wf_gates (gate_view ops s)" and "binary_fanins ops s l Xor = Some (a, b)"
  shows "eval_lit (gate_view ops s) env l =
      (eval_lit (gate_view ops s) env a \<noteq> eval_lit (gate_view ops s) env b)"
    and "lit_size (gate_view ops s) l = 1 + lit_size (gate_view ops s) a + lit_size (gate_view ops s) b"
    and "valid_lit (gate_view ops s) a" and "valid_lit (gate_view ops s) b"
  using gate_eval(2) [OF assms(1) binary_fanins_Xor(2,1) [OF assms(2)]]
    gate_size(2) [OF assms(1) binary_fanins_Xor(2) [OF assms(2)]]
    wf_litD(2) [OF assms(1) binary_fanins_Xor(2) [OF assms(2)]]
  by auto

lemma mux_node_facts:
  assumes "wf_gates (gate_view ops s)" and "mux_fanins ops s l = Some (a, b, c)"
  shows "eval_lit (gate_view ops s) env l =
      (if eval_lit (gate_view ops s) env a then eval_lit (gate_view ops s) env b
       else eval_lit (gate_view ops s) env c)"
    and "lit_size (gate_view ops s) l =
      1 + lit_size (gate_view ops s) a + lit_size (gate_view ops s) b + lit_size (gate_view ops s) c"
    and "valid_lit (gate_view ops s) a" and "valid_lit (gate_view ops s) b"
    and "valid_lit (gate_view ops s) c"
  using gate_eval(3) [OF assms(1) mux_fanins_Mux(2,1) [OF assms(2)]]
    gate_size(3) [OF assms(1) mux_fanins_Mux(2) [OF assms(2)]]
    wf_litD(2) [OF assms(1) mux_fanins_Mux(2) [OF assms(2)]]
  by auto

lemma complementary_product_factor_cases:
  assumes "complementary_product_factor left right = Some (sel, t, e)"
  shows "(left = (sel, t) \<or> left = (t, sel)) \<and> (right = (inverted sel, e) \<or> right = (e, inverted sel))"
  using assms
  by (cases left; cases right) (auto simp: complementary_product_factor_def split: if_splits)

lemma xor_remaining_cases:
  assumes "xor_remaining f l = Some r"
  shows "f = (l, r) \<or> f = (r, l)"
  using assms by (cases f) (auto simp: xor_remaining_def split: if_splits)

lemma xor_shared_cases:
  assumes "xor_shared lf rf = Some (a, b)"
  shows "\<exists>x y c. lf = Some x \<and> rf = Some y \<and>
    (x = (c, a) \<or> x = (a, c)) \<and> (y = (c, b) \<or> y = (b, c))"
  using assms
  by (auto simp: xor_shared_def xor_shared_remaining_def split: option.splits prod.splits
      dest!: xor_remaining_cases)

section \<open>The contract of a store\<close>

locale canonical_store =
  fixes ops :: "('s, 'e) canonical_ops"
    and good :: "'s \<Rightarrow> bool"
    and full :: "'s \<Rightarrow> bool"
  assumes view_wf: "good s \<Longrightarrow> wf_gates (gate_view ops s)"
    and resolve_law:
      "\<lbrakk>good s; \<forall>l \<in> gate_lits (key_gate key). valid_lit (gate_view ops s) l;
        key_args key = (kind, f0, f1, f2); op_resolve ops s key kind f0 f1 f2 origin = (r, s')\<rbrakk>
       \<Longrightarrow> good s' \<and> gate_view ops s \<subseteq>\<^sub>m gate_view ops s' \<and> (\<forall>e. r = Inl e \<longrightarrow> full s') \<and>
           (\<forall>l. r = Inr l \<longrightarrow> \<not> is_inverted l \<and> gate_view ops s' (Lit_node l) = Some (key_gate key))"
begin

abbreviation ev :: "'s \<Rightarrow> env \<Rightarrow> Lit \<Rightarrow> bool"
  where "ev s \<equiv> eval_lit (gate_view ops s)"

abbreviation sz :: "'s \<Rightarrow> Lit \<Rightarrow> nat"
  where "sz s \<equiv> lit_size (gate_view ops s)"

abbreviation vl :: "'s \<Rightarrow> Lit \<Rightarrow> bool"
  where "vl s \<equiv> valid_lit (gate_view ops s)"

abbreviation post :: "'s \<Rightarrow> (env \<Rightarrow> bool) \<Rightarrow> nat \<Rightarrow> ('s, 'e) canonical_result \<Rightarrow> bool"
  where "post \<equiv> canon_post ops good full"

lemma post_ret:
  assumes "good s" and "vl s l" and "\<And>env. ev s env l = F env" and "sz s l \<le> W"
  shows "post s F W (Inr l, s)"
  using assms by (simp add: canon_post_def)

lemma post_weaken:
  assumes "post s F W res" and "\<And>env. F env = F' env" and "W \<le> W'"
  shows "post s F' W' res"
  using assms by (auto simp: canon_post_def)

lemma post_smap:
  assumes "post s F W res" and "\<And>env. (F env \<noteq> p) = F' env"
  shows "post s F' W (smap (\<lambda>l. with_phase l p) res)"
  using assms by (cases res; cases "fst res") (auto simp: canon_post_def)

lemma post_smap_inverted:
  assumes "post s F W res" and "\<And>env. (\<not> F env) = F' env"
  shows "post s F' W (smap inverted res)"
  using post_smap [OF assms(1), of True F'] assms(2) by (simp add: with_phase_def)

text \<open>Sequencing: what held of old literals still holds in the store the first call leaves.\<close>

lemma post_sbind:
  assumes "post s F W res"
    and "\<And>l s'. \<lbrakk>res = (Inr l, s'); good s'; gate_view ops s \<subseteq>\<^sub>m gate_view ops s'; vl s' l;
       \<And>env. ev s' env l = F env; sz s' l \<le> W\<rbrakk> \<Longrightarrow> post s' G V (f l s')"
  shows "post s G V (sbind res f)"
proof (cases "fst res")
  case (Inl e)
  with assms(1) show ?thesis by (cases res) (auto simp: canon_post_def)
next
  case (Inr l)
  then obtain s' where res: "res = (Inr l, s')" by (cases res) auto
  with assms(1) have first: "good s'" "gate_view ops s \<subseteq>\<^sub>m gate_view ops s'" "vl s' l"
    "\<And>env. ev s' env l = F env" "sz s' l \<le> W"
    by (simp_all add: canon_post_def)
  with res assms(2) have "post s' G V (f l s')" by blast
  with first(2) res show ?thesis by (auto simp: canon_post_def intro: map_le_trans)
qed

lemma post_resolve:
  assumes "good s" and "\<forall>l \<in> gate_lits (key_gate key). vl s l"
    and "key_args key = (kind, f0, f1, f2)"
    and "\<And>s' l env. \<lbrakk>good s'; gate_view ops s \<subseteq>\<^sub>m gate_view ops s'; \<not> is_inverted l;
       gate_view ops s' (Lit_node l) = Some (key_gate key)\<rbrakk> \<Longrightarrow> ev s' env l = F env \<and> sz s' l \<le> W"
  shows "post s F W (resolve ops s key kind f0 f1 f2 origin)"
proof -
  obtain r s' where r: "op_resolve ops s key kind f0 f1 f2 origin = (r, s')" by fastforce
  note law = resolve_law [OF assms(1-3) r]
  show ?thesis
  proof (cases r)
    case (Inl e)
    with r law show ?thesis by (simp add: resolve_def canon_post_def)
  next
    case (Inr l)
    with r law assms(4) show ?thesis by (auto simp: resolve_def canon_post_def valid_lit_def)
  qed
qed

text \<open>The three ways a new node can be asked for.\<close>

lemma post_resolve_And:
  assumes s: "good s" and a: "vl s a" and b: "vl s b"
  shows "post s (\<lambda>env. ev s env a \<and> ev s env b) (sz s a + sz s b + 1)
    (resolve ops s (KeyAnd a b) And a b Lit_FALSE origin)"
proof (rule post_resolve [OF s])
  fix s' l env
  assume s': "good s'" "gate_view ops s \<subseteq>\<^sub>m gate_view ops s'" and "\<not> is_inverted l"
    and g: "gate_view ops s' (Lit_node l) = Some (key_gate (KeyAnd a b))"
  then show "ev s' env l = (ev s env a \<and> ev s env b) \<and> sz s' l \<le> sz s a + sz s b + 1"
    using gate_eval(1) [OF view_wf g] gate_size(1) [OF view_wf g]
      view_mono [OF view_wf [OF s] s'(2) a] view_mono [OF view_wf [OF s] s'(2) b]
    by simp
qed (use a b in auto)

lemma post_resolve_Xor:
  assumes s: "good s" and a: "vl s a" and b: "vl s b"
  shows "post s (\<lambda>env. ev s env a \<noteq> ev s env b) (sz s a + sz s b + 1)
    (resolve ops s (KeyXor a b) Xor a b Lit_FALSE origin)"
proof (rule post_resolve [OF s])
  fix s' l env
  assume s': "good s'" "gate_view ops s \<subseteq>\<^sub>m gate_view ops s'" and "\<not> is_inverted l"
    and g: "gate_view ops s' (Lit_node l) = Some (key_gate (KeyXor a b))"
  then show "ev s' env l = (ev s env a \<noteq> ev s env b) \<and> sz s' l \<le> sz s a + sz s b + 1"
    using gate_eval(2) [OF view_wf g] gate_size(2) [OF view_wf g]
      view_mono [OF view_wf [OF s] s'(2) a] view_mono [OF view_wf [OF s] s'(2) b]
    by simp
qed (use a b in auto)

lemma post_resolve_Mux:
  assumes s: "good s" and a: "vl s a" and b: "vl s b" and c: "vl s c"
  shows "post s (\<lambda>env. if ev s env a then ev s env b else ev s env c) (sz s a + sz s b + sz s c + 1)
    (resolve ops s (KeyMux a b c) Mux a b c origin)"
proof (rule post_resolve [OF s])
  fix s' l env
  assume s': "good s'" "gate_view ops s \<subseteq>\<^sub>m gate_view ops s'" and "\<not> is_inverted l"
    and g: "gate_view ops s' (Lit_node l) = Some (key_gate (KeyMux a b c))"
  then show "ev s' env l = (if ev s env a then ev s env b else ev s env c) \<and>
      sz s' l \<le> sz s a + sz s b + sz s c + 1"
    using gate_eval(3) [OF view_wf g] gate_size(3) [OF view_wf g]
      view_mono [OF view_wf [OF s] s'(2) a] view_mono [OF view_wf [OF s] s'(2) b]
      view_mono [OF view_wf [OF s] s'(2) c]
    by simp
qed (use a b c in auto)

text \<open>A rule table is a chain of guarded answers.\<close>

lemma post_if:
  assumes "c \<Longrightarrow> post s F W x" and "\<not> c \<Longrightarrow> post s F W y"
  shows "post s F W (if c then x else y)"
  using assms by simp

section \<open>Conjunction\<close>

lemma fanins_include_implies:
  assumes "good s" and "fanins_include (binary_fanins ops s l And) r"
  shows "ev s env l \<Longrightarrow> ev s env r"
  using assms and_node_facts(1) [OF view_wf [OF assms(1)], of l _ _ env]
  by (auto simp: fanins_include_def split: option.splits)

lemma canonical_and_post:
  assumes s: "good s" and l: "vl s l" and r: "vl s r"
  shows "post s (\<lambda>env. ev s env l \<and> ev s env r) (sz s l + sz s r + 1) (canonical_and ops s l r origin)"
proof -
  note wf = view_wf [OF s]
  have ord: "post s (\<lambda>env. ev s env l \<and> ev s env r) (sz s l + sz s r + 1)
      (case ordered l r of (a, b) \<Rightarrow> resolve ops s (KeyAnd a b) And a b Lit_FALSE origin)"
    using post_resolve_And [OF s l r] post_resolve_And [OF s r l]
    by (auto simp: ordered_def add.commute conj_commute)
  have absorb: "ev s env l \<Longrightarrow> ev s env r"
    if "is_inverted r" "fanins_include (binary_fanins ops s (positive r) And) (inverted l)"
    for env
    using fanins_include_implies [OF s that(2), of env] that(1) by auto
  have absorb': "ev s env r \<Longrightarrow> ev s env l"
    if "is_inverted l" "fanins_include (binary_fanins ops s (positive l) And) (inverted r)"
    for env
    using fanins_include_implies [OF s that(2), of env] that(1) by auto
  show ?thesis
    unfolding canonical_and_def
    by (intro post_if; (rule ord)?; rule post_ret [OF s])
      (use s l r wf absorb absorb' fanins_include_implies [OF s] in auto)
qed

section \<open>Exclusive or\<close>

lemma post_option:
  assumes "\<And>x. m = Some x \<Longrightarrow> post s F W (f x)" and "m = None \<Longrightarrow> post s F W y"
  shows "post s F W (case m of None \<Rightarrow> y | Some x \<Rightarrow> f x)"
  using assms by (cases m) auto

lemma xor_fold_facts:
  assumes "good s" and "xor_fold (binary_fanins ops s l Xor) r = Some x"
  shows "ev s env x = (ev s env l \<noteq> ev s env r)" and "sz s x \<le> sz s l" and "vl s x"
proof -
  obtain a b where f: "binary_fanins ops s l Xor = Some (a, b)"
    and c: "(a, b) = (r, x) \<or> (a, b) = (x, r)"
    using assms(2) by (auto simp: xor_fold_def split: option.splits dest!: xor_remaining_cases)
  note n = xor_node_facts [OF view_wf [OF assms(1)] f]
  show "ev s env x = (ev s env l \<noteq> ev s env r)" using n(1) [of env] c by auto
  show "sz s x \<le> sz s l" "vl s x" using n c by auto
qed

lemma xor_shared_facts:
  assumes "good s"
    and "xor_shared (binary_fanins ops s l Xor) (binary_fanins ops s r Xor) = Some (a, b)"
  shows "(ev s env a \<noteq> ev s env b) = (ev s env l \<noteq> ev s env r)"
    and "sz s a + sz s b + 2 \<le> sz s l + sz s r" and "vl s a" and "vl s b"
proof -
  obtain x y c where f: "binary_fanins ops s l Xor = Some x" "binary_fanins ops s r Xor = Some y"
    and c: "x = (c, a) \<or> x = (a, c)" "y = (c, b) \<or> y = (b, c)"
    using xor_shared_cases [OF assms(2)] by blast
  obtain x1 x2 y1 y2 where xy: "x = (x1, x2)" "y = (y1, y2)" by (cases x; cases y)
  note n = xor_node_facts [OF view_wf [OF assms(1)] f(1) [unfolded xy]]
    xor_node_facts [OF view_wf [OF assms(1)] f(2) [unfolded xy]]
  show "(ev s env a \<noteq> ev s env b) = (ev s env l \<noteq> ev s env r)"
    using n(1,5) [of env] c xy by auto
  show "sz s a + sz s b + 2 \<le> sz s l + sz s r" using n(2,6) c xy by auto
  show "vl s a" "vl s b" using n c xy by auto
qed

lemma canonical_xor_post:
  assumes "good s" and "vl s l" and "vl s r" and "sz s l + sz s r < fuel"
  shows "post s (\<lambda>env. ev s env l \<noteq> ev s env r) (sz s l + sz s r + 1)
    (canonical_xor fuel ops s l r origin)"
  using assms
proof (induction fuel arbitrary: s l r)
  case 0
  then show ?case by simp
next
  case (Suc fuel)
  note s = Suc.prems(1) and wf = view_wf [OF Suc.prems(1)]
  let ?l = "positive l" and ?r = "positive r"
  let ?lf = "binary_fanins ops s ?l Xor" and ?rf = "binary_fanins ops s ?r Xor"
  let ?p = "is_inverted l \<noteq> is_inverted r"
  let ?post = "post s (\<lambda>env. ev s env l \<noteq> ev s env r) (sz s l + sz s r + 1)"
  have fold_l: "?post (Inr (with_phase x ?p), s)" if "xor_fold ?lf ?r = Some x" for x
    by (rule post_ret [OF s]) (use xor_fold_facts [OF s that] in auto)
  have fold_r: "?post (Inr (with_phase x ?p), s)" if "xor_fold ?rf ?l = Some x" for x
    by (rule post_ret [OF s]) (use xor_fold_facts [OF s that] in auto)
  have shared: "?post (smap (\<lambda>l. with_phase l ?p) (canonical_xor fuel ops s a b origin))"
    if h: "xor_shared ?lf ?rf = Some (a, b)" for a b
  proof -
    note f = xor_shared_facts [OF s h]
    have "post s (\<lambda>env. ev s env a \<noteq> ev s env b) (sz s a + sz s b + 1)
        (canonical_xor fuel ops s a b origin)"
      using Suc.prems f by (intro Suc.IH [OF s]) auto
    then show ?thesis
      by (intro post_smap [OF post_weaken, where F = "\<lambda>env. ev s env ?l \<noteq> ev s env ?r"])
        (use f in auto)
  qed
  have new: "?post (case ordered ?l ?r of (a, b) \<Rightarrow>
      smap (\<lambda>l. with_phase l ?p) (resolve ops s (KeyXor a b) Xor a b Lit_FALSE origin))"
    using post_smap [OF post_resolve_Xor [OF s, of ?l ?r], of ?p "\<lambda>env. ev s env l \<noteq> ev s env r"]
      post_smap [OF post_resolve_Xor [OF s, of ?r ?l], of ?p "\<lambda>env. ev s env l \<noteq> ev s env r"]
      Suc.prems(2,3)
    by (auto simp: ordered_def add.commute)
  have eq: "?post (Inr (LogicBuilder_constant ?p), s)" if "?l = ?r"
  proof (rule post_ret [OF s])
    show "ev s env (LogicBuilder_constant ?p) = (ev s env l \<noteq> ev s env r)" for env
      using arg_cong [OF that, of "ev s env"] wf by auto
  qed (use wf in auto)
  show ?case
    unfolding canonical_xor.simps Let_def
    by (intro post_if post_option; (rule fold_l fold_r new eq, assumption?)?;
        (rule post_ret [OF s])?)
      (use s wf Suc.prems shared in \<open>auto split: prod.splits\<close>)
qed

section \<open>Disjunction and multiplexer\<close>

text \<open>What the mutually recursive calls are assumed to do on expressions of size below \<open>n\<close>.\<close>

definition mux_spec :: "nat \<Rightarrow> ('s, 'e) mux_fn \<Rightarrow> bool"
  where "mux_spec n mux \<longleftrightarrow> (\<forall>s a b c origin.
    good s \<longrightarrow> vl s a \<longrightarrow> vl s b \<longrightarrow> vl s c \<longrightarrow> sz s a + sz s b + sz s c < n \<longrightarrow>
    post s (\<lambda>env. if ev s env a then ev s env b else ev s env c) (sz s a + sz s b + sz s c + 1)
      (mux s a b c origin))"

definition or_spec :: "nat \<Rightarrow> ('s, 'e) or_fn \<Rightarrow> bool"
  where "or_spec n orf \<longleftrightarrow> (\<forall>s a b origin.
    good s \<longrightarrow> vl s a \<longrightarrow> vl s b \<longrightarrow> sz s a + sz s b < n \<longrightarrow>
    post s (\<lambda>env. ev s env a \<or> ev s env b) (sz s a + sz s b + 1) (orf s a b origin))"

definition xor_spec :: "nat \<Rightarrow> ('s, 'e) or_fn \<Rightarrow> bool"
  where "xor_spec n xorf \<longleftrightarrow> (\<forall>s a b origin.
    good s \<longrightarrow> vl s a \<longrightarrow> vl s b \<longrightarrow> sz s a + sz s b < n \<longrightarrow>
    post s (\<lambda>env. ev s env a \<noteq> ev s env b) (sz s a + sz s b + 1) (xorf s a b origin))"

lemma mux_specD:
  assumes "mux_spec n mux" and "good s" and "vl s a" and "vl s b" and "vl s c"
    and "sz s a + sz s b + sz s c < n"
    and "\<And>env. (if ev s env a then ev s env b else ev s env c) = F env"
    and "sz s a + sz s b + sz s c + 1 \<le> W"
  shows "post s F W (mux s a b c origin)"
  using assms(1-6) by (intro post_weaken [OF _ assms(7,8)]) (simp add: mux_spec_def)

lemma or_specD:
  assumes "or_spec n orf" and "good s" and "vl s a" and "vl s b" and "sz s a + sz s b < n"
    and "\<And>env. (ev s env a \<or> ev s env b) = F env" and "sz s a + sz s b + 1 \<le> W"
  shows "post s F W (orf s a b origin)"
  using assms(1-5) by (intro post_weaken [OF _ assms(6,7)]) (simp add: or_spec_def)

lemma xor_specD:
  assumes "xor_spec n xorf" and "good s" and "vl s a" and "vl s b" and "sz s a + sz s b < n"
    and "\<And>env. (ev s env a \<noteq> ev s env b) = F env" and "sz s a + sz s b + 1 \<le> W"
  shows "post s F W (xorf s a b origin)"
  using assms(1-5) by (intro post_weaken [OF _ assms(6,7)]) (simp add: xor_spec_def)

text \<open>A multiplexer over a literal that the previous call has just produced, in each position.\<close>

lemma mux_after:
  assumes mux: "mux_spec n mux" and s: "good s" and res: "post s C W res"
    and b: "vl s b" and c: "vl s c"
  shows "\<lbrakk>W + sz s b + sz s c < n; \<And>env. (if C env then ev s env b else ev s env c) = F env;
      W + sz s b + sz s c + 1 \<le> V\<rbrakk>
      \<Longrightarrow> post s F V (sbind res (\<lambda>a s'. mux s' a b c origin))"
    and "\<lbrakk>sz s b + W + sz s c < n; \<And>env. (if ev s env b then C env else ev s env c) = F env;
      sz s b + W + sz s c + 1 \<le> V\<rbrakk>
      \<Longrightarrow> post s F V (sbind res (\<lambda>a s'. mux s' b a c origin))"
    and "\<lbrakk>sz s b + sz s c + W < n; \<And>env. (if ev s env b then ev s env c else C env) = F env;
      sz s b + sz s c + W + 1 \<le> V\<rbrakk>
      \<Longrightarrow> post s F V (sbind res (\<lambda>a s'. mux s' b c a origin))"
proof -
  have old: "\<lbrakk>W + sz s b + sz s c < n; \<And>env. (if C env then ev s env b else ev s env c) = F env;
      W + sz s b + sz s c + 1 \<le> V\<rbrakk> \<Longrightarrow> post s' F V (mux s' a b c origin)"
    "\<lbrakk>sz s b + W + sz s c < n; \<And>env. (if ev s env b then C env else ev s env c) = F env;
      sz s b + W + sz s c + 1 \<le> V\<rbrakk> \<Longrightarrow> post s' F V (mux s' b a c origin)"
    "\<lbrakk>sz s b + sz s c + W < n; \<And>env. (if ev s env b then ev s env c else C env) = F env;
      sz s b + sz s c + W + 1 \<le> V\<rbrakk> \<Longrightarrow> post s' F V (mux s' b c a origin)"
    if h: "good s'" "gate_view ops s \<subseteq>\<^sub>m gate_view ops s'" "vl s' a" "\<And>env. ev s' env a = C env"
      "sz s' a \<le> W" for a s' F V
  proof -
    note ob = view_mono [OF view_wf [OF s] h(2) b] and oc = view_mono [OF view_wf [OF s] h(2) c]
    show "\<lbrakk>W + sz s b + sz s c < n; \<And>env. (if C env then ev s env b else ev s env c) = F env;
        W + sz s b + sz s c + 1 \<le> V\<rbrakk> \<Longrightarrow> post s' F V (mux s' a b c origin)"
      by (rule mux_specD [OF mux h(1,3) ob(3) oc(3)]) (use h ob oc in \<open>simp_all split del: if_split cong: if_cong\<close>)
    show "\<lbrakk>sz s b + W + sz s c < n; \<And>env. (if ev s env b then C env else ev s env c) = F env;
        sz s b + W + sz s c + 1 \<le> V\<rbrakk> \<Longrightarrow> post s' F V (mux s' b a c origin)"
      by (rule mux_specD [OF mux h(1) ob(3) h(3) oc(3)]) (use h ob oc in \<open>simp_all split del: if_split cong: if_cong\<close>)
    show "\<lbrakk>sz s b + sz s c + W < n; \<And>env. (if ev s env b then ev s env c else C env) = F env;
        sz s b + sz s c + W + 1 \<le> V\<rbrakk> \<Longrightarrow> post s' F V (mux s' b c a origin)"
      by (rule mux_specD [OF mux h(1) ob(3) oc(3) h(3)]) (use h ob oc in \<open>simp_all split del: if_split cong: if_cong\<close>)
  qed
  show "post s F V (sbind res (\<lambda>a s'. mux s' a b c origin))"
    if "W + sz s b + sz s c < n" "\<And>env. (if C env then ev s env b else ev s env c) = F env"
      "W + sz s b + sz s c + 1 \<le> V"
    by (rule post_sbind [OF res], rule old(1)) (assumption | rule that)+
  show "post s F V (sbind res (\<lambda>a s'. mux s' b a c origin))"
    if "sz s b + W + sz s c < n" "\<And>env. (if ev s env b then C env else ev s env c) = F env"
      "sz s b + W + sz s c + 1 \<le> V"
    by (rule post_sbind [OF res], rule old(2)) (assumption | rule that)+
  show "post s F V (sbind res (\<lambda>a s'. mux s' b c a origin))"
    if "sz s b + sz s c + W < n" "\<And>env. (if ev s env b then ev s env c else C env) = F env"
      "sz s b + sz s c + W + 1 \<le> V"
    by (rule post_sbind [OF res], rule old(3)) (assumption | rule that)+
qed

lemma or_body_post:
  assumes mux: "mux_spec n mux" and s: "good s" and l: "vl s l" and r: "vl s r"
    and n: "sz s l + sz s r < Suc n"
  shows "post s (\<lambda>env. ev s env l \<or> ev s env r) (sz s l + sz s r + 1) (or_body ops mux s l r origin)"
proof -
  note wf = view_wf [OF s]
  have demorgan: "post s (\<lambda>env. ev s env l \<or> ev s env r) (sz s l + sz s r + 1)
      (smap inverted (canonical_and ops s (inverted l) (inverted r) origin))"
    using canonical_and_post [OF s, of "inverted l" "inverted r" origin] l r
    by (intro post_smap_inverted) auto
  have factored: "post s (\<lambda>env. ev s env l \<or> ev s env r) (sz s l + sz s r + 1) (mux s a b c origin)"
    if f: "binary_fanins ops s l And = Some (x1, x2)" "binary_fanins ops s r And = Some (y1, y2)"
      and h: "complementary_product_factor (x1, x2) (y1, y2) = Some (a, b, c)" for x1 x2 y1 y2 a b c
  proof -
    note nl = and_node_facts [OF wf f(1)] and nr = and_node_facts [OF wf f(2)]
    note k = complementary_product_factor_cases [OF h]
    have v: "vl s a" "vl s b" "vl s c" using nl nr k by auto
    have z: "sz s a + sz s b + sz s c + 3 \<le> sz s l + sz s r"
      using nl(2) nr(2) k lit_size_pos(2) [of "gate_view ops s" a] by auto
    have e: "(if ev s env a then ev s env b else ev s env c) = (ev s env l \<or> ev s env r)" for env
      using nl(1) [of env] nr(1) [of env] k by auto
    show ?thesis by (rule mux_specD [OF mux s v]) (use z n e in auto)
  qed
  show ?thesis
    unfolding or_body_def
    by (auto intro: demorgan factored split: option.split simp del: One_nat_def)
qed

text \<open>The stages of the multiplexer table, from the last one backwards.\<close>

lemma mux_factor_post:
  assumes mux: "mux_spec n mux" and s: "good s" and v: "vl s a" "vl s t" "vl s e"
    and n: "sz s a + sz s t + sz s e < Suc n"
  shows "post s (\<lambda>env. if ev s env a then ev s env t else ev s env e)
    (sz s a + sz s t + sz s e + 1) (mux_factor ops mux s a t e origin)"
proof -
  note wf = view_wf [OF s] and new = post_resolve_Mux [OF s v, of origin]
  let ?post = "post s (\<lambda>env. if ev s env a then ev s env t else ev s env e) (sz s a + sz s t + sz s e + 1)"
  have same_then: "?post (sbind (mux s a te ee origin) (\<lambda>r s'. mux s' k tt r origin))"
    if f: "mux_fanins ops s t = Some (k, tt, te)" "mux_fanins ops s e = Some (k, tt, ee)" for k tt te ee
  proof -
    note nt = mux_node_facts [OF wf f(1)] and ne = mux_node_facts [OF wf f(2)]
    have first: "post s (\<lambda>env. if ev s env a then ev s env te else ev s env ee)
        (sz s a + sz s te + sz s ee + 1) (mux s a te ee origin)"
      by (rule mux_specD [OF mux s v(1) nt(5) ne(5)]) (use n nt(2) ne(2) in auto)
    show ?thesis
      by (rule mux_after(3) [OF mux s first nt(3,4)]) (use n nt(1,2) ne(1,2) in auto)
  qed
  have same_else: "?post (sbind (mux s a tt et origin) (\<lambda>r s'. mux s' k r te origin))"
    if f: "mux_fanins ops s t = Some (k, tt, te)" "mux_fanins ops s e = Some (k, et, te)" for k tt te et
  proof -
    note nt = mux_node_facts [OF wf f(1)] and ne = mux_node_facts [OF wf f(2)]
    have first: "post s (\<lambda>env. if ev s env a then ev s env tt else ev s env et)
        (sz s a + sz s tt + sz s et + 1) (mux s a tt et origin)"
      by (rule mux_specD [OF mux s v(1) nt(4) ne(4)]) (use n nt(2) ne(2) in auto)
    show ?thesis
      by (rule mux_after(2) [OF mux s first nt(3,5)]) (use n nt(1,2) ne(1,2) in auto)
  qed
  show ?thesis
    unfolding mux_factor_def Let_def
    by (auto intro: new same_then same_else split: option.split simp del: One_nat_def split del: if_split
        intro!: post_if)
qed

lemma mux_merge_else_post:
  assumes mux: "mux_spec n mux" and orf: "or_spec n orf"
    and s: "good s" and v: "vl s a" "vl s t" "vl s e"
    and n: "sz s a + sz s t + sz s e < Suc n"
  shows "post s (\<lambda>env. if ev s env a then ev s env t else ev s env e)
    (sz s a + sz s t + sz s e + 1) (mux_merge_else ops orf mux s a t e origin)"
proof (cases "mux_fanins ops s e")
  case None
  with mux_factor_post [OF mux s v n] show ?thesis by (simp add: mux_merge_else_def)
next
  case (Some f)
  obtain k it ie where f: "mux_fanins ops s e = Some (k, it, ie)" using Some by (cases f) auto
  note ne = mux_node_facts [OF view_wf [OF s] f]
  note pos = lit_size_pos(2) [of "gate_view ops s" it] lit_size_pos(2) [of "gate_view ops s" ie]
  let ?post = "post s (\<lambda>env. if ev s env a then ev s env t else ev s env e) (sz s a + sz s t + sz s e + 1)"
  have both: "?post (sbind (orf s a k origin) (\<lambda>c s'. mux s' c it ie origin))" if "t = it"
  proof -
    have first: "post s (\<lambda>env. ev s env a \<or> ev s env k) (sz s a + sz s k + 1) (orf s a k origin)"
      by (rule or_specD [OF orf s v(1) ne(3)]) (use n ne(2) in auto)
    show ?thesis by (rule mux_after(1) [OF mux s first ne(4,5)]) (use n ne(1,2) pos that in auto)
  qed
  have crossed: "?post (sbind (canonical_and ops s (inverted a) k origin) (\<lambda>c s'. mux s' c it ie origin))"
    if "t = ie"
  proof -
    note first = canonical_and_post [OF s, of "inverted a" k origin, simplified, OF v(1) ne(3)]
    show ?thesis by (rule mux_after(1) [OF mux s first ne(4,5)]) (use n ne(1,2) pos that in auto)
  qed
  show ?thesis
    unfolding mux_merge_else_def f option.case prod.case
    by (intro post_if both crossed mux_factor_post [OF mux s v n])
qed

lemma mux_merge_then_post:
  assumes mux: "mux_spec n mux" and orf: "or_spec n orf"
    and s: "good s" and v: "vl s a" "vl s t" "vl s e"
    and n: "sz s a + sz s t + sz s e < Suc n"
  shows "post s (\<lambda>env. if ev s env a then ev s env t else ev s env e)
    (sz s a + sz s t + sz s e + 1) (mux_merge_then ops orf mux s a t e origin)"
proof (cases "mux_fanins ops s t")
  case None
  with mux_merge_else_post [OF mux orf s v n] show ?thesis by (simp add: mux_merge_then_def)
next
  case (Some f)
  obtain k it ie where f: "mux_fanins ops s t = Some (k, it, ie)" using Some by (cases f) auto
  note nt = mux_node_facts [OF view_wf [OF s] f]
  note pos = lit_size_pos(2) [of "gate_view ops s" it] lit_size_pos(2) [of "gate_view ops s" ie]
  let ?post = "post s (\<lambda>env. if ev s env a then ev s env t else ev s env e) (sz s a + sz s t + sz s e + 1)"
  have both: "?post (sbind (canonical_and ops s a k origin) (\<lambda>c s'. mux s' c it ie origin))" if "e = ie"
  proof -
    note first = canonical_and_post [OF s v(1) nt(3), of origin]
    show ?thesis by (rule mux_after(1) [OF mux s first nt(4,5)]) (use n nt(1,2) pos that in auto)
  qed
  have crossed: "?post (sbind (orf s (inverted a) k origin) (\<lambda>c s'. mux s' c it ie origin))"
    if "e = it"
  proof -
    have first: "post s (\<lambda>env. \<not> ev s env a \<or> ev s env k) (sz s a + sz s k + 1) (orf s (inverted a) k origin)"
      by (rule or_specD [OF orf s]) (use v nt(3) n nt(2) in auto)
    show ?thesis by (rule mux_after(1) [OF mux s first nt(4,5)]) (use n nt(1,2) pos that in auto)
  qed
  show ?thesis
    unfolding mux_merge_then_def f option.case prod.case
    by (intro post_if both crossed mux_merge_else_post [OF mux orf s v n])
qed

lemma collapse_facts:
  assumes "good s" and "ev s env a"
  shows "collapse_then ops s a t = Some x \<Longrightarrow> ev s env x = ev s env t"
  using assms mux_node_facts(1) [OF view_wf, of s t _ _ _ env]
  by (auto simp: collapse_then_def split: option.splits if_splits)

lemma collapse_else_facts:
  assumes "good s" and "\<not> ev s env a"
  shows "collapse_else ops s a e = Some x \<Longrightarrow> ev s env x = ev s env e"
  using assms mux_node_facts(1) [OF view_wf, of s e _ _ _ env]
  by (auto simp: collapse_else_def split: option.splits if_splits)

lemma collapse_size:
  assumes "good s" and "vl s t"
  shows "collapse_then ops s a t = Some x \<Longrightarrow> sz s x < sz s t \<and> vl s x"
    and "collapse_else ops s a t = Some x \<Longrightarrow> sz s x < sz s t \<and> vl s x"
  using assms mux_node_facts [OF view_wf, of s t]
  by (fastforce simp: collapse_then_def collapse_else_def split: option.splits if_splits)+

lemma mux_nested_post:
  assumes mux: "mux_spec n mux" and orf: "or_spec n orf"
    and s: "good s" and v: "vl s a" "vl s t" "vl s e"
    and n: "sz s a + sz s t + sz s e < Suc n"
  shows "post s (\<lambda>env. if ev s env a then ev s env t else ev s env e)
    (sz s a + sz s t + sz s e + 1) (mux_nested ops orf mux s a t e origin)"
proof -
  let ?t = "option_or (collapse_then ops s a t) t" and ?e = "option_or (collapse_else ops s a e) e"
  have size: "sz s ?t \<le> sz s t" "sz s ?e \<le> sz s e" "vl s ?t" "vl s ?e"
    using collapse_size(1) [OF s v(2), of a] collapse_size(2) [OF s v(3), of a] v
    by (auto simp: option_or_def split: option.splits dest: less_imp_le)
  have less: "sz s ?t + sz s ?e < sz s t + sz s e"
    if "collapse_then ops s a t \<noteq> None \<or> collapse_else ops s a e \<noteq> None"
    using that size(1,2) collapse_size(1) [OF s v(2), of a] collapse_size(2) [OF s v(3), of a]
    by (fastforce simp: option_or_def)
  have same: "(if ev s env a then ev s env ?t else ev s env ?e) =
      (if ev s env a then ev s env t else ev s env e)" for env
  proof (cases "ev s env a")
    case True
    then show ?thesis
      using collapse_facts [OF s True] by (cases "collapse_then ops s a t") (simp_all add: option_or_def)
  next
    case False
    then show ?thesis
      using collapse_else_facts [OF s False] by (cases "collapse_else ops s a e") (simp_all add: option_or_def)
  qed
  show ?thesis
    unfolding mux_nested_def Let_def
    by (intro post_if mux_merge_then_post [OF mux orf s v n] mux_specD [OF mux s v(1) size(3,4) _ same])
      (use n size less in auto)
qed

lemma mux_reduce_post:
  assumes xorf: "xor_spec n xorf" and mux: "mux_spec n mux" and orf: "or_spec n orf"
    and s: "good s" and v: "vl s a" "vl s t" "vl s e"
    and n: "sz s a + sz s t + sz s e < Suc n"
  shows "post s (\<lambda>env. if ev s env a then ev s env t else ev s env e)
    (sz s a + sz s t + sz s e + 1) (mux_reduce ops xorf orf mux s a t e origin)"
proof -
  note wf = view_wf [OF s]
  have pos: "Suc 0 \<le> sz s t" "Suc 0 \<le> sz s e" by (rule lit_size_pos)+
  let ?F = "\<lambda>env. if ev s env a then ev s env t else ev s env e"
  let ?post = "post s ?F (sz s a + sz s t + sz s e + 1)"
  have xor: "?post (xorf s a e origin)" if "t = inverted e"
    by (rule xor_specD [OF xorf s v(1,3)]) (use that n pos in auto)
  have or1: "?post (orf s a e origin)" if "t = Lit_TRUE \<or> t = a"
    by (rule or_specD [OF orf s v(1,3)]) (use that wf n pos in auto)
  have and1: "?post (canonical_and ops s (inverted a) e origin)" if "t = Lit_FALSE \<or> t = inverted a"
    by (rule post_weaken [OF canonical_and_post [OF s]]) (use that v wf n in auto)
  have and2: "?post (canonical_and ops s a t origin)" if "e = Lit_FALSE \<or> e = a"
    by (rule post_weaken [OF canonical_and_post [OF s]]) (use that v wf n in auto)
  have or2: "?post (orf s (inverted a) t origin)" if "e = Lit_TRUE \<or> e = inverted a"
    by (rule or_specD [OF orf s]) (use that v wf n pos in auto)
  show ?thesis
    unfolding mux_reduce_def
    by (intro post_if xor or1 and1 and2 or2 mux_nested_post [OF mux orf s v n])
qed

lemma mux_body_post:
  assumes xorf: "xor_spec n xorf" and mux: "mux_spec n mux" and orf: "or_spec n orf"
    and s: "good s" and v: "vl s a" "vl s t" "vl s e"
    and n: "sz s a + sz s t + sz s e < Suc n"
  shows "post s (\<lambda>env. if ev s env a then ev s env t else ev s env e)
    (sz s a + sz s t + sz s e + 1) (mux_body ops xorf orf mux s a t e origin)"
proof -
  note wf = view_wf [OF s]
  let ?F = "\<lambda>env. if ev s env a then ev s env t else ev s env e"
  let ?post = "post s ?F (sz s a + sz s t + sz s e + 1)"
  have phase: "?post (smap (\<lambda>l. with_phase l p)
      (mux_reduce ops xorf orf mux s a' (if p then positive t' else t') (if p then positive e' else e') origin))"
    if sel: "(a', t', e') = (if is_inverted a then (positive a, e, t) else (a, t, e))"
      and p: "p = (is_inverted t' \<and> is_inverted e')" for a' t' e' p
  proof -
    let ?t = "if p then positive t' else t'" and ?e = "if p then positive e' else e'"
    have red: "post s (\<lambda>env. if ev s env a' then ev s env ?t else ev s env ?e)
        (sz s a' + sz s ?t + sz s ?e + 1) (mux_reduce ops xorf orf mux s a' ?t ?e origin)"
      by (rule mux_reduce_post [OF xorf mux orf s]) (use sel v n in \<open>auto split: if_splits\<close>)
    have "post s (\<lambda>env. ?F env \<noteq> p) (sz s a + sz s t + sz s e + 1)
        (mux_reduce ops xorf orf mux s a' ?t ?e origin)"
      by (rule post_weaken [OF red]) (use sel p in \<open>auto split: if_splits\<close>)
    then show ?thesis by (rule post_smap) auto
  qed
  show ?thesis
    unfolding mux_body_def Let_def
    by (intro post_if; (rule post_ret [OF s])?)
      (use s wf v phase in \<open>auto split: prod.split simp del: One_nat_def\<close>)
qed

section \<open>The rules together\<close>

lemma canonical_xor_spec: "xor_spec n (\<lambda>s. canonical_xor n ops s)"
  unfolding xor_spec_def using canonical_xor_post by blast

lemma canonical_or_mux_spec:
  "or_spec n (\<lambda>s. canonical_or n ops s) \<and> mux_spec n (\<lambda>s. canonical_mux n ops s)"
proof (induction n)
  case 0
  show ?case by (simp add: or_spec_def mux_spec_def)
next
  case (Suc n)
  then have orf: "or_spec n (\<lambda>s. canonical_or n ops s)" and mux: "mux_spec n (\<lambda>s. canonical_mux n ops s)"
    by auto
  have "or_spec (Suc n) (\<lambda>s. canonical_or (Suc n) ops s)"
    unfolding or_spec_def canonical_or.simps using or_body_post [OF mux] by blast
  moreover have "mux_spec (Suc n) (\<lambda>s. canonical_mux (Suc n) ops s)"
    unfolding mux_spec_def canonical_mux.simps
    using mux_body_post [OF canonical_xor_spec mux orf] by blast
  ultimately show ?case ..
qed

lemma canonical_or_post:
  assumes "good s" and "vl s l" and "vl s r" and "sz s l + sz s r < fuel"
  shows "post s (\<lambda>env. ev s env l \<or> ev s env r) (sz s l + sz s r + 1) (canonical_or fuel ops s l r origin)"
  using or_specD [OF conjunct1 [OF canonical_or_mux_spec] assms] by auto

lemma canonical_mux_post:
  assumes "good s" and "vl s a" and "vl s t" and "vl s e" and "sz s a + sz s t + sz s e < fuel"
  shows "post s (\<lambda>env. if ev s env a then ev s env t else ev s env e) (sz s a + sz s t + sz s e + 1)
    (canonical_mux fuel ops s a t e origin)"
  using mux_specD [OF conjunct2 [OF canonical_or_mux_spec] assms] by auto

end

end
