(* ===== verification/Logic_Builder.thy ===== *)
theory Logic_Builder
  imports Canonical_Correct
begin

text \<open>
  \<^verbatim>\<open>LogicNetwork\<close> and \<^verbatim>\<open>LogicBuilder\<close> of
  \<^verbatim>\<open>crates/opto-ir/src/logic.rs\<close>: the node arena as parallel vectors, the
  structural hash table of the builder, and the builder as an instance of the store
  contract. The builder extends the network by the table, so \<^verbatim>\<open>freeze\<close> drops it.
\<close>

section \<open>State and operations\<close>

record LogicNetwork =
  kinds :: "NodeKind vec"
  fanin0 :: "Lit vec"
  fanin1 :: "Lit vec"
  fanin2 :: "Lit vec"
  levels :: "u32 vec"
  origins :: "u32 vec"

record LogicBuilder = LogicNetwork +
  interned :: "NodeKey \<rightharpoonup> NodeId"

definition node_count :: "'a LogicNetwork_scheme \<Rightarrow> nat"
  where "node_count net = length (kinds net)"

definition net_kind :: "'a LogicNetwork_scheme \<Rightarrow> NodeId \<Rightarrow> NodeKind option"
  where "net_kind net node = list_get (kinds net) (NodeId_index node)"

fun kind_arity :: "NodeKind \<Rightarrow> nat"
  where
    "kind_arity Constant = 0"
  | "kind_arity Input = 0"
  | "kind_arity And = 2"
  | "kind_arity Xor = 2"
  | "kind_arity Mux = 3"

definition fanin_count :: "'a LogicNetwork_scheme \<Rightarrow> NodeId \<Rightarrow> nat option"
  where "fanin_count net node = map_option kind_arity (net_kind net node)"

definition net_fanin :: "'a LogicNetwork_scheme \<Rightarrow> NodeId \<Rightarrow> nat \<Rightarrow> Lit option"
  where "net_fanin net node index =
    (if index = 0 then list_get (fanin0 net) (NodeId_index node)
     else if index = 1 then list_get (fanin1 net) (NodeId_index node)
     else if index = 2 then list_get (fanin2 net) (NodeId_index node)
     else None)"

definition net_level :: "'a LogicNetwork_scheme \<Rightarrow> NodeId \<Rightarrow> u32 option"
  where "net_level net node = list_get (levels net) (NodeId_index node)"

definition net_origin :: "'a LogicNetwork_scheme \<Rightarrow> NodeId \<Rightarrow> u32 option"
  where "net_origin net node = list_get (origins net) (NodeId_index node)"

definition LogicBuilder_new :: LogicBuilder
  where "LogicBuilder_new =
    \<lparr>kinds = [Constant], fanin0 = [Lit_FALSE], fanin1 = [Lit_FALSE], fanin2 = [Lit_FALSE],
     levels = [0], origins = [0], interned = Map.empty\<rparr>"

definition fanin_levels :: "'a LogicNetwork_scheme \<Rightarrow> NodeKind \<Rightarrow> Lit \<Rightarrow> Lit \<Rightarrow> Lit \<Rightarrow> u32 list"
  where "fanin_levels net kind f0 f1 f2 =
    List.map_filter (\<lambda>f. list_get (levels net) (lit_index f)) (take (kind_arity kind) [f0, f1, f2])"

definition new_level :: "'a LogicNetwork_scheme \<Rightarrow> NodeKind \<Rightarrow> Lit \<Rightarrow> Lit \<Rightarrow> Lit \<Rightarrow> u32 option"
  where "new_level net kind f0 f1 f2 =
    checked_add (fold max (fanin_levels net kind f0 f1 f2) 0)
      (if kind = Constant \<or> kind = Input then 0 else 1)"

definition append_node ::
  "'a LogicNetwork_scheme \<Rightarrow> NodeKind \<Rightarrow> Lit \<Rightarrow> Lit \<Rightarrow> Lit \<Rightarrow> u32 \<Rightarrow> u32 \<Rightarrow> 'a LogicNetwork_scheme"
  where "append_node b kind f0 f1 f2 level origin =
    b\<lparr>kinds := kinds b @ [kind], fanin0 := fanin0 b @ [f0], fanin1 := fanin1 b @ [f1],
      fanin2 := fanin2 b @ [f2], levels := levels b @ [level], origins := origins b @ [origin]\<rparr>"

definition push ::
  "LogicBuilder \<Rightarrow> NodeKind \<Rightarrow> Lit \<Rightarrow> Lit \<Rightarrow> Lit \<Rightarrow> u32 \<Rightarrow> (LogicBuilder, logic_error, Lit) outcome"
  where "push b kind f0 f1 f2 origin =
    (case NodeId_from_index (length (kinds b)) of
       Inl e \<Rightarrow> (Inl e, b)
     | Inr node \<Rightarrow>
         (case new_level b kind f0 f1 f2 of
            None \<Rightarrow> (Inl (LogicError_capacity ''level''), b)
          | Some level \<Rightarrow> (Lit_from_node node, append_node b kind f0 f1 f2 level origin)))"

definition intern ::
  "LogicBuilder \<Rightarrow> NodeKey \<Rightarrow> NodeKind \<Rightarrow> Lit \<Rightarrow> Lit \<Rightarrow> Lit \<Rightarrow> u32 \<Rightarrow> (LogicBuilder, logic_error, Lit) outcome"
  where "intern b key kind f0 f1 f2 origin =
    (case interned b key of
       Some node \<Rightarrow> (Lit_from_node node, b)
     | None \<Rightarrow> sbind (push b kind f0 f1 f2 origin)
         (\<lambda>literal b'. (Inr literal, b'\<lparr>interned := (interned b')(key \<mapsto> Lit_node literal)\<rparr>)))"

definition LogicBuilder_input :: "LogicBuilder \<Rightarrow> u32 \<Rightarrow> (LogicBuilder, logic_error, Lit) outcome"
  where "LogicBuilder_input b origin = push b Input Lit_FALSE Lit_FALSE Lit_FALSE origin"

definition LogicBuilder_not :: "Lit \<Rightarrow> Lit"
  where "LogicBuilder_not l = inverted l"

definition builder_ops :: "(LogicBuilder, logic_error) canonical_ops"
  where "builder_ops = \<lparr>op_kind = net_kind, op_fanin = net_fanin, op_resolve = intern\<rparr>"

type_synonym builder_result = "(LogicBuilder, logic_error) canonical_result"

definition builder_gates :: "LogicBuilder \<Rightarrow> gates"
  where "builder_gates b = gate_view builder_ops b"

text \<open>The recursion budget of a call: one more than the trees of its arguments together.\<close>

definition call_fuel :: "gates \<Rightarrow> Lit list \<Rightarrow> nat"
  where "call_fuel g ls = Suc (sum_list (map (lit_size g) ls))"

definition LogicBuilder_and :: "LogicBuilder \<Rightarrow> Lit \<Rightarrow> Lit \<Rightarrow> u32 \<Rightarrow> builder_result"
  where "LogicBuilder_and b left right origin = canonical_and builder_ops b left right origin"

definition LogicBuilder_or :: "LogicBuilder \<Rightarrow> Lit \<Rightarrow> Lit \<Rightarrow> u32 \<Rightarrow> builder_result"
  where "LogicBuilder_or b left right origin =
    canonical_or (call_fuel (builder_gates b) [left, right]) builder_ops b left right origin"

definition LogicBuilder_xor :: "LogicBuilder \<Rightarrow> Lit \<Rightarrow> Lit \<Rightarrow> u32 \<Rightarrow> builder_result"
  where "LogicBuilder_xor b left right origin =
    canonical_xor (call_fuel (builder_gates b) [left, right]) builder_ops b left right origin"

definition LogicBuilder_mux :: "LogicBuilder \<Rightarrow> Lit \<Rightarrow> Lit \<Rightarrow> Lit \<Rightarrow> u32 \<Rightarrow> builder_result"
  where "LogicBuilder_mux b select then_value else_value origin =
    canonical_mux (call_fuel (builder_gates b) [select, then_value, else_value])
      builder_ops b select then_value else_value origin"

definition freeze :: "LogicBuilder \<Rightarrow> LogicNetwork"
  where "freeze b =
    \<lparr>kinds = kinds b, fanin0 = fanin0 b, fanin1 = fanin1 b, fanin2 = fanin2 b,
     levels = levels b, origins = origins b\<rparr>"

lemma freeze_simps [simp]:
  "kinds (freeze b) = kinds b" "fanin0 (freeze b) = fanin0 b" "fanin1 (freeze b) = fanin1 b"
  "fanin2 (freeze b) = fanin2 b" "levels (freeze b) = levels b" "origins (freeze b) = origins b"
  by (simp_all add: freeze_def)

section \<open>Invariant\<close>

text \<open>The node at an index, read off the vectors.\<close>

definition gate_at :: "'a LogicNetwork_scheme \<Rightarrow> nat \<Rightarrow> gate"
  where "gate_at b i =
    (case kinds b ! i of
       Constant \<Rightarrow> GConst
     | Input \<Rightarrow> GInput
     | And \<Rightarrow> GAnd (fanin0 b ! i) (fanin1 b ! i)
     | Xor \<Rightarrow> GXor (fanin0 b ! i) (fanin1 b ! i)
     | Mux \<Rightarrow> GMux (fanin0 b ! i) (fanin1 b ! i) (fanin2 b ! i))"

definition lengths_ok :: "'a LogicNetwork_scheme \<Rightarrow> bool"
  where "lengths_ok b \<longleftrightarrow>
    length (fanin0 b) = length (kinds b) \<and> length (fanin1 b) = length (kinds b) \<and>
    length (fanin2 b) = length (kinds b) \<and> length (levels b) = length (kinds b) \<and>
    length (origins b) = length (kinds b) \<and> length (kinds b) \<le> 2 ^ 32"

definition topology_ok :: "'a LogicNetwork_scheme \<Rightarrow> bool"
  where "topology_ok b \<longleftrightarrow>
    kinds b \<noteq> [] \<and> gate_at b 0 = GConst \<and>
    (\<forall>i < length (kinds b). \<forall>l \<in> gate_lits (gate_at b i). lit_index l < i)"

fun gate_level :: "(nat \<Rightarrow> nat) \<Rightarrow> gate \<Rightarrow> nat"
  where
    "gate_level lev (GAnd a b) = Suc (max (lev (lit_index a)) (lev (lit_index b)))"
  | "gate_level lev (GXor a b) = Suc (max (lev (lit_index a)) (lev (lit_index b)))"
  | "gate_level lev (GMux a b c) =
      Suc (max (lev (lit_index a)) (max (lev (lit_index b)) (lev (lit_index c))))"
  | "gate_level lev _ = 0"

definition levels_ok :: "'a LogicNetwork_scheme \<Rightarrow> bool"
  where "levels_ok b \<longleftrightarrow>
    (\<forall>i < length (kinds b). unat (levels b ! i) \<le> i \<and>
      unat (levels b ! i) = gate_level (\<lambda>j. unat (levels b ! j)) (gate_at b i))"

text \<open>
  The hash table maps a key to the node that has it, and every node a literal can name and
  that has a key is the one the table returns, so no two such nodes share a key.
\<close>

definition table_ok :: "LogicBuilder \<Rightarrow> bool"
  where "table_ok b \<longleftrightarrow>
    (\<forall>key n. interned b key = Some n \<longrightarrow>
       NodeId_index n < length (kinds b) \<and> NodeId_index n < 2 ^ 31 \<and>
       gate_at b (NodeId_index n) = key_gate key) \<and>
    (\<forall>key n. NodeId_index n < length (kinds b) \<longrightarrow> NodeId_index n < 2 ^ 31 \<longrightarrow>
       gate_at b (NodeId_index n) = key_gate key \<longrightarrow> interned b key = Some n)"

definition builder_ok :: "LogicBuilder \<Rightarrow> bool"
  where "builder_ok b \<longleftrightarrow> lengths_ok b \<and> topology_ok b \<and> levels_ok b \<and> table_ok b"

text \<open>More nodes than 31-bit literal indices can name.\<close>

definition builder_full :: "LogicBuilder \<Rightarrow> bool"
  where "builder_full b \<longleftrightarrow> 2 ^ 31 < node_count b"

section \<open>The view of a network\<close>

lemma gate_view_builder:
  assumes "lengths_ok b"
  shows "builder_gates b n =
    (if NodeId_index n < length (kinds b) then Some (gate_at b (NodeId_index n)) else None)"
  using assms
  by (auto simp: builder_gates_def gate_view_def builder_ops_def net_kind_def net_fanin_def
      gate_at_def list_get_def lengths_ok_def split: NodeKind.splits)

lemma builder_wf:
  assumes "builder_ok b"
  shows "wf_gates (builder_gates b)"
  unfolding wf_gates_def
proof (intro conjI allI impI ballI)
  from assms have l: "lengths_ok b" and t: "topology_ok b" by (auto simp: builder_ok_def)
  show "builder_gates b NodeId_CONSTANT = Some GConst"
    using t by (auto simp: gate_view_builder [OF l] topology_ok_def)
  fix n x a assume x: "builder_gates b n = Some x" and a: "a \<in> gate_lits x"
  then have n: "NodeId_index n < length (kinds b)" and "x = gate_at b (NodeId_index n)"
    by (auto simp: gate_view_builder [OF l] split: if_splits)
  with t a show "lit_index a < NodeId_index n" by (auto simp: topology_ok_def)
  with n show "valid_lit (builder_gates b) a"
    by (auto simp: valid_lit_def gate_view_builder [OF l])
qed

lemma key_gate_neq [simp]:
  "key_gate key \<noteq> GConst" "GConst \<noteq> key_gate key"
  "key_gate key \<noteq> GInput" "GInput \<noteq> key_gate key"
  by (cases key; simp)+

lemma key_gate_inj: "key_gate k = key_gate k' \<longleftrightarrow> k = k'"
  by (cases k; cases k') auto

lemma builder_ok_new: "builder_ok LogicBuilder_new"
  by (auto simp: builder_ok_def lengths_ok_def topology_ok_def levels_ok_def table_ok_def
      LogicBuilder_new_def gate_at_def)

section \<open>Appending a node\<close>

fun make_gate :: "NodeKind \<Rightarrow> Lit \<Rightarrow> Lit \<Rightarrow> Lit \<Rightarrow> gate"
  where
    "make_gate Constant a b c = GConst"
  | "make_gate Input a b c = GInput"
  | "make_gate And a b c = GAnd a b"
  | "make_gate Xor a b c = GXor a b"
  | "make_gate Mux a b c = GMux a b c"

lemma append_node_simps [simp]:
  "kinds (append_node b k x y z lv og) = kinds b @ [k]"
  "levels (append_node b k x y z lv og) = levels b @ [lv]"
  "fanin0 (append_node b k x y z lv og) = fanin0 b @ [x]"
  "fanin1 (append_node b k x y z lv og) = fanin1 b @ [y]"
  "fanin2 (append_node b k x y z lv og) = fanin2 b @ [z]"
  "interned (append_node b' k x y z lv og) = interned b'"
  by (simp_all add: append_node_def)

lemma gate_at_append:
  assumes "lengths_ok b" and "i \<le> length (kinds b)"
  shows "gate_at (append_node b k x y z lv og) i =
    (if i = length (kinds b) then make_gate k x y z else gate_at b i)"
  using assms
  by (cases k) (auto simp: gate_at_def lengths_ok_def nth_append split: NodeKind.split)

lemma lengths_ok_append:
  assumes "lengths_ok b" and "length (kinds b) < 2 ^ 32"
  shows "lengths_ok (append_node b k x y z lv og)"
  using assms by (simp add: lengths_ok_def append_node_def)

lemma topology_ok_append:
  assumes "lengths_ok b" and "topology_ok b"
    and "\<forall>l \<in> gate_lits (make_gate k x y z). lit_index l < length (kinds b)"
  shows "topology_ok (append_node b k x y z lv og)"
  using assms by (auto simp: topology_ok_def gate_at_append less_Suc_eq)

text \<open>
  The level of a new node fits: a level never exceeds the index of its node, and an index
  fits in 32 bits.
\<close>

lemma new_level_Some:
  assumes ok: "lengths_ok b" "levels_ok b" and len: "length (kinds b) < 2 ^ 32"
    and fan: "\<forall>l \<in> gate_lits (make_gate k x y z). lit_index l < length (kinds b)"
    and kinds: "kinds b \<noteq> []"
  obtains lv where "new_level b k x y z = Some lv"
    and "unat lv = gate_level (\<lambda>j. unat (levels b ! j)) (make_gate k x y z)"
    and "unat lv \<le> length (kinds b)"
proof -
  have le: "unat (levels b ! j) < length (kinds b)" if "j < length (kinds b)" for j
    using ok(2) that by (fastforce simp: levels_ok_def)
  have get: "list_get (levels b) (lit_index l) = Some (levels b ! lit_index l)"
    if "l \<in> gate_lits (make_gate k x y z)" for l
    using fan that ok(1) by (auto simp: list_get_def lengths_ok_def)
  let ?m = "fold max (fanin_levels b k x y z) (0::u32)"
  let ?one = "if k = Constant \<or> k = Input then 0 else 1 :: u32"
  have max: "unat (max a b) = max (unat a) (unat b)" for a b :: u32
    by (simp add: max_def word_le_nat_alt)
  have lev: "unat ?m + unat ?one = gate_level (\<lambda>j. unat (levels b ! j)) (make_gate k x y z)"
    using get by (cases k)
      (auto simp: fanin_levels_def List.map_filter_def max numeral_2_eq_2 numeral_3_eq_3)
  have small: "gate_level (\<lambda>j. unat (levels b ! j)) (make_gate k x y z) \<le> length (kinds b)"
    using fan le by (cases k) (auto simp: Suc_le_eq)
  have "new_level b k x y z = Some (?m + ?one)"
    using lev small len by (simp add: new_level_def checked_add_def)
  with that lev small show thesis
    using checked_add_SomeD [of ?m ?one] by (auto simp: new_level_def)
qed

lemma levels_ok_append:
  assumes "lengths_ok b" and "topology_ok b" and "levels_ok b"
    and "\<forall>l \<in> gate_lits (make_gate k x y z). lit_index l < length (kinds b)"
    and "unat lv = gate_level (\<lambda>j. unat (levels b ! j)) (make_gate k x y z)"
    and "unat lv \<le> length (kinds b)"
  shows "levels_ok (append_node b k x y z lv og)"
proof -
  have old: "(levels b @ [lv]) ! j = levels b ! j" if "j < length (kinds b)" for j
    using assms(1) that by (simp add: lengths_ok_def nth_append)
  have new: "(levels b @ [lv]) ! length (kinds b) = lv"
    using assms(1) by (simp add: lengths_ok_def nth_append)
  have same: "gate_level (\<lambda>j. unat ((levels b @ [lv]) ! j)) g = gate_level (\<lambda>j. unat (levels b ! j)) g"
    if "\<forall>l \<in> gate_lits g. lit_index l < length (kinds b)" for g
    using that old by (cases g) auto
  have fan: "\<forall>l \<in> gate_lits (gate_at b i). lit_index l < length (kinds b)" if "i < length (kinds b)" for i
    using assms(2) that by (fastforce simp: topology_ok_def)
  show ?thesis
    unfolding levels_ok_def
  proof (intro allI impI)
    fix i assume "i < length (kinds (append_node b k x y z lv og))"
    then consider "i < length (kinds b)" | "i = length (kinds b)" by fastforce
    then show "unat (levels (append_node b k x y z lv og) ! i) \<le> i \<and>
        unat (levels (append_node b k x y z lv og) ! i) =
        gate_level (\<lambda>j. unat (levels (append_node b k x y z lv og) ! j))
          (gate_at (append_node b k x y z lv og) i)"
    proof cases
      case 1
      with assms(3) have "unat (levels b ! i) \<le> i"
        and "gate_level (\<lambda>j. unat (levels b ! j)) (gate_at b i) = unat (levels b ! i)"
        unfolding levels_ok_def by metis+
      with 1 assms(1) fan show ?thesis by (simp add: gate_at_append old same)
    next
      case 2
      with assms same new show ?thesis by (simp add: gate_at_append)
    qed
  qed
qed

section \<open>Pushing and interning\<close>

text \<open>
  A push that returns a literal has appended the node it names; one that fails has either
  left the builder alone or appended a node no literal can name.
\<close>

lemma push_cases:
  assumes ok: "lengths_ok b" "topology_ok b" "levels_ok b"
    and fan: "\<forall>l \<in> gate_lits (make_gate k x y z). lit_index l < length (kinds b)"
    and push: "push b k x y z og = (r, b')"
  obtains (full) e where "r = Inl e" and "b' = b" and "length (kinds b) = 2 ^ 32"
  | (appended) lv where "length (kinds b) < 2 ^ 32" and "b' = append_node b k x y z lv og"
    and "unat lv = gate_level (\<lambda>j. unat (levels b ! j)) (make_gate k x y z)"
    and "unat lv \<le> length (kinds b)"
    and "if length (kinds b) < 2 ^ 31
         then \<exists>l. r = Inr l \<and> lit_index l = length (kinds b) \<and> \<not> is_inverted l
         else \<exists>e. r = Inl e"
proof (cases "length (kinds b) < 2 ^ 32")
  case False
  then have "NodeId_from_index (length (kinds b)) = Inl (LogicError_capacity ''node ID'')"
    by (simp add: NodeId_from_index_def u32_of_usize_def)
  with push full False ok(1) show ?thesis by (auto simp: push_def lengths_ok_def)
next
  case True
  then obtain n where n: "NodeId_from_index (length (kinds b)) = Inr n"
    and idx: "NodeId_index n = length (kinds b)"
    using NodeId_from_index_Inr [of "length (kinds b)"]
    by (cases "NodeId_from_index (length (kinds b))") (auto simp: NodeId_from_index_def u32_of_usize_def)
  obtain lv where lv: "new_level b k x y z = Some lv"
    "unat lv = gate_level (\<lambda>j. unat (levels b ! j)) (make_gate k x y z)" "unat lv \<le> length (kinds b)"
    using new_level_Some [OF ok(1,3) True fan] ok(2) by (auto simp: topology_ok_def)
  have b': "b' = append_node b k x y z lv og" and r: "r = Lit_from_node n"
    using push n lv(1) by (auto simp: push_def)
  show ?thesis
  proof (rule appended [OF True b' lv(2,3)])
    show "if length (kinds b) < 2 ^ 31
        then \<exists>l. r = Inr l \<and> lit_index l = length (kinds b) \<and> \<not> is_inverted l
        else \<exists>e. r = Inl e"
    proof (cases "length (kinds b) < 2 ^ 31")
      case True
      with idx obtain l where "Lit_from_node n = Inr l" "Lit_node l = n" "\<not> is_inverted l"
        by (metis Lit_from_node_ok)
      with True r idx show ?thesis by auto
    next
      case False
      with r idx show ?thesis by (simp add: Lit_from_node_full)
    qed
  qed
qed

lemma table_okD:
  assumes "table_ok b"
  shows "interned b key = Some n \<Longrightarrow> NodeId_index n < length (kinds b)"
    and "interned b key = Some n \<Longrightarrow> NodeId_index n < 2 ^ 31"
    and "interned b key = Some n \<Longrightarrow> gate_at b (NodeId_index n) = key_gate key"
    and "NodeId_index n < length (kinds b) \<Longrightarrow> NodeId_index n < 2 ^ 31 \<Longrightarrow>
      gate_at b (NodeId_index n) = key_gate key \<Longrightarrow> interned b key = Some n"
  using assms unfolding table_ok_def by blast+

lemma table_ok_unnamed:
  assumes ok: "lengths_ok b" "table_ok b"
    and new: "2 ^ 31 \<le> length (kinds b) \<or> (\<forall>key. make_gate k x y z \<noteq> key_gate key)"
  shows "table_ok (append_node b k x y z lv og)"
  unfolding table_ok_def
proof (intro conjI allI impI)
  fix key n assume "interned (append_node b k x y z lv og) key = Some n"
  then have h: "interned b key = Some n" by simp
  note d = table_okD(1-3) [OF ok(2) h]
  show "NodeId_index n < length (kinds (append_node b k x y z lv og))" using d(1) by simp
  show "NodeId_index n < 2 ^ 31" by (rule d(2))
  show "gate_at (append_node b k x y z lv og) (NodeId_index n) = key_gate key"
    using d by (simp add: gate_at_append [OF ok(1)])
next
  fix key n assume h: "NodeId_index n < length (kinds (append_node b k x y z lv og))"
    "NodeId_index n < 2 ^ 31" "gate_at (append_node b k x y z lv og) (NodeId_index n) = key_gate key"
  have "NodeId_index n \<noteq> length (kinds b)"
    using new h(2,3) gate_at_append [OF ok(1), of "NodeId_index n"] by (metis le_refl not_le)
  with h have "NodeId_index n < length (kinds b)" "gate_at b (NodeId_index n) = key_gate key"
    by (simp_all add: gate_at_append [OF ok(1)])
  then show "interned (append_node b k x y z lv og) key = Some n"
    using table_okD(4) [OF ok(2) _ h(2)] by simp
qed

lemma gate_at_interned [simp]: "gate_at (b\<lparr>interned := m\<rparr>) i = gate_at b i"
  by (simp add: gate_at_def split: NodeKind.split)

lemma table_ok_named:
  assumes ok: "lengths_ok b" "table_ok b" and len: "length (kinds b) < 2 ^ 31"
    and none: "interned b key = None" and gate: "make_gate k x y z = key_gate key"
    and n: "NodeId_index n = length (kinds b)"
  shows "table_ok ((append_node b k x y z lv og)\<lparr>interned := (interned b)(key \<mapsto> n)\<rparr>)"
  unfolding table_ok_def
proof (intro conjI allI impI)
  let ?b = "(append_node b k x y z lv og)\<lparr>interned := (interned b)(key \<mapsto> n)\<rparr>"
  fix key' n' assume h: "interned ?b key' = Some n'"
  have "NodeId_index n' < length (kinds ?b) \<and> NodeId_index n' < 2 ^ 31 \<and>
      gate_at ?b (NodeId_index n') = key_gate key'"
  proof (cases "key' = key")
    case True
    with h have "n' = n" by simp
    with True n len gate show ?thesis by (simp add: gate_at_append [OF ok(1)])
  next
    case False
    with h have "interned b key' = Some n'" by simp
    from table_okD(1-3) [OF ok(2) this] show ?thesis by (simp add: gate_at_append [OF ok(1)])
  qed
  then show "NodeId_index n' < length (kinds ?b)" "NodeId_index n' < 2 ^ 31"
      "gate_at ?b (NodeId_index n') = key_gate key'"
    by blast+
next
  let ?b = "(append_node b k x y z lv og)\<lparr>interned := (interned b)(key \<mapsto> n)\<rparr>"
  fix key' n' assume h: "NodeId_index n' < length (kinds ?b)" "NodeId_index n' < 2 ^ 31"
    "gate_at ?b (NodeId_index n') = key_gate key'"
  show "interned ?b key' = Some n'"
  proof (cases "NodeId_index n' = length (kinds b)")
    case True
    with n have "n' = n" by (simp flip: NodeId_index_inj)
    with True h(3) gate ok(1) show ?thesis by (simp add: gate_at_append key_gate_inj)
  next
    case False
    with h have "NodeId_index n' < length (kinds b)" and "gate_at b (NodeId_index n') = key_gate key'"
      using ok(1) by (auto simp: gate_at_append)
    from table_okD(4) [OF ok(2) this(1) h(2) this(2)] have "interned b key' = Some n'" .
    with none show ?thesis by auto
  qed
qed

lemma builder_ok_interned:
  "lengths_ok (b\<lparr>interned := m\<rparr>) = lengths_ok b"
  "topology_ok (b\<lparr>interned := m\<rparr>) = topology_ok b"
  "levels_ok (b\<lparr>interned := m\<rparr>) = levels_ok b"
  by (simp_all add: lengths_ok_def topology_ok_def levels_ok_def)

lemma gates_append:
  assumes "lengths_ok b" and "length (kinds b) < 2 ^ 32"
  shows "builder_gates b \<subseteq>\<^sub>m builder_gates (append_node b k x y z lv og)"
    and "NodeId_index n = length (kinds b) \<Longrightarrow>
      builder_gates (append_node b k x y z lv og) n = Some (make_gate k x y z)"
  using assms lengths_ok_append [OF assms, of k x y z lv og]
  by (auto simp: map_le_def gate_view_builder gate_at_append split: if_splits)

lemma gates_interned: "builder_gates (b\<lparr>interned := m\<rparr>) = builder_gates b"
proof -
  have "net_kind (b\<lparr>interned := m\<rparr>) = net_kind b" "net_fanin (b\<lparr>interned := m\<rparr>) = net_fanin b"
    by (simp_all add: fun_eq_iff net_kind_def net_fanin_def)
  then show ?thesis
    by (simp only: fun_eq_iff builder_gates_def gate_view_def builder_ops_def canonical_ops.simps simp_thms)
qed

lemma key_args_make: "key_args key = (k, x, y, z) \<Longrightarrow> make_gate k x y z = key_gate key"
  by (cases key) auto

lemma intern_law:
  assumes ok: "builder_ok b"
    and fan: "\<forall>l \<in> gate_lits (key_gate key). valid_lit (builder_gates b) l"
    and args: "key_args key = (k, x, y, z)" and res: "intern b key k x y z og = (r, b')"
  shows "builder_ok b' \<and> builder_gates b \<subseteq>\<^sub>m builder_gates b' \<and>
    (\<forall>e. r = Inl e \<longrightarrow> builder_full b') \<and>
    (\<forall>l. r = Inr l \<longrightarrow> \<not> is_inverted l \<and> builder_gates b' (Lit_node l) = Some (key_gate key))"
proof (cases "interned b key")
  case (Some n)
  from ok have l: "lengths_ok b" and t: "table_ok b" by (simp_all add: builder_ok_def)
  note d = table_okD(1-3) [OF t Some]
  obtain l where "Lit_from_node n = Inr l" "Lit_node l = n" "\<not> is_inverted l"
    using d(2) by (rule Lit_from_node_ok)
  with Some res have "r = Inr l" "b' = b" by (auto simp: intern_def)
  with \<open>Lit_node l = n\<close> \<open>\<not> is_inverted l\<close> d ok show ?thesis by (simp add: gate_view_builder [OF l])
next
  case None
  from ok have o: "lengths_ok b" "topology_ok b" "levels_ok b" "table_ok b"
    by (auto simp: builder_ok_def)
  have fan': "\<forall>l \<in> gate_lits (make_gate k x y z). lit_index l < length (kinds b)"
    using fan by (auto simp: key_args_make [OF args] valid_lit_def gate_view_builder [OF o(1)] split: if_splits)
  obtain r0 b0 where p: "push b k x y z og = (r0, b0)" by fastforce
  from o(1-3) fan' p show ?thesis
  proof (cases rule: push_cases)
    case (full e)
    with None p res ok show ?thesis by (auto simp: intern_def builder_full_def node_count_def)
  next
    case (appended lv)
    note tops = lengths_ok_append [OF o(1) appended(1)] topology_ok_append [OF o(1,2) fan']
      levels_ok_append [OF o(1-3) fan' appended(3,4)]
    show ?thesis
    proof (cases "length (kinds b) < 2 ^ 31")
      case True
      with appended(5) obtain l where l: "r0 = Inr l" "lit_index l = length (kinds b)" "\<not> is_inverted l"
        by auto
      have b': "b' = (append_node b k x y z lv og)\<lparr>interned := (interned b)(key \<mapsto> Lit_node l)\<rparr>"
        and r: "r = Inr l"
        using None p res l(1) appended(2) by (auto simp: intern_def)
      have "builder_ok b'"
        unfolding b' builder_ok_def builder_ok_interned
        using tops table_ok_named [OF o(1,4) True None key_args_make [OF args] l(2)] by blast
      then show ?thesis
        using gates_append(1) [OF o(1) appended(1), of k x y z lv og]
          gates_append(2) [OF o(1) appended(1) l(2), of k x y z lv og] l key_args_make [OF args] r
        by (simp add: b' gates_interned)
    next
      case False
      with appended(5) obtain e where e: "r0 = Inl e" by auto
      then have b': "b' = append_node b k x y z lv og" and r: "r = Inl e"
        using None p res appended(2) by (auto simp: intern_def)
      have "builder_ok b'"
        unfolding b' builder_ok_def using tops table_ok_unnamed [OF o(1,4)] False by auto
      then show ?thesis
        using gates_append(1) [OF o(1) appended(1), of k x y z lv og] r False
        by (simp add: b' builder_full_def node_count_def)
    qed
  qed
qed

text \<open>The builder keeps the contract of a canonical store.\<close>

interpretation bld: canonical_store builder_ops builder_ok builder_full
proof unfold_locales
  show "wf_gates (gate_view builder_ops b)" if "builder_ok b" for b
    using builder_wf [OF that] by (simp add: builder_gates_def)
next
  fix b key kind f0 f1 f2 origin r b'
  assume "builder_ok b" "\<forall>l\<in>gate_lits (key_gate key). valid_lit (gate_view builder_ops b) l"
    "key_args key = (kind, f0, f1, f2)" "op_resolve builder_ops b key kind f0 f1 f2 origin = (r, b')"
  then show "builder_ok b' \<and> gate_view builder_ops b \<subseteq>\<^sub>m gate_view builder_ops b' \<and>
      (\<forall>e. r = Inl e \<longrightarrow> builder_full b') \<and>
      (\<forall>l. r = Inr l \<longrightarrow> \<not> is_inverted l \<and> gate_view builder_ops b' (Lit_node l) = Some (key_gate key))"
    using intern_law [of b key kind f0 f1 f2 origin r b'] by (simp add: builder_gates_def builder_ops_def)
qed

section \<open>What the operations of the builder promise\<close>

text \<open>
  A call is correct when the builder is still well formed and only grew, every literal it
  had keeps its meaning, and the call either returns a literal that denotes \<open>F\<close> or fails
  because literals can no longer name the nodes; it never fails to return.
\<close>

definition builder_call :: "LogicBuilder \<Rightarrow> (env \<Rightarrow> bool) \<Rightarrow> builder_result \<Rightarrow> bool"
  where "builder_call b F res \<longleftrightarrow>
    builder_ok (snd res) \<and> builder_gates b \<subseteq>\<^sub>m builder_gates (snd res) \<and>
    (\<forall>l env. valid_lit (builder_gates b) l \<longrightarrow>
       eval_lit (builder_gates (snd res)) env l = eval_lit (builder_gates b) env l) \<and>
    ((\<exists>x. fst res = Inr x \<and> valid_lit (builder_gates (snd res)) x \<and>
        (\<forall>env. eval_lit (builder_gates (snd res)) env x = F env)) \<or>
     (\<exists>e. fst res = Inl (StoreError e) \<and> builder_full (snd res)))"

lemma builder_callI:
  assumes "builder_ok b" and "canon_post builder_ops builder_ok builder_full b F W res"
  shows "builder_call b F res"
proof -
  from assms(2) have p: "builder_ok (snd res)" "builder_gates b \<subseteq>\<^sub>m builder_gates (snd res)"
    "fst res \<noteq> Inl OutOfFuel" "\<And>e. fst res = Inl (StoreError e) \<Longrightarrow> builder_full (snd res)"
    "\<And>x. fst res = Inr x \<Longrightarrow> valid_lit (builder_gates (snd res)) x \<and>
       (\<forall>env. eval_lit (builder_gates (snd res)) env x = F env)"
    by (auto simp: canon_post_def builder_gates_def)
  have "(\<exists>x. fst res = Inr x) \<or> (\<exists>e. fst res = Inl (StoreError e))"
    using p(3) by (metis canonical_error.exhaust sum.exhaust)
  with p view_mono [OF builder_wf [OF assms(1)] p(2)] show ?thesis
    unfolding builder_call_def by blast
qed

text \<open>The calls, for the components that build on them.\<close>

lemma builder_and_call:
  assumes "builder_ok b" and "valid_lit (builder_gates b) l" and "valid_lit (builder_gates b) r"
  shows "builder_call b (\<lambda>env. eval_lit (builder_gates b) env l \<and> eval_lit (builder_gates b) env r)
    (LogicBuilder_and b l r origin)"
  using builder_callI [OF assms(1) bld.canonical_and_post [OF assms [unfolded builder_gates_def]]]
  by (simp add: LogicBuilder_and_def builder_gates_def)

lemma builder_or_call:
  assumes "builder_ok b" and "valid_lit (builder_gates b) l" and "valid_lit (builder_gates b) r"
  shows "builder_call b (\<lambda>env. eval_lit (builder_gates b) env l \<or> eval_lit (builder_gates b) env r)
    (LogicBuilder_or b l r origin)"
  unfolding LogicBuilder_or_def builder_gates_def
  by (rule builder_callI [OF assms(1) bld.canonical_or_post [OF assms [unfolded builder_gates_def]]])
    (simp add: call_fuel_def)

lemma builder_xor_call:
  assumes "builder_ok b" and "valid_lit (builder_gates b) l" and "valid_lit (builder_gates b) r"
  shows "builder_call b (\<lambda>env. eval_lit (builder_gates b) env l \<noteq> eval_lit (builder_gates b) env r)
    (LogicBuilder_xor b l r origin)"
  unfolding LogicBuilder_xor_def builder_gates_def
  by (rule builder_callI [OF assms(1) bld.canonical_xor_post [OF assms [unfolded builder_gates_def]]])
    (simp add: call_fuel_def)

lemma builder_mux_call:
  assumes "builder_ok b" and "valid_lit (builder_gates b) s"
    and "valid_lit (builder_gates b) t" and "valid_lit (builder_gates b) e"
  shows "builder_call b (\<lambda>env. if eval_lit (builder_gates b) env s then eval_lit (builder_gates b) env t
      else eval_lit (builder_gates b) env e)
    (LogicBuilder_mux b s t e origin)"
  unfolding LogicBuilder_mux_def builder_gates_def
  by (rule builder_callI [OF assms(1) bld.canonical_mux_post [OF assms [unfolded builder_gates_def]]])
    (simp add: call_fuel_def add.assoc)

text \<open>
  C4: conjunction in the builder is correct and total: on a well-formed builder and valid
  operands the call keeps the invariant, changes the meaning of no existing literal, and
  returns a literal for the conjunction unless literals have run out.
\<close>

theorem LogicBuilder_and_correct:
  assumes "builder_ok b" and "valid_lit (builder_gates b) l" and "valid_lit (builder_gates b) r"
  shows "builder_call b (\<lambda>env. eval_lit (builder_gates b) env l \<and> eval_lit (builder_gates b) env r)
    (LogicBuilder_and b l r origin)"
  by (rule builder_and_call [OF assms])

text \<open>
  C2: disjunction in the builder, through the rule that turns two complementary products into
  a multiplexer and the mutual recursion with the multiplexer rules, is correct and always returns.
\<close>

theorem LogicBuilder_or_correct:
  assumes "builder_ok b" and "valid_lit (builder_gates b) l" and "valid_lit (builder_gates b) r"
  shows "builder_call b (\<lambda>env. eval_lit (builder_gates b) env l \<or> eval_lit (builder_gates b) env r)
    (LogicBuilder_or b l r origin)"
  by (rule builder_or_call [OF assms])

text \<open>
  C3: exclusive or in the builder, with its phase normalisation and the recursive cancellation
  of shared operands, is correct and always returns.
\<close>

theorem LogicBuilder_xor_correct:
  assumes "builder_ok b" and "valid_lit (builder_gates b) l" and "valid_lit (builder_gates b) r"
  shows "builder_call b (\<lambda>env. eval_lit (builder_gates b) env l \<noteq> eval_lit (builder_gates b) env r)
    (LogicBuilder_xor b l r origin)"
  by (rule builder_xor_call [OF assms])

text \<open>
  C1: the multiplexer of the builder, whose rules call each other on nodes they have just
  built, is correct and its recursion always ends.
\<close>

theorem LogicBuilder_mux_correct:
  assumes "builder_ok b" and "valid_lit (builder_gates b) s"
    and "valid_lit (builder_gates b) t" and "valid_lit (builder_gates b) e"
  shows "builder_call b (\<lambda>env. if eval_lit (builder_gates b) env s then eval_lit (builder_gates b) env t
      else eval_lit (builder_gates b) env e)
    (LogicBuilder_mux b s t e origin)"
  by (rule builder_mux_call [OF assms])

lemma LogicBuilder_input_cases:
  assumes ok: "builder_ok b" and res: "LogicBuilder_input b origin = (r, b')"
  shows "builder_ok b' \<and> builder_gates b \<subseteq>\<^sub>m builder_gates b' \<and>
    (case r of Inl e \<Rightarrow> builder_full b'
     | Inr x \<Rightarrow> \<not> is_inverted x \<and> builder_gates b (Lit_node x) = None \<and> builder_gates b' (Lit_node x) = Some GInput)"
proof -
  from ok have o: "lengths_ok b" "topology_ok b" "levels_ok b" "table_ok b"
    by (auto simp: builder_ok_def)
  have p: "push b Input Lit_FALSE Lit_FALSE Lit_FALSE origin = (r, b')"
    using res by (simp add: LogicBuilder_input_def)
  have fan: "\<forall>l \<in> gate_lits (make_gate Input Lit_FALSE Lit_FALSE Lit_FALSE). lit_index l < length (kinds b)"
    by simp
  from o(1-3) fan p show ?thesis
  proof (cases rule: push_cases)
    case (full e)
    with ok show ?thesis by (simp add: builder_full_def node_count_def)
  next
    case (appended lv)
    have ok': "builder_ok b'"
      unfolding appended(2) builder_ok_def
      using lengths_ok_append [OF o(1) appended(1)] topology_ok_append [OF o(1,2) fan]
        levels_ok_append [OF o(1-3) fan appended(3,4)] table_ok_unnamed [OF o(1,4)] by simp
    have le: "builder_gates b \<subseteq>\<^sub>m builder_gates b'"
      unfolding appended(2) by (rule gates_append(1) [OF o(1) appended(1)])
    show ?thesis
    proof (cases r)
      case (Inl e)
      with appended(2,5) have "builder_full b'"
        by (auto simp: builder_full_def node_count_def split: if_splits)
      with ok' le Inl show ?thesis by simp
    next
      case (Inr x)
      with appended(5) have "lit_index x = length (kinds b)" "\<not> is_inverted x" by (auto split: if_splits)
      with ok' le Inr gates_append(2) [OF o(1) appended(1)] show ?thesis
        unfolding appended(2) by (simp add: gate_view_builder [OF o(1)])
    qed
  qed
qed

text \<open>
  An input is a fresh node that evaluates to what the environment gives it; the call
  fails only in a full builder.
\<close>

theorem LogicBuilder_input_correct:
  assumes "builder_ok b"
  shows "case LogicBuilder_input b origin of
      (Inl e, b') \<Rightarrow> builder_ok b' \<and> builder_gates b \<subseteq>\<^sub>m builder_gates b' \<and> builder_full b'
    | (Inr x, b') \<Rightarrow> builder_ok b' \<and> builder_gates b \<subseteq>\<^sub>m builder_gates b' \<and>
        builder_gates b (Lit_node x) = None \<and> (\<forall>env. eval_lit (builder_gates b') env x = env (Lit_node x))"
proof -
  obtain r b' where res: "LogicBuilder_input b origin = (r, b')" by fastforce
  from LogicBuilder_input_cases [OF assms res] show ?thesis
    by (cases r) (auto simp: res eval_lit_def eval_node.simps)
qed


section \<open>Concrete instances\<close>

definition two_inputs :: LogicBuilder
  where "two_inputs = snd (LogicBuilder_input (snd (LogicBuilder_input LogicBuilder_new 1)) 2)"

lemma two_inputs_ok: "builder_ok two_inputs"
  using LogicBuilder_input_cases builder_ok_new unfolding two_inputs_def by (metis prod.collapse)

lemma two_inputs_eq:
  "two_inputs = \<lparr>kinds = [Constant, Input, Input], fanin0 = replicate 3 Lit_FALSE,
     fanin1 = replicate 3 Lit_FALSE, fanin2 = replicate 3 Lit_FALSE,
     levels = [0, 0, 0], origins = [0, 1, 2], interned = Map.empty\<rparr>"
  by (simp add: two_inputs_def LogicBuilder_input_def LogicBuilder_new_def push_def NodeId_from_index_def
      u32_of_usize_def new_level_def fanin_levels_def checked_add_def append_node_def numeral_3_eq_3)

lemma two_inputs_valid:
  "valid_lit (builder_gates two_inputs) (Lit 2)" "valid_lit (builder_gates two_inputs) (Lit 4)"
  using two_inputs_ok
  by (simp_all add: valid_lit_def gate_view_builder builder_ok_def two_inputs_eq NodeId_index_def
      Lit_node_def drop_bit_Suc)

theorem LogicBuilder_and_correct_witness:
  "builder_ok two_inputs \<and> valid_lit (builder_gates two_inputs) (Lit 2) \<and>
   valid_lit (builder_gates two_inputs) (Lit 4) \<and>
   builder_call two_inputs (\<lambda>env. eval_lit (builder_gates two_inputs) env (Lit 2) \<and>
       eval_lit (builder_gates two_inputs) env (Lit 4))
     (LogicBuilder_and two_inputs (Lit 2) (Lit 4) 7)"
  using LogicBuilder_and_correct [OF two_inputs_ok two_inputs_valid] two_inputs_ok two_inputs_valid by blast

theorem LogicBuilder_or_correct_witness:
  "builder_ok two_inputs \<and> valid_lit (builder_gates two_inputs) (Lit 2) \<and>
   valid_lit (builder_gates two_inputs) (Lit 4) \<and>
   builder_call two_inputs (\<lambda>env. eval_lit (builder_gates two_inputs) env (Lit 2) \<or>
       eval_lit (builder_gates two_inputs) env (Lit 4))
     (LogicBuilder_or two_inputs (Lit 2) (Lit 4) 7)"
  using LogicBuilder_or_correct [OF two_inputs_ok two_inputs_valid] two_inputs_ok two_inputs_valid by blast

theorem LogicBuilder_xor_correct_witness:
  "builder_ok two_inputs \<and> valid_lit (builder_gates two_inputs) (Lit 2) \<and>
   valid_lit (builder_gates two_inputs) (Lit 4) \<and>
   builder_call two_inputs (\<lambda>env. eval_lit (builder_gates two_inputs) env (Lit 2) \<noteq>
       eval_lit (builder_gates two_inputs) env (Lit 4))
     (LogicBuilder_xor two_inputs (Lit 2) (Lit 4) 7)"
  using LogicBuilder_xor_correct [OF two_inputs_ok two_inputs_valid] two_inputs_ok two_inputs_valid by blast

theorem LogicBuilder_mux_correct_witness:
  "builder_ok two_inputs \<and> valid_lit (builder_gates two_inputs) (Lit 2) \<and>
   valid_lit (builder_gates two_inputs) (Lit 4) \<and>
   builder_call two_inputs (\<lambda>env. if eval_lit (builder_gates two_inputs) env (Lit 2) then eval_lit (builder_gates two_inputs) env (Lit 4)
       else eval_lit (builder_gates two_inputs) env (Lit 2))
     (LogicBuilder_mux two_inputs (Lit 2) (Lit 4) (Lit 2) 7)"
  using LogicBuilder_mux_correct [OF two_inputs_ok two_inputs_valid two_inputs_valid(1)] two_inputs_ok two_inputs_valid by blast

definition one_and :: LogicBuilder
  where "one_and = snd (intern two_inputs (KeyAnd (Lit 2) (Lit 4)) And (Lit 2) (Lit 4) Lit_FALSE 3)"

lemma one_and_ok: "builder_ok one_and \<and> builder_gates one_and (NodeId 3) = Some (GAnd (Lit 2) (Lit 4))"
proof -
  have v: "\<forall>l \<in> gate_lits (key_gate (KeyAnd (Lit 2) (Lit 4))). valid_lit (builder_gates two_inputs) l"
    using two_inputs_valid by simp
  obtain r where r: "intern two_inputs (KeyAnd (Lit 2) (Lit 4)) And (Lit 2) (Lit 4) Lit_FALSE 3 = (r, one_and)"
    by (metis one_and_def prod.collapse)
  moreover have "r = Inr (Lit 6)"
    using r by (auto simp: intern_def two_inputs_eq push_def NodeId_from_index_def u32_of_usize_def new_level_def
        fanin_levels_def checked_add_def Lit_from_node_def checked_mul_def map_filter_simps list_get_def
        NodeId_index_def Lit_node_def drop_bit_Suc)
  ultimately show ?thesis
    using intern_law [OF two_inputs_ok v key_args.simps(1) r] by (simp add: Lit_node_def drop_bit_Suc)
qed


end
