(* ===== verification/Canonical_Replay.thy ===== *)
theory Canonical_Replay
  imports Canonical_Correct
begin

text \<open>
  Replaying a canonicalisation on a second store. The rule tables read a store only through
  the nodes below their operands and through \<^verbatim>\<open>resolve\<close>; so when a call has
  returned a literal in one store, the same call in any store that contains the nodes the
  first one ended with, and that finds existing nodes, returns the same literal and adds
  nothing. Both the builder and the read-only probe of
  \<^verbatim>\<open>crates/opto-ir/src/logic.rs\<close> are such stores.
\<close>

section \<open>Fanin queries in related stores\<close>

lemma gate_view_kind:
  assumes "gate_view ops s n = Some g"
  shows "op_kind ops s n = Some
    (case g of GConst \<Rightarrow> Constant | GInput \<Rightarrow> Input | GAnd a b \<Rightarrow> And | GXor a b \<Rightarrow> Xor | GMux a b c \<Rightarrow> Mux)"
  using assms by (auto simp: gate_view_def split: option.splits NodeKind.splits)

lemma binary_fanins_view:
  assumes "gate_view ops s (Lit_node l) = Some g"
  shows "binary_fanins ops s l And =
      (if is_inverted l then None else case g of GAnd a b \<Rightarrow> Some (a, b) | _ \<Rightarrow> None)"
    and "binary_fanins ops s l Xor =
      (if is_inverted l then None else case g of GXor a b \<Rightarrow> Some (a, b) | _ \<Rightarrow> None)"
    and "mux_fanins ops s l =
      (if is_inverted l then None else case g of GMux a b c \<Rightarrow> Some (a, b, c) | _ \<Rightarrow> None)"
  using assms
  by (auto simp: binary_fanins_def mux_fanins_def gate_view_def
      split: option.splits NodeKind.splits gate.splits)

lemma fanins_agree:
  assumes "valid_lit (gate_view ops s) l" and "gate_view ops s \<subseteq>\<^sub>m gate_view ops' t"
  shows "binary_fanins ops' t l And = binary_fanins ops s l And"
    and "binary_fanins ops' t l Xor = binary_fanins ops s l Xor"
    and "mux_fanins ops' t l = mux_fanins ops s l"
proof -
  obtain g where g: "gate_view ops s (Lit_node l) = Some g"
    using assms(1) by (auto simp: valid_lit_def)
  then have "gate_view ops' t (Lit_node l) = Some g"
    using assms(2) by (auto simp: map_le_def dom_def)
  with g show "binary_fanins ops' t l And = binary_fanins ops s l And"
    "binary_fanins ops' t l Xor = binary_fanins ops s l Xor"
    "mux_fanins ops' t l = mux_fanins ops s l"
    by (simp_all add: binary_fanins_view)
qed

section \<open>A store that can replay another\<close>

locale canonical_replay =
  src: canonical_store ops good full + dst: canonical_store ops' good' full'
  for ops :: "('s, 'e) canonical_ops" and good and full
    and ops' :: "('t, 'f) canonical_ops" and good' and full' +
  assumes lookup_law:
    "\<lbrakk>good' t; gate_view ops' t (Lit_node l) = Some (key_gate key); \<not> is_inverted l;
      key_args key = (kind, f0, f1, f2)\<rbrakk> \<Longrightarrow> op_resolve ops' t key kind f0 f1 f2 origin = (Inr l, t)"
begin

text \<open>
  A call that ended in \<open>res\<close> is replayed by \<open>f\<close>: it kept the store good and only added
  nodes, and \<open>f\<close> returns its literal in every store that contains the final nodes.
\<close>

definition replays :: "'s \<Rightarrow> ('s, 'e) canonical_result \<Rightarrow> ('t \<Rightarrow> ('t, 'f) canonical_result) \<Rightarrow> bool"
  where "replays s res f \<longleftrightarrow>
    good (snd res) \<and> gate_view ops s \<subseteq>\<^sub>m gate_view ops (snd res) \<and>
    (\<forall>l. fst res = Inr l \<longrightarrow> src.vl (snd res) l \<and>
       (\<forall>t. good' t \<longrightarrow> gate_view ops (snd res) \<subseteq>\<^sub>m gate_view ops' t \<longrightarrow> f t = (Inr l, t)))"

lemma replays_ret:
  "good s \<Longrightarrow> src.vl s l \<Longrightarrow> replays s (Inr l, s) (Pair (Inr l))"
  "good s \<Longrightarrow> src.vl s l \<Longrightarrow> replays s (Inr l, s) (\<lambda>t. (Inr l, t))"
  by (simp_all add: replays_def)

lemma replays_cong:
  assumes "\<And>t. good' t \<Longrightarrow> gate_view ops s \<subseteq>\<^sub>m gate_view ops' t \<Longrightarrow> f t = f' t" and "replays s res f'"
  shows "replays s res f"
  using assms unfolding replays_def by (metis map_le_trans)

lemma replays_smap:
  assumes "replays s res f" and "\<And>s l. src.vl s (h l) = src.vl s l"
  shows "replays s (smap h res) (\<lambda>t. smap h (f t))"
  using assms by (cases res; cases "fst res") (auto simp: replays_def)

lemma replays_sbind:
  assumes "replays s res f"
    and "\<And>l s'. \<lbrakk>good s'; gate_view ops s \<subseteq>\<^sub>m gate_view ops s'; src.vl s' l\<rbrakk> \<Longrightarrow> replays s' (g l s') (g' l)"
  shows "replays s (sbind res g) (\<lambda>t. sbind (f t) g')"
proof (cases "fst res")
  case (Inl e)
  with assms(1) show ?thesis by (cases res) (auto simp: replays_def)
next
  case (Inr l)
  then obtain s' where res: "res = (Inr l, s')" by (cases res) auto
  with assms(1) have first: "good s'" "gate_view ops s \<subseteq>\<^sub>m gate_view ops s'" "src.vl s' l"
    "\<And>t. good' t \<Longrightarrow> gate_view ops s' \<subseteq>\<^sub>m gate_view ops' t \<Longrightarrow> f t = (Inr l, t)"
    by (auto simp: replays_def)
  then have second: "replays s' (g l s') (g' l)" using assms(2) by blast
  have f: "f t = (Inr l, t)" if "good' t" "gate_view ops (snd (g l s')) \<subseteq>\<^sub>m gate_view ops' t" for t
    using that first(4) second map_le_trans unfolding replays_def by blast
  show ?thesis
    using second first(2) f unfolding replays_def res by (auto intro: map_le_trans)
qed

lemma replays_resolve:
  assumes "good s" and "\<forall>l \<in> gate_lits (key_gate key). src.vl s l"
    and "key_args key = (kind, f0, f1, f2)"
  shows "replays s (resolve ops s key kind f0 f1 f2 og) (\<lambda>t. resolve ops' t key kind f0 f1 f2 og')"
proof -
  obtain r s' where r: "op_resolve ops s key kind f0 f1 f2 og = (r, s')" by fastforce
  note law = src.resolve_law [OF assms r]
  show ?thesis
  proof (cases r)
    case (Inl e)
    with r law show ?thesis by (simp add: resolve_def replays_def)
  next
    case (Inr l)
    have "op_resolve ops' t key kind f0 f1 f2 og' = (Inr l, t)"
      if "good' t" "gate_view ops s' \<subseteq>\<^sub>m gate_view ops' t" for t
      using that law Inr lookup_law [OF that(1) _ _ assms(3)] by (auto simp: map_le_def dom_def)
    with r law Inr show ?thesis by (auto simp: resolve_def replays_def valid_lit_def)
  qed
qed

text \<open>The three forms of call, related between the stores for all operands.\<close>

definition or_replays :: "('s, 'e) or_fn \<Rightarrow> ('t, 'f) or_fn \<Rightarrow> bool"
  where "or_replays f f' \<longleftrightarrow> (\<forall>s l r og og'. good s \<longrightarrow> src.vl s l \<longrightarrow> src.vl s r \<longrightarrow>
    replays s (f s l r og) (\<lambda>t. f' t l r og'))"

definition mux_replays :: "('s, 'e) mux_fn \<Rightarrow> ('t, 'f) mux_fn \<Rightarrow> bool"
  where "mux_replays f f' \<longleftrightarrow>
    (\<forall>s a b c og og'. good s \<longrightarrow> src.vl s a \<longrightarrow> src.vl s b \<longrightarrow> src.vl s c \<longrightarrow>
      replays s (f s a b c og) (\<lambda>t. f' t a b c og'))"

lemma or_replaysD:
  "or_replays f f' \<Longrightarrow> good s \<Longrightarrow> src.vl s l \<Longrightarrow> src.vl s r \<Longrightarrow> replays s (f s l r og) (\<lambda>t. f' t l r og')"
  by (simp add: or_replays_def)

lemma mux_replaysD:
  "mux_replays f f' \<Longrightarrow> good s \<Longrightarrow> src.vl s a \<Longrightarrow> src.vl s b \<Longrightarrow> src.vl s c \<Longrightarrow>
    replays s (f s a b c og) (\<lambda>t. f' t a b c og')"
  by (simp add: mux_replays_def)

lemma vl_grows: "good s \<Longrightarrow> gate_view ops s \<subseteq>\<^sub>m gate_view ops s' \<Longrightarrow> src.vl s l \<Longrightarrow> src.vl s' l"
  by (rule view_mono(3) [OF src.view_wf])

text \<open>A guard that reads only nodes both stores have decides the same way in both.\<close>

definition agrees :: "'s \<Rightarrow> 'x \<Rightarrow> ('t \<Rightarrow> 'x) \<Rightarrow> bool"
  where "agrees s c c' \<longleftrightarrow> (\<forall>t. good' t \<longrightarrow> gate_view ops s \<subseteq>\<^sub>m gate_view ops' t \<longrightarrow> c' t = c)"

lemma agrees_const: "agrees s c (\<lambda>t. c)"
  by (simp add: agrees_def)

lemma agrees_fanins:
  assumes "src.vl s l"
  shows "agrees s (h (binary_fanins ops s l And)) (\<lambda>t. h (binary_fanins ops' t l And))"
    and "agrees s (h (binary_fanins ops s l Xor)) (\<lambda>t. h (binary_fanins ops' t l Xor))"
    and "agrees s (k (mux_fanins ops s l)) (\<lambda>t. k (mux_fanins ops' t l))"
  unfolding agrees_def
  using fanins_agree(1) [OF assms, of ops'] fanins_agree(2) [OF assms, of ops']
    fanins_agree(3) [OF assms, of ops'] by metis+

lemma replays_if:
  assumes "agrees s c c'" and "c \<Longrightarrow> replays s x f" and "\<not> c \<Longrightarrow> replays s y g"
  shows "replays s (if c then x else y) (\<lambda>t. if c' t then f t else g t)"
proof (rule replays_cong)
  show "(if c' t then f t else g t) = (if c then f t else g t)"
    if "good' t" "gate_view ops s \<subseteq>\<^sub>m gate_view ops' t" for t
    using assms(1) that by (simp add: agrees_def)
  show "replays s (if c then x else y) (\<lambda>t. if c then f t else g t)"
    using assms(2,3) by simp
qed

lemma replays_if_const:
  assumes "c \<Longrightarrow> replays s x f" and "\<not> c \<Longrightarrow> replays s y g"
  shows "replays s (if c then x else y) (\<lambda>t. if c then f t else g t)"
  using assms by simp

lemma replays_option:
  assumes "agrees s m m'" and "\<And>v. m = Some v \<Longrightarrow> replays s (x v) (\<lambda>t. f v t)"
    and "m = None \<Longrightarrow> replays s y g"
  shows "replays s (case m of None \<Rightarrow> y | Some v \<Rightarrow> x v) (\<lambda>t. case m' t of None \<Rightarrow> g t | Some v \<Rightarrow> f v t)"
proof (rule replays_cong)
  show "(case m' t of None \<Rightarrow> g t | Some v \<Rightarrow> f v t) = (case m of None \<Rightarrow> g t | Some v \<Rightarrow> f v t)"
    if "good' t" "gate_view ops s \<subseteq>\<^sub>m gate_view ops' t" for t
    using assms(1) that by (simp add: agrees_def)
  show "replays s (case m of None \<Rightarrow> y | Some v \<Rightarrow> x v) (\<lambda>t. case m of None \<Rightarrow> g t | Some v \<Rightarrow> f v t)"
    using assms(2,3) by (cases m) simp_all
qed

lemma replays_prod:
  assumes "\<And>a b. p = (a, b) \<Longrightarrow> replays s (x a b) (\<lambda>t. f a b t)"
  shows "replays s (case p of (a, b) \<Rightarrow> x a b) (\<lambda>t. case p of (a, b) \<Rightarrow> f a b t)"
  using assms by (cases p) simp

lemma canonical_and_replays: "or_replays (canonical_and ops) (canonical_and ops')"
  unfolding or_replays_def canonical_and_def
proof (intro allI impI)
  fix s l r og og' assume v: "good s" "src.vl s l" "src.vl s r"
  have p: "src.vl s (positive l)" "src.vl s (positive r)" using v by simp_all
  have c: "src.vl s Lit_FALSE" by (rule valid_const) (rule src.view_wf [OF v(1)])
  show "replays s
     (if l = Lit_FALSE \<or> r = Lit_FALSE \<or> l = inverted r then (Inr Lit_FALSE, s)
      else if l = Lit_TRUE then (Inr r, s)
      else if r = Lit_TRUE \<or> l = r then (Inr l, s)
      else if fanins_include (binary_fanins ops s l And) r then (Inr l, s)
      else if fanins_include (binary_fanins ops s r And) l then (Inr r, s)
      else if is_inverted r \<and> fanins_include (binary_fanins ops s (positive r) And) (inverted l) then (Inr l, s)
      else if is_inverted l \<and> fanins_include (binary_fanins ops s (positive l) And) (inverted r) then (Inr r, s)
      else case ordered l r of (a, b) \<Rightarrow> resolve ops s (KeyAnd a b) And a b Lit_FALSE og)
     (\<lambda>t. if l = Lit_FALSE \<or> r = Lit_FALSE \<or> l = inverted r then (Inr Lit_FALSE, t)
      else if l = Lit_TRUE then (Inr r, t)
      else if r = Lit_TRUE \<or> l = r then (Inr l, t)
      else if fanins_include (binary_fanins ops' t l And) r then (Inr l, t)
      else if fanins_include (binary_fanins ops' t r And) l then (Inr r, t)
      else if is_inverted r \<and> fanins_include (binary_fanins ops' t (positive r) And) (inverted l) then (Inr l, t)
      else if is_inverted l \<and> fanins_include (binary_fanins ops' t (positive l) And) (inverted r) then (Inr r, t)
      else case ordered l r of (a, b) \<Rightarrow> resolve ops' t (KeyAnd a b) And a b Lit_FALSE og')"
    using v p c
    by (intro replays_if replays_if_const agrees_const agrees_fanins replays_ret)
      (auto simp: ordered_def intro!: replays_resolve)
qed

lemmas replays_intros = replays_if replays_if_const replays_option agrees_const agrees_fanins

lemma agrees_fanins_pair:
  assumes "src.vl s l" and "src.vl s r"
  shows "agrees s (h (binary_fanins ops s l And) (binary_fanins ops s r And))
      (\<lambda>t. h (binary_fanins ops' t l And) (binary_fanins ops' t r And))"
    and "agrees s (h (binary_fanins ops s l Xor) (binary_fanins ops s r Xor))
      (\<lambda>t. h (binary_fanins ops' t l Xor) (binary_fanins ops' t r Xor))"
    and "agrees s (k (mux_fanins ops s l) (mux_fanins ops s r))
      (\<lambda>t. k (mux_fanins ops' t l) (mux_fanins ops' t r))"
  using agrees_fanins(1,2) [OF assms(1), of "\<lambda>x. x"] agrees_fanins(1,2) [OF assms(2), of "\<lambda>x. x"]
    agrees_fanins(3) [OF assms(1), of "\<lambda>x. x"] agrees_fanins(3) [OF assms(2), of "\<lambda>x. x"]
  unfolding agrees_def by metis+

lemma replays_phase: "replays s res f \<Longrightarrow> replays s (smap (\<lambda>l. with_phase l p) res) (\<lambda>t. smap (\<lambda>l. with_phase l p) (f t))"
  by (rule replays_smap) simp_all

lemma replays_inverted: "replays s res f \<Longrightarrow> replays s (smap inverted res) (\<lambda>t. smap inverted (f t))"
  by (rule replays_smap) simp_all

lemma canonical_xor_replays: "or_replays (canonical_xor n ops) (canonical_xor n ops')"
proof (induction n)
  case 0
  then show ?case by (simp add: or_replays_def replays_def)
next
  case (Suc n)
  have step: "replays s (canonical_xor (Suc n) ops s l r og) (\<lambda>t. canonical_xor (Suc n) ops' t l r og')"
    if v: "good s" "src.vl s l" "src.vl s r" for s l r og og'
  proof -
    let ?l = "positive l" and ?r = "positive r"
    have p: "src.vl s ?l" "src.vl s ?r" using v by simp_all
    have c: "src.vl s Lit_FALSE" "src.vl s Lit_TRUE" "\<And>b. src.vl s (LogicBuilder_constant b)"
      using src.view_wf [OF v(1)] by simp_all
    show ?thesis
      unfolding canonical_xor.simps Let_def
      using v p c
      by (intro replays_intros replays_ret replays_phase agrees_fanins_pair)
        (auto simp: ordered_def split: prod.split
          intro!: replays_resolve replays_phase or_replaysD [OF Suc.IH]
          dest: src.xor_fold_facts(3) [OF v(1)] src.xor_shared_facts(3,4) [OF v(1)])
  qed
  then show ?case unfolding or_replays_def by blast
qed

lemma or_body_replays:
  assumes mux: "mux_replays mux mux'"
  shows "or_replays (or_body ops mux) (or_body ops' mux')"
  unfolding or_replays_def
proof (intro allI impI)
  fix s l r og og' assume v: "good s" "src.vl s l" "src.vl s r"
  note wf = src.view_wf [OF v(1)]
  have i: "replays s (smap inverted (canonical_and ops s (inverted l) (inverted r) og))
      (\<lambda>t. smap inverted (canonical_and ops' t (inverted l) (inverted r) og'))"
    using v by (intro replays_inverted or_replaysD [OF canonical_and_replays]) simp_all
  have m: "replays s (mux s a b c og) (\<lambda>t. mux' t a b c og')"
    if f: "binary_fanins ops s l And = Some x" "binary_fanins ops s r And = Some y"
      "complementary_product_factor x y = Some (a, b, c)" for x y a b c
  proof (rule mux_replaysD [OF mux v(1)])
    have "src.vl s (fst x)" "src.vl s (snd x)" "src.vl s (fst y)" "src.vl s (snd y)"
      using f(1,2) and_node_facts(3,4) [OF wf] by (metis prod.collapse)+
    then show "src.vl s a" "src.vl s b" "src.vl s c"
      using complementary_product_factor_cases [OF f(3)] by auto
  qed
  show "replays s (or_body ops mux s l r og) (\<lambda>t. or_body ops' mux' t l r og')"
    unfolding or_body_def prod.case
    by (intro replays_option replays_prod agrees_const agrees_fanins v i) (auto intro: m)
qed

lemma mux_factor_replays:
  assumes mux: "mux_replays mux mux'"
  shows "mux_replays (mux_factor ops mux) (mux_factor ops' mux')"
  unfolding mux_replays_def
proof (intro allI impI)
  fix s a b c og og' assume v: "good s" "src.vl s a" "src.vl s b" "src.vl s c"
  note n = mux_node_facts(3-5) [OF src.view_wf [OF v(1)]]
  have make: "replays s (resolve ops s (KeyMux a b c) Mux a b c og)
      (\<lambda>t. resolve ops' t (KeyMux a b c) Mux a b c og')"
    using v by (intro replays_resolve) auto
  show "replays s (mux_factor ops mux s a b c og) (\<lambda>t. mux_factor ops' mux' t a b c og')"
    unfolding mux_factor_def prod.case Let_def
    by (intro replays_option replays_prod replays_if_const agrees_const agrees_fanins v make
        replays_sbind [where g' = "\<lambda>l t. mux' t x y l og'" for x y]
        replays_sbind [where g' = "\<lambda>l t. mux' t x l y og'" for x y])
      (auto intro!: mux_replaysD [OF mux] v intro: vl_grows [OF v(1)] dest: n)
qed

lemma mux_merge_else_replays:
  assumes mux: "mux_replays mux mux'" and orf: "or_replays orf orf'"
  shows "mux_replays (mux_merge_else ops orf mux) (mux_merge_else ops' orf' mux')"
  unfolding mux_replays_def
proof (intro allI impI)
  fix s a b c og og' assume v: "good s" "src.vl s a" "src.vl s b" "src.vl s c"
  note n = mux_node_facts(3-5) [OF src.view_wf [OF v(1)]]
  show "replays s (mux_merge_else ops orf mux s a b c og) (\<lambda>t. mux_merge_else ops' orf' mux' t a b c og')"
    unfolding mux_merge_else_def
    by (intro replays_option replays_prod replays_if_const agrees_fanins v
        replays_sbind [where g' = "\<lambda>l t. mux' t l x y og'" for x y])
      (auto intro!: mux_replaysD [OF mux] mux_replaysD [OF mux_factor_replays [OF mux]]
        or_replaysD [OF orf] or_replaysD [OF canonical_and_replays] v
        intro: vl_grows [OF v(1)] dest: n)
qed

lemma mux_merge_then_replays:
  assumes mux: "mux_replays mux mux'" and orf: "or_replays orf orf'"
  shows "mux_replays (mux_merge_then ops orf mux) (mux_merge_then ops' orf' mux')"
  unfolding mux_replays_def
proof (intro allI impI)
  fix s a b c og og' assume v: "good s" "src.vl s a" "src.vl s b" "src.vl s c"
  note n = mux_node_facts(3-5) [OF src.view_wf [OF v(1)]]
  show "replays s (mux_merge_then ops orf mux s a b c og) (\<lambda>t. mux_merge_then ops' orf' mux' t a b c og')"
    unfolding mux_merge_then_def
    by (intro replays_option replays_prod replays_if_const agrees_fanins v
        replays_sbind [where g' = "\<lambda>l t. mux' t l x y og'" for x y])
      (auto intro!: mux_replaysD [OF mux] mux_replaysD [OF mux_merge_else_replays [OF mux orf]]
        or_replaysD [OF orf] or_replaysD [OF canonical_and_replays] v
        intro: vl_grows [OF v(1)] dest: n)
qed

lemma mux_nested_replays:
  assumes mux: "mux_replays mux mux'" and orf: "or_replays orf orf'"
  shows "mux_replays (mux_nested ops orf mux) (mux_nested ops' orf' mux')"
  unfolding mux_replays_def
proof (intro allI impI)
  fix s a b c og og' assume v: "good s" "src.vl s a" "src.vl s b" "src.vl s c"
  note n = mux_node_facts(3-5) [OF src.view_wf [OF v(1)]]
  have d: "src.vl s (option_or (collapse_then ops s a b) b)" "src.vl s (option_or (collapse_else ops s a c) c)"
    using v by (auto simp: option_or_def collapse_then_def collapse_else_def split: option.split dest: n)
  show "replays s (mux_nested ops orf mux s a b c og) (\<lambda>t. mux_nested ops' orf' mux' t a b c og')"
  proof (rule replays_cong)
    fix t assume "good' t" and le: "gate_view ops s \<subseteq>\<^sub>m gate_view ops' t"
    show "mux_nested ops' orf' mux' t a b c og' =
        (if collapse_then ops s a b \<noteq> None \<or> collapse_else ops s a c \<noteq> None
         then mux' t a (option_or (collapse_then ops s a b) b) (option_or (collapse_else ops s a c) c) og'
         else mux_merge_then ops' orf' mux' t a b c og')"
      unfolding mux_nested_def collapse_then_def collapse_else_def Let_def
      by (simp only: fanins_agree [OF v(3) le] fanins_agree [OF v(4) le])
  next
    show "replays s (mux_nested ops orf mux s a b c og)
        (\<lambda>t. if collapse_then ops s a b \<noteq> None \<or> collapse_else ops s a c \<noteq> None
         then mux' t a (option_or (collapse_then ops s a b) b) (option_or (collapse_else ops s a c) c) og'
         else mux_merge_then ops' orf' mux' t a b c og')"
      unfolding mux_nested_def Let_def
      by (intro replays_if_const mux_replaysD [OF mux] v d
          mux_replaysD [OF mux_merge_then_replays [OF mux orf]])
  qed
qed

lemma mux_reduce_replays:
  assumes mux: "mux_replays mux mux'" and orf: "or_replays orf orf'" and xorf: "or_replays xorf xorf'"
  shows "mux_replays (mux_reduce ops xorf orf mux) (mux_reduce ops' xorf' orf' mux')"
  unfolding mux_replays_def
proof (intro allI impI)
  fix s a b c og og' assume v: "good s" "src.vl s a" "src.vl s b" "src.vl s c"
  have i: "src.vl s (inverted a)" using v by simp
  show "replays s (mux_reduce ops xorf orf mux s a b c og) (\<lambda>t. mux_reduce ops' xorf' orf' mux' t a b c og')"
    unfolding mux_reduce_def
    by (intro replays_if_const or_replaysD [OF xorf] or_replaysD [OF orf] v i
        or_replaysD [OF canonical_and_replays] mux_replaysD [OF mux_nested_replays [OF mux orf]])
qed

lemma mux_body_replays:
  assumes mux: "mux_replays mux mux'" and orf: "or_replays orf orf'" and xorf: "or_replays xorf xorf'"
  shows "mux_replays (mux_body ops xorf orf mux) (mux_body ops' xorf' orf' mux')"
  unfolding mux_replays_def
proof (intro allI impI)
  fix s a b c og og' assume v: "good s" "src.vl s a" "src.vl s b" "src.vl s c"
  have i: "src.vl s (inverted a)" "src.vl s (positive a)" using v by simp_all
  show "replays s (mux_body ops xorf orf mux s a b c og) (\<lambda>t. mux_body ops' xorf' orf' mux' t a b c og')"
    unfolding mux_body_def Let_def
    by (intro replays_if_const replays_ret v i replays_prod replays_phase
        mux_replaysD [OF mux_reduce_replays [OF mux orf xorf]])
      (use v in \<open>auto split: if_splits\<close>)
qed

lemma canonical_or_mux_replays:
  "or_replays (canonical_or n ops) (canonical_or n ops') \<and> mux_replays (canonical_mux n ops) (canonical_mux n ops')"
proof (induction n)
  case 0
  then show ?case by (simp add: or_replays_def mux_replays_def replays_def)
next
  case (Suc n)
  then have "or_replays (or_body ops (canonical_mux n ops)) (or_body ops' (canonical_mux n ops'))"
    and "mux_replays (mux_body ops (canonical_xor n ops) (canonical_or n ops) (canonical_mux n ops))
      (mux_body ops' (canonical_xor n ops') (canonical_or n ops') (canonical_mux n ops'))"
    by (simp_all add: or_body_replays mux_body_replays canonical_xor_replays)
  then show ?case
    by (simp add: or_replays_def mux_replays_def)
qed

text \<open>What a client sees: the same call, replayed, returns the same literal and adds nothing.\<close>

lemma replaysD:
  assumes "replays s (Inr l, s') f" and "good' t" and "gate_view ops s' \<subseteq>\<^sub>m gate_view ops' t"
  shows "f t = (Inr l, t)"
  using assms by (simp add: replays_def)

end

end
