(* ===== verification/Logic_Probe.thy ===== *)
theory Logic_Probe
  imports Logic_Builder Canonical_Replay
begin

text \<open>
  The read-only side of \<^verbatim>\<open>crates/opto-ir/src/logic.rs\<close>: \<^verbatim>\<open>StructuralIndex\<close>, which
  rebuilds the hash table of a frozen network, and \<^verbatim>\<open>LogicProbe\<close>, which runs the
  canonicalisation rules against it. The index is shown to be the table the builder dropped,
  and the probe to answer exactly when the builder would return without allocating.
\<close>

section \<open>State and operations\<close>

type_synonym StructuralIndex = "NodeKey \<rightharpoonup> NodeId"

definition node_key :: "'a LogicNetwork_scheme \<Rightarrow> NodeId \<Rightarrow> NodeKey option"
  where "node_key net node =
    (let fanin = (\<lambda>slot. option_or (net_fanin net node slot) Lit_FALSE)
     in case net_kind net node of
          Some And \<Rightarrow> Some (KeyAnd (fanin 0) (fanin 1))
        | Some Xor \<Rightarrow> Some (KeyXor (fanin 0) (fanin 1))
        | Some Mux \<Rightarrow> Some (KeyMux (fanin 0) (fanin 1) (fanin 2))
        | _ \<Rightarrow> None)"

fun index_loop :: "'a LogicNetwork_scheme \<Rightarrow> nat list \<Rightarrow> StructuralIndex \<Rightarrow> StructuralIndex"
  where
    "index_loop net [] nodes = nodes"
  | "index_loop net (index # rest) nodes =
      (case NodeId_from_index index of
         Inl _ \<Rightarrow> nodes
       | Inr node \<Rightarrow>
           (case node_key net node of
              None \<Rightarrow> index_loop net rest nodes
            | Some key \<Rightarrow> index_loop net rest (nodes(key \<mapsto> node))))"

definition StructuralIndex_of :: "'a LogicNetwork_scheme \<Rightarrow> StructuralIndex"
  where "StructuralIndex_of network = index_loop network [0..<node_count network] Map.empty"

datatype Absent = Absent

record LogicProbe =
  probe_network :: LogicNetwork
  probe_index :: StructuralIndex

definition LogicProbe_new :: "LogicNetwork \<Rightarrow> StructuralIndex \<Rightarrow> LogicProbe"
  where "LogicProbe_new network index = \<lparr>probe_network = network, probe_index = index\<rparr>"

definition probe_resolve ::
  "LogicProbe \<Rightarrow> NodeKey \<Rightarrow> NodeKind \<Rightarrow> Lit \<Rightarrow> Lit \<Rightarrow> Lit \<Rightarrow> u32 \<Rightarrow> (LogicProbe, Absent, Lit) outcome"
  where "probe_resolve p key kind f0 f1 f2 origin =
    (case probe_index p key of
       None \<Rightarrow> (Inl Absent, p)
     | Some node \<Rightarrow> (case Lit_from_node node of Inl _ \<Rightarrow> (Inl Absent, p) | Inr l \<Rightarrow> (Inr l, p)))"

definition probe_ops :: "(LogicProbe, Absent) canonical_ops"
  where "probe_ops =
    \<lparr>op_kind = (\<lambda>p. net_kind (probe_network p)), op_fanin = (\<lambda>p. net_fanin (probe_network p)),
     op_resolve = probe_resolve\<rparr>"

definition probe_gates :: "LogicProbe \<Rightarrow> gates"
  where "probe_gates p = gate_view probe_ops p"

type_synonym probe_result = "(LogicProbe, Absent) canonical_result"

definition LogicProbe_and :: "LogicProbe \<Rightarrow> Lit \<Rightarrow> Lit \<Rightarrow> probe_result"
  where "LogicProbe_and p left right = canonical_and probe_ops p left right 0"

definition LogicProbe_or :: "LogicProbe \<Rightarrow> Lit \<Rightarrow> Lit \<Rightarrow> probe_result"
  where "LogicProbe_or p left right =
    canonical_or (call_fuel (probe_gates p) [left, right]) probe_ops p left right 0"

definition LogicProbe_xor :: "LogicProbe \<Rightarrow> Lit \<Rightarrow> Lit \<Rightarrow> probe_result"
  where "LogicProbe_xor p left right =
    canonical_xor (call_fuel (probe_gates p) [left, right]) probe_ops p left right 0"

definition LogicProbe_mux :: "LogicProbe \<Rightarrow> Lit \<Rightarrow> Lit \<Rightarrow> Lit \<Rightarrow> probe_result"
  where "LogicProbe_mux p select then_value else_value =
    canonical_mux (call_fuel (probe_gates p) [select, then_value, else_value])
      probe_ops p select then_value else_value 0"

text \<open>The probe a client builds from a frozen builder.\<close>

definition probe_of :: "LogicBuilder \<Rightarrow> LogicProbe"
  where "probe_of b = LogicProbe_new (freeze b) (StructuralIndex_of (freeze b))"

section \<open>The index is the builder's table\<close>

lemma freeze_reads [simp]:
  "net_kind (freeze b) = net_kind b" "net_fanin (freeze b) = net_fanin b"
  "node_count (freeze b) = node_count b" "gate_at (freeze b) = gate_at b"
  by (simp_all add: fun_eq_iff net_kind_def net_fanin_def node_count_def gate_at_def split: NodeKind.split)

lemma node_key_iff:
  assumes "lengths_ok b"
  shows "node_key b n = Some key \<longleftrightarrow>
    NodeId_index n < length (kinds b) \<and> gate_at b (NodeId_index n) = key_gate key"
  using assms
  by (cases key; auto simp: node_key_def net_kind_def net_fanin_def list_get_def gate_at_def lengths_ok_def
      option_or_def split: NodeKind.splits)

lemma index_loop_upt:
  assumes "n \<le> 2 ^ 32"
    and unique: "\<And>i j key. node_key net i = Some key \<Longrightarrow> node_key net j = Some key \<Longrightarrow>
      NodeId_index i < n \<Longrightarrow> NodeId_index j < n \<Longrightarrow> i = j"
  shows "index_loop net ([0..<n]) Map.empty key = Some node \<longleftrightarrow>
    NodeId_index node < n \<and> node_key net node = Some key"
proof -
  have split: "index_loop net (xs @ [i]) m =
      (case node_key net d of None \<Rightarrow> index_loop net xs m | Some k \<Rightarrow> (index_loop net xs m)(k \<mapsto> d))"
    if "\<forall>x \<in> set xs. x < 2 ^ 32" "NodeId_from_index i = Inr d" for xs i m d
    using that
  proof (induction xs arbitrary: m)
    case Nil
    then show ?case by (simp split: option.split)
  next
    case (Cons x xs)
    then obtain e where "NodeId_from_index x = Inr e"
      by (auto simp: NodeId_from_index_def u32_of_usize_def)
    with Cons show ?case by (simp split: option.split)
  qed
  show ?thesis
    using assms
  proof (induction n arbitrary: node)
    case 0
    then show ?case by simp
  next
    case (Suc n)
    obtain d where d: "NodeId_from_index n = Inr d" "NodeId_index d = n"
      using Suc.prems(1) NodeId_from_index_Inr [of n]
      by (cases "NodeId_from_index n") (auto simp: NodeId_from_index_def u32_of_usize_def)
    have IH: "index_loop net [0..<n] Map.empty key = Some m \<longleftrightarrow>
        NodeId_index m < n \<and> node_key net m = Some key" for m
      using Suc.IH [of m] Suc.prems by (meson Suc_leD less_Suc_eq)
    have s: "index_loop net [0..<Suc n] Map.empty =
        (case node_key net d of None \<Rightarrow> index_loop net [0..<n] Map.empty
         | Some k \<Rightarrow> (index_loop net [0..<n] Map.empty)(k \<mapsto> d))"
      using split [OF _ d(1), of "[0..<n]" Map.empty] Suc.prems(1) by auto
    have e: "NodeId_index node = n \<longleftrightarrow> node = d" using d(2) NodeId_index_inj by metis
    show ?case
    proof (cases "node_key net d = Some key")
      case True
      then have "index_loop net [0..<Suc n] Map.empty key = Some d" by (simp add: s del: upt_Suc)
      moreover have "node = d" if "NodeId_index node < Suc n" "node_key net node = Some key"
        using Suc.prems(2) [OF that(2) True that(1)] d(2) by simp
      ultimately show ?thesis using True d(2) by auto
    next
      case False
      then have "index_loop net [0..<Suc n] Map.empty key = index_loop net [0..<n] Map.empty key"
        by (auto simp: s simp del: upt_Suc split: option.split)
      with IH [of node] False e show ?thesis by (auto simp: less_Suc_eq)
    qed
  qed
qed

lemma index_of_freeze:
  assumes "builder_ok b" and "\<not> builder_full b"
  shows "StructuralIndex_of (freeze b) = interned b"
proof
  fix key
  from assms(1) have o: "lengths_ok b" "table_ok b" by (auto simp: builder_ok_def)
  have len: "length (kinds b) \<le> 2 ^ 31" using assms(2) by (simp add: builder_full_def node_count_def)
  have nk: "node_key (freeze b) = node_key b" by (simp add: node_key_def fun_eq_iff)
  have tab: "node_key b n = Some key \<longleftrightarrow> interned b key = Some n" for n key
    unfolding node_key_iff [OF o(1)]
    using table_okD(1,3) [OF o(2), of key n] table_okD(4) [OF o(2), of n key] len by fastforce
  have "index_loop (freeze b) [0..<length (kinds b)] Map.empty key = Some n \<longleftrightarrow>
      NodeId_index n < length (kinds b) \<and> node_key b n = Some key" for n
    using index_loop_upt [of "length (kinds b)" "freeze b" key n] len tab by (simp add: nk)
  then have "StructuralIndex_of (freeze b) key = Some n \<longleftrightarrow> interned b key = Some n" for n
    using table_okD(1) [OF o(2), of key n] tab by (auto simp: StructuralIndex_of_def node_count_def)
  then show "StructuralIndex_of (freeze b) key = interned b key" by (metis not_None_eq)
qed

text \<open>
  C9: rebuilding the structural index of a frozen network gives back exactly the hash table
  the builder dropped, for every builder whose nodes literals can name.
\<close>

theorem StructuralIndex_of_freeze:
  assumes "builder_ok b" and "\<not> builder_full b"
  shows "StructuralIndex_of (freeze b) = interned b"
  using assms by (rule index_of_freeze)

section \<open>The probe is a store that replays the builder\<close>

definition probe_ok :: "LogicProbe \<Rightarrow> bool"
  where "probe_ok p \<longleftrightarrow> (\<exists>b. builder_ok b \<and> \<not> builder_full b \<and> p = probe_of b)"

lemma probe_of_gates: "gate_view probe_ops (probe_of b) = gate_view builder_ops b"
proof -
  have "op_kind probe_ops (probe_of b) = op_kind builder_ops b"
    "op_fanin probe_ops (probe_of b) = op_fanin builder_ops b"
    by (simp_all add: probe_ops_def builder_ops_def probe_of_def LogicProbe_new_def)
  then show ?thesis by (simp only: gate_view_def fun_eq_iff simp_thms)
qed

lemma probe_resolve_of:
  assumes "builder_ok b" and "\<not> builder_full b"
  shows "op_resolve probe_ops (probe_of b) key kind f0 f1 f2 og =
    (case interned b key of
       None \<Rightarrow> (Inl Absent, probe_of b)
     | Some n \<Rightarrow> (case Lit_from_node n of Inl e \<Rightarrow> (Inl Absent, probe_of b) | Inr l \<Rightarrow> (Inr l, probe_of b)))"
  by (simp add: probe_ops_def probe_resolve_def)
    (simp add: probe_of_def LogicProbe_new_def index_of_freeze [OF assms])

lemma interned_lookup:
  assumes "builder_ok b" and "gate_view builder_ops b (Lit_node l) = Some (key_gate key)" and "\<not> is_inverted l"
  shows "interned b key = Some (Lit_node l)" and "Lit_from_node (Lit_node l) = Inr l"
proof -
  from assms(1) have o: "lengths_ok b" "table_ok b" by (auto simp: builder_ok_def)
  show "interned b key = Some (Lit_node l)"
    using assms(2) table_okD(4) [OF o(2) _ lit_index_bound]
    by (simp add: gate_view_builder [OF o(1)] flip: builder_gates_def split: if_splits)
  show "Lit_from_node (Lit_node l) = Inr l"
    using assms(3) lit_index_bound [of l] by (simp add: Lit_from_node_Inr)
qed

interpretation prb: canonical_store probe_ops probe_ok "\<lambda>_. True"
proof unfold_locales
  show "wf_gates (gate_view probe_ops p)" if "probe_ok p" for p
    using that builder_wf by (auto simp: probe_ok_def probe_of_gates simp flip: builder_gates_def)
next
  fix p key kind f0 f1 f2 og r p'
  assume ok: "probe_ok p" and res: "op_resolve probe_ops p key kind f0 f1 f2 og = (r, p')"
  then obtain b where b: "builder_ok b" "\<not> builder_full b" "p = probe_of b" by (auto simp: probe_ok_def)
  from b(1) have o: "lengths_ok b" "table_ok b" by (auto simp: builder_ok_def)
  have "p' = p" using res unfolding b(3) probe_resolve_of [OF b(1,2)] by (auto split: option.splits sum.splits)
  moreover have "\<not> is_inverted l \<and> gate_view builder_ops b (Lit_node l) = Some (key_gate key)"
    if "r = Inr l" for l
    using res that table_okD(1,3) [OF o(2), of key] unfolding b(3) probe_resolve_of [OF b(1,2)]
    by (auto simp: Lit_from_node_Inr gate_view_builder [OF o(1)] simp flip: builder_gates_def
        split: option.splits sum.splits)
  ultimately show "probe_ok p' \<and> gate_view probe_ops p \<subseteq>\<^sub>m gate_view probe_ops p' \<and> (\<forall>e. r = Inl e \<longrightarrow> True) \<and>
      (\<forall>l. r = Inr l \<longrightarrow> \<not> is_inverted l \<and> gate_view probe_ops p' (Lit_node l) = Some (key_gate key))"
    using ok by (simp add: b(3) probe_of_gates)
qed

lemma builder_lookup:
  assumes "builder_ok b" and "gate_view builder_ops b (Lit_node l) = Some (key_gate key)" and "\<not> is_inverted l"
  shows "op_resolve builder_ops b key kind f0 f1 f2 og = (Inr l, b)"
  using interned_lookup [OF assms] by (simp add: builder_ops_def intern_def)

lemma probe_lookup:
  assumes "probe_ok p" and "gate_view probe_ops p (Lit_node l) = Some (key_gate key)" and "\<not> is_inverted l"
  shows "op_resolve probe_ops p key kind f0 f1 f2 og = (Inr l, p)"
proof -
  obtain b where b: "builder_ok b" "\<not> builder_full b" "p = probe_of b"
    using assms(1) by (auto simp: probe_ok_def)
  show ?thesis
    using interned_lookup [OF b(1) _ assms(3)] assms(2)
    unfolding b(3) probe_resolve_of [OF b(1,2)] probe_of_gates by simp
qed

interpretation b2p: canonical_replay builder_ops builder_ok builder_full probe_ops probe_ok "\<lambda>_. True"
  by unfold_locales (rule probe_lookup)

text \<open>
  Seen from one probe, the probe is also a store whose only good state is that probe: calls
  leave it as it is, and the builder replays what it answers.
\<close>

lemma probe_store_at:
  assumes "probe_ok p"
  shows "canonical_store probe_ops (\<lambda>q. q = p) (\<lambda>_. True)"
proof unfold_locales
  show "wf_gates (gate_view probe_ops q)" if "q = p" for q
    using prb.view_wf [OF assms] that by simp
next
  fix q key kind f0 f1 f2 og r q'
  assume q: "q = p" and fan: "\<forall>l \<in> gate_lits (key_gate key). valid_lit (gate_view probe_ops q) l"
    and args: "key_args key = (kind, f0, f1, f2)" and res: "op_resolve probe_ops q key kind f0 f1 f2 og = (r, q')"
  have "q' = p"
    using res q by (auto simp: probe_ops_def probe_resolve_def split: option.splits sum.splits)
  with q prb.resolve_law [OF assms fan [unfolded q] args res [unfolded q]]
  show "q' = p \<and> gate_view probe_ops q \<subseteq>\<^sub>m gate_view probe_ops q' \<and> (\<forall>e. r = Inl e \<longrightarrow> True) \<and>
      (\<forall>l. r = Inr l \<longrightarrow> \<not> is_inverted l \<and> gate_view probe_ops q' (Lit_node l) = Some (key_gate key))"
    by simp
qed

lemma probe_replay_at:
  assumes "probe_ok p"
  shows "canonical_replay probe_ops (\<lambda>q. q = p) (\<lambda>_. True) builder_ops builder_ok builder_full"
  by (intro canonical_replay.intro probe_store_at [OF assms] bld.canonical_store_axioms
      canonical_replay_axioms.intro) (rule builder_lookup)

interpretation b2b: canonical_replay builder_ops builder_ok builder_full builder_ops builder_ok builder_full
  by unfold_locales (rule builder_lookup)

section \<open>The probe is exact\<close>

text \<open>
  The answer \<open>pr\<close> of a probe agrees with the result \<open>br\<close> of the builder: the probe is
  unchanged, a literal is what the builder returns without allocating, and absence means that
  the builder allocates or fails.
\<close>

definition probe_agrees :: "LogicBuilder \<Rightarrow> probe_result \<Rightarrow> builder_result \<Rightarrow> bool"
  where "probe_agrees b pr br \<longleftrightarrow>
    snd pr = probe_of b \<and>
    (case fst pr of
       Inr x \<Rightarrow> br = (Inr x, b)
     | Inl e \<Rightarrow> e = StoreError Absent \<and> (\<forall>x. br \<noteq> (Inr x, b)))"

lemma probe_agreesI:
  assumes ok: "builder_ok b" "\<not> builder_full b"
    and fwd: "b2p.replays b (f b) g"
    and bwd: "canonical_replay.replays probe_ops (\<lambda>q. q = probe_of b) builder_ops builder_ok
      (probe_of b) (g (probe_of b)) f"
    and ends: "canon_post probe_ops probe_ok (\<lambda>_. True) (probe_of b) F W (g (probe_of b))"
  shows "probe_agrees b (g (probe_of b)) (f b)"
proof -
  let ?p = "probe_of b"
  have p: "probe_ok ?p" using ok by (auto simp: probe_ok_def)
  note rp = canonical_replay.replays_def [OF probe_replay_at [OF p]]
  have same: "snd (g ?p) = ?p" using bwd by (simp add: rp)
  have there: "g ?p = (Inr x, ?p)" if "f b = (Inr x, b)" for x
    using fwd p that by (auto simp: b2p.replays_def probe_of_gates)
  have here: "f b = (Inr x, b)" if "fst (g ?p) = Inr x" for x
    using bwd ok that same by (auto simp: rp probe_of_gates)
  have "e = StoreError Absent" if "fst (g ?p) = Inl e" for e
    using ends that by (cases e) (auto simp: canon_post_def intro: Absent.exhaust)
  note absent = this
  show ?thesis
  proof (cases "fst (g ?p)")
    case (Inl e)
    then have "f b \<noteq> (Inr x, b)" for x using there [of x] by auto
    with Inl absent [OF Inl] same show ?thesis by (simp add: probe_agrees_def)
  next
    case (Inr x)
    with here [OF Inr] same show ?thesis by (simp add: probe_agrees_def)
  qed
qed

lemma probe_calls_agree:
  assumes ok: "builder_ok b" "\<not> builder_full b"
    and v: "valid_lit (builder_gates b) a" "valid_lit (builder_gates b) c" "valid_lit (builder_gates b) d"
  shows "probe_agrees b (LogicProbe_and (probe_of b) a c) (LogicBuilder_and b a c og)"
    and "probe_agrees b (LogicProbe_or (probe_of b) a c) (LogicBuilder_or b a c og)"
    and "probe_agrees b (LogicProbe_xor (probe_of b) a c) (LogicBuilder_xor b a c og)"
    and "probe_agrees b (LogicProbe_mux (probe_of b) a c d) (LogicBuilder_mux b a c d og)"
proof -
  let ?p = "probe_of b"
  have p: "probe_ok ?p" using ok by (auto simp: probe_ok_def)
  note vb = v [unfolded builder_gates_def]
  have vp: "valid_lit (gate_view probe_ops ?p) a" "valid_lit (gate_view probe_ops ?p) c"
    "valid_lit (gate_view probe_ops ?p) d"
    using vb by (simp_all add: probe_of_gates)
  note at = probe_replay_at [OF p]
  note D = canonical_replay.or_replaysD [OF at] canonical_replay.mux_replaysD [OF at]
  note B = canonical_replay.canonical_or_mux_replays [OF at] canonical_replay.canonical_xor_replays [OF at]
    canonical_replay.canonical_and_replays [OF at]
  have fuel: "probe_gates ?p = builder_gates b" "builder_gates b = gate_view probe_ops ?p"
    by (simp_all add: probe_gates_def builder_gates_def probe_of_gates)
  have enough: "lit_size (gate_view probe_ops ?p) a + lit_size (gate_view probe_ops ?p) c
      < call_fuel (builder_gates b) [a, c]"
    "lit_size (gate_view probe_ops ?p) a + lit_size (gate_view probe_ops ?p) c + lit_size (gate_view probe_ops ?p) d
      < call_fuel (builder_gates b) [a, c, d]"
    by (simp_all add: fuel(2) call_fuel_def)
  show "probe_agrees b (LogicProbe_and ?p a c) (LogicBuilder_and b a c og)"
    unfolding LogicProbe_and_def LogicBuilder_and_def
    by (rule probe_agreesI [OF ok b2p.or_replaysD [OF b2p.canonical_and_replays ok(1) vb(1,2)]
          D(1) [OF B(3) refl vp(1,2)] prb.canonical_and_post [OF p vp(1,2)]])
  show "probe_agrees b (LogicProbe_or ?p a c) (LogicBuilder_or b a c og)"
    unfolding LogicProbe_or_def LogicBuilder_or_def fuel(1)
    by (rule probe_agreesI [OF ok b2p.or_replaysD [OF conjunct1 [OF b2p.canonical_or_mux_replays] ok(1) vb(1,2)]
          D(1) [OF conjunct1 [OF B(1)] refl vp(1,2)] prb.canonical_or_post [OF p vp(1,2) enough(1)]])
  show "probe_agrees b (LogicProbe_xor ?p a c) (LogicBuilder_xor b a c og)"
    unfolding LogicProbe_xor_def LogicBuilder_xor_def fuel(1)
    by (rule probe_agreesI [OF ok b2p.or_replaysD [OF b2p.canonical_xor_replays ok(1) vb(1,2)]
          D(1) [OF B(2) refl vp(1,2)] prb.canonical_xor_post [OF p vp(1,2) enough(1)]])
  show "probe_agrees b (LogicProbe_mux ?p a c d) (LogicBuilder_mux b a c d og)"
    unfolding LogicProbe_mux_def LogicBuilder_mux_def fuel(1)
    by (rule probe_agreesI [OF ok b2p.mux_replaysD [OF conjunct2 [OF b2p.canonical_or_mux_replays] ok(1) vb]
          D(2) [OF conjunct2 [OF B(1)] refl vp] prb.canonical_mux_post [OF p vp enough(2)]])
qed

text \<open>
  C8: the read-only probe of a frozen network is exact. For each of the four operations it
  answers with a literal precisely when the builder it was frozen from would return that
  literal without allocating a node, and otherwise answers that the expression is absent.
\<close>

theorem probe_exact:
  assumes "builder_ok b" and "\<not> builder_full b"
    and "valid_lit (builder_gates b) a" and "valid_lit (builder_gates b) c" and "valid_lit (builder_gates b) d"
  shows "probe_agrees b (LogicProbe_and (probe_of b) a c) (LogicBuilder_and b a c og) \<and>
    probe_agrees b (LogicProbe_or (probe_of b) a c) (LogicBuilder_or b a c og) \<and>
    probe_agrees b (LogicProbe_xor (probe_of b) a c) (LogicBuilder_xor b a c og) \<and>
    probe_agrees b (LogicProbe_mux (probe_of b) a c d) (LogicBuilder_mux b a c d og)"
  using probe_calls_agree [OF assms] by blast

section \<open>Asking twice\<close>

lemma replay_again:
  assumes "b2b.replays b res g" and "res = (Inr x, b')"
  shows "g b' = (Inr x, b')" and "builder_gates b \<subseteq>\<^sub>m builder_gates b'"
  using assms by (auto simp: b2b.replays_def builder_gates_def)

lemma call_fuel_again:
  assumes "builder_ok b" and "builder_gates b \<subseteq>\<^sub>m builder_gates b'" and "\<forall>l \<in> set ls. valid_lit (builder_gates b) l"
  shows "call_fuel (builder_gates b') ls = call_fuel (builder_gates b) ls"
  unfolding call_fuel_def
  using view_mono(2) [OF builder_wf [OF assms(1)] assms(2)] assms(3) by (metis (no_types, lifting) map_eq_conv)

text \<open>
  C10: asking the builder for the same operation again returns the same literal and adds no
  node, whatever origin the second request carries.
\<close>

theorem builder_calls_idempotent:
  assumes "builder_ok b" and "valid_lit (builder_gates b) a" and "valid_lit (builder_gates b) c"
    and "valid_lit (builder_gates b) d"
  shows "(LogicBuilder_and b a c og = (Inr x, b') \<longrightarrow> LogicBuilder_and b' a c og' = (Inr x, b')) \<and>
    (LogicBuilder_or b a c og = (Inr x, b') \<longrightarrow> LogicBuilder_or b' a c og' = (Inr x, b')) \<and>
    (LogicBuilder_xor b a c og = (Inr x, b') \<longrightarrow> LogicBuilder_xor b' a c og' = (Inr x, b')) \<and>
    (LogicBuilder_mux b a c d og = (Inr x, b') \<longrightarrow> LogicBuilder_mux b' a c d og' = (Inr x, b'))"
proof -
  note v = assms(2-4) [unfolded builder_gates_def]
  note R = b2b.or_replaysD [OF b2b.canonical_and_replays assms(1) v(1,2)]
    b2b.or_replaysD [OF conjunct1 [OF b2b.canonical_or_mux_replays] assms(1) v(1,2)]
    b2b.or_replaysD [OF b2b.canonical_xor_replays assms(1) v(1,2)]
    b2b.mux_replaysD [OF conjunct2 [OF b2b.canonical_or_mux_replays] assms(1) v]
  have f: "call_fuel (builder_gates b') [a, c] = call_fuel (builder_gates b) [a, c]"
    "call_fuel (builder_gates b') [a, c, d] = call_fuel (builder_gates b) [a, c, d]"
    if "builder_gates b \<subseteq>\<^sub>m builder_gates b'"
    using call_fuel_again [OF assms(1) that] assms(2-4) by simp_all
  show ?thesis
    unfolding LogicBuilder_and_def LogicBuilder_or_def LogicBuilder_xor_def LogicBuilder_mux_def
  proof (intro conjI impI)
    assume r: "canonical_and builder_ops b a c og = (Inr x, b')"
    show "canonical_and builder_ops b' a c og' = (Inr x, b')" by (rule replay_again(1) [OF R(1) r])
  next
    assume r: "canonical_or (call_fuel (builder_gates b) [a, c]) builder_ops b a c og = (Inr x, b')"
    show "canonical_or (call_fuel (builder_gates b') [a, c]) builder_ops b' a c og' = (Inr x, b')"
      unfolding f(1) [OF replay_again(2) [OF R(2) r]] by (rule replay_again(1) [OF R(2) r])
  next
    assume r: "canonical_xor (call_fuel (builder_gates b) [a, c]) builder_ops b a c og = (Inr x, b')"
    show "canonical_xor (call_fuel (builder_gates b') [a, c]) builder_ops b' a c og' = (Inr x, b')"
      unfolding f(1) [OF replay_again(2) [OF R(3) r]] by (rule replay_again(1) [OF R(3) r])
  next
    assume r: "canonical_mux (call_fuel (builder_gates b) [a, c, d]) builder_ops b a c d og = (Inr x, b')"
    show "canonical_mux (call_fuel (builder_gates b') [a, c, d]) builder_ops b' a c d og' = (Inr x, b')"
      unfolding f(2) [OF replay_again(2) [OF R(4) r]] by (rule replay_again(1) [OF R(4) r])
  qed
qed

section \<open>Concrete instances\<close>

lemma two_inputs_not_full: "\<not> builder_full two_inputs"
  by (simp add: builder_full_def node_count_def two_inputs_eq)

theorem StructuralIndex_of_freeze_witness:
  "builder_ok two_inputs \<and> \<not> builder_full two_inputs \<and>
   StructuralIndex_of (freeze two_inputs) = interned two_inputs"
  using StructuralIndex_of_freeze [OF two_inputs_ok two_inputs_not_full] two_inputs_ok two_inputs_not_full
  by blast

theorem probe_exact_witness:
  "builder_ok two_inputs \<and> \<not> builder_full two_inputs \<and>
   probe_agrees two_inputs (LogicProbe_mux (probe_of two_inputs) (Lit 2) (Lit 4) (Lit 2))
     (LogicBuilder_mux two_inputs (Lit 2) (Lit 4) (Lit 2) 5)"
  using probe_exact [OF two_inputs_ok two_inputs_not_full two_inputs_valid two_inputs_valid(1)]
    two_inputs_ok two_inputs_not_full by blast

theorem builder_calls_idempotent_witness:
  "builder_ok two_inputs \<and> valid_lit (builder_gates two_inputs) (Lit 2) \<and>
   LogicBuilder_and two_inputs (Lit 2) (Lit 2) 7 = (Inr (Lit 2), two_inputs) \<and>
   LogicBuilder_and two_inputs (Lit 2) (Lit 2) 8 = (Inr (Lit 2), two_inputs)"
proof -
  have "LogicBuilder_and two_inputs (Lit 2) (Lit 2) 7 = (Inr (Lit 2), two_inputs)"
    by (simp add: LogicBuilder_and_def canonical_and_def Lit_FALSE_def Lit_TRUE_def)
  then show ?thesis
    using builder_calls_idempotent [OF two_inputs_ok two_inputs_valid(1,1,1)] two_inputs_ok two_inputs_valid
    by blast
qed

end
