(* ===== verification/Bit_Emitter.thy ===== *)
theory Bit_Emitter
  imports Prelude
begin

text \<open>
  The scalar interface of the bit-blaster, \<^verbatim>\<open>crates/opto-synth/src/boolean/bitblast\<close>:
  word types and operators, the backend operations the lowering algorithms call
  (\<^verbatim>\<open>backend.rs\<close>) as a record, the emission helpers of \<^verbatim>\<open>support.rs\<close> over it, and
  the contract of a Boolean backend as the locale \<open>bit_emitter\<close>. Inside the locale a
  run of an algorithm on symbolic bits is related to the run of the same algorithm on
  Booleans, which reduces the correctness of a lowering to a statement on Boolean lists.

  An operand stands for a looked-up word value: its bits and its type. Source spans and
  the provenance recorded with them do not influence the bits and are left out.
\<close>

section \<open>Types and operators\<close>

datatype BitVal = BitZero | BitOne | BitX | BitZ

datatype LogicStateKind = TwoState | FourState

record WordType =
  ty_width :: nat
  ty_signed :: bool
  ty_state :: LogicStateKind

datatype UnaryOp = LogicalNot | BitNot | ReductionAnd | ReductionOr | ReductionXor

datatype BinaryOp = Add | Sub | Mul | Div | Mod | BitAnd | BitOr | BitXor | LogicalAnd | LogicalOr
  | Eq | Ne | Lt | Le | Gt | Ge | Shl | Shr | Ashr

datatype CastKind = ZeroExtend | SignExtend | Truncate

datatype SynthError =
  Invariant string | Capacity string | Unsupported string | WordFailure string | Panic string

text \<open>A word value is named by its index in the value arena.\<close>

datatype ValueId = ValueId (ValueId_index: nat)

definition WordType_new :: "nat \<Rightarrow> bool \<Rightarrow> LogicStateKind \<Rightarrow> SynthError + WordType"
  where "WordType_new width is_signed state =
    (if width = 0 then Inl (WordFailure ''RTL bit type width must be non-zero'')
     else Inr \<lparr>ty_width = width, ty_signed = is_signed, ty_state = state\<rparr>)"

definition bit_val :: "bool \<Rightarrow> BitVal"
  where "bit_val b = (if b then BitOne else BitZero)"

section \<open>The backend interface\<close>

record ('s, 'a) bit_ops =
  b_unary :: "'s \<Rightarrow> UnaryOp \<Rightarrow> 'a \<Rightarrow> ('s, SynthError, 'a) outcome"
  b_binary :: "'s \<Rightarrow> BinaryOp \<Rightarrow> 'a \<Rightarrow> 'a \<Rightarrow> ('s, SynthError, 'a) outcome"
  b_mux :: "'s \<Rightarrow> 'a \<Rightarrow> 'a \<Rightarrow> 'a \<Rightarrow> ('s, SynthError, 'a) outcome"
  b_constant :: "'s \<Rightarrow> BitVal \<Rightarrow> LogicStateKind \<Rightarrow> ('s, SynthError, 'a) outcome"
  b_typed_constant :: "'s \<Rightarrow> BitVal \<Rightarrow> WordType \<Rightarrow> ('s, SynthError, 'a) outcome"
  b_bit_type :: "'s \<Rightarrow> 'a \<Rightarrow> SynthError + WordType"
  b_word_value :: "'s \<Rightarrow> 'a \<Rightarrow> ValueId option"
  b_cast :: "'s \<Rightarrow> ValueId \<Rightarrow> WordType \<Rightarrow> ('s, SynthError, 'a) outcome"
  b_known :: "'s \<Rightarrow> 'a \<Rightarrow> bool option"
  b_level :: "'s \<Rightarrow> 'a \<Rightarrow> u32 option"

definition lift_result :: "'e + 'a \<Rightarrow> 's \<Rightarrow> ('s, 'e, 'a) outcome"
  where "lift_result r s = (r, s)"

definition scalar_with_type ::
  "('s, 'a) bit_ops \<Rightarrow> 's \<Rightarrow> 'a \<Rightarrow> WordType \<Rightarrow> ('s, SynthError, 'a) outcome"
  where "scalar_with_type em s x target =
    (if ty_width target \<noteq> 1 then (Inl (Invariant ''bitblast scalar coercion target is not one bit''), s)
     else sbind (lift_result (b_bit_type em s x) s) (\<lambda>ty s.
       if ty = target then (Inr x, s)
       else case b_word_value em s x of
         None \<Rightarrow> (Inr x, s)
       | Some word \<Rightarrow> b_cast em s word target))"

definition unsigned_bit :: "('s, 'a) bit_ops \<Rightarrow> 's \<Rightarrow> 'a \<Rightarrow> ('s, SynthError, 'a) outcome"
  where "unsigned_bit em s x =
    sbind (lift_result (b_bit_type em s x) s) (\<lambda>ty s.
      if \<not> ty_signed ty then (Inr x, s)
      else sbind (lift_result (WordType_new 1 False (ty_state ty)) s) (\<lambda>target s.
        case b_word_value em s x of
          None \<Rightarrow> (Inl (Invariant ''AXM scalar sign coercion is not a Word cast''), s)
        | Some word \<Rightarrow> b_cast em s word target))"

definition emit_unary :: "('s, 'a) bit_ops \<Rightarrow> 's \<Rightarrow> UnaryOp \<Rightarrow> 'a \<Rightarrow> ('s, SynthError, 'a) outcome"
  where "emit_unary em s op arg = b_unary em s op arg"

definition emit_binary ::
  "('s, 'a) bit_ops \<Rightarrow> 's \<Rightarrow> BinaryOp \<Rightarrow> 'a \<Rightarrow> 'a \<Rightarrow> ('s, SynthError, 'a) outcome"
  where "emit_binary em s op left right = b_binary em s op left right"

definition emit_mux ::
  "('s, 'a) bit_ops \<Rightarrow> 's \<Rightarrow> 'a \<Rightarrow> 'a \<Rightarrow> 'a \<Rightarrow> ('s, SynthError, 'a) outcome"
  where "emit_mux em s cond then_value else_value =
    sbind (lift_result (b_bit_type em s then_value) s) (\<lambda>then_ty s.
    sbind (lift_result (b_bit_type em s else_value) s) (\<lambda>else_ty s.
      if then_ty \<noteq> else_ty then
        (if ty_width then_ty \<noteq> 1 \<or> ty_width else_ty \<noteq> 1
         then (Inl (Invariant ''bitblast mux received non-scalar branch values''), s)
         else
           let state = (if ty_state then_ty = FourState \<or> ty_state else_ty = FourState
                        then FourState else TwoState)
           in sbind (lift_result (WordType_new 1 False state) s) (\<lambda>target s.
              sbind (scalar_with_type em s then_value target) (\<lambda>then_value s.
              sbind (scalar_with_type em s else_value target) (\<lambda>else_value s.
                b_mux em s cond then_value else_value))))
      else b_mux em s cond then_value else_value))"

definition emit_constant :: "('s, 'a) bit_ops \<Rightarrow> 's \<Rightarrow> BitVal \<Rightarrow> LogicStateKind \<Rightarrow> ('s, SynthError, 'a) outcome"
  where "emit_constant em s x state = b_constant em s x state"

definition zero_for_scalar :: "('s, 'a) bit_ops \<Rightarrow> 's \<Rightarrow> 'a \<Rightarrow> ('s, SynthError, 'a) outcome"
  where "zero_for_scalar em s x =
    sbind (lift_result (b_bit_type em s x) s) (\<lambda>ty s.
      if ty_width ty \<noteq> 1 then (Inl (Invariant ''zero fill expected a scalar value''), s)
      else if \<not> ty_signed ty then emit_constant em s BitZero (ty_state ty)
      else b_typed_constant em s BitZero ty)"

text \<open>
  An operand is the pair of the span a word value was lowered to and the type of the value.
  Rust's slice indexing panics out of range; \<open>vget\<close> makes that an error.
\<close>

type_synonym 'a operand = "'a list \<times> WordType"

definition vget :: "'a list \<Rightarrow> nat \<Rightarrow> 's \<Rightarrow> ('s, SynthError, 'a) outcome"
  where "vget xs i s = (if i < length xs then (Inr (xs ! i), s) else (Inl (Panic ''index out of bounds''), s))"

definition resized_bit ::
  "('s, 'a) bit_ops \<Rightarrow> 's \<Rightarrow> 'a operand \<Rightarrow> nat \<Rightarrow> bool \<Rightarrow> ('s, SynthError, 'a) outcome"
  where "resized_bit em s opd index sign_extend =
    (let (span, ty) = opd
     in if index < length span then vget span index s
        else if sign_extend \<and> ty_signed ty then vget span (length span - 1) s
        else emit_constant em s BitZero (ty_state ty))"

definition resized_bits ::
  "('s, 'a) bit_ops \<Rightarrow> 's \<Rightarrow> 'a operand \<Rightarrow> nat \<Rightarrow> bool \<Rightarrow> ('s, SynthError, 'a list) outcome"
  where "resized_bits em s opd width sign_extend =
    smapM (\<lambda>index s. resized_bit em s opd index sign_extend) [0..<width] s"

fun reduce_pairs ::
  "('s, 'a) bit_ops \<Rightarrow> BinaryOp \<Rightarrow> 'a list \<Rightarrow> 's \<Rightarrow> ('s, SynthError, 'a list) outcome"
  where
    "reduce_pairs em op (left # right # rest) s =
      sbind (emit_binary em s op left right) (\<lambda>y s. smap (Cons y) (reduce_pairs em op rest s))"
  | "reduce_pairs em op [single] s = (Inr [single], s)"
  | "reduce_pairs em op [] s = (Inr [], s)"

text \<open>
  The halving loop. The vector at least halves in each round, so as many rounds as it has
  bits are enough; \<open>reduce_rounds\<close> counts them down.
\<close>

fun reduce_rounds ::
  "nat \<Rightarrow> ('s, 'a) bit_ops \<Rightarrow> BinaryOp \<Rightarrow> 'a list \<Rightarrow> 's \<Rightarrow> ('s, SynthError, 'a) outcome"
  where
    "reduce_rounds 0 em op bits s = vget bits 0 s"
  | "reduce_rounds (Suc n) em op bits s =
      (if length bits > 1 then sbind (reduce_pairs em op bits s) (\<lambda>next_bits s. reduce_rounds n em op next_bits s)
       else vget bits 0 s)"

definition reduce_values ::
  "('s, 'a) bit_ops \<Rightarrow> 's \<Rightarrow> 'a list \<Rightarrow> BinaryOp \<Rightarrow> ('s, SynthError, 'a) outcome"
  where "reduce_values em s bits op =
    (if bits = [] then (Inl (Invariant ''cannot reduce an empty bit vector''), s)
     else reduce_rounds (length bits) em op bits s)"

section \<open>The Boolean backend\<close>

fun unary_sem :: "UnaryOp \<Rightarrow> bool \<Rightarrow> bool"
  where
    "unary_sem LogicalNot b = (\<not> b)"
  | "unary_sem BitNot b = (\<not> b)"
  | "unary_sem _ b = b"

fun binary_sem :: "BinaryOp \<Rightarrow> (bool \<Rightarrow> bool \<Rightarrow> bool) option"
  where
    "binary_sem BitAnd = Some (\<and>)"
  | "binary_sem LogicalAnd = Some (\<and>)"
  | "binary_sem BitOr = Some (\<or>)"
  | "binary_sem LogicalOr = Some (\<or>)"
  | "binary_sem BitXor = Some (\<noteq>)"
  | "binary_sem Ne = Some (\<noteq>)"
  | "binary_sem Eq = Some (=)"
  | "binary_sem _ = None"

definition scalar_ty :: WordType
  where "scalar_ty = \<lparr>ty_width = 1, ty_signed = False, ty_state = TwoState\<rparr>"

definition non_boolean_error :: SynthError
  where "non_boolean_error = Invariant ''non-Boolean operation reached AXM scalar emission''"

definition bool_ops :: "(unit, bool) bit_ops"
  where "bool_ops =
    \<lparr>b_unary = (\<lambda>s op a. (Inr (unary_sem op a), s)),
     b_binary = (\<lambda>s op a b. case binary_sem op of None \<Rightarrow> (Inl non_boolean_error, s) | Some f \<Rightarrow> (Inr (f a b), s)),
     b_mux = (\<lambda>s c t e. (Inr (if c then t else e), s)),
     b_constant = (\<lambda>s x st. (Inr (x = BitOne), s)),
     b_typed_constant = (\<lambda>s x ty. (Inr (x = BitOne), s)),
     b_bit_type = (\<lambda>s a. Inr scalar_ty),
     b_word_value = (\<lambda>s a. None),
     b_cast = (\<lambda>s w ty. (Inl non_boolean_error, s)),
     b_known = (\<lambda>s a. None),
     b_level = (\<lambda>s a. None)\<rparr>"

lemma bool_emit [simp]:
  "emit_unary bool_ops s uop a = (Inr (unary_sem uop a), s)"
  "binary_sem op = Some f \<Longrightarrow> emit_binary bool_ops s op a b = (Inr (f a b), s)"
  "emit_mux bool_ops s c t e = (Inr (if c then t else e), s)"
  "emit_constant bool_ops s x st = (Inr (x = BitOne), s)"
  "unsigned_bit bool_ops s a = (Inr a, s)"
  "scalar_with_type bool_ops s a scalar_ty = (Inr a, s)"
  "zero_for_scalar bool_ops s a = (Inr False, s)"
  by (simp_all add: emit_unary_def emit_binary_def emit_mux_def emit_constant_def unsigned_bit_def lift_result_def
      scalar_with_type_def zero_for_scalar_def bool_ops_def scalar_ty_def)

lemma bit_val_One [simp]: "(bit_val b = BitOne) = b"
  by (simp add: bit_val_def)

section \<open>The contract of a Boolean backend\<close>

text \<open>
  \<open>den s x v\<close>: in state \<open>s\<close> the bit \<open>x\<close> has the value \<open>v\<close>. States grow along \<open>le\<close>, which
  keeps every value; \<open>full\<close> states are those in which an emission may fail.
\<close>

locale bit_emitter =
  fixes em :: "('s, 'a) bit_ops"
    and good :: "'s \<Rightarrow> bool"
    and le :: "'s \<Rightarrow> 's \<Rightarrow> bool"
    and den :: "'s \<Rightarrow> 'a \<Rightarrow> bool \<Rightarrow> bool"
    and full :: "'s \<Rightarrow> bool"
  assumes le_refl: "le s s"
    and le_trans: "le s s' \<Longrightarrow> le s' s'' \<Longrightarrow> le s s''"
    and den_mono: "good s \<Longrightarrow> le s s' \<Longrightarrow> den s x v \<Longrightarrow> den s' x v"
    and den_unique: "den s x v \<Longrightarrow> den s x w \<Longrightarrow> v = w"
    and unary_law: "\<lbrakk>good s; den s x v; b_unary em s uop x = (r, s')\<rbrakk> \<Longrightarrow>
      good s' \<and> le s s' \<and> (case r of Inl e \<Rightarrow> full s' | Inr y \<Rightarrow> den s' y (unary_sem uop v))"
    and binary_law: "\<lbrakk>good s; den s x v; den s y w; binary_sem op = Some f; b_binary em s op x y = (r, s')\<rbrakk> \<Longrightarrow>
      good s' \<and> le s s' \<and> (case r of Inl e \<Rightarrow> full s' | Inr z \<Rightarrow> den s' z (f v w))"
    and mux_law: "\<lbrakk>good s; den s c u; den s x v; den s y w; b_mux em s c x y = (r, s')\<rbrakk> \<Longrightarrow>
      good s' \<and> le s s' \<and> (case r of Inl e \<Rightarrow> full s' | Inr z \<Rightarrow> den s' z (if u then v else w))"
    and constant_law: "\<lbrakk>good s; k = BitZero \<or> k = BitOne; b_constant em s k st = (r, s')\<rbrakk> \<Longrightarrow>
      good s' \<and> le s s' \<and> (case r of Inl e \<Rightarrow> full s' | Inr y \<Rightarrow> den s' y (k = BitOne))"
    and bit_type_law: "den s x v \<Longrightarrow> b_bit_type em s x = Inr scalar_ty"
    and word_value_law: "den s x v \<Longrightarrow> b_word_value em s x = None"
    and known_law: "good s \<Longrightarrow> den s x v \<Longrightarrow> b_known em s x = Some b \<Longrightarrow> v = b"
    and known_mono: "\<lbrakk>good s; le s s'; den s x v; b_known em s x = Some b\<rbrakk> \<Longrightarrow> b_known em s' x = Some b"
    and constant_known: "\<lbrakk>good s; k = BitZero \<or> k = BitOne; b_constant em s k st = (Inr y, s')\<rbrakk> \<Longrightarrow>
      b_known em s' y = Some (k = BitOne)"
begin

text \<open>
  \<open>sim s m b R\<close>: the run \<open>m\<close> from \<open>s\<close> follows the Boolean run \<open>b\<close>. It ends in a good larger
  state, and returns a result related by \<open>R\<close> to the Boolean one, fails like it, or fails
  because the store is full.
\<close>

definition sim :: "'s \<Rightarrow> ('s, SynthError, 'x) outcome \<Rightarrow> (unit, SynthError, 'y) outcome \<Rightarrow> ('s \<Rightarrow> 'x \<Rightarrow> 'y \<Rightarrow> bool) \<Rightarrow> bool"
  where "sim s m b R \<longleftrightarrow>
    good (snd m) \<and> le s (snd m) \<and>
    (case fst m of
       Inl e \<Rightarrow> full (snd m) \<or> fst b = Inl e
     | Inr x \<Rightarrow> (\<exists>y. fst b = Inr y \<and> R (snd m) x y))"

definition keeps :: "('s \<Rightarrow> 'x \<Rightarrow> 'y \<Rightarrow> bool) \<Rightarrow> bool"
  where "keeps R \<longleftrightarrow> (\<forall>s s' x y. good s \<longrightarrow> le s s' \<longrightarrow> R s x y \<longrightarrow> R s' x y)"

abbreviation dens :: "'s \<Rightarrow> 'a list \<Rightarrow> bool list \<Rightarrow> bool"
  where "dens s \<equiv> list_all2 (den s)"

lemma keepsD: "keeps R \<Longrightarrow> good s \<Longrightarrow> le s s' \<Longrightarrow> R s x y \<Longrightarrow> R s' x y"
  by (auto simp: keeps_def)

lemma keeps_den [simp]: "keeps den"
  by (auto simp: keeps_def intro: den_mono)

lemma keeps_list [simp]: "keeps R \<Longrightarrow> keeps (\<lambda>s. list_all2 (R s))"
  by (auto simp: keeps_def elim: list_all2_mono)

lemma keeps_const [simp]: "keeps (\<lambda>s. P)"
  by (simp add: keeps_def)

lemma keeps_prod [simp]: "keeps R \<Longrightarrow> keeps Q \<Longrightarrow> keeps (\<lambda>s. rel_prod (R s) (Q s))"
  by (auto simp: keeps_def rel_prod_sel)

lemma keeps_option [simp]: "keeps R \<Longrightarrow> keeps (\<lambda>s. rel_option (R s))"
  by (auto simp: keeps_def option_rel_Some1 elim!: option.rel_cases)

lemma dens_mono: "good s \<Longrightarrow> le s s' \<Longrightarrow> dens s xs vs \<Longrightarrow> dens s' xs vs"
  by (rule keepsD [OF keeps_list [OF keeps_den]])

lemma sim_ret: "good s \<Longrightarrow> R s x y \<Longrightarrow> sim s (Inr x, s) (Inr y, t) R"
  by (simp add: sim_def le_refl)

lemma sim_err: "good s \<Longrightarrow> sim s (Inl e, s) (Inl e, t) R"
  by (simp add: sim_def le_refl)

lemma sim_weaken:
  assumes "sim s m b R" and "\<And>s' x y. good s' \<Longrightarrow> le s s' \<Longrightarrow> R s' x y \<Longrightarrow> Q s' x y"
  shows "sim s m b Q"
  using assms by (auto simp: sim_def split: sum.splits)

lemma sim_bind:
  assumes "sim s m b R"
    and "\<And>s' x y. good s' \<Longrightarrow> le s s' \<Longrightarrow> R s' x y \<Longrightarrow> sim s' (f x s') (g y ()) Q"
  shows "sim s (sbind m f) (sbind b g) Q"
proof -
  obtain r s' where m: "m = (r, s')" by (cases m)
  obtain q where b: "b = (q, ())" by (cases b) auto
  show ?thesis
  proof (cases r)
    case (Inl e)
    with assms(1) show ?thesis by (cases q) (auto simp: sim_def m b sbind_def)
  next
    case (Inr x)
    with assms(1) obtain y where y: "q = Inr y" "R s' x y" "good s'" "le s s'"
      by (auto simp: sim_def m b)
    have "sim s' (f x s') (g y ()) Q" by (rule assms(2) [OF y(3,4,2)])
    with y(4) show ?thesis unfolding m b Inr y(1) sbind_simps
      by (auto simp: sim_def intro: le_trans)
  qed
qed

lemma sim_smap:
  assumes "sim s m b R" and "\<And>s' x y. good s' \<Longrightarrow> le s s' \<Longrightarrow> R s' x y \<Longrightarrow> Q s' (f x) (g y)"
  shows "sim s (smap f m) (smap g b) Q"
  using assms
  by (cases m; cases b; cases "fst m"; cases "fst b") (auto simp: sim_def smap_def)

lemma sim_if:
  assumes "c = c'" and "c \<Longrightarrow> sim s m b R" and "\<not> c \<Longrightarrow> sim s m' b' R"
  shows "sim s (if c then m else m') (if c' then b else b') R"
  using assms by simp

lemma sim_mapM:
  assumes "good s" and "list_all2 (P s) xs ys" and "keeps P" and "keeps R"
    and "\<And>s' x y. \<lbrakk>good s'; le s s'; P s' x y\<rbrakk> \<Longrightarrow> sim s' (f x s') (g y ()) R"
  shows "sim s (smapM f xs s) (smapM g ys ()) (\<lambda>s. list_all2 (R s))"
  using assms(1,2,5)
proof (induction xs arbitrary: s ys)
  case Nil
  then show ?case by (auto simp: sim_ret)
next
  case (Cons x xs)
  then obtain y ys' where ys: "ys = y # ys'" "P s x y" "list_all2 (P s) xs ys'"
    by (cases ys) auto
  show ?case unfolding ys(1) smapM.simps
  proof (rule sim_bind [OF Cons.prems(3) [OF Cons.prems(1) le_refl ys(2)]])
    fix s' v w assume s': "good s'" "le s s'" and vw: "R s' v w"
    have "sim s' (smapM f xs s') (smapM g ys' ()) (\<lambda>s. list_all2 (R s))"
      using s' Cons.prems(1) ys(3) keepsD [OF keeps_list [OF assms(3)]]
      by (intro Cons.IH) (auto intro: Cons.prems(3) le_trans)
    then show "sim s' (smap (Cons v) (smapM f xs s')) (smap (Cons w) (smapM g ys' ())) (\<lambda>s. list_all2 (R s))"
      by (rule sim_smap) (use vw s' keepsD [OF assms(4)] in auto)
  qed
qed

lemma sim_mapM_same:
  assumes "good s" and "keeps R" and "\<And>s' x. \<lbrakk>good s'; le s s'; x \<in> set xs\<rbrakk> \<Longrightarrow> sim s' (f x s') (g x ()) R"
  shows "sim s (smapM f xs s) (smapM g xs ()) (\<lambda>s. list_all2 (R s))"
  using sim_mapM [OF assms(1), of "\<lambda>s x y. x = y \<and> x \<in> set xs" xs xs R f g] assms
  by (auto simp: list_all2_same)

lemma sim_foldM:
  assumes "good s" and "list_all2 (P s) xs ys" and "keeps P" and "R s a b"
    and "\<And>s' x y c d. \<lbrakk>good s'; le s s'; P s' x y; R s' c d\<rbrakk> \<Longrightarrow> sim s' (f x c s') (g y d ()) R"
  shows "sim s (sfoldM f xs a s) (sfoldM g ys b ()) R"
  using assms(1,2,4,5)
proof (induction xs arbitrary: s ys a b)
  case Nil
  then show ?case by (auto simp: sim_ret)
next
  case (Cons x xs)
  then obtain y ys' where ys: "ys = y # ys'" "P s x y" "list_all2 (P s) xs ys'"
    by (cases ys) auto
  show ?case unfolding ys(1) sfoldM.simps
  proof (rule sim_bind [OF Cons.prems(4) [OF Cons.prems(1) le_refl ys(2) Cons.prems(3)]])
    fix s' v w assume s': "good s'" "le s s'" and vw: "R s' v w"
    show "sim s' (sfoldM f xs v s') (sfoldM g ys' w ()) R"
      using s' Cons.prems(1) ys(3) keepsD [OF keeps_list [OF assms(3)]] vw
      by (intro Cons.IH) (auto intro: Cons.prems(4) le_trans)
  qed
qed

section \<open>The emission helpers follow the Boolean backend\<close>

lemma sim_unary:
  assumes "good s" and "den s x v"
  shows "sim s (emit_unary em s op x) (emit_unary bool_ops () op v) den"
  using unary_law [OF assms, of op] by (cases "b_unary em s op x")
    (auto simp: sim_def emit_unary_def [of em] split: sum.splits)

lemma sim_binary:
  assumes "good s" and "den s x v" and "den s y w" and "binary_sem op = Some f"
  shows "sim s (emit_binary em s op x y) (emit_binary bool_ops () op v w) den"
  using binary_law [OF assms] assms(4) by (cases "b_binary em s op x y")
    (auto simp: sim_def emit_binary_def [of em] split: sum.splits)

lemma sim_mux:
  assumes "good s" and "den s c u" and "den s x v" and "den s y w"
  shows "sim s (emit_mux em s c x y) (emit_mux bool_ops () u v w) den"
  using mux_law [OF assms] by (cases "b_mux em s c x y")
    (auto simp: sim_def emit_mux_def [of em] lift_result_def bit_type_law [OF assms(3)]
      bit_type_law [OF assms(4)] split: sum.splits)

lemma sim_constant:
  assumes "good s" and "x = BitZero \<or> x = BitOne"
  shows "sim s (emit_constant em s x st) (emit_constant bool_ops () x st') den"
  using constant_law [OF assms, of st] by (cases "b_constant em s x st")
    (auto simp: sim_def emit_constant_def [of em] split: sum.splits)

lemma sim_constant_bool:
  assumes "good s"
  shows "sim s (emit_constant em s (bit_val b) st) (emit_constant bool_ops () (bit_val b) st') den"
  by (rule sim_constant [OF assms]) (simp add: bit_val_def)

lemma sim_unsigned:
  assumes "good s" and "den s x v"
  shows "sim s (unsigned_bit em s x) (unsigned_bit bool_ops () v) den"
  using assms by (simp add: unsigned_bit_def [of em] lift_result_def bit_type_law [OF assms(2)] scalar_ty_def sim_ret)

lemma sim_zero_for_scalar:
  assumes "good s" and "den s x v"
  shows "sim s (zero_for_scalar em s x) (zero_for_scalar bool_ops () w) den"
  using sim_constant [OF assms(1), of BitZero TwoState TwoState]
  by (simp add: zero_for_scalar_def [of em] lift_result_def bit_type_law [OF assms(2)] scalar_ty_def)

lemma sim_vget:
  assumes "good s" and "list_all2 (R s) xs ys" and "i = j"
  shows "sim s (vget xs i s) (vget ys j ()) R"
  using assms by (auto simp: vget_def list_all2_conv_all_nth intro: sim_ret sim_err)

abbreviation opds :: "'s \<Rightarrow> 'a operand \<Rightarrow> bool operand \<Rightarrow> bool"
  where "opds s a b \<equiv> dens s (fst a) (fst b) \<and> snd a = snd b"

lemma sim_resized_bit:
  assumes "good s" and "opds s a b"
  shows "sim s (resized_bit em s a i se) (resized_bit bool_ops () b i se) den"
proof -
  obtain xs vs ty where ab: "a = (xs, ty)" "b = (vs, ty)" and d: "dens s xs vs"
    using assms(2) by (cases a; cases b) auto
  note len = list_all2_lengthD [OF d]
  show ?thesis
    unfolding ab resized_bit_def Let_def prod.case
    by (intro sim_if sim_vget sim_constant assms(1) d) (simp_all add: len)
qed

lemma sim_resized_bits:
  assumes "good s" and "opds s a b"
  shows "sim s (resized_bits em s a n se) (resized_bits bool_ops () b n se) dens"
  unfolding resized_bits_def
  using assms by (intro sim_mapM_same keeps_den sim_resized_bit) (auto intro: dens_mono)

text \<open>
  Sequencing with the facts a later step needs: everything known before still holds. The two
  growth premises act as rewrite rules, so that a chain of steps is closed by simplification.
\<close>

lemma sim_seq:
  assumes "sim s m b R" and "good s"
    and "\<And>s' x y. \<lbrakk>good s'; le s s'; \<And>x v. den s x v \<Longrightarrow> den s' x v; \<And>xs vs. dens s xs vs \<Longrightarrow> dens s' xs vs; R s' x y\<rbrakk>
      \<Longrightarrow> sim s' (f x s') (g y ()) Q"
  shows "sim s (sbind m f) (sbind b g) Q"
  using assms by (intro sim_bind [OF assms(1)]) (auto intro: den_mono dens_mono)

lemma sim_map:
  assumes "sim s m b R" and "good s"
    and "\<And>s' x y. \<lbrakk>good s'; le s s'; \<And>x v. den s x v \<Longrightarrow> den s' x v; \<And>xs vs. dens s xs vs \<Longrightarrow> dens s' xs vs; R s' x y\<rbrakk>
      \<Longrightarrow> Q s' (f x) (g y)"
  shows "sim s (smap f m) (smap g b) Q"
  using assms by (intro sim_smap [OF assms(1)]) (auto intro: den_mono dens_mono)

text \<open>Sequencing after a run whose Boolean result is known.\<close>

lemma sim_then:
  assumes "sim s m (Inr v, ()) R" and "good s"
    and "\<And>s' x. \<lbrakk>good s'; le s s'; \<And>x v. den s x v \<Longrightarrow> den s' x v; \<And>xs vs. dens s xs vs \<Longrightarrow> dens s' xs vs; R s' x v\<rbrakk>
      \<Longrightarrow> sim s' (f x s') b Q"
  shows "sim s (sbind m f) b Q"
proof -
  have "sim s (sbind m f) (sbind (Inr (), ()) (\<lambda>_ _. b)) Q"
  proof (rule sim_bind [where R = "\<lambda>s' x u. R s' x v"])
    show "sim s m (Inr (), ()) (\<lambda>s' x u. R s' x v)" using assms(1) by (auto simp: sim_def split: sum.splits)
  qed (use assms(2,3) den_mono dens_mono in auto)
  then show ?thesis by simp
qed

lemmas sim_steps = sim_seq [OF sim_binary] sim_seq [OF sim_unary] sim_seq [OF sim_mux]
  sim_seq [OF sim_constant] sim_seq [OF sim_constant_bool] sim_seq [OF sim_vget [of _ den]]
  sim_seq [OF sim_resized_bit] sim_if sim_binary sim_unary sim_mux sim_constant sim_constant_bool sim_vget
  sim_resized_bit sim_ret sim_err

lemma dens_Nil: "dens s xs vs \<Longrightarrow> (xs = []) = (vs = [])"
  by auto

lemma sim_reduce_pairs:
  assumes "good s" and "dens s xs vs" and "binary_sem op = Some f"
  shows "sim s (reduce_pairs em op xs s) (reduce_pairs bool_ops op vs ()) dens"
  using assms
proof (induction xs arbitrary: s vs rule: induct_list012)
  case 1
  then show ?case by (simp add: sim_ret)
next
  case (2 x)
  then show ?case by (auto simp: list_all2_Cons1 intro: sim_ret)
next
  case (3 x y xs)
  then obtain v w ws where vs: "vs = v # w # ws" "den s x v" "den s y w" "dens s xs ws"
    by (auto simp: list_all2_Cons1)
  show ?case unfolding vs(1) reduce_pairs.simps
  proof (rule sim_bind [OF sim_binary [OF 3(3) vs(2,3) 3(5)]])
    fix s' z u assume s': "good s'" "le s s'" and z: "den s' z u"
    have "sim s' (reduce_pairs em op xs s') (reduce_pairs bool_ops op ws ()) dens"
      by (rule 3(1) [OF s'(1) dens_mono [OF 3(3) s'(2) vs(4)] 3(5)])
    then show "sim s' (smap (Cons z) (reduce_pairs em op xs s')) (smap (Cons u) (reduce_pairs bool_ops op ws ())) dens"
      by (rule sim_smap) (use z s' den_mono in auto)
  qed
qed

lemma sim_reduce_rounds:
  assumes "good s" and "dens s xs vs" and "binary_sem op = Some f"
  shows "sim s (reduce_rounds n em op xs s) (reduce_rounds n bool_ops op vs ()) den"
  using assms(1,2)
proof (induction n arbitrary: s xs vs)
  case 0
  then show ?case by (simp add: sim_vget)
next
  case (Suc n)
  show ?case unfolding reduce_rounds.simps
    by (intro sim_if sim_bind [OF sim_reduce_pairs [OF Suc.prems assms(3)]] sim_vget Suc refl)
      (simp add: list_all2_lengthD [OF Suc.prems(2)])
qed

lemma sim_reduce_values:
  assumes "good s" and "dens s xs vs" and "binary_sem op = Some f"
  shows "sim s (reduce_values em s xs op) (reduce_values bool_ops () vs op) den"
  unfolding reduce_values_def list_all2_lengthD [OF assms(2)]
  by (intro sim_if sim_err sim_reduce_rounds [OF assms] assms(1)) (use assms(2) in auto)

end

section \<open>Reductions of Booleans\<close>

fun fold_op :: "(bool \<Rightarrow> bool \<Rightarrow> bool) \<Rightarrow> bool list \<Rightarrow> bool"
  where
    "fold_op f [] = False"
  | "fold_op f [b] = b"
  | "fold_op f (a # b # bs) = f a (fold_op f (b # bs))"

definition assoc_op :: "(bool \<Rightarrow> bool \<Rightarrow> bool) \<Rightarrow> bool"
  where "assoc_op f \<longleftrightarrow> (\<forall>a b c. f (f a b) c = f a (f b c))"

lemma assoc_ops [simp]: "assoc_op (\<and>)" "assoc_op (\<or>)" "assoc_op (\<noteq>)" "assoc_op (=)"
  by (auto simp: assoc_op_def)

lemma fold_op_Cons: "bs \<noteq> [] \<Longrightarrow> fold_op f (a # bs) = f a (fold_op f bs)"
  by (cases bs) auto

lemma reduce_pairs_bool:
  assumes "binary_sem op = Some f" and "assoc_op f"
  shows "\<exists>zs. reduce_pairs bool_ops op vs () = (Inr zs, ()) \<and> fold_op f zs = fold_op f vs \<and>
    length zs = (length vs + 1) div 2"
proof (induction vs rule: induct_list012)
  case (3 a b bs)
  then obtain zs where z: "reduce_pairs bool_ops op bs () = (Inr zs, ())" "fold_op f zs = fold_op f bs"
    "length zs = (length bs + 1) div 2" by blast
  have "fold_op f (f a b # zs) = fold_op f (a # b # bs)"
  proof (cases "bs = []")
    case True
    with z(3) show ?thesis by simp
  next
    case False
    with z(3) have "zs \<noteq> []" by (cases bs) auto
    with False z(2) assms(2) show ?thesis by (simp add: fold_op_Cons assoc_op_def)
  qed
  with z assms(1) show ?case by auto
qed auto

lemma reduce_rounds_bool:
  assumes "binary_sem op = Some f" and "assoc_op f" and "vs \<noteq> []" and "length vs \<le> Suc n"
  shows "reduce_rounds n bool_ops op vs () = (Inr (fold_op f vs), ())"
  using assms(3,4)
proof (induction n arbitrary: vs)
  case 0
  then show ?case by (cases vs) (auto simp: vget_def)
next
  case (Suc n)
  show ?case
  proof (cases "length vs > 1")
    case True
    obtain zs where z: "reduce_pairs bool_ops op vs () = (Inr zs, ())" "fold_op f zs = fold_op f vs"
      "length zs = (length vs + 1) div 2" using reduce_pairs_bool [OF assms(1,2)] by blast
    have "zs \<noteq> []" "length zs \<le> Suc n" using z(3) Suc.prems True by (auto simp flip: length_greater_0_conv)
    with True z Suc.IH show ?thesis by simp
  next
    case False
    with Suc.prems show ?thesis by (cases vs) (auto simp: vget_def)
  qed
qed

text \<open>
  Reducing a vector pair by pair gives the same value as folding it from one end, for every
  associative operation.
\<close>

lemma reduce_values_bool:
  assumes "binary_sem op = Some f" and "assoc_op f" and "vs \<noteq> []"
  shows "reduce_values bool_ops () vs op = (Inr (fold_op f vs), ())"
  using assms by (simp add: reduce_values_def reduce_rounds_bool)

lemma fold_op_or: "vs \<noteq> [] \<Longrightarrow> fold_op (\<or>) vs = (True \<in> set vs)"
  by (induction vs rule: induct_list012) auto

lemma fold_op_and: "vs \<noteq> [] \<Longrightarrow> fold_op (\<and>) vs = (False \<notin> set vs)"
  by (induction vs rule: induct_list012) auto

lemma fold_op_xor: "vs \<noteq> [] \<Longrightarrow> fold_op (\<noteq>) vs = odd (length (filter id vs))"
  by (induction vs rule: induct_list012) auto

lemma bits_val_pos: "0 < bits_val vs \<longleftrightarrow> True \<in> set vs"
  by (induction vs) auto

section \<open>Resizing of Boolean operands\<close>

definition extend_bool :: "bool operand \<Rightarrow> nat \<Rightarrow> bool \<Rightarrow> bool list"
  where "extend_bool opd n se =
    map (\<lambda>i. if i < length (fst opd) then fst opd ! i
             else se \<and> ty_signed (snd opd) \<and> fst opd \<noteq> [] \<and> last (fst opd)) [0..<n]"

lemma smapM_bool:
  assumes "\<And>x. x \<in> set xs \<Longrightarrow> f x () = (Inr (g x), ())"
  shows "smapM f xs () = (Inr (map g xs), ())"
  using assms by (induction xs) auto

lemma resized_bits_bool:
  assumes "fst opd \<noteq> []"
  shows "resized_bits bool_ops () opd n se = (Inr (extend_bool opd n se), ())"
  unfolding resized_bits_def extend_bool_def
  using assms by (intro smapM_bool) (auto simp: resized_bit_def vget_def last_conv_nth split: prod.splits)

lemma length_extend_bool [simp]: "length (extend_bool opd n se) = n"
  by (simp add: extend_bool_def)

lemma extend_bool_take: "n \<le> length bs \<Longrightarrow> extend_bool (bs, ty) n se = take n bs"
  by (rule nth_equalityI) (auto simp: extend_bool_def)

lemma extend_bool_fill:
  assumes "length bs \<le> n"
  shows "extend_bool (bs, ty) n se =
    bs @ replicate (n - length bs) (se \<and> ty_signed ty \<and> bs \<noteq> [] \<and> last bs)"
  by (rule nth_equalityI) (use assms in \<open>auto simp: extend_bool_def nth_append\<close>)

lemma bits_val_take: "bits_val (take n bs) = bits_val bs mod 2 ^ n"
proof (cases "n \<le> length bs")
  case True
  have "bits_val bs = bits_val (take n bs) + 2 ^ n * bits_val (drop n bs)"
    using bits_val_append [of "take n bs" "drop n bs"] True by (simp add: min_def)
  moreover have "bits_val (take n bs) < 2 ^ n" using bits_val_less [of "take n bs"] True by (simp add: min_def split: if_splits)
  ultimately show ?thesis by (metis mod_mult_self2 mod_less)
next
  case False
  then have "bits_val bs < 2 ^ n"
    using bits_val_less [of bs] by (meson less_le_trans nat_le_linear numeral_le_iff one_le_numeral power_increasing)
  with False show ?thesis by simp
qed

lemma bits_val_replicate_True: "bits_val (replicate n True) + 1 = 2 ^ n"
  by (induction n) auto

text \<open>The number an operand stands for, and its value once resized.\<close>

definition operand_val :: "bool operand \<Rightarrow> bool \<Rightarrow> int"
  where "operand_val opd se =
    (if se \<and> ty_signed (snd opd) then signed_val (fst opd) else int (bits_val (fst opd)))"

lemma extend_bool_val:
  assumes "fst opd \<noteq> []"
  shows "int (bits_val (extend_bool opd n se)) = operand_val opd se mod 2 ^ n"
proof -
  obtain bs ty where o: "opd = (bs, ty)" by (cases opd)
  show ?thesis
  proof (cases "n \<le> length bs")
    case True
    then have "(2::int) ^ n dvd 2 ^ length bs" by (simp add: le_imp_power_dvd)
    then have "signed_val bs mod 2 ^ n = int (bits_val bs) mod 2 ^ n"
      by (simp add: signed_val_def mod_eq_dvd_iff)
    then show ?thesis
      using True by (simp add: o operand_val_def extend_bool_take bits_val_take zmod_int)
  next
    case False
    then have len: "length bs \<le> n" by simp
    have small: "int (bits_val bs) < 2 ^ length bs" using bits_val_less [of bs] by (metis of_nat_less_iff of_nat_numeral of_nat_power)
    have pow: "(2::int) ^ n = 2 ^ length bs * 2 ^ (n - length bs)" using len by (simp flip: power_add)
    have le: "(2::int) ^ length bs \<le> 2 ^ n" using len by simp
    show ?thesis
    proof (cases "se \<and> ty_signed ty \<and> last bs")
      case True
      have ones: "int (bits_val (replicate (n - length bs) True)) = 2 ^ (n - length bs) - 1"
        using arg_cong [OF bits_val_replicate_True [of "n - length bs"], of int] by simp
      have "int (bits_val (extend_bool opd n se)) = int (bits_val bs) + 2 ^ n - 2 ^ length bs"
        using True assms by (simp add: o extend_bool_fill [OF len] bits_val_append pow ones right_diff_distrib)
      moreover have "operand_val opd se = int (bits_val bs) - 2 ^ length bs"
        using True assms by (simp add: o operand_val_def signed_val_def)
      moreover have "(int (bits_val bs) - 2 ^ length bs + 2 ^ n) mod 2 ^ n = int (bits_val bs) - 2 ^ length bs + 2 ^ n"
        using small le by (intro mod_pos_pos_trivial) linarith+
      ultimately show ?thesis by simp
    next
      case False
      then have "int (bits_val (extend_bool opd n se)) = int (bits_val bs)"
        using assms by (auto simp: o extend_bool_fill [OF len] bits_val_append)
      moreover have "operand_val opd se = int (bits_val bs)"
        using False by (auto simp: o operand_val_def signed_val_def)
      moreover have "int (bits_val bs) mod 2 ^ n = int (bits_val bs)"
        using small le by (intro mod_pos_pos_trivial) linarith+
      ultimately show ?thesis by simp
    qed
  qed
qed

end
