(* ===== verification/Axm_Graph.thy ===== *)
theory Axm_Graph
  imports Logic_Builder Bit_Emitter
begin

text \<open>
  \<^verbatim>\<open>LogicGraph\<close> of \<^verbatim>\<open>crates/opto-synth/src/boolean/logic/network.rs\<close>: the canonical AXM graph
  with its one-way lifecycle. Until it is frozen the graph owns a builder; the first analysis
  initialises the frozen storage from a copy of the builder, after which construction panics.
  Every \<^verbatim>\<open>expect\<close> and \<^verbatim>\<open>assert\<close> of the source is an error of the model.
\<close>

section \<open>State and operations\<close>

type_synonym LogicNodeId = Lit

datatype LogicNode = NConst bool | NVar u32 | NAnd LogicNodeId LogicNodeId | NXor LogicNodeId LogicNodeId
  | NMux LogicNodeId LogicNodeId LogicNodeId

record LogicGraph =
  builder :: "LogicBuilder option"
  graph_storage :: "LogicNetwork option"

type_synonym 'a graph_result = "(LogicGraph, SynthError, 'a) outcome"

definition LogicGraph_new :: LogicGraph
  where "LogicGraph_new = \<lparr>builder = Some LogicBuilder_new, graph_storage = None\<rparr>"

definition LogicGraph_constant :: "bool \<Rightarrow> LogicNodeId"
  where "LogicGraph_constant v = (if v then Lit_TRUE else Lit_FALSE)"

definition LogicGraph_variable :: "LogicGraph \<Rightarrow> nat \<Rightarrow> LogicNodeId option \<times> LogicGraph"
  where "LogicGraph_variable g index =
    (case u32_of_usize index of
       None \<Rightarrow> (None, g)
     | Some origin \<Rightarrow>
         (case builder g of
            None \<Rightarrow> (None, g)
          | Some b \<Rightarrow>
              (case LogicBuilder_input b origin of
                 (Inl e, b') \<Rightarrow> (None, g\<lparr>builder := Some b'\<rparr>)
               | (Inr x, b') \<Rightarrow> (Some x, g\<lparr>builder := Some b'\<rparr>))))"

definition LogicGraph_not :: "LogicNodeId \<Rightarrow> LogicNodeId"
  where "LogicGraph_not arg = LogicBuilder_not arg"

definition mutable_builder :: "LogicGraph \<Rightarrow> SynthError + LogicBuilder"
  where "mutable_builder g =
    (if graph_storage g \<noteq> None then Inl (Panic ''logic network cannot be extended after analysis starts'')
     else case builder g of
       None \<Rightarrow> Inl (Panic ''logic network is immutable after analysis starts'')
     | Some b \<Rightarrow> Inr b)"

text \<open>A builder call through the mutable borrow, with the \<^verbatim>\<open>expect\<close> on its result.\<close>

definition extend_graph :: "LogicGraph \<Rightarrow> (LogicBuilder \<Rightarrow> builder_result) \<Rightarrow> LogicNodeId graph_result"
  where "extend_graph g call =
    (case mutable_builder g of
       Inl e \<Rightarrow> (Inl e, g)
     | Inr b \<Rightarrow>
         (case call b of
            (Inl e, b') \<Rightarrow> (Inl (Panic ''logic network exceeds compact capacity''), g\<lparr>builder := Some b'\<rparr>)
          | (Inr x, b') \<Rightarrow> (Inr x, g\<lparr>builder := Some b'\<rparr>)))"

definition LogicGraph_and :: "LogicGraph \<Rightarrow> LogicNodeId \<Rightarrow> LogicNodeId \<Rightarrow> LogicNodeId graph_result"
  where "LogicGraph_and g left right = extend_graph g (\<lambda>b. LogicBuilder_and b left right 0)"

definition LogicGraph_or :: "LogicGraph \<Rightarrow> LogicNodeId \<Rightarrow> LogicNodeId \<Rightarrow> LogicNodeId graph_result"
  where "LogicGraph_or g left right = extend_graph g (\<lambda>b. LogicBuilder_or b left right 0)"

definition LogicGraph_xor :: "LogicGraph \<Rightarrow> LogicNodeId \<Rightarrow> LogicNodeId \<Rightarrow> LogicNodeId graph_result"
  where "LogicGraph_xor g left right = extend_graph g (\<lambda>b. LogicBuilder_xor b left right 0)"

definition LogicGraph_mux ::
  "LogicGraph \<Rightarrow> LogicNodeId \<Rightarrow> LogicNodeId \<Rightarrow> LogicNodeId \<Rightarrow> LogicNodeId graph_result"
  where "LogicGraph_mux g cond then_value else_value =
    extend_graph g (\<lambda>b. LogicBuilder_mux b cond then_value else_value 0)"

definition LogicGraph_freeze :: "LogicGraph \<Rightarrow> LogicGraph"
  where "LogicGraph_freeze g =
    (case builder g of
       None \<Rightarrow> g
     | Some b \<Rightarrow>
         (case graph_storage g of
            None \<Rightarrow> g\<lparr>builder := None, graph_storage := Some (freeze b)\<rparr>
          | Some _ \<Rightarrow> g\<lparr>builder := None\<rparr>))"

definition LogicGraph_storage :: "LogicGraph \<Rightarrow> LogicNetwork graph_result"
  where "LogicGraph_storage g =
    (case graph_storage g of
       Some net \<Rightarrow> (Inr net, g)
     | None \<Rightarrow>
         (case builder g of
            None \<Rightarrow> (Inl (Panic ''logic network builder exists before explicit freeze''), g)
          | Some b \<Rightarrow> (Inr (freeze b), g\<lparr>graph_storage := Some (freeze b)\<rparr>)))"

definition unwrap :: "'a option \<Rightarrow> string \<Rightarrow> SynthError + 'a"
  where "unwrap x msg = (case x of None \<Rightarrow> Inl (Panic msg) | Some a \<Rightarrow> Inr a)"

definition node_of :: "LogicNetwork \<Rightarrow> LogicNodeId \<Rightarrow> SynthError + LogicNode"
  where "node_of net node_id =
    (let node = Lit_node node_id;
         fanin = (\<lambda>i. unwrap (net_fanin net node i) ''called unwrap on None'')
     in rbind (unwrap (net_kind net node) ''logic node ID belongs to the frozen network'') (\<lambda>k.
       case k of
         Constant \<Rightarrow> Inr (NConst False)
       | Input \<Rightarrow> Inr (NVar (case net_origin net node of None \<Rightarrow> 0 | Some origin \<Rightarrow> origin))
       | And \<Rightarrow> rbind (fanin 0) (\<lambda>a. rbind (fanin 1) (\<lambda>b. Inr (NAnd a b)))
       | Xor \<Rightarrow> rbind (fanin 0) (\<lambda>a. rbind (fanin 1) (\<lambda>b. Inr (NXor a b)))
       | Mux \<Rightarrow> rbind (fanin 0) (\<lambda>a. rbind (fanin 1) (\<lambda>b. rbind (fanin 2) (\<lambda>c. Inr (NMux a b c))))))"

definition LogicGraph_node :: "LogicGraph \<Rightarrow> LogicNodeId \<Rightarrow> LogicNode graph_result"
  where "LogicGraph_node g node_id =
    sbind (LogicGraph_storage g) (\<lambda>net g. (node_of net node_id, g))"

definition LogicGraph_node_count :: "LogicGraph \<Rightarrow> nat graph_result"
  where "LogicGraph_node_count g =
    (case builder g of
       None \<Rightarrow> smap node_count (LogicGraph_storage g)
     | Some b \<Rightarrow> (Inr (node_count b), g))"

definition LogicGraph_level :: "LogicGraph \<Rightarrow> LogicNodeId \<Rightarrow> u32 graph_result"
  where "LogicGraph_level g node_id =
    smap (\<lambda>net. case net_level net (Lit_node node_id) of None \<Rightarrow> 0 | Some l \<Rightarrow> l) (LogicGraph_storage g)"

definition construction_level :: "LogicGraph \<Rightarrow> LogicNodeId \<Rightarrow> u32 graph_result"
  where "construction_level g node_id =
    (case builder g of
       None \<Rightarrow> LogicGraph_level g node_id
     | Some b \<Rightarrow> (Inr (case net_level b (Lit_node node_id) of None \<Rightarrow> 0 | Some l \<Rightarrow> l), g))"

definition LogicNodeId_from_index :: "nat \<Rightarrow> SynthError + LogicNodeId"
  where "LogicNodeId_from_index index =
    (case NodeId_from_index index of
       Inl e \<Rightarrow> Inl (Panic ''logic node index exceeds 32-bit node ID capacity'')
     | Inr node \<Rightarrow>
         (case Lit_from_node node of
            Inl e \<Rightarrow> Inl (Panic ''logic literal exceeds 32-bit capacity'')
          | Inr l \<Rightarrow> Inr l))"

fun node_fanins :: "LogicNode \<Rightarrow> LogicNodeId list"
  where
    "node_fanins (NConst _) = []"
  | "node_fanins (NVar _) = []"
  | "node_fanins (NAnd left right) = [left, right]"
  | "node_fanins (NXor left right) = [left, right]"
  | "node_fanins (NMux cond then_value else_value) = [cond, then_value, else_value]"

fun is_gate :: "LogicNode \<Rightarrow> bool"
  where
    "is_gate (NAnd _ _) = True"
  | "is_gate (NXor _ _) = True"
  | "is_gate (NMux _ _ _) = True"
  | "is_gate _ = False"

section \<open>Construction\<close>

text \<open>A graph under construction owns a well-formed builder and has no storage yet.\<close>

definition building :: "LogicGraph \<Rightarrow> bool"
  where "building g \<longleftrightarrow> graph_storage g = None \<and> (\<exists>b. builder g = Some b \<and> builder_ok b)"

definition graph_gates :: "LogicGraph \<Rightarrow> gates"
  where "graph_gates g = builder_gates (the (builder g))"

definition graph_full :: "LogicGraph \<Rightarrow> bool"
  where "graph_full g \<longleftrightarrow> builder_full (the (builder g))"

text \<open>
  What a construction step promises: the graph is still under construction and only grew, every
  literal keeps its meaning, and the result denotes \<open>F\<close> unless literals have run out.
\<close>

definition graph_call :: "LogicGraph \<Rightarrow> (env \<Rightarrow> bool) \<Rightarrow> LogicNodeId graph_result \<Rightarrow> bool"
  where "graph_call g F res \<longleftrightarrow>
    building (snd res) \<and> graph_gates g \<subseteq>\<^sub>m graph_gates (snd res) \<and>
    (\<forall>l env. valid_lit (graph_gates g) l \<longrightarrow>
       eval_lit (graph_gates (snd res)) env l = eval_lit (graph_gates g) env l) \<and>
    (case fst res of
       Inr x \<Rightarrow> valid_lit (graph_gates (snd res)) x \<and> (\<forall>env. eval_lit (graph_gates (snd res)) env x = F env)
     | Inl e \<Rightarrow> e = Panic ''logic network exceeds compact capacity'' \<and> graph_full (snd res))"

lemma building_new: "building LogicGraph_new"
  by (simp add: building_def LogicGraph_new_def builder_ok_new)

lemma extend_graph_call:
  assumes "building g" and "\<And>b. builder g = Some b \<Longrightarrow> builder_ok b \<Longrightarrow> builder_call b F (call b)"
  shows "graph_call g F (extend_graph g call)"
proof -
  from assms(1) obtain b where b: "builder g = Some b" "builder_ok b" "graph_storage g = None"
    by (auto simp: building_def)
  then have m: "mutable_builder g = Inr b" by (simp add: mutable_builder_def)
  have "builder_call b F (call b)" by (rule assms(2) [OF b(1,2)])
  then show ?thesis
    using b m
    by (cases "call b") (auto simp: extend_graph_def graph_call_def builder_call_def building_def
        graph_gates_def graph_full_def split: sum.splits)
qed

lemma buildingE:
  assumes "building g"
  obtains b where "builder g = Some b" and "builder_ok b" and "graph_gates g = builder_gates b"
  using assms by (auto simp: building_def graph_gates_def)

lemma LogicGraph_gates_correct:
  assumes "building g" and "valid_lit (graph_gates g) l" and "valid_lit (graph_gates g) r"
  shows "graph_call g (\<lambda>env. eval_lit (graph_gates g) env l \<and> eval_lit (graph_gates g) env r) (LogicGraph_and g l r)"
    and "graph_call g (\<lambda>env. eval_lit (graph_gates g) env l \<or> eval_lit (graph_gates g) env r) (LogicGraph_or g l r)"
    and "graph_call g (\<lambda>env. eval_lit (graph_gates g) env l \<noteq> eval_lit (graph_gates g) env r) (LogicGraph_xor g l r)"
proof -
  obtain b where b: "builder g = Some b" "builder_ok b" "graph_gates g = builder_gates b"
    using buildingE [OF assms(1)] .
  note v = assms(2,3) [unfolded b(3)]
  show "graph_call g (\<lambda>env. eval_lit (graph_gates g) env l \<and> eval_lit (graph_gates g) env r) (LogicGraph_and g l r)"
    "graph_call g (\<lambda>env. eval_lit (graph_gates g) env l \<or> eval_lit (graph_gates g) env r) (LogicGraph_or g l r)"
    "graph_call g (\<lambda>env. eval_lit (graph_gates g) env l \<noteq> eval_lit (graph_gates g) env r) (LogicGraph_xor g l r)"
    unfolding LogicGraph_and_def LogicGraph_or_def LogicGraph_xor_def b(3)
    using builder_and_call [OF b(2) v] builder_or_call [OF b(2) v] builder_xor_call [OF b(2) v] b(1)
    by (auto intro!: extend_graph_call [OF assms(1)])
qed

lemma LogicGraph_mux_correct:
  assumes "building g" and "valid_lit (graph_gates g) c" and "valid_lit (graph_gates g) t"
    and "valid_lit (graph_gates g) e"
  shows "graph_call g (\<lambda>env. if eval_lit (graph_gates g) env c then eval_lit (graph_gates g) env t
      else eval_lit (graph_gates g) env e) (LogicGraph_mux g c t e)"
proof -
  obtain b where b: "builder g = Some b" "builder_ok b" "graph_gates g = builder_gates b"
    using buildingE [OF assms(1)] .
  show ?thesis
    unfolding LogicGraph_mux_def b(3)
    using builder_mux_call [OF b(2) assms(2-4) [unfolded b(3)]] b(1)
    by (auto intro!: extend_graph_call [OF assms(1)] split del: if_split)
qed

text \<open>
  A new variable is a fresh input node that evaluates to what the environment gives it.
\<close>

lemma LogicGraph_variable_correct:
  assumes "building g" and "LogicGraph_variable g i = (x, g')"
  shows "building g' \<and> graph_gates g \<subseteq>\<^sub>m graph_gates g' \<and>
    (case x of None \<Rightarrow> 2 ^ 32 \<le> i \<or> graph_full g'
     | Some l \<Rightarrow> \<not> is_inverted l \<and> graph_gates g (Lit_node l) = None \<and> graph_gates g' (Lit_node l) = Some GInput)"
proof -
  obtain b where b: "builder g = Some b" "builder_ok b" "graph_storage g = None"
    using assms(1) by (auto simp: building_def)
  show ?thesis
  proof (cases "u32_of_usize i")
    case None
    then have "2 ^ 32 \<le> i" by (auto simp: u32_of_usize_def split: if_splits)
    with None assms show ?thesis by (auto simp: LogicGraph_variable_def)
  next
    case (Some w)
    obtain r b' where r: "LogicBuilder_input b w = (r, b')" by fastforce
    from LogicBuilder_input_cases [OF b(2) r] show ?thesis
      using assms(2) b r Some
      by (cases r) (auto simp: LogicGraph_variable_def building_def graph_gates_def graph_full_def)
  qed
qed

section \<open>The frozen graph\<close>

text \<open>The node a frozen network returns is the gate the builder had, and never a panic.\<close>

fun gate_of_node :: "LogicNode \<Rightarrow> gate"
  where
    "gate_of_node (NConst _) = GConst"
  | "gate_of_node (NVar _) = GInput"
  | "gate_of_node (NAnd a b) = GAnd a b"
  | "gate_of_node (NXor a b) = GXor a b"
  | "gate_of_node (NMux a b c) = GMux a b c"

lemma node_of_freeze:
  assumes "builder_ok b" and "builder_gates b (Lit_node l) = Some x"
  shows "\<exists>n. node_of (freeze b) l = Inr n \<and> gate_of_node n = x"
proof -
  have o: "lengths_ok b" using assms(1) by (simp add: builder_ok_def)
  then have i: "lit_index l < length (kinds b)" and x: "x = gate_at b (lit_index l)"
    using assms(2) by (auto simp: gate_view_builder split: if_splits)
  then show ?thesis
    using o by (cases "kinds b ! lit_index l")
      (auto simp: node_of_def Let_def unwrap_def net_kind_def net_fanin_def net_origin_def list_get_def
        lengths_ok_def gate_at_def)
qed



text \<open>
  C13: unlike the gate constructors, adding a variable is not sealed by the first analysis: on a
  graph whose storage was initialised on first access and whose builder was not taken by an
  explicit freeze, a variable is still appended to the builder, and the storage that answers
  every later query does not have the new node.
\<close>

theorem variable_after_analysis_diverges:
  assumes "building g" and "h = snd (LogicGraph_storage g)" and "LogicGraph_variable h i = (Some l, h')"
  shows "graph_gates h' (Lit_node l) = Some GInput \<and>
    fst (LogicGraph_node h' l) = Inl (Panic ''logic node ID belongs to the frozen network'')"
proof -
  obtain b where b: "builder g = Some b" "builder_ok b" "graph_storage g = None"
    using assms(1) by (auto simp: building_def)
  have h: "h = g\<lparr>graph_storage := Some (freeze b)\<rparr>"
    using assms(2) b by (simp add: LogicGraph_storage_def)
  obtain w b' where r: "LogicBuilder_input b w = (Inr l, b')" and h': "h' = h\<lparr>builder := Some b'\<rparr>"
    using assms(3) b(1) by (auto simp: LogicGraph_variable_def h split: option.splits prod.splits sum.splits)
  have "builder_gates b (Lit_node l) = None" "builder_gates b' (Lit_node l) = Some GInput"
    using LogicBuilder_input_cases [OF b(2) r] by auto
  moreover have "lengths_ok b" using b(2) by (simp add: builder_ok_def)
  ultimately show ?thesis
    by (auto simp: h' h graph_gates_def LogicGraph_node_def LogicGraph_storage_def node_of_def net_kind_def
        unwrap_def list_get_def gate_view_builder split: if_splits)
qed

section \<open>Concrete instances\<close>

definition one_input :: LogicGraph
  where "one_input = snd (LogicGraph_variable LogicGraph_new 0)"

lemma one_input_eq:
  "one_input = \<lparr>builder = Some \<lparr>kinds = [Constant, Input], fanin0 = [Lit_FALSE, Lit_FALSE], fanin1 = [Lit_FALSE, Lit_FALSE],
     fanin2 = [Lit_FALSE, Lit_FALSE], levels = [0, 0], origins = [0, 0], interned = Map.empty\<rparr>, graph_storage = None\<rparr>"
  by (simp add: one_input_def LogicGraph_variable_def LogicGraph_new_def u32_of_usize_def LogicBuilder_input_def
      LogicBuilder_new_def push_def NodeId_from_index_def new_level_def fanin_levels_def checked_add_def
      append_node_def Lit_from_node_def checked_mul_def)

lemma one_input_building: "building one_input"
  using LogicGraph_variable_correct [OF building_new] unfolding one_input_def by (metis prod.collapse)

lemma one_input_gate: "graph_gates one_input (Lit_node (Lit 2)) = Some GInput"
  by (simp add: one_input_eq graph_gates_def builder_gates_def gate_view_def builder_ops_def net_kind_def list_get_def
      NodeId_index_def Lit_node_def drop_bit_Suc)



lemma one_input_sealed_variable:
  "\<exists>h'. LogicGraph_variable (snd (LogicGraph_storage one_input)) 1 = (Some (Lit 4), h')"
  by (simp add: one_input_eq LogicGraph_storage_def LogicGraph_variable_def u32_of_usize_def LogicBuilder_input_def
      push_def NodeId_from_index_def new_level_def fanin_levels_def checked_add_def append_node_def
      Lit_from_node_def checked_mul_def)

theorem variable_after_analysis_diverges_witness:
  "\<exists>h'. LogicGraph_variable (snd (LogicGraph_storage one_input)) 1 = (Some (Lit 4), h') \<and>
    graph_gates h' (Lit_node (Lit 4)) = Some GInput \<and>
    fst (LogicGraph_node h' (Lit 4)) = Inl (Panic ''logic node ID belongs to the frozen network'')"
  using one_input_sealed_variable variable_after_analysis_diverges [OF one_input_building refl] by blast

end
