(* ===== verification/Word_Module.thy ===== *)
theory Word_Module
  imports Bit_Emitter
begin

text \<open>
  The word-level intermediate representation of \<^verbatim>\<open>crates/opto-ir/src/word\<close>: the data of
  \<^verbatim>\<open>model.rs\<close>, the arenas of a module with the methods that extend them (\<^verbatim>\<open>module.rs\<close>,
  \<^verbatim>\<open>module/builders.rs\<close>), and the checks a module passes before it crosses a stage boundary
  (\<^verbatim>\<open>module/validation.rs\<close>, \<^verbatim>\<open>validate.rs\<close>).

  A dense identifier is its arena index behind a type of its own. The 32-bit encoding of
  identifiers appears as the capacity check of \<open>from_index\<close>. A \<^verbatim>\<open>WordError\<close> is the error
  \<open>WordFailure\<close> with the fixed part of its message. Names are kept as far as they are resolved;
  source spans, annotations, aggregate layouts, memories and instances are left out, except for the
  data signals of memory read ports, which \<^verbatim>\<open>connect\<close> inspects.
\<close>

section \<open>Data\<close>

datatype SignalId = SignalId (SignalId_index: nat)
datatype OpId = OpId (OpId_index: nat)
datatype PortId = PortId (PortId_index: nat)

type_synonym NameId = nat

definition dense_from_index :: "(nat \<Rightarrow> 'i) \<Rightarrow> string \<Rightarrow> nat \<Rightarrow> SynthError + 'i"
  where "dense_from_index mk message index =
    (if index + 1 < 2 ^ 32 then Inr (mk index) else Inl (WordFailure message))"

definition ValueId_from_index :: "nat \<Rightarrow> SynthError + ValueId"
  where "ValueId_from_index = dense_from_index ValueId ''value ID exceeds 32-bit capacity''"

definition OpId_from_index :: "nat \<Rightarrow> SynthError + OpId"
  where "OpId_from_index = dense_from_index OpId ''operation ID exceeds 32-bit capacity''"

definition SignalId_from_index :: "nat \<Rightarrow> SynthError + SignalId"
  where "SignalId_from_index = dense_from_index SignalId ''signal ID exceeds 32-bit capacity''"

definition PortId_from_index :: "nat \<Rightarrow> SynthError + PortId"
  where "PortId_from_index = dense_from_index PortId ''port ID exceeds 32-bit capacity''"

definition state_merge :: "LogicStateKind \<Rightarrow> LogicStateKind \<Rightarrow> LogicStateKind"
  where "state_merge a b = (if a = FourState \<or> b = FourState then FourState else TwoState)"

definition with_width :: "WordType \<Rightarrow> nat \<Rightarrow> SynthError + WordType"
  where "with_width ty width = WordType_new width (ty_signed ty) (ty_state ty)"

datatype PortDirection = PortInput | PortOutput | PortInout | PortRef

record Port =
  port_name :: NameId
  port_direction :: PortDirection
  port_signal :: SignalId
  port_ty :: WordType

datatype SignalKind = SignalWire | SignalRegister | SignalProcessLocal | SignalPort PortId

datatype SignalResolution = SingleDriver | ResolveTriState | WiredAnd | WiredOr | PullZero | PullOne | SupplyZero | SupplyOne

record Signal =
  sig_name :: "NameId option"
  sig_kind :: SignalKind
  sig_ty :: WordType
  sig_resolution :: SignalResolution

record SignalRef =
  sr_signal :: SignalId
  sr_lsb :: nat
  sr_width :: nat

datatype ValueKind = SignalValue SignalRef | ConstantValue "BitVal list" | OperationValue OpId

record WordValue =
  v_kind :: ValueKind
  v_ty :: WordType

datatype Edge = EdgePos | EdgeNeg

record Enable =
  en_value :: ValueId
  en_active_high :: bool

datatype ResetKind = ResetSync | ResetAsync

record Reset =
  rs_kind :: ResetKind
  rs_value :: ValueId
  rs_active_high :: bool
  rs_reset_value :: ValueId

record RegisterOp =
  rg_name :: "NameId option"
  rg_d :: ValueId
  rg_clock :: ValueId
  rg_edge :: Edge
  rg_enable :: "Enable option"
  rg_resets :: "Reset list"

record LatchOp =
  lt_name :: "NameId option"
  lt_d :: ValueId
  lt_enable :: Enable
  lt_resets :: "Reset list"

datatype OpKind =
    OpUnary UnaryOp ValueId
  | OpBinary BinaryOp ValueId ValueId
  | OpMux ValueId ValueId ValueId
  | OpTriState ValueId Enable
  | OpConcat "ValueId list"
  | OpExtract ValueId nat nat
  | OpDynamicExtract ValueId ValueId nat
  | OpDynamicInsert ValueId ValueId ValueId
  | OpCast CastKind ValueId WordType
  | OpRegister RegisterOp
  | OpLatch LatchOp

text \<open>The operands of an operation, in the order of \<^verbatim>\<open>try_for_each_input\<close>.\<close>

definition reset_inputs :: "Reset list \<Rightarrow> ValueId list"
  where "reset_inputs resets = concat (map (\<lambda>reset. [rs_value reset, rs_reset_value reset]) resets)"

fun op_inputs :: "OpKind \<Rightarrow> ValueId list"
  where
    "op_inputs (OpUnary op arg) = [arg]"
  | "op_inputs (OpBinary op left right) = [left, right]"
  | "op_inputs (OpMux cond then_value else_value) = [cond, then_value, else_value]"
  | "op_inputs (OpTriState data enable) = [data, en_value enable]"
  | "op_inputs (OpConcat parts) = parts"
  | "op_inputs (OpExtract x lsb width) = [x]"
  | "op_inputs (OpCast kind x target) = [x]"
  | "op_inputs (OpDynamicExtract x offset width) = [x, offset]"
  | "op_inputs (OpDynamicInsert x offset replacement) = [x, offset, replacement]"
  | "op_inputs (OpRegister register) = [rg_d register, rg_clock register]
      @ (case rg_enable register of None \<Rightarrow> [] | Some enable \<Rightarrow> [en_value enable]) @ reset_inputs (rg_resets register)"
  | "op_inputs (OpLatch latch) = [lt_d latch, en_value (lt_enable latch)] @ reset_inputs (lt_resets latch)"

record Operation =
  op_kind :: OpKind
  op_result :: ValueId

record BitRange =
  br_msb :: nat
  br_lsb :: nat

definition BitRange_width :: "BitRange \<Rightarrow> nat"
  where "BitRange_width r = (if br_lsb r \<le> br_msb r then br_msb r - br_lsb r else br_lsb r - br_msb r) + 1"

record DynamicRange =
  dr_offset :: ValueId
  dr_width :: nat

record LValue =
  lv_signal :: SignalId
  lv_range :: "BitRange option"
  lv_dynamic :: "DynamicRange option"

definition LValue_signal :: "SignalId \<Rightarrow> LValue"
  where "LValue_signal s = \<lparr>lv_signal = s, lv_range = None, lv_dynamic = None\<rparr>"

definition with_range :: "LValue \<Rightarrow> BitRange \<Rightarrow> LValue"
  where "with_range lv r = lv\<lparr>lv_range := Some r\<rparr>"

definition with_dynamic_range :: "LValue \<Rightarrow> ValueId \<Rightarrow> nat \<Rightarrow> LValue"
  where "with_dynamic_range lv offset width = lv\<lparr>lv_dynamic := Some \<lparr>dr_offset = offset, dr_width = width\<rparr>\<rparr>"

record Connect =
  cn_target :: LValue
  cn_value :: ValueId

record WordModule =
  wm_names :: "string list"
  wm_ports :: "Port list"
  wm_signals :: "Signal list"
  wm_memory_read_data :: "SignalId list"
  wm_values :: "WordValue list"
  wm_operations :: "Operation list"
  wm_connects :: "Connect list"

definition WordModule_new :: "string \<Rightarrow> WordModule"
  where "WordModule_new name =
    \<lparr>wm_names = [[], name], wm_ports = [], wm_signals = [], wm_memory_read_data = [], wm_values = [],
     wm_operations = [], wm_connects = []\<rparr>"

section \<open>Access\<close>

definition WordModule_value :: "WordModule \<Rightarrow> ValueId \<Rightarrow> WordValue option"
  where "WordModule_value m v = list_get (wm_values m) (ValueId_index v)"

definition WordModule_signal :: "WordModule \<Rightarrow> SignalId \<Rightarrow> Signal option"
  where "WordModule_signal m s = list_get (wm_signals m) (SignalId_index s)"

definition WordModule_operation :: "WordModule \<Rightarrow> OpId \<Rightarrow> Operation option"
  where "WordModule_operation m i = list_get (wm_operations m) (OpId_index i)"

definition WordModule_port :: "WordModule \<Rightarrow> PortId \<Rightarrow> Port option"
  where "WordModule_port m p = list_get (wm_ports m) (PortId_index p)"

definition resolve_name :: "WordModule \<Rightarrow> NameId \<Rightarrow> string option"
  where "resolve_name m name = list_get (wm_names m) name"

definition value_ty :: "WordModule \<Rightarrow> ValueId \<Rightarrow> SynthError + WordType"
  where "value_ty m v =
    (case list_get (wm_values m) (ValueId_index v) of
       None \<Rightarrow> Inl (WordFailure ''unknown RTL value'') | Some x \<Rightarrow> Inr (v_ty x))"

definition signal_ty :: "WordModule \<Rightarrow> SignalId \<Rightarrow> SynthError + WordType"
  where "signal_ty m s =
    (case list_get (wm_signals m) (SignalId_index s) of
       None \<Rightarrow> Inl (WordFailure ''unknown RTL signal'') | Some x \<Rightarrow> Inr (sig_ty x))"

definition require_value_width :: "WordModule \<Rightarrow> ValueId \<Rightarrow> nat \<Rightarrow> string \<Rightarrow> SynthError + unit"
  where "require_value_width m v width context_name =
    rbind (value_ty m v) (\<lambda>ty. if ty_width ty \<noteq> width then Inl (WordFailure context_name) else Inr ())"

definition lvalue_ty :: "WordModule \<Rightarrow> LValue \<Rightarrow> SynthError + WordType"
  where "lvalue_ty m lvalue =
    rbind (signal_ty m (lv_signal lvalue)) (\<lambda>signal_ty.
      if lv_range lvalue \<noteq> None \<and> lv_dynamic lvalue \<noteq> None
      then Inl (WordFailure ''lvalue cannot have both static and dynamic ranges'')
      else case lv_dynamic lvalue of
        Some dynamic \<Rightarrow>
          rbind (value_ty m (dr_offset dynamic)) (\<lambda>offset_ty.
            if ty_signed offset_ty then Inl (WordFailure ''dynamic lvalue offset must be unsigned'')
            else if dr_width dynamic > ty_width signal_ty then Inl (WordFailure ''dynamic lvalue width exceeds signal width'')
            else WordType_new (dr_width dynamic) False (ty_state signal_ty))
      | None \<Rightarrow>
          (case lv_range lvalue of
             Some rng \<Rightarrow>
               if max (br_msb rng) (br_lsb rng) \<ge> ty_width signal_ty
               then Inl (WordFailure ''lvalue range exceeds signal width'')
               else WordType_new (BitRange_width rng) False (ty_state signal_ty)
           | None \<Rightarrow> Inr signal_ty))"

section \<open>Extending the arenas\<close>

definition push_value :: "WordModule \<Rightarrow> ValueKind \<Rightarrow> WordType \<Rightarrow> (WordModule, SynthError, ValueId) outcome"
  where "push_value m k ty =
    (case ValueId_from_index (length (wm_values m)) of
       Inl e \<Rightarrow> (Inl e, m)
     | Inr v \<Rightarrow> (Inr v, m\<lparr>wm_values := wm_values m @ [\<lparr>v_kind = k, v_ty = ty\<rparr>]\<rparr>))"

definition push_operation :: "WordModule \<Rightarrow> OpKind \<Rightarrow> WordType \<Rightarrow> (WordModule, SynthError, ValueId) outcome"
  where "push_operation m kind ty =
    (case OpId_from_index (length (wm_operations m)) of
       Inl e \<Rightarrow> (Inl e, m)
     | Inr op_id \<Rightarrow>
         sbind (push_value m (OperationValue op_id) ty) (\<lambda>result m.
           (Inr result, m\<lparr>wm_operations := wm_operations m @ [\<lparr>op_kind = kind, op_result = result\<rparr>]\<rparr>)))"

text \<open>A check of the module, then an extension of it.\<close>

definition checked_build ::
  "WordModule \<Rightarrow> SynthError + 'a \<Rightarrow> ('a \<Rightarrow> (WordModule, SynthError, 'b) outcome) \<Rightarrow> (WordModule, SynthError, 'b) outcome"
  where "checked_build m check build = (case check of Inl e \<Rightarrow> (Inl e, m) | Inr a \<Rightarrow> build a)"

definition add_generated_wire :: "WordModule \<Rightarrow> WordType \<Rightarrow> (WordModule, SynthError, SignalId) outcome"
  where "add_generated_wire m ty =
    checked_build m (SignalId_from_index (length (wm_signals m))) (\<lambda>i.
      (Inr i, m\<lparr>wm_signals := wm_signals m @
        [\<lparr>sig_name = None, sig_kind = SignalWire, sig_ty = ty, sig_resolution = SingleDriver\<rparr>]\<rparr>))"

definition set_signal_resolution :: "WordModule \<Rightarrow> SignalId \<Rightarrow> SignalResolution \<Rightarrow> (WordModule, SynthError, unit) outcome"
  where "set_signal_resolution m s resolution =
    (case WordModule_signal m s of
       None \<Rightarrow> (Inl (WordFailure ''unknown RTL signal''), m)
     | Some signal \<Rightarrow>
         if resolution \<noteq> SingleDriver \<and> (sig_kind signal = SignalRegister \<or> sig_kind signal = SignalProcessLocal)
         then (Inl (WordFailure ''wired resolution is valid only for nets and ports''), m)
         else (Inr (), m\<lparr>wm_signals := (wm_signals m)[SignalId_index s := signal\<lparr>sig_resolution := resolution\<rparr>]\<rparr>))"

definition read_signal_slice :: "WordModule \<Rightarrow> SignalId \<Rightarrow> nat \<Rightarrow> nat \<Rightarrow> (WordModule, SynthError, ValueId) outcome"
  where "read_signal_slice m s lsb width =
    checked_build m (rbind (signal_ty m s) (\<lambda>signal_ty.
      if width = 0 then Inl (WordFailure ''signal reference width must be non-zero'')
      else if lsb + width \<ge> 2 ^ 32 then Inl (WordFailure ''signal reference range exceeds 32-bit capacity'')
      else if lsb + width > ty_width signal_ty then Inl (WordFailure ''signal reference exceeds signal width'')
      else if lsb = 0 \<and> width = ty_width signal_ty then Inr signal_ty
      else WordType_new width False (ty_state signal_ty)))
    (\<lambda>ty. push_value m (SignalValue \<lparr>sr_signal = s, sr_lsb = lsb, sr_width = width\<rparr>) ty)"

definition read_signal :: "WordModule \<Rightarrow> SignalId \<Rightarrow> (WordModule, SynthError, ValueId) outcome"
  where "read_signal m s =
    checked_build m (signal_ty m s) (\<lambda>ty. read_signal_slice m s 0 (ty_width ty))"

definition WordModule_connect :: "WordModule \<Rightarrow> LValue \<Rightarrow> ValueId \<Rightarrow> (WordModule, SynthError, unit) outcome"
  where "WordModule_connect m target v =
    (if lv_signal target \<in> set (wm_memory_read_data m)
     then (Inl (WordFailure ''memory read data signal cannot have another structural driver''), m)
     else checked_build m (rbind (lvalue_ty m target) (\<lambda>target_ty. rbind (value_ty m v) (\<lambda>value_ty.
         if target_ty \<noteq> value_ty then Inl (WordFailure ''connection type mismatch'') else Inr ())))
       (\<lambda>_. (Inr (), m\<lparr>wm_connects := wm_connects m @ [\<lparr>cn_target = target, cn_value = v\<rparr>]\<rparr>)))"

definition take_connects :: "WordModule \<Rightarrow> Connect list \<times> WordModule"
  where "take_connects m = (wm_connects m, m\<lparr>wm_connects := []\<rparr>)"

section \<open>Value-producing builders\<close>

text \<open>Constants store their bits most significant first.\<close>

definition bit_lsb :: "BitVal list \<Rightarrow> nat \<Rightarrow> BitVal option"
  where "bit_lsb bits index = (if index + 1 \<le> length bits then Some (bits ! (length bits - (index + 1))) else None)"

definition unknown_bit :: "BitVal \<Rightarrow> bool"
  where "unknown_bit b \<longleftrightarrow> b = BitX \<or> b = BitZ"

definition WordModule_constant ::
  "WordModule \<Rightarrow> BitVal list \<Rightarrow> WordType \<Rightarrow> (WordModule, SynthError, ValueId) outcome"
  where "WordModule_constant m bits ty =
    (if length bits \<noteq> ty_width ty then (Inl (WordFailure ''constant width does not match type width''), m)
     else if ty_state ty = TwoState \<and> list_ex unknown_bit bits
     then (Inl (WordFailure ''two-state constant cannot contain x or z bits''), m)
     else push_value m (ConstantValue bits) ty)"

definition unary_type :: "UnaryOp \<Rightarrow> WordType \<Rightarrow> SynthError + WordType"
  where "unary_type op arg_ty = (if op = BitNot then Inr arg_ty else WordType_new 1 False (ty_state arg_ty))"

definition WordModule_unary :: "WordModule \<Rightarrow> UnaryOp \<Rightarrow> ValueId \<Rightarrow> (WordModule, SynthError, ValueId) outcome"
  where "WordModule_unary m op arg =
    checked_build m (rbind (value_ty m arg) (unary_type op)) (push_operation m (OpUnary op arg))"

definition binary_type :: "BinaryOp \<Rightarrow> WordType \<Rightarrow> WordType \<Rightarrow> SynthError + WordType"
  where "binary_type op left_ty right_ty =
    (let state = state_merge (ty_state left_ty) (ty_state right_ty)
     in if op \<in> {LogicalAnd, LogicalOr, Eq, Ne, Lt, Le, Gt, Ge} then WordType_new 1 False state
     else if op \<in> {Shl, Shr, Ashr} then WordType_new (ty_width left_ty) (ty_signed left_ty) state
     else WordType_new (max (ty_width left_ty) (ty_width right_ty)) (ty_signed left_ty \<and> ty_signed right_ty) state)"

definition WordModule_binary ::
  "WordModule \<Rightarrow> BinaryOp \<Rightarrow> ValueId \<Rightarrow> ValueId \<Rightarrow> (WordModule, SynthError, ValueId) outcome"
  where "WordModule_binary m op left right =
    checked_build m (rbind (value_ty m left) (\<lambda>left_ty. rbind (value_ty m right) (binary_type op left_ty)))
      (push_operation m (OpBinary op left right))"

definition WordModule_mux :: "WordModule \<Rightarrow> ValueId \<Rightarrow> ValueId \<Rightarrow> ValueId \<Rightarrow> (WordModule, SynthError, ValueId) outcome"
  where "WordModule_mux m cond then_value else_value =
    checked_build m (rbind (require_value_width m cond 1 ''mux condition'') (\<lambda>_.
      rbind (value_ty m then_value) (\<lambda>then_ty. rbind (value_ty m else_value) (\<lambda>else_ty.
        if then_ty \<noteq> else_ty then Inl (WordFailure ''mux branch types differ'') else Inr then_ty))))
      (push_operation m (OpMux cond then_value else_value))"

definition tri_state :: "WordModule \<Rightarrow> ValueId \<Rightarrow> Enable \<Rightarrow> (WordModule, SynthError, ValueId) outcome"
  where "tri_state m data enable =
    checked_build m (rbind (require_value_width m (en_value enable) 1 ''tri-state enable'') (\<lambda>_. value_ty m data))
      (push_operation m (OpTriState data enable))"

fun concat_type :: "WordModule \<Rightarrow> nat \<Rightarrow> LogicStateKind \<Rightarrow> ValueId list \<Rightarrow> SynthError + nat \<times> LogicStateKind"
  where
    "concat_type m width state [] = Inr (width, state)"
  | "concat_type m width state (part # parts) =
      rbind (value_ty m part) (\<lambda>ty.
        if width + ty_width ty \<ge> 2 ^ 32 then Inl (WordFailure ''concat width exceeds 32-bit capacity'')
        else concat_type m (width + ty_width ty) (state_merge state (ty_state ty)) parts)"

definition WordModule_concat :: "WordModule \<Rightarrow> ValueId list \<Rightarrow> (WordModule, SynthError, ValueId) outcome"
  where "WordModule_concat m parts =
    checked_build m (if parts = [] then Inl (WordFailure ''concat requires at least one part'')
        else rbind (concat_type m 0 TwoState parts) (\<lambda>(width, state). WordType_new width False state))
      (push_operation m (OpConcat parts))"

definition WordModule_extract :: "WordModule \<Rightarrow> ValueId \<Rightarrow> nat \<Rightarrow> nat \<Rightarrow> (WordModule, SynthError, ValueId) outcome"
  where "WordModule_extract m v lsb width =
    checked_build m (if width = 0 then Inl (WordFailure ''extract width must be non-zero'')
        else rbind (value_ty m v) (\<lambda>value_ty.
          if lsb + width \<ge> 2 ^ 32 then Inl (WordFailure ''extract range exceeds 32-bit capacity'')
          else if lsb + width > ty_width value_ty then Inl (WordFailure ''extract exceeds value width'')
          else with_width value_ty width))
      (push_operation m (OpExtract v lsb width))"

definition dynamic_extract :: "WordModule \<Rightarrow> ValueId \<Rightarrow> ValueId \<Rightarrow> nat \<Rightarrow> (WordModule, SynthError, ValueId) outcome"
  where "dynamic_extract m v offset width =
    checked_build m (if width = 0 then Inl (WordFailure ''dynamic extract width must be non-zero'')
        else rbind (value_ty m v) (\<lambda>value_ty. rbind (Word_Module.value_ty m offset) (\<lambda>offset_ty.
          if width > ty_width value_ty then Inl (WordFailure ''dynamic extract width exceeds value width'')
          else if ty_signed offset_ty then Inl (WordFailure ''dynamic extract offset must be unsigned'')
          else with_width value_ty width)))
      (push_operation m (OpDynamicExtract v offset width))"

definition dynamic_insert :: "WordModule \<Rightarrow> ValueId \<Rightarrow> ValueId \<Rightarrow> ValueId \<Rightarrow> (WordModule, SynthError, ValueId) outcome"
  where "dynamic_insert m v offset replacement =
    checked_build m (rbind (value_ty m v) (\<lambda>ty. rbind (value_ty m offset) (\<lambda>offset_ty.
        rbind (value_ty m replacement) (\<lambda>replacement_ty.
          if ty_signed offset_ty then Inl (WordFailure ''dynamic insert offset must be unsigned'')
          else if ty_width replacement_ty > ty_width ty
          then Inl (WordFailure ''dynamic insert replacement width exceeds value width'')
          else if ty_state replacement_ty \<noteq> ty_state ty
          then Inl (WordFailure ''dynamic insert replacement logic state differs from its value'')
          else Inr ty))))
      (push_operation m (OpDynamicInsert v offset replacement))"

definition WordModule_cast :: "WordModule \<Rightarrow> CastKind \<Rightarrow> ValueId \<Rightarrow> WordType \<Rightarrow> (WordModule, SynthError, ValueId) outcome"
  where "WordModule_cast m kind v target =
    checked_build m (rbind (value_ty m v) (\<lambda>ty.
        if (kind = ZeroExtend \<or> kind = SignExtend) \<and> ty_width target < ty_width ty
        then Inl (WordFailure ''extend cast cannot shrink a value'')
        else if kind = Truncate \<and> ty_width target > ty_width ty
        then Inl (WordFailure ''truncate cast cannot widen a value'')
        else Inr target))
      (push_operation m (OpCast kind v target))"

fun check_resets :: "WordModule \<Rightarrow> string \<Rightarrow> bool \<Rightarrow> ValueId \<Rightarrow> Reset list \<Rightarrow> SynthError + unit"
  where
    "check_resets m context_name latch d [] = Inr ()"
  | "check_resets m context_name latch d (reset # resets) =
      (if latch \<and> rs_kind reset \<noteq> ResetAsync then Inl (WordFailure ''latch reset must be asynchronous'')
       else rbind (require_value_width m (rs_value reset) 1 context_name) (\<lambda>_.
         rbind (value_ty m d) (\<lambda>d_ty. rbind (value_ty m (rs_reset_value reset)) (\<lambda>reset_ty.
           if reset_ty \<noteq> d_ty then Inl (WordFailure ''reset value type does not match data type'')
           else check_resets m context_name latch d resets))))"

definition check_enable :: "WordModule \<Rightarrow> Enable option \<Rightarrow> string \<Rightarrow> SynthError + unit"
  where "check_enable m enable context_name =
    (case enable of None \<Rightarrow> Inr () | Some enable \<Rightarrow> require_value_width m (en_value enable) 1 context_name)"

definition WordModule_register :: "WordModule \<Rightarrow> RegisterOp \<Rightarrow> (WordModule, SynthError, ValueId) outcome"
  where "WordModule_register m op =
    checked_build m (rbind (require_value_width m (rg_clock op) 1 ''register clock'') (\<lambda>_.
        rbind (check_enable m (rg_enable op) ''register enable'') (\<lambda>_.
        rbind (check_resets m ''register reset'' False (rg_d op) (rg_resets op)) (\<lambda>_. value_ty m (rg_d op)))))
      (push_operation m (OpRegister op))"

definition WordModule_latch :: "WordModule \<Rightarrow> LatchOp \<Rightarrow> (WordModule, SynthError, ValueId) outcome"
  where "WordModule_latch m op =
    checked_build m (rbind (require_value_width m (en_value (lt_enable op)) 1 ''latch enable'') (\<lambda>_.
        rbind (check_resets m ''latch reset'' True (lt_d op) (lt_resets op)) (\<lambda>_. value_ty m (lt_d op))))
      (push_operation m (OpLatch op))"

section \<open>Validation\<close>

fun check_all :: "('x \<Rightarrow> 'e + unit) \<Rightarrow> 'x list \<Rightarrow> 'e + unit"
  where
    "check_all f [] = Inr ()"
  | "check_all f (x # xs) = rbind (f x) (\<lambda>_. check_all f xs)"

definition check_that :: "bool \<Rightarrow> string \<Rightarrow> SynthError + unit"
  where "check_that ok message = (if ok then Inr () else Inl (WordFailure message))"

definition validate_port :: "WordModule \<Rightarrow> nat \<times> Port \<Rightarrow> SynthError + unit"
  where "validate_port m = (\<lambda>(index, port).
    rbind (PortId_from_index index) (\<lambda>i.
    case WordModule_signal m (port_signal port) of
      None \<Rightarrow> Inl (WordFailure ''port has an unknown signal'')
    | Some signal \<Rightarrow>
        check_that (resolve_name m (port_name port) \<noteq> None \<and> sig_name signal = Some (port_name port) \<and>
          sig_kind signal = SignalPort i \<and> sig_ty signal = port_ty port) ''port disagrees with its signal''))"

definition validate_value :: "WordModule \<Rightarrow> nat \<times> WordValue \<Rightarrow> SynthError + unit"
  where "validate_value m = (\<lambda>(index, v).
    rbind (ValueId_from_index index) (\<lambda>i.
    case v_kind v of
      SignalValue reference \<Rightarrow>
        (case WordModule_signal m (sr_signal reference) of
           None \<Rightarrow> Inl (WordFailure ''value references an unknown signal'')
         | Some signal \<Rightarrow>
             if sr_lsb reference + sr_width reference \<ge> 2 ^ 32 then Inl (WordFailure ''signal reference range overflow'')
             else rbind (if sr_lsb reference = 0 \<and> sr_width reference = ty_width (sig_ty signal) then Inr (sig_ty signal)
               else if sr_lsb reference + sr_width reference > ty_width (sig_ty signal)
               then Inl (WordFailure ''value signal reference exceeds its signal'')
               else WordType_new (sr_width reference) False (ty_state (sig_ty signal))) (\<lambda>expected.
             check_that (v_ty v = expected) ''value signal reference has the wrong type''))
    | ConstantValue bits \<Rightarrow>
        check_that (length bits = ty_width (v_ty v) \<and> \<not> (ty_state (v_ty v) = TwoState \<and> list_ex unknown_bit bits))
          ''value contains an invalid constant''
    | OperationValue op \<Rightarrow>
        (case WordModule_operation m op of
           None \<Rightarrow> Inl (WordFailure ''value references an unknown operation'')
         | Some operation \<Rightarrow> check_that (op_result operation = i) ''value disagrees with its producing operation'')))"

definition validate_state_name :: "WordModule \<Rightarrow> NameId option \<Rightarrow> SynthError + unit"
  where "validate_state_name m name =
    (case name of None \<Rightarrow> Inr ()
     | Some name \<Rightarrow> check_that (resolve_name m name \<noteq> None) ''state operation name does not resolve'')"

definition validate_resets :: "WordModule \<Rightarrow> ValueId \<Rightarrow> Reset list \<Rightarrow> bool \<Rightarrow> SynthError + unit"
  where "validate_resets m d resets latch =
    rbind (value_ty m d) (\<lambda>d_ty.
      check_all (\<lambda>reset.
        if latch \<and> rs_kind reset \<noteq> ResetAsync then Inl (WordFailure ''latch reset must be asynchronous'')
        else rbind (require_value_width m (rs_value reset) 1 ''state reset'') (\<lambda>_.
          rbind (value_ty m (rs_reset_value reset)) (\<lambda>ty.
            check_that (ty = d_ty) ''state reset value type differs from data''))) resets)"

fun operation_type :: "WordModule \<Rightarrow> OpKind \<Rightarrow> SynthError + WordType"
  where
    "operation_type m (OpUnary op arg) = rbind (value_ty m arg) (unary_type op)"
  | "operation_type m (OpBinary op left right) =
      rbind (value_ty m left) (\<lambda>left_ty. rbind (value_ty m right) (binary_type op left_ty))"
  | "operation_type m (OpMux cond then_value else_value) =
      rbind (require_value_width m cond 1 ''mux condition'') (\<lambda>_.
      rbind (value_ty m then_value) (\<lambda>then_ty. rbind (value_ty m else_value) (\<lambda>else_ty.
        if then_ty \<noteq> else_ty then Inl (WordFailure ''mux branch types differ'') else Inr then_ty)))"
  | "operation_type m (OpTriState data enable) =
      rbind (require_value_width m (en_value enable) 1 ''tri-state enable'') (\<lambda>_. value_ty m data)"
  | "operation_type m (OpConcat parts) =
      (if parts = [] then Inl (WordFailure ''concat has no parts'')
       else rbind (concat_type m 0 TwoState parts) (\<lambda>(width, state). WordType_new width False state))"
  | "operation_type m (OpExtract v lsb width) =
      rbind (value_ty m v) (\<lambda>ty.
        if lsb + width \<ge> 2 ^ 32 \<or> lsb + width > ty_width ty then Inl (WordFailure ''extract range exceeds its input'')
        else with_width ty width)"
  | "operation_type m (OpDynamicExtract v offset width) =
      rbind (value_ty m v) (\<lambda>ty.
        if width > ty_width ty then Inl (WordFailure ''dynamic extract has invalid bounds'')
        else rbind (value_ty m offset) (\<lambda>offset_ty.
          if ty_signed offset_ty then Inl (WordFailure ''dynamic extract has invalid bounds'') else with_width ty width))"
  | "operation_type m (OpDynamicInsert v offset replacement) =
      rbind (value_ty m v) (\<lambda>ty. rbind (value_ty m replacement) (\<lambda>replacement_ty.
        rbind (value_ty m offset) (\<lambda>offset_ty.
          if ty_signed offset_ty \<or> ty_width replacement_ty > ty_width ty \<or> ty_state replacement_ty \<noteq> ty_state ty
          then Inl (WordFailure ''dynamic insert has invalid operands'') else Inr ty)))"
  | "operation_type m (OpCast kind v target) =
      rbind (value_ty m v) (\<lambda>ty.
        if ((kind = ZeroExtend \<or> kind = SignExtend) \<and> ty_width target < ty_width ty) \<or>
          (kind = Truncate \<and> ty_width target > ty_width ty)
        then Inl (WordFailure ''cast direction disagrees with its widths'') else Inr target)"
  | "operation_type m (OpRegister register) =
      rbind (validate_state_name m (rg_name register)) (\<lambda>_.
      rbind (require_value_width m (rg_clock register) 1 ''register clock'') (\<lambda>_.
      rbind (check_enable m (rg_enable register) ''register enable'') (\<lambda>_.
      rbind (validate_resets m (rg_d register) (rg_resets register) False) (\<lambda>_. value_ty m (rg_d register)))))"
  | "operation_type m (OpLatch latch) =
      rbind (validate_state_name m (lt_name latch)) (\<lambda>_.
      rbind (check_enable m (Some (lt_enable latch)) ''latch enable'') (\<lambda>_.
      rbind (validate_resets m (lt_d latch) (lt_resets latch) True) (\<lambda>_. value_ty m (lt_d latch))))"

definition validate_operation :: "WordModule \<Rightarrow> nat \<times> Operation \<Rightarrow> SynthError + unit"
  where "validate_operation m = (\<lambda>(index, operation).
    rbind (OpId_from_index index) (\<lambda>i.
    case WordModule_value m (op_result operation) of
      None \<Rightarrow> Inl (WordFailure ''operation has an unknown result'')
    | Some result \<Rightarrow>
        rbind (check_that (v_kind result = OperationValue i) ''operation does not own its result value'') (\<lambda>_.
        rbind (check_all (\<lambda>input.
            if WordModule_value m input = None then Inl (WordFailure ''operation has an unknown input'')
            else check_that (ValueId_index input < ValueId_index (op_result operation))
              ''operation is not topologically ordered'') (op_inputs (op_kind operation))) (\<lambda>_.
        rbind (operation_type m (op_kind operation)) (\<lambda>expected.
          check_that (v_ty result = expected) ''operation result type differs'')))))"

definition validate_connect :: "WordModule \<Rightarrow> Connect \<Rightarrow> SynthError + unit"
  where "validate_connect m connect =
    rbind (lvalue_ty m (cn_target connect)) (\<lambda>target_ty. rbind (value_ty m (cn_value connect)) (\<lambda>value_ty.
      check_that (target_ty = value_ty) ''connection target and value types differ''))"

definition validate_values_and_operations :: "WordModule \<Rightarrow> SynthError + unit"
  where "validate_values_and_operations m =
    rbind (check_all (validate_value m) (enumerate 0 (wm_values m))) (\<lambda>_.
      check_all (validate_operation m) (enumerate 0 (wm_operations m)))"

definition validate_ports :: "WordModule \<Rightarrow> SynthError + unit"
  where "validate_ports m = check_all (validate_port m) (enumerate 0 (wm_ports m))"

definition validate_connects :: "WordModule \<Rightarrow> SynthError + unit"
  where "validate_connects m = check_all (validate_connect m) (wm_connects m)"

text \<open>The checks of \<^verbatim>\<open>validate\<close> on the parts of a module that are modelled, in its order.\<close>

definition WordModule_validate :: "WordModule \<Rightarrow> SynthError + unit"
  where "WordModule_validate m =
    rbind (validate_ports m) (\<lambda>_. rbind (validate_values_and_operations m) (\<lambda>_. validate_connects m))"

end
