(* ===== verification/Adders.thy ===== *)
theory Adders
  imports Bit_Emitter
begin

text \<open>
  The adders of \<^verbatim>\<open>crates/opto-synth/src/boolean/bitblast/arithmetic/adders.rs\<close>:
  ripple-carry, Kogge-Stone, Brent-Kung and hybrid carry networks, with and without an
  incoming carry, and the constant-operand variants. Every definition is generic over the
  backend. The first part defines the algorithms, the second relates their runs to runs on
  Booleans; \<^verbatim>\<open>Adders_Correct\<close> shows what the Boolean runs compute.
\<close>

section \<open>Helpers\<close>

definition vset :: "'a list \<Rightarrow> nat \<Rightarrow> 'a \<Rightarrow> 's \<Rightarrow> ('s, SynthError, 'a list) outcome"
  where "vset xs i v s =
    (if i < length xs then (Inr (xs[i := v]), s) else (Inl (Panic ''index out of bounds''), s))"

definition checked_usize_mul :: "nat \<Rightarrow> nat \<Rightarrow> string \<Rightarrow> SynthError + nat"
  where "checked_usize_mul a b msg = (if a * b < 2 ^ 64 then Inr (a * b) else Inl (Invariant msg))"

definition step_range :: "nat \<Rightarrow> nat \<Rightarrow> nat \<Rightarrow> nat list"
  where "step_range first limit step = filter (\<lambda>i. (i - first) mod step = 0) [first..<limit]"

fun power_of_two_from :: "nat \<Rightarrow> nat \<Rightarrow> nat \<Rightarrow> nat"
  where
    "power_of_two_from 0 p n = p"
  | "power_of_two_from (Suc k) p n = (if p < n then power_of_two_from k (2 * p) n else p)"

definition next_power_of_two :: "nat \<Rightarrow> nat"
  where "next_power_of_two n = power_of_two_from 64 1 n"

section \<open>Ripple-carry addition\<close>

fun add_vectors_loop ::
  "('s, 'a) bit_ops \<Rightarrow> 's \<Rightarrow> 'a list \<Rightarrow> 'a list \<Rightarrow> 'a \<Rightarrow> ('s, SynthError, 'a list) outcome"
  where
    "add_vectors_loop em s (left_bit # left) (right_bit # right) carry =
      sbind (emit_binary em s BitXor left_bit right_bit) (\<lambda>propagate s.
      sbind (emit_binary em s BitXor propagate carry) (\<lambda>sum s.
        if left = [] then (Inr [sum], s)
        else
          sbind (emit_binary em s BitAnd left_bit right_bit) (\<lambda>generate s.
          sbind (emit_binary em s BitAnd propagate carry) (\<lambda>carry_propagate s.
          sbind (emit_binary em s BitOr generate carry_propagate) (\<lambda>carry s.
            smap (Cons sum) (add_vectors_loop em s left right carry))))))"
  | "add_vectors_loop em s _ _ carry = (Inr [], s)"

definition add_vectors ::
  "('s, 'a) bit_ops \<Rightarrow> 's \<Rightarrow> 'a list \<Rightarrow> 'a list \<Rightarrow> 'a \<Rightarrow> ('s, SynthError, 'a list) outcome"
  where "add_vectors em s left right carry =
    (if length left \<noteq> length right \<or> left = []
     then (Inl (Invariant ''adder inputs must have equal non-zero widths''), s)
     else add_vectors_loop em s left right carry)"

fun add_carry_loop ::
  "('s, 'a) bit_ops \<Rightarrow> 's \<Rightarrow> 'a list \<Rightarrow> 'a list \<Rightarrow> 'a \<Rightarrow> ('s, SynthError, 'a list \<times> 'a) outcome"
  where
    "add_carry_loop em s (left_bit # left) (right_bit # right) carry =
      sbind (emit_binary em s BitXor left_bit right_bit) (\<lambda>propagate s.
      sbind (emit_binary em s BitXor propagate carry) (\<lambda>sum s.
      sbind (emit_binary em s BitAnd left_bit right_bit) (\<lambda>generate s.
      sbind (emit_binary em s BitAnd propagate carry) (\<lambda>carry_propagate s.
      sbind (emit_binary em s BitOr generate carry_propagate) (\<lambda>carry s.
        smap (\<lambda>(sums, carry). (sum # sums, carry)) (add_carry_loop em s left right carry))))))"
  | "add_carry_loop em s _ _ carry = (Inr ([], carry), s)"

definition add_vectors_with_carry ::
  "('s, 'a) bit_ops \<Rightarrow> 's \<Rightarrow> 'a list \<Rightarrow> 'a list \<Rightarrow> 'a \<Rightarrow> ('s, SynthError, 'a list \<times> 'a) outcome"
  where "add_vectors_with_carry em s left right carry =
    (if length left \<noteq> length right \<or> left = []
     then (Inl (Invariant ''carry-producing adder inputs must have equal non-zero widths''), s)
     else add_carry_loop em s left right carry)"

text \<open>The operands of an add or subtract, resized, the right one complemented for a subtract.\<close>

definition add_sub_operands ::
  "('s, 'a) bit_ops \<Rightarrow> 's \<Rightarrow> 'a operand \<Rightarrow> 'a operand \<Rightarrow> bool \<Rightarrow> WordType
    \<Rightarrow> ('s, SynthError, ('a \<times> 'a) list) outcome"
  where "add_sub_operands em s left right subtract result_ty =
    smapM (\<lambda>index s.
      sbind (resized_bit em s left index (ty_signed result_ty)) (\<lambda>left_bit s.
      sbind (resized_bit em s right index (ty_signed result_ty)) (\<lambda>right_bit s.
        if subtract then smap (Pair left_bit) (emit_unary em s BitNot right_bit)
        else (Inr (left_bit, right_bit), s)))) [0..<ty_width result_ty] s"

definition ripple_add_sub_bits ::
  "('s, 'a) bit_ops \<Rightarrow> 's \<Rightarrow> 'a operand \<Rightarrow> 'a operand \<Rightarrow> bool \<Rightarrow> WordType
    \<Rightarrow> ('s, SynthError, 'a list) outcome"
  where "ripple_add_sub_bits em s left right subtract result_ty =
    sbind (add_sub_operands em s left right subtract result_ty) (\<lambda>pairs s.
    sbind (emit_constant em s (bit_val subtract) (ty_state result_ty)) (\<lambda>carry s.
      add_vectors em s (map fst pairs) (map snd pairs) carry))"

section \<open>Prefix networks\<close>

record 'a PrefixNetwork =
  pn_propagate :: "'a list"
  pn_generate :: "'a list"

definition combine_prefix ::
  "('s, 'a) bit_ops \<Rightarrow> 's \<Rightarrow> nat \<Rightarrow> nat \<Rightarrow> 'a PrefixNetwork \<Rightarrow> 'a PrefixNetwork
    \<Rightarrow> ('s, SynthError, 'a PrefixNetwork) outcome"
  where "combine_prefix em s upper lower previous prefix =
    sbind (vget (pn_propagate previous) upper s) (\<lambda>propagate_upper s.
    sbind (vget (pn_generate previous) lower s) (\<lambda>generate_lower s.
    sbind (emit_binary em s BitAnd propagate_upper generate_lower) (\<lambda>propagated_generate s.
    sbind (vget (pn_generate previous) upper s) (\<lambda>generate_upper s.
    sbind (emit_binary em s BitOr generate_upper propagated_generate) (\<lambda>new_generate s.
    sbind (vset (pn_generate prefix) upper new_generate s) (\<lambda>generates s.
    sbind (vget (pn_propagate previous) lower s) (\<lambda>propagate_lower s.
    sbind (emit_binary em s BitAnd propagate_upper propagate_lower) (\<lambda>new_propagate s.
    sbind (vset (pn_propagate prefix) upper new_propagate s) (\<lambda>propagates s.
      (Inr \<lparr>pn_propagate = propagates, pn_generate = generates\<rparr>, s))))))))))"

text \<open>One stage writes every combined position of a copy of the current network.\<close>

definition prefix_stage ::
  "('s, 'a) bit_ops \<Rightarrow> 's \<Rightarrow> nat list \<Rightarrow> nat \<Rightarrow> 'a PrefixNetwork \<Rightarrow> ('s, SynthError, 'a PrefixNetwork) outcome"
  where "prefix_stage em s indices distance prefix =
    sfoldM (\<lambda>index next_prefix s. combine_prefix em s index (index - distance) prefix next_prefix)
      indices prefix s"

text \<open>
  The distance doubles in each round and the doubling is checked against the word size, so
  that 65 rounds are never used up.
\<close>

fun kogge_stone_loop ::
  "nat \<Rightarrow> ('s, 'a) bit_ops \<Rightarrow> 's \<Rightarrow> nat \<Rightarrow> 'a PrefixNetwork \<Rightarrow> ('s, SynthError, 'a PrefixNetwork) outcome"
  where
    "kogge_stone_loop 0 em s distance prefix = (Inl (Panic ''unreachable round''), s)"
  | "kogge_stone_loop (Suc n) em s distance prefix =
      (if distance < length (pn_generate prefix) then
         sbind (prefix_stage em s [distance..<length (pn_generate prefix)] distance prefix) (\<lambda>prefix s.
         sbind (lift_result (checked_usize_mul distance 2 ''prefix-adder stage distance overflow'') s)
           (\<lambda>distance s. kogge_stone_loop n em s distance prefix))
       else (Inr prefix, s))"

definition kogge_stone_prefix ::
  "('s, 'a) bit_ops \<Rightarrow> 's \<Rightarrow> 'a PrefixNetwork \<Rightarrow> ('s, SynthError, 'a PrefixNetwork) outcome"
  where "kogge_stone_prefix em s prefix = kogge_stone_loop 65 em s 1 prefix"

fun brent_kung_up ::
  "nat \<Rightarrow> ('s, 'a) bit_ops \<Rightarrow> 's \<Rightarrow> nat \<Rightarrow> nat \<Rightarrow> 'a PrefixNetwork \<Rightarrow> ('s, SynthError, 'a PrefixNetwork) outcome"
  where
    "brent_kung_up 0 em s count stride prefix = (Inl (Panic ''unreachable round''), s)"
  | "brent_kung_up (Suc n) em s count stride prefix =
      (if stride < count then
         sbind (lift_result (checked_usize_mul stride 2 ''prefix-adder stage stride overflow'') s) (\<lambda>step s.
         sbind (prefix_stage em s (step_range (step - 1) count step) stride prefix)
           (\<lambda>prefix s. brent_kung_up n em s count step prefix))
       else (Inr prefix, s))"

fun brent_kung_down ::
  "nat \<Rightarrow> ('s, 'a) bit_ops \<Rightarrow> 's \<Rightarrow> nat \<Rightarrow> nat \<Rightarrow> 'a PrefixNetwork \<Rightarrow> ('s, SynthError, 'a PrefixNetwork) outcome"
  where
    "brent_kung_down 0 em s count stride prefix = (Inl (Panic ''unreachable round''), s)"
  | "brent_kung_down (Suc n) em s count stride prefix =
      (if stride > 0 then
         sbind (lift_result (checked_usize_mul stride 2 ''prefix-adder stage stride overflow'') s) (\<lambda>step s.
         sbind (lift_result (checked_usize_mul stride 3 ''prefix-adder stage start overflow'') s) (\<lambda>triple s.
         sbind (prefix_stage em s (step_range (triple - 1) count step) stride prefix)
           (\<lambda>prefix s. brent_kung_down n em s count (stride div 2) prefix)))
       else (Inr prefix, s))"

definition brent_kung_prefix ::
  "('s, 'a) bit_ops \<Rightarrow> 's \<Rightarrow> 'a PrefixNetwork \<Rightarrow> ('s, SynthError, 'a PrefixNetwork) outcome"
  where "brent_kung_prefix em s prefix =
    (let count = length (pn_generate prefix)
     in sbind (brent_kung_up 65 em s count 1 prefix) (\<lambda>prefix s.
        brent_kung_down 65 em s count (next_power_of_two count div 4) prefix))"

fun prefix_inputs_loop ::
  "('s, 'a) bit_ops \<Rightarrow> 's \<Rightarrow> 'a list \<Rightarrow> 'a list \<Rightarrow> ('s, SynthError, 'a list \<times> 'a list) outcome"
  where
    "prefix_inputs_loop em s (left_bit # left) (right_bit # right) =
      sbind (emit_binary em s BitXor left_bit right_bit) (\<lambda>propagate s.
        if left = [] then (Inr ([propagate], []), s)
        else
          sbind (emit_binary em s BitAnd left_bit right_bit) (\<lambda>generate s.
          smap (\<lambda>(propagates, generates). (propagate # propagates, generate # generates))
            (prefix_inputs_loop em s left right)))"
  | "prefix_inputs_loop em s _ _ = (Inr ([], []), s)"

definition prefix_network :: "'a list \<times> 'a list \<Rightarrow> 'a list \<times> 'a PrefixNetwork"
  where "prefix_network = (\<lambda>(propagate, generate).
    (propagate, \<lparr>pn_propagate = take (length generate) propagate, pn_generate = generate\<rparr>))"

definition prefix_inputs_from_bits ::
  "('s, 'a) bit_ops \<Rightarrow> 's \<Rightarrow> 'a list \<Rightarrow> 'a list \<Rightarrow> ('s, SynthError, 'a list \<times> 'a PrefixNetwork) outcome"
  where "prefix_inputs_from_bits em s left right =
    (if length left \<noteq> length right \<or> length left < 2
     then (Inl (Invariant ''hybrid prefix inputs must have equal widths of at least two bits''), s)
     else smap prefix_network (prefix_inputs_loop em s left right))"

text \<open>
  \<^verbatim>\<open>prefix_adder_inputs\<close> resizes, complements and combines the operands in one loop; no
  network is built for the carry out of the last position.
\<close>

fun prefix_adder_loop ::
  "('s, 'a) bit_ops \<Rightarrow> 's \<Rightarrow> 'a operand \<Rightarrow> 'a operand \<Rightarrow> bool \<Rightarrow> WordType \<Rightarrow> nat list
    \<Rightarrow> ('s, SynthError, 'a list \<times> 'a list) outcome"
  where
    "prefix_adder_loop em s left right subtract result_ty [] = (Inr ([], []), s)"
  | "prefix_adder_loop em s left right subtract result_ty (index # indices) =
      sbind (resized_bit em s left index (ty_signed result_ty)) (\<lambda>left_bit s.
      sbind (resized_bit em s right index (ty_signed result_ty)) (\<lambda>right_bit s.
      sbind (if subtract then emit_unary em s BitNot right_bit else (Inr right_bit, s)) (\<lambda>right_bit s.
      sbind (emit_binary em s BitXor left_bit right_bit) (\<lambda>propagate s.
        if index + 1 = ty_width result_ty then
          smap (\<lambda>(propagates, generates). (propagate # propagates, generates))
            (prefix_adder_loop em s left right subtract result_ty indices)
        else
          sbind (emit_binary em s BitAnd left_bit right_bit) (\<lambda>generate s.
          smap (\<lambda>(propagates, generates). (propagate # propagates, generate # generates))
            (prefix_adder_loop em s left right subtract result_ty indices))))))"

definition prefix_adder_inputs ::
  "('s, 'a) bit_ops \<Rightarrow> 's \<Rightarrow> 'a operand \<Rightarrow> 'a operand \<Rightarrow> bool \<Rightarrow> WordType
    \<Rightarrow> ('s, SynthError, 'a list \<times> 'a PrefixNetwork) outcome"
  where "prefix_adder_inputs em s left right subtract result_ty =
    smap prefix_network (prefix_adder_loop em s left right subtract result_ty [0..<ty_width result_ty])"

definition prefix_adder_sum ::
  "('s, 'a) bit_ops \<Rightarrow> 's \<Rightarrow> 'a list \<Rightarrow> 'a PrefixNetwork \<Rightarrow> bool \<Rightarrow> ('s, SynthError, 'a list) outcome"
  where "prefix_adder_sum em s propagate prefix subtract =
    sbind (vget propagate 0 s) (\<lambda>first s.
    sbind (if subtract then emit_unary em s BitNot first else (Inr first, s)) (\<lambda>first s.
    smap (Cons first) (smapM (\<lambda>index s.
      sbind (vget propagate index s) (\<lambda>propagate_bit s.
      sbind (vget (pn_generate prefix) (index - 1) s) (\<lambda>generate s.
      sbind (if subtract
             then sbind (vget (pn_propagate prefix) (index - 1) s) (\<lambda>p s. emit_binary em s BitOr generate p)
             else (Inr generate, s)) (\<lambda>carry s.
        emit_binary em s BitXor propagate_bit carry)))) [1..<length propagate] s)))"

definition prefix_adder_sum_with_carry ::
  "('s, 'a) bit_ops \<Rightarrow> 's \<Rightarrow> 'a list \<Rightarrow> 'a PrefixNetwork \<Rightarrow> 'a \<Rightarrow> ('s, SynthError, 'a list) outcome"
  where "prefix_adder_sum_with_carry em s propagate prefix carry_in =
    (case propagate of
       [] \<Rightarrow> (Inl (Invariant ''hybrid prefix sum has no propagate bits''), s)
     | first # _ \<Rightarrow>
         sbind (emit_binary em s BitXor first carry_in) (\<lambda>first s.
         smap (Cons first) (smapM (\<lambda>index s.
           sbind (vget propagate index s) (\<lambda>propagate_bit s.
           sbind (vget (pn_propagate prefix) (index - 1) s) (\<lambda>p s.
           sbind (emit_binary em s BitAnd p carry_in) (\<lambda>propagated_carry s.
           sbind (vget (pn_generate prefix) (index - 1) s) (\<lambda>generate s.
           sbind (emit_binary em s BitOr generate propagated_carry) (\<lambda>carry s.
             emit_binary em s BitXor propagate_bit carry)))))) [1..<length propagate] s)))"

definition seed_prefix_carry ::
  "('s, 'a) bit_ops \<Rightarrow> 's \<Rightarrow> 'a PrefixNetwork \<Rightarrow> 'a \<Rightarrow> ('s, SynthError, 'a PrefixNetwork) outcome"
  where "seed_prefix_carry em s prefix carry =
    sbind (vget (pn_propagate prefix) 0 s) (\<lambda>p s.
    sbind (emit_binary em s BitAnd p carry) (\<lambda>propagated s.
    sbind (vget (pn_generate prefix) 0 s) (\<lambda>g s.
    sbind (emit_binary em s BitOr g propagated) (\<lambda>g s.
    sbind (vset (pn_generate prefix) 0 g s) (\<lambda>generates s.
      (Inr (prefix\<lparr>pn_generate := generates\<rparr>), s))))))"

definition seeded_prefix_sum ::
  "('s, 'a) bit_ops \<Rightarrow> 's \<Rightarrow> 'a list \<Rightarrow> 'a PrefixNetwork \<Rightarrow> 'a \<Rightarrow> ('s, SynthError, 'a list) outcome"
  where "seeded_prefix_sum em s propagate prefix carry =
    smapM (\<lambda>index s.
      sbind (vget propagate index s) (\<lambda>p s.
      sbind (if index = 0 then (Inr carry, s) else vget (pn_generate prefix) (index - 1) s) (\<lambda>carry s.
        emit_binary em s BitXor p carry))) [0..<length propagate] s"

section \<open>Prefix adders\<close>

definition kogge_stone_add_sub_bits ::
  "('s, 'a) bit_ops \<Rightarrow> 's \<Rightarrow> 'a operand \<Rightarrow> 'a operand \<Rightarrow> bool \<Rightarrow> WordType
    \<Rightarrow> ('s, SynthError, 'a list) outcome"
  where "kogge_stone_add_sub_bits em s left right subtract result_ty =
    sbind (prefix_adder_inputs em s left right subtract result_ty) (\<lambda>(propagate, prefix) s.
    sbind (kogge_stone_prefix em s prefix) (\<lambda>prefix s.
      prefix_adder_sum em s propagate prefix subtract))"

definition brent_kung_add_sub_bits ::
  "('s, 'a) bit_ops \<Rightarrow> 's \<Rightarrow> 'a operand \<Rightarrow> 'a operand \<Rightarrow> bool \<Rightarrow> WordType
    \<Rightarrow> ('s, SynthError, 'a list) outcome"
  where "brent_kung_add_sub_bits em s left right subtract result_ty =
    sbind (prefix_adder_inputs em s left right subtract result_ty) (\<lambda>(propagate, prefix) s.
    sbind (brent_kung_prefix em s prefix) (\<lambda>prefix s.
      prefix_adder_sum em s propagate prefix subtract))"

definition kogge_stone_add_vectors ::
  "('s, 'a) bit_ops \<Rightarrow> 's \<Rightarrow> 'a list \<Rightarrow> 'a list \<Rightarrow> 'a \<Rightarrow> ('s, SynthError, 'a list) outcome"
  where "kogge_stone_add_vectors em s left right carry =
    (if length left < 2 then add_vectors em s left right carry
     else
       sbind (prefix_inputs_from_bits em s left right) (\<lambda>(propagate, prefix) s.
       sbind (seed_prefix_carry em s prefix carry) (\<lambda>prefix s.
       sbind (kogge_stone_prefix em s prefix) (\<lambda>prefix s.
         seeded_prefix_sum em s propagate prefix carry))))"

definition brent_kung_add_vectors ::
  "('s, 'a) bit_ops \<Rightarrow> 's \<Rightarrow> 'a list \<Rightarrow> 'a list \<Rightarrow> 'a \<Rightarrow> ('s, SynthError, 'a list) outcome"
  where "brent_kung_add_vectors em s left right carry =
    (if length left < 2 then add_vectors em s left right carry
     else
       sbind (prefix_inputs_from_bits em s left right) (\<lambda>(propagate, prefix) s.
       sbind (seed_prefix_carry em s prefix carry) (\<lambda>prefix s.
       sbind (brent_kung_prefix em s prefix) (\<lambda>prefix s.
         seeded_prefix_sum em s propagate prefix carry))))"

text \<open>Widths below two underflow the split computation of the hybrid adder.\<close>

definition hybrid_brent_kung_add_sub_bits ::
  "('s, 'a) bit_ops \<Rightarrow> 's \<Rightarrow> 'a operand \<Rightarrow> 'a operand \<Rightarrow> bool \<Rightarrow> WordType \<Rightarrow> nat
    \<Rightarrow> ('s, SynthError, 'a list) outcome"
  where "hybrid_brent_kung_add_sub_bits em s left right subtract result_ty requested_ripple_width =
    (if ty_width result_ty < 2 then (Inl (Panic ''attempt to subtract with overflow''), s)
     else
       let split = min (max requested_ripple_width 2) (ty_width result_ty - 2)
       in sbind (add_sub_operands em s left right subtract result_ty) (\<lambda>pairs s.
          sbind (emit_constant em s (bit_val subtract) (ty_state result_ty)) (\<lambda>initial_carry s.
          sbind (add_vectors_with_carry em s (take split (map fst pairs)) (take split (map snd pairs)) initial_carry)
            (\<lambda>(sum, carry) s.
          sbind (prefix_inputs_from_bits em s (drop split (map fst pairs)) (drop split (map snd pairs)))
            (\<lambda>(propagate, prefix) s.
          sbind (brent_kung_prefix em s prefix) (\<lambda>prefix s.
            smap ((@) sum) (prefix_adder_sum_with_carry em s propagate prefix carry)))))))"

section \<open>Adders with a constant operand\<close>

fun ripple_constant_loop ::
  "('s, 'a) bit_ops \<Rightarrow> 's \<Rightarrow> 'a list \<Rightarrow> bool list \<Rightarrow> 'a \<Rightarrow> ('s, SynthError, 'a list) outcome"
  where
    "ripple_constant_loop em s (v # variable) (k # const) carry =
      sbind (emit_binary em s BitXor v carry) (\<lambda>xor s.
        if k then
          sbind (emit_unary em s BitNot xor) (\<lambda>result s.
          sbind (emit_binary em s BitOr v carry) (\<lambda>carry s.
            smap (Cons result) (ripple_constant_loop em s variable const carry)))
        else
          sbind (emit_binary em s BitAnd v carry) (\<lambda>carry s.
            smap (Cons xor) (ripple_constant_loop em s variable const carry)))"
  | "ripple_constant_loop em s _ _ carry = (Inr [], s)"

definition ripple_add_constant ::
  "('s, 'a) bit_ops \<Rightarrow> 's \<Rightarrow> 'a list \<Rightarrow> bool list \<Rightarrow> bool \<Rightarrow> WordType \<Rightarrow> ('s, SynthError, 'a list) outcome"
  where "ripple_add_constant em s variable const carry result_ty =
    sbind (emit_constant em s (bit_val carry) (ty_state result_ty)) (\<lambda>carry s.
      ripple_constant_loop em s variable const carry)"

definition constant_prefix :: "'a \<Rightarrow> 'a \<Rightarrow> ('a \<times> bool) list \<Rightarrow> 'a PrefixNetwork"
  where "constant_prefix zero one pairs =
    \<lparr>pn_propagate = map (\<lambda>(v, k). if k then one else v) pairs,
     pn_generate = map (\<lambda>(v, k). if k then v else zero) pairs\<rparr>"

definition prefix_constant_bit ::
  "('s, 'a) bit_ops \<Rightarrow> 's \<Rightarrow> bool \<Rightarrow> 'a \<Rightarrow> 'a \<Rightarrow> 'a PrefixNetwork \<Rightarrow> nat \<times> 'a \<times> bool
    \<Rightarrow> ('s, SynthError, 'a) outcome"
  where "prefix_constant_bit em s carry_in zero one prefix = (\<lambda>(index, v, k).
    sbind (if index = 0 then (Inr (if carry_in then one else zero), s)
           else if carry_in then
             sbind (vget (pn_generate prefix) (index - 1) s) (\<lambda>g s.
             sbind (vget (pn_propagate prefix) (index - 1) s) (\<lambda>p s. emit_binary em s BitOr g p))
           else vget (pn_generate prefix) (index - 1) s) (\<lambda>carry s.
    sbind (emit_binary em s BitXor v carry) (\<lambda>sum s.
      if k then emit_unary em s BitNot sum else (Inr sum, s))))"

definition prefix_add_constant ::
  "('s, 'a) bit_ops \<Rightarrow> 's \<Rightarrow> 'a list \<Rightarrow> bool list \<Rightarrow> bool \<Rightarrow> WordType \<Rightarrow> ('s, SynthError, 'a list) outcome"
  where "prefix_add_constant em s variable const carry_in result_ty =
    sbind (emit_constant em s BitZero (ty_state result_ty)) (\<lambda>zero s.
    sbind (emit_constant em s BitOne (ty_state result_ty)) (\<lambda>one s.
      let prefix = constant_prefix zero one (take (length variable - 1) (zip variable const))
      in sbind (if pn_generate prefix \<noteq> [] then brent_kung_prefix em s prefix else (Inr prefix, s))
        (\<lambda>prefix s.
          smapM (\<lambda>entry s. prefix_constant_bit em s carry_in zero one prefix entry)
            (enumerate 0 (zip variable const)) s)))"

definition bool_vector :: "('s, 'a) bit_ops \<Rightarrow> 's \<Rightarrow> 'a list \<Rightarrow> bool list option"
  where "bool_vector em s bits = those (map (b_known em s) bits)"

definition add_constant_bits ::
  "('s, 'a) bit_ops \<Rightarrow> bool \<Rightarrow> WordType \<Rightarrow> 'a list \<Rightarrow> bool list \<Rightarrow> bool \<Rightarrow> 's \<Rightarrow> ('s, SynthError, 'a list) outcome"
  where "add_constant_bits em prefix result_ty variable const carry s =
    (if prefix then prefix_add_constant em s variable const carry result_ty
     else ripple_add_constant em s variable const carry result_ty)"

text \<open>The operand the backend knows is the constant; a known minuend needs the subtrahend inverted.\<close>

definition constant_add_choice ::
  "('s, 'a) bit_ops \<Rightarrow> 's \<Rightarrow> 'a list \<Rightarrow> 'a list \<Rightarrow> bool \<Rightarrow> bool \<Rightarrow> WordType \<Rightarrow> ('s, SynthError, 'a list) outcome"
  where "constant_add_choice em s left_bits right_bits subtract prefix result_ty =
    (let add = add_constant_bits em prefix result_ty
     in case (bool_vector em s left_bits, bool_vector em s right_bits, subtract) of
          (_, Some const, False) \<Rightarrow> add left_bits const False s
        | (Some const, _, False) \<Rightarrow> add right_bits const False s
        | (_, Some const, True) \<Rightarrow> add left_bits (map Not const) True s
        | (Some const, _, True) \<Rightarrow>
            sbind (smapM (\<lambda>x s. emit_unary em s BitNot x) right_bits s) (\<lambda>inverted_bits s.
              add inverted_bits const True s)
        | _ \<Rightarrow> (Inl (Invariant ''constant adder recipe has no defined constant operand''), s))"

definition constant_add_sub_bits ::
  "('s, 'a) bit_ops \<Rightarrow> 's \<Rightarrow> 'a operand \<Rightarrow> 'a operand \<Rightarrow> bool \<Rightarrow> bool \<Rightarrow> WordType
    \<Rightarrow> ('s, SynthError, 'a list) outcome"
  where "constant_add_sub_bits em s left right subtract prefix result_ty =
    sbind (resized_bits em s left (ty_width result_ty) (ty_signed result_ty)) (\<lambda>left_bits s.
    sbind (resized_bits em s right (ty_width result_ty) (ty_signed result_ty)) (\<lambda>right_bits s.
      constant_add_choice em s left_bits right_bits subtract prefix result_ty))"

section \<open>Runs of the adders follow the Boolean runs\<close>

context bit_emitter
begin

lemma sim_vset:
  assumes "good s" and "dens s xs vs" and "den s x v"
  shows "sim s (vset xs i x s) (vset vs i v ()) dens"
  using assms by (auto simp: vset_def list_all2_lengthD intro: sim_ret sim_err list_all2_update_cong)

lemma sim_lift:
  assumes "good s" and "\<And>x. r = Inr x \<Longrightarrow> sim s (f x s) (g x ()) Q"
  shows "sim s (sbind (lift_result r s) f) (sbind (lift_result r ()) g) Q"
  using assms by (cases r) (auto simp: lift_result_def sim_err)

lemmas sim_more = sim_steps sim_vset sim_lift sim_seq [OF sim_vset]

lemma sim_add_vectors_loop:
  assumes "good s" and "dens s ls vs" and "dens s rs ws" and "den s c d"
  shows "sim s (add_vectors_loop em s ls rs c) (add_vectors_loop bool_ops () vs ws d) dens"
  using assms
proof (induction ls arbitrary: s rs c vs ws d)
  case Nil
  then show ?case by (auto simp: sim_ret)
next
  case (Cons l ls)
  show ?case
  proof (cases rs)
    case Nil
    with Cons.prems show ?thesis by (auto simp: list_all2_Cons1 sim_ret)
  next
    case rs: (Cons r rs')
    then obtain v vs' w ws' where b: "vs = v # vs'" "ws = w # ws'" "den s l v" "dens s ls vs'" "den s r w" "dens s rs' ws'"
      using Cons.prems by (auto simp: list_all2_Cons1)
    show ?thesis
      unfolding rs b(1,2) add_vectors_loop.simps
      by (intro sim_steps sim_map [OF Cons.IH])
        (use b(3-6) dens_Nil [OF b(4)] Cons.prems in simp_all)
  qed
qed

lemma sim_add_vectors:
  assumes "good s" and "dens s ls vs" and "dens s rs ws" and "den s c d"
  shows "sim s (add_vectors em s ls rs c) (add_vectors bool_ops () vs ws d) dens"
  unfolding add_vectors_def list_all2_lengthD [OF assms(2)] list_all2_lengthD [OF assms(3)] dens_Nil [OF assms(2)]
  by (intro sim_if sim_err sim_add_vectors_loop assms refl)

lemma sim_add_carry_loop:
  assumes "good s" and "dens s ls vs" and "dens s rs ws" and "den s c d"
  shows "sim s (add_carry_loop em s ls rs c) (add_carry_loop bool_ops () vs ws d) (\<lambda>s. rel_prod (dens s) (den s))"
  using assms
proof (induction ls arbitrary: s rs c vs ws d)
  case Nil
  then show ?case by (auto simp: sim_ret)
next
  case (Cons l ls)
  show ?case
  proof (cases rs)
    case Nil
    with Cons.prems show ?thesis by (auto simp: list_all2_Cons1 sim_ret)
  next
    case rs: (Cons r rs')
    then obtain v vs' w ws' where b: "vs = v # vs'" "ws = w # ws'" "den s l v" "dens s ls vs'" "den s r w" "dens s rs' ws'"
      using Cons.prems by (auto simp: list_all2_Cons1)
    show ?thesis
      unfolding rs b(1,2) add_carry_loop.simps
      by (intro sim_steps sim_map [OF Cons.IH])
        (use b(3-6) Cons.prems in \<open>simp_all add: rel_prod_sel case_prod_beta\<close>)
  qed
qed

lemma sim_add_vectors_with_carry:
  assumes "good s" and "dens s ls vs" and "dens s rs ws" and "den s c d"
  shows "sim s (add_vectors_with_carry em s ls rs c) (add_vectors_with_carry bool_ops () vs ws d)
    (\<lambda>s. rel_prod (dens s) (den s))"
  unfolding add_vectors_with_carry_def list_all2_lengthD [OF assms(2)] list_all2_lengthD [OF assms(3)] dens_Nil [OF assms(2)]
  by (intro sim_if sim_err sim_add_carry_loop assms refl)

lemma sim_add_sub_operands:
  assumes "good s" and "opds s a va" and "opds s b vb"
  shows "sim s (add_sub_operands em s a b sub ty) (add_sub_operands bool_ops () va vb sub ty)
    (\<lambda>s. list_all2 (rel_prod (den s) (den s)))"
  unfolding add_sub_operands_def
proof (rule sim_mapM_same [OF assms(1)])
  show "keeps (\<lambda>s. rel_prod (den s) (den s))" by (intro keeps_prod keeps_den)
  fix s' i assume s': "good s'" "le s s'"
  have o: "opds s' a va" "opds s' b vb" using assms s' dens_mono by auto
  show "sim s' (sbind (resized_bit em s' a i (ty_signed ty)) (\<lambda>left_bit s.
      sbind (resized_bit em s b i (ty_signed ty)) (\<lambda>right_bit s.
        if sub then smap (Pair left_bit) (emit_unary em s BitNot right_bit) else (Inr (left_bit, right_bit), s))))
    (sbind (resized_bit bool_ops () va i (ty_signed ty)) (\<lambda>left_bit s.
      sbind (resized_bit bool_ops s vb i (ty_signed ty)) (\<lambda>right_bit s.
        if sub then smap (Pair left_bit) (emit_unary bool_ops s BitNot right_bit) else (Inr (left_bit, right_bit), s))))
    (\<lambda>s. rel_prod (den s) (den s))"
    by (intro sim_steps sim_map [OF sim_unary]) (use s' o in simp_all)
qed

lemma rel_prod_lists:
  "list_all2 (rel_prod P Q) xs ys \<Longrightarrow> list_all2 P (map fst xs) (map fst ys)"
  "list_all2 (rel_prod P Q) xs ys \<Longrightarrow> list_all2 Q (map snd xs) (map snd ys)"
  by (auto simp: list_all2_conv_all_nth rel_prod_sel)

lemma sim_ripple_add_sub_bits:
  assumes "good s" and "opds s a va" and "opds s b vb"
  shows "sim s (ripple_add_sub_bits em s a b sub ty) (ripple_add_sub_bits bool_ops () va vb sub ty) dens"
  unfolding ripple_add_sub_bits_def
  by (intro sim_seq [OF sim_add_sub_operands] sim_steps sim_add_vectors)
    (use assms in \<open>simp_all add: rel_prod_lists\<close>)

abbreviation pns :: "'s \<Rightarrow> 'a PrefixNetwork \<Rightarrow> bool PrefixNetwork \<Rightarrow> bool"
  where "pns s p q \<equiv> dens s (pn_propagate p) (pn_propagate q) \<and> dens s (pn_generate p) (pn_generate q)"

lemma sim_combine_prefix:
  assumes "good s" and "pns s p q" and "pns s p' q'"
  shows "sim s (combine_prefix em s i j p p') (combine_prefix bool_ops () i j q q') pns"
  unfolding combine_prefix_def
  by (intro sim_more) (use assms in simp_all)

lemma sim_prefix_stage:
  assumes "good s" and "pns s p q"
  shows "sim s (prefix_stage em s is d p) (prefix_stage bool_ops () is d q) pns"
  unfolding prefix_stage_def
  by (rule sim_foldM [where P = "\<lambda>s. (=)"])
    (use assms dens_mono [OF assms(1)] in \<open>auto simp: list.rel_eq intro: sim_combine_prefix\<close>)

lemma sim_kogge_stone_loop:
  assumes "good s" and "pns s p q"
  shows "sim s (kogge_stone_loop n em s d p) (kogge_stone_loop n bool_ops () d q) pns"
  using assms
proof (induction n arbitrary: s d p q)
  case 0
  then show ?case by (simp add: sim_err)
next
  case (Suc n)
  have len: "length (pn_generate p) = length (pn_generate q)" using Suc.prems by (auto dest: list_all2_lengthD)
  show ?case unfolding kogge_stone_loop.simps len
    by (intro sim_more sim_seq [OF sim_prefix_stage]) (use Suc in \<open>simp_all\<close>)
qed

lemma sim_kogge_stone_prefix:
  assumes "good s" and "pns s p q"
  shows "sim s (kogge_stone_prefix em s p) (kogge_stone_prefix bool_ops () q) pns"
  unfolding kogge_stone_prefix_def by (rule sim_kogge_stone_loop [OF assms])

lemma sim_brent_kung_up:
  assumes "good s" and "pns s p q"
  shows "sim s (brent_kung_up n em s c d p) (brent_kung_up n bool_ops () c d q) pns"
  using assms
proof (induction n arbitrary: s d p q)
  case 0
  then show ?case by (simp add: sim_err)
next
  case (Suc n)
  show ?case unfolding brent_kung_up.simps
    by (intro sim_more sim_seq [OF sim_prefix_stage]) (use Suc in simp_all)
qed

lemma sim_brent_kung_down:
  assumes "good s" and "pns s p q"
  shows "sim s (brent_kung_down n em s c d p) (brent_kung_down n bool_ops () c d q) pns"
  using assms
proof (induction n arbitrary: s d p q)
  case 0
  then show ?case by (simp add: sim_err)
next
  case (Suc n)
  show ?case unfolding brent_kung_down.simps
    by (intro sim_more sim_seq [OF sim_prefix_stage]) (use Suc in simp_all)
qed

lemma sim_brent_kung_prefix:
  assumes "good s" and "pns s p q"
  shows "sim s (brent_kung_prefix em s p) (brent_kung_prefix bool_ops () q) pns"
proof -
  have len: "length (pn_generate p) = length (pn_generate q)" using assms by (auto dest: list_all2_lengthD)
  show ?thesis
    unfolding brent_kung_prefix_def Let_def len
    by (intro sim_seq [OF sim_brent_kung_up] sim_brent_kung_down) (use assms in simp_all)
qed

lemma sim_prefix_inputs_loop:
  assumes "good s" and "dens s ls vs" and "dens s rs ws"
  shows "sim s (prefix_inputs_loop em s ls rs) (prefix_inputs_loop bool_ops () vs ws)
    (\<lambda>s. rel_prod (dens s) (dens s))"
  using assms
proof (induction ls arbitrary: s rs vs ws)
  case Nil
  then show ?case by (auto simp: sim_ret)
next
  case (Cons l ls)
  show ?case
  proof (cases rs)
    case Nil
    with Cons.prems show ?thesis by (auto simp: list_all2_Cons1 sim_ret)
  next
    case rs: (Cons r rs')
    then obtain v vs' w ws' where b: "vs = v # vs'" "ws = w # ws'" "den s l v" "dens s ls vs'" "den s r w" "dens s rs' ws'"
      using Cons.prems by (auto simp: list_all2_Cons1)
    show ?thesis
      unfolding rs b(1,2) prefix_inputs_loop.simps
      by (intro sim_steps sim_map [OF Cons.IH])
        (use b(3-6) dens_Nil [OF b(4)] Cons.prems in \<open>simp_all add: rel_prod_sel case_prod_beta\<close>)
  qed
qed

abbreviation pnis :: "'s \<Rightarrow> 'a list \<times> 'a PrefixNetwork \<Rightarrow> bool list \<times> bool PrefixNetwork \<Rightarrow> bool"
  where "pnis s x y \<equiv> dens s (fst x) (fst y) \<and> pns s (snd x) (snd y)"

lemma prefix_network_pnis:
  assumes "rel_prod (dens s) (dens s) x y"
  shows "pnis s (prefix_network x) (prefix_network y)"
  using assms by (cases x; cases y) (auto simp: prefix_network_def list_all2_lengthD intro: list_all2_takeI)

lemma sim_prefix_inputs_from_bits:
  assumes "good s" and "dens s ls vs" and "dens s rs ws"
  shows "sim s (prefix_inputs_from_bits em s ls rs) (prefix_inputs_from_bits bool_ops () vs ws) pnis"
  unfolding prefix_inputs_from_bits_def list_all2_lengthD [OF assms(2)] list_all2_lengthD [OF assms(3)]
  by (intro sim_if sim_err sim_map [OF sim_prefix_inputs_loop] assms refl) (rule prefix_network_pnis)

lemma sim_prefix_adder_loop:
  assumes "good s" and "opds s a va" and "opds s b vb"
  shows "sim s (prefix_adder_loop em s a b sub ty is) (prefix_adder_loop bool_ops () va vb sub ty is)
    (\<lambda>s. rel_prod (dens s) (dens s))"
  using assms
proof (induction "is" arbitrary: s)
  case Nil
  then show ?case by (simp add: sim_ret)
next
  case (Cons i "is")
  show ?case unfolding prefix_adder_loop.simps
    by (intro sim_steps sim_seq [OF sim_if [OF refl sim_unary sim_ret]] sim_map [OF Cons.IH])
      (use Cons.prems in \<open>simp_all add: rel_prod_sel case_prod_beta\<close>)
qed

lemma sim_prefix_adder_inputs:
  assumes "good s" and "opds s a va" and "opds s b vb"
  shows "sim s (prefix_adder_inputs em s a b sub ty) (prefix_adder_inputs bool_ops () va vb sub ty) pnis"
  unfolding prefix_adder_inputs_def
  by (intro sim_map [OF sim_prefix_adder_loop] assms) (rule prefix_network_pnis)

lemma sim_mapM_dens:
  assumes "good s" and "\<And>s' x. \<lbrakk>good s'; \<And>x v. den s x v \<Longrightarrow> den s' x v; \<And>xs vs. dens s xs vs \<Longrightarrow> dens s' xs vs; x \<in> set xs\<rbrakk>
      \<Longrightarrow> sim s' (f x s') (g x ()) den"
  shows "sim s (smapM f xs s) (smapM g xs ()) dens"
  by (rule sim_mapM_same [OF assms(1) keeps_den]) (use assms den_mono dens_mono in auto)

lemma sim_prefix_adder_sum:
  assumes "good s" and "dens s ps vs" and "pns s p q"
  shows "sim s (prefix_adder_sum em s ps p sub) (prefix_adder_sum bool_ops () vs q sub) dens"
  unfolding prefix_adder_sum_def list_all2_lengthD [OF assms(2)]
  by (intro sim_steps sim_seq [OF sim_if [OF refl sim_unary sim_ret]] sim_map [OF sim_mapM_dens]
      sim_seq [OF sim_if [OF refl sim_seq [OF sim_vget [of _ den], where Q = den] sim_ret]])
    (use assms in simp_all)

lemma sim_prefix_adder_sum_with_carry:
  assumes "good s" and "dens s ps vs" and "pns s p q" and "den s c d"
  shows "sim s (prefix_adder_sum_with_carry em s ps p c) (prefix_adder_sum_with_carry bool_ops () vs q d) dens"
proof (cases ps)
  case Nil
  with assms show ?thesis by (simp add: prefix_adder_sum_with_carry_def sim_err)
next
  case (Cons x xs)
  with assms(2) obtain v vs' where v: "vs = v # vs'" "den s x v" by (auto simp: list_all2_Cons1)
  have len: "length (x # xs) = length (v # vs')" using list_all2_lengthD [OF assms(2)] Cons v by simp
  have d: "dens s (x # xs) (v # vs')" using assms(2) Cons v by simp
  show ?thesis
    unfolding prefix_adder_sum_with_carry_def Cons v(1) list.case len
    by (intro sim_steps sim_map [OF sim_mapM_dens]) (use assms v d in simp_all)
qed

lemma sim_seed_prefix_carry:
  assumes "good s" and "pns s p q" and "den s c d"
  shows "sim s (seed_prefix_carry em s p c) (seed_prefix_carry bool_ops () q d) pns"
  unfolding seed_prefix_carry_def
  by (intro sim_more) (use assms in simp_all)

lemma sim_seeded_prefix_sum:
  assumes "good s" and "dens s ps vs" and "pns s p q" and "den s c d"
  shows "sim s (seeded_prefix_sum em s ps p c) (seeded_prefix_sum bool_ops () vs q d) dens"
  unfolding seeded_prefix_sum_def list_all2_lengthD [OF assms(2)]
  by (intro sim_mapM_dens sim_steps sim_seq [OF sim_if [OF refl sim_ret sim_vget]])
    (use assms in simp_all)

lemma sim_kogge_stone_add_sub_bits:
  assumes "good s" and "opds s a va" and "opds s b vb"
  shows "sim s (kogge_stone_add_sub_bits em s a b sub ty) (kogge_stone_add_sub_bits bool_ops () va vb sub ty) dens"
  unfolding kogge_stone_add_sub_bits_def case_prod_beta
  by (intro sim_seq [OF sim_prefix_adder_inputs] sim_seq [OF sim_kogge_stone_prefix] sim_prefix_adder_sum)
    (use assms in simp_all)

lemma sim_brent_kung_add_sub_bits:
  assumes "good s" and "opds s a va" and "opds s b vb"
  shows "sim s (brent_kung_add_sub_bits em s a b sub ty) (brent_kung_add_sub_bits bool_ops () va vb sub ty) dens"
  unfolding brent_kung_add_sub_bits_def case_prod_beta
  by (intro sim_seq [OF sim_prefix_adder_inputs] sim_seq [OF sim_brent_kung_prefix] sim_prefix_adder_sum)
    (use assms in simp_all)

lemma sim_kogge_stone_add_vectors:
  assumes "good s" and "dens s ls vs" and "dens s rs ws" and "den s c d"
  shows "sim s (kogge_stone_add_vectors em s ls rs c) (kogge_stone_add_vectors bool_ops () vs ws d) dens"
  unfolding kogge_stone_add_vectors_def case_prod_beta list_all2_lengthD [OF assms(2)]
  by (intro sim_if sim_add_vectors sim_seq [OF sim_prefix_inputs_from_bits] sim_seq [OF sim_seed_prefix_carry]
      sim_seq [OF sim_kogge_stone_prefix] sim_seeded_prefix_sum)
    (use assms in simp_all)

lemma sim_brent_kung_add_vectors:
  assumes "good s" and "dens s ls vs" and "dens s rs ws" and "den s c d"
  shows "sim s (brent_kung_add_vectors em s ls rs c) (brent_kung_add_vectors bool_ops () vs ws d) dens"
  unfolding brent_kung_add_vectors_def case_prod_beta list_all2_lengthD [OF assms(2)]
  by (intro sim_if sim_add_vectors sim_seq [OF sim_prefix_inputs_from_bits] sim_seq [OF sim_seed_prefix_carry]
      sim_seq [OF sim_brent_kung_prefix] sim_seeded_prefix_sum)
    (use assms in simp_all)

lemma sim_hybrid:
  assumes "good s" and "opds s a va" and "opds s b vb"
  shows "sim s (hybrid_brent_kung_add_sub_bits em s a b sub ty w)
    (hybrid_brent_kung_add_sub_bits bool_ops () va vb sub ty w) dens"
  unfolding hybrid_brent_kung_add_sub_bits_def case_prod_beta Let_def
  by (intro sim_if sim_err sim_seq [OF sim_add_sub_operands] sim_steps sim_seq [OF sim_add_vectors_with_carry]
      sim_seq [OF sim_prefix_inputs_from_bits] sim_seq [OF sim_brent_kung_prefix]
      sim_map [OF sim_prefix_adder_sum_with_carry])
    (use assms in \<open>simp_all add: rel_prod_lists rel_prod_sel list_all2_takeI list_all2_dropI list_all2_appendI\<close>)

lemma sim_ripple_constant_loop:
  assumes "good s" and "dens s xs vs" and "den s c d"
  shows "sim s (ripple_constant_loop em s xs ks c) (ripple_constant_loop bool_ops () vs ks d) dens"
  using assms
proof (induction xs arbitrary: s vs ks c d)
  case Nil
  then show ?case by (simp add: sim_ret)
next
  case (Cons x xs)
  then obtain v vs' where v: "vs = v # vs'" "den s x v" "dens s xs vs'" by (auto simp: list_all2_Cons1)
  show ?case
  proof (cases ks)
    case Nil
    with Cons.prems v show ?thesis by (simp add: sim_ret)
  next
    case (Cons k ks')
    show ?thesis
      unfolding Cons v(1) ripple_constant_loop.simps
      by (intro sim_steps sim_map [OF Cons.IH]) (use v(2,3) Cons.prems in simp_all)
  qed
qed

lemma sim_ripple_add_constant:
  assumes "good s" and "dens s xs vs"
  shows "sim s (ripple_add_constant em s xs ks c ty) (ripple_add_constant bool_ops () vs ks c ty) dens"
  unfolding ripple_add_constant_def
  by (intro sim_steps sim_ripple_constant_loop) (use assms in simp_all)

lemma sim_enumerate:
  assumes "dens s xs vs"
  shows "list_all2 (rel_prod (=) (rel_prod (den s) (=))) (enumerate n (zip xs ks)) (enumerate n (zip vs ks))"
  using list_all2_lengthD [OF assms] assms
  by (auto simp: list_all2_conv_all_nth nth_enumerate_eq rel_prod_sel)

lemma constant_prefix_pns:
  assumes "dens s xs vs" and "den s zero zero'" and "den s one one'"
  shows "pns s (constant_prefix zero one (take n (zip xs ks))) (constant_prefix zero' one' (take n (zip vs ks)))"
  using assms list_all2_lengthD [OF assms(1)] by (auto simp: constant_prefix_def list_all2_conv_all_nth)

lemma constant_prefix_Nil: "pn_generate (constant_prefix zero one ps) = [] \<longleftrightarrow> ps = []"
  by (simp add: constant_prefix_def)

lemma sim_prefix_constant_bit:
  assumes "good s" and "pns s p q" and "den s zero zero'" and "den s one one'"
    and "rel_prod (=) (rel_prod (den s) (=)) x y"
  shows "sim s (prefix_constant_bit em s c zero one p x) (prefix_constant_bit bool_ops () c zero' one' q y) den"
proof -
  obtain i v k w where xy: "x = (i, v, k)" "y = (i, w, k)" "den s v w"
    using assms(5) by (cases x; cases y) (auto simp: rel_prod_sel)
  show ?thesis
    unfolding prefix_constant_bit_def xy(1,2) prod.case
    by (intro sim_steps sim_seq [where R = den and Q = den]) (use assms xy(3) in simp_all)
qed

lemma sim_prefix_add_constant:
  assumes "good s" and "dens s xs vs"
  shows "sim s (prefix_add_constant em s xs ks c ty) (prefix_add_constant bool_ops () vs ks c ty) dens"
proof -
  have step: "sim s' (smapM (\<lambda>entry s. prefix_constant_bit em s c zero one p entry) (enumerate 0 (zip xs ks)) s')
      (smapM (\<lambda>entry s. prefix_constant_bit bool_ops s c zero' one' q entry) (enumerate 0 (zip vs ks)) ()) dens"
    if "good s'" "dens s' xs vs" "pns s' p q" "den s' zero zero'" "den s' one one'" for s' p q zero zero' one one'
    by (rule sim_mapM [where P = "\<lambda>s. rel_prod (=) (rel_prod (den s) (=))"])
      (use that dens_mono [OF that(1)] den_mono [OF that(1)] in
        \<open>auto intro: sim_enumerate sim_prefix_constant_bit keeps_prod\<close>)
  show ?thesis
    unfolding prefix_add_constant_def Let_def list_all2_lengthD [OF assms(2)]
    by (intro sim_steps sim_seq [OF sim_if [OF _ sim_brent_kung_prefix sim_ret]] step)
      (use assms constant_prefix_pns in
        \<open>simp_all add: constant_prefix_Nil zip_eq_Nil_iff dens_Nil [OF assms(2)]\<close>)
qed

end

end
