(* ===== verification/Adders_Correct.thy ===== *)
theory Adders_Correct
  imports Adders
begin

text \<open>
  What the adders compute on Booleans: every carry network, for vectors of any width below
  \<open>2 ^ 63\<close>, produces the sum of its operands and of the incoming carry modulo the width.
  The prefix networks are handled by a covering argument: position \<open>i\<close> holds the generate and
  propagate terms of a group of \<open>w\<close> positions that ends at \<open>i\<close>, and each stage joins
  adjacent groups.
\<close>

section \<open>Carries and sums\<close>

primrec carry_into :: "bool list \<Rightarrow> bool list \<Rightarrow> bool \<Rightarrow> nat \<Rightarrow> bool"
  where
    "carry_into l r c 0 = c"
  | "carry_into l r c (Suc i) = ((l ! i \<and> r ! i) \<or> ((l ! i \<noteq> r ! i) \<and> carry_into l r c i))"

definition sum_bits :: "bool list \<Rightarrow> bool list \<Rightarrow> bool \<Rightarrow> bool list"
  where "sum_bits l r c = map (\<lambda>i. (l ! i \<noteq> r ! i) \<noteq> carry_into l r c i) [0..<length l]"

lemma carry_into_Cons:
  "carry_into (x # l) (y # r) c (Suc i) = carry_into l r ((x \<and> y) \<or> ((x \<noteq> y) \<and> c)) i"
  by (induction i) auto

lemma sum_bits_Cons:
  "sum_bits (x # l) (y # r) c = ((x \<noteq> y) \<noteq> c) # sum_bits l r ((x \<and> y) \<or> ((x \<noteq> y) \<and> c))"
  unfolding sum_bits_def
  by (simp add: upt_conv_Cons carry_into_Cons map_Suc_upt [symmetric] del: upt_Suc carry_into.simps(2))

lemma sum_bits_Nil [simp]: "sum_bits [] r c = []"
  by (simp add: sum_bits_def)

lemma length_sum_bits [simp]: "length (sum_bits l r c) = length l"
  by (simp add: sum_bits_def)

lemma sum_bits_carry:
  assumes "length l = length r"
  shows "bits_val (sum_bits l r c) + 2 ^ length l * of_bool (carry_into l r c (length l)) =
    bits_val l + bits_val r + of_bool c"
  using assms
proof (induction l r arbitrary: c rule: list_induct2)
  case Nil
  then show ?case by simp
next
  case (Cons x l y r)
  let ?c = "(x \<and> y) \<or> ((x \<noteq> y) \<and> c)"
  have "bits_val (sum_bits (x # l) (y # r) c) + 2 ^ length (x # l) * of_bool (carry_into (x # l) (y # r) c (length (x # l)))
      = of_bool ((x \<noteq> y) \<noteq> c) + 2 * (bits_val (sum_bits l r ?c) + 2 ^ length l * of_bool (carry_into l r ?c (length l)))"
    by (simp only: sum_bits_Cons list.size carry_into_Cons bits_val.simps power_Suc plus_1_eq_Suc add_0 One_nat_def add_Suc_right)
      (simp add: algebra_simps)
  also have "\<dots> = of_bool ((x \<noteq> y) \<noteq> c) + 2 * (bits_val l + bits_val r + of_bool ?c)"
    using Cons.IH by simp
  also have "\<dots> = bits_val (x # l) + bits_val (y # r) + of_bool c" by (auto simp: of_bool_def)
  finally show ?case .
qed

lemma sum_bits_val:
  assumes "length l = length r"
  shows "bits_val (sum_bits l r c) = (bits_val l + bits_val r + of_bool c) mod 2 ^ length l"
proof -
  have "bits_val (sum_bits l r c) < 2 ^ length l" using bits_val_less [of "sum_bits l r c"] by simp
  with sum_bits_carry [OF assms, of c] show ?thesis by (metis mod_less mod_mult_self2)
qed

section \<open>The ripple-carry adders\<close>

lemma add_vectors_loop_bool:
  assumes "length l = length r"
  shows "add_vectors_loop bool_ops () l r c = (Inr (sum_bits l r c), ())"
  using assms by (induction l r arbitrary: c rule: list_induct2) (auto simp: sum_bits_Cons)

lemma add_vectors_bool:
  assumes "length l = length r" and "l \<noteq> []"
  shows "add_vectors bool_ops () l r c = (Inr (sum_bits l r c), ())"
  using assms by (simp add: add_vectors_def add_vectors_loop_bool)

lemma add_carry_loop_bool:
  assumes "length l = length r"
  shows "add_carry_loop bool_ops () l r c = (Inr (sum_bits l r c, carry_into l r c (length l)), ())"
  using assms
  by (induction l r arbitrary: c rule: list_induct2) (auto simp: sum_bits_Cons carry_into_Cons simp del: carry_into.simps(2))

lemma add_vectors_with_carry_bool:
  assumes "length l = length r" and "l \<noteq> []"
  shows "add_vectors_with_carry bool_ops () l r c = (Inr (sum_bits l r c, carry_into l r c (length l)), ())"
  using assms by (simp add: add_vectors_with_carry_def add_carry_loop_bool)

section \<open>Groups of positions\<close>

primrec grp_g :: "(nat \<Rightarrow> bool) \<Rightarrow> (nat \<Rightarrow> bool) \<Rightarrow> nat \<Rightarrow> nat \<Rightarrow> bool"
  where
    "grp_g g p j 0 = g j"
  | "grp_g g p j (Suc k) = (g (j + Suc k) \<or> (p (j + Suc k) \<and> grp_g g p j k))"

primrec grp_p :: "(nat \<Rightarrow> bool) \<Rightarrow> nat \<Rightarrow> nat \<Rightarrow> bool"
  where
    "grp_p p j 0 = p j"
  | "grp_p p j (Suc k) = (p (j + Suc k) \<and> grp_p p j k)"

lemma grp_join:
  "grp_g g p j (a + Suc b) = (grp_g g p (j + Suc a) b \<or> (grp_p p (j + Suc a) b \<and> grp_g g p j a))"
  "grp_p p j (a + Suc b) = (grp_p p (j + Suc a) b \<and> grp_p p j a)"
  by (induction b) (auto simp: algebra_simps)

text \<open>Position \<open>i\<close> of a network covers the \<open>w\<close> positions that end at \<open>i\<close>.\<close>

definition covers :: "(nat \<Rightarrow> bool) \<Rightarrow> (nat \<Rightarrow> bool) \<Rightarrow> bool PrefixNetwork \<Rightarrow> nat \<Rightarrow> nat \<Rightarrow> bool"
  where "covers g p net i w \<longleftrightarrow> 0 < w \<and> w \<le> i + 1 \<and>
    pn_generate net ! i = grp_g g p (i + 1 - w) (w - 1) \<and> pn_propagate net ! i = grp_p p (i + 1 - w) (w - 1)"

definition joined :: "bool PrefixNetwork \<Rightarrow> nat \<Rightarrow> nat \<Rightarrow> bool PrefixNetwork \<Rightarrow> bool"
  where "joined net i d net' \<longleftrightarrow>
    pn_generate net' ! i = (pn_generate net ! i \<or> (pn_propagate net ! i \<and> pn_generate net ! (i - d))) \<and>
    pn_propagate net' ! i = (pn_propagate net ! i \<and> pn_propagate net ! (i - d))"

lemma covers_join:
  assumes "covers g p net i w" and "covers g p net (i - w) u" and "w \<le> i" and "joined net i w net'"
  shows "covers g p net' i (w + u)"
proof -
  define j where "j = i + 1 - (w + u)"
  have u: "0 < u" "u \<le> i - w + 1" and w: "0 < w" using assms(1,2) by (auto simp: covers_def)
  have e: "i - w + 1 - u = j" "i + 1 - w = j + Suc (u - 1)" "w + u - 1 = (u - 1) + Suc (w - 1)"
    using u w assms(3) by (auto simp: j_def)
  have "pn_generate net ! i = grp_g g p (j + Suc (u - 1)) (w - 1)"
    "pn_propagate net ! i = grp_p p (j + Suc (u - 1)) (w - 1)"
    using assms(1) e(2) by (simp_all add: covers_def)
  moreover have "pn_generate net ! (i - w) = grp_g g p j (u - 1)" "pn_propagate net ! (i - w) = grp_p p j (u - 1)"
    using assms(2) e(1) by (simp_all add: covers_def)
  ultimately have "pn_generate net' ! i = grp_g g p j (w + u - 1)" "pn_propagate net' ! i = grp_p p j (w + u - 1)"
    using assms(4) unfolding joined_def e(3) grp_join by blast+
  then show ?thesis using u w assms(3) by (simp add: covers_def j_def)
qed

definition net_len :: "bool PrefixNetwork \<Rightarrow> nat \<Rightarrow> bool"
  where "net_len net n \<longleftrightarrow> length (pn_generate net) = n \<and> length (pn_propagate net) = n"

lemma combine_prefix_bool:
  assumes "net_len net n" and "net_len acc n" and "i < n" and "d \<le> i"
  shows "\<exists>acc'. combine_prefix bool_ops () i (i - d) net acc = (Inr acc', ()) \<and> net_len acc' n \<and>
    joined net i d acc' \<and>
    (\<forall>j. j \<noteq> i \<longrightarrow> pn_generate acc' ! j = pn_generate acc ! j \<and> pn_propagate acc' ! j = pn_propagate acc ! j)"
  using assms by (auto simp: combine_prefix_def vget_def vset_def net_len_def joined_def)

lemma prefix_stage_fold:
  assumes "net_len net n" and "net_len acc n" and "\<forall>i \<in> set is. d \<le> i \<and> i < n"
  shows "\<exists>acc'. sfoldM (\<lambda>index next_prefix s. combine_prefix bool_ops s index (index - d) net next_prefix) is acc ()
      = (Inr acc', ()) \<and> net_len acc' n \<and>
    (\<forall>i. if i \<in> set is then joined net i d acc'
         else pn_generate acc' ! i = pn_generate acc ! i \<and> pn_propagate acc' ! i = pn_propagate acc ! i)"
  using assms(2,3)
proof (induction "is" arbitrary: acc)
  case Nil
  then show ?case by simp
next
  case (Cons i "is")
  obtain a where a: "combine_prefix bool_ops () i (i - d) net acc = (Inr a, ())" "net_len a n" "joined net i d a"
    "\<And>j. j \<noteq> i \<Longrightarrow> pn_generate a ! j = pn_generate acc ! j \<and> pn_propagate a ! j = pn_propagate acc ! j"
    using combine_prefix_bool [OF assms(1) Cons.prems(1)] Cons.prems(2) by (metis list.set_intros(1))
  obtain b where b: "sfoldM (\<lambda>index next_prefix s. combine_prefix bool_ops s index (index - d) net next_prefix) is a ()
      = (Inr b, ())" "net_len b n"
    "\<And>j. if j \<in> set is then joined net j d b
         else pn_generate b ! j = pn_generate a ! j \<and> pn_propagate b ! j = pn_propagate a ! j"
    using Cons.IH [OF a(2)] Cons.prems(2) by (auto simp del: if_split)
  have "if j \<in> set (i # is) then joined net j d b
         else pn_generate b ! j = pn_generate acc ! j \<and> pn_propagate b ! j = pn_propagate acc ! j" for j
  proof (cases "j \<in> set is")
    case True
    with b(3) [of j] show ?thesis by simp
  next
    case False
    with b(3) [of j] have same: "pn_generate b ! j = pn_generate a ! j" "pn_propagate b ! j = pn_propagate a ! j"
      by simp_all
    show ?thesis
    proof (cases "j = i")
      case True
      with same a(3) show ?thesis by (simp add: joined_def)
    next
      case neq: False
      with same a(4) [OF neq] False show ?thesis by simp
    qed
  qed
  with a(1) b(1,2) show ?case by auto
qed

lemma prefix_stage_bool:
  assumes "net_len net n" and "\<forall>i \<in> set is. d \<le> i \<and> i < n"
  obtains net' where "prefix_stage bool_ops () is d net = (Inr net', ())" and "net_len net' n"
    and "\<And>i. i \<in> set is \<Longrightarrow> joined net i d net'"
    and "\<And>i w. i \<notin> set is \<Longrightarrow> covers g p net i w \<Longrightarrow> covers g p net' i w"
proof -
  obtain net' where n: "prefix_stage bool_ops () is d net = (Inr net', ())" "net_len net' n"
    and j: "\<And>i. if i \<in> set is then joined net i d net'
      else pn_generate net' ! i = pn_generate net ! i \<and> pn_propagate net' ! i = pn_propagate net ! i"
    using prefix_stage_fold [OF assms(1,1,2)] unfolding prefix_stage_def by blast
  have "joined net i d net'" if "i \<in> set is" for i using j [of i] that by simp
  moreover have "covers g p net' i w" if "i \<notin> set is" "covers g p net i w" for i w
    using j [of i] that by (simp add: covers_def)
  ultimately show thesis by (rule that [OF n])
qed

section \<open>The Kogge-Stone network\<close>

lemma kogge_stone_loop_bool:
  assumes "net_len net n" and "\<forall>i < n. covers g p net i (min d (i + 1))" and "0 < d"
    and "n \<le> d * 2 ^ m" and "n \<le> 2 ^ 63"
  shows "\<exists>net'. kogge_stone_loop (Suc m) bool_ops () d net = (Inr net', ()) \<and> net_len net' n \<and>
    (\<forall>i < n. covers g p net' i (i + 1))"
  using assms(1-4)
proof (induction m arbitrary: d net)
  case 0
  then have "\<not> d < length (pn_generate net)" by (simp add: net_len_def)
  moreover have "min d (i + 1) = i + 1" if "i < n" for i using that 0 by simp
  ultimately show ?case using 0 by (auto simp: net_len_def)
next
  case (Suc m)
  show ?case
  proof (cases "d < n")
    case False
    then have "min d (i + 1) = i + 1" if "i < n" for i using that by simp
    with False Suc.prems show ?thesis by (auto simp: net_len_def)
  next
    case True
    obtain net' where n': "prefix_stage bool_ops () [d..<n] d net = (Inr net', ())" "net_len net' n"
      "\<And>i. i \<in> set [d..<n] \<Longrightarrow> joined net i d net'"
      "\<And>i w. i \<notin> set [d..<n] \<Longrightarrow> covers g p net i w \<Longrightarrow> covers g p net' i w"
      using prefix_stage_bool [OF Suc.prems(1), of "[d..<n]" d g p] by auto
    have "covers g p net' i (min (d * 2) (i + 1))" if "i < n" for i
    proof (cases "d \<le> i")
      case True
      have "covers g p net' i (d + min d (i - d + 1))"
        using n'(3) [of i] Suc.prems(2) that True by (intro covers_join) (auto dest: spec [of _ "i - d"] simp: min_def)
      moreover have "d + min d (i - d + 1) = min (d * 2) (i + 1)" using True by auto
      ultimately show ?thesis by simp
    next
      case False
      then have "min d (i + 1) = i + 1" "min (d * 2) (i + 1) = i + 1" by auto
      with n'(4) [of i "i + 1"] Suc.prems(2) that False show ?thesis by (metis atLeastLessThan_iff set_upt)
    qed
    moreover have "d * 2 < 2 ^ 64" using True assms(5) by simp
    ultimately show ?thesis
      using Suc.IH [of net' "d * 2"] n'(1,2) True Suc.prems
      by (simp add: net_len_def checked_usize_mul_def lift_result_def algebra_simps)
  qed
qed

lemma kogge_stone_prefix_bool:
  assumes "net_len net n" and "\<forall>i < n. covers g p net i 1" and "n \<le> 2 ^ 63"
  shows "\<exists>net'. kogge_stone_prefix bool_ops () net = (Inr net', ()) \<and> net_len net' n \<and>
    (\<forall>i < n. covers g p net' i (i + 1))"
proof -
  have "kogge_stone_prefix bool_ops () net = kogge_stone_loop (Suc 64) bool_ops () 1 net"
    by (simp add: kogge_stone_prefix_def del: kogge_stone_loop.simps)
  moreover have "n \<le> 1 * 2 ^ 64" using assms(3) by simp
  ultimately show ?thesis
    using kogge_stone_loop_bool [of net n g p 1 64] assms by (simp add: min_def del: kogge_stone_loop.simps)
qed

section \<open>The Brent-Kung network\<close>

text \<open>\<open>exact e m\<close>: \<open>e\<close> is the number of factors two of \<open>m\<close>.\<close>

definition exact :: "nat \<Rightarrow> nat \<Rightarrow> bool"
  where "exact e m \<longleftrightarrow> 2 ^ e dvd m \<and> \<not> 2 ^ Suc e dvd m"

lemma exact_power [simp]: "exact e (2 ^ e)"
  by (auto simp: exact_def dest: power_dvd_imp_le)

lemma exact_sub:
  assumes "exact e m" and "m \<noteq> 2 ^ e"
  shows "2 ^ Suc e dvd m - 2 ^ e" and "2 ^ e < m"
proof -
  obtain q where q: "m = 2 ^ e * q" using assms(1) by (auto simp: exact_def)
  have odd: "odd q"
  proof
    assume "even q"
    then obtain r where "q = 2 * r" by (auto elim: evenE)
    then have "2 ^ Suc e dvd m" by (simp add: q)
    with assms(1) show False by (simp add: exact_def)
  qed
  then obtain r where r: "q = 2 * r + 1" by (auto elim: oddE)
  then have "m - 2 ^ e = 2 ^ Suc e * r" by (simp add: q)
  then show "2 ^ Suc e dvd m - 2 ^ e" by simp
  have "r \<noteq> 0" using assms(2) q r by auto
  then show "2 ^ e < m" by (simp add: q r)
qed

lemma exact_iff_mod: "exact e m \<longleftrightarrow> m mod 2 ^ Suc e = 2 ^ e"
proof
  assume e: "exact e m"
  obtain q where "m = 2 ^ e * q" using e by (auto simp: exact_def)
  moreover have "odd q" using e calculation by (auto simp: exact_def elim: evenE)
  ultimately show "m mod 2 ^ Suc e = 2 ^ e" by (auto simp: mult_mod_right [symmetric] mod_2_eq_odd power_Suc2 simp del: power_Suc)
next
  assume m: "m mod 2 ^ Suc e = 2 ^ e"
  then have "m = 2 ^ Suc e * (m div 2 ^ Suc e) + 2 ^ e" by (metis mult_div_mod_eq)
  then have "2 ^ e dvd m" by (metis dvd_add_triv_right_iff dvd_mult2 le_imp_power_dvd lessI less_imp_le)
  moreover have "\<not> 2 ^ Suc e dvd m" using m by (metis mod_0_imp_dvd dvd_imp_mod_0 power_eq_0_iff zero_neq_numeral)
  ultimately show "exact e m" by (simp add: exact_def)
qed

lemma step_range_up: "i \<in> set (step_range (2 ^ Suc k - 1) n (2 ^ Suc k)) \<longleftrightarrow> i < n \<and> 2 ^ Suc k dvd (i + 1)"
proof -
  let ?m = "2 ^ Suc k :: nat"
  have "(i - (?m - 1)) mod ?m = 0 \<longleftrightarrow> ?m dvd (i + 1)" if "?m - 1 \<le> i"
  proof -
    have "i + 1 = (i - (?m - 1)) + ?m" using that by auto
    then have "?m dvd (i + 1) \<longleftrightarrow> ?m dvd (i - (?m - 1))" by (metis dvd_add_triv_right_iff)
    then show ?thesis by (simp add: dvd_eq_mod_eq_0)
  qed
  moreover have "?m - 1 \<le> i" if "?m dvd (i + 1)" using dvd_imp_le [OF that] by simp
  ultimately show ?thesis by (auto simp: step_range_def simp del: power_Suc)
qed

lemma step_range_down:
  "i \<in> set (step_range (2 ^ k * 3 - 1) n (2 ^ k * 2)) \<longleftrightarrow> i < n \<and> exact k (i + 1) \<and> i + 1 \<noteq> 2 ^ k"
proof -
  let ?s = "2 ^ k :: nat"
  have eq: "(i - (?s * 3 - 1)) mod (?s * 2) = 0 \<longleftrightarrow> exact k (i + 1)" if "?s * 3 - 1 \<le> i"
  proof -
    define r where "r = i - (?s * 3 - 1)"
    have "i + 1 = r + ?s + ?s * 2" using that by (auto simp: r_def)
    then have "(i + 1) mod (?s * 2) = (r + ?s) mod (?s * 2)" by (metis mod_add_self2)
    moreover have "(r + ?s) mod (?s * 2) = ?s \<longleftrightarrow> r mod (?s * 2) = 0"
    proof -
      have "(r + ?s) mod (?s * 2) = (r mod (?s * 2) + ?s) mod (?s * 2)" by (simp add: mod_add_left_eq)
      also have "\<dots> = (if r mod (?s * 2) < ?s then r mod (?s * 2) + ?s else r mod (?s * 2) - ?s)"
      proof (cases "r mod (?s * 2) < ?s")
        case False
        then have "r mod (?s * 2) + ?s = (r mod (?s * 2) - ?s) + ?s * 2" by simp
        then have "(r mod (?s * 2) + ?s) mod (?s * 2) = (r mod (?s * 2) - ?s) mod (?s * 2)" by (metis mod_add_self2)
        also have "r mod (?s * 2) - ?s < ?s * 2" using mod_less_divisor [of "?s * 2" r] by (simp add: less_imp_diff_less)
        then have "(r mod (?s * 2) - ?s) mod (?s * 2) = r mod (?s * 2) - ?s" by (rule mod_less)
        finally show ?thesis using False by simp
      qed simp
      finally have e: "(r + ?s) mod (?s * 2) =
        (if r mod (?s * 2) < ?s then r mod (?s * 2) + ?s else r mod (?s * 2) - ?s)" .
      define x where "x = r mod (?s * 2)"
      have "x < ?s * 2" "0 < ?s" by (simp_all add: x_def)
      then have "(if x < ?s then x + ?s else x - ?s) = ?s \<longleftrightarrow> x = 0" by auto
      then show ?thesis using e unfolding x_def by metis
    qed
    ultimately show ?thesis by (simp add: exact_iff_mod r_def mult.commute)
  qed
  have "?s * 3 - 1 \<le> i" if e: "exact k (i + 1)" "i + 1 \<noteq> ?s"
  proof -
    obtain r where "i + 1 - ?s = 2 ^ Suc k * r" using exact_sub(1) [OF e] by (auto simp: dvd_def)
    moreover have "?s < i + 1" by (rule exact_sub(2) [OF e])
    ultimately show ?thesis by (cases r) auto
  qed
  moreover have "i + 1 \<noteq> ?s" if "?s * 3 - 1 \<le> i" using that by auto
  ultimately show ?thesis using eq by (auto simp: step_range_def)
qed

lemma brent_kung_up_bool:
  assumes "net_len net n" and "n \<le> 2 ^ 63" and "n \<le> 2 ^ k * 2 ^ m"
    and "\<forall>i < n. (\<forall>e < k. exact e (i + 1) \<longrightarrow> covers g p net i (2 ^ e)) \<and> (2 ^ k dvd (i + 1) \<longrightarrow> covers g p net i (2 ^ k))"
  shows "\<exists>net'. brent_kung_up (Suc m) bool_ops () n (2 ^ k) net = (Inr net', ()) \<and> net_len net' n \<and>
    (\<forall>i < n. \<forall>e. exact e (i + 1) \<longrightarrow> covers g p net' i (2 ^ e))"
proof -
  have fin: "\<forall>i < n. \<forall>e. exact e (i + 1) \<longrightarrow> covers g p net i (2 ^ e)"
    if "n \<le> 2 ^ k" and inv: "\<forall>i < n. (\<forall>e < k. exact e (i + 1) \<longrightarrow> covers g p net i (2 ^ e)) \<and> (2 ^ k dvd (i + 1) \<longrightarrow> covers g p net i (2 ^ k))"
    for k net
  proof (intro allI impI)
    fix i e assume i: "i < n" and e: "exact e (i + 1)"
    show "covers g p net i (2 ^ e)"
    proof (cases "e < k")
      case True
      with inv i e show ?thesis by blast
    next
      case False
      have "2 ^ e \<le> i + 1" using e by (auto simp: exact_def dest: dvd_imp_le)
      also have "\<dots> \<le> 2 ^ k" using i that(1) by simp
      finally have "e = k" using False by simp
      with inv i e show ?thesis by (auto simp: exact_def)
    qed
  qed
  show ?thesis
    using assms(1,3,4)
  proof (induction m arbitrary: k net)
    case 0
    then show ?case using fin [of k net] by (simp add: net_len_def)
  next
    case (Suc m)
    show ?case
    proof (cases "2 ^ k < n")
      case False
      then show ?thesis using fin [of k net] Suc.prems by (simp add: net_len_def)
    next
      case True
      let ?is = "step_range (2 ^ Suc k - 1) n (2 ^ Suc k)"
      note range = step_range_up [of _ k n]
      have d: "\<forall>i \<in> set ?is. 2 ^ k \<le> i \<and> i < n"
      proof
        fix i assume "i \<in> set ?is"
        then have i: "i < n" "2 ^ Suc k dvd (i + 1)" using range by blast+
        then have "2 ^ Suc k \<le> i + 1" by (auto dest: dvd_imp_le)
        moreover have "(1::nat) \<le> 2 ^ k" by simp
        ultimately show "2 ^ k \<le> i \<and> i < n" using i(1) by simp
      qed
      obtain net' where n': "prefix_stage bool_ops () ?is (2 ^ k) net = (Inr net', ())" "net_len net' n"
        "\<And>i. i \<in> set ?is \<Longrightarrow> joined net i (2 ^ k) net'"
        "\<And>i w. i \<notin> set ?is \<Longrightarrow> covers g p net i w \<Longrightarrow> covers g p net' i w"
        using prefix_stage_bool [OF Suc.prems(1) d, of g p] by metis
      have "covers g p net' i (2 ^ Suc k)" if "i < n" "2 ^ Suc k dvd (i + 1)" for i
      proof -
        have i: "i \<in> set ?is" using that range by blast
        have "2 ^ k dvd (i + 1)" using that(2) by (meson dvd_trans le_imp_power_dvd le_SucI order_refl)
        moreover have "i - 2 ^ k + 1 = i + 1 - 2 ^ k" using d i by auto
        then have "2 ^ k dvd (i - 2 ^ k + 1)" using calculation by (metis dvd_diff_nat dvd_refl)
        ultimately have "covers g p net' i (2 ^ k + 2 ^ k)"
          using Suc.prems(3) d i that(1) n'(3) [OF i] by (intro covers_join) auto
        then show ?thesis by (simp add: mult_2)
      qed
      moreover have "covers g p net' i (2 ^ e)" if "i < n" "e < Suc k" "exact e (i + 1)" for i e
      proof -
        have "\<not> 2 ^ Suc k dvd (i + 1)"
          using that(2,3) by (meson Suc_leI dvd_trans exact_def le_imp_power_dvd)
        then have "i \<notin> set ?is" using range by blast
        moreover have "covers g p net i (2 ^ e)"
          using Suc.prems(3) that by (cases "e < k") (auto simp: exact_def less_Suc_eq)
        ultimately show ?thesis by (rule n'(4))
      qed
      moreover have "(2::nat) ^ k * 2 < 2 ^ 64" using True assms(2) by simp
      ultimately show ?thesis
        using Suc.IH [OF n'(2), of "Suc k"] True n'(1) Suc.prems(2)
        by (simp add: checked_usize_mul_def lift_result_def mult.commute mult.left_commute)
    qed
  qed
qed

lemma brent_kung_down_bool:
  assumes "net_len net n" and "k \<le> 63" and "k \<le> m"
    and "\<forall>i < n. 2 ^ k dvd (i + 1) \<longrightarrow> covers g p net i (i + 1)"
    and "\<forall>i < n. \<forall>e < k. exact e (i + 1) \<longrightarrow> covers g p net i (2 ^ e)"
  shows "\<exists>net'. brent_kung_down (Suc m) bool_ops () n (2 ^ k div 2) net = (Inr net', ()) \<and> net_len net' n \<and>
    (\<forall>i < n. covers g p net' i (i + 1))"
  using assms
proof (induction k arbitrary: m net)
  case 0
  then show ?case by simp
next
  case (Suc k)
  let ?is = "step_range (2 ^ k * 3 - 1) n (2 ^ k * 2)"
  note range = step_range_down [of _ k n]
  obtain m' where m: "m = Suc m'" using Suc.prems(3) by (cases m) auto
  have d: "2 ^ k \<le> i \<and> i < n" if "i \<in> set ?is" for i
  proof -
    have "2 ^ k < i + 1" "i < n" using that range exact_sub(2) by blast+
    then show ?thesis by simp
  qed
  obtain net' where n': "prefix_stage bool_ops () ?is (2 ^ k) net = (Inr net', ())" "net_len net' n"
    "\<And>i. i \<in> set ?is \<Longrightarrow> joined net i (2 ^ k) net'"
    "\<And>i w. i \<notin> set ?is \<Longrightarrow> covers g p net i w \<Longrightarrow> covers g p net' i w"
    using prefix_stage_bool [OF Suc.prems(1), of ?is "2 ^ k" g p] d by metis
  have whole: "covers g p net' i (i + 1)" if i: "i < n" "2 ^ k dvd (i + 1)" for i
  proof (cases "2 ^ Suc k dvd (i + 1)")
    case True
    then have "i \<notin> set ?is" using range by (auto simp: exact_def)
    then show ?thesis using n'(4) Suc.prems(4) i True by blast
  next
    case False
    then have e: "exact k (i + 1)" using i by (simp add: exact_def)
    then have c: "covers g p net i (2 ^ k)" using Suc.prems(5) i by simp
    show ?thesis
    proof (cases "i + 1 = 2 ^ k")
      case True
      then have "i \<notin> set ?is" using range by blast
      with n'(4) c True show ?thesis by metis
    next
      case ne: False
      then have m: "i \<in> set ?is" using range i(1) e by blast
      have "i - 2 ^ k + 1 = i + 1 - 2 ^ k" using d [OF m] by auto
      then have "covers g p net (i - 2 ^ k) (i - 2 ^ k + 1)"
        using Suc.prems(4) exact_sub(1) [OF e ne] i(1) by (metis less_imp_diff_less)
      then have "covers g p net' i (2 ^ k + (i - 2 ^ k + 1))"
        using d [OF m] by (intro covers_join [OF c _ _ n'(3) [OF m]]) auto
      then show ?thesis using d [OF m] by simp
    qed
  qed
  have rest: "covers g p net' i (2 ^ e)" if i: "i < n" "e < k" "exact e (i + 1)" for i e
  proof -
    have "\<not> 2 ^ k dvd (i + 1)" using i(2,3) by (meson Suc_leI dvd_trans exact_def le_imp_power_dvd)
    then have "i \<notin> set ?is" using range by (auto simp: exact_def)
    then show ?thesis using n'(4) Suc.prems(5) i by simp
  qed
  have "(2::nat) ^ k \<le> 2 ^ 62" using Suc.prems(2) by (intro power_increasing) auto
  then have small: "(2::nat) ^ k * 2 < 2 ^ 64" "(2::nat) ^ k * 3 < 2 ^ 64" by simp_all
  have "\<exists>net''. brent_kung_down (Suc m') bool_ops () n (2 ^ k div 2) net' = (Inr net'', ()) \<and> net_len net'' n \<and>
      (\<forall>i < n. covers g p net'' i (i + 1))"
    using Suc.IH [OF n'(2), of m'] Suc.prems(2,3) m whole rest by simp
  moreover have "(2::nat) ^ Suc k div 2 = 2 ^ k" by simp
  ultimately show ?case
    unfolding m using small n'(1)
    by (simp add: brent_kung_down.simps(2) [of "Suc m'"] checked_usize_mul_def lift_result_def del: brent_kung_down.simps)
qed

lemma power_of_two_from_bound:
  "n \<le> 2 ^ j * 2 ^ m \<Longrightarrow> \<exists>k \<le> j + m. power_of_two_from m (2 ^ j) n = 2 ^ k \<and> n \<le> 2 ^ k"
proof (induction m arbitrary: j)
  case 0
  then show ?case by auto
next
  case (Suc m)
  show ?case
  proof (cases "2 ^ j < n")
    case True
    have "n \<le> 2 ^ Suc j * 2 ^ m" using Suc.prems by (simp add: mult.assoc mult.left_commute)
    with Suc.IH [of "Suc j"] True show ?thesis by auto
  next
    case False
    then show ?thesis by (intro exI [of _ j]) auto
  qed
qed

lemma next_power_of_two_bound:
  assumes "n \<le> 2 ^ 63"
  obtains k where "next_power_of_two n = 2 ^ k" and "n \<le> 2 ^ k" and "k \<le> 64"
proof -
  have "n \<le> 2 ^ 0 * 2 ^ 64" using assms by simp
  from power_of_two_from_bound [OF this] show thesis using that by (auto simp: next_power_of_two_def)
qed

lemma power_multiple_cases:
  fixes m :: nat
  assumes "2 ^ (k - 1) dvd m" and "0 < m" and "m \<le> 2 ^ k"
  obtains e where "m = 2 ^ e"
proof (cases k)
  case 0
  with assms have "m = 2 ^ 0" by (simp add: le_Suc_eq)
  then show thesis by (rule that)
next
  case (Suc j)
  with assms(1) obtain q where q: "m = 2 ^ j * q" by auto
  with assms(2,3) Suc have "0 < q" "q \<le> 2" by auto
  then have "q = 1 \<or> q = 2" by auto
  with q have "m = 2 ^ j \<or> m = 2 ^ Suc j" by auto
  then show thesis using that by blast
qed

lemma brent_kung_prefix_bool:
  assumes "net_len net n" and "\<forall>i < n. covers g p net i 1" and "n \<le> 2 ^ 63"
  shows "\<exists>net'. brent_kung_prefix bool_ops () net = (Inr net', ()) \<and> net_len net' n \<and>
    (\<forall>i < n. covers g p net' i (i + 1))"
proof -
  have "n \<le> 2 ^ 0 * 2 ^ 64" using assms(3) by simp
  then obtain up where up: "brent_kung_up (Suc 64) bool_ops () n (2 ^ 0) net = (Inr up, ())" "net_len up n"
    "\<forall>i < n. \<forall>e. exact e (i + 1) \<longrightarrow> covers g p up i (2 ^ e)"
    using brent_kung_up_bool [OF assms(1,3), of 0 64 g p] assms(2) by auto
  obtain k where k: "next_power_of_two n = 2 ^ k" "n \<le> 2 ^ k" "k \<le> 64"
    using next_power_of_two_bound [OF assms(3)] .
  have whole: "covers g p up i (i + 1)" if i: "i < n" "2 ^ (k - 1) dvd (i + 1)" for i
  proof -
    have "i + 1 \<le> 2 ^ k" using i(1) k(2) by simp
    then obtain e where "i + 1 = 2 ^ e" using power_multiple_cases [OF i(2)] by auto
    then show ?thesis using up(3) i(1) exact_power [of e] by metis
  qed
  have div4: "(2::nat) ^ k div 4 = 2 ^ (k - 1) div 2"
  proof (cases k)
    case (Suc j)
    have "(2::nat) ^ Suc j div (2 * 2) = 2 ^ Suc j div 2 div 2" by (rule div_mult2_eq)
    with Suc show ?thesis by simp
  qed simp
  obtain down where down: "brent_kung_down (Suc 64) bool_ops () n (2 ^ (k - 1) div 2) up = (Inr down, ())"
    "net_len down n" "\<forall>i < n. covers g p down i (i + 1)"
  proof -
    have "k - 1 \<le> 63" "k - 1 \<le> 64" using k(3) by simp_all
    from brent_kung_down_bool [OF up(2) this, of g p] show thesis using that whole up(3) by blast
  qed
  have fuel: "(65::nat) = Suc 64" and len: "length (pn_generate net) = n"
    using assms(1) by (simp_all add: net_len_def)
  have "brent_kung_prefix bool_ops () net = (Inr down, ())"
    unfolding brent_kung_prefix_def Let_def len fuel k(1) div4 using up(1) down(1)
    by (simp only: power_0 sbind_simps)
  with down show ?thesis by blast
qed

section \<open>From complete groups to sums\<close>

text \<open>Propagate may be the exclusive or the inclusive disjunction of the operand bits.\<close>

definition gp_of :: "bool list \<Rightarrow> bool list \<Rightarrow> nat \<Rightarrow> (nat \<Rightarrow> bool) \<Rightarrow> (nat \<Rightarrow> bool) \<Rightarrow> bool"
  where "gp_of l r n g p \<longleftrightarrow>
    (\<forall>i < n. g i = (l ! i \<and> r ! i) \<and> (p i = (l ! i \<noteq> r ! i) \<or> p i = (l ! i \<or> r ! i)))"

lemma carry_into_group:
  assumes "gp_of l r n g p" and "i < n"
  shows "carry_into l r c (Suc i) = (grp_g g p 0 i \<or> (grp_p p 0 i \<and> c))"
  using assms(2)
proof (induction i)
  case 0
  then show ?case using assms(1) by (auto simp: gp_of_def)
next
  case (Suc i)
  then have IH: "carry_into l r c (Suc i) = (grp_g g p 0 i \<or> (grp_p p 0 i \<and> c))" by simp
  show ?case unfolding carry_into.simps(2) [of l r c "Suc i"] IH
    using assms(1) Suc.prems by (auto simp: gp_of_def)
qed

lemma covers_whole:
  assumes "gp_of l r n g p" and "i < n" and "covers g p net i (i + 1)"
  shows "carry_into l r c (Suc i) = (pn_generate net ! i \<or> (pn_propagate net ! i \<and> c))"
  using assms(3) unfolding carry_into_group [OF assms(1,2)] covers_def by simp

lemma prefix_inputs_loop_bool:
  assumes "length l = length r" and "l \<noteq> []"
  shows "prefix_inputs_loop bool_ops () l r =
    (Inr (map2 (\<noteq>) l r, butlast (map2 (\<and>) l r)), ())"
  using assms by (induction l r rule: list_induct2) auto

definition operand_net :: "bool list \<Rightarrow> bool list \<Rightarrow> bool PrefixNetwork"
  where "operand_net l r =
    \<lparr>pn_propagate = take (length l - 1) (map2 (\<noteq>) l r), pn_generate = butlast (map2 (\<and>) l r)\<rparr>"

lemma prefix_inputs_from_bits_bool:
  assumes "length l = length r" and "2 \<le> length l"
  shows "prefix_inputs_from_bits bool_ops () l r =
    (Inr (map2 (\<noteq>) l r, operand_net l r), ())"
proof -
  from assms have "l \<noteq> []" by auto
  then show ?thesis using assms
    by (simp add: prefix_inputs_from_bits_def prefix_inputs_loop_bool prefix_network_def operand_net_def)
qed

text \<open>The operand bits of an addition or subtraction.\<close>

definition left_bits :: "bool operand \<Rightarrow> WordType \<Rightarrow> bool list"
  where "left_bits a ty = extend_bool a (ty_width ty) (ty_signed ty)"

definition right_bits :: "bool operand \<Rightarrow> bool \<Rightarrow> WordType \<Rightarrow> bool list"
  where "right_bits b sub ty = map (\<lambda>x. x \<noteq> sub) (extend_bool b (ty_width ty) (ty_signed ty))"

lemma length_left_right [simp]:
  "length (left_bits a ty) = ty_width ty" "length (right_bits b sub ty) = ty_width ty"
  by (simp_all add: left_bits_def right_bits_def)

lemma extend_operand_pairs:
  assumes "fst a \<noteq> []" and "fst b \<noteq> []"
  shows "add_sub_operands bool_ops () a b sub ty =
    (Inr (zip (left_bits a ty) (right_bits b sub ty)), ())"
proof -
  have r: "resized_bit bool_ops () x i se = (Inr (extend_bool x n se ! i), ())" if "fst x \<noteq> []" "i < n" for x i n se
    using that by (auto simp: resized_bit_def vget_def extend_bool_def last_conv_nth split: prod.splits)
  have "add_sub_operands bool_ops () a b sub ty =
      (Inr (map (\<lambda>i. (extend_bool a (ty_width ty) (ty_signed ty) ! i,
        extend_bool b (ty_width ty) (ty_signed ty) ! i \<noteq> sub)) [0..<ty_width ty]), ())"
    unfolding add_sub_operands_def
    by (rule smapM_bool) (use assms in \<open>auto simp: r [of a _ "ty_width ty"] r [of b _ "ty_width ty"]\<close>)
  also have "map (\<lambda>i. (extend_bool a (ty_width ty) (ty_signed ty) ! i,
        extend_bool b (ty_width ty) (ty_signed ty) ! i \<noteq> sub)) [0..<ty_width ty] =
      zip (extend_bool a (ty_width ty) (ty_signed ty)) (map (\<lambda>x. x \<noteq> sub) (extend_bool b (ty_width ty) (ty_signed ty)))"
    by (rule nth_equalityI) auto
  finally show ?thesis by (simp add: left_bits_def right_bits_def)
qed

text \<open>A network built from the operand bits starts with every position covering itself.\<close>

lemma operand_net_init:
  assumes "length l = length r"
  shows "net_len (operand_net l r) (length l - 1)"
    and "\<forall>i < length l - 1. covers (\<lambda>i. l ! i \<and> r ! i) (\<lambda>i. l ! i \<noteq> r ! i) (operand_net l r) i 1"
    and "gp_of l r (length l - 1) (\<lambda>i. l ! i \<and> r ! i) (\<lambda>i. l ! i \<noteq> r ! i)"
  using assms by (auto simp: operand_net_def net_len_def covers_def gp_of_def nth_butlast)

definition whole_net :: "bool list \<Rightarrow> bool list \<Rightarrow> bool PrefixNetwork \<Rightarrow> bool"
  where "whole_net l r net \<longleftrightarrow> net_len net (length l - 1) \<and>
    (\<forall>i < length l - 1. \<forall>c. carry_into l r c (Suc i) = (pn_generate net ! i \<or> (pn_propagate net ! i \<and> c)))"

lemma whole_netI:
  assumes "net_len net (length l - 1)" and "gp_of l r (length l - 1) g p"
    and "\<forall>i < length l - 1. covers g p net i (i + 1)"
  shows "whole_net l r net"
  using assms covers_whole [OF assms(2)] by (simp add: whole_net_def del: carry_into.simps)

lemma whole_netD:
  assumes "whole_net l r net" and "i \<in> set [1..<length l]"
  shows "carry_into l r c i = (pn_generate net ! (i - 1) \<or> (pn_propagate net ! (i - 1) \<and> c))"
    and "i - 1 < length (pn_generate net)" and "i - 1 < length (pn_propagate net)"
proof -
  have "i = Suc (i - 1)" "i - 1 < length l - 1" using assms(2) by auto
  then obtain j where j: "i = Suc j" "j < length l - 1" by blast
  show "carry_into l r c i = (pn_generate net ! (i - 1) \<or> (pn_propagate net ! (i - 1) \<and> c))"
    using assms(1) j unfolding whole_net_def by (metis diff_Suc_1)
  show "i - 1 < length (pn_generate net)" "i - 1 < length (pn_propagate net)"
    using assms(1) j by (simp_all add: whole_net_def net_len_def)
qed

lemma prefix_networks_whole:
  assumes "length l = length r" and "length l \<le> 2 ^ 63"
  shows "\<exists>net. kogge_stone_prefix bool_ops () (operand_net l r) = (Inr net, ()) \<and> whole_net l r net"
    and "\<exists>net. brent_kung_prefix bool_ops () (operand_net l r) = (Inr net, ()) \<and> whole_net l r net"
proof -
  have n: "length l - 1 \<le> 2 ^ 63" using assms(2) by simp
  note init = operand_net_init [OF assms(1)]
  show "\<exists>net. kogge_stone_prefix bool_ops () (operand_net l r) = (Inr net, ()) \<and> whole_net l r net"
    using kogge_stone_prefix_bool [OF init(1,2) n] whole_netI [OF _ init(3)] by blast
  show "\<exists>net. brent_kung_prefix bool_ops () (operand_net l r) = (Inr net, ()) \<and> whole_net l r net"
    using brent_kung_prefix_bool [OF init(1,2) n] whole_netI [OF _ init(3)] by blast
qed

lemma sum_bits_eq_map:
  assumes "l \<noteq> []"
  shows "sum_bits l r c = ((l ! 0 \<noteq> r ! 0) \<noteq> c) # map (\<lambda>i. (l ! i \<noteq> r ! i) \<noteq> carry_into l r c i) [1..<length l]"
  using assms by (simp add: sum_bits_def upt_conv_Cons)

lemma prefix_adder_sum_bool:
  assumes "length l = length r" and "l \<noteq> []" and "whole_net l r net"
  shows "prefix_adder_sum bool_ops () (map2 (\<noteq>) l r) net sub = (Inr (sum_bits l r sub), ())"
proof -
  have c: "carry_into l r sub i = (pn_generate net ! (i - Suc 0) \<or> (pn_propagate net ! (i - Suc 0) \<and> sub))"
    "i - Suc 0 < length (pn_generate net)" "i - Suc 0 < length (pn_propagate net)"
    if "Suc 0 \<le> i" "i < length r" for i
    using whole_netD [OF assms(3), of i] that assms(1) by simp_all
  have "smapM (\<lambda>index s.
      sbind (vget (map2 (\<noteq>) l r) index s) (\<lambda>propagate_bit s.
      sbind (vget (pn_generate net) (index - 1) s) (\<lambda>generate s.
      sbind (if sub
             then sbind (vget (pn_propagate net) (index - 1) s) (\<lambda>p s. emit_binary bool_ops s BitOr generate p)
             else (Inr generate, s)) (\<lambda>carry s.
        emit_binary bool_ops s BitXor propagate_bit carry)))) [1..<length (map2 (\<noteq>) l r)] () =
      (Inr (map (\<lambda>i. (l ! i \<noteq> r ! i) \<noteq> carry_into l r sub i) [1..<length (map2 (\<noteq>) l r)]), ())"
    by (rule smapM_bool) (use assms(1) in \<open>simp add: vget_def c\<close>)
  then show ?thesis
    using assms(1,2) by (auto simp: prefix_adder_sum_def vget_def sum_bits_eq_map)
qed

lemma prefix_adder_sum_with_carry_bool:
  assumes "length l = length r" and "l \<noteq> []" and "whole_net l r net"
  shows "prefix_adder_sum_with_carry bool_ops () (map2 (\<noteq>) l r) net c = (Inr (sum_bits l r c), ())"
proof -
  have ci: "carry_into l r c i = (pn_generate net ! (i - Suc 0) \<or> (pn_propagate net ! (i - Suc 0) \<and> c))"
    "i - Suc 0 < length (pn_generate net)" "i - Suc 0 < length (pn_propagate net)"
    if "Suc 0 \<le> i" "i < length r" for i
    using whole_netD [OF assms(3), of i] that assms(1) by simp_all
  have "smapM (\<lambda>index s.
      sbind (vget (map2 (\<noteq>) l r) index s) (\<lambda>propagate_bit s.
      sbind (vget (pn_propagate net) (index - 1) s) (\<lambda>p s.
      sbind (emit_binary bool_ops s BitAnd p c) (\<lambda>propagated_carry s.
      sbind (vget (pn_generate net) (index - 1) s) (\<lambda>generate s.
      sbind (emit_binary bool_ops s BitOr generate propagated_carry) (\<lambda>carry s.
        emit_binary bool_ops s BitXor propagate_bit carry)))))) [1..<length (map2 (\<noteq>) l r)] () =
      (Inr (map (\<lambda>i. (l ! i \<noteq> r ! i) \<noteq> carry_into l r c i) [1..<length (map2 (\<noteq>) l r)]), ())"
    by (rule smapM_bool) (use assms(1) in \<open>simp add: vget_def ci\<close>)
  moreover obtain x xs y ys where lr: "l = x # xs" "r = y # ys" "length ys = length xs"
    using assms(1,2) by (cases l; cases r) auto
  ultimately show ?thesis
    unfolding lr(1,2) by (simp add: prefix_adder_sum_with_carry_def sum_bits_eq_map lr(3) del: upt_Suc)
qed

text \<open>Seeding folds the incoming carry into the first generate term.\<close>

definition seeded :: "bool \<Rightarrow> bool PrefixNetwork \<Rightarrow> bool PrefixNetwork"
  where "seeded c net = net\<lparr>pn_generate := (pn_generate net)[0 := (pn_generate net ! 0 \<or> (pn_propagate net ! 0 \<and> c))]\<rparr>"

lemma seed_prefix_carry_bool:
  assumes "net_len net n" and "0 < n"
  shows "seed_prefix_carry bool_ops () net c = (Inr (seeded c net), ())"
  using assms by (simp add: seed_prefix_carry_def seeded_def net_len_def vget_def vset_def)

lemma seeded_group:
  assumes "i < n"
  shows "grp_g (\<lambda>i. if i = 0 then (l ! 0 \<and> r ! 0) \<or> ((l ! 0 \<noteq> r ! 0) \<and> c) else l ! i \<and> r ! i)
    (\<lambda>i. l ! i \<noteq> r ! i) 0 i = carry_into l r c (Suc i)"
  by (induction i) auto

lemma seeded_networks:
  assumes "length l = length r" and "2 \<le> length l" and "length l \<le> 2 ^ 63"
  shows "\<exists>net. kogge_stone_prefix bool_ops () (seeded c (operand_net l r)) = (Inr net, ()) \<and>
      net_len net (length l - 1) \<and> (\<forall>i < length l - 1. pn_generate net ! i = carry_into l r c (Suc i))"
    and "\<exists>net. brent_kung_prefix bool_ops () (seeded c (operand_net l r)) = (Inr net, ()) \<and>
      net_len net (length l - 1) \<and> (\<forall>i < length l - 1. pn_generate net ! i = carry_into l r c (Suc i))"
proof -
  let ?g = "\<lambda>i. if i = 0 then (l ! 0 \<and> r ! 0) \<or> ((l ! 0 \<noteq> r ! 0) \<and> c) else l ! i \<and> r ! i"
  let ?p = "\<lambda>i. l ! i \<noteq> r ! i"
  let ?net = "seeded c (operand_net l r)"
  have n: "length l - 1 \<le> 2 ^ 63" using assms(3) by simp
  have len: "net_len ?net (length l - 1)"
    using operand_net_init(1) [OF assms(1)] by (simp add: seeded_def net_len_def)
  have "0 < length r" "Suc 0 < length r" using assms by linarith+
  then have init: "\<forall>i < length l - 1. covers ?g ?p ?net i 1"
    using assms(1) by (auto simp: covers_def seeded_def operand_net_def nth_butlast nth_list_update)
  have fin: "pn_generate net ! i = carry_into l r c (Suc i)" if "covers ?g ?p net i (i + 1)" for net i
    using that seeded_group [of i "Suc i" l r c] by (simp add: covers_def)
  show "\<exists>net. kogge_stone_prefix bool_ops () ?net = (Inr net, ()) \<and> net_len net (length l - 1) \<and>
      (\<forall>i < length l - 1. pn_generate net ! i = carry_into l r c (Suc i))"
    using kogge_stone_prefix_bool [OF len init n] fin by blast
  show "\<exists>net. brent_kung_prefix bool_ops () ?net = (Inr net, ()) \<and> net_len net (length l - 1) \<and>
      (\<forall>i < length l - 1. pn_generate net ! i = carry_into l r c (Suc i))"
    using brent_kung_prefix_bool [OF len init n] fin by blast
qed

lemma seeded_prefix_sum_bool:
  assumes "length l = length r" and "net_len net (length l - 1)"
    and "\<forall>i < length l - 1. pn_generate net ! i = carry_into l r c (Suc i)"
  shows "seeded_prefix_sum bool_ops () (map2 (\<noteq>) l r) net c = (Inr (sum_bits l r c), ())"
proof -
  have "smapM (\<lambda>index s.
      sbind (vget (map2 (\<noteq>) l r) index s) (\<lambda>p s.
      sbind (if index = 0 then (Inr c, s) else vget (pn_generate net) (index - 1) s) (\<lambda>carry s.
        emit_binary bool_ops s BitXor p carry))) [0..<length l] () =
      (Inr (map (\<lambda>i. (l ! i \<noteq> r ! i) \<noteq> carry_into l r c i) [0..<length l]), ())"
  proof (rule smapM_bool)
    fix i assume "i \<in> set [0..<length l]"
    then have i: "i < length l" by simp
    have "pn_generate net ! (i - 1) = carry_into l r c i \<and> i - 1 < length (pn_generate net)" if "i \<noteq> 0"
    proof -
      from that obtain j where "i = Suc j" by (cases i) auto
      with i assms(2,3) show ?thesis by (auto simp: net_len_def simp del: carry_into.simps)
    qed
    then show "sbind (vget (map2 (\<noteq>) l r) i ()) (\<lambda>p s.
      sbind (if i = 0 then (Inr c, s) else vget (pn_generate net) (i - 1) s) (\<lambda>carry s.
        emit_binary bool_ops s BitXor p carry)) = (Inr ((l ! i \<noteq> r ! i) \<noteq> carry_into l r c i), ())"
      using i assms(1) by (cases "i = 0") (auto simp: vget_def)
  qed
  then show ?thesis using assms(1) by (simp add: seeded_prefix_sum_def sum_bits_def)
qed

section \<open>Every adder computes the sum\<close>

lemma kogge_stone_add_vectors_bool:
  assumes "length l = length r" and "l \<noteq> []" and "length l \<le> 2 ^ 63"
  shows "kogge_stone_add_vectors bool_ops () l r c = (Inr (sum_bits l r c), ())"
proof (cases "length l < 2")
  case True
  then show ?thesis using assms by (simp add: kogge_stone_add_vectors_def add_vectors_bool)
next
  case False
  then have two: "2 \<le> length l" by simp
  obtain net where net: "kogge_stone_prefix bool_ops () (seeded c (operand_net l r)) = (Inr net, ())"
    "net_len net (length l - 1)" "\<forall>i < length l - 1. pn_generate net ! i = carry_into l r c (Suc i)"
    using seeded_networks(1) [OF assms(1) two assms(3)] by blast
  have "0 < length l - 1" using two by simp
  from seed_prefix_carry_bool [OF operand_net_init(1) [OF assms(1)] this] net(1) show ?thesis
    using False seeded_prefix_sum_bool [OF assms(1) net(2,3)]
    by (simp add: kogge_stone_add_vectors_def prefix_inputs_from_bits_bool [OF assms(1) two])
qed

lemma brent_kung_add_vectors_bool:
  assumes "length l = length r" and "l \<noteq> []" and "length l \<le> 2 ^ 63"
  shows "brent_kung_add_vectors bool_ops () l r c = (Inr (sum_bits l r c), ())"
proof (cases "length l < 2")
  case True
  then show ?thesis using assms by (simp add: brent_kung_add_vectors_def add_vectors_bool)
next
  case False
  then have two: "2 \<le> length l" by simp
  obtain net where net: "brent_kung_prefix bool_ops () (seeded c (operand_net l r)) = (Inr net, ())"
    "net_len net (length l - 1)" "\<forall>i < length l - 1. pn_generate net ! i = carry_into l r c (Suc i)"
    using seeded_networks(2) [OF assms(1) two assms(3)] by blast
  have "0 < length l - 1" using two by simp
  from seed_prefix_carry_bool [OF operand_net_init(1) [OF assms(1)] this] net(1) show ?thesis
    using False seeded_prefix_sum_bool [OF assms(1) net(2,3)]
    by (simp add: brent_kung_add_vectors_def prefix_inputs_from_bits_bool [OF assms(1) two])
qed

text \<open>The number the sum of the operand bits denotes.\<close>

definition add_sub_val :: "bool operand \<Rightarrow> bool operand \<Rightarrow> bool \<Rightarrow> WordType \<Rightarrow> int"
  where "add_sub_val a b sub ty =
    (if sub then operand_val a (ty_signed ty) - operand_val b (ty_signed ty)
     else operand_val a (ty_signed ty) + operand_val b (ty_signed ty)) mod 2 ^ ty_width ty"

lemma bits_val_not_int: "int (bits_val (map (\<lambda>x. \<not> x) bs)) = 2 ^ length bs - 1 - int (bits_val bs)"
  using arg_cong [OF bits_val_not [of bs], of int] by simp

lemma add_sub_sum_val:
  assumes "fst a \<noteq> []" and "fst b \<noteq> []"
  shows "int (bits_val (sum_bits (left_bits a ty) (right_bits b sub ty) sub)) = add_sub_val a b sub ty"
proof -
  let ?m = "2 ^ ty_width ty :: int" and ?se = "ty_signed ty"
  let ?b = "extend_bool b (ty_width ty) ?se"
  have b: "int (bits_val ?b) = operand_val b ?se mod ?m" by (rule extend_bool_val [OF assms(2)])
  have a: "int (bits_val (left_bits a ty)) = operand_val a ?se mod ?m"
    unfolding left_bits_def by (rule extend_bool_val [OF assms(1)])
  have s: "int (bits_val (sum_bits (left_bits a ty) (right_bits b sub ty) sub)) =
      (int (bits_val (left_bits a ty)) + int (bits_val (right_bits b sub ty)) + of_bool sub) mod ?m"
    by (simp add: sum_bits_val zmod_int)
  show ?thesis
  proof (cases sub)
    case False
    then have "right_bits b sub ty = ?b" by (simp add: right_bits_def)
    with s a b False show ?thesis by (simp add: add_sub_val_def mod_add_eq)
  next
    case True
    then have "right_bits b sub ty = map (\<lambda>x. \<not> x) ?b" by (simp add: right_bits_def)
    then have "int (bits_val (right_bits b sub ty)) = ?m - 1 - operand_val b ?se mod ?m"
      using bits_val_not_int [of ?b] b by simp
    then have "int (bits_val (left_bits a ty)) + int (bits_val (right_bits b sub ty)) + of_bool sub =
        operand_val a ?se mod ?m - operand_val b ?se mod ?m + ?m" using a True by simp
    with s have "int (bits_val (sum_bits (left_bits a ty) (right_bits b sub ty) sub)) =
        (operand_val a ?se mod ?m - operand_val b ?se mod ?m + ?m) mod ?m" by (simp only:)
    also have "\<dots> = (operand_val a ?se mod ?m - operand_val b ?se mod ?m) mod ?m" by simp
    also have "\<dots> = (operand_val a ?se - operand_val b ?se) mod ?m" by (rule mod_diff_eq)
    finally show ?thesis using True by (simp add: add_sub_val_def)
  qed
qed

lemma ripple_add_sub_bits_bool:
  assumes "fst a \<noteq> []" and "fst b \<noteq> []" and "0 < ty_width ty"
  shows "ripple_add_sub_bits bool_ops () a b sub ty = (Inr (sum_bits (left_bits a ty) (right_bits b sub ty) sub), ())"
proof -
  have "left_bits a ty \<noteq> []" using assms(3) by (simp flip: length_greater_0_conv)
  then show ?thesis
    unfolding ripple_add_sub_bits_def extend_operand_pairs [OF assms(1,2)]
    by (simp add: add_vectors_bool)
qed

lemma prefix_adder_loop_bool:
  assumes "fst a \<noteq> []" and "fst b \<noteq> []" and "\<forall>i \<in> set is. i < ty_width ty"
  shows "prefix_adder_loop bool_ops () a b sub ty is =
    (Inr (map (\<lambda>i. left_bits a ty ! i \<noteq> right_bits b sub ty ! i) is,
      map (\<lambda>i. left_bits a ty ! i \<and> right_bits b sub ty ! i) (filter (\<lambda>i. i + 1 \<noteq> ty_width ty) is)), ())"
proof -
  have r: "resized_bit bool_ops () x i se = (Inr (extend_bool x n se ! i), ())" if "fst x \<noteq> []" "i < n" for x i n se
    using that by (auto simp: resized_bit_def vget_def extend_bool_def last_conv_nth split: prod.splits)
  show ?thesis
    using assms(3)
    by (induction "is")
      (auto simp: r [OF assms(1), of _ "ty_width ty"] r [OF assms(2), of _ "ty_width ty"] left_bits_def right_bits_def)
qed

lemma prefix_adder_inputs_bool:
  assumes "fst a \<noteq> []" and "fst b \<noteq> []" and "0 < ty_width ty"
  shows "prefix_adder_inputs bool_ops () a b sub ty =
    (Inr (map2 (\<noteq>) (left_bits a ty) (right_bits b sub ty), operand_net (left_bits a ty) (right_bits b sub ty)), ())"
proof -
  let ?l = "left_bits a ty" and ?r = "right_bits b sub ty" and ?w = "ty_width ty"
  obtain w where w: "?w = Suc w" using assms(3) by (cases ?w) auto
  have f: "filter (\<lambda>i. i + 1 \<noteq> ?w) [0..<?w] = [0..<w]" by (auto simp: w)
  have p: "map (\<lambda>i. ?l ! i \<noteq> ?r ! i) [0..<?w] = map2 (\<noteq>) ?l ?r" by (rule nth_equalityI) auto
  have g: "map (\<lambda>i. ?l ! i \<and> ?r ! i) [0..<w] = butlast (map2 (\<and>) ?l ?r)"
    by (rule nth_equalityI) (auto simp: w nth_butlast)
  have "prefix_adder_loop bool_ops () a b sub ty [0..<?w] =
      (Inr (map2 (\<noteq>) ?l ?r, butlast (map2 (\<and>) ?l ?r)), ())"
    using prefix_adder_loop_bool [OF assms(1,2), of "[0..<?w]" ty sub] unfolding f p g by simp
  then show ?thesis by (simp add: prefix_adder_inputs_def prefix_network_def operand_net_def)
qed

lemma prefix_add_sub_bits_bool:
  assumes "fst a \<noteq> []" and "fst b \<noteq> []" and "0 < ty_width ty" and "ty_width ty \<le> 2 ^ 63"
  shows "kogge_stone_add_sub_bits bool_ops () a b sub ty = (Inr (sum_bits (left_bits a ty) (right_bits b sub ty) sub), ())"
    and "brent_kung_add_sub_bits bool_ops () a b sub ty = (Inr (sum_bits (left_bits a ty) (right_bits b sub ty) sub), ())"
proof -
  let ?l = "left_bits a ty" and ?r = "right_bits b sub ty"
  have len: "length ?l = length ?r" "length ?l \<le> 2 ^ 63" "?l \<noteq> []"
    using assms(3,4) by (simp_all flip: length_greater_0_conv)
  obtain k where "kogge_stone_prefix bool_ops () (operand_net ?l ?r) = (Inr k, ())" "whole_net ?l ?r k"
    using prefix_networks_whole(1) [OF len(1,2)] by blast
  then show "kogge_stone_add_sub_bits bool_ops () a b sub ty = (Inr (sum_bits ?l ?r sub), ())"
    using prefix_adder_sum_bool [OF len(1,3)]
    by (simp add: kogge_stone_add_sub_bits_def prefix_adder_inputs_bool [OF assms(1-3)])
  obtain k where "brent_kung_prefix bool_ops () (operand_net ?l ?r) = (Inr k, ())" "whole_net ?l ?r k"
    using prefix_networks_whole(2) [OF len(1,2)] by blast
  then show "brent_kung_add_sub_bits bool_ops () a b sub ty = (Inr (sum_bits ?l ?r sub), ())"
    using prefix_adder_sum_bool [OF len(1,3)]
    by (simp add: brent_kung_add_sub_bits_def prefix_adder_inputs_bool [OF assms(1-3)])
qed


lemma sum_bits_append:
  assumes "length l = length r"
  shows "sum_bits (l @ l') (r @ r') c = sum_bits l r c @ sum_bits l' r' (carry_into l r c (length l))"
  using assms by (induction l r arbitrary: c rule: list_induct2) (auto simp: sum_bits_Cons carry_into_Cons simp del: carry_into.simps(2))

lemma hybrid_add_sub_bits_bool:
  assumes "fst a \<noteq> []" and "fst b \<noteq> []" and "3 \<le> ty_width ty" and "ty_width ty \<le> 2 ^ 63"
  shows "hybrid_brent_kung_add_sub_bits bool_ops () a b sub ty n =
    (Inr (sum_bits (left_bits a ty) (right_bits b sub ty) sub), ())"
proof -
  let ?l = "left_bits a ty" and ?r = "right_bits b sub ty"
  define k where "k = min (max n 2) (ty_width ty - 2)"
  have k: "0 < k" "k + 2 \<le> ty_width ty" using assms(3) by (auto simp: k_def)
  let ?c = "carry_into (take k ?l) (take k ?r) sub k"
  have t: "length (take k ?l) = length (take k ?r)" "take k ?l \<noteq> []" "length (take k ?l) = k"
    using k by (auto simp flip: length_greater_0_conv)
  have d: "length (drop k ?l) = length (drop k ?r)" "2 \<le> length (drop k ?l)" "length (drop k ?l) \<le> 2 ^ 63" "drop k ?l \<noteq> []"
    using k assms(4) by (auto simp flip: length_greater_0_conv)
  obtain net where net: "brent_kung_prefix bool_ops () (operand_net (drop k ?l) (drop k ?r)) = (Inr net, ())"
    "whole_net (drop k ?l) (drop k ?r) net" using prefix_networks_whole(2) [OF d(1,3)] by blast
  have "sum_bits ?l ?r sub = sum_bits (take k ?l) (take k ?r) sub @ sum_bits (drop k ?l) (drop k ?r) ?c"
    using sum_bits_append [OF t(1), of "drop k ?l" "drop k ?r" sub] t(3) by simp
  then show ?thesis
    using k(2) t(3) prefix_adder_sum_with_carry_bool [OF d(1,4) net(2), of ?c]
    by (simp add: hybrid_brent_kung_add_sub_bits_def extend_operand_pairs [OF assms(1,2)] flip: k_def)
      (simp add: add_vectors_with_carry_bool [OF t(1,2)] prefix_inputs_from_bits_bool [OF d(1,2)] net(1))
qed

section \<open>Adding a constant\<close>

lemma ripple_constant_loop_bool:
  assumes "length l = length r"
  shows "ripple_constant_loop bool_ops () l r c = (Inr (sum_bits l r c), ())"
  using assms
proof (induction l r arbitrary: c rule: list_induct2)
  case (Cons x l y r)
  have "((x \<and> y) \<or> ((x \<noteq> y) \<and> c)) = (if y then x \<or> c else x \<and> c)" by auto
  then show ?case using Cons.IH by (auto simp: sum_bits_Cons)
qed simp

lemma constant_prefix_init:
  assumes "length l = length r"
  defines "net \<equiv> constant_prefix False True (take (length l - 1) (zip l r))"
  shows "net_len net (length l - 1)"
    and "\<forall>i < length l - 1. covers (\<lambda>i. l ! i \<and> r ! i) (\<lambda>i. l ! i \<or> r ! i) net i 1"
    and "gp_of l r (length l - 1) (\<lambda>i. l ! i \<and> r ! i) (\<lambda>i. l ! i \<or> r ! i)"
  using assms(1) by (auto simp: net_def constant_prefix_def net_len_def covers_def gp_of_def)

lemma constant_network_whole:
  assumes "length l = length r" and "length l \<le> 2 ^ 63"
  defines "net \<equiv> constant_prefix False True (take (length l - 1) (zip l r))"
  shows "\<exists>net'. (if pn_generate net \<noteq> [] then brent_kung_prefix bool_ops () net else (Inr net, ())) = (Inr net', ()) \<and>
    whole_net l r net'"
proof -
  note init = constant_prefix_init [OF assms(1), folded net_def]
  have n: "length l - 1 \<le> 2 ^ 63" using assms(2) by simp
  show ?thesis
  proof (cases "pn_generate net = []")
    case True
    then have "length l - 1 = 0" using init(1) by (simp add: net_len_def)
    then have "whole_net l r net" using init(1) unfolding whole_net_def by presburger
    with True show ?thesis by simp
  next
    case False
    then show ?thesis using brent_kung_prefix_bool [OF init(1,2) n] whole_netI [OF _ init(3)] by auto
  qed
qed

lemma prefix_constant_bit_bool:
  assumes "length l = length r" and "whole_net l r net" and "i < length l"
  shows "prefix_constant_bit bool_ops () c False True net (i, l ! i, r ! i) =
    (Inr ((l ! i \<noteq> r ! i) \<noteq> carry_into l r c i), ())"
proof (cases "i = 0")
  case True
  then show ?thesis by (auto simp: prefix_constant_bit_def)
next
  case False
  then have i: "i \<in> set [1..<length l]" using assms(3) by simp
  note D = whole_netD [OF assms(2) i]
  show ?thesis using False D(2,3)
    by (cases "r ! i") (auto simp: prefix_constant_bit_def vget_def D(1) simp del: carry_into.simps)
qed

lemma add_constant_bool:
  assumes "length l = length r" and "length l \<le> 2 ^ 63"
  shows "ripple_add_constant bool_ops () l r c ty = (Inr (sum_bits l r c), ())"
    and "prefix_add_constant bool_ops () l r c ty = (Inr (sum_bits l r c), ())"
proof -
  show "ripple_add_constant bool_ops () l r c ty = (Inr (sum_bits l r c), ())"
    by (simp add: ripple_add_constant_def ripple_constant_loop_bool [OF assms(1)])
  let ?net = "constant_prefix False True (take (length l - 1) (zip l r))"
  obtain net where net: "(if pn_generate ?net \<noteq> [] then brent_kung_prefix bool_ops () ?net else (Inr ?net, ())) = (Inr net, ())"
    "whole_net l r net" using constant_network_whole [OF assms] by blast
  have "smapM (\<lambda>entry s. prefix_constant_bit bool_ops s c False True net entry) (enumerate 0 (zip l r)) () =
      (Inr (map (\<lambda>(i, _). (l ! i \<noteq> r ! i) \<noteq> carry_into l r c i) (enumerate 0 (zip l r))), ())"
  proof (rule smapM_bool)
    fix x assume x: "x \<in> set (enumerate 0 (zip l r))"
    then have "snd x = (l ! fst x, r ! fst x)" "fst x < length l"
      using assms(1) by (auto simp: in_set_enumerate_eq)
    then obtain i where "x = (i, l ! i, r ! i)" "i < length l" by (metis prod.collapse)
    then show "prefix_constant_bit bool_ops () c False True net x =
        (Inr (case x of (i, _) \<Rightarrow> (l ! i \<noteq> r ! i) \<noteq> carry_into l r c i), ())"
      using prefix_constant_bit_bool [OF assms(1) net(2)] by simp
  qed
  also have "map (\<lambda>(i, _). (l ! i \<noteq> r ! i) \<noteq> carry_into l r c i) (enumerate 0 (zip l r)) = sum_bits l r c"
    using assms(1) by (intro nth_equalityI) (auto simp: sum_bits_def nth_enumerate_eq)
  finally show "prefix_add_constant bool_ops () l r c ty = (Inr (sum_bits l r c), ())"
    unfolding prefix_add_constant_def Let_def bool_emit sbind_simps simp_thms(6) BitVal.simps eq_False net(1)
    by (simp only: net(1) sbind_simps BitVal.simps eq_False)
qed

lemma sum_bits_commute:
  assumes "length l = length r"
  shows "sum_bits r l c = sum_bits l r c"
proof -
  have "carry_into r l c i = carry_into l r c i" for i by (induction i) auto
  then show ?thesis using assms by (auto simp: sum_bits_def)
qed

context bit_emitter
begin

text \<open>The constant adders read an operand whose bits the backend knows.\<close>

definition all_known :: "'s \<Rightarrow> 'a list \<Rightarrow> bool"
  where "all_known s xs \<longleftrightarrow> (\<forall>x \<in> set xs. b_known em s x \<noteq> None)"

lemma bool_vector_law:
  assumes "good s" and "dens s xs vs"
  shows "bool_vector em s xs = (if all_known s xs then Some vs else None)"
  using assms(2)
proof (induction xs vs rule: list_all2_induct)
  case Nil
  then show ?case by (simp add: bool_vector_def all_known_def)
next
  case (Cons x xs v vs)
  then show ?case
    using known_law [OF assms(1) Cons.hyps(1)]
    by (cases "b_known em s x") (auto simp: bool_vector_def all_known_def)
qed

lemma all_known_mono:
  assumes "good s" and "le s s'" and "dens s xs vs" and "all_known s xs"
  shows "all_known s' xs"
  using assms(3,4) known_mono [OF assms(1,2)]
  by (induction xs vs rule: list_all2_induct) (auto simp: all_known_def)

lemma resized_bit_known:
  assumes "good s" and "opds s a va" and "all_known s (fst a)" and "fst a \<noteq> []"
    and "resized_bit em s a i se = (Inr x, s')"
  shows "b_known em s' x \<noteq> None"
  using assms(3-5) constant_known [OF assms(1), of BitZero]
  by (cases a) (auto simp: all_known_def resized_bit_def vget_def emit_constant_def split: if_splits)

lemma sim_resized_bits_known:
  assumes "good s" and "opds s a va" and "fst a \<noteq> []"
  shows "sim s (resized_bits em s a n se) (resized_bits bool_ops () va n se)
    (\<lambda>s' xs vs. dens s' xs vs \<and> (all_known s (fst a) \<longrightarrow> all_known s' xs))"
proof -
  let ?R = "\<lambda>s' x v. den s' x v \<and> (all_known s (fst a) \<longrightarrow> b_known em s' x \<noteq> None)"
  have keep: "keeps ?R"
    using den_mono known_mono unfolding keeps_def by blast
  have "sim s (resized_bits em s a n se) (resized_bits bool_ops () va n se) (\<lambda>s. list_all2 (?R s))"
    unfolding resized_bits_def
  proof (rule sim_mapM_same [OF assms(1) keep])
    fix s' i assume s': "good s'" "le s s'"
    then have o: "opds s' a va" using assms(1,2) dens_mono by blast
    have k: "all_known s' (fst a)" if "all_known s (fst a)"
      using all_known_mono [OF assms(1) s'(2) _ that] assms(2) by blast
    show "sim s' (resized_bit em s' a i se) (resized_bit bool_ops () va i se) ?R"
      using sim_resized_bit [OF s'(1) o, of i se] resized_bit_known [OF s'(1) o k assms(3)]
      by (cases "resized_bit em s' a i se") (auto simp: sim_def split: sum.splits)
  qed
  then show ?thesis
    by (rule sim_weaken) (auto simp: all_known_def list_all2_conv_all_nth in_set_conv_nth)
qed

lemma sim_add_constant:
  assumes "good s" and "dens s xs vs" and "length ks = length vs" and "length vs \<le> 2 ^ 63"
  shows "sim s (add_constant_bits em prefix ty xs ks c s) (Inr (sum_bits vs ks c), ()) dens"
  using sim_prefix_add_constant [OF assms(1,2), of ks c ty] sim_ripple_add_constant [OF assms(1,2), of ks c ty]
    add_constant_bool [OF assms(3) [symmetric] assms(4)]
  by (simp add: add_constant_bits_def)

lemma sim_not_bits:
  assumes "good s" and "dens s xs vs"
  shows "sim s (smapM (\<lambda>x s. emit_unary em s BitNot x) xs s) (Inr (map Not vs), ()) dens"
proof -
  have "smapM (\<lambda>x s. emit_unary bool_ops s BitNot x) vs () = (Inr (map Not vs), ())"
    by (rule smapM_bool) simp
  moreover have "sim s (smapM (\<lambda>x s. emit_unary em s BitNot x) xs s)
      (smapM (\<lambda>x s. emit_unary bool_ops s BitNot x) vs ()) dens"
    by (rule sim_mapM [OF assms keeps_den keeps_den]) (rule sim_unary)
  ultimately show ?thesis by simp
qed

lemma sim_constant_add_choice:
  assumes "good s" and "dens s ls vl" and "dens s rs vr" and "all_known s ls \<or> all_known s rs"
    and "length vl = length vr" and "length vr \<le> 2 ^ 63"
  shows "sim s (constant_add_choice em s ls rs sub prefix ty)
    (Inr (sum_bits vl (if sub then map Not vr else vr) sub), ()) dens"
proof -
  note add = sim_add_constant [where prefix = prefix and ty = ty]
  have inv: "sim s (sbind (smapM (\<lambda>x s. emit_unary em s BitNot x) rs s) (\<lambda>inverted_bits s.
        add_constant_bits em prefix ty inverted_bits vl True s))
      (Inr (sum_bits (map Not vr) vl True), ()) dens"
    by (rule sim_then [OF sim_not_bits [OF assms(1,3)] assms(1)], rule add) (use assms(5,6) in simp_all)
  show ?thesis
    using assms(4-6) add [OF assms(1,2), of vr] add [OF assms(1,3), of vl] add [OF assms(1,2), of "map Not vr"] inv
      sum_bits_commute [of vl vr] sum_bits_commute [of vl "map Not vr"]
    by (cases sub; cases "all_known s rs")
      (simp_all add: constant_add_choice_def bool_vector_law [OF assms(1,2)] bool_vector_law [OF assms(1,3)])
qed

lemma sim_constant_add_sub_bits:
  assumes "good s" and "opds s a va" and "opds s b vb" and "fst a \<noteq> []" and "fst b \<noteq> []"
    and "ty_width ty \<le> 2 ^ 63" and "all_known s (fst a) \<or> all_known s (fst b)"
  shows "sim s (constant_add_sub_bits em s a b sub prefix ty)
    (Inr (sum_bits (left_bits va ty) (right_bits vb sub ty) sub), ()) dens"
proof -
  let ?n = "ty_width ty" and ?se = "ty_signed ty"
  have va: "fst va \<noteq> []" "fst vb \<noteq> []" using assms(2-5) by auto
  have r: "right_bits vb sub ty = (if sub then map Not (extend_bool vb ?n ?se) else extend_bool vb ?n ?se)"
    by (cases sub) (auto simp: right_bits_def)
  have k: "all_known s' (fst b)" if "good s'" "le s s'" "all_known s (fst b)" for s'
    using all_known_mono [OF assms(1) that(2) _ that(3)] assms(3) by blast
  note ra = sim_resized_bits_known [OF _ _ assms(4), of _ va ?n ?se, unfolded resized_bits_bool [OF va(1)]]
    and rb = sim_resized_bits_known [OF _ _ assms(5), of _ vb ?n ?se, unfolded resized_bits_bool [OF va(2)]]
  show ?thesis
    unfolding constant_add_sub_bits_def r left_bits_def
  proof (rule sim_then [OF ra [OF assms(1,2)] assms(1)], rule sim_then [OF rb], goal_cases)
    case (4 s1 ls s2 rs)
    have "dens s2 ls (extend_bool va ?n ?se)" using 4(5,9) by blast
    moreover have "all_known s2 ls \<or> all_known s2 rs"
      using assms(7) 4(5,10) k [OF 4(1,2)] all_known_mono [OF 4(1,7)] by blast
    ultimately show ?case using 4(6,10) assms(6) by (intro sim_constant_add_choice) simp_all
  qed (use assms(3) in auto)
qed

end

end
