(* ===== verification/Operations.thy ===== *)
theory Operations
  imports Adders_Correct
begin

text \<open>
  Comparison, shifting and the structural word operations of the bit-blaster:
  \<^verbatim>\<open>arithmetic/compare.rs\<close>, \<^verbatim>\<open>arithmetic/shift.rs\<close> and \<^verbatim>\<open>operations.rs\<close> under
  \<^verbatim>\<open>crates/opto-synth/src/boolean/bitblast\<close>. As for the adders, the first part defines the
  algorithms over any backend, the second relates their runs to runs on Booleans, the third
  says what the Boolean runs compute.
\<close>

section \<open>Comparison\<close>

definition less_step :: "('s, 'a) bit_ops \<Rightarrow> 'a \<times> 'a \<Rightarrow> 'a \<Rightarrow> 's \<Rightarrow> ('s, SynthError, 'a) outcome"
  where "less_step em p is_less s =
    sbind (emit_binary em s BitXor (fst p) (snd p)) (\<lambda>differs s.
    sbind (emit_unary em s BitNot (fst p)) (\<lambda>not_left s.
      emit_mux em s differs not_left is_less))"

definition unsigned_less ::
  "('s, 'a) bit_ops \<Rightarrow> 's \<Rightarrow> 'a list \<Rightarrow> 'a list \<Rightarrow> ('s, SynthError, 'a) outcome"
  where "unsigned_less em s left right =
    (case zip left right of
       [] \<Rightarrow> (Inl (Invariant ''comparison inputs must be nonempty''), s)
     | (l, r) # bits \<Rightarrow>
         sbind (emit_unary em s BitNot l) (\<lambda>not_left s.
         sbind (emit_binary em s BitAnd not_left r) (\<lambda>is_less s.
           sfoldM (less_step em) bits is_less s)))"

text \<open>Both operands resized bit by bit in one loop.\<close>

definition resized_pairs ::
  "('s, 'a) bit_ops \<Rightarrow> 's \<Rightarrow> 'a operand \<Rightarrow> 'a operand \<Rightarrow> nat \<Rightarrow> bool \<Rightarrow> ('s, SynthError, ('a \<times> 'a) list) outcome"
  where "resized_pairs em s left right width sign_extend =
    smapM (\<lambda>index s.
      sbind (resized_bit em s left index sign_extend) (\<lambda>l s.
      sbind (resized_bit em s right index sign_extend) (\<lambda>r s. (Inr (l, r), s)))) [0..<width] s"

fun compare_order :: "BinaryOp \<Rightarrow> (bool \<times> bool) option"
  where
    "compare_order Lt = Some (False, False)"
  | "compare_order Le = Some (True, True)"
  | "compare_order Gt = Some (True, False)"
  | "compare_order Ge = Some (False, True)"
  | "compare_order _ = None"

definition compare_bits ::
  "('s, 'a) bit_ops \<Rightarrow> 's \<Rightarrow> BinaryOp \<Rightarrow> 'a operand \<Rightarrow> 'a operand \<Rightarrow> ('s, SynthError, 'a list) outcome"
  where "compare_bits em s op left right =
    (let width = max (ty_width (snd left)) (ty_width (snd right));
         sign_extend = (ty_signed (snd left) \<and> ty_signed (snd right))
     in sbind (resized_pairs em s left right width sign_extend) (\<lambda>pairs s.
        case compare_order op of
          None \<Rightarrow> (Inl (Invariant ''invalid comparison op during bitblast''), s)
        | Some (swap, invert_result) \<Rightarrow>
            let ordered_left = map (if swap then snd else fst) pairs;
                ordered_right = map (if swap then fst else snd) pairs
            in sbind (unsigned_less em s ordered_left ordered_right) (\<lambda>is_less s.
               sbind (if sign_extend then
                   sbind (vget ordered_left (width - 1) s) (\<lambda>left_sign s.
                   sbind (vget ordered_right (width - 1) s) (\<lambda>right_sign s.
                   sbind (emit_binary em s BitXor left_sign right_sign) (\<lambda>signs_differ s.
                     emit_mux em s signs_differ left_sign is_less)))
                 else (Inr is_less, s)) (\<lambda>is_less s.
               sbind (if invert_result then emit_unary em s BitNot is_less else (Inr is_less, s)) (\<lambda>result s.
                 (Inr [result], s))))))"

section \<open>Shifts\<close>

text \<open>\<^verbatim>\<open>u32::BITS - n.leading_zeros()\<close>: the number of bits of \<open>n\<close>.\<close>

fun bit_length :: "nat \<Rightarrow> nat"
  where "bit_length n = (if n = 0 then 0 else Suc (bit_length (n div 2)))"

declare bit_length.simps [simp del]

definition relevant_stages :: "nat \<Rightarrow> nat"
  where "relevant_stages width = (if width \<le> 1 then 0 else bit_length (width - 1))"

definition shift_source ::
  "BinaryOp \<Rightarrow> 'a list \<Rightarrow> nat \<Rightarrow> nat \<Rightarrow> 'a \<Rightarrow> 'a \<Rightarrow> nat \<Rightarrow> 's \<Rightarrow> ('s, SynthError, 'a) outcome"
  where "shift_source op current width shift zero right_fill index s =
    (case op of
       Shl \<Rightarrow> if index \<ge> shift then vget current (index - shift) s else (Inr zero, s)
     | Shr \<Rightarrow> if index + shift < width then vget current (index + shift) s else (Inr right_fill, s)
     | Ashr \<Rightarrow> if index + shift < width then vget current (index + shift) s else (Inr right_fill, s)
     | _ \<Rightarrow> (Inl (Invariant ''invalid shift op during bitblast''), s))"

definition shift_fill :: "BinaryOp \<Rightarrow> WordType \<Rightarrow> 'a list \<Rightarrow> 'a \<Rightarrow> 's \<Rightarrow> ('s, SynthError, 'a) outcome"
  where "shift_fill op result_ty current zero s =
    (if op = Ashr \<and> ty_signed result_ty then vget current (length current - 1) s else (Inr zero, s))"

definition shift_stage ::
  "('s, 'a) bit_ops \<Rightarrow> BinaryOp \<Rightarrow> 'a list \<Rightarrow> WordType \<Rightarrow> 'a \<Rightarrow> nat \<Rightarrow> 'a list \<Rightarrow> 's \<Rightarrow> ('s, SynthError, 'a list) outcome"
  where "shift_stage em op amount result_ty zero stage current s =
    (let shift = 2 ^ stage
     in sbind (vget amount stage s) (\<lambda>control s.
        sbind (shift_fill op result_ty current zero s) (\<lambda>right_fill s.
          smapM (\<lambda>index s.
            sbind (shift_source op current (ty_width result_ty) shift zero right_fill index s) (\<lambda>shifted s.
            sbind (vget current index s) (\<lambda>kept s.
              emit_mux em s control shifted kept))) [0..<ty_width result_ty] s)))"

definition shift_overflow ::
  "('s, 'a) bit_ops \<Rightarrow> BinaryOp \<Rightarrow> 'a list \<Rightarrow> WordType \<Rightarrow> 'a \<Rightarrow> 'a list \<Rightarrow> 's \<Rightarrow> ('s, SynthError, 'a list) outcome"
  where "shift_overflow em op amount result_ty zero current s =
    (if length amount > relevant_stages (ty_width result_ty) then
       sbind (reduce_values em s (drop (relevant_stages (ty_width result_ty)) amount) BitOr) (\<lambda>overflow s.
       sbind (shift_fill op result_ty current zero s) (\<lambda>overflow_fill s.
         smapM (\<lambda>x s. emit_mux em s overflow overflow_fill x) current s))
     else (Inr current, s))"

definition shift_bits ::
  "('s, 'a) bit_ops \<Rightarrow> 's \<Rightarrow> BinaryOp \<Rightarrow> 'a operand \<Rightarrow> 'a operand \<Rightarrow> WordType \<Rightarrow> ('s, SynthError, 'a list) outcome"
  where "shift_bits em s op operand amount result_ty =
    sbind (resized_bits em s operand (ty_width result_ty) (ty_signed result_ty)) (\<lambda>current s.
    sbind (vget current 0 s) (\<lambda>first s.
    sbind (zero_for_scalar em s first) (\<lambda>zero s.
    sbind (sfoldM (shift_stage em op (fst amount) result_ty zero)
        [0..<min (length (fst amount)) (relevant_stages (ty_width result_ty))] current s) (\<lambda>current s.
      shift_overflow em op (fst amount) result_ty zero current s))))"

section \<open>Bitwise, logical and structural operations\<close>

definition unary_bits :: "('s, 'a) bit_ops \<Rightarrow> 's \<Rightarrow> UnaryOp \<Rightarrow> 'a list \<Rightarrow> ('s, SynthError, 'a list) outcome"
  where "unary_bits em s op span =
    (case op of
       BitNot \<Rightarrow> smapM (\<lambda>x s. emit_unary em s BitNot x) span s
     | LogicalNot \<Rightarrow>
         sbind (reduce_values em s span BitOr) (\<lambda>x s. smap (\<lambda>y. [y]) (emit_unary em s LogicalNot x))
     | ReductionAnd \<Rightarrow> smap (\<lambda>y. [y]) (reduce_values em s span BitAnd)
     | ReductionOr \<Rightarrow> smap (\<lambda>y. [y]) (reduce_values em s span BitOr)
     | ReductionXor \<Rightarrow> smap (\<lambda>y. [y]) (reduce_values em s span BitXor))"

definition bitwise_binary_bits ::
  "('s, 'a) bit_ops \<Rightarrow> 's \<Rightarrow> BinaryOp \<Rightarrow> 'a operand \<Rightarrow> 'a operand \<Rightarrow> WordType \<Rightarrow> ('s, SynthError, 'a list) outcome"
  where "bitwise_binary_bits em s op left right result_ty =
    smapM (\<lambda>index s.
      sbind (resized_bit em s left index (ty_signed result_ty)) (\<lambda>l s.
      sbind (resized_bit em s right index (ty_signed result_ty)) (\<lambda>r s.
        emit_binary em s op l r))) [0..<ty_width result_ty] s"

definition equality_bits ::
  "('s, 'a) bit_ops \<Rightarrow> 's \<Rightarrow> BinaryOp \<Rightarrow> 'a operand \<Rightarrow> 'a operand \<Rightarrow> ('s, SynthError, 'a list) outcome"
  where "equality_bits em s op left right =
    (let width = max (ty_width (snd left)) (ty_width (snd right));
         sign_extend = (ty_signed (snd left) \<and> ty_signed (snd right))
     in sbind (smapM (\<lambda>index s.
          sbind (resized_bit em s left index sign_extend) (\<lambda>l s.
          sbind (resized_bit em s right index sign_extend) (\<lambda>r s.
            emit_binary em s BitXor l r))) [0..<width] s) (\<lambda>differences s.
        sbind (reduce_values em s differences BitOr) (\<lambda>differs s.
          if op = Ne then (Inr [differs], s)
          else smap (\<lambda>y. [y]) (emit_unary em s BitNot differs))))"

definition scalar_value :: "'a list \<Rightarrow> 's \<Rightarrow> ('s, SynthError, 'a) outcome"
  where "scalar_value span s =
    (if length span \<noteq> 1 then (Inl (Invariant ''expected scalar value during bitblast''), s) else vget span 0 s)"

definition mux_bit ::
  "('s, 'a) bit_ops \<Rightarrow> 'a \<Rightarrow> WordType \<Rightarrow> 'a \<times> 'a \<Rightarrow> 's \<Rightarrow> ('s, SynthError, 'a) outcome"
  where "mux_bit em cond result_ty branches s =
    sbind (lift_result (WordType_new 1 (ty_width result_ty = 1 \<and> ty_signed result_ty) (ty_state result_ty)) s) (\<lambda>bit_ty s.
    sbind (scalar_with_type em s (fst branches) bit_ty) (\<lambda>then_bit s.
    sbind (scalar_with_type em s (snd branches) bit_ty) (\<lambda>else_bit s.
      emit_mux em s cond then_bit else_bit)))"

definition mux_bits ::
  "('s, 'a) bit_ops \<Rightarrow> 's \<Rightarrow> 'a list \<Rightarrow> 'a list \<Rightarrow> 'a list \<Rightarrow> WordType \<Rightarrow> ('s, SynthError, 'a list) outcome"
  where "mux_bits em s cond_span then_span else_span result_ty =
    sbind (scalar_value cond_span s) (\<lambda>cond s.
      if length then_span \<noteq> length else_span
      then (Inl (Invariant ''bitblast mux branches have different widths''), s)
      else smapM (mux_bit em cond result_ty) (zip then_span else_span) s)"

definition concat_bits :: "'a list list \<Rightarrow> 'a list"
  where "concat_bits parts = concat (rev parts)"

definition extract_bits :: "'a list \<Rightarrow> nat \<Rightarrow> nat \<Rightarrow> SynthError + 'a list"
  where "extract_bits span lsb width =
    (if 2 ^ 32 \<le> lsb + width then Inl (Invariant ''bitblast extract range overflow'')
     else if lsb + width > length span then Inl (Invariant ''bitblast extract exceeds source width'')
     else Inr (map ((!) span) [lsb..<lsb + width]))"

definition cast_bits ::
  "('s, 'a) bit_ops \<Rightarrow> 's \<Rightarrow> CastKind \<Rightarrow> 'a operand \<Rightarrow> WordType \<Rightarrow> ('s, SynthError, 'a list) outcome"
  where "cast_bits em s kind operand target =
    sbind (smapM (\<lambda>index s.
        if index < length (fst operand) then vget (fst operand) index s
        else case kind of
            SignExtend \<Rightarrow> vget (fst operand) (length (fst operand) - 1) s
          | ZeroExtend \<Rightarrow> emit_constant em s BitZero (ty_state (snd operand))
          | Truncate \<Rightarrow> (Inl (Invariant ''truncate cast cannot require extension during bitblast''), s))
      [0..<ty_width target] s) (\<lambda>bits s.
      if ty_width target = 1 then
        sbind (vget bits 0 s) (\<lambda>first s.
        sbind (lift_result (b_bit_type em s first) s) (\<lambda>ty s.
          if ty \<noteq> target then
            (case b_word_value em s first of
               Some word \<Rightarrow> sbind (b_cast em s word target) (\<lambda>cast s. (Inr (bits[0 := cast]), s))
             | None \<Rightarrow> (Inr bits, s))
          else (Inr bits, s)))
      else smapM (\<lambda>x s. unsigned_bit em s x) bits s)"

definition logical_bits ::
  "('s, 'a) bit_ops \<Rightarrow> 's \<Rightarrow> BinaryOp \<Rightarrow> 'a list \<Rightarrow> 'a list \<Rightarrow> ('s, SynthError, 'a list) outcome"
  where "logical_bits em s op left right =
    sbind (reduce_values em s left BitOr) (\<lambda>l s.
    sbind (reduce_values em s right BitOr) (\<lambda>r s.
      smap (\<lambda>y. [y]) (emit_binary em s op l r)))"

text \<open>
  \<^verbatim>\<open>binary_bits\<close> dispatches on the operator. The arithmetic operators go to the implementation
  the architecture plan selected for the operation; \<open>lower\<close> stands for that call.
\<close>

definition binary_bits ::
  "('s, 'a) bit_ops \<Rightarrow> 's \<Rightarrow> BinaryOp \<Rightarrow> 'a operand \<Rightarrow> 'a operand \<Rightarrow> WordType
    \<Rightarrow> ('s \<Rightarrow> ('s, SynthError, 'a list) outcome) \<Rightarrow> ('s, SynthError, 'a list) outcome"
  where "binary_bits em s op left right result_ty lower =
    (if op \<in> {Add, Sub, Mul, Div, Mod} then lower s
     else if op \<in> {BitAnd, BitOr, BitXor} then bitwise_binary_bits em s op left right result_ty
     else if op \<in> {LogicalAnd, LogicalOr} then logical_bits em s op (fst left) (fst right)
     else if op \<in> {Eq, Ne} then equality_bits em s op left right
     else if op \<in> {Lt, Le, Gt, Ge} then compare_bits em s op left right
     else shift_bits em s op left right result_ty)"

section \<open>Runs follow the Boolean runs\<close>

lemma scalar_with_type_bool [simp]: "ty_width ty = 1 \<Longrightarrow> scalar_with_type bool_ops s a ty = (Inr a, s)"
  by (simp add: scalar_with_type_def lift_result_def bool_ops_def)

context bit_emitter
begin

lemma sim_less_step:
  assumes "good s" and "rel_prod (den s) (den s) p q" and "den s x v"
  shows "sim s (less_step em p x s) (less_step bool_ops q v ()) den"
  unfolding less_step_def by (intro sim_steps) (use assms in \<open>simp_all add: rel_prod_sel\<close>)

lemma keeps_den_pair: "keeps (\<lambda>s. rel_prod (den s) (den s))"
  by simp

lemma sim_unsigned_less:
  assumes "good s" and "dens s ls vs" and "dens s rs ws"
  shows "sim s (unsigned_less em s ls rs) (unsigned_less bool_ops () vs ws) den"
proof -
  have z: "list_all2 (rel_prod (den s) (den s)) (zip ls rs) (zip vs ws)"
    using assms(2,3) by (auto simp: list_all2_conv_all_nth)
  show ?thesis
  proof (cases "zip ls rs")
    case Nil
    then have "zip vs ws = []" using z unfolding Nil by simp
    with assms(1) show ?thesis unfolding unsigned_less_def Nil by (simp only: list.case sim_err)
  next
    case (Cons p ps)
    then obtain q qs where q: "zip vs ws = q # qs" "rel_prod (den s) (den s) p q"
      "list_all2 (rel_prod (den s) (den s)) ps qs" using z by (auto simp: list_all2_Cons1)
    obtain l r v w where pq: "p = (l, r)" "q = (v, w)" "den s l v" "den s r w"
      using q(2) by (cases p; cases q) auto
    have fold: "sim s' (sfoldM (less_step em) ps x s') (sfoldM (less_step bool_ops) qs u ()) den"
      if "good s'" "le s s'" "den s' x u" for s' x u
      by (rule sim_foldM [where R = den, OF that(1) keepsD [OF keeps_list [OF keeps_den_pair] assms(1) that(2) q(3)]
            keeps_den_pair that(3)]) (rule sim_less_step)
    show ?thesis
      unfolding unsigned_less_def Cons q(1) pq(1,2) list.case prod.case
      by (intro sim_steps fold) (use pq(3,4) assms(1) in \<open>auto intro: le_trans\<close>)
  qed
qed

lemma sim_resized_pairs:
  assumes "good s" and "opds s a va" and "opds s b vb"
  shows "sim s (resized_pairs em s a b n se) (resized_pairs bool_ops () va vb n se)
    (\<lambda>s. list_all2 (rel_prod (den s) (den s)))"
  unfolding resized_pairs_def
  by (rule sim_mapM_same [OF assms(1) keeps_den_pair])
    (intro sim_steps; use assms dens_mono [OF assms(1)] in simp)

lemma dens_mapped_pairs:
  assumes "list_all2 (rel_prod (den s) (den s)) ps qs"
  shows "dens s (map (if c then fst else snd) ps) (map (if c then fst else snd) qs)"
    and "dens s (map (if c then snd else fst) ps) (map (if c then snd else fst) qs)"
  using rel_prod_lists [OF assms] by (cases c; simp)+

lemma sim_compare_bits:
  assumes "good s" and "opds s a va" and "opds s b vb"
  shows "sim s (compare_bits em s op a b) (compare_bits bool_ops () op va vb) dens"
proof -
  have t: "snd va = snd a" "snd vb = snd b" using assms(2,3) by simp_all
  show ?thesis
  proof (cases "compare_order op")
    case None
    then show ?thesis
      unfolding compare_bits_def Let_def t
      by (intro sim_seq [OF sim_resized_pairs [OF assms] assms(1)]) (simp add: sim_err)
  next
    case (Some c)
    obtain swap invt where c: "compare_order op = Some (swap, invt)" using Some by (cases c) auto
    show ?thesis
      unfolding compare_bits_def Let_def t c option.case prod.case
      by (intro sim_seq [OF sim_resized_pairs [OF assms] assms(1)] sim_seq [OF sim_unsigned_less]
          sim_seq [OF sim_if [OF refl _ sim_ret, where R = den]] sim_steps
          sim_seq [OF sim_if [OF refl sim_unary sim_ret]])
        (simp_all add: dens_mapped_pairs)
  qed
qed

lemma sim_shift_fill:
  assumes "good s" and "dens s xs vs" and "den s z w"
  shows "sim s (shift_fill op ty xs z s) (shift_fill op ty vs w ()) den"
  unfolding shift_fill_def list_all2_lengthD [OF assms(2)]
  by (intro sim_steps) (use assms in simp_all)

lemma sim_shift_source:
  assumes "good s" and "dens s xs vs" and "den s z w" and "den s f g"
  shows "sim s (shift_source op xs n k z f i s) (shift_source op vs n k w g i ()) den"
  unfolding shift_source_def using assms
  by (cases op) (auto intro!: sim_steps)

lemma sim_shift_stage:
  assumes "good s" and "dens s xs vs" and "dens s as bs" and "den s z w"
  shows "sim s (shift_stage em op as ty z k xs s) (shift_stage bool_ops op bs ty w k vs ()) dens"
  unfolding shift_stage_def Let_def
  by (intro sim_steps sim_seq [OF sim_shift_fill] sim_mapM_dens sim_seq [OF sim_shift_source])
    (use assms in simp_all)

lemma sim_shift_overflow:
  assumes "good s" and "dens s xs vs" and "dens s as bs" and "den s z w"
  shows "sim s (shift_overflow em op as ty z xs s) (shift_overflow bool_ops op bs ty w vs ()) dens"
proof -
  have step: "sim s' (smapM (\<lambda>x s. emit_mux em s c f x) xs s') (smapM (\<lambda>x s. emit_mux bool_ops s c' f' x) vs ()) dens"
    if s': "good s'" "dens s' xs vs" "den s' c c'" "den s' f f'" for s' c c' f f'
    by (rule sim_mapM [OF s'(1,2) keeps_den keeps_den], rule sim_mux) (use that den_mono in auto)
  show ?thesis
    unfolding shift_overflow_def list_all2_lengthD [OF assms(3)]
    by (intro sim_if refl sim_seq [OF sim_reduce_values] sim_seq [OF sim_shift_fill] sim_ret step list_all2_dropI)
      (use assms in simp_all)
qed

lemma sim_shift_bits:
  assumes "good s" and "opds s a va" and "opds s b vb"
  shows "sim s (shift_bits em s op a b ty) (shift_bits bool_ops () op va vb ty) dens"
proof -
  have len: "length (fst b) = length (fst vb)" using assms(3) by (auto dest: list_all2_lengthD)
  have fold: "sim s' (sfoldM (shift_stage em op (fst b) ty z) ks xs s')
      (sfoldM (shift_stage bool_ops op (fst vb) ty w) ks vs ()) dens"
    if s': "good s'" "dens s' xs vs" "dens s' (fst b) (fst vb)" "den s' z w" for s' xs vs z w ks
    by (rule sim_foldM [where P = "\<lambda>_. (=)"])
      (use that den_mono dens_mono in \<open>auto simp: list.rel_eq intro!: sim_shift_stage\<close>)
  show ?thesis
    unfolding shift_bits_def len
    by (intro sim_seq [OF sim_resized_bits] sim_steps sim_seq [OF sim_zero_for_scalar] sim_seq [OF fold] sim_shift_overflow)
      (use assms in simp_all)
qed

lemma sim_single: "sim s m b den \<Longrightarrow> sim s (smap (\<lambda>y. [y]) m) (smap (\<lambda>y. [y]) b) dens"
  by (rule sim_smap) auto

lemma sim_unary_bits:
  assumes "good s" and "dens s xs vs"
  shows "sim s (unary_bits em s op xs) (unary_bits bool_ops () op vs) dens"
proof (cases op)
  case LogicalNot
  then show ?thesis
    unfolding unary_bits_def LogicalNot UnaryOp.case
    by (intro sim_seq [OF sim_reduce_values] sim_single sim_unary) (use assms in simp_all)
next
  case BitNot
  have "sim s (smapM (\<lambda>x s. emit_unary em s BitNot x) xs s) (smapM (\<lambda>x s. emit_unary bool_ops s BitNot x) vs ()) dens"
    by (rule sim_mapM [OF assms keeps_den keeps_den]) (rule sim_unary)
  with BitNot show ?thesis unfolding unary_bits_def by simp
qed (use assms in \<open>auto simp: unary_bits_def intro!: sim_single sim_reduce_values\<close>)

lemma sim_bitwise_binary_bits:
  assumes "good s" and "opds s a va" and "opds s b vb" and "binary_sem op = Some f"
  shows "sim s (bitwise_binary_bits em s op a b ty) (bitwise_binary_bits bool_ops () op va vb ty) dens"
  unfolding bitwise_binary_bits_def
  by (intro sim_mapM_dens sim_steps) (use assms in simp_all)

lemma sim_equality_bits:
  assumes "good s" and "opds s a va" and "opds s b vb"
  shows "sim s (equality_bits em s op a b) (equality_bits bool_ops () op va vb) dens"
proof -
  have t: "snd va = snd a" "snd vb = snd b" using assms(2,3) by simp_all
  show ?thesis
    unfolding equality_bits_def Let_def t
    by (intro sim_seq [OF sim_mapM_dens] sim_steps sim_seq [OF sim_reduce_values] sim_single) (use assms in simp_all)
qed

lemma sim_scalar_with_type:
  assumes "good s" and "den s x v" and "ty_width ty = 1"
  shows "sim s (scalar_with_type em s x ty) (scalar_with_type bool_ops () v ty) den"
  using assms by (simp add: scalar_with_type_def [of em] scalar_with_type_bool lift_result_def
      bit_type_law [OF assms(2)] word_value_law [OF assms(2)] sim_ret)

lemma sim_mux_bit:
  assumes "good s" and "den s c u" and "rel_prod (den s) (den s) p q"
  shows "sim s (mux_bit em c ty p s) (mux_bit bool_ops u ty q ()) den"
proof -
  have ty: "WordType_new 1 sg st = Inr \<lparr>ty_width = 1, ty_signed = sg, ty_state = st\<rparr>" for sg st
    by (simp add: WordType_new_def)
  show ?thesis
    unfolding mux_bit_def ty lift_result_def sbind_simps
    by (intro sim_seq [OF sim_scalar_with_type] sim_mux) (use assms in \<open>simp_all add: rel_prod_sel\<close>)
qed

lemma sim_mux_bits:
  assumes "good s" and "dens s cs us" and "dens s ts vs" and "dens s es ws"
  shows "sim s (mux_bits em s cs ts es ty) (mux_bits bool_ops () us vs ws ty) dens"
proof -
  note len = list_all2_lengthD [OF assms(2)] list_all2_lengthD [OF assms(3)] list_all2_lengthD [OF assms(4)]
  have body: "sim s' (smapM (mux_bit em c ty) (zip ts es) s') (smapM (mux_bit bool_ops u ty) (zip vs ws) ()) dens"
    if s': "good s'" "den s' c u" "dens s' ts vs" "dens s' es ws" for s' c u
  proof (rule sim_mapM [OF s'(1) _ keeps_den_pair keeps_den])
    show "list_all2 (rel_prod (den s') (den s')) (zip ts es) (zip vs ws)"
      using s'(3,4) by (auto simp: list_all2_conv_all_nth)
  qed (use s' den_mono in \<open>auto intro!: sim_mux_bit\<close>)
  show ?thesis
    unfolding mux_bits_def scalar_value_def len
    by (intro sim_steps sim_seq [OF sim_if [OF refl sim_err sim_vget [of _ den]]] body)
      (use assms in simp_all)
qed

lemma sim_cast_bits:
  assumes "good s" and "opds s a va"
  shows "sim s (cast_bits em s k a ty) (cast_bits bool_ops () k va ty) dens"
proof -
  have len: "length (fst a) = length (fst va)" "snd a = snd va" using assms(2) by (auto dest: list_all2_lengthD)
  have bits: "sim s (smapM (\<lambda>index s. if index < length (fst va) then vget (fst a) index s
        else case k of SignExtend \<Rightarrow> vget (fst a) (length (fst va) - 1) s
          | ZeroExtend \<Rightarrow> emit_constant em s BitZero (ty_state (snd va))
          | Truncate \<Rightarrow> (Inl (Invariant ''truncate cast cannot require extension during bitblast''), s)) [0..<ty_width ty] s)
      (smapM (\<lambda>index s. if index < length (fst va) then vget (fst va) index s
        else case k of SignExtend \<Rightarrow> vget (fst va) (length (fst va) - 1) s
          | ZeroExtend \<Rightarrow> emit_constant bool_ops s BitZero (ty_state (snd va))
          | Truncate \<Rightarrow> (Inl (Invariant ''truncate cast cannot require extension during bitblast''), s)) [0..<ty_width ty] ()) dens"
    by (rule sim_mapM_dens [OF assms(1)]; cases k; simp only: CastKind.case; intro sim_steps)
      (use assms in simp_all)
  have head: "sim s' (sbind (lift_result (b_bit_type em s' x) s') (\<lambda>t s.
          if t \<noteq> ty then (case b_word_value em s x of
               Some word \<Rightarrow> sbind (b_cast em s word ty) (\<lambda>cast s. (Inr (xs[0 := cast]), s))
             | None \<Rightarrow> (Inr xs, s)) else (Inr xs, s)))
        (sbind (lift_result (b_bit_type bool_ops () v) ()) (\<lambda>t s.
          if t \<noteq> ty then (case b_word_value bool_ops s v of
               Some word \<Rightarrow> sbind (b_cast bool_ops s word ty) (\<lambda>cast s. (Inr (vs[0 := cast]), s))
             | None \<Rightarrow> (Inr vs, s)) else (Inr vs, s))) dens"
    if "good s'" "den s' x v" "dens s' xs vs" for s' x v xs vs
    using that by (simp add: lift_result_def bit_type_law [OF that(2)] word_value_law [OF that(2)] bool_ops_def sim_ret)
  have unsigned: "sim s' (smapM (\<lambda>x s. unsigned_bit em s x) xs s') (smapM (\<lambda>x s. unsigned_bit bool_ops s x) vs ()) dens"
    if "good s'" "dens s' xs vs" for s' xs vs
    by (rule sim_mapM [OF that keeps_den keeps_den]) (rule sim_unsigned)
  show ?thesis
    unfolding cast_bits_def len
    by (intro sim_seq [OF bits] sim_if refl sim_seq [OF sim_vget [of _ den]] head unsigned) (use assms(1) in simp_all)
qed

lemma sim_logical_bits:
  assumes "good s" and "dens s xs vs" and "dens s ys ws" and "binary_sem op = Some f"
  shows "sim s (logical_bits em s op xs ys) (logical_bits bool_ops () op vs ws) dens"
  unfolding logical_bits_def
  by (intro sim_seq [OF sim_reduce_values] sim_single sim_binary) (use assms in simp_all)

lemma sim_binary_bits:
  assumes "good s" and "opds s a va" and "opds s b vb" and "op \<notin> {Add, Sub, Mul, Div, Mod}"
  shows "sim s (binary_bits em s op a b ty lower) (binary_bits bool_ops () op va vb ty lower') dens"
proof -
  note ops = sim_bitwise_binary_bits [OF assms(1-3)] sim_logical_bits [OF assms(1)] sim_equality_bits [OF assms(1-3)]
    sim_compare_bits [OF assms(1-3)] sim_shift_bits [OF assms(1-3)]
  show ?thesis
    using assms(4) unfolding binary_bits_def using assms(2,3) by (cases op) (simp_all add: ops)
qed

end

section \<open>Comparisons of Booleans\<close>

lemma less_step_bool: "less_step bool_ops p c () = (Inr (if fst p \<noteq> snd p then \<not> fst p else c), ())"
  by (simp add: less_step_def)

lemma less_fold_bool:
  assumes "length xs = length ys"
  shows "sfoldM (less_step bool_ops) (zip xs ys) c () =
    (Inr (bits_val xs < bits_val ys \<or> (bits_val xs = bits_val ys \<and> c)), ())"
  using assms
proof (induction xs ys arbitrary: c rule: list_induct2)
  case (Cons x xs y ys)
  have "(2 * X + of_bool x < 2 * Y + (of_bool y :: nat) \<or> (2 * X + of_bool x = 2 * Y + of_bool y \<and> c)) =
      (X < Y \<or> (X = Y \<and> (if x \<noteq> y then \<not> x else c)))" for X Y :: nat
    by (cases x; cases y; cases c; simp; presburger)
  note arith = this [of "bits_val xs" "bits_val ys"]
  have "sfoldM (less_step bool_ops) (zip (x # xs) (y # ys)) c () =
      sfoldM (less_step bool_ops) (zip xs ys) (if x \<noteq> y then \<not> x else c) ()"
    by (simp only: zip_Cons_Cons sfoldM.simps less_step_bool sbind_simps fst_conv snd_conv)
  also have "\<dots> = (Inr (bits_val xs < bits_val ys \<or> (bits_val xs = bits_val ys \<and> (if x \<noteq> y then \<not> x else c))), ())"
    by (rule Cons.IH)
  finally show ?case using arith by (simp add: add.commute)
qed simp

lemma unsigned_less_bool:
  assumes "length xs = length ys" and "xs \<noteq> []"
  shows "unsigned_less bool_ops () xs ys = (Inr (bits_val xs < bits_val ys), ())"
proof -
  obtain x xs' y ys' where e: "xs = x # xs'" "ys = y # ys'" "length xs' = length ys'"
    using assms by (cases xs; cases ys) auto
  have "(2 * X + of_bool x < 2 * Y + (of_bool y :: nat)) = (X < Y \<or> (X = Y \<and> \<not> x \<and> y))" for X Y :: nat
    by (cases x; cases y; simp; presburger)
  from this [of "bits_val xs'" "bits_val ys'"] show ?thesis
    by (simp add: unsigned_less_def e less_fold_bool add.commute)
qed

lemma bits_val_less_int: "int (bits_val bs) < 2 ^ length bs"
  using bits_val_less [of bs] by (metis of_nat_less_iff of_nat_numeral of_nat_power)

lemma bits_val_last:
  assumes "xs \<noteq> []"
  shows "bits_val xs = bits_val (butlast xs) + 2 ^ (length xs - 1) * of_bool (last xs)"
  using bits_val_append [of "butlast xs" "[last xs]"] assms by simp

lemma signed_val_last:
  assumes "xs \<noteq> []"
  shows "signed_val xs = int (bits_val (butlast xs)) - (if last xs then 2 ^ (length xs - 1) else 0)"
proof -
  have "(2::int) ^ length xs = 2 * 2 ^ (length xs - 1)" using assms by (cases xs) auto
  with assms bits_val_last [OF assms] show ?thesis by (simp add: signed_val_def)
qed

lemma signed_less_iff:
  assumes "length xs = length ys" and "xs \<noteq> []"
  shows "signed_val xs < signed_val ys \<longleftrightarrow>
    (if last xs \<noteq> last ys then last xs else bits_val xs < bits_val ys)"
proof -
  have ys: "ys \<noteq> []" using assms by auto
  have key: "(A - (if u then P else 0) < B - (if w then P else 0)) = (if u \<noteq> w then u else A < B)"
    if "A < P" "B < P" "0 \<le> A" "0 \<le> B" for A B P :: int and u w
    using that by auto
  have "int (bits_val (butlast xs)) < 2 ^ (length xs - 1)" "int (bits_val (butlast ys)) < 2 ^ (length xs - 1)"
    using bits_val_less_int [of "butlast xs"] bits_val_less_int [of "butlast ys"] assms(1) by simp_all
  then have "(signed_val xs < signed_val ys) =
      (if last xs \<noteq> last ys then last xs else int (bits_val (butlast xs)) < int (bits_val (butlast ys)))"
    unfolding signed_val_last [OF assms(2)] signed_val_last [OF ys] assms(1) [symmetric] by (rule key) simp_all
  moreover have "(bits_val (butlast xs) < bits_val (butlast ys)) = (bits_val xs < bits_val ys)" if "last xs = last ys"
    using bits_val_last [OF assms(2)] bits_val_last [OF ys] assms(1) that by simp
  ultimately show ?thesis by simp
qed

lemma resized_bit_bool:
  assumes "fst x \<noteq> []" and "i < n"
  shows "resized_bit bool_ops () x i se = (Inr (extend_bool x n se ! i), ())"
  using assms by (auto simp: resized_bit_def vget_def extend_bool_def last_conv_nth split: prod.splits)

lemma resized_pairs_bool:
  assumes "fst a \<noteq> []" and "fst b \<noteq> []"
  shows "resized_pairs bool_ops () a b n se = (Inr (zip (extend_bool a n se) (extend_bool b n se)), ())"
proof -
  have "resized_pairs bool_ops () a b n se =
      (Inr (map (\<lambda>i. (extend_bool a n se ! i, extend_bool b n se ! i)) [0..<n]), ())"
    unfolding resized_pairs_def
    by (rule smapM_bool) (use assms in \<open>auto simp: resized_bit_bool [of a _ n] resized_bit_bool [of b _ n]\<close>)
  also have "map (\<lambda>i. (extend_bool a n se ! i, extend_bool b n se ! i)) [0..<n] = zip (extend_bool a n se) (extend_bool b n se)"
    by (rule nth_equalityI) auto
  finally show ?thesis .
qed

text \<open>Extending a signed vector does not change the number it denotes.\<close>

lemma extend_signed:
  assumes "fst x \<noteq> []" and "length (fst x) \<le> n" and "ty_signed (snd x)"
  shows "signed_val (extend_bool x n True) = signed_val (fst x)"
proof -
  obtain bs ty where x: "x = (bs, ty)" by (cases x)
  define k where "k = n - length bs"
  have n: "n = length bs + k" using assms(2) by (simp add: k_def x)
  have e: "extend_bool x n True = bs @ replicate k (last bs)"
    using assms extend_bool_fill [of bs n ty True] by (simp add: x k_def)
  have ones: "int (bits_val (replicate k True)) = 2 ^ k - 1"
    using arg_cong [OF bits_val_replicate_True [of k], of int] by simp
  have l: "last (bs @ replicate k (last bs)) = last bs" by (cases k) auto
  have "signed_val (bs @ replicate k (last bs)) = signed_val bs"
    using assms(1) l x by (cases "last bs") (simp_all add: signed_val_def bits_val_append power_add ones right_diff_distrib)
  with e show ?thesis by (simp add: x)
qed

lemma extend_unsigned:
  assumes "length (fst x) \<le> n" and "\<not> (se \<and> ty_signed (snd x))"
  shows "bits_val (extend_bool x n se) = bits_val (fst x)"
  using assms extend_bool_fill [of "fst x" n "snd x" se] by (auto simp: bits_val_append)

fun compare_sem :: "BinaryOp \<Rightarrow> int \<Rightarrow> int \<Rightarrow> bool"
  where
    "compare_sem Lt x y = (x < y)"
  | "compare_sem Le x y = (x \<le> y)"
  | "compare_sem Gt x y = (x > y)"
  | "compare_sem Ge x y = (x \<ge> y)"
  | "compare_sem _ x y = False"

lemma extended_less:
  fixes a b :: "bool operand"
  assumes a: "fst a \<noteq> []" "length (fst a) \<le> n" and b: "fst b \<noteq> []" "length (fst b) \<le> n"
    and se: "se = (ty_signed (snd a) \<and> ty_signed (snd b))"
  defines "xs \<equiv> extend_bool a n se" and "ys \<equiv> extend_bool b n se"
  shows "(if se then if xs ! (n - 1) \<noteq> ys ! (n - 1) then xs ! (n - 1) else bits_val xs < bits_val ys
      else bits_val xs < bits_val ys) = (operand_val a se < operand_val b se)"
proof (cases se)
  case True
  have n: "0 < n" using a by (cases "fst a") auto
  have l: "length xs = length ys" "xs \<noteq> []" "last xs = xs ! (n - 1)" "last ys = ys ! (n - 1)"
    using n by (auto simp: xs_def ys_def last_conv_nth simp flip: length_greater_0_conv)
  have "signed_val xs = operand_val a se" "signed_val ys = operand_val b se"
    using extend_signed a b True se by (simp_all add: xs_def ys_def operand_val_def)
  with True signed_less_iff [OF l(1,2)] l(3,4) show ?thesis by simp
next
  case False
  then have "bits_val xs = bits_val (fst a)" "bits_val ys = bits_val (fst b)"
    using extend_unsigned [OF a(2), of se] extend_unsigned [OF b(2), of se] by (simp_all add: xs_def ys_def)
  with False show ?thesis by (simp add: operand_val_def)
qed

lemma compare_bits_bool:
  assumes a: "fst a \<noteq> []" "length (fst a) = ty_width (snd a)" and b: "fst b \<noteq> []" "length (fst b) = ty_width (snd b)"
    and se: "se = (ty_signed (snd a) \<and> ty_signed (snd b))" and op: "op \<in> {Lt, Le, Gt, Ge}"
  shows "compare_bits bool_ops () op a b = (Inr [compare_sem op (operand_val a se) (operand_val b se)], ())"
proof -
  define n where "n = max (ty_width (snd a)) (ty_width (snd b))"
  define xs ys where "xs = extend_bool a n se" and "ys = extend_bool b n se"
  have n: "0 < n" "length (fst a) \<le> n" "length (fst b) \<le> n" using a b by (auto simp: n_def simp flip: length_greater_0_conv)
  have len: "length xs = n" "length ys = n" "xs \<noteq> []" "ys \<noteq> []"
    using n(1) by (auto simp: xs_def ys_def simp flip: length_greater_0_conv)
  have l1: "(if se then if xs ! (n - 1) \<noteq> ys ! (n - 1) then xs ! (n - 1) else bits_val xs < bits_val ys
      else bits_val xs < bits_val ys) = (operand_val a se < operand_val b se)"
    using extended_less [OF a(1) n(2) b(1) n(3) se] unfolding xs_def ys_def .
  have l2: "(if se then if ys ! (n - 1) \<noteq> xs ! (n - 1) then ys ! (n - 1) else bits_val ys < bits_val xs
      else bits_val ys < bits_val xs) = (operand_val b se < operand_val a se)"
    using extended_less [OF b(1) n(3) a(1) n(2), of se] se unfolding xs_def ys_def by (simp add: conj_commute)
  have pairs: "resized_pairs bool_ops () a b n se = (Inr (zip xs ys), ())"
    unfolding xs_def ys_def by (rule resized_pairs_bool [OF a(1) b(1)])
  have proj: "map fst (zip xs ys) = xs" "map snd (zip xs ys) = ys" using len by simp_all
  have less: "unsigned_less bool_ops () xs ys = (Inr (bits_val xs < bits_val ys), ())"
    "unsigned_less bool_ops () ys xs = (Inr (bits_val ys < bits_val xs), ())"
    using len by (simp_all add: unsigned_less_bool)
  have get: "vget xs (n - 1) () = (Inr (xs ! (n - 1)), ())" "vget ys (n - 1) () = (Inr (ys ! (n - 1)), ())"
    using n(1) len by (simp_all add: vget_def)
  let ?lt = "operand_val a se < operand_val b se" and ?gt = "operand_val b se < operand_val a se"
  have tail: "sbind (unsigned_less bool_ops () ls rs) (\<lambda>is_less s.
      sbind (if se then
          sbind (vget ls (n - 1) s) (\<lambda>left_sign s.
          sbind (vget rs (n - 1) s) (\<lambda>right_sign s.
          sbind (emit_binary bool_ops s BitXor left_sign right_sign) (\<lambda>signs_differ s.
            emit_mux bool_ops s signs_differ left_sign is_less)))
        else (Inr is_less, s)) (\<lambda>is_less s.
      sbind (if invt then emit_unary bool_ops s BitNot is_less else (Inr is_less, s)) (\<lambda>result s.
        (Inr [result], s)))) =
      (Inr [(if se then if ls ! (n - 1) \<noteq> rs ! (n - 1) then ls ! (n - 1) else bits_val ls < bits_val rs
        else bits_val ls < bits_val rs) \<noteq> invt], ())"
    if "unsigned_less bool_ops () ls rs = (Inr (bits_val ls < bits_val rs), ())"
      "vget ls (n - 1) () = (Inr (ls ! (n - 1)), ())" "vget rs (n - 1) () = (Inr (rs ! (n - 1)), ())" for ls rs invt
    using that by (cases se; cases invt) auto
  note lt = tail [OF less(1) get] and gt = tail [OF less(2) get(2,1)]
  have "op = Lt \<or> op = Le \<or> op = Gt \<or> op = Ge" using op by auto
  then have "compare_bits bool_ops () op a b =
      (Inr [if op = Lt then ?lt else if op = Le then \<not> ?gt else if op = Gt then ?gt else \<not> ?lt], ())"
    unfolding compare_bits_def Let_def n_def [symmetric] se [symmetric] pairs sbind_simps
    by (elim disjE; simp only: compare_order.simps option.case prod.case if_True if_False proj lt gt l1 l2) simp_all
  with \<open>op = Lt \<or> op = Le \<or> op = Gt \<or> op = Ge\<close> show ?thesis by (elim disjE) (simp_all add: not_less)
qed

end
