(* ===== verification/Operations_Correct.thy ===== *)
theory Operations_Correct
  imports Operations
begin

text \<open>
  What the shifter and the bitwise, logical and structural operations compute on Booleans: the
  staged shifter shifts by the whole amount, whatever its width, and the other operations have
  the value their operator denotes.
\<close>

section \<open>Shifts\<close>

definition shift_by :: "BinaryOp \<Rightarrow> bool \<Rightarrow> nat \<Rightarrow> bool list \<Rightarrow> bool list"
  where "shift_by op sg k bs =
    (if op = Shl then take (length bs) (replicate k False @ bs)
     else drop k bs @ replicate (min k (length bs)) (op = Ashr \<and> sg \<and> bs \<noteq> [] \<and> last bs))"

abbreviation shift_ops :: "BinaryOp set"
  where "shift_ops \<equiv> {Shl, Shr, Ashr}"

lemma length_shift_by [simp]: "length (shift_by op sg k bs) = length bs"
  by (auto simp: shift_by_def)

lemma shift_by_nth:
  assumes "i < length bs"
  shows "shift_by op sg k bs ! i =
    (if op = Shl then k \<le> i \<and> bs ! (i - k)
     else if i + k < length bs then bs ! (i + k) else op = Ashr \<and> sg \<and> last bs)"
proof (cases "op = Shl")
  case True
  then show ?thesis using assms by (auto simp: shift_by_def nth_append)
next
  case False
  let ?f = "op = Ashr \<and> sg \<and> bs \<noteq> [] \<and> last bs"
  have "(drop k bs @ replicate (min k (length bs)) ?f) ! i = (if i + k < length bs then bs ! (i + k) else ?f)"
  proof (cases "i + k < length bs")
    case True
    then have "i < length bs - k" by simp
    with True show ?thesis by (simp add: nth_append add.commute)
  next
    case out: False
    then have "i - (length bs - k) < min k (length bs)" using assms by (simp add: min_def, arith)
    moreover have "\<not> i < length bs - k" using out by simp
    ultimately show ?thesis using out by (simp add: nth_append)
  qed
  with False assms show ?thesis by (auto simp: shift_by_def)
qed

lemma shift_by_0 [simp]: "shift_by op sg 0 bs = bs"
  by (simp add: shift_by_def)

lemma shift_by_last:
  assumes "bs \<noteq> []" and "op = Ashr" and "sg"
  shows "last (shift_by op sg k bs) = last bs"
proof -
  have "shift_by op sg k bs \<noteq> []" using assms(1) by (simp flip: length_greater_0_conv)
  then show ?thesis
    using assms by (cases k) (auto simp: last_conv_nth shift_by_nth)
qed

lemma shift_by_add: "shift_by op sg k (shift_by op sg j bs) = shift_by op sg (k + j) bs"
proof (rule nth_equalityI)
  fix i assume "i < length (shift_by op sg k (shift_by op sg j bs))"
  then have i: "i < length bs" by simp
  then have "bs \<noteq> []" by auto
  then have "(op = Ashr \<and> sg \<and> last (shift_by op sg j bs)) = (op = Ashr \<and> sg \<and> last bs)"
    using shift_by_last by blast
  with i show "shift_by op sg k (shift_by op sg j bs) ! i = shift_by op sg (k + j) bs ! i"
    by (cases "op = Shl") (auto simp: shift_by_nth add.assoc add.commute [of k] diff_diff_eq)
qed simp

lemma shift_by_all:
  assumes "length bs \<le> k"
  shows "shift_by op sg k bs = replicate (length bs) (op = Ashr \<and> sg \<and> last bs)"
  by (rule nth_equalityI) (use assms in \<open>auto simp: shift_by_nth\<close>)

lemma shift_fill_bool:
  assumes "bs \<noteq> []"
  shows "shift_fill op ty bs False () = (Inr (op = Ashr \<and> ty_signed ty \<and> last bs), ())"
  using assms by (auto simp: shift_fill_def vget_def last_conv_nth)

lemma shift_stage_bool:
  assumes "op \<in> shift_ops" and "length bs = ty_width ty" and "bs \<noteq> []" and "k < length amount"
  shows "shift_stage bool_ops op amount ty False k bs () =
    (Inr (if amount ! k then shift_by op (ty_signed ty) (2 ^ k) bs else bs), ())"
proof -
  let ?f = "op = Ashr \<and> ty_signed ty \<and> last bs"
  have src: "shift_source op bs (ty_width ty) (2 ^ k) False ?f i () = (Inr (shift_by op (ty_signed ty) (2 ^ k) bs ! i), ())"
    if "i < length bs" for i
    using assms(1,2) that by (auto simp: shift_source_def vget_def shift_by_nth)
  have "smapM (\<lambda>index s.
      sbind (shift_source op bs (ty_width ty) (2 ^ k) False ?f index s) (\<lambda>shifted s.
      sbind (vget bs index s) (\<lambda>kept s. emit_mux bool_ops s (amount ! k) shifted kept))) [0..<ty_width ty] () =
    (Inr (map (\<lambda>i. if amount ! k then shift_by op (ty_signed ty) (2 ^ k) bs ! i else bs ! i) [0..<ty_width ty]), ())"
    by (rule smapM_bool) (use assms(2) src in \<open>simp add: vget_def\<close>)
  moreover have "map (\<lambda>i. if amount ! k then shift_by op (ty_signed ty) (2 ^ k) bs ! i else bs ! i) [0..<ty_width ty] =
      (if amount ! k then shift_by op (ty_signed ty) (2 ^ k) bs else bs)"
    by (rule nth_equalityI) (use assms(2) in auto)
  ultimately show ?thesis
    unfolding shift_stage_def Let_def using assms(4) by (simp only: vget_def if_True sbind_simps shift_fill_bool [OF assms(3)])
qed

lemma sfoldM_append: "sfoldM f (xs @ ys) a s = sbind (sfoldM f xs a s) (\<lambda>a s. sfoldM f ys a s)"
  by (induction xs arbitrary: a s) (auto simp: sbind_def split: prod.splits sum.splits)

lemma bits_val_take_Suc:
  assumes "m < length amount"
  shows "bits_val (take (Suc m) amount) = bits_val (take m amount) + (if amount ! m then 2 ^ m else 0)"
  using assms by (simp add: take_Suc_conv_app_nth bits_val_append min_def)

lemma shift_stages_bool:
  assumes "op \<in> shift_ops" and "length bs = ty_width ty" and "bs \<noteq> []" and "m \<le> length amount"
  shows "sfoldM (shift_stage bool_ops op amount ty False) [0..<m] bs () =
    (Inr (shift_by op (ty_signed ty) (bits_val (take m amount)) bs), ())"
  using assms(4)
proof (induction m)
  case 0
  then show ?case by simp
next
  case (Suc m)
  let ?cur = "shift_by op (ty_signed ty) (bits_val (take m amount)) bs"
  have m: "m < length amount" "m \<le> length amount" using Suc.prems by simp_all
  have cur: "length ?cur = ty_width ty" "?cur \<noteq> []" using assms(2,3) by (simp_all flip: length_greater_0_conv)
  have "sfoldM (shift_stage bool_ops op amount ty False) [0..<Suc m] bs () =
      shift_stage bool_ops op amount ty False m ?cur ()"
    using Suc.IH [OF m(2)] by (simp add: sfoldM_append sbind_def split: prod.split sum.split)
  also have "\<dots> = (Inr (if amount ! m then shift_by op (ty_signed ty) (2 ^ m) ?cur else ?cur), ())"
    by (rule shift_stage_bool [OF assms(1) cur m(1)])
  finally show ?case using m(1) by (simp add: bits_val_take_Suc shift_by_add add.commute)
qed

lemma bit_length_bound: "n < 2 ^ bit_length n"
proof (induction n rule: bit_length.induct)
  case (1 n)
  show ?case
  proof (cases "n = 0")
    case True
    then show ?thesis by (simp add: bit_length.simps)
  next
    case False
    with 1 have "n div 2 < 2 ^ bit_length (n div 2)" by simp
    with False show ?thesis by (subst bit_length.simps) simp
  qed
qed

lemma relevant_stages_bound: "n \<le> 2 ^ relevant_stages n"
  using bit_length_bound [of "n - 1"] by (auto simp: relevant_stages_def)

text \<open>The staged shifter shifts by the whole amount.\<close>

lemma shift_bits_bool:
  assumes op: "op \<in> shift_ops" and a: "fst a \<noteq> []" and b: "fst b \<noteq> []" and w: "0 < ty_width ty"
  shows "shift_bits bool_ops () op a b ty =
    (Inr (shift_by op (ty_signed ty) (bits_val (fst b)) (extend_bool a (ty_width ty) (ty_signed ty))), ())"
proof -
  let ?n = "ty_width ty" and ?sg = "ty_signed ty"
  let ?bs = "extend_bool a ?n ?sg" and ?r = "relevant_stages ?n"
  have bs: "length ?bs = ?n" "?bs \<noteq> []" using w by (simp_all flip: length_greater_0_conv)
  define m where "m = min (length (fst b)) ?r"
  define cur where "cur = shift_by op ?sg (bits_val (take m (fst b))) ?bs"
  have cur: "length cur = ?n" "cur \<noteq> []" using bs by (simp_all add: cur_def flip: length_greater_0_conv)
  have run: "shift_bits bool_ops () op a b ty = shift_overflow bool_ops op (fst b) ty False cur ()"
    unfolding shift_bits_def m_def [symmetric]
    using shift_stages_bool [OF op bs, of m "fst b"] bs w a
    by (simp add: resized_bits_bool vget_def m_def cur_def)
  show ?thesis
  proof (cases "length (fst b) > ?r")
    case False
    then have "take m (fst b) = fst b" by (simp add: m_def)
    with False run show ?thesis by (simp add: shift_overflow_def cur_def)
  next
    case True
    then have m: "m = ?r" by (simp add: m_def)
    have ne: "drop ?r (fst b) \<noteq> []" using True by simp
    let ?f = "op = Ashr \<and> ?sg \<and> last cur" and ?o = "True \<in> set (drop ?r (fst b))"
    have f: "?f = (op = Ashr \<and> ?sg \<and> last ?bs)" using shift_by_last [OF bs(2)] by (auto simp: cur_def)
    have "smapM (\<lambda>x s. emit_mux bool_ops s ?o ?f x) cur () = (Inr (map (\<lambda>x. if ?o then ?f else x) cur), ())"
      by (rule smapM_bool) simp
    then have "shift_overflow bool_ops op (fst b) ty False cur () = (Inr (map (\<lambda>x. if ?o then ?f else x) cur), ())"
      unfolding shift_overflow_def
      using True ne by (simp only: if_True reduce_values_bool [OF binary_sem.simps(3) assoc_ops(2) ne] fold_op_or [OF ne]
          sbind_simps shift_fill_bool [OF cur(2)])
    also have "map (\<lambda>x. if ?o then ?f else x) cur = shift_by op ?sg (bits_val (fst b)) ?bs"
    proof (cases ?o)
      case True
      have "bits_val (fst b) = bits_val (take ?r (fst b)) + 2 ^ ?r * bits_val (drop ?r (fst b))"
        using bits_val_append [of "take ?r (fst b)" "drop ?r (fst b)"] \<open>length (fst b) > ?r\<close> by (simp add: min_def)
      moreover have "0 < bits_val (drop ?r (fst b))" using True bits_val_pos by simp
      ultimately have "2 ^ ?r \<le> bits_val (fst b)" by (simp add: trans_le_add2)
      then have "?n \<le> bits_val (fst b)" using relevant_stages_bound le_trans by blast
      then have "shift_by op ?sg (bits_val (fst b)) ?bs = replicate ?n (op = Ashr \<and> ?sg \<and> last ?bs)"
        by (subst shift_by_all) simp_all
      with True f cur(1) show ?thesis by (simp add: map_replicate_const)
    next
      case False
      then have "bits_val (drop ?r (fst b)) = 0" using bits_val_pos by blast
      then have "bits_val (fst b) = bits_val (take ?r (fst b))"
        using bits_val_append [of "take ?r (fst b)" "drop ?r (fst b)"] by simp
      with False show ?thesis by (simp add: cur_def m)
    qed
    finally show ?thesis using run by simp
  qed
qed

lemma bits_val_drop: "bits_val (drop k bs) = bits_val bs div 2 ^ k"
proof (cases "k \<le> length bs")
  case True
  have "bits_val bs = bits_val (take k bs) + 2 ^ k * bits_val (drop k bs)"
    using bits_val_append [of "take k bs" "drop k bs"] True by (simp add: min_def)
  moreover have "bits_val (take k bs) < 2 ^ k" using bits_val_less [of "take k bs"] True by (simp add: min_def split: if_splits)
  ultimately show ?thesis by simp
next
  case False
  then have "bits_val bs < 2 ^ k"
    using bits_val_less [of bs] by (meson less_le_trans nat_le_linear numeral_le_iff one_le_numeral power_increasing)
  with False show ?thesis by simp
qed

text \<open>The number a shift denotes.\<close>

definition shift_val :: "BinaryOp \<Rightarrow> bool \<Rightarrow> bool list \<Rightarrow> nat \<Rightarrow> int"
  where "shift_val op sg bs k =
    (if op = Shl then int (bits_val bs) * 2 ^ k mod 2 ^ length bs
     else (if op = Ashr \<and> sg then signed_val bs else int (bits_val bs)) div 2 ^ k mod 2 ^ length bs)"

lemma shift_by_val:
  assumes "bs \<noteq> []"
  shows "int (bits_val (shift_by op sg k bs)) = shift_val op sg bs k"
proof (cases "op = Shl")
  case True
  have "bits_val (take (length bs) (replicate k False @ bs)) = 2 ^ k * bits_val bs mod 2 ^ length bs"
    by (simp only: bits_val_take bits_val_append bits_val_replicate_False length_replicate add_0)
  with True show ?thesis by (simp add: shift_by_def shift_val_def zmod_int mult.commute)
next
  case False
  let ?f = "op = Ashr \<and> sg \<and> last bs" and ?n = "length bs"
  have d: "int (bits_val (drop k bs)) = int (bits_val bs) div 2 ^ k" by (simp add: bits_val_drop zdiv_int)
  have lt: "int (bits_val bs) < 2 ^ ?n" by (rule bits_val_less_int)
  show ?thesis
  proof (cases ?f)
    case f: True
    have s: "signed_val bs = int (bits_val bs) - 2 ^ ?n" using f assms by (simp add: signed_val_def)
    show ?thesis
    proof (cases "k \<le> ?n")
      case True
      have ones: "int (bits_val (replicate k True)) = 2 ^ k - 1"
        using arg_cong [OF bits_val_replicate_True [of k], of int] by simp
      have pow: "(2::int) ^ ?n = 2 ^ k * 2 ^ (?n - k)" using True by (simp flip: power_add)
      have "int (bits_val (shift_by op sg k bs)) = int (bits_val bs) div 2 ^ k + 2 ^ (?n - k) * (2 ^ k - 1)"
        using f False True assms by (simp add: shift_by_def bits_val_append d ones min_def)
      also have "\<dots> = int (bits_val bs) div 2 ^ k - 2 ^ (?n - k) + 2 ^ ?n" using pow by (simp add: algebra_simps)
      also have "int (bits_val bs) div 2 ^ k - 2 ^ (?n - k) = signed_val bs div 2 ^ k"
        unfolding s pow by (simp add: diff_conv_add_uminus del: add_uminus_conv_diff flip: mult_minus_right)
      finally have v: "int (bits_val (shift_by op sg k bs)) = signed_val bs div 2 ^ k + 2 ^ ?n" .
      have "int (bits_val (shift_by op sg k bs)) < 2 ^ ?n" using bits_val_less_int [of "shift_by op sg k bs"] by simp
      then have "int (bits_val (shift_by op sg k bs)) = int (bits_val (shift_by op sg k bs)) mod 2 ^ ?n" by simp
      also have "\<dots> = (signed_val bs div 2 ^ k) mod 2 ^ ?n" unfolding v by (rule mod_add_self2)
      finally have "int (bits_val (shift_by op sg k bs)) = (signed_val bs div 2 ^ k) mod 2 ^ ?n" .
      with f False show ?thesis by (simp add: shift_val_def)
    next
      case k: False
      have all: "shift_by op sg k bs = replicate ?n True" using k f by (subst shift_by_all) simp_all
      have ones: "int (bits_val (replicate ?n True)) = 2 ^ ?n - 1"
        using arg_cong [OF bits_val_replicate_True [of ?n], of int] by simp
      have "(2::int) ^ ?n \<le> 2 ^ k" using k by simp
      then have "0 \<le> signed_val bs + 2 ^ k" "signed_val bs + 2 ^ k < 2 ^ k" unfolding s using lt by linarith+
      then have "signed_val bs div 2 ^ k = - 1"
        by (intro int_div_pos_eq [of _ _ _ "signed_val bs + 2 ^ k"]) simp_all
      then have "shift_val op sg bs k = (- 1) mod 2 ^ ?n" using f False by (simp add: shift_val_def)
      then show ?thesis by (simp add: all ones zmod_minus1)
    qed
  next
    case nf: False
    have "bits_val (shift_by op sg k bs) = bits_val (drop k bs)"
      using nf False assms by (auto simp: shift_by_def bits_val_append)
    moreover have "shift_val op sg bs k = int (bits_val bs) div 2 ^ k mod 2 ^ ?n"
      using nf False assms by (auto simp: shift_val_def signed_val_def)
    moreover have "int (bits_val (drop k bs)) < 2 ^ ?n"
      using bits_val_less_int [of "shift_by op sg k bs"] calculation(1) by simp
    ultimately show ?thesis by (simp add: d mod_pos_pos_trivial pos_imp_zdiv_nonneg_iff)
  qed
qed

section \<open>Bitwise, logical and structural operations\<close>

fun unary_val :: "UnaryOp \<Rightarrow> bool list \<Rightarrow> bool list"
  where
    "unary_val BitNot bs = map Not bs"
  | "unary_val LogicalNot bs = [bits_val bs = 0]"
  | "unary_val ReductionAnd bs = [False \<notin> set bs]"
  | "unary_val ReductionOr bs = [bits_val bs \<noteq> 0]"
  | "unary_val ReductionXor bs = [odd (length (filter id bs))]"

lemma bits_val_zero: "bits_val bs = 0 \<longleftrightarrow> True \<notin> set bs"
  using bits_val_pos [of bs] by auto

lemmas reductions_bool =
  reduce_values_bool [OF binary_sem.simps(3) assoc_ops(2)]
  reduce_values_bool [OF binary_sem.simps(1) assoc_ops(1)]
  reduce_values_bool [OF binary_sem.simps(5) assoc_ops(3)]

lemma unary_bits_bool:
  assumes "bs \<noteq> []"
  shows "unary_bits bool_ops () op bs = (Inr (unary_val op bs), ())"
proof (cases op)
  case BitNot
  have "smapM (\<lambda>x s. emit_unary bool_ops s BitNot x) bs () = (Inr (map Not bs), ())"
    by (rule smapM_bool) simp
  with BitNot show ?thesis by (simp add: unary_bits_def)
next
  case ReductionXor
  show ?thesis
    unfolding unary_bits_def ReductionXor UnaryOp.case reductions_bool(3) [OF assms] fold_op_xor [OF assms] by simp
qed (use assms in \<open>simp_all add: unary_bits_def reductions_bool fold_op_or fold_op_and fold_op_xor bits_val_zero\<close>)

lemma bitwise_binary_bits_bool:
  assumes "fst a \<noteq> []" and "fst b \<noteq> []" and "binary_sem op = Some f"
  shows "bitwise_binary_bits bool_ops () op a b ty =
    (Inr (map2 f (extend_bool a (ty_width ty) (ty_signed ty)) (extend_bool b (ty_width ty) (ty_signed ty))), ())"
proof -
  let ?x = "extend_bool a (ty_width ty) (ty_signed ty)" and ?y = "extend_bool b (ty_width ty) (ty_signed ty)"
  have "bitwise_binary_bits bool_ops () op a b ty = (Inr (map (\<lambda>i. f (?x ! i) (?y ! i)) [0..<ty_width ty]), ())"
    unfolding bitwise_binary_bits_def
    by (rule smapM_bool) (use assms in \<open>simp add: resized_bit_bool [of _ _ "ty_width ty"]\<close>)
  also have "map (\<lambda>i. f (?x ! i) (?y ! i)) [0..<ty_width ty] = map2 f ?x ?y"
    by (rule nth_equalityI) auto
  finally show ?thesis .
qed

lemma extended_eq:
  assumes a: "fst a \<noteq> []" "length (fst a) \<le> n" and b: "fst b \<noteq> []" "length (fst b) \<le> n"
    and se: "se = (ty_signed (snd a) \<and> ty_signed (snd b))"
  shows "extend_bool a n se = extend_bool b n se \<longleftrightarrow> operand_val a se = operand_val b se"
proof (cases se)
  case True
  have "signed_val (extend_bool a n se) = operand_val a se" "signed_val (extend_bool b n se) = operand_val b se"
    using extend_signed a b True se by (simp_all add: operand_val_def)
  moreover have "xs = ys" if "signed_val xs = signed_val ys" "length xs = length ys" for xs ys
  proof (rule bits_val_inj [OF that(2)])
    have "\<And>bs. int (bits_val bs) = signed_val bs mod 2 ^ length bs"
    proof -
      fix bs
      have "signed_val bs mod 2 ^ length bs = int (bits_val bs) mod 2 ^ length bs"
        by (simp add: signed_val_def mod_eq_dvd_iff)
      then show "int (bits_val bs) = signed_val bs mod 2 ^ length bs"
        using bits_val_less_int [of bs] by simp
    qed
    then show "bits_val xs = bits_val ys" using that by (metis of_nat_eq_iff)
  qed
  ultimately show ?thesis by (metis length_extend_bool)
next
  case False
  then have "bits_val (extend_bool a n se) = bits_val (fst a)" "bits_val (extend_bool b n se) = bits_val (fst b)"
    using extend_unsigned [OF a(2), of se] extend_unsigned [OF b(2), of se] by simp_all
  with False show ?thesis
    using bits_val_inj [of "extend_bool a n se" "extend_bool b n se"] by (auto simp: operand_val_def)
qed

lemma equality_bits_bool:
  assumes a: "fst a \<noteq> []" "length (fst a) = ty_width (snd a)" and b: "fst b \<noteq> []" "length (fst b) = ty_width (snd b)"
    and se: "se = (ty_signed (snd a) \<and> ty_signed (snd b))"
  shows "equality_bits bool_ops () op a b = (Inr [(operand_val a se = operand_val b se) \<noteq> (op = Ne)], ())"
proof -
  define n where "n = max (ty_width (snd a)) (ty_width (snd b))"
  define xs ys where "xs = extend_bool a n se" and "ys = extend_bool b n se"
  have n: "0 < n" "length (fst a) \<le> n" "length (fst b) \<le> n" using a b by (auto simp: n_def simp flip: length_greater_0_conv)
  have d: "smapM (\<lambda>index s.
        sbind (resized_bit bool_ops s a index se) (\<lambda>l s.
        sbind (resized_bit bool_ops s b index se) (\<lambda>r s.
          emit_binary bool_ops s BitXor l r))) [0..<n] () = (Inr (map (\<lambda>i. xs ! i \<noteq> ys ! i) [0..<n]), ())"
    by (rule smapM_bool) (use a b in \<open>simp add: resized_bit_bool [of _ _ n] xs_def ys_def\<close>)
  have "(True \<in> set (map (\<lambda>i. xs ! i \<noteq> ys ! i) [0..<n])) = (xs \<noteq> ys)"
    by (auto simp: list_eq_iff_nth_eq xs_def ys_def)
  then have o: "(True \<in> set (map (\<lambda>i. xs ! i \<noteq> ys ! i) [0..<n])) = (operand_val a se \<noteq> operand_val b se)"
    using extended_eq [OF a(1) n(2) b(1) n(3) se] by (simp add: xs_def ys_def)
  have ne: "map (\<lambda>i. xs ! i \<noteq> ys ! i) [0..<n] \<noteq> []" using n(1) by simp
  show ?thesis
    unfolding equality_bits_def Let_def n_def [symmetric] se [symmetric] d sbind_simps reductions_bool(1) [OF ne] fold_op_or [OF ne] o
    by simp
qed

lemma mux_bits_bool:
  assumes "length cs = 1" and "length ts = length es"
  shows "mux_bits bool_ops () cs ts es ty = (Inr (if hd cs then ts else es), ())"
proof -
  have "mux_bit bool_ops c ty p () = (Inr (if c then fst p else snd p), ())" for c p
    by (simp add: mux_bit_def WordType_new_def lift_result_def)
  then have "smapM (mux_bit bool_ops (hd cs) ty) (zip ts es) () =
      (Inr (map (\<lambda>p. if hd cs then fst p else snd p) (zip ts es)), ())"
    by (intro smapM_bool) simp
  moreover have "map (\<lambda>p. if hd cs then fst p else snd p) (zip ts es) = (if hd cs then ts else es)"
    using assms(2) by (auto simp: map_fst_zip map_snd_zip)
  moreover have "cs ! 0 = hd cs" using assms(1) by (cases cs) auto
  ultimately show ?thesis
    using assms by (simp add: mux_bits_def scalar_value_def vget_def)
qed

lemma logical_bits_bool:
  assumes "xs \<noteq> []" and "ys \<noteq> []" and "binary_sem op = Some f"
  shows "logical_bits bool_ops () op xs ys = (Inr [f (bits_val xs \<noteq> 0) (bits_val ys \<noteq> 0)], ())"
  using assms by (simp add: logical_bits_def reductions_bool fold_op_or bits_val_zero)

text \<open>The part that is written last is the least significant one.\<close>

lemma concat_bits_val:
  "bits_val (concat_bits (xs # parts)) = bits_val (concat_bits parts) + 2 ^ length (concat_bits parts) * bits_val xs"
  by (simp add: concat_bits_def bits_val_append)

lemma extract_bits_val:
  assumes "extract_bits bs lsb n = Inr out"
  shows "length out = n" and "bits_val out = bits_val bs div 2 ^ lsb mod 2 ^ n"
proof -
  from assms have le: "lsb + n \<le> length bs" and out: "out = map ((!) bs) [lsb..<lsb + n]"
    by (auto simp: extract_bits_def split: if_splits)
  from out show "length out = n" by simp
  have "out = take n (drop lsb bs)"
    unfolding out by (rule nth_equalityI) (use le in auto)
  then show "bits_val out = bits_val bs div 2 ^ lsb mod 2 ^ n" by (simp add: bits_val_take bits_val_drop)
qed

definition cast_val :: "CastKind \<Rightarrow> bool operand \<Rightarrow> int"
  where "cast_val kind a = (if kind = SignExtend then signed_val (fst a) else int (bits_val (fst a)))"

lemma cast_bits_bool:
  assumes "fst a \<noteq> []" and "0 < ty_width ty" and "kind = Truncate \<Longrightarrow> ty_width ty \<le> length (fst a)"
  shows "cast_bits bool_ops () kind a ty =
    (Inr (extend_bool (fst a, (snd a)\<lparr>ty_signed := (kind = SignExtend)\<rparr>) (ty_width ty) True), ())"
proof -
  let ?a = "(fst a, (snd a)\<lparr>ty_signed := (kind = SignExtend)\<rparr>)"
  define bits where "bits = extend_bool ?a (ty_width ty) True"
  have len: "0 < length bits" using assms(2) by (simp add: bits_def)
  have run: "smapM (\<lambda>index s.
        if index < length (fst a) then vget (fst a) index s
        else case kind of
            SignExtend \<Rightarrow> vget (fst a) (length (fst a) - 1) s
          | ZeroExtend \<Rightarrow> emit_constant bool_ops s BitZero (ty_state (snd a))
          | Truncate \<Rightarrow> (Inl (Invariant ''truncate cast cannot require extension during bitblast''), s))
      [0..<ty_width ty] () = (Inr (map (\<lambda>i. bits ! i) [0..<ty_width ty]), ())"
    by (rule smapM_bool; cases kind)
      (use assms in \<open>auto simp: bits_def extend_bool_def vget_def last_conv_nth\<close>)
  have all: "map (\<lambda>i. bits ! i) [0..<ty_width ty] = bits"
    by (rule nth_equalityI) (simp_all add: bits_def)
  have un: "smapM (\<lambda>x s. unsigned_bit bool_ops s x) bits () = (Inr (map (\<lambda>x. x) bits), ())"
    by (rule smapM_bool) simp
  show ?thesis
    unfolding cast_bits_def run all sbind_simps bits_def [symmetric]
    using un len by (simp add: vget_def lift_result_def bool_ops_def)
qed

lemma cast_bits_val:
  assumes "fst a \<noteq> []"
  shows "int (bits_val (extend_bool (fst a, (snd a)\<lparr>ty_signed := (kind = SignExtend)\<rparr>) n True)) = cast_val kind a mod 2 ^ n"
  using extend_bool_val [of "(fst a, (snd a)\<lparr>ty_signed := (kind = SignExtend)\<rparr>)" n True] assms
  by (simp add: operand_val_def cast_val_def)

end
