(* ===== verification/Compressor.thy ===== *)
theory Compressor
  imports Operations_Correct
begin

text \<open>
  The carry-save compressor of the bit-blaster,
  \<^verbatim>\<open>crates/opto-synth/src/boolean/bitblast/compressor.rs\<close>: matrices of rows of optional bits
  with a constant correction, merged with either sign and reduced to two vectors by one of
  four schedules. Every schedule keeps the number the matrix denotes modulo its width.
\<close>

section \<open>Matrices\<close>

type_synonym 'a BitRow = "'a option list"

datatype CompressionSchedule = Serial | Balanced | Wallace | Dadda

record 'a BitMatrix =
  mx_width :: nat
  mx_rows :: "'a BitRow list"
  mx_correction :: "bool list"

definition BitMatrix_new :: "nat \<Rightarrow> 'a BitMatrix"
  where "BitMatrix_new width = \<lparr>mx_width = width, mx_rows = [], mx_correction = replicate width False\<rparr>"

text \<open>The rows next to the one at \<open>index\<close>.\<close>

definition other_rows :: "nat \<Rightarrow> 'x list \<Rightarrow> 'x list"
  where "other_rows index rows = take index rows @ drop (Suc index) rows"

text \<open>
  Is the row at \<open>index\<close> a single bit that arrives no later than every other bit of the matrix?
\<close>

definition carry_input_at ::
  "('a \<Rightarrow> bool) \<Rightarrow> ('a \<Rightarrow> u32 option) \<Rightarrow> 'a BitRow list \<Rightarrow> nat \<Rightarrow> bool"
  where "carry_input_at is_zero level rows index =
    (let row = rows ! index
     in case row of
          Some carry # rest \<Rightarrow>
            \<not> is_zero carry \<and>
            (case level carry of
               None \<Rightarrow> False
             | Some carry_level \<Rightarrow>
                 list_all (\<lambda>x. case x of None \<Rightarrow> True | Some b \<Rightarrow> is_zero b) rest \<and>
                 list_all (\<lambda>x. case x of None \<Rightarrow> True
                   | Some b \<Rightarrow> is_zero b \<or> (case level b of None \<Rightarrow> False | Some l \<Rightarrow> carry_level \<le> l))
                   (concat (other_rows index rows)))
        | _ \<Rightarrow> False)"

definition take_carry_input ::
  "'a BitMatrix \<Rightarrow> ('a \<Rightarrow> bool) \<Rightarrow> ('a \<Rightarrow> u32 option) \<Rightarrow> 'a option \<times> 'a BitMatrix"
  where "take_carry_input m is_zero level =
    (if length (mx_rows m) \<noteq> 3 \<or> list_ex id (mx_correction m) then (None, m)
     else case find (carry_input_at is_zero level (mx_rows m)) [0..<length (mx_rows m)] of
         None \<Rightarrow> (None, m)
       | Some index \<Rightarrow> (hd (mx_rows m ! index), m\<lparr>mx_rows := other_rows index (mx_rows m)\<rparr>))"

definition push_row :: "'a BitRow \<Rightarrow> 'a BitMatrix \<Rightarrow> 'a BitMatrix"
  where "push_row row m = (if list_ex (\<lambda>x. x \<noteq> None) row then m\<lparr>mx_rows := mx_rows m @ [row]\<rparr> else m)"

fun ripple_correction :: "bool \<Rightarrow> bool list \<Rightarrow> bool list"
  where
    "ripple_correction negative [] = []"
  | "ripple_correction negative (previous # bits) =
      (\<not> previous) # (if (if negative then \<not> previous else previous) then ripple_correction negative bits else bits)"

definition add_correction_power :: "nat \<Rightarrow> bool \<Rightarrow> 'a BitMatrix \<Rightarrow> 'a BitMatrix"
  where "add_correction_power column negative m =
    (if column \<ge> mx_width m then m
     else m\<lparr>mx_correction := take column (mx_correction m) @ ripple_correction negative (drop column (mx_correction m))\<rparr>)"

definition take_rows_with_correction :: "'a BitMatrix \<Rightarrow> 'a \<Rightarrow> 'a BitRow list"
  where "take_rows_with_correction m one =
    (if list_ex id (mx_correction m)
     then mx_rows m @ [map (\<lambda>b. if b then Some one else None) (mx_correction m)]
     else mx_rows m)"

text \<open>The loop that adds or subtracts the correction bits of one matrix to another.\<close>

definition merge_correction :: "bool list \<Rightarrow> bool \<Rightarrow> 'a BitMatrix \<Rightarrow> 'a BitMatrix"
  where "merge_correction correction negative m =
    fold (\<lambda>(column, bit_set) m. if bit_set then add_correction_power column negative m else m)
      (enumerate 0 correction) m"

text \<open>
  A negated row, bit by bit: a set bit is inverted, and \<open>- b = (1 - b) - 1\<close> leaves one unit of
  its column to be subtracted from the correction of the target.
\<close>

definition negated_bit ::
  "('s, 'a) bit_ops \<Rightarrow> nat \<times> 'a option \<Rightarrow> 'a BitRow \<times> 'a BitMatrix \<Rightarrow> 's \<Rightarrow> ('s, SynthError, 'a BitRow \<times> 'a BitMatrix) outcome"
  where "negated_bit em entry acc s =
    (case (entry, acc) of
       ((column, None), (negated, target)) \<Rightarrow> (Inr (negated @ [None], target), s)
     | ((column, Some x), (negated, target)) \<Rightarrow>
         sbind (emit_unary em s BitNot x) (\<lambda>y s.
           (Inr (negated @ [Some y], add_correction_power column True target), s)))"

definition negated_row ::
  "('s, 'a) bit_ops \<Rightarrow> 'a BitRow \<Rightarrow> 'a BitMatrix \<Rightarrow> 's \<Rightarrow> ('s, SynthError, 'a BitMatrix) outcome"
  where "negated_row em row target s =
    smap (\<lambda>(negated, target). push_row negated target) (sfoldM (negated_bit em) (enumerate 0 row) ([], target) s)"

definition append_matrix ::
  "('s, 'a) bit_ops \<Rightarrow> 's \<Rightarrow> 'a BitMatrix \<Rightarrow> 'a BitMatrix \<Rightarrow> bool \<Rightarrow> ('s, SynthError, 'a BitMatrix) outcome"
  where "append_matrix em s target source_matrix negative =
    (if mx_width target \<noteq> mx_width source_matrix
     then (Inl (Invariant ''cannot merge arithmetic matrices with different widths''), s)
     else if \<not> negative
     then (Inr (merge_correction (mx_correction source_matrix) False
             (target\<lparr>mx_rows := mx_rows target @ mx_rows source_matrix\<rparr>)), s)
     else smap (merge_correction (mx_correction source_matrix) True)
            (sfoldM (negated_row em) (mx_rows source_matrix) target s))"

definition append_signed_row ::
  "('s, 'a) bit_ops \<Rightarrow> 's \<Rightarrow> 'a BitMatrix \<Rightarrow> 'a BitRow \<Rightarrow> bool \<Rightarrow> ('s, SynthError, 'a BitMatrix) outcome"
  where "append_signed_row em s matrix row negative =
    append_matrix em s matrix (push_row row (BitMatrix_new (mx_width matrix))) negative"

section \<open>Adders of single bits\<close>

definition full_adder :: "('s, 'a) bit_ops \<Rightarrow> 's \<Rightarrow> 'a \<Rightarrow> 'a \<Rightarrow> 'a \<Rightarrow> ('s, SynthError, 'a \<times> 'a) outcome"
  where "full_adder em s left right carry_in =
    sbind (emit_binary em s BitXor left right) (\<lambda>propagate s.
    sbind (emit_binary em s BitXor propagate carry_in) (\<lambda>sum s.
    sbind (emit_binary em s BitAnd left right) (\<lambda>generate s.
    sbind (emit_binary em s BitAnd propagate carry_in) (\<lambda>propagated s.
    sbind (emit_binary em s BitOr generate propagated) (\<lambda>carry s.
      (Inr (sum, carry), s))))))"

definition half_adder :: "('s, 'a) bit_ops \<Rightarrow> 's \<Rightarrow> 'a \<Rightarrow> 'a \<Rightarrow> ('s, SynthError, 'a \<times> 'a) outcome"
  where "half_adder em s left right =
    sbind (emit_binary em s BitXor left right) (\<lambda>sum s.
    sbind (emit_binary em s BitAnd left right) (\<lambda>carry s.
      (Inr (sum, carry), s)))"

section \<open>Compression of rows\<close>

definition compress_column ::
  "('s, 'a) bit_ops \<Rightarrow> 's \<Rightarrow> 'a option list \<Rightarrow> ('s, SynthError, 'a option \<times> 'a option) outcome"
  where "compress_column em s bits =
    (case List.map_filter id bits of
       [] \<Rightarrow> (Inr (None, None), s)
     | [first] \<Rightarrow> (Inr (Some first, None), s)
     | [first, second] \<Rightarrow> smap (map_prod Some Some) (half_adder em s first second)
     | first # second # third # _ \<Rightarrow> smap (map_prod Some Some) (full_adder em s first second third))"

text \<open>The carry of a column goes to the next one; that of the last column is dropped.\<close>

definition compress_row_triplet ::
  "('s, 'a) bit_ops \<Rightarrow> 's \<Rightarrow> 'a BitRow \<Rightarrow> 'a BitRow \<Rightarrow> 'a BitRow \<Rightarrow> nat \<Rightarrow> ('s, SynthError, 'a BitRow list) outcome"
  where "compress_row_triplet em s left right third width =
    smap (\<lambda>columns. [map fst columns, take width (None # map snd columns)])
      (smapM (\<lambda>column s.
        sbind (vget left column s) (\<lambda>l s.
        sbind (vget right column s) (\<lambda>r s.
        sbind (vget third column s) (\<lambda>t s.
          compress_column em s [l, r, t])))) [0..<width] s)"

definition reduce_rows_serial ::
  "('s, 'a) bit_ops \<Rightarrow> 's \<Rightarrow> 'a BitRow list \<Rightarrow> nat \<Rightarrow> ('s, SynthError, 'a BitRow list) outcome"
  where "reduce_rows_serial em s rows width =
    (if length rows \<le> 2 then (Inr rows, s)
     else sfoldM (\<lambda>row rows s. case rows of
         [left, right] \<Rightarrow> compress_row_triplet em s left right row width
       | _ \<Rightarrow> (Inl (Invariant ''serial compressor retained a wrong number of accumulator rows''), s))
       (drop 2 rows) (take 2 rows) s)"

fun balanced_round ::
  "('s, 'a) bit_ops \<Rightarrow> nat \<Rightarrow> 'a BitRow list \<Rightarrow> 's \<Rightarrow> ('s, SynthError, 'a BitRow list) outcome"
  where
    "balanced_round em width (left # right # third # rows) s =
      sbind (compress_row_triplet em s left right third width) (\<lambda>compressed s.
        smap (\<lambda>rest. compressed @ rest) (balanced_round em width rows s))"
  | "balanced_round em width rows s = (Inr rows, s)"

text \<open>
  Each round leaves fewer rows, so as many rounds as there are rows are enough.
\<close>

fun balanced_rounds ::
  "nat \<Rightarrow> ('s, 'a) bit_ops \<Rightarrow> nat \<Rightarrow> 'a BitRow list \<Rightarrow> 's \<Rightarrow> ('s, SynthError, 'a BitRow list) outcome"
  where
    "balanced_rounds 0 em width rows s = (Inr rows, s)"
  | "balanced_rounds (Suc n) em width rows s =
      (if length rows > 2 then sbind (balanced_round em width rows s) (\<lambda>rows s. balanced_rounds n em width rows s)
       else (Inr rows, s))"

definition reduce_rows_balanced ::
  "('s, 'a) bit_ops \<Rightarrow> 's \<Rightarrow> 'a BitRow list \<Rightarrow> nat \<Rightarrow> ('s, SynthError, 'a BitRow list) outcome"
  where "reduce_rows_balanced em s rows width = balanced_rounds (length rows) em width rows s"

section \<open>Compression of columns\<close>

type_synonym 'a BitColumns = "'a list list"

fun push_bits :: "'a BitRow \<Rightarrow> 'a BitColumns \<Rightarrow> 'a BitColumns"
  where
    "push_bits (Some x # row) (column # columns) = (column @ [x]) # push_bits row columns"
  | "push_bits (None # row) (column # columns) = column # push_bits row columns"
  | "push_bits _ columns = columns"

definition rows_to_columns :: "'a BitRow list \<Rightarrow> nat \<Rightarrow> 'a BitColumns"
  where "rows_to_columns rows width = fold push_bits rows (replicate width [])"

definition columns_to_rows :: "'a BitColumns \<Rightarrow> SynthError + 'a BitRow list"
  where "columns_to_rows columns =
    (if list_ex (\<lambda>column. length column > 2) columns
     then Inl (Invariant ''column reduction left more than two rows'')
     else Inr [map (\<lambda>column. list_get column 0) columns, map (\<lambda>column. list_get column 1) columns])"

definition rows_to_vectors :: "'a BitRow list \<Rightarrow> nat \<Rightarrow> 'a \<Rightarrow> SynthError + ('a list \<times> 'a list)"
  where "rows_to_vectors rows width zero =
    (case rows @ replicate (2 - length rows) (replicate width None) of
       [left, right] \<Rightarrow> Inr (map (\<lambda>x. case_option zero id x) left, map (\<lambda>x. case_option zero id x) right)
     | _ \<Rightarrow> Inl (Invariant ''arithmetic compression left more than two rows''))"

text \<open>
  One pass of a column schedule goes through the columns from the least significant one. When it
  reaches a column, its slot of \<^verbatim>\<open>next\<close> holds exactly the carries of the column before it: they
  are passed on as \<open>incoming\<close>. The carries out of the last column are dropped.
\<close>

fun wallace_column ::
  "('s, 'a) bit_ops \<Rightarrow> 'a list \<Rightarrow> 's \<Rightarrow> ('s, SynthError, 'a list \<times> 'a list) outcome"
  where
    "wallace_column em (a # b # c # column) s =
      sbind (full_adder em s a b c) (\<lambda>(sum, carry) s.
        smap (\<lambda>(sums, carries). (sum # sums, carry # carries)) (wallace_column em column s))"
  | "wallace_column em remainder s = (Inr (remainder, []), s)"

fun wallace_pass ::
  "('s, 'a) bit_ops \<Rightarrow> 'a list \<Rightarrow> 'a BitColumns \<Rightarrow> 's \<Rightarrow> ('s, SynthError, 'a BitColumns) outcome"
  where
    "wallace_pass em incoming [] s = (Inr [], s)"
  | "wallace_pass em incoming (column # columns) s =
      sbind (wallace_column em column s) (\<lambda>(sums, carries) s.
        smap (Cons (incoming @ sums)) (wallace_pass em carries columns s))"

text \<open>
  A pass that runs has a column of three bits and removes at least one bit of the matrix, so
  as many passes as there are bits are enough.
\<close>

fun wallace_rounds ::
  "nat \<Rightarrow> ('s, 'a) bit_ops \<Rightarrow> 'a BitColumns \<Rightarrow> 's \<Rightarrow> ('s, SynthError, 'a BitColumns) outcome"
  where
    "wallace_rounds 0 em columns s = (Inr columns, s)"
  | "wallace_rounds (Suc n) em columns s =
      (if list_ex (\<lambda>column. length column > 2) columns
       then sbind (wallace_pass em [] columns s) (\<lambda>columns s. wallace_rounds n em columns s)
       else (Inr columns, s))"

definition bit_count :: "'a BitColumns \<Rightarrow> nat"
  where "bit_count columns = sum_list (map length columns)"

definition reduce_columns_wallace ::
  "('s, 'a) bit_ops \<Rightarrow> 's \<Rightarrow> 'a BitColumns \<Rightarrow> ('s, SynthError, 'a BitRow list) outcome"
  where "reduce_columns_wallace em s columns =
    sbind (wallace_rounds (bit_count columns) em columns s) (\<lambda>columns s. lift_result (columns_to_rows columns) s)"

fun dadda_full ::
  "('s, 'a) bit_ops \<Rightarrow> nat \<Rightarrow> 'a list \<Rightarrow> 's \<Rightarrow> ('s, SynthError, 'a list \<times> 'a list \<times> 'a list) outcome"
  where
    "dadda_full em 0 bits s = (Inr ([], [], bits), s)"
  | "dadda_full em (Suc n) (a # b # c # bits) s =
      sbind (full_adder em s a b c) (\<lambda>(sum, carry) s.
        smap (\<lambda>(sums, carries, bits). (sum # sums, carry # carries, bits)) (dadda_full em n bits s))"
  | "dadda_full em (Suc n) bits s = (Inl (Panic ''Dadda full adder has three inputs''), s)"

fun dadda_half ::
  "('s, 'a) bit_ops \<Rightarrow> nat \<Rightarrow> 'a list \<Rightarrow> 's \<Rightarrow> ('s, SynthError, 'a list \<times> 'a list \<times> 'a list) outcome"
  where
    "dadda_half em 0 bits s = (Inr ([], [], bits), s)"
  | "dadda_half em (Suc n) (a # b # bits) s =
      sbind (half_adder em s a b) (\<lambda>(sum, carry) s.
        smap (\<lambda>(sums, carries, bits). (sum # sums, carry # carries, bits)) (dadda_half em n bits s))"
  | "dadda_half em (Suc n) bits s = (Inl (Panic ''Dadda half adder has two inputs''), s)"

definition dadda_excess :: "nat \<Rightarrow> nat \<Rightarrow> nat \<Rightarrow> nat"
  where "dadda_excess target incoming len = len + incoming - target"

definition dadda_fulls :: "nat \<Rightarrow> nat \<Rightarrow> nat \<Rightarrow> nat"
  where "dadda_fulls target incoming len = min (dadda_excess target incoming len div 2) (len div 3)"

definition dadda_halves :: "nat \<Rightarrow> nat \<Rightarrow> nat \<Rightarrow> nat"
  where "dadda_halves target incoming len =
    (let fulls = dadda_fulls target incoming len
     in min (dadda_excess target incoming len - fulls * 2) ((len - fulls * 3) div 2))"

fun dadda_pass ::
  "('s, 'a) bit_ops \<Rightarrow> nat \<Rightarrow> 'a list \<Rightarrow> 'a BitColumns \<Rightarrow> 's \<Rightarrow> ('s, SynthError, bool \<times> 'a BitColumns) outcome"
  where
    "dadda_pass em target incoming [] s = (Inr (False, []), s)"
  | "dadda_pass em target incoming (column # columns) s =
      (let fulls = dadda_fulls target (length incoming) (length column);
           halves = dadda_halves target (length incoming) (length column)
       in sbind (dadda_full em fulls column s) (\<lambda>(sums, carries, bits) s.
          sbind (dadda_half em halves bits s) (\<lambda>(half_sums, half_carries, bits) s.
            smap (\<lambda>(progress, rest).
                (fulls + halves \<noteq> 0 \<or> progress, (incoming @ sums @ half_sums @ bits) # rest))
              (dadda_pass em target (carries @ half_carries) columns s))))"

text \<open>
  The loop for one target. A pass moves bits towards the more significant columns or removes
  them: \<open>dadda_weight\<close>, in which a bit counts more the less significant its column is,
  decreases, so that many passes are enough.
\<close>

fun dadda_weight :: "'a BitColumns \<Rightarrow> nat"
  where
    "dadda_weight [] = 0"
  | "dadda_weight (column # columns) = length column * Suc (length columns) + dadda_weight columns"

fun dadda_target ::
  "nat \<Rightarrow> ('s, 'a) bit_ops \<Rightarrow> nat \<Rightarrow> 'a BitColumns \<Rightarrow> 's \<Rightarrow> ('s, SynthError, 'a BitColumns) outcome"
  where
    "dadda_target 0 em target columns s = (Inr columns, s)"
  | "dadda_target (Suc n) em target columns s =
      sbind (dadda_pass em target [] columns s) (\<lambda>(made_progress, columns) s.
        if list_all (\<lambda>column. length column \<le> target) columns then (Inr columns, s)
        else if \<not> made_progress then (Inl (Invariant ''Dadda reduction made no progress''), s)
        else dadda_target n em target columns s)"

definition saturating_mul :: "nat \<Rightarrow> nat \<Rightarrow> nat"
  where "saturating_mul a b = min (a * b) (2 ^ 64 - 1)"

text \<open>
  The targets in the order of the loop, the largest one left out: the list of the source read
  backwards. The targets increase by at least one, so \<open>maximum\<close> of them are enough.
\<close>

fun dadda_targets :: "nat \<Rightarrow> nat \<Rightarrow> nat list \<Rightarrow> nat list"
  where
    "dadda_targets 0 maximum targets = targets"
  | "dadda_targets (Suc n) maximum targets =
      (if hd targets < maximum then dadda_targets n maximum (saturating_mul (hd targets) 3 div 2 # targets)
       else targets)"

definition column_maximum :: "'a BitColumns \<Rightarrow> nat"
  where "column_maximum columns = fold max (map length columns) 0"

definition reduce_columns_dadda ::
  "('s, 'a) bit_ops \<Rightarrow> 's \<Rightarrow> 'a BitColumns \<Rightarrow> ('s, SynthError, 'a BitRow list) outcome"
  where "reduce_columns_dadda em s columns =
    (let maximum = column_maximum columns;
         targets = tl (dadda_targets maximum maximum [2])
     in sbind (sfoldM (\<lambda>target columns s. dadda_target (Suc (dadda_weight columns)) em target columns s) targets columns s)
          (\<lambda>columns s.
            if list_ex (\<lambda>column. length column > 2) columns
            then (Inl (Invariant ''Dadda reduction left more than two rows''), s)
            else lift_result (columns_to_rows columns) s))"

definition reduce_matrix ::
  "('s, 'a) bit_ops \<Rightarrow> 's \<Rightarrow> 'a BitMatrix \<Rightarrow> CompressionSchedule \<Rightarrow> 'a \<Rightarrow> 'a \<Rightarrow> ('s, SynthError, 'a list \<times> 'a list) outcome"
  where "reduce_matrix em s matrix schedule zero one =
    (let rows = take_rows_with_correction matrix one; width = mx_width matrix
     in sbind (case schedule of
           Serial \<Rightarrow> reduce_rows_serial em s rows width
         | Balanced \<Rightarrow> reduce_rows_balanced em s rows width
         | Wallace \<Rightarrow> reduce_columns_wallace em s (rows_to_columns rows width)
         | Dadda \<Rightarrow> reduce_columns_dadda em s (rows_to_columns rows width)) (\<lambda>rows s.
         lift_result (rows_to_vectors rows width zero) s))"

end
