(* ===== verification/Compressor_Correct.thy ===== *)
theory Compressor_Correct
  imports Compressor
begin

text \<open>
  The four schedules of the compressor return two vectors whose sum is the number the matrix
  denotes, modulo its width; the merging operations add or subtract the numbers of matrices.
\<close>

section \<open>The numbers rows, columns and matrices denote\<close>

fun ones :: "bool list \<Rightarrow> nat"
  where
    "ones [] = 0"
  | "ones (b # bs) = of_bool b + ones bs"

lemma ones_append [simp]: "ones (xs @ ys) = ones xs + ones ys"
  by (induction xs) auto

definition row_val :: "bool option list \<Rightarrow> nat"
  where "row_val row = bits_val (map (\<lambda>x. x = Some True) row)"

lemma row_val_simps [simp]:
  "row_val [] = 0" "row_val (x # row) = of_bool (x = Some True) + 2 * row_val row"
  by (simp_all add: row_val_def)

definition rows_val :: "bool option list list \<Rightarrow> nat"
  where "rows_val rows = sum_list (map row_val rows)"

lemma rows_val_simps [simp]:
  "rows_val [] = 0" "rows_val (r # rs) = row_val r + rows_val rs" "rows_val (rs @ qs) = rows_val rs + rows_val qs"
  by (simp_all add: rows_val_def)

fun cols_val :: "bool list list \<Rightarrow> nat"
  where
    "cols_val [] = 0"
  | "cols_val (c # cs) = ones c + 2 * cols_val cs"

lemma mod_double_cong:
  assumes "x mod 2 ^ n = y mod 2 ^ n"
  shows "(a + 2 * x) mod 2 ^ Suc n = (a + 2 * y) mod (2 ^ Suc n :: nat)"
proof -
  have "(2 * x) mod (2 * 2 ^ n) = (2 * y) mod (2 * 2 ^ n)" using assms by (simp add: mult_mod_right [symmetric])
  then show ?thesis unfolding power_Suc by (rule mod_add_cong [OF refl])
qed

section \<open>Adders\<close>

lemma adders_bool [simp]:
  "full_adder bool_ops () a b c = (Inr ((a \<noteq> b) \<noteq> c, (a \<and> b) \<or> ((a \<noteq> b) \<and> c)), ())"
  "half_adder bool_ops () a b = (Inr (a \<noteq> b, a \<and> b), ())"
  by (simp_all add: full_adder_def half_adder_def)

section \<open>Wallace columns\<close>

lemma wallace_column_bool:
  "\<exists>sums carries. wallace_column bool_ops c () = (Inr (sums, carries), ()) \<and>
    ones c = ones sums + 2 * ones carries \<and> length c = length sums + 2 * length carries \<and> length carries = length c div 3"
proof (induction "length c" arbitrary: c rule: less_induct)
  case less
  show ?case
  proof (cases "length c < 3")
    case True
    then have "wallace_column bool_ops c () = (Inr (c, []), ())"
      by (cases c; cases "tl c"; cases "tl (tl c)") auto
    with True show ?thesis by simp
  next
    case False
    then obtain x y z column where c: "c = x # y # z # column"
      by (cases c; cases "tl c"; cases "tl (tl c)") auto
    have shorter: "length column < length c" by (simp add: c)
    obtain sums carries where h: "wallace_column bool_ops column () = (Inr (sums, carries), ())"
      "ones column = ones sums + 2 * ones carries" "length column = length sums + 2 * length carries"
      "length carries = length column div 3" using less [OF shorter] by blast
    let ?s = "((x \<noteq> y) \<noteq> z) # sums" and ?c = "((x \<and> y) \<or> ((x \<noteq> y) \<and> z)) # carries"
    have "wallace_column bool_ops c () = (Inr (?s, ?c), ())" using h(1) by (simp add: c)
    moreover have "ones c = ones ?s + 2 * ones ?c" using h(2) by (cases x; cases y; cases z) (simp_all add: c)
    moreover have "length c = length ?s + 2 * length ?c" using h(3) by (simp add: c)
    moreover have "length ?c = length c div 3" using h(4) by (simp add: c)
    ultimately show ?thesis by blast
  qed
qed

lemma wallace_pass_bool:
  "\<exists>nxt. wallace_pass bool_ops inc cols () = (Inr nxt, ()) \<and> length nxt = length cols \<and>
    cols_val nxt mod 2 ^ length cols = (ones inc + cols_val cols) mod 2 ^ length cols \<and>
    bit_count nxt + sum_list (map (\<lambda>c. length c div 3) cols) \<le> length inc + bit_count cols"
proof (induction cols arbitrary: inc)
  case Nil
  then show ?case by (simp add: bit_count_def)
next
  case (Cons c cs)
  obtain sums carries where c: "wallace_column bool_ops c () = (Inr (sums, carries), ())"
    "ones c = ones sums + 2 * ones carries" "length c = length sums + 2 * length carries" "length carries = length c div 3"
    using wallace_column_bool by blast
  obtain nxt where n: "wallace_pass bool_ops carries cs () = (Inr nxt, ())" "length nxt = length cs"
    "cols_val nxt mod 2 ^ length cs = (ones carries + cols_val cs) mod 2 ^ length cs"
    "bit_count nxt + sum_list (map (\<lambda>c. length c div 3) cs) \<le> length carries + bit_count cs"
    using Cons.IH by blast
  have "(ones (inc @ sums) + 2 * cols_val nxt) mod 2 ^ Suc (length cs) =
      (ones (inc @ sums) + 2 * (ones carries + cols_val cs)) mod 2 ^ Suc (length cs)"
    by (rule mod_double_cong [OF n(3)])
  then have "cols_val ((inc @ sums) # nxt) mod 2 ^ length (c # cs) = (ones inc + cols_val (c # cs)) mod 2 ^ length (c # cs)"
    using c(2) by (simp add: algebra_simps)
  with c n show ?case by (auto simp: bit_count_def)
qed

lemma long_columns:
  "list_ex (\<lambda>c. length c > 2) cols \<Longrightarrow> 0 < sum_list (map (\<lambda>c. length c div 3) cols)"
  by (induction cols) (auto simp: div_greater_zero_iff)

lemma wallace_rounds_bool:
  assumes "bit_count cols \<le> n"
  shows "\<exists>nxt. wallace_rounds n bool_ops cols () = (Inr nxt, ()) \<and> length nxt = length cols \<and>
    cols_val nxt mod 2 ^ length cols = cols_val cols mod 2 ^ length cols \<and> \<not> list_ex (\<lambda>c. length c > 2) nxt"
  using assms
proof (induction n arbitrary: cols)
  case 0
  then have "\<not> list_ex (\<lambda>c. length c > 2) cols" by (auto simp: bit_count_def list_ex_iff)
  then show ?case by simp
next
  case (Suc n)
  show ?case
  proof (cases "list_ex (\<lambda>c. length c > 2) cols")
    case True
    obtain nxt where p: "wallace_pass bool_ops [] cols () = (Inr nxt, ())" "length nxt = length cols"
      "cols_val nxt mod 2 ^ length cols = cols_val cols mod 2 ^ length cols"
      "bit_count nxt + sum_list (map (\<lambda>c. length c div 3) cols) \<le> bit_count cols"
      using wallace_pass_bool [of "[]" cols] by auto
    have "bit_count nxt \<le> n" using p(4) long_columns [OF True] Suc.prems by simp
    from Suc.IH [OF this] True p show ?thesis by simp
  qed auto
qed

section \<open>Dadda columns\<close>

lemma dadda_full_bool:
  assumes "3 * n \<le> length bits"
  shows "\<exists>sums carries rest. dadda_full bool_ops n bits () = (Inr (sums, carries, rest), ()) \<and>
    length sums = n \<and> length carries = n \<and> length bits = 3 * n + length rest \<and>
    ones bits = ones sums + 2 * ones carries + ones rest"
  using assms
proof (induction n arbitrary: bits)
  case (Suc n)
  then obtain a b c tail where bits: "bits = a # b # c # tail"
    by (cases bits; cases "tl bits"; cases "tl (tl bits)") auto
  obtain sums carries rest where h: "dadda_full bool_ops n tail () = (Inr (sums, carries, rest), ())"
    "length sums = n" "length carries = n" "length tail = 3 * n + length rest"
    "ones tail = ones sums + 2 * ones carries + ones rest" using Suc.IH [of tail] Suc.prems bits by auto
  show ?case
    unfolding bits
    by (rule exI [of _ "((a \<noteq> b) \<noteq> c) # sums"], rule exI [of _ "((a \<and> b) \<or> ((a \<noteq> b) \<and> c)) # carries"], rule exI [of _ rest])
      (use h in \<open>cases a; cases b; cases c; simp\<close>)
qed auto

lemma dadda_half_bool:
  assumes "2 * n \<le> length bits"
  shows "\<exists>sums carries rest. dadda_half bool_ops n bits () = (Inr (sums, carries, rest), ()) \<and>
    length sums = n \<and> length carries = n \<and> length bits = 2 * n + length rest \<and>
    ones bits = ones sums + 2 * ones carries + ones rest"
  using assms
proof (induction n arbitrary: bits)
  case (Suc n)
  then obtain a b tail where bits: "bits = a # b # tail"
    by (cases bits; cases "tl bits"; cases "tl (tl bits)") auto
  obtain sums carries rest where h: "dadda_half bool_ops n tail () = (Inr (sums, carries, rest), ())"
    "length sums = n" "length carries = n" "length tail = 2 * n + length rest"
    "ones tail = ones sums + 2 * ones carries + ones rest" using Suc.IH [of tail] Suc.prems bits by auto
  show ?case
    unfolding bits
    by (rule exI [of _ "(a \<noteq> b) # sums"], rule exI [of _ "(a \<and> b) # carries"], rule exI [of _ rest])
      (use h in \<open>cases a; cases b; simp\<close>)
qed auto

lemma dadda_counts:
  "3 * dadda_fulls target inc len \<le> len"
  "2 * dadda_halves target inc len \<le> len - 3 * dadda_fulls target inc len"
proof -
  show "3 * dadda_fulls target inc len \<le> len" unfolding dadda_fulls_def by linarith
  have "dadda_halves target inc len \<le> (len - dadda_fulls target inc len * 3) div 2"
    by (simp add: dadda_halves_def Let_def)
  then show "2 * dadda_halves target inc len \<le> len - 3 * dadda_fulls target inc len" by linarith
qed

lemma dadda_adders_needed:
  assumes "2 \<le> target" and "target < len"
  shows "dadda_fulls target 0 len + dadda_halves target 0 len \<noteq> 0"
proof (cases "len - target = 1")
  case True
  with assms show ?thesis by (simp add: dadda_halves_def dadda_fulls_def dadda_excess_def Let_def min_def)
next
  case False
  with assms have "1 \<le> (len - target) div 2" "1 \<le> len div 3" by (simp_all add: div_greater_zero_iff Suc_le_eq)
  then show ?thesis by (simp add: dadda_fulls_def dadda_excess_def min_def)
qed

lemma dadda_pass_bool:
  "\<exists>prog nxt. dadda_pass bool_ops target inc cols () = (Inr (prog, nxt), ()) \<and> length nxt = length cols \<and>
    cols_val nxt mod 2 ^ length cols = (ones inc + cols_val cols) mod 2 ^ length cols \<and>
    dadda_weight nxt + of_bool prog \<le> length inc * length cols + dadda_weight cols \<and>
    (\<not> prog \<longrightarrow> 2 \<le> target \<longrightarrow> inc = [] \<longrightarrow> list_all (\<lambda>c. length c \<le> target) nxt)"
proof (induction cols arbitrary: inc)
  case Nil
  then show ?case by (auto intro: exI [of _ False])
next
  case (Cons c cs)
  define f h where "f = dadda_fulls target (length inc) (length c)" and "h = dadda_halves target (length inc) (length c)"
  obtain sums carries rest where F: "dadda_full bool_ops f c () = (Inr (sums, carries, rest), ())"
    "length sums = f" "length carries = f" "length c = 3 * f + length rest" "ones c = ones sums + 2 * ones carries + ones rest"
    using dadda_full_bool [OF dadda_counts(1)] unfolding f_def by blast
  have "2 * h \<le> length rest" using dadda_counts(2) [of target "length inc" "length c"] F(4) unfolding h_def [symmetric] f_def [symmetric] by linarith
  then obtain hs hc rest' where H: "dadda_half bool_ops h rest () = (Inr (hs, hc, rest'), ())"
    "length hs = h" "length hc = h" "length rest = 2 * h + length rest'" "ones rest = ones hs + 2 * ones hc + ones rest'"
    using dadda_half_bool by blast
  obtain prog nxt where P: "dadda_pass bool_ops target (carries @ hc) cs () = (Inr (prog, nxt), ())" "length nxt = length cs"
    "cols_val nxt mod 2 ^ length cs = (ones (carries @ hc) + cols_val cs) mod 2 ^ length cs"
    "dadda_weight nxt + of_bool prog \<le> length (carries @ hc) * length cs + dadda_weight cs"
    "\<not> prog \<longrightarrow> 2 \<le> target \<longrightarrow> carries @ hc = [] \<longrightarrow> list_all (\<lambda>c. length c \<le> target) nxt"
    using Cons.IH by blast
  let ?col = "inc @ sums @ hs @ rest'" and ?prog = "f + h \<noteq> 0 \<or> prog"
  have run: "dadda_pass bool_ops target inc (c # cs) () = (Inr (?prog, ?col # nxt), ())"
    using F(1) H(1) P(1) by (simp add: Let_def f_def h_def)
  have "(ones ?col + 2 * cols_val nxt) mod 2 ^ Suc (length cs) =
      (ones ?col + 2 * (ones (carries @ hc) + cols_val cs)) mod 2 ^ Suc (length cs)"
    by (rule mod_double_cong [OF P(3)])
  then have val: "cols_val (?col # nxt) mod 2 ^ length (c # cs) = (ones inc + cols_val (c # cs)) mod 2 ^ length (c # cs)"
    using F(5) H(5) by (simp add: algebra_simps)
  have w: "dadda_weight (?col # nxt) = (length inc + f + h + length rest') * Suc (length cs) + dadda_weight nxt"
    using F(2) H(2) P(2) by (simp add: add.assoc)
  have "of_bool ?prog \<le> (f + h) + (of_bool prog :: nat)" by (cases prog) auto
  then have "dadda_weight (?col # nxt) + of_bool ?prog \<le> (length inc + f + h + length rest') * Suc (length cs) + (f + h) * length cs + dadda_weight cs + (f + h)"
    using w P(4) unfolding length_append F(3) H(3) by linarith
  also have "\<dots> \<le> length inc * Suc (length cs) + (3 * f + 2 * h + length rest') * Suc (length cs) + dadda_weight cs"
    by (simp add: algebra_simps)
  also have "\<dots> = length inc * length (c # cs) + dadda_weight (c # cs)" using F(4) H(4) by (simp add: add.assoc)
  finally have weight: "dadda_weight (?col # nxt) + of_bool ?prog \<le> length inc * length (c # cs) + dadda_weight (c # cs)" .
  have "list_all (\<lambda>c. length c \<le> target) (?col # nxt)" if "\<not> ?prog" "2 \<le> target" "inc = []"
  proof -
    have z: "f = 0" "h = 0" "\<not> prog" using that(1) by auto
    have "length c \<le> target"
    proof (rule ccontr)
      assume "\<not> length c \<le> target"
      then have "f + h \<noteq> 0" using dadda_adders_needed [OF that(2)] that(3) by (simp add: f_def h_def)
      with z show False by simp
    qed
    with z that(2,3) F H P(5) show ?thesis by simp
  qed
  with run val weight P(2) show ?case by auto
qed

lemma dadda_target_bool:
  assumes "2 \<le> target" and "dadda_weight cols < n"
  shows "\<exists>nxt. dadda_target n bool_ops target cols () = (Inr nxt, ()) \<and> length nxt = length cols \<and>
    cols_val nxt mod 2 ^ length cols = cols_val cols mod 2 ^ length cols \<and> list_all (\<lambda>c. length c \<le> target) nxt"
  using assms(2)
proof (induction n arbitrary: cols)
  case (Suc n)
  obtain prog nxt where p: "dadda_pass bool_ops target [] cols () = (Inr (prog, nxt), ())" "length nxt = length cols"
    "cols_val nxt mod 2 ^ length cols = cols_val cols mod 2 ^ length cols" "dadda_weight nxt + of_bool prog \<le> dadda_weight cols"
    "\<not> prog \<longrightarrow> list_all (\<lambda>c. length c \<le> target) nxt"
    using dadda_pass_bool [of target "[]" cols] assms(1) by auto
  show ?case
  proof (cases "list_all (\<lambda>c. length c \<le> target) nxt")
    case False
    with p(5) have prog by blast
    with p(4) Suc.prems have "dadda_weight nxt < n" by simp
    from Suc.IH [OF this] p False \<open>prog\<close> show ?thesis by simp
  qed (use p in simp)
qed simp

lemma dadda_targets_step:
  assumes "2 \<le> t" and "t < maximum" and "maximum \<le> 2 ^ 63 - 1"
  shows "t < saturating_mul t 3 div 2"
proof (cases "t * 3 \<le> 2 ^ 64 - 1")
  case True
  then show ?thesis using assms(1) by (simp add: saturating_mul_def)
next
  case False
  then have "saturating_mul t 3 div 2 = 2 ^ 63 - 1" by (simp add: saturating_mul_def min_def)
  with assms show ?thesis by simp
qed

lemma dadda_targets_props:
  assumes "ts \<noteq> []" and "last ts = 2" and "list_all (\<lambda>t. 2 \<le> t) ts" and "maximum \<le> hd ts + n" and "maximum \<le> 2 ^ 63 - 1"
  shows "dadda_targets n maximum ts \<noteq> [] \<and> last (dadda_targets n maximum ts) = 2 \<and>
    list_all (\<lambda>t. 2 \<le> t) (dadda_targets n maximum ts) \<and> maximum \<le> hd (dadda_targets n maximum ts)"
  using assms(1-4)
proof (induction n arbitrary: ts)
  case (Suc n)
  show ?case
  proof (cases "hd ts < maximum")
    case True
    have t2: "2 \<le> hd ts" using Suc.prems(1,3) by (cases ts) auto
    have "hd ts < saturating_mul (hd ts) 3 div 2" by (rule dadda_targets_step [OF t2 True assms(5)])
    then have "dadda_targets n maximum (saturating_mul (hd ts) 3 div 2 # ts) \<noteq> [] \<and>
        last (dadda_targets n maximum (saturating_mul (hd ts) 3 div 2 # ts)) = 2 \<and>
        list_all (\<lambda>t. 2 \<le> t) (dadda_targets n maximum (saturating_mul (hd ts) 3 div 2 # ts)) \<and>
        maximum \<le> hd (dadda_targets n maximum (saturating_mul (hd ts) 3 div 2 # ts))"
      using Suc.prems t2 by (intro Suc.IH) auto
    with True show ?thesis by simp
  qed (use Suc.prems in simp)
qed simp

lemma dadda_fold_bool:
  assumes "list_all (\<lambda>t. 2 \<le> t) ts"
  shows "\<exists>nxt. sfoldM (\<lambda>target columns s. dadda_target (Suc (dadda_weight columns)) bool_ops target columns s) ts cols () =
      (Inr nxt, ()) \<and> length nxt = length cols \<and> cols_val nxt mod 2 ^ length cols = cols_val cols mod 2 ^ length cols \<and>
    (ts \<noteq> [] \<longrightarrow> list_all (\<lambda>c. length c \<le> last ts) nxt) \<and> (ts = [] \<longrightarrow> nxt = cols)"
  using assms
proof (induction ts arbitrary: cols)
  case (Cons t ts)
  obtain nxt where n: "dadda_target (Suc (dadda_weight cols)) bool_ops t cols () = (Inr nxt, ())" "length nxt = length cols"
    "cols_val nxt mod 2 ^ length cols = cols_val cols mod 2 ^ length cols" "list_all (\<lambda>c. length c \<le> t) nxt"
    using dadda_target_bool [of t cols "Suc (dadda_weight cols)"] Cons.prems by auto
  obtain nxt' where n': "sfoldM (\<lambda>target columns s. dadda_target (Suc (dadda_weight columns)) bool_ops target columns s) ts nxt () =
      (Inr nxt', ())" "length nxt' = length nxt" "cols_val nxt' mod 2 ^ length nxt = cols_val nxt mod 2 ^ length nxt"
    "ts \<noteq> [] \<longrightarrow> list_all (\<lambda>c. length c \<le> last ts) nxt'" "ts = [] \<longrightarrow> nxt' = nxt"
    using Cons.IH [of nxt] Cons.prems by auto
  have "sfoldM (\<lambda>target columns s. dadda_target (Suc (dadda_weight columns)) bool_ops target columns s) (t # ts) cols () = (Inr nxt', ())"
    using n(1) n'(1) by (simp del: dadda_target.simps)
  with n n' show ?case by auto
qed simp

lemma column_maximum_le: "column_maximum cols \<le> k \<longleftrightarrow> list_all (\<lambda>c. length c \<le> k) cols"
proof -
  have "fold max ls a \<le> k \<longleftrightarrow> a \<le> k \<and> list_all (\<lambda>l. l \<le> k) ls" for ls :: "nat list" and a
    by (induction ls arbitrary: a) auto
  then show ?thesis by (simp add: column_maximum_def list_all_iff)
qed

section \<open>Rows and columns\<close>

lemma push_bits_val:
  assumes "length row = length cols"
  shows "length (push_bits row cols) = length cols" and "cols_val (push_bits row cols) = row_val row + cols_val cols"
    and "list_all (\<lambda>c. length c \<le> k) cols \<Longrightarrow> list_all (\<lambda>c. length c \<le> Suc k) (push_bits row cols)"
  using assms
proof (induction row cols rule: list_induct2)
  case (Cons x row c cols)
  {
    case 1
    with Cons show ?case by (cases x) auto
  next
    case 2
    with Cons show ?case by (cases x) auto
  next
    case 3
    with Cons show ?case by (cases x) auto
  }
qed simp_all

lemma rows_to_columns_fold:
  assumes "list_all (\<lambda>r. length r = n) rows" and "length cols = n" and "list_all (\<lambda>c. length c \<le> k) cols"
  shows "length (fold push_bits rows cols) = n \<and> cols_val (fold push_bits rows cols) = rows_val rows + cols_val cols \<and>
    list_all (\<lambda>c. length c \<le> k + length rows) (fold push_bits rows cols)"
  using assms
proof (induction rows arbitrary: cols k)
  case (Cons r rows)
  then have "length r = length cols" by simp
  note p = push_bits_val [OF this]
  have "length (fold push_bits rows (push_bits r cols)) = n \<and>
      cols_val (fold push_bits rows (push_bits r cols)) = rows_val rows + cols_val (push_bits r cols) \<and>
      list_all (\<lambda>c. length c \<le> Suc k + length rows) (fold push_bits rows (push_bits r cols))"
    by (rule Cons.IH) (use Cons.prems p in auto)
  with p(2) show ?case by simp
qed simp

lemma rows_to_columns_val:
  assumes "list_all (\<lambda>r. length r = n) rows"
  shows "length (rows_to_columns rows n) = n" and "cols_val (rows_to_columns rows n) = rows_val rows"
    and "column_maximum (rows_to_columns rows n) \<le> length rows"
proof -
  have z: "cols_val (replicate n []) = 0" by (induction n) auto
  have "list_all (\<lambda>c. length c \<le> 0) (replicate n ([] :: bool list))" by (simp add: list_all_iff)
  with rows_to_columns_fold [OF assms, of "replicate n []" 0] z
  show "length (rows_to_columns rows n) = n" "cols_val (rows_to_columns rows n) = rows_val rows"
    "column_maximum (rows_to_columns rows n) \<le> length rows"
    by (simp_all add: rows_to_columns_def column_maximum_le)
qed

lemma columns_to_rows_val:
  assumes "\<not> list_ex (\<lambda>c. length c > 2) cols"
  shows "\<exists>rows. columns_to_rows cols = Inr rows \<and> length rows = 2 \<and>
    list_all (\<lambda>r. length r = length cols) rows \<and> rows_val rows = cols_val cols"
proof -
  have "row_val (map (\<lambda>c. list_get c 0) cols) + row_val (map (\<lambda>c. list_get c 1) cols) = cols_val cols"
    using assms
  proof (induction cols)
    case (Cons c cols)
    have "of_bool (list_get c 0 = Some True) + of_bool (list_get c 1 = Some True) = ones c"
      using Cons.prems by (cases c; cases "tl c"; cases "tl (tl c)") (auto simp: list_get_def)
    with Cons show ?case by simp
  qed simp
  with assms show ?thesis by (simp add: columns_to_rows_def)
qed

lemma rows_to_vectors_val:
  assumes "length rows \<le> 2" and "list_all (\<lambda>r. length r = n) rows"
  shows "\<exists>l r. rows_to_vectors rows n False = Inr (l, r) \<and> length l = n \<and> length r = n \<and>
    bits_val l + bits_val r = rows_val rows"
proof -
  have fill: "bits_val (map (\<lambda>x. case_option False id x) row) = row_val row" for row
    by (induction row) (auto split: option.splits)
  have none: "row_val (replicate n None) = 0" "map (\<lambda>x. case_option False id x) (replicate n None) = replicate n False"
    by (induction n) auto
  have "rows = [] \<or> (\<exists>a. rows = [a]) \<or> (\<exists>a b. rows = [a, b])"
    using assms(1) by (cases rows; cases "tl rows"; cases "tl (tl rows)") auto
  then show ?thesis
    using assms(2) fill none by (elim disjE exE) (auto simp: rows_to_vectors_def numeral_2_eq_2)
qed

section \<open>Rows in triples\<close>

lemma row_val_sum: "row_val (map f [0..<n]) = (\<Sum>i<n. of_bool (f i = Some True) * 2 ^ i)"
proof (induction n)
  case (Suc n)
  have "row_val (map f [0..<n] @ [f n]) = row_val (map f [0..<n]) + 2 ^ n * of_bool (f n = Some True)"
    by (simp add: row_val_def bits_val_append)
  with Suc show ?case by simp
qed simp

lemma compress_column_bool:
  "\<exists>u v. compress_column bool_ops () [l, r, t] = (Inr (u, v), ()) \<and>
    of_bool (l = Some True) + of_bool (r = Some True) + of_bool (t = Some True) =
      of_bool (u = Some True) + 2 * (of_bool (v = Some True) :: nat)"
  by (cases l; cases r; cases t) (auto simp: compress_column_def map_filter_simps)

definition rows_ok :: "nat \<Rightarrow> 'a option list list \<Rightarrow> bool"
  where "rows_ok n rows \<longleftrightarrow> list_all (\<lambda>r. length r = n) rows"

lemma rows_ok_simps [simp]:
  "rows_ok n []" "rows_ok n (r # rs) \<longleftrightarrow> length r = n \<and> rows_ok n rs" "rows_ok n (rs @ qs) \<longleftrightarrow> rows_ok n rs \<and> rows_ok n qs"
  by (auto simp: rows_ok_def)

lemma compress_row_triplet_bool:
  assumes "length l = n" and "length r = n" and "length t = n"
  shows "\<exists>sum carry. compress_row_triplet bool_ops () l r t n = (Inr [sum, carry], ()) \<and>
    length sum = n \<and> length carry = n \<and>
    (row_val sum + row_val carry) mod 2 ^ n = (row_val l + row_val r + row_val t) mod 2 ^ n"
proof -
  have "\<forall>i. \<exists>p. compress_column bool_ops () [l ! i, r ! i, t ! i] = (Inr p, ()) \<and>
      of_bool (l ! i = Some True) + of_bool (r ! i = Some True) + of_bool (t ! i = Some True) =
        of_bool (fst p = Some True) + 2 * (of_bool (snd p = Some True) :: nat)"
    using compress_column_bool by (metis fst_conv snd_conv)
  then obtain p where p: "\<And>i. compress_column bool_ops () [l ! i, r ! i, t ! i] = (Inr (p i), ())"
    "\<And>i. of_bool (l ! i = Some True) + of_bool (r ! i = Some True) + of_bool (t ! i = Some True) =
        of_bool (fst (p i) = Some True) + 2 * (of_bool (snd (p i) = Some True) :: nat)" by metis
  let ?sum = "map (fst \<circ> p) [0..<n]" and ?cs = "map (snd \<circ> p) [0..<n]"
  let ?carry = "take n (None # ?cs)"
  have run: "smapM (\<lambda>column s.
        sbind (vget l column s) (\<lambda>l s.
        sbind (vget r column s) (\<lambda>r s.
        sbind (vget t column s) (\<lambda>t s.
          compress_column bool_ops s [l, r, t])))) [0..<n] () = (Inr (map p [0..<n]), ())"
    by (rule smapM_bool) (use assms p(1) in \<open>simp add: vget_def\<close>)
  have nth: "row_val x = (\<Sum>i<n. of_bool (x ! i = Some True) * 2 ^ i)" if "length x = n" for x
    using row_val_sum [of "(!) x" n] that map_nth [of x] by simp
  have "(row_val ?sum + row_val ?carry) mod 2 ^ n = (row_val ?sum + 2 * row_val ?cs) mod 2 ^ n"
    using bits_val_take [of n "map (\<lambda>x. x = Some True) (None # ?cs)"]
    by (simp only: row_val_def take_map [symmetric] mod_add_right_eq) simp
  also have "row_val ?sum + 2 * row_val ?cs = row_val l + row_val r + row_val t"
    unfolding nth [OF assms(1)] nth [OF assms(2)] nth [OF assms(3)] row_val_sum sum_distrib_left sum.distrib [symmetric]
  proof (rule sum.cong [OF refl])
    fix i
    show "of_bool ((fst \<circ> p) i = Some True) * 2 ^ i + 2 * (of_bool ((snd \<circ> p) i = Some True) * 2 ^ i) =
        of_bool (l ! i = Some True) * 2 ^ i + of_bool (r ! i = Some True) * 2 ^ i + of_bool (t ! i = Some True) * (2 :: nat) ^ i"
      using arg_cong [OF p(2) [of i], of "\<lambda>x. x * 2 ^ i"] by (simp add: algebra_simps)
  qed
  finally have v: "(row_val ?sum + row_val ?carry) mod 2 ^ n = (row_val l + row_val r + row_val t) mod 2 ^ n" .
  have "compress_row_triplet bool_ops () l r t n = (Inr [?sum, ?carry], ())"
    unfolding compress_row_triplet_def run smap_simps by simp
  with v show ?thesis by (intro exI [of _ ?sum] exI [of _ ?carry]) simp
qed

lemma serial_fold_bool:
  assumes "rows_ok n rest" and "length a = n" and "length b = n"
  shows "\<exists>u v. sfoldM (\<lambda>row rows s. case rows of
       [left, right] \<Rightarrow> compress_row_triplet bool_ops s left right row n
     | _ \<Rightarrow> (Inl e, s)) rest [a, b] () = (Inr [u, v], ()) \<and> length u = n \<and> length v = n \<and>
    (row_val u + row_val v) mod 2 ^ n = (row_val a + row_val b + rows_val rest) mod 2 ^ n"
  using assms
proof (induction rest arbitrary: a b)
  case (Cons r rest)
  obtain x y where t: "compress_row_triplet bool_ops () a b r n = (Inr [x, y], ())" "length x = n" "length y = n"
    "(row_val x + row_val y) mod 2 ^ n = (row_val a + row_val b + row_val r) mod 2 ^ n"
    using compress_row_triplet_bool [of a n b r] Cons.prems by auto
  obtain u v where i: "sfoldM (\<lambda>row rows s. case rows of
       [left, right] \<Rightarrow> compress_row_triplet bool_ops s left right row n
     | _ \<Rightarrow> (Inl e, s)) rest [x, y] () = (Inr [u, v], ())" "length u = n" "length v = n"
    "(row_val u + row_val v) mod 2 ^ n = (row_val x + row_val y + rows_val rest) mod 2 ^ n"
    using Cons.IH [of x y] Cons.prems t by auto
  have "(row_val u + row_val v) mod 2 ^ n = (row_val a + row_val b + row_val r + rows_val rest) mod 2 ^ n"
    using i(4) mod_add_cong [OF t(4) refl [of "rows_val rest mod 2 ^ n"]] by simp
  with t(1) i show ?case by (simp add: add.assoc)
qed simp

lemma reduce_rows_serial_bool:
  assumes "rows_ok n rows"
  shows "\<exists>out. reduce_rows_serial bool_ops () rows n = (Inr out, ()) \<and> length out \<le> 2 \<and> rows_ok n out \<and>
    rows_val out mod 2 ^ n = rows_val rows mod 2 ^ n"
proof (cases "length rows \<le> 2")
  case True
  with assms show ?thesis by (simp add: reduce_rows_serial_def)
next
  case False
  then obtain a b rest where r: "rows = a # b # rest" by (cases rows; cases "tl rows") auto
  with serial_fold_bool [of n rest a b] assms False show ?thesis
    by (fastforce simp: reduce_rows_serial_def add.assoc)
qed

lemma balanced_round_bool:
  assumes "rows_ok n rows"
  shows "\<exists>out. balanced_round bool_ops n rows () = (Inr out, ()) \<and> rows_ok n out \<and>
    length out + length rows div 3 = length rows \<and> rows_val out mod 2 ^ n = rows_val rows mod 2 ^ n"
  using assms
proof (induction "length rows" arbitrary: rows rule: less_induct)
  case less
  show ?case
  proof (cases "length rows < 3")
    case True
    then have "balanced_round bool_ops n rows () = (Inr rows, ())"
      by (cases rows; cases "tl rows"; cases "tl (tl rows)") auto
    with True less.prems show ?thesis by simp
  next
    case False
    then obtain a b c rest where r: "rows = a # b # c # rest"
      by (cases rows; cases "tl rows"; cases "tl (tl rows)") auto
    obtain x y where t: "compress_row_triplet bool_ops () a b c n = (Inr [x, y], ())" "length x = n" "length y = n"
      "(row_val x + row_val y) mod 2 ^ n = (row_val a + row_val b + row_val c) mod 2 ^ n"
      using compress_row_triplet_bool [of a n b c] less.prems r by auto
    obtain out where i: "balanced_round bool_ops n rest () = (Inr out, ())" "rows_ok n out"
      "length out + length rest div 3 = length rest" "rows_val out mod 2 ^ n = rows_val rest mod 2 ^ n"
      using less.hyps [of rest] less.prems r by auto
    have "balanced_round bool_ops n rows () = (Inr (x # y # out), ())" using t(1) i(1) r by simp
    moreover have "length (x # y # out) + length rows div 3 = length rows" using i(3) r by simp
    moreover have "rows_val (x # y # out) mod 2 ^ n = rows_val rows mod 2 ^ n"
      using mod_add_cong [OF t(4) i(4)] r by (simp add: add.assoc)
    ultimately show ?thesis using t i by auto
  qed
qed

lemma balanced_rounds_bool:
  assumes "rows_ok n rows" and "length rows \<le> k"
  shows "\<exists>out. balanced_rounds k bool_ops n rows () = (Inr out, ()) \<and> length out \<le> 2 \<and> rows_ok n out \<and>
    rows_val out mod 2 ^ n = rows_val rows mod 2 ^ n"
  using assms
proof (induction k arbitrary: rows)
  case (Suc k)
  show ?case
  proof (cases "length rows > 2")
    case True
    obtain out where o: "balanced_round bool_ops n rows () = (Inr out, ())" "rows_ok n out"
      "length out + length rows div 3 = length rows" "rows_val out mod 2 ^ n = rows_val rows mod 2 ^ n"
      using balanced_round_bool [OF Suc.prems(1)] by blast
    have "0 < length rows div 3" using True by (simp add: div_greater_zero_iff)
    then have "length out \<le> k" using o(3) Suc.prems(2) by linarith
    from Suc.IH [OF o(2) this] o(1,4) True show ?thesis by auto
  qed (use Suc.prems in auto)
qed simp

section \<open>Reduction of a matrix\<close>

definition mat_ok :: "'a BitMatrix \<Rightarrow> bool"
  where "mat_ok m \<longleftrightarrow> length (mx_correction m) = mx_width m \<and> rows_ok (mx_width m) (mx_rows m)"

definition mat_val :: "bool BitMatrix \<Rightarrow> nat"
  where "mat_val m = rows_val (mx_rows m) + bits_val (mx_correction m)"

lemma correction_row:
  assumes "mat_ok m"
  shows "rows_ok (mx_width m) (take_rows_with_correction m x)"
    and "rows_val (take_rows_with_correction m True) = mat_val m"
    and "length (take_rows_with_correction m x) \<le> Suc (length (mx_rows m))"
proof -
  have none: "bits_val bs = 0" if "\<not> list_ex id bs" for bs using that by (induction bs) auto
  have row: "row_val (map (\<lambda>b. if b then Some True else None) bs) = bits_val bs" for bs by (induction bs) auto
  show "rows_ok (mx_width m) (take_rows_with_correction m x)"
    and "rows_val (take_rows_with_correction m True) = mat_val m"
    and "length (take_rows_with_correction m x) \<le> Suc (length (mx_rows m))"
    using assms by (simp_all add: take_rows_with_correction_def mat_ok_def mat_val_def none row)
qed

lemma reduce_columns_wallace_bool:
  "\<exists>out. reduce_columns_wallace bool_ops () cols = (Inr out, ()) \<and> length out = 2 \<and> rows_ok (length cols) out \<and>
    rows_val out mod 2 ^ length cols = cols_val cols mod 2 ^ length cols"
proof -
  obtain nxt where n: "wallace_rounds (bit_count cols) bool_ops cols () = (Inr nxt, ())" "length nxt = length cols"
    "cols_val nxt mod 2 ^ length cols = cols_val cols mod 2 ^ length cols" "\<not> list_ex (\<lambda>c. length c > 2) nxt"
    using wallace_rounds_bool [of cols "bit_count cols"] by blast
  with columns_to_rows_val [OF n(4)] show ?thesis
    by (auto simp: reduce_columns_wallace_def lift_result_def rows_ok_def)
qed

lemma reduce_columns_dadda_bool:
  assumes "column_maximum cols \<le> 2 ^ 63 - 1"
  shows "\<exists>out. reduce_columns_dadda bool_ops () cols = (Inr out, ()) \<and> length out = 2 \<and> rows_ok (length cols) out \<and>
    rows_val out mod 2 ^ length cols = cols_val cols mod 2 ^ length cols"
proof -
  define m ts where "m = column_maximum cols" and "ts = dadda_targets m m [2]"
  have ts: "ts \<noteq> []" "last ts = 2" "list_all (\<lambda>t. 2 \<le> t) ts" "m \<le> hd ts"
    using dadda_targets_props [of "[2]" m m] assms by (simp_all add: m_def ts_def)
  have tl: "list_all (\<lambda>t. 2 \<le> t) (tl ts)" using ts(1,3) by (cases ts) auto
  obtain nxt where n: "sfoldM (\<lambda>target columns s. dadda_target (Suc (dadda_weight columns)) bool_ops target columns s) (tl ts) cols () =
      (Inr nxt, ())" "length nxt = length cols" "cols_val nxt mod 2 ^ length cols = cols_val cols mod 2 ^ length cols"
    "tl ts \<noteq> [] \<longrightarrow> list_all (\<lambda>c. length c \<le> last (tl ts)) nxt" "tl ts = [] \<longrightarrow> nxt = cols"
    using dadda_fold_bool [OF tl] by blast
  have "list_all (\<lambda>c. length c \<le> 2) nxt"
  proof (cases "tl ts = []")
    case True
    with ts have "m \<le> 2" by (cases ts) auto
    with n(5) True show ?thesis by (simp add: m_def column_maximum_le)
  next
    case False
    with n(4) ts(2) show ?thesis by (simp add: last_tl)
  qed
  then have ne: "\<not> list_ex (\<lambda>c. length c > 2) nxt" by (auto simp: list_all_iff list_ex_iff)
  obtain out where "columns_to_rows nxt = Inr out" "length out = 2" "list_all (\<lambda>r. length r = length nxt) out"
    "rows_val out = cols_val nxt" using columns_to_rows_val [OF ne] by blast
  then show ?thesis
    using n(2,3) ne by (simp add: reduce_columns_dadda_def Let_def m_def [symmetric] ts_def [symmetric] n(1)
        lift_result_def rows_ok_def del: dadda_target.simps)
qed

lemma reduce_matrix_bool:
  assumes "mat_ok m" and "schedule = Dadda \<Longrightarrow> length (mx_rows m) < 2 ^ 63 - 1"
  shows "\<exists>l r. reduce_matrix bool_ops () m schedule False True = (Inr (l, r), ()) \<and>
    length l = mx_width m \<and> length r = mx_width m \<and>
    (bits_val l + bits_val r) mod 2 ^ mx_width m = mat_val m mod 2 ^ mx_width m"
proof -
  define rows n where "rows = take_rows_with_correction m True" and "n = mx_width m"
  note c = correction_row [OF assms(1)]
  have ok: "rows_ok n rows" "rows_val rows = mat_val m" "length rows \<le> Suc (length (mx_rows m))"
    using c(1,2) c(3) [of True] by (simp_all add: rows_def n_def)
  have cols: "length (rows_to_columns rows n) = n" "cols_val (rows_to_columns rows n) = rows_val rows"
    "column_maximum (rows_to_columns rows n) \<le> Suc (length (mx_rows m))"
    using rows_to_columns_val [of n rows] ok(1,3) by (simp_all add: rows_ok_def)
  have "\<exists>out. (case schedule of
           Serial \<Rightarrow> reduce_rows_serial bool_ops () rows n
         | Balanced \<Rightarrow> reduce_rows_balanced bool_ops () rows n
         | Wallace \<Rightarrow> reduce_columns_wallace bool_ops () (rows_to_columns rows n)
         | Dadda \<Rightarrow> reduce_columns_dadda bool_ops () (rows_to_columns rows n)) = (Inr out, ()) \<and>
      length out \<le> 2 \<and> rows_ok n out \<and> rows_val out mod 2 ^ n = rows_val rows mod 2 ^ n"
  proof (cases schedule)
    case Serial
    then show ?thesis using reduce_rows_serial_bool [OF ok(1)] by simp
  next
    case Balanced
    then show ?thesis using balanced_rounds_bool [OF ok(1) le_refl] by (simp add: reduce_rows_balanced_def)
  next
    case Wallace
    then show ?thesis using reduce_columns_wallace_bool [of "rows_to_columns rows n"] cols(1,2) by auto
  next
    case Dadda
    then have "column_maximum (rows_to_columns rows n) \<le> 2 ^ 63 - 1" using cols(3) assms(2) by simp
    from reduce_columns_dadda_bool [OF this] Dadda show ?thesis using cols(1,2) by auto
  qed
  then obtain out where o: "(case schedule of
           Serial \<Rightarrow> reduce_rows_serial bool_ops () rows n
         | Balanced \<Rightarrow> reduce_rows_balanced bool_ops () rows n
         | Wallace \<Rightarrow> reduce_columns_wallace bool_ops () (rows_to_columns rows n)
         | Dadda \<Rightarrow> reduce_columns_dadda bool_ops () (rows_to_columns rows n)) = (Inr out, ())"
      "length out \<le> 2" "rows_ok n out" "rows_val out mod 2 ^ n = rows_val rows mod 2 ^ n" by blast
  obtain l r where v: "rows_to_vectors out n False = Inr (l, r)" "length l = n" "length r = n"
    "bits_val l + bits_val r = rows_val out"
    using rows_to_vectors_val [OF o(2), of n] o(3) by (auto simp: rows_ok_def)
  have "reduce_matrix bool_ops () m schedule False True = (Inr (l, r), ())"
    unfolding reduce_matrix_def Let_def rows_def [symmetric] n_def [symmetric] o(1) sbind_simps lift_result_def v(1) ..
  with v o(4) ok(2) show ?thesis by (simp add: n_def)
qed

section \<open>Merging matrices\<close>

text \<open>Equality of integers modulo a power of two.\<close>

definition eqm :: "nat \<Rightarrow> int \<Rightarrow> int \<Rightarrow> bool"
  where "eqm n x y \<longleftrightarrow> x mod 2 ^ n = y mod 2 ^ n"

lemma eqm_refl [simp, intro]: "eqm n x x"
  by (simp add: eqm_def)

lemma eqm_trans: "eqm n x y \<Longrightarrow> eqm n y z \<Longrightarrow> eqm n x z"
  by (simp add: eqm_def)

lemma eqm_sym: "eqm n x y \<Longrightarrow> eqm n y x"
  by (simp add: eqm_def)

lemma eqm_add: "eqm n x y \<Longrightarrow> eqm n x' y' \<Longrightarrow> eqm n (x + x') (y + y')"
  unfolding eqm_def by (rule mod_add_cong)

lemma eqm_diff: "eqm n x y \<Longrightarrow> eqm n x' y' \<Longrightarrow> eqm n (x - x') (y - y')"
  unfolding eqm_def by (rule mod_diff_cong)

lemma eqm_mult: "eqm n x y \<Longrightarrow> eqm n x' y' \<Longrightarrow> eqm n (x * x') (y * y')"
  unfolding eqm_def by (rule mod_mult_cong)

lemma eqm_uminus: "eqm n x y \<Longrightarrow> eqm n (- x) (- y)"
  using eqm_diff [OF eqm_refl [of n 0]] by simp

lemma eqm_dvd: "eqm n x y \<longleftrightarrow> 2 ^ n dvd x - y"
  by (simp add: eqm_def mod_eq_dvd_iff)

lemma eqm_power_zero: "n \<le> k \<Longrightarrow> eqm n (x * 2 ^ k) 0"
  by (simp add: eqm_dvd le_imp_power_dvd)

lemma eqm_le: "eqm n x y \<Longrightarrow> m \<le> n \<Longrightarrow> eqm m x y"
  unfolding eqm_dvd using le_imp_power_dvd dvd_trans by blast

lemma eqm_shift: "eqm n x y \<Longrightarrow> eqm (k + n) (2 ^ k * x) (2 ^ k * y)"
  by (simp add: eqm_dvd power_add flip: right_diff_distrib)

lemma eqm_mod [simp]: "eqm n (x mod 2 ^ n) y \<longleftrightarrow> eqm n x y" "eqm n x (y mod 2 ^ n) \<longleftrightarrow> eqm n x y"
  by (simp_all add: eqm_def)

definition unit_of :: "bool \<Rightarrow> int"
  where "unit_of negative = (if negative then - 1 else 1)"

lemma ripple_correction_val:
  "length (ripple_correction negative bs) = length bs"
  "eqm (length bs) (int (bits_val (ripple_correction negative bs))) (int (bits_val bs) + unit_of negative)"
proof (induction bs)
  case (Cons b bs)
  {
    case 1
    with Cons(1) show ?case by simp
  next
    case 2
    have "2 * 2 ^ length bs dvd 2 * (int (bits_val (ripple_correction negative bs)) - (int (bits_val bs) + unit_of negative))"
      using Cons(2) unfolding eqm_dvd by (rule mult_dvd_mono [OF dvd_refl])
    then show ?case by (cases b; cases negative) (auto simp: eqm_dvd unit_of_def algebra_simps)
  }
qed (simp_all add: eqm_dvd)

lemma add_correction_power_val:
  assumes "mat_ok m"
  shows "mat_ok (add_correction_power k negative m)" "mx_width (add_correction_power k negative m) = mx_width m"
    "mx_rows (add_correction_power k negative m) = mx_rows m"
    "eqm (mx_width m) (int (mat_val (add_correction_power k negative m))) (int (mat_val m) + unit_of negative * 2 ^ k)"
proof -
  let ?c = "mx_correction m"
  show "mat_ok (add_correction_power k negative m)" "mx_width (add_correction_power k negative m) = mx_width m"
    "mx_rows (add_correction_power k negative m) = mx_rows m"
    using assms by (auto simp: add_correction_power_def mat_ok_def ripple_correction_val(1))
  show "eqm (mx_width m) (int (mat_val (add_correction_power k negative m))) (int (mat_val m) + unit_of negative * 2 ^ k)"
  proof (cases "mx_width m \<le> k")
    case True
    then have "eqm (mx_width m) (int (mat_val m) + 0) (int (mat_val m) + unit_of negative * 2 ^ k)"
      by (intro eqm_add eqm_refl eqm_sym [OF eqm_power_zero])
    with True show ?thesis by (simp add: add_correction_power_def)
  next
    case False
    then have k: "k \<le> length ?c" "mx_width m = k + length (drop k ?c)" using assms by (auto simp: mat_ok_def)
    have v: "int (bits_val ?c) = int (bits_val (take k ?c)) + 2 ^ k * int (bits_val (drop k ?c))"
      using bits_val_append [of "take k ?c" "drop k ?c"] k(1) by (simp add: min_def)
    have "eqm (mx_width m) (2 ^ k * int (bits_val (ripple_correction negative (drop k ?c))))
        (2 ^ k * (int (bits_val (drop k ?c)) + unit_of negative))"
      unfolding k(2) by (rule eqm_shift [OF ripple_correction_val(2)])
    then have "eqm (mx_width m) (int (rows_val (mx_rows m)) + int (bits_val (take k ?c)) + 2 ^ k * int (bits_val (ripple_correction negative (drop k ?c))))
        (int (rows_val (mx_rows m)) + int (bits_val (take k ?c)) + 2 ^ k * (int (bits_val (drop k ?c)) + unit_of negative))"
      by (rule eqm_add [OF eqm_refl])
    moreover have "int (mat_val (add_correction_power k negative m)) = int (rows_val (mx_rows m)) + int (bits_val (take k ?c)) +
        2 ^ k * int (bits_val (ripple_correction negative (drop k ?c)))"
      using False k(1) by (simp add: add_correction_power_def mat_val_def bits_val_append min_def)
    moreover have "int (mat_val m) + unit_of negative * 2 ^ k = int (rows_val (mx_rows m)) + int (bits_val (take k ?c)) +
        2 ^ k * (int (bits_val (drop k ?c)) + unit_of negative)"
      by (simp add: mat_val_def v distrib_left)
    ultimately show ?thesis by simp
  qed
qed

lemma merge_fold_val:
  fixes bs :: "bool list" and k :: nat and negative :: bool
  assumes "mat_ok m"
  defines "m' \<equiv> fold (\<lambda>(column, bit_set) m. if bit_set then add_correction_power column negative m else m) (enumerate k bs) m"
  shows "mat_ok m' \<and> mx_width m' = mx_width m \<and> mx_rows m' = mx_rows m \<and>
    eqm (mx_width m) (int (mat_val m')) (int (mat_val m) + unit_of negative * 2 ^ k * int (bits_val bs))"
  using assms(1) unfolding m'_def
proof (induction bs arbitrary: k m)
  case (Cons b bs)
  let ?f = "fold (\<lambda>(column, bit_set) m. if bit_set then add_correction_power column negative m else m)"
  define a where "a = (if b then add_correction_power k negative m else m)"
  have a: "mat_ok a" "mx_width a = mx_width m" "mx_rows a = mx_rows m"
    "eqm (mx_width m) (int (mat_val a)) (int (mat_val m) + unit_of negative * 2 ^ k * of_bool b)"
    using add_correction_power_val [OF Cons.prems] Cons.prems by (cases b; simp add: a_def)+
  from Cons.IH [OF a(1), of "Suc k"] a
  have i: "mat_ok (?f (enumerate (Suc k) bs) a)" "mx_width (?f (enumerate (Suc k) bs) a) = mx_width m"
    "mx_rows (?f (enumerate (Suc k) bs) a) = mx_rows m"
    "eqm (mx_width m) (int (mat_val (?f (enumerate (Suc k) bs) a))) (int (mat_val a) + unit_of negative * 2 ^ Suc k * int (bits_val bs))"
    by simp_all
  have "eqm (mx_width m) (int (mat_val (?f (enumerate (Suc k) bs) a)))
      (int (mat_val m) + unit_of negative * 2 ^ k * of_bool b + unit_of negative * 2 ^ Suc k * int (bits_val bs))"
    by (rule eqm_trans [OF i(4) eqm_add [OF a(4) eqm_refl]])
  with i show ?case by (simp add: a_def [symmetric] algebra_simps)
qed simp

lemma merge_correction_val:
  assumes "mat_ok m"
  shows "mat_ok (merge_correction bs negative m)" "mx_width (merge_correction bs negative m) = mx_width m"
    "mx_rows (merge_correction bs negative m) = mx_rows m"
    "eqm (mx_width m) (int (mat_val (merge_correction bs negative m))) (int (mat_val m) + unit_of negative * int (bits_val bs))"
  using merge_fold_val [OF assms, of negative 0 bs] by (simp_all add: merge_correction_def)

lemma push_row_val:
  assumes "mat_ok m" and "length row = mx_width m"
  shows "mat_ok (push_row row m)" "mx_width (push_row row m) = mx_width m"
    "mat_val (push_row row m) = mat_val m + row_val row" "length (mx_rows (push_row row m)) \<le> Suc (length (mx_rows m))"
proof -
  have "row_val row = 0" if "\<not> list_ex (\<lambda>x. x \<noteq> None) row" using that by (induction row) auto
  with assms show "mat_ok (push_row row m)" "mx_width (push_row row m) = mx_width m"
    "mat_val (push_row row m) = mat_val m + row_val row" "length (mx_rows (push_row row m)) \<le> Suc (length (mx_rows m))"
    by (auto simp: push_row_def mat_ok_def mat_val_def)
qed

lemma negated_fold_bool:
  assumes "mat_ok m" and "length done_row + length row \<le> mx_width m" and "k = length done_row"
  shows "\<exists>out m'. sfoldM (negated_bit bool_ops) (enumerate k row) (done_row, m) () = (Inr (done_row @ out, m'), ()) \<and>
    length out = length row \<and> mat_ok m' \<and> mx_width m' = mx_width m \<and> mx_rows m' = mx_rows m \<and>
    eqm (mx_width m) (int (mat_val m') + 2 ^ k * int (row_val out)) (int (mat_val m) - 2 ^ k * int (row_val row))"
  using assms
proof (induction row arbitrary: k done_row m)
  case (Cons x row)
  define y where "y = map_option Not x"
  define a where "a = (if x = None then m else add_correction_power k True m)"
  have step: "negated_bit bool_ops (k, x) (done_row, m) () = (Inr (done_row @ [y], a), ())"
    by (cases x) (simp_all add: negated_bit_def y_def a_def)
  have a: "mat_ok a" "mx_width a = mx_width m" "mx_rows a = mx_rows m"
    "eqm (mx_width m) (int (mat_val a)) (int (mat_val m) - of_bool (x \<noteq> None) * 2 ^ k)"
    using add_correction_power_val [OF Cons.prems(1), of k True] Cons.prems(1) by (auto simp: a_def unit_of_def)
  obtain out m' where i: "sfoldM (negated_bit bool_ops) (enumerate (Suc k) row) (done_row @ [y], a) () =
      (Inr ((done_row @ [y]) @ out, m'), ())" "length out = length row" "mat_ok m'" "mx_width m' = mx_width a" "mx_rows m' = mx_rows a"
    "eqm (mx_width a) (int (mat_val m') + 2 ^ Suc k * int (row_val out)) (int (mat_val a) - 2 ^ Suc k * int (row_val row))"
    using Cons.IH [OF a(1), of "done_row @ [y]" "Suc k"] Cons.prems a(2) by auto
  let ?A = "int (mat_val m') + 2 ^ Suc k * int (row_val out) + 2 ^ k * of_bool (y = Some True)"
  let ?B = "int (mat_val m) - of_bool (x \<noteq> None) * 2 ^ k - 2 ^ Suc k * int (row_val row) + 2 ^ k * of_bool (y = Some True)"
  have e: "eqm (mx_width m) ?A ?B"
    by (intro eqm_add eqm_refl eqm_trans [OF i(6) [unfolded a(2)]] eqm_diff a(4))
  have s: "- of_bool (x \<noteq> None) * 2 ^ k + 2 ^ k * of_bool (y = Some True) = - (2 ^ k * of_bool (x = Some True) :: int)"
    by (cases x) (auto simp: y_def)
  have r: "2 ^ k * int (row_val (z # zs)) = 2 ^ k * of_bool (z = Some True) + 2 ^ Suc k * int (row_val zs)" for z zs
    by (simp add: distrib_left)
  have "?A = int (mat_val m') + 2 ^ k * int (row_val (y # out))" unfolding r by linarith
  moreover have "?B = int (mat_val m) - 2 ^ k * int (row_val (x # row))" unfolding r using s by linarith
  ultimately have "eqm (mx_width m) (int (mat_val m') + 2 ^ k * int (row_val (y # out))) (int (mat_val m) - 2 ^ k * int (row_val (x # row)))"
    using e by (simp only:)
  with step i a show ?case by (intro exI [of _ "y # out"] exI [of _ m']) simp
qed simp

lemma negated_row_bool:
  assumes "mat_ok m" and "length row = mx_width m"
  shows "\<exists>m'. negated_row bool_ops row m () = (Inr m', ()) \<and> mat_ok m' \<and> mx_width m' = mx_width m \<and>
    eqm (mx_width m) (int (mat_val m')) (int (mat_val m) - int (row_val row))"
proof -
  obtain out m' where r: "sfoldM (negated_bit bool_ops) (enumerate 0 row) ([], m) () = (Inr (out, m'), ())"
    "length out = length row" "mat_ok m'" "mx_width m' = mx_width m"
    "eqm (mx_width m) (int (mat_val m') + int (row_val out)) (int (mat_val m) - int (row_val row))"
    using negated_fold_bool [OF assms(1), of "[]" row 0] assms(2) by auto
  with push_row_val [OF r(3), of out] assms(2) show ?thesis by (auto simp: negated_row_def)
qed

lemma negated_rows_bool:
  assumes "mat_ok m" and "rows_ok (mx_width m) rows"
  shows "\<exists>m'. sfoldM (negated_row bool_ops) rows m () = (Inr m', ()) \<and> mat_ok m' \<and> mx_width m' = mx_width m \<and>
    eqm (mx_width m) (int (mat_val m')) (int (mat_val m) - int (rows_val rows))"
  using assms
proof (induction rows arbitrary: m)
  case (Cons r rows)
  obtain a where a: "negated_row bool_ops r m () = (Inr a, ())" "mat_ok a" "mx_width a = mx_width m"
    "eqm (mx_width m) (int (mat_val a)) (int (mat_val m) - int (row_val r))"
    using negated_row_bool [OF Cons.prems(1), of r] Cons.prems(2) by auto
  obtain m' where i: "sfoldM (negated_row bool_ops) rows a () = (Inr m', ())" "mat_ok m'" "mx_width m' = mx_width a"
    "eqm (mx_width a) (int (mat_val m')) (int (mat_val a) - int (rows_val rows))"
    using Cons.IH [OF a(2)] Cons.prems(2) a(3) by auto
  have "eqm (mx_width m) (int (mat_val m')) (int (mat_val m) - int (row_val r) - int (rows_val rows))"
    using i(4) a(3) eqm_trans [OF _ eqm_diff [OF a(4) eqm_refl]] by simp
  with a i show ?case by (simp add: algebra_simps)
qed simp

text \<open>Appending a matrix adds its number, or subtracts it.\<close>

lemma append_matrix_bool:
  assumes "mat_ok t" and "mat_ok m" and "mx_width t = mx_width m"
  shows "\<exists>m'. append_matrix bool_ops () t m negative = (Inr m', ()) \<and> mat_ok m' \<and> mx_width m' = mx_width m \<and>
    eqm (mx_width m) (int (mat_val m')) (int (mat_val t) + unit_of negative * int (mat_val m))"
proof (cases negative)
  case False
  let ?t = "t\<lparr>mx_rows := mx_rows t @ mx_rows m\<rparr>"
  have ok: "mat_ok ?t" "mat_val ?t = mat_val t + rows_val (mx_rows m)" using assms by (auto simp: mat_ok_def mat_val_def)
  from merge_correction_val [OF ok(1), of "mx_correction m" False] False assms show ?thesis
    by (auto simp: append_matrix_def ok(2) unit_of_def mat_val_def [of m] algebra_simps)
next
  case True
  have "rows_ok (mx_width t) (mx_rows m)" using assms(2,3) by (simp add: mat_ok_def)
  then obtain a where a: "sfoldM (negated_row bool_ops) (mx_rows m) t () = (Inr a, ())" "mat_ok a" "mx_width a = mx_width t"
    "eqm (mx_width t) (int (mat_val a)) (int (mat_val t) - int (rows_val (mx_rows m)))"
    using negated_rows_bool [OF assms(1)] by blast
  note c = merge_correction_val [OF a(2), of "mx_correction m" True]
  have "eqm (mx_width t) (int (mat_val (merge_correction (mx_correction m) True a)))
      (int (mat_val t) - int (rows_val (mx_rows m)) + unit_of True * int (bits_val (mx_correction m)))"
    using c(4) a(3) eqm_trans [OF _ eqm_add [OF a(4) eqm_refl]] by simp
  with c(1,2) a True assms(3) show ?thesis
    by (simp add: append_matrix_def unit_of_def mat_val_def [of m] algebra_simps)
qed

section \<open>Runs follow the Boolean runs\<close>

context bit_emitter
begin

abbreviation den_row :: "'s \<Rightarrow> 'a option list \<Rightarrow> bool option list \<Rightarrow> bool"
  where "den_row s \<equiv> list_all2 (rel_option (den s))"

abbreviation den_rows :: "'s \<Rightarrow> 'a option list list \<Rightarrow> bool option list list \<Rightarrow> bool"
  where "den_rows s \<equiv> list_all2 (den_row s)"

abbreviation den_cols :: "'s \<Rightarrow> 'a list list \<Rightarrow> bool list list \<Rightarrow> bool"
  where "den_cols s \<equiv> list_all2 (dens s)"

abbreviation den_pair :: "'s \<Rightarrow> 'a \<times> 'a \<Rightarrow> bool \<times> bool \<Rightarrow> bool"
  where "den_pair s \<equiv> rel_prod (den s) (den s)"

lemma sim_seq_prod:
  assumes "sim s m b (\<lambda>s. rel_prod (P s) (Q s))" and "good s"
    and "\<And>s' x1 x2 y1 y2. \<lbrakk>good s'; le s s'; \<And>x v. den s x v \<Longrightarrow> den s' x v; \<And>xs vs. dens s xs vs \<Longrightarrow> dens s' xs vs;
      P s' x1 y1; Q s' x2 y2\<rbrakk> \<Longrightarrow> sim s' (f x1 x2 s') (g y1 y2 ()) R"
  shows "sim s (sbind m (\<lambda>(x1, x2). f x1 x2)) (sbind b (\<lambda>(y1, y2). g y1 y2)) R"
  by (rule sim_seq [OF assms(1,2)]) (use assms(3) in \<open>auto simp: rel_prod_sel split: prod.splits\<close>)

lemma sim_full_adder:
  assumes "good s" and "den s x u" and "den s y v" and "den s z w"
  shows "sim s (full_adder em s x y z) (full_adder bool_ops () u v w) den_pair"
  unfolding full_adder_def by (intro sim_steps) (use assms in simp_all)

lemma sim_half_adder:
  assumes "good s" and "den s x u" and "den s y v"
  shows "sim s (half_adder em s x y) (half_adder bool_ops () u v) den_pair"
  unfolding half_adder_def by (intro sim_steps) (use assms in simp_all)

lemma map_filter_den:
  assumes "list_all2 (rel_option (den s)) xs ys"
  shows "dens s (List.map_filter id xs) (List.map_filter id ys)"
  using assms
proof (induction xs ys rule: list_all2_induct)
  case (Cons x xs y ys)
  then show ?case by (cases x; cases y) (auto simp: map_filter_simps)
qed (simp add: map_filter_simps)

lemma sim_pair_Some:
  assumes "sim s m b den_pair"
  shows "sim s (smap (map_prod Some Some) m) (smap (map_prod Some Some) b)
    (\<lambda>s. rel_prod (rel_option (den s)) (rel_option (den s)))"
  by (rule sim_smap [OF assms]) (auto simp: rel_prod_sel)

lemma sim_compress_column:
  assumes "good s" and "den_row s xs ys"
  shows "sim s (compress_column em s xs) (compress_column bool_ops () ys)
    (\<lambda>s. rel_prod (rel_option (den s)) (rel_option (den s)))"
proof -
  have d: "dens s (List.map_filter id xs) (List.map_filter id ys)" by (rule map_filter_den [OF assms(2)])
  note steps = sim_pair_Some [OF sim_full_adder [OF assms(1)]] sim_pair_Some [OF sim_half_adder [OF assms(1)]] sim_ret [OF assms(1)]
  show ?thesis
    unfolding compress_column_def using d
    by (cases "List.map_filter id xs"; cases "tl (List.map_filter id xs)"; cases "tl (tl (List.map_filter id xs))")
      (auto simp: list_all2_Cons1 simp del: adders_bool intro!: steps)
qed

lemma keeps_row [simp]: "keeps den_row"
  by simp

lemma keeps_rows [simp]: "keeps den_rows"
  by simp

lemma row_mono: "good s \<Longrightarrow> le s s' \<Longrightarrow> den_row s xs ys \<Longrightarrow> den_row s' xs ys"
  by (rule keepsD [OF keeps_row])

lemma rel_prod_map:
  "list_all2 (rel_prod P Q) ps qs \<Longrightarrow> list_all2 P (map fst ps) (map fst qs) \<and> list_all2 Q (map snd ps) (map snd qs)"
  by (auto simp: list_all2_conv_all_nth rel_prod_sel)

lemma sim_compress_row_triplet:
  assumes "good s" and "den_row s l l'" and "den_row s r r'" and "den_row s t t'"
  shows "sim s (compress_row_triplet em s l r t n) (compress_row_triplet bool_ops () l' r' t' n) den_rows"
proof -
  have col: "sim s' (sbind (vget l i s') (\<lambda>l s. sbind (vget r i s) (\<lambda>r s. sbind (vget t i s) (\<lambda>t s. compress_column em s [l, r, t]))))
      (sbind (vget l' i ()) (\<lambda>l s. sbind (vget r' i s) (\<lambda>r s. sbind (vget t' i s) (\<lambda>t s. compress_column bool_ops s [l, r, t]))))
      (\<lambda>s. rel_prod (rel_option (den s)) (rel_option (den s)))" if "good s'" "le s s'" for s' i
  proof -
    note d = row_mono [OF assms(1) that(2) assms(2)] row_mono [OF assms(1) that(2) assms(3)] row_mono [OF assms(1) that(2) assms(4)]
    show ?thesis
    proof (cases "i < length l \<and> i < length r \<and> i < length t")
      case True
      then have "den_row s' [l ! i, r ! i, t ! i] [l' ! i, r' ! i, t' ! i]"
        using list_all2_nthD [OF d(1)] list_all2_nthD [OF d(2)] list_all2_nthD [OF d(3)] by simp
      with True d show ?thesis by (simp add: vget_def list_all2_lengthD [OF d(1)] list_all2_lengthD [OF d(2)]
            list_all2_lengthD [OF d(3)] sim_compress_column [OF that(1)])
    next
      case False
      with d show ?thesis using sim_err [OF that(1)]
        by (auto simp: vget_def list_all2_lengthD [OF d(1)] list_all2_lengthD [OF d(2)] list_all2_lengthD [OF d(3)])
    qed
  qed
  have k: "keeps (\<lambda>s. rel_prod (rel_option (den s)) (rel_option (den s)))" by simp
  show ?thesis
    unfolding compress_row_triplet_def
    by (rule sim_smap [OF sim_mapM_same [OF assms(1) k]], rule col)
      (auto dest!: rel_prod_map intro!: list_all2_takeI)
qed

lemma sim_reduce_rows_serial:
  assumes "good s" and "den_rows s rows rows'"
  shows "sim s (reduce_rows_serial em s rows n) (reduce_rows_serial bool_ops () rows' n) den_rows"
proof -
  have step: "sim s' (case acc of [l, r] \<Rightarrow> compress_row_triplet em s' l r row n | _ \<Rightarrow> (Inl e, s'))
      (case acc' of [l, r] \<Rightarrow> compress_row_triplet bool_ops () l r row' n | _ \<Rightarrow> (Inl e, ())) den_rows"
    if "good s'" "den_row s' row row'" "den_rows s' acc acc'" for s' acc acc' row row' e
    using that by (cases acc; cases "tl acc"; cases "tl (tl acc)")
      (auto simp: list_all2_Cons1 intro!: sim_compress_row_triplet sim_err)
  show ?thesis
    unfolding reduce_rows_serial_def list_all2_lengthD [OF assms(2)]
    by (intro sim_if refl sim_ret assms sim_foldM [where P = den_row and R = den_rows] keeps_row step)
      (use assms in \<open>auto intro!: list_all2_dropI list_all2_takeI\<close>)
qed

lemma sim_balanced_round:
  assumes "good s" and "den_rows s rows rows'"
  shows "sim s (balanced_round em n rows s) (balanced_round bool_ops n rows' ()) den_rows"
  using assms
proof (induction "length rows" arbitrary: s rows rows' rule: less_induct)
  case less
  show ?case
  proof (cases "length rows < 3")
    case True
    then have "balanced_round em n rows s = (Inr rows, s)"
      by (cases rows; cases "tl rows"; cases "tl (tl rows)") auto
    moreover have "balanced_round bool_ops n rows' () = (Inr rows', ())"
      using True list_all2_lengthD [OF less.prems(2)] by (cases rows'; cases "tl rows'"; cases "tl (tl rows')") auto
    ultimately show ?thesis using less.prems by (simp add: sim_ret)
  next
    case False
    then obtain a b c rest where r: "rows = a # b # c # rest"
      by (cases rows; cases "tl rows"; cases "tl (tl rows)") auto
    then obtain a' b' c' rest' where r': "rows' = a' # b' # c' # rest'" "den_row s a a'" "den_row s b b'" "den_row s c c'"
      "den_rows s rest rest'" using less.prems(2) by (auto simp: list_all2_Cons1)
    show ?thesis
      unfolding r r'(1) balanced_round.simps
    proof (rule sim_bind [OF sim_compress_row_triplet [OF less.prems(1) r'(2-4)]])
      fix s' x y assume s': "good s'" "le s s'" and xy: "den_rows s' x y"
      have "sim s' (balanced_round em n rest s') (balanced_round bool_ops n rest' ()) den_rows"
        using less.hyps [of rest s' rest'] r s'(1) keepsD [OF keeps_rows less.prems(1) s'(2) r'(5)] by simp
      then show "sim s' (smap (\<lambda>rest. x @ rest) (balanced_round em n rest s')) (smap (\<lambda>rest. y @ rest) (balanced_round bool_ops n rest' ())) den_rows"
        by (rule sim_smap) (use xy s' keepsD [OF keeps_rows] in \<open>auto intro!: list_all2_appendI\<close>)
    qed
  qed
qed

lemma sim_balanced_rounds:
  assumes "good s" and "den_rows s rows rows'"
  shows "sim s (balanced_rounds k em n rows s) (balanced_rounds k bool_ops n rows' ()) den_rows"
  using assms
proof (induction k arbitrary: s rows rows')
  case (Suc k)
  show ?case unfolding balanced_rounds.simps
    by (intro sim_if sim_bind [OF sim_balanced_round [OF Suc.prems]] sim_ret Suc) (simp add: list_all2_lengthD [OF Suc.prems(2)])
qed (simp add: sim_ret)

text \<open>Columns.\<close>

lemma keeps_cols [simp]: "keeps den_cols"
  by simp

lemma cols_mono: "good s \<Longrightarrow> le s s' \<Longrightarrow> den_cols s xs ys \<Longrightarrow> den_cols s' xs ys"
  by (rule keepsD [OF keeps_cols])

lemma sim_wallace_column:
  assumes "good s" and "dens s xs vs"
  shows "sim s (wallace_column em xs s) (wallace_column bool_ops vs ()) (\<lambda>s. rel_prod (dens s) (dens s))"
  using assms
proof (induction "length xs" arbitrary: s xs vs rule: less_induct)
  case less
  show ?case
  proof (cases "length xs < 3")
    case True
    then have "wallace_column em xs s = (Inr (xs, []), s)" by (cases xs; cases "tl xs"; cases "tl (tl xs)") auto
    moreover have "wallace_column bool_ops vs () = (Inr (vs, []), ())"
      using True list_all2_lengthD [OF less.prems(2)] by (cases vs; cases "tl vs"; cases "tl (tl vs)") auto
    ultimately show ?thesis using less.prems by (simp add: sim_ret)
  next
    case False
    then obtain a b c rest where r: "xs = a # b # c # rest" by (cases xs; cases "tl xs"; cases "tl (tl xs)") auto
    then obtain a' b' c' rest' where r': "vs = a' # b' # c' # rest'" "den s a a'" "den s b b'" "den s c c'" "dens s rest rest'"
      using less.prems(2) by (auto simp: list_all2_Cons1)
    show ?thesis
      unfolding r r'(1) wallace_column.simps
    proof (rule sim_seq_prod [OF sim_full_adder [OF less.prems(1) r'(2-4)] less.prems(1)])
      fix s' x1 x2 y1 y2 assume s': "good s'" "le s s'" and xy: "den s' x1 y1" "den s' x2 y2"
      have "sim s' (wallace_column em rest s') (wallace_column bool_ops rest' ()) (\<lambda>s. rel_prod (dens s) (dens s))"
        using less.hyps [of rest s' rest'] r s'(1) dens_mono [OF less.prems(1) s'(2) r'(5)] by simp
      then show "sim s' (smap (\<lambda>(sums, carries). (x1 # sums, x2 # carries)) (wallace_column em rest s'))
          (smap (\<lambda>(sums, carries). (y1 # sums, y2 # carries)) (wallace_column bool_ops rest' ())) (\<lambda>s. rel_prod (dens s) (dens s))"
        by (rule sim_smap) (use xy s' den_mono in \<open>auto simp: rel_prod_sel split: prod.splits\<close>)
    qed
  qed
qed

lemma sim_wallace_pass:
  assumes "good s" and "dens s inc inc'" and "den_cols s cols cols'"
  shows "sim s (wallace_pass em inc cols s) (wallace_pass bool_ops inc' cols' ()) den_cols"
  using assms
proof (induction cols arbitrary: s inc inc' cols')
  case Nil
  then show ?case by (simp add: sim_ret)
next
  case (Cons c cs)
  then obtain c' cs' where c: "cols' = c' # cs'" "dens s c c'" "den_cols s cs cs'" by (auto simp: list_all2_Cons1)
  show ?case unfolding c(1) wallace_pass.simps
  proof (rule sim_seq_prod [OF sim_wallace_column [OF Cons.prems(1) c(2)] Cons.prems(1)])
    fix s' x1 x2 y1 y2 assume s': "good s'" "le s s'" and m: "\<And>xs vs. dens s xs vs \<Longrightarrow> dens s' xs vs"
      and xy: "dens s' x1 y1" "dens s' x2 y2"
    have i: "dens s' inc inc'" using m Cons.prems(2) by blast
    have "sim s' (wallace_pass em x2 cs s') (wallace_pass bool_ops y2 cs' ()) den_cols"
      by (rule Cons.IH [OF s'(1) xy(2) cols_mono [OF Cons.prems(1) s'(2) c(3)]])
    then show "sim s' (smap (Cons (inc @ x1)) (wallace_pass em x2 cs s')) (smap (Cons (inc' @ y1)) (wallace_pass bool_ops y2 cs' ())) den_cols"
      by (rule sim_smap) (use xy s' i dens_mono in \<open>auto intro!: list_all2_appendI\<close>)
  qed
qed

lemma long_column_den: "den_cols s cols cols' \<Longrightarrow> list_ex (\<lambda>c. length c > n) cols = list_ex (\<lambda>c. length c > n) cols'"
  by (induction cols cols' rule: list_all2_induct) (auto dest: list_all2_lengthD)

lemma sim_wallace_rounds:
  assumes "good s" and "den_cols s cols cols'"
  shows "sim s (wallace_rounds k em cols s) (wallace_rounds k bool_ops cols' ()) den_cols"
  using assms
proof (induction k arbitrary: s cols cols')
  case (Suc k)
  show ?case unfolding wallace_rounds.simps
    by (intro sim_if sim_bind [OF sim_wallace_pass [OF Suc.prems(1) _ Suc.prems(2)]] sim_ret Suc)
      (simp_all add: long_column_den [OF Suc.prems(2)])
qed (simp add: sim_ret)

lemma sim_columns_to_rows:
  assumes "good s" and "den_cols s cols cols'"
  shows "sim s (lift_result (columns_to_rows cols) s) (lift_result (columns_to_rows cols') ()) den_rows"
proof -
  have g: "rel_option (den s) (list_get c i) (list_get c' i)" if "dens s c c'" for c c' i
    using that by (auto simp: list_get_def list_all2_conv_all_nth)
  have "den_row s (map (\<lambda>c. list_get c i) cols) (map (\<lambda>c. list_get c i) cols')" for i
    using assms(2) g by (auto simp: list_all2_conv_all_nth)
  with assms show ?thesis
    by (auto simp: lift_result_def columns_to_rows_def long_column_den [OF assms(2)] intro!: sim_ret sim_err)
qed

lemma bit_count_den: "den_cols s cols cols' \<Longrightarrow> bit_count cols = bit_count cols'"
  by (induction cols cols' rule: list_all2_induct) (auto simp: bit_count_def dest: list_all2_lengthD)

lemma sim_reduce_columns_wallace:
  assumes "good s" and "den_cols s cols cols'"
  shows "sim s (reduce_columns_wallace em s cols) (reduce_columns_wallace bool_ops () cols') den_rows"
  unfolding reduce_columns_wallace_def bit_count_den [OF assms(2)]
  by (rule sim_bind [OF sim_wallace_rounds [OF assms]]) (rule sim_columns_to_rows)

abbreviation den_triple :: "'s \<Rightarrow> 'a list \<times> 'a list \<times> 'a list \<Rightarrow> bool list \<times> bool list \<times> bool list \<Rightarrow> bool"
  where "den_triple s \<equiv> rel_prod (dens s) (rel_prod (dens s) (dens s))"

lemma sim_cons_triple:
  assumes "sim s m b den_triple" and "good s" and "den s x u" and "den s y v"
  shows "sim s (smap (\<lambda>(sums, carries, bits). (x # sums, y # carries, bits)) m)
    (smap (\<lambda>(sums, carries, bits). (u # sums, v # carries, bits)) b) den_triple"
  by (rule sim_smap [OF assms(1)]) (use assms(2-4) den_mono in \<open>auto simp: rel_prod_sel split: prod.splits\<close>)

lemma sim_dadda_full:
  assumes "good s" and "dens s xs vs"
  shows "sim s (dadda_full em n xs s) (dadda_full bool_ops n vs ()) den_triple"
  using assms
proof (induction n arbitrary: s xs vs)
  case 0
  then show ?case by (simp add: sim_ret)
next
  case (Suc n)
  show ?case
  proof (cases "length xs < 3")
    case True
    then have "dadda_full em (Suc n) xs s = (Inl (Panic ''Dadda full adder has three inputs''), s)"
      by (cases xs; cases "tl xs"; cases "tl (tl xs)") auto
    moreover have "dadda_full bool_ops (Suc n) vs () = (Inl (Panic ''Dadda full adder has three inputs''), ())"
      using True list_all2_lengthD [OF Suc.prems(2)] by (cases vs; cases "tl vs"; cases "tl (tl vs)") auto
    ultimately show ?thesis using Suc.prems(1) by (simp add: sim_err)
  next
    case False
    then obtain a b c rest where r: "xs = a # b # c # rest" by (cases xs; cases "tl xs"; cases "tl (tl xs)") auto
    then obtain a' b' c' rest' where r': "vs = a' # b' # c' # rest'" "den s a a'" "den s b b'" "den s c c'" "dens s rest rest'"
      using Suc.prems(2) by (auto simp: list_all2_Cons1)
    show ?thesis
      unfolding r r'(1) dadda_full.simps
      by (intro sim_seq_prod [OF sim_full_adder [OF Suc.prems(1) r'(2-4)] Suc.prems(1)] sim_cons_triple Suc.IH) (use r'(5) in simp_all)
  qed
qed

lemma sim_dadda_half:
  assumes "good s" and "dens s xs vs"
  shows "sim s (dadda_half em n xs s) (dadda_half bool_ops n vs ()) den_triple"
  using assms
proof (induction n arbitrary: s xs vs)
  case 0
  then show ?case by (simp add: sim_ret)
next
  case (Suc n)
  show ?case
  proof (cases "length xs < 2")
    case True
    then have "dadda_half em (Suc n) xs s = (Inl (Panic ''Dadda half adder has two inputs''), s)"
      by (cases xs; cases "tl xs") auto
    moreover have "dadda_half bool_ops (Suc n) vs () = (Inl (Panic ''Dadda half adder has two inputs''), ())"
      using True list_all2_lengthD [OF Suc.prems(2)] by (cases vs; cases "tl vs") auto
    ultimately show ?thesis using Suc.prems(1) by (simp add: sim_err)
  next
    case False
    then obtain a b rest where r: "xs = a # b # rest" by (cases xs; cases "tl xs") auto
    then obtain a' b' rest' where r': "vs = a' # b' # rest'" "den s a a'" "den s b b'" "dens s rest rest'"
      using Suc.prems(2) by (auto simp: list_all2_Cons1)
    show ?thesis
      unfolding r r'(1) dadda_half.simps
      by (intro sim_seq_prod [OF sim_half_adder [OF Suc.prems(1) r'(2,3)] Suc.prems(1)] sim_cons_triple Suc.IH) (use r'(4) in simp_all)
  qed
qed

lemma sim_dadda_pass:
  assumes "good s" and "dens s inc inc'" and "den_cols s cols cols'"
  shows "sim s (dadda_pass em target inc cols s) (dadda_pass bool_ops target inc' cols' ()) (\<lambda>s. rel_prod (=) (den_cols s))"
  using assms
proof (induction cols arbitrary: s inc inc' cols')
  case Nil
  then show ?case by (simp add: sim_ret)
next
  case (Cons c cs)
  then obtain c' cs' where c: "cols' = c' # cs'" "dens s c c'" "den_cols s cs cs'" by (auto simp: list_all2_Cons1)
  have len: "length inc = length inc'" "length c = length c'" using Cons.prems(2) c(2) by (auto dest: list_all2_lengthD)
  let ?f = "dadda_fulls target (length inc') (length c')" and ?h = "dadda_halves target (length inc') (length c')"
  have tail: "sim s2 (smap (\<lambda>(progress, rest). (?f + ?h \<noteq> 0 \<or> progress, (inc @ u1 @ w1 @ w3) # rest)) (dadda_pass em target (u2 @ w2) cs s2))
      (smap (\<lambda>(progress, rest). (?f + ?h \<noteq> 0 \<or> progress, (inc' @ v1 @ x1 @ x3) # rest)) (dadda_pass bool_ops target (v2 @ x2) cs' ()))
      (\<lambda>s. rel_prod (=) (den_cols s))"
    if s2: "good s2" "le s s2" and d: "dens s2 inc inc'" "dens s2 u1 v1" "dens s2 u2 v2" "dens s2 w1 x1" "dens s2 w2 x2" "dens s2 w3 x3"
    for s2 u1 u2 v1 v2 w1 w2 w3 x1 x2 x3
  proof (rule sim_smap [OF Cons.IH [OF s2(1) _ cols_mono [OF Cons.prems(1) s2(2) c(3)]]])
    show "dens s2 (u2 @ w2) (v2 @ x2)" using d by (intro list_all2_appendI)
    fix s3 and x :: "bool \<times> 'a list list" and y assume "good s3" "le s2 s3" "rel_prod (=) (den_cols s3) x y"
    moreover have "dens s2 (inc @ u1 @ w1 @ w3) (inc' @ v1 @ x1 @ x3)" using d by (intro list_all2_appendI)
    ultimately show "rel_prod (=) (den_cols s3) (case x of (progress, rest) \<Rightarrow> (?f + ?h \<noteq> 0 \<or> progress, (inc @ u1 @ w1 @ w3) # rest))
        (case y of (progress, rest) \<Rightarrow> (?f + ?h \<noteq> 0 \<or> progress, (inc' @ v1 @ x1 @ x3) # rest))"
      using dens_mono [OF s2(1)] by (cases x; cases y) auto
  qed
  show ?case unfolding c(1) dadda_pass.simps Let_def len
  proof (rule sim_seq [OF sim_dadda_full [OF Cons.prems(1) c(2), of ?f] Cons.prems(1)], goal_cases)
    case (1 s1 x y)
    obtain u1 u2 u3 v1 v2 v3 where xy: "x = (u1, u2, u3)" "y = (v1, v2, v3)" "dens s1 u1 v1" "dens s1 u2 v2" "dens s1 u3 v3"
      using 1(5) by (cases x; cases y) auto
    have i1: "dens s1 inc inc'" using 1(4) Cons.prems(2) by blast
    show ?case unfolding xy(1,2) prod.case
    proof (rule sim_seq [OF sim_dadda_half [OF 1(1) xy(5), of ?h] 1(1)], goal_cases)
      case (1 s2 p q)
      obtain w1 w2 w3 x1 x2 x3 where pq: "p = (w1, w2, w3)" "q = (x1, x2, x3)" "dens s2 w1 x1" "dens s2 w2 x2" "dens s2 w3 x3"
        using 1(5) by (cases p; cases q) auto
      show ?case unfolding pq(1,2) prod.case
        by (rule tail [OF 1(1) le_trans [OF \<open>le s s1\<close> 1(2)]]) (use 1(4) i1 xy pq in blast)+
    qed
  qed
qed

lemma short_column_den: "den_cols s cols cols' \<Longrightarrow> list_all (\<lambda>c. length c \<le> n) cols = list_all (\<lambda>c. length c \<le> n) cols'"
  by (induction cols cols' rule: list_all2_induct) (auto dest: list_all2_lengthD)

lemma sim_dadda_target:
  assumes "good s" and "den_cols s cols cols'"
  shows "sim s (dadda_target k em target cols s) (dadda_target k bool_ops target cols' ()) den_cols"
  using assms
proof (induction k arbitrary: s cols cols')
  case (Suc k)
  show ?case unfolding dadda_target.simps
    by (intro sim_seq_prod [OF sim_dadda_pass [OF Suc.prems(1) _ Suc.prems(2)] Suc.prems(1)] sim_if sim_ret sim_err Suc)
      (simp_all add: short_column_den)
qed (simp add: sim_ret)

lemma dadda_weight_den: "den_cols s cols cols' \<Longrightarrow> dadda_weight cols = dadda_weight cols'"
  by (induction cols cols' rule: list_all2_induct) (simp_all add: list_all2_lengthD)

lemma column_maximum_den:
  assumes "den_cols s cols cols'"
  shows "column_maximum cols = column_maximum cols'"
proof -
  have "map length cols = map length cols'"
    using assms by (induction cols cols' rule: list_all2_induct) (auto dest: list_all2_lengthD)
  then show ?thesis by (simp add: column_maximum_def)
qed

lemma sim_reduce_columns_dadda:
  assumes "good s" and "den_cols s cols cols'"
  shows "sim s (reduce_columns_dadda em s cols) (reduce_columns_dadda bool_ops () cols') den_rows"
proof -
  have fold: "sim s (sfoldM (\<lambda>target columns s. dadda_target (Suc (dadda_weight columns)) em target columns s) ts cols s)
      (sfoldM (\<lambda>target columns s. dadda_target (Suc (dadda_weight columns)) bool_ops target columns s) ts cols' ()) den_cols" for ts
    by (rule sim_foldM [where P = "\<lambda>_. (=)" and R = den_cols, OF assms(1) _ keeps_const assms(2)])
      (auto simp: list.rel_eq dadda_weight_den simp del: dadda_target.simps intro!: sim_dadda_target)
  show ?thesis
    unfolding reduce_columns_dadda_def Let_def column_maximum_den [OF assms(2)]
    by (rule sim_bind [OF fold], intro sim_if sim_err sim_columns_to_rows) (simp_all add: long_column_den)
qed

lemma push_bits_den:
  assumes "den_row s row row'" and "den_cols s cols cols'"
  shows "den_cols s (push_bits row cols) (push_bits row' cols')"
  using assms
proof (induction row row' arbitrary: cols cols' rule: list_all2_induct)
  case (Cons x row y row')
  show ?case
  proof (cases cols)
    case Nil
    with Cons.prems show ?thesis by (cases x; cases y) auto
  next
    case (Cons c cs)
    then obtain c' cs' where c: "cols' = c' # cs'" "dens s c c'" "den_cols s cs cs'"
      using Cons.prems by (auto simp: list_all2_Cons1)
    with \<open>rel_option (den s) x y\<close> Cons Cons.IH [OF c(3)] show ?thesis
      by (cases x; cases y) (auto intro!: list_all2_appendI)
  qed
qed simp

lemma rows_to_columns_den:
  assumes "den_rows s rows rows'"
  shows "den_cols s (rows_to_columns rows n) (rows_to_columns rows' n)"
proof -
  have "den_cols s (fold push_bits rows cols) (fold push_bits rows' cols')" if "den_cols s cols cols'" for cols cols'
    using assms that by (induction rows rows' arbitrary: cols cols' rule: list_all2_induct) (auto intro: push_bits_den)
  moreover have "den_cols s (replicate n []) (replicate n [])" by (simp add: list_all2_conv_all_nth)
  ultimately show ?thesis unfolding rows_to_columns_def by blast
qed

text \<open>A matrix and its value on Booleans.\<close>

definition den_mat :: "'s \<Rightarrow> 'a BitMatrix \<Rightarrow> bool BitMatrix \<Rightarrow> bool"
  where "den_mat s m b \<longleftrightarrow>
    mx_width m = mx_width b \<and> mx_correction m = mx_correction b \<and> den_rows s (mx_rows m) (mx_rows b)"

lemma keeps_mat [simp]: "keeps den_mat"
  using keepsD [OF keeps_rows] by (auto simp: keeps_def den_mat_def)

lemma sim_reduce_matrix:
  assumes "good s" and "den_mat s m b" and "den s zero False" and "den s one True"
  shows "sim s (reduce_matrix em s m schedule zero one) (reduce_matrix bool_ops () b schedule False True)
    (\<lambda>s. rel_prod (dens s) (dens s))"
proof -
  have m: "mx_width m = mx_width b" "mx_correction m = mx_correction b" "den_rows s (mx_rows m) (mx_rows b)"
    using assms(2) by (simp_all add: den_mat_def)
  define rows rows' n where "rows = take_rows_with_correction m one" and "rows' = take_rows_with_correction b True"
    and "n = mx_width b"
  have "den_row s (map (\<lambda>x. if x then Some one else None) bs) (map (\<lambda>x. if x then Some True else None) bs)" for bs
    using assms(4) by (induction bs) auto
  then have r: "den_rows s rows rows'"
    using m by (auto simp: rows_def rows'_def take_rows_with_correction_def intro!: list_all2_appendI)
  have sched: "sim s (case schedule of
           Serial \<Rightarrow> reduce_rows_serial em s rows n
         | Balanced \<Rightarrow> reduce_rows_balanced em s rows n
         | Wallace \<Rightarrow> reduce_columns_wallace em s (rows_to_columns rows n)
         | Dadda \<Rightarrow> reduce_columns_dadda em s (rows_to_columns rows n))
      (case schedule of
           Serial \<Rightarrow> reduce_rows_serial bool_ops () rows' n
         | Balanced \<Rightarrow> reduce_rows_balanced bool_ops () rows' n
         | Wallace \<Rightarrow> reduce_columns_wallace bool_ops () (rows_to_columns rows' n)
         | Dadda \<Rightarrow> reduce_columns_dadda bool_ops () (rows_to_columns rows' n)) den_rows"
    using sim_reduce_rows_serial [OF assms(1) r] sim_balanced_rounds [OF assms(1) r]
      sim_reduce_columns_wallace [OF assms(1) rows_to_columns_den [OF r]]
      sim_reduce_columns_dadda [OF assms(1) rows_to_columns_den [OF r]]
    by (cases schedule) (simp_all add: reduce_rows_balanced_def list_all2_lengthD [OF r])
  have vec: "sim s' (lift_result (rows_to_vectors out n zero) s') (lift_result (rows_to_vectors out' n False) ())
      (\<lambda>s. rel_prod (dens s) (dens s))" if "good s'" "den_rows s' out out'" "den s' zero False" for s' out out'
  proof -
    have f: "dens s' (map (\<lambda>x. case_option zero id x) row) (map (\<lambda>x. case_option False id x) row')"
      if "den_row s' row row'" for row row'
      using that \<open>den s' zero False\<close> by (induction row row' rule: list_all2_induct) (auto split: option.splits)
    have e: "den_row s' (replicate n None) (replicate n None)" by (simp add: list_all2_conv_all_nth)
    then have "den_rows s' (replicate k (replicate n None)) (replicate k (replicate n None))" for k
      by (simp add: list_all2_conv_all_nth)
    then have "den_rows s' (out @ replicate (2 - length out) (replicate n None)) (out' @ replicate (2 - length out') (replicate n None))"
      using that(2) list_all2_lengthD [OF that(2)] by (intro list_all2_appendI) auto
    with that(1) f show ?thesis unfolding rows_to_vectors_def lift_result_def
      by (cases "out @ replicate (2 - length out) (replicate n None)";
          cases "tl (out @ replicate (2 - length out) (replicate n None))";
          cases "tl (tl (out @ replicate (2 - length out) (replicate n None)))")
        (auto simp: list_all2_Cons1 intro!: sim_ret sim_err)
  qed
  show ?thesis
    unfolding reduce_matrix_def Let_def m(1) rows_def [symmetric] rows'_def [symmetric] n_def [symmetric]
    by (rule sim_seq [OF sched assms(1)], rule vec) (use assms(3) in auto)
qed

lemma den_row_some: "den_row s row row' \<Longrightarrow> list_ex (\<lambda>x. x \<noteq> None) row = list_ex (\<lambda>x. x \<noteq> None) row'"
  by (induction row row' rule: list_all2_induct) (auto elim!: option.rel_cases)

lemma den_mat_push: "den_mat s m b \<Longrightarrow> den_row s row row' \<Longrightarrow> den_mat s (push_row row m) (push_row row' b)"
  unfolding den_mat_def push_row_def by (simp add: den_row_some list_all2_appendI del: not_None_eq)

lemma den_mat_power: "den_mat s m b \<Longrightarrow> den_mat s (add_correction_power k neg m) (add_correction_power k neg b)"
  by (auto simp: den_mat_def add_correction_power_def)

lemma den_mat_merge: "den_mat s m b \<Longrightarrow> den_mat s (merge_correction bs neg m) (merge_correction bs neg b)"
proof -
  let ?f = "fold (\<lambda>(column, bit_set) m. if bit_set then add_correction_power column neg m else m)"
  assume "den_mat s m b"
  moreover have "den_mat s m b \<Longrightarrow> den_mat s (?f es m) (fold (\<lambda>(column, bit_set) m. if bit_set then add_correction_power column neg m else m) es b)" for es
    by (induction es arbitrary: m b) (auto simp: den_mat_power)
  ultimately show ?thesis unfolding merge_correction_def by blast
qed

lemma den_mat_new: "den_mat s (BitMatrix_new n) (BitMatrix_new n)"
  by (simp add: den_mat_def BitMatrix_new_def)

lemma sim_negated_row:
  assumes "good s" and "den_row s row row'" and "den_mat s m b"
  shows "sim s (negated_row em row m s) (negated_row bool_ops row' b ()) den_mat"
proof -
  have step: "sim s' (negated_bit em e a s') (negated_bit bool_ops e' a' ()) (\<lambda>s. rel_prod (den_row s) (den_mat s))"
    if prems: "good s'" "rel_prod (=) (rel_option (den s')) e e'" "rel_prod (den_row s') (den_mat s') a a'" for s' e e' a a'
  proof -
    obtain k x x' r r' n n' where e: "e = (k, x)" "e' = (k, x')" "rel_option (den s') x x'"
      "a = (r, n)" "a' = (r', n')" "den_row s' r r'" "den_mat s' n n'"
      using prems(2,3) by (cases e; cases e'; cases a; cases a') auto
    show ?thesis
    proof (cases x)
      case None
      with e have "x' = None" by simp
      with None e that(1) show ?thesis by (simp add: negated_bit_def sim_ret list_all2_appendI)
    next
      case (Some y)
      with e obtain v where v: "x' = Some v" "den s' y v" by (auto simp: option_rel_Some1)
      show ?thesis
        unfolding negated_bit_def e(1,2,4,5) Some v(1) prod.case option.case
        by (rule sim_bind [OF sim_unary [OF that(1) v(2)]], rule sim_ret)
          (use e(6,7) that(1) keepsD [OF keeps_row] keepsD [OF keeps_mat] in
            \<open>auto intro!: list_all2_appendI den_mat_power\<close>)
    qed
  qed
  have enum: "list_all2 (rel_prod (=) (rel_option (den s))) (enumerate 0 row) (enumerate 0 row')"
    using assms(2) by (auto simp: list_all2_conv_all_nth nth_enumerate_eq)
  have k: "keeps (\<lambda>s. rel_prod (=) (rel_option (den s)))" by simp
  show ?thesis
    unfolding negated_row_def
    by (rule sim_smap [OF sim_foldM [where R = "\<lambda>s. rel_prod (den_row s) (den_mat s)", OF assms(1) enum k]], use assms(3) in simp,
        rule step) (auto intro: den_mat_push)
qed

lemma sim_append_matrix:
  assumes "good s" and "den_mat s t t'" and "den_mat s m m'"
  shows "sim s (append_matrix em s t m neg) (append_matrix bool_ops () t' m' neg) den_mat"
proof -
  have w: "mx_width t = mx_width t'" "mx_width m = mx_width m'" "mx_correction m = mx_correction m'" "den_rows s (mx_rows m) (mx_rows m')"
    using assms(2,3) by (simp_all add: den_mat_def)
  have plain: "den_mat s (t\<lparr>mx_rows := mx_rows t @ mx_rows m\<rparr>) (t'\<lparr>mx_rows := mx_rows t' @ mx_rows m'\<rparr>)"
    using assms(2,3) by (auto simp: den_mat_def intro!: list_all2_appendI)
  show ?thesis
    unfolding append_matrix_def w(1-3)
    by (intro sim_if refl sim_err sim_ret assms(1) den_mat_merge plain
        sim_smap [OF sim_foldM [where P = den_row and R = den_mat, OF assms(1) w(4) keeps_row assms(2)]] sim_negated_row)
      simp_all
qed

text \<open>
  \<open>mat_is n s m v\<close>: the matrix \<open>m\<close> is well formed, has the width \<open>n\<close> and
  denotes \<open>v\<close> modulo \<open>2 ^ n\<close>.
\<close>

definition mat_is :: "nat \<Rightarrow> 's \<Rightarrow> 'a BitMatrix \<Rightarrow> int \<Rightarrow> bool"
  where "mat_is n s m v \<longleftrightarrow> (\<exists>b. den_mat s m b \<and> mat_ok b \<and> mx_width b = n \<and> eqm n (int (mat_val b)) v)"

lemma keeps_mat_is [simp]: "keeps (mat_is n)"
  using keepsD [OF keeps_mat] unfolding keeps_def mat_is_def by blast

lemma mat_is_eqm: "mat_is n s m v \<Longrightarrow> eqm n v w \<Longrightarrow> mat_is n s m w"
  unfolding mat_is_def using eqm_trans by blast

lemma mat_is_width: "mat_is n s m v \<Longrightarrow> mx_width m = n"
  by (auto simp: mat_is_def den_mat_def)

lemma mat_is_new: "mat_is n s (BitMatrix_new n) 0"
proof -
  have "mat_ok (BitMatrix_new n :: bool BitMatrix)" "mat_val (BitMatrix_new n) = 0"
    by (simp_all add: mat_ok_def mat_val_def BitMatrix_new_def)
  with den_mat_new show ?thesis unfolding mat_is_def by (intro exI [of _ "BitMatrix_new n"]) (simp add: BitMatrix_new_def)
qed

lemma mat_is_push:
  assumes "mat_is n s m v" and "den_row s row row'" and "length row = n"
  shows "mat_is n s (push_row row m) (v + int (row_val row'))"
proof -
  obtain b where b: "den_mat s m b" "mat_ok b" "mx_width b = n" "eqm n (int (mat_val b)) v"
    using assms(1) by (auto simp: mat_is_def)
  have "length row' = mx_width b" using list_all2_lengthD [OF assms(2)] assms(3) b(3) by simp
  from push_row_val [OF b(2) this] b den_mat_push [OF b(1) assms(2)] show ?thesis
    unfolding mat_is_def by (intro exI [of _ "push_row row' b"]) (auto intro: eqm_add)
qed

lemma mat_is_power:
  assumes "mat_is n s m v"
  shows "mat_is n s (add_correction_power k neg m) (v + unit_of neg * 2 ^ k)"
proof -
  obtain b where b: "den_mat s m b" "mat_ok b" "mx_width b = n" "eqm n (int (mat_val b)) v"
    using assms(1) by (auto simp: mat_is_def)
  note a = add_correction_power_val [OF b(2), of k neg]
  have "eqm n (int (mat_val (add_correction_power k neg b))) (v + unit_of neg * 2 ^ k)"
    by (rule eqm_trans [OF a(4) [unfolded b(3)] eqm_add [OF b(4) eqm_refl]])
  with a b(3) den_mat_power [OF b(1)] show ?thesis
    unfolding mat_is_def by (intro exI [of _ "add_correction_power k neg b"]) simp
qed

lemma sim_append_matrix_is:
  assumes "good s" and "mat_is n s t v" and "mat_is n s m w"
  shows "sim s (append_matrix em s t m neg) (Inr (v + unit_of neg * w), ()) (mat_is n)"
proof -
  obtain t' m' where b: "den_mat s t t'" "mat_ok t'" "mx_width t' = n" "eqm n (int (mat_val t')) v"
    "den_mat s m m'" "mat_ok m'" "mx_width m' = n" "eqm n (int (mat_val m')) w"
    using assms(2,3) by (auto simp: mat_is_def)
  obtain r where r: "append_matrix bool_ops () t' m' neg = (Inr r, ())" "mat_ok r" "mx_width r = n"
    "eqm n (int (mat_val r)) (int (mat_val t') + unit_of neg * int (mat_val m'))"
    using append_matrix_bool [OF b(2,6), of neg] b(3,7) by auto
  have e: "eqm n (int (mat_val r)) (v + unit_of neg * w)"
    by (rule eqm_trans [OF r(4)]) (intro eqm_add eqm_mult eqm_refl b)
  have "sim s (append_matrix em s t m neg) (Inr r, ()) den_mat" using sim_append_matrix [OF assms(1) b(1,5), of neg] r(1) by simp
  then show ?thesis
    using r(2,3) e by (fastforce simp: sim_def mat_is_def split: sum.splits)
qed

lemma sim_append_signed_row:
  assumes "good s" and "mat_is n s m v" and "den_row s row row'" and "length row = n"
  shows "sim s (append_signed_row em s m row neg) (Inr (v + unit_of neg * int (row_val row')), ()) (mat_is n)"
  unfolding append_signed_row_def mat_is_width [OF assms(2)]
  using sim_append_matrix_is [OF assms(1,2) mat_is_push [OF mat_is_new assms(3,4)]] by simp

text \<open>Whatever the schedule, the two vectors add up to the number of the matrix.\<close>

lemma sim_reduce_matrix_is:
  assumes "good s" and "mat_is n s m v" and "den s zero False" and "den s one True"
    and "schedule = Dadda \<Longrightarrow> length (mx_rows m) < 2 ^ 63 - 1"
  shows "sim s (reduce_matrix em s m schedule zero one) (Inr v, ())
    (\<lambda>s p v. \<exists>l r. dens s (fst p) l \<and> dens s (snd p) r \<and> length l = n \<and> length r = n \<and>
      eqm n (int (bits_val l) + int (bits_val r)) v)"
proof -
  obtain b where b: "den_mat s m b" "mat_ok b" "mx_width b = n" "eqm n (int (mat_val b)) v"
    using assms(2) by (auto simp: mat_is_def)
  have "length (mx_rows m) = length (mx_rows b)" using b(1) by (auto simp: den_mat_def dest: list_all2_lengthD)
  then obtain l r where lr: "reduce_matrix bool_ops () b schedule False True = (Inr (l, r), ())" "length l = n" "length r = n"
    "(bits_val l + bits_val r) mod 2 ^ n = mat_val b mod 2 ^ n"
    using reduce_matrix_bool [OF b(2), of schedule] assms(5) b(3) by auto
  have "eqm n (int (bits_val l) + int (bits_val r)) (int (mat_val b))"
    using arg_cong [OF lr(4), of int] by (simp add: eqm_def zmod_int)
  then have e: "eqm n (int (bits_val l) + int (bits_val r)) v" using b(4) by (rule eqm_trans)
  have "sim s (reduce_matrix em s m schedule zero one) (Inr (l, r), ()) (\<lambda>s. rel_prod (dens s) (dens s))"
    using sim_reduce_matrix [OF assms(1) b(1) assms(3,4), of schedule] lr(1) by simp
  then show ?thesis
    using lr(2,3) e by (fastforce simp: sim_def split: sum.splits)
qed

end

end
