(* ===== verification/Multiplier.thy ===== *)
theory Multiplier
  imports Compressor_Correct
begin

text \<open>
  The multipliers of the bit-blaster, \<^verbatim>\<open>crates/opto-synth/src/boolean/bitblast/multiplier.rs\<close>:
  multiplication by a constant in non-adjacent form, the radix-4 Booth encoding and the array of
  Baugh and Wooley each fill a matrix of partial products, which the Wallace schedule of the
  compressor and a ripple-carry adder turn into the product.
\<close>

section \<open>Definitions\<close>

text \<open>The digits of a constant, with no two adjacent ones different from zero.\<close>

fun nonadjacent_from :: "nat \<Rightarrow> bool \<Rightarrow> bool list \<Rightarrow> (nat \<times> bool) list"
  where
    "nonadjacent_from index carry [] = (if carry then [(index, False)] else [])"
  | "nonadjacent_from index carry (x # bits) =
      (case (x, carry) of
         (False, False) \<Rightarrow> nonadjacent_from (Suc index) False bits
       | (True, True) \<Rightarrow> nonadjacent_from (Suc index) True bits
       | (False, True) \<Rightarrow> (index, False) # nonadjacent_from (Suc index) False bits
       | (True, False) \<Rightarrow>
           if bits \<noteq> [] \<and> hd bits then (index, True) # nonadjacent_from (Suc index) True bits
           else (index, False) # nonadjacent_from (Suc index) False bits)"

definition nonadjacent_digits :: "bool list \<Rightarrow> (nat \<times> bool) list"
  where "nonadjacent_digits bits = nonadjacent_from 0 False bits"

definition wallace_reduce ::
  "('s, 'a) bit_ops \<Rightarrow> 's \<Rightarrow> 'a BitMatrix \<Rightarrow> 'a \<Rightarrow> 'a \<Rightarrow> ('s, SynthError, 'a list) outcome"
  where "wallace_reduce em s matrix zero one =
    sbind (reduce_matrix em s matrix Wallace zero one) (\<lambda>(left, right) s. add_vectors em s left right zero)"

definition shifted_row :: "'a list \<Rightarrow> nat \<Rightarrow> nat \<Rightarrow> 'a BitRow"
  where "shifted_row multiplicand shift width =
    map (\<lambda>output. if output < shift then None else list_get multiplicand (output - shift)) [0..<width]"

definition coefficient_step ::
  "('s, 'a) bit_ops \<Rightarrow> 'a list \<Rightarrow> nat \<Rightarrow> nat \<times> bool \<Rightarrow> 'a BitMatrix \<Rightarrow> 's \<Rightarrow> ('s, SynthError, 'a BitMatrix) outcome"
  where "coefficient_step em multiplicand width digit matrix s =
    (let (shift, negative) = digit
     in if shift \<ge> width then (Inr matrix, s)
        else append_signed_row em s matrix (shifted_row multiplicand shift width) negative)"

definition constant_coefficient_matrix ::
  "('s, 'a) bit_ops \<Rightarrow> 's \<Rightarrow> 'a list \<Rightarrow> bool list \<Rightarrow> nat \<Rightarrow> ('s, SynthError, 'a BitMatrix) outcome"
  where "constant_coefficient_matrix em s multiplicand const width =
    sfoldM (coefficient_step em multiplicand width) (nonadjacent_digits const) (BitMatrix_new width) s"

definition constant_multiply_vector ::
  "('s, 'a) bit_ops \<Rightarrow> 's \<Rightarrow> 'a list \<Rightarrow> bool list \<Rightarrow> nat \<Rightarrow> 'a list option \<Rightarrow> LogicStateKind \<Rightarrow> ('s, SynthError, 'a list) outcome"
  where "constant_multiply_vector em s multiplicand const output_width addend state =
    (if multiplicand = [] \<or> output_width = 0
     then (Inl (Invariant ''constant multiplier requires nonempty input and output''), s)
     else
       sbind (emit_constant em s BitZero state) (\<lambda>zero s.
       sbind (emit_constant em s BitOne state) (\<lambda>one s.
       sbind (sfoldM (coefficient_step em multiplicand output_width) (nonadjacent_digits const)
           (BitMatrix_new output_width) s) (\<lambda>matrix s.
         let matrix = (case addend of
               None \<Rightarrow> matrix
             | Some addend \<Rightarrow> push_row (map (\<lambda>index. list_get addend index) [0..<output_width]) matrix)
         in wallace_reduce em s matrix zero one))))"

text \<open>
  The operand that is constant after resizing is the coefficient; the left one wins when both are.
\<close>

definition constant_product_matrix ::
  "('s, 'a) bit_ops \<Rightarrow> 's \<Rightarrow> 'a operand \<Rightarrow> 'a operand \<Rightarrow> WordType \<Rightarrow> ('s, SynthError, 'a BitMatrix) outcome"
  where "constant_product_matrix em s left right result_ty =
    sbind (resized_bits em s left (ty_width result_ty) (ty_signed (snd left))) (\<lambda>l s.
    sbind (resized_bits em s right (ty_width result_ty) (ty_signed (snd right))) (\<lambda>r s.
      case (bool_vector em s l, bool_vector em s r) of
        (Some const, _) \<Rightarrow> constant_coefficient_matrix em s r const (ty_width result_ty)
      | (None, Some const) \<Rightarrow> constant_coefficient_matrix em s l const (ty_width result_ty)
      | (None, None) \<Rightarrow> (Inl (Invariant ''constant multiplier recipe has no defined constant operand''), s)))"

definition append_constant_coefficient_rows ::
  "('s, 'a) bit_ops \<Rightarrow> 's \<Rightarrow> 'a BitMatrix \<Rightarrow> 'a operand \<Rightarrow> bool list \<Rightarrow> WordType \<Rightarrow> ('s, SynthError, 'a BitMatrix) outcome"
  where "append_constant_coefficient_rows em s matrix multiplicand coefficient result_ty =
    sbind (resized_bits em s multiplicand (ty_width result_ty) (ty_signed (snd multiplicand))) (\<lambda>bits s.
    sbind (constant_coefficient_matrix em s bits coefficient (ty_width result_ty)) (\<lambda>product s.
      append_matrix em s matrix product False))"

text \<open>The end of every multiplier: two constants, the compressor and the adder.\<close>

definition finish_product ::
  "('s, 'a) bit_ops \<Rightarrow> WordType \<Rightarrow> 'a BitMatrix \<Rightarrow> 's \<Rightarrow> ('s, SynthError, 'a list) outcome"
  where "finish_product em result_ty matrix s =
    sbind (emit_constant em s BitZero (ty_state result_ty)) (\<lambda>zero s.
    sbind (emit_constant em s BitOne (ty_state result_ty)) (\<lambda>one s.
      wallace_reduce em s matrix zero one))"

definition constant_wallace_multiply_bits ::
  "('s, 'a) bit_ops \<Rightarrow> 's \<Rightarrow> 'a operand \<Rightarrow> 'a operand \<Rightarrow> WordType \<Rightarrow> ('s, SynthError, 'a list) outcome"
  where "constant_wallace_multiply_bits em s left right result_ty =
    sbind (constant_product_matrix em s left right result_ty) (finish_product em result_ty)"

subsection \<open>Radix-4 Booth encoding\<close>

text \<open>Saturating addition of 32-bit widths.\<close>

definition sat_add :: "nat \<Rightarrow> nat \<Rightarrow> nat"
  where "sat_add a b = min (a + b) (2 ^ 32 - 1)"

definition booth_multiplier_bit :: "'a list \<Rightarrow> int \<Rightarrow> bool \<Rightarrow> 'a \<Rightarrow> 'a"
  where "booth_multiplier_bit bits index is_signed zero =
    (if index < 0 then zero
     else case list_get bits (nat index) of
         Some x \<Rightarrow> x
       | None \<Rightarrow> if is_signed then (if bits = [] then zero else last bits) else zero)"

definition booth_group_count :: "WordType \<Rightarrow> nat \<Rightarrow> nat"
  where "booth_group_count ty result_width =
    (let width = min (ty_width ty) result_width
     in if ty_signed ty then (width + 1) div 2 else (sat_add width 1 + 1) div 2)"

record 'a BoothDigit =
  bd_upper :: 'a
  bd_middle :: 'a
  bd_low :: 'a
  bd_shift :: nat
  bd_magnitude_width :: nat
  bd_zero :: 'a

text \<open>One bit of a Booth row: the selected multiple of the multiplicand, exclusive or the sign.\<close>

definition booth_partial_bit ::
  "('s, 'a) bit_ops \<Rightarrow> 'a list \<Rightarrow> 'a \<Rightarrow> 'a \<Rightarrow> 'a \<Rightarrow> 'a \<Rightarrow> nat \<Rightarrow> 's \<Rightarrow> ('s, SynthError, 'a) outcome"
  where "booth_partial_bit em multiplicand zero upper one two index s =
    sbind (if index = 0 then (Inr zero, s) else vget multiplicand (index - 1) s) (\<lambda>doubled s.
    sbind (emit_binary em s BitAnd two doubled) (\<lambda>doubled s.
    sbind (vget multiplicand index s) (\<lambda>single s.
    sbind (emit_mux em s one single doubled) (\<lambda>magnitude s.
      emit_binary em s BitXor magnitude upper))))"

text \<open>
  The bit in the sign column has a negative weight: it is inverted and its column corrected.
\<close>

definition booth_bit ::
  "('s, 'a) bit_ops \<Rightarrow> 'a list \<Rightarrow> 'a BoothDigit \<Rightarrow> 'a \<Rightarrow> 'a \<Rightarrow> nat \<Rightarrow> nat \<Rightarrow> 'a BitRow \<times> 'a BitMatrix \<Rightarrow> 's
    \<Rightarrow> ('s, SynthError, 'a BitRow \<times> 'a BitMatrix) outcome"
  where "booth_bit em multiplicand digit one two sign_column output acc s =
    (let (row, matrix) = acc
     in sbind (booth_partial_bit em multiplicand (bd_zero digit) (bd_upper digit) one two (output - bd_shift digit) s)
       (\<lambda>partial s.
          if output = sign_column then
            sbind (emit_unary em s BitNot partial) (\<lambda>inverted s.
              (Inr (row[output := Some inverted], add_correction_power output True matrix), s))
          else (Inr (row[output := Some partial], matrix), s)))"

definition append_booth_row ::
  "('s, 'a) bit_ops \<Rightarrow> 's \<Rightarrow> 'a BitMatrix \<Rightarrow> 'a list \<Rightarrow> 'a BoothDigit \<Rightarrow> ('s, SynthError, 'a BitMatrix) outcome"
  where "append_booth_row em s matrix multiplicand digit =
    sbind (emit_binary em s BitXor (bd_middle digit) (bd_low digit)) (\<lambda>one s.
    sbind (emit_unary em s BitNot one) (\<lambda>not_one s.
    sbind (emit_binary em s BitXor (bd_upper digit) (bd_middle digit)) (\<lambda>upper_middle s.
    sbind (emit_binary em s BitAnd not_one upper_middle) (\<lambda>two s.
      if 2 ^ 32 \<le> mx_width matrix
      then (Inl (Capacity ''multiplier output width exceeds 32-bit capacity''), s)
      else
        let width = mx_width matrix; shift = bd_shift digit;
            sign_column = sat_add (sat_add shift (bd_magnitude_width digit)) 1
        in sbind (sfoldM (booth_bit em multiplicand digit one two sign_column)
             [shift..<min width (sat_add sign_column 1)] (replicate width None, matrix) s) (\<lambda>(row, matrix) s.
           let matrix = push_row row matrix
           in (Inr (if bd_upper digit \<noteq> bd_zero digit
                    then push_row ((replicate width None)[shift := Some (bd_upper digit)]) matrix
                    else matrix), s))))))"

fun booth_groups ::
  "('s, 'a) bit_ops \<Rightarrow> 'a list \<Rightarrow> 'a list \<Rightarrow> bool \<Rightarrow> nat \<Rightarrow> nat \<Rightarrow> 'a \<Rightarrow> nat list \<Rightarrow> 'a BitMatrix \<Rightarrow> 's
    \<Rightarrow> ('s, SynthError, 'a BitMatrix) outcome"
  where
    "booth_groups em multiplicand multiplier is_signed width magnitude_width zero [] matrix s = (Inr matrix, s)"
  | "booth_groups em multiplicand multiplier is_signed width magnitude_width zero (grp # grps) matrix s =
      (let shift = grp * 2
       in if 2 ^ 32 \<le> shift then (Inl (Invariant ''Booth group shift overflow''), s)
          else if shift \<ge> width then (Inr matrix, s)
          else
            sbind (append_booth_row em s matrix multiplicand
                \<lparr>bd_upper = booth_multiplier_bit multiplier (int shift + 1) is_signed zero,
                 bd_middle = booth_multiplier_bit multiplier (int shift) is_signed zero,
                 bd_low = booth_multiplier_bit multiplier (int shift - 1) is_signed zero,
                 bd_shift = shift, bd_magnitude_width = magnitude_width, bd_zero = zero\<rparr>) (\<lambda>matrix s.
              booth_groups em multiplicand multiplier is_signed width magnitude_width zero grps matrix s))"

definition unsigned_bits :: "('s, 'a) bit_ops \<Rightarrow> 'a list \<Rightarrow> nat \<Rightarrow> 's \<Rightarrow> ('s, SynthError, 'a list) outcome"
  where "unsigned_bits em span width s =
    smapM (\<lambda>index s. sbind (vget span index s) (\<lambda>x s. unsigned_bit em s x)) [0..<width] s"

definition radix4_product_matrix ::
  "('s, 'a) bit_ops \<Rightarrow> 's \<Rightarrow> 'a operand \<Rightarrow> 'a operand \<Rightarrow> WordType \<Rightarrow> ('s, SynthError, 'a BitMatrix) outcome"
  where "radix4_product_matrix em s left right result_ty =
    (let width = ty_width result_ty;
         (multiplicand, multiplier) =
           (if booth_group_count (snd left) width \<ge> booth_group_count (snd right) width
            then (left, right) else (right, left))
     in sbind (emit_constant em s BitZero (ty_state result_ty)) (\<lambda>zero s.
        sbind (smapM (\<lambda>index s.
            sbind (resized_bit em s multiplicand index (ty_signed (snd multiplicand))) (\<lambda>x s.
              unsigned_bit em s x)) [0..<width] s) (\<lambda>multiplicand_bits s.
        sbind (unsigned_bits em (fst multiplier) (min (ty_width (snd multiplier)) width) s) (\<lambda>multiplier_bits s.
          booth_groups em multiplicand_bits multiplier_bits (ty_signed (snd multiplier)) width
            (min (ty_width (snd multiplicand)) width) zero [0..<booth_group_count (snd multiplier) width]
            (BitMatrix_new width) s))))"

definition radix4_wallace_multiply_bits ::
  "('s, 'a) bit_ops \<Rightarrow> 's \<Rightarrow> 'a operand \<Rightarrow> 'a operand \<Rightarrow> WordType \<Rightarrow> ('s, SynthError, 'a list) outcome"
  where "radix4_wallace_multiply_bits em s left right result_ty =
    sbind (radix4_product_matrix em s left right result_ty) (finish_product em result_ty)"

subsection \<open>Array multiplication\<close>

definition array_term ::
  "('s, 'a) bit_ops \<Rightarrow> nat \<Rightarrow> bool \<Rightarrow> nat \<Rightarrow> 'a \<Rightarrow> bool \<Rightarrow> nat \<Rightarrow> nat \<times> 'a \<Rightarrow> 'a BitRow \<times> 'a BitMatrix \<Rightarrow> 's
    \<Rightarrow> ('s, SynthError, 'a BitRow \<times> 'a BitMatrix) outcome"
  where "array_term em width left_sign left_len right_bit right_top j entry acc s =
    (let (i, left_bit) = entry; (row, matrix) = acc; column = i + j
     in if column \<ge> width then (Inr acc, s)
        else
          let negative = ((left_sign \<and> i = left_len - 1) \<noteq> right_top)
          in sbind (emit_binary em s BitAnd left_bit right_bit) (\<lambda>product s.
             if negative then
               sbind (emit_unary em s BitNot product) (\<lambda>inverted s.
                 (Inr (row[column := Some inverted], add_correction_power column True matrix), s))
             else (Inr (row[column := Some product], matrix), s)))"

definition array_row ::
  "('s, 'a) bit_ops \<Rightarrow> nat \<Rightarrow> bool \<Rightarrow> bool \<Rightarrow> 'a list \<Rightarrow> nat \<Rightarrow> nat \<times> 'a \<Rightarrow> 'a BitMatrix \<Rightarrow> 's \<Rightarrow> ('s, SynthError, 'a BitMatrix) outcome"
  where "array_row em width left_sign right_sign lefts right_len entry matrix s =
    (let (j, right_bit) = entry
     in smap (\<lambda>(row, matrix). push_row row matrix)
          (sfoldM (array_term em width left_sign (length lefts) right_bit (right_sign \<and> j = right_len - 1) j)
             (enumerate 0 lefts) (replicate width None, matrix) s))"

definition array_product_matrix ::
  "('s, 'a) bit_ops \<Rightarrow> 's \<Rightarrow> 'a operand \<Rightarrow> 'a operand \<Rightarrow> WordType \<Rightarrow> ('s, SynthError, 'a BitMatrix) outcome"
  where "array_product_matrix em s left right result_ty =
    (let width = ty_width result_ty
     in sbind (unsigned_bits em (fst left) (min (ty_width (snd left)) width) s) (\<lambda>lefts s.
        sbind (unsigned_bits em (fst right) (min (ty_width (snd right)) width) s) (\<lambda>rights s.
          sfoldM (array_row em width (ty_signed (snd left) \<and> ty_width (snd left) \<le> width)
              (ty_signed (snd right) \<and> ty_width (snd right) \<le> width) lefts (length rights))
            (enumerate 0 rights) (BitMatrix_new width) s)))"

definition array_wallace_multiply_bits ::
  "('s, 'a) bit_ops \<Rightarrow> 's \<Rightarrow> 'a operand \<Rightarrow> 'a operand \<Rightarrow> WordType \<Rightarrow> ('s, SynthError, 'a list) outcome"
  where "array_wallace_multiply_bits em s left right result_ty =
    sbind (array_product_matrix em s left right result_ty) (finish_product em result_ty)"

subsection \<open>The multiply provider\<close>

datatype MultiplyRecipe = Radix4Wallace | ArrayWallace | ConstantCsdWallace

text \<open>The recipe numbers; any other number is refused.\<close>

definition multiply_recipe :: "nat \<Rightarrow> MultiplyRecipe option"
  where "multiply_recipe raw =
    (if raw = 0 then Some Radix4Wallace else if raw = 1 then Some ArrayWallace
     else if raw = 2 then Some ConstantCsdWallace else None)"

definition multiply_lower ::
  "('s, 'a) bit_ops \<Rightarrow> nat \<Rightarrow> 's \<Rightarrow> 'a operand \<Rightarrow> 'a operand \<Rightarrow> WordType \<Rightarrow> ('s, SynthError, 'a list) outcome"
  where "multiply_lower em recipe s left right result_ty =
    (case multiply_recipe recipe of
       Some ArrayWallace \<Rightarrow> array_wallace_multiply_bits em s left right result_ty
     | Some ConstantCsdWallace \<Rightarrow> constant_wallace_multiply_bits em s left right result_ty
     | Some Radix4Wallace \<Rightarrow> radix4_wallace_multiply_bits em s left right result_ty
     | None \<Rightarrow> (Inl (Invariant ''resource multiply has no such recipe''), s))"

text \<open>The recipes offered for a multiplication, in the order they are offered.\<close>

definition multiply_recipes :: "bool \<Rightarrow> nat list"
  where "multiply_recipes has_constant_input = (if has_constant_input then [2] else [0, 1])"

end
