(* ===== verification/Multiplier_Correct.thy ===== *)
theory Multiplier_Correct
  imports Multiplier
begin

text \<open>
  The three matrices of partial products denote the product of the numbers of the operands,
  each read with its own signedness, modulo the width of the result.
\<close>

section \<open>Numbers\<close>

text \<open>The non-adjacent form of a constant denotes it.\<close>

definition digits_val :: "(nat \<times> bool) list \<Rightarrow> int"
  where "digits_val ds = sum_list (map (\<lambda>(i, neg). unit_of neg * 2 ^ i) ds)"

lemma digits_val_simps [simp]:
  "digits_val [] = 0" "digits_val ((i, neg) # ds) = unit_of neg * 2 ^ i + digits_val ds"
  by (simp_all add: digits_val_def)

lemma unit_of_simps [simp]: "unit_of False = 1" "unit_of True = - 1"
  by (simp_all add: unit_of_def)

lemma nonadjacent_from_val: "digits_val (nonadjacent_from k c bs) = 2 ^ k * (int (bits_val bs) + of_bool c)"
proof (induction bs arbitrary: k c)
  case (Cons b bs)
  then show ?case by (cases b; cases c) (simp_all add: algebra_simps)
qed simp

lemma nonadjacent_digits_val: "digits_val (nonadjacent_digits bs) = int (bits_val bs)"
  by (simp add: nonadjacent_digits_def nonadjacent_from_val)

lemma shifted_row_val: "eqm n (int (row_val (shifted_row vs k n))) (2 ^ k * int (bits_val vs))"
proof -
  have "map (\<lambda>x. x = Some True) (shifted_row vs k n) = take n (replicate k False @ vs @ replicate n False)"
    by (rule nth_equalityI) (auto simp: shifted_row_def nth_append list_get_def)
  then have "row_val (shifted_row vs k n) = 2 ^ k * bits_val vs mod 2 ^ n"
    unfolding row_val_def by (simp only: bits_val_take bits_val_append bits_val_replicate_False length_replicate
        mult_0_right add_0 add_0_right)
  then show ?thesis by (simp add: eqm_def zmod_int)
qed

lemma length_shifted_row [simp]: "length (shifted_row xs k n) = n"
  by (simp add: shifted_row_def)

lemma operand_val_own: "operand_val a (ty_signed (snd a)) = operand_val a True"
  by (simp add: operand_val_def)

text \<open>A truncated operand denotes its number modulo the width; a whole one exactly.\<close>

lemma truncated_val:
  assumes "fst va \<noteq> []" and "length (fst va) = ty_width (snd va)" and "0 < n"
  shows "eqm n (if ty_signed (snd va) \<and> ty_width (snd va) \<le> n then signed_val (take (min (ty_width (snd va)) n) (fst va))
      else int (bits_val (take (min (ty_width (snd va)) n) (fst va)))) (operand_val va True)"
proof (cases "ty_width (snd va) \<le> n")
  case True
  with assms(2) show ?thesis by (simp add: operand_val_def min_def)
next
  case False
  then have "int (bits_val (take n (fst va))) = operand_val va True mod 2 ^ n"
    using extend_bool_val [OF assms(1), of n True] extend_bool_take [of n "fst va" "snd va" True] assms(2) by simp
  with False show ?thesis by (simp add: min_def)
qed

section \<open>Constant products\<close>

lemma sfoldM_pure: "sfoldM (\<lambda>x v s. (Inr (g x v), s)) xs v s = (Inr (fold g xs v), s)"
  by (induction xs arbitrary: v) auto

context bit_emitter
begin

lemma sim_fold_val:
  assumes "good s" and "R s a v"
    and "\<And>s' x a v. \<lbrakk>x \<in> set xs; good s'; le s s'; R s' a v\<rbrakk> \<Longrightarrow> sim s' (f x a s') (Inr (g x v), ()) R"
  shows "sim s (sfoldM f xs a s) (Inr (fold g xs v), ()) R"
proof -
  have "sim s (sfoldM f xs a s) (sfoldM (\<lambda>x v s. (Inr (g x v), s)) xs v ()) R"
    by (rule sim_foldM [where P = "\<lambda>_ x y. x = y \<and> x \<in> set xs"])
      (use assms in \<open>auto simp: list_all2_same intro: assms(3)\<close>)
  then show ?thesis by (simp add: sfoldM_pure)
qed

text \<open>A vector of \<open>n\<close> bits that denotes \<open>v\<close> modulo \<open>2 ^ n\<close>.\<close>

definition vec_is :: "nat \<Rightarrow> 's \<Rightarrow> 'a list \<Rightarrow> int \<Rightarrow> bool"
  where "vec_is n s xs v \<longleftrightarrow> (\<exists>vs. dens s xs vs \<and> length vs = n \<and> eqm n (int (bits_val vs)) v)"

lemma vec_is_eqm: "vec_is n s xs v \<Longrightarrow> eqm n v w \<Longrightarrow> vec_is n s xs w"
  unfolding vec_is_def using eqm_trans by blast

lemma sim_result:
  assumes "sim s m (Inr v, ()) R" and "\<And>s' x. good s' \<Longrightarrow> R s' x v \<Longrightarrow> Q s' x w"
  shows "sim s m (Inr w, ()) Q"
  using assms by (auto simp: sim_def split: sum.splits)

lemma sim_smap_val:
  assumes "sim s m (Inr v, ()) R" and "\<And>s' x. good s' \<Longrightarrow> R s' x v \<Longrightarrow> Q s' (f x) w"
  shows "sim s (smap f m) (Inr w, ()) Q"
  using assms by (cases m; cases "fst m") (auto simp: sim_def smap_def)

lemma den_shifted_row:
  assumes "dens s xs vs"
  shows "den_row s (shifted_row xs k n) (shifted_row vs k n)"
proof -
  have "rel_option (den s) (list_get xs i) (list_get vs i)" for i
    using assms by (auto simp: list_get_def list_all2_conv_all_nth)
  then show ?thesis by (simp add: shifted_row_def list_all2_conv_all_nth)
qed

lemma sim_coefficient_step:
  assumes "good s" and "dens s xs vs" and "mat_is n s m v"
  shows "sim s (coefficient_step em xs n d m s) (Inr (v + unit_of (snd d) * 2 ^ fst d * int (bits_val vs)), ()) (mat_is n)"
proof (cases "fst d \<ge> n")
  case True
  then have "eqm n (v + 0) (v + unit_of (snd d) * int (bits_val vs) * 2 ^ fst d)"
    by (intro eqm_add eqm_refl eqm_sym [OF eqm_power_zero])
  then have "mat_is n s m (v + unit_of (snd d) * 2 ^ fst d * int (bits_val vs))"
    using mat_is_eqm [OF assms(3)] by (simp add: ac_simps)
  with True assms(1) show ?thesis by (cases d) (simp add: coefficient_step_def sim_ret)
next
  case False
  have "eqm n (v + unit_of (snd d) * int (row_val (shifted_row vs (fst d) n))) (v + unit_of (snd d) * (2 ^ fst d * int (bits_val vs)))"
    by (intro eqm_add eqm_mult eqm_refl shifted_row_val)
  then show ?thesis
    using sim_append_signed_row [OF assms(1,3) den_shifted_row [OF assms(2)] length_shifted_row, of "fst d" "snd d"] False
    by (cases d) (auto simp: coefficient_step_def mult.assoc elim!: sim_result intro: mat_is_eqm)
qed

lemma coefficient_sum: "fold (\<lambda>d v. v + unit_of (snd d) * 2 ^ fst d * x) ds v = v + digits_val ds * (x :: int)"
  by (induction ds arbitrary: v) (auto simp: algebra_simps)

lemma sim_coefficient_fold:
  assumes "good s" and "dens s xs vs"
  shows "sim s (sfoldM (coefficient_step em xs n) (nonadjacent_digits cs) (BitMatrix_new n) s)
    (Inr (int (bits_val cs) * int (bits_val vs)), ()) (mat_is n)"
proof -
  have "sim s (sfoldM (coefficient_step em xs n) (nonadjacent_digits cs) (BitMatrix_new n) s)
      (Inr (fold (\<lambda>d v. v + unit_of (snd d) * 2 ^ fst d * int (bits_val vs)) (nonadjacent_digits cs) 0), ()) (mat_is n)"
    by (rule sim_fold_val [where R = "mat_is n", OF assms(1) mat_is_new]) (use assms dens_mono in \<open>auto intro!: sim_coefficient_step\<close>)
  then show ?thesis by (simp add: coefficient_sum nonadjacent_digits_val)
qed

lemmas sim_constant_coefficient_matrix = sim_coefficient_fold [folded constant_coefficient_matrix_def]

lemma sim_wallace_reduce:
  assumes "good s" and "mat_is n s m v" and "den s zero False" and "den s one True" and "0 < n"
  shows "sim s (wallace_reduce em s m zero one) (Inr v, ()) (vec_is n)"
proof -
  have add: "sim s' (add_vectors em s' ls rs zero) (Inr v, ()) (vec_is n)"
    if p: "good s'" "den s' zero False" "dens s' ls l" "dens s' rs r" "length l = n" "length r = n"
      "eqm n (int (bits_val l) + int (bits_val r)) v" for s' ls rs l r
  proof -
    have ne: "l \<noteq> []" using p(5) assms(5) by auto
    have "eqm n (int (bits_val (sum_bits l r False))) (int (bits_val l) + int (bits_val r))"
      using sum_bits_val [of l r False] p(5,6) by (simp add: eqm_def zmod_int)
    then have e: "eqm n (int (bits_val (sum_bits l r False))) v" using p(7) by (rule eqm_trans)
    have "sim s' (add_vectors em s' ls rs zero) (Inr (sum_bits l r False), ()) dens"
      using sim_add_vectors [OF p(1,3,4,2)] add_vectors_bool [of l r False] p(5,6) ne by simp
    then show ?thesis by (rule sim_result) (use e p(5) in \<open>auto simp: vec_is_def\<close>)
  qed
  show ?thesis
    unfolding wallace_reduce_def
  proof (rule sim_then [OF sim_reduce_matrix_is [OF assms(1-4)] assms(1)], simp, goal_cases)
    case (1 s' x)
    then show ?case using add [OF 1(1) 1(3) [OF assms(3)]] by (auto split: prod.splits)
  qed
qed

lemma sim_finish_product:
  assumes "good s" and "mat_is (ty_width ty) s m v" and "0 < ty_width ty"
  shows "sim s (finish_product em ty m s) (Inr v, ()) (vec_is (ty_width ty))"
proof -
  note c = sim_constant [where x = BitZero and st' = TwoState, simplified]
    and d = sim_constant [where x = BitOne and st' = TwoState, simplified]
  show ?thesis
    unfolding finish_product_def
    by (rule sim_then [OF c [OF assms(1)] assms(1)], rule sim_then [OF d], assumption, assumption,
        rule sim_wallace_reduce)
      (use assms keepsD [OF keeps_mat_is] in \<open>auto intro: le_trans\<close>)
qed

text \<open>A multiplication by a constant vector.\<close>

lemma sim_constant_multiply_vector:
  assumes "good s" and "dens s xs vs" and "xs \<noteq> []" and "0 < n"
  shows "sim s (constant_multiply_vector em s xs cs n None st) (Inr (int (bits_val cs) * int (bits_val vs)), ()) (vec_is n)"
proof -
  note c = sim_constant [where x = BitZero and st' = TwoState, simplified]
    and d = sim_constant [where x = BitOne and st' = TwoState, simplified]
  have ne: "\<not> (xs = [] \<or> n = 0)" using assms by simp
  show ?thesis
    unfolding constant_multiply_vector_def if_not_P [OF ne] option.case Let_def
    by (rule sim_then [OF c [OF assms(1)] assms(1)], rule sim_then [OF d], assumption, assumption,
        rule sim_then [OF sim_coefficient_fold [where vs = vs]], assumption, use assms(2) in blast, assumption,
        rule sim_wallace_reduce)
      (use assms(4) in auto)
qed

lemma extended_is: "fst va \<noteq> [] \<Longrightarrow> eqm n (int (bits_val (extend_bool va n se))) (operand_val va se)"
  by (simp add: extend_bool_val)

lemma sim_constant_product_matrix:
  assumes "good s" and "opds s a va" and "opds s b vb" and "fst a \<noteq> []" and "fst b \<noteq> []"
    and "all_known s (fst a) \<or> all_known s (fst b)"
  shows "sim s (constant_product_matrix em s a b ty) (Inr (operand_val va True * operand_val vb True), ()) (mat_is (ty_width ty))"
proof -
  let ?n = "ty_width ty"
  have ne: "fst va \<noteq> []" "fst vb \<noteq> []" and t: "snd va = snd a" "snd vb = snd b" using assms(2-5) by auto
  let ?x = "extend_bool va ?n (ty_signed (snd a))" and ?y = "extend_bool vb ?n (ty_signed (snd b))"
  have e: "eqm ?n (int (bits_val ?x)) (operand_val va True)" "eqm ?n (int (bits_val ?y)) (operand_val vb True)"
    using extended_is [OF ne(1)] extended_is [OF ne(2)] t operand_val_own [of va] operand_val_own [of vb] by metis+
  have prod: "sim s' (constant_coefficient_matrix em s' zs cs ?n) (Inr (operand_val va True * operand_val vb True), ()) (mat_is ?n)"
    if "good s'" "(dens s' zs ?y \<and> cs = ?x) \<or> (dens s' zs ?x \<and> cs = ?y)" for s' zs cs
  proof -
    have "\<exists>vs. dens s' zs vs \<and> eqm ?n (int (bits_val cs) * int (bits_val vs)) (operand_val va True * operand_val vb True)"
      using that(2) eqm_mult [OF e] eqm_mult [OF e(2,1)] by (metis mult.commute)
    then obtain vs where vs: "dens s' zs vs" "eqm ?n (int (bits_val cs) * int (bits_val vs)) (operand_val va True * operand_val vb True)"
      by blast
    show ?thesis
      by (rule sim_result [OF sim_constant_coefficient_matrix [OF that(1) vs(1)]]) (rule mat_is_eqm [OF _ vs(2)])
  qed
  have k: "all_known s' (fst b)" if "good s'" "le s s'" "all_known s (fst b)" for s'
    using all_known_mono [OF assms(1) that(2) _ that(3)] assms(3) by blast
  note ra = sim_resized_bits_known [OF assms(1,2) assms(4), of ?n "ty_signed (snd a)", unfolded resized_bits_bool [OF ne(1)]]
    and rb = sim_resized_bits_known [OF _ _ assms(5), of _ vb ?n "ty_signed (snd b)", unfolded resized_bits_bool [OF ne(2)]]
  show ?thesis
    unfolding constant_product_matrix_def
  proof (rule sim_then [OF ra assms(1)], rule sim_then [OF rb], goal_cases)
    case (4 s1 ls s2 rs)
    have l: "dens s2 ls ?x" using 4(5,9) by blast
    have "all_known s2 ls \<or> all_known s2 rs"
      using assms(6) 4(5,10) k [OF 4(1,2)] all_known_mono [OF 4(1,7)] by blast
    moreover note bool_vector_law [OF 4(6) l] bool_vector_law [OF 4(6) conjunct1 [OF 4(10)]]
    ultimately show ?case using l 4(6,10) by (cases "all_known s2 ls") (auto intro!: prod)
  qed (use assms(3) in auto)
qed

lemma sim_append_constant_coefficient_rows:
  assumes "good s" and "mat_is (ty_width ty) s m v" and "opds s a va" and "fst a \<noteq> []"
  shows "sim s (append_constant_coefficient_rows em s m a cs ty)
    (Inr (v + int (bits_val cs) * operand_val va True), ()) (mat_is (ty_width ty))"
proof -
  let ?n = "ty_width ty"
  have ne: "fst va \<noteq> []" and t: "snd va = snd a" using assms(3,4) by auto
  let ?x = "extend_bool va ?n (ty_signed (snd a))"
  have e: "eqm ?n (int (bits_val cs) * int (bits_val ?x)) (int (bits_val cs) * operand_val va True)"
    using eqm_mult [OF eqm_refl extended_is [OF ne]] t operand_val_own [of va] by metis
  show ?thesis
    unfolding append_constant_coefficient_rows_def
  proof (rule sim_then [OF sim_resized_bits [OF assms(1,3), of ?n "ty_signed (snd a)", unfolded resized_bits_bool [OF ne]] assms(1)],
      rule sim_then [OF sim_constant_coefficient_matrix [where vs = ?x]], goal_cases)
    case (4 s1 xs s2 p)
    have "mat_is ?n s2 m v"
      using keepsD [OF keeps_mat_is assms(1) le_trans [OF 4(2,7)] assms(2)] .
    from sim_append_matrix_is [OF 4(6) this mat_is_eqm [OF 4(10) e], of False] show ?case by simp
  qed auto
qed

section \<open>Array products\<close>

end

lemma signed_val_Cons: "bs \<noteq> [] \<Longrightarrow> signed_val (b # bs) = of_bool b + 2 * signed_val bs"
  by (simp add: signed_val_def)

text \<open>The number of a vector whose bit \<open>len - 1\<close> may have a negative weight.\<close>

fun weighted :: "bool \<Rightarrow> nat \<Rightarrow> nat \<Rightarrow> bool list \<Rightarrow> int"
  where
    "weighted sg len k [] = 0"
  | "weighted sg len k (b # bs) = unit_of (sg \<and> k = len - 1) * of_bool b * 2 ^ k + weighted sg len (Suc k) bs"

lemma weighted_val:
  assumes "bs \<noteq> []"
  shows "weighted sg (k + length bs) k bs = 2 ^ k * (if sg then signed_val bs else int (bits_val bs))"
  using assms
proof (induction bs arbitrary: k)
  case (Cons b bs)
  show ?case
  proof (cases "bs = []")
    case True
    then show ?thesis by (cases b; cases sg) (simp_all add: signed_val_def)
  next
    case False
    have l: "Suc k + length bs = k + length (b # bs)" by simp
    have "signed_val (b # bs) = of_bool b + 2 * signed_val bs" by (rule signed_val_Cons [OF False])
    moreover have "\<not> (sg \<and> k = k + length (b # bs) - 1)" using False by simp
    ultimately show ?thesis using Cons.IH [OF False, of "Suc k", unfolded l] by (simp add: algebra_simps)
  qed
qed simp

lemma row_val_update:
  assumes "c < length row" and "row ! c = None"
  shows "row_val (row[c := Some b]) = row_val row + of_bool b * 2 ^ c"
  using assms
proof (induction row arbitrary: c)
  case (Cons x row)
  then show ?case by (cases c) auto
qed simp

text \<open>What a row of the array is on Booleans: the row and the number of the matrix.\<close>

definition array_spec :: "nat \<Rightarrow> bool \<Rightarrow> nat \<Rightarrow> bool \<Rightarrow> bool \<Rightarrow> nat \<Rightarrow> nat \<times> bool \<Rightarrow> bool option list \<times> int \<Rightarrow> bool option list \<times> int"
  where "array_spec n sg len r rtop j e p =
    (if fst e + j \<ge> n then p
     else let neg = ((sg \<and> fst e = len - 1) \<noteq> rtop); product = (snd e \<and> r)
       in ((fst p)[fst e + j := Some (product \<noteq> neg)], snd p - of_bool neg * 2 ^ (fst e + j)))"

lemma array_spec_fold:
  fixes ls :: "bool list" and v :: int and sg r rtop :: bool and len :: nat
  assumes "length row = n" and "\<And>c. k + j \<le> c \<Longrightarrow> c < n \<Longrightarrow> row ! c = None"
  defines "out \<equiv> fold (array_spec n sg len r rtop j) (enumerate k ls) (row, v)"
  shows "length (fst out) = n \<and>
    eqm n (snd out + int (row_val (fst out))) (v + int (row_val row) + unit_of rtop * of_bool r * 2 ^ j * weighted sg len k ls)"
  using assms(1,2) unfolding out_def
proof (induction ls arbitrary: k row v)
  case (Cons l ls)
  let ?f = "fold (array_spec n sg len r rtop j)"
  show ?case
  proof (cases "k + j \<ge> n")
    case True
    have "array_spec n sg len r rtop j (k, l) (row, v) = (row, v)" using True by (simp add: array_spec_def)
    moreover have "length (fst (?f (enumerate (Suc k) ls) (row, v))) = n \<and>
        eqm n (snd (?f (enumerate (Suc k) ls) (row, v)) + int (row_val (fst (?f (enumerate (Suc k) ls) (row, v)))))
          (v + int (row_val row) + unit_of rtop * of_bool r * 2 ^ j * weighted sg len (Suc k) ls)"
      by (rule Cons.IH) (use Cons.prems in auto)
    moreover have "eqm n (v + int (row_val row) + unit_of rtop * of_bool r * 2 ^ j * weighted sg len (Suc k) ls + 0)
        (v + int (row_val row) + unit_of rtop * of_bool r * 2 ^ j * weighted sg len (Suc k) ls +
          unit_of rtop * of_bool r * unit_of (sg \<and> k = len - 1) * of_bool l * 2 ^ (k + j))"
      by (intro eqm_add eqm_refl eqm_sym [OF eqm_power_zero [OF True]])
    ultimately show ?thesis
      by (auto simp: algebra_simps power_add elim: eqm_trans)
  next
    case False
    define neg where "neg = ((sg \<and> k = len - 1) \<noteq> rtop)"
    define row' where "row' = row[k + j := Some ((l \<and> r) \<noteq> neg)]"
    define v' where "v' = v - of_bool neg * 2 ^ (k + j)"
    have st: "array_spec n sg len r rtop j (k, l) (row, v) = (row', v')"
      using False by (simp add: array_spec_def Let_def neg_def row'_def v'_def)
    have "row ! (k + j) = None" using Cons.prems(2) False by simp
    then have rv: "row_val row' = row_val row + of_bool ((l \<and> r) \<noteq> neg) * 2 ^ (k + j)"
      unfolding row'_def using False Cons.prems(1) by (intro row_val_update) auto
    have i: "length (fst (?f (enumerate (Suc k) ls) (row', v'))) = n \<and>
        eqm n (snd (?f (enumerate (Suc k) ls) (row', v')) + int (row_val (fst (?f (enumerate (Suc k) ls) (row', v')))))
          (v' + int (row_val row') + unit_of rtop * of_bool r * 2 ^ j * weighted sg len (Suc k) ls)"
      by (rule Cons.IH) (use Cons.prems in \<open>auto simp: row'_def\<close>)
    have "v' + int (row_val row') = v + int (row_val row) + unit_of rtop * of_bool r * 2 ^ j * (unit_of (sg \<and> k = len - 1) * of_bool l * 2 ^ k)"
      unfolding rv v'_def by (cases l; cases r; cases rtop; cases "sg \<and> k = len - 1") (simp_all add: neg_def power_add unit_of_def)
    with st i show ?thesis by (simp add: distrib_left add.assoc)
  qed
qed simp

context bit_emitter
begin

definition row_mat :: "nat \<Rightarrow> 's \<Rightarrow> 'a option list \<times> 'a BitMatrix \<Rightarrow> bool option list \<times> int \<Rightarrow> bool"
  where "row_mat n s p q \<longleftrightarrow> den_row s (fst p) (fst q) \<and> mat_is n s (snd p) (snd q)"

lemma row_mat_mono: "row_mat n s p q \<Longrightarrow> good s \<Longrightarrow> le s s' \<Longrightarrow> row_mat n s' p q"
  using keepsD [OF keeps_mat_is] row_mono by (auto simp: row_mat_def)

text \<open>One bit of a row: as it is, or inverted with its column corrected.\<close>

lemma sim_place_bit:
  assumes "good s" and "den s x v" and "row_mat n s (row, m) (vrow, w)"
  shows "sim s (if neg then sbind (emit_unary em s BitNot x) (\<lambda>y s. (Inr (row[c := Some y], add_correction_power c True m), s))
      else (Inr (row[c := Some x], m), s))
    (Inr (vrow[c := Some (v \<noteq> neg)], w - of_bool neg * 2 ^ c), ()) (row_mat n)"
proof (cases neg)
  case True
  have "sim s (emit_unary em s BitNot x) (Inr (\<not> v), ()) den" using sim_unary [OF assms(1,2), of BitNot] by simp
  then have "sim s (sbind (emit_unary em s BitNot x) (\<lambda>y s. (Inr (row[c := Some y], add_correction_power c True m), s)))
      (Inr (vrow[c := Some (\<not> v)], w - 2 ^ c), ()) (row_mat n)"
  proof (rule sim_then [OF _ assms(1)], goal_cases)
    case (1 s' y)
    have "row_mat n s' (row, m) (vrow, w)" by (rule row_mat_mono [OF assms(3,1) 1(2)])
    then have "row_mat n s' (row[c := Some y], add_correction_power c True m) (vrow[c := Some (\<not> v)], w + unit_of True * 2 ^ c)"
      using 1(5) mat_is_power [of n s' m w c True] by (simp add: row_mat_def list_all2_update_cong)
    with 1(1) show ?case by (simp add: sim_ret)
  qed
  with True show ?thesis by simp
next
  case False
  with assms show ?thesis by (auto simp: row_mat_def intro!: sim_ret list_all2_update_cong)
qed

lemma sim_array_term:
  assumes "good s" and "den s l vl" and "den s x r" and "row_mat n s p q"
  shows "sim s (array_term em n sg len x rtop j (i, l) p s) (Inr (array_spec n sg len r rtop j (i, vl) q), ()) (row_mat n)"
proof -
  obtain row m vrow w where p: "p = (row, m)" "q = (vrow, w)" by (cases p; cases q) auto
  show ?thesis
  proof (cases "i + j \<ge> n")
    case True
    with assms show ?thesis by (simp add: array_term_def array_spec_def p sim_ret)
  next
    case False
    have "sim s (emit_binary em s BitAnd l x) (Inr (vl \<and> r), ()) den" using sim_binary [OF assms(1-3), of BitAnd] by simp
    then have "sim s (sbind (emit_binary em s BitAnd l x) (\<lambda>product s.
        if (sg \<and> i = len - 1) \<noteq> rtop then sbind (emit_unary em s BitNot product) (\<lambda>y s.
            (Inr (row[i + j := Some y], add_correction_power (i + j) True m), s))
        else (Inr (row[i + j := Some product], m), s)))
      (Inr (vrow[i + j := Some ((vl \<and> r) \<noteq> ((sg \<and> i = len - 1) \<noteq> rtop))], w - of_bool ((sg \<and> i = len - 1) \<noteq> rtop) * 2 ^ (i + j)), ())
      (row_mat n)"
      by (rule sim_then [OF _ assms(1)]) (rule sim_place_bit, assumption, assumption, use assms(1,4) p in \<open>auto intro: row_mat_mono\<close>)
    then show ?thesis using False by (simp only: array_term_def array_spec_def p Let_def prod.case fst_conv snd_conv if_False)
  qed
qed

lemma sim_array_row:
  assumes "good s" and "dens s ls vl" and "den s x r" and "mat_is n s m v" and "vl \<noteq> []"
  shows "sim s (array_row em n sgl sgr ls len (j, x) m s)
    (Inr (v + unit_of (sgr \<and> j = len - 1) * of_bool r * 2 ^ j * (if sgl then signed_val vl else int (bits_val vl))), ()) (mat_is n)"
proof -
  let ?rtop = "sgr \<and> j = len - 1"
  let ?g = "array_spec n sgl (length vl) r ?rtop j"
  define out where "out = fold ?g (enumerate 0 vl) (replicate n None, v)"
  have e: "length (fst out) = n" "eqm n (snd out + int (row_val (fst out))) (v + unit_of ?rtop * of_bool r * 2 ^ j * weighted sgl (length vl) 0 vl)"
    using array_spec_fold [of "replicate n None" n 0 j sgl "length vl" r ?rtop vl v] by (simp_all add: out_def row_val_def)
  have rel: "list_all2 (rel_prod (=) (den s)) (enumerate 0 ls) (enumerate 0 vl)"
    using assms(2) by (auto simp: list_all2_conv_all_nth nth_enumerate_eq)
  have k: "keeps (\<lambda>s. rel_prod (=) (den s))" by simp
  have start: "row_mat n s (replicate n None, m) (replicate n None, v)"
    using assms(4) by (simp add: row_mat_def list_all2_conv_all_nth)
  have "sim s (sfoldM (array_term em n sgl (length ls) x ?rtop j) (enumerate 0 ls) (replicate n None, m) s)
      (sfoldM (\<lambda>y p s. (Inr (?g y p), s)) (enumerate 0 vl) (replicate n None, v) ()) (row_mat n)"
    unfolding list_all2_lengthD [OF assms(2)]
  proof (rule sim_foldM [where R = "row_mat n", OF assms(1) rel k start], goal_cases)
    case (1 s' e f c d)
    obtain i l i' vl' where "e = (i, l)" "f = (i, vl')" "den s' l vl'" using 1(3) by (cases e; cases f) auto
    with sim_array_term [OF 1(1) _ den_mono [OF assms(1) 1(2) assms(3)] 1(4)] show ?case by simp
  qed
  then have "sim s (sfoldM (array_term em n sgl (length ls) x ?rtop j) (enumerate 0 ls) (replicate n None, m) s) (Inr out, ()) (row_mat n)"
    by (simp add: sfoldM_pure out_def)
  then show ?thesis
    unfolding array_row_def Let_def prod.case
  proof (rule sim_smap_val, goal_cases)
    case (1 s' p)
    obtain row m' where p: "p = (row, m')" by (cases p)
    with 1(2) have r: "den_row s' row (fst out)" "mat_is n s' m' (snd out)" by (simp_all add: row_mat_def)
    have "length row = n" using list_all2_lengthD [OF r(1)] e(1) by simp
    from mat_is_eqm [OF mat_is_push [OF r(2,1) this] e(2)] show ?case
      using weighted_val [OF assms(5), of sgl 0] by (simp add: p)
  qed
qed

lemma sim_unsigned_bits:
  assumes "good s" and "dens s xs vs" and "n \<le> length vs"
  shows "sim s (unsigned_bits em xs n s) (Inr (take n vs), ()) dens"
proof -
  have "smapM (\<lambda>index s. sbind (vget vs index s) (\<lambda>x s. unsigned_bit bool_ops s x)) [0..<n] () = (Inr (map (\<lambda>i. vs ! i) [0..<n]), ())"
    by (rule smapM_bool) (use assms(3) in \<open>simp add: vget_def\<close>)
  moreover have "map (\<lambda>i. vs ! i) [0..<n] = take n vs" using assms(3) by (intro nth_equalityI) auto
  moreover have "sim s (unsigned_bits em xs n s)
      (smapM (\<lambda>index s. sbind (vget vs index s) (\<lambda>x s. unsigned_bit bool_ops s x)) [0..<n] ()) dens"
    unfolding unsigned_bits_def
    by (rule sim_mapM_dens [OF assms(1)]; intro sim_steps sim_seq [OF sim_vget [of _ den]] sim_unsigned) (use assms(2) in simp_all)
  ultimately show ?thesis by simp
qed

lemma sim_array_rows:
  assumes "good s" and "dens s ls vl" and "dens s rs vr" and "mat_is n s m v" and "vl \<noteq> []"
  shows "sim s (sfoldM (array_row em n sgl sgr ls len) (enumerate k rs) m s)
    (Inr (v + weighted sgr len k vr * (if sgl then signed_val vl else int (bits_val vl))), ()) (mat_is n)"
  using assms(1-4)
proof (induction rs arbitrary: s k m v vr)
  case Nil
  then show ?case by (simp add: sim_ret)
next
  case (Cons x rs)
  then obtain r vr' where vr: "vr = r # vr'" "den s x r" "dens s rs vr'" by (auto simp: list_all2_Cons1)
  let ?L = "if sgl then signed_val vl else int (bits_val vl)"
  let ?v = "v + unit_of (sgr \<and> k = len - 1) * of_bool r * 2 ^ k * ?L"
  have e: "v + weighted sgr len k vr * ?L = ?v + weighted sgr len (Suc k) vr' * ?L"
    by (simp add: vr(1) distrib_right add.assoc)
  show ?case
    unfolding enumerate_simps sfoldM.simps e
    by (rule sim_then [OF sim_array_row [OF Cons.prems(1,2) vr(2) Cons.prems(4) assms(5)] Cons.prems(1)], rule Cons.IH)
      (use Cons.prems vr in blast)+
qed

lemma sim_array_product_matrix:
  assumes "good s" and "opds s a va" and "opds s b vb" and "fst a \<noteq> []" and "fst b \<noteq> []"
    and "length (fst a) = ty_width (snd a)" and "length (fst b) = ty_width (snd b)" and "0 < ty_width ty"
  shows "sim s (array_product_matrix em s a b ty) (Inr (operand_val va True * operand_val vb True), ()) (mat_is (ty_width ty))"
proof -
  let ?n = "ty_width ty"
  have v: "fst va \<noteq> []" "fst vb \<noteq> []" "snd va = snd a" "snd vb = snd b"
    "length (fst va) = ty_width (snd va)" "length (fst vb) = ty_width (snd vb)"
    using assms(2-7) by (auto dest: list_all2_lengthD)
  let ?l = "take (min (ty_width (snd a)) ?n) (fst va)" and ?r = "take (min (ty_width (snd b)) ?n) (fst vb)"
  let ?sl = "ty_signed (snd a) \<and> ty_width (snd a) \<le> ?n" and ?sr = "ty_signed (snd b) \<and> ty_width (snd b) \<le> ?n"
  have ne: "?l \<noteq> []" "?r \<noteq> []" using v assms(8) by (auto simp flip: length_greater_0_conv)
  let ?L = "if ?sl then signed_val ?l else int (bits_val ?l)" and ?R = "if ?sr then signed_val ?r else int (bits_val ?r)"
  have e: "eqm ?n (weighted ?sr (length ?r) 0 ?r * ?L) (operand_val va True * operand_val vb True)"
  proof -
    have w: "weighted ?sr (length ?r) 0 ?r = ?R" using weighted_val [OF ne(2), of ?sr 0] by (simp only: add_0 power_0 mult_1)
    have "eqm ?n ?L (operand_val va True)" "eqm ?n ?R (operand_val vb True)"
      using truncated_val [OF v(1,5) assms(8)] truncated_val [OF v(2,6) assms(8)] unfolding v(3,4) .
    then have "eqm ?n (?R * ?L) (operand_val vb True * operand_val va True)" by (intro eqm_mult)
    then show ?thesis unfolding w by (simp only: mult.commute)
  qed
  show ?thesis
    unfolding array_product_matrix_def Let_def
  proof (rule sim_then [OF sim_unsigned_bits [where vs = "fst va"] assms(1)], goal_cases)
    case (4 s1 ls)
    show ?case
    proof (rule sim_then [OF sim_unsigned_bits [where vs = "fst vb"] 4(1)], goal_cases)
      case (4 s2 rs)
      have "length rs = length ?r" using list_all2_lengthD [OF 4(5)] .
      then show ?case
        using sim_array_rows [OF 4(1) 4(4) [OF \<open>dens s1 ls ?l\<close>] 4(5) mat_is_new ne(1), where sgl = ?sl and sgr = ?sr and len = "length ?r" and k = 0 and n = ?n]
        by (simp only: add_0) (erule sim_result, rule mat_is_eqm [OF _ e])
    qed (use assms 4 v in auto)
  qed (use assms v in auto)
qed

end

section \<open>Booth products\<close>

text \<open>The digit of three bits, and the magnitude of its multiple of the multiplicand.\<close>

definition booth_digit :: "bool \<Rightarrow> bool \<Rightarrow> bool \<Rightarrow> int"
  where "booth_digit u m l = of_bool m + of_bool l - 2 * of_bool u"

definition booth_magnitude :: "bool \<Rightarrow> bool \<Rightarrow> bool list \<Rightarrow> nat \<Rightarrow> bool"
  where "booth_magnitude one two vs i = (if one then vs ! i else two \<and> 0 < i \<and> vs ! (i - 1))"

lemma booth_magnitude_bits:
  assumes "n \<le> length vs"
  shows "map (booth_magnitude one two vs) [0..<n] =
    (if one then take n vs else if two then take n (False # vs) else replicate n False)"
  by (rule nth_equalityI) (use assms in \<open>auto simp: booth_magnitude_def nth_Cons split: nat.splits\<close>)

lemma signed_val_not: "bs \<noteq> [] \<Longrightarrow> signed_val (map Not bs) = - 1 - signed_val bs"
  using bits_val_not_int [of bs] by (simp add: signed_val_def last_map)

lemma bits_val_not_eqm: "eqm (length bs) (int (bits_val (map Not bs))) (- 1 - int (bits_val bs))"
  using bits_val_not_int [of bs] by (simp add: eqm_dvd)

text \<open>The partial bits, the magnitude exclusive or the sign, and the sign added at the bottom.\<close>

definition booth_partial :: "bool \<Rightarrow> bool \<Rightarrow> bool \<Rightarrow> bool list \<Rightarrow> nat \<Rightarrow> bool"
  where "booth_partial u m l vs i = (booth_magnitude (m \<noteq> l) (\<not> (m \<noteq> l) \<and> (u \<noteq> m)) vs i \<noteq> u)"

lemma booth_partial_bits:
  "map (booth_partial u m l vs) [0..<n] =
    (let bs = map (booth_magnitude (m \<noteq> l) (\<not> (m \<noteq> l) \<and> (u \<noteq> m)) vs) [0..<n] in if u then map Not bs else bs)"
  by (cases u) (simp_all add: booth_partial_def Let_def)

lemma booth_row_wraps:
  assumes "n \<le> length vs"
  shows "eqm n (int (bits_val (map (booth_partial u m l vs) [0..<n])) + of_bool u) (booth_digit u m l * int (bits_val vs))"
proof -
  let ?one = "m \<noteq> l" and ?two = "\<not> (m \<noteq> l) \<and> (u \<noteq> m)"
  let ?bs = "map (booth_magnitude ?one ?two vs) [0..<n]"
  have t: "eqm n (int (bits_val (take n vs))) (int (bits_val vs))" "eqm n (int (bits_val (take n (False # vs)))) (2 * int (bits_val vs))"
    by (simp_all add: eqm_def bits_val_take zmod_int)
  have mag: "eqm n (int (bits_val ?bs)) (booth_digit u m l * unit_of u * int (bits_val vs))"
    unfolding booth_magnitude_bits [OF assms] using t
    by (cases u; cases m; cases l) (simp_all add: booth_digit_def)
  have len: "length ?bs = n" by simp
  show ?thesis
  proof (cases u)
    case False
    with mag show ?thesis by (simp add: booth_partial_bits Let_def)
  next
    case True
    have "eqm n (int (bits_val (map Not ?bs))) (- 1 - int (bits_val ?bs))" using bits_val_not_eqm [of ?bs] len by simp
    then have "eqm n (int (bits_val (map Not ?bs)) + 1) (- 1 - booth_digit u m l * unit_of u * int (bits_val vs) + 1)"
      using mag by (intro eqm_add eqm_refl) (blast intro: eqm_trans eqm_diff eqm_refl)
    then show ?thesis using True by (simp add: booth_partial_bits Let_def del: map_map)
  qed
qed

lemma booth_row_signed:
  assumes "0 < n" and "Suc n \<le> length vs"
    and "signed_val (take n vs) = x" and "signed_val (take (Suc n) vs) = x"
  shows "signed_val (map (booth_partial u m l vs) [0..<Suc n]) + of_bool u = booth_digit u m l * x"
proof -
  let ?one = "m \<noteq> l" and ?two = "\<not> (m \<noteq> l) \<and> (u \<noteq> m)"
  let ?bs = "map (booth_magnitude ?one ?two vs) [0..<Suc n]"
  have "take n vs \<noteq> []" using assms(1,2) by auto
  then have two: "signed_val (take (Suc n) (False # vs)) = 2 * x" using assms(3) by (simp add: signed_val_Cons)
  have zero: "signed_val (replicate (Suc n) False) = 0" by (simp add: signed_val_def)
  have mag: "signed_val ?bs = booth_digit u m l * unit_of u * x"
    unfolding booth_magnitude_bits [OF assms(2)] using assms(4) two zero
    by (cases u; cases m; cases l) (simp_all add: booth_digit_def del: replicate_Suc take_Suc_Cons)
  have ne: "?bs \<noteq> []" by simp
  show ?thesis
  proof (cases u)
    case False
    with mag show ?thesis by (simp add: booth_partial_bits Let_def del: upt_Suc)
  next
    case True
    with mag signed_val_not [OF ne] show ?thesis by (simp add: booth_partial_bits Let_def del: upt_Suc map_map)
  qed
qed

definition booth_spec :: "nat \<Rightarrow> (nat \<Rightarrow> bool) \<Rightarrow> nat \<Rightarrow> nat \<Rightarrow> bool option list \<times> int \<Rightarrow> bool option list \<times> int"
  where "booth_spec sign P shift out q =
    ((fst q)[out := Some (P (out - shift) \<noteq> (out = sign))], snd q - of_bool (out = sign) * 2 ^ out)"

lemma booth_spec_fold:
  assumes "shift \<le> t" and "t \<le> n"
  shows "fold (booth_spec sign P shift) [shift..<t] (replicate n None, v) =
    (map (\<lambda>c. if shift \<le> c \<and> c < t then Some (P (c - shift) \<noteq> (c = sign)) else None) [0..<n],
     v - of_bool (shift \<le> sign \<and> sign < t) * 2 ^ sign)"
  using assms
proof (induction t rule: dec_induct)
  case base
  have "map (\<lambda>c. if shift \<le> c \<and> c < shift then Some (P (c - shift) \<noteq> (c = sign)) else None) [0..<n] = replicate n None"
    by (rule nth_equalityI) auto
  then show ?case by simp
next
  case (step t)
  let ?row = "\<lambda>t. map (\<lambda>c. if shift \<le> c \<and> c < t then Some (P (c - shift) \<noteq> (c = sign)) else None) [0..<n]"
  have "(?row t)[t := Some (P (t - shift) \<noteq> (t = sign))] = ?row (Suc t)"
    by (rule nth_equalityI) (use step in \<open>auto simp: nth_list_update\<close>)
  moreover have "v - of_bool (shift \<le> sign \<and> sign < t) * 2 ^ sign - of_bool (t = sign) * 2 ^ t =
      v - of_bool (shift \<le> sign \<and> sign < Suc t) * 2 ^ sign"
    using step.hyps(1) by (auto simp: of_bool_def)
  ultimately show ?case
    using step by (simp add: booth_spec_def del: map_upt_Suc)
qed

lemma row_val_window:
  assumes "shift \<le> t" and "t \<le> n"
  shows "row_val (map (\<lambda>c. if shift \<le> c \<and> c < t then Some (Q (c - shift)) else None) [0..<n]) =
    2 ^ shift * bits_val (map Q [0..<t - shift])"
proof -
  have "map (\<lambda>x. x = Some True) (map (\<lambda>c. if shift \<le> c \<and> c < t then Some (Q (c - shift)) else None) [0..<n]) =
      replicate shift False @ map Q [0..<t - shift] @ replicate (n - t) False"
    by (rule nth_equalityI) (use assms in \<open>auto simp: nth_append\<close>)
  then show ?thesis by (simp add: row_val_def bits_val_append)
qed

definition booth_ok :: "nat \<Rightarrow> bool list \<Rightarrow> nat \<Rightarrow> int \<Rightarrow> bool"
  where "booth_ok n vs mw x \<longleftrightarrow> length vs = n \<and> eqm n (int (bits_val vs)) x \<and>
    (\<forall>k. mw < k \<longrightarrow> k \<le> n \<longrightarrow> signed_val (take k vs) = x)"

text \<open>A row with its sign column and the sign of its digit denotes the digit's multiple.\<close>

lemma booth_row_total:
  fixes u m l :: bool and v :: int
  assumes ok: "booth_ok n vs mw x" and n: "n < 2 ^ 32" "shift < n"
  defines "sign \<equiv> sat_add (sat_add shift mw) 1"
  defines "t \<equiv> min n (sat_add sign 1)"
  defines "q \<equiv> fold (booth_spec sign (booth_partial u m l vs) shift) [shift..<t] (replicate n None, v)"
  shows "shift \<le> t \<and> t \<le> n \<and> length (fst q) = n \<and>
    eqm n (snd q + int (row_val (fst q)) + of_bool u * 2 ^ shift) (v + 2 ^ shift * (booth_digit u m l * x))"
proof -
  let ?P = "booth_partial u m l vs"
  have vs: "length vs = n" "eqm n (int (bits_val vs)) x" using ok by (simp_all add: booth_ok_def)
  have sl: "shift \<le> sign" "sign \<le> 2 ^ 32 - 1" using n by (auto simp: sign_def sat_add_def)
  have t: "shift \<le> t" "t \<le> n" using sl n by (auto simp: t_def sat_add_def)
  have q: "q = (map (\<lambda>c. if shift \<le> c \<and> c < t then Some ((\<lambda>i. ?P i \<noteq> (i + shift = sign)) (c - shift)) else None) [0..<n],
      v - of_bool (shift \<le> sign \<and> sign < t) * 2 ^ sign)"
    unfolding q_def booth_spec_fold [OF t] by (auto simp: sl(1))
  have row: "row_val (fst q) = 2 ^ shift * bits_val (map (\<lambda>i. ?P i \<noteq> (i + shift = sign)) [0..<t - shift])"
    unfolding q fst_conv by (rule row_val_window [OF t])
  have key: "eqm n (snd q + int (row_val (fst q)) + of_bool u * 2 ^ shift) (v + 2 ^ shift * (booth_digit u m l * x))"
  proof (cases "sign < n")
    case False
    then have tn: "t = n" using n(1) by (auto simp: t_def sat_add_def)
    have p: "map (\<lambda>i. ?P i \<noteq> (i + shift = sign)) [0..<n - shift] = map ?P [0..<n - shift]"
      using False by (intro map_cong) auto
    have "int (row_val (fst q)) = 2 ^ shift * int (bits_val (map ?P [0..<n - shift]))" unfolding row tn p by simp
    moreover have "snd q = v" using False tn by (simp add: q)
    ultimately have e: "snd q + int (row_val (fst q)) + of_bool u * 2 ^ shift = v + 2 ^ shift * (int (bits_val (map ?P [0..<n - shift])) + of_bool u)"
      by (simp only: distrib_left) simp
    have "eqm (n - shift) (int (bits_val (map ?P [0..<n - shift])) + of_bool u) (booth_digit u m l * x)"
      using booth_row_wraps [of "n - shift" vs u m l] vs eqm_mult [OF eqm_refl eqm_le [OF vs(2), of "n - shift"]]
      by (auto intro: eqm_trans)
    from eqm_shift [OF this, of shift] n(2) show ?thesis unfolding e by (intro eqm_add eqm_refl) simp
  next
    case True
    have sg: "sign = shift + Suc mw" using True n(1) by (auto simp: sign_def sat_add_def min_def split: if_splits)
    have tn: "t = Suc sign" using True n(1) by (auto simp: t_def sat_add_def)
    have bits: "map (\<lambda>i. ?P i \<noteq> (i + shift = sign)) [0..<t - shift] = map ?P [0..<Suc mw] @ [\<not> ?P (Suc mw)]"
      unfolding tn sg by (auto simp: Suc_diff_le)
    have whole: "map ?P [0..<Suc (Suc mw)] = map ?P [0..<Suc mw] @ [?P (Suc mw)]" by simp
    have sv: "signed_val (map ?P [0..<Suc (Suc mw)]) = int (bits_val (map ?P [0..<Suc mw])) - of_bool (?P (Suc mw)) * 2 ^ Suc mw"
      unfolding whole by (subst signed_val_last) (simp_all del: upt_Suc)
    have tk: "signed_val (take (Suc mw) vs) = x" "signed_val (take (Suc (Suc mw)) vs) = x" "Suc (Suc mw) \<le> length vs"
      using ok True sg by (simp_all add: booth_ok_def)
    let ?A = "int (bits_val (map ?P [0..<Suc mw]))" and ?W = "(2::int) ^ Suc mw" and ?p = "of_bool (?P (Suc mw)) :: int"
    have d: "(?A - ?p * ?W) + of_bool u = booth_digit u m l * x"
      using booth_row_signed [OF _ tk(3,1,2), of u m l] unfolding sv by simp
    have v': "snd q = v - 2 ^ shift * ?W" using tn sg by (simp add: q power_add)
    have r': "int (row_val (fst q)) = 2 ^ shift * (?A + ?W * (1 - ?p))"
      unfolding row bits by (simp add: bits_val_append of_bool_not_iff del: upt_Suc)
    have "(v - E * W) + E * (A + W * (1 - p)) + U * E = v + E * ((A - p * W) + U)" for E W A p U :: int
      by (simp add: algebra_simps)
    then have "snd q + int (row_val (fst q)) + of_bool u * 2 ^ shift = v + 2 ^ shift * (booth_digit u m l * x)"
      unfolding v' r' d [symmetric] .
    then show ?thesis by simp
  qed
  have "length (fst q) = n" by (simp add: q)
  with t key show ?thesis by blast
qed

context bit_emitter
begin

lemma sim_booth_partial_bit:
  assumes "good s" and "dens s xs vs" and "den s zero False" and "den s upper u" and "den s one v1" and "den s two v2"
    and "i < length vs"
  shows "sim s (booth_partial_bit em xs zero upper one two i s) (Inr (booth_magnitude v1 v2 vs i \<noteq> u), ()) den"
proof -
  have "sim s (if i = 0 then (Inr zero, s) else vget xs (i - 1) s) (if i = 0 then (Inr False, ()) else vget vs (i - 1) ()) den"
    by (intro sim_steps) (use assms in simp_all)
  then have "sim s (booth_partial_bit em xs zero upper one two i s) (booth_partial_bit bool_ops vs False u v1 v2 i ()) den"
    unfolding booth_partial_bit_def by (rule sim_seq [OF _ assms(1)]; intro sim_steps) (use assms in simp_all)
  moreover have "booth_partial_bit bool_ops vs False u v1 v2 i () = (Inr (booth_magnitude v1 v2 vs i \<noteq> u), ())"
    using assms(7) by (cases "i = 0") (simp_all add: booth_partial_bit_def booth_magnitude_def vget_def)
  ultimately show ?thesis by simp
qed

lemma sim_booth_bit:
  assumes "good s" and "dens s xs vs" and "den s (bd_upper d) u" and "den s (bd_zero d) False"
    and "den s one v1" and "den s two v2" and "row_mat n s p q" and "out - bd_shift d < length vs"
  shows "sim s (booth_bit em xs d one two sign out p s)
    (Inr (booth_spec sign (\<lambda>i. booth_magnitude v1 v2 vs i \<noteq> u) (bd_shift d) out q), ()) (row_mat n)"
proof -
  obtain row m vrow w where p: "p = (row, m)" "q = (vrow, w)" by (cases p; cases q) auto
  show ?thesis
    unfolding booth_bit_def Let_def p prod.case booth_spec_def fst_conv snd_conv
    by (rule sim_then [OF sim_booth_partial_bit [OF assms(1,2,4,3,5,6,8)] assms(1)], rule sim_place_bit)
      (use assms(1,7) p row_mat_mono in auto)
qed

lemma sim_append_booth_row:
  assumes "good s" and "dens s xs vs" and d: "den s (bd_upper d) u" "den s (bd_middle d) m" "den s (bd_low d) l" "den s (bd_zero d) False"
    and mat: "mat_is n s mx v" and ok: "booth_ok n vs (bd_magnitude_width d) x" and n: "n < 2 ^ 32" "bd_shift d < n"
  shows "sim s (append_booth_row em s mx xs d) (Inr (v + 2 ^ bd_shift d * (booth_digit u m l * x)), ()) (mat_is n)"
proof -
  let ?sh = "bd_shift d" and ?two = "\<not> (m \<noteq> l) \<and> (u \<noteq> m)"
  define sign where "sign = sat_add (sat_add ?sh (bd_magnitude_width d)) 1"
  define t where "t = min n (sat_add sign 1)"
  define q where "q = fold (booth_spec sign (booth_partial u m l vs) ?sh) [?sh..<t] (replicate n None, v)"
  have q: "?sh \<le> t" "t \<le> n" "length (fst q) = n"
    "eqm n (snd q + int (row_val (fst q)) + of_bool u * 2 ^ ?sh) (v + 2 ^ ?sh * (booth_digit u m l * x))"
    using booth_row_total [OF ok n, of u m l v] by (simp_all add: q_def t_def sign_def)
  have len: "length vs = n" using ok by (simp add: booth_ok_def)
  have w: "mx_width mx = n" "\<not> 2 ^ 32 \<le> n" using mat_is_width [OF mat] n(1) by simp_all
  have fold: "sim s' (sfoldM (booth_bit em xs d one two sign) [?sh..<t] (replicate n None, mx) s') (Inr q, ()) (row_mat n)"
    if s': "good s'" "le s s'" "den s' one (m \<noteq> l)" "den s' two ?two" for s' one two
    unfolding q_def
  proof (rule sim_fold_val [OF s'(1)], goal_cases)
    case 1
    have "mat_is n s' mx v" by (rule keepsD [OF keeps_mat_is assms(1) s'(2) mat])
    then show ?case by (simp add: row_mat_def list_all2_conv_all_nth)
  next
    case (2 s2 out p r)
    have le: "le s s2" by (rule le_trans [OF s'(2) 2(3)])
    have "out - ?sh < length vs" using 2(1) q(2) len by auto
    then show ?case
      using sim_booth_bit [OF 2(2) dens_mono [OF assms(1) le assms(2)] den_mono [OF assms(1) le d(1)] den_mono [OF assms(1) le d(4)]
          den_mono [OF s'(1) 2(3) s'(3)] den_mono [OF s'(1) 2(3) s'(4)] 2(4), of out sign]
      by (simp only: booth_partial_def [abs_def])
  qed
  have fin: "mat_is n s' (if bd_upper d \<noteq> bd_zero d then push_row ((replicate n None)[?sh := Some (bd_upper d)]) (push_row row m')
        else push_row row m') (v + 2 ^ ?sh * (booth_digit u m l * x))"
    if s': "good s'" "le s s'" "row_mat n s' (row, m') q" for s' row m'
  proof -
    have r: "den_row s' row (fst q)" "mat_is n s' m' (snd q)" using s'(3) by (simp_all add: row_mat_def)
    have "length row = n" using list_all2_lengthD [OF r(1)] q(3) by simp
    note a = mat_is_push [OF r(2,1) this]
    show ?thesis
    proof (cases "bd_upper d = bd_zero d")
      case True
      then have "u = False" using den_unique [OF d(1), of False] d(4) by simp
      with True a q(4) show ?thesis by (auto intro: mat_is_eqm)
    next
      case False
      have rel: "den_row s' ((replicate n None)[?sh := Some (bd_upper d)]) ((replicate n None)[?sh := Some u])"
        using den_mono [OF assms(1) s'(2) d(1)] by (intro list_all2_update_cong) (simp_all add: list_all2_conv_all_nth)
      have zero: "row_val (replicate n None) = 0" by (simp add: row_val_def)
      have "row_val ((replicate n None)[?sh := Some u]) = of_bool u * 2 ^ ?sh"
        using row_val_update [of ?sh "replicate n None" u] n(2) zero by simp
      with mat_is_push [OF a rel] False q(4) show ?thesis by (auto intro: mat_is_eqm)
    qed
  qed
  note an = sim_binary [where op = BitAnd, OF _ _ _ binary_sem.simps(1), unfolded bool_emit(2) [OF binary_sem.simps(1)]]
    and xr = sim_binary [where op = BitXor, OF _ _ _ binary_sem.simps(5), unfolded bool_emit(2) [OF binary_sem.simps(5)]]
    and nt = sim_unary [where op = BitNot, unfolded bool_emit(1) unary_sem.simps]
  show ?thesis
    unfolding append_booth_row_def Let_def w(1) if_not_P [OF w(2)] sign_def [symmetric] t_def [symmetric]
  proof (rule sim_then [OF xr [OF assms(1) d(2,3)] assms(1)], rule sim_then [OF nt], assumption, assumption, assumption, goal_cases)
    case (1 s1 one s2 none)
    have d2: "den s2 (bd_upper d) u" "den s2 (bd_middle d) m" using 1 d by blast+
    show ?case
    proof (rule sim_then [OF xr [OF 1(6) d2] 1(6)], rule sim_then [OF an [where v = "\<not> (m \<noteq> l)" and w = "u \<noteq> m"]], goal_cases)
      case (5 s3 um s4 two)
      have le: "le s s4" using 1(2,7) 5(2,7) le_trans by blast
      have "den s4 one (m \<noteq> l)" using 1(5,8) 5(3,8) by blast
      then have f: "sim s4 (sfoldM (booth_bit em xs d one two sign) [?sh..<t] (replicate n None, mx) s4) (Inr q, ()) (row_mat n)"
        by (intro fold [OF 5(6) le]) (use 5(10) in simp_all)
      show ?case
        by (rule sim_then [OF f 5(6)]) (auto intro!: sim_ret fin intro: le_trans [OF le])
    qed (use 1 in auto)
  qed
qed

end

text \<open>The digits of a multiplier, in groups of two bits, denote it as a signed number.\<close>

definition group_digit :: "(int \<Rightarrow> bool) \<Rightarrow> nat \<Rightarrow> int"
  where "group_digit b g = booth_digit (b (int (2 * g) + 1)) (b (int (2 * g))) (b (int (2 * g) - 1))"

lemma group_digits_sum:
  assumes "\<not> b (- 1)" and "0 < G"
  shows "(\<Sum>g<G. 2 ^ (2 * g) * group_digit b g) = signed_val (map (\<lambda>i. b (int i)) [0..<2 * G])"
proof -
  have last: "signed_val (map (\<lambda>i. b (int i)) [0..<Suc k]) =
      int (bits_val (map (\<lambda>i. b (int i)) [0..<Suc k])) - 2 ^ Suc k * of_bool (b (int k))" for k
    by (simp add: signed_val_def)
  from assms(2) show ?thesis
  proof (induction G rule: nat_induct_non_zero)
    case 1
    have "map (\<lambda>i. b (int i)) [0..<2] = [b 0, b 1]" by (simp add: upt_rec)
    then show ?case using assms(1) by (simp add: group_digit_def booth_digit_def signed_val_def)
  next
    case (Suc G)
    define k where "k = 2 * G - 1"
    have k: "2 * G = Suc k" "2 * Suc G = Suc (Suc (Suc k))" using Suc(1) by (simp_all add: k_def)
    have d: "group_digit b G = of_bool (b (int (Suc k))) + of_bool (b (int k)) - 2 * of_bool (b (int (Suc (Suc k))))"
    proof -
      have "int (2 * G) = int k + 1" unfolding k(1) by simp
      then show ?thesis unfolding group_digit_def booth_digit_def by (simp only:) (simp add: add.commute)
    qed
    have v: "int (bits_val (map (\<lambda>i. b (int i)) [0..<Suc j])) = int (bits_val (map (\<lambda>i. b (int i)) [0..<j])) + 2 ^ j * of_bool (b (int j))" for j
      by (simp add: bits_val_append)
    show ?case
      unfolding sum.lessThan_Suc Suc.IH k d last v by (simp add: algebra_simps)
  qed
qed

lemma booth_multiplier_bits:
  "map (\<lambda>i. booth_multiplier_bit vs (int i) (ty_signed ty) False) [0..<k] = extend_bool (vs, ty) k True"
  by (rule nth_equalityI) (auto simp: booth_multiplier_bit_def extend_bool_def list_get_def)

lemma booth_multiplier_val:
  assumes "fst vb \<noteq> []" and "length (fst vb) = ty_width (snd vb)" and "0 < n" and "n < 2 ^ 32"
  defines "bits \<equiv> take (min (ty_width (snd vb)) n) (fst vb)"
  shows "eqm n (signed_val (extend_bool (bits, snd vb) (2 * booth_group_count (snd vb) n) True)) (operand_val vb True)"
proof -
  let ?L = "min (ty_width (snd vb)) n" and ?G = "booth_group_count (snd vb) n"
  have len: "length bits = ?L" "bits \<noteq> []" using assms by (auto simp flip: length_greater_0_conv)
  have trunc: "eqm n (int (bits_val bits)) (operand_val vb True)" if "n < ty_width (snd vb) \<or> \<not> ty_signed (snd vb)"
    using truncated_val [OF assms(1-3)] that unfolding bits_def [symmetric] by (auto split: if_splits)
  show ?thesis
  proof (cases "ty_signed (snd vb)")
    case True
    have "length bits \<le> 2 * ?G" using True len(1) by (simp add: booth_group_count_def Let_def)
    then have sv: "signed_val (extend_bool (bits, snd vb) (2 * ?G) True) = signed_val bits"
      using extend_signed [of "(bits, snd vb)"] len(2) True by simp
    show ?thesis
    proof (cases "ty_width (snd vb) \<le> n")
      case whole: True
      then have "eqm n (signed_val bits) (operand_val vb True)"
        using truncated_val [OF assms(1-3)] True by (simp add: bits_def)
      then show ?thesis unfolding sv .
    next
      case False
      then have "eqm n (signed_val bits) (int (bits_val bits))" using len(1) by (simp add: signed_val_def eqm_dvd)
      with trunc False show ?thesis unfolding sv by (auto intro: eqm_trans)
    qed
  next
    case False
    have "L < 2 * ((sat_add L 1 + 1) div 2)" if "L < 2 ^ 32" for L
    proof (cases "L + 1 \<le> 2 ^ 32 - 1")
      case True
      then have "sat_add L 1 = L + 1" by (simp add: sat_add_def)
      then show ?thesis by linarith
    next
      case False
      with that have "L = 2 ^ 32 - 1" by simp
      then show ?thesis by (simp add: sat_add_def)
    qed
    from this [of ?L] have G: "length bits < 2 * ?G"
      using False len(1) assms(4) by (simp add: booth_group_count_def Let_def)
    have e: "extend_bool (bits, snd vb) (2 * ?G) True = bits @ replicate (2 * ?G - length bits) False"
      using extend_bool_fill [of bits "2 * ?G" "snd vb" True] G False by simp
    have "signed_val (bits @ replicate (2 * ?G - length bits) False) = int (bits_val bits)"
      using G by (cases "2 * ?G - length bits") (simp_all add: signed_val_def bits_val_append)
    with trunc False show ?thesis unfolding e by simp
  qed
qed

lemma booth_ok_extend:
  assumes "fst va \<noteq> []" and "length (fst va) = ty_width (snd va)"
  shows "booth_ok n (extend_bool va n (ty_signed (snd va))) (min (ty_width (snd va)) n) (operand_val va True)"
  unfolding booth_ok_def
proof (intro conjI allI impI)
  let ?se = "ty_signed (snd va)"
  show "length (extend_bool va n ?se) = n" by simp
  show "eqm n (int (bits_val (extend_bool va n ?se))) (operand_val va True)"
    using extend_bool_val [OF assms(1), of n ?se] operand_val_own [of va] by simp
  fix k assume k: "min (ty_width (snd va)) n < k" "k \<le> n"
  then have l: "length (fst va) < k" using assms(2) by simp
  have t: "take k (extend_bool va n ?se) = extend_bool va k ?se"
    by (rule nth_equalityI) (use k(2) in \<open>auto simp: extend_bool_def\<close>)
  show "signed_val (take k (extend_bool va n ?se)) = operand_val va True"
  proof (cases ?se)
    case True
    with extend_signed [OF assms(1), of k] l show ?thesis unfolding t by (simp add: operand_val_def)
  next
    case False
    have "extend_bool va k ?se = fst va @ replicate (k - length (fst va)) False"
      using extend_bool_fill [of "fst va" k "snd va" ?se] l False by simp
    with False l show ?thesis unfolding t
      by (cases "k - length (fst va)") (simp_all add: signed_val_def bits_val_append operand_val_def)
  qed
qed

context bit_emitter
begin

lemma den_booth_multiplier_bit:
  assumes "dens s xs vs" and "den s zero False"
  shows "den s (booth_multiplier_bit xs i sg zero) (booth_multiplier_bit vs i sg False)"
proof -
  have "den s (last xs) (last vs)" if "xs \<noteq> []"
  proof -
    have "vs \<noteq> []" using that list_all2_lengthD [OF assms(1)] by auto
    with that list_all2_lengthD [OF assms(1)] list_all2_nthD [OF assms(1), of "length xs - 1"] show ?thesis
      by (simp add: last_conv_nth)
  qed
  with assms show ?thesis
    by (auto simp: booth_multiplier_bit_def list_get_def list_all2_conv_all_nth)
qed

lemma sim_booth_groups:
  assumes "good s" and "dens s xs vs" and "dens s ys ws" and "den s zero False" and "mat_is n s mx v"
    and "booth_ok n vs mw x" and "n < 2 ^ 32" and "(k + m) * 2 \<le> 2 ^ 32"
  shows "sim s (booth_groups em xs ys sg n mw zero [k..<k + m] mx s)
    (Inr (v + (\<Sum>g\<in>{k..<k + m}. 2 ^ (2 * g) * group_digit (\<lambda>i. booth_multiplier_bit ws i sg False) g) * x), ()) (mat_is n)"
  using assms(1-5,8)
proof (induction m arbitrary: s k mx v)
  case 0
  then show ?case by (simp add: sim_ret)
next
  case (Suc m)
  let ?b = "\<lambda>i. booth_multiplier_bit ws i sg False"
  let ?S = "\<lambda>k m. \<Sum>g\<in>{k..<k + m}. 2 ^ (2 * g) * group_digit ?b g"
  have upt: "[k..<k + Suc m] = k # [Suc k..<Suc k + m]" by (simp add: upt_conv_Cons)
  have sum: "?S k (Suc m) = 2 ^ (2 * k) * group_digit ?b k + ?S (Suc k) m"
    by (simp add: sum.atLeast_Suc_lessThan)
  have ov: "\<not> 2 ^ 32 \<le> k * 2" using Suc.prems(6) by simp
  show ?case
  proof (cases "k * 2 \<ge> n")
    case True
    have "2 ^ n dvd ?S k (Suc m)"
      by (rule dvd_sum, rule dvd_mult2, rule le_imp_power_dvd) (use True in auto)
    then have "eqm n (v + 0) (v + ?S k (Suc m) * x)" by (intro eqm_add eqm_refl) (simp add: eqm_dvd)
    then have "mat_is n s mx (v + ?S k (Suc m) * x)" using mat_is_eqm [OF Suc.prems(5)] by simp
    moreover have "booth_groups em xs ys sg n mw zero [k..<k + Suc m] mx s = (Inr mx, s)"
      unfolding upt booth_groups.simps Let_def if_not_P [OF ov] if_P [OF True] ..
    ultimately show ?thesis using Suc.prems(1) by (simp only: sim_ret)
  next
    case False
    let ?d = "\<lparr>bd_upper = booth_multiplier_bit ys (int (k * 2) + 1) sg zero, bd_middle = booth_multiplier_bit ys (int (k * 2)) sg zero,
      bd_low = booth_multiplier_bit ys (int (k * 2) - 1) sg zero, bd_shift = k * 2, bd_magnitude_width = mw, bd_zero = zero\<rparr>"
    note b = den_booth_multiplier_bit [OF Suc.prems(3,4), where sg = sg]
    have row: "sim s (append_booth_row em s mx xs ?d) (Inr (v + 2 ^ (k * 2) * (group_digit ?b k * x)), ()) (mat_is n)"
      using sim_append_booth_row [OF Suc.prems(1,2), of ?d "?b (int (k * 2) + 1)" "?b (int (k * 2))" "?b (int (k * 2) - 1)" n mx v x]
        b Suc.prems(4,5) assms(6,7) False by (simp add: group_digit_def mult.commute)
    have e: "v + ?S k (Suc m) * x = v + 2 ^ (k * 2) * (group_digit ?b k * x) + ?S (Suc k) m * x"
      unfolding sum by (simp add: algebra_simps)
    show ?thesis
      unfolding upt booth_groups.simps Let_def if_not_P [OF ov] if_not_P [OF False] e
      by (rule sim_then [OF row Suc.prems(1)], rule Suc.IH) (use Suc.prems in \<open>auto simp del: upt_Suc\<close>)
  qed
qed

lemma sim_radix4_product_matrix:
  assumes "good s" and "opds s a va" and "opds s b vb" and "fst a \<noteq> []" and "fst b \<noteq> []"
    and "length (fst a) = ty_width (snd a)" and "length (fst b) = ty_width (snd b)" and n: "0 < ty_width ty" "ty_width ty < 2 ^ 32"
  shows "sim s (radix4_product_matrix em s a b ty) (Inr (operand_val va True * operand_val vb True), ()) (mat_is (ty_width ty))"
proof -
  let ?n = "ty_width ty"
  have main: "sim s (sbind (emit_constant em s BitZero (ty_state ty)) (\<lambda>zero s.
        sbind (smapM (\<lambda>index s. sbind (resized_bit em s p index (ty_signed (snd p))) (\<lambda>x s. unsigned_bit em s x)) [0..<?n] s) (\<lambda>multiplicand_bits s.
        sbind (unsigned_bits em (fst q) (min (ty_width (snd q)) ?n) s) (\<lambda>multiplier_bits s.
          booth_groups em multiplicand_bits multiplier_bits (ty_signed (snd q)) ?n (min (ty_width (snd p)) ?n) zero
            [0..<booth_group_count (snd q) ?n] (BitMatrix_new ?n) s))))
      (Inr (operand_val vp True * operand_val vq True), ()) (mat_is ?n)"
    if pq: "opds s p vp" "opds s q vq" "fst p \<noteq> []" "fst q \<noteq> []" "length (fst p) = ty_width (snd p)" "length (fst q) = ty_width (snd q)"
    for p q vp vq
  proof -
    have v: "fst vp \<noteq> []" "fst vq \<noteq> []" "snd vp = snd p" "snd vq = snd q"
      "length (fst vp) = ty_width (snd vp)" "length (fst vq) = ty_width (snd vq)"
      using pq by (auto dest: list_all2_lengthD)
    let ?x = "extend_bool vp ?n (ty_signed (snd p))" and ?y = "take (min (ty_width (snd q)) ?n) (fst vq)"
    let ?G = "booth_group_count (snd q) ?n"
    have G: "0 < ?G" "?G * 2 \<le> 2 ^ 32"
      using n pq(4,6) by (auto simp: booth_group_count_def Let_def sat_add_def simp flip: length_greater_0_conv)
    have res: "sim s' (smapM (\<lambda>index s. sbind (resized_bit em s p index (ty_signed (snd p))) (\<lambda>x s. unsigned_bit em s x)) [0..<?n] s')
        (Inr ?x, ()) dens" if "good s'" "opds s' p vp" for s'
    proof -
      have "smapM (\<lambda>index s. sbind (resized_bit bool_ops s vp index (ty_signed (snd p))) (\<lambda>x s. unsigned_bit bool_ops s x)) [0..<?n] () =
          (Inr (map (\<lambda>i. ?x ! i) [0..<?n]), ())"
        by (rule smapM_bool) (use v(1) in \<open>simp add: resized_bit_bool [of _ _ ?n]\<close>)
      moreover have "map (\<lambda>i. ?x ! i) [0..<?n] = ?x" by (rule nth_equalityI) simp_all
      moreover have "sim s' (smapM (\<lambda>index s. sbind (resized_bit em s p index (ty_signed (snd p))) (\<lambda>x s. unsigned_bit em s x)) [0..<?n] s')
          (smapM (\<lambda>index s. sbind (resized_bit bool_ops s vp index (ty_signed (snd p))) (\<lambda>x s. unsigned_bit bool_ops s x)) [0..<?n] ()) dens"
        by (rule sim_mapM_dens [OF that(1)]; intro sim_seq [OF sim_resized_bit] sim_unsigned) (use that(2) in simp_all)
      ultimately show ?thesis by simp
    qed
    have nb: "\<not> booth_multiplier_bit ?y (- 1) (ty_signed (snd q)) False" by (simp add: booth_multiplier_bit_def)
    have sum: "(\<Sum>g\<in>{0..<0 + ?G}. 2 ^ (2 * g) * group_digit (\<lambda>i. booth_multiplier_bit ?y i (ty_signed (snd q)) False) g) =
        signed_val (extend_bool (?y, snd q) (2 * ?G) True)"
      using group_digits_sum [where b = "\<lambda>i. booth_multiplier_bit ?y i (ty_signed (snd q)) False", OF nb G(1)] by (simp only: booth_multiplier_bits add_0 lessThan_atLeast0)
    have "eqm ?n (signed_val (extend_bool (?y, snd q) (2 * ?G) True)) (operand_val vq True)"
      using booth_multiplier_val [OF v(2,6) n] unfolding v(4) .
    then have "eqm ?n (signed_val (extend_bool (?y, snd q) (2 * ?G) True) * operand_val vp True)
        (operand_val vq True * operand_val vp True)" by (rule eqm_mult [OF _ eqm_refl])
    then have e: "eqm ?n (0 + signed_val (extend_bool (?y, snd q) (2 * ?G) True) * operand_val vp True)
        (operand_val vp True * operand_val vq True)"
      by (simp only: add_0 mult.commute [of "operand_val vq True"])
    have ok: "booth_ok ?n ?x (min (ty_width (snd p)) ?n) (operand_val vp True)"
      using booth_ok_extend [OF v(1,5), of ?n] unfolding v(3) .
    note c = sim_constant [where x = BitZero and st' = TwoState, simplified]
    show ?thesis
    proof (rule sim_then [OF c [OF assms(1)] assms(1)], rule sim_then [OF res], assumption, use pq(1) in blast, assumption, goal_cases)
      case (1 s1 zero s2 xs)
      have q2: "dens s2 (fst q) (fst vq)" using pq(2) 1 by blast
      show ?case
      proof (rule sim_then [OF sim_unsigned_bits [OF 1(6) q2, of "min (ty_width (snd q)) ?n"] 1(6)], use v in simp, goal_cases)
        case (1 s3 ys)
        have d: "dens s3 xs ?x" "den s3 zero False"
          using 1(3,4) \<open>dens s2 xs ?x\<close> \<open>den s1 zero False\<close> \<open>\<And>x v. den s1 x v \<Longrightarrow> den s2 x v\<close> by blast+
        have "sim s3 (booth_groups em xs ys (ty_signed (snd q)) ?n (min (ty_width (snd p)) ?n) zero [0..<0 + ?G] (BitMatrix_new ?n) s3)
            (Inr (0 + signed_val (extend_bool (?y, snd q) (2 * ?G) True) * operand_val vp True), ()) (mat_is ?n)"
          unfolding sum [symmetric]
          by (rule sim_booth_groups [OF 1(1) d(1) 1(5) d(2) mat_is_new ok n(2)]) (use G(2) in simp)
        then show ?case by (simp only: add_0) (erule sim_result, rule mat_is_eqm [OF _ e [unfolded add_0]])
      qed
    qed
  qed
  show ?thesis
  proof (cases "booth_group_count (snd b) ?n \<le> booth_group_count (snd a) ?n")
    case True
    with main [OF assms(2-7)] show ?thesis by (simp add: radix4_product_matrix_def Let_def)
  next
    case False
    with main [OF assms(3,2,5,4,7,6)] show ?thesis by (simp add: radix4_product_matrix_def Let_def mult.commute)
  qed
qed

section \<open>Products\<close>

lemma sim_product:
  assumes "good s" and "sim s m (Inr v, ()) (mat_is (ty_width ty))" and "0 < ty_width ty"
  shows "sim s (sbind m (finish_product em ty)) (Inr v, ()) (vec_is (ty_width ty))"
  by (rule sim_then [OF assms(2,1)]) (rule sim_finish_product [OF _ _ assms(3)])

text \<open>Every recipe offered for a multiplication computes the product.\<close>

lemma sim_multiply_lower:
  assumes "good s" and "opds s a va" and "opds s b vb" and "fst a \<noteq> []" and "fst b \<noteq> []"
    and "length (fst a) = ty_width (snd a)" and "length (fst b) = ty_width (snd b)" and n: "0 < ty_width ty" "ty_width ty < 2 ^ 32"
    and "recipe \<in> set (multiply_recipes const)" and "const \<Longrightarrow> all_known s (fst a) \<or> all_known s (fst b)"
  shows "sim s (multiply_lower em recipe s a b ty) (Inr (operand_val va True * operand_val vb True), ()) (vec_is (ty_width ty))"
proof -
  note c = sim_product [OF assms(1) sim_constant_product_matrix [OF assms(1-5)] n(1), folded constant_wallace_multiply_bits_def]
    and r = sim_product [OF assms(1) sim_radix4_product_matrix [OF assms(1-9)] n(1), folded radix4_wallace_multiply_bits_def]
    and y = sim_product [OF assms(1) sim_array_product_matrix [OF assms(1-7) n(1)] n(1), folded array_wallace_multiply_bits_def]
  show ?thesis
    using assms(10,11) c r y by (cases const) (auto simp: multiply_lower_def multiply_recipe_def multiply_recipes_def)
qed

end

end
