(* ===== verification/Division.thy ===== *)
theory Division
  imports Multiplier_Correct
begin

text \<open>
  The dividers of the bit-blaster,
  \<^verbatim>\<open>crates/opto-synth/src/boolean/bitblast/arithmetic/division.rs\<close>: restoring division, division
  by a constant as a shift, as a multiplication by a reciprocal or as restoring division, division
  of a constant, and the signed wrapper around them.
\<close>

section \<open>Constants\<close>

text \<open>Two's complement of a vector, and the magnitude of a signed constant.\<close>

fun negate_loop :: "bool \<Rightarrow> bool list \<Rightarrow> bool list"
  where
    "negate_loop carry [] = []"
  | "negate_loop carry (x # bits) = ((\<not> x) \<noteq> carry) # negate_loop (carry \<and> \<not> x) bits"

definition twos_complement_magnitude :: "bool list \<Rightarrow> bool \<Rightarrow> bool list"
  where "twos_complement_magnitude bits is_signed =
    (if \<not> is_signed \<or> bits = [] \<or> \<not> last bits then bits else negate_loop True bits)"

definition significant_bits :: "bool list \<Rightarrow> nat"
  where "significant_bits bits = length (dropWhile Not (rev bits))"

text \<open>The fold of the source sets the bit at each index of a 64-bit word.\<close>

definition bits_to_u64 :: "bool list \<Rightarrow> nat option"
  where "bits_to_u64 bits =
    (if length bits > 64 \<and> list_ex id (drop 64 bits) then None else Some (bits_val (take 64 bits)))"

definition lsb_bits :: "nat \<Rightarrow> nat \<Rightarrow> bool list"
  where "lsb_bits v width = map (\<lambda>index. index < 64 \<and> odd (v div 2 ^ index)) [0..<width]"

fun digit_count_from :: "bool \<Rightarrow> bool list \<Rightarrow> nat"
  where
    "digit_count_from carry [] = (if carry then 1 else 0)"
  | "digit_count_from carry (x # bits) =
      (case (x, carry) of
         (False, True) \<Rightarrow> Suc (digit_count_from False bits)
       | (True, False) \<Rightarrow> Suc (digit_count_from (bits \<noteq> [] \<and> hd bits) bits)
       | _ \<Rightarrow> digit_count_from carry bits)"

definition nonadjacent_digit_count :: "bool list \<Rightarrow> nat"
  where "nonadjacent_digit_count bits = digit_count_from False bits"

definition logical_right_shift :: "'x list \<Rightarrow> nat \<Rightarrow> 'x \<Rightarrow> 'x list"
  where "logical_right_shift bits shift zero =
    map (\<lambda>index. case list_get bits (index + shift) of Some x \<Rightarrow> x | None \<Rightarrow> zero) [0..<length bits]"

subsection \<open>The reciprocal of an invariant divisor\<close>

record UnsignedMagic =
  magic_multiplier :: nat
  magic_shift :: nat
  magic_add :: bool

definition is_power_of_two :: "nat \<Rightarrow> bool"
  where "is_power_of_two n \<longleftrightarrow> n = 2 ^ (bit_length n - 1)"

text \<open>
  The source computes in 128 bits. The divisor has at most 64 bits, the exponent is at most 127,
  and every intermediate value stays below \<open>2 ^ 128\<close>, so natural numbers give the same results.
\<close>

definition unsigned_magic :: "nat \<Rightarrow> nat \<Rightarrow> UnsignedMagic option"
  where "unsigned_magic width divisor =
    (if width = 0 \<or> width > 64 \<or> divisor \<le> 1 \<or> is_power_of_two divisor then None
     else
       let floor_log2 = bit_length divisor - 1
       in if floor_log2 \<ge> width then None
          else
            let numerator = 2 ^ (width + floor_log2);
                quot = numerator div divisor;
                remainder = numerator mod divisor;
                threshold = 2 ^ floor_log2;
                add = (divisor - remainder \<ge> threshold);
                proposed = (if add then quot * 2 + (if remainder * 2 \<ge> divisor then 1 else 0) else quot)
            in Some \<lparr>magic_multiplier = (proposed + 1) mod 2 ^ width, magic_shift = floor_log2, magic_add = add\<rparr>)"

section \<open>Vectors\<close>

fun add_sub_loop ::
  "('s, 'a) bit_ops \<Rightarrow> bool \<Rightarrow> 'a list \<Rightarrow> 'a list \<Rightarrow> 'a \<Rightarrow> 's \<Rightarrow> ('s, SynthError, 'a list \<times> 'a) outcome"
  where
    "add_sub_loop em subtract (l # left) (r # right) carry s =
      sbind (if subtract then emit_unary em s BitNot r else (Inr r, s)) (\<lambda>r s.
      sbind (full_adder em s l r carry) (\<lambda>(sum, carry) s.
        smap (\<lambda>(sums, carry). (sum # sums, carry)) (add_sub_loop em subtract left right carry s)))"
  | "add_sub_loop em subtract _ _ carry s = (Inr ([], carry), s)"

definition add_sub_vectors ::
  "('s, 'a) bit_ops \<Rightarrow> 's \<Rightarrow> 'a list \<Rightarrow> 'a list \<Rightarrow> bool \<Rightarrow> LogicStateKind \<Rightarrow> ('s, SynthError, 'a list \<times> 'a) outcome"
  where "add_sub_vectors em s left right subtract state =
    (if length left \<noteq> length right \<or> left = []
     then (Inl (Invariant ''vector adder operands must have equal nonzero widths''), s)
     else sbind (emit_constant em s (if subtract then BitOne else BitZero) state) (\<lambda>carry s.
       add_sub_loop em subtract left right carry s))"

fun conditional_negate_loop ::
  "('s, 'a) bit_ops \<Rightarrow> 'a \<Rightarrow> 'a \<Rightarrow> 'a list \<Rightarrow> 's \<Rightarrow> ('s, SynthError, 'a list) outcome"
  where
    "conditional_negate_loop em negative carry [] s = (Inr [], s)"
  | "conditional_negate_loop em negative carry (x # bits) s =
      sbind (emit_binary em s BitXor x negative) (\<lambda>inverted s.
      sbind (emit_binary em s BitXor inverted carry) (\<lambda>sum s.
      sbind (emit_binary em s BitAnd inverted carry) (\<lambda>carry s.
        smap (Cons sum) (conditional_negate_loop em negative carry bits s))))"

definition conditional_negate_vector ::
  "('s, 'a) bit_ops \<Rightarrow> 's \<Rightarrow> 'a list \<Rightarrow> 'a \<Rightarrow> ('s, SynthError, 'a list) outcome"
  where "conditional_negate_vector em s bits negative = conditional_negate_loop em negative negative bits s"

section \<open>Restoring division\<close>

text \<open>
  The loop takes the bits of the dividend from the top. Each step shifts the next bit into the
  partial remainder, subtracts the divisor and keeps the difference unless it borrows.
\<close>

fun restoring_steps ::
  "('s, 'a) bit_ops \<Rightarrow> LogicStateKind \<Rightarrow> 'a list \<Rightarrow> 'a list \<Rightarrow> 'a list \<Rightarrow> 'a list \<Rightarrow> 's
    \<Rightarrow> ('s, SynthError, 'a list \<times> 'a list) outcome"
  where
    "restoring_steps em state divisor_extended [] quot partial s = (Inr (quot, partial), s)"
  | "restoring_steps em state divisor_extended (x # bits) quot partial s =
      (let shifted = x # butlast partial
       in sbind (add_sub_vectors em s shifted divisor_extended True state) (\<lambda>(difference, no_borrow) s.
          sbind (smapM (\<lambda>(p, d) s. emit_mux em s no_borrow d p) (zip shifted difference) s) (\<lambda>partial s.
            restoring_steps em state divisor_extended bits (no_borrow # quot) partial s)))"

definition restoring_divide ::
  "('s, 'a) bit_ops \<Rightarrow> 's \<Rightarrow> 'a list \<Rightarrow> 'a list \<Rightarrow> LogicStateKind \<Rightarrow> ('s, SynthError, 'a list \<times> 'a list) outcome"
  where "restoring_divide em s dividend divisor state =
    (if length dividend \<noteq> length divisor \<or> dividend = []
     then (Inl (Invariant ''divider operands must have equal nonzero widths''), s)
     else sbind (emit_constant em s BitZero state) (\<lambda>zero s.
       sbind (restoring_steps em state (divisor @ [zero]) (rev dividend) [] (replicate (length dividend + 1) zero) s)
         (\<lambda>(quot, partial) s. (Inr (quot, butlast partial), s))))"

definition constant_bits ::
  "('s, 'a) bit_ops \<Rightarrow> LogicStateKind \<Rightarrow> bool list \<Rightarrow> 's \<Rightarrow> ('s, SynthError, 'a list) outcome"
  where "constant_bits em state bits s = smapM (\<lambda>b s. emit_constant em s (bit_val b) state) bits s"

definition restoring_divide_constant ::
  "('s, 'a) bit_ops \<Rightarrow> 's \<Rightarrow> 'a list \<Rightarrow> bool list \<Rightarrow> LogicStateKind \<Rightarrow> ('s, SynthError, 'a list \<times> 'a list) outcome"
  where "restoring_divide_constant em s dividend divisor state =
    sbind (emit_constant em s BitZero state) (\<lambda>zero s.
    sbind (constant_bits em state divisor s) (\<lambda>divisor s.
    sbind (restoring_steps em state (divisor @ [zero]) (rev dividend) [] (replicate (length divisor + 1) zero) s)
      (\<lambda>(quot, partial) s.
        (Inr (quot, take (length dividend) (partial @ replicate (length dividend - length partial) zero)), s))))"

section \<open>Division by a constant\<close>

text \<open>The reciprocal multiplication; \<open>need_remainder\<close> also multiplies back and subtracts.\<close>

definition magic_divide ::
  "('s, 'a) bit_ops \<Rightarrow> 's \<Rightarrow> 'a list \<Rightarrow> nat \<Rightarrow> UnsignedMagic \<Rightarrow> 'a \<Rightarrow> bool \<Rightarrow> LogicStateKind
    \<Rightarrow> ('s, SynthError, 'a list \<times> 'a list) outcome"
  where "magic_divide em s dividend divisor_value magic zero need_remainder state =
    (let width = length dividend
     in sbind (constant_multiply_vector em s dividend (lsb_bits (magic_multiplier magic) width) (width * 2) None state) (\<lambda>product s.
        let quot = drop width product
        in sbind (if magic_add magic then
              sbind (add_sub_vectors em s dividend quot True state) (\<lambda>(difference, _) s.
              sbind (add_sub_vectors em s (drop 1 difference @ [zero]) quot False state) (\<lambda>(sum, _) s. (Inr sum, s)))
            else (Inr quot, s)) (\<lambda>quot s.
          let quot = logical_right_shift quot (magic_shift magic) zero
          in sbind (if need_remainder then
                sbind (constant_multiply_vector em s quot (lsb_bits divisor_value width) width None state) (\<lambda>product s.
                sbind (add_sub_vectors em s dividend product True state) (\<lambda>(difference, _) s. (Inr difference, s)))
              else (Inr (replicate width zero), s)) (\<lambda>modulus s.
            (Inr (quot, modulus), s)))))"

definition saturating_add :: "nat \<Rightarrow> nat \<Rightarrow> nat"
  where "saturating_add a b = min (a + b) (2 ^ 64 - 1)"

text \<open>The estimated sizes of the two circuits, saturating at the largest \<^verbatim>\<open>usize\<close>.\<close>

definition magic_work :: "nat \<Rightarrow> nat \<Rightarrow> UnsignedMagic \<Rightarrow> bool \<Rightarrow> nat"
  where "magic_work width divisor_value magic need_remainder =
    saturating_add
      (saturating_add
        (saturating_mul (nonadjacent_digit_count (lsb_bits (magic_multiplier magic) width)) (saturating_mul width 2))
        (saturating_mul (of_bool (magic_add magic)) (saturating_mul width 2)))
      (if need_remainder then saturating_mul (nonadjacent_digit_count (lsb_bits divisor_value width)) width else 0)"

definition restoring_work :: "nat \<Rightarrow> bool list \<Rightarrow> nat"
  where "restoring_work width divisor = saturating_mul width (saturating_add (significant_bits divisor) 1)"

definition divide_by_constant ::
  "('s, 'a) bit_ops \<Rightarrow> 's \<Rightarrow> 'a list \<Rightarrow> bool list \<Rightarrow> bool \<Rightarrow> LogicStateKind \<Rightarrow> ('s, SynthError, 'a list \<times> 'a list) outcome"
  where "divide_by_constant em s dividend divisor need_remainder state =
    (let width = length dividend; significant = significant_bits divisor
     in sbind (emit_constant em s BitZero state) (\<lambda>zero s.
        case bits_to_u64 divisor of
          None \<Rightarrow>
            if significant = 0 then (Inr (replicate width zero, replicate width zero), s)
            else restoring_divide_constant em s dividend (take significant divisor) state
        | Some divisor_value \<Rightarrow>
            if divisor_value = 0 then (Inr (replicate width zero, replicate width zero), s)
            else if is_power_of_two divisor_value then
              let shift = bit_length divisor_value - 1
              in (Inr (map (\<lambda>index. case list_get dividend (index + shift) of Some x \<Rightarrow> x | None \<Rightarrow> zero) [0..<width],
                       map (\<lambda>index. if index < shift then dividend ! index else zero) [0..<width]), s)
            else if width \<le> 64 then
              (case unsigned_magic width divisor_value of
                 None \<Rightarrow> (Inl (Invariant ''failed to derive invariant-division magic''), s)
               | Some magic \<Rightarrow>
                   if magic_work width divisor_value magic need_remainder \<ge> restoring_work width divisor
                   then restoring_divide_constant em s dividend (take significant divisor) state
                   else magic_divide em s dividend divisor_value magic zero need_remainder state)
            else restoring_divide_constant em s dividend (take significant divisor) state))"

section \<open>Division of a constant\<close>

definition numerator_bit ::
  "('s, 'a) bit_ops \<Rightarrow> 'a option \<Rightarrow> 'a \<Rightarrow> ('a \<times> 'a) \<times> 'a \<Rightarrow> 's \<Rightarrow> ('s, SynthError, 'a \<times> 'a) outcome"
  where "numerator_bit em high_nonzero zero entry s =
    (let ((small_quotient, small_remainder), original) = entry
     in case high_nonzero of
          None \<Rightarrow> (Inr (small_quotient, small_remainder), s)
        | Some high \<Rightarrow>
            sbind (emit_mux em s high zero small_quotient) (\<lambda>q s.
            sbind (emit_mux em s high original small_remainder) (\<lambda>r s. (Inr (q, r), s))))"

definition divide_constant_numerator ::
  "('s, 'a) bit_ops \<Rightarrow> 's \<Rightarrow> bool list \<Rightarrow> 'a list \<Rightarrow> LogicStateKind \<Rightarrow> ('s, SynthError, 'a list \<times> 'a list) outcome"
  where "divide_constant_numerator em s dividend divisor state =
    (let width = length divisor; significant = max (significant_bits dividend) 1
     in sbind (emit_constant em s BitZero state) (\<lambda>zero s.
        sbind (constant_bits em state (take significant dividend) s) (\<lambda>numerator s.
        sbind (restoring_divide em s numerator (take significant divisor) state) (\<lambda>(small_quotient, small_remainder) s.
        sbind (if significant < width then smap Some (reduce_values em s (drop significant divisor) BitOr) else (Inr None, s))
          (\<lambda>high_nonzero s.
        sbind (smapM (numerator_bit em high_nonzero zero) (zip (zip small_quotient small_remainder) numerator) s) (\<lambda>pairs s.
          (Inr (map fst pairs @ replicate (width - significant) zero, map snd pairs @ replicate (width - significant) zero), s)))))))"

section \<open>Signed and unsigned division\<close>

definition divide_magnitudes ::
  "('s, 'a) bit_ops \<Rightarrow> 's \<Rightarrow> 'a list \<Rightarrow> 'a list \<Rightarrow> bool list option \<Rightarrow> bool list option \<Rightarrow> bool \<Rightarrow> LogicStateKind
    \<Rightarrow> ('s, SynthError, 'a list \<times> 'a list) outcome"
  where "divide_magnitudes em s dividend divisor dividend_constant divisor_constant remainder state =
    (case divisor_constant of
       Some const \<Rightarrow> divide_by_constant em s dividend const remainder state
     | None \<Rightarrow>
         (case dividend_constant of
            Some const \<Rightarrow> divide_constant_numerator em s const divisor state
          | None \<Rightarrow> restoring_divide em s dividend divisor state))"

definition divide_signs ::
  "('s, 'a) bit_ops \<Rightarrow> 's \<Rightarrow> 'a list \<Rightarrow> 'a list \<Rightarrow> bool \<Rightarrow> WordType
    \<Rightarrow> ('s, SynthError, 'a list \<times> 'a list \<times> 'a option) outcome"
  where "divide_signs em s dividend divisor remainder result_ty =
    (if ty_signed result_ty then
       sbind (vget dividend (ty_width result_ty - 1) s) (\<lambda>dividend_sign s.
       sbind (vget divisor (ty_width result_ty - 1) s) (\<lambda>divisor_sign s.
       sbind (conditional_negate_vector em s dividend dividend_sign) (\<lambda>dividend s.
       sbind (conditional_negate_vector em s divisor divisor_sign) (\<lambda>divisor s.
       sbind (if remainder then (Inr dividend_sign, s) else emit_binary em s BitXor dividend_sign divisor_sign) (\<lambda>negative s.
         (Inr (dividend, divisor, Some negative), s))))))
     else (Inr (dividend, divisor, None), s))"

text \<open>
  A division by zero has no value in the language; the result is zero, as for the undefined bits
  elsewhere in the bit-blaster.
\<close>

definition divide_bits ::
  "('s, 'a) bit_ops \<Rightarrow> 's \<Rightarrow> 'a operand \<Rightarrow> 'a operand \<Rightarrow> bool \<Rightarrow> WordType \<Rightarrow> ('s, SynthError, 'a list) outcome"
  where "divide_bits em s left right remainder result_ty =
    sbind (resized_pairs em s left right (ty_width result_ty) (ty_signed result_ty)) (\<lambda>pairs s.
    let dividend = map fst pairs; divisor = map snd pairs;
        dividend_constant = bool_vector em s dividend; divisor_constant = bool_vector em s divisor
    in sbind (emit_constant em s BitZero (ty_state result_ty)) (\<lambda>zero s.
       sbind (divide_signs em s dividend divisor remainder result_ty) (\<lambda>(dividend, divisor, result_negative) s.
       let dividend_constant = map_option (\<lambda>bits. twos_complement_magnitude bits (ty_signed result_ty)) dividend_constant;
           divisor_constant = map_option (\<lambda>bits. twos_complement_magnitude bits (ty_signed result_ty)) divisor_constant
       in sbind (divide_magnitudes em s dividend divisor dividend_constant divisor_constant remainder (ty_state result_ty))
            (\<lambda>(quot, modulus) s.
          let result = (if remainder then modulus else quot)
          in sbind (case result_negative of
                Some negative \<Rightarrow> conditional_negate_vector em s result negative
              | None \<Rightarrow> (Inr result, s)) (\<lambda>result s.
             if divisor_constant = None then
               sbind (reduce_values em s divisor BitOr) (\<lambda>nonzero s.
                 smapM (\<lambda>x s. emit_mux em s nonzero x zero) result s)
             else (Inr result, s))))))"

end
