(* ===== verification/Division_Correct.thy ===== *)
theory Division_Correct
  imports Division "HOL-Library.Signed_Division"
begin

text \<open>
  The dividers compute quotients that round towards zero and remainders with the sign of the
  dividend; the reciprocal multiplication is exact for every dividend of the width.
\<close>

section \<open>Constants\<close>

lemma bit_length_pos: "0 < n \<Longrightarrow> 2 ^ (bit_length n - 1) \<le> n"
proof (induction n rule: bit_length.induct)
  case (1 n)
  show ?case
  proof (cases "n div 2 = 0")
    case True
    with 1(2) have "n = 1" by simp
    then show ?thesis by (simp add: bit_length.simps)
  next
    case False
    then have pos: "0 < bit_length (n div 2)" by (subst bit_length.simps) simp
    from False 1 have "2 ^ (bit_length (n div 2) - 1) \<le> n div 2" by simp
    then have "2 * 2 ^ (bit_length (n div 2) - 1) \<le> n" by linarith
    moreover have "2 * (2::nat) ^ (bit_length (n div 2) - 1) = 2 ^ bit_length (n div 2)"
      using pos by (cases "bit_length (n div 2)") simp_all
    moreover have "bit_length n - 1 = bit_length (n div 2)" using 1(2) by (subst bit_length.simps) simp
    ultimately show ?thesis by simp
  qed
qed

lemma floor_log2_bounds:
  assumes "0 < n"
  shows "2 ^ (bit_length n - 1) \<le> n" and "n < 2 ^ Suc (bit_length n - 1)"
proof -
  show "2 ^ (bit_length n - 1) \<le> n" by (rule bit_length_pos [OF assms])
  have "0 < bit_length n" using assms by (subst bit_length.simps) simp
  then show "n < 2 ^ Suc (bit_length n - 1)" using bit_length_bound [of n] by simp
qed

lemma negate_loop_val:
  "length (negate_loop c bs) = length bs"
  "bits_val (negate_loop c bs) + (if c \<and> True \<notin> set bs then 2 ^ length bs else 0) = bits_val (map Not bs) + of_bool c"
proof (induction bs arbitrary: c)
  case (Cons x bs)
  {
    case 1
    show ?case using Cons.IH(1) by simp
  next
    case 2
    show ?case using Cons.IH(2) [of "c \<and> \<not> x"] by (cases x; cases c) (auto split: if_splits)
  }
qed simp_all

lemma negate_loop_int: "int (bits_val (negate_loop True bs)) = (- int (bits_val bs)) mod 2 ^ length bs"
proof -
  have "int (bits_val (negate_loop True bs)) + (if True \<notin> set bs then 2 ^ length bs else 0) = 2 ^ length bs - int (bits_val bs)"
    using arg_cong [OF negate_loop_val(2) [of True bs], of int] bits_val_not_int [of bs] by (simp split: if_splits)
  then have "eqm (length bs) (int (bits_val (negate_loop True bs))) (- int (bits_val bs))"
    by (auto simp: eqm_dvd algebra_simps split: if_splits)
  moreover have "int (bits_val (negate_loop True bs)) < 2 ^ length bs"
    using bits_val_less_int [of "negate_loop True bs"] by (simp add: negate_loop_val(1))
  ultimately show ?thesis by (simp add: eqm_def)
qed

text \<open>The unsigned magnitude of a signed vector.\<close>

lemma signed_val_bounds:
  assumes "bs \<noteq> []"
  shows "- (2 ^ (length bs - 1)) \<le> signed_val bs" and "signed_val bs < 2 ^ (length bs - 1)"
proof -
  have v: "0 \<le> int (bits_val (butlast bs))" "int (bits_val (butlast bs)) < 2 ^ (length bs - 1)"
    using bits_val_less_int [of "butlast bs"] by simp_all
  have p: "(0::int) < 2 ^ (length bs - 1)" by simp
  from v show "- (2 ^ (length bs - 1)) \<le> signed_val bs" "signed_val bs < 2 ^ (length bs - 1)"
    unfolding signed_val_last [OF assms] using p by (cases "last bs"; simp only: if_True if_False; linarith)+
qed

lemma half_power: "0 < n \<Longrightarrow> (2::int) ^ n = 2 * 2 ^ (n - 1)"
  by (cases n) simp_all

lemma length_magnitude [simp]: "length (twos_complement_magnitude bs sg) = length bs"
  by (simp add: twos_complement_magnitude_def negate_loop_val(1))

lemma magnitude_val:
  assumes "bs \<noteq> []"
  shows "int (bits_val (twos_complement_magnitude bs sg)) = (if sg then \<bar>signed_val bs\<bar> else int (bits_val bs))"
proof (cases "sg \<and> last bs")
  case True
  have s: "signed_val bs = int (bits_val bs) - 2 ^ length bs" using True assms by (simp add: signed_val_def)
  have n: "0 < length bs" using assms by simp
  have "signed_val bs < 0" using s bits_val_less_int [of bs] by simp
  moreover have "- signed_val bs < 2 ^ length bs"
    using signed_val_bounds(1) [OF assms] half_power [OF n] by (smt (verit) zero_less_power)
  moreover have "(- int (bits_val bs)) mod 2 ^ length bs = (- signed_val bs) mod 2 ^ length bs" by (simp add: s)
  ultimately show ?thesis using True assms by (simp add: twos_complement_magnitude_def negate_loop_int)
next
  case False
  then show ?thesis using assms by (auto simp: twos_complement_magnitude_def signed_val_def)
qed

lemma significant_snoc [simp]:
  "significant_bits [] = 0"
  "significant_bits (bs @ [b]) = (if b then Suc (length bs) else significant_bits bs)"
  by (simp_all add: significant_bits_def)

lemma significant_val:
  "significant_bits bs \<le> length bs \<and> bits_val (take (significant_bits bs) bs) = bits_val bs \<and>
    (0 < significant_bits bs \<longleftrightarrow> 0 < bits_val bs)"
proof (induction bs rule: rev_induct)
  case (snoc b bs)
  then show ?case by (cases b) (auto simp: bits_val_append)
qed simp

lemma bits_to_u64_val:
  shows "bits_to_u64 bs = Some v \<Longrightarrow> v = bits_val bs" and "bits_to_u64 bs = None \<Longrightarrow> 0 < bits_val bs"
proof -
  have split: "bits_val bs = bits_val (take 64 bs) + 2 ^ length (take 64 bs) * bits_val (drop 64 bs)"
    using bits_val_append [of "take 64 bs" "drop 64 bs"] by (simp del: length_take)
  have "\<not> list_ex id (drop 64 bs) \<Longrightarrow> bits_val (drop 64 bs) = 0"
    using bits_val_pos [of "drop 64 bs"] by (auto simp: list_ex_iff)
  moreover have "length bs \<le> 64 \<Longrightarrow> bits_val (drop 64 bs) = 0" by simp
  ultimately show "bits_to_u64 bs = Some v \<Longrightarrow> v = bits_val bs"
    using split by (auto simp: bits_to_u64_def split: if_splits)
  assume "bits_to_u64 bs = None"
  then have "True \<in> set (drop 64 bs)" by (auto simp: bits_to_u64_def list_ex_iff split: if_splits)
  then show "0 < bits_val bs" using bits_val_pos [of bs] in_set_dropD [of True 64 bs] by simp
qed

lemma lsb_bits_val:
  assumes "v < 2 ^ 64"
  shows "length (lsb_bits v n) = n" and "bits_val (lsb_bits v n) = v mod 2 ^ n"
proof -
  show "length (lsb_bits v n) = n" by (simp add: lsb_bits_def)
  have hi: "(i < 64 \<and> odd (v div 2 ^ i)) = odd (v div 2 ^ i)" for i
  proof (cases "i < 64")
    case False
    then have "(2::nat) ^ 64 \<le> 2 ^ i" by (intro power_increasing) simp_all
    then have "v div 2 ^ i = 0" using assms by simp
    then show ?thesis by simp
  qed simp
  have "bits_val (map (\<lambda>i. odd (w div 2 ^ i)) [0..<n]) = w mod 2 ^ n" for w
  proof (induction n arbitrary: w)
    case (Suc n)
    have "map (\<lambda>i. odd (w div 2 ^ i)) [0..<Suc n] = odd w # map (\<lambda>i. odd (w div 2 div 2 ^ i)) [0..<n]"
      by (simp add: upt_conv_Cons map_Suc_upt [symmetric] div_mult2_eq del: upt_Suc)
    with Suc [of "w div 2"] show ?case
      by (simp add: mod_mult2_eq [of w 2 "2 ^ n"] odd_iff_mod_2_eq_one del: upt_Suc)
  qed simp
  then show "bits_val (lsb_bits v n) = v mod 2 ^ n" by (simp add: lsb_bits_def hi)
qed

lemma logical_right_shift_val:
  "length (logical_right_shift bs k z) = length bs"
  "bits_val (logical_right_shift bs k False) = bits_val bs div 2 ^ k"
proof -
  show "length (logical_right_shift bs k z) = length bs" by (simp add: logical_right_shift_def)
  have "logical_right_shift bs k False = take (length bs) (drop k bs @ replicate k False)"
    by (rule nth_equalityI) (auto simp: logical_right_shift_def list_get_def nth_append add.commute)
  then have "bits_val (logical_right_shift bs k False) = bits_val (drop k bs) mod 2 ^ length bs"
    by (simp only: bits_val_take bits_val_append bits_val_replicate_False mult_0_right add_0_right)
  also have "\<dots> = bits_val bs div 2 ^ k"
  proof -
    have "bits_val bs div 2 ^ k < 2 ^ length bs"
      by (rule le_less_trans [OF div_le_dividend bits_val_less])
    then show ?thesis by (simp add: bits_val_drop)
  qed
  finally show "bits_val (logical_right_shift bs k False) = bits_val bs div 2 ^ k" .
qed

section \<open>Division by multiplication with a reciprocal\<close>

text \<open>
  A multiplier that exceeds the exact reciprocal by less than the dividend can notice gives the
  exact quotient.
\<close>

lemma reciprocal_exact:
  fixes x m d e N :: nat
  assumes "m * d = N + e" and "x * e < N" and "0 < d"
  shows "x * m div N = x div d"
proof -
  define q where "q = x div d"
  have N: "0 < N" using assms(2) by (cases N) auto
  have x: "q * d \<le> x" "x + 1 \<le> (q + 1) * d"
    using assms(3) by (simp_all add: q_def div_times_less_eq_dividend Suc_le_eq dividend_less_div_times)
  have eq: "x * m * d = x * N + x * e" 
  proof -
    have "x * m * d = x * (m * d)" by (simp add: ac_simps)
    then show ?thesis unfolding assms(1) by (simp add: distrib_left)
  qed
  have "q * N * d \<le> x * m * d" using x(1) mult_le_mono1 [OF x(1), of N] unfolding eq by (simp add: ac_simps trans_le_add1)
  then have lo: "q * N \<le> x * m" using assms(3) by simp
  have "x * m * d < (x + 1) * N" unfolding eq using assms(2) by simp
  also have "\<dots> \<le> (q + 1) * d * N" by (rule mult_le_mono1 [OF x(2)])
  also have "\<dots> = (q + 1) * N * d" by (simp only: ac_simps)
  finally have hi: "x * m < (q + 1) * N" using assms(3) by simp
  from lo hi show ?thesis using N unfolding q_def [symmetric] by (intro div_nat_eqI) (simp_all add: ac_simps)
qed

lemma reciprocal_small:
  fixes d l k :: nat
  assumes "2 ^ l < d" and "Suc l \<le> k" and "1 \<le> l"
  shows "2 ^ (k + l) div d + 1 < 2 ^ k"
proof (rule ccontr)
  assume "\<not> ?thesis"
  then have "2 ^ k - 1 \<le> 2 ^ (k + l) div d" by linarith
  then have "(2 ^ k - 1) * d \<le> 2 ^ (k + l)" using assms(1) by (simp add: less_eq_div_iff_mult_less_eq)
  moreover have "(2 ^ k - 1) * (2 ^ l + 1) \<le> (2 ^ k - 1) * d" using assms(1) by (intro mult_le_mono2) simp
  ultimately have "(2 ^ k - 1) * (2 ^ l + 1) \<le> (2 ^ (k + l) :: nat)" by (rule le_trans [rotated])
  moreover have "(2 ^ k - 1) * (2 ^ l + 1) + 2 ^ l + 1 = (2 ^ (k + l) + 2 ^ k :: nat)"
  proof -
    obtain a where a: "(2::nat) ^ k = Suc a" using not0_implies_Suc [of "2 ^ k"] by auto
    have "(2::nat) ^ (k + l) = Suc a * 2 ^ l" unfolding power_add a ..
    then show ?thesis unfolding a by simp
  qed
  ultimately have "(2::nat) ^ k \<le> 2 ^ l + 1" by linarith
  moreover have "(2::nat) ^ Suc l \<le> 2 ^ k" using assms(2) by (intro power_increasing) simp_all
  moreover have "(2::nat) \<le> 2 ^ l" using assms(3) power_increasing [of 1 l "2::nat"] by simp
  ultimately show False by simp
qed

text \<open>
  The multiplication by the reciprocal, with the addition that replaces the top bit of a
  multiplier of one bit more than the width, is the exact quotient of every dividend.
\<close>

lemma unsigned_magic_exact:
  assumes "unsigned_magic w d = Some M" and "x < 2 ^ w"
  defines "q0 \<equiv> x * magic_multiplier M div 2 ^ w"
  shows "magic_multiplier M < 2 ^ w" and "q0 \<le> x"
    and "(if magic_add M then (x - q0) div 2 + q0 else q0) div 2 ^ magic_shift M = x div d"
proof -
  define l where "l = bit_length d - 1"
  define N where "N = (2::nat) ^ (w + l)"
  have g: "0 < w" "w \<le> 64" "1 < d" "\<not> is_power_of_two d" "l < w"
    using assms(1) by (auto simp: unsigned_magic_def l_def Let_def split: if_splits)
  define add where "add = (d - N mod d \<ge> 2 ^ l)"
  define p where "p = (if add then N div d * 2 + (if N mod d * 2 \<ge> d then 1 else 0) else N div d)"
  have M: "magic_multiplier M = (p + 1) mod 2 ^ w" "magic_shift M = l" "magic_add M = add"
    using assms(1) g by (auto simp: unsigned_magic_def Let_def l_def N_def add_def p_def split: if_splits)
  have d: "2 ^ l < d" "d < 2 ^ Suc l"
    using floor_log2_bounds [of d] g(3,4) by (auto simp: l_def is_power_of_two_def le_less)
  have l: "1 \<le> l"
  proof (rule ccontr)
    assume "\<not> 1 \<le> l"
    then have "l = 0" by simp
    with d show False by simp
  qed
  have Nd: "N div d * d + N mod d = N" by simp
  have lt: "N mod d < d" using g(3) by simp
  show mw: "magic_multiplier M < 2 ^ w" by (simp add: M(1))
  then have "x * magic_multiplier M \<le> x * 2 ^ w" by simp
  then show q0: "q0 \<le> x" unfolding q0_def by (metis div_le_mono nonzero_mult_div_cancel_right power_not_zero zero_neq_numeral)
  show "(if magic_add M then (x - q0) div 2 + q0 else q0) div 2 ^ magic_shift M = x div d"
  proof (cases add)
    case False
    then have p: "p = N div d" by (simp add: p_def)
    have "p + 1 < 2 ^ w" unfolding p N_def by (rule reciprocal_small [OF d(1) _ l]) (use g(5) in simp)
    then have m: "magic_multiplier M = p + 1" by (simp add: M(1))
    have "(p + 1) * d = N div d * d + d" by (simp add: p)
    with Nd lt have "(p + 1) * d = N + (d - N mod d)" by linarith
    moreover have "x * (d - N mod d) < N"
    proof -
      have "d - N mod d < 2 ^ l" using False by (simp add: add_def)
      then have "x * (d - N mod d) < 2 ^ w * 2 ^ l" using assms(2) by (simp add: mult_strict_mono)
      then show ?thesis by (simp add: N_def power_add)
    qed
    ultimately have "x * (p + 1) div N = x div d" using g(3) by (intro reciprocal_exact) simp_all
    then show ?thesis using False by (simp add: M(2,3) q0_def m N_def power_add div_mult2_eq)
  next
    case True
    have dbl: "p = 2 * N div d"
    proof -
      have "2 * N = d * (2 * (N div d)) + 2 * (N mod d)" using Nd by (metis distrib_left mult.commute mult.left_commute)
      then have "2 * N div d = 2 * (N div d) + 2 * (N mod d) div d" using g(3) by simp
      moreover have "2 * (N mod d) div d = (if N mod d * 2 \<ge> d then 1 else 0)" using lt by (auto simp: div_nat_eqI mult.commute)
      ultimately show ?thesis using True by (simp add: p_def)
    qed
    have N2: "2 * N = 2 ^ (Suc w + l)" by (simp add: N_def)
    have up: "p + 1 < 2 ^ Suc w" unfolding dbl N2 by (rule reciprocal_small [OF d(1) _ l]) (use g(5) in simp)
    have "2 ^ w * d \<le> 2 * N" using d(2) unfolding N_def by (simp add: power_add)
    then have lo: "2 ^ w \<le> p" unfolding dbl using g(3) by (simp add: less_eq_div_iff_mult_less_eq)
    define m where "m = p + 1 - 2 ^ w"
    have m: "p + 1 = 2 ^ w + m" "m < 2 ^ w" using lo up by (simp_all add: m_def)
    then have mM: "magic_multiplier M = m" by (simp add: M(1))
    have "(p + 1) * d = 2 * N + (d - 2 * N mod d)"
    proof -
      have "p * d + 2 * N mod d = 2 * N" unfolding dbl by simp
      moreover have "2 * N mod d < d" using g(3) by simp
      moreover have "(p + 1) * d = p * d + d" by simp
      ultimately show ?thesis by linarith
    qed
    moreover have "x * (d - 2 * N mod d) < 2 * N"
    proof -
      have "d - 2 * N mod d < 2 ^ Suc l" using d(2) by simp
      then have "x * (d - 2 * N mod d) < 2 ^ w * 2 ^ Suc l" using assms(2) by (intro mult_strict_mono) simp_all
      then show ?thesis by (simp add: N_def power_add)
    qed
    ultimately have ex: "x * (p + 1) div (2 * N) = x div d" using g(3) by (intro reciprocal_exact) simp_all
    have "x * (p + 1) div 2 ^ w = x + q0" unfolding m(1) q0_def mM by (simp add: distrib_left)
    moreover have "(x - q0) div 2 + q0 = (x + q0) div 2" using q0 by linarith
    ultimately have "((x - q0) div 2 + q0) div 2 ^ l = x * (p + 1) div (2 ^ w * (2 * 2 ^ l))"
      by (simp add: div_mult2_eq)
    also have "2 ^ w * (2 * 2 ^ l) = 2 * N" by (simp add: N_def power_add)
    finally show ?thesis using True ex M by simp
  qed
qed

section \<open>Vectors\<close>

lemma add_sub_loop_bool:
  assumes "length l = length r"
  shows "add_sub_loop bool_ops sub l r c () =
    (let r' = (if sub then map Not r else r) in (Inr (sum_bits l r' c, carry_into l r' c (length l)), ()))"
  using assms
proof (induction l r arbitrary: c rule: list_induct2)
  case (Cons x l y r)
  then show ?case
    by (cases sub) (simp_all add: Let_def sum_bits_Cons carry_into_Cons del: carry_into.simps(2))
qed simp

lemma subtract_val:
  assumes "length l = length r" and "l \<noteq> []"
  shows "\<exists>diff. add_sub_vectors bool_ops () l r True st = (Inr (diff, bits_val r \<le> bits_val l), ()) \<and> length diff = length l \<and>
    int (bits_val diff) = (int (bits_val l) - int (bits_val r)) mod 2 ^ length l"
proof -
  let ?r = "map Not r" and ?n = "length l"
  let ?d = "sum_bits l ?r True" and ?c = "carry_into l ?r True ?n"
  have "bits_val ?d + 2 ^ ?n * of_bool ?c = bits_val l + bits_val ?r + 1"
    using sum_bits_carry [of l ?r True] assms(1) by simp
  then have c: "bits_val ?d + 2 ^ ?n * of_bool ?c + bits_val r = bits_val l + 2 ^ ?n"
    using bits_val_not [of r] assms(1) by simp
  have d: "bits_val ?d < 2 ^ ?n" using bits_val_less [of ?d] by simp
  have "bits_val r < 2 ^ ?n" using bits_val_less [of r] assms(1) by simp
  with c d have nb: "?c = (bits_val r \<le> bits_val l)" by (cases ?c) simp_all
  have "eqm ?n (int (bits_val ?d)) (int (bits_val l) - int (bits_val r))"
    using arg_cong [OF c, of int] by (cases ?c) (simp_all add: eqm_dvd algebra_simps)
  moreover have "int (bits_val ?d) < 2 ^ ?n" using bits_val_less_int [of ?d] by simp
  ultimately have "int (bits_val ?d) = (int (bits_val l) - int (bits_val r)) mod 2 ^ ?n" by (simp add: eqm_def)
  with nb assms show ?thesis by (auto simp: add_sub_vectors_def add_sub_loop_bool Let_def simp del: carry_into.simps)
qed

lemma add_val:
  assumes "length l = length r" and "l \<noteq> []"
  shows "\<exists>sum c. add_sub_vectors bool_ops () l r False st = (Inr (sum, c), ()) \<and> length sum = length l \<and>
    bits_val sum = (bits_val l + bits_val r) mod 2 ^ length l"
  using assms sum_bits_val [OF assms(1), of False] by (simp add: add_sub_vectors_def add_sub_loop_bool Let_def)

lemma conditional_negate_bool:
  "conditional_negate_loop bool_ops neg c bs () = (Inr (if neg then negate_loop c bs else map2 (\<lambda>x c. x \<noteq> c) bs (c # replicate (length bs) False)), ())"
  if "neg \<or> \<not> c"
  using that
proof (induction bs arbitrary: c)
  case (Cons x bs)
  then show ?case by (cases neg; cases x; cases c) auto
qed simp

lemma conditional_negate_vector_bool:
  "conditional_negate_vector bool_ops () bs neg = (Inr (if neg then negate_loop True bs else bs), ())"
proof -
  have "map2 (\<lambda>x c. x \<noteq> c) bs (False # replicate (length bs) False) = bs"
    by (rule nth_equalityI) (auto simp: nth_Cons split: nat.splits)
  then show ?thesis using conditional_negate_bool [of neg neg bs] by (simp add: conditional_negate_vector_def)
qed

section \<open>Restoring division\<close>

lemma restoring_steps_bool:
  assumes "length ds = length partial" and "partial \<noteq> []"
  shows "\<exists>q p. restoring_steps bool_ops st ds xs quot partial () = (Inr (q @ quot, p), ()) \<and>
    length q = length xs \<and> length p = length partial \<and>
    (bits_val partial < bits_val ds \<longrightarrow> 2 * bits_val ds \<le> 2 ^ length partial \<longrightarrow>
      bits_val q = (bits_val partial * 2 ^ length xs + bits_val (rev xs)) div bits_val ds \<and>
      bits_val p = (bits_val partial * 2 ^ length xs + bits_val (rev xs)) mod bits_val ds)"
  using assms
proof (induction xs arbitrary: quot partial)
  case Nil
  then show ?case by (intro exI [of _ "[]"] exI [of _ partial]) auto
next
  case (Cons x xs)
  define sh where "sh = x # butlast partial"
  have sh: "length sh = length partial" "sh \<noteq> []" using Cons.prems(2) by (simp_all add: sh_def)
  obtain diff where d: "add_sub_vectors bool_ops () sh ds True st = (Inr (diff, bits_val ds \<le> bits_val sh), ())"
    "length diff = length sh" "int (bits_val diff) = (int (bits_val sh) - int (bits_val ds)) mod 2 ^ length sh"
    using subtract_val [of sh ds st] sh Cons.prems(1) by auto
  let ?nb = "bits_val ds \<le> bits_val sh"
  define np where "np = (if ?nb then diff else sh)"
  have "smapM (\<lambda>(p, d) s. emit_mux bool_ops s ?nb d p) (zip sh diff) () = (Inr (map (\<lambda>(p, d). if ?nb then d else p) (zip sh diff)), ())"
    by (rule smapM_bool) (auto split: prod.splits)
  moreover have "map (\<lambda>(p, d). if ?nb then d else p) (zip sh diff) = np"
    using d(2) by (intro nth_equalityI) (auto simp: np_def)
  ultimately have mux: "smapM (\<lambda>(p, d) s. emit_mux bool_ops s ?nb d p) (zip sh diff) () = (Inr np, ())" by simp
  have np: "length np = length partial" "np \<noteq> []" using sh d(2) by (auto simp: np_def simp flip: length_greater_0_conv)
  obtain q p where i: "restoring_steps bool_ops st ds xs (?nb # quot) np () = (Inr (q @ ?nb # quot, p), ())"
    "length q = length xs" "length p = length np"
    "bits_val np < bits_val ds \<longrightarrow> 2 * bits_val ds \<le> 2 ^ length np \<longrightarrow>
      bits_val q = (bits_val np * 2 ^ length xs + bits_val (rev xs)) div bits_val ds \<and>
      bits_val p = (bits_val np * 2 ^ length xs + bits_val (rev xs)) mod bits_val ds"
    using Cons.IH [of np "?nb # quot"] np Cons.prems(1) by auto
  have run: "restoring_steps bool_ops st ds (x # xs) quot partial () = (Inr ((q @ [?nb]) @ quot, p), ())"
    unfolding restoring_steps.simps Let_def sh_def [symmetric] d(1) sbind_simps prod.case mux i(1) by simp
  let ?D = "bits_val ds" and ?P = "bits_val partial" and ?m = "length xs"
  have val: "bits_val (q @ [?nb]) = (?P * 2 ^ length (x # xs) + bits_val (rev (x # xs))) div ?D \<and>
      bits_val p = (?P * 2 ^ length (x # xs) + bits_val (rev (x # xs))) mod ?D"
    if lt: "?P < ?D" and w: "2 * ?D \<le> 2 ^ length partial"
  proof -
    have "\<not> last partial"
    proof
      assume "last partial"
      then have "2 ^ (length partial - 1) \<le> ?P" using bits_val_last [OF Cons.prems(2)] by simp
      moreover have "(2::nat) ^ length partial = 2 * 2 ^ (length partial - 1)" using Cons.prems(2) by (cases partial) auto
      ultimately show False using lt w by linarith
    qed
    then have S: "bits_val sh = of_bool x + 2 * ?P" using bits_val_last [OF Cons.prems(2)] by (simp add: sh_def)
    have S2: "bits_val sh < 2 * ?D" using S lt by (cases x) simp_all
    have NP: "bits_val np = bits_val sh - (if ?nb then ?D else 0)"
    proof (cases ?nb)
      case True
      have "int (bits_val diff) = int (bits_val sh) - int ?D"
        using d(3) True bits_val_less_int [of sh] by simp
      with True show ?thesis by (simp add: np_def)
    qed (simp add: np_def)
    have "bits_val np < ?D" using NP S2 by (cases ?nb) simp_all
    moreover have "2 * ?D \<le> 2 ^ length np" using w np(1) by simp
    ultimately have iv: "bits_val q = (bits_val np * 2 ^ ?m + bits_val (rev xs)) div ?D"
      "bits_val p = (bits_val np * 2 ^ ?m + bits_val (rev xs)) mod ?D" using i(4) by simp_all
    have T: "?P * 2 ^ length (x # xs) + bits_val (rev (x # xs)) = (bits_val np * 2 ^ ?m + bits_val (rev xs)) + of_bool ?nb * 2 ^ ?m * ?D"
    proof -
      have "?P * 2 ^ length (x # xs) + bits_val (rev (x # xs)) = bits_val sh * 2 ^ ?m + bits_val (rev xs)"
        by (simp add: S bits_val_append algebra_simps)
      also have "bits_val sh = bits_val np + of_bool ?nb * ?D" using NP by (cases ?nb) simp_all
      finally show ?thesis by (simp add: algebra_simps)
    qed
    have "0 < ?D" using lt by simp
    then show ?thesis unfolding T using iv i(2) by (simp add: bits_val_append)
  qed
  show ?case
    by (rule exI [of _ "q @ [?nb]"], rule exI [of _ p]) (use run val i(2,3) np(1) in auto)
qed

section \<open>Runs follow the Boolean runs\<close>

text \<open>The quotient rounds towards zero, the remainder has the sign of the dividend.\<close>

definition division_val :: "bool \<Rightarrow> int \<Rightarrow> int \<Rightarrow> int"
  where "division_val rem x y = (if y = 0 then 0 else if rem then x smod y else x sdiv y)"

lemma division_val_sign:
  fixes q r :: nat
  assumes "y \<noteq> 0" and "q = nat \<bar>x\<bar> div nat \<bar>y\<bar>" and "rem \<Longrightarrow> r = nat \<bar>x\<bar> mod nat \<bar>y\<bar>"
    and "negative \<longleftrightarrow> (x < 0) \<noteq> (\<not> rem \<and> y < 0)"
  shows "(if negative then - int (if rem then r else q) else int (if rem then r else q)) = division_val rem x y"
proof -
  have q: "int q = \<bar>x\<bar> div \<bar>y\<bar>" using assms(2) by (simp add: zdiv_int)
  have r: "rem \<Longrightarrow> int r = \<bar>x\<bar> mod \<bar>y\<bar>" using assms(3) by (simp add: zmod_int)
  show ?thesis
    using assms(1,4) q r
    by (cases rem; cases "x < 0"; cases "x = 0"; cases "y < 0")
      (simp_all add: division_val_def signed_divide_int_def signed_modulo_int_def)
qed

context bit_emitter
begin

lemma sim_add_sub_loop:
  assumes "good s" and "dens s ls vs" and "dens s rs ws" and "den s c b"
  shows "sim s (add_sub_loop em sub ls rs c s) (add_sub_loop bool_ops sub vs ws b ()) (\<lambda>s. rel_prod (dens s) (den s))"
  using assms
proof (induction ls arbitrary: s rs vs ws c b)
  case Nil
  then show ?case by (simp add: sim_ret)
next
  case (Cons l ls)
  then obtain v vs' where v: "vs = v # vs'" "den s l v" "dens s ls vs'" by (auto simp: list_all2_Cons1)
  show ?case
  proof (cases rs)
    case Nil
    with Cons.prems have "ws = []" by simp
    with Nil Cons.prems v show ?thesis by (simp add: sim_ret)
  next
    case (Cons r rs')
    with Cons.prems obtain w ws' where w: "ws = w # ws'" "den s r w" "dens s rs' ws'" by (auto simp: list_all2_Cons1)
    have tail: "sim s2 (smap (\<lambda>(sums, carry). (x # sums, carry)) (add_sub_loop em sub ls rs' y s2))
        (smap (\<lambda>(sums, carry). (a # sums, carry)) (add_sub_loop bool_ops sub vs' ws' d ())) (\<lambda>s. rel_prod (dens s) (den s))"
      if "good s2" "dens s2 ls vs'" "dens s2 rs' ws'" "den s2 x a" "den s2 y d" for s2 x y a d
      by (rule sim_smap [OF Cons.IH [OF that(1,2,3,5)]]) (use that den_mono in \<open>auto simp: rel_prod_sel split: prod.splits\<close>)
    show ?thesis
      unfolding v(1) w(1) Cons add_sub_loop.simps
      by (intro sim_seq [OF sim_if [OF refl sim_unary sim_ret]] sim_seq_prod [OF sim_full_adder] tail)
        (use v w Cons.prems in simp_all)
  qed
qed

lemma sim_add_sub_vectors:
  assumes "good s" and "dens s ls vs" and "dens s rs ws"
  shows "sim s (add_sub_vectors em s ls rs sub st) (add_sub_vectors bool_ops () vs ws sub st) (\<lambda>s. rel_prod (dens s) (den s))"
proof -
  have c: "(length ls \<noteq> length rs \<or> ls = []) = (length vs \<noteq> length ws \<or> vs = [])"
    using list_all2_lengthD [OF assms(2)] list_all2_lengthD [OF assms(3)] assms(2) by auto
  show ?thesis
    unfolding add_sub_vectors_def c
    by (intro sim_if refl sim_err sim_steps sim_add_sub_loop) (use assms in simp_all)
qed

lemma sim_conditional_negate_loop:
  assumes "good s" and "dens s xs vs" and "den s x b" and "den s c d"
  shows "sim s (conditional_negate_loop em x c xs s) (conditional_negate_loop bool_ops b d vs ()) dens"
  using assms
proof (induction xs arbitrary: s vs c d)
  case Nil
  then show ?case by (simp add: sim_ret)
next
  case (Cons y xs)
  then obtain v vs' where v: "vs = v # vs'" "den s y v" "dens s xs vs'" by (auto simp: list_all2_Cons1)
  have tail: "sim s2 (smap (Cons z) (conditional_negate_loop em x e xs s2)) (smap (Cons a) (conditional_negate_loop bool_ops b f vs' ())) dens"
    if "good s2" "dens s2 xs vs'" "den s2 x b" "den s2 e f" "den s2 z a" for s2 z a e f
    by (rule sim_smap [OF Cons.IH [OF that(1-4)]]) (use that den_mono in auto)
  show ?case
    unfolding v(1) conditional_negate_loop.simps by (intro sim_steps tail) (use v Cons.prems in simp_all)
qed

lemma sim_conditional_negate_vector:
  assumes "good s" and "dens s xs vs" and "den s x b"
  shows "sim s (conditional_negate_vector em s xs x) (Inr (if b then negate_loop True vs else vs), ()) dens"
  using sim_conditional_negate_loop [OF assms assms(3)] conditional_negate_vector_bool [of vs b]
  by (simp add: conditional_negate_vector_def)

lemma dens_butlast: "dens s xs vs \<Longrightarrow> dens s (butlast xs) (butlast vs)"
  by (auto simp: list_all2_conv_all_nth nth_butlast)

lemma dens_snoc: "dens s xs vs \<Longrightarrow> den s z b \<Longrightarrow> dens s (xs @ [z]) (vs @ [b])"
  by (simp add: list_all2_appendI)

lemma dens_replicate: "den s z b \<Longrightarrow> dens s (replicate k z) (replicate k b)"
  by (simp add: list_all2_conv_all_nth)

lemma sim_restoring_steps:
  assumes "good s" and "dens s ds ws" and "dens s xs vs" and "dens s quot q" and "dens s partial p"
  shows "sim s (restoring_steps em st ds xs quot partial s) (restoring_steps bool_ops st ws vs q p ()) (\<lambda>s. rel_prod (dens s) (dens s))"
  using assms
proof (induction xs arbitrary: s vs quot q partial p)
  case Nil
  then show ?case by (simp add: sim_ret)
next
  case (Cons x xs)
  then obtain v vs' where v: "vs = v # vs'" "den s x v" "dens s xs vs'" by (auto simp: list_all2_Cons1)
  have sh: "dens s (x # butlast partial) (v # butlast p)" using v(2) dens_butlast [OF Cons.prems(5)] by simp
  have mux: "sim s' (smapM (\<lambda>(p, d) s. emit_mux em s nb d p) (zip us es) s') (smapM (\<lambda>(p, d) s. emit_mux bool_ops s b d p) (zip us' es') ()) dens"
    if "good s'" "dens s' us us'" "dens s' es es'" "den s' nb b" for s' us us' es es' nb b
  proof (rule sim_mapM [where P = den_pair, OF that(1)])
    show "list_all2 (den_pair s') (zip us es) (zip us' es')" using that(2,3) by (auto simp: list_all2_conv_all_nth)
    fix s2 u w assume s2: "good s2" "le s' s2" "den_pair s2 u w"
    show "sim s2 ((case u of (p, d) \<Rightarrow> \<lambda>s. emit_mux em s nb d p) s2) ((case w of (p, d) \<Rightarrow> \<lambda>s. emit_mux bool_ops s b d p) ()) den"
      using s2 den_mono [OF that(1) s2(2) that(4)] by (cases u; cases w) (auto simp del: bool_emit intro!: sim_mux)
  qed simp_all
  show ?case
    unfolding v(1) restoring_steps.simps Let_def
  proof (rule sim_seq_prod [OF sim_add_sub_vectors [OF Cons.prems(1) sh Cons.prems(2)] Cons.prems(1)], goal_cases)
    case (1 s1 df nb df' nb')
    show ?case
      by (rule sim_seq [OF mux 1(1)], rule 1(1), rule 1(4) [OF sh], rule 1(5), rule 1(6), rule Cons.IH)
        (use 1 Cons.prems v in \<open>blast | simp\<close>)+
  qed
qed

text \<open>A vector of \<open>n\<close> bits that denotes the number \<open>v\<close>.\<close>

definition num_is :: "nat \<Rightarrow> 's \<Rightarrow> 'a list \<Rightarrow> nat \<Rightarrow> bool"
  where "num_is n s xs v \<longleftrightarrow> (\<exists>vs. dens s xs vs \<and> length vs = n \<and> bits_val vs = v)"

lemma num_is_mono: "num_is n s xs v \<Longrightarrow> (\<And>xs vs. dens s xs vs \<Longrightarrow> dens s' xs vs) \<Longrightarrow> num_is n s' xs v"
  unfolding num_is_def by blast

lemma num_is_less: "num_is n s xs v \<Longrightarrow> v < 2 ^ n"
  unfolding num_is_def using bits_val_less by blast

lemma num_is_length: "num_is n s xs v \<Longrightarrow> length xs = n"
  unfolding num_is_def by (auto dest: list_all2_lengthD)

lemma num_is_zeros: "den s zero False \<Longrightarrow> num_is n s (replicate n zero) 0"
  unfolding num_is_def by (intro exI [of _ "replicate n False"]) (simp add: list_all2_conv_all_nth)

lemma vec_is_num:
  assumes "vec_is n s xs (int v)" and "v < 2 ^ n"
  shows "num_is n s xs v"
proof -
  obtain vs where vs: "dens s xs vs" "length vs = n" "eqm n (int (bits_val vs)) (int v)" using assms(1) by (auto simp: vec_is_def)
  have "int v < 2 ^ n" using assms(2) by (metis of_nat_less_iff of_nat_numeral of_nat_power)
  then have "int (bits_val vs) = int v" using vs(3) bits_val_less_int [of vs] vs(2) by (simp add: eqm_def)
  with vs show ?thesis by (auto simp: num_is_def)
qed

lemma sim_subtract_num:
  assumes "good s" and "num_is n s xs x" and "num_is n s ys y" and "y \<le> x" and "0 < n"
  shows "sim s (add_sub_vectors em s xs ys True st) (Inr (x - y), ()) (\<lambda>s p v. num_is n s (fst p) v)"
proof -
  obtain vs ws where v: "dens s xs vs" "length vs = n" "bits_val vs = x" "dens s ys ws" "length ws = n" "bits_val ws = y"
    using assms(2,3) by (auto simp: num_is_def)
  have l: "length vs = length ws" "vs \<noteq> []" using v assms(5) by auto
  obtain diff where d: "add_sub_vectors bool_ops () vs ws True st = (Inr (diff, y \<le> x), ())" "length diff = n"
    "int (bits_val diff) = (int x - int y) mod 2 ^ n" using subtract_val [OF l, of st] v by auto
  have "int x < 2 ^ n" using bits_val_less_int [of vs] v by simp
  then have "(int x - int y) mod 2 ^ n = int x - int y" using assms(4) by (intro mod_pos_pos_trivial) linarith+
  then have "int (bits_val diff) = int (x - y)" using d(3) assms(4) by simp
  then have e: "bits_val diff = x - y" by simp
  have "sim s (add_sub_vectors em s xs ys True st) (Inr (diff, y \<le> x), ()) (\<lambda>s. rel_prod (dens s) (den s))"
    using sim_add_sub_vectors [OF assms(1) v(1,4), of True st] d(1) by simp
  then show ?thesis by (rule sim_result) (use d(2) e in \<open>auto simp: num_is_def rel_prod_sel\<close>)
qed

lemma sim_add_num:
  assumes "good s" and "num_is n s xs x" and "num_is n s ys y" and "x + y < 2 ^ n" and "0 < n"
  shows "sim s (add_sub_vectors em s xs ys False st) (Inr (x + y), ()) (\<lambda>s p v. num_is n s (fst p) v)"
proof -
  obtain vs ws where v: "dens s xs vs" "length vs = n" "bits_val vs = x" "dens s ys ws" "length ws = n" "bits_val ws = y"
    using assms(2,3) by (auto simp: num_is_def)
  have l: "length vs = length ws" "vs \<noteq> []" using v assms(5) by auto
  obtain sm c where d: "add_sub_vectors bool_ops () vs ws False st = (Inr (sm, c), ())" "length sm = n" "bits_val sm = x + y"
    using add_val [OF l, of st] v assms(4) by auto
  have "sim s (add_sub_vectors em s xs ys False st) (Inr (sm, c), ()) (\<lambda>s. rel_prod (dens s) (den s))"
    using sim_add_sub_vectors [OF assms(1) v(1,4), of False st] d(1) by simp
  then show ?thesis by (rule sim_result) (use d(2,3) in \<open>auto simp: num_is_def rel_prod_sel\<close>)
qed

lemma sim_multiply_num:
  assumes "good s" and "num_is k s xs x" and "0 < k" and "bits_val cs * x < 2 ^ n" and "0 < n"
  shows "sim s (constant_multiply_vector em s xs cs n None st) (Inr (bits_val cs * x), ()) (num_is n)"
proof -
  obtain vs where v: "dens s xs vs" "length vs = k" "bits_val vs = x" using assms(2) by (auto simp: num_is_def)
  have "xs \<noteq> []" using num_is_length [OF assms(2)] assms(3) by auto
  from sim_constant_multiply_vector [OF assms(1) v(1) this assms(5), of cs st] show ?thesis
    by (rule sim_result) (use vec_is_num assms(4) v(3) in auto)
qed

text \<open>
  The pair of a quotient and a remainder. Without \<open>need\<close> the remainder is not computed; the
  results of a division by zero are known to be zero only where \<open>zeroed\<close> says so.
\<close>

definition div_is :: "nat \<Rightarrow> bool \<Rightarrow> bool \<Rightarrow> 's \<Rightarrow> 'a list \<times> 'a list \<Rightarrow> nat \<times> nat \<Rightarrow> bool"
  where "div_is n need zeroed s p xy \<longleftrightarrow>
    (\<exists>q r. num_is n s (fst p) q \<and> num_is n s (snd p) r \<and>
      (snd xy \<noteq> 0 \<longrightarrow> q = fst xy div snd xy \<and> (need \<longrightarrow> r = fst xy mod snd xy)) \<and>
      (snd xy = 0 \<longrightarrow> zeroed \<longrightarrow> q = 0 \<and> r = 0))"

lemma div_isI:
  assumes "num_is n s a q" and "num_is n s b r" and "y \<noteq> 0 \<Longrightarrow> q = x div y" and "y \<noteq> 0 \<Longrightarrow> need \<Longrightarrow> r = x mod y"
    and "y = 0 \<Longrightarrow> zeroed \<Longrightarrow> q = 0 \<and> r = 0"
  shows "div_is n need zeroed s (a, b) (x, y)"
  unfolding div_is_def using assms by (intro exI [of _ q] exI [of _ r]) simp

lemma sim_restoring_divide:
  assumes "good s" and "num_is n s xs x" and "num_is n s ys y" and "0 < n"
  shows "sim s (restoring_divide em s xs ys st) (Inr (x, y), ()) (div_is n need False)"
proof -
  obtain vs ws where v: "dens s xs vs" "length vs = n" "bits_val vs = x" "dens s ys ws" "length ws = n" "bits_val ws = y"
    using assms(2,3) by (auto simp: num_is_def)
  have len: "length xs = n" "length ys = n" using assms(2,3) num_is_length by blast+
  have c: "\<not> (length xs \<noteq> length ys \<or> xs = [])" using len assms(4) by auto
  obtain q p where r: "restoring_steps bool_ops st (ws @ [False]) (rev vs) [] (replicate (n + 1) False) () = (Inr (q, p), ())"
    "length q = n" "length p = n + 1"
    "0 < y \<longrightarrow> 2 * y \<le> 2 ^ (n + 1) \<longrightarrow> bits_val q = x div y \<and> bits_val p = x mod y"
    using restoring_steps_bool [of "ws @ [False]" "replicate (n + 1) False" st "rev vs" "[]"] v
    by (auto simp: bits_val_append simp del: replicate.simps)
  have "y < 2 ^ n" using bits_val_less [of ws] v by simp
  then have qr: "bits_val q = x div y" "bits_val p = x mod y" if "0 < y" using r(4) that by simp_all
  have b: "bits_val (butlast p) = x mod y" if "0 < y"
  proof -
    have p: "p \<noteq> []" using r(3) by auto
    have "bits_val p < 2 ^ n" using qr(2) [OF that] \<open>y < 2 ^ n\<close> that by (metis mod_less_divisor less_trans)
    then have "\<not> last p" using bits_val_last [OF p] r(3) by auto
    then show ?thesis using bits_val_last [OF p] qr(2) [OF that] by simp
  qed
  have steps: "sim s' (restoring_steps em st (ys @ [zero]) (rev xs) [] (replicate (length xs + 1) zero) s') (Inr (q, p), ())
      (\<lambda>s. rel_prod (dens s) (dens s))" if "good s'" "dens s' xs vs" "dens s' ys ws" "den s' zero False" for s' zero
  proof -
    have "dens s' (ys @ [zero]) (ws @ [False])" "dens s' (replicate (length xs + 1) zero) (replicate (n + 1) False)"
      using dens_snoc [OF that(3,4)] dens_replicate [OF that(4), of "n + 1"] len(1) by simp_all
    from sim_restoring_steps [OF that(1) this(1) _ _ this(2), of "rev xs" "rev vs" "[]" "[]" st] that(2) r(1) show ?thesis
      by simp
  qed
  note cz = sim_constant [where x = BitZero and st' = TwoState, simplified]
  show ?thesis
    unfolding restoring_divide_def if_not_P [OF c]
  proof (rule sim_then [OF cz [OF assms(1)] assms(1)], rule sim_then [OF steps], goal_cases)
    case (6 s1 z s2 pq)
    obtain a d where pq: "pq = (a, d)" "dens s2 a q" "dens s2 d p" using 6(10) by (cases pq) auto
    then have "num_is n s2 a (bits_val q)" "num_is n s2 (butlast d) (bits_val (butlast p))"
      using dens_butlast [OF pq(3)] r(2,3) by (auto simp: num_is_def)
    from div_isI [OF this] 6(6) qr(1) b show ?case unfolding pq(1) prod.case by (intro sim_ret) simp_all
  qed (use v in auto)
qed

lemma sim_constant_bits:
  assumes "good s"
  shows "sim s (constant_bits em st cs s) (Inr cs, ()) dens"
proof -
  have "smapM (\<lambda>b s. emit_constant bool_ops s (bit_val b) st) cs () = (Inr (map (\<lambda>b. b) cs), ())"
    by (rule smapM_bool) simp
  moreover have "sim s (constant_bits em st cs s) (smapM (\<lambda>b s. emit_constant bool_ops s (bit_val b) st) cs ()) dens"
    unfolding constant_bits_def by (rule sim_mapM_dens [OF assms]) (rule sim_constant_bool)
  ultimately show ?thesis by simp
qed

lemma sim_restoring_divide_constant:
  assumes "good s" and "num_is n s xs x" and "0 < bits_val cs"
  shows "sim s (restoring_divide_constant em s xs cs st) (Inr (x, bits_val cs), ()) (div_is n need zeroed)"
proof -
  let ?y = "bits_val cs" and ?m = "length cs"
  obtain vs where v: "dens s xs vs" "length vs = n" "bits_val vs = x" using assms(2) by (auto simp: num_is_def)
  have len: "length xs = n" using assms(2) num_is_length by blast
  have "?y < 2 ^ ?m" by (rule bits_val_less)
  then obtain q p where r: "restoring_steps bool_ops st (cs @ [False]) (rev vs) [] (replicate (?m + 1) False) () = (Inr (q, p), ())"
    "length q = n" "length p = ?m + 1" "bits_val q = x div ?y" "bits_val p = x mod ?y"
    using restoring_steps_bool [of "cs @ [False]" "replicate (?m + 1) False" st "rev vs" "[]"] v assms(3)
    by (auto simp: bits_val_append simp del: replicate.simps)
  let ?r = "take n (p @ replicate (n - length p) False)"
  have "x mod ?y < 2 ^ n" using num_is_less [OF assms(2)] by (meson le_less_trans mod_less_eq_dividend)
  then have rv: "bits_val ?r = x mod ?y" "length ?r = n"
    using r(5) by (simp_all only: bits_val_take bits_val_append bits_val_replicate_False) simp_all
  have steps: "sim s' (restoring_steps em st (ds @ [zero]) (rev xs) [] (replicate (length ds + 1) zero) s') (Inr (q, p), ())
      (\<lambda>s. rel_prod (dens s) (dens s))" if "good s'" "dens s' xs vs" "dens s' ds cs" "den s' zero False" for s' zero ds
  proof -
    have "dens s' (ds @ [zero]) (cs @ [False])" "dens s' (replicate (length ds + 1) zero) (replicate (?m + 1) False)"
      using dens_snoc [OF that(3,4)] dens_replicate [OF that(4), of "?m + 1"] list_all2_lengthD [OF that(3)] by simp_all
    from sim_restoring_steps [OF that(1) this(1) _ _ this(2), of "rev xs" "rev vs" "[]" "[]" st] that(2) r(1) show ?thesis
      by simp
  qed
  note cz = sim_constant [where x = BitZero and st' = TwoState, simplified]
  show ?thesis
    unfolding restoring_divide_constant_def
  proof (rule sim_then [OF cz [OF assms(1)] assms(1)], rule sim_then [OF sim_constant_bits], assumption, assumption, goal_cases)
    case (1 s1 z s2 ds)
    show ?case
    proof (rule sim_then [OF steps [OF 1(6)] 1(6)], goal_cases)
      case (4 s3 pq)
      obtain a d where pq: "pq = (a, d)" "dens s3 a q" "dens s3 d p" using 4(5) by (cases pq) auto
      have z: "den s3 z False" using 1 4 by blast
      have "dens s3 (take (length xs) (d @ replicate (length xs - length d) z)) ?r"
        unfolding len list_all2_lengthD [OF pq(3)]
        using pq(3) z by (intro list_all2_takeI list_all2_appendI) (auto simp: list_all2_conv_all_nth)
      then have "num_is n s3 (take (length xs) (d @ replicate (length xs - length d) z)) (x mod ?y)" "num_is n s3 a (x div ?y)"
        using rv pq(2) r(2,4) by (auto simp: num_is_def)
      from div_isI [OF this(2,1)] 4(1) assms(3) show ?case unfolding pq(1) prod.case by (intro sim_ret) simp_all
    qed (use 1 v in auto)
  qed
qed

lemma num_is_drop:
  assumes "num_is (n + k) s xs x"
  shows "num_is k s (drop n xs) (x div 2 ^ n)"
proof -
  obtain vs where v: "dens s xs vs" "length vs = n + k" "bits_val vs = x" using assms by (auto simp: num_is_def)
  then show ?thesis
    unfolding num_is_def by (intro exI [of _ "drop n vs"]) (simp add: bits_val_drop list_all2_dropI)
qed

lemma num_is_halve:
  assumes "num_is n s xs x" and "den s zero False" and "0 < n"
  shows "num_is n s (drop 1 xs @ [zero]) (x div 2)"
proof -
  obtain vs where v: "dens s xs vs" "length vs = n" "bits_val vs = x" using assms by (auto simp: num_is_def)
  have "dens s (drop 1 xs @ [zero]) (drop 1 vs @ [False])" using v(1) assms(2) by (intro dens_snoc list_all2_dropI)
  moreover have "bits_val (drop 1 vs @ [False]) = x div 2" using v(3) by (simp add: bits_val_append bits_val_drop [of 1, simplified])
  ultimately show ?thesis unfolding num_is_def using v(2) assms(3) by (intro exI [of _ "drop 1 vs @ [False]"]) simp
qed

lemma num_is_shift:
  assumes "num_is n s xs x" and "den s zero False"
  shows "num_is n s (logical_right_shift xs k zero) (x div 2 ^ k)"
proof -
  obtain vs where v: "dens s xs vs" "length vs = n" "bits_val vs = x" using assms by (auto simp: num_is_def)
  have "dens s (logical_right_shift xs k zero) (logical_right_shift vs k False)"
    using v(1) assms(2) by (auto simp: logical_right_shift_def list_get_def list_all2_conv_all_nth)
  with v show ?thesis unfolding num_is_def
    by (intro exI [of _ "logical_right_shift vs k False"]) (simp add: logical_right_shift_val)
qed

text \<open>The circuit of the reciprocal multiplication.\<close>

lemma sim_magic_divide:
  assumes "good s" and "num_is n s xs x" and "0 < n" and "n \<le> 64" and "unsigned_magic n d = Some M" and "d < 2 ^ n"
    and "den s zero False"
  shows "sim s (magic_divide em s xs d M zero need st) (Inr (x, d), ()) (div_is n need zeroed)"
proof -
  note ex = unsigned_magic_exact [OF assms(5) num_is_less [OF assms(2)]]
  have d0: "0 < d" using assms(5) by (auto simp: unsigned_magic_def split: if_splits)
  have len: "length xs = n" by (rule num_is_length [OF assms(2)])
  have p64: "(2::nat) ^ n \<le> 2 ^ 64" using assms(4) by (intro power_increasing) simp_all
  let ?m = "magic_multiplier M"
  define q0 where "q0 = x * ?m div 2 ^ n"
  have mb: "bits_val (lsb_bits ?m n) = ?m" "bits_val (lsb_bits d n) = d"
    using lsb_bits_val(2) [of ?m n] lsb_bits_val(2) [of d n] ex(1) assms(6) p64 by simp_all
  have "?m * x < 2 ^ n * 2 ^ n" using ex(1) num_is_less [OF assms(2)] by (intro mult_strict_mono) simp_all
  then have pw: "bits_val (lsb_bits ?m n) * x < 2 ^ (n * 2)" by (simp add: mb power_add mult_2_right)
  have prod: "sim s (constant_multiply_vector em s xs (lsb_bits ?m n) (n * 2) None st) (Inr (?m * x), ()) (num_is (n * 2))"
    using sim_multiply_num [OF assms(1-3) pw] assms(3) mb by simp
  have q: "sim s' (if magic_add M then
        sbind (add_sub_vectors em s' xs qs True st) (\<lambda>(difference, _) s.
        sbind (add_sub_vectors em s (drop 1 difference @ [zero]) qs False st) (\<lambda>(sum, _) s. (Inr sum, s)))
      else (Inr qs, s')) (Inr (if magic_add M then (x - q0) div 2 + q0 else q0), ()) (num_is n)"
    if s': "good s'" "num_is n s' xs x" "num_is n s' qs q0" "den s' zero False" for s' qs
  proof (cases "magic_add M")
    case True
    have le: "q0 \<le> x" using ex(2) by (simp add: q0_def)
    have small: "(x - q0) div 2 + q0 < 2 ^ n" using le num_is_less [OF assms(2)] by linarith
    have "sim s' (sbind (add_sub_vectors em s' xs qs True st) (\<lambda>(difference, _) s.
        sbind (add_sub_vectors em s (drop 1 difference @ [zero]) qs False st) (\<lambda>(sum, _) s. (Inr sum, s))))
      (Inr ((x - q0) div 2 + q0), ()) (num_is n)"
    proof (rule sim_then [OF sim_subtract_num [OF s'(1-3) le assms(3)] s'(1)], goal_cases)
      case (1 s1 p)
      obtain df nb where p: "p = (df, nb)" by (cases p)
      have "num_is n s1 (drop 1 df @ [zero]) ((x - q0) div 2)"
        using num_is_halve [OF _ 1(3) [OF s'(4)] assms(3)] 1(5) p by simp
      then show ?case
        unfolding p prod.case
        by (rule sim_then [OF sim_add_num [OF 1(1) _ num_is_mono [OF s'(3) 1(4)] small assms(3)] 1(1)])
          (auto intro!: sim_ret split: prod.splits)
    qed
    with True show ?thesis by simp
  next
    case False
    with s' show ?thesis by (simp add: sim_ret)
  qed
  have rem: "sim s' (if need then
        sbind (constant_multiply_vector em s' qs (lsb_bits d n) n None st) (\<lambda>product s.
        sbind (add_sub_vectors em s xs product True st) (\<lambda>(difference, _) s. (Inr difference, s)))
      else (Inr (replicate n zero), s')) (Inr (if need then x mod d else 0), ()) (num_is n)"
    if s': "good s'" "num_is n s' xs x" "num_is n s' qs (x div d)" "den s' zero False" for s' qs
  proof (cases need)
    case True
    have le: "d * (x div d) \<le> x" by simp
    have "bits_val (lsb_bits d n) * (x div d) < 2 ^ n"
      unfolding mb(2) using le num_is_less [OF assms(2)] by (rule le_less_trans)
    note mul = sim_multiply_num [OF s'(1,3) assms(3) this assms(3), of st, unfolded mb(2)]
    have "x - d * (x div d) = x mod d" by (simp add: minus_mult_div_eq_mod)
    then have "sim s' (sbind (constant_multiply_vector em s' qs (lsb_bits d n) n None st) (\<lambda>product s.
        sbind (add_sub_vectors em s xs product True st) (\<lambda>(difference, _) s. (Inr difference, s)))) (Inr (x mod d), ()) (num_is n)"
      by (rule_tac sim_then [OF mul s'(1)])
        (rule sim_then [OF sim_subtract_num [OF _ num_is_mono [OF s'(2)] _ le assms(3)]]; (assumption | auto intro!: sim_ret split: prod.splits))
    with True show ?thesis by simp
  next
    case False
    with s' show ?thesis by (simp add: sim_ret num_is_zeros)
  qed
  show ?thesis
    unfolding magic_divide_def Let_def len
  proof (rule sim_then [OF prod assms(1)], goal_cases)
    case (1 s1 pr)
    have "num_is n s1 (drop n pr) q0"
      using num_is_drop [of n n s1 pr "?m * x"] 1(5) by (simp add: mult_2_right q0_def mult.commute)
    moreover have xs1: "num_is n s1 xs x" by (rule num_is_mono [OF assms(2) 1(4)])
    ultimately have qq: "sim s1 (if magic_add M then
        sbind (add_sub_vectors em s1 xs (drop n pr) True st) (\<lambda>(difference, _) s.
        sbind (add_sub_vectors em s (drop 1 difference @ [zero]) (drop n pr) False st) (\<lambda>(sum, _) s. (Inr sum, s)))
      else (Inr (drop n pr), s1)) (Inr (if magic_add M then (x - q0) div 2 + q0 else q0), ()) (num_is n)"
      using q [OF 1(1)] 1(3) [OF assms(7)] by blast
    have z1: "den s1 zero False" by (rule 1(3) [OF assms(7)])
    show ?case
    proof (rule sim_then [OF qq 1(1)], goal_cases)
      case (1 s2 qs)
      have z: "den s2 zero False" by (rule 1(3) [OF z1])
      have xs: "num_is n s2 xs x" by (rule num_is_mono [OF xs1 1(4)])
      have sh: "num_is n s2 (logical_right_shift qs (magic_shift M) zero) (x div d)"
        using num_is_shift [OF 1(5) z, of "magic_shift M"] unfolding q0_def ex(3) .
      show ?case
      proof (rule sim_then [OF rem [OF 1(1) xs sh z] 1(1)], goal_cases)
        case (1 s3 ms)
        show ?case
          by (rule sim_ret [OF 1(1)], rule div_isI [OF num_is_mono [OF sh 1(4)] 1(5)]) (use d0 in simp_all)
      qed
    qed
  qed
qed

lemma num_is_low:
  assumes "num_is n s xs x" and "den s zero False"
  shows "num_is n s (map (\<lambda>i. if i < k then xs ! i else zero) [0..<n]) (x mod 2 ^ k)"
proof -
  obtain vs where v: "dens s xs vs" "length vs = n" "bits_val vs = x" using assms by (auto simp: num_is_def)
  have "dens s (map (\<lambda>i. if i < k then xs ! i else zero) [0..<n]) (map (\<lambda>i. if i < k then vs ! i else False) [0..<n])"
    using v(1,2) assms(2) by (auto simp: list_all2_conv_all_nth)
  moreover have "map (\<lambda>i. if i < k then vs ! i else False) [0..<n] = take k vs @ replicate (n - k) False"
    by (rule nth_equalityI) (use v(2) in \<open>auto simp: nth_append\<close>)
  ultimately show ?thesis using v(2,3) unfolding num_is_def
    by (intro exI [of _ "take k vs @ replicate (n - k) False"]) (auto simp: bits_val_append bits_val_take)
qed

lemma unsigned_magic_defined:
  assumes "1 < d" and "d < 2 ^ n" and "n \<le> 64" and "\<not> is_power_of_two d"
  shows "\<exists>M. unsigned_magic n d = Some M"
proof -
  have "2 ^ (bit_length d - 1) < (2::nat) ^ n" using floor_log2_bounds(1) [of d] assms(1,2) by (meson le_less_trans zero_less_one less_trans)
  then have "bit_length d - 1 < n" by simp
  with assms show ?thesis by (auto simp: unsigned_magic_def Let_def)
qed

text \<open>Every strategy for a constant divisor divides; a zero divisor gives zeros.\<close>

lemma sim_divide_by_constant:
  assumes "good s" and "num_is n s xs x" and "length cs = n" and "0 < n"
  shows "sim s (divide_by_constant em s xs cs need st) (Inr (x, bits_val cs), ()) (div_is n need True)"
proof -
  let ?d = "bits_val cs"
  note len = num_is_length [OF assms(2)] and sig = significant_val [of cs]
  have d: "?d < 2 ^ n" using bits_val_less [of cs] assms(3) by simp
  have zero: "sim s (emit_constant em s BitZero st) (Inr False, ()) den"
    using sim_constant [OF assms(1), of BitZero st] by simp
  show ?thesis
    unfolding divide_by_constant_def Let_def len
  proof (rule sim_then [OF zero assms(1)], goal_cases)
    case (1 s1 z)
    have xs: "num_is n s1 xs x" by (rule num_is_mono [OF assms(2) 1(4)])
    have zeros: "num_is n s1 (replicate n z) 0" by (rule num_is_zeros [OF 1(5)])
    have rest: "sim s1 (restoring_divide_constant em s1 xs (take (significant_bits cs) cs) st) (Inr (x, ?d), ()) (div_is n need True)"
      if "0 < ?d" using sim_restoring_divide_constant [OF 1(1) xs, of "take (significant_bits cs) cs"] sig that by simp
    show ?case
    proof (cases "bits_to_u64 cs")
      case None
      with bits_to_u64_val(2) [OF None] sig rest show ?thesis by simp
    next
      case (Some v)
      then have v: "v = ?d" by (rule bits_to_u64_val(1))
      consider "?d = 0" | "0 < ?d" "is_power_of_two ?d" | "0 < ?d" "\<not> is_power_of_two ?d" "n \<le> 64"
        | "0 < ?d" "\<not> is_power_of_two ?d" "\<not> n \<le> 64" by fastforce
      then show ?thesis
      proof cases
        case a: 1
        have "div_is n need True s1 (replicate n z, replicate n z) (x, ?d)" by (rule div_isI [OF zeros zeros]) (use a in simp_all)
        with a Some v 1(1) show ?thesis by (simp add: sim_ret)
      next
        case a: 2
        define k where "k = bit_length ?d - 1"
        have dk: "?d = 2 ^ k" using a(2) by (simp add: is_power_of_two_def k_def)
        have "num_is n s1 (map (\<lambda>i. case list_get xs (i + k) of Some y \<Rightarrow> y | None \<Rightarrow> z) [0..<n]) (x div ?d)"
          using num_is_shift [OF xs 1(5), of k] by (simp add: logical_right_shift_def len dk)
        moreover have "num_is n s1 (map (\<lambda>i. if i < k then xs ! i else z) [0..<n]) (x mod ?d)"
          unfolding dk by (rule num_is_low [OF xs 1(5)])
        ultimately have "div_is n need True s1 (map (\<lambda>i. case list_get xs (i + k) of Some y \<Rightarrow> y | None \<Rightarrow> z) [0..<n],
          map (\<lambda>i. if i < k then xs ! i else z) [0..<n]) (x, ?d)" by (rule div_isI) (use a in simp_all)
        with a Some v 1(1) show ?thesis by (simp add: sim_ret k_def)
      next
        case a: 3
        then have "1 < ?d" by (cases "?d = 1") (auto simp: is_power_of_two_def bit_length.simps)
        then obtain M where M: "unsigned_magic n ?d = Some M" using unsigned_magic_defined [OF _ d a(3,2)] by blast
        from a Some v M rest [OF a(1)] sim_magic_divide [OF 1(1) xs assms(4) a(3) M d 1(5)] show ?thesis by simp
      next
        case a: 4
        with Some v rest show ?thesis by simp
      qed
    qed
  qed
qed


text \<open>Division of a constant: a divisor with bits above the numerator's gives zero and the numerator.\<close>

lemma sim_numerator_bit:
  assumes "good s" and "rel_option (den s) h hb" and "den s z False" and "rel_prod (den_pair s) (den s) e eb"
  shows "sim s (numerator_bit em h z e s)
    (Inr (if hb = Some True then (False, snd eb) else fst eb), ()) (\<lambda>s. den_pair s)"
proof (cases hb)
  case None
  then have "h = None" using assms(2) by simp
  with None assms(1,4) show ?thesis by (cases e; cases eb) (auto simp: numerator_bit_def intro!: sim_ret)
next
  case (Some b)
  then obtain x where h: "h = Some x" "den s x b" using assms(2) by (auto simp: option_rel_Some2)
  obtain q r y q' r' y' where e: "e = ((q, r), y)" "eb = ((q', r'), y')" "den s q q'" "den s r r'" "den s y y'"
    using assms(4) by (cases e; cases eb; cases "fst e"; cases "fst eb") auto
  have m: "sim s' (emit_mux em s' x u w) (Inr (if b then u' else w'), ()) den"
    if "good s'" "den s' x b" "den s' u u'" "den s' w w'" for s' u u' w w'
    using sim_mux [OF that] by simp
  show ?thesis
    unfolding numerator_bit_def e(1) h(1) Let_def prod.case option.case
    by (rule sim_then [OF m [OF assms(1) h(2) assms(3) e(3)] assms(1)], rule sim_then [OF m])
      (use h(2) e Some in \<open>auto intro!: sim_ret\<close>)
qed

lemma sim_numerator_bits:
  assumes "good s" and "num_is k s qs q" and "num_is k s rs r" and "dens s xs vs" and "length vs = k"
    and "rel_option (den s) h hb" and "den s z False"
  shows "sim s (smapM (numerator_bit em h z) (zip (zip qs rs) xs) s)
    (Inr (if hb = Some True then (0, bits_val vs) else (q, r)), ())
    (\<lambda>s ps v. num_is k s (map fst ps) (fst v) \<and> num_is k s (map snd ps) (snd v))"
proof -
  obtain us ws where u: "dens s qs us" "length us = k" "bits_val us = q" "dens s rs ws" "length ws = k" "bits_val ws = r"
    using assms(2,3) by (auto simp: num_is_def)
  let ?g = "\<lambda>eb. if hb = Some True then (False, snd eb) else fst eb"
  let ?es = "zip (zip us ws) vs"
  have "sim s (smapM (numerator_bit em h z) (zip (zip qs rs) xs) s) (smapM (\<lambda>eb s. (Inr (?g eb), s)) ?es ())
    (\<lambda>s. list_all2 (den_pair s))"
  proof (rule sim_mapM [where P = "\<lambda>s. rel_prod (den_pair s) (den s)", OF assms(1)])
    show "list_all2 (rel_prod (den_pair s) (den s)) (zip (zip qs rs) xs) ?es"
      using u(1,4) assms(4) by (auto simp: list_all2_conv_all_nth)
    fix s' e eb assume s': "good s'" "le s s'" "rel_prod (den_pair s') (den s') e eb"
    show "sim s' (numerator_bit em h z e s') (Inr (?g eb), ()) (\<lambda>s. den_pair s)"
      using keepsD [OF keeps_option [OF keeps_den] assms(1) s'(2) assms(6)] den_mono [OF assms(1) s'(2) assms(7)] s'
      by (intro sim_numerator_bit)
  qed simp_all
  then have "sim s (smapM (numerator_bit em h z) (zip (zip qs rs) xs) s) (Inr (map ?g ?es), ()) (\<lambda>s. list_all2 (den_pair s))"
    by (simp only: smapM_bool [where f = "\<lambda>eb s. (Inr (?g eb), s)" and g = ?g, OF refl])
  then show ?thesis
  proof (rule sim_result)
    fix s' ps assume p: "list_all2 (den_pair s') ps (map ?g ?es)"
    have "map fst (map ?g ?es) = (if hb = Some True then replicate k False else us)"
      "map snd (map ?g ?es) = (if hb = Some True then vs else ws)"
      using u(2,5) assms(5) by (auto intro!: nth_equalityI)
    moreover have "dens s' (map fst ps) (map fst (map ?g ?es))" "dens s' (map snd ps) (map snd (map ?g ?es))"
      using p by (auto simp: list_all2_conv_all_nth rel_prod_sel)
    ultimately show "num_is k s' (map fst ps) (fst (if hb = Some True then (0, bits_val vs) else (q, r))) \<and>
        num_is k s' (map snd ps) (snd (if hb = Some True then (0, bits_val vs) else (q, r)))"
      using u assms(5) unfolding num_is_def by (cases "hb = Some True") (auto intro: exI [of _ "replicate k False"])
  qed
qed

lemma num_is_pad:
  assumes "num_is k s xs x" and "den s z False" and "k \<le> n"
  shows "num_is n s (xs @ replicate (n - k) z) x"
proof -
  obtain vs where v: "dens s xs vs" "length vs = k" "bits_val vs = x" using assms by (auto simp: num_is_def)
  then show ?thesis unfolding num_is_def
    using dens_replicate [OF assms(2), of "n - k"] assms(3)
    by (intro exI [of _ "vs @ replicate (n - k) False"]) (auto simp: bits_val_append intro: list_all2_appendI)
qed

lemma num_is_take:
  assumes "num_is n s xs x" and "k \<le> n"
  shows "num_is k s (take k xs) (x mod 2 ^ k)"
proof -
  obtain vs where v: "dens s xs vs" "length vs = n" "bits_val vs = x" using assms by (auto simp: num_is_def)
  then show ?thesis unfolding num_is_def
    using assms(2) by (intro exI [of _ "take k vs"]) (auto simp: bits_val_take)
qed

lemma sim_nonzero:
  assumes "good s" and "num_is n s xs x" and "0 < n"
  shows "sim s (reduce_values em s xs BitOr) (Inr (x \<noteq> 0), ()) den"
proof -
  obtain vs where v: "dens s xs vs" "length vs = n" "bits_val vs = x" using assms by (auto simp: num_is_def)
  then have "vs \<noteq> []" using assms(3) by auto
  with sim_reduce_values [OF assms(1) v(1), of BitOr "(\<or>)"] reduce_values_bool [of BitOr "(\<or>)" vs] v(3) bits_val_pos [of vs]
  show ?thesis by (simp add: fold_op_or)
qed


lemma sim_divide_constant_numerator:
  assumes "good s" and "num_is n s ys y" and "length cs = n" and "0 < n"
  shows "sim s (divide_constant_numerator em s cs ys st) (Inr (bits_val cs, y), ()) (div_is n need False)"
proof -
  define k where "k = max (significant_bits cs) 1"
  let ?x = "bits_val cs"
  note len = num_is_length [OF assms(2)] and sig = significant_val [of cs]
  have k: "0 < k" "k \<le> n" using sig assms(3,4) by (simp_all add: k_def)
  have xk: "bits_val (take k cs) = ?x" "length (take k cs) = k"
  proof -
    show "length (take k cs) = k" using k(2) assms(3) by simp
    have "?x < 2 ^ k"
    proof -
      have "?x < 2 ^ significant_bits cs" using bits_val_less [of "take (significant_bits cs) cs"] sig by (simp add: min_absorb2)
      also have "\<dots> \<le> (2::nat) ^ k" by (intro power_increasing) (simp_all add: k_def)
      finally show ?thesis .
    qed
    then show "bits_val (take k cs) = ?x" by (simp add: bits_val_take)
  qed
  have x: "?x < 2 ^ k" using bits_val_less [of "take k cs"] xk by simp
  define hb where "hb = (if k < n then Some (y div 2 ^ k \<noteq> 0) else None)"
  have high: "sim s' (if k < n then smap Some (reduce_values em s' (drop k ys) BitOr) else (Inr None, s')) (Inr hb, ())
      (\<lambda>s. rel_option (den s))" if "good s'" "num_is n s' ys y" for s'
  proof (cases "k < n")
    case True
    then have "num_is (n - k) s' (drop k ys) (y div 2 ^ k)" using that(2) by (intro num_is_drop) simp
    from sim_nonzero [OF that(1) this] True show ?thesis by (auto simp: hb_def intro!: sim_smap_val)
  qed (use that(1) in \<open>simp add: hb_def sim_ret\<close>)
  have hb: "hb = Some True \<Longrightarrow> 2 ^ k \<le> y" "hb \<noteq> Some True \<Longrightarrow> y mod 2 ^ k = y"
    using num_is_less [OF assms(2)] k by (auto simp: hb_def div_eq_0_iff split: if_splits)
  have zero: "sim s (emit_constant em s BitZero st) (Inr False, ()) den"
    using sim_constant [OF assms(1), of BitZero st] by simp
  show ?thesis
    unfolding divide_constant_numerator_def Let_def len k_def [symmetric]
  proof (rule sim_then [OF zero assms(1)], rule sim_then [OF sim_constant_bits], goal_cases)
    case (3 s1 z s2 num)
    have z2: "den s2 z False" by (rule 3(8) [OF 3(5)])
    have ys2: "num_is n s2 ys y" by (rule num_is_mono [OF num_is_mono [OF assms(2) 3(4)] 3(9)])
    have num: "num_is k s2 num ?x" using 3(10) xk by (auto simp: num_is_def)
    show ?case
    proof (rule sim_then [OF sim_restoring_divide [OF 3(6) num num_is_take [OF ys2 k(2)] k(1), where need = True] 3(6)], goal_cases)
      case (1 s3 p)
      obtain qs rs where p: "p = (qs, rs)" by (cases p)
      obtain q r where qr: "num_is k s3 qs q" "num_is k s3 rs r"
        "y mod 2 ^ k \<noteq> 0 \<Longrightarrow> q = ?x div (y mod 2 ^ k) \<and> r = ?x mod (y mod 2 ^ k)"
        using 1(5) by (auto simp: div_is_def p)
      have ys3: "num_is n s3 ys y" by (rule num_is_mono [OF ys2 1(4)])
      have z3: "den s3 z False" by (rule 1(3) [OF z2])
      have num3: "dens s3 num (take k cs)" by (rule 1(4) [OF 3(10)])
      show ?case
        unfolding p prod.case
      proof (rule sim_then [OF high [OF 1(1) ys3] 1(1)], goal_cases)
        case (1 s4 h)
        have q4: "num_is k s4 qs q" by (rule num_is_mono [OF qr(1) 1(4)])
        have r4: "num_is k s4 rs r" by (rule num_is_mono [OF qr(2) 1(4)])
        note nb = sim_numerator_bits [OF 1(1) q4 r4 1(4) [OF num3] xk(2) 1(5) 1(3) [OF z3]]
        have z4: "den s4 z False" by (rule 1(3) [OF z3])
        show ?case
        proof (rule sim_then [OF nb 1(1)], goal_cases)
          case (1 s5 ps)
          let ?v = "if hb = Some True then (0, bits_val (take k cs)) else (q, r)"
          have nums: "num_is n s5 (map fst ps @ replicate (n - k) z) (fst ?v)" "num_is n s5 (map snd ps @ replicate (n - k) z) (snd ?v)"
            using 1(5) num_is_pad [OF _ 1(3) [OF z4] k(2)] by blast+
          have "y \<noteq> 0 \<Longrightarrow> fst ?v = ?x div y" "y \<noteq> 0 \<Longrightarrow> snd ?v = ?x mod y"
            using hb qr(3) x xk(1) by (cases "hb = Some True"; fastforce)+
          then show ?case by (intro sim_ret [OF 1(1)]) (rule div_isI [OF nums], simp_all)
        qed
      qed
    qed
  qed
qed


section \<open>Signed division\<close>

text \<open>The number a vector of the result type stands for.\<close>

lemma word_val_negative: "bs \<noteq> [] \<Longrightarrow> signed_val bs < 0 \<longleftrightarrow> last bs"
  using bits_val_less_int [of bs] by (simp add: signed_val_def)

lemma sim_magnitude:
  assumes "good s" and "dens s xs vs" and "length vs = n" and "0 < n" and "den s x (last vs)"
  shows "sim s (conditional_negate_vector em s xs x) (Inr (nat \<bar>signed_val vs\<bar>), ()) (num_is n)"
proof -
  have ne: "vs \<noteq> []" using assms(3,4) by auto
  have "(if last vs then negate_loop True vs else vs) = twos_complement_magnitude vs True"
    using ne by (simp add: twos_complement_magnitude_def)
  then have "sim s (conditional_negate_vector em s xs x) (Inr (twos_complement_magnitude vs True), ()) dens"
    using sim_conditional_negate_vector [OF assms(1,2,5)] by simp
  then show ?thesis
    by (rule sim_result) (use magnitude_val [OF ne, of True] assms(3) in \<open>auto simp: num_is_def\<close>)
qed

lemma sim_divide_signs:
  assumes "good s" and "dens s xs vs" and "dens s ys ws" and "length vs = n" and "length ws = n" and "0 < n"
    and "ty_width ty = n"
  defines "X \<equiv> operand_val (vs, ty) True" and "Y \<equiv> operand_val (ws, ty) True"
  shows "sim s (divide_signs em s xs ys rem ty) (Inr (if ty_signed ty then Some ((X < 0) \<noteq> (\<not> rem \<and> Y < 0)) else None), ())
    (\<lambda>s p ng. num_is n s (fst p) (nat \<bar>X\<bar>) \<and> num_is n s (fst (snd p)) (nat \<bar>Y\<bar>) \<and> rel_option (den s) (snd (snd p)) ng)"
proof (cases "ty_signed ty")
  case False
  then have "X = int (bits_val vs)" "Y = int (bits_val ws)" by (simp_all add: X_def Y_def operand_val_def)
  with False assms(1-5) show ?thesis by (auto simp: divide_signs_def num_is_def intro!: sim_ret)
next
  case True
  then have XY: "X = signed_val vs" "Y = signed_val ws" by (simp_all add: X_def Y_def operand_val_def)
  have ne: "vs \<noteq> []" "ws \<noteq> []" using assms(4-6) by auto
  have sg: "sim s' (vget zs (n - 1) s') (Inr (last us), ()) den" if "good s'" "dens s' zs us" "us \<noteq> []" "length us = n" for s' zs us
    using sim_vget [where R = den, OF that(1,2), of "n - 1" "n - 1"] that(3,4) assms(6) by (simp add: vget_def last_conv_nth list_all2_lengthD [OF that(2)])
  have ng: "sim s' (if rem then (Inr a, s') else emit_binary em s' BitXor a b) (Inr ((X < 0) \<noteq> (\<not> rem \<and> Y < 0)), ()) den"
    if "good s'" "den s' a (last vs)" "den s' b (last ws)" for s' a b
    using sim_binary [OF that, of BitXor "(\<noteq>)"] that word_val_negative [OF ne(1)] word_val_negative [OF ne(2)]
    by (cases rem) (simp_all add: sim_ret XY)
  show ?thesis
    unfolding divide_signs_def if_P [OF True] assms(7)
  proof (rule sim_then [OF sg [OF assms(1,2) ne(1) assms(4)] assms(1)], goal_cases)
    case (1 s1 a)
    note ys1 = 1(4) [OF assms(3)] and xs1 = 1(4) [OF assms(2)] and a1 = 1(5)
    show ?case
    proof (rule sim_then [OF sg [OF 1(1) ys1 ne(2) assms(5)] 1(1)], goal_cases)
      case (1 s2 b)
      note ys2 = 1(4) [OF ys1] and xs2 = 1(4) [OF xs1] and a2 = 1(3) [OF a1] and b2 = 1(5)
      show ?case
      proof (rule sim_then [OF sim_magnitude [OF 1(1) xs2 assms(4,6) a2] 1(1)], goal_cases)
        case (1 s3 d)
        note ys3 = 1(4) [OF ys2] and a3 = 1(3) [OF a2] and b3 = 1(3) [OF b2] and d3 = 1(5)
        show ?case
        proof (rule sim_then [OF sim_magnitude [OF 1(1) ys3 assms(5,6) b3] 1(1)], goal_cases)
          case (1 s4 e)
          have d4: "num_is n s4 d (nat \<bar>signed_val vs\<bar>)" by (rule num_is_mono [OF d3 1(4)])
          note e4 = 1(5)
          show ?case
          proof (rule sim_then [OF ng [OF 1(1) 1(3) [OF a3] 1(3) [OF b3]] 1(1)], goal_cases)
            case (1 s5 c)
            have "num_is n s5 d (nat \<bar>signed_val vs\<bar>)" "num_is n s5 e (nat \<bar>signed_val ws\<bar>)"
              using num_is_mono [OF d4 1(4)] num_is_mono [OF e4 1(4)] by blast+
            with 1(5) show ?case by (intro sim_ret [OF 1(1)]) (simp add: True XY)
          qed
        qed
      qed
    qed
  qed
qed

lemma sim_divide_magnitudes:
  assumes "good s" and "num_is n s xs x" and "num_is n s ys y" and "0 < n"
    and "\<And>cs. dc = Some cs \<Longrightarrow> length cs = n \<and> bits_val cs = x"
    and "\<And>cs. vc = Some cs \<Longrightarrow> length cs = n \<and> bits_val cs = y"
  shows "sim s (divide_magnitudes em s xs ys dc vc rem st) (Inr (x, y), ()) (div_is n rem (vc \<noteq> None))"
proof (cases vc)
  case (Some cs)
  with assms(6) sim_divide_by_constant [OF assms(1,2) _ assms(4), of cs] show ?thesis by (auto simp: divide_magnitudes_def)
next
  case None
  then show ?thesis
    using assms(5) sim_divide_constant_numerator [OF assms(1,3) _ assms(4)] sim_restoring_divide [OF assms(1-4)]
    by (auto simp: divide_magnitudes_def split: option.split)
qed

lemma sim_restore_sign:
  assumes "good s" and "num_is n s xs x" and "rel_option (den s) ng nb"
  shows "sim s (case ng of Some c \<Rightarrow> conditional_negate_vector em s xs c | None \<Rightarrow> (Inr xs, s))
    (Inr (if nb = Some True then - int x else int x), ()) (vec_is n)"
proof -
  obtain vs where v: "dens s xs vs" "length vs = n" "bits_val vs = x" using assms(2) by (auto simp: num_is_def)
  show ?thesis
  proof (cases ng)
    case None
    then have "nb = None" using assms(3) by simp
    moreover have "vec_is n s xs (int x)" unfolding vec_is_def using v by (intro exI [of _ vs]) (simp add: eqm_def)
    ultimately show ?thesis using None assms(1) by (simp add: sim_ret)
  next
    case (Some c)
    then obtain b where b: "nb = Some b" "den s c b" using assms(3) by (auto simp: option_rel_Some1)
    have "vec_is n s' zs (if nb = Some True then - int x else int x)"
      if "dens s' zs (if b then negate_loop True vs else vs)" for s' zs
      unfolding vec_is_def using that v b(1)
      by (intro exI [of _ "if b then negate_loop True vs else vs"]) (auto simp: negate_loop_val(1) negate_loop_int eqm_def)
    then show ?thesis
      unfolding Some option.case by (rule sim_result [OF sim_conditional_negate_vector [OF assms(1) v(1) b(2)]])
  qed
qed


lemma sim_mask_zero:
  assumes "good s" and "vec_is n s xs x" and "den s c b" and "den s z False"
  shows "sim s (smapM (\<lambda>x s. emit_mux em s c x z) xs s) (Inr (if b then x else 0), ()) (vec_is n)"
proof -
  obtain vs where v: "dens s xs vs" "length vs = n" "eqm n (int (bits_val vs)) x" using assms(2) by (auto simp: vec_is_def)
  have "sim s (smapM (\<lambda>x s. emit_mux em s c x z) xs s) (smapM (\<lambda>x s. emit_mux bool_ops s b x False) vs ()) dens"
    by (rule sim_mapM [where P = den, OF assms(1) v(1)]) (use assms den_mono in \<open>auto intro!: sim_mux simp del: bool_emit\<close>)
  moreover have "smapM (\<lambda>x s. emit_mux bool_ops s b x False) vs () = (Inr (map (\<lambda>x. b \<and> x) vs), ())"
    by (rule smapM_bool) simp
  ultimately have "sim s (smapM (\<lambda>x s. emit_mux em s c x z) xs s) (Inr (map (\<lambda>x. b \<and> x) vs), ()) dens" by simp
  then show ?thesis
  proof (rule sim_result)
    fix s' ys assume "dens s' ys (map (\<lambda>x. b \<and> x) vs)"
    moreover have "map (\<lambda>x. b \<and> x) vs = (if b then vs else replicate n False)" using v(2) by (auto simp: map_replicate_const)
    ultimately show "vec_is n s' ys (if b then x else 0)"
      unfolding vec_is_def using v by (intro exI [of _ "if b then vs else replicate n False"]) (simp add: eqm_def)
  qed
qed


lemma sim_zero: "good s \<Longrightarrow> sim s (emit_constant em s BitZero st) (Inr False, ()) den"
  using sim_constant [of s BitZero st] by simp

text \<open>The division of the magnitudes, the restored sign and the mask for a zero divisor.\<close>

lemma sim_divide_tail:
  assumes "good s" and "num_is n s xs (nat \<bar>X\<bar>)" and "num_is n s ys (nat \<bar>Y\<bar>)" and "0 < n" and "den s z False"
    and "rel_option (den s) ng nb" and "nb = Some ((X < 0) \<noteq> (\<not> rem \<and> Y < 0)) \<or> nb = None \<and> 0 \<le> X \<and> 0 \<le> Y"
    and "\<And>cs. dc = Some cs \<Longrightarrow> length cs = n \<and> bits_val cs = nat \<bar>X\<bar>"
    and "\<And>cs. vc = Some cs \<Longrightarrow> length cs = n \<and> bits_val cs = nat \<bar>Y\<bar>"
  shows "sim s (sbind (divide_magnitudes em s xs ys dc vc rem st) (\<lambda>(quot, modulus) s.
      sbind (case ng of Some negative \<Rightarrow> conditional_negate_vector em s (if rem then modulus else quot) negative
             | None \<Rightarrow> (Inr (if rem then modulus else quot), s)) (\<lambda>result s.
        if vc = None then
          sbind (reduce_values em s ys BitOr) (\<lambda>nonzero s. smapM (\<lambda>x s. emit_mux em s nonzero x z) result s)
        else (Inr result, s))))
    (Inr (division_val rem X Y), ()) (vec_is n)"
proof (rule sim_then [OF sim_divide_magnitudes [OF assms(1-4,8,9)] assms(1)], goal_cases)
  case (3 s1 p)
  obtain qs rs where p: "p = (qs, rs)" by (cases p)
  obtain q r where qr: "num_is n s1 qs q" "num_is n s1 rs r" "Y \<noteq> 0 \<Longrightarrow> q = nat \<bar>X\<bar> div nat \<bar>Y\<bar>"
    "Y \<noteq> 0 \<Longrightarrow> rem \<Longrightarrow> r = nat \<bar>X\<bar> mod nat \<bar>Y\<bar>" "Y = 0 \<Longrightarrow> vc \<noteq> None \<Longrightarrow> q = 0 \<and> r = 0"
    using 3(5) by (auto simp: div_is_def p)
  define m where "m = (if rem then r else q)"
  have res: "num_is n s1 (if rem then rs else qs) m" using qr(1,2) by (simp add: m_def)
  have ng1: "rel_option (den s1) ng nb" by (rule keepsD [OF keeps_option [OF keeps_den] assms(1) 3(2) assms(6)])
  let ?v = "if nb = Some True then - int m else int m"
  have v: "?v = division_val rem X Y" if "Y \<noteq> 0"
    unfolding m_def by (rule division_val_sign [OF that qr(3) [OF that] qr(4) [OF that]]) (use assms(7) in auto)
  have v0: "?v = 0" if "Y = 0" "vc \<noteq> None" using qr(5) [OF that] by (simp add: m_def)
  have d0: "division_val rem X 0 = 0" by (simp add: division_val_def)
  have ys1: "num_is n s1 ys (nat \<bar>Y\<bar>)" by (rule num_is_mono [OF assms(3) 3(4)])
  have z1: "den s1 z False" by (rule 3(3) [OF assms(5)])
  show ?case
    unfolding p prod.case
  proof (rule sim_then [OF sim_restore_sign [OF 3(1) res ng1] 3(1)], goal_cases)
    case (1 s2 zs)
    have ys2: "num_is n s2 ys (nat \<bar>Y\<bar>)" by (rule num_is_mono [OF ys1 1(4)])
    have z2: "den s2 z False" by (rule 1(3) [OF z1])
    note zs = 1(5)
    show ?case
    proof (cases "vc = None")
      case False
      then have "?v = division_val rem X Y" using v v0 d0 by (cases "Y = 0") auto
      with 1(5) show ?thesis unfolding if_not_P [OF False] by (intro sim_ret [OF 1(1)]) simp
    next
      case True
      have "sim s2 (sbind (reduce_values em s2 ys BitOr) (\<lambda>nonzero s. smapM (\<lambda>x s. emit_mux em s nonzero x z) zs s))
        (Inr (division_val rem X Y), ()) (vec_is n)"
      proof (rule sim_then [OF sim_nonzero [OF 1(1) ys2 assms(4)] 1(1)], goal_cases)
        case (1 s3 c)
        have "vec_is n s3 zs ?v" using zs 1(4) unfolding vec_is_def by blast
        from sim_mask_zero [OF 1(1) this 1(5) 1(3) [OF z2]] v d0 show ?case by (cases "Y = 0") simp_all
      qed
      with True show ?thesis by simp
    qed
  qed
qed

lemma sim_divide_bits:
  assumes "good s" and "opds s a va" and "opds s b vb" and "fst va \<noteq> []" and "fst vb \<noteq> []" and "0 < ty_width ty"
  defines "X \<equiv> operand_val (extend_bool va (ty_width ty) (ty_signed ty), ty) True"
    and "Y \<equiv> operand_val (extend_bool vb (ty_width ty) (ty_signed ty), ty) True"
  shows "sim s (divide_bits em s a b rem ty) (Inr (division_val rem X Y), ()) (vec_is (ty_width ty))"
proof -
  let ?n = "ty_width ty" and ?sg = "ty_signed ty"
  define vs where "vs = extend_bool va ?n ?sg"
  define ws where "ws = extend_bool vb ?n ?sg"
  have len: "length vs = ?n" "length ws = ?n" by (simp_all add: vs_def ws_def)
  have ne: "vs \<noteq> []" "ws \<noteq> []" using len assms(6) by auto
  have XY: "X = operand_val (vs, ty) True" "Y = operand_val (ws, ty) True" by (simp_all add: X_def Y_def vs_def ws_def)
  have mag: "length (twos_complement_magnitude us ?sg) = length us" "bits_val (twos_complement_magnitude us ?sg) = nat \<bar>operand_val (us, ty) True\<bar>"
    if "us \<noteq> []" for us using magnitude_val [OF that, of ?sg] by (auto simp: operand_val_def split: if_splits)
  define nb where "nb = (if ?sg then Some ((X < 0) \<noteq> (\<not> rem \<and> Y < 0)) else None)"
  have pairs: "sim s (resized_pairs em s a b ?n ?sg) (Inr (zip vs ws), ()) (\<lambda>s. list_all2 (rel_prod (den s) (den s)))"
    using sim_resized_pairs [OF assms(1-3), of ?n ?sg] resized_pairs_bool [OF assms(4,5), of ?n ?sg] by (simp add: vs_def ws_def)
  have pos: "\<not> ?sg \<Longrightarrow> 0 \<le> X \<and> 0 \<le> Y" by (simp add: XY operand_val_def)
  show ?thesis
    unfolding divide_bits_def Let_def
  proof (rule sim_then [OF pairs assms(1)], goal_cases)
    case (1 s1 ps)
    have d1: "dens s1 (map fst ps) vs" "dens s1 (map snd ps) ws"
      using rel_prod_lists [OF 1(5)] len by simp_all
    have dc: "length cs = ?n \<and> bits_val cs = nat \<bar>X\<bar>"
      if "map_option (\<lambda>bits. twos_complement_magnitude bits ?sg) (bool_vector em s1 (map fst ps)) = Some cs" for cs
      using that bool_vector_law [OF 1(1) d1(1)] mag(2) [OF ne(1)] len by (auto simp: XY split: if_splits)
    have vc: "length cs = ?n \<and> bits_val cs = nat \<bar>Y\<bar>"
      if "map_option (\<lambda>bits. twos_complement_magnitude bits ?sg) (bool_vector em s1 (map snd ps)) = Some cs" for cs
      using that bool_vector_law [OF 1(1) d1(2)] mag(2) [OF ne(2)] len by (auto simp: XY split: if_splits)
    show ?case
    proof (rule sim_then [OF sim_zero [OF 1(1)] 1(1)], goal_cases)
      case (1 s2 z)
      note z2 = 1(5)
      show ?case
      proof (rule sim_then [OF sim_divide_signs [OF 1(1) 1(4) [OF d1(1)] 1(4) [OF d1(2)] len assms(6) refl, of rem] 1(1)], goal_cases)
        case (1 s3 p)
        obtain xs ys ng where p: "p = (xs, ys, ng)" by (cases p)
        have "num_is ?n s3 xs (nat \<bar>X\<bar>)" "num_is ?n s3 ys (nat \<bar>Y\<bar>)" "rel_option (den s3) ng nb"
          using 1(5) unfolding p XY nb_def fst_conv snd_conv by blast+
        moreover have "nb = Some ((X < 0) \<noteq> (\<not> rem \<and> Y < 0)) \<or> nb = None \<and> 0 \<le> X \<and> 0 \<le> Y"
          using pos by (simp add: nb_def)
        ultimately show ?case
          unfolding p prod.case
          by (rule_tac sim_divide_tail [OF 1(1) _ _ assms(6) 1(3) [OF z2]]) (assumption | erule dc | erule vc)+
      qed
    qed
  qed
qed

end

end
