(* ===== verification/Arithmetic_Region.thy ===== *)
theory Arithmetic_Region
  imports Multiplier_Correct
begin

text \<open>
  The add-subtract provider of the bit-blaster and the fused arithmetic regions,
  \<^verbatim>\<open>crates/opto-synth/src/boolean/bitblast/arithmetic.rs\<close>: the recipes offered for an operator,
  the recipe each number stands for, and the lowering of a sum of signed values and products into
  one bit matrix, a compressor and a final adder.
\<close>

section \<open>Operators and recipes\<close>

datatype OperatorKind = OpAdd | OpSum | OpSubtract | OpIncrement | OpDecrement | OpMultiply | OpDivide | OpModulo | OpDynamicExtract

text \<open>The fields of \<^verbatim>\<open>SemanticOperator\<close> the providers read.\<close>

record SemanticOperator =
  so_kind :: OperatorKind
  so_width :: nat
  so_constant_input :: "nat option"
  so_term_count :: nat
  so_product_term_count :: nat
  so_variable_product_term_count :: nat

datatype CarryNetwork = CarryRipple | CarryBrentKung | CarryKoggeStone

datatype ProductEncoding = Radix4 | ArrayProduct

record RegionRecipe =
  rr_schedule :: CompressionSchedule
  rr_prefix :: CarryNetwork
  rr_encoding :: ProductEncoding

text \<open>
  The recipe numbers 9 to 36 are the regions: four schedules in the order serial, balanced,
  Wallace, Dadda, each with a ripple and a Brent-Kung adder, once for sums without variable
  products (9 to 16), once for radix-4 products (17 to 24) and once for array products (25 to 32);
  the four Kogge-Stone recipes come last (33 to 36).
\<close>

definition schedule_at :: "nat \<Rightarrow> CompressionSchedule"
  where "schedule_at k = [Serial, Balanced, Wallace, Dadda] ! (k mod 4)"

definition region_recipe :: "nat \<Rightarrow> RegionRecipe option"
  where "region_recipe recipe =
    (if 9 \<le> recipe \<and> recipe \<le> 32 then
       let k = (recipe - 9) mod 8
       in Some \<lparr>rr_schedule = schedule_at (k div 2),
                rr_prefix = (if even k then CarryRipple else CarryBrentKung),
                rr_encoding = (if recipe \<le> 24 then Radix4 else ArrayProduct)\<rparr>
     else if 33 \<le> recipe \<and> recipe \<le> 36 then
       Some \<lparr>rr_schedule = schedule_at (recipe - 33), rr_prefix = CarryKoggeStone, rr_encoding = Radix4\<rparr>
     else None)"

text \<open>The recipes offered for an operator, in the order they are offered.\<close>

definition add_sub_recipes :: "SemanticOperator \<Rightarrow> nat list"
  where "add_sub_recipes operator =
    (case so_kind operator of
       OpIncrement \<Rightarrow> [5]
     | OpDecrement \<Rightarrow> [6]
     | OpSum \<Rightarrow>
         (if so_variable_product_term_count operator = 0
          then map snd (filter (\<lambda>(index, _). index < 8 \<and> even index \<or> so_width operator \<ge> 2)
                 (enumerate 0 ([9..<17] @ [33..<37])))
          else map snd (filter (\<lambda>(index, _). index < 8 \<and> even index \<or> so_width operator \<ge> 2) (enumerate 0 [17..<25])) @
               map snd (filter (\<lambda>(index, _). even index \<or> so_width operator \<ge> 2) (enumerate 0 [25..<33])))
     | kind \<Rightarrow>
         (if kind = OpAdd \<or> kind = OpSubtract then
            if so_constant_input operator \<noteq> None
            then 7 # (if so_width operator \<ge> 2 then [8] else [])
            else 0 # (if so_width operator \<ge> 2 then [1] else []) @ (if so_width operator \<ge> 3 then [2] else []) @
                 (if so_width operator \<ge> 4 then [3] else []) @ (if so_width operator \<ge> 5 then [4] else [])
          else []))"

section \<open>Terms of a region\<close>

datatype ArithmeticTerm =
    TermValue ValueId WordType bool
  | TermProduct "ValueId \<times> ValueId" "WordType \<times> WordType" WordType bool "nat option"

text \<open>The values of a regional module are looked up through the map of its dependency cone.\<close>

definition local_source_value :: "(ValueId \<rightharpoonup> ValueId) option \<Rightarrow> ValueId \<Rightarrow> SynthError + ValueId"
  where "local_source_value source_values v =
    (case source_values of
       Some values \<Rightarrow>
         (case values v of
            Some x \<Rightarrow> Inr x
          | None \<Rightarrow> Inl (Invariant ''regional provider input is absent from its local dependency cone''))
     | None \<Rightarrow> Inr v)"

definition local_arithmetic_term :: "(ValueId \<rightharpoonup> ValueId) option \<Rightarrow> ArithmeticTerm \<Rightarrow> SynthError + ArithmeticTerm"
  where "local_arithmetic_term source_values arith =
    (case arith of
       TermValue v ty negative \<Rightarrow>
         rbind (local_source_value source_values v) (\<lambda>v. Inr (TermValue v ty negative))
     | TermProduct (left, right) input_types ty negative constant_input \<Rightarrow>
         rbind (local_source_value source_values left) (\<lambda>left.
         rbind (local_source_value source_values right) (\<lambda>right.
           Inr (TermProduct (left, right) input_types ty negative constant_input))))"

text \<open>Indexing an array of two elements.\<close>

definition pair_get :: "'x \<times> 'x \<Rightarrow> nat \<Rightarrow> 's \<Rightarrow> ('s, SynthError, 'x) outcome"
  where "pair_get p index s = vget [fst p, snd p] index s"

section \<open>Products with a constant\<close>

record ConstantProductGroup =
  cg_multiplicand :: ValueId
  cg_multiplicand_ty :: WordType
  cg_coefficient :: "bool list"

fun modular_coefficient_loop :: "bool \<Rightarrow> bool \<Rightarrow> bool list \<Rightarrow> bool list \<Rightarrow> bool list"
  where
    "modular_coefficient_loop negative carry (a # accumulator) (b # operand) =
      (let b = (b \<noteq> negative)
       in ((a \<noteq> b) \<noteq> carry) # modular_coefficient_loop negative (a \<and> b \<or> carry \<and> (a \<or> b)) accumulator operand)"
  | "modular_coefficient_loop negative carry accumulator _ = accumulator"

definition add_modular_coefficient :: "bool list \<Rightarrow> bool list \<Rightarrow> bool \<Rightarrow> bool list"
  where "add_modular_coefficient accumulator operand negative =
    modular_coefficient_loop negative negative accumulator operand"

text \<open>
  The coefficient goes to the first group with the same multiplicand, or starts a new group.
\<close>

fun merge_group ::
  "nat \<Rightarrow> ValueId \<Rightarrow> WordType \<Rightarrow> bool list \<Rightarrow> bool \<Rightarrow> ConstantProductGroup list \<Rightarrow> ConstantProductGroup list"
  where
    "merge_group width multiplicand ty coefficient negative [] =
      [\<lparr>cg_multiplicand = multiplicand, cg_multiplicand_ty = ty,
        cg_coefficient = add_modular_coefficient (replicate width False) coefficient negative\<rparr>]"
  | "merge_group width multiplicand ty coefficient negative (g # gs) =
      (if cg_multiplicand g = multiplicand \<and> cg_multiplicand_ty g = ty
       then g\<lparr>cg_coefficient := add_modular_coefficient (cg_coefficient g) coefficient negative\<rparr> # gs
       else g # merge_group width multiplicand ty coefficient negative gs)"

definition coefficient_bits ::
  "('s, 'a) bit_ops \<Rightarrow> 'a operand \<Rightarrow> nat \<Rightarrow> 's \<Rightarrow> ('s, SynthError, bool list) outcome"
  where "coefficient_bits em const width s =
    smapM (\<lambda>index s.
      sbind (resized_bit em s const index (ty_signed (snd const))) (\<lambda>x s.
        case b_known em s x of
          Some b \<Rightarrow> (Inr b, s)
        | None \<Rightarrow> (Inl (Invariant ''constant arithmetic product contains an undefined bit''), s))) [0..<width] s"

section \<open>The rows of the terms\<close>

definition append_product_rows ::
  "('s, 'a) bit_ops \<Rightarrow> (ValueId \<Rightarrow> SynthError + 'a list) \<Rightarrow> 's \<Rightarrow> 'a BitMatrix \<Rightarrow> ArithmeticTerm \<Rightarrow> ProductEncoding \<Rightarrow> WordType
    \<Rightarrow> ('s, SynthError, 'a BitMatrix) outcome"
  where "append_product_rows em spans s matrix arith encoding result_ty =
    (case arith of
       TermValue _ _ _ \<Rightarrow> (Inl (Invariant ''product-row lowering received a scalar arithmetic term''), s)
     | TermProduct (left, right) (left_ty, right_ty) _ negative constant_input \<Rightarrow>
         sbind (lift_result (spans left) s) (\<lambda>l s.
         sbind (lift_result (spans right) s) (\<lambda>r s.
         sbind (if constant_input \<noteq> None then constant_product_matrix em s (l, left_ty) (r, right_ty) result_ty
                else case encoding of
                    Radix4 \<Rightarrow> radix4_product_matrix em s (l, left_ty) (r, right_ty) result_ty
                  | ArrayProduct \<Rightarrow> array_product_matrix em s (l, left_ty) (r, right_ty) result_ty) (\<lambda>product s.
           append_matrix em s matrix product negative))))"

text \<open>A scalar term is one row, or only a correction when all its bits are constants.\<close>

definition append_value_row ::
  "('s, 'a) bit_ops \<Rightarrow> 's \<Rightarrow> 'a BitMatrix \<Rightarrow> 'a operand \<Rightarrow> bool \<Rightarrow> WordType \<Rightarrow> ('s, SynthError, 'a BitMatrix) outcome"
  where "append_value_row em s matrix operand negative result_ty =
    sbind (resized_bits em s operand (ty_width result_ty) True) (\<lambda>row s.
      case bool_vector em s row of
        Some bits \<Rightarrow> (Inr (merge_correction bits negative matrix), s)
      | None \<Rightarrow> append_signed_row em s matrix (map Some row) negative)"

definition region_term ::
  "('s, 'a) bit_ops \<Rightarrow> (ValueId \<rightharpoonup> ValueId) option \<Rightarrow> (ValueId \<Rightarrow> SynthError + 'a list) \<Rightarrow> ProductEncoding \<Rightarrow> WordType
    \<Rightarrow> ArithmeticTerm \<Rightarrow> 'a BitMatrix \<times> ConstantProductGroup list \<Rightarrow> 's
    \<Rightarrow> ('s, SynthError, 'a BitMatrix \<times> ConstantProductGroup list) outcome"
  where "region_term em source_values spans encoding result_ty arith acc s =
    (let (matrix, groups) = acc
     in sbind (lift_result (local_arithmetic_term source_values arith) s) (\<lambda>arith s.
        case arith of
          TermValue v ty negative \<Rightarrow>
            sbind (lift_result (spans v) s) (\<lambda>span s.
              smap (\<lambda>matrix. (matrix, groups)) (append_value_row em s matrix (span, ty) negative result_ty))
        | TermProduct inputs input_types _ negative constant_input \<Rightarrow>
            (case constant_input of
               None \<Rightarrow> smap (\<lambda>matrix. (matrix, groups)) (append_product_rows em spans s matrix arith encoding result_ty)
             | Some index \<Rightarrow>
                 if index > 1 then (Inl (Panic ''attempt to subtract with overflow''), s)
                 else
                   sbind (pair_get inputs index s) (\<lambda>const s.
                   sbind (lift_result (spans const) s) (\<lambda>span s.
                   sbind (pair_get input_types index s) (\<lambda>const_ty s.
                   sbind (coefficient_bits em (span, const_ty) (ty_width result_ty) s) (\<lambda>coefficient s.
                   sbind (pair_get inputs (1 - index) s) (\<lambda>multiplicand s.
                   sbind (pair_get input_types (1 - index) s) (\<lambda>multiplicand_ty s.
                     (Inr (matrix, merge_group (ty_width result_ty) multiplicand multiplicand_ty coefficient negative groups), s))))))))))"

definition append_group ::
  "('s, 'a) bit_ops \<Rightarrow> (ValueId \<Rightarrow> SynthError + 'a list) \<Rightarrow> WordType \<Rightarrow> ConstantProductGroup \<Rightarrow> 'a BitMatrix \<Rightarrow> 's
    \<Rightarrow> ('s, SynthError, 'a BitMatrix) outcome"
  where "append_group em spans result_ty grp matrix s =
    sbind (lift_result (spans (cg_multiplicand grp)) s) (\<lambda>span s.
      append_constant_coefficient_rows em s matrix (span, cg_multiplicand_ty grp) (cg_coefficient grp) result_ty)"

section \<open>The lowering of a region\<close>

definition final_adder ::
  "('s, 'a) bit_ops \<Rightarrow> CarryNetwork \<Rightarrow> 's \<Rightarrow> 'a list \<Rightarrow> 'a list \<Rightarrow> 'a \<Rightarrow> ('s, SynthError, 'a list) outcome"
  where "final_adder em prefix s left right carry =
    (case prefix of
       CarryBrentKung \<Rightarrow> brent_kung_add_vectors em s left right carry
     | CarryKoggeStone \<Rightarrow> kogge_stone_add_vectors em s left right carry
     | CarryRipple \<Rightarrow> add_vectors em s left right carry)"

text \<open>The last part of a region: an early single-bit row becomes the carry-in of the adder.\<close>

definition finish_region ::
  "('s, 'a) bit_ops \<Rightarrow> RegionRecipe \<Rightarrow> 'a \<Rightarrow> 'a \<Rightarrow> 'a BitMatrix \<Rightarrow> 's \<Rightarrow> ('s, SynthError, 'a list) outcome"
  where "finish_region em recipe zero one matrix s =
    (let (carry, matrix) = take_carry_input matrix (\<lambda>x. b_known em s x = Some False) (b_level em s)
     in sbind (reduce_matrix em s matrix (rr_schedule recipe) zero one) (\<lambda>(left, right) s.
          final_adder em (rr_prefix recipe) s left right (case carry of Some c \<Rightarrow> c | None \<Rightarrow> zero)))"

definition arithmetic_region_bits ::
  "('s, 'a) bit_ops \<Rightarrow> (ValueId \<rightharpoonup> ValueId) option \<Rightarrow> (ValueId \<Rightarrow> SynthError + 'a list) \<Rightarrow> 's
    \<Rightarrow> SemanticOperator \<Rightarrow> ArithmeticTerm list \<Rightarrow> RegionRecipe \<Rightarrow> WordType \<Rightarrow> ('s, SynthError, 'a list) outcome"
  where "arithmetic_region_bits em source_values spans s operator terms recipe result_ty =
    (if length terms < 2 \<or> (length terms < 3 \<and> so_product_term_count operator = 0) \<or> length terms \<noteq> so_term_count operator
     then (Inl (Invariant ''arithmetic-region operator has an invalid term row''), s)
     else
       sbind (emit_constant em s BitZero (ty_state result_ty)) (\<lambda>zero s.
       sbind (emit_constant em s BitOne (ty_state result_ty)) (\<lambda>one s.
       sbind (sfoldM (region_term em source_values spans (rr_encoding recipe) result_ty) terms
           (BitMatrix_new (ty_width result_ty), []) s) (\<lambda>(matrix, groups) s.
       sbind (sfoldM (append_group em spans result_ty) groups matrix s) (\<lambda>matrix s.
         finish_region em recipe zero one matrix s)))))"

section \<open>The add-subtract provider\<close>

text \<open>\<^verbatim>\<open>u32::isqrt\<close>: the integer square root, digit by digit in base four.\<close>

fun isqrt :: "nat \<Rightarrow> nat"
  where "isqrt n = (if n = 0 then 0 else let r = 2 * isqrt (n div 4) in if Suc r * Suc r \<le> n then Suc r else r)"

declare isqrt.simps [simp del]

definition add_sub_lower ::
  "('s, 'a) bit_ops \<Rightarrow> (ValueId \<rightharpoonup> ValueId) option \<Rightarrow> (ValueId \<Rightarrow> SynthError + 'a list) \<Rightarrow> nat \<Rightarrow> 's
    \<Rightarrow> SemanticOperator \<Rightarrow> ArithmeticTerm list \<Rightarrow> 'a operand \<Rightarrow> 'a operand \<Rightarrow> WordType \<Rightarrow> ('s, SynthError, 'a list) outcome"
  where "add_sub_lower em source_values spans recipe s operator terms left right result_ty =
    (let subtract = (so_kind operator = OpSubtract)
     in case region_recipe recipe of
          Some region \<Rightarrow> arithmetic_region_bits em source_values spans s operator terms region result_ty
        | None \<Rightarrow>
            if recipe = 0 then ripple_add_sub_bits em s left right subtract result_ty
            else if recipe = 1 then brent_kung_add_sub_bits em s left right subtract result_ty
            else if recipe = 2 then kogge_stone_add_sub_bits em s left right subtract result_ty
            else if recipe = 3 then
              hybrid_brent_kung_add_sub_bits em s left right subtract result_ty (max (isqrt (ty_width result_ty)) 2)
            else if recipe = 4 then
              (if 2 ^ 32 \<le> isqrt (ty_width result_ty) + 1
               then (Inl (Invariant ''hybrid adder block width overflow''), s)
               else hybrid_brent_kung_add_sub_bits em s left right subtract result_ty (isqrt (ty_width result_ty) + 1))
            else if recipe = 5 then constant_add_sub_bits em s left right False False result_ty
            else if recipe = 6 then constant_add_sub_bits em s left right True False result_ty
            else if recipe = 7 then constant_add_sub_bits em s left right subtract False result_ty
            else if recipe = 8 then constant_add_sub_bits em s left right subtract True result_ty
            else (Inl (Invariant ''resource add-sub has no such recipe''), s))"

end
