(* ===== verification/Result_Shape.thy ===== *)
theory Result_Shape
  imports Arithmetic_Region Division
begin

text \<open>
  What the lowering algorithms return whatever backend they run on: the number of rows of a
  matrix, the number of bits of a result. A small logic of results carries these proofs, in which
  the emission calls are opaque.
\<close>

definition yields :: "('s, 'e, 'x) outcome \<Rightarrow> ('x \<Rightarrow> bool) \<Rightarrow> bool"
  where "yields m P \<longleftrightarrow> (\<forall>x s. m = (Inr x, s) \<longrightarrow> P x)"

lemma yieldsD: "yields m P \<Longrightarrow> m = (Inr x, s) \<Longrightarrow> P x"
  by (auto simp: yields_def)

lemma yields_ret [simp]: "yields (Inr x, s) P \<longleftrightarrow> P x"
  by (simp add: yields_def)

lemma yields_err [simp]: "yields (Inl e, s) P"
  by (simp add: yields_def)

lemma yields_mono: "yields m P \<Longrightarrow> (\<And>x. P x \<Longrightarrow> Q x) \<Longrightarrow> yields m Q"
  by (auto simp: yields_def)

lemma yields_bind: "(\<And>x s. m = (Inr x, s) \<Longrightarrow> yields (f x s) P) \<Longrightarrow> yields (sbind m f) P"
  by (auto simp: yields_def sbind_def split: prod.splits sum.splits)

lemma yields_next: "yields m Q \<Longrightarrow> (\<And>x s. Q x \<Longrightarrow> yields (f x s) P) \<Longrightarrow> yields (sbind m f) P"
  by (rule yields_bind) (auto simp: yields_def)

lemma yields_smap [simp]: "yields (smap f m) P \<longleftrightarrow> yields m (\<lambda>x. P (f x))"
  by (auto simp: yields_def smap_def split: prod.splits sum.splits)

lemma yields_if: "(c \<Longrightarrow> yields m P) \<Longrightarrow> (\<not> c \<Longrightarrow> yields m' P) \<Longrightarrow> yields (if c then m else m') P"
  by simp

lemma yields_smapM: "yields (smapM f xs s) (\<lambda>ys. length ys = length xs)"
proof (induction xs arbitrary: s)
  case (Cons x xs)
  show ?case by (simp, rule yields_bind) (simp add: Cons)
qed simp

lemma yields_foldM:
  assumes "P a" and "\<And>x a s. P a \<Longrightarrow> yields (f x a s) P"
  shows "yields (sfoldM f xs a s) P"
  using assms(1)
proof (induction xs arbitrary: a s)
  case (Cons x xs)
  show ?case by (simp, rule yields_next [OF assms(2) [OF Cons.prems]]) (rule Cons.IH)
qed simp

lemma yields_sum:
  fixes r :: "'x \<Rightarrow> nat"
  assumes "\<And>x a s. yields (f x a s) (\<lambda>b. r b \<le> r a + w x)"
  shows "yields (sfoldM f xs a s) (\<lambda>b. r b \<le> r a + sum_list (map w xs))"
proof (induction xs arbitrary: a s)
  case (Cons x xs)
  have "yields (sfoldM f xs b s') (\<lambda>c. r c \<le> r a + (w x + sum_list (map w xs)))" if "r b \<le> r a + w x" for b s'
    using Cons [of b s'] by (rule yields_mono) (use that in simp)
  then show ?case by (simp, intro yields_next [OF assms])
qed simp

lemma yields_count:
  fixes r :: "'x \<Rightarrow> nat"
  assumes "\<And>x a s. yields (f x a s) (\<lambda>b. r b \<le> r a + k)"
  shows "yields (sfoldM f xs a s) (\<lambda>b. r b \<le> r a + k * length xs)"
  using yields_sum [of f r "\<lambda>_. k", OF assms] by (simp add: sum_list_triv mult.commute)

section \<open>Rows of a matrix\<close>

abbreviation row_count :: "'a BitMatrix \<Rightarrow> nat"
  where "row_count m \<equiv> length (mx_rows m)"

lemma push_row_count: "row_count (push_row row m) \<le> Suc (row_count m)"
  by (simp add: push_row_def)

lemma push_pair_count: "mx_rows (snd x) = mx_rows m \<Longrightarrow> row_count (case x of (row, t) \<Rightarrow> push_row row t) \<le> row_count m + 1"
  using push_row_count [of "fst x" "snd x"] by (cases x) simp

lemma add_correction_power_rows [simp]: "mx_rows (add_correction_power k negative m) = mx_rows m"
  by (simp add: add_correction_power_def)

lemma merge_correction_rows [simp]: "mx_rows (merge_correction bs negative m) = mx_rows m"
proof -
  have "mx_rows (fold (\<lambda>(column, bit_set) m. if bit_set then add_correction_power column negative m else m) xs m) = mx_rows m" for xs
    by (induction xs arbitrary: m) auto
  then show ?thesis by (simp add: merge_correction_def)
qed

lemma append_matrix_rows: "yields (append_matrix em s t m negative) (\<lambda>r. row_count r \<le> row_count t + row_count m)"
proof -
  have bit: "yields (negated_bit em x acc s) (\<lambda>b. mx_rows (snd b) = mx_rows m)" if "mx_rows (snd acc) = mx_rows m" for x acc s m
    using that by (cases x; cases acc; cases "snd x") (auto simp: negated_bit_def intro!: yields_bind)
  have row: "yields (negated_row em row m s) (\<lambda>r. row_count r \<le> row_count m + 1)" for row m s
    unfolding negated_row_def yields_smap
    by (rule yields_mono [OF yields_foldM [where P = "\<lambda>b. mx_rows (snd b) = mx_rows m"]], simp, erule bit, erule push_pair_count)
  have "yields (sfoldM (negated_row em) (mx_rows m) t s) (\<lambda>r. row_count r \<le> row_count t + 1 * row_count m)"
    by (rule yields_count) (rule row)
  then show ?thesis by (auto simp: append_matrix_def)
qed

lemma append_signed_row_rows: "yields (append_signed_row em s m row negative) (\<lambda>r. row_count r \<le> row_count m + 1)"
proof -
  have "row_count (push_row row (BitMatrix_new (mx_width m))) \<le> 1"
    using push_row_count [of row "BitMatrix_new (mx_width m)"] by (simp add: BitMatrix_new_def)
  then show ?thesis
    unfolding append_signed_row_def by (intro yields_mono [OF append_matrix_rows]) simp
qed

lemma nonadjacent_count: "length (nonadjacent_from k c bs) \<le> Suc (length bs)"
  by (induction bs arbitrary: k c) (auto split: prod.splits bool.splits intro: le_SucI)

lemma coefficient_rows: "yields (constant_coefficient_matrix em s xs cs n) (\<lambda>r. row_count r \<le> Suc (length cs))"
proof -
  have step: "yields (coefficient_step em xs n d m s) (\<lambda>r. row_count r \<le> row_count m + 1)" for d m s
    using append_signed_row_rows [of em s m] by (cases d) (auto simp: coefficient_step_def)
  show ?thesis
    unfolding constant_coefficient_matrix_def nonadjacent_digits_def
    by (rule yields_mono [OF yields_count [OF step]])
      (use nonadjacent_count [of 0 False cs] in \<open>simp add: BitMatrix_new_def\<close>)
qed

lemma append_constant_coefficient_rows_rows:
  "yields (append_constant_coefficient_rows em s m a cs ty) (\<lambda>r. row_count r \<le> row_count m + Suc (length cs))"
  unfolding append_constant_coefficient_rows_def
  by (rule yields_bind, rule yields_next [OF coefficient_rows], rule yields_mono [OF append_matrix_rows]) simp

lemma append_booth_row_rows:
  fixes m :: "'a BitMatrix"
  shows "yields (append_booth_row em s m xs digit) (\<lambda>r. row_count r \<le> row_count m + 2)"
proof -
  have bit: "yields (booth_bit em xs digit one two k x acc s) (\<lambda>b. mx_rows (snd b) = mx_rows m)"
    if "mx_rows (snd acc) = mx_rows m" for one two k x acc s
    using that by (cases acc) (auto simp: booth_bit_def intro!: yields_bind)
  have two: "row_count (push_row row' (push_row row m')) \<le> Suc (Suc (row_count m'))" for row row' and m' :: "'a BitMatrix"
    using push_row_count [of row' "push_row row m'"] push_row_count [of row m'] by simp
  have fold: "yields (sbind (sfoldM (booth_bit em xs digit one two k) js (row0, m) s') (\<lambda>(row, matrix) s.
      (Inr (if c then push_row (row1 row) (push_row row matrix) else push_row row matrix), s))) (\<lambda>r. row_count r \<le> row_count m + 2)"
    for one two k js row0 s' row1 c
  proof (rule yields_next [OF yields_foldM [where P = "\<lambda>b. mx_rows (snd b) = mx_rows m"]], goal_cases)
    case (3 p s')
    then show ?case using two [of "row1 (fst p)" "fst p" "snd p"] push_row_count [of "fst p" "snd p"] by (cases p) simp
  qed (simp, erule bit)
  show ?thesis
    unfolding append_booth_row_def Let_def
    by (rule yields_bind, rule yields_bind, rule yields_bind, rule yields_bind, rule yields_if, rule yields_err, rule fold)
qed

lemma booth_groups_rows:
  "yields (booth_groups em xs ys sg n mw z gs m s) (\<lambda>r. row_count r \<le> row_count m + 2 * length gs)"
proof (induction gs arbitrary: m s)
  case (Cons g gs)
  have "yields (booth_groups em xs ys sg n mw z gs b s') (\<lambda>r. row_count r \<le> row_count m + 2 * length (g # gs))"
    if "row_count b \<le> row_count m + 2" for b s'
    using Cons [of b s'] by (rule yields_mono) (use that in simp)
  then show ?case
    unfolding booth_groups.simps Let_def
    by (intro yields_if yields_err yields_next [OF append_booth_row_rows]) simp_all
qed simp

lemma radix4_rows: "yields (radix4_product_matrix em s a b ty) (\<lambda>r. row_count r \<le> ty_width ty + 2)"
proof -
  have half: "2 * ((x + 1) div 2) \<le> y + 2" if "x \<le> y + 1" for x y :: nat using that by linarith
  have "2 * booth_group_count t n \<le> n + 2" for t n
    unfolding booth_group_count_def Let_def by (auto intro!: half simp: sat_add_def le_SucI simp del: add_2_eq_Suc')
  then have "yields (booth_groups em xs ys sg n mw z [0..<booth_group_count t n] (BitMatrix_new n) s') (\<lambda>r. row_count r \<le> n + 2)"
    for xs ys sg n mw z t s'
    by (intro yields_mono [OF booth_groups_rows]) (simp add: BitMatrix_new_def order_trans)
  then show ?thesis
    unfolding radix4_product_matrix_def Let_def by (auto intro!: yields_bind split: prod.splits)
qed

lemma array_rows: "yields (array_product_matrix em s a b ty) (\<lambda>r. row_count r \<le> ty_width ty)"
proof -
  have bit: "yields (array_term em n ls ll rb rt j x acc s) (\<lambda>b. mx_rows (snd b) = mx_rows m)"
    if "mx_rows (snd acc) = mx_rows m" for n ls ll rb rt j x acc s m
    using that by (cases acc; cases x) (auto simp: array_term_def Let_def intro!: yields_bind)
  have row: "yields (array_row em n ls rs lefts rl x m s) (\<lambda>r. row_count r \<le> row_count m + 1)" for n ls rs lefts rl x m s
    unfolding array_row_def Let_def
    by (cases x, simp only: prod.case yields_smap, rule yields_mono [OF yields_foldM [where P = "\<lambda>b. mx_rows (snd b) = mx_rows m"]], simp, erule bit, erule push_pair_count)
  have len: "yields (unsigned_bits em xs k s) (\<lambda>ys. length ys = k)" for xs k s
    unfolding unsigned_bits_def by (rule yields_mono [OF yields_smapM]) simp
  show ?thesis
    unfolding array_product_matrix_def Let_def
    by (rule yields_bind, rule yields_next [OF len], rule yields_mono [OF yields_count [OF row]])
      (auto simp: BitMatrix_new_def)
qed

lemma merge_group_count: "length (merge_group n v ty cs negative gs) \<le> Suc (length gs)"
  by (induction gs) auto

text \<open>
  A term of a region adds at most two rows more than the width, counting the rows its group of
  constant products will need.
\<close>

definition region_rows :: "nat \<Rightarrow> 'a BitMatrix \<times> ConstantProductGroup list \<Rightarrow> nat"
  where "region_rows n acc = row_count (fst acc) + (n + 2) * length (snd acc)"

lemma region_term_rows:
  "yields (region_term em source_values spans encoding ty t acc s)
    (\<lambda>b. region_rows (ty_width ty) b \<le> region_rows (ty_width ty) acc + (ty_width ty + 2))"
proof -
  let ?n = "ty_width ty"
  obtain m gs where acc: "acc = (m, gs)" by (cases acc)
  define B where "B = region_rows ?n acc + (?n + 2)"
  have le: "region_rows ?n (m', gs) \<le> B" if "row_count m' \<le> row_count m + (?n + 2)" for m'
    using that by (simp add: region_rows_def acc B_def)
  have v: "yields (append_value_row em s' m a negative ty) (\<lambda>m'. region_rows ?n (m', gs) \<le> B)" for s' a negative
    unfolding append_value_row_def
    by (rule yields_bind) (auto split: option.split intro!: le yields_mono [OF append_signed_row_rows])
  have p: "yields (append_product_rows em spans s' m (TermProduct inputs types x negative None) encoding ty)
      (\<lambda>m'. region_rows ?n (m', gs) \<le> B)" for s' inputs types x negative
  proof -
    have prod: "yields (case encoding of Radix4 \<Rightarrow> radix4_product_matrix em s' a b ty | ArrayProduct \<Rightarrow> array_product_matrix em s' a b ty)
      (\<lambda>r. row_count r \<le> ?n + 2)" for s' a b
      using radix4_rows [of em s' a b ty] yields_mono [OF array_rows [of em s' a b ty], of "\<lambda>r. row_count r \<le> ?n + 2"]
      by (cases encoding) simp_all
    have app: "yields (append_matrix em s'' m r negative) (\<lambda>m'. region_rows ?n (m', gs) \<le> B)" if "row_count r \<le> ?n + 2" for r s''
      by (rule yields_mono [OF append_matrix_rows]) (rule le, use that in simp)
    obtain l r lt rt where eq: "inputs = (l, r)" "types = (lt, rt)" by (cases inputs; cases types)
    show ?thesis
      unfolding append_product_rows_def eq ArithmeticTerm.case prod.case
      by (rule yields_bind, rule yields_bind) (simp, rule yields_next [OF prod app])
  qed
  have g: "region_rows ?n (m, merge_group ?n x xt cs negative gs) \<le> B" for x xt cs negative
    using mult_le_mono2 [OF merge_group_count [of ?n x xt cs negative gs], of "?n + 2"] by (simp add: region_rows_def acc B_def)
  show ?thesis
    unfolding region_term_def Let_def B_def [symmetric] unfolding acc prod.case
    by (rule yields_bind)
      (auto simp: v p g split: ArithmeticTerm.split option.split intro!: yields_bind)
qed

lemma region_terms_rows:
  "yields (sfoldM (region_term em source_values spans encoding ty) terms acc s)
    (\<lambda>b. region_rows (ty_width ty) b \<le> region_rows (ty_width ty) acc + (ty_width ty + 2) * length terms)"
  by (rule yields_count) (rule region_term_rows)

lemma append_groups_rows:
  assumes "list_all (\<lambda>g. length (cg_coefficient g) = n) gs"
  shows "yields (sfoldM (append_group em spans ty) gs m s) (\<lambda>r. row_count r \<le> region_rows n (m, gs))"
proof -
  have g: "yields (append_group em spans ty g m s) (\<lambda>r. row_count r \<le> row_count m + Suc (length (cg_coefficient g)))" for g m s
    unfolding append_group_def by (rule yields_bind) (rule append_constant_coefficient_rows_rows)
  have "sum_list (map (\<lambda>g. Suc (length (cg_coefficient g))) gs) \<le> (n + 2) * length gs"
    using assms by (induction gs) auto
  then show ?thesis
    by (intro yields_mono [OF yields_sum [where r = row_count and w = "\<lambda>g. Suc (length (cg_coefficient g))"]] g)
      (simp add: region_rows_def)
qed

end
