(* ===== verification/Arithmetic_Region_Correct.thy ===== *)
theory Arithmetic_Region_Correct
  imports Arithmetic_Region Result_Shape
begin

text \<open>
  A region computes the sum of its signed terms: the rows of the values, the rows of the variable
  products, the collected constant products, the carry-in taken out of the matrix, the compressor
  and the final adder preserve the sum modulo the width of the result.
\<close>

section \<open>Collected coefficients\<close>

lemma modular_coefficient_sum:
  "length a = length b \<Longrightarrow> modular_coefficient_loop negative c a b = sum_bits a (map (\<lambda>x. x \<noteq> negative) b) c"
proof (induction a b arbitrary: c rule: list_induct2)
  case (Cons x xs y ys)
  have "(x \<and> (y \<noteq> negative) \<or> c \<and> (x \<or> (y \<noteq> negative))) = ((x \<and> (y \<noteq> negative)) \<or> ((x \<noteq> (y \<noteq> negative)) \<and> c))" by blast
  with Cons show ?case by (simp add: sum_bits_Cons Let_def)
qed simp

lemma add_modular_coefficient_val:
  assumes "length a = length b"
  shows "length (add_modular_coefficient a b negative) = length a"
    and "eqm (length a) (int (bits_val (add_modular_coefficient a b negative)))
      (int (bits_val a) + unit_of negative * int (bits_val b))"
proof -
  let ?b = "map (\<lambda>x. x \<noteq> negative) b"
  have s: "add_modular_coefficient a b negative = sum_bits a ?b negative"
    by (simp add: add_modular_coefficient_def modular_coefficient_sum [OF assms])
  then show "length (add_modular_coefficient a b negative) = length a" by simp
  have "eqm (length a) (int (bits_val ?b) + of_bool negative) (unit_of negative * int (bits_val b))"
  proof (cases negative)
    case True
    have "?b = map Not b" using True by simp
    with bits_val_not_eqm [of b] True assms show ?thesis by (auto simp: unit_of_def eqm_dvd algebra_simps)
  next
    case False
    then show ?thesis by (simp add: unit_of_def map_idI)
  qed
  moreover have "eqm (length a) (int (bits_val (sum_bits a ?b negative))) (int (bits_val a) + (int (bits_val ?b) + of_bool negative))"
    using sum_bits_val [of a ?b negative] assms by (simp add: eqm_def zmod_int add.assoc)
  ultimately show "eqm (length a) (int (bits_val (add_modular_coefficient a b negative)))
      (int (bits_val a) + unit_of negative * int (bits_val b))"
    unfolding s using eqm_trans eqm_add [OF eqm_refl] by blast
qed

text \<open>
  The number a list of groups stands for, when \<open>num\<close> gives the number of a value read at a type.
\<close>

definition groups_val :: "(ValueId \<Rightarrow> WordType \<Rightarrow> int) \<Rightarrow> ConstantProductGroup list \<Rightarrow> int"
  where "groups_val num gs = sum_list (map (\<lambda>g. int (bits_val (cg_coefficient g)) * num (cg_multiplicand g) (cg_multiplicand_ty g)) gs)"

lemma groups_val_simps [simp]:
  "groups_val num [] = 0"
  "groups_val num (g # gs) = int (bits_val (cg_coefficient g)) * num (cg_multiplicand g) (cg_multiplicand_ty g) + groups_val num gs"
  by (simp_all add: groups_val_def)

lemma merge_group_val:
  assumes "list_all (\<lambda>g. length (cg_coefficient g) = n) gs" and "length cs = n"
  shows "eqm n (groups_val num (merge_group n v ty cs negative gs)) (groups_val num gs + unit_of negative * int (bits_val cs) * num v ty)"
    and "list_all (\<lambda>g. length (cg_coefficient g) = n) (merge_group n v ty cs negative gs)"
    and "length (merge_group n v ty cs negative gs) \<le> Suc (length gs)"
    and "set (map (\<lambda>g. (cg_multiplicand g, cg_multiplicand_ty g)) (merge_group n v ty cs negative gs)) \<subseteq>
      insert (v, ty) (set (map (\<lambda>g. (cg_multiplicand g, cg_multiplicand_ty g)) gs))"
proof -
  have new: "eqm n (int (bits_val (add_modular_coefficient as cs negative)) * x) (int (bits_val as) * x + unit_of negative * int (bits_val cs) * x)"
    if "length as = n" for as x
    using eqm_mult [OF add_modular_coefficient_val(2) [of as cs negative] eqm_refl, of x] that assms(2)
    by (simp add: distrib_right)
  show "eqm n (groups_val num (merge_group n v ty cs negative gs)) (groups_val num gs + unit_of negative * int (bits_val cs) * num v ty)"
    using assms(1)
  proof (induction gs)
    case Nil
    then show ?case using new [of "replicate n False" "num v ty"] by simp
  next
    case (Cons g gs)
    show ?case
    proof (cases "cg_multiplicand g = v \<and> cg_multiplicand_ty g = ty")
      case True
      have "length (cg_coefficient g) = n" using Cons.prems by simp
      from eqm_add [OF new [OF this] eqm_refl, of "num v ty" "groups_val num gs"] True show ?thesis by (simp add: ac_simps)
    next
      case False
      with eqm_add [OF eqm_refl Cons.IH] Cons.prems show ?thesis by (auto simp: add.assoc)
    qed
  qed
  show "list_all (\<lambda>g. length (cg_coefficient g) = n) (merge_group n v ty cs negative gs)"
    using assms by (induction gs) (auto simp: add_modular_coefficient_val(1))
  show "length (merge_group n v ty cs negative gs) \<le> Suc (length gs)" by (induction gs) auto
  show "set (map (\<lambda>g. (cg_multiplicand g, cg_multiplicand_ty g)) (merge_group n v ty cs negative gs)) \<subseteq>
      insert (v, ty) (set (map (\<lambda>g. (cg_multiplicand g, cg_multiplicand_ty g)) gs))"
    by (induction gs) auto
qed

text \<open>The sum a region stands for, over its terms once their values are local.\<close>

fun term_val :: "(ValueId \<Rightarrow> WordType \<Rightarrow> int) \<Rightarrow> ArithmeticTerm \<Rightarrow> int"
  where
    "term_val num (TermValue v ty negative) = unit_of negative * num v ty"
  | "term_val num (TermProduct (left, right) (left_ty, right_ty) ty negative constant_input) =
      unit_of negative * (num left left_ty * num right right_ty)"

definition region_val :: "(ValueId \<rightharpoonup> ValueId) option \<Rightarrow> (ValueId \<Rightarrow> WordType \<Rightarrow> int) \<Rightarrow> ArithmeticTerm list \<Rightarrow> int"
  where "region_val source_values num terms =
    sum_list (map (\<lambda>t. case local_arithmetic_term source_values t of Inl e \<Rightarrow> 0 | Inr t \<Rightarrow> term_val num t) terms)"

section \<open>The carry-in of the final adder\<close>

lemma other_rows_val: "i < length rows \<Longrightarrow> rows_val (other_rows i rows) + row_val (rows ! i) = rows_val rows"
  using arg_cong [OF id_take_nth_drop [of i rows], of rows_val] by (simp add: other_rows_def)

lemma row_val_None: "(\<And>x. x \<in> set row \<Longrightarrow> x \<noteq> Some True) \<Longrightarrow> row_val row = 0"
  by (induction row) auto

lemma carry_input_shape:
  assumes "carry_input_at is_zero level rows i"
  obtains c rest where "rows ! i = Some c # rest" and "\<And>x. Some x \<in> set rest \<Longrightarrow> is_zero x"
  using assms by (auto simp: carry_input_at_def list_all_iff split: list.splits option.splits)

context bit_emitter
begin

lemma take_carry_input_is:
  assumes "good s" and "mat_is n s m v" and "take_carry_input m (\<lambda>x. b_known em s x = Some False) level = (c, m')"
  shows "case c of None \<Rightarrow> m' = m
    | Some x \<Rightarrow> \<exists>b. den s x b \<and> mat_is n s m' (v - of_bool b) \<and> length (mx_rows m') \<le> length (mx_rows m)"
proof (cases "find (carry_input_at (\<lambda>x. b_known em s x = Some False) level (mx_rows m)) [0..<length (mx_rows m)]")
  case None
  with assms(3) show ?thesis by (auto simp: take_carry_input_def split: if_splits)
next
  case (Some i)
  then have i: "i < length (mx_rows m)" "carry_input_at (\<lambda>x. b_known em s x = Some False) level (mx_rows m) i"
    by (auto simp: find_Some_iff)
  then obtain x rest where x: "mx_rows m ! i = Some x # rest" "\<And>y. Some y \<in> set rest \<Longrightarrow> b_known em s y = Some False"
    using carry_input_shape by blast
  show ?thesis
  proof (cases c)
    case c: (Some y)
    with Some x(1) assms(3) have m': "y = x" "m' = m\<lparr>mx_rows := other_rows i (mx_rows m)\<rparr>"
      by (auto simp: take_carry_input_def split: if_splits)
    obtain b where b: "den_mat s m b" "mat_ok b" "mx_width b = n" "eqm n (int (mat_val b)) v"
      using assms(2) by (auto simp: mat_is_def)
    have rows: "den_rows s (mx_rows m) (mx_rows b)" using b(1) by (simp add: den_mat_def)
    then have ib: "i < length (mx_rows b)" "den_row s (Some x # rest) (mx_rows b ! i)"
      using i(1) x(1) by (auto simp: list_all2_conv_all_nth)
    then obtain w ws where w: "mx_rows b ! i = Some w # ws" "den s x w" "list_all2 (rel_option (den s)) rest ws"
      by (auto simp: list_all2_Cons1 option_rel_Some1)
    have "row_val ws = 0"
    proof (rule row_val_None)
      fix z assume "z \<in> set ws"
      then obtain k where k: "k < length rest" "rel_option (den s) (rest ! k) z"
        using w(3) by (auto simp: list_all2_conv_all_nth in_set_conv_nth)
      show "z \<noteq> Some True"
      proof
        assume z: "z = Some True"
        then obtain y where y: "rest ! k = Some y" "den s y True" using k(2) by (auto simp: option_rel_Some2)
        then have "Some y \<in> set rest" using k(1) by (metis nth_mem)
        from known_law [OF assms(1) y(2) x(2) [OF this]] show False by simp
      qed
    qed
    then have rv: "row_val (mx_rows b ! i) = of_bool w" by (simp add: w(1))
    let ?b = "b\<lparr>mx_rows := other_rows i (mx_rows b)\<rparr>"
    have "den_mat s m' ?b" using b(1) rows
      by (auto simp: den_mat_def m' other_rows_def intro!: list_all2_appendI list_all2_takeI list_all2_dropI)
    moreover have "mat_ok ?b" using b(2)
      by (auto simp: mat_ok_def other_rows_def rows_ok_def list_all_iff dest: in_set_takeD in_set_dropD)
    moreover have "int (mat_val ?b) = int (mat_val b) - of_bool w"
      using arg_cong [OF other_rows_val [OF ib(1)], of int] rv by (simp add: mat_val_def)
    ultimately have "mat_is n s m' (v - of_bool w)"
      unfolding mat_is_def using b(3,4) by (intro exI [of _ ?b]) (auto intro: eqm_diff)
    moreover have "length (mx_rows m') \<le> length (mx_rows m)" by (simp add: m' other_rows_def)
    ultimately have "\<exists>b. den s x b \<and> mat_is n s m' (v - of_bool b) \<and> length (mx_rows m') \<le> length (mx_rows m)"
      using w(2) by blast
    then show ?thesis by (simp only: c m'(1) option.case)
  next
    case None
    with Some assms(3) x(1) show ?thesis by (auto simp: take_carry_input_def split: if_splits)
  qed
qed

text \<open>Each of the three final adders.\<close>

lemma sim_final_adder:
  assumes "good s" and "dens s ls l" and "dens s rs r" and "length l = n" and "length r = n" and "den s c b"
    and "0 < n" and "n \<le> 2 ^ 63"
  shows "sim s (final_adder em prefix s ls rs c) (Inr (int (bits_val l) + int (bits_val r) + of_bool b), ()) (vec_is n)"
proof -
  have ne: "l \<noteq> []" "length l = length r" "length l \<le> 2 ^ 63" using assms(4,5,7,8) by auto
  have "sim s (final_adder em prefix s ls rs c) (Inr (sum_bits l r b), ()) dens"
    using sim_add_vectors [OF assms(1-3,6)] sim_brent_kung_add_vectors [OF assms(1-3,6)] sim_kogge_stone_add_vectors [OF assms(1-3,6)]
      add_vectors_bool [OF ne(2,1)] brent_kung_add_vectors_bool [OF ne(2,1,3)] kogge_stone_add_vectors_bool [OF ne(2,1,3)]
    by (cases prefix) (simp_all add: final_adder_def)
  moreover have "eqm n (int (bits_val (sum_bits l r b))) (int (bits_val l) + int (bits_val r) + of_bool b)"
    using sum_bits_val [OF ne(2), of b] assms(4) by (simp add: eqm_def zmod_int)
  ultimately show ?thesis
    by (elim sim_result) (use assms(4) in \<open>auto simp: vec_is_def\<close>)
qed

lemma sim_finish_region:
  assumes "good s" and "mat_is n s m v" and "den s zero False" and "den s one True" and "0 < n" and "n \<le> 2 ^ 63"
    and "rr_schedule recipe = Dadda \<Longrightarrow> length (mx_rows m) < 2 ^ 63 - 1"
  shows "sim s (finish_region em recipe zero one m s) (Inr v, ()) (vec_is n)"
proof -
  obtain c m' where t: "take_carry_input m (\<lambda>x. b_known em s x = Some False) (b_level em s) = (c, m')" by fastforce
  note tc = take_carry_input_is [OF assms(1,2) t]
  have "\<exists>b. den s (case c of Some c \<Rightarrow> c | None \<Rightarrow> zero) b \<and> mat_is n s m' (v - of_bool b) \<and> length (mx_rows m') \<le> length (mx_rows m)"
  proof (cases c)
    case None
    with tc assms(2,3) show ?thesis by (intro exI [of _ False]) simp
  next
    case (Some x)
    with tc show ?thesis by simp
  qed
  then obtain b where c: "den s (case c of Some c \<Rightarrow> c | None \<Rightarrow> zero) b" "mat_is n s m' (v - of_bool b)"
    "length (mx_rows m') \<le> length (mx_rows m)" by blast
  have d: "rr_schedule recipe = Dadda \<Longrightarrow> length (mx_rows m') < 2 ^ 63 - 1" using assms(7) c(3) by simp
  show ?thesis
    unfolding finish_region_def t Let_def prod.case
  proof (rule sim_then [OF sim_reduce_matrix_is [OF assms(1) c(2) assms(3,4) d] assms(1)], assumption, goal_cases)
    case (1 s' p)
    then obtain l r where lr: "dens s' (fst p) l" "dens s' (snd p) r" "length l = n" "length r = n"
      "eqm n (int (bits_val l) + int (bits_val r)) (v - of_bool b)" by blast
    have "eqm n (int (bits_val l) + int (bits_val r) + of_bool b) v" using eqm_add [OF lr(5) eqm_refl, of "of_bool b"] by simp
    note e = vec_is_eqm [OF _ this]
    show ?case
      unfolding case_prod_beta
      by (rule sim_result [OF sim_final_adder [OF 1(1) lr(1-4) 1(3) [OF c(1)] assms(5,6)]]) (erule e)
  qed
qed


section \<open>The rows of the terms\<close>

lemma sim_yields: "sim s m b R \<Longrightarrow> yields m P \<Longrightarrow> sim s m b (\<lambda>s x y. R s x y \<and> P x)"
  by (cases m; cases "fst m") (auto simp: sim_def yields_def)

lemma mat_is_merge:
  assumes "mat_is n s m v"
  shows "mat_is n s (merge_correction bs negative m) (v + unit_of negative * int (bits_val bs))"
proof -
  obtain b where b: "den_mat s m b" "mat_ok b" "mx_width b = n" "eqm n (int (mat_val b)) v"
    using assms by (auto simp: mat_is_def)
  note c = merge_correction_val [OF b(2), of bs negative]
  have "eqm n (int (mat_val (merge_correction bs negative b))) (v + unit_of negative * int (bits_val bs))"
    using eqm_trans [OF c(4) [unfolded b(3)] eqm_add [OF b(4) eqm_refl]] .
  with c(1,2) b(3) den_mat_merge [OF b(1)] show ?thesis unfolding mat_is_def by blast
qed

lemma sim_append_value_row:
  assumes "good s" and "mat_is (ty_width ty) s m v" and "opds s a va" and "fst a \<noteq> []"
  shows "sim s (append_value_row em s m a negative ty) (Inr (v + unit_of negative * operand_val va True), ()) (mat_is (ty_width ty))"
proof -
  let ?n = "ty_width ty"
  have ne: "fst va \<noteq> []" using assms(3,4) by auto
  let ?x = "extend_bool va ?n True"
  have e: "eqm ?n (v + unit_of negative * int (bits_val ?x)) (v + unit_of negative * operand_val va True)"
    by (intro eqm_add eqm_mult eqm_refl extended_is [OF ne])
  note row = sim_resized_bits [OF assms(1,3), of ?n True, unfolded resized_bits_bool [OF ne]]
  show ?thesis
    unfolding append_value_row_def
  proof (rule sim_then [OF row assms(1)], goal_cases)
    case (1 s1 xs)
    have m: "mat_is ?n s1 m v" by (rule keepsD [OF keeps_mat_is assms(1) 1(2) assms(2)])
    show ?case
    proof (cases "all_known s1 xs")
      case True
      then have "bool_vector em s1 xs = Some ?x" using bool_vector_law [OF 1(1,5)] by simp
      with mat_is_eqm [OF mat_is_merge [OF m] e] 1(1) show ?thesis by (simp add: sim_ret)
    next
      case False
      have r: "den_row s1 (map Some xs) (map Some ?x)" using 1(5) by (simp add: list_all2_map1 list_all2_map2)
      have l: "length (map Some xs) = ?n" using list_all2_lengthD [OF 1(5)] by simp
      have "row_val (map Some bs) = bits_val bs" for bs by (induction bs) auto
      then have "sim s1 (append_signed_row em s1 m (map Some xs) negative) (Inr (v + unit_of negative * int (bits_val ?x)), ()) (mat_is ?n)"
        using sim_append_signed_row [OF 1(1) m r l, of negative] by simp
      then have "sim s1 (append_signed_row em s1 m (map Some xs) negative) (Inr (v + unit_of negative * operand_val va True), ()) (mat_is ?n)"
        by (rule sim_result) (erule mat_is_eqm [OF _ e])
      with False bool_vector_law [OF 1(1,5)] show ?thesis by simp
    qed
  qed
qed

lemma sim_coefficient_bits:
  assumes "good s" and "opds s a va" and "fst a \<noteq> []" and "all_known s (fst a)"
  shows "sim s (coefficient_bits em a n s) (Inr (extend_bool va n (ty_signed (snd a))), ()) (\<lambda>s x y. x = y)"
proof -
  have ne: "fst va \<noteq> []" and ty: "snd va = snd a" using assms(2,3) by auto
  let ?se = "ty_signed (snd a)"
  let ?f = "\<lambda>i s. sbind (resized_bit em s a i ?se) (\<lambda>x s. case b_known em s x of
      Some b \<Rightarrow> (Inr b, s) | None \<Rightarrow> (Inl (Invariant ''constant arithmetic product contains an undefined bit''), s))"
  have "sim s (smapM ?f [0..<n] s) (smapM (\<lambda>i s. resized_bit bool_ops s va i ?se) [0..<n] ()) (\<lambda>s. list_all2 (=))"
  proof (rule sim_mapM_same [OF assms(1) keeps_const])
    fix s' i assume s': "good s'" "le s s'"
    then have o: "opds s' a va" using assms(1,2) dens_mono by blast
    have k: "all_known s' (fst a)" using all_known_mono [OF assms(1) s'(2) _ assms(4)] assms(2) by blast
    show "sim s' (?f i s') (resized_bit bool_ops () va i ?se) (\<lambda>s x y. x = y)"
    proof (cases "resized_bit em s' a i ?se")
      case (Pair r s2)
      note sr = sim_resized_bit [OF s'(1) o, of i ?se]
      show ?thesis
      proof (cases r)
        case (Inl e)
        with sr Pair show ?thesis by (simp add: sim_def)
      next
        case (Inr x)
        with sr Pair obtain v where v: "fst (resized_bit bool_ops () va i ?se) = Inr v" "good s2" "le s' s2" "den s2 x v"
          by (auto simp: sim_def)
        obtain w where w: "b_known em s2 x = Some w" using resized_bit_known [OF s'(1) o k assms(3)] Pair Inr by blast
        with known_law [OF v(2,4)] have "v = w" by blast
        with Pair Inr w v show ?thesis by (simp add: sim_def)
      qed
    qed
  qed
  moreover have "smapM (\<lambda>i s. resized_bit bool_ops s va i ?se) [0..<n] () = (Inr (extend_bool va n ?se), ())"
    using resized_bits_bool [OF ne, of n ?se] by (simp add: resized_bits_def)
  ultimately have "sim s (coefficient_bits em a n s) (Inr (extend_bool va n ?se), ()) (\<lambda>s. list_all2 (=))"
    by (simp add: coefficient_bits_def)
  then show ?thesis by (rule sim_result) (simp add: list.rel_eq)
qed


section \<open>The terms of a region\<close>

text \<open>The values of the region: their bits are known to denote \<open>vals\<close>, at the widths of their types.\<close>

definition value_ok :: "'s \<Rightarrow> (ValueId \<Rightarrow> SynthError + 'a list) \<Rightarrow> (ValueId \<Rightarrow> bool list) \<Rightarrow> ValueId \<Rightarrow> WordType \<Rightarrow> bool"
  where "value_ok s spans vals v ty \<longleftrightarrow>
    (\<exists>xs. spans v = Inr xs \<and> dens s xs (vals v) \<and> xs \<noteq> [] \<and> length xs = ty_width ty)"

fun term_ok :: "'s \<Rightarrow> (ValueId \<Rightarrow> SynthError + 'a list) \<Rightarrow> (ValueId \<Rightarrow> bool list) \<Rightarrow> ArithmeticTerm \<Rightarrow> bool"
  where
    "term_ok s spans vals (TermValue v ty negative) \<longleftrightarrow> value_ok s spans vals v ty"
  | "term_ok s spans vals (TermProduct (l, r) (lt, rt) ty negative index) \<longleftrightarrow>
      value_ok s spans vals l lt \<and> value_ok s spans vals r rt \<and>
      (\<forall>i. index = Some i \<longrightarrow> i < 2 \<and> (\<forall>xs. spans (if i = 0 then l else r) = Inr xs \<longrightarrow> all_known s xs))"

abbreviation number_of :: "(ValueId \<Rightarrow> bool list) \<Rightarrow> ValueId \<Rightarrow> WordType \<Rightarrow> int"
  where "number_of vals v ty \<equiv> operand_val (vals v, ty) True"

lemma value_ok_mono: "good s \<Longrightarrow> le s s' \<Longrightarrow> value_ok s spans vals v ty \<Longrightarrow> value_ok s' spans vals v ty"
  unfolding value_ok_def using dens_mono by blast

lemma term_ok_mono:
  assumes "good s" and "le s s'" and "term_ok s spans vals t"
  shows "term_ok s' spans vals t"
proof (cases t)
  case (TermValue v ty negative)
  with assms value_ok_mono show ?thesis by simp
next
  case (TermProduct inputs types ty negative index)
  obtain l r lt rt where p: "inputs = (l, r)" "types = (lt, rt)" by (cases inputs; cases types)
  have v: "value_ok s spans vals l lt" "value_ok s spans vals r rt" using assms(3) by (simp_all add: TermProduct p)
  then have d: "\<exists>vs. dens s xs vs" if "spans (if i = (0::nat) then l else r) = Inr xs" for i xs
    using that by (auto simp: value_ok_def split: if_splits)
  have "all_known s' xs" if "index = Some i" "spans (if i = 0 then l else r) = Inr xs" for i xs
    using d [OF that(2)] all_known_mono [OF assms(1,2)] assms(3) that unfolding TermProduct p term_ok.simps by blast
  moreover have "i < 2" if "index = Some i" for i using assms(3) that by (simp add: TermProduct p)
  ultimately show ?thesis using v value_ok_mono [OF assms(1,2)] unfolding TermProduct p term_ok.simps by blast
qed

text \<open>
  Along the region the matrix and the collected groups together denote the terms so far.
\<close>

definition region_is :: "(ValueId \<Rightarrow> SynthError + 'a list) \<Rightarrow> (ValueId \<Rightarrow> bool list) \<Rightarrow> nat \<Rightarrow> 's
    \<Rightarrow> 'a BitMatrix \<times> ConstantProductGroup list \<Rightarrow> int \<Rightarrow> bool"
  where "region_is spans vals n s acc v \<longleftrightarrow>
    (\<exists>w. mat_is n s (fst acc) w \<and> eqm n (w + groups_val (number_of vals) (snd acc)) v) \<and>
    list_all (\<lambda>g. length (cg_coefficient g) = n) (snd acc) \<and>
    (\<forall>g \<in> set (snd acc). value_ok s spans vals (cg_multiplicand g) (cg_multiplicand_ty g))"

lemma keeps_region [simp]: "keeps (region_is spans vals n)"
  unfolding keeps_def region_is_def using keepsD [OF keeps_mat_is] value_ok_mono by blast

lemma sim_region_matrix:
  assumes "good s" and "region_is spans vals n s (m, gs) v"
    and "\<And>w. mat_is n s m w \<Longrightarrow> sim s run (Inr (w + x), ()) (mat_is n)"
  shows "sim s (smap (\<lambda>m. (m, gs)) run) (Inr (v + x), ()) (region_is spans vals n)"
proof -
  obtain w where w: "mat_is n s m w" "eqm n (w + groups_val (number_of vals) gs) v" using assms(2) by (auto simp: region_is_def)
  have e: "eqm n (w + x + groups_val (number_of vals) gs) (v + x)" using eqm_add [OF w(2) eqm_refl, of x] by (simp add: ac_simps)
  from assms(3) [OF w(1)] show ?thesis
  proof (cases run)
    case (Pair r s')
    with assms(3) [OF w(1)] have s': "good s'" "le s s'" by (simp_all add: sim_def)
    have "\<forall>g \<in> set gs. value_ok s' spans vals (cg_multiplicand g) (cg_multiplicand_ty g)"
      using assms(2) value_ok_mono [OF assms(1) s'(2)] by (auto simp: region_is_def)
    with assms(2) assms(3) [OF w(1)] Pair e show ?thesis
      by (cases r) (auto simp: sim_def region_is_def)
  qed
qed


lemma pair_get_simps [simp]: "pair_get p 0 s = (Inr (fst p), s)" "pair_get p (Suc 0) s = (Inr (snd p), s)"
  by (simp_all add: pair_get_def vget_def)

lemma lift_result_Inr [simp]: "lift_result (Inr x) s = (Inr x, s)"
  by (simp add: lift_result_def)

lemma value_okE:
  assumes "value_ok s spans vals v ty"
  obtains xs where "spans v = Inr xs" and "opds s (xs, ty) (vals v, ty)" and "xs \<noteq> []" and "length xs = ty_width ty"
  using assms by (auto simp: value_ok_def)

lemma sim_append_product_rows:
  assumes "good s" and "mat_is (ty_width ty) s m v" and "0 < ty_width ty" and "ty_width ty < 2 ^ 32"
    and "term_ok s spans vals (TermProduct inputs types x negative None)"
  shows "sim s (append_product_rows em spans s m (TermProduct inputs types x negative None) encoding ty)
    (Inr (v + term_val (number_of vals) (TermProduct inputs types x negative None)), ()) (mat_is (ty_width ty))"
proof -
  let ?n = "ty_width ty"
  obtain l r lt rt where p: "inputs = (l, r)" "types = (lt, rt)" by (cases inputs; cases types)
  obtain xs ys where xs: "spans l = Inr xs" "opds s (xs, lt) (vals l, lt)" "xs \<noteq> []" "length xs = ty_width lt"
    and ys: "spans r = Inr ys" "opds s (ys, rt) (vals r, rt)" "ys \<noteq> []" "length ys = ty_width rt"
    using assms(5) by (auto simp: p elim!: value_okE)
  let ?v = "operand_val (vals l, lt) True * operand_val (vals r, rt) True"
  have prod: "sim s (case encoding of Radix4 \<Rightarrow> radix4_product_matrix em s (xs, lt) (ys, rt) ty
      | ArrayProduct \<Rightarrow> array_product_matrix em s (xs, lt) (ys, rt) ty) (Inr ?v, ()) (mat_is ?n)"
    using sim_radix4_product_matrix [OF assms(1) xs(2) ys(2) _ _ _ _ assms(3,4)]
      sim_array_product_matrix [OF assms(1) xs(2) ys(2) _ _ _ _ assms(3)] xs(3,4) ys(3,4)
    by (cases encoding) simp_all
  have "sim s (sbind (case encoding of Radix4 \<Rightarrow> radix4_product_matrix em s (xs, lt) (ys, rt) ty
      | ArrayProduct \<Rightarrow> array_product_matrix em s (xs, lt) (ys, rt) ty) (\<lambda>product s. append_matrix em s m product negative))
      (Inr (v + unit_of negative * ?v), ()) (mat_is ?n)"
    by (rule sim_then [OF prod assms(1)]) (rule sim_append_matrix_is, assumption, rule keepsD [OF keeps_mat_is assms(1) _ assms(2)])
  then show ?thesis by (simp add: append_product_rows_def p xs(1) ys(1))
qed

lemma region_is_merge:
  assumes "region_is spans vals n s (m, gs) v" and "length cs = n" and "value_ok s spans vals x xt"
    and "eqm n (int (bits_val cs)) c"
  shows "region_is spans vals n s (m, merge_group n x xt cs negative gs) (v + unit_of negative * (c * number_of vals x xt))"
proof -
  obtain w where w: "mat_is n s m w" "eqm n (w + groups_val (number_of vals) gs) v"
    and g: "list_all (\<lambda>g. length (cg_coefficient g) = n) gs"
      "\<forall>g \<in> set gs. value_ok s spans vals (cg_multiplicand g) (cg_multiplicand_ty g)"
    using assms(1) by (auto simp: region_is_def)
  note mg = merge_group_val [OF g(1) assms(2)]
  let ?gs = "merge_group n x xt cs negative gs"
  have "eqm n (unit_of negative * int (bits_val cs) * number_of vals x xt) (unit_of negative * c * number_of vals x xt)"
    by (intro eqm_mult eqm_refl assms(4))
  then have "eqm n (groups_val (number_of vals) ?gs) (groups_val (number_of vals) gs + unit_of negative * c * number_of vals x xt)"
    by (rule eqm_trans [OF mg(1) eqm_add [OF eqm_refl]])
  from eqm_add [OF eqm_refl this, of w]
  have "eqm n (w + groups_val (number_of vals) ?gs) (w + groups_val (number_of vals) gs + unit_of negative * c * number_of vals x xt)"
    by (simp add: add.assoc)
  then have "eqm n (w + groups_val (number_of vals) ?gs) (v + unit_of negative * (c * number_of vals x xt))"
    using eqm_trans [OF _ eqm_add [OF w(2) eqm_refl]] by (simp add: mult.assoc)
  moreover have "\<forall>g \<in> set ?gs. value_ok s spans vals (cg_multiplicand g) (cg_multiplicand_ty g)"
    using mg(4) [of x xt negative] g(2) assms(3) by fastforce
  ultimately show ?thesis unfolding region_is_def using w(1) mg(2) by auto
qed

lemma sim_region_constant:
  assumes "good s" and "region_is spans vals (ty_width ty) s (m, gs) v" and "value_ok s spans vals k kt" and "spans k = Inr xs"
    and "all_known s xs" and "value_ok s spans vals x xt"
  shows "sim s (sbind (coefficient_bits em (xs, kt) (ty_width ty) s) (\<lambda>coefficient s.
      (Inr (m, merge_group (ty_width ty) x xt coefficient negative gs), s)))
    (Inr (v + unit_of negative * (number_of vals k kt * number_of vals x xt)), ()) (region_is spans vals (ty_width ty))"
proof -
  let ?n = "ty_width ty" and ?cs = "extend_bool (vals k, kt) (ty_width ty) (ty_signed kt)"
  have o: "opds s (xs, kt) (vals k, kt)" "xs \<noteq> []" using assms(3,4) by (auto elim!: value_okE)
  then have ne: "vals k \<noteq> []" by auto
  have e: "eqm ?n (int (bits_val ?cs)) (number_of vals k kt)"
    using extended_is [of "(vals k, kt)" ?n "ty_signed kt"] operand_val_own [of "(vals k, kt)"] ne by simp
  note c = sim_coefficient_bits [OF assms(1) o(1), of ?n]
  show ?thesis
  proof (rule sim_then [OF c assms(1)], goal_cases)
    case (3 s1 cs)
    have "region_is spans vals ?n s1 (m, gs) v" by (rule keepsD [OF keeps_region assms(1) 3(2) assms(2)])
    from region_is_merge [OF this, of cs x xt] 3(5) e value_ok_mono [OF assms(1) 3(2) assms(6)]
    show ?case by (intro sim_ret [OF 3(1)]) simp
  qed (use o assms(5) in simp_all)
qed

lemma sim_region_term:
  assumes "good s" and "region_is spans vals (ty_width ty) s acc v" and "0 < ty_width ty" and "ty_width ty < 2 ^ 32"
    and "local_arithmetic_term source_values t = Inr t'" and "term_ok s spans vals t'"
  shows "sim s (region_term em source_values spans encoding ty t acc s) (Inr (v + term_val (number_of vals) t'), ())
    (region_is spans vals (ty_width ty))"
proof -
  obtain m gs where acc: "acc = (m, gs)" by (cases acc)
  note r = assms(2) [unfolded acc]
  show ?thesis
  proof (cases t')
    case (TermValue x xt negative)
    with assms(6) obtain xs where xs: "spans x = Inr xs" "opds s (xs, xt) (vals x, xt)" "xs \<noteq> []" by (auto elim!: value_okE)
    have "sim s (smap (\<lambda>m. (m, gs)) (append_value_row em s m (xs, xt) negative ty)) (Inr (v + unit_of negative * number_of vals x xt), ())
      (region_is spans vals (ty_width ty))"
      by (rule sim_region_matrix [OF assms(1) r]) (rule sim_append_value_row [OF assms(1) _ xs(2)], use xs(3) in simp_all)
    then show ?thesis by (simp add: region_term_def acc assms(5) TermValue xs(1))
  next
    case (TermProduct inputs types x negative index)
    obtain l r' lt rt where p: "inputs = (l, r')" "types = (lt, rt)" by (cases inputs; cases types)
    show ?thesis
    proof (cases index)
      case None
      have "sim s (smap (\<lambda>m. (m, gs)) (append_product_rows em spans s m t' encoding ty)) (Inr (v + term_val (number_of vals) t'), ())
        (region_is spans vals (ty_width ty))"
        by (rule sim_region_matrix [OF assms(1) r])
          (use sim_append_product_rows [OF assms(1) _ assms(3,4)] assms(6) TermProduct None in simp)
      then show ?thesis by (simp add: region_term_def acc assms(5) TermProduct None)
    next
      case (Some i)
      have v: "value_ok s spans vals l lt" "value_ok s spans vals r' rt" and i: "i < 2"
        and k: "\<And>xs. spans (if i = 0 then l else r') = Inr xs \<Longrightarrow> all_known s xs"
        using assms(6) by (simp_all add: TermProduct p Some)
      obtain xs ys where xs: "spans l = Inr xs" and ys: "spans r' = Inr ys" using v by (auto elim!: value_okE)
      show ?thesis
      proof (cases "i = 0")
        case True
        with sim_region_constant [OF assms(1) r v(1) xs k v(2), of negative] show ?thesis
          by (simp add: region_term_def acc assms(5) TermProduct p Some xs)
      next
        case False
        with i have "i = 1" by simp
        with sim_region_constant [OF assms(1) r v(2) ys k v(1), of negative] show ?thesis
          by (simp add: region_term_def acc assms(5) TermProduct p Some ys mult.commute)
      qed
    qed
  qed
qed


section \<open>Regions\<close>

lemma sim_region_terms:
  assumes "good s" and "region_is spans vals (ty_width ty) s acc v" and "0 < ty_width ty" and "ty_width ty < 2 ^ 32"
    and "\<And>t. t \<in> set terms \<Longrightarrow> \<exists>t'. local_arithmetic_term source_values t = Inr t' \<and> term_ok s spans vals t'"
  shows "sim s (sfoldM (region_term em source_values spans encoding ty) terms acc s)
    (Inr (v + region_val source_values (number_of vals) terms), ()) (region_is spans vals (ty_width ty))"
proof -
  let ?tv = "\<lambda>t. case local_arithmetic_term source_values t of Inl e \<Rightarrow> 0 | Inr t \<Rightarrow> term_val (number_of vals) t"
  have "sim s (sfoldM (region_term em source_values spans encoding ty) terms acc s)
    (Inr (fold (\<lambda>t v. v + ?tv t) terms v), ()) (region_is spans vals (ty_width ty))"
  proof (rule sim_fold_val [where R = "region_is spans vals (ty_width ty)", OF assms(1,2)])
    fix s' t a v assume t: "t \<in> set terms" and s': "good s'" "le s s'" "region_is spans vals (ty_width ty) s' a v"
    obtain t' where t': "local_arithmetic_term source_values t = Inr t'" "term_ok s spans vals t'" using assms(5) [OF t] by blast
    from sim_region_term [OF s'(1,3) assms(3,4) t'(1) term_ok_mono [OF assms(1) s'(2) t'(2)]] t'(1)
    show "sim s' (region_term em source_values spans encoding ty t a s') (Inr (v + ?tv t), ()) (region_is spans vals (ty_width ty))"
      by simp
  qed
  moreover have "fold (\<lambda>t v. v + f t) ts v = v + sum_list (map f ts)" for f :: "ArithmeticTerm \<Rightarrow> int" and ts v
    by (induction ts arbitrary: v) (simp_all add: ac_simps)
  ultimately show ?thesis by (simp add: region_val_def)
qed

lemma sim_append_groups:
  assumes "good s" and "region_is spans vals (ty_width ty) s (m, gs) v"
  shows "sim s (sfoldM (append_group em spans ty) gs m s) (Inr v, ()) (mat_is (ty_width ty))"
proof -
  let ?n = "ty_width ty" and ?gv = "\<lambda>g. int (bits_val (cg_coefficient g)) * number_of vals (cg_multiplicand g) (cg_multiplicand_ty g)"
  obtain w where w: "mat_is ?n s m w" "eqm ?n (w + groups_val (number_of vals) gs) v"
    and g: "\<And>g. g \<in> set gs \<Longrightarrow> value_ok s spans vals (cg_multiplicand g) (cg_multiplicand_ty g)"
    using assms(2) by (auto simp: region_is_def)
  have "sim s (sfoldM (append_group em spans ty) gs m s) (Inr (fold (\<lambda>g v. v + ?gv g) gs w), ()) (mat_is ?n)"
  proof (rule sim_fold_val [where R = "mat_is ?n", OF assms(1) w(1)])
    fix s' x a v assume x: "x \<in> set gs" and s': "good s'" "le s s'" "mat_is ?n s' a v"
    obtain xs where xs: "spans (cg_multiplicand x) = Inr xs"
      "opds s' (xs, cg_multiplicand_ty x) (vals (cg_multiplicand x), cg_multiplicand_ty x)" "xs \<noteq> []"
      using value_ok_mono [OF assms(1) s'(2) g [OF x]] by (auto elim!: value_okE)
    from sim_append_constant_coefficient_rows [OF s'(1,3) xs(2), of "cg_coefficient x"] xs(1,3)
    show "sim s' (append_group em spans ty x a s') (Inr (v + ?gv x), ()) (mat_is ?n)" by (simp add: append_group_def)
  qed
  moreover have "fold (\<lambda>g v. v + f g) hs w = w + sum_list (map f hs)" for f :: "ConstantProductGroup \<Rightarrow> int" and hs w
    by (induction hs arbitrary: w) (simp_all add: ac_simps)
  ultimately have "sim s (sfoldM (append_group em spans ty) gs m s) (Inr (w + groups_val (number_of vals) gs), ()) (mat_is ?n)"
    by (simp add: groups_val_def)
  then show ?thesis by (rule sim_result) (erule mat_is_eqm [OF _ w(2)])
qed

lemma sim_one: "good s \<Longrightarrow> sim s (emit_constant em s BitOne st) (Inr True, ()) den"
  using sim_constant [of s BitOne st] by simp

lemma sim_nought: "good s \<Longrightarrow> sim s (emit_constant em s BitZero st) (Inr False, ()) den"
  using sim_constant [of s BitZero st] by simp

lemma sim_arithmetic_region_bits:
  assumes "good s" and "0 < ty_width ty" and "ty_width ty < 2 ^ 32"
    and "2 \<le> length terms" and "3 \<le> length terms \<or> so_product_term_count operator \<noteq> 0" and "length terms = so_term_count operator"
    and "\<And>t. t \<in> set terms \<Longrightarrow> \<exists>t'. local_arithmetic_term source_values t = Inr t' \<and> term_ok s spans vals t'"
    and "rr_schedule recipe = Dadda \<Longrightarrow> (ty_width ty + 2) * length terms < 2 ^ 63 - 1"
  shows "sim s (arithmetic_region_bits em source_values spans s operator terms recipe ty)
    (Inr (region_val source_values (number_of vals) terms), ()) (vec_is (ty_width ty))"
proof -
  let ?n = "ty_width ty" and ?v = "region_val source_values (number_of vals) terms"
  have ok: "\<not> (length terms < 2 \<or> (length terms < 3 \<and> so_product_term_count operator = 0) \<or> length terms \<noteq> so_term_count operator)"
    using assms(4-6) by auto
  have new: "region_is spans vals ?n s' (BitMatrix_new ?n, []) 0" for s' using mat_is_new by (auto simp: region_is_def)
  have terms: "sim s' (sfoldM (region_term em source_values spans encoding ty) terms (BitMatrix_new ?n, []) s') (Inr ?v, ())
      (\<lambda>s acc v. region_is spans vals ?n s acc v \<and> region_rows ?n acc \<le> (?n + 2) * length terms)"
    if "good s'" "le s s'" for s' encoding
  proof -
    have "\<exists>t'. local_arithmetic_term source_values t = Inr t' \<and> term_ok s' spans vals t'" if "t \<in> set terms" for t
      using assms(7) [OF that] term_ok_mono [OF assms(1) \<open>le s s'\<close>] by blast
    from sim_yields [OF sim_region_terms [OF that(1) new assms(2,3) this] region_terms_rows] show ?thesis
      by (simp add: region_rows_def BitMatrix_new_def)
  qed
  show ?thesis
    unfolding arithmetic_region_bits_def if_not_P [OF ok]
  proof (rule sim_then [OF sim_nought [OF assms(1)] assms(1)], rule sim_then [OF sim_one], assumption, assumption,
      rule sim_then [OF terms], goal_cases)
    case (4 s1 z s2 one s3 acc)
    obtain m gs where acc: "acc = (m, gs)" by (cases acc)
    have r: "region_is spans vals ?n s3 (m, gs) ?v" "region_rows ?n (m, gs) \<le> (?n + 2) * length terms" using 4(15) by (simp_all add: acc)
    have len: "list_all (\<lambda>g. length (cg_coefficient g) = ?n) gs" using r(1) by (simp add: region_is_def)
    have z: "den s3 z False" "den s3 one True" using 4(5,8,10,13) by blast+
    show ?case
      unfolding acc prod.case
    proof (rule sim_then [OF sim_yields [OF sim_append_groups [OF 4(11) r(1)] append_groups_rows [OF len]] 4(11)], goal_cases)
      case (1 s4 m')
      have "length (mx_rows m') < 2 ^ 63 - 1" if "rr_schedule recipe = Dadda"
        using assms(8) [OF that] 1(5) r(2) by linarith
      with 1(5) z 1(3) assms(2,3) show ?case by (intro sim_finish_region [OF 1(1)]) simp_all
    qed
  qed (auto intro: le_trans)
qed

end

end
