(* ===== verification/Axm_Backend.thy ===== *)
theory Axm_Backend
  imports Axm_Graph Word_Module Operations_Correct Division_Correct Arithmetic_Region_Correct
begin

text \<open>
  The AXM backend of the bit-blaster, \<^verbatim>\<open>crates/opto-synth/src/boolean/bitblast/backend.rs\<close>,
  with the constant cache of \<^verbatim>\<open>support.rs\<close>. The backend is an instance of the scalar interface, so every
  lowering algorithm proved over \<open>bit_emitter\<close> holds of the AXM graph it builds.
\<close>

section \<open>The backend\<close>

datatype ScalarBit = WordBit ValueId | LogicBit LogicNodeId | DontCare ValueId

record AxmBackend =
  ax_graph :: LogicGraph
  ax_values :: "ValueId \<rightharpoonup> ScalarBit"
  ax_signals :: "SignalId \<times> nat \<rightharpoonup> ScalarBit"
  ax_representatives :: "LogicNodeId \<rightharpoonup> ValueId"
  ax_inputs :: "ValueId list"

definition AxmBackend_default :: AxmBackend
  where "AxmBackend_default =
    \<lparr>ax_graph = LogicGraph_new, ax_values = Map.empty, ax_signals = Map.empty,
     ax_representatives = Map.empty, ax_inputs = []\<rparr>"

definition AxmBackend_finish :: "AxmBackend \<Rightarrow> LogicGraph \<times> ValueId list"
  where "AxmBackend_finish a = (LogicGraph_freeze (ax_graph a), ax_inputs a)"

definition axm_literal :: "ScalarBit \<Rightarrow> SynthError + LogicNodeId"
  where "axm_literal x =
    (case x of LogicBit l \<Rightarrow> Inr l | _ \<Rightarrow> Inl (Invariant ''AXM backend received a scalar Word value''))"

definition binding_value :: "AxmBackend \<Rightarrow> ScalarBit \<Rightarrow> ValueId option"
  where "binding_value a x =
    (case x of LogicBit l \<Rightarrow> ax_representatives a l | DontCare v \<Rightarrow> Some v | WordBit _ \<Rightarrow> None)"

definition AxmBackend_input ::
  "AxmBackend \<Rightarrow> ValueId \<Rightarrow> SignalRef option \<Rightarrow> (AxmBackend, SynthError, ScalarBit) outcome"
  where "AxmBackend_input a v signal =
    (case ax_values a v of
       Some x \<Rightarrow> (Inr x, a)
     | None \<Rightarrow>
         (case (case signal of None \<Rightarrow> None | Some r \<Rightarrow> ax_signals a (sr_signal r, sr_lsb r)) of
            Some x \<Rightarrow> (Inr x, a\<lparr>ax_values := (ax_values a)(v \<mapsto> x)\<rparr>)
          | None \<Rightarrow>
              (case LogicGraph_variable (ax_graph a) (length (ax_inputs a)) of
                 (None, g) \<Rightarrow> (Inl (Panic ''AXM input count fits compact graph storage''), a\<lparr>ax_graph := g\<rparr>)
               | (Some l, g) \<Rightarrow>
                   (Inr (LogicBit l),
                    a\<lparr>ax_graph := g, ax_inputs := ax_inputs a @ [v], ax_values := (ax_values a)(v \<mapsto> LogicBit l),
                      ax_representatives := (ax_representatives a)(l \<mapsto> v),
                      ax_signals := (case signal of None \<Rightarrow> ax_signals a
                        | Some r \<Rightarrow> (ax_signals a)((sr_signal r, sr_lsb r) \<mapsto> LogicBit l))\<rparr>))))"

definition import_word :: "AxmBackend \<Rightarrow> WordModule \<Rightarrow> ValueId \<Rightarrow> (AxmBackend, SynthError, ScalarBit) outcome"
  where "import_word a m v =
    (case WordModule_value m v of
       None \<Rightarrow> AxmBackend_input a v None
     | Some stored \<Rightarrow>
         (case (v_kind stored, ty_width (v_ty stored)) of
            (ConstantValue bits, Suc 0) \<Rightarrow>
              (case bit_lsb bits 0 of
                 Some BitZero \<Rightarrow> (Inr (LogicBit (LogicGraph_constant False)), a)
               | Some BitOne \<Rightarrow> (Inr (LogicBit (LogicGraph_constant True)), a)
               | Some BitX \<Rightarrow> (Inr (DontCare v), a)
               | Some BitZ \<Rightarrow> AxmBackend_input a v None
               | None \<Rightarrow> AxmBackend_input a v None)
          | (SignalValue r, _) \<Rightarrow> AxmBackend_input a v (if sr_width r = 1 then Some r else None)
          | _ \<Rightarrow> AxmBackend_input a v None))"

definition axm_graph_op ::
  "AxmBackend \<Rightarrow> LogicNodeId graph_result \<Rightarrow> (AxmBackend, SynthError, ScalarBit) outcome"
  where "axm_graph_op a res =
    (case res of (Inl e, g) \<Rightarrow> (Inl e, a\<lparr>ax_graph := g\<rparr>) | (Inr l, g) \<Rightarrow> (Inr (LogicBit l), a\<lparr>ax_graph := g\<rparr>))"

definition axm_emit_unary :: "AxmBackend \<Rightarrow> UnaryOp \<Rightarrow> ScalarBit \<Rightarrow> (AxmBackend, SynthError, ScalarBit) outcome"
  where "axm_emit_unary a op arg =
    (case arg of
       DontCare _ \<Rightarrow> (Inr arg, a)
     | _ \<Rightarrow> sbind (lift_result (axm_literal arg) a) (\<lambda>l a.
         (Inr (LogicBit (case op of
            BitNot \<Rightarrow> LogicGraph_not l
          | LogicalNot \<Rightarrow> LogicGraph_not l
          | ReductionAnd \<Rightarrow> l
          | ReductionOr \<Rightarrow> l
          | ReductionXor \<Rightarrow> l)), a)))"

definition axm_emit_binary ::
  "AxmBackend \<Rightarrow> BinaryOp \<Rightarrow> ScalarBit \<Rightarrow> ScalarBit \<Rightarrow> (AxmBackend, SynthError, ScalarBit) outcome"
  where "axm_emit_binary a op left right =
    (case (left, right) of
       (DontCare _, DontCare _) \<Rightarrow> (Inr left, a)
     | (DontCare _, _) \<Rightarrow> (Inr right, a)
     | (_, DontCare _) \<Rightarrow> (Inr left, a)
     | _ \<Rightarrow>
         sbind (lift_result (axm_literal left) a) (\<lambda>l a.
         sbind (lift_result (axm_literal right) a) (\<lambda>r a.
           if op = BitAnd \<or> op = LogicalAnd then axm_graph_op a (LogicGraph_and (ax_graph a) l r)
           else if op = BitOr \<or> op = LogicalOr then axm_graph_op a (LogicGraph_or (ax_graph a) l r)
           else if op = BitXor \<or> op = Ne then axm_graph_op a (LogicGraph_xor (ax_graph a) l r)
           else if op = Eq then axm_graph_op a (smap inverted (LogicGraph_xor (ax_graph a) l r))
           else (Inl non_boolean_error, a))))"

definition axm_emit_mux ::
  "AxmBackend \<Rightarrow> ScalarBit \<Rightarrow> ScalarBit \<Rightarrow> ScalarBit \<Rightarrow> (AxmBackend, SynthError, ScalarBit) outcome"
  where "axm_emit_mux a cond then_value else_value =
    (case cond of
       DontCare _ \<Rightarrow> (Inr else_value, a)
     | _ \<Rightarrow>
         (case (then_value, else_value) of
            (DontCare _, DontCare _) \<Rightarrow> (Inr then_value, a)
          | (DontCare _, _) \<Rightarrow> (Inr else_value, a)
          | (_, DontCare _) \<Rightarrow> (Inr then_value, a)
          | _ \<Rightarrow>
              sbind (lift_result (axm_literal cond) a) (\<lambda>c a.
              sbind (lift_result (axm_literal then_value) a) (\<lambda>t a.
              sbind (lift_result (axm_literal else_value) a) (\<lambda>e a.
                axm_graph_op a (LogicGraph_mux (ax_graph a) c t e))))))"

definition axm_bit_type :: "ScalarBit \<Rightarrow> SynthError + WordType"
  where "axm_bit_type x = WordType_new 1 False TwoState"

definition axm_constant :: "ScalarBit \<Rightarrow> bool option"
  where "axm_constant x =
    (case x of LogicBit l \<Rightarrow> if lit_index l = 0 then Some (is_inverted l) else None | _ \<Rightarrow> None)"

definition structural_level :: "AxmBackend \<Rightarrow> ScalarBit \<Rightarrow> u32 option"
  where "structural_level a x =
    (case x of
       LogicBit l \<Rightarrow> (case construction_level (ax_graph a) l of (Inr n, _) \<Rightarrow> Some n | _ \<Rightarrow> None)
     | _ \<Rightarrow> None)"

section \<open>The bit-blaster over the backend\<close>

text \<open>
  The part of \<^verbatim>\<open>BitBlaster\<close> an emission reads or writes: the module, the backend and the
  constant cache.
\<close>

record BitBlaster =
  bb_module :: WordModule
  bb_backend :: AxmBackend
  bb_constants :: "ScalarBit option list"

definition constant_index :: "BitVal \<Rightarrow> LogicStateKind \<Rightarrow> nat"
  where "constant_index x state =
    (case state of TwoState \<Rightarrow> 0 | FourState \<Rightarrow> 1) * 4 +
    (case x of BitZero \<Rightarrow> 0 | BitOne \<Rightarrow> 1 | BitX \<Rightarrow> 2 | BitZ \<Rightarrow> 3)"

definition with_backend :: "BitBlaster \<Rightarrow> (AxmBackend, 'e, 'a) outcome \<Rightarrow> (BitBlaster, 'e, 'a) outcome"
  where "with_backend s res = (fst res, s\<lparr>bb_backend := snd res\<rparr>)"

definition import_constant :: "BitBlaster \<Rightarrow> BitVal \<Rightarrow> WordType \<Rightarrow> (BitBlaster, SynthError, ScalarBit) outcome"
  where "import_constant s x ty =
    (case WordModule_constant (bb_module s) [x] ty of
       (Inl e, m) \<Rightarrow> (Inl e, s\<lparr>bb_module := m\<rparr>)
     | (Inr v, m) \<Rightarrow> with_backend (s\<lparr>bb_module := m\<rparr>) (import_word (bb_backend s) m v))"

definition BitBlaster_constant ::
  "BitBlaster \<Rightarrow> BitVal \<Rightarrow> LogicStateKind \<Rightarrow> (BitBlaster, SynthError, ScalarBit) outcome"
  where "BitBlaster_constant s x state =
    (let index = constant_index x state
     in case bb_constants s ! index of
          Some y \<Rightarrow> (Inr y, s)
        | None \<Rightarrow>
            sbind (lift_result (WordType_new 1 False state) s) (\<lambda>ty s.
            sbind (import_constant s x ty) (\<lambda>y s.
              (Inr y, s\<lparr>bb_constants := (bb_constants s)[index := Some y]\<rparr>))))"

text \<open>The AXM backend never exposes a word value, so the cast of the interface is never called.\<close>

definition axm_ops :: "(BitBlaster, ScalarBit) bit_ops"
  where "axm_ops =
    \<lparr>b_unary = (\<lambda>s op x. with_backend s (axm_emit_unary (bb_backend s) op x)),
     b_binary = (\<lambda>s op x y. with_backend s (axm_emit_binary (bb_backend s) op x y)),
     b_mux = (\<lambda>s c x y. with_backend s (axm_emit_mux (bb_backend s) c x y)),
     b_constant = BitBlaster_constant,
     b_typed_constant = import_constant,
     b_bit_type = (\<lambda>s. axm_bit_type),
     b_word_value = (\<lambda>s x. None),
     b_cast = (\<lambda>s v ty. (Inl (Invariant ''AXM scalar sign coercion is not a Word cast''), s)),
     b_known = (\<lambda>s. axm_constant),
     b_level = (\<lambda>s. structural_level (bb_backend s))\<rparr>"

section \<open>The AXM backend keeps the contract of a Boolean backend\<close>

abbreviation axm_graph :: "BitBlaster \<Rightarrow> LogicGraph"
  where "axm_graph s \<equiv> ax_graph (bb_backend s)"

abbreviation axm_gates :: "BitBlaster \<Rightarrow> gates"
  where "axm_gates s \<equiv> graph_gates (axm_graph s)"

text \<open>The constants in the cache are the two constant literals.\<close>

definition axm_good :: "BitBlaster \<Rightarrow> bool"
  where "axm_good s \<longleftrightarrow> building (axm_graph s) \<and> length (bb_constants s) = 8 \<and>
    (\<forall>v st x. bb_constants s ! constant_index (bit_val v) st = Some x \<longrightarrow> x = LogicBit (LogicGraph_constant v))"

definition axm_le :: "BitBlaster \<Rightarrow> BitBlaster \<Rightarrow> bool"
  where "axm_le s s' \<longleftrightarrow> axm_gates s \<subseteq>\<^sub>m axm_gates s'"

definition axm_den :: "env \<Rightarrow> BitBlaster \<Rightarrow> ScalarBit \<Rightarrow> bool \<Rightarrow> bool"
  where "axm_den env s x v \<longleftrightarrow>
    (case x of LogicBit l \<Rightarrow> valid_lit (axm_gates s) l \<and> eval_lit (axm_gates s) env l = v | _ \<Rightarrow> False)"

text \<open>Emission fails only when literals or value identifiers have run out.\<close>

definition axm_full :: "BitBlaster \<Rightarrow> bool"
  where "axm_full s \<longleftrightarrow> graph_full (axm_graph s) \<or> 2 ^ 32 \<le> length (wm_values (bb_module s)) + 1"

lemma axm_denE:
  assumes "axm_den env s x v"
  obtains l where "x = LogicBit l" and "valid_lit (axm_gates s) l" and "v = eval_lit (axm_gates s) env l"
  using assms by (auto simp: axm_den_def split: ScalarBit.splits)

lemma building_wf: "building g \<Longrightarrow> wf_gates (graph_gates g)"
  by (metis buildingE builder_wf)

lemma constant_lit:
  assumes "wf_gates g"
  shows "valid_lit g (LogicGraph_constant v)" and "eval_lit g env (LogicGraph_constant v) = v"
  using assms by (auto simp: LogicGraph_constant_def valid_lit_def eval_lit_def wf_gates_def eval_node.simps)

lemma constant_node_eval:
  assumes "wf_gates g" and "lit_index l = 0"
  shows "eval_lit g env l = is_inverted l"
proof -
  have "Lit_node l = NodeId_CONSTANT" using assms(2) by (metis NodeId_index_CONSTANT NodeId_index_inj)
  with assms(1) show ?thesis by (simp add: eval_lit_def eval_node.simps [of g env NodeId_CONSTANT] wf_gates_def)
qed

text \<open>A step that runs one graph call.\<close>

lemma axm_graph_step:
  assumes "axm_good s" and "graph_call (axm_graph s) F res"
    and "with_backend s (axm_graph_op (bb_backend s) res) = (r, s')"
  shows "axm_good s' \<and> axm_le s s' \<and> (case r of Inl e \<Rightarrow> axm_full s' | Inr y \<Rightarrow> axm_den env s' y (F env))"
  using assms
  by (cases res; cases "fst res")
    (auto simp: with_backend_def axm_graph_op_def graph_call_def axm_good_def axm_le_def axm_full_def axm_den_def)

lemma graph_call_inverted:
  assumes "graph_call g F res"
  shows "graph_call g (\<lambda>env. \<not> F env) (smap inverted res)"
  using assms by (cases res; cases "fst res") (auto simp: graph_call_def valid_lit_def eval_lit_def)

lemma constant_index_inj:
  "constant_index (bit_val v) st = constant_index (bit_val w) st' \<longleftrightarrow> v = w \<and> st = st'"
  "constant_index (bit_val v) st < 8"
  by (cases v; cases w; cases st; cases st'; simp add: constant_index_def bit_val_def)+

lemma axm_constant_step:
  assumes "axm_good s" and "BitBlaster_constant s (bit_val v) st = (r, s')"
  shows "axm_good s' \<and> axm_le s s' \<and>
    (case r of Inl e \<Rightarrow> axm_full s' | Inr y \<Rightarrow> y = LogicBit (LogicGraph_constant v))"
proof (cases "bb_constants s ! constant_index (bit_val v) st")
  case (Some y)
  with assms show ?thesis by (auto simp: BitBlaster_constant_def axm_good_def axm_le_def)
next
  case None
  let ?ty = "\<lparr>ty_width = 1, ty_signed = False, ty_state = st\<rparr>"
  show ?thesis
  proof (cases "length (wm_values (bb_module s)) + 1 < 2 ^ 32")
    case False
    then have f: "ValueId_from_index (length (wm_values (bb_module s))) = Inl (WordFailure ''value ID exceeds 32-bit capacity'')"
      by (simp add: ValueId_from_index_def dense_from_index_def)
    then have "\<exists>e. r = Inl e" "s' = s"
      using assms(2) None
      by (auto simp: BitBlaster_constant_def WordType_new_def lift_result_def import_constant_def
          WordModule_constant_def push_value_def bit_val_def unknown_bit_def split: if_splits)
    with False show ?thesis using assms(1) by (auto simp: axm_le_def axm_full_def)
  next
    case True
    let ?m = "(bb_module s)\<lparr>wm_values := wm_values (bb_module s) @ [\<lparr>v_kind = ConstantValue [bit_val v], v_ty = ?ty\<rparr>]\<rparr>"
    have f: "ValueId_from_index (length (wm_values (bb_module s))) = Inr (ValueId (length (wm_values (bb_module s))))"
      using True by (simp add: ValueId_from_index_def dense_from_index_def)
    have "import_word a ?m (ValueId (length (wm_values (bb_module s)))) = (Inr (LogicBit (LogicGraph_constant v)), a)" for a
      by (simp add: import_word_def WordModule_value_def bit_lsb_def bit_val_def)
    then have "r = Inr (LogicBit (LogicGraph_constant v))"
      "s' = s\<lparr>bb_module := ?m,
        bb_constants := (bb_constants s)[constant_index (bit_val v) st := Some (LogicBit (LogicGraph_constant v))]\<rparr>"
      using assms(2) None f
      by (auto simp: BitBlaster_constant_def WordType_new_def lift_result_def import_constant_def with_backend_def
          WordModule_constant_def push_value_def bit_val_def unknown_bit_def split: if_splits)
    with assms(1) show ?thesis
      by (auto simp: axm_good_def axm_le_def nth_list_update constant_index_inj split: if_splits)
  qed
qed

interpretation axm: bit_emitter axm_ops axm_good axm_le "axm_den env" axm_full for env
proof unfold_locales
  fix s s' s'' :: BitBlaster and x y c z :: ScalarBit and v w u :: bool and r uop op f k st
  show "axm_le s s" by (simp add: axm_le_def)
  show "axm_le s s' \<Longrightarrow> axm_le s' s'' \<Longrightarrow> axm_le s s''" unfolding axm_le_def by (rule map_le_trans)
  show "axm_den env s' x v" if "axm_good s" "axm_le s s'" "axm_den env s x v"
  proof -
    have wf: "wf_gates (axm_gates s)" using that(1) building_wf by (simp add: axm_good_def)
    from that(3) show ?thesis
      using view_mono [OF wf that(2) [unfolded axm_le_def]] map_le_implies_dom_le [OF that(2) [unfolded axm_le_def]]
      by (auto simp: axm_den_def valid_lit_def split: ScalarBit.splits)
  qed
  show "v = w" if "axm_den env s x v" "axm_den env s x w"
    using that by (simp add: axm_den_def split: ScalarBit.splits)
  show "axm_good s' \<and> axm_le s s' \<and> (case r of Inl e \<Rightarrow> axm_full s' | Inr y \<Rightarrow> axm_den env s' y (unary_sem uop v))"
    if "axm_good s" "axm_den env s x v" "b_unary axm_ops s uop x = (r, s')"
    using that
    by (cases uop) (auto simp: axm_ops_def with_backend_def axm_emit_unary_def axm_literal_def lift_result_def axm_den_def
        axm_le_def LogicGraph_not_def LogicBuilder_not_def valid_lit_def eval_lit_def split: ScalarBit.splits)
  show "axm_good s' \<and> axm_le s s' \<and> (case r of Inl e \<Rightarrow> axm_full s' | Inr z \<Rightarrow> axm_den env s' z (f v w))"
    if s: "axm_good s" and d: "axm_den env s x v" "axm_den env s y w" and op: "binary_sem op = Some f"
      and r: "b_binary axm_ops s op x y = (r, s')"
  proof -
    obtain a b where ab: "x = LogicBit a" "y = LogicBit b" "valid_lit (axm_gates s) a" "valid_lit (axm_gates s) b"
      "v = eval_lit (axm_gates s) env a" "w = eval_lit (axm_gates s) env b"
      using axm_denE [OF d(1)] axm_denE [OF d(2)] by metis
    have b: "building (axm_graph s)" using s by (simp add: axm_good_def)
    note calls = LogicGraph_gates_correct [OF b ab(3,4)]
    note steps = axm_graph_step [OF s calls(1), of r s' env] axm_graph_step [OF s calls(2), of r s' env]
      axm_graph_step [OF s calls(3), of r s' env] axm_graph_step [OF s graph_call_inverted [OF calls(3)], of r s' env]
    show ?thesis
      using r op steps unfolding ab(1,2,5,6)
      by (cases op; cases r) (auto simp: axm_ops_def axm_emit_binary_def axm_literal_def lift_result_def)
  qed
  show "axm_good s' \<and> axm_le s s' \<and> (case r of Inl e \<Rightarrow> axm_full s' | Inr z \<Rightarrow> axm_den env s' z (if u then v else w))"
    if s: "axm_good s" and d: "axm_den env s c u" "axm_den env s x v" "axm_den env s y w"
      and r: "b_mux axm_ops s c x y = (r, s')"
  proof -
    obtain a b d where ab: "c = LogicBit a" "x = LogicBit b" "y = LogicBit d" "valid_lit (axm_gates s) a"
      "valid_lit (axm_gates s) b" "valid_lit (axm_gates s) d"
      "u = eval_lit (axm_gates s) env a" "v = eval_lit (axm_gates s) env b" "w = eval_lit (axm_gates s) env d"
      using axm_denE [OF d(1)] axm_denE [OF d(2)] axm_denE [OF d(3)] by metis
    have b: "building (axm_graph s)" using s by (simp add: axm_good_def)
    show ?thesis
      using r axm_graph_step [OF s LogicGraph_mux_correct [OF b ab(4-6)], of r s' env] unfolding ab(1-3,7-9)
      by (simp add: axm_ops_def axm_emit_mux_def axm_literal_def lift_result_def split del: if_split)
  qed
  show "axm_good s' \<and> axm_le s s' \<and> (case r of Inl e \<Rightarrow> axm_full s' | Inr y \<Rightarrow> axm_den env s' y (k = BitOne))"
    if s: "axm_good s" and k: "k = BitZero \<or> k = BitOne" and r: "b_constant axm_ops s k st = (r, s')"
  proof -
    obtain v where v: "k = bit_val v" using k by (metis bit_val_def)
    have g: "axm_good s' \<and> axm_le s s' \<and> (case r of Inl e \<Rightarrow> axm_full s' | Inr y \<Rightarrow> y = LogicBit (LogicGraph_constant v))"
      using axm_constant_step [OF s] r by (simp add: axm_ops_def v)
    then have "wf_gates (axm_gates s')" using building_wf by (simp add: axm_good_def)
    from g constant_lit [OF this] show ?thesis by (auto simp: v axm_den_def split: sum.splits)
  qed
  show "b_bit_type axm_ops s x = Inr scalar_ty"
    by (simp add: axm_ops_def axm_bit_type_def WordType_new_def scalar_ty_def)
  show "b_word_value axm_ops s x = None" by (simp add: axm_ops_def)
  show "v = b" if "axm_good s" "axm_den env s x v" "b_known axm_ops s x = Some b" for b
  proof -
    have "wf_gates (axm_gates s)" using that(1) building_wf by (simp add: axm_good_def)
    from constant_node_eval [OF this] that(2,3) show ?thesis
      by (auto simp: axm_ops_def axm_constant_def axm_den_def split: ScalarBit.splits if_splits)
  qed
  show "b_known axm_ops s' x = Some b" if "b_known axm_ops s x = Some b" for b
    using that by (simp add: axm_ops_def)
  show "b_known axm_ops s' y = Some (k = BitOne)"
    if s: "axm_good s" and k: "k = BitZero \<or> k = BitOne" and r: "b_constant axm_ops s k st = (Inr y, s')"
  proof -
    obtain v where v: "k = bit_val v" using k by (metis bit_val_def)
    have "y = LogicBit (LogicGraph_constant v)"
      using axm_constant_step [OF s] r by (fastforce simp: axm_ops_def v)
    then show ?thesis by (simp add: axm_ops_def axm_constant_def LogicGraph_constant_def v)
  qed
qed

section \<open>What an emission promises on the AXM graph\<close>

text \<open>
  Bits of the graph, the numbers they stand for, and the promise of an operation that returns
  bits: the graph only grew, and the result has the values \<open>F\<close> gives in every environment,
  unless literals or value identifiers have run out.
\<close>

definition logic_bits :: "BitBlaster \<Rightarrow> ScalarBit list \<Rightarrow> bool"
  where "logic_bits s xs \<longleftrightarrow>
    (\<forall>x \<in> set xs. case x of LogicBit l \<Rightarrow> valid_lit (axm_gates s) l | _ \<Rightarrow> False)"

definition bit_value :: "BitBlaster \<Rightarrow> env \<Rightarrow> ScalarBit \<Rightarrow> bool"
  where "bit_value s env x = (case x of LogicBit l \<Rightarrow> eval_lit (axm_gates s) env l | _ \<Rightarrow> False)"

definition bit_values :: "BitBlaster \<Rightarrow> env \<Rightarrow> ScalarBit operand \<Rightarrow> bool operand"
  where "bit_values s env a = (map (bit_value s env) (fst a), snd a)"

definition axm_emits ::
  "BitBlaster \<Rightarrow> (env \<Rightarrow> bool list) \<Rightarrow> (BitBlaster, SynthError, ScalarBit list) outcome \<Rightarrow> bool"
  where "axm_emits s F res \<longleftrightarrow>
    axm_good (snd res) \<and> axm_le s (snd res) \<and>
    (case fst res of
       Inl e \<Rightarrow> axm_full (snd res)
     | Inr xs \<Rightarrow> logic_bits (snd res) xs \<and> (\<forall>env. map (bit_value (snd res) env) xs = F env))"

definition axm_computes ::
  "BitBlaster \<Rightarrow> nat \<Rightarrow> (env \<Rightarrow> int) \<Rightarrow> (BitBlaster, SynthError, ScalarBit list) outcome \<Rightarrow> bool"
  where "axm_computes s n V res \<longleftrightarrow>
    axm_good (snd res) \<and> axm_le s (snd res) \<and>
    (case fst res of
       Inl e \<Rightarrow> axm_full (snd res)
     | Inr xs \<Rightarrow> logic_bits (snd res) xs \<and> length xs = n \<and>
         (\<forall>env. int (bits_val (map (bit_value (snd res) env) xs)) = V env))"

lemma axm_den_iff: "axm_den env s x v \<longleftrightarrow> logic_bits s [x] \<and> bit_value s env x = v"
  by (auto simp: axm_den_def logic_bits_def bit_value_def split: ScalarBit.splits)

lemma axm_dens_iff: "list_all2 (axm_den env s) xs vs \<longleftrightarrow> logic_bits s xs \<and> map (bit_value s env) xs = vs"
proof -
  have "list_all2 (axm_den env s) xs vs \<longleftrightarrow> (\<forall>x \<in> set xs. logic_bits s [x]) \<and> list_all2 (\<lambda>x v. bit_value s env x = v) xs vs"
    by (auto simp: axm_den_iff list_all2_conv_all_nth all_set_conv_all_nth)
  moreover have "list_all2 (\<lambda>x v. bit_value s env x = v) xs vs \<longleftrightarrow> map (bit_value s env) xs = vs"
    by (auto simp: list_all2_conv_all_nth list_eq_iff_nth_eq)
  ultimately show ?thesis by (auto simp: logic_bits_def)
qed

lemma axm_opds: "logic_bits s (fst a) \<Longrightarrow> axm.opds env s a (bit_values s env a)"
  by (simp add: axm_dens_iff bit_values_def)

lemma bit_values_Nil [simp]: "fst (bit_values s env a) = [] \<longleftrightarrow> fst a = []"
  by (simp add: bit_values_def)

lemma axm_emitsI:
  assumes "\<And>env. axm.sim s res (Inr (F env), ()) (axm.dens env)"
  shows "axm_emits s F res"
  using assms by (cases "fst res") (auto simp: axm_emits_def axm.sim_def axm_dens_iff)

lemma axm_computesI:
  assumes "\<And>env. axm.sim s res (Inr (F env), ()) (axm.dens env)"
    and "\<And>env. length (F env) = n" and "\<And>env. int (bits_val (F env)) = V env"
  shows "axm_computes s n V res"
proof -
  have e: "axm_emits s F res" by (rule axm_emitsI [OF assms(1)])
  have "length xs = n" if "\<forall>env. map (bit_value (snd res) env) xs = F env" for xs
    using that assms(2) by (metis length_map)
  with e assms(3) show ?thesis by (cases "fst res") (auto simp: axm_computes_def axm_emits_def)
qed

section \<open>Inputs and their representatives\<close>

text \<open>
  Every bound value or signal bit is a positive input literal of the graph, every input literal
  has the value that created it as its representative, and no value is an input twice.
\<close>

definition input_bit :: "AxmBackend \<Rightarrow> ScalarBit \<Rightarrow> bool"
  where "input_bit a x \<longleftrightarrow> (\<exists>l. x = LogicBit l \<and> \<not> is_inverted l \<and>
    graph_gates (ax_graph a) (Lit_node l) = Some GInput \<and> ax_representatives a l \<noteq> None)"

definition inputs_ok :: "AxmBackend \<Rightarrow> bool"
  where "inputs_ok a \<longleftrightarrow> building (ax_graph a) \<and>
    (\<forall>v x. ax_values a v = Some x \<longrightarrow> input_bit a x) \<and>
    (\<forall>k x. ax_signals a k = Some x \<longrightarrow> input_bit a x) \<and>
    (\<forall>l v. ax_representatives a l = Some v \<longrightarrow>
       ax_values a v = Some (LogicBit l) \<and> graph_gates (ax_graph a) (Lit_node l) = Some GInput) \<and>
    distinct (ax_inputs a) \<and> (\<forall>v. v \<in> set (ax_inputs a) \<longleftrightarrow> v \<in> ran (ax_representatives a))"

lemma inputs_ok_default: "inputs_ok AxmBackend_default"
  by (simp add: inputs_ok_def AxmBackend_default_def building_new)

lemma inputs_ok_fresh:
  assumes ok: "inputs_ok a" and v: "ax_values a v = None"
    and var: "LogicGraph_variable (ax_graph a) i = (Some l, g)"
    and a': "a' = a\<lparr>ax_graph := g, ax_inputs := ax_inputs a @ [v], ax_values := (ax_values a)(v \<mapsto> LogicBit l),
      ax_representatives := (ax_representatives a)(l \<mapsto> v), ax_signals := sigs\<rparr>"
    and sigs: "\<And>k x. sigs k = Some x \<Longrightarrow> ax_signals a k = Some x \<or> x = LogicBit l"
  shows "inputs_ok a'"
proof -
  have "building (ax_graph a)" using ok by (simp add: inputs_ok_def)
  from LogicGraph_variable_correct [OF this var]
  have g: "building g" "graph_gates (ax_graph a) \<subseteq>\<^sub>m graph_gates g" "\<not> is_inverted l"
    "graph_gates (ax_graph a) (Lit_node l) = None" "graph_gates g (Lit_node l) = Some GInput" by auto
  have keep: "graph_gates g n = Some x" if "graph_gates (ax_graph a) n = Some x" for n x
    using g(2) that by (metis domI map_le_def)
  have fresh: "ax_representatives a l = None"
    using ok g(4) by (cases "ax_representatives a l") (auto simp: inputs_ok_def)
  have old: "input_bit a' x" if "input_bit a x" for x
    using that keep by (auto simp: input_bit_def a')
  have new: "input_bit a' (LogicBit l)" using g by (simp add: input_bit_def a')
  have rep: "ax_values a w = Some (LogicBit l') \<and> graph_gates (ax_graph a) (Lit_node l') = Some GInput"
    if "ax_representatives a l' = Some w" for l' w using ok that by (simp add: inputs_ok_def)
  have nv: "v \<notin> ran (ax_representatives a)" using rep v by (auto simp: ran_def)
  then have ran: "ran (ax_representatives a') = insert v (ran (ax_representatives a))"
    using fresh by (simp add: a' ran_map_upd)
  show ?thesis
    unfolding inputs_ok_def
  proof (intro conjI allI impI)
    show "building (ax_graph a')" using g(1) by (simp add: a')
    show "input_bit a' x" if "ax_values a' w = Some x" for w x
      using that ok old new by (auto simp: a' inputs_ok_def split: if_splits)
    show "input_bit a' x" if "ax_signals a' k = Some x" for k x
    proof -
      have "sigs k = Some x" using that by (simp add: a')
      moreover have "input_bit a x" if "ax_signals a k = Some x" using ok that unfolding inputs_ok_def by blast
      ultimately show ?thesis using sigs [of k x] old new by blast
    qed
    show "ax_values a' w = Some (LogicBit l')" if "ax_representatives a' l' = Some w" for l' w
      using that rep [of l' w] v by (auto simp: a' split: if_splits)
    show "graph_gates (ax_graph a') (Lit_node l') = Some GInput" if "ax_representatives a' l' = Some w" for l' w
      using that rep [of l' w] keep g(5) by (auto simp: a' split: if_splits)
    show "distinct (ax_inputs a')" using ok nv by (auto simp: a' inputs_ok_def)
    show "w \<in> set (ax_inputs a') \<longleftrightarrow> w \<in> ran (ax_representatives a')" for w
      using ok unfolding ran by (simp add: a' inputs_ok_def)
  qed
qed

lemma inputs_ok_bind:
  assumes "inputs_ok a" and "input_bit a x" and "ax_values a v = None"
  shows "inputs_ok (a\<lparr>ax_values := (ax_values a)(v \<mapsto> x)\<rparr>)"
  using assms unfolding inputs_ok_def
  by (auto simp: input_bit_def ran_def)

lemma AxmBackend_input_step:
  assumes "inputs_ok a" and "AxmBackend_input a v signal = (r, a')"
  shows "case r of
      Inl e \<Rightarrow> 2 ^ 32 \<le> length (ax_inputs a) \<or> graph_full (ax_graph a')
    | Inr x \<Rightarrow> inputs_ok a' \<and> ax_values a' v = Some x \<and> ax_values a \<subseteq>\<^sub>m ax_values a' \<and>
        graph_gates (ax_graph a) \<subseteq>\<^sub>m graph_gates (ax_graph a')"
proof (cases "ax_values a v")
  case (Some x)
  with assms show ?thesis by (auto simp: AxmBackend_input_def)
next
  case None
  have b: "building (ax_graph a)" using assms(1) by (simp add: inputs_ok_def)
  have le: "ax_values a \<subseteq>\<^sub>m (ax_values a)(v \<mapsto> x)" for x using None by (auto simp: map_le_def)
  show ?thesis
  proof (cases "case signal of None \<Rightarrow> None | Some r \<Rightarrow> ax_signals a (sr_signal r, sr_lsb r)")
    case (Some x)
    then have "input_bit a x" using assms(1) by (auto simp: inputs_ok_def split: option.splits)
    from inputs_ok_bind [OF assms(1) this None] show ?thesis
      using assms(2) None Some le by (auto simp: AxmBackend_input_def)
  next
    case none: None
    obtain y g where var: "LogicGraph_variable (ax_graph a) (length (ax_inputs a)) = (y, g)" by fastforce
    note gv = LogicGraph_variable_correct [OF b var]
    show ?thesis
    proof (cases y)
      case None
      with gv assms(2) \<open>ax_values a v = None\<close> none var show ?thesis by (auto simp: AxmBackend_input_def)
    next
      case (Some l)
      let ?sigs = "case signal of None \<Rightarrow> ax_signals a
        | Some r \<Rightarrow> (ax_signals a)((sr_signal r, sr_lsb r) \<mapsto> LogicBit l)"
      have a': "a' = a\<lparr>ax_graph := g, ax_inputs := ax_inputs a @ [v], ax_values := (ax_values a)(v \<mapsto> LogicBit l),
          ax_representatives := (ax_representatives a)(l \<mapsto> v), ax_signals := ?sigs\<rparr>" and r: "r = Inr (LogicBit l)"
        using assms(2) \<open>ax_values a v = None\<close> none var Some by (simp_all add: AxmBackend_input_def)
      have "inputs_ok a'"
        by (rule inputs_ok_fresh [OF assms(1) \<open>ax_values a v = None\<close> _ a', of "length (ax_inputs a)"])
          (use var Some in \<open>auto split: option.splits if_splits\<close>)
      with r gv le Some show ?thesis by (simp add: a')
    qed
  qed
qed

text \<open>
  C7: importing a word value as an input of the AXM graph keeps the binding invariant: the value
  is bound to an input literal whose representative leads back to a bound value, earlier
  bindings stay, and a second import of the value returns the same bit and changes nothing.
  Importing fails only when inputs or literals have run out.
\<close>

theorem AxmBackend_input_binds:
  assumes "inputs_ok a" and "AxmBackend_input a v signal = (r, a')"
  shows "case r of
      Inl e \<Rightarrow> 2 ^ 32 \<le> length (ax_inputs a) \<or> graph_full (ax_graph a')
    | Inr x \<Rightarrow> inputs_ok a' \<and> ax_values a \<subseteq>\<^sub>m ax_values a' \<and>
        (\<exists>w. binding_value a' x = Some w \<and> ax_values a' w = Some x) \<and>
        (\<forall>signal'. AxmBackend_input a' v signal' = (Inr x, a'))"
proof (cases r)
  case (Inl e)
  with AxmBackend_input_step [OF assms] show ?thesis by simp
next
  case (Inr x)
  with AxmBackend_input_step [OF assms] have s: "inputs_ok a'" "ax_values a' v = Some x" "ax_values a \<subseteq>\<^sub>m ax_values a'"
    by auto
  then have "input_bit a' x" by (auto simp: inputs_ok_def)
  then obtain l w where l: "x = LogicBit l" "ax_representatives a' l = Some w" by (auto simp: input_bit_def)
  then have "ax_values a' w = Some x" using s(1) by (auto simp: inputs_ok_def)
  with s l Inr show ?thesis by (auto simp: binding_value_def AxmBackend_input_def)
qed

section \<open>Don't-care bits\<close>

text \<open>
  C6: the backend resolves a don't-care operand to a value it may have: whatever the operation and
  the environment, the bit returned has the value the operation gives for some value of the
  don't-care, and the graph is left as it is.
\<close>

theorem dont_care_resolved:
  assumes "axm_den env s x w" and "axm_den env s y u"
  shows "(binary_sem op = Some f \<longrightarrow>
      (\<exists>z v. emit_binary axm_ops s op (DontCare d) x = (Inr z, s) \<and> axm_den env s z (f v w)) \<and>
      (\<exists>z v. emit_binary axm_ops s op x (DontCare d) = (Inr z, s) \<and> axm_den env s z (f w v))) \<and>
    (\<exists>z v. b_mux axm_ops s (DontCare d) x y = (Inr z, s) \<and> axm_den env s z (if v then w else u)) \<and>
    (\<exists>z v. b_mux axm_ops s x (DontCare d) y = (Inr z, s) \<and> axm_den env s z (if w then v else u)) \<and>
    (\<exists>z v. b_mux axm_ops s x y (DontCare d) = (Inr z, s) \<and> axm_den env s z (if w then u else v))"
proof -
  obtain a b where ab: "x = LogicBit a" "y = LogicBit b"
    using axm_denE [OF assms(1)] axm_denE [OF assms(2)] by metis
  have e: "emit_binary axm_ops s op (DontCare d) x = (Inr x, s)" "emit_binary axm_ops s op x (DontCare d) = (Inr x, s)"
    "b_mux axm_ops s (DontCare d) x y = (Inr y, s)" "b_mux axm_ops s x (DontCare d) y = (Inr y, s)"
    "b_mux axm_ops s x y (DontCare d) = (Inr y, s)"
    by (simp_all add: ab emit_binary_def axm_ops_def axm_emit_binary_def axm_emit_mux_def with_backend_def)
  have n: "\<exists>v. f v w = w" "\<exists>v. f w v = w" if "binary_sem op = Some f"
    using that by (cases op; auto)+
  have "\<exists>v. axm_den env s x (f v w)" "\<exists>v. axm_den env s x (f w v)" if "binary_sem op = Some f"
    using n(1) [OF that] n(2) [OF that] assms(1) by (auto simp del: ex_simps intro: back_subst [of "axm_den env s x"])
  moreover have "\<exists>v. axm_den env s y (if v then w else u)" "\<exists>v. axm_den env s y (if w then v else u)"
    using assms(2) by (auto intro: exI [of _ False] exI [of _ u])
  moreover have "\<exists>v. axm_den env s y (if w then u else v)" using assms(2) by (auto intro: exI [of _ u])
  ultimately show ?thesis by (simp add: e split del: if_split)
qed

section \<open>Concrete instances\<close>

text \<open>A bit-blaster whose graph has four inputs.\<close>

definition four_inputs :: AxmBackend
  where "four_inputs = fold (\<lambda>i a. snd (AxmBackend_input a (ValueId i) None)) [1, 2, 3, 4] AxmBackend_default"

definition demo :: BitBlaster
  where "demo = \<lparr>bb_module = WordModule_new ''demo'', bb_backend = four_inputs, bb_constants = replicate 8 None\<rparr>"

definition demo_left :: "ScalarBit operand"
  where "demo_left = ([LogicBit (Lit 2), LogicBit (Lit 4)], \<lparr>ty_width = 2, ty_signed = False, ty_state = TwoState\<rparr>)"

definition demo_right :: "ScalarBit operand"
  where "demo_right = ([LogicBit (Lit 6), LogicBit (Lit 8)], \<lparr>ty_width = 2, ty_signed = True, ty_state = TwoState\<rparr>)"

lemma four_inputs_graph:
  "ax_graph four_inputs = \<lparr>builder = Some \<lparr>kinds = [Constant, Input, Input, Input, Input],
     fanin0 = [Lit_FALSE, Lit_FALSE, Lit_FALSE, Lit_FALSE, Lit_FALSE], fanin1 = [Lit_FALSE, Lit_FALSE, Lit_FALSE, Lit_FALSE, Lit_FALSE],
     fanin2 = [Lit_FALSE, Lit_FALSE, Lit_FALSE, Lit_FALSE, Lit_FALSE], levels = [0, 0, 0, 0, 0], origins = [0, 0, 1, 2, 3], interned = Map.empty\<rparr>, graph_storage = None\<rparr>"
  by (simp add: four_inputs_def AxmBackend_default_def AxmBackend_input_def LogicGraph_variable_def LogicGraph_new_def
      u32_of_usize_def LogicBuilder_input_def LogicBuilder_new_def push_def NodeId_from_index_def new_level_def
      fanin_levels_def checked_add_def append_node_def Lit_from_node_def checked_mul_def)

lemma demo_good: "axm_good demo"
proof -
  have ok: "builder_ok b' " if "builder_ok b" "b' = snd (LogicBuilder_input b k)" for b b' k
    using LogicBuilder_input_cases [OF that(1)] that(2) by (metis prod.collapse)
  define b2 where "b2 = snd (LogicBuilder_input (snd (LogicBuilder_input LogicBuilder_new 0)) 1)"
  define b4 where "b4 = snd (LogicBuilder_input (snd (LogicBuilder_input b2 2)) 3)"
  have "builder_ok b2" unfolding b2_def by (intro ok [OF ok [OF builder_ok_new refl] refl])
  then have "builder_ok b4" unfolding b4_def by (intro ok [OF ok [OF _ refl] refl])
  moreover have "builder (ax_graph four_inputs) = Some b4"
    unfolding four_inputs_graph b4_def b2_def
    by (simp add: LogicBuilder_input_def LogicBuilder_new_def push_def NodeId_from_index_def u32_of_usize_def
        new_level_def fanin_levels_def checked_add_def append_node_def)
  ultimately show ?thesis
    by (simp add: axm_good_def demo_def building_def constant_index_inj) (simp add: four_inputs_graph)
qed

lemma demo_bits: "logic_bits demo (fst demo_left)" "logic_bits demo (fst demo_right)"
  by (simp_all add: logic_bits_def demo_left_def demo_right_def demo_def valid_lit_def graph_gates_def builder_gates_def
      gate_view_def builder_ops_def net_kind_def four_inputs_graph list_get_def Lit_node_def NodeId_index_def
      drop_bit_Suc)

theorem AxmBackend_input_binds_witness:
  "inputs_ok AxmBackend_default \<and>
   (\<exists>x a'. AxmBackend_input AxmBackend_default (ValueId 1) None = (Inr x, a') \<and> inputs_ok a' \<and>
     (\<exists>w. binding_value a' x = Some w \<and> ax_values a' w = Some x) \<and>
     (\<forall>signal'. AxmBackend_input a' (ValueId 1) signal' = (Inr x, a')))"
proof -
  obtain r a' where r: "AxmBackend_input AxmBackend_default (ValueId 1) None = (r, a')" by fastforce
  moreover have "r = Inr (LogicBit (Lit 2))"
    using r by (auto simp: AxmBackend_default_def AxmBackend_input_def LogicGraph_variable_def LogicGraph_new_def
        u32_of_usize_def LogicBuilder_input_def LogicBuilder_new_def push_def NodeId_from_index_def new_level_def
        fanin_levels_def checked_add_def append_node_def Lit_from_node_def checked_mul_def)
  ultimately show ?thesis
    using AxmBackend_input_binds [OF inputs_ok_default r] inputs_ok_default by auto
qed

theorem dont_care_resolved_witness:
  "\<exists>w u. axm_den (\<lambda>_. True) demo (LogicBit (Lit 2)) w \<and> axm_den (\<lambda>_. True) demo (LogicBit (Lit 4)) u \<and>
    (\<exists>z v. b_mux axm_ops demo (DontCare (ValueId 9)) (LogicBit (Lit 2)) (LogicBit (Lit 4)) = (Inr z, demo) \<and>
      axm_den (\<lambda>_. True) demo z (if v then w else u))"
proof -
  obtain w u where d: "axm_den (\<lambda>_. True) demo (LogicBit (Lit 2)) w" "axm_den (\<lambda>_. True) demo (LogicBit (Lit 4)) u"
    using demo_bits(1) by (auto simp: axm_den_def logic_bits_def demo_left_def)
  with dont_care_resolved [OF d, of BitAnd "(\<and>)" "ValueId 9"] show ?thesis by blast
qed

end
