(* ===== verification/Axm_Lowering.thy ===== *)
theory Axm_Lowering
  imports Axm_Backend
begin

text \<open>
  What the lowering algorithms of the bit-blaster build on the AXM graph: the interpretation of
  the scalar interface on the AXM backend turns the results on Booleans into statements on
  literals, for every environment.
\<close>

text \<open>A \<^verbatim>\<open>WordType\<close> has a non-zero 32-bit width; an operand of the graph has bits, all of them literals.\<close>

definition word_type_ok :: "WordType \<Rightarrow> bool"
  where "word_type_ok ty \<longleftrightarrow> 0 < ty_width ty \<and> ty_width ty < 2 ^ 32"

definition axm_operand :: "BitBlaster \<Rightarrow> ScalarBit operand \<Rightarrow> bool"
  where "axm_operand s a \<longleftrightarrow> fst a \<noteq> [] \<and> logic_bits s (fst a)"

text \<open>The number an operand has in an environment, read with its own signedness where \<open>se\<close> asks for it.\<close>

definition operand_number :: "BitBlaster \<Rightarrow> env \<Rightarrow> ScalarBit operand \<Rightarrow> bool \<Rightarrow> int"
  where "operand_number s env a se = operand_val (bit_values s env a) se"

definition sum_or_difference :: "BitBlaster \<Rightarrow> ScalarBit operand \<Rightarrow> ScalarBit operand \<Rightarrow> bool \<Rightarrow> WordType \<Rightarrow> env \<Rightarrow> int"
  where "sum_or_difference s a b subtract ty env =
    (let x = operand_number s env a (ty_signed ty); y = operand_number s env b (ty_signed ty)
     in (if subtract then x - y else x + y) mod 2 ^ ty_width ty)"

lemma axm_computes_sum:
  assumes "axm_operand s a" and "axm_operand s b"
    and "\<And>env. axm.sim s res (Inr (sum_bits (left_bits (bit_values s env a) ty)
      (right_bits (bit_values s env b) sub ty) sub), ()) (axm.dens env)"
  shows "axm_computes s (ty_width ty) (sum_or_difference s a b sub ty) res"
  using assms(1,2)
  by (intro axm_computesI [OF assms(3)])
    (simp_all add: add_sub_sum_val axm_operand_def add_sub_val_def sum_or_difference_def operand_number_def Let_def)

lemma axm_operandD:
  assumes "axm_operand s a"
  shows "fst a \<noteq> []" and "axm.opds env s a (bit_values s env a)" and "fst (bit_values s env a) \<noteq> []"
  using assms axm_opds [of s a env] by (auto simp: axm_operand_def)

lemma word_type_okD: "word_type_ok ty \<Longrightarrow> 0 < ty_width ty" "word_type_ok ty \<Longrightarrow> ty_width ty \<le> 2 ^ 63"
  by (simp_all add: word_type_ok_def)

section \<open>Adders\<close>

lemma ripple_add_sub_bits_axm:
  assumes "axm_good s" and "axm_operand s a" and "axm_operand s b" and "word_type_ok ty"
  shows "axm_computes s (ty_width ty) (sum_or_difference s a b subtract ty) (ripple_add_sub_bits axm_ops s a b subtract ty)"
  using axm.sim_ripple_add_sub_bits [OF assms(1) axm_operandD(2) [OF assms(2)] axm_operandD(2) [OF assms(3)]]
    ripple_add_sub_bits_bool [OF axm_operandD(3) [OF assms(2)] axm_operandD(3) [OF assms(3)] word_type_okD(1) [OF assms(4)]]
  by (intro axm_computes_sum [OF assms(2,3)]) metis

lemma kogge_stone_add_sub_bits_axm:
  assumes "axm_good s" and "axm_operand s a" and "axm_operand s b" and "word_type_ok ty"
  shows "axm_computes s (ty_width ty) (sum_or_difference s a b subtract ty) (kogge_stone_add_sub_bits axm_ops s a b subtract ty)"
  using axm.sim_kogge_stone_add_sub_bits [OF assms(1) axm_operandD(2) [OF assms(2)] axm_operandD(2) [OF assms(3)]]
    prefix_add_sub_bits_bool(1) [OF axm_operandD(3) [OF assms(2)] axm_operandD(3) [OF assms(3)] word_type_okD [OF assms(4)]]
  by (intro axm_computes_sum [OF assms(2,3)]) metis

lemma brent_kung_add_sub_bits_axm:
  assumes "axm_good s" and "axm_operand s a" and "axm_operand s b" and "word_type_ok ty"
  shows "axm_computes s (ty_width ty) (sum_or_difference s a b subtract ty) (brent_kung_add_sub_bits axm_ops s a b subtract ty)"
  using axm.sim_brent_kung_add_sub_bits [OF assms(1) axm_operandD(2) [OF assms(2)] axm_operandD(2) [OF assms(3)]]
    prefix_add_sub_bits_bool(2) [OF axm_operandD(3) [OF assms(2)] axm_operandD(3) [OF assms(3)] word_type_okD [OF assms(4)]]
  by (intro axm_computes_sum [OF assms(2,3)]) metis

lemma hybrid_add_sub_bits_axm:
  assumes "axm_good s" and "axm_operand s a" and "axm_operand s b" and "word_type_ok ty" and "3 \<le> ty_width ty"
  shows "axm_computes s (ty_width ty) (sum_or_difference s a b subtract ty)
    (hybrid_brent_kung_add_sub_bits axm_ops s a b subtract ty requested_ripple_width)"
  using axm.sim_hybrid [OF assms(1) axm_operandD(2) [OF assms(2)] axm_operandD(2) [OF assms(3)]]
    hybrid_add_sub_bits_bool [OF axm_operandD(3) [OF assms(2)] axm_operandD(3) [OF assms(3)] assms(5) word_type_okD(2) [OF assms(4)]]
  by (intro axm_computes_sum [OF assms(2,3)]) metis

lemma constant_add_sub_bits_axm:
  assumes "axm_good s" and "axm_operand s a" and "axm_operand s b" and "word_type_ok ty"
    and "(\<forall>x \<in> set (fst a). axm_constant x \<noteq> None) \<or> (\<forall>x \<in> set (fst b). axm_constant x \<noteq> None)"
  shows "axm_computes s (ty_width ty) (sum_or_difference s a b subtract ty) (constant_add_sub_bits axm_ops s a b subtract prefix ty)"
proof -
  have "axm.all_known s (fst a) \<or> axm.all_known s (fst b)"
    using assms(5) unfolding axm.all_known_def by (simp add: axm_ops_def)
  then show ?thesis
    using axm.sim_constant_add_sub_bits [OF assms(1) axm_operandD(2) [OF assms(2)] axm_operandD(2) [OF assms(3)]
      axm_operandD(1) [OF assms(2)] axm_operandD(1) [OF assms(3)] word_type_okD(2) [OF assms(4)]]
    by (intro axm_computes_sum [OF assms(2,3)])
qed

text \<open>
  The ripple-carry adder builds literals for the sum or the difference of its resized
  operands modulo the width of the result.
\<close>

theorem ripple_add_sub_bits_correct:
  assumes "axm_good s" and "axm_operand s a" and "axm_operand s b" and "word_type_ok ty"
  shows "axm_computes s (ty_width ty) (sum_or_difference s a b subtract ty) (ripple_add_sub_bits axm_ops s a b subtract ty)"
  by (rule ripple_add_sub_bits_axm [OF assms])

text \<open>
  The Kogge-Stone adder, whose carry network doubles the distance in every stage, builds
  literals for the sum or the difference of its operands modulo the width of the result.
\<close>

theorem kogge_stone_add_sub_bits_correct:
  assumes "axm_good s" and "axm_operand s a" and "axm_operand s b" and "word_type_ok ty"
  shows "axm_computes s (ty_width ty) (sum_or_difference s a b subtract ty) (kogge_stone_add_sub_bits axm_ops s a b subtract ty)"
  by (rule kogge_stone_add_sub_bits_axm [OF assms])

text \<open>
  The Brent-Kung adder, whose sparse carry network has an up-sweep and a down-sweep, builds
  literals for the sum or the difference of its operands modulo the width of the result.
\<close>

theorem brent_kung_add_sub_bits_correct:
  assumes "axm_good s" and "axm_operand s a" and "axm_operand s b" and "word_type_ok ty"
  shows "axm_computes s (ty_width ty) (sum_or_difference s a b subtract ty) (brent_kung_add_sub_bits axm_ops s a b subtract ty)"
  by (rule brent_kung_add_sub_bits_axm [OF assms])

text \<open>
  The hybrid adder, a ripple-carry low part whose carry-out feeds a Brent-Kung high part, is
  correct for every requested split as soon as the result has three bits.
\<close>

theorem hybrid_add_sub_bits_correct:
  assumes "axm_good s" and "axm_operand s a" and "axm_operand s b" and "word_type_ok ty" and "3 \<le> ty_width ty"
  shows "axm_computes s (ty_width ty) (sum_or_difference s a b subtract ty)
    (hybrid_brent_kung_add_sub_bits axm_ops s a b subtract ty requested_ripple_width)"
  by (rule hybrid_add_sub_bits_axm [OF assms])

text \<open>
  With one operand constant, the specialised ripple and prefix adders build the same sum or
  difference, whichever operand is the constant.
\<close>

theorem constant_add_sub_bits_correct:
  assumes "axm_good s" and "axm_operand s a" and "axm_operand s b" and "word_type_ok ty"
    and "(\<forall>x \<in> set (fst a). axm_constant x \<noteq> None) \<or> (\<forall>x \<in> set (fst b). axm_constant x \<noteq> None)"
  shows "axm_computes s (ty_width ty) (sum_or_difference s a b subtract ty) (constant_add_sub_bits axm_ops s a b subtract prefix ty)"
  by (rule constant_add_sub_bits_axm [OF assms])

section \<open>Concrete instances\<close>

definition demo_ty :: "nat \<Rightarrow> WordType"
  where "demo_ty n = \<lparr>ty_width = n, ty_signed = True, ty_state = TwoState\<rparr>"

definition demo_constant :: "ScalarBit operand"
  where "demo_constant = ([LogicBit Lit_TRUE, LogicBit Lit_FALSE], \<lparr>ty_width = 2, ty_signed = False, ty_state = TwoState\<rparr>)"

lemma demo_operands: "axm_operand demo demo_left" "axm_operand demo demo_right" "axm_operand demo demo_constant"
proof -
  have "wf_gates (axm_gates demo)" using demo_good building_wf by (simp add: axm_good_def)
  from constant_lit(1) [OF this, of True] constant_lit(1) [OF this, of False]
  show "axm_operand demo demo_constant"
    by (simp add: axm_operand_def demo_constant_def logic_bits_def LogicGraph_constant_def)
qed (use demo_bits in \<open>simp_all add: axm_operand_def demo_left_def demo_right_def\<close>)

lemma demo_type: "word_type_ok (demo_ty 4)"
  by (simp add: word_type_ok_def demo_ty_def)

theorem ripple_add_sub_bits_correct_witness:
  "axm_good demo \<and> axm_computes demo 4 (sum_or_difference demo demo_left demo_right True (demo_ty 4))
     (ripple_add_sub_bits axm_ops demo demo_left demo_right True (demo_ty 4))"
  using ripple_add_sub_bits_correct [OF demo_good demo_operands(1,2) demo_type, of True] demo_good by (simp add: demo_ty_def)

theorem kogge_stone_add_sub_bits_correct_witness:
  "axm_good demo \<and> axm_computes demo 4 (sum_or_difference demo demo_left demo_right True (demo_ty 4))
     (kogge_stone_add_sub_bits axm_ops demo demo_left demo_right True (demo_ty 4))"
  using kogge_stone_add_sub_bits_correct [OF demo_good demo_operands(1,2) demo_type, of True] demo_good by (simp add: demo_ty_def)

theorem brent_kung_add_sub_bits_correct_witness:
  "axm_good demo \<and> axm_computes demo 4 (sum_or_difference demo demo_left demo_right True (demo_ty 4))
     (brent_kung_add_sub_bits axm_ops demo demo_left demo_right True (demo_ty 4))"
  using brent_kung_add_sub_bits_correct [OF demo_good demo_operands(1,2) demo_type, of True] demo_good by (simp add: demo_ty_def)

theorem hybrid_add_sub_bits_correct_witness:
  "axm_good demo \<and> axm_computes demo 4 (sum_or_difference demo demo_left demo_right True (demo_ty 4))
     (hybrid_brent_kung_add_sub_bits axm_ops demo demo_left demo_right True (demo_ty 4) 2)"
  using hybrid_add_sub_bits_correct [OF demo_good demo_operands(1,2) demo_type, of True 2] demo_good by (simp add: demo_ty_def)

theorem constant_add_sub_bits_correct_witness:
  "axm_good demo \<and> axm_computes demo 4 (sum_or_difference demo demo_left demo_constant True (demo_ty 4))
     (constant_add_sub_bits axm_ops demo demo_left demo_constant True True (demo_ty 4))"
proof -
  have "\<forall>x \<in> set (fst demo_constant). axm_constant x \<noteq> None" by (auto simp: demo_constant_def axm_constant_def)
  then show ?thesis
    using constant_add_sub_bits_correct [OF demo_good demo_operands(1,3) demo_type, of True True] demo_good
    by (simp add: demo_ty_def)
qed

end
