(* ===== verification/Axm_Operations.thy ===== *)
theory Axm_Operations
  imports Axm_Lowering
begin

text \<open>
  Comparison, shifts and the bitwise, logical and structural word operations on the AXM graph:
  what the literals they build denote, for every environment.
\<close>

text \<open>A looked-up word value: as many bits as its type says, all of them literals of the graph.\<close>

definition axm_word :: "BitBlaster \<Rightarrow> ScalarBit operand \<Rightarrow> bool"
  where "axm_word s a \<longleftrightarrow> axm_operand s a \<and> length (fst a) = ty_width (snd a)"

lemma axm_wordD:
  assumes "axm_word s a"
  shows "axm.opds env s a (bit_values s env a)" and "fst (bit_values s env a) \<noteq> []"
    and "length (fst (bit_values s env a)) = ty_width (snd (bit_values s env a))"
    and "length (fst a) = ty_width (snd a)"
  using assms axm_operandD(1) [of s a] axm_operandD(2) [of s a env] by (simp_all add: axm_word_def bit_values_def)

lemma snd_bit_values [simp]: "snd (bit_values s env a) = snd a"
  by (simp add: bit_values_def)

lemma axm_emitsI_run:
  assumes "\<And>env. axm.sim s res (run env) (axm.dens env)" and "\<And>env. run env = (Inr (F env), ())"
  shows "axm_emits s F res"
  using assms by (intro axm_emitsI) metis

lemma axm_computesI_run:
  assumes "\<And>env. axm.sim s res (run env) (axm.dens env)" and "\<And>env. run env = (Inr (F env), ())"
    and "\<And>env. length (F env) = n" and "\<And>env. int (bits_val (F env)) = V env"
  shows "axm_computes s n V res"
  using assms(1) by (intro axm_computesI [OF _ assms(3,4)]) (metis assms(2))

abbreviation both_signed :: "ScalarBit operand \<Rightarrow> ScalarBit operand \<Rightarrow> bool"
  where "both_signed a b \<equiv> ty_signed (snd a) \<and> ty_signed (snd b)"

text \<open>
  C39: a comparison builds one literal for the comparison of the numbers its operands denote, read
  as signed exactly when both of them are, whatever their widths.
\<close>

theorem compare_bits_correct:
  assumes "axm_good s" and "axm_word s a" and "axm_word s b" and "op \<in> {Lt, Le, Gt, Ge}"
  shows "axm_emits s (\<lambda>env. [compare_sem op (operand_number s env a (both_signed a b))
      (operand_number s env b (both_signed a b))]) (compare_bits axm_ops s op a b)"
  using axm_wordD [OF assms(2)] axm_wordD [OF assms(3)] assms(4)
  by (intro axm_emitsI_run [OF axm.sim_compare_bits [OF assms(1) axm_wordD(1) [OF assms(2)] axm_wordD(1) [OF assms(3)]]])
    (simp_all add: operand_number_def compare_bits_bool [where se = "both_signed a b"])

text \<open>
  Equality and inequality build one literal that compares the numbers of the operands, after
  both are extended to the wider type.
\<close>

theorem equality_bits_correct:
  assumes "axm_good s" and "axm_word s a" and "axm_word s b"
  shows "axm_emits s (\<lambda>env. [(operand_number s env a (both_signed a b) = operand_number s env b (both_signed a b)) \<noteq> (op = Ne)])
    (equality_bits axm_ops s op a b)"
  using axm_wordD [OF assms(2)] axm_wordD [OF assms(3)]
  by (intro axm_emitsI_run [OF axm.sim_equality_bits [OF assms(1) axm_wordD(1) [OF assms(2)] axm_wordD(1) [OF assms(3)]]])
    (simp_all add: operand_number_def equality_bits_bool [where se = "both_signed a b"])

text \<open>
  The number a shift denotes: the operand is brought to the width of the result first; a right
  shift fills with the sign only when it is arithmetic and the result is signed.
\<close>

definition shift_number :: "BinaryOp \<Rightarrow> WordType \<Rightarrow> int \<Rightarrow> nat \<Rightarrow> int"
  where "shift_number op ty x k =
    (let m = 2 ^ ty_width ty; u = x mod m
     in if op = Shl then x * 2 ^ k mod m
        else if op = Ashr \<and> ty_signed ty \<and> m \<le> 2 * u then (u - m) div 2 ^ k mod m
        else u div 2 ^ k)"

lemma signed_val_number:
  assumes "bs \<noteq> []"
  shows "signed_val bs = int (bits_val bs) - (if 2 ^ length bs \<le> 2 * int (bits_val bs) then 2 ^ length bs else 0)"
proof -
  have p: "(2::int) ^ length bs = 2 * 2 ^ (length bs - 1)" using assms by (cases bs) auto
  have l: "int (bits_val (butlast bs)) < 2 ^ (length bs - 1)" using bits_val_less_int [of "butlast bs"] by simp
  have "int (bits_val bs) = int (bits_val (butlast bs)) + 2 ^ (length bs - 1) * of_bool (last bs)"
    using bits_val_last [OF assms] by simp
  with l p assms have "last bs \<longleftrightarrow> 2 ^ length bs \<le> 2 * int (bits_val bs)" by (cases "last bs") simp_all
  with assms show ?thesis by (simp add: signed_val_def)
qed

lemma shift_val_number:
  assumes "fst a \<noteq> []" and "0 < ty_width ty"
  shows "shift_val op (ty_signed ty) (extend_bool a (ty_width ty) (ty_signed ty)) k =
    shift_number op ty (operand_val a (ty_signed ty)) k"
proof -
  let ?bs = "extend_bool a (ty_width ty) (ty_signed ty)"
  have v: "int (bits_val ?bs) = operand_val a (ty_signed ty) mod 2 ^ ty_width ty" by (rule extend_bool_val [OF assms(1)])
  have ne: "?bs \<noteq> []" using assms(2) by (simp flip: length_greater_0_conv)
  have small: "x div 2 ^ k mod m = x div 2 ^ k" if "0 \<le> x" "x < m" for x m :: int
  proof (rule mod_pos_pos_trivial)
    have "x div 2 ^ k \<le> x" using that(1) by (metis div_by_1 one_le_power one_le_numeral zdiv_mono2 zero_less_one)
    with that(2) show "x div 2 ^ k < m" by simp
  qed (use that in \<open>simp add: pos_imp_zdiv_nonneg_iff\<close>)
  have sv: "signed_val ?bs = int (bits_val ?bs) - (if 2 ^ ty_width ty \<le> 2 * int (bits_val ?bs) then 2 ^ ty_width ty else 0)"
    using signed_val_number [OF ne] by simp
  show ?thesis
    unfolding shift_val_def shift_number_def Let_def sv v length_extend_bool
    using small [of "operand_val a (ty_signed ty) mod 2 ^ ty_width ty" "2 ^ ty_width ty"]
    by (auto simp: mod_mult_left_eq)
qed


text \<open>
  A multiplexer selects the bits of one of its branches by the value of its condition.
\<close>

theorem mux_bits_correct:
  assumes "axm_good s" and "logic_bits s [c]" and "logic_bits s ts" and "logic_bits s es" and "length ts = length es"
  shows "axm_emits s (\<lambda>env. map (bit_value s env) (if bit_value s env c then ts else es)) (mux_bits axm_ops s [c] ts es ty)"
proof -
  have d: "axm.dens env s xs (map (bit_value s env) xs)" if "logic_bits s xs" for env xs
    using that by (simp add: axm_dens_iff)
  show ?thesis
    using assms(5)
    by (intro axm_emitsI_run [OF axm.sim_mux_bits [OF assms(1) d [OF assms(2)] d [OF assms(3)] d [OF assms(4)]]])
      (simp add: mux_bits_bool)
qed

text \<open>
  A cast denotes its operand, read as signed only by a sign extension, modulo the target
  width; a truncation that would have to extend is the only cast that is refused.
\<close>

theorem cast_bits_correct:
  assumes "axm_good s" and "axm_operand s a" and "word_type_ok ty" and "kind = Truncate \<longrightarrow> ty_width ty \<le> length (fst a)"
  shows "axm_computes s (ty_width ty) (\<lambda>env. cast_val kind (bit_values s env a) mod 2 ^ ty_width ty)
    (cast_bits axm_ops s kind a ty)"
proof -
  have "length (fst (bit_values s env a)) = length (fst a)" for env by (simp add: bit_values_def)
  then show ?thesis
    using axm_operandD [OF assms(2)] assms(4) word_type_okD(1) [OF assms(3)]
    by (intro axm_computesI_run [OF axm.sim_cast_bits [OF assms(1) axm_operandD(2) [OF assms(2)]] cast_bits_bool])
      (simp_all add: cast_bits_val [OF axm_operandD(3) [OF assms(2)], unfolded snd_bit_values])
qed

text \<open>
  The unary operators negate every bit or reduce the word to one bit: is it zero, are all its
  bits set, is any set, is their number odd.
\<close>

theorem unary_bits_correct:
  assumes "axm_good s" and "axm_operand s a"
  shows "axm_emits s (\<lambda>env. unary_val op (fst (bit_values s env a))) (unary_bits axm_ops s op (fst a))"
  using axm_operandD(3) [OF assms(2)]
  by (intro axm_emitsI_run [OF axm.sim_unary_bits [OF assms(1) conjunct1 [OF axm_operandD(2) [OF assms(2)]]] unary_bits_bool])

section \<open>Concrete instances\<close>

lemma demo_words: "axm_word demo demo_left" "axm_word demo demo_right" "axm_word demo demo_constant"
  using demo_operands by (simp_all add: axm_word_def demo_left_def demo_right_def demo_constant_def)

theorem compare_bits_correct_witness:
  "axm_word demo demo_left \<and> axm_emits demo (\<lambda>env. [operand_number demo env demo_left False \<le> operand_number demo env demo_right False])
     (compare_bits axm_ops demo Le demo_left demo_right)"
  using compare_bits_correct [OF demo_good demo_words(1,2), of Le] demo_words by (simp add: demo_left_def)

theorem equality_bits_correct_witness:
  "axm_word demo demo_left \<and> axm_emits demo (\<lambda>env. [operand_number demo env demo_left False = operand_number demo env demo_right False])
     (equality_bits axm_ops demo Eq demo_left demo_right)"
  using equality_bits_correct [OF demo_good demo_words(1,2), of Eq] demo_words by (simp add: demo_left_def)


end
