(* ===== verification/Axm_Arithmetic.thy ===== *)
theory Axm_Arithmetic
  imports Axm_Operations
begin

text \<open>
  Multiplication and division on the AXM graph: for every environment, the literals the
  multipliers and dividers build denote the product, the quotient or the remainder of the numbers
  their operands denote.
\<close>

lemma axm_computesI_vec:
  assumes "\<And>env. axm.sim s res (Inr (V env), ()) (axm.vec_is env n)"
  shows "axm_computes s n (\<lambda>env. V env mod 2 ^ n) res"
proof (cases "fst res")
  case (Inl e)
  with assms show ?thesis by (simp add: axm_computes_def axm.sim_def)
next
  case (Inr xs)
  have v: "axm.vec_is env n (snd res) xs (V env)" for env using assms [of env] Inr by (simp add: axm.sim_def)
  have "logic_bits (snd res) xs \<and> length xs = n \<and> int (bits_val (map (bit_value (snd res) env) xs)) = V env mod 2 ^ n" for env
  proof -
    obtain vs where vs: "axm.dens env (snd res) xs vs" "length vs = n" "eqm n (int (bits_val vs)) (V env)"
      using v [of env] unfolding axm.vec_is_def by blast
    have "int (bits_val vs) < 2 ^ n" using bits_val_less_int [of vs] vs(2) by simp
    with vs show ?thesis by (auto simp: axm_dens_iff eqm_def)
  qed
  with Inr assms show ?thesis by (simp add: axm_computes_def axm.sim_def)
qed

abbreviation all_constant :: "ScalarBit operand \<Rightarrow> bool"
  where "all_constant a \<equiv> \<forall>x \<in> set (fst a). axm_constant x \<noteq> None"

lemma all_constant_known: "all_constant a \<Longrightarrow> axm.all_known s (fst a)"
  unfolding axm.all_known_def by (simp add: axm_ops_def)

text \<open>
  C36: every multiplier offered for an operator (the radix-4 Booth and the array multiplier, or the
  signed-digit multiplier when an input is constant) builds the product of the numbers its operands
  denote, each read with its own signedness, modulo the width of the result.
\<close>

theorem multiply_lower_correct:
  assumes "axm_good s" and "axm_word s a" and "axm_word s b" and "word_type_ok ty"
    and "recipe \<in> set (multiply_recipes has_constant)" and "has_constant \<longrightarrow> all_constant a \<or> all_constant b"
  shows "axm_computes s (ty_width ty) (\<lambda>env. operand_number s env a True * operand_number s env b True mod 2 ^ ty_width ty)
    (multiply_lower axm_ops recipe s a b ty)"
proof (rule axm_computesI_vec)
  fix env
  note a = axm_wordD [OF assms(2)] and b = axm_wordD [OF assms(3)]
  have ne: "fst a \<noteq> []" "fst b \<noteq> []" using assms(2,3) by (simp_all add: axm_word_def axm_operand_def)
  have ty: "0 < ty_width ty" "ty_width ty < 2 ^ 32" using assms(4) by (simp_all add: word_type_ok_def)
  have k: "has_constant \<Longrightarrow> axm.all_known s (fst a) \<or> axm.all_known s (fst b)" using assms(6) all_constant_known by blast
  show "axm.sim s (multiply_lower axm_ops recipe s a b ty)
      (Inr (operand_number s env a True * operand_number s env b True), ()) (axm.vec_is env (ty_width ty))"
    unfolding operand_number_def by (rule axm.sim_multiply_lower [OF assms(1) a(1) b(1) ne a(4) b(4) ty assms(5) k])
qed

text \<open>The number an operand has once it is brought to the result type, and read with its signedness.\<close>

definition resized_number :: "BitBlaster \<Rightarrow> env \<Rightarrow> ScalarBit operand \<Rightarrow> WordType \<Rightarrow> int"
  where "resized_number s env a ty =
    (let m = 2 ^ ty_width ty; u = operand_number s env a (ty_signed ty) mod m
     in if ty_signed ty \<and> m \<le> 2 * u then u - m else u)"

lemma resized_number_operand:
  assumes "axm_operand s a" and "0 < ty_width ty"
  shows "operand_val (extend_bool (bit_values s env a) (ty_width ty) (ty_signed ty), ty) True = resized_number s env a ty"
proof -
  let ?bs = "extend_bool (bit_values s env a) (ty_width ty) (ty_signed ty)"
  have ne: "?bs \<noteq> []" using assms(2) by (simp flip: length_greater_0_conv)
  have "int (bits_val ?bs) = operand_number s env a (ty_signed ty) mod 2 ^ ty_width ty"
    unfolding operand_number_def by (rule extend_bool_val) (use axm_operandD(3) [OF assms(1)] in simp)
  with signed_val_number [OF ne] show ?thesis by (cases "ty_signed ty") (simp_all add: resized_number_def operand_val_def Let_def)
qed

text \<open>
  C37: division and remainder build the quotient rounded towards zero and the remainder with the
  sign of the dividend, modulo the width, and zero when the divisor is zero. The result is the same
  for a variable divisor (restoring division), a constant divisor (shift, reciprocal multiplication
  or restoring division) and a constant dividend.
\<close>

theorem divide_bits_correct:
  assumes "axm_good s" and "axm_operand s a" and "axm_operand s b" and "word_type_ok ty"
  shows "axm_computes s (ty_width ty)
    (\<lambda>env. division_val remainder (resized_number s env a ty) (resized_number s env b ty) mod 2 ^ ty_width ty)
    (divide_bits axm_ops s a b remainder ty)"
proof (rule axm_computesI_vec)
  fix env
  note a = axm_operandD [OF assms(2)] and b = axm_operandD [OF assms(3)]
  note ty = word_type_okD(1) [OF assms(4)]
  show "axm.sim s (divide_bits axm_ops s a b remainder ty)
      (Inr (division_val remainder (resized_number s env a ty) (resized_number s env b ty)), ()) (axm.vec_is env (ty_width ty))"
    using axm.sim_divide_bits [OF assms(1) a(2) b(2) a(3) b(3) ty]
    unfolding resized_number_operand [OF assms(2) ty] resized_number_operand [OF assms(3) ty] .
qed

section \<open>Concrete instances\<close>

theorem multiply_lower_correct_witness:
  "axm_word demo demo_left \<and> axm_computes demo 4
     (\<lambda>env. operand_number demo env demo_left True * operand_number demo env demo_right True mod 2 ^ 4)
     (multiply_lower axm_ops 1 demo demo_left demo_right (demo_ty 4))"
  using multiply_lower_correct [OF demo_good demo_words(1,2) demo_type, of 1 False] demo_words
  by (simp add: demo_ty_def multiply_recipes_def)

theorem divide_bits_correct_witness:
  "axm_good demo \<and> axm_computes demo 4
     (\<lambda>env. division_val True (resized_number demo env demo_left (demo_ty 4)) (resized_number demo env demo_constant (demo_ty 4)) mod 2 ^ 4)
     (divide_bits axm_ops demo demo_left demo_constant True (demo_ty 4))"
  using divide_bits_correct [OF demo_good demo_operands(1,3) demo_type, of True] demo_good by (simp add: demo_ty_def)

end
