(* ===== verification/Axm_Region.thy ===== *)
theory Axm_Region
  imports Axm_Arithmetic
begin

text \<open>
  The add-subtract provider on the AXM graph: every recipe it offers for an operator, the fused
  regions included, builds the sum the operator stands for.
\<close>

section \<open>The integer square root\<close>

lemma isqrt_bounds: "isqrt n * isqrt n \<le> n \<and> n < Suc (isqrt n) * Suc (isqrt n)"
proof (induction n rule: less_induct)
  case (less n)
  show ?case
  proof (cases "n = 0")
    case False
    define r where "r = isqrt (n div 4)"
    have ih: "r * r \<le> n div 4" "n div 4 < Suc r * Suc r" using less [of "n div 4"] False by (simp_all add: r_def)
    have "4 * (r * r) \<le> n" "n < 4 * (Suc r * Suc r)" using ih by linarith+
    moreover have "isqrt n = (if Suc (2 * r) * Suc (2 * r) \<le> n then Suc (2 * r) else 2 * r)"
      using False by (simp add: isqrt.simps [of n] r_def Let_def)
    ultimately show ?thesis by (auto simp: algebra_simps)
  qed (simp add: isqrt.simps)
qed

lemma isqrt_u32: "n < 2 ^ 32 \<Longrightarrow> isqrt n + 1 < 2 ^ 32"
proof (rule ccontr)
  assume n: "n < 2 ^ 32" and "\<not> isqrt n + 1 < 2 ^ 32"
  then have "2 ^ 31 \<le> isqrt n" by simp
  then have "2 ^ 31 * 2 ^ 31 \<le> isqrt n * isqrt n" by (intro mult_le_mono)
  with isqrt_bounds [of n] n show False by simp
qed

section \<open>Operators of two operands\<close>

text \<open>
  C35: every recipe the provider offers for an addition, subtraction, increment or decrement of its
  width builds the sum or the difference of the two operands modulo that width; constant operands
  are promised for the recipes that need one.
\<close>

theorem add_sub_lower_correct:
  assumes "axm_good s" and "axm_operand s a" and "axm_operand s b" and "word_type_ok ty" and "so_width operator = ty_width ty"
    and "so_kind operator \<noteq> OpSum" and "recipe \<in> set (add_sub_recipes operator)"
    and "so_constant_input operator \<noteq> None \<or> so_kind operator \<in> {OpIncrement, OpDecrement} \<longrightarrow> all_constant a \<or> all_constant b"
  shows "axm_computes s (ty_width ty) (sum_or_difference s a b (so_kind operator \<in> {OpSubtract, OpDecrement}) ty)
    (add_sub_lower axm_ops source_values spans recipe s operator terms a b ty)"
proof -
  have small: "\<not> 2 ^ 32 \<le> isqrt (ty_width ty) + 1" using isqrt_u32 assms(4) by (simp add: word_type_ok_def not_le)
  note r = ripple_add_sub_bits_axm [OF assms(1-4)] brent_kung_add_sub_bits_axm [OF assms(1-4)] kogge_stone_add_sub_bits_axm [OF assms(1-4)]
    hybrid_add_sub_bits_axm [OF assms(1-4)] constant_add_sub_bits_axm [OF assms(1-4)]
  show ?thesis
    using assms(5-8) small
    by (cases "so_kind operator")
      (auto simp: add_sub_recipes_def add_sub_lower_def region_recipe_def r split: if_splits)
qed

section \<open>Fused regions\<close>

text \<open>The bits of a value, and the number it has at a type.\<close>

definition span_of :: "(ValueId \<Rightarrow> SynthError + ScalarBit list) \<Rightarrow> ValueId \<Rightarrow> ScalarBit list"
  where "span_of spans v = (case spans v of Inl e \<Rightarrow> [] | Inr xs \<Rightarrow> xs)"

definition span_number :: "BitBlaster \<Rightarrow> (ValueId \<Rightarrow> SynthError + ScalarBit list) \<Rightarrow> env \<Rightarrow> ValueId \<Rightarrow> WordType \<Rightarrow> int"
  where "span_number s spans env v ty = operand_number s env (span_of spans v, ty) True"

text \<open>
  The terms of a region as the architecture plan records them: values that were lowered, at their
  own width, and constant inputs whose bits are constants.
\<close>

definition axm_value :: "BitBlaster \<Rightarrow> (ValueId \<Rightarrow> SynthError + ScalarBit list) \<Rightarrow> ValueId \<Rightarrow> WordType \<Rightarrow> bool"
  where "axm_value s spans v ty \<longleftrightarrow> spans v = Inr (span_of spans v) \<and> axm_word s (span_of spans v, ty)"

fun axm_term :: "BitBlaster \<Rightarrow> (ValueId \<Rightarrow> SynthError + ScalarBit list) \<Rightarrow> ArithmeticTerm \<Rightarrow> bool"
  where
    "axm_term s spans (TermValue v ty negative) \<longleftrightarrow> axm_value s spans v ty"
  | "axm_term s spans (TermProduct (l, r) (lt, rt) ty negative index) \<longleftrightarrow>
      axm_value s spans l lt \<and> axm_value s spans r rt \<and>
      (case index of None \<Rightarrow> True | Some i \<Rightarrow> i < 2 \<and> all_constant (span_of spans (if i = 0 then l else r), lt))"

definition axm_terms :: "BitBlaster \<Rightarrow> (ValueId \<rightharpoonup> ValueId) option \<Rightarrow> (ValueId \<Rightarrow> SynthError + ScalarBit list) \<Rightarrow> ArithmeticTerm list \<Rightarrow> bool"
  where "axm_terms s source_values spans terms \<longleftrightarrow>
    list_all (\<lambda>t. case local_arithmetic_term source_values t of Inl e \<Rightarrow> False | Inr t \<Rightarrow> axm_term s spans t) terms"

lemma axm_value_ok:
  assumes "axm_value s spans v ty"
  shows "axm.value_ok env s spans (\<lambda>v. map (bit_value s env) (span_of spans v)) v ty"
  using assms by (auto simp: axm.value_ok_def axm_value_def axm_word_def axm_operand_def axm_dens_iff)

lemma axm_term_ok:
  assumes "axm_term s spans t"
  shows "axm.term_ok env s spans (\<lambda>v. map (bit_value s env) (span_of spans v)) t"
proof (cases t)
  case (TermValue v ty negative)
  with assms axm_value_ok show ?thesis by simp
next
  case (TermProduct inputs types ty negative index)
  obtain l r lt rt where p: "inputs = (l, r)" "types = (lt, rt)" by (cases inputs; cases types)
  have v: "axm_value s spans l lt" "axm_value s spans r rt" using assms by (simp_all add: TermProduct p)
  have "i < 2 \<and> axm.all_known s xs" if "index = Some i" "spans (if i = 0 then l else r) = Inr xs" for i xs
    using assms that all_constant_known [of "(span_of spans (if i = 0 then l else r), lt)" s]
    by (simp add: TermProduct p span_of_def)
  moreover have "i < 2" if "index = Some i" for i using assms that by (simp add: TermProduct p)
  ultimately show ?thesis using v axm_value_ok unfolding TermProduct p axm.term_ok.simps by blast
qed

lemma region_axm:
  assumes "axm_good s" and "word_type_ok ty" and "axm_terms s source_values spans terms"
    and "2 \<le> length terms" and "3 \<le> length terms \<or> so_product_term_count operator \<noteq> 0" and "length terms = so_term_count operator"
    and "rr_schedule recipe = Dadda \<Longrightarrow> (ty_width ty + 2) * length terms < 2 ^ 63 - 1"
  shows "axm_computes s (ty_width ty) (\<lambda>env. region_val source_values (span_number s spans env) terms mod 2 ^ ty_width ty)
    (arithmetic_region_bits axm_ops source_values spans s operator terms recipe ty)"
proof (rule axm_computesI_vec)
  fix env
  have ty: "0 < ty_width ty" "ty_width ty < 2 ^ 32" using assms(2) by (simp_all add: word_type_ok_def)
  have t: "\<exists>t'. local_arithmetic_term source_values t = Inr t' \<and>
      axm.term_ok env s spans (\<lambda>v. map (bit_value s env) (span_of spans v)) t'" if "t \<in> set terms" for t
    using assms(3) that axm_term_ok
    by (cases "local_arithmetic_term source_values t") (auto simp: axm_terms_def list_all_iff split: sum.splits)
  have n: "operand_val (map (bit_value s env) (span_of spans v), ty) True = span_number s spans env v ty" for v ty
    by (simp add: span_number_def operand_number_def bit_values_def)
  show "axm.sim s (arithmetic_region_bits axm_ops source_values spans s operator terms recipe ty)
      (Inr (region_val source_values (span_number s spans env) terms), ()) (axm.vec_is env (ty_width ty))"
    using axm.sim_arithmetic_region_bits [OF assms(1) ty assms(4-6) t assms(7)] unfolding n by simp
qed

text \<open>
  C34: every recipe the provider offers for a fused region (each of the four compression schedules
  with each final adder and each product encoding) builds the sum of the signed values and products
  of the region modulo the width of the result. The bound on the number of rows is where the
  saturating targets of the Dadda schedule would stop growing.
\<close>

theorem region_lower_correct:
  assumes "axm_good s" and "word_type_ok ty" and "axm_terms s source_values spans terms"
    and "2 \<le> length terms" and "3 \<le> length terms \<or> so_product_term_count operator \<noteq> 0" and "length terms = so_term_count operator"
    and "(ty_width ty + 2) * length terms < 2 ^ 63 - 1"
    and "so_kind operator = OpSum" and "recipe \<in> set (add_sub_recipes operator)"
  shows "axm_computes s (ty_width ty) (\<lambda>env. region_val source_values (span_number s spans env) terms mod 2 ^ ty_width ty)
    (add_sub_lower axm_ops source_values spans recipe s operator terms a b ty)"
proof -
  have "set (add_sub_recipes operator) \<subseteq> {9..<37}"
    using assms(8) by (auto simp: add_sub_recipes_def in_set_enumerate_eq split: if_splits)
  with assms(9) have "9 \<le> recipe \<and> recipe < 37" by auto
  then obtain region where "region_recipe recipe = Some region" by (force simp: region_recipe_def Let_def)
  with region_axm [OF assms(1-6), of region] assms(7) show ?thesis by (simp add: add_sub_lower_def Let_def)
qed

section \<open>Concrete instances\<close>

definition demo_operator :: "OperatorKind \<Rightarrow> SemanticOperator"
  where "demo_operator kind = \<lparr>so_kind = kind, so_width = 4, so_constant_input = None, so_term_count = 2,
    so_product_term_count = 1, so_variable_product_term_count = 1\<rparr>"

definition demo_spans :: "ValueId \<Rightarrow> SynthError + ScalarBit list"
  where "demo_spans v = (if v = ValueId 1 then Inr (fst demo_left) else Inr (fst demo_right))"

text \<open>The difference of a value and a product: \<open>x - x * y\<close>.\<close>

definition demo_terms :: "ArithmeticTerm list"
  where "demo_terms = [TermValue (ValueId 1) (snd demo_left) False,
    TermProduct (ValueId 1, ValueId 2) (snd demo_left, snd demo_right) (demo_ty 4) True None]"

theorem add_sub_lower_correct_witness:
  "axm_good demo \<and> axm_computes demo 4 (sum_or_difference demo demo_left demo_right True (demo_ty 4))
     (add_sub_lower axm_ops None demo_spans 3 demo (demo_operator OpSubtract) [] demo_left demo_right (demo_ty 4))"
  using add_sub_lower_correct [OF demo_good demo_operands(1,2) demo_type, of "demo_operator OpSubtract" 3 None demo_spans "[]"] demo_good
  by (simp add: demo_ty_def demo_operator_def add_sub_recipes_def)

theorem region_lower_correct_witness:
  "axm_terms demo None demo_spans demo_terms \<and>
   axm_computes demo 4 (\<lambda>env. region_val None (span_number demo demo_spans env) demo_terms mod 2 ^ 4)
     (add_sub_lower axm_ops None demo_spans 32 demo (demo_operator OpSum) demo_terms demo_left demo_right (demo_ty 4))"
proof -
  have t: "axm_terms demo None demo_spans demo_terms"
    using demo_words by (simp add: axm_terms_def demo_terms_def local_arithmetic_term_def local_source_value_def
        axm_value_def span_of_def demo_spans_def)
  moreover have "32 \<in> set (add_sub_recipes (demo_operator OpSum))"
    by (simp add: add_sub_recipes_def demo_operator_def in_set_enumerate_eq)
  ultimately show ?thesis
    using region_lower_correct [OF demo_good demo_type t, of "demo_operator OpSum" 32 demo_left demo_right]
    by (simp add: demo_terms_def demo_operator_def demo_ty_def)
qed

end
