(* ===== verification/Packed_Rows.thy ===== *)
theory Packed_Rows
  imports Prelude "HOL-Library.Multiset"
begin

text \<open>
  Compressed row storage, \<^verbatim>\<open>crates/opto-core/src/rows.rs\<close>: one vector of offsets and one vector of
  values. The counting sort of \<^verbatim>\<open>try_from_entries\<close> moves the entries to their rows in place, by
  following the cycles of a permutation; it ends, keeps the order inside every row and stores each
  row where \<^verbatim>\<open>get\<close> finds it. Offsets are the 32-bit integers of the sources, kept as natural numbers
  with their capacity checks written out; an allocation never fails in the model.
\<close>

section \<open>Storage and construction\<close>

datatype PackedRowsError = RowOutOfBounds nat nat | RowsCapacity

record 'a PackedRows =
  pr_offsets :: "nat list"
  pr_values :: "'a list"

definition u32_try_from :: "nat \<Rightarrow> nat option"
  where "u32_try_from n = (if n < 2 ^ 32 then Some n else None)"

subsection \<open>The incremental builder\<close>

definition rows_try_with_capacity :: "nat \<Rightarrow> nat \<Rightarrow> PackedRowsError + 'a PackedRows"
  where "rows_try_with_capacity row_capacity value_capacity =
    (if u32_try_from row_capacity = None \<or> u32_try_from value_capacity = None then Inl RowsCapacity
     else Inr \<lparr>pr_offsets = [0], pr_values = []\<rparr>)"

definition try_push_row :: "'a PackedRows \<Rightarrow> 'a list \<Rightarrow> ('a PackedRows, PackedRowsError, unit) outcome"
  where "try_push_row b row =
    (if u32_try_from (length (pr_offsets b)) = None then (Inl RowsCapacity, b)
     else let new_value_count = length (pr_values b) + length row
     in if u32_try_from new_value_count = None then (Inl RowsCapacity, b)
     else (Inr (), \<lparr>pr_offsets = pr_offsets b @ [new_value_count], pr_values = pr_values b @ row\<rparr>))"

definition rows_finish :: "'a PackedRows \<Rightarrow> 'a PackedRows"
  where "rows_finish b = b"

subsection \<open>Access\<close>

definition row_range :: "'a PackedRows \<Rightarrow> nat \<Rightarrow> (nat \<times> nat) option"
  where "row_range rows row =
    (case list_get (pr_offsets rows) row of None \<Rightarrow> None
     | Some start \<Rightarrow> (case list_get (pr_offsets rows) (row + 1) of None \<Rightarrow> None
       | Some stop \<Rightarrow> Some (start, stop)))"

text \<open>Slicing by a range returns nothing when the range is reversed or ends past the vector.\<close>

definition slice_get :: "'a list \<Rightarrow> nat \<Rightarrow> nat \<Rightarrow> 'a list option"
  where "slice_get xs start stop =
    (if start \<le> stop \<and> stop \<le> length xs then Some (take (stop - start) (drop start xs)) else None)"

definition rows_get :: "'a PackedRows \<Rightarrow> nat \<Rightarrow> 'a list option"
  where "rows_get rows row =
    (case row_range rows row of None \<Rightarrow> None | Some (start, stop) \<Rightarrow> slice_get (pr_values rows) start stop)"

definition row_count :: "'a PackedRows \<Rightarrow> nat"
  where "row_count rows = length (pr_offsets rows) - 1"

definition rows_row :: "'a PackedRows \<Rightarrow> nat \<Rightarrow> string + 'a list"
  where "rows_row rows row =
    (case rows_get rows row of None \<Rightarrow> Inl ''packed row index is in bounds'' | Some xs \<Rightarrow> Inr xs)"

definition value_count :: "'a PackedRows \<Rightarrow> nat"
  where "value_count rows = length (pr_values rows)"

subsection \<open>Packing whole rows\<close>

fun rows_value_count :: "nat \<Rightarrow> 'a list list \<Rightarrow> nat option"
  where
    "rows_value_count used [] = Some used"
  | "rows_value_count used (row # rows) =
      (case u32_try_from (used + length row) of None \<Rightarrow> None | Some n \<Rightarrow> rows_value_count n rows)"

fun push_rows :: "'a PackedRows \<Rightarrow> 'a list list \<Rightarrow> 'a PackedRows option"
  where
    "push_rows p [] = Some p"
  | "push_rows p (row # rows) =
      (case u32_try_from (length (pr_values p) + length row) of None \<Rightarrow> None
       | Some n \<Rightarrow> push_rows \<lparr>pr_offsets = pr_offsets p @ [n], pr_values = pr_values p @ row\<rparr> rows)"

definition try_from_rows :: "'a list list \<Rightarrow> PackedRowsError + 'a PackedRows"
  where "try_from_rows rows =
    (if u32_try_from (length rows) = None \<or> rows_value_count 0 rows = None then Inl RowsCapacity
     else case push_rows \<lparr>pr_offsets = [0], pr_values = []\<rparr> rows of None \<Rightarrow> Inl RowsCapacity | Some p \<Rightarrow> Inr p)"

text \<open>
  Rows that come as iterators are checked value by value; \<open>minimum_rows\<close> is the lower bound on their
  number the iterator reports.
\<close>

fun push_row_values :: "'a list \<Rightarrow> 'a list \<Rightarrow> 'a list option"
  where
    "push_row_values values [] = Some values"
  | "push_row_values values (value # row) =
      (if u32_try_from (length values + 1) = None then None else push_row_values (values @ [value]) row)"

fun push_row_iter :: "'a PackedRows \<Rightarrow> 'a list list \<Rightarrow> 'a PackedRows option"
  where
    "push_row_iter p [] = Some p"
  | "push_row_iter p (row # rows) =
      (if u32_try_from (length (pr_offsets p)) = None then None
       else case push_row_values (pr_values p) row of None \<Rightarrow> None
       | Some values \<Rightarrow> (case u32_try_from (length values) of None \<Rightarrow> None
         | Some n \<Rightarrow> push_row_iter \<lparr>pr_offsets = pr_offsets p @ [n], pr_values = values\<rparr> rows))"

definition try_from_row_iter :: "nat \<Rightarrow> 'a list list \<Rightarrow> PackedRowsError + 'a PackedRows"
  where "try_from_row_iter minimum_rows rows =
    (if u32_try_from minimum_rows = None then Inl RowsCapacity
     else case push_row_iter \<lparr>pr_offsets = [0], pr_values = []\<rparr> rows of None \<Rightarrow> Inl RowsCapacity | Some p \<Rightarrow> Inr p)"

subsection \<open>Packing scattered entries\<close>

text \<open>\<open>offsets[row + 1]\<close> counts the entries of \<open>row\<close>.\<close>

fun count_entries :: "nat list \<Rightarrow> (nat \<times> 'a) list \<Rightarrow> nat list option"
  where
    "count_entries offsets [] = Some offsets"
  | "count_entries offsets ((row, value) # entries) =
      (case u32_try_from (offsets ! (row + 1) + 1) of None \<Rightarrow> None
       | Some n \<Rightarrow> count_entries (offsets[row + 1 := n]) entries)"

fun accumulate_offsets :: "nat list \<Rightarrow> nat list \<Rightarrow> nat list option"
  where
    "accumulate_offsets offsets [] = Some offsets"
  | "accumulate_offsets offsets (row # rows) =
      (case u32_try_from (offsets ! row + offsets ! (row - 1)) of None \<Rightarrow> None
       | Some n \<Rightarrow> accumulate_offsets (offsets[row := n]) rows)"

fun entry_destinations :: "nat list \<Rightarrow> (nat \<times> 'a) list \<Rightarrow> nat list"
  where
    "entry_destinations cursors [] = []"
  | "entry_destinations cursors ((row, value) # entries) =
      cursors ! row # entry_destinations (cursors[row := cursors ! row + 1]) entries"

definition swap_at :: "nat \<Rightarrow> nat \<Rightarrow> 'b list \<Rightarrow> 'b list"
  where "swap_at i j xs = xs[i := xs ! j, j := xs ! i]"

text \<open>
  The inner loop swaps until the entry at \<open>index\<close> is in place. It runs forever on destinations that
  are not a permutation, so it is a partial function; \<open>settle_returns\<close> shows that it ends here.
\<close>

partial_function (option) settle ::
  "nat \<Rightarrow> 'b list \<Rightarrow> nat list \<Rightarrow> ('b list \<times> nat list) option"
  where [code]: "settle index entries destinations =
    (let destination = destinations ! index
     in if destination = index then Some (entries, destinations)
        else settle index (swap_at index destination entries) (swap_at index destination destinations))"

fun place_entries :: "nat list \<Rightarrow> 'b list \<Rightarrow> nat list \<Rightarrow> 'b list option"
  where
    "place_entries [] entries destinations = Some entries"
  | "place_entries (index # indices) entries destinations =
      (case settle index entries destinations of None \<Rightarrow> None
       | Some (entries, destinations) \<Rightarrow> place_entries indices entries destinations)"

text \<open>The outer option is the one of the loop: \<open>None\<close> would mean that it does not return.\<close>

definition try_from_entries :: "nat \<Rightarrow> (nat \<times> 'a) list \<Rightarrow> (PackedRowsError + 'a PackedRows) option"
  where "try_from_entries rows entries =
    (if u32_try_from rows = None then Some (Inl RowsCapacity)
     else case find (\<lambda>entry. fst entry \<ge> rows) entries of
       Some (row, _) \<Rightarrow> Some (Inl (RowOutOfBounds row rows))
     | None \<Rightarrow>
       if u32_try_from (length entries) = None then Some (Inl RowsCapacity)
       else case count_entries (replicate (rows + 1) 0) entries of
         None \<Rightarrow> Some (Inl RowsCapacity)
       | Some counts \<Rightarrow>
         (case accumulate_offsets counts [1..<length counts] of
            None \<Rightarrow> Some (Inl RowsCapacity)
          | Some offsets \<Rightarrow>
            map_option (\<lambda>entries. Inr \<lparr>pr_offsets = offsets, pr_values = map snd entries\<rparr>)
              (place_entries [0..<length entries] entries
                (entry_destinations (take rows offsets) entries))))"

section \<open>Where the entries of a row go\<close>

text \<open>The first position of a row, and the position of the entry at \<open>j\<close>: a stable counting sort.\<close>

definition entries_below :: "(nat \<times> 'a) list \<Rightarrow> nat \<Rightarrow> nat"
  where "entries_below es r = length (filter (\<lambda>e. fst e < r) es)"

definition entries_of :: "(nat \<times> 'a) list \<Rightarrow> nat \<Rightarrow> (nat \<times> 'a) list"
  where "entries_of es r = filter (\<lambda>e. fst e = r) es"

definition sort_position :: "(nat \<times> 'a) list \<Rightarrow> nat \<Rightarrow> nat"
  where "sort_position es j = entries_below es (fst (es ! j)) + length (entries_of (take j es) (fst (es ! j)))"

lemma entries_below_Suc: "entries_below es (Suc r) = entries_below es r + length (entries_of es r)"
  by (induction es) (auto simp: entries_below_def entries_of_def)

lemma entries_below_0 [simp]: "entries_below es 0 = 0"
  by (simp add: entries_below_def)

lemma entries_below_mono: "r \<le> r' \<Longrightarrow> entries_below es r \<le> entries_below es r'"
  by (induction r' rule: dec_induct) (auto simp: entries_below_Suc)

lemma entries_below_le: "entries_below es r \<le> length es"
  by (simp add: entries_below_def)

lemma entries_of_take_less:
  assumes "j < length es" and "fst (es ! j) = r"
  shows "length (entries_of (take j es) r) < length (entries_of es r)"
proof -
  have "es = take j es @ es ! j # drop (Suc j) es" using assms(1) by (simp add: id_take_nth_drop)
  then have "entries_of es r = entries_of (take j es) r @ es ! j # entries_of (drop (Suc j) es) r"
    using assms(2) unfolding entries_of_def by (metis (mono_tags, lifting) filter.simps(2) filter_append)
  then show ?thesis by simp
qed

lemma entries_of_take_mono:
  assumes "i < j" and "j \<le> length es" and "fst (es ! i) = r"
  shows "length (entries_of (take i es) r) < length (entries_of (take j es) r)"
proof -
  have "take i (take j es) = take i es" "take j es ! i = es ! i" using assms(1,2) by simp_all
  then show ?thesis using entries_of_take_less [of i "take j es" r] assms by simp
qed

lemma sort_position_bounds:
  assumes "j < length es" and "fst (es ! j) = r"
  shows "entries_below es r \<le> sort_position es j" and "sort_position es j < entries_below es (Suc r)"
  using entries_of_take_less [OF assms] assms(2) by (simp_all add: sort_position_def entries_below_Suc)

lemma sort_position_less:
  assumes "j < length es"
  shows "sort_position es j < length es"
  using sort_position_bounds(2) [OF assms refl] entries_below_le [of es "Suc (fst (es ! j))"] by simp

lemma sort_position_inj: "inj_on (sort_position es) {..<length es}"
proof (rule linorder_inj_onI')
  fix i j
  assume ij: "i \<in> {..<length es}" "j \<in> {..<length es}" "i < j"
  let ?r = "fst (es ! i)" and ?q = "fst (es ! j)"
  show "sort_position es i \<noteq> sort_position es j"
  proof (cases ?r ?q rule: linorder_cases)
    case less
    then have "entries_below es (Suc ?r) \<le> entries_below es ?q" by (intro entries_below_mono) simp
    with sort_position_bounds [of i es ?r] sort_position_bounds [of j es ?q] ij show ?thesis by simp
  next
    case equal
    have "length (entries_of (take i es) ?r) < length (entries_of (take j es) ?r)"
      by (rule entries_of_take_mono) (use ij in simp_all)
    with equal show ?thesis unfolding sort_position_def by simp
  next
    case greater
    then have "entries_below es (Suc ?q) \<le> entries_below es ?r" by (intro entries_below_mono) simp
    with sort_position_bounds [of i es ?r] sort_position_bounds [of j es ?q] ij show ?thesis by simp
  qed
qed

text \<open>The entry at place \<open>k\<close> of a row comes from a unique place of the input.\<close>

lemma entries_of_nth:
  assumes "k < length (entries_of es r)"
  shows "\<exists>j < length es. fst (es ! j) = r \<and> length (entries_of (take j es) r) = k \<and> entries_of es r ! k = es ! j"
  using assms
proof (induction es arbitrary: k)
  case Nil
  then show ?case by (simp add: entries_of_def)
next
  case (Cons e es)
  show ?case
  proof (cases "fst e = r \<and> k = 0")
    case True
    then show ?thesis by (intro exI [of _ 0]) (simp add: entries_of_def)
  next
    case False
    let ?k = "if fst e = r then k - 1 else k"
    have "?k < length (entries_of es r)" using Cons.prems False by (auto simp: entries_of_def)
    from Cons.IH [OF this] obtain j where j: "j < length es" "fst (es ! j) = r"
      "length (entries_of (take j es) r) = ?k" "entries_of es r ! ?k = es ! j" by blast
    then show ?thesis using False
      by (intro exI [of _ "Suc j"]) (auto simp: entries_of_def nth_Cons')
  qed
qed

lemma entries_of_position:
  assumes "k < length (entries_of es r)"
  shows "\<exists>j < length es. sort_position es j = entries_below es r + k \<and> entries_of es r ! k = es ! j"
  using entries_of_nth [OF assms] by (auto simp: sort_position_def)

section \<open>The cycle-following loop\<close>

definition index_permutation :: "nat list \<Rightarrow> bool"
  where "index_permutation ds \<longleftrightarrow> distinct ds \<and> set ds = {..<length ds}"

definition misplaced :: "nat list \<Rightarrow> nat"
  where "misplaced ds = card {i. i < length ds \<and> ds ! i \<noteq> i}"

lemma length_swap_at [simp]: "length (swap_at i j xs) = length xs"
  by (simp add: swap_at_def)

lemma zip_swap_at:
  "length xs = length ys \<Longrightarrow> i < length xs \<Longrightarrow> j < length xs \<Longrightarrow>
    zip (swap_at i j xs) (swap_at i j ys) = swap_at i j (zip xs ys)"
  by (simp add: swap_at_def zip_update [symmetric])

lemma mset_swap_at: "i < length xs \<Longrightarrow> j < length xs \<Longrightarrow> mset (swap_at i j xs) = mset xs"
  unfolding swap_at_def by (rule mset_swap)

lemma nth_swap_at:
  "i < length xs \<Longrightarrow> j < length xs \<Longrightarrow> k < length xs \<Longrightarrow>
    swap_at i j xs ! k = (if k = j then xs ! i else if k = i then xs ! j else xs ! k)"
  by (auto simp: swap_at_def nth_list_update)

lemma index_permutation_swap_at:
  "index_permutation ds \<Longrightarrow> i < length ds \<Longrightarrow> j < length ds \<Longrightarrow> index_permutation (swap_at i j ds)"
  unfolding index_permutation_def using mset_swap_at [of i ds j]
  by (metis length_swap_at mset_eq_imp_distinct_iff mset_eq_setD)

text \<open>Each swap puts one more entry in its place and moves none that is.\<close>

lemma swap_fixes:
  assumes "index_permutation ds" and "i < length ds" and "ds ! i \<noteq> i" and "k < length ds" and "ds ! k = k"
  shows "swap_at i (ds ! i) ds ! k = k"
proof -
  have d: "ds ! i < length ds" using assms(1,2) nth_mem unfolding index_permutation_def by fastforce
  have "k \<noteq> i" using assms(3,5) by blast
  with assms d show ?thesis by (simp add: nth_swap_at)
qed

lemma misplaced_swap_at:
  assumes "index_permutation ds" and "i < length ds" and "ds ! i \<noteq> i"
  shows "misplaced (swap_at i (ds ! i) ds) < misplaced ds"
proof -
  let ?d = "ds ! i"
  have d: "?d < length ds" using assms(1,2) nth_mem unfolding index_permutation_def by fastforce
  have "ds ! ?d \<noteq> ?d" using assms d unfolding index_permutation_def by (metis nth_eq_iff_index_eq)
  moreover have "swap_at i ?d ds ! ?d = ?d" using assms(2) d by (simp add: nth_swap_at)
  moreover have "swap_at i ?d ds ! k = k" if "k < length ds" "ds ! k = k" for k
    by (rule swap_fixes [OF assms that])
  ultimately have "{k. k < length ds \<and> swap_at i ?d ds ! k \<noteq> k} \<subset> {k. k < length ds \<and> ds ! k \<noteq> k}"
    using d by blast
  then show ?thesis unfolding misplaced_def length_swap_at by (intro psubset_card_mono) simp_all
qed

lemma settle_returns:
  assumes "index_permutation ds" and "i < length ds" and "length es = length ds"
  shows "\<exists>es' ds'. settle i es ds = Some (es', ds') \<and> index_permutation ds' \<and> length ds' = length ds \<and>
    length es' = length ds \<and> mset (zip ds' es') = mset (zip ds es) \<and> ds' ! i = i \<and>
    (\<forall>k < length ds. ds ! k = k \<longrightarrow> ds' ! k = k)"
  using assms
proof (induction "misplaced ds" arbitrary: ds es rule: less_induct)
  case less
  show ?case
  proof (cases "ds ! i = i")
    case True
    then show ?thesis using less.prems by (subst settle.simps) simp
  next
    case False
    let ?d = "ds ! i"
    have d: "?d < length ds" using less.prems(1,2) nth_mem unfolding index_permutation_def by fastforce
    let ?ds = "swap_at i ?d ds" and ?es = "swap_at i ?d es"
    have perm: "index_permutation ?ds" by (rule index_permutation_swap_at [OF less.prems(1,2) d])
    have "mset (zip ?ds ?es) = mset (zip ds es)"
      using less.prems d by (simp add: zip_swap_at mset_swap_at)
    moreover have "settle i es ds = settle i ?es ?ds" using False by (subst settle.simps) (simp add: Let_def)
    moreover have "\<forall>k < length ds. ds ! k = k \<longrightarrow> ?ds ! k = k"
      using swap_fixes [OF less.prems(1,2) False] by blast
    moreover obtain es' ds' where "settle i ?es ?ds = Some (es', ds')" "index_permutation ds'"
      "length ds' = length ?ds" "length es' = length ?ds" "mset (zip ds' es') = mset (zip ?ds ?es)" "ds' ! i = i"
      "\<forall>k < length ?ds. ?ds ! k = k \<longrightarrow> ds' ! k = k"
      using less.hyps [OF misplaced_swap_at [OF less.prems(1,2) False] perm, of ?es] less.prems by auto
    ultimately show ?thesis by auto
  qed
qed

lemma place_entries_returns:
  assumes "index_permutation ds" and "length es = length ds" and "set is \<subseteq> {..<length ds}"
    and "\<And>k. k < length ds \<Longrightarrow> k \<notin> set is \<Longrightarrow> ds ! k = k"
  shows "\<exists>es'. place_entries is es ds = Some es' \<and> length es' = length ds \<and>
    mset (zip [0..<length ds] es') = mset (zip ds es)"
  using assms
proof (induction "is" arbitrary: es ds)
  case Nil
  then have "ds = [0..<length ds]" by (intro nth_equalityI) auto
  with Nil show ?case by simp
next
  case (Cons i "is")
  have i: "i < length ds" using Cons.prems(3) by simp
  obtain es' ds' where s: "settle i es ds = Some (es', ds')" "index_permutation ds'" "length ds' = length ds"
    "length es' = length ds" "mset (zip ds' es') = mset (zip ds es)" "ds' ! i = i"
    "\<forall>k < length ds. ds ! k = k \<longrightarrow> ds' ! k = k"
    using settle_returns [OF Cons.prems(1) i Cons.prems(2)] by blast
  have fixed: "ds' ! k = k" if "k < length ds'" "k \<notin> set is" for k
    using s(3,6,7) that Cons.prems(4) [of k] by (cases "k = i") auto
  have "\<exists>e. place_entries is es' ds' = Some e \<and> length e = length ds' \<and>
      mset (zip [0..<length ds'] e) = mset (zip ds' es')"
    by (rule Cons.IH) (use s fixed Cons.prems(3) in auto)
  with s show ?case by auto
qed

lemma place_entries_nth:
  assumes "index_permutation ds" and "length es = length ds"
  shows "\<exists>es'. place_entries [0..<length es] es ds = Some es' \<and> length es' = length es \<and>
    (\<forall>j < length es. es' ! (ds ! j) = es ! j)"
proof -
  obtain es' where e: "place_entries [0..<length es] es ds = Some es'" "length es' = length es"
    "mset (zip [0..<length ds] es') = mset (zip ds es)"
    using place_entries_returns [OF assms, of "[0..<length es]"] assms(2) by (auto simp: atLeast0LessThan)
  have "es' ! (ds ! j) = es ! j" if j: "j < length es" for j
  proof -
    have "(ds ! j, es ! j) \<in> set (zip ds es)" using j assms(2) by (auto simp: set_zip)
    then have "(ds ! j, es ! j) \<in> set (zip [0..<length ds] es')" using mset_eq_setD [OF e(3)] by simp
    then show ?thesis by (auto simp: set_zip)
  qed
  with e show ?thesis by blast
qed

section \<open>The offsets\<close>

lemma count_entries_Some:
  assumes "\<forall>e \<in> set es. fst e + 1 < length os" and "\<forall>r < length os. os ! r + length es < 2 ^ 32"
  shows "\<exists>cs. count_entries os es = Some cs \<and> length cs = length os \<and>
    (\<forall>r. r + 1 < length os \<longrightarrow> cs ! (r + 1) = os ! (r + 1) + length (entries_of es r)) \<and> cs ! 0 = os ! 0"
  using assms
proof (induction es arbitrary: os)
  case Nil
  then show ?case by (simp add: entries_of_def)
next
  case (Cons e es)
  obtain row x where e: "e = (row, x)" by fastforce
  let ?os = "os[row + 1 := os ! (row + 1) + 1]"
  have r: "row + 1 < length os" using Cons.prems(1) e by simp
  have s: "u32_try_from (os ! (row + 1) + 1) = Some (os ! (row + 1) + 1)"
    using Cons.prems(2) r by (auto simp: u32_try_from_def)
  have b: "\<forall>r < length ?os. ?os ! r + length es < 2 ^ 32"
    using Cons.prems(2) r by (auto simp: nth_list_update dest: spec [of _ "row + 1"])
  obtain cs where "count_entries ?os es = Some cs" "length cs = length os"
    "\<forall>r. r + 1 < length os \<longrightarrow> cs ! (r + 1) = ?os ! (r + 1) + length (entries_of es r)" "cs ! 0 = os ! 0"
    using Cons.IH [of ?os] Cons.prems(1) b by auto
  then show ?case using s r by (auto simp: e entries_of_def nth_list_update)
qed

lemma accumulate_offsets_Some:
  assumes "\<And>r. r < m \<Longrightarrow> os ! r = f r" and "\<And>r. m \<le> r \<Longrightarrow> r < length os \<Longrightarrow> f r = os ! r + f (r - 1)"
    and "\<And>r. r < length os \<Longrightarrow> f r < 2 ^ 32" and "0 < m"
  shows "\<exists>os'. accumulate_offsets os [m..<length os] = Some os' \<and> length os' = length os \<and>
    (\<forall>r < length os. os' ! r = f r)"
  using assms
proof (induction "length os - m" arbitrary: m os)
  case 0
  then show ?case by simp
next
  case (Suc d)
  let ?os = "os[m := f m]"
  have m: "m < length os" using Suc.hyps(2) by simp
  have "os ! m + os ! (m - 1) = f m" using Suc.prems(1) [of "m - 1"] Suc.prems(2) [of m] Suc.prems(4) m by simp
  then have s: "u32_try_from (os ! m + os ! (m - 1)) = Some (f m)"
    using Suc.prems(3) [OF m] by (simp add: u32_try_from_def)
  have "\<exists>os'. accumulate_offsets ?os [Suc m..<length ?os] = Some os' \<and> length os' = length ?os \<and>
      (\<forall>r < length ?os. os' ! r = f r)"
  proof (rule Suc.hyps(1))
    show "d = length ?os - Suc m" using Suc.hyps(2) by simp
    show "?os ! r = f r" if "r < Suc m" for r
      using that Suc.prems(1) m by (cases "r = m") (simp_all add: nth_list_update)
    show "f r = ?os ! r + f (r - 1)" if "Suc m \<le> r" "r < length ?os" for r
      using that Suc.prems(2) [of r] by simp
    show "f r < 2 ^ 32" if "r < length ?os" for r using Suc.prems(3) [of r] that by simp
  qed simp
  then show ?case using s m by (simp add: upt_conv_Cons)
qed

lemma entry_destinations_positions:
  assumes "\<forall>e \<in> set es. fst e < length cs"
  shows "length (entry_destinations cs es) = length es \<and>
    (\<forall>j < length es. entry_destinations cs es ! j = cs ! fst (es ! j) + length (entries_of (take j es) (fst (es ! j))))"
  using assms
proof (induction es arbitrary: cs)
  case Nil
  then show ?case by simp
next
  case (Cons e es)
  obtain row x where e: "e = (row, x)" by fastforce
  let ?cs = "cs[row := cs ! row + 1]"
  have row: "row < length cs" using Cons.prems e by simp
  have IH: "length (entry_destinations ?cs es) = length es"
    "\<forall>j < length es. entry_destinations ?cs es ! j = ?cs ! fst (es ! j) + length (entries_of (take j es) (fst (es ! j)))"
    using Cons.IH [of ?cs] Cons.prems by simp_all
  have "entry_destinations cs (e # es) ! j =
      cs ! fst ((e # es) ! j) + length (entries_of (take j (e # es)) (fst ((e # es) ! j)))"
    if "j < length (e # es)" for j
  proof (cases j)
    case 0
    then show ?thesis by (simp add: e entries_of_def)
  next
    case (Suc k)
    with that IH(2) row show ?thesis by (auto simp: e entries_of_def nth_list_update)
  qed
  with IH(1) show ?case by (simp add: e)
qed

section \<open>Packed entries are grouped by row\<close>

definition groups_entries :: "nat \<Rightarrow> (nat \<times> 'a) list \<Rightarrow> 'a PackedRows \<Rightarrow> bool"
  where "groups_entries rows es p \<longleftrightarrow> row_count p = rows \<and> value_count p = length es \<and>
    (\<forall>r. rows_get p r = (if r < rows then Some (map snd (entries_of es r)) else None))"

lemma row_slice:
  assumes "length es' = length es" and "\<And>j. j < length es \<Longrightarrow> es' ! sort_position es j = es ! j"
  shows "take (length (entries_of es r)) (drop (entries_below es r) es') = entries_of es r"
proof (rule nth_equalityI)
  have le: "entries_below es r + length (entries_of es r) \<le> length es'"
    using entries_below_le [of es "Suc r"] assms(1) by (simp add: entries_below_Suc)
  then show "length (take (length (entries_of es r)) (drop (entries_below es r) es')) = length (entries_of es r)"
    by simp
  fix k
  assume "k < length (take (length (entries_of es r)) (drop (entries_below es r) es'))"
  then have k: "k < length (entries_of es r)" by simp
  obtain j where "j < length es" "sort_position es j = entries_below es r + k" "entries_of es r ! k = es ! j"
    using entries_of_position [OF k] by blast
  with assms(2) [of j] le k show "take (length (entries_of es r)) (drop (entries_below es r) es') ! k = entries_of es r ! k"
    by simp
qed

lemma rows_get_grouped:
  assumes "length os = rows + 1" and "\<forall>r < length os. os ! r = entries_below es r"
    and "length es' = length es" and "\<forall>j < length es. es' ! sort_position es j = es ! j"
  shows "groups_entries rows es \<lparr>pr_offsets = os, pr_values = map snd es'\<rparr>"
proof -
  have "rows_get \<lparr>pr_offsets = os, pr_values = map snd es'\<rparr> r = Some (map snd (entries_of es r))" if "r < rows" for r
  proof -
    have "entries_below es (Suc r) \<le> length es'" using entries_below_le [of es "Suc r"] assms(3) by simp
    with that assms(1,2) row_slice [OF assms(3), of r] assms(4) show ?thesis
      by (simp add: rows_get_def row_range_def list_get_def slice_get_def entries_below_Suc take_map drop_map)
  qed
  with assms(1,3) show ?thesis
    by (auto simp: groups_entries_def row_count_def value_count_def rows_get_def row_range_def list_get_def)
qed

lemma try_from_entries_groups:
  assumes "rows < 2 ^ 32" and "length es < 2 ^ 32" and "\<forall>e \<in> set es. fst e < rows"
  shows "\<exists>p. try_from_entries rows es = Some (Inr p) \<and> groups_entries rows es p"
proof -
  let ?zs = "replicate (rows + 1) (0 :: nat)"
  have "\<forall>e \<in> set es. fst e + 1 < length ?zs" using assms(3) by auto
  moreover have "\<forall>r < length ?zs. ?zs ! r + length es < 2 ^ 32"
    using assms(2) by (simp del: replicate.simps replicate_Suc)
  ultimately obtain cs where cs: "count_entries ?zs es = Some cs" "length cs = rows + 1"
    "\<forall>r. r + 1 < rows + 1 \<longrightarrow> cs ! (r + 1) = ?zs ! (r + 1) + length (entries_of es r)" "cs ! 0 = ?zs ! 0"
    using count_entries_Some [of es ?zs] by auto
  have "\<exists>os. accumulate_offsets cs [1..<length cs] = Some os \<and> length os = length cs \<and>
      (\<forall>r < length cs. os ! r = entries_below es r)"
  proof (rule accumulate_offsets_Some)
    show "cs ! r = entries_below es r" if "r < 1" for r using that cs(4) by simp
    show "entries_below es r = cs ! r + entries_below es (r - 1)" if "1 \<le> r" "r < length cs" for r
    proof -
      have "r \<noteq> 0" using that(1) by simp
      then obtain q where q: "r = Suc q" using not0_implies_Suc by blast
      with that cs(2) have "cs ! r = length (entries_of es q)" using cs(3) by (auto simp del: replicate.simps replicate_Suc)
      with q show ?thesis by (simp add: entries_below_Suc)
    qed
    show "entries_below es r < 2 ^ 32" for r using entries_below_le [of es r] assms(2) by simp
  qed simp
  then obtain os where os: "accumulate_offsets cs [1..<length cs] = Some os" "length os = rows + 1"
    "\<forall>r < length os. os ! r = entries_below es r" using cs(2) by auto
  let ?ds = "entry_destinations (take rows os) es"
  have pos: "length ?ds = length es" "\<forall>j < length es. ?ds ! j =
      take rows os ! fst (es ! j) + length (entries_of (take j es) (fst (es ! j)))"
    using entry_destinations_positions [of es "take rows os"] assms(3) os(2) by simp_all
  have "fst (es ! j) < rows \<and> os ! fst (es ! j) = entries_below es (fst (es ! j))" if "j < length es" for j
    using assms(3) that os(2,3) by (simp add: less_SucI)
  with pos os(2) have ds: "length ?ds = length es" "\<forall>j < length es. ?ds ! j = sort_position es j"
    by (simp_all add: sort_position_def)
  have "?ds = map (sort_position es) [0..<length es]" using ds by (intro nth_equalityI) simp_all
  then have set: "set ?ds = sort_position es ` {..<length es}" by (simp add: atLeast0LessThan)
  have "distinct ?ds"
    using ds inj_onD [OF sort_position_inj, of es] by (fastforce simp: distinct_conv_nth)
  moreover have "set ?ds = {..<length ?ds}"
    unfolding set ds(1) by (rule endo_inj_surj) (use sort_position_less sort_position_inj in auto)
  ultimately have "index_permutation ?ds" by (simp add: index_permutation_def)
  from place_entries_nth [OF this ds(1) [symmetric]] obtain es' where es': "place_entries [0..<length es] es ?ds = Some es'"
    "length es' = length es" "\<forall>j < length es. es' ! (?ds ! j) = es ! j" by blast
  have none: "find (\<lambda>e. fst e \<ge> rows) es = None" using assms(3) by (auto simp: find_None_iff)
  have "try_from_entries rows es = Some (Inr \<lparr>pr_offsets = os, pr_values = map snd es'\<rparr>)"
    unfolding try_from_entries_def using assms(1,2) none cs(1) os(1) es'(1)
    by (simp add: u32_try_from_def del: replicate.simps replicate_Suc upt_Suc)
  moreover have "groups_entries rows es \<lparr>pr_offsets = os, pr_values = map snd es'\<rparr>"
    by (rule rows_get_grouped) (use os es'(2,3) ds(2) in auto)
  ultimately show ?thesis by blast
qed

text \<open>
  C32: packing scattered entries always returns. It reports a capacity error only beyond 32 bits, the
  first entry whose row does not exist, and otherwise storage in which every row holds exactly its
  entries, in the order of the input, and no other row exists.
\<close>

theorem try_from_entries_correct:
  "\<exists>result. try_from_entries rows es = Some result \<and>
    (case result of
       Inl RowsCapacity \<Rightarrow> 2 ^ 32 \<le> rows \<or> 2 ^ 32 \<le> length es
     | Inl (RowOutOfBounds row n) \<Rightarrow> n = rows \<and> rows \<le> row \<and>
         (\<exists>before value after. es = before @ (row, value) # after \<and> (\<forall>e \<in> set before. fst e < rows))
     | Inr p \<Rightarrow> groups_entries rows es p)"
proof (cases "rows < 2 ^ 32")
  case False
  then show ?thesis by (simp add: try_from_entries_def u32_try_from_def)
next
  case rows: True
  show ?thesis
  proof (cases "find (\<lambda>e. fst e \<ge> rows) es")
    case None
    then have "\<forall>e \<in> set es. fst e < rows" by (auto simp: find_None_iff)
    then show ?thesis
      using try_from_entries_groups [OF rows, of es] None rows
      by (cases "length es < 2 ^ 32") (auto simp: try_from_entries_def u32_try_from_def)
  next
    case (Some e)
    obtain row x where e: "e = (row, x)" by fastforce
    obtain i where i0: "i < length es" "rows \<le> fst (es ! i)" "(row, x) = es ! i" "\<forall>j < i. \<not> rows \<le> fst (es ! j)"
      using Some unfolding e find_Some_iff by blast
    have "rows \<le> row" using i0(2) unfolding i0(3) [symmetric] by simp
    with i0 have i: "i < length es" "rows \<le> row" "es ! i = (row, x)" "\<forall>j < i. fst (es ! j) < rows"
      by (simp_all add: not_le)
    then have "es = take i es @ (row, x) # drop (Suc i) es" by (metis id_take_nth_drop)
    moreover have "\<forall>e \<in> set (take i es). fst e < rows" using i(1,4) by (fastforce simp: in_set_conv_nth)
    ultimately show ?thesis using Some rows i(2) e
      by (auto simp: try_from_entries_def u32_try_from_def)
  qed
qed

definition demo_entries :: "(nat \<times> nat) list"
  where "demo_entries = [(2, 10), (0, 11), (2, 12), (1, 13), (0, 14)]"

theorem try_from_entries_correct_witness:
  "\<exists>p. try_from_entries 4 demo_entries = Some (Inr p) \<and>
    rows_get p 0 = Some [11, 14] \<and> rows_get p 2 = Some [10, 12] \<and> rows_get p 3 = Some [] \<and> rows_get p 4 = None"
proof -
  obtain result where r: "try_from_entries 4 demo_entries = Some result"
    "case result of
       Inl RowsCapacity \<Rightarrow> 2 ^ 32 \<le> (4 :: nat) \<or> 2 ^ 32 \<le> length demo_entries
     | Inl (RowOutOfBounds row n) \<Rightarrow> n = 4 \<and> 4 \<le> row \<and>
         (\<exists>before value after. demo_entries = before @ (row, value) # after \<and> (\<forall>e \<in> set before. fst e < 4))
     | Inr p \<Rightarrow> groups_entries 4 demo_entries p"
    using try_from_entries_correct [of 4 demo_entries] by blast
  have small: "\<not> 4 \<le> row" if "demo_entries = before @ (row, x) # after" for before row x after
  proof -
    have "(row, x) \<in> set demo_entries" unfolding that by simp
    then show ?thesis by (auto simp: demo_entries_def)
  qed
  obtain p where p: "result = Inr p"
    using r(2) small by (cases result) (auto simp: demo_entries_def split: PackedRowsError.splits)
  with r show ?thesis by (auto simp: groups_entries_def entries_of_def demo_entries_def)
qed

section \<open>Rows appended one by one\<close>

text \<open>The rows a well-formed store holds.\<close>

definition rows_wf :: "'a PackedRows \<Rightarrow> bool"
  where "rows_wf p \<longleftrightarrow> pr_offsets p \<noteq> [] \<and> sorted (pr_offsets p) \<and> last (pr_offsets p) = length (pr_values p)"

definition rows_list :: "'a PackedRows \<Rightarrow> 'a list list"
  where "rows_list p = map (\<lambda>r. the (rows_get p r)) [0..<row_count p]"

lemma rows_wfD:
  assumes "rows_wf p"
  shows "pr_offsets p \<noteq> []" and "sorted (pr_offsets p)" and "0 < length (pr_offsets p)"
    and "pr_offsets p ! (length (pr_offsets p) - Suc 0) = length (pr_values p)"
    and "x \<in> set (pr_offsets p) \<Longrightarrow> x \<le> length (pr_values p)"
proof -
  show ne: "pr_offsets p \<noteq> []" and s: "sorted (pr_offsets p)" using assms by (simp_all add: rows_wf_def)
  then show "0 < length (pr_offsets p)" by simp
  have "last (pr_offsets p) = length (pr_values p)" using assms by (simp add: rows_wf_def)
  with ne show l: "pr_offsets p ! (length (pr_offsets p) - Suc 0) = length (pr_values p)" by (simp add: last_conv_nth)
  assume "x \<in> set (pr_offsets p)"
  then obtain i where i: "i < length (pr_offsets p)" "x = pr_offsets p ! i" by (auto simp: in_set_conv_nth)
  then have "x \<le> pr_offsets p ! (length (pr_offsets p) - Suc 0)" using s by (simp add: sorted_nth_mono)
  with l show "x \<le> length (pr_values p)" by simp
qed

lemma rows_get_Some_iff:
  assumes "rows_wf p"
  shows "rows_get p r \<noteq> None \<longleftrightarrow> r < row_count p"
proof -
  have "pr_offsets p ! Suc r \<le> length (pr_values p)" if "Suc r < length (pr_offsets p)"
    using that by (intro rows_wfD(5) [OF assms]) simp
  moreover have "pr_offsets p ! r \<le> pr_offsets p ! Suc r" if "Suc r < length (pr_offsets p)"
    by (rule sorted_nth_mono) (use assms that in \<open>auto simp: rows_wf_def\<close>)
  ultimately show ?thesis using assms
    by (auto simp: rows_get_def row_range_def list_get_def slice_get_def row_count_def)
qed

text \<open>Appending a row, as the builder and the packing of whole rows do it.\<close>

definition append_row :: "'a PackedRows \<Rightarrow> 'a list \<Rightarrow> 'a PackedRows"
  where "append_row p row =
    \<lparr>pr_offsets = pr_offsets p @ [length (pr_values p) + length row], pr_values = pr_values p @ row\<rparr>"

lemma rows_wf_append_row: "rows_wf p \<Longrightarrow> rows_wf (append_row p row)"
  using rows_wfD [of p] by (fastforce simp: rows_wf_def append_row_def sorted_append)

lemma rows_get_append_row_old:
  assumes "rows_wf p" and "r < row_count p"
  shows "rows_get (append_row p row) r = rows_get p r"
proof -
  have r: "Suc r < length (pr_offsets p)" using assms by (auto simp: row_count_def)
  have "rows_get p r \<noteq> None" using rows_get_Some_iff [OF assms(1)] assms(2) by simp
  with r show ?thesis
    by (auto simp: rows_get_def row_range_def list_get_def slice_get_def append_row_def nth_append split: if_splits)
qed

lemma rows_get_append_row_new:
  assumes "rows_wf p"
  shows "rows_get (append_row p row) (row_count p) = Some row"
  using rows_wfD [OF assms]
  by (simp add: rows_get_def row_range_def list_get_def slice_get_def append_row_def nth_append row_count_def)

lemma row_count_append_row: "rows_wf p \<Longrightarrow> row_count (append_row p row) = Suc (row_count p)"
  by (simp add: row_count_def append_row_def rows_wf_def Suc_pred)

lemma rows_list_append_row: "rows_wf p \<Longrightarrow> rows_list (append_row p row) = rows_list p @ [row]"
  by (simp add: rows_list_def row_count_append_row rows_get_append_row_old rows_get_append_row_new)

lemma rows_value_count_Some:
  "rows_value_count n rows = (if n + length (concat rows) < 2 ^ 32 \<or> rows = [] then Some (n + length (concat rows)) else None)"
  by (induction n rows rule: rows_value_count.induct) (auto simp: u32_try_from_def)

lemma push_rows_append:
  "rows_wf p \<Longrightarrow> length (pr_values p) + length (concat rows) < 2 ^ 32 \<Longrightarrow>
    \<exists>q. push_rows p rows = Some q \<and> rows_wf q \<and> rows_list q = rows_list p @ rows"
proof (induction rows arbitrary: p)
  case Nil
  then show ?case by simp
next
  case (Cons row rows)
  have "push_rows p (row # rows) = push_rows (append_row p row) rows"
    using Cons.prems(2) by (simp add: append_row_def u32_try_from_def)
  moreover have "\<exists>q. push_rows (append_row p row) rows = Some q \<and> rows_wf q \<and> rows_list q = rows_list (append_row p row) @ rows"
    by (rule Cons.IH [OF rows_wf_append_row [OF Cons.prems(1)]]) (use Cons.prems(2) in \<open>simp add: append_row_def\<close>)
  ultimately show ?case using rows_list_append_row [OF Cons.prems(1)] by auto
qed

lemma rows_wf_initial: "rows_wf \<lparr>pr_offsets = [0], pr_values = []\<rparr>" "rows_list \<lparr>pr_offsets = [0], pr_values = []\<rparr> = []"
  by (simp_all add: rows_wf_def rows_list_def row_count_def)

lemma push_row_values_Some:
  "push_row_values vs row = (if row = [] \<or> length vs + length row < 2 ^ 32 then Some (vs @ row) else None)"
  by (induction vs row rule: push_row_values.induct) (auto simp: u32_try_from_def)

lemma push_row_iter_eq:
  "length (pr_values p) < 2 ^ 32 \<Longrightarrow>
    push_row_iter p rows = (if rows = [] \<or> length (pr_offsets p) + length rows \<le> 2 ^ 32 then push_rows p rows else None)"
  by (induction p rows rule: push_row_iter.induct) (auto simp: push_row_values_Some u32_try_from_def)

lemma push_rows_None:
  "rows_value_count (length (pr_values p)) rows = None \<Longrightarrow> push_rows p rows = None"
  by (induction p rows rule: push_rows.induct) (auto simp: u32_try_from_def)

lemma try_from_row_iter_eq:
  assumes "minimum_rows \<le> length rows"
  shows "try_from_row_iter minimum_rows rows = try_from_rows rows"
proof -
  let ?p = "\<lparr>pr_offsets = [0], pr_values = []\<rparr> :: 'a PackedRows"
  have "rows_value_count 0 rows = None \<Longrightarrow> push_rows ?p rows = None" using push_rows_None [of ?p rows] by simp
  with assms push_row_iter_eq [of ?p rows] show ?thesis
    by (auto simp: try_from_row_iter_def try_from_rows_def u32_try_from_def)
qed



end
