(* ===== verification/Known_Bits.thy ===== *)
theory Known_Bits
  imports Word_Module Packed_Rows "HOL-Library.AList"
begin

text \<open>
  The known-bits analysis of \<^verbatim>\<open>crates/opto-ir/src/word/known_bits.rs\<close>: which bits of a word value
  are zero or one in every execution. Facts are pairs of bit masks in one arena of 64-bit words,
  evaluated on demand by a depth-first traversal with an explicit stack and kept until an
  append-only change of the module invalidates them.

  A panic of the sources (an index out of range, an addition beyond 32 bits in a checked build) is
  \<open>Inl\<close> of a message. Widths and bit indices are 32-bit integers, kept as natural numbers. Ordered
  maps are association lists, ordered sets sorted lists.
\<close>

section \<open>Facts\<close>

datatype KnownBit = Zero | One | Unknown

record FactWord =
  fw_zeros :: u64
  fw_ones :: u64

definition FactWord_default :: FactWord
  where "FactWord_default = \<lparr>fw_zeros = 0, fw_ones = 0\<rparr>"

record FactRange =
  fr_start :: "nat option"
  fr_width :: nat

type_synonym arena = "FactWord list"

definition fact_unknown :: "nat \<Rightarrow> FactRange"
  where "fact_unknown width = \<lparr>fr_start = None, fr_width = width\<rparr>"

definition fact_word :: "arena \<Rightarrow> FactRange \<Rightarrow> nat \<Rightarrow> FactWord"
  where "fact_word ar r index =
    (case fr_start r of None \<Rightarrow> FactWord_default
     | Some start \<Rightarrow> (case list_get ar (start + index) of None \<Rightarrow> FactWord_default | Some w \<Rightarrow> w))"

definition masked_bit :: "FactWord \<Rightarrow> nat \<Rightarrow> KnownBit"
  where "masked_bit w k =
    (let mask = push_bit k 1
     in if fw_zeros w AND mask \<noteq> 0 then Zero else if fw_ones w AND mask \<noteq> 0 then One else Unknown)"

definition fact_bit :: "arena \<Rightarrow> FactRange \<Rightarrow> nat \<Rightarrow> KnownBit"
  where "fact_bit ar r index =
    (if index \<ge> fr_width r then Unknown else masked_bit (fact_word ar r (index div 64)) (index mod 64))"

subsection \<open>Packed facts of at most 128 bits\<close>

record KnownBits128 =
  kb_width :: "8 word"
  kb_zeros :: "128 word"
  kb_ones :: "128 word"

fun packed_loop :: "KnownBits128 \<Rightarrow> KnownBit list \<Rightarrow> KnownBits128 option"
  where
    "packed_loop p [] = Some p"
  | "packed_loop p (x # bits) =
      (if unat (kb_width p) = 128 then None
       else let mask = push_bit (unat (kb_width p)) 1
       in packed_loop \<lparr>kb_width = kb_width p + 1,
            kb_zeros = (if x = Zero then kb_zeros p OR mask else kb_zeros p),
            kb_ones = (if x = One then kb_ones p OR mask else kb_ones p)\<rparr> bits)"

definition KnownBits128_from_bits :: "KnownBit list \<Rightarrow> SynthError + KnownBits128"
  where "KnownBits128_from_bits bits =
    (case packed_loop \<lparr>kb_width = 0, kb_zeros = 0, kb_ones = 0\<rparr> bits of
       None \<Rightarrow> Inl (WordFailure ''packed known-bit width must be between 1 and 128 bits'')
     | Some p \<Rightarrow>
         if kb_width p = 0 then Inl (WordFailure ''packed known-bit width must be between 1 and 128 bits'')
         else Inr p)"

definition KnownBits128_width :: "KnownBits128 \<Rightarrow> nat"
  where "KnownBits128_width p = unat (kb_width p)"

definition KnownBits128_bit :: "KnownBits128 \<Rightarrow> nat \<Rightarrow> KnownBit"
  where "KnownBits128_bit p index =
    (if index \<ge> KnownBits128_width p \<or> index \<ge> 128 then Unknown
     else let mask = push_bit index 1
     in if kb_zeros p AND mask \<noteq> 0 then Zero else if kb_ones p AND mask \<noteq> 0 then One else Unknown)"

text \<open>The constant of a fully known value, most significant bit first.\<close>

fun known_value :: "KnownBit \<Rightarrow> BitVal option"
  where "known_value Zero = Some BitZero" | "known_value One = Some BitOne" | "known_value Unknown = None"

definition known_constant :: "nat \<Rightarrow> (nat \<Rightarrow> KnownBit) \<Rightarrow> BitVal list option"
  where "known_constant width f =
    (let bits = map (\<lambda>index. known_value (f index)) (rev [0..<width])
     in if None \<in> set bits then None else if width < 2 ^ 32 then Some (map the bits) else None)"

definition KnownBits128_constant :: "KnownBits128 \<Rightarrow> BitVal list option"
  where "KnownBits128_constant p = known_constant (KnownBits128_width p) (KnownBits128_bit p)"

subsection \<open>Storing facts\<close>

definition word_count :: "nat \<Rightarrow> nat"
  where "word_count width = (width + 63) div 64"

definition masked_word :: "FactWord \<Rightarrow> nat \<Rightarrow> KnownBit \<Rightarrow> FactWord"
  where "masked_word w k x =
    (let mask = push_bit k 1; zeros = fw_zeros w AND NOT mask; ones = fw_ones w AND NOT mask
     in \<lparr>fw_zeros = (if x = Zero then zeros OR mask else zeros),
         fw_ones = (if x = One then ones OR mask else ones)\<rparr>)"

definition set_fact :: "arena \<Rightarrow> nat \<Rightarrow> KnownBit \<Rightarrow> arena"
  where "set_fact words index x =
    (if index div 64 < length words then words[index div 64 := masked_word (words ! (index div 64)) (index mod 64) x]
     else words)"

definition trim_words :: "nat \<Rightarrow> arena \<Rightarrow> arena"
  where "trim_words width words =
    (if words = [] \<or> width mod 64 = 0 then words
     else let mask = push_bit (width mod 64) 1 - 1; w = last words
     in words[length words - 1 := \<lparr>fw_zeros = fw_zeros w AND mask, fw_ones = fw_ones w AND mask\<rparr>])"

definition store_words :: "arena \<Rightarrow> nat \<Rightarrow> arena \<Rightarrow> FactRange \<times> arena"
  where "store_words words width ar =
    (let words = trim_words width words
     in if list_all (\<lambda>w. fw_zeros w = 0 \<and> fw_ones w = 0) words then (fact_unknown width, ar)
        else (\<lparr>fr_start = Some (length ar), fr_width = width\<rparr>, ar @ words))"

definition empty_words :: "nat \<Rightarrow> arena"
  where "empty_words width = replicate (word_count width) FactWord_default"

fun set_facts :: "arena \<Rightarrow> nat \<Rightarrow> KnownBit list \<Rightarrow> arena"
  where
    "set_facts words index [] = words"
  | "set_facts words index (x # xs) = set_facts (set_fact words index x) (index + 1) xs"

definition store_bits :: "KnownBit list \<Rightarrow> nat \<Rightarrow> arena \<Rightarrow> FactRange \<times> arena"
  where "store_bits bits width ar = store_words (set_facts (empty_words width) 0 (take width bits)) width ar"

definition store_generated :: "nat \<Rightarrow> (nat \<Rightarrow> KnownBit) \<Rightarrow> arena \<Rightarrow> FactRange \<times> arena"
  where "store_generated width f ar = store_words (set_facts (empty_words width) 0 (map f [0..<width])) width ar"

definition store_scalar :: "KnownBit \<Rightarrow> arena \<Rightarrow> FactRange \<times> arena"
  where "store_scalar x ar = store_bits [x] 1 ar"

definition copy_facts :: "FactRange \<Rightarrow> arena \<Rightarrow> FactRange \<times> arena"
  where "copy_facts r ar = store_generated (fr_width r) (fact_bit ar r) ar"

definition slice_facts :: "FactRange \<Rightarrow> nat \<Rightarrow> nat \<Rightarrow> arena \<Rightarrow> string + FactRange \<times> arena"
  where "slice_facts r lsb width ar =
    (if lsb = 0 \<and> width = fr_width r then Inr (r, ar)
     else if 0 < width \<and> lsb + (width - 1) \<ge> 2 ^ 32 then Inl ''attempt to add with overflow''
     else Inr (store_generated width (\<lambda>index. fact_bit ar r (lsb + index)) ar))"

section \<open>Facts about single bits\<close>

fun invert :: "KnownBit \<Rightarrow> KnownBit"
  where "invert Zero = One" | "invert One = Zero" | "invert Unknown = Unknown"

definition merge_equal :: "KnownBit \<Rightarrow> KnownBit \<Rightarrow> KnownBit"
  where "merge_equal left right = (if left = right then left else Unknown)"

definition bitwise :: "BinaryOp \<Rightarrow> KnownBit \<Rightarrow> KnownBit \<Rightarrow> KnownBit"
  where "bitwise op left right =
    (if op = BitAnd then
       (if left = Zero \<or> right = Zero then Zero else if left = One \<and> right = One then One else Unknown)
     else if op = BitOr then
       (if left = One \<or> right = One then One else if left = Zero \<and> right = Zero then Zero else Unknown)
     else if op = BitXor then
       (if left = Unknown \<or> right = Unknown then Unknown else if left = right then Zero else One)
     else Unknown)"

definition logical_binary :: "BinaryOp \<Rightarrow> KnownBit \<Rightarrow> KnownBit \<Rightarrow> KnownBit"
  where "logical_binary op left right =
    (if op = LogicalAnd then bitwise BitAnd left right else if op = LogicalOr then bitwise BitOr left right else Unknown)"

fun possibilities :: "KnownBit \<Rightarrow> bool list"
  where "possibilities Zero = [False]" | "possibilities One = [True]" | "possibilities Unknown = [False, True]"

datatype MergedBool = Unset | MergedKnown bool | MergedUnknown

fun merge_bool :: "MergedBool \<Rightarrow> bool \<Rightarrow> MergedBool"
  where
    "merge_bool Unset x = MergedKnown x"
  | "merge_bool (MergedKnown current) x = (if current = x then MergedKnown x else MergedUnknown)"
  | "merge_bool MergedUnknown x = MergedUnknown"

fun known_bool :: "MergedBool \<Rightarrow> KnownBit"
  where
    "known_bool (MergedKnown x) = (if x then One else Zero)"
  | "known_bool Unset = Unknown"
  | "known_bool MergedUnknown = Unknown"

definition fact_full_adder :: "KnownBit \<Rightarrow> KnownBit \<Rightarrow> KnownBit \<Rightarrow> KnownBit \<times> KnownBit"
  where "fact_full_adder left right carry =
    (let (sum, next) = fold (\<lambda>(l, r, c) (sum, next).
        let n = of_bool l + of_bool r + (of_bool c :: nat)
        in (merge_bool sum (odd n), merge_bool next (n \<ge> 2)))
      (List.product (possibilities left) (List.product (possibilities right) (possibilities carry))) (Unset, Unset)
     in (known_bool sum, known_bool next))"

section \<open>Facts about words\<close>

fun logical_loop :: "bool \<Rightarrow> KnownBit list \<Rightarrow> KnownBit"
  where
    "logical_loop all_zero [] = (if all_zero then Zero else Unknown)"
  | "logical_loop all_zero (x # xs) =
      (case x of One \<Rightarrow> One | Unknown \<Rightarrow> logical_loop False xs | Zero \<Rightarrow> logical_loop all_zero xs)"

fun reduction_and_loop :: "bool \<Rightarrow> KnownBit list \<Rightarrow> KnownBit"
  where
    "reduction_and_loop all_one [] = (if all_one then One else Unknown)"
  | "reduction_and_loop all_one (x # xs) =
      (case x of Zero \<Rightarrow> Zero | Unknown \<Rightarrow> reduction_and_loop False xs | One \<Rightarrow> reduction_and_loop all_one xs)"

fun reduction_xor_loop :: "bool \<Rightarrow> KnownBit list \<Rightarrow> KnownBit"
  where
    "reduction_xor_loop parity [] = (if parity then One else Zero)"
  | "reduction_xor_loop parity (x # xs) =
      (case x of Zero \<Rightarrow> reduction_xor_loop parity xs | One \<Rightarrow> reduction_xor_loop (\<not> parity) xs | Unknown \<Rightarrow> Unknown)"

abbreviation fact_bits :: "arena \<Rightarrow> FactRange \<Rightarrow> KnownBit list"
  where "fact_bits ar r \<equiv> map (fact_bit ar r) [0..<fr_width r]"

definition logical_value :: "arena \<Rightarrow> FactRange \<Rightarrow> KnownBit"
  where "logical_value ar r = logical_loop True (fact_bits ar r)"

definition reduction_and :: "arena \<Rightarrow> FactRange \<Rightarrow> KnownBit"
  where "reduction_and ar r = reduction_and_loop True (fact_bits ar r)"

definition reduction_xor :: "arena \<Rightarrow> FactRange \<Rightarrow> KnownBit"
  where "reduction_xor ar r = reduction_xor_loop False (fact_bits ar r)"

fun equality_loop :: "bool \<Rightarrow> (KnownBit \<times> KnownBit) list \<Rightarrow> KnownBit"
  where
    "equality_loop complete [] = (if complete then One else Unknown)"
  | "equality_loop complete ((left, right) # xs) =
      (if (left = Zero \<and> right = One) \<or> (left = One \<and> right = Zero) then Zero
       else equality_loop (complete \<and> left \<noteq> Unknown \<and> right \<noteq> Unknown) xs)"

definition equality :: "arena \<Rightarrow> FactRange \<Rightarrow> FactRange \<Rightarrow> KnownBit"
  where "equality ar left right =
    equality_loop True (map (\<lambda>i. (fact_bit ar left i, fact_bit ar right i)) [0..<max (fr_width left) (fr_width right)])"

fun adder_loop :: "KnownBit \<Rightarrow> (KnownBit \<times> KnownBit) list \<Rightarrow> KnownBit list"
  where
    "adder_loop carry [] = []"
  | "adder_loop carry ((a, b) # xs) = (let (sum, next) = fact_full_adder a b carry in sum # adder_loop next xs)"

definition fact_trailing_zeros :: "arena \<Rightarrow> FactRange \<Rightarrow> nat"
  where "fact_trailing_zeros ar r = length (takeWhile (\<lambda>x. x = Zero) (fact_bits ar r))"

definition fact_is_zero :: "arena \<Rightarrow> FactRange \<Rightarrow> bool"
  where "fact_is_zero ar r \<longleftrightarrow> fact_trailing_zeros ar r = fr_width r"

definition fact_is_one :: "arena \<Rightarrow> FactRange \<Rightarrow> bool"
  where "fact_is_one ar r \<longleftrightarrow>
    fr_width r > 0 \<and> fact_bit ar r 0 = One \<and> list_all (\<lambda>i. fact_bit ar r i = Zero) [1..<fr_width r]"

fun power_loop :: "nat option \<Rightarrow> nat \<Rightarrow> KnownBit list \<Rightarrow> nat option"
  where
    "power_loop one index [] = one"
  | "power_loop one index (x # xs) =
      (case x of Zero \<Rightarrow> power_loop one (index + 1) xs
       | One \<Rightarrow> if one = None then power_loop (Some index) (index + 1) xs else None
       | Unknown \<Rightarrow> None)"

definition power_of_two :: "arena \<Rightarrow> FactRange \<Rightarrow> nat option"
  where "power_of_two ar r = power_loop None 0 (fact_bits ar r)"

text \<open>\<^verbatim>\<open>usize\<close> has 64 bits.\<close>

fun usize_loop :: "nat \<Rightarrow> nat \<Rightarrow> KnownBit list \<Rightarrow> nat option"
  where
    "usize_loop n index [] = Some n"
  | "usize_loop n index (x # xs) =
      (case x of Zero \<Rightarrow> usize_loop n (index + 1) xs
       | One \<Rightarrow> if index < 64 then usize_loop (n OR 2 ^ index) (index + 1) xs else None
       | Unknown \<Rightarrow> None)"

definition known_usize :: "arena \<Rightarrow> FactRange \<Rightarrow> nat option"
  where "known_usize ar r = usize_loop 0 0 (fact_bits ar r)"

datatype ordering = Less | Equal | Greater

definition extended_fact :: "arena \<Rightarrow> bool \<Rightarrow> FactRange \<Rightarrow> nat \<Rightarrow> KnownBit"
  where "extended_fact ar sg r index =
    (if index < fr_width r then fact_bit ar r index
     else if sg then fact_bit ar r (fr_width r - 1) else Zero)"

fun compare_loop :: "(KnownBit \<times> KnownBit) list \<Rightarrow> ordering option"
  where
    "compare_loop [] = Some Equal"
  | "compare_loop ((left, right) # xs) =
      (if left = Zero \<and> right = One then Some Less
       else if left = One \<and> right = Zero then Some Greater
       else if left = Unknown \<or> right = Unknown then None
       else compare_loop xs)"

definition compare_facts :: "arena \<Rightarrow> FactRange \<Rightarrow> FactRange \<Rightarrow> bool \<Rightarrow> ordering option"
  where "compare_facts ar left right sg =
    (let width = max (fr_width left) (fr_width right);
         bits = map (\<lambda>i. (extended_fact ar sg left i, extended_fact ar sg right i)) (rev [0..<width]);
         l = extended_fact ar sg left (width - 1); r = extended_fact ar sg right (width - 1)
     in if sg \<and> l = One \<and> r = Zero then Some Less
        else if sg \<and> l = Zero \<and> r = One then Some Greater
        else if sg \<and> (l = Unknown \<or> r = Unknown) then None
        else compare_loop bits)"

section \<open>Transfer functions\<close>

definition u32_sat_add :: "nat \<Rightarrow> nat \<Rightarrow> nat"
  where "u32_sat_add a b = min (a + b) (2 ^ 32 - 1)"

definition usize_sat_add :: "nat \<Rightarrow> nat \<Rightarrow> nat"
  where "usize_sat_add a b = min (a + b) (2 ^ 64 - 1)"

fun ordering_holds :: "BinaryOp \<Rightarrow> ordering \<Rightarrow> bool"
  where
    "ordering_holds Lt ord = (ord = Less)"
  | "ordering_holds Le ord = (ord \<noteq> Greater)"
  | "ordering_holds Gt ord = (ord = Greater)"
  | "ordering_holds Ge ord = (ord \<noteq> Less)"
  | "ordering_holds _ ord = False"

definition derive_mul :: "FactRange \<Rightarrow> FactRange \<Rightarrow> nat \<Rightarrow> arena \<Rightarrow> FactRange \<times> arena"
  where "derive_mul left right width ar =
    (if fact_is_zero ar left \<or> fact_is_zero ar right then store_bits (replicate width Zero) width ar
     else if fact_is_one ar left \<and> fr_width right = width then copy_facts right ar
     else if fact_is_one ar right \<and> fr_width left = width then copy_facts left ar
     else case (if fr_width left = width then power_of_two ar right else None) of
       Some shift \<Rightarrow> store_generated width (\<lambda>i. if shift \<le> i then fact_bit ar left (i - shift) else Zero) ar
     | None \<Rightarrow> (case (if fr_width right = width then power_of_two ar left else None) of
       Some shift \<Rightarrow> store_generated width (\<lambda>i. if shift \<le> i then fact_bit ar right (i - shift) else Zero) ar
     | None \<Rightarrow>
         let zeros = min (u32_sat_add (fact_trailing_zeros ar left) (fact_trailing_zeros ar right)) width
         in store_bits (map (\<lambda>i. if i < zeros then Zero else Unknown) [0..<width]) width ar))"

definition shifted_fact :: "arena \<Rightarrow> BinaryOp \<Rightarrow> bool \<Rightarrow> FactRange \<Rightarrow> nat \<Rightarrow> nat \<Rightarrow> KnownBit"
  where "shifted_fact ar op sg left shift i =
    (if op = Shl then (if i < shift then Zero else fact_bit ar left (i - shift))
     else if usize_sat_add i shift \<ge> fr_width left then
       (if op = Ashr \<and> sg then fact_bit ar left (fr_width left - 1) else Zero)
     else fact_bit ar left (i + shift))"

definition derive_binary ::
  "BinaryOp \<Rightarrow> FactRange \<Rightarrow> FactRange \<Rightarrow> WordType \<Rightarrow> bool \<Rightarrow> arena \<Rightarrow> FactRange \<times> arena"
  where "derive_binary op left right result_ty comparison_signed ar =
    (let width = ty_width result_ty
     in if op \<in> {BitAnd, BitOr, BitXor} then
          store_generated width (\<lambda>i. bitwise op (fact_bit ar left i) (fact_bit ar right i)) ar
     else if op \<in> {Add, Sub} then
          store_bits (adder_loop (if op = Sub then One else Zero)
            (map (\<lambda>i. (fact_bit ar left i, if op = Sub then invert (fact_bit ar right i) else fact_bit ar right i))
              [0..<width])) width ar
     else if op = Mul then derive_mul left right width ar
     else if op \<in> {LogicalAnd, LogicalOr} then
          store_scalar (logical_binary op (logical_value ar left) (logical_value ar right)) ar
     else if op = Eq then store_scalar (equality ar left right) ar
     else if op = Ne then store_scalar (invert (equality ar left right)) ar
     else if op \<in> {Shl, Shr, Ashr} then
          (case known_usize ar right of
             None \<Rightarrow> (fact_unknown width, ar)
           | Some shift \<Rightarrow> store_generated width (shifted_fact ar op (ty_signed result_ty) left shift) ar)
     else if op \<in> {Lt, Le, Gt, Ge} then
          store_scalar (case compare_facts ar left right comparison_signed of
              None \<Rightarrow> Unknown | Some ord \<Rightarrow> if ordering_holds op ord then One else Zero) ar
     else (fact_unknown width, ar))"

end
