(* ===== verification/Word_Valid.thy ===== *)
theory Word_Valid
  imports Word_Module
begin

text \<open>
  Modules built through the methods of the word IR are valid. A call is a step from one module to
  the next, whether it succeeds or reports an error; every module reachable from an empty one passes
  the checks of \<^verbatim>\<open>validate\<close>, and all its types have a non-zero 32-bit width.
\<close>

section \<open>Checks\<close>

lemma check_all_Inr: "check_all f xs = Inr () \<longleftrightarrow> (\<forall>x \<in> set xs. f x = Inr ())"
  by (induction xs) (auto simp: rbind_def split: sum.splits)

lemma check_that_Inr [simp]: "check_that ok message = Inr () \<longleftrightarrow> ok"
  by (simp add: check_that_def)

lemma in_enumerate_iff: "(i, x) \<in> set (enumerate 0 xs) \<longleftrightarrow> i < length xs \<and> xs ! i = x"
  by (auto simp: in_set_enumerate_eq)

lemma validate_value_range: "validate_value m (i, v) = Inr () \<Longrightarrow> i + 1 < 2 ^ 32"
  by (auto simp: validate_value_def rbind_eq_Inr ValueId_from_index_def dense_from_index_def split: if_splits)

definition values_valid :: "WordModule \<Rightarrow> bool"
  where "values_valid m \<longleftrightarrow> (\<forall>i < length (wm_values m). validate_value m (i, wm_values m ! i) = Inr ())"

definition operations_valid :: "WordModule \<Rightarrow> bool"
  where "operations_valid m \<longleftrightarrow> (\<forall>i < length (wm_operations m). validate_operation m (i, wm_operations m ! i) = Inr ())"

definition ports_valid :: "WordModule \<Rightarrow> bool"
  where "ports_valid m \<longleftrightarrow> (\<forall>i < length (wm_ports m). validate_port m (i, wm_ports m ! i) = Inr ())"

definition connects_valid :: "WordModule \<Rightarrow> bool"
  where "connects_valid m \<longleftrightarrow> (\<forall>c \<in> set (wm_connects m). validate_connect m c = Inr ())"

lemma all_enumerate: "(\<forall>x \<in> set (enumerate 0 xs). P x) \<longleftrightarrow> (\<forall>i < length xs. P (i, xs ! i))"
  by (auto simp: in_enumerate_iff)

lemma WordModule_validate_iff:
  "WordModule_validate m = Inr () \<longleftrightarrow> ports_valid m \<and> values_valid m \<and> operations_valid m \<and> connects_valid m"
  by (simp add: WordModule_validate_def validate_ports_def validate_values_and_operations_def validate_connects_def
    rbind_eq_Inr check_all_Inr all_enumerate ports_valid_def values_valid_def operations_valid_def connects_valid_def)

section \<open>Growth\<close>

text \<open>Later modules keep the values, operations, signals (up to their resolution), names and ports of earlier ones.\<close>

definition grows :: "WordModule \<Rightarrow> WordModule \<Rightarrow> bool"
  where "grows m m' \<longleftrightarrow> wm_names m' = wm_names m \<and> wm_ports m' = wm_ports m \<and>
    length (wm_values m) \<le> length (wm_values m') \<and> (\<forall>i < length (wm_values m). wm_values m' ! i = wm_values m ! i) \<and>
    length (wm_operations m) \<le> length (wm_operations m') \<and>
    (\<forall>i < length (wm_operations m). wm_operations m' ! i = wm_operations m ! i) \<and>
    length (wm_signals m) \<le> length (wm_signals m') \<and>
    (\<forall>i < length (wm_signals m). sig_name (wm_signals m' ! i) = sig_name (wm_signals m ! i) \<and>
      sig_kind (wm_signals m' ! i) = sig_kind (wm_signals m ! i) \<and> sig_ty (wm_signals m' ! i) = sig_ty (wm_signals m ! i))"

lemma grows_refl [simp]: "grows m m"
  by (simp add: grows_def)

text \<open>A check that succeeds on the smaller module succeeds with the same result on the larger one.\<close>

definition keeps :: "'e + 'a \<Rightarrow> 'e + 'a \<Rightarrow> bool"
  where "keeps r r' \<longleftrightarrow> (\<forall>a. r = Inr a \<longrightarrow> r' = Inr a)"

lemma module_keepsD: "keeps r r' \<Longrightarrow> r = Inr a \<Longrightarrow> r' = Inr a"
  by (simp add: keeps_def)

named_theorems keeps_intro \<open>composition of checks that survive growth\<close>

lemma keeps_refl [keeps_intro]: "keeps r r"
  by (simp add: keeps_def)

lemma keeps_rbind [keeps_intro]: "keeps r r' \<Longrightarrow> (\<And>a. keeps (f a) (f' a)) \<Longrightarrow> keeps (rbind r f) (rbind r' f')"
  by (auto simp: keeps_def rbind_eq_Inr)

lemma keeps_if [keeps_intro]: "keeps x x' \<Longrightarrow> keeps y y' \<Longrightarrow> keeps (if c then x else y) (if c then x' else y')"
  by simp

lemma module_keeps_option [keeps_intro]:
  "keeps x x' \<Longrightarrow> (\<And>a. keeps (f a) (f' a)) \<Longrightarrow>
    keeps (case z of None \<Rightarrow> x | Some a \<Rightarrow> f a) (case z of None \<Rightarrow> x' | Some a \<Rightarrow> f' a)"
  by (cases z) simp_all

lemma module_keeps_prod [keeps_intro]: "(\<And>a b. keeps (f a b) (f' a b)) \<Longrightarrow> keeps (case z of (a, b) \<Rightarrow> f a b) (case z of (a, b) \<Rightarrow> f' a b)"
  by (cases z) simp

lemma keeps_check_all [keeps_intro]: "(\<And>x. keeps (f x) (f' x)) \<Longrightarrow> keeps (check_all f xs) (check_all f' xs)"
  by (induction xs) (auto intro: keeps_intro)

lemma grows_value_ty: "grows m m' \<Longrightarrow> keeps (value_ty m v) (value_ty m' v)"
  by (auto simp: keeps_def grows_def value_ty_def list_get_def)

lemma grows_signal_ty: "grows m m' \<Longrightarrow> keeps (signal_ty m s) (signal_ty m' s)"
  by (auto simp: keeps_def grows_def signal_ty_def list_get_def)

lemma grows_value: "grows m m' \<Longrightarrow> WordModule_value m v = Some x \<Longrightarrow> WordModule_value m' v = Some x"
  by (auto simp: grows_def WordModule_value_def list_get_def split: if_splits)

lemma grows_operation: "grows m m' \<Longrightarrow> WordModule_operation m i = Some x \<Longrightarrow> WordModule_operation m' i = Some x"
  by (auto simp: grows_def WordModule_operation_def list_get_def split: if_splits)

lemma grows_signal:
  "grows m m' \<Longrightarrow> WordModule_signal m s = Some x \<Longrightarrow>
    \<exists>y. WordModule_signal m' s = Some y \<and> sig_ty y = sig_ty x \<and> sig_name y = sig_name x \<and> sig_kind y = sig_kind x"
  by (auto simp: grows_def WordModule_signal_def list_get_def split: if_splits)

lemma grows_resolve_name: "grows m m' \<Longrightarrow> resolve_name m' n = resolve_name m n"
  by (simp add: grows_def resolve_name_def)

lemma grows_require: "grows m m' \<Longrightarrow> keeps (require_value_width m v w c) (require_value_width m' v w c)"
  unfolding require_value_width_def by (intro keeps_intro grows_value_ty)

lemma grows_concat_type: "grows m m' \<Longrightarrow> keeps (concat_type m w st parts) (concat_type m' w st parts)"
  by (induction parts arbitrary: w st) (auto intro!: keeps_intro grows_value_ty)

lemma grows_check_enable: "grows m m' \<Longrightarrow> keeps (check_enable m e c) (check_enable m' e c)"
  unfolding check_enable_def by (intro keeps_intro grows_require)

lemma grows_validate_resets: "grows m m' \<Longrightarrow> keeps (validate_resets m d rs latch) (validate_resets m' d rs latch)"
  unfolding validate_resets_def by (intro keeps_intro grows_value_ty grows_require)

lemma grows_state_name: "grows m m' \<Longrightarrow> keeps (validate_state_name m n) (validate_state_name m' n)"
  unfolding validate_state_name_def by (simp add: grows_resolve_name keeps_intro)

lemmas grows_checks = grows_value_ty grows_signal_ty grows_require grows_concat_type grows_check_enable
  grows_validate_resets grows_state_name

lemma grows_operation_type: "grows m m' \<Longrightarrow> keeps (operation_type m k) (operation_type m' k)"
  by (cases k; simp only: operation_type.simps; intro keeps_intro grows_checks)

lemma grows_lvalue_ty: "grows m m' \<Longrightarrow> keeps (lvalue_ty m lv) (lvalue_ty m' lv)"
  unfolding lvalue_ty_def by (intro keeps_intro grows_checks)

lemma grows_validate_connect: "grows m m' \<Longrightarrow> keeps (validate_connect m c) (validate_connect m' c)"
  unfolding validate_connect_def by (intro keeps_intro grows_checks grows_lvalue_ty)

lemma grows_validate_value:
  assumes "grows m m'" and "validate_value m (i, v) = Inr ()"
  shows "validate_value m' (i, v) = Inr ()"
proof (cases "v_kind v")
  case (SignalValue r)
  then obtain x where x: "WordModule_signal m (sr_signal r) = Some x"
    using assms(2) by (auto simp: validate_value_def rbind_eq_Inr split: option.splits)
  obtain y where y: "WordModule_signal m' (sr_signal r) = Some y" "sig_ty y = sig_ty x"
    using grows_signal [OF assms(1) x] by blast
  have "validate_value m' (i, v) = validate_value m (i, v)"
    by (simp only: validate_value_def prod.case SignalValue ValueKind.case x y option.case)
  with assms(2) show ?thesis by simp
next
  case (ConstantValue bits)
  with assms(2) show ?thesis by (simp add: validate_value_def)
next
  case (OperationValue j)
  then obtain x where x: "WordModule_operation m j = Some x"
    using assms(2) by (auto simp: validate_value_def rbind_eq_Inr split: option.splits)
  with OperationValue assms(2) grows_operation [OF assms(1) x] show ?thesis
    by (simp add: validate_value_def rbind_eq_Inr)
qed

lemma grows_validate_operation:
  assumes "grows m m'" and "validate_operation m (i, x) = Inr ()"
  shows "validate_operation m' (i, x) = Inr ()"
proof -
  obtain r where r: "WordModule_value m (op_result x) = Some r"
    using assms(2) by (auto simp: validate_operation_def rbind_eq_Inr split: option.splits)
  note r' = grows_value [OF assms(1) r]
  have "keeps (if WordModule_value m v = None then Inl e else z) (if WordModule_value m' v = None then Inl e else z)"
    for v and e and z :: "SynthError + unit"
    using grows_value [OF assms(1), of v] by (auto simp: keeps_def)
  then have "keeps (validate_operation m (i, x)) (validate_operation m' (i, x))"
    unfolding validate_operation_def prod.case r r' option.case
    by (intro keeps_intro grows_operation_type [OF assms(1)])
  from module_keepsD [OF this assms(2)] show ?thesis .
qed

lemma grows_validate_port:
  assumes "grows m m'" and "validate_port m (i, p) = Inr ()"
  shows "validate_port m' (i, p) = Inr ()"
proof -
  obtain x where x: "WordModule_signal m (port_signal p) = Some x"
    using assms(2) by (auto simp: validate_port_def rbind_eq_Inr split: option.splits)
  obtain y where "WordModule_signal m' (port_signal p) = Some y" "sig_ty y = sig_ty x" "sig_name y = sig_name x" "sig_kind y = sig_kind x"
    using grows_signal [OF assms(1) x] by blast
  with x assms show ?thesis by (simp add: validate_port_def rbind_eq_Inr grows_resolve_name)
qed

section \<open>Builders keep a module valid\<close>

definition types_ok :: "WordModule \<Rightarrow> bool"
  where "types_ok m \<longleftrightarrow> (\<forall>v \<in> set (wm_values m). 0 < ty_width (v_ty v) \<and> ty_width (v_ty v) < 2 ^ 32) \<and>
    (\<forall>s \<in> set (wm_signals m). 0 < ty_width (sig_ty s) \<and> ty_width (sig_ty s) < 2 ^ 32)"

definition module_ok :: "WordModule \<Rightarrow> bool"
  where "module_ok m \<longleftrightarrow> WordModule_validate m = Inr () \<and> types_ok m"

lemma module_ok_iff:
  "module_ok m \<longleftrightarrow> ports_valid m \<and> values_valid m \<and> operations_valid m \<and> connects_valid m \<and> types_ok m"
  by (auto simp: module_ok_def WordModule_validate_iff)

lemma value_ty_ok: "types_ok m \<Longrightarrow> value_ty m v = Inr ty \<Longrightarrow> 0 < ty_width ty \<and> ty_width ty < 2 ^ 32"
  by (auto simp: types_ok_def value_ty_def list_get_def split: if_splits)

lemma signal_ty_ok: "types_ok m \<Longrightarrow> signal_ty m s = Inr ty \<Longrightarrow> 0 < ty_width ty \<and> ty_width ty < 2 ^ 32"
  by (auto simp: types_ok_def signal_ty_def list_get_def split: if_splits)

lemma WordType_new_Inr: "WordType_new w sg st = Inr ty \<longleftrightarrow> 0 < w \<and> ty = \<lparr>ty_width = w, ty_signed = sg, ty_state = st\<rparr>"
  by (auto simp: WordType_new_def)

text \<open>A larger module keeps the old checks; what is new has to pass them too.\<close>

lemma module_ok_grows:
  assumes "module_ok m" and "grows m m'"
    and "\<And>i. length (wm_values m) \<le> i \<Longrightarrow> i < length (wm_values m') \<Longrightarrow> validate_value m' (i, wm_values m' ! i) = Inr ()"
    and "\<And>i. length (wm_operations m) \<le> i \<Longrightarrow> i < length (wm_operations m') \<Longrightarrow>
      validate_operation m' (i, wm_operations m' ! i) = Inr ()"
    and "\<And>c. c \<in> set (wm_connects m') \<Longrightarrow> c \<notin> set (wm_connects m) \<Longrightarrow> validate_connect m' c = Inr ()"
    and "types_ok m'"
  shows "module_ok m'"
proof -
  have "ports_valid m'" using assms(1,2) grows_validate_port [OF assms(2)]
    by (simp add: module_ok_iff ports_valid_def grows_def)
  moreover have "validate_value m' (i, wm_values m' ! i) = Inr ()" if "i < length (wm_values m')" for i
  proof (cases "i < length (wm_values m)")
    case True
    then have "wm_values m' ! i = wm_values m ! i" using assms(2) by (simp add: grows_def)
    with True assms(1) grows_validate_value [OF assms(2)] show ?thesis by (simp add: module_ok_iff values_valid_def)
  qed (use assms(3) that in simp)
  moreover have "validate_operation m' (i, wm_operations m' ! i) = Inr ()" if "i < length (wm_operations m')" for i
  proof (cases "i < length (wm_operations m)")
    case True
    then have "wm_operations m' ! i = wm_operations m ! i" using assms(2) by (simp add: grows_def)
    with True assms(1) grows_validate_operation [OF assms(2)] show ?thesis by (simp add: module_ok_iff operations_valid_def)
  qed (use assms(4) that in simp)
  moreover have "validate_connect m' c = Inr ()" if "c \<in> set (wm_connects m')" for c
    using assms(1,5) that module_keepsD [OF grows_validate_connect [OF assms(2)]]
    by (cases "c \<in> set (wm_connects m)") (auto simp: module_ok_iff connects_valid_def)
  ultimately show ?thesis using assms(6)
    by (simp add: module_ok_iff values_valid_def operations_valid_def connects_valid_def)
qed

lemma push_value_ok:
  assumes "module_ok m" and "push_value m k ty = (r, m')" and "0 < ty_width ty" "ty_width ty < 2 ^ 32"
    and "\<And>i. i + 1 < 2 ^ 32 \<Longrightarrow> i = length (wm_values m) \<Longrightarrow> validate_value m (i, \<lparr>v_kind = k, v_ty = ty\<rparr>) = Inr ()"
  shows "module_ok m'"
proof (cases "length (wm_values m) + 1 < 2 ^ 32")
  case False
  with assms(1,2) show ?thesis by (auto simp: push_value_def ValueId_from_index_def dense_from_index_def)
next
  case True
  with assms(2) have m': "m' = m\<lparr>wm_values := wm_values m @ [\<lparr>v_kind = k, v_ty = ty\<rparr>]\<rparr>"
    by (auto simp: push_value_def ValueId_from_index_def dense_from_index_def)
  have g: "grows m m'" by (simp add: m' grows_def nth_append)
  show ?thesis
  proof (rule module_ok_grows [OF assms(1) g])
    show "validate_value m' (i, wm_values m' ! i) = Inr ()"
      if "length (wm_values m) \<le> i" "i < length (wm_values m')" for i
      using that grows_validate_value [OF g assms(5) [OF True refl]] by (simp add: m' less_Suc_eq)
    show "types_ok m'" using assms(1,3,4) by (simp add: module_ok_iff types_ok_def m')
  qed (simp_all add: m')
qed

lemma operation_type_inputs:
  assumes "operation_type m k = Inr ty" and "v \<in> set (op_inputs k)"
  shows "ValueId_index v < length (wm_values m)"
proof -
  have "value_ty m v = Inr t \<Longrightarrow> ?thesis" for t by (auto simp: value_ty_def list_get_def split: if_splits)
  moreover have "require_value_width m v w c = Inr () \<Longrightarrow> \<exists>t. value_ty m v = Inr t" for w c
    by (auto simp: require_value_width_def rbind_eq_Inr)
  moreover have "concat_type m w st parts = Inr r \<Longrightarrow> v \<in> set parts \<Longrightarrow> \<exists>t. value_ty m v = Inr t" for w st parts r
    by (induction parts arbitrary: w st) (auto simp: rbind_eq_Inr split: if_splits)
  moreover have "validate_resets m d rs latch = Inr () \<Longrightarrow> v \<in> set (reset_inputs rs) \<Longrightarrow>
      \<exists>t. value_ty m v = Inr t" for d rs latch
    by (fastforce simp: validate_resets_def reset_inputs_def rbind_eq_Inr check_all_Inr require_value_width_def split: if_splits)
  ultimately show ?thesis using assms
    by (cases k) (fastforce simp: rbind_eq_Inr check_enable_def split: if_splits option.splits)+
qed

lemma push_operation_ok:
  assumes "module_ok m" and "operation_type m k = Inr ty" and "0 < ty_width ty" "ty_width ty < 2 ^ 32"
    and "push_operation m k ty = (r, m')"
  shows "module_ok m'"
proof (cases "length (wm_values m) + 1 < 2 ^ 32 \<and> length (wm_operations m) + 1 < 2 ^ 32")
  case False
  with assms(1,5) show ?thesis
    by (auto simp: push_operation_def push_value_def ValueId_from_index_def OpId_from_index_def dense_from_index_def split: if_splits)
next
  case True
  let ?n = "length (wm_values m)" and ?k = "length (wm_operations m)"
  from True assms(5) have m': "m' = m\<lparr>wm_values := wm_values m @ [\<lparr>v_kind = OperationValue (OpId ?k), v_ty = ty\<rparr>],
      wm_operations := wm_operations m @ [\<lparr>op_kind = k, op_result = ValueId ?n\<rparr>]\<rparr>"
    by (auto simp: push_operation_def push_value_def ValueId_from_index_def OpId_from_index_def dense_from_index_def)
  have g: "grows m m'" by (simp add: m' grows_def nth_append)
  have v: "validate_value m' (?n, \<lparr>v_kind = OperationValue (OpId ?k), v_ty = ty\<rparr>) = Inr ()"
    using True by (simp add: validate_value_def rbind_def ValueId_from_index_def dense_from_index_def WordModule_operation_def m')
  have inputs: "WordModule_value m' v \<noteq> None \<and> ValueId_index v < ?n" if "v \<in> set (op_inputs k)" for v
    using operation_type_inputs [OF assms(2) that] by (simp add: WordModule_value_def m' list_get_def)
  have res: "WordModule_value m' (ValueId ?n) = Some \<lparr>v_kind = OperationValue (OpId ?k), v_ty = ty\<rparr>"
    by (simp add: WordModule_value_def m')
  have "operation_type m' k = Inr ty" by (rule module_keepsD [OF grows_operation_type [OF g] assms(2)])
  with True inputs have o: "validate_operation m' (?k, \<lparr>op_kind = k, op_result = ValueId ?n\<rparr>) = Inr ()"
    by (simp add: validate_operation_def OpId_from_index_def dense_from_index_def res rbind_eq_Inr check_all_Inr)
  show ?thesis
  proof (rule module_ok_grows [OF assms(1) g])
    show "validate_value m' (i, wm_values m' ! i) = Inr ()"
      if "length (wm_values m) \<le> i" "i < length (wm_values m')" for i
      using that v by (simp add: m' less_Suc_eq)
    show "validate_operation m' (i, wm_operations m' ! i) = Inr ()"
      if "length (wm_operations m) \<le> i" "i < length (wm_operations m')" for i
      using that o by (simp add: m' less_Suc_eq)
    show "types_ok m'" using assms(1,3,4) by (simp add: module_ok_iff types_ok_def m')
  qed (simp_all add: m')
qed

lemma checked_push_ok:
  assumes "module_ok m" and "checked_build m check (push_operation m k) = (r, m')"
    and "\<And>ty. check = Inr ty \<Longrightarrow> operation_type m k = Inr ty \<and> 0 < ty_width ty \<and> ty_width ty < 2 ^ 32"
  shows "module_ok m'"
proof (cases check)
  case (Inl e)
  with assms(1,2) show ?thesis by (simp add: checked_build_def)
next
  case (Inr ty)
  with assms(3) push_operation_ok [OF assms(1), of k ty r m'] assms(2) show ?thesis by (simp add: checked_build_def)
qed

lemma binary_type_ok:
  assumes "binary_type op a b = Inr ty" and "ty_width a < 2 ^ 32" "ty_width b < 2 ^ 32"
  shows "0 < ty_width ty \<and> ty_width ty < 2 ^ 32"
  using assms by (auto simp: binary_type_def Let_def WordType_new_Inr split: if_splits)

lemma concat_type_ok: "concat_type m w st parts = Inr (w', st') \<Longrightarrow> w < 2 ^ 32 \<Longrightarrow> w' < 2 ^ 32"
  by (induction parts arbitrary: w st) (auto simp: rbind_eq_Inr split: if_splits)

lemma check_resets_validate:
  assumes "value_ty m d = Inr t" and "check_resets m c latch d rs = Inr ()"
  shows "validate_resets m d rs latch = Inr ()"
  using assms(2)
  by (induction rs) (use assms(1) in \<open>auto simp: validate_resets_def rbind_eq_Inr require_value_width_def split: if_splits\<close>)

text \<open>A call of the module's interface.\<close>

datatype word_call =
    CallConstant "BitVal list" WordType
  | CallUnary UnaryOp ValueId
  | CallBinary BinaryOp ValueId ValueId
  | CallMux ValueId ValueId ValueId
  | CallTriState ValueId Enable
  | CallConcat "ValueId list"
  | CallExtract ValueId nat nat
  | CallDynamicExtract ValueId ValueId nat
  | CallDynamicInsert ValueId ValueId ValueId
  | CallCast CastKind ValueId WordType
  | CallRegister RegisterOp
  | CallLatch LatchOp
  | CallRead SignalId
  | CallReadSlice SignalId nat nat
  | CallWire WordType
  | CallResolution SignalId SignalResolution
  | CallConnect LValue ValueId
  | CallTakeConnects

fun word_step :: "word_call \<Rightarrow> WordModule \<Rightarrow> WordModule"
  where
    "word_step (CallConstant bits ty) m = snd (WordModule_constant m bits ty)"
  | "word_step (CallUnary op a) m = snd (WordModule_unary m op a)"
  | "word_step (CallBinary op a b) m = snd (WordModule_binary m op a b)"
  | "word_step (CallMux c a b) m = snd (WordModule_mux m c a b)"
  | "word_step (CallTriState d e) m = snd (tri_state m d e)"
  | "word_step (CallConcat ps) m = snd (WordModule_concat m ps)"
  | "word_step (CallExtract v lsb w) m = snd (WordModule_extract m v lsb w)"
  | "word_step (CallDynamicExtract v off w) m = snd (dynamic_extract m v off w)"
  | "word_step (CallDynamicInsert v off r) m = snd (dynamic_insert m v off r)"
  | "word_step (CallCast k v ty) m = snd (WordModule_cast m k v ty)"
  | "word_step (CallRegister r) m = snd (WordModule_register m r)"
  | "word_step (CallLatch l) m = snd (WordModule_latch m l)"
  | "word_step (CallRead s) m = snd (read_signal m s)"
  | "word_step (CallReadSlice s lsb w) m = snd (read_signal_slice m s lsb w)"
  | "word_step (CallWire ty) m = snd (add_generated_wire m ty)"
  | "word_step (CallResolution s r) m = snd (set_signal_resolution m s r)"
  | "word_step (CallConnect lv v) m = snd (WordModule_connect m lv v)"
  | "word_step CallTakeConnects m = snd (take_connects m)"

text \<open>
  What the types of the interface promise: a \<^verbatim>\<open>WordType\<close> has a non-zero 32-bit width. The name of a
  state element has to be one of the module's names; no builder checks it.
\<close>

fun call_ok :: "WordModule \<Rightarrow> word_call \<Rightarrow> bool"
  where
    "call_ok m (CallConstant bits ty) \<longleftrightarrow> 0 < ty_width ty \<and> ty_width ty < 2 ^ 32"
  | "call_ok m (CallCast k v ty) \<longleftrightarrow> 0 < ty_width ty \<and> ty_width ty < 2 ^ 32"
  | "call_ok m (CallWire ty) \<longleftrightarrow> 0 < ty_width ty \<and> ty_width ty < 2 ^ 32"
  | "call_ok m (CallRegister r) \<longleftrightarrow> validate_state_name m (rg_name r) = Inr ()"
  | "call_ok m (CallLatch l) \<longleftrightarrow> validate_state_name m (lt_name l) = Inr ()"
  | "call_ok m _ \<longleftrightarrow> True"

lemma value_builders_ok:
  assumes "module_ok m"
  shows "module_ok (word_step (CallUnary op a) m)" and "module_ok (word_step (CallBinary bop a b) m)"
    and "module_ok (word_step (CallMux c a b) m)" and "module_ok (word_step (CallTriState a e) m)"
    and "module_ok (word_step (CallConcat ps) m)" and "module_ok (word_step (CallExtract a lsb w) m)"
    and "module_ok (word_step (CallDynamicExtract a b w) m)" and "module_ok (word_step (CallDynamicInsert a b c) m)"
proof -
  have t: "types_ok m" using assms by (simp add: module_ok_iff)
  have v: "value_ty m x = Inr ty \<Longrightarrow> 0 < ty_width ty \<and> ty_width ty < 2 ^ 32" for x ty by (rule value_ty_ok [OF t])
  have ok: "module_ok (snd (checked_build m check (push_operation m k)))"
    if "\<And>ty. check = Inr ty \<Longrightarrow> operation_type m k = Inr ty \<and> 0 < ty_width ty \<and> ty_width ty < 2 ^ 32" for check k
    by (rule checked_push_ok [OF assms prod.collapse [symmetric] that])
  show "module_ok (word_step (CallUnary op a) m)"
    unfolding word_step.simps WordModule_unary_def
    by (rule ok) (auto simp: rbind_eq_Inr unary_type_def WordType_new_Inr dest: v split: if_splits)
  show "module_ok (word_step (CallBinary bop a b) m)"
    unfolding word_step.simps WordModule_binary_def
    by (rule ok) (auto simp: rbind_eq_Inr dest: v binary_type_ok)
  show "module_ok (word_step (CallMux c a b) m)"
    unfolding word_step.simps WordModule_mux_def
    by (rule ok) (auto simp: rbind_eq_Inr dest: v split: if_splits)
  show "module_ok (word_step (CallTriState a e) m)"
    unfolding word_step.simps tri_state_def
    by (rule ok) (auto simp: rbind_eq_Inr dest: v)
  show "module_ok (word_step (CallConcat ps) m)"
    unfolding word_step.simps WordModule_concat_def
    by (rule ok) (auto simp: rbind_eq_Inr WordType_new_Inr dest: concat_type_ok split: if_splits)
  show "module_ok (word_step (CallExtract a lsb w) m)"
    unfolding word_step.simps WordModule_extract_def
    by (rule ok) (auto simp: rbind_eq_Inr with_width_def WordType_new_Inr split: if_splits)
  show "module_ok (word_step (CallDynamicExtract a b w) m)"
    unfolding word_step.simps dynamic_extract_def
    by (rule ok) (auto simp: rbind_eq_Inr with_width_def WordType_new_Inr dest: v split: if_splits)
  show "module_ok (word_step (CallDynamicInsert a b c) m)"
    unfolding word_step.simps dynamic_insert_def
    by (rule ok) (auto simp: rbind_eq_Inr dest: v split: if_splits)
qed

lemma typed_builders_ok:
  assumes "module_ok m"
  shows "0 < ty_width ty \<Longrightarrow> ty_width ty < 2 ^ 32 \<Longrightarrow> module_ok (word_step (CallConstant bits ty) m)"
    and "0 < ty_width ty \<Longrightarrow> ty_width ty < 2 ^ 32 \<Longrightarrow> module_ok (word_step (CallCast k v ty) m)"
    and "validate_state_name m (rg_name r) = Inr () \<Longrightarrow> module_ok (word_step (CallRegister r) m)"
    and "validate_state_name m (lt_name l) = Inr () \<Longrightarrow> module_ok (word_step (CallLatch l) m)"
proof -
  have t: "types_ok m" using assms by (simp add: module_ok_iff)
  note v = value_ty_ok [OF t]
  have ok: "module_ok (snd (checked_build m check (push_operation m k)))"
    if "\<And>ty. check = Inr ty \<Longrightarrow> operation_type m k = Inr ty \<and> 0 < ty_width ty \<and> ty_width ty < 2 ^ 32" for check k
    by (rule checked_push_ok [OF assms prod.collapse [symmetric] that])
  assume w: "0 < ty_width ty" "ty_width ty < 2 ^ 32"
  have push: "module_ok (snd (push_value m (ConstantValue bits) ty))"
    if "length bits = ty_width ty" "\<not> (ty_state ty = TwoState \<and> list_ex unknown_bit bits)"
    by (rule push_value_ok [OF assms prod.collapse [symmetric] w])
      (use that in \<open>simp add: validate_value_def rbind_eq_Inr ValueId_from_index_def dense_from_index_def\<close>)
  then show "module_ok (word_step (CallConstant bits ty) m)" using assms by (simp add: WordModule_constant_def)
  show "module_ok (word_step (CallCast k v ty) m)"
    unfolding word_step.simps WordModule_cast_def
    by (rule ok) (use w in \<open>auto simp: rbind_eq_Inr split: if_splits\<close>)
next
  have t: "types_ok m" using assms by (simp add: module_ok_iff)
  note v = value_ty_ok [OF t]
  have ok: "module_ok (snd (checked_build m check (push_operation m k)))"
    if "\<And>ty. check = Inr ty \<Longrightarrow> operation_type m k = Inr ty \<and> 0 < ty_width ty \<and> ty_width ty < 2 ^ 32" for check k
    by (rule checked_push_ok [OF assms prod.collapse [symmetric] that])
  show "module_ok (word_step (CallRegister r) m)" if "validate_state_name m (rg_name r) = Inr ()"
    unfolding word_step.simps WordModule_register_def
    by (rule ok) (use that in \<open>auto simp: rbind_eq_Inr dest: v check_resets_validate\<close>)
  show "module_ok (word_step (CallLatch l) m)" if "validate_state_name m (lt_name l) = Inr ()"
    unfolding word_step.simps WordModule_latch_def
    by (rule ok) (use that in \<open>auto simp: rbind_eq_Inr check_enable_def dest: v check_resets_validate\<close>)
qed

lemma read_signal_slice_ok:
  assumes "module_ok m"
  shows "module_ok (snd (read_signal_slice m s lsb w))"
proof -
  have t: "types_ok m" using assms by (simp add: module_ok_iff)
  let ?check = "rbind (signal_ty m s) (\<lambda>signal_ty.
      if w = 0 then Inl (WordFailure ''signal reference width must be non-zero'')
      else if lsb + w \<ge> 2 ^ 32 then Inl (WordFailure ''signal reference range exceeds 32-bit capacity'')
      else if lsb + w > ty_width signal_ty then Inl (WordFailure ''signal reference exceeds signal width'')
      else if lsb = 0 \<and> w = ty_width signal_ty then Inr signal_ty
      else WordType_new w False (ty_state signal_ty))"
  let ?kind = "SignalValue \<lparr>sr_signal = s, sr_lsb = lsb, sr_width = w\<rparr>"
  show ?thesis
  proof (cases ?check)
    case (Inl e)
    with assms show ?thesis by (simp add: read_signal_slice_def checked_build_def)
  next
    case (Inr ty)
    then obtain sty where sty: "signal_ty m s = Inr sty" "w \<noteq> 0" "\<not> 2 ^ 32 \<le> lsb + w" "\<not> ty_width sty < lsb + w"
      "(if lsb = 0 \<and> w = ty_width sty then Inr sty else WordType_new w False (ty_state sty)) = Inr ty"
      by (auto simp: rbind_eq_Inr split: if_splits)
    then obtain signal where signal: "WordModule_signal m s = Some signal" "sig_ty signal = sty"
      by (auto simp: signal_ty_def WordModule_signal_def split: option.splits)
    have w: "0 < ty_width ty" "ty_width ty < 2 ^ 32"
      using sty signal_ty_ok [OF t sty(1)] by (auto simp: WordType_new_Inr split: if_splits)
    have "module_ok (snd (push_value m ?kind ty))"
    proof (rule push_value_ok [OF assms prod.collapse [symmetric] w])
      fix i
      assume "i + 1 < (2 :: nat) ^ 32"
      then have i: "ValueId_from_index i = Inr (ValueId i)" by (simp add: ValueId_from_index_def dense_from_index_def)
      show "validate_value m (i, \<lparr>v_kind = ?kind, v_ty = ty\<rparr>) = Inr ()"
        using sty(3,4,5) by (auto simp: validate_value_def i signal rbind_eq_Inr)
    qed
    with Inr show ?thesis by (simp add: read_signal_slice_def checked_build_def)
  qed
qed

lemma structure_builders_ok:
  assumes "module_ok m"
  shows "module_ok (word_step (CallRead s) m)" and "module_ok (word_step (CallReadSlice s lsb w) m)"
    and "0 < ty_width ty \<Longrightarrow> ty_width ty < 2 ^ 32 \<Longrightarrow> module_ok (word_step (CallWire ty) m)"
    and "module_ok (word_step (CallResolution s res) m)" and "module_ok (word_step (CallConnect lv v) m)"
    and "module_ok (word_step CallTakeConnects m)"
proof -
  show "module_ok (word_step (CallRead s) m)"
    using assms by (cases "signal_ty m s") (simp_all add: read_signal_def checked_build_def read_signal_slice_ok)
  show "module_ok (word_step (CallReadSlice s lsb w) m)" by (simp add: read_signal_slice_ok assms)
  have "grows m (m\<lparr>wm_connects := []\<rparr>)" by (simp add: grows_def)
  from module_ok_grows [OF assms this] assms show "module_ok (word_step CallTakeConnects m)"
    by (simp add: take_connects_def module_ok_iff types_ok_def)
  let ?w = "m\<lparr>wm_signals := wm_signals m @ [\<lparr>sig_name = None, sig_kind = SignalWire, sig_ty = ty, sig_resolution = SingleDriver\<rparr>]\<rparr>"
  have "grows m ?w" by (simp add: grows_def nth_append)
  from module_ok_grows [OF assms this] assms
  show "module_ok (word_step (CallWire ty) m)" if "0 < ty_width ty" "ty_width ty < 2 ^ 32"
    using that by (auto simp: add_generated_wire_def checked_build_def SignalId_from_index_def dense_from_index_def module_ok_iff types_ok_def)
  show "module_ok (word_step (CallResolution s res) m)"
  proof (cases "WordModule_signal m s")
    case None
    with assms show ?thesis by (simp add: set_signal_resolution_def)
  next
    case (Some x)
    let ?r = "m\<lparr>wm_signals := (wm_signals m)[SignalId_index s := x\<lparr>sig_resolution := res\<rparr>]\<rparr>"
    have x: "SignalId_index s < length (wm_signals m)" "wm_signals m ! SignalId_index s = x"
      using Some by (auto simp: WordModule_signal_def list_get_Some_iff)
    then have "x \<in> set (wm_signals m)" by auto
    then have t: "types_ok ?r" using assms set_update_subset_insert [of "wm_signals m" "SignalId_index s"]
      by (fastforce simp: module_ok_iff types_ok_def)
    have "grows m ?r" using x by (auto simp: grows_def nth_list_update)
    from module_ok_grows [OF assms this] t Some assms show ?thesis by (simp add: set_signal_resolution_def)
  qed
  let ?c = "m\<lparr>wm_connects := wm_connects m @ [\<lparr>cn_target = lv, cn_value = v\<rparr>]\<rparr>"
  have g: "grows m ?c" by (simp add: grows_def)
  have "module_ok ?c" if "validate_connect m \<lparr>cn_target = lv, cn_value = v\<rparr> = Inr ()"
    by (rule module_ok_grows [OF assms g])
      (use that assms module_keepsD [OF grows_validate_connect [OF g]] in \<open>auto simp: module_ok_iff types_ok_def\<close>)
  then show "module_ok (word_step (CallConnect lv v) m)"
    using assms by (auto simp: WordModule_connect_def checked_build_def validate_connect_def rbind_def split: sum.splits)
qed

lemma word_step_ok: "module_ok m \<Longrightarrow> call_ok m c \<Longrightarrow> module_ok (word_step c m)"
  by (cases c; simp only: value_builders_ok typed_builders_ok structure_builders_ok call_ok.simps)

section \<open>Reachable modules\<close>

inductive built :: "WordModule \<Rightarrow> bool"
  where
    built_new: "built (WordModule_new name)"
  | built_step: "built m \<Longrightarrow> call_ok m c \<Longrightarrow> built (word_step c m)"

lemma built_ok: "built m \<Longrightarrow> module_ok m"
proof (induction rule: built.induct)
  case (built_new name)
  then show ?case
    by (simp add: module_ok_iff WordModule_new_def ports_valid_def values_valid_def operations_valid_def connects_valid_def types_ok_def)
next
  case (built_step m c)
  then show ?case by (simp add: word_step_ok)
qed


text \<open>A small module: an internal wire, its reading, a constant and their sum, driven back to the wire.\<close>

definition demo_calls :: "word_call list"
  where "demo_calls = (let ty = \<lparr>ty_width = 2, ty_signed = False, ty_state = TwoState\<rparr> in
    [CallWire ty, CallRead (SignalId 0), CallConstant [BitZero, BitOne] ty, CallBinary Add (ValueId 0) (ValueId 1),
     CallConnect (LValue_signal (SignalId 0)) (ValueId 2), CallUnary BitNot (ValueId 9)])"

definition demo_module :: WordModule
  where "demo_module = fold word_step demo_calls (WordModule_new ''demo'')"

lemma built_fold: "built m \<Longrightarrow> (\<And>m c. c \<in> set cs \<Longrightarrow> call_ok m c) \<Longrightarrow> built (fold word_step cs m)"
  by (induction cs arbitrary: m) (auto intro: built_step)

lemma built_demo_module: "built demo_module"
  unfolding demo_module_def by (rule built_fold [OF built_new]) (auto simp: demo_calls_def Let_def)

lemmas word_eval = WordModule_new_def WordModule_constant_def WordModule_unary_def WordModule_binary_def
  WordModule_connect_def read_signal_def read_signal_slice_def add_generated_wire_def checked_build_def
  push_operation_def push_value_def ValueId_from_index_def OpId_from_index_def SignalId_from_index_def
  dense_from_index_def binary_type_def unary_type_def state_merge_def value_ty_def signal_ty_def lvalue_ty_def
  LValue_signal_def list_get_def WordType_new_def unknown_bit_def Let_def


definition foreign_name_register :: RegisterOp
  where "foreign_name_register = \<lparr>rg_name = Some 7, rg_d = ValueId 0, rg_clock = ValueId 0, rg_edge = EdgePos,
    rg_enable = None, rg_resets = []\<rparr>"

definition one_bit_module :: WordModule
  where "one_bit_module =
    snd (WordModule_constant (WordModule_new ''demo'') [BitZero] \<lparr>ty_width = 1, ty_signed = False, ty_state = TwoState\<rparr>)"


end
