(* ===== verification/Word_Semantics.thy ===== *)
theory Word_Semantics
  imports Word_Valid Operations_Correct Division_Correct
begin

text \<open>
  What a word module means: the Boolean valuations of its values and signals that respect every
  constant, operation, signal read and connection. The operations mean what the bit-blaster builds
  for them. An \<^verbatim>\<open>x\<close> or \<^verbatim>\<open>z\<close> bit of a constant, a register, a latch, a disabled driver, an input
  and a bit without exactly one static driver may have either value.
\<close>

section \<open>Operations\<close>

definition to_bits :: "nat \<Rightarrow> int \<Rightarrow> bool list"
  where "to_bits w k = map (\<lambda>i. odd (k div 2 ^ i)) [0..<w]"

lemma length_to_bits [simp]: "length (to_bits w k) = w"
  by (simp add: to_bits_def)

definition bitwise_fun :: "BinaryOp \<Rightarrow> bool \<Rightarrow> bool \<Rightarrow> bool"
  where "bitwise_fun op x y = (if op = BitAnd then x \<and> y else if op = BitOr then x \<or> y else x \<noteq> y)"

definition word_binary :: "BinaryOp \<Rightarrow> WordType \<Rightarrow> bool operand \<Rightarrow> bool operand \<Rightarrow> bool list"
  where "word_binary op ty a b =
    (let w = ty_width ty; se = ty_signed ty; both = ty_signed (snd a) \<and> ty_signed (snd b)
     in if op \<in> {BitAnd, BitOr, BitXor} then map2 (bitwise_fun op) (extend_bool a w se) (extend_bool b w se)
     else if op = Add then to_bits w (operand_val a se + operand_val b se)
     else if op = Sub then to_bits w (operand_val a se - operand_val b se)
     else if op = Mul then to_bits w (operand_val a True * operand_val b True)
     else if op \<in> {Div, Mod} then to_bits w (division_val (op = Mod)
       (operand_val (extend_bool a w se, ty) True) (operand_val (extend_bool b w se, ty) True))
     else if op = LogicalAnd then [True \<in> set (fst a) \<and> True \<in> set (fst b)]
     else if op = LogicalOr then [True \<in> set (fst a) \<or> True \<in> set (fst b)]
     else if op \<in> {Eq, Ne} then [(operand_val a both = operand_val b both) \<noteq> (op = Ne)]
     else if op \<in> {Lt, Le, Gt, Ge} then [compare_sem op (operand_val a both) (operand_val b both)]
     else shift_by op se (bits_val (fst b)) (extend_bool a w se))"

definition word_extract :: "bool list \<Rightarrow> nat \<Rightarrow> nat \<Rightarrow> bool list"
  where "word_extract xs lsb width = take width (drop lsb xs)"

text \<open>A dynamic selection outside its value reads zeros and writes only the bits that exist.\<close>

definition word_dynamic_extract :: "bool list \<Rightarrow> nat \<Rightarrow> nat \<Rightarrow> bool list"
  where "word_dynamic_extract xs offset width =
    (if offset + width \<le> length xs then word_extract xs offset width else replicate width False)"

definition word_dynamic_insert :: "bool list \<Rightarrow> nat \<Rightarrow> bool list \<Rightarrow> bool list"
  where "word_dynamic_insert xs offset ys =
    map (\<lambda>i. if offset \<le> i \<and> i < offset + length ys then ys ! (i - offset) else xs ! i) [0..<length xs]"

definition word_cast :: "CastKind \<Rightarrow> bool list \<Rightarrow> nat \<Rightarrow> bool list"
  where "word_cast kind xs width =
    map (\<lambda>i. if i < length xs then xs ! i else kind = SignExtend \<and> xs \<noteq> [] \<and> last xs) [0..<width]"

text \<open>\<open>op_sem\<close> relates an operation to the values it may have; state elements may have any.\<close>

definition operand_of :: "WordModule \<Rightarrow> (nat \<Rightarrow> bool list) \<Rightarrow> ValueId \<Rightarrow> bool operand"
  where "operand_of m val v = (val (ValueId_index v), v_ty (wm_values m ! ValueId_index v))"

fun op_sem :: "WordModule \<Rightarrow> (nat \<Rightarrow> bool list) \<Rightarrow> OpKind \<Rightarrow> WordType \<Rightarrow> bool list \<Rightarrow> bool"
  where
    "op_sem m val (OpUnary op a) ty r \<longleftrightarrow> r = unary_val op (val (ValueId_index a))"
  | "op_sem m val (OpBinary op a b) ty r \<longleftrightarrow> r = word_binary op ty (operand_of m val a) (operand_of m val b)"
  | "op_sem m val (OpMux c a b) ty r \<longleftrightarrow>
      r = (if True \<in> set (val (ValueId_index c)) then val (ValueId_index a) else val (ValueId_index b))"
  | "op_sem m val (OpTriState d e) ty r \<longleftrightarrow> True"
  | "op_sem m val (OpConcat ps) ty r \<longleftrightarrow> r = concat (map (\<lambda>v. val (ValueId_index v)) (rev ps))"
  | "op_sem m val (OpExtract a lsb w) ty r \<longleftrightarrow> r = word_extract (val (ValueId_index a)) lsb w"
  | "op_sem m val (OpDynamicExtract a off w) ty r \<longleftrightarrow>
      r = word_dynamic_extract (val (ValueId_index a)) (bits_val (val (ValueId_index off))) w"
  | "op_sem m val (OpDynamicInsert a off b) ty r \<longleftrightarrow>
      r = word_dynamic_insert (val (ValueId_index a)) (bits_val (val (ValueId_index off))) (val (ValueId_index b))"
  | "op_sem m val (OpCast k a t) ty r \<longleftrightarrow> r = word_cast k (val (ValueId_index a)) (ty_width t)"
  | "op_sem m val (OpRegister rg) ty r \<longleftrightarrow> True"
  | "op_sem m val (OpLatch l) ty r \<longleftrightarrow> True"

section \<open>Connections\<close>

text \<open>The bits of its target a connection drives, with the bit of the value that drives each.\<close>

definition target_width :: "nat \<Rightarrow> Connect \<Rightarrow> nat"
  where "target_width width c = (case lv_range (cn_target c) of None \<Rightarrow> width | Some r \<Rightarrow> BitRange_width r)"

definition target_bit :: "Connect \<Rightarrow> nat \<Rightarrow> nat"
  where "target_bit c offset =
    (case lv_range (cn_target c) of None \<Rightarrow> offset
     | Some r \<Rightarrow> if br_lsb r \<le> br_msb r then br_lsb r + offset else br_lsb r - offset)"

definition external_signal :: "WordModule \<Rightarrow> nat \<Rightarrow> bool"
  where "external_signal m s \<longleftrightarrow>
    (\<exists>p \<in> set (wm_ports m). SignalId_index (port_signal p) = s \<and> port_direction p \<in> {PortInput, PortInout})"

definition connects_of :: "WordModule \<Rightarrow> nat \<Rightarrow> Connect list"
  where "connects_of m s = filter (\<lambda>c. SignalId_index (lv_signal (cn_target c)) = s) (wm_connects m)"

text \<open>The driving bits of a target bit, as pairs of a connection and an offset.\<close>

definition drivers_of_bit :: "nat \<Rightarrow> Connect list \<Rightarrow> nat \<Rightarrow> (Connect \<times> nat) list"
  where "drivers_of_bit width cs t =
    filter (\<lambda>(c, offset). target_bit c offset = t) (concat (map (\<lambda>c. map (Pair c) [0..<target_width width c]) cs))"

definition signal_sem :: "WordModule \<Rightarrow> (nat \<Rightarrow> bool list) \<Rightarrow> nat \<Rightarrow> bool list \<Rightarrow> bool"
  where "signal_sem m val s r \<longleftrightarrow>
    external_signal m s \<or> (\<exists>c \<in> set (connects_of m s). lv_dynamic (cn_target c) \<noteq> None) \<or>
    (\<forall>t < length r. \<forall>c offset. drivers_of_bit (length r) (connects_of m s) t = [(c, offset)] \<longrightarrow>
      r ! t = val (ValueId_index (cn_value c)) ! offset)"

section \<open>Valuations\<close>

definition constant_sem :: "BitVal list \<Rightarrow> bool list \<Rightarrow> bool"
  where "constant_sem bits r \<longleftrightarrow> list_all2 (\<lambda>b x. unknown_bit b \<or> x = (b = BitOne)) (rev bits) r"

definition value_sem :: "WordModule \<Rightarrow> (nat \<Rightarrow> bool list) \<Rightarrow> (nat \<Rightarrow> bool list) \<Rightarrow> WordValue \<Rightarrow> bool list \<Rightarrow> bool"
  where "value_sem m val sig v r \<longleftrightarrow>
    (case v_kind v of
       SignalValue ref \<Rightarrow> r = word_extract (sig (SignalId_index (sr_signal ref))) (sr_lsb ref) (sr_width ref)
     | ConstantValue bits \<Rightarrow> constant_sem bits r
     | OperationValue op \<Rightarrow> op_sem m val (op_kind (wm_operations m ! OpId_index op)) (v_ty v) r)"

definition valuation :: "WordModule \<Rightarrow> (nat \<Rightarrow> bool list) \<Rightarrow> (nat \<Rightarrow> bool list) \<Rightarrow> bool"
  where "valuation m val sig \<longleftrightarrow>
    (\<forall>i < length (wm_values m). length (val i) = ty_width (v_ty (wm_values m ! i)) \<and>
      value_sem m val sig (wm_values m ! i) (val i)) \<and>
    (\<forall>s < length (wm_signals m). length (sig s) = ty_width (sig_ty (wm_signals m ! s)) \<and>
      signal_sem m val s (sig s))"

end
