(* ===== verification/Known_Bits_Facts.thy ===== *)
theory Known_Bits_Facts
  imports Known_Bits Word_Semantics
begin

text \<open>
  The known-bits facts are sound: the arena returns every fact that was stored, and each transfer
  function over-approximates the operation it stands for.
\<close>

named_theorems facts_simps \<open>facts about the bits of a stored range\<close>

section \<open>The arena\<close>

definition words_bit :: "arena \<Rightarrow> nat \<Rightarrow> KnownBit"
  where "words_bit ws i = masked_bit (ws ! (i div 64)) (i mod 64)"

lemma masked_bit_iff:
  "masked_bit w k = (if bit (fw_zeros w) k then Zero else if bit (fw_ones w) k then One else Unknown)"
  by (simp add: masked_bit_def bit_iff_and_push_bit_not_eq_0)

lemma masked_bit_masked_word:
  assumes "k < 64" and "j < 64"
  shows "masked_bit (masked_word w k x) j = (if j = k then x else masked_bit w j)"
  using assms by (cases x) (auto simp: masked_bit_iff masked_word_def Let_def bit_simps)

lemma masked_bit_default [simp]: "masked_bit FactWord_default k = Unknown"
  by (simp add: masked_bit_iff FactWord_default_def)

lemma length_set_fact [simp]: "length (set_fact ws i x) = length ws"
  by (simp add: set_fact_def)

lemma index_split: "(i :: nat) div 64 = j div 64 \<Longrightarrow> i mod 64 = j mod 64 \<Longrightarrow> i = j"
  by (metis div_mult_mod_eq)

lemma words_bit_set_fact:
  assumes "i < 64 * length ws" and "j < 64 * length ws"
  shows "words_bit (set_fact ws i x) j = (if j = i then x else words_bit ws j)"
proof -
  have "i div 64 < length ws" "j div 64 < length ws" using assms by auto
  then show ?thesis using index_split [of j i]
    by (auto simp: words_bit_def set_fact_def nth_list_update masked_bit_masked_word)
qed

lemma length_set_facts [simp]: "length (set_facts ws k xs) = length ws"
  by (induction ws k xs rule: set_facts.induct) auto

lemma words_bit_set_facts:
  assumes "k + length xs \<le> 64 * length ws" and "j < 64 * length ws"
  shows "words_bit (set_facts ws k xs) j = (if k \<le> j \<and> j < k + length xs then xs ! (j - k) else words_bit ws j)"
  using assms
proof (induction xs arbitrary: ws k)
  case Nil
  then show ?case by auto
next
  case (Cons x xs)
  have "words_bit (set_facts ws k (x # xs)) j =
      (if k + 1 \<le> j \<and> j < k + 1 + length xs then xs ! (j - (k + 1)) else words_bit (set_fact ws k x) j)"
    using Cons.IH [of "k + 1" "set_fact ws k x"] Cons.prems by simp
  also have "words_bit (set_fact ws k x) j = (if j = k then x else words_bit ws j)"
    by (rule words_bit_set_fact) (use Cons.prems in auto)
  finally show ?case by (cases "j = k") (auto simp: nth_Cons' not_le less_Suc_eq)
qed

lemma word_count_enough: "width \<le> 64 * word_count width"
  unfolding word_count_def by linarith

lemma word_count_index: "i < width \<Longrightarrow> i div 64 < word_count width"
  unfolding word_count_def by linarith

lemma length_trim_words [simp]: "length (trim_words width ws) = length ws"
  by (simp add: trim_words_def Let_def)

lemma words_bit_trim_words:
  assumes "length ws = word_count width" and "i < width"
  shows "words_bit (trim_words width ws) i = words_bit ws i"
proof (cases "ws = [] \<or> width mod 64 = 0")
  case True
  then show ?thesis by (auto simp: trim_words_def)
next
  case False
  let ?l = "length ws - 1"
  have d: "i div 64 < length ws" using word_count_index [OF assms(2)] assms(1) by simp
  show ?thesis
  proof (cases "i div 64 = ?l")
    case True
    have "width mod 64 \<noteq> 0" using False by blast
    moreover have "width mod 64 < 64" "width = 64 * (width div 64) + width mod 64" by simp_all
    ultimately have "(width + 63) div 64 = width div 64 + 1" by linarith
    then have "width = 64 * ?l + width mod 64" unfolding assms(1) word_count_def by simp
    moreover have "i = 64 * ?l + i mod 64" using True by (metis mult_div_mod_eq)
    ultimately have "i mod 64 < width mod 64" using assms(2) by linarith
    moreover have "bit (push_bit (width mod 64) 1 - 1 :: u64) (i mod 64) \<longleftrightarrow> i mod 64 < width mod 64"
      using bit_mask_iff [where 'a = u64, of "width mod 64" "i mod 64"] unfolding mask_eq_exp_minus_1 push_bit_eq_mult by simp
    ultimately show ?thesis
      using False True d by (simp add: trim_words_def words_bit_def masked_bit_iff Let_def last_conv_nth bit_and_iff)
  next
    case other: False
    with False d show ?thesis by (simp add: trim_words_def words_bit_def Let_def)
  qed
qed

text \<open>A range lies inside the arena, so that later facts do not change its bits.\<close>

definition fact_in :: "arena \<Rightarrow> FactRange \<Rightarrow> bool"
  where "fact_in ar r \<longleftrightarrow> (\<forall>st. fr_start r = Some st \<longrightarrow> st + word_count (fr_width r) \<le> length ar)"

lemma fact_in_append: "fact_in ar r \<Longrightarrow> fact_in (ar @ ys) r"
  by (auto simp: fact_in_def)

lemma fact_bit_append:
  assumes "fact_in ar r"
  shows "fact_bit (ar @ ys) r i = fact_bit ar r i"
proof (cases "i < fr_width r")
  case True
  have "st + i div 64 < length ar" if "fr_start r = Some st" for st
    using word_count_index [OF True] assms that by (auto simp: fact_in_def)
  with True show ?thesis
    by (auto simp: fact_bit_def fact_word_def list_get_def nth_append split: option.splits)
qed (simp add: fact_bit_def)

lemma fact_unknown [simp]: "fact_bit ar (fact_unknown w) i = Unknown" "fr_width (fact_unknown w) = w" "fact_in ar (fact_unknown w)"
  by (simp_all add: fact_unknown_def fact_bit_def fact_word_def fact_in_def)

lemma fact_bit_outside [simp]: "fr_width r \<le> i \<Longrightarrow> fact_bit ar r i = Unknown"
  by (simp add: fact_bit_def)

text \<open>What storing returns: the arena only grows, and the range reads as it was written.\<close>

definition stores :: "arena \<Rightarrow> nat \<Rightarrow> (nat \<Rightarrow> KnownBit) \<Rightarrow> FactRange \<times> arena \<Rightarrow> bool"
  where "stores ar width f = (\<lambda>(r, ar'). (\<exists>ys. ar' = ar @ ys) \<and> fr_width r = width \<and> fact_in ar' r \<and>
    (\<forall>i < width. fact_bit ar' r i = f i))"

lemma stores_words:
  assumes "length ws = word_count width"
  shows "stores ar width (words_bit ws) (store_words ws width ar)"
proof -
  let ?ws = "trim_words width ws"
  have trim: "words_bit ?ws i = words_bit ws i" if "i < width" for i
    by (rule words_bit_trim_words [OF assms that])
  show ?thesis
  proof (cases "list_all (\<lambda>w. fw_zeros w = 0 \<and> fw_ones w = 0) ?ws")
    case True
    have "words_bit ws i = Unknown" if "i < width" for i
    proof -
      have "i div 64 < length ?ws" using word_count_index [OF that] assms by simp
      with True have "words_bit ?ws i = Unknown" by (simp add: list_all_length words_bit_def masked_bit_iff)
      with trim [OF that] show ?thesis by simp
    qed
    with True show ?thesis by (simp add: stores_def store_words_def Let_def)
  next
    case False
    have "fact_bit (ar @ ?ws) \<lparr>fr_start = Some (length ar), fr_width = width\<rparr> i = words_bit ws i" if "i < width" for i
      using trim [OF that] word_count_index [OF that] that assms
      by (simp add: fact_bit_def fact_word_def list_get_def words_bit_def)
    with False assms show ?thesis by (simp add: stores_def store_words_def Let_def fact_in_def)
  qed
qed

lemma stores_cong: "stores ar width f res \<Longrightarrow> (\<And>i. i < width \<Longrightarrow> f i = g i) \<Longrightarrow> stores ar width g res"
  by (auto simp: stores_def)

lemma length_empty_words [simp]: "length (empty_words width) = word_count width"
  by (simp add: empty_words_def)

lemma words_bit_empty [simp]: "i < width \<Longrightarrow> words_bit (empty_words width) i = Unknown"
  using word_count_index [of i width] by (simp add: words_bit_def empty_words_def)

lemma stores_generated: "stores ar width f (store_generated width f ar)"
  unfolding store_generated_def
proof (rule stores_cong [OF stores_words])
  fix i
  assume "i < width"
  with word_count_enough [of width] show "words_bit (set_facts (empty_words width) 0 (map f [0..<width])) i = f i"
    by (subst words_bit_set_facts) simp_all
qed simp

lemma stores_bits:
  "stores ar width (\<lambda>i. if i < length bits then bits ! i else Unknown) (store_bits bits width ar)"
  unfolding store_bits_def
proof (rule stores_cong [OF stores_words])
  fix i
  assume "i < width"
  with word_count_enough [of width]
  show "words_bit (set_facts (empty_words width) 0 (take width bits)) i = (if i < length bits then bits ! i else Unknown)"
    by (subst words_bit_set_facts) auto
qed simp

section \<open>Sound facts\<close>

fun kb_ok :: "KnownBit \<Rightarrow> bool \<Rightarrow> bool"
  where "kb_ok Zero b = (\<not> b)" | "kb_ok One b = b" | "kb_ok Unknown b = True"

definition sound :: "arena \<Rightarrow> FactRange \<Rightarrow> bool list \<Rightarrow> bool"
  where "sound ar r bs \<longleftrightarrow> fr_width r = length bs \<and> fact_in ar r \<and> (\<forall>i < length bs. kb_ok (fact_bit ar r i) (bs ! i))"

lemma soundD:
  assumes "sound ar r bs"
  shows "fr_width r = length bs" and "fact_in ar r" and "i < length bs \<Longrightarrow> kb_ok (fact_bit ar r i) (bs ! i)"
  using assms by (simp_all add: sound_def)

lemma sound_append: "sound ar r bs \<Longrightarrow> sound (ar @ ys) r bs"
  by (simp add: sound_def fact_in_append fact_bit_append)

lemma sound_unknown [simp]: "sound ar (fact_unknown w) bs \<longleftrightarrow> w = length bs"
  by (simp add: sound_def)

text \<open>A stored result: the arena grows and the new fact is sound.\<close>

definition gives :: "arena \<Rightarrow> bool list \<Rightarrow> FactRange \<times> arena \<Rightarrow> bool"
  where "gives ar bs = (\<lambda>(r, ar'). (\<exists>ys. ar' = ar @ ys) \<and> sound ar' r bs)"

lemma gives_stores:
  "stores ar width f res \<Longrightarrow> length bs = width \<Longrightarrow> (\<And>i. i < width \<Longrightarrow> kb_ok (f i) (bs ! i)) \<Longrightarrow> gives ar bs res"
  by (auto simp: gives_def stores_def sound_def)

lemma gives_generated:
  "length bs = width \<Longrightarrow> (\<And>i. i < width \<Longrightarrow> kb_ok (f i) (bs ! i)) \<Longrightarrow> gives ar bs (store_generated width f ar)"
  by (rule gives_stores [OF stores_generated])

lemma gives_bits:
  "length bs = width \<Longrightarrow> (\<And>i. i < width \<Longrightarrow> i < length xs \<Longrightarrow> kb_ok (xs ! i) (bs ! i)) \<Longrightarrow> gives ar bs (store_bits xs width ar)"
  by (rule gives_stores [OF stores_bits]) auto

lemma gives_scalar: "kb_ok x b \<Longrightarrow> gives ar [b] (store_scalar x ar)"
  unfolding store_scalar_def by (rule gives_bits) auto

lemma gives_same: "sound ar r bs \<Longrightarrow> gives ar bs (r, ar)"
  by (simp add: gives_def)

lemma gives_unknown: "length bs = w \<Longrightarrow> gives ar bs (fact_unknown w, ar)"
  by (simp add: gives_def)

lemma gives_copy: "sound ar r bs \<Longrightarrow> gives ar bs (copy_facts r ar)"
  unfolding copy_facts_def by (rule gives_generated) (simp_all add: sound_def)

section \<open>Single bits\<close>

lemma kb_ok_invert: "kb_ok x b \<Longrightarrow> kb_ok (invert x) (\<not> b)"
  by (cases x) simp_all

lemma kb_ok_merge: "kb_ok x a \<Longrightarrow> kb_ok y b \<Longrightarrow> kb_ok (merge_equal x y) (if c then a else b)"
  by (cases x; cases y) (simp_all add: merge_equal_def)

lemma kb_ok_bitwise:
  "op \<in> {BitAnd, BitOr, BitXor} \<Longrightarrow> kb_ok x a \<Longrightarrow> kb_ok y b \<Longrightarrow> kb_ok (bitwise op x y) (bitwise_fun op a b)"
  by (cases x; cases y) (auto simp: bitwise_def bitwise_fun_def)

lemma fact_full_adder_ok:
  assumes "kb_ok x a" and "kb_ok y b" and "kb_ok z c"
  shows "kb_ok (fst (fact_full_adder x y z)) ((a \<noteq> b) \<noteq> c)"
    and "kb_ok (snd (fact_full_adder x y z)) ((a \<and> b) \<or> (c \<and> (a \<or> b)))"
  using assms by (cases x; cases y; cases z; simp add: fact_full_adder_def; blast)+

section \<open>Addition and subtraction\<close>

fun ripple_sum :: "bool \<Rightarrow> (bool \<times> bool) list \<Rightarrow> bool list"
  where
    "ripple_sum c [] = []"
  | "ripple_sum c ((a, b) # xs) = ((a \<noteq> b) \<noteq> c) # ripple_sum ((a \<and> b) \<or> (c \<and> (a \<or> b))) xs"

lemma length_ripple_sum [simp]: "length (ripple_sum c xs) = length xs"
  by (induction c xs rule: ripple_sum.induct) auto

lemma ripple_sum_val:
  assumes "length xs = length ys"
  shows "\<exists>k. bits_val xs + bits_val ys + of_bool c = bits_val (ripple_sum c (zip xs ys)) + 2 ^ length xs * k"
  using assms
proof (induction xs ys arbitrary: c rule: list_induct2)
  case Nil
  then show ?case by simp
next
  case (Cons x xs y ys)
  let ?c = "(x \<and> y) \<or> (c \<and> (x \<or> y))"
  obtain k where "bits_val xs + bits_val ys + of_bool ?c = bits_val (ripple_sum ?c (zip xs ys)) + 2 ^ length xs * k"
    using Cons.IH by blast
  then have "2 * bits_val xs + 2 * bits_val ys + 2 * of_bool ?c =
      2 * bits_val (ripple_sum ?c (zip xs ys)) + 2 ^ length (x # xs) * k" by simp
  moreover have "of_bool x + of_bool y + of_bool c = of_bool ((x \<noteq> y) \<noteq> c) + 2 * (of_bool ?c :: nat)"
    by (cases x; cases y; cases c) simp_all
  ultimately show ?case by (intro exI [of _ k]) simp
qed

lemma adder_loop_ok:
  "length xs = length ps \<Longrightarrow> kb_ok z c \<Longrightarrow>
    (\<And>i. i < length ps \<Longrightarrow> kb_ok (fst (xs ! i)) (fst (ps ! i)) \<and> kb_ok (snd (xs ! i)) (snd (ps ! i))) \<Longrightarrow>
    length (adder_loop z xs) = length ps \<and> (\<forall>i < length ps. kb_ok (adder_loop z xs ! i) (ripple_sum c ps ! i))"
proof (induction xs ps arbitrary: z c rule: list_induct2)
  case Nil
  then show ?case by simp
next
  case (Cons x xs p ps)
  obtain u v a b where e: "x = (u, v)" "p = (a, b)" by (cases x; cases p)
  have uv: "kb_ok u a" "kb_ok v b" using Cons.prems(2) [of 0] by (simp_all add: e)
  obtain s n where sn: "fact_full_adder u v z = (s, n)" by fastforce
  have s: "kb_ok s ((a \<noteq> b) \<noteq> c)" and n: "kb_ok n ((a \<and> b) \<or> (c \<and> (a \<or> b)))"
    using fact_full_adder_ok [OF uv Cons.prems(1)] sn by simp_all
  have "length (adder_loop n xs) = length ps \<and>
      (\<forall>i < length ps. kb_ok (adder_loop n xs ! i) (ripple_sum ((a \<and> b) \<or> (c \<and> (a \<or> b))) ps ! i))"
    by (rule Cons.IH [OF n]) (use Cons.prems(2) [of "Suc i" for i] in simp)
  with s show ?case by (auto simp: e sn nth_Cons' less_Suc_eq_0_disj)
qed

lemma bits_val_to_bits: "int (bits_val (to_bits w k)) = k mod 2 ^ w"
proof (induction w arbitrary: k)
  case 0
  then show ?case by (simp add: to_bits_def)
next
  case (Suc w)
  have "to_bits (Suc w) k = odd k # to_bits w (k div 2)"
    by (simp add: to_bits_def upt_conv_Cons del: upt_Suc) (simp add: map_Suc_upt [symmetric] zdiv_zmult2_eq del: upt_Suc map_Suc_upt)
  then show ?case using Suc.IH [of "k div 2"]
    by (simp add: of_bool_odd_eq_mod_2 zmod_zmult2_eq mult.commute [of "(2::int) ^ w"] add.commute)
qed

lemma to_bits_eqI:
  assumes "length bs = w" and "int (bits_val bs) mod 2 ^ w = k mod 2 ^ w"
  shows "to_bits w k = bs"
proof (rule bits_val_inj)
  have "int (bits_val bs) < 2 ^ w" using bits_val_less_int [of bs] assms(1) by simp
  then have "int (bits_val bs) mod 2 ^ w = int (bits_val bs)" by simp
  with assms(2) bits_val_to_bits [of w k] show "bits_val (to_bits w k) = bits_val bs" by simp
qed (use assms in simp)

lemma to_bits_cong: "k mod 2 ^ w = l mod 2 ^ w \<Longrightarrow> to_bits w k = to_bits w l"
  by (rule to_bits_eqI) (simp_all add: bits_val_to_bits)

lemma nth_to_bits: "i < w \<Longrightarrow> to_bits w k ! i = odd (k div 2 ^ i)"
  by (simp add: to_bits_def)

lemma to_bits_bits_val: "to_bits (length bs) (int (bits_val bs)) = bs"
  by (rule to_bits_eqI) simp_all

end
