(* ===== verification/Known_Bits_Transfer.thy ===== *)
theory Known_Bits_Transfer
  imports Known_Bits_Facts
begin

text \<open>
  Each transfer function of the known-bits analysis is sound: from sound facts about the operands it
  stores a sound fact about the result of the operation.
\<close>

section \<open>Reading a word\<close>

abbreviation oks :: "KnownBit list \<Rightarrow> bool list \<Rightarrow> bool"
  where "oks \<equiv> list_all2 kb_ok"

lemma sound_oks: "sound ar r bs \<Longrightarrow> oks (fact_bits ar r) bs"
  by (auto simp: sound_def list_all2_conv_all_nth)

lemma logical_loop_ok: "oks xs bs \<Longrightarrow> kb_ok (logical_loop z xs) (True \<in> set bs)"
proof (induction xs bs arbitrary: z rule: list_all2_induct)
  case Nil
  then show ?case by simp
next
  case (Cons x xs b bs)
  then show ?case
  proof (cases x)
    case Zero
    with Cons.hyps(1) Cons.IH [of z] show ?thesis by simp
  next
    case Unknown
    have "logical_loop False xs \<noteq> Zero" by (induction xs) (auto split: KnownBit.splits)
    with Cons.IH [of False] Unknown show ?thesis by (cases "logical_loop False xs") auto
  qed simp
qed

lemma reduction_and_loop_ok: "oks xs bs \<Longrightarrow> kb_ok (reduction_and_loop z xs) (False \<notin> set bs)"
proof (induction xs bs arbitrary: z rule: list_all2_induct)
  case Nil
  then show ?case by simp
next
  case (Cons x xs b bs)
  then show ?case
  proof (cases x)
    case One
    with Cons.hyps(1) Cons.IH [of z] show ?thesis by simp
  next
    case Unknown
    have "reduction_and_loop False xs \<noteq> One" by (induction xs) (auto split: KnownBit.splits)
    with Cons.IH [of False] Unknown show ?thesis by (cases "reduction_and_loop False xs") auto
  qed simp
qed

lemma reduction_xor_loop_ok: "oks xs bs \<Longrightarrow> kb_ok (reduction_xor_loop p xs) (p \<noteq> odd (length (filter id bs)))"
proof (induction xs bs arbitrary: p rule: list_all2_induct)
  case Nil
  then show ?case by simp
next
  case (Cons x xs b bs)
  then show ?case using Cons.IH [of p] Cons.IH [of "\<not> p"] by (cases x) simp_all
qed

lemma logical_value_ok: "sound ar r bs \<Longrightarrow> kb_ok (logical_value ar r) (True \<in> set bs)"
  unfolding logical_value_def by (intro logical_loop_ok sound_oks)

lemma equality_loop_ok:
  "list_all2 (\<lambda>(x, y) (a, b). kb_ok x a \<and> kb_ok y b) zs ps \<Longrightarrow> kb_ok (equality_loop c zs) (\<forall>(a, b) \<in> set ps. a = b)"
proof (induction zs ps arbitrary: c rule: list_all2_induct)
  case Nil
  then show ?case by simp
next
  case (Cons z zs p ps)
  obtain x y a b where e: "z = (x, y)" "p = (a, b)" by (cases z; cases p)
  have ok: "kb_ok x a" "kb_ok y b" using Cons.hyps(1) by (simp_all add: e)
  have never: "equality_loop False zs \<noteq> One" for zs by (induction False zs rule: equality_loop.induct) auto
  show ?case
  proof (cases "x = Unknown \<or> y = Unknown")
    case True
    with Cons.IH [of False] never [of zs] show ?thesis
      by (cases "equality_loop False zs") (auto simp: e)
  next
    case False
    with ok Cons.IH [of c] show ?thesis by (cases x; cases y) (auto simp: e)
  qed
qed

lemma usize_loop_ok:
  "oks xs bs \<Longrightarrow> usize_loop n i xs = Some k \<Longrightarrow> n < 2 ^ i \<Longrightarrow> k = n + 2 ^ i * bits_val bs"
proof (induction xs bs arbitrary: n i rule: list_all2_induct)
  case Nil
  then show ?case by simp
next
  case (Cons x xs b bs)
  have lt: "n < 2 ^ Suc i" using Cons.prems(2) by simp
  show ?case
  proof (cases x)
    case Zero
    then have "k = n + 2 ^ Suc i * bits_val bs" using Cons.IH [OF _ lt] Cons.prems(1) by simp
    with Zero Cons.hyps(1) show ?thesis by simp
  next
    case One
    have "n OR 2 ^ i = n + 2 ^ i"
    proof -
      have "\<not> bit n j \<or> \<not> bit (2 ^ i :: nat) j" for j
      proof (cases "j = i")
        case True
        with Cons.prems(2) show ?thesis by (simp add: bit_iff_odd)
      next
        case False
        then show ?thesis by (simp add: bit_exp_iff)
      qed
      then show ?thesis by (simp add: disjunctive_add)
    qed
    then have "k = n + 2 ^ i + 2 ^ Suc i * bits_val bs"
      using One Cons.IH [of "n + 2 ^ i" "Suc i"] Cons.prems by (auto split: if_splits)
    with One Cons.hyps(1) show ?thesis by simp
  next
    case Unknown
    with Cons.prems(1) show ?thesis by simp
  qed
qed

lemma known_usize_ok: "sound ar r bs \<Longrightarrow> known_usize ar r = Some k \<Longrightarrow> k = bits_val bs"
  using usize_loop_ok [OF sound_oks, of ar r bs 0 0 k] by (simp add: known_usize_def)

lemma power_loop_ok:
  "oks xs bs \<Longrightarrow> power_loop one i xs = Some s \<Longrightarrow>
    (case one of Some k \<Rightarrow> s = k \<and> bits_val bs = 0 | None \<Rightarrow> i \<le> s \<and> bits_val bs = 2 ^ (s - i))"
proof (induction xs bs arbitrary: one i rule: list_all2_induct)
  case Nil
  then show ?case by simp
next
  case (Cons x xs b bs)
  then show ?case
  proof (cases x)
    case Zero
    have "case one of Some k \<Rightarrow> s = k \<and> bits_val bs = 0 | None \<Rightarrow> Suc i \<le> s \<and> bits_val bs = 2 ^ (s - Suc i)"
      using Cons.IH [of one "Suc i"] Cons.prems Zero by simp
    moreover have "2 * 2 ^ (s - Suc i) = (2 :: nat) ^ (s - i)" if "Suc i \<le> s"
      using that by (simp add: Suc_diff_Suc flip: power_Suc)
    ultimately show ?thesis using Zero Cons.hyps(1) by (auto split: option.splits)
  next
    case One
    then have "one = None" and "power_loop (Some i) (Suc i) xs = Some s" using Cons.prems by (auto split: if_splits)
    with Cons.IH [of "Some i" "Suc i"] One Cons.hyps(1) show ?thesis by simp
  qed simp
qed

lemma power_of_two_ok: "sound ar r bs \<Longrightarrow> power_of_two ar r = Some s \<Longrightarrow> bits_val bs = 2 ^ s"
  using power_loop_ok [OF sound_oks, of ar r bs None 0 s] by (simp add: power_of_two_def)

lemma trailing_zeros_ok:
  assumes "sound ar r bs"
  shows "2 ^ fact_trailing_zeros ar r dvd bits_val bs" and "fact_trailing_zeros ar r \<le> length bs"
proof -
  let ?n = "fact_trailing_zeros ar r"
  show n: "?n \<le> length bs"
    using length_takeWhile_le [of "\<lambda>x. x = Zero" "fact_bits ar r"] soundD(1) [OF assms]
    by (simp add: fact_trailing_zeros_def)
  have "\<not> bs ! i" if "i < ?n" for i
  proof -
    have "takeWhile (\<lambda>x. x = Zero) (fact_bits ar r) ! i = Zero"
      using nth_mem [of i "takeWhile (\<lambda>x. x = Zero) (fact_bits ar r)"] that set_takeWhileD
      unfolding fact_trailing_zeros_def by metis
    then have "fact_bits ar r ! i = Zero" using that by (simp add: takeWhile_nth fact_trailing_zeros_def)
    moreover have "kb_ok (fact_bits ar r ! i) (bs ! i)"
      using sound_oks [OF assms] that n by (simp add: list_all2_conv_all_nth)
    ultimately show ?thesis by simp
  qed
  then have "take ?n bs = replicate ?n False" using n by (intro nth_equalityI) auto
  then have "bits_val bs mod 2 ^ ?n = 0" using bits_val_take [of ?n bs] by simp
  then show "2 ^ ?n dvd bits_val bs" by auto
qed

lemma is_zero_ok:
  assumes "sound ar r bs" and "fact_is_zero ar r"
  shows "bits_val bs = 0"
proof -
  have "2 ^ length bs dvd bits_val bs"
    using trailing_zeros_ok [OF assms(1)] assms soundD(1) [OF assms(1)] by (simp add: fact_is_zero_def)
  with bits_val_less [of bs] show ?thesis by (auto dest: dvd_imp_le)
qed

lemma is_one_ok:
  assumes "sound ar r bs" and "fact_is_one ar r"
  shows "bits_val bs = 1"
proof -
  note w = soundD(1) [OF assms(1)]
  obtain b cs where bs: "bs = b # cs" using assms(2) w by (cases bs) (auto simp: fact_is_one_def)
  have b: "b" using soundD(3) [OF assms(1), of 0] assms(2) by (simp add: bs fact_is_one_def)
  have "\<not> cs ! i" if "i < length cs" for i
  proof -
    have "Suc i \<in> set [1..<fr_width r]" using that unfolding w bs by auto
    then have "fact_bit ar r (Suc i) = Zero" using assms(2) unfolding fact_is_one_def list_all_iff by blast
    then show ?thesis using soundD(3) [OF assms(1), of "Suc i"] that by (simp add: bs)
  qed
  then have "cs = replicate (length cs) False" by (intro nth_equalityI) auto
  then have "bits_val cs = 0" by (metis bits_val_replicate_False)
  with b show ?thesis by (simp add: bs)
qed

section \<open>Resized operands\<close>

definition operand_ok :: "bool operand \<Rightarrow> bool"
  where "operand_ok a \<longleftrightarrow> fst a \<noteq> [] \<and> length (fst a) = ty_width (snd a)"

lemma extended_ok: "sound ar r (fst a) \<Longrightarrow> i < w \<Longrightarrow> kb_ok (fact_bit ar r i) (extend_bool a w se ! i)"
  by (cases "i < length (fst a)") (auto simp: extend_bool_def dest: soundD)

lemma extended_fact_ok:
  assumes "sound ar r (fst a)" and "fst a \<noteq> []" and "i < w" and "se \<Longrightarrow> ty_signed (snd a)"
  shows "kb_ok (extended_fact ar se r i) (extend_bool a w se ! i)"
proof (cases "i < length (fst a)")
  case True
  then show ?thesis using extended_ok [OF assms(1,3), of se] soundD(1) [OF assms(1)] by (simp add: extended_fact_def)
next
  case False
  have "kb_ok (fact_bit ar r (length (fst a) - 1)) (last (fst a))"
    using soundD(3) [OF assms(1), of "length (fst a) - 1"] assms(2) by (simp add: last_conv_nth)
  with False assms show ?thesis using soundD(1) [OF assms(1)] by (simp add: extended_fact_def extend_bool_def)
qed

lemma operand_val_eq_iff:
  assumes "fst a \<noteq> []" "length (fst a) \<le> n" "fst b \<noteq> []" "length (fst b) \<le> n"
    and "se = (ty_signed (snd a) \<and> ty_signed (snd b))"
  shows "operand_val a se = operand_val b se \<longleftrightarrow> extend_bool a n se = extend_bool b n se"
proof
  assume "operand_val a se = operand_val b se"
  then have "int (bits_val (extend_bool a n se)) = int (bits_val (extend_bool b n se))"
    using extend_bool_val assms(1,3) by simp
  then show "extend_bool a n se = extend_bool b n se" by (intro bits_val_inj) simp_all
next
  assume e: "extend_bool a n se = extend_bool b n se"
  have "se = (ty_signed (snd b) \<and> ty_signed (snd a))" using assms(5) by blast
  note less = extended_less [OF assms] extended_less [OF assms(3,4,1,2) this]
  have "\<not> operand_val a se < operand_val b se" using less(1) e by (simp split: if_splits)
  moreover have "\<not> operand_val b se < operand_val a se" using less(2) e by (simp split: if_splits)
  ultimately show "operand_val a se = operand_val b se" by simp
qed

section \<open>Comparisons\<close>

fun ordering_of :: "ordering \<Rightarrow> 'n::linorder \<Rightarrow> 'n \<Rightarrow> bool"
  where "ordering_of Less x y = (x < y)" | "ordering_of Equal x y = (x = y)" | "ordering_of Greater x y = (y < x)"

lemma compare_loop_ok:
  assumes "length xs = length ys" and "n \<le> length xs"
    and "\<And>i. i < n \<Longrightarrow> kb_ok (f i) (xs ! i) \<and> kb_ok (g i) (ys ! i)"
    and "compare_loop (map (\<lambda>i. (f i, g i)) (rev [0..<n])) = Some ord"
  shows "ordering_of ord (bits_val (take n xs)) (bits_val (take n ys))"
  using assms(2-4)
proof (induction n)
  case 0
  then show ?case by auto
next
  case (Suc n)
  have len: "n < length xs" "n < length ys" using Suc.prems(1) assms(1) by simp_all
  have small: "bits_val (take n xs) < 2 ^ n" "bits_val (take n ys) < 2 ^ n"
    using bits_val_less [of "take n xs"] bits_val_less [of "take n ys"] len by (simp_all add: min_def)
  have ok: "kb_ok (f n) (xs ! n)" "kb_ok (g n) (ys ! n)" using Suc.prems(2) [of n] by simp_all
  note v = bits_val_take_Suc [OF len(1)] bits_val_take_Suc [OF len(2)]
  have loop: "compare_loop ((f n, g n) # map (\<lambda>i. (f i, g i)) (rev [0..<n])) = Some ord" using Suc.prems(3) by simp
  show ?case
  proof (cases "f n = g n")
    case True
    then have "compare_loop (map (\<lambda>i. (f i, g i)) (rev [0..<n])) = Some ord" "f n \<noteq> Unknown"
      using loop by (auto split: if_splits)
    with Suc.IH Suc.prems(1,2) have "ordering_of ord (bits_val (take n xs)) (bits_val (take n ys))" by simp
    moreover have "xs ! n = ys ! n" using ok True \<open>f n \<noteq> Unknown\<close> by (cases "f n") simp_all
    ultimately show ?thesis unfolding v by (cases ord) simp_all
  next
    case False
    with loop ok small show ?thesis unfolding v by (cases "f n"; cases "g n") auto
  qed
qed

lemma compare_facts_ok:
  assumes "sound ar l (fst a)" and "sound ar r (fst b)" and "fst a \<noteq> []" "fst b \<noteq> []"
    and "se = (ty_signed (snd a) \<and> ty_signed (snd b))" and "compare_facts ar l r se = Some ord"
  shows "ordering_of ord (operand_val a se) (operand_val b se)"
proof -
  let ?n = "max (length (fst a)) (length (fst b))"
  let ?xs = "extend_bool a ?n se" and ?ys = "extend_bool b ?n se"
  have w: "fr_width l = length (fst a)" "fr_width r = length (fst b)" using assms(1,2) by (simp_all add: sound_def)
  have n: "0 < ?n" using assms(3) by (simp add: less_max_iff_disj)
  have ok: "kb_ok (extended_fact ar se l i) (?xs ! i) \<and> kb_ok (extended_fact ar se r i) (?ys ! i)" if "i < ?n" for i
    using that assms(5) by (intro conjI extended_fact_ok assms(1-4)) simp_all
  have sym: "se = (ty_signed (snd b) \<and> ty_signed (snd a))" using assms(5) by blast
  note less = extended_less [OF assms(3) max.cobounded1 assms(4) max.cobounded2 assms(5)]
    extended_less [OF assms(4) max.cobounded2 assms(3) max.cobounded1 sym]
  note sign = ok [of "?n - 1"]
  let ?l = "extended_fact ar se l (?n - 1)" and ?r = "extended_fact ar se r (?n - 1)"
  have bits: "ordering_of ord (bits_val ?xs) (bits_val ?ys)"
    if "compare_loop (map (\<lambda>i. (extended_fact ar se l i, extended_fact ar se r i)) (rev [0..<?n])) = Some ord"
    using compare_loop_ok [OF _ _ ok that] by simp
  show ?thesis
  proof (cases se)
    case False
    with assms(6) bits have o: "ordering_of ord (bits_val ?xs) (bits_val ?ys)" by (simp add: compare_facts_def w Let_def)
    then show ?thesis using False less by (cases ord) (auto simp: antisym_conv3)
  next
    case True
    consider "?l = One" "?r = Zero" "ord = Less" | "?l = Zero" "?r = One" "ord = Greater"
      | "?l = ?r" "?l \<noteq> Unknown" "ordering_of ord (bits_val ?xs) (bits_val ?ys)"
      using assms(6) True bits by (cases ?l; cases ?r) (simp_all add: compare_facts_def w Let_def)
    then show ?thesis
    proof cases
      case 1
      with sign n less(1) True show ?thesis by simp
    next
      case 2
      with sign n less(2) True show ?thesis by simp
    next
      case 3
      then have "?xs ! (?n - 1) = ?ys ! (?n - 1)" using sign n by (cases ?l) simp_all
      with 3(3) less True show ?thesis by (cases ord) (auto simp: antisym_conv3)
    qed
  qed
qed

lemma ordering_holds_ok:
  "op \<in> {Lt, Le, Gt, Ge} \<Longrightarrow> ordering_of ord x y \<Longrightarrow> ordering_holds op ord = compare_sem op x (y :: int)"
  by (cases ord) auto

lemma equality_ok:
  assumes "sound ar l (fst a)" and "sound ar r (fst b)" and "fst a \<noteq> []" "fst b \<noteq> []"
    and "se = (ty_signed (snd a) \<and> ty_signed (snd b))"
  shows "kb_ok (equality ar l r) (operand_val a se = operand_val b se)"
proof -
  let ?n = "max (length (fst a)) (length (fst b))"
  let ?xs = "extend_bool a ?n se" and ?ys = "extend_bool b ?n se"
  have w: "fr_width l = length (fst a)" "fr_width r = length (fst b)" using assms(1,2) by (simp_all add: sound_def)
  have "list_all2 (\<lambda>(x, y) (a, b). kb_ok x a \<and> kb_ok y b)
      (map (\<lambda>i. (fact_bit ar l i, fact_bit ar r i)) [0..<?n]) (zip ?xs ?ys)"
    using extended_ok [OF assms(1)] extended_ok [OF assms(2)] by (simp add: list_all2_conv_all_nth)
  from equality_loop_ok [OF this, of True] have "kb_ok (equality ar l r) (\<forall>(x, y) \<in> set (zip ?xs ?ys). x = y)"
    by (simp add: equality_def w)
  moreover have "(\<forall>(x, y) \<in> set (zip ?xs ?ys). x = y) \<longleftrightarrow> ?xs = ?ys"
    using list_eq_iff_zip_eq [of ?xs ?ys] by simp
  ultimately show ?thesis using operand_val_eq_iff [OF assms(3) max.cobounded1 assms(4) max.cobounded2 assms(5)] by simp
qed

section \<open>Multiplication\<close>

text \<open>
  The rules for a factor one and for a power of two read the bits of the factor as an unsigned
  number. That is right when the factor is not sign-extended: it is unsigned, or has the width of the
  result already.
\<close>

definition mul_factor_ok :: "nat \<Rightarrow> bool operand \<Rightarrow> bool"
  where "mul_factor_ok w a \<longleftrightarrow> \<not> ty_signed (snd a) \<or> length (fst a) = w"

lemma operand_val_unsigned:
  assumes "mul_factor_ok w a"
  shows "operand_val a True mod 2 ^ w = int (bits_val (fst a)) mod 2 ^ w"
  using assms by (auto simp: mul_factor_ok_def operand_val_def signed_val_def)

lemma product_bits:
  assumes "mul_factor_ok w a" and "mul_factor_ok w b"
  shows "to_bits w (operand_val a True * operand_val b True) = to_bits w (int (bits_val (fst a) * bits_val (fst b)))"
  unfolding of_nat_mult
  by (rule to_bits_cong, rule mod_mult_cong [OF operand_val_unsigned [OF assms(1)] operand_val_unsigned [OF assms(2)]])

lemma nth_to_bits_shift:
  assumes "i < w"
  shows "to_bits w (int (bits_val bs * 2 ^ s)) ! i \<longleftrightarrow> s \<le> i \<and> i - s < length bs \<and> bs ! (i - s)"
proof (cases "s \<le> i")
  case True
  have small: "bits_val bs div 2 ^ length bs = 0" using bits_val_less [of bs] by simp
  have odd: "odd (bits_val bs div 2 ^ j) \<longleftrightarrow> j < length bs \<and> bs ! j" for j
  proof (cases "j < length bs")
    case True
    have "to_bits (length bs) (int (bits_val bs)) ! j = bs ! j" by (simp add: to_bits_bits_val)
    moreover have "odd (int (bits_val bs) div 2 ^ j) = odd (bits_val bs div 2 ^ j)"
      by (metis even_of_nat of_nat_div of_nat_numeral of_nat_power)
    ultimately show ?thesis using True by (simp add: nth_to_bits)
  next
    case False
    then have "(2 :: nat) ^ length bs \<le> 2 ^ j" by simp
    with bits_val_less [of bs] have "bits_val bs < 2 ^ j" by linarith
    with False show ?thesis by simp
  qed
  have "bits_val bs * 2 ^ s div 2 ^ i = bits_val bs div 2 ^ (i - s)"
    using True by (metis div_mult_mult1_if le_add_diff_inverse mult.commute power_add power_eq_0_iff zero_neq_numeral)
  then have "odd (int (bits_val bs * 2 ^ s) div 2 ^ i) = odd (bits_val bs div 2 ^ (i - s))"
    by (metis even_of_nat of_nat_div of_nat_numeral of_nat_power)
  with True assms odd [of "i - s"] show ?thesis by (simp add: nth_to_bits del: of_nat_mult)
next
  case False
  then have "bits_val bs * 2 ^ s div 2 ^ i = bits_val bs * 2 ^ (s - i)"
    by (metis nat_le_linear power_diff div_mult_swap le_imp_power_dvd zero_neq_numeral)
  then have "int (bits_val bs * 2 ^ s) div 2 ^ i = int (bits_val bs * 2 ^ (s - i))"
    by (metis of_nat_div of_nat_numeral of_nat_power)
  with False assms show ?thesis by (simp add: nth_to_bits del: of_nat_mult)
qed

lemma shifted_product_ok:
  assumes "sound ar r bs" and "i < w"
  shows "kb_ok (if s \<le> i then fact_bit ar r (i - s) else Zero) (to_bits w (int (bits_val bs * 2 ^ s)) ! i)"
  using soundD(3) [OF assms(1), of "i - s"] soundD(1) [OF assms(1)] assms(2)
  by (cases "i - s < length bs") (auto simp: nth_to_bits_shift simp del: of_nat_mult)

lemma low_zeros_ok:
  assumes "2 ^ z dvd (k :: nat)" and "i < z" and "i < w"
  shows "\<not> to_bits w (int k) ! i"
proof -
  obtain q where q: "k = 2 ^ z * q" using assms(1) by blast
  obtain d where d: "z = Suc (i + d)" using less_imp_Suc_add [OF assms(2)] by blast
  have "k div 2 ^ i = 2 * 2 ^ d * q" unfolding q d by (simp add: power_add)
  then have "even (k div 2 ^ i)" by simp
  then have "even (int (k div 2 ^ i))" by (simp only: even_of_nat)
  then have "even (int k div 2 ^ i)" by (simp add: of_nat_div)
  with assms(3) show ?thesis by (simp add: nth_to_bits)
qed

lemma derive_mul_ok:
  assumes "sound ar l (fst a)" and "sound ar r (fst b)" and "mul_factor_ok w a" and "mul_factor_ok w b"
  shows "gives ar (to_bits w (operand_val a True * operand_val b True)) (derive_mul l r w ar)"
proof -
  let ?x = "bits_val (fst a)" and ?y = "bits_val (fst b)"
  have w: "fr_width l = length (fst a)" "fr_width r = length (fst b)" using assms(1,2) by (simp_all add: sound_def)
  have zero: "gives ar (to_bits w (int (?x * ?y))) (store_bits (replicate w Zero) w ar)" if "?x * ?y = 0"
    unfolding that by (rule gives_bits) (simp_all add: nth_to_bits)
  have one: "gives ar (to_bits w (int (?x * ?y))) (copy_facts r ar)" if "?x = 1" "fr_width r = w"
    using gives_copy [OF assms(2)] that w(2) to_bits_bits_val [of "fst b"] by simp
  have one': "gives ar (to_bits w (int (?x * ?y))) (copy_facts l ar)" if "?y = 1" "fr_width l = w"
    using gives_copy [OF assms(1)] that w(1) to_bits_bits_val [of "fst a"] by simp
  have shift: "gives ar (to_bits w (int (?x * ?y))) (store_generated w (\<lambda>i. if s \<le> i then fact_bit ar l (i - s) else Zero) ar)"
    if "?y = 2 ^ s" for s
    unfolding that by (rule gives_generated) (simp, rule shifted_product_ok [OF assms(1)])
  have shift': "gives ar (to_bits w (int (?x * ?y))) (store_generated w (\<lambda>i. if s \<le> i then fact_bit ar r (i - s) else Zero) ar)"
    if "?x = 2 ^ s" for s
    unfolding that mult.commute [of "2 ^ s"] by (rule gives_generated) (simp, rule shifted_product_ok [OF assms(2)])
  let ?p = "fact_trailing_zeros ar l" and ?q = "fact_trailing_zeros ar r"
  let ?z = "min (u32_sat_add ?p ?q) w"
  have "2 ^ (?p + ?q) dvd ?x * ?y"
    unfolding power_add by (rule mult_dvd_mono [OF trailing_zeros_ok(1) [OF assms(1)] trailing_zeros_ok(1) [OF assms(2)]])
  moreover have "?z \<le> ?p + ?q" by (simp add: u32_sat_add_def)
  ultimately have "2 ^ ?z dvd ?x * ?y" by (meson dvd_trans le_imp_power_dvd)
  then have low: "gives ar (to_bits w (int (?x * ?y))) (store_bits (map (\<lambda>i. if i < ?z then Zero else Unknown) [0..<w]) w ar)"
    by (intro gives_bits) (auto dest: low_zeros_ok simp del: of_nat_mult)
  have "gives ar (to_bits w (int (?x * ?y))) (derive_mul l r w ar)"
    unfolding derive_mul_def Let_def
    using zero one one' shift shift' low is_zero_ok [OF assms(1)] is_zero_ok [OF assms(2)] is_one_ok [OF assms(1)]
      is_one_ok [OF assms(2)] power_of_two_ok [OF assms(1)] power_of_two_ok [OF assms(2)]
    by (auto split: option.splits simp del: of_nat_mult)
  then show ?thesis unfolding product_bits [OF assms(3,4)] .
qed

section \<open>Binary operations\<close>

lemma adder_ok:
  assumes "sound ar l (fst a)" and "sound ar r (fst b)" and "fst a \<noteq> []" and "fst b \<noteq> []"
  shows "gives ar (to_bits w (operand_val a se + (if sub then - operand_val b se else operand_val b se)))
    (store_bits (adder_loop (if sub then One else Zero)
      (map (\<lambda>i. (fact_bit ar l i, if sub then invert (fact_bit ar r i) else fact_bit ar r i)) [0..<w])) w ar)"
proof -
  let ?xs = "extend_bool a w se" and ?ys = "extend_bool b w se"
  let ?zs = "map (\<lambda>y. y \<noteq> sub) ?ys"
  let ?fs = "map (\<lambda>i. (fact_bit ar l i, if sub then invert (fact_bit ar r i) else fact_bit ar r i)) [0..<w]"
  let ?sum = "ripple_sum sub (zip ?xs ?zs)"
  have loop: "length (adder_loop (if sub then One else Zero) ?fs) = length (zip ?xs ?zs) \<and>
      (\<forall>i < length (zip ?xs ?zs). kb_ok (adder_loop (if sub then One else Zero) ?fs ! i) (?sum ! i))"
    using extended_ok [OF assms(1), of _ w se] extended_ok [OF assms(2), of _ w se]
    by (intro adder_loop_ok) (auto dest: kb_ok_invert)
  have zs: "int (bits_val ?zs) + of_bool sub = (if sub then 2 ^ w - int (bits_val ?ys) else int (bits_val ?ys))"
  proof (cases sub)
    case True
    have "int (bits_val (map Not ?ys) + bits_val ?ys + 1) = int (2 ^ w)"
      using bits_val_not [of ?ys] by (simp only: length_extend_bool)
    with True show ?thesis by simp
  qed simp
  obtain k where "bits_val ?xs + bits_val ?zs + of_bool sub = bits_val ?sum + 2 ^ w * k"
    using ripple_sum_val [of ?xs ?zs sub] by auto
  then have "int (bits_val ?xs + bits_val ?zs + of_bool sub) = int (bits_val ?sum + 2 ^ w * k)" by (simp only:)
  then have k: "int (bits_val ?xs) + (int (bits_val ?zs) + of_bool sub) = int (bits_val ?sum) + 2 ^ w * int k" by simp
  have "int (bits_val ?sum) mod 2 ^ w = (int (bits_val ?xs) + (int (bits_val ?zs) + of_bool sub)) mod 2 ^ w"
    unfolding k by simp
  also have "\<dots> = (int (bits_val ?xs) + (if sub then - int (bits_val ?ys) else int (bits_val ?ys))) mod 2 ^ w"
    unfolding zs by (auto intro!: mod_add_cong simp: mod_eq_dvd_iff)
  also have "\<dots> = (operand_val a se + (if sub then - operand_val b se else operand_val b se)) mod 2 ^ w"
    unfolding extend_bool_val [OF assms(3)] extend_bool_val [OF assms(4)] by (cases sub) (simp_all add: mod_simps)
  finally have "to_bits w (operand_val a se + (if sub then - operand_val b se else operand_val b se)) = ?sum"
    by (intro to_bits_eqI) simp_all
  then show ?thesis using loop by (intro gives_bits) simp_all
qed

lemma shifted_fact_ok:
  assumes "sound ar l bs" and "bs \<noteq> []" and "length bs < 2 ^ 32" and "op \<in> {Shl, Shr, Ashr}" and "i < length bs"
  shows "kb_ok (shifted_fact ar op sg l k i) (shift_by op sg k bs ! i)"
proof -
  note w = soundD(1) [OF assms(1)] and ok = soundD(3) [OF assms(1)]
  have sat: "usize_sat_add i k \<ge> fr_width l \<longleftrightarrow> \<not> i + k < length bs"
    using assms(3,5) by (auto simp: usize_sat_add_def w)
  have "kb_ok (fact_bit ar l (fr_width l - 1)) (last bs)" using ok [of "length bs - 1"] assms(2) by (simp add: w last_conv_nth)
  then show ?thesis using assms(4,5) ok [of "i - k"] ok [of "i + k"] sat
    by (auto simp: shifted_fact_def shift_by_nth)
qed

lemma extend_bool_same: "length (fst a) = w \<Longrightarrow> extend_bool a w se = fst a"
  by (cases a) (simp add: extend_bool_take)

lemma derive_shift_ok:
  assumes "sound ar l (fst a)" and "sound ar r (fst b)" and "fst a \<noteq> []" and "length (fst a) = ty_width ty"
    and "ty_width ty < 2 ^ 32" and "op \<in> {Shl, Shr, Ashr}"
  shows "gives ar (shift_by op (ty_signed ty) (bits_val (fst b)) (extend_bool a (ty_width ty) (ty_signed ty)))
    (case known_usize ar r of None \<Rightarrow> (fact_unknown (ty_width ty), ar)
     | Some k \<Rightarrow> store_generated (ty_width ty) (shifted_fact ar op (ty_signed ty) l k) ar)"
  unfolding extend_bool_same [OF assms(4)]
  using assms known_usize_ok [OF assms(2)]
  by (auto split: option.splits intro!: gives_unknown gives_generated shifted_fact_ok)

definition mul_ok :: "BinaryOp \<Rightarrow> nat \<Rightarrow> bool operand \<Rightarrow> bool operand \<Rightarrow> bool"
  where "mul_ok op w a b \<longleftrightarrow> op = Mul \<longrightarrow> mul_factor_ok w a \<and> mul_factor_ok w b"

lemma derive_binary_ok:
  assumes facts: "sound ar l (fst a)" "sound ar r (fst b)" and ops: "operand_ok a" "operand_ok b"
    and ty: "binary_type op (snd a) (snd b) = Inr ty" and small: "ty_width ty < 2 ^ 32" and mul: "mul_ok op (ty_width ty) a b"
  shows "gives ar (word_binary op ty a b)
    (derive_binary op l r ty (ty_signed (snd a) \<and> ty_signed (snd b)) ar)"
proof -
  have ne: "fst a \<noteq> []" "fst b \<noteq> []" using ops by (simp_all add: operand_ok_def)
  note scalar = gives_scalar [of _ _ ar]
  consider (bits) "op \<in> {BitAnd, BitOr, BitXor}" | (add) "op = Add \<or> op = Sub" | (mul) "op = Mul" | (division) "op = Div \<or> op = Mod"
    | (logical) "op \<in> {LogicalAnd, LogicalOr}" | (eq) "op = Eq \<or> op = Ne" | (compare) "op \<in> {Lt, Le, Gt, Ge}" | (shift) "op \<in> {Shl, Shr, Ashr}"
    by (cases op) auto
  then show ?thesis
  proof cases
    case bits
    then have "gives ar (map2 (bitwise_fun op) (extend_bool a (ty_width ty) (ty_signed ty)) (extend_bool b (ty_width ty) (ty_signed ty)))
        (store_generated (ty_width ty) (\<lambda>i. bitwise op (fact_bit ar l i) (fact_bit ar r i)) ar)"
      by (intro gives_generated) (simp_all add: kb_ok_bitwise extended_ok [OF facts(1)] extended_ok [OF facts(2)])
    with bits show ?thesis by (auto simp: derive_binary_def word_binary_def Let_def)
  next
    case add
    then show ?thesis using adder_ok [OF facts ne, of "ty_width ty" "ty_signed ty" False]
        adder_ok [OF facts ne, of "ty_width ty" "ty_signed ty" True]
      by (auto simp: derive_binary_def word_binary_def Let_def)
  next
    case mul
    with assms(7) derive_mul_ok [OF facts] show ?thesis by (simp add: mul_ok_def derive_binary_def word_binary_def)
  next
    case division
    then show ?thesis by (auto simp: derive_binary_def word_binary_def Let_def intro!: gives_unknown)
  next
    case logical
    then have "kb_ok (logical_binary op (logical_value ar l) (logical_value ar r))
        (bitwise_fun (if op = LogicalAnd then BitAnd else BitOr) (True \<in> set (fst a)) (True \<in> set (fst b)))"
      using kb_ok_bitwise [OF _ logical_value_ok [OF facts(1)] logical_value_ok [OF facts(2)]]
      by (auto simp: logical_binary_def)
    with logical show ?thesis by (auto simp: derive_binary_def word_binary_def Let_def bitwise_fun_def intro!: scalar)
  next
    case eq
    with equality_ok [OF facts ne refl] kb_ok_invert [OF equality_ok [OF facts ne refl]] show ?thesis
      by (auto simp: derive_binary_def word_binary_def Let_def intro!: scalar)
  next
    case compare
    let ?se = "ty_signed (snd a) \<and> ty_signed (snd b)"
    have "kb_ok (case compare_facts ar l r ?se of None \<Rightarrow> Unknown | Some ord \<Rightarrow> if ordering_holds op ord then One else Zero)
        (compare_sem op (operand_val a ?se) (operand_val b ?se))"
      using ordering_holds_ok [OF compare compare_facts_ok [OF facts ne refl]] by (auto split: option.splits)
    from gives_scalar [OF this, of ar] compare show ?thesis by (auto simp: derive_binary_def word_binary_def Let_def)
  next
    case shift
    then have "length (fst a) = ty_width ty" using ty ops by (auto simp: binary_type_def operand_ok_def WordType_new_Inr)
    from derive_shift_ok [OF facts ne(1) this small shift] shift show ?thesis
      by (auto simp: derive_binary_def word_binary_def Let_def)
  qed
qed

end
