(* ===== verification/Known_Bits_Analysis.thy ===== *)
theory Known_Bits_Analysis
  imports Known_Bits
begin

text \<open>
  The memoised, incremental analysis around the transfer functions of \<^verbatim>\<open>known_bits.rs\<close>: the drivers
  of every signal, the evaluation of a node from the facts of its operands, the depth-first
  traversal, and the refresh after an append-only change. A stack is a list with its top first.
\<close>

section \<open>Drivers of signals\<close>

record SignalDrivers =
  sd_connects :: "nat PackedRows"
  sd_observed :: nat
  sd_appended :: "(SignalId \<times> nat list) list"

definition connect_entries :: "WordModule \<Rightarrow> (nat \<times> nat) list"
  where "connect_entries m =
    map (\<lambda>(index, connect). (SignalId_index (lv_signal (cn_target connect)), index)) (enumerate 0 (wm_connects m))"

definition SignalDrivers_build :: "WordModule \<Rightarrow> string + SignalDrivers"
  where "SignalDrivers_build m =
    (case try_from_entries (length (wm_signals m)) (connect_entries m) of
       Some (Inr rows) \<Rightarrow> Inr \<lparr>sd_connects = rows, sd_observed = length (wm_connects m), sd_appended = []\<rparr>
     | _ \<Rightarrow> Inl ''validated Word IR fits the packed-row capacity'')"

definition entry_or_default :: "('k \<times> 'v list) list \<Rightarrow> 'k \<Rightarrow> 'v list"
  where "entry_or_default al k = (case map_of al k of None \<Rightarrow> [] | Some vs \<Rightarrow> vs)"

definition append_drivers :: "(nat \<times> Connect) list \<Rightarrow> (SignalId \<times> nat list) list \<Rightarrow> (SignalId \<times> nat list) list"
  where "append_drivers connects appended =
    fold (\<lambda>(index, connect) al.
      let s = lv_signal (cn_target connect) in AList.update s (entry_or_default al s @ [index]) al) connects appended"

text \<open>The changed signals, or nothing when connections were removed and the drivers are rebuilt.\<close>

definition drivers_sync :: "WordModule \<Rightarrow> SignalDrivers \<Rightarrow> string + SignalId list option \<times> SignalDrivers"
  where "drivers_sync m d =
    (if length (wm_connects m) < sd_observed d then rbind (SignalDrivers_build m) (\<lambda>d. Inr (None, d))
     else let fresh = drop (sd_observed d) (enumerate 0 (wm_connects m))
     in Inr (Some (sort_key SignalId_index (remdups (map (\<lambda>(_, connect). lv_signal (cn_target connect)) fresh))),
          d\<lparr>sd_appended := append_drivers fresh (sd_appended d), sd_observed := length (wm_connects m)\<rparr>))"

definition for_signal :: "SignalDrivers \<Rightarrow> SignalId \<Rightarrow> nat list"
  where "for_signal d s =
    (case rows_get (sd_connects d) (SignalId_index s) of None \<Rightarrow> [] | Some row \<Rightarrow> row) @ entry_or_default (sd_appended d) s"

section \<open>The state of the analysis\<close>

datatype FactState = Uncomputed | Computing | Computed FactRange

datatype FactNode = ValueNode ValueId | SignalNode SignalId

record KnownBitsAnalysis =
  an_values :: "FactState list"
  an_signals :: "FactState list"
  an_arena :: arena
  an_dependents :: "(FactNode \<times> FactNode list) list"
  an_drivers :: SignalDrivers
  an_external :: "bool list"
  an_observed_ports :: nat

definition driven_outside :: "Port \<Rightarrow> bool"
  where "driven_outside port \<longleftrightarrow> port_direction port = PortInput \<or> port_direction port = PortInout"

fun mark_external :: "bool list \<Rightarrow> Port list \<Rightarrow> string + bool list"
  where
    "mark_external flags [] = Inr flags"
  | "mark_external flags (port # ports) =
      (if driven_outside port then
         if SignalId_index (port_signal port) < length flags
         then mark_external (flags[SignalId_index (port_signal port) := True]) ports
         else Inl ''index out of bounds''
       else mark_external flags ports)"

definition analysis_new :: "WordModule \<Rightarrow> string + KnownBitsAnalysis"
  where "analysis_new m =
    rbind (mark_external (replicate (length (wm_signals m)) False) (wm_ports m)) (\<lambda>external.
    rbind (SignalDrivers_build m) (\<lambda>drivers.
      Inr \<lparr>an_values = replicate (length (wm_values m)) Uncomputed,
           an_signals = replicate (length (wm_signals m)) Uncomputed,
           an_arena = [], an_dependents = [], an_drivers = drivers, an_external = external,
           an_observed_ports = length (wm_ports m)\<rparr>))"

definition record_dependency :: "KnownBitsAnalysis \<Rightarrow> FactNode \<Rightarrow> FactNode \<Rightarrow> KnownBitsAnalysis"
  where "record_dependency a dependency dependent =
    (let ds = entry_or_default (an_dependents a) dependency
     in a\<lparr>an_dependents := AList.update dependency (if dependent \<in> set ds then ds else ds @ [dependent]) (an_dependents a)\<rparr>)"

definition node_width :: "WordModule \<Rightarrow> FactNode \<Rightarrow> nat option"
  where "node_width m node =
    (case node of
       ValueNode v \<Rightarrow> map_option (\<lambda>x. ty_width (v_ty x)) (WordModule_value m v)
     | SignalNode s \<Rightarrow> map_option (\<lambda>x. ty_width (sig_ty x)) (WordModule_signal m s))"

definition node_state :: "KnownBitsAnalysis \<Rightarrow> FactNode \<Rightarrow> FactState option"
  where "node_state a node =
    (case node of
       ValueNode v \<Rightarrow> list_get (an_values a) (ValueId_index v)
     | SignalNode s \<Rightarrow> list_get (an_signals a) (SignalId_index s))"

definition set_node_state :: "KnownBitsAnalysis \<Rightarrow> FactNode \<Rightarrow> FactState \<Rightarrow> KnownBitsAnalysis option"
  where "set_node_state a node st =
    (case node of
       ValueNode v \<Rightarrow>
         if ValueId_index v < length (an_values a)
         then Some (a\<lparr>an_values := (an_values a)[ValueId_index v := st]\<rparr>) else None
     | SignalNode s \<Rightarrow>
         if SignalId_index s < length (an_signals a)
         then Some (a\<lparr>an_signals := (an_signals a)[SignalId_index s := st]\<rparr>) else None)"

definition has_dynamic :: "WordModule \<Rightarrow> nat list \<Rightarrow> bool"
  where "has_dynamic m connects =
    list_ex (\<lambda>index. case list_get (wm_connects m) index of None \<Rightarrow> False
      | Some connect \<Rightarrow> lv_dynamic (cn_target connect) \<noteq> None) connects"

fun connect_values :: "WordModule \<Rightarrow> nat list \<Rightarrow> FactNode list option"
  where
    "connect_values m [] = Some []"
  | "connect_values m (index # connects) =
      (case list_get (wm_connects m) index of None \<Rightarrow> None
       | Some connect \<Rightarrow> map_option (Cons (ValueNode (cn_value connect))) (connect_values m connects))"

definition node_dependencies :: "WordModule \<Rightarrow> FactNode \<Rightarrow> KnownBitsAnalysis \<Rightarrow> FactNode list option"
  where "node_dependencies m node a =
    (case node of
       ValueNode v \<Rightarrow>
         (case WordModule_value m v of None \<Rightarrow> None
          | Some x \<Rightarrow>
              (case v_kind x of
                 SignalValue reference \<Rightarrow> Some [SignalNode (sr_signal reference)]
               | ConstantValue bits \<Rightarrow> Some []
               | OperationValue op \<Rightarrow>
                   map_option (\<lambda>operation. map ValueNode (op_inputs (op_kind operation))) (WordModule_operation m op)))
     | SignalNode s \<Rightarrow>
         let connects = for_signal (an_drivers a) s
         in case list_get (an_external a) (SignalId_index s) of None \<Rightarrow> None
            | Some external \<Rightarrow>
                if external \<or> connects = [] \<or> has_dynamic m connects then Some [] else connect_values m connects)"

definition node_facts :: "WordModule \<Rightarrow> FactNode \<Rightarrow> KnownBitsAnalysis \<Rightarrow> FactRange option"
  where "node_facts m node a =
    (case node_state a node of None \<Rightarrow> None
     | Some (Computed facts) \<Rightarrow> Some facts
     | Some _ \<Rightarrow> map_option fact_unknown (node_width m node))"

definition value_facts :: "WordModule \<Rightarrow> ValueId \<Rightarrow> KnownBitsAnalysis \<Rightarrow> FactRange"
  where "value_facts m v a =
    (case node_facts m (ValueNode v) a of Some facts \<Rightarrow> facts
     | None \<Rightarrow> fact_unknown (case WordModule_value m v of None \<Rightarrow> 0 | Some x \<Rightarrow> ty_width (v_ty x)))"

section \<open>Evaluation of a node\<close>

text \<open>The bits a connection drives: the first driver of a bit sets its fact, a second clears it.\<close>

fun drive_bits :: "BitRange option \<Rightarrow> (nat \<Rightarrow> KnownBit) \<Rightarrow> nat list \<Rightarrow> u64 list \<Rightarrow> arena \<Rightarrow> string + (u64 list \<times> arena) option"
  where
    "drive_bits rng source [] assigned bits = Inr (Some (assigned, bits))"
  | "drive_bits rng source (offset # offsets) assigned bits =
      (case (case rng of
          Some r \<Rightarrow> if br_msb r \<ge> br_lsb r then (if br_lsb r + offset < 2 ^ 32 then Some (br_lsb r + offset) else None)
            else if offset \<le> br_lsb r then Some (br_lsb r - offset) else None
        | None \<Rightarrow> Some offset) of
         None \<Rightarrow> Inr None
       | Some target \<Rightarrow>
           let word = target div 64; mask = push_bit (target mod 64) 1
           in if word \<ge> length assigned then Inl ''index out of bounds''
              else if assigned ! word AND mask = 0
              then drive_bits rng source offsets (assigned[word := assigned ! word OR mask]) (set_fact bits target (source offset))
              else drive_bits rng source offsets assigned (set_fact bits target Unknown))"

fun drive_connects :: "WordModule \<Rightarrow> KnownBitsAnalysis \<Rightarrow> nat \<Rightarrow> nat list \<Rightarrow> u64 list \<Rightarrow> arena \<Rightarrow> string + arena option"
  where
    "drive_connects m a width [] assigned bits = Inr (Some bits)"
  | "drive_connects m a width (index # connects) assigned bits =
      (case list_get (wm_connects m) index of None \<Rightarrow> Inr None
       | Some connect \<Rightarrow>
           (case node_facts m (ValueNode (cn_value connect)) a of None \<Rightarrow> Inr None
            | Some source \<Rightarrow>
                rbind (drive_bits (lv_range (cn_target connect)) (fact_bit (an_arena a) source)
                    [0..<(case lv_range (cn_target connect) of None \<Rightarrow> width | Some r \<Rightarrow> BitRange_width r)] assigned bits)
                  (\<lambda>driven. case driven of None \<Rightarrow> Inr None
                   | Some (assigned, bits) \<Rightarrow> drive_connects m a width connects assigned bits)))"

definition evaluate_signal :: "WordModule \<Rightarrow> SignalId \<Rightarrow> KnownBitsAnalysis \<Rightarrow> string + FactRange option \<times> arena"
  where "evaluate_signal m s a =
    (case WordModule_signal m s of None \<Rightarrow> Inr (None, an_arena a)
     | Some signal \<Rightarrow>
         let width = ty_width (sig_ty signal); connects = for_signal (an_drivers a) s
         in case list_get (an_external a) (SignalId_index s) of None \<Rightarrow> Inl ''index out of bounds''
            | Some external \<Rightarrow>
                if external \<or> connects = [] \<or> has_dynamic m connects then Inr (Some (fact_unknown width), an_arena a)
                else rbind (drive_connects m a width connects (replicate (word_count width) 0) (empty_words width))
                  (\<lambda>bits. case bits of None \<Rightarrow> Inr (None, an_arena a)
                   | Some bits \<Rightarrow> let (r, ar) = store_words bits width (an_arena a) in Inr (Some r, ar)))"

definition derive_cast :: "CastKind \<Rightarrow> FactRange \<Rightarrow> arena \<Rightarrow> nat \<Rightarrow> KnownBit"
  where "derive_cast kind r ar i =
    (if i < fr_width r then fact_bit ar r i
     else case kind of ZeroExtend \<Rightarrow> Zero | SignExtend \<Rightarrow> fact_bit ar r (fr_width r - 1) | Truncate \<Rightarrow> Unknown)"

fun derive_operation :: "WordModule \<Rightarrow> OpKind \<Rightarrow> WordType \<Rightarrow> KnownBitsAnalysis \<Rightarrow> string + FactRange \<times> arena"
  where
    "derive_operation m (OpUnary op arg) ty a =
      (let r = value_facts m arg a; ar = an_arena a
       in Inr (case op of
            BitNot \<Rightarrow> store_generated (ty_width ty) (\<lambda>i. invert (fact_bit ar r i)) ar
          | LogicalNot \<Rightarrow> store_scalar (invert (logical_value ar r)) ar
          | ReductionAnd \<Rightarrow> store_scalar (reduction_and ar r) ar
          | ReductionOr \<Rightarrow> store_scalar (logical_value ar r) ar
          | ReductionXor \<Rightarrow> store_scalar (reduction_xor ar r) ar))"
  | "derive_operation m (OpBinary op left right) ty a =
      Inr (derive_binary op (value_facts m left a) (value_facts m right a) ty
        (case (WordModule_value m left, WordModule_value m right) of
           (Some l, Some r) \<Rightarrow> ty_signed (v_ty l) \<and> ty_signed (v_ty r) | _ \<Rightarrow> False) (an_arena a))"
  | "derive_operation m (OpMux cond then_value else_value) ty a =
      (let c = value_facts m cond a; t = value_facts m then_value a; e = value_facts m else_value a; ar = an_arena a
       in Inr (case logical_value ar c of
            One \<Rightarrow> copy_facts t ar
          | Zero \<Rightarrow> copy_facts e ar
          | Unknown \<Rightarrow> store_generated (ty_width ty) (\<lambda>i. merge_equal (fact_bit ar t i) (fact_bit ar e i)) ar))"
  | "derive_operation m (OpConcat parts) ty a =
      Inr (store_bits (concat (map (\<lambda>part. fact_bits (an_arena a) (value_facts m part a)) (rev parts))) (ty_width ty) (an_arena a))"
  | "derive_operation m (OpExtract x lsb width) ty a = slice_facts (value_facts m x a) lsb width (an_arena a)"
  | "derive_operation m (OpDynamicExtract x offset width) ty a =
      (let r = value_facts m x a; ar = an_arena a
       in case known_usize ar (value_facts m offset a) of
            Some n \<Rightarrow>
              if n < 2 ^ 32 \<and> u32_sat_add n width \<le> fr_width r then slice_facts r n width ar
              else Inr (store_generated width (\<lambda>_. Zero) ar)
          | None \<Rightarrow>
              if fact_is_zero ar r then Inr (store_generated width (\<lambda>_. Zero) ar) else Inr (fact_unknown width, ar))"
  | "derive_operation m (OpDynamicInsert x offset replacement) ty a =
      (let r = value_facts m x a; repl = value_facts m replacement a; ar = an_arena a; width = ty_width ty
       in case known_usize ar (value_facts m offset a) of
            Some n \<Rightarrow>
              if n < 2 ^ 32 \<and> u32_sat_add n (fr_width repl) \<le> width then
                if 0 < width \<and> n + fr_width repl \<ge> 2 ^ 32 then Inl ''attempt to add with overflow''
                else Inr (store_generated width (\<lambda>i.
                    if n \<le> i \<and> i < n + fr_width repl then fact_bit ar repl (i - n) else fact_bit ar r i) ar)
              else Inr (fact_unknown width, ar)
          | None \<Rightarrow> Inr (fact_unknown width, ar))"
  | "derive_operation m (OpCast kind x target) ty a =
      (let r = value_facts m x a; ar = an_arena a in Inr (store_generated (ty_width target) (derive_cast kind r ar) ar))"
  | "derive_operation m (OpTriState d e) ty a = Inr (fact_unknown (ty_width ty), an_arena a)"
  | "derive_operation m (OpRegister r) ty a = Inr (fact_unknown (ty_width ty), an_arena a)"
  | "derive_operation m (OpLatch l) ty a = Inr (fact_unknown (ty_width ty), an_arena a)"

fun constant_fact :: "BitVal \<Rightarrow> KnownBit"
  where "constant_fact BitZero = Zero" | "constant_fact BitOne = One" | "constant_fact BitX = Unknown" | "constant_fact BitZ = Unknown"

definition evaluate_node :: "WordModule \<Rightarrow> FactNode \<Rightarrow> KnownBitsAnalysis \<Rightarrow> string + FactRange option \<times> arena"
  where "evaluate_node m node a =
    (case node of
       ValueNode v \<Rightarrow>
         (case WordModule_value m v of None \<Rightarrow> Inr (None, an_arena a)
          | Some x \<Rightarrow>
              (case v_kind x of
                 SignalValue reference \<Rightarrow>
                   (case node_facts m (SignalNode (sr_signal reference)) a of None \<Rightarrow> Inr (None, an_arena a)
                    | Some facts \<Rightarrow> rbind (slice_facts facts (sr_lsb reference) (sr_width reference) (an_arena a))
                        (\<lambda>(r, ar). Inr (Some r, ar)))
               | ConstantValue bits \<Rightarrow>
                   (let (r, ar) = store_bits (map constant_fact (rev bits)) (length bits) (an_arena a) in Inr (Some r, ar))
               | OperationValue op \<Rightarrow>
                   (case WordModule_operation m op of None \<Rightarrow> Inr (None, an_arena a)
                    | Some operation \<Rightarrow> rbind (derive_operation m (op_kind operation) (v_ty x) a)
                        (\<lambda>(r, ar). Inr (Some r, ar)))))
     | SignalNode s \<Rightarrow> evaluate_signal m s a)"

section \<open>The traversal\<close>

text \<open>Dependencies are visited in reverse, so that the first one ends up on top of the stack.\<close>

definition push_dependencies ::
  "FactNode \<Rightarrow> FactNode list \<Rightarrow> (FactNode \<times> bool) list \<Rightarrow> KnownBitsAnalysis \<Rightarrow> (FactNode \<times> bool) list \<times> KnownBitsAnalysis"
  where "push_dependencies node dependencies pending a =
    fold (\<lambda>dependency (pending, a).
      let a = record_dependency a dependency node
      in (if node_state a dependency = Some Uncomputed then (dependency, False) # pending else pending, a))
      (rev dependencies) (pending, a)"

definition uncomputed :: "KnownBitsAnalysis \<Rightarrow> nat"
  where "uncomputed a = length (filter (\<lambda>st. st = Uncomputed) (an_values a @ an_signals a))"

lemma record_dependency_states [simp]:
  "an_values (record_dependency a d n) = an_values a" "an_signals (record_dependency a d n) = an_signals a"
  "an_arena (record_dependency a d n) = an_arena a" "an_drivers (record_dependency a d n) = an_drivers a"
  "an_external (record_dependency a d n) = an_external a"
  by (simp_all add: record_dependency_def Let_def)

lemma push_dependencies_states:
  assumes "push_dependencies node ds p a = (p', a')"
  shows "an_values a' = an_values a \<and> an_signals a' = an_signals a \<and> an_arena a' = an_arena a \<and>
    an_drivers a' = an_drivers a \<and> an_external a' = an_external a"
proof -
  have "fold (\<lambda>d (p, a). let a = record_dependency a d node
      in (if node_state a d = Some Uncomputed then (d, False) # p else p, a)) ds (p, a) = (p', a') \<Longrightarrow> ?thesis" for ds p
    by (induction ds arbitrary: p a) (auto simp: Let_def)
  with assms show ?thesis unfolding push_dependencies_def by blast
qed

lemma filter_update_le:
  "\<not> P x \<Longrightarrow> length (filter P (xs[i := x])) \<le> length (filter P xs)"
  by (induction xs arbitrary: i) (auto split: nat.splits simp: le_SucI)

lemma filter_update_less:
  "i < length xs \<Longrightarrow> P (xs ! i) \<Longrightarrow> \<not> P x \<Longrightarrow> length (filter P (xs[i := x])) < length (filter P xs)"
  by (induction xs arbitrary: i) (auto split: nat.splits simp: nth_Cons' less_SucI)

lemma uncomputed_set_le:
  "set_node_state a node st = Some a' \<Longrightarrow> st \<noteq> Uncomputed \<Longrightarrow> uncomputed a' \<le> uncomputed a"
  by (auto simp: set_node_state_def uncomputed_def filter_update_le split: FactNode.splits if_splits)

lemma uncomputed_set_less:
  "set_node_state a node st = Some a' \<Longrightarrow> node_state a node = Some Uncomputed \<Longrightarrow> st \<noteq> Uncomputed \<Longrightarrow>
    uncomputed a' < uncomputed a"
  by (auto simp: set_node_state_def node_state_def uncomputed_def list_get_def filter_update_less
      split: FactNode.splits if_splits)

lemma uncomputed_arena [simp]: "uncomputed (a\<lparr>an_arena := ar\<rparr>) = uncomputed a"
  by (simp add: uncomputed_def)

text \<open>
  The loop of \<^verbatim>\<open>derive_node\<close>. \<open>None\<close> is the early return of the question mark. It ends: a node is
  expanded only once, and every other step shortens the stack.
\<close>

function derive_loop ::
  "WordModule \<Rightarrow> (FactNode \<times> bool) list \<Rightarrow> KnownBitsAnalysis \<Rightarrow> string + unit option \<times> KnownBitsAnalysis"
  where
    "derive_loop m [] a = Inr (Some (), a)"
  | "derive_loop m ((node, True) # pending) a =
      (case evaluate_node m node a of
         Inl e \<Rightarrow> Inl e
       | Inr (facts, ar) \<Rightarrow>
           let facts = (case facts of Some f \<Rightarrow> f
             | None \<Rightarrow> fact_unknown (case node_width m node of None \<Rightarrow> 0 | Some w \<Rightarrow> w))
           in case set_node_state (a\<lparr>an_arena := ar\<rparr>) node (Computed facts) of
                None \<Rightarrow> Inr (None, a\<lparr>an_arena := ar\<rparr>)
              | Some a \<Rightarrow> derive_loop m pending a)"
  | "derive_loop m ((node, False) # pending) a =
      (case node_state a node of
         None \<Rightarrow> Inr (None, a)
       | Some Uncomputed \<Rightarrow>
           (case set_node_state a node Computing of
              None \<Rightarrow> Inr (None, a)
            | Some a \<Rightarrow>
                (case node_dependencies m node a of
                   None \<Rightarrow> Inr (None, a)
                 | Some dependencies \<Rightarrow>
                     (case push_dependencies node dependencies ((node, True) # pending) a of
                        (pending, a) \<Rightarrow> derive_loop m pending a)))
       | Some _ \<Rightarrow> derive_loop m pending a)"
  by pat_completeness auto

termination
proof (relation "inv_image (less_than <*lex*> less_than) (\<lambda>(m, pending, a). (uncomputed a, length pending))",
    goal_cases)
  case 1
  then show ?case by (intro wf_inv_image wf_lex_prod) auto
next
  case (2 m node pending a b facts ar z a')
  then have "uncomputed a' \<le> uncomputed a" using uncomputed_set_le [of "a\<lparr>an_arena := ar\<rparr>"] by fastforce
  then show ?case by auto
next
  case (3 m node pending a st a' ds x y)
  have "uncomputed a' < uncomputed a" by (rule uncomputed_set_less [OF 3(3)]) (use 3 in simp_all)
  moreover have "uncomputed y = uncomputed a'"
    using push_dependencies_states [OF 3(5) [symmetric]] by (simp add: uncomputed_def)
  ultimately show ?case by simp
next
  case (4 m node pending a)
  then show ?case by simp
next
  case (5 m node pending a)
  then show ?case by simp
qed

definition derive_node :: "WordModule \<Rightarrow> FactNode \<Rightarrow> KnownBitsAnalysis \<Rightarrow> string + FactRange option \<times> KnownBitsAnalysis"
  where "derive_node m root a =
    (case node_width m root of None \<Rightarrow> Inr (None, a)
     | Some _ \<Rightarrow>
         rbind (derive_loop m [(root, False)] a) (\<lambda>(completed, a).
           case completed of None \<Rightarrow> Inr (None, a)
           | Some _ \<Rightarrow>
               (case node_state a root of Some (Computed facts) \<Rightarrow> Inr (Some facts, a) | _ \<Rightarrow> Inr (None, a))))"

definition derive_value :: "WordModule \<Rightarrow> ValueId \<Rightarrow> KnownBitsAnalysis \<Rightarrow> string + FactRange option \<times> KnownBitsAnalysis"
  where "derive_value m v a = derive_node m (ValueNode v) a"

section \<open>Queries\<close>

definition analysis_bit :: "WordModule \<Rightarrow> ValueId \<Rightarrow> nat \<Rightarrow> KnownBitsAnalysis \<Rightarrow> string + KnownBit \<times> KnownBitsAnalysis"
  where "analysis_bit m v index a =
    rbind (derive_value m v a) (\<lambda>(facts, a).
      Inr (case facts of None \<Rightarrow> Unknown | Some r \<Rightarrow> fact_bit (an_arena a) r index, a))"

definition analysis_constant :: "WordModule \<Rightarrow> ValueId \<Rightarrow> KnownBitsAnalysis \<Rightarrow> string + BitVal list option \<times> KnownBitsAnalysis"
  where "analysis_constant m v a =
    rbind (derive_value m v a) (\<lambda>(facts, a).
      Inr (case facts of None \<Rightarrow> None | Some r \<Rightarrow> known_constant (fr_width r) (fact_bit (an_arena a) r), a))"

fun active_loop :: "arena \<Rightarrow> FactRange \<Rightarrow> nat \<Rightarrow> nat"
  where
    "active_loop ar r 0 = 0"
  | "active_loop ar r (Suc width) = (if fact_bit ar r width = Zero then active_loop ar r width else Suc width)"

definition active_width :: "WordModule \<Rightarrow> ValueId \<Rightarrow> nat \<Rightarrow> KnownBitsAnalysis \<Rightarrow> string + nat \<times> KnownBitsAnalysis"
  where "active_width m v limit a =
    rbind (derive_value m v a) (\<lambda>(facts, a).
      Inr (case facts of None \<Rightarrow> limit | Some r \<Rightarrow> active_loop (an_arena a) r (min limit (fr_width r)), a))"

definition packed128 :: "WordModule \<Rightarrow> ValueId \<Rightarrow> KnownBitsAnalysis \<Rightarrow> string + KnownBits128 option \<times> KnownBitsAnalysis"
  where "packed128 m v a =
    rbind (derive_value m v a) (\<lambda>(facts, a).
      Inr (case facts of None \<Rightarrow> None
        | Some r \<Rightarrow>
            if fr_width r > 128 then None
            else let low = fact_word (an_arena a) r 0; high = fact_word (an_arena a) r 1
            in Some \<lparr>kb_width = of_nat (fr_width r),
                 kb_zeros = ucast (fw_zeros low) OR push_bit 64 (ucast (fw_zeros high)),
                 kb_ones = ucast (fw_ones low) OR push_bit 64 (ucast (fw_ones high))\<rparr>, a))"

section \<open>Append-only changes\<close>

definition same_facts :: "FactState option \<Rightarrow> FactState option \<Rightarrow> arena \<Rightarrow> bool"
  where "same_facts left right ar =
    (case (left, right) of
       (Some (Computed l), Some (Computed r)) \<Rightarrow>
         fr_width l = fr_width r \<and> list_all (\<lambda>i. fact_word ar l i = fact_word ar r i) [0..<word_count (fr_width l)]
     | _ \<Rightarrow> False)"

definition reset_state :: "KnownBitsAnalysis \<Rightarrow> FactNode \<Rightarrow> KnownBitsAnalysis"
  where "reset_state a node = (case set_node_state a node Uncomputed of None \<Rightarrow> a | Some a \<Rightarrow> a)"

text \<open>Evaluate a node again; the result says whether its facts differ from the old ones.\<close>

definition refresh_node ::
  "WordModule \<Rightarrow> FactNode \<Rightarrow> FactState option \<Rightarrow> KnownBitsAnalysis \<Rightarrow> string + bool \<times> KnownBitsAnalysis"
  where "refresh_node m node old a =
    rbind (derive_node m node a) (\<lambda>(facts, a).
      Inr (\<not> same_facts old (map_option Computed facts) (an_arena a), a))"

fun refresh_roots ::
  "WordModule \<Rightarrow> (FactNode \<times> FactState option) list \<Rightarrow> FactNode list \<Rightarrow> KnownBitsAnalysis
    \<Rightarrow> string + FactNode list \<times> KnownBitsAnalysis"
  where
    "refresh_roots m [] pending a = Inr (pending, a)"
  | "refresh_roots m ((root, old) # roots) pending a =
      rbind (refresh_node m root old a) (\<lambda>(changed, a).
        refresh_roots m roots (if changed then rev (entry_or_default (an_dependents a) root) @ pending else pending) a)"

lemma reset_state_dependents [simp]: "an_dependents (reset_state a node) = an_dependents a"
  by (auto simp: reset_state_def set_node_state_def split: FactNode.splits)

definition unvisited :: "FactNode list \<Rightarrow> KnownBitsAnalysis \<Rightarrow> nat"
  where "unvisited visited a = length (filter (\<lambda>(k, _). k \<notin> set visited) (an_dependents a))"

lemma unvisited_Cons:
  "unvisited (node # visited) a \<le> unvisited visited a"
  "node \<notin> set visited \<Longrightarrow> entry_or_default (an_dependents a) node \<noteq> [] \<Longrightarrow> unvisited (node # visited) a < unvisited visited a"
proof -
  have "length (filter (\<lambda>(k, _). k \<notin> set (node # visited)) xs) \<le> length (filter (\<lambda>(k, _). k \<notin> set visited) xs)" for xs :: "(FactNode \<times> FactNode list) list"
    by (induction xs) auto
  then show "unvisited (node # visited) a \<le> unvisited visited a" by (simp add: unvisited_def)
  assume n: "node \<notin> set visited" and "entry_or_default (an_dependents a) node \<noteq> []"
  then obtain ds where "(node, ds) \<in> set (an_dependents a)"
    by (auto simp: entry_or_default_def dest: map_of_SomeD split: option.splits)
  then have "length (filter (\<lambda>(k, _). k \<notin> set (node # visited)) (an_dependents a)) <
      length (filter (\<lambda>(k, _). k \<notin> set visited) (an_dependents a))"
  proof (induction "an_dependents a" arbitrary: a)
    case Nil
    then show ?case by simp
  next
    case (Cons x xs)
    have IH: "(node, ds) \<in> set xs \<Longrightarrow> length (filter (\<lambda>(k, _). k \<notin> set (node # visited)) xs) < length (filter (\<lambda>(k, _). k \<notin> set visited) xs)"
      using Cons.hyps(1) [of "a\<lparr>an_dependents := xs\<rparr>"] by simp
    have le: "length (filter (\<lambda>(k, _). k \<notin> set (node # visited)) xs) \<le> length (filter (\<lambda>(k, _). k \<notin> set visited) xs)"
      by (induction xs) auto
    show ?case using Cons.prems IH le n unfolding Cons.hyps(2) [symmetric] by (cases x) (auto simp: le_imp_less_Suc less_SucI)
  qed
  then show "unvisited (node # visited) a < unvisited visited a" by (simp add: unvisited_def)
qed

text \<open>Invalidation visits each node once; the visited nodes are a list.\<close>

function invalidate_loop :: "FactNode list \<Rightarrow> FactNode list \<Rightarrow> KnownBitsAnalysis \<Rightarrow> KnownBitsAnalysis"
  where
    "invalidate_loop visited [] a = a"
  | "invalidate_loop visited (node # pending) a =
      (if node \<in> set visited then invalidate_loop visited pending a
       else invalidate_loop (node # visited)
         (rev (entry_or_default (an_dependents a) node) @ pending) (reset_state a node))"
  by pat_completeness auto

termination
proof (relation "inv_image (less_than <*lex*> less_than) (\<lambda>(visited, pending, a). (unvisited visited a, length pending))", goal_cases)
  case 1
  then show ?case by (intro wf_inv_image wf_lex_prod) auto
next
  case (2 visited node pending a)
  then show ?case by simp
next
  case (3 visited node pending a)
  have u: "unvisited (node # visited) (reset_state a node) = unvisited (node # visited) a" by (simp add: unvisited_def)
  show ?case
    using 3 unvisited_Cons [of node visited a] u
    by (cases "entry_or_default (an_dependents a) node") (auto simp: le_less)
qed

definition invalidate :: "FactNode list \<Rightarrow> KnownBitsAnalysis \<Rightarrow> KnownBitsAnalysis"
  where "invalidate roots a = invalidate_loop [] (rev roots) a"

definition propagation_limit :: "KnownBitsAnalysis \<Rightarrow> nat"
  where "propagation_limit a =
    max 1 (usize_sat_add (usize_sat_add (length (an_values a)) (length (an_signals a)))
      (fold (\<lambda>(_, ds) n. usize_sat_add n (length ds)) (an_dependents a) 0))"

text \<open>Propagation stops when the facts no longer change, or falls back to invalidation at its limit.\<close>

fun propagate :: "WordModule \<Rightarrow> nat \<Rightarrow> FactNode list \<Rightarrow> KnownBitsAnalysis \<Rightarrow> string + KnownBitsAnalysis"
  where
    "propagate m budget [] a = Inr a"
  | "propagate m 0 (node # pending) a = Inr (invalidate (rev (node # pending)) a)"
  | "propagate m (Suc budget) (node # pending) a =
      rbind (refresh_node m node (node_state a node) (reset_state a node)) (\<lambda>(changed, a).
        propagate m budget (if changed then rev (entry_or_default (an_dependents a) node) @ pending else pending) a)"

definition refresh_changed :: "WordModule \<Rightarrow> FactNode list \<Rightarrow> KnownBitsAnalysis \<Rightarrow> string + KnownBitsAnalysis"
  where "refresh_changed m roots a =
    (let olds = map (\<lambda>root. (root, node_state a root)) roots
     in rbind (refresh_roots m olds [] (fold (\<lambda>root a. reset_state a root) roots a)) (\<lambda>(pending, a).
          if pending = [] then Inr a else propagate m (propagation_limit a) pending a))"

definition resize :: "'x \<Rightarrow> nat \<Rightarrow> 'x list \<Rightarrow> 'x list"
  where "resize x n xs = take n xs @ replicate (n - length xs) x"

definition analysis_sync :: "WordModule \<Rightarrow> KnownBitsAnalysis \<Rightarrow> string + KnownBitsAnalysis"
  where "analysis_sync m a =
    (if length (wm_values m) < length (an_values a) \<or> length (wm_signals m) < length (an_signals a) \<or>
        length (wm_ports m) < an_observed_ports a then analysis_new m
     else rbind (drivers_sync m (an_drivers a)) (\<lambda>(changed, drivers).
       case changed of None \<Rightarrow> analysis_new m
       | Some changed \<Rightarrow>
           let ports = filter driven_outside (drop (an_observed_ports a) (wm_ports m))
           in rbind (mark_external (resize False (length (wm_signals m)) (an_external a)) ports) (\<lambda>external.
             refresh_changed m
               (map SignalNode (sort_key SignalId_index (remdups (changed @ map port_signal ports))))
               (a\<lparr>an_values := resize Uncomputed (length (wm_values m)) (an_values a),
                  an_signals := resize Uncomputed (length (wm_signals m)) (an_signals a),
                  an_drivers := drivers, an_external := external, an_observed_ports := length (wm_ports m)\<rparr>))))"

end
