(* ===== verification/Known_Bits_Eval.thy ===== *)
theory Known_Bits_Eval
  imports Known_Bits_Transfer Known_Bits_Analysis
begin

text \<open>
  Evaluating one node of the known-bits analysis: on a valid module it never panics, returns a fact
  of the width of the node, and the fact is sound in every valuation in which the facts already
  stored are.
\<close>

section \<open>Shapes of facts\<close>

definition shaped :: "arena \<Rightarrow> nat \<Rightarrow> FactRange \<times> arena \<Rightarrow> bool"
  where "shaped ar w = (\<lambda>(r, ar'). (\<exists>ys. ar' = ar @ ys) \<and> fr_width r = w \<and> fact_in ar' r)"

named_theorems shapes \<open>facts of the expected width that only extend the arena\<close>

lemma shaped_stores: "stores ar w f res \<Longrightarrow> shaped ar w res"
  by (auto simp: stores_def shaped_def)

lemma shaped_generated [shapes]: "shaped ar w (store_generated w f ar)"
  by (rule shaped_stores [OF stores_generated])

lemma shaped_bits [shapes]: "shaped ar w (store_bits xs w ar)"
  by (rule shaped_stores [OF stores_bits])

lemma shaped_scalar [shapes]: "shaped ar 1 (store_scalar x ar)"
  unfolding store_scalar_def by (rule shaped_bits)

lemma shaped_unknown [shapes]: "shaped ar w (fact_unknown w, ar)"
  by (simp add: shaped_def)

lemma shaped_copy: "shaped ar (fr_width r) (copy_facts r ar)"
  unfolding copy_facts_def by (rule shaped_generated)

lemma shaped_mul: "shaped ar w (derive_mul l r w ar)"
  using shaped_copy [of ar l] shaped_copy [of ar r]
  by (auto simp: derive_mul_def Let_def intro: shapes split: option.splits)

lemma shaped_binary:
  assumes "binary_type op s t = Inr ty"
  shows "shaped ar (ty_width ty) (derive_binary op l r ty c ar)"
proof -
  have "ty_width ty = 1" if "op \<in> {LogicalAnd, LogicalOr, Eq, Ne, Lt, Le, Gt, Ge}"
    using assms that by (auto simp: binary_type_def Let_def WordType_new_Inr)
  then show ?thesis
    using shaped_scalar [of ar] shaped_mul [of ar "ty_width ty" l r]
    by (auto simp: derive_binary_def Let_def intro: shapes split: option.splits)
qed

lemma slice_facts_ok:
  assumes "lsb + w \<le> fr_width r" and "fr_width r < 2 ^ 32" and "fact_in ar r"
  shows "\<exists>res. slice_facts r lsb w ar = Inr res \<and> shaped ar w res \<and>
    (\<forall>bs. sound ar r bs \<longrightarrow> gives ar (word_extract bs lsb w) res)"
proof (cases "lsb = 0 \<and> w = fr_width r")
  case True
  then have "gives ar (word_extract bs lsb w) (r, ar)" if "sound ar r bs" for bs
    using gives_same [OF that] soundD(1) [OF that] by (simp add: word_extract_def)
  with True assms(3) show ?thesis by (simp add: slice_facts_def shaped_def)
next
  case False
  have "gives ar (word_extract bs lsb w) (store_generated w (\<lambda>i. fact_bit ar r (lsb + i)) ar)" if "sound ar r bs" for bs
    using soundD [OF that] assms(1) by (intro gives_generated) (auto simp: word_extract_def)
  moreover have "\<not> (0 < w \<and> lsb + (w - 1) \<ge> 2 ^ 32)" using assms(1,2) by linarith
  then have "slice_facts r lsb w ar = Inr (store_generated w (\<lambda>i. fact_bit ar r (lsb + i)) ar)"
    unfolding slice_facts_def if_not_P [OF False] by (simp only: if_False)
  ultimately show ?thesis using shaped_generated by blast
qed

section \<open>The state of the analysis\<close>

definition drivers_of :: "WordModule \<Rightarrow> nat \<Rightarrow> nat list"
  where "drivers_of m s =
    map fst (filter (\<lambda>(i, c). SignalId_index (lv_signal (cn_target c)) = s) (enumerate 0 (wm_connects m)))"

definition mirrors :: "WordModule \<Rightarrow> KnownBitsAnalysis \<Rightarrow> bool"
  where "mirrors m a \<longleftrightarrow> length (an_values a) = length (wm_values m) \<and> length (an_signals a) = length (wm_signals m) \<and>
    length (an_external a) = length (wm_signals m) \<and>
    (\<forall>s < length (wm_signals m). an_external a ! s = external_signal m s \<and> for_signal (an_drivers a) (SignalId s) = drivers_of m s)"

definition facts_shaped :: "WordModule \<Rightarrow> KnownBitsAnalysis \<Rightarrow> bool"
  where "facts_shaped m a \<longleftrightarrow>
    (\<forall>node r. node_state a node = Some (Computed r) \<longrightarrow> node_width m node = Some (fr_width r) \<and> fact_in (an_arena a) r)"

definition node_bits :: "(nat \<Rightarrow> bool list) \<Rightarrow> (nat \<Rightarrow> bool list) \<Rightarrow> FactNode \<Rightarrow> bool list"
  where "node_bits val sig node = (case node of ValueNode v \<Rightarrow> val (ValueId_index v) | SignalNode s \<Rightarrow> sig (SignalId_index s))"

definition facts_true :: "(nat \<Rightarrow> bool list) \<Rightarrow> (nat \<Rightarrow> bool list) \<Rightarrow> KnownBitsAnalysis \<Rightarrow> bool"
  where "facts_true val sig a \<longleftrightarrow>
    (\<forall>node r. node_state a node = Some (Computed r) \<longrightarrow> sound (an_arena a) r (node_bits val sig node))"

lemma node_width_state: "mirrors m a \<Longrightarrow> node_width m node = None \<longleftrightarrow> node_state a node = None"
  by (auto simp: mirrors_def node_width_def node_state_def WordModule_value_def WordModule_signal_def list_get_def
      split: FactNode.splits)

lemma valuation_width: "valuation m val sig \<Longrightarrow> node_width m node = Some w \<Longrightarrow> length (node_bits val sig node) = w"
  by (auto simp: valuation_def node_width_def node_bits_def WordModule_value_def WordModule_signal_def list_get_def
      split: FactNode.splits if_splits)

lemma node_facts_ok:
  assumes "mirrors m a" and "facts_shaped m a" and "node_width m node = Some w"
  obtains r where "node_facts m node a = Some r" and "fr_width r = w" and "fact_in (an_arena a) r"
    and "\<And>val sig. valuation m val sig \<Longrightarrow> facts_true val sig a \<Longrightarrow> sound (an_arena a) r (node_bits val sig node)"
proof -
  obtain st where st: "node_state a node = Some st" using node_width_state [OF assms(1), of node] assms(3) by auto
  show thesis
  proof (cases st)
    case (Computed r)
    then show thesis using st assms(2,3) that [of r] by (auto simp: node_facts_def facts_shaped_def facts_true_def)
  qed (use st assms(3) that [of "fact_unknown w"] valuation_width [OF _ assms(3)] in \<open>auto simp: node_facts_def\<close>)
qed

lemma value_facts_ok:
  assumes "mirrors m a" and "facts_shaped m a" and "value_ty m v = Inr ty"
  shows "fr_width (value_facts m v a) = ty_width ty" and "fact_in (an_arena a) (value_facts m v a)"
    and "valuation m val sig \<Longrightarrow> facts_true val sig a \<Longrightarrow> sound (an_arena a) (value_facts m v a) (val (ValueId_index v))"
proof -
  have "node_width m (ValueNode v) = Some (ty_width ty)"
    using assms(3) by (auto simp: node_width_def value_ty_def WordModule_value_def list_get_def split: if_splits)
  from node_facts_ok [OF assms(1,2) this] obtain r where r: "node_facts m (ValueNode v) a = Some r"
      "fr_width r = ty_width ty" "fact_in (an_arena a) r"
    and true: "\<And>val sig. valuation m val sig \<Longrightarrow> facts_true val sig a \<Longrightarrow> sound (an_arena a) r (node_bits val sig (ValueNode v))"
    by blast
  have v: "value_facts m v a = r" by (simp add: value_facts_def r(1))
  show "fr_width (value_facts m v a) = ty_width ty" "fact_in (an_arena a) (value_facts m v a)" by (simp_all add: v r)
  show "sound (an_arena a) (value_facts m v a) (val (ValueId_index v))" if "valuation m val sig" "facts_true val sig a"
    using true [OF that] by (simp add: v node_bits_def)
qed

section \<open>Operations\<close>

text \<open>
  The module and its operations are within what the analysis handles soundly: no factor of a product
  is sign-extended, and no width is the largest 32-bit number.
\<close>

fun op_analysable :: "WordModule \<Rightarrow> OpKind \<Rightarrow> WordType \<Rightarrow> bool"
  where
    "op_analysable m (OpBinary Mul x y) ty \<longleftrightarrow>
      (\<forall>v \<in> {x, y}. \<not> ty_signed (v_ty (wm_values m ! ValueId_index v)) \<or>
        ty_width (v_ty (wm_values m ! ValueId_index v)) = ty_width ty)"
  | "op_analysable m _ ty \<longleftrightarrow> True"

text \<open>What the evaluation of an operation returns: no panic, the right shape, and a sound fact.\<close>

definition evaluates :: "WordModule \<Rightarrow> OpKind \<Rightarrow> WordType \<Rightarrow> KnownBitsAnalysis \<Rightarrow> bool"
  where "evaluates m k ty a \<longleftrightarrow> (\<exists>res. derive_operation m k ty a = Inr res \<and> shaped (an_arena a) (ty_width ty) res \<and>
    (\<forall>val sig bs. valuation m val sig \<longrightarrow> facts_true val sig a \<longrightarrow> op_analysable m k ty \<longrightarrow> op_sem m val k ty bs \<longrightarrow>
      length bs = ty_width ty \<longrightarrow> gives (an_arena a) bs res))"

lemma evaluatesI:
  assumes "derive_operation m k ty a = Inr res" and "shaped (an_arena a) (ty_width ty) res"
    and "\<And>val sig bs. valuation m val sig \<Longrightarrow> facts_true val sig a \<Longrightarrow> op_analysable m k ty \<Longrightarrow> op_sem m val k ty bs \<Longrightarrow>
      length bs = ty_width ty \<Longrightarrow> gives (an_arena a) bs res"
  shows "evaluates m k ty a"
  using assms by (auto simp: evaluates_def)

lemma evaluates_unary:
  assumes "mirrors m a" "facts_shaped m a" and "operation_type m (OpUnary op x) = Inr ty"
  shows "evaluates m (OpUnary op x) ty a"
proof -
  obtain t where t: "value_ty m x = Inr t" "unary_type op t = Inr ty" using assms(3) by (auto simp: rbind_eq_Inr)
  note facts = value_facts_ok [OF assms(1,2) t(1)]
  have ty: "ty_width ty = (if op = BitNot then ty_width t else 1)"
    using t(2) by (auto simp: unary_type_def WordType_new_Inr split: if_splits)
  obtain res where res: "derive_operation m (OpUnary op x) ty a = Inr res" by (simp add: Let_def)
  show ?thesis
  proof (rule evaluatesI [OF res])
    show "shaped (an_arena a) (ty_width ty) res"
      using res shaped_scalar [of "an_arena a"] by (cases op) (auto simp: Let_def ty intro: shapes)
    fix val sig bs
    assume v: "valuation m val sig" "facts_true val sig a" and bs: "op_sem m val (OpUnary op x) ty bs"
    have s: "sound (an_arena a) (value_facts m x a) (val (ValueId_index x))" by (rule facts(3) [OF v])
    note loops = logical_value_ok [OF s] reduction_and_loop_ok [OF sound_oks [OF s], of True]
      reduction_xor_loop_ok [OF sound_oks [OF s], of False]
    have "gives (an_arena a) (map Not (val (ValueId_index x)))
        (store_generated (ty_width t) (\<lambda>i. invert (fact_bit (an_arena a) (value_facts m x a) i)) (an_arena a))"
      using soundD [OF s] facts(1) by (intro gives_generated) (auto intro: kb_ok_invert)
    then show "gives (an_arena a) bs res"
      using res bs loops kb_ok_invert [OF loops(1)] bits_val_zero [of "val (ValueId_index x)"]
      by (cases op) (auto simp: Let_def ty reduction_and_def reduction_xor_def intro!: gives_scalar)
  qed
qed

lemma evaluates_binary:
  assumes "mirrors m a" "facts_shaped m a" "types_ok m" and "operation_type m (OpBinary op x y) = Inr ty" and "ty_width ty < 2 ^ 32"
  shows "evaluates m (OpBinary op x y) ty a"
proof -
  obtain s t where st: "value_ty m x = Inr s" "value_ty m y = Inr t" "binary_type op s t = Inr ty"
    using assms(4) by (auto simp: rbind_eq_Inr)
  have xy: "v_ty (wm_values m ! ValueId_index x) = s" "v_ty (wm_values m ! ValueId_index y) = t"
      "ValueId_index x < length (wm_values m)" "ValueId_index y < length (wm_values m)"
    using st(1,2) by (auto simp: value_ty_def list_get_def split: if_splits)
  let ?res = "derive_binary op (value_facts m x a) (value_facts m y a) ty (ty_signed s \<and> ty_signed t) (an_arena a)"
  show ?thesis
  proof (rule evaluatesI)
    show "derive_operation m (OpBinary op x y) ty a = Inr ?res" using xy by (simp add: WordModule_value_def list_get_def)
    show "shaped (an_arena a) (ty_width ty) ?res" by (rule shaped_binary [OF st(3)])
    fix val sig bs
    assume v: "valuation m val sig" "facts_true val sig a" and ok: "op_analysable m (OpBinary op x y) ty"
      and bs: "op_sem m val (OpBinary op x y) ty bs"
    let ?a = "operand_of m val x" and ?b = "operand_of m val y"
    have o: "operand_ok ?a" "operand_ok ?b"
      using v(1) xy value_ty_ok [OF assms(3) st(1)] value_ty_ok [OF assms(3) st(2)]
      by (auto simp: operand_ok_def operand_of_def valuation_def)
    have mul: "mul_ok op (ty_width ty) ?a ?b"
      using ok o xy by (auto simp: mul_ok_def mul_factor_ok_def operand_ok_def operand_of_def)
    have sd: "snd ?a = s" "snd ?b = t" using xy by (simp_all add: operand_of_def)
    show "gives (an_arena a) bs ?res"
      using derive_binary_ok [OF _ _ o _ assms(5) mul, of "an_arena a" "value_facts m x a" "value_facts m y a"]
        value_facts_ok(3) [OF assms(1,2) st(1) v] value_facts_ok(3) [OF assms(1,2) st(2) v] st(3) bs
      unfolding sd by (simp add: operand_of_def)
  qed
qed

lemma evaluates_mux:
  assumes "mirrors m a" "facts_shaped m a" and "operation_type m (OpMux c x y) = Inr ty"
  shows "evaluates m (OpMux c x y) ty a"
proof -
  obtain s where st: "value_ty m c = Inr s" "value_ty m x = Inr ty" "value_ty m y = Inr ty"
    using assms(3) by (auto simp: rbind_eq_Inr require_value_width_def split: if_splits)
  note facts = value_facts_ok [OF assms(1,2) st(1)] value_facts_ok [OF assms(1,2) st(2)] value_facts_ok [OF assms(1,2) st(3)]
  obtain res where res: "derive_operation m (OpMux c x y) ty a = Inr res" by (simp add: Let_def)
  show ?thesis
  proof (rule evaluatesI [OF res])
    show "shaped (an_arena a) (ty_width ty) res"
      using res shaped_copy [of "an_arena a" "value_facts m x a"] shaped_copy [of "an_arena a" "value_facts m y a"] facts
      by (auto simp: Let_def intro: shapes split: KnownBit.splits)
    fix val sig bs
    assume v: "valuation m val sig" "facts_true val sig a" and bs: "op_sem m val (OpMux c x y) ty bs" and len: "length bs = ty_width ty"
    note s = facts(3) [OF v] facts(6) [OF v] facts(9) [OF v]
    have widths: "length (val (ValueId_index x)) = ty_width ty" "length (val (ValueId_index y)) = ty_width ty"
      using soundD(1) [OF s(2)] soundD(1) [OF s(3)] facts by simp_all
    have "gives (an_arena a) bs (store_generated (ty_width ty) (\<lambda>i. merge_equal (fact_bit (an_arena a) (value_facts m x a) i)
        (fact_bit (an_arena a) (value_facts m y a) i)) (an_arena a))"
    proof (rule gives_generated [OF len])
      fix i
      assume i: "i < ty_width ty"
      have "bs ! i = (if True \<in> set (val (ValueId_index c)) then val (ValueId_index x) ! i else val (ValueId_index y) ! i)"
        using bs by simp
      then show "kb_ok (merge_equal (fact_bit (an_arena a) (value_facts m x a) i) (fact_bit (an_arena a) (value_facts m y a) i)) (bs ! i)"
        using kb_ok_merge [OF soundD(3) [OF s(2)] soundD(3) [OF s(3)]] i widths by simp
    qed
    then show "gives (an_arena a) bs res"
      using res bs logical_value_ok [OF s(1)] gives_copy [OF s(2)] gives_copy [OF s(3)]
      by (cases "logical_value (an_arena a) (value_facts m c a)") (auto simp: Let_def)
  qed
qed

lemma concat_type_inputs: "concat_type m w st parts = Inr r \<Longrightarrow> v \<in> set parts \<Longrightarrow> \<exists>t. value_ty m v = Inr t"
  by (induction parts arbitrary: w st) (auto simp: rbind_eq_Inr split: if_splits)

lemma evaluates_concat:
  assumes "mirrors m a" "facts_shaped m a" and "operation_type m (OpConcat ps) = Inr ty"
  shows "evaluates m (OpConcat ps) ty a"
proof (rule evaluatesI)
  let ?xs = "concat (map (\<lambda>v. fact_bits (an_arena a) (value_facts m v a)) (rev ps))"
  show "derive_operation m (OpConcat ps) ty a = Inr (store_bits ?xs (ty_width ty) (an_arena a))" by simp
  show "shaped (an_arena a) (ty_width ty) (store_bits ?xs (ty_width ty) (an_arena a))" by (rule shapes)
  fix val sig bs
  assume v: "valuation m val sig" "facts_true val sig a" and bs: "op_sem m val (OpConcat ps) ty bs" and len: "length bs = ty_width ty"
  have "oks (fact_bits (an_arena a) (value_facts m v a)) (val (ValueId_index v))" if part: "v \<in> set ps" for v
  proof -
    obtain t where "value_ty m v = Inr t"
      using concat_type_inputs [of m 0 TwoState ps _ v] part assms(3) by (auto simp: rbind_eq_Inr split: if_splits)
    from sound_oks [OF value_facts_ok(3) [OF assms(1,2) this v]] show ?thesis .
  qed
  then have "oks ?xs (concat (map (\<lambda>v. val (ValueId_index v)) (rev ps)))"
    by (induction ps) (auto intro: list_all2_appendI)
  then show "gives (an_arena a) bs (store_bits ?xs (ty_width ty) (an_arena a))"
    using bs len by (intro gives_bits) (auto dest: list_all2_nthD)
qed

lemma evaluates_extract:
  assumes "mirrors m a" "facts_shaped m a" "types_ok m" and "operation_type m (OpExtract x lsb w) = Inr ty"
  shows "evaluates m (OpExtract x lsb w) ty a"
proof -
  obtain t where t: "value_ty m x = Inr t" "lsb + w \<le> ty_width t" "ty_width ty = w"
    using assms(4) by (auto simp: rbind_eq_Inr with_width_def WordType_new_Inr split: if_splits)
  note facts = value_facts_ok [OF assms(1,2) t(1)]
  have "fr_width (value_facts m x a) < 2 ^ 32" using value_ty_ok [OF assms(3) t(1)] facts by simp
  from slice_facts_ok [OF _ this facts(2), of lsb w] obtain res where "slice_facts (value_facts m x a) lsb w (an_arena a) = Inr res"
      "shaped (an_arena a) w res" "\<forall>bs. sound (an_arena a) (value_facts m x a) bs \<longrightarrow> gives (an_arena a) (word_extract bs lsb w) res"
    using t(2) facts(1) by auto
  then show ?thesis using facts(3) t(3) by (intro evaluatesI) auto
qed

lemma evaluates_dynamic_extract:
  assumes "mirrors m a" "facts_shaped m a" "types_ok m" and "operation_type m (OpDynamicExtract x off w) = Inr ty"
    and "\<And>t. value_ty m x = Inr t \<Longrightarrow> ty_width t < 2 ^ 32 - 1"
  shows "evaluates m (OpDynamicExtract x off w) ty a"
proof -
  obtain t u where t: "value_ty m x = Inr t" "value_ty m off = Inr u" "w \<le> ty_width t" "ty_width ty = w"
    using assms(4) by (auto simp: rbind_eq_Inr with_width_def WordType_new_Inr split: if_splits)
  note facts = value_facts_ok [OF assms(1,2) t(1)] and off = value_facts_ok [OF assms(1,2) t(2)]
  let ?r = "value_facts m x a" and ?ar = "an_arena a"
  have small: "fr_width ?r < 2 ^ 32 - 1" using assms(5) [OF t(1)] facts by simp
  have zeros: "gives ?ar (replicate w False) (store_generated w (\<lambda>_. Zero) ?ar)" by (rule gives_generated) simp_all
  show ?thesis
  proof (cases "known_usize ?ar (value_facts m off a)")
    case None
    have z: "word_dynamic_extract bs n w = replicate w False" if "sound ?ar ?r bs" "fact_is_zero ?ar ?r" for bs n
    proof -
      have "bs = replicate (length bs) False"
        using is_zero_ok [OF that] bits_val_zero [of bs] by (intro nth_equalityI) (auto simp: in_set_conv_nth)
      then obtain k where "bs = replicate k False" by blast
      then show ?thesis by (auto simp: word_dynamic_extract_def word_extract_def)
    qed
    let ?res = "if fact_is_zero ?ar ?r then store_generated w (\<lambda>_. Zero) ?ar else (fact_unknown w, ?ar)"
    have "derive_operation m (OpDynamicExtract x off w) ty a = Inr ?res" using None by (simp add: Let_def)
    then show ?thesis
      by (rule evaluatesI) (use t(4) facts(3) z zeros in \<open>auto intro: shapes gives_unknown\<close>)
  next
    case (Some n)
    have n: "bits_val (val (ValueId_index off)) = n" if "valuation m val sig" "facts_true val sig a" for val sig
      using known_usize_ok [OF off(3) [OF that] Some] by simp
    have sat: "n < 2 ^ 32 \<and> u32_sat_add n w \<le> fr_width ?r \<longleftrightarrow> n + w \<le> fr_width ?r"
      using small by (auto simp: u32_sat_add_def min_le_iff_disj)
    show ?thesis
    proof (cases "n + w \<le> fr_width ?r")
      case True
      have "fr_width ?r < 2 ^ 32" using small by simp
      from slice_facts_ok [OF True this facts(2)] obtain res where res: "slice_facts ?r n w ?ar = Inr res"
          "shaped ?ar w res" "\<forall>bs. sound ?ar ?r bs \<longrightarrow> gives ?ar (word_extract bs n w) res"
        by auto
      have d: "derive_operation m (OpDynamicExtract x off w) ty a = Inr res"
        using Some True sat res(1) by (simp add: Let_def)
      show ?thesis
      proof (rule evaluatesI [OF d])
        show "shaped ?ar (ty_width ty) res" using res t(4) by simp
        fix val sig bs
        assume v: "valuation m val sig" "facts_true val sig a" and bs: "op_sem m val (OpDynamicExtract x off w) ty bs"
        have "n + w \<le> length (val (ValueId_index x))" using True soundD(1) [OF facts(3) [OF v]] by simp
        then show "gives ?ar bs res" using bs res(3) facts(3) [OF v] n [OF v] by (simp add: word_dynamic_extract_def)
      qed
    next
      case False
      have d: "derive_operation m (OpDynamicExtract x off w) ty a = Inr (store_generated w (\<lambda>_. Zero) ?ar)"
        using Some False sat by (auto simp: Let_def)
      show ?thesis
      proof (rule evaluatesI [OF d])
        show "shaped ?ar (ty_width ty) (store_generated w (\<lambda>_. Zero) ?ar)" using t(4) by (simp add: shapes)
        fix val sig bs
        assume v: "valuation m val sig" "facts_true val sig a" and bs: "op_sem m val (OpDynamicExtract x off w) ty bs"
        have "\<not> n + w \<le> length (val (ValueId_index x))" using False soundD(1) [OF facts(3) [OF v]] by simp
        then show "gives ?ar bs (store_generated w (\<lambda>_. Zero) ?ar)" using bs zeros n [OF v] by (simp add: word_dynamic_extract_def)
      qed
    qed
  qed
qed

lemma evaluates_dynamic_insert:
  assumes "mirrors m a" "facts_shaped m a" "types_ok m" and "operation_type m (OpDynamicInsert x off y) = Inr ty"
    and "ty_width ty < 2 ^ 32 - 1"
  shows "evaluates m (OpDynamicInsert x off y) ty a"
proof -
  obtain t u where t: "value_ty m x = Inr ty" "value_ty m off = Inr u" "value_ty m y = Inr t"
    using assms(4) by (auto simp: rbind_eq_Inr split: if_splits)
  note facts = value_facts_ok [OF assms(1,2) t(1)] and off = value_facts_ok [OF assms(1,2) t(2)] and y = value_facts_ok [OF assms(1,2) t(3)]
  let ?r = "value_facts m x a" and ?p = "value_facts m y a" and ?ar = "an_arena a" and ?w = "ty_width ty"
  show ?thesis
  proof (cases "\<exists>n. known_usize ?ar (value_facts m off a) = Some n \<and> n + fr_width ?p \<le> ?w")
    case True
    then obtain n where n: "known_usize ?ar (value_facts m off a) = Some n" "n + fr_width ?p \<le> ?w" by blast
    let ?f = "\<lambda>i. if n \<le> i \<and> i < n + fr_width ?p then fact_bit ?ar ?p (i - n) else fact_bit ?ar ?r i"
    have d: "derive_operation m (OpDynamicInsert x off y) ty a = Inr (store_generated ?w ?f ?ar)"
      using n assms(5) by (auto simp: Let_def u32_sat_add_def)
    show ?thesis
    proof (rule evaluatesI [OF d])
      show "shaped ?ar ?w (store_generated ?w ?f ?ar)" by (rule shapes)
      fix val sig bs
      assume v: "valuation m val sig" "facts_true val sig a" and bs: "op_sem m val (OpDynamicInsert x off y) ty bs" and len: "length bs = ?w"
      note s = facts(3) [OF v] y(3) [OF v]
      have k: "bits_val (val (ValueId_index off)) = n" using known_usize_ok [OF off(3) [OF v] n(1)] by simp
      show "gives ?ar bs (store_generated ?w ?f ?ar)"
        by (rule gives_generated [OF len])
          (use bs len k soundD [OF s(1)] soundD [OF s(2)] facts(1) in \<open>auto simp: word_dynamic_insert_def\<close>)
    qed
  next
    case False
    have "derive_operation m (OpDynamicInsert x off y) ty a = Inr (fact_unknown ?w, ?ar)"
      using False assms(5) by (auto simp: Let_def u32_sat_add_def split: option.splits)
    then show ?thesis by (rule evaluatesI) (auto intro: shapes gives_unknown)
  qed
qed

lemma evaluates_cast:
  assumes "mirrors m a" "facts_shaped m a" "types_ok m" and "operation_type m (OpCast k x t) = Inr ty"
  shows "evaluates m (OpCast k x t) ty a"
proof -
  obtain s where s: "value_ty m x = Inr s" "ty = t" "k = Truncate \<Longrightarrow> ty_width t \<le> ty_width s"
    using assms(4) by (auto simp: rbind_eq_Inr split: if_splits)
  note facts = value_facts_ok [OF assms(1,2) s(1)]
  let ?r = "value_facts m x a" and ?ar = "an_arena a"
  show ?thesis
  proof (rule evaluatesI)
    show "derive_operation m (OpCast k x t) ty a = Inr (store_generated (ty_width ty) (derive_cast k ?r ?ar) ?ar)"
      by (simp add: Let_def s(2))
    show "shaped ?ar (ty_width ty) (store_generated (ty_width ty) (derive_cast k ?r ?ar) ?ar)" by (rule shapes)
    fix val sig bs
    assume v: "valuation m val sig" "facts_true val sig a" and bs: "op_sem m val (OpCast k x t) ty bs" and len: "length bs = ty_width ty"
    let ?x = "val (ValueId_index x)"
    note ok = soundD [OF facts(3) [OF v]]
    have "?x \<noteq> []" using ok(1) facts(1) value_ty_ok [OF assms(3) s(1)] by auto
    then have "kb_ok (fact_bit ?ar ?r (fr_width ?r - 1)) (last ?x)" using ok(3) [of "length ?x - 1"] ok(1) by (simp add: last_conv_nth)
    then show "gives ?ar bs (store_generated (ty_width ty) (derive_cast k ?r ?ar) ?ar)"
      using bs ok \<open>?x \<noteq> []\<close> by (intro gives_generated [OF len]) (cases k; auto simp: derive_cast_def word_cast_def s(2))
  qed
qed

definition widths_ok :: "WordModule \<Rightarrow> bool"
  where "widths_ok m \<longleftrightarrow> (\<forall>v \<in> set (wm_values m). ty_width (v_ty v) < 2 ^ 32 - 1)"

lemma evaluates_operation:
  assumes "mirrors m a" "facts_shaped m a" "types_ok m" "widths_ok m" and "operation_type m k = Inr ty"
    and "ty_width ty < 2 ^ 32 - 1"
  shows "evaluates m k ty a"
proof -
  have w: "value_ty m x = Inr t \<Longrightarrow> ty_width t < 2 ^ 32 - 1" for x t
    using assms(4) by (auto simp: widths_ok_def value_ty_def list_get_def split: if_splits)
  have "ty_width ty < 2 ^ 32" using assms(6) by simp
  note binary = evaluates_binary [OF assms(1-3) _ this]
  have state: "evaluates m k ty a" if "derive_operation m k ty a = Inr (fact_unknown (ty_width ty), an_arena a)"
    by (rule evaluatesI [OF that]) (auto intro: shapes gives_unknown)
  show ?thesis
    using assms(5,6) evaluates_unary [OF assms(1,2)] binary evaluates_mux [OF assms(1,2)] evaluates_concat [OF assms(1,2)]
      evaluates_extract [OF assms(1-3)] evaluates_dynamic_extract [OF assms(1-3) _ w] evaluates_dynamic_insert [OF assms(1-3)]
      evaluates_cast [OF assms(1-3)] state
    by (cases k) (simp_all del: operation_type.simps)
qed

end
