(* ===== verification/Known_Bits_Signals.thy ===== *)
theory Known_Bits_Signals
  imports Known_Bits_Eval
begin

text \<open>
  The facts of a signal come from its drivers: a bit with exactly one driver has the fact of the
  driving bit, every other bit is unknown. With this, the evaluation of any node is total and sound.
\<close>

section \<open>Driving bits\<close>

text \<open>The two bit sets after the driving bits \<open>ps\<close>, each a target with the fact that drives it.\<close>

definition single_fact :: "(nat \<times> KnownBit) list \<Rightarrow> nat \<Rightarrow> KnownBit"
  where "single_fact ps t = (case filter (\<lambda>p. fst p = t) ps of [p] \<Rightarrow> snd p | _ \<Rightarrow> Unknown)"

definition driven :: "nat \<Rightarrow> (nat \<times> KnownBit) list \<Rightarrow> u64 list \<Rightarrow> arena \<Rightarrow> bool"
  where "driven width ps assigned bits \<longleftrightarrow> length assigned = word_count width \<and> length bits = word_count width \<and>
    (\<forall>t < width. (bit (assigned ! (t div 64)) (t mod 64) \<longleftrightarrow> t \<in> fst ` set ps) \<and> words_bit bits t = single_fact ps t)"

lemma single_fact_first: "t \<notin> fst ` set ps \<Longrightarrow> single_fact (ps @ [(t, x)]) t = x"
proof -
  assume "t \<notin> fst ` set ps"
  then have "filter (\<lambda>p. fst p = t) ps = []" by (force simp: filter_empty_conv)
  then show ?thesis by (simp add: single_fact_def)
qed

lemma single_fact_again: "t \<in> fst ` set ps \<Longrightarrow> single_fact (ps @ [(t, x)]) t = Unknown"
  by (cases "filter (\<lambda>p. fst p = t) ps") (auto simp: single_fact_def filter_empty_conv split: list.splits)

lemma single_fact_other: "t \<noteq> u \<Longrightarrow> single_fact (ps @ [(u, x)]) t = single_fact ps t"
  by (simp add: single_fact_def)

lemma driven_init: "driven width [] (replicate (word_count width) 0) (empty_words width)"
  using word_count_index by (simp add: driven_def single_fact_def)

lemma mask_zero_iff: "(w :: u64) AND 2 ^ k = 0 \<longleftrightarrow> \<not> bit w k"
  using bit_iff_and_push_bit_not_eq_0 [of w k] by simp

lemma driven_step:
  assumes d: "driven width ps assigned bits" and t: "t < width"
  shows "bit (assigned ! (t div 64)) (t mod 64) \<Longrightarrow> driven width (ps @ [(t, x)]) assigned (set_fact bits t Unknown)"
    and "\<not> bit (assigned ! (t div 64)) (t mod 64) \<Longrightarrow> driven width (ps @ [(t, x)])
      (assigned[t div 64 := assigned ! (t div 64) OR push_bit (t mod 64) 1]) (set_fact bits t x)"
proof -
  have len: "length assigned = word_count width" "length bits = word_count width" and in_words: "t < 64 * length bits" "t div 64 < length assigned"
    using d word_count_enough [of width] word_count_index [OF t] t by (auto simp: driven_def)
  have other: "u < 64 * length bits" if "u < width" for u using that word_count_enough [of width] len by simp
  note set = words_bit_set_fact [OF in_words(1) other]
  {
    assume b: "bit (assigned ! (t div 64)) (t mod 64)"
    with d t have ps: "t \<in> fst ` set ps" by (auto simp: driven_def)
    show "driven width (ps @ [(t, x)]) assigned (set_fact bits t Unknown)"
      using d ps by (auto simp: driven_def set single_fact_again single_fact_other insert_absorb)
  }
  assume b: "\<not> bit (assigned ! (t div 64)) (t mod 64)"
  with d t have ps: "t \<notin> fst ` set ps" by (auto simp: driven_def)
  have "bit (assigned[t div 64 := assigned ! (t div 64) OR push_bit (t mod 64) 1] ! (u div 64)) (u mod 64) \<longleftrightarrow>
      u = t \<or> bit (assigned ! (u div 64)) (u mod 64)" for u
    using in_words(2) index_split [of u t] by (auto simp: nth_list_update bit_simps)
  then show "driven width (ps @ [(t, x)])
      (assigned[t div 64 := assigned ! (t div 64) OR push_bit (t mod 64) 1]) (set_fact bits t x)"
    using d ps by (auto simp: driven_def set single_fact_first single_fact_other)
qed

definition range_target :: "BitRange option \<Rightarrow> nat \<Rightarrow> nat"
  where "range_target rng o' = (case rng of None \<Rightarrow> o' | Some r \<Rightarrow> if br_lsb r \<le> br_msb r then br_lsb r + o' else br_lsb r - o')"

lemma target_bit_range: "target_bit c = range_target (lv_range (cn_target c))"
  by (auto simp: target_bit_def range_target_def split: option.splits)

lemma drive_bits_ok:
  assumes "driven width ps assigned bits" and "width < 2 ^ 32"
    and "\<And>i. i \<in> set offsets \<Longrightarrow> range_target rng i < width \<and> (\<forall>r. rng = Some r \<longrightarrow> br_msb r < br_lsb r \<longrightarrow> i \<le> br_lsb r)"
  shows "\<exists>assigned' bits'. drive_bits rng f offsets assigned bits = Inr (Some (assigned', bits')) \<and>
    driven width (ps @ map (\<lambda>i. (range_target rng i, f i)) offsets) assigned' bits'"
  using assms(1,3)
proof (induction offsets arbitrary: ps assigned bits)
  case Nil
  then show ?case by simp
next
  case (Cons i offsets)
  let ?t = "range_target rng i"
  have t: "?t < width" using Cons.prems(2) by simp
  have target: "(case rng of
          Some r \<Rightarrow> if br_msb r \<ge> br_lsb r then (if br_lsb r + i < 2 ^ 32 then Some (br_lsb r + i) else None)
            else if i \<le> br_lsb r then Some (br_lsb r - i) else None
        | None \<Rightarrow> Some i) = Some ?t"
    using Cons.prems(2) [of i] assms(2) by (auto simp: range_target_def split: option.splits)
  have word: "\<not> ?t div 64 \<ge> length assigned" using Cons.prems(1) word_count_index [OF t] by (simp add: driven_def)
  show ?case
  proof (cases "bit (assigned ! (?t div 64)) (?t mod 64)")
    case True
    from Cons.IH [OF driven_step(1) [OF Cons.prems(1) t True, of "f i"]] Cons.prems(2)
    show ?thesis using True word by (simp add: target Let_def mask_zero_iff)
  next
    case False
    from Cons.IH [OF driven_step(2) [OF Cons.prems(1) t False, of "f i"]] Cons.prems(2)
    show ?thesis using False word by (simp add: target Let_def mask_zero_iff)
  qed
qed

section \<open>Modules that can be analysed\<close>

text \<open>
  What the evaluation needs of a module. A valid module has it, and so has one in which results of
  operations were replaced by constants, where the operation no longer owns its result.
\<close>

definition readable :: "WordModule \<Rightarrow> bool"
  where "readable m \<longleftrightarrow> types_ok m \<and> connects_valid m \<and> values_valid m \<and>
    (\<forall>v < length (wm_values m). \<forall>op. v_kind (wm_values m ! v) = OperationValue op \<longrightarrow>
      operation_type m (op_kind (wm_operations m ! OpId_index op)) = Inr (v_ty (wm_values m ! v)))"

lemma value_valid:
  assumes "readable m" and "v < length (wm_values m)"
  shows "validate_value m (v, wm_values m ! v) = Inr ()"
  using assms by (simp add: readable_def values_valid_def)

lemma operation_value:
  assumes "values_valid m" and "v < length (wm_values m)" and "v_kind (wm_values m ! v) = OperationValue op"
  obtains x where "WordModule_operation m op = Some x" and "wm_operations m ! OpId_index op = x"
    and "OpId_index op < length (wm_operations m)" and "ValueId_index (op_result x) = v"
proof -
  obtain i x where i: "ValueId_from_index v = Inr i" and x: "WordModule_operation m op = Some x" "op_result x = i"
    using assms by (auto simp: values_valid_def validate_value_def rbind_eq_Inr split: option.splits)
  have "ValueId_index i = v" using i by (auto simp: ValueId_from_index_def dense_from_index_def split: if_splits)
  moreover have "OpId_index op < length (wm_operations m)" "wm_operations m ! OpId_index op = x"
    using x(1) by (auto simp: WordModule_operation_def list_get_def split: if_splits)
  ultimately show thesis using that x by blast
qed

lemma operation_value_typed:
  assumes ok: "readable m" and v: "v < length (wm_values m)" and k: "v_kind (wm_values m ! v) = OperationValue op"
  obtains x where "WordModule_operation m op = Some x" and "wm_operations m ! OpId_index op = x"
    and "operation_type m (op_kind x) = Inr (v_ty (wm_values m ! v))"
proof -
  obtain x where "WordModule_operation m op = Some x" "wm_operations m ! OpId_index op = x"
    using operation_value [OF _ v k] ok unfolding readable_def by blast
  with ok v k that show thesis unfolding readable_def by blast
qed

lemma module_ok_readable:
  assumes ok: "module_ok m"
  shows "readable m"
proof -
  have vals: "values_valid m" using ok by (simp add: module_ok_iff)
  have "operation_type m (op_kind (wm_operations m ! OpId_index op)) = Inr (v_ty (wm_values m ! v))"
    if v: "v < length (wm_values m)" "v_kind (wm_values m ! v) = OperationValue op" for v op
  proof -
    obtain x where x: "wm_operations m ! OpId_index op = x" "OpId_index op < length (wm_operations m)" "ValueId_index (op_result x) = v"
      by (rule operation_value [OF vals v])
    have "validate_operation m (OpId_index op, x) = Inr ()" using ok x by (auto simp: module_ok_iff operations_valid_def)
    with x v(1) show ?thesis
      by (auto simp: validate_operation_def rbind_eq_Inr WordModule_value_def list_get_def split: option.splits if_splits)
  qed
  with ok show ?thesis by (simp add: readable_def module_ok_iff)
qed

section \<open>Driving connections\<close>

definition drives :: "WordModule \<Rightarrow> nat \<Rightarrow> Connect \<Rightarrow> bool"
  where "drives m s c \<longleftrightarrow> validate_connect m c = Inr () \<and> SignalId_index (lv_signal (cn_target c)) = s \<and>
    lv_dynamic (cn_target c) = None"

abbreviation signal_width :: "WordModule \<Rightarrow> nat \<Rightarrow> nat"
  where "signal_width m s \<equiv> ty_width (sig_ty (wm_signals m ! s))"

lemma lvalue_ty_static:
  assumes "lvalue_ty m lv = Inr ty" and "lv_dynamic lv = None"
  shows "\<exists>t. signal_ty m (lv_signal lv) = Inr t \<and> (case lv_range lv of None \<Rightarrow> ty = t
    | Some r \<Rightarrow> max (br_msb r) (br_lsb r) < ty_width t \<and> ty_width ty = BitRange_width r)"
  using assms by (cases "lv_range lv") (auto simp: lvalue_ty_def rbind_eq_Inr WordType_new_Inr not_le split: if_splits)

lemma drives_ok:
  assumes "drives m s c"
  shows "\<exists>t. value_ty m (cn_value c) = Inr t \<and> ty_width t = target_width (signal_width m s) c"
    and "i < target_width (signal_width m s) c \<Longrightarrow> target_bit c i < signal_width m s"
    and "i < target_width (signal_width m s) c \<Longrightarrow> lv_range (cn_target c) = Some r \<Longrightarrow> br_msb r < br_lsb r \<Longrightarrow> i \<le> br_lsb r"
proof -
  obtain ty where ty: "lvalue_ty m (cn_target c) = Inr ty" "value_ty m (cn_value c) = Inr ty"
    using assms by (auto simp: drives_def validate_connect_def rbind_eq_Inr)
  obtain t where t: "signal_ty m (lv_signal (cn_target c)) = Inr t"
    "case lv_range (cn_target c) of None \<Rightarrow> ty = t
      | Some r \<Rightarrow> max (br_msb r) (br_lsb r) < ty_width t \<and> ty_width ty = BitRange_width r"
    using lvalue_ty_static [OF ty(1)] assms by (auto simp: drives_def)
  have w: "signal_width m s = ty_width t"
    using t(1) assms by (auto simp: drives_def signal_ty_def list_get_def split: if_splits)
  show "\<exists>t. value_ty m (cn_value c) = Inr t \<and> ty_width t = target_width (signal_width m s) c"
    using ty(2) t(2) by (simp add: w target_width_def split: option.splits)
  show "target_bit c i < signal_width m s" if "i < target_width (signal_width m s) c"
    using that t(2) by (cases "lv_range (cn_target c)") (auto simp: w target_width_def target_bit_def BitRange_width_def)
  show "i \<le> br_lsb r" if "i < target_width (signal_width m s) c" "lv_range (cn_target c) = Some r" "br_msb r < br_lsb r"
    using that by (simp add: target_width_def BitRange_width_def)
qed

definition driving_facts :: "WordModule \<Rightarrow> KnownBitsAnalysis \<Rightarrow> nat \<Rightarrow> Connect \<Rightarrow> (nat \<times> KnownBit) list"
  where "driving_facts m a w c =
    map (\<lambda>i. (target_bit c i, fact_bit (an_arena a) (value_facts m (cn_value c) a) i)) [0..<target_width w c]"

lemma drive_connects_ok:
  assumes "mirrors m a" "facts_shaped m a" and "signal_width m s < 2 ^ 32" and "driven (signal_width m s) ps assigned bits"
    and "\<And>i. i \<in> set connects \<Longrightarrow> i < length (wm_connects m) \<and> drives m s (wm_connects m ! i)"
  shows "\<exists>bits'. drive_connects m a (signal_width m s) connects assigned bits = Inr (Some bits') \<and>
    (\<exists>assigned'. driven (signal_width m s)
      (ps @ concat (map (driving_facts m a (signal_width m s) \<circ> nth (wm_connects m)) connects)) assigned' bits')"
  using assms(4,5)
proof (induction connects arbitrary: ps assigned bits)
  case Nil
  then show ?case by auto
next
  case (Cons index connects)
  let ?w = "signal_width m s" and ?c = "wm_connects m ! index"
  let ?f = "fact_bit (an_arena a) (value_facts m (cn_value ?c) a)"
  have c: "index < length (wm_connects m)" "drives m s ?c" using Cons.prems(2) by simp_all
  obtain t where t: "value_ty m (cn_value ?c) = Inr t" using drives_ok(1) [OF c(2)] by blast
  then have vw: "node_width m (ValueNode (cn_value ?c)) = Some (ty_width t)"
    by (auto simp: node_width_def value_ty_def WordModule_value_def list_get_def split: if_splits)
  obtain r where r: "node_facts m (ValueNode (cn_value ?c)) a = Some r"
    by (rule node_facts_ok [OF assms(1,2) vw]) (rule that)
  then have v: "value_facts m (cn_value ?c) a = r" by (simp add: value_facts_def)
  have offsets: "range_target (lv_range (cn_target ?c)) i < ?w \<and>
      (\<forall>r. lv_range (cn_target ?c) = Some r \<longrightarrow> br_msb r < br_lsb r \<longrightarrow> i \<le> br_lsb r)" if "i \<in> set [0..<target_width ?w ?c]" for i
    using drives_ok(2,3) [OF c(2), of i] that by (auto simp: target_bit_range)
  obtain assigned' bits' where d: "drive_bits (lv_range (cn_target ?c)) ?f [0..<target_width ?w ?c] assigned bits = Inr (Some (assigned', bits'))"
      "driven ?w (ps @ driving_facts m a ?w ?c) assigned' bits'"
    using drive_bits_ok [OF Cons.prems(1) assms(3), of "[0..<target_width ?w ?c]" "lv_range (cn_target ?c)" ?f, OF offsets]
    unfolding driving_facts_def target_bit_range by auto
  from Cons.IH [OF d(2)] Cons.prems(2) show ?case
    using c(1) d(1) r v by (simp add: list_get_def target_width_def [symmetric])
qed

lemma drivers_of_connects:
  "index \<in> set (drivers_of m s) \<Longrightarrow> index < length (wm_connects m) \<and> SignalId_index (lv_signal (cn_target (wm_connects m ! index))) = s"
  by (auto simp: drivers_of_def in_enumerate_iff)

lemma map_drivers_of: "map (nth (wm_connects m)) (drivers_of m s) = connects_of m s"
proof -
  have "map (nth xs) (map fst (filter (\<lambda>(i, c). P c) (enumerate 0 xs))) = filter P xs" for xs :: "Connect list" and P
  proof (induction xs rule: rev_induct)
    case (snoc x xs)
    have "map (nth (xs @ [x])) (map fst (filter (\<lambda>(i, c). P c) (enumerate 0 xs))) =
        map (nth xs) (map fst (filter (\<lambda>(i, c). P c) (enumerate 0 xs)))"
      by (auto simp: in_enumerate_iff nth_append)
    with snoc show ?case by (simp add: enumerate_append_eq)
  qed simp
  then show ?thesis unfolding drivers_of_def connects_of_def by blast
qed

lemma has_dynamic_iff: "has_dynamic m (drivers_of m s) \<longleftrightarrow> (\<exists>c \<in> set (connects_of m s). lv_dynamic (cn_target c) \<noteq> None)"
  unfolding map_drivers_of [symmetric] has_dynamic_def list_ex_iff
  by (auto simp: list_get_def dest: drivers_of_connects)

section \<open>Evaluating nodes\<close>

lemma driving_facts_of_bit:
  "filter (\<lambda>p. fst p = t) (concat (map (driving_facts m a w) cs)) =
    map (\<lambda>(c, i). (t, fact_bit (an_arena a) (value_facts m (cn_value c) a) i)) (drivers_of_bit w cs t)"
  by (induction cs) (auto simp: drivers_of_bit_def driving_facts_def filter_map o_def intro: map_cong)

lemma single_fact_drivers:
  "single_fact (concat (map (driving_facts m a w) cs)) t =
    (case drivers_of_bit w cs t of [(c, i)] \<Rightarrow> fact_bit (an_arena a) (value_facts m (cn_value c) a) i | _ \<Rightarrow> Unknown)"
  unfolding single_fact_def driving_facts_of_bit by (auto split: list.splits)

definition node_analysable :: "WordModule \<Rightarrow> FactNode \<Rightarrow> bool"
  where "node_analysable m node \<longleftrightarrow>
    (\<forall>v op. node = ValueNode v \<longrightarrow> v_kind (wm_values m ! ValueId_index v) = OperationValue op \<longrightarrow>
      op_analysable m (op_kind (wm_operations m ! OpId_index op)) (v_ty (wm_values m ! ValueId_index v)))"

definition node_evaluates :: "WordModule \<Rightarrow> FactNode \<Rightarrow> KnownBitsAnalysis \<Rightarrow> bool"
  where "node_evaluates m node a \<longleftrightarrow>
    (\<exists>r ar w. evaluate_node m node a = Inr (Some r, ar) \<and> node_width m node = Some w \<and> shaped (an_arena a) w (r, ar) \<and>
      (node_analysable m node \<longrightarrow> (\<forall>val sig. valuation m val sig \<longrightarrow> facts_true val sig a \<longrightarrow> gives (an_arena a) (node_bits val sig node) (r, ar))))"

lemma evaluate_signal_ok:
  assumes ok: "readable m" and a: "mirrors m a" "facts_shaped m a" and s: "SignalId_index s < length (wm_signals m)"
  shows "node_evaluates m (SignalNode s) a"
proof -
  let ?s = "SignalId_index s"
  let ?w = "signal_width m ?s" and ?cs = "connects_of m ?s" and ?ar = "an_arena a"
  have w: "node_width m (SignalNode s) = Some ?w" and small: "?w < 2 ^ 32" and sg: "WordModule_signal m s = Some (wm_signals m ! ?s)"
    using s ok by (auto simp: node_width_def WordModule_signal_def list_get_def readable_def types_ok_def)
  have ext: "list_get (an_external a) ?s = Some (external_signal m ?s)" and drv: "for_signal (an_drivers a) s = drivers_of m ?s"
    using a(1) s by (auto simp: mirrors_def list_get_def)
  show ?thesis
  proof (cases "external_signal m ?s \<or> drivers_of m ?s = [] \<or> has_dynamic m (drivers_of m ?s)")
    case True
    then have "evaluate_node m (SignalNode s) a = Inr (Some (fact_unknown ?w), ?ar)"
      by (simp add: evaluate_node_def evaluate_signal_def sg ext drv Let_def)
    with w show ?thesis by (auto simp: node_evaluates_def intro: shapes gives_unknown dest: valuation_width)
  next
    case False
    have static: "lv_dynamic (cn_target c) = None" if "c \<in> set ?cs" for c
      using False that by (auto simp: has_dynamic_iff)
    have drives: "drives m ?s c" if "c \<in> set ?cs" for c
      using static [OF that] that ok by (auto simp: drives_def readable_def connects_valid_def connects_of_def)
    have valid: "i < length (wm_connects m) \<and> drives m ?s (wm_connects m ! i)" if "i \<in> set (drivers_of m ?s)" for i
      using drivers_of_connects [OF that] drives map_drivers_of [of m ?s] that by (metis image_eqI list.set_map)
    obtain bits assigned
      where bits: "drive_connects m a ?w (drivers_of m ?s) (replicate (word_count ?w) 0) (empty_words ?w) = Inr (Some bits)"
        and d: "driven ?w (concat (map (driving_facts m a ?w) ?cs)) assigned bits"
      using drive_connects_ok [OF a small driven_init, of "drivers_of m ?s", OF valid]
      by (auto simp: map_drivers_of simp flip: map_map)
    obtain r ar where r: "store_words bits ?w ?ar = (r, ar)" by fastforce
    have e: "evaluate_node m (SignalNode s) a = Inr (Some r, ar)"
      using False bits r by (simp add: evaluate_node_def evaluate_signal_def sg ext drv Let_def)
    have st: "stores ?ar ?w (words_bit bits) (r, ar)" using stores_words [of bits ?w ?ar] d r by (simp add: driven_def)
    have "gives ?ar (sig ?s) (r, ar)" if v: "valuation m val sig" "facts_true val sig a" for val sig
    proof (rule gives_stores [OF st])
      show len: "length (sig ?s) = ?w" using v(1) s by (simp add: valuation_def)
      fix t
      assume t: "t < ?w"
      have sem: "signal_sem m val ?s (sig ?s)" using v(1) s by (simp add: valuation_def)
      have known: "kb_ok (fact_bit ?ar (value_facts m (cn_value c) a) i) (sig ?s ! t)" if one: "drivers_of_bit ?w ?cs t = [(c, i)]" for c i
      proof -
        have "(c, i) \<in> set (drivers_of_bit ?w ?cs t)" using one by simp
        then have c: "c \<in> set ?cs" and i: "i < target_width ?w c" by (auto simp: drivers_of_bit_def)
        obtain ty where ty: "value_ty m (cn_value c) = Inr ty" "ty_width ty = target_width ?w c"
          using drives_ok(1) [OF drives [OF c]] by blast
        have "sig ?s ! t = val (ValueId_index (cn_value c)) ! i"
          using sem False static t one len by (auto simp: signal_sem_def)
        then show ?thesis using soundD [OF value_facts_ok(3) [OF a ty(1) v]] value_facts_ok(1) [OF a ty(1)] ty(2) i by simp
      qed
      have "words_bit bits t = single_fact (concat (map (driving_facts m a ?w) ?cs)) t" using d t by (simp add: driven_def)
      then show "kb_ok (words_bit bits t) (sig ?s ! t)"
        unfolding single_fact_drivers using known by (auto split: list.splits prod.splits)
    qed
    with e w shaped_stores [OF st] show ?thesis by (auto simp: node_evaluates_def node_bits_def)
  qed
qed

lemma constant_fact_ok: "unknown_bit b \<or> x = (b = BitOne) \<Longrightarrow> kb_ok (constant_fact b) x"
  by (cases b) (auto simp: unknown_bit_def)

lemma evaluate_value_ok:
  assumes ok: "readable m" "widths_ok m" and a: "mirrors m a" "facts_shaped m a" and v: "ValueId_index v < length (wm_values m)"
  shows "node_evaluates m (ValueNode v) a"
proof -
  let ?x = "wm_values m ! ValueId_index v" and ?ar = "an_arena a"
  let ?w = "ty_width (v_ty ?x)"
  have x: "WordModule_value m v = Some ?x" and w: "node_width m (ValueNode v) = Some ?w"
    using v by (simp_all add: node_width_def WordModule_value_def list_get_def)
  have sem: "value_sem m val sig ?x (val (ValueId_index v))" "length (val (ValueId_index v)) = ?w" if "valuation m val sig" for val sig
    using that v by (auto simp: valuation_def)
  note valid = value_valid [OF ok(1) v]
  show ?thesis
  proof (cases "v_kind ?x")
    case (SignalValue ref)
    obtain y where y: "WordModule_signal m (sr_signal ref) = Some y" "sr_lsb ref + sr_width ref \<le> ty_width (sig_ty y)" "sr_width ref = ?w"
      using valid SignalValue by (auto simp: validate_value_def rbind_eq_Inr WordType_new_Inr split: option.splits if_splits)
    have yw: "node_width m (SignalNode (sr_signal ref)) = Some (ty_width (sig_ty y))" by (simp add: node_width_def y(1))
    have small: "ty_width (sig_ty y) < 2 ^ 32"
      using ok(1) y(1) by (auto simp: readable_def types_ok_def WordModule_signal_def list_get_def split: if_splits)
    obtain f where f: "node_facts m (SignalNode (sr_signal ref)) a = Some f" "fr_width f = ty_width (sig_ty y)" "fact_in ?ar f"
      and true: "\<And>val sig. valuation m val sig \<Longrightarrow> facts_true val sig a \<Longrightarrow> sound ?ar f (node_bits val sig (SignalNode (sr_signal ref)))"
      using node_facts_ok [OF a yw] by blast
    obtain r ar where res: "slice_facts f (sr_lsb ref) (sr_width ref) ?ar = Inr (r, ar)" "shaped ?ar (sr_width ref) (r, ar)"
        "\<forall>bs. sound ?ar f bs \<longrightarrow> gives ?ar (word_extract bs (sr_lsb ref) (sr_width ref)) (r, ar)"
      using slice_facts_ok [of "sr_lsb ref" "sr_width ref" f ?ar] f y(2) small by auto
    have "gives ?ar (val (ValueId_index v)) (r, ar)" if "valuation m val sig" "facts_true val sig a" for val sig
      using res(3) true [OF that] sem(1) [OF that(1)] SignalValue by (auto simp: value_sem_def node_bits_def)
    moreover have "evaluate_node m (ValueNode v) a = Inr (Some r, ar)" by (simp add: evaluate_node_def x SignalValue f(1) res(1))
    ultimately show ?thesis using w res(2) y(3) by (auto simp: node_evaluates_def node_bits_def)
  next
    case (ConstantValue bits)
    let ?fs = "map constant_fact (rev bits)"
    have len: "length bits = ?w" using valid ConstantValue by (auto simp: validate_value_def rbind_eq_Inr)
    obtain r ar where res: "store_bits ?fs ?w ?ar = (r, ar)" by fastforce
    have "gives ?ar (val (ValueId_index v)) (r, ar)" if "valuation m val sig" for val sig
      unfolding res [symmetric]
    proof (rule gives_bits [OF sem(2) [OF that]])
      fix i
      assume "i < ?w" "i < length ?fs"
      then show "kb_ok (?fs ! i) (val (ValueId_index v) ! i)"
        using sem(1) [OF that] len ConstantValue
        by (auto simp: value_sem_def constant_sem_def list_all2_conv_all_nth intro!: constant_fact_ok)
    qed
    moreover have "evaluate_node m (ValueNode v) a = Inr (Some r, ar)" using res by (simp add: evaluate_node_def x ConstantValue len)
    moreover have "shaped ?ar ?w (r, ar)" unfolding res [symmetric] by (rule shapes)
    ultimately show ?thesis using w by (auto simp: node_evaluates_def node_bits_def)
  next
    case (OperationValue op)
    obtain y where y: "WordModule_operation m op = Some y" "wm_operations m ! OpId_index op = y" "operation_type m (op_kind y) = Inr (v_ty ?x)"
      by (rule operation_value_typed [OF ok(1) v OperationValue])
    have "evaluates m (op_kind y) (v_ty ?x) a"
      by (rule evaluates_operation [OF a _ ok(2) y(3)]) (use ok v in \<open>auto simp: readable_def widths_ok_def\<close>)
    then obtain r ar where res: "derive_operation m (op_kind y) (v_ty ?x) a = Inr (r, ar)" "shaped ?ar ?w (r, ar)"
        and true: "\<And>val sig bs. valuation m val sig \<Longrightarrow> facts_true val sig a \<Longrightarrow> op_analysable m (op_kind y) (v_ty ?x) \<Longrightarrow>
          op_sem m val (op_kind y) (v_ty ?x) bs \<Longrightarrow> length bs = ?w \<Longrightarrow> gives ?ar bs (r, ar)"
      unfolding evaluates_def by (metis surj_pair)
    have "gives ?ar (val (ValueId_index v)) (r, ar)" if "valuation m val sig" "facts_true val sig a" "node_analysable m (ValueNode v)" for val sig
      by (rule true [OF that(1,2)]) (use that(3) OperationValue sem [OF that(1)] in \<open>simp_all add: node_analysable_def value_sem_def y(2)\<close>)
    moreover have "evaluate_node m (ValueNode v) a = Inr (Some r, ar)" by (simp add: evaluate_node_def x OperationValue y(1) res(1))
    ultimately show ?thesis using w res(2) by (auto simp: node_evaluates_def node_bits_def)
  qed
qed

lemma evaluate_node_ok:
  assumes "readable m" "widths_ok m" "mirrors m a" "facts_shaped m a" and "node_width m node \<noteq> None"
  shows "node_evaluates m node a"
  using assms(5) evaluate_value_ok [OF assms(1-4)] evaluate_signal_ok [OF assms(1,3,4)]
  by (cases node) (auto simp: node_width_def WordModule_value_def WordModule_signal_def list_get_def split: if_splits)

end
