(* ===== verification/Known_Bits_Sound.thy ===== *)
theory Known_Bits_Sound
  imports Known_Bits_Signals
begin

text \<open>
  The known-bits analysis is total and sound. Its traversal ends with a fact of the right width for
  every node of a valid module, and a fact holds in every valuation of the module.
\<close>

section \<open>Updates of the state\<close>

text \<open>Two states that agree on everything the facts depend on.\<close>

definition same_view :: "KnownBitsAnalysis \<Rightarrow> KnownBitsAnalysis \<Rightarrow> bool"
  where "same_view a a' \<longleftrightarrow> an_values a' = an_values a \<and> an_signals a' = an_signals a \<and> an_arena a' = an_arena a \<and>
    an_drivers a' = an_drivers a \<and> an_external a' = an_external a"

lemma same_view_facts:
  assumes "same_view a a'"
  shows "mirrors m a' = mirrors m a" "facts_shaped m a' = facts_shaped m a" "facts_true val sig a' = facts_true val sig a"
    "node_state a' = node_state a"
proof -
  show s: "node_state a' = node_state a" using assms by (auto simp: node_state_def same_view_def fun_eq_iff split: FactNode.splits)
  show "mirrors m a' = mirrors m a" using assms by (simp add: mirrors_def same_view_def)
  show "facts_shaped m a' = facts_shaped m a" "facts_true val sig a' = facts_true val sig a"
    using assms s by (simp_all add: facts_shaped_def facts_true_def same_view_def)
qed

lemma set_node_state_cases:
  assumes "set_node_state a node st = Some a'"
  shows "node_state a' n = (if n = node then Some st else node_state a n)" "an_arena a' = an_arena a"
    "mirrors m a' = mirrors m a" "an_dependents a' = an_dependents a"
  using assms
  by (auto simp: set_node_state_def node_state_def mirrors_def list_get_def nth_list_update split: FactNode.splits if_splits)
    (metis FactNode.inject SignalId.expand ValueId.expand)+

lemma set_node_state_exists: "node_state a node \<noteq> None \<Longrightarrow> \<exists>a'. set_node_state a node st = Some a'"
  by (auto simp: set_node_state_def node_state_def list_get_def split: FactNode.splits if_splits)

lemma facts_shaped_arena:
  "facts_shaped m a \<Longrightarrow> an_arena a' = an_arena a @ ys \<Longrightarrow> node_state a' = node_state a \<Longrightarrow> facts_shaped m a'"
  by (auto simp: facts_shaped_def fact_in_append)

lemma node_state_arena [simp]: "node_state (a\<lparr>an_arena := ar\<rparr>) = node_state a"
  by (auto simp: node_state_def fun_eq_iff split: FactNode.splits)

lemma mirrors_arena [simp]: "mirrors m (a\<lparr>an_arena := ar\<rparr>) = mirrors m a"
  by (simp add: mirrors_def)

lemma computed_ok:
  assumes "mirrors m a" "facts_shaped m a" and "shaped (an_arena a) w (r, ar)" and "node_width m node = Some w"
    and "set_node_state (a\<lparr>an_arena := ar\<rparr>) node (Computed r) = Some a'"
  shows "mirrors m a'" "facts_shaped m a'"
    and "facts_true val sig a \<Longrightarrow> gives (an_arena a) (node_bits val sig node) (r, ar) \<Longrightarrow> facts_true val sig a'"
proof -
  note st = set_node_state_cases [OF assms(5)]
  show "mirrors m a'" using assms(1) st(3) by simp
  obtain ys where ys: "ar = an_arena a @ ys" using assms(3) by (auto simp: shaped_def)
  show "facts_shaped m a'"
    using assms(2-4) by (auto simp: facts_shaped_def st(1,2) shaped_def ys fact_in_append split: if_splits)
  show "facts_true val sig a'" if "facts_true val sig a" "gives (an_arena a) (node_bits val sig node) (r, ar)"
    using that by (auto simp: facts_true_def st(1,2) gives_def ys sound_append split: if_splits)
qed

lemma computing_ok:
  assumes "mirrors m a" "facts_shaped m a" and "st = Computing \<or> st = Uncomputed" and "set_node_state a node st = Some a'"
  shows "mirrors m a'" "facts_shaped m a'" "facts_true val sig a \<Longrightarrow> facts_true val sig a'"
  using assms(1-3) by (auto simp: set_node_state_cases [OF assms(4)] facts_shaped_def facts_true_def split: if_splits)

section \<open>The traversal\<close>

lemma connect_values_ok:
  "(\<And>i. i \<in> set is' \<Longrightarrow> i < length (wm_connects m)) \<Longrightarrow>
    connect_values m is' = Some (map (\<lambda>i. ValueNode (cn_value (wm_connects m ! i))) is')"
  by (induction is') (auto simp: list_get_def)

lemma node_dependencies_ok:
  assumes ok: "readable m" and "mirrors m a" and "node_width m node \<noteq> None"
  shows "\<exists>ds. node_dependencies m node a = Some ds \<and> (\<forall>d \<in> set ds. node_width m d \<noteq> None)"
proof (cases node)
  case (ValueNode v)
  then have v: "ValueId_index v < length (wm_values m)" "WordModule_value m v = Some (wm_values m ! ValueId_index v)"
    using assms(3) by (auto simp: node_width_def WordModule_value_def list_get_def split: if_splits)
  show ?thesis
  proof (cases "v_kind (wm_values m ! ValueId_index v)")
    case (SignalValue ref)
    then obtain y where "WordModule_signal m (sr_signal ref) = Some y"
      using value_valid [OF ok v(1)] by (auto simp: validate_value_def rbind_eq_Inr split: option.splits)
    with SignalValue v ValueNode show ?thesis by (simp add: node_dependencies_def node_width_def)
  next
    case (ConstantValue bits)
    with v ValueNode show ?thesis by (simp add: node_dependencies_def)
  next
    case (OperationValue op)
    obtain y where y: "WordModule_operation m op = Some y" "operation_type m (op_kind y) = Inr (v_ty (wm_values m ! ValueId_index v))"
      by (rule operation_value_typed [OF ok v(1) OperationValue])
    have "node_width m (ValueNode x) \<noteq> None" if "x \<in> set (op_inputs (op_kind y))" for x
      using operation_type_inputs [OF y(2) that] by (simp add: node_width_def WordModule_value_def list_get_def)
    with OperationValue v ValueNode y(1) show ?thesis by (simp add: node_dependencies_def)
  qed
next
  case (SignalNode s)
  then have s: "SignalId_index s < length (wm_signals m)"
    using assms(3) by (auto simp: node_width_def WordModule_signal_def list_get_def split: if_splits)
  have ext: "list_get (an_external a) (SignalId_index s) = Some (external_signal m (SignalId_index s))"
    and drv: "for_signal (an_drivers a) s = drivers_of m (SignalId_index s)"
    using assms(2) s by (auto simp: mirrors_def list_get_def)
  have "node_width m (ValueNode (cn_value (wm_connects m ! i))) \<noteq> None" if "i \<in> set (drivers_of m (SignalId_index s))" for i
  proof -
    have "wm_connects m ! i \<in> set (wm_connects m)" using drivers_of_connects [OF that] by simp
    then have "\<exists>t. value_ty m (cn_value (wm_connects m ! i)) = Inr t"
      using ok by (auto simp: readable_def connects_valid_def validate_connect_def rbind_eq_Inr)
    then show ?thesis by (auto simp: node_width_def value_ty_def WordModule_value_def list_get_def split: if_splits)
  qed
  then show ?thesis
    using SignalNode connect_values_ok [of "drivers_of m (SignalId_index s)" m] drivers_of_connects [of _ m "SignalId_index s"]
    by (auto simp: node_dependencies_def ext drv Let_def)
qed

lemma push_dependencies_ok:
  assumes "push_dependencies node ds p a = (p', a')"
  shows "same_view a a'" "\<exists>ex. p' = ex @ p \<and> set ex \<subseteq> (\<lambda>d. (d, False)) ` set ds"
proof -
  show "same_view a a'" using push_dependencies_states [OF assms] by (simp add: same_view_def)
  have "fold (\<lambda>d (p, a). let a = record_dependency a d node
      in (if node_state a d = Some Uncomputed then (d, False) # p else p, a)) xs (p, a) = (p', a') \<Longrightarrow>
      \<exists>ex. p' = ex @ p \<and> set ex \<subseteq> (\<lambda>d. (d, False)) ` set xs" for xs
  proof (induction xs arbitrary: p a)
    case (Cons x xs)
    let ?q = "if node_state (record_dependency a x node) x = Some Uncomputed then (x, False) # p else p"
    obtain ex where "p' = ex @ ?q" "set ex \<subseteq> (\<lambda>d. (d, False)) ` set xs"
      using Cons.IH [of ?q "record_dependency a x node"] Cons.prems by (auto simp: Let_def)
    then show ?case by (intro exI [of _ "ex @ (if node_state (record_dependency a x node) x = Some Uncomputed then [(x, False)] else [])"]) auto
  qed simp
  from this [of "rev ds"] assms show "\<exists>ex. p' = ex @ p \<and> set ex \<subseteq> (\<lambda>d. (d, False)) ` set ds"
    unfolding push_dependencies_def by simp
qed

definition analysable :: "WordModule \<Rightarrow> bool"
  where "analysable m \<longleftrightarrow> (\<forall>node. node_width m node \<noteq> None \<longrightarrow> node_analysable m node)"

text \<open>A node is being computed only while its evaluation is on the stack.\<close>

definition loop_ok :: "WordModule \<Rightarrow> (FactNode \<times> bool) list \<Rightarrow> KnownBitsAnalysis \<Rightarrow> bool"
  where "loop_ok m pending a \<longleftrightarrow> mirrors m a \<and> facts_shaped m a \<and> (\<forall>(n, b) \<in> set pending. node_width m n \<noteq> None) \<and>
    (\<forall>n. node_state a n = Some Computing \<longrightarrow> (n, True) \<in> set pending)"

definition progress :: "WordModule \<Rightarrow> KnownBitsAnalysis \<Rightarrow> KnownBitsAnalysis \<Rightarrow> bool"
  where "progress m a a' \<longleftrightarrow> (\<forall>n. node_state a n \<noteq> Some Uncomputed \<longrightarrow> node_state a' n \<noteq> Some Uncomputed) \<and>
    (\<forall>val sig. analysable m \<longrightarrow> valuation m val sig \<longrightarrow> facts_true val sig a \<longrightarrow> facts_true val sig a')"

lemma progress_refl [simp]: "progress m a a"
  by (simp add: progress_def)

lemma progress_trans: "progress m a a' \<Longrightarrow> progress m a' a'' \<Longrightarrow> progress m a a''"
  by (auto simp: progress_def)

definition loop_ends :: "WordModule \<Rightarrow> (FactNode \<times> bool) list \<Rightarrow> KnownBitsAnalysis \<Rightarrow> bool"
  where "loop_ends m pending a \<longleftrightarrow> (\<exists>a'. derive_loop m pending a = Inr (Some (), a') \<and> loop_ok m [] a' \<and> progress m a a' \<and>
    (\<forall>(n, b) \<in> set pending. node_state a' n \<noteq> Some Uncomputed))"

lemma loop_ends_step:
  assumes "derive_loop m pending a = derive_loop m pending' a'" and "loop_ends m pending' a'" and "progress m a a'"
    and "\<And>n b. (n, b) \<in> set pending \<Longrightarrow> (n, b) \<notin> set pending' \<Longrightarrow> node_state a' n \<noteq> Some Uncomputed"
  shows "loop_ends m pending a"
proof -
  obtain a'' where a'': "derive_loop m pending' a' = Inr (Some (), a'')" "loop_ok m [] a''" "progress m a' a''"
      "\<forall>(n, b) \<in> set pending'. node_state a'' n \<noteq> Some Uncomputed"
    using assms(2) by (auto simp: loop_ends_def)
  moreover have "node_state a'' n \<noteq> Some Uncomputed" if "(n, b) \<in> set pending" for n b
    using assms(4) [OF that] a''(3,4) by (auto simp: progress_def)
  ultimately show ?thesis using assms(1) progress_trans [OF assms(3)] by (auto simp: loop_ends_def)
qed

lemma derive_loop_ok: "readable m \<Longrightarrow> widths_ok m \<Longrightarrow> loop_ok m pending a \<Longrightarrow> loop_ends m pending a"
proof (induction m pending a rule: derive_loop.induct)
  case (1 m a)
  then show ?case by (simp add: loop_ends_def)
next
  case (2 m node pending a)
  then have a: "mirrors m a" "facts_shaped m a" "node_width m node \<noteq> None" by (auto simp: loop_ok_def)
  obtain r ar w where e: "evaluate_node m node a = Inr (Some r, ar)" "node_width m node = Some w" "shaped (an_arena a) w (r, ar)"
    and true: "node_analysable m node \<longrightarrow> (\<forall>val sig. valuation m val sig \<longrightarrow> facts_true val sig a \<longrightarrow>
      gives (an_arena a) (node_bits val sig node) (r, ar))"
    using evaluate_node_ok [OF "2.prems"(1,2) a] by (auto simp: node_evaluates_def)
  obtain a' where st: "set_node_state (a\<lparr>an_arena := ar\<rparr>) node (Computed r) = Some a'"
    using set_node_state_exists [of "a\<lparr>an_arena := ar\<rparr>" node] node_width_state [OF a(1), of node] a(3) by auto
  note c = computed_ok [OF a(1,2) e(3,2) st] and cases = set_node_state_cases [OF st]
  have "loop_ok m pending a'" using "2.prems"(3) c(1,2) by (auto simp: loop_ok_def cases(1))
  then have ends: "loop_ends m pending a'" using "2.IH" [OF e(1) refl _ st] "2.prems"(1,2) by simp
  have step: "derive_loop m ((node, True) # pending) a = derive_loop m pending a'" by (simp add: e(1) st)
  have "progress m a a'" using c(3) true a(3) by (auto simp: progress_def cases(1) analysable_def)
  from loop_ends_step [OF step ends this] show ?case by (auto simp: cases(1))
next
  case (3 m node pending a)
  then have a: "mirrors m a" "facts_shaped m a" "node_width m node \<noteq> None" by (auto simp: loop_ok_def)
  obtain st where st: "node_state a node = Some st" using node_width_state [OF a(1), of node] a(3) by auto
  show ?case
  proof (cases st)
    case Uncomputed
    obtain a' where set: "set_node_state a node Computing = Some a'" using set_node_state_exists [of a node] st by auto
    note c = computing_ok [OF a(1,2) _ set] and cases = set_node_state_cases [OF set]
    obtain ds where ds: "node_dependencies m node a' = Some ds" "\<forall>d \<in> set ds. node_width m d \<noteq> None"
      using node_dependencies_ok [OF "3.prems"(1) c(1) a(3)] by auto
    obtain p' a'' where push: "push_dependencies node ds ((node, True) # pending) a' = (p', a'')" by fastforce
    note view = same_view_facts [OF push_dependencies_ok(1) [OF push]]
    obtain ex where ex: "p' = ex @ (node, True) # pending" "set ex \<subseteq> (\<lambda>d. (d, False)) ` set ds"
      using push_dependencies_ok(2) [OF push] by blast
    have "loop_ok m p' a''"
      using "3.prems"(3) c(1,2) ds(2) ex(2) a(3) by (auto simp: loop_ok_def view cases(1) ex(1))
    then have ends: "loop_ends m p' a''" using "3.IH" Uncomputed st set ds(1) push "3.prems"(1,2) by simp
    have step: "derive_loop m ((node, False) # pending) a = derive_loop m p' a''"
      using Uncomputed st set ds(1) push by simp
    have "progress m a a''" using c(3) by (auto simp: progress_def view cases(1))
    from loop_ends_step [OF step ends this] show ?thesis by (auto simp: view cases(1) ex(1))
  qed (use st "3.IH" "3.prems" in \<open>auto simp: loop_ok_def intro!: loop_ends_step [of m "(node, False) # pending" a pending a]\<close>)
qed

lemma derive_node_ok:
  assumes "readable m" "widths_ok m" "loop_ok m [] a" and "node_width m node = Some w"
  shows "\<exists>r a'. derive_node m node a = Inr (Some r, a') \<and> node_state a' node = Some (Computed r) \<and> fr_width r = w \<and>
    loop_ok m [] a' \<and> progress m a a'"
proof -
  have "loop_ok m [(node, False)] a" using assms(3,4) by (auto simp: loop_ok_def)
  from derive_loop_ok [OF assms(1,2) this] obtain a' where a': "derive_loop m [(node, False)] a = Inr (Some (), a')"
      "loop_ok m [] a'" "progress m a a'" "node_state a' node \<noteq> Some Uncomputed"
    by (auto simp: loop_ends_def)
  obtain st where st: "node_state a' node = Some st"
    using node_width_state [of m a' node] a'(2) assms(4) by (auto simp: loop_ok_def)
  with a' obtain r where "st = Computed r" by (cases st) (auto simp: loop_ok_def)
  with st a' assms(4) show ?thesis by (auto simp: derive_node_def loop_ok_def facts_shaped_def)
qed

section \<open>A new analysis\<close>

lemma try_from_entries_Inr:
  assumes "try_from_entries rows es = Some (Inr p)"
  shows "groups_entries rows es p"
proof -
  have "rows < 2 ^ 32" "length es < 2 ^ 32" "find (\<lambda>e. fst e \<ge> rows) es = None"
    using assms by (auto simp: try_from_entries_def u32_try_from_def split: if_splits option.splits)
  moreover from this(3) have "\<forall>e \<in> set es. fst e < rows" by (auto simp: find_None_iff)
  ultimately show ?thesis using try_from_entries_groups [of rows es] assms by auto
qed

lemma SignalDrivers_build_ok:
  assumes "SignalDrivers_build m = Inr d" and "s < length (wm_signals m)"
  shows "for_signal d (SignalId s) = drivers_of m s"
proof -
  obtain rows where r: "try_from_entries (length (wm_signals m)) (connect_entries m) = Some (Inr rows)"
      "d = \<lparr>sd_connects = rows, sd_observed = length (wm_connects m), sd_appended = []\<rparr>"
    using assms(1) by (auto simp: SignalDrivers_build_def split: option.splits sum.splits)
  have "rows_get rows s = Some (map snd (entries_of (connect_entries m) s))"
    using try_from_entries_Inr [OF r(1)] assms(2) by (simp add: groups_entries_def)
  moreover have "map snd (entries_of (connect_entries m) s) = drivers_of m s"
    by (simp add: entries_of_def connect_entries_def drivers_of_def filter_map o_def case_prod_unfold)
  ultimately show ?thesis by (simp add: for_signal_def r(2) entry_or_default_def)
qed

lemma mark_external_ok:
  "mark_external flags ports = Inr flags' \<Longrightarrow> length flags' = length flags \<and>
    (\<forall>s < length flags. flags' ! s = (flags ! s \<or> (\<exists>p \<in> set ports. SignalId_index (port_signal p) = s \<and> driven_outside p)))"
  by (induction flags ports rule: mark_external.induct) (auto simp: nth_list_update split: if_splits)

lemma external_signal_iff: "external_signal m s \<longleftrightarrow> (\<exists>p \<in> set (wm_ports m). SignalId_index (port_signal p) = s \<and> driven_outside p)"
  by (auto simp: external_signal_def driven_outside_def)

lemma analysis_new_ok:
  assumes "analysis_new m = Inr a"
  shows "loop_ok m [] a" and "facts_true val sig a"
proof -
  obtain ext d where e: "mark_external (replicate (length (wm_signals m)) False) (wm_ports m) = Inr ext" "SignalDrivers_build m = Inr d"
    and a: "a = \<lparr>an_values = replicate (length (wm_values m)) Uncomputed, an_signals = replicate (length (wm_signals m)) Uncomputed,
      an_arena = [], an_dependents = [], an_drivers = d, an_external = ext, an_observed_ports = length (wm_ports m)\<rparr>"
    using assms by (auto simp: analysis_new_def rbind_eq_Inr)
  have u: "node_state a n = Some st \<Longrightarrow> st = Uncomputed" for n st
    by (auto simp: a node_state_def list_get_def split: FactNode.splits if_splits)
  have "mirrors m a"
    using mark_external_ok [OF e(1)] SignalDrivers_build_ok [OF e(2)] by (auto simp: mirrors_def a external_signal_iff)
  then show "loop_ok m [] a" "facts_true val sig a"
    using u by (fastforce simp: loop_ok_def facts_shaped_def facts_true_def)+
qed

section \<open>Queries\<close>

text \<open>The states a client of the analysis can see: a new analysis, and the state after every query.\<close>

inductive queried :: "WordModule \<Rightarrow> KnownBitsAnalysis \<Rightarrow> bool" for m
  where
    new: "analysis_new m = Inr a \<Longrightarrow> queried m a"
  | ask_bit: "queried m a \<Longrightarrow> analysis_bit m v i a = Inr (x, a') \<Longrightarrow> queried m a'"
  | ask_constant: "queried m a \<Longrightarrow> analysis_constant m v a = Inr (c, a') \<Longrightarrow> queried m a'"
  | ask_active: "queried m a \<Longrightarrow> active_width m v limit a = Inr (n, a') \<Longrightarrow> queried m a'"
  | ask_packed: "queried m a \<Longrightarrow> packed128 m v a = Inr (p, a') \<Longrightarrow> queried m a'"

lemma query_node:
  assumes "analysis_bit m v i a = Inr (x, a') \<or> analysis_constant m v a = Inr (c, a') \<or> active_width m v limit a = Inr (n, a') \<or>
    packed128 m v a = Inr (p, a')"
  obtains f where "derive_node m (ValueNode v) a = Inr (f, a')"
  using assms by (auto simp: analysis_bit_def analysis_constant_def active_width_def packed128_def derive_value_def rbind_eq_Inr)

lemma derive_node_step:
  assumes "readable m" "widths_ok m" "loop_ok m [] a" and "derive_node m node a = Inr (f, a')"
  shows "loop_ok m [] a' \<and> progress m a a'"
proof (cases "node_width m node")
  case None
  with assms(3,4) show ?thesis by (simp add: derive_node_def)
next
  case (Some w)
  from derive_node_ok [OF assms(1-3) Some] assms(4) show ?thesis by auto
qed

lemma queried_ok:
  assumes "readable m" "widths_ok m" and "queried m a"
  shows "loop_ok m [] a" and "analysable m \<Longrightarrow> valuation m val sig \<Longrightarrow> facts_true val sig a"
proof -
  from assms(3) have "loop_ok m [] a \<and> (analysable m \<longrightarrow> valuation m val sig \<longrightarrow> facts_true val sig a)"
  proof induction
    case (new a)
    then show ?case using analysis_new_ok by blast
  next
    case (ask_bit a v i x a')
    from query_node [OF disjI1 [OF ask_bit.hyps(2)]] derive_node_step [OF assms(1,2)] ask_bit.IH show ?case by (metis progress_def)
  next
    case (ask_constant a v c a')
    from query_node [OF disjI2 [OF disjI1 [OF ask_constant.hyps(2)]]] derive_node_step [OF assms(1,2)] ask_constant.IH show ?case by (metis progress_def)
  next
    case (ask_active a v limit n a')
    from query_node [OF disjI2 [OF disjI2 [OF disjI1 [OF ask_active.hyps(2)]]]] derive_node_step [OF assms(1,2)] ask_active.IH show ?case by (metis progress_def)
  next
    case (ask_packed a v p a')
    from query_node [OF disjI2 [OF disjI2 [OF disjI2 [OF ask_packed.hyps(2)]]]] derive_node_step [OF assms(1,2)] ask_packed.IH show ?case by (metis progress_def)
  qed
  then show "loop_ok m [] a" "analysable m \<Longrightarrow> valuation m val sig \<Longrightarrow> facts_true val sig a" by auto
qed

end
