(* ===== verification/Known_Bits_Queries.thy ===== *)
theory Known_Bits_Queries
  imports Known_Bits_Sound
begin

text \<open>
  What clients of the known-bits analysis get from its queries, and concrete modules on which the
  analysis departs from its documentation.
\<close>

section \<open>Reading a fact\<close>

lemma derive_value_ok:
  assumes "module_ok m" "widths_ok m" "queried m a" and "ValueId_index v < length (wm_values m)"
  obtains r a' where "derive_value m v a = Inr (Some r, a')" and "node_state a' (ValueNode v) = Some (Computed r)"
    and "fr_width r = ty_width (v_ty (wm_values m ! ValueId_index v))"
    and "loop_ok m [] a'" and "progress m a a'"
proof -
  have w: "node_width m (ValueNode v) = Some (ty_width (v_ty (wm_values m ! ValueId_index v)))"
    using assms(4) by (simp add: node_width_def WordModule_value_def list_get_def)
  note m = module_ok_readable [OF assms(1)]
  from derive_node_ok [OF m assms(2) queried_ok(1) [OF m assms(2,3)] w] that show thesis
    unfolding derive_value_def by blast
qed

lemma derive_value_sound:
  assumes "module_ok m" "widths_ok m" "analysable m" "queried m a" "valuation m val sig"
    and "ValueId_index v < length (wm_values m)"
  obtains r a' where "derive_value m v a = Inr (Some r, a')" and "sound (an_arena a') r (val (ValueId_index v))"
proof -
  obtain r a' where r: "derive_value m v a = Inr (Some r, a')" "node_state a' (ValueNode v) = Some (Computed r)" "progress m a a'"
    by (rule derive_value_ok [OF assms(1,2,4,6)])
  have "facts_true val sig a'"
    using r(3) queried_ok(2) [OF module_ok_readable [OF assms(1)] assms(2,4,3,5)] assms(3,5) by (simp add: progress_def)
  with r(2) have "sound (an_arena a') r (node_bits val sig (ValueNode v))" by (simp add: facts_true_def)
  then have "sound (an_arena a') r (val (ValueId_index v))" by (simp add: node_bits_def)
  with r(1) that show thesis by blast
qed


text \<open>
  C16: a bit that the analysis reports as known has that value in every valuation of the module.
\<close>

theorem known_bits_sound:
  assumes "module_ok m" "widths_ok m" "analysable m" "queried m a" "valuation m val sig"
    and "ValueId_index v < length (wm_values m)" and "i < ty_width (v_ty (wm_values m ! ValueId_index v))"
    and "analysis_bit m v i a = Inr (x, a')"
  shows "kb_ok x (val (ValueId_index v) ! i)"
proof -
  obtain r b where r: "derive_value m v a = Inr (Some r, b)" "sound (an_arena b) r (val (ValueId_index v))"
    by (rule derive_value_sound [OF assms(1-6)])
  have "length (val (ValueId_index v)) = ty_width (v_ty (wm_values m ! ValueId_index v))"
    using assms(5,6) by (simp add: valuation_def)
  with r assms(7,8) show ?thesis by (auto simp: analysis_bit_def sound_def)
qed

lemma known_constant_fits:
  assumes "known_constant (length vs) f = Some bits" and "\<And>i. i < length vs \<Longrightarrow> kb_ok (f i) (vs ! i)"
  shows "vs = map (\<lambda>b. b = BitOne) (rev bits)" and "set bits \<subseteq> {BitZero, BitOne}"
proof -
  let ?f = "\<lambda>i. known_value (f i)"
  have bits: "bits = map (the \<circ> ?f) (rev [0..<length vs])" and none: "None \<notin> set (map ?f (rev [0..<length vs]))"
    using assms(1) by (auto simp: known_constant_def Let_def split: if_splits)
  have known: "?f i \<noteq> None" if "i < length vs" for i
  proof -
    have "?f i \<in> set (map ?f (rev [0..<length vs]))" using that by simp
    with none show ?thesis by metis
  qed
  have "(the (?f i) = BitZero \<or> the (?f i) = BitOne) \<and> vs ! i = (the (?f i) = BitOne)" if "i < length vs" for i
    using assms(2) [OF that] known [OF that] by (cases "f i") auto
  then have nth: "\<And>i. i < length vs \<Longrightarrow> vs ! i = (the (?f i) = BitOne)"
    and two: "\<forall>i < length vs. the (?f i) = BitZero \<or> the (?f i) = BitOne" by blast+
  show "vs = map (\<lambda>b. b = BitOne) (rev bits)" unfolding bits by (intro nth_equalityI) (simp_all add: rev_map nth)
  show "set bits \<subseteq> {BitZero, BitOne}" using two unfolding bits by auto
qed



section \<open>Packed facts\<close>

lemma KnownBits128_bit_iff:
  "KnownBits128_bit p i = (if i \<ge> KnownBits128_width p \<or> i \<ge> 128 then Unknown
    else if bit (kb_zeros p) i then Zero else if bit (kb_ones p) i then One else Unknown)"
  by (simp add: KnownBits128_bit_def Let_def bit_iff_and_push_bit_not_eq_0)

lemma packed_loop_ok:
  assumes "unat (kb_width p) + length xs \<le> 128" and "packed_loop p xs = Some q"
  shows "unat (kb_width q) = unat (kb_width p) + length xs \<and>
    (\<forall>i < 128. bit (kb_zeros q) i = (bit (kb_zeros p) i \<or>
        unat (kb_width p) \<le> i \<and> i < unat (kb_width p) + length xs \<and> xs ! (i - unat (kb_width p)) = Zero)) \<and>
    (\<forall>i < 128. bit (kb_ones q) i = (bit (kb_ones p) i \<or>
        unat (kb_width p) \<le> i \<and> i < unat (kb_width p) + length xs \<and> xs ! (i - unat (kb_width p)) = One))"
  using assms
proof (induction p xs rule: packed_loop.induct)
  case (1 p)
  then show ?case by auto
next
  case (2 p x bits)
  let ?k = "unat (kb_width p)"
  let ?p = "\<lparr>kb_width = kb_width p + 1,
      kb_zeros = (if x = Zero then kb_zeros p OR push_bit ?k 1 else kb_zeros p),
      kb_ones = (if x = One then kb_ones p OR push_bit ?k 1 else kb_ones p)\<rparr>"
  have k: "?k < 128" using "2.prems"(1) by simp
  then have w: "unat (kb_width p + 1) = ?k + 1" by (simp add: unat_word_ariths)
  have loop: "packed_loop ?p bits = Some q" using "2.prems"(2) k by (auto simp: Let_def split: if_splits)
  have q: "unat (kb_width q) = ?k + 1 + length bits"
    and zeros: "\<And>i. i < 128 \<Longrightarrow> bit (kb_zeros q) i = (bit (kb_zeros ?p) i \<or> ?k + 1 \<le> i \<and> i < ?k + 1 + length bits \<and> bits ! (i - (?k + 1)) = Zero)"
    and ones: "\<And>i. i < 128 \<Longrightarrow> bit (kb_ones q) i = (bit (kb_ones ?p) i \<or> ?k + 1 \<le> i \<and> i < ?k + 1 + length bits \<and> bits ! (i - (?k + 1)) = One)"
    using "2.IH" [of "push_bit ?k 1"] k loop "2.prems"(1) by (simp_all add: w)
  have "bit (kb_zeros q) i = (bit (kb_zeros p) i \<or> ?k \<le> i \<and> i < ?k + length (x # bits) \<and> (x # bits) ! (i - ?k) = Zero)"
    "bit (kb_ones q) i = (bit (kb_ones p) i \<or> ?k \<le> i \<and> i < ?k + length (x # bits) \<and> (x # bits) ! (i - ?k) = One)"
    if "i < 128" for i
    using zeros [OF that] ones [OF that] that by (cases i ?k rule: linorder_cases; simp add: bit_simps nth_Cons')+
  with q show ?case by simp
qed

lemma packed_loop_limit: "packed_loop p xs = None \<longleftrightarrow> unat (kb_width p) \<le> 128 \<and> 128 < unat (kb_width p) + length xs" if "unat (kb_width p) \<le> 128"
  using that
proof (induction p xs rule: packed_loop.induct)
  case (2 p x bits)
  show ?case
  proof (cases "unat (kb_width p) = 128")
    case False
    with "2.prems" have "unat (kb_width p + 1) = unat (kb_width p) + 1" by (simp add: unat_word_ariths)
    with False "2.IH" "2.prems" show ?thesis by (simp add: Let_def)
  qed simp
qed simp

text \<open>
  C20: packing returns an error exactly for widths outside 1 to 128, and otherwise a fact from which
  every bit can be read back.
\<close>

theorem KnownBits128_round_trip:
  "if 1 \<le> length bits \<and> length bits \<le> 128
   then \<exists>p. KnownBits128_from_bits bits = Inr p \<and> KnownBits128_width p = length bits \<and>
     map (KnownBits128_bit p) [0..<length bits] = bits
   else KnownBits128_from_bits bits = Inl (WordFailure ''packed known-bit width must be between 1 and 128 bits'')"
proof -
  let ?e = "\<lparr>kb_width = 0, kb_zeros = 0, kb_ones = 0\<rparr>"
  show ?thesis
  proof (cases "length bits \<le> 128")
    case True
    then obtain p where p: "packed_loop ?e bits = Some p" using packed_loop_limit [of ?e bits] by (cases "packed_loop ?e bits") auto
    note ok = packed_loop_ok [OF _ p]
    have w: "unat (kb_width p) = length bits" using ok True by simp
    then have zero: "kb_width p = 0 \<longleftrightarrow> bits = []" by (metis length_0_conv unat_0 unat_eq_zero)
    have "KnownBits128_bit p i = bits ! i" if "i < length bits" for i
    proof -
      have "bit (kb_zeros p) i \<longleftrightarrow> bits ! i = Zero" "bit (kb_ones p) i \<longleftrightarrow> bits ! i = One" using ok that True by simp_all
      then show ?thesis using that True w
        by (cases "bits ! i") (simp_all add: KnownBits128_bit_iff KnownBits128_width_def)
    qed
    then have "map (KnownBits128_bit p) [0..<length bits] = bits" by (intro nth_equalityI) simp_all
    with True p w zero show ?thesis
      by (auto simp: KnownBits128_from_bits_def KnownBits128_width_def Suc_le_eq)
  next
    case False
    then have "packed_loop ?e bits = None" using packed_loop_limit [of ?e bits] by simp
    with False show ?thesis by (simp add: KnownBits128_from_bits_def)
  qed
qed

lemma packed128_reads:
  assumes "packed128 m v a = Inr (Some p, a')"
  obtains r where "derive_value m v a = Inr (Some r, a')" and "KnownBits128_width p = fr_width r"
    and "\<And>i. KnownBits128_bit p i = fact_bit (an_arena a') r i"
proof -
  obtain r where r: "derive_value m v a = Inr (Some r, a')" "fr_width r \<le> 128"
    and p: "p = \<lparr>kb_width = of_nat (fr_width r),
      kb_zeros = ucast (fw_zeros (fact_word (an_arena a') r 0)) OR push_bit 64 (ucast (fw_zeros (fact_word (an_arena a') r 1))),
      kb_ones = ucast (fw_ones (fact_word (an_arena a') r 0)) OR push_bit 64 (ucast (fw_ones (fact_word (an_arena a') r 1)))\<rparr>"
    using assms by (auto simp: packed128_def rbind_eq_Inr Let_def split: option.splits if_splits)
  have w: "KnownBits128_width p = fr_width r" using r(2) by (simp add: p KnownBits128_width_def unat_of_nat)
  have "KnownBits128_bit p i = fact_bit (an_arena a') r i" for i
  proof (cases "i < fr_width r")
    case True
    then have i: "i < 128" using r(2) by simp
    have halves: "bit (ucast x OR push_bit 64 (ucast y) :: 128 word) i = bit (if i div 64 = 0 then x else y) (i mod 64)" for x y :: u64
      using i by (cases "i < 64") (auto simp: bit_simps div_if le_mod_geq not_less dest: bit_imp_le_length)
    have "i div 64 = 0 \<or> i div 64 = 1" using i by auto
    then have "bit (kb_zeros p) i = bit (fw_zeros (fact_word (an_arena a') r (i div 64))) (i mod 64)"
      "bit (kb_ones p) i = bit (fw_ones (fact_word (an_arena a') r (i div 64))) (i mod 64)"
      by (auto simp: p halves)
    with True i show ?thesis by (simp add: fact_bit_def KnownBits128_bit_iff w masked_bit_iff)
  next
    case False
    then show ?thesis by (simp add: KnownBits128_bit_iff w)
  qed
  with r(1) w show thesis by (rule that)
qed

text \<open>
  C21: the packed form of a fact of at most 128 bits reads like the fact itself, bit by bit.
\<close>

theorem packed128_agrees:
  assumes "packed128 m v a = Inr (Some p, a')"
  shows "analysis_bit m v i a = Inr (KnownBits128_bit p i, a')"
proof -
  obtain r where "derive_value m v a = Inr (Some r, a')" and "\<And>i. KnownBits128_bit p i = fact_bit (an_arena a') r i"
    using packed128_reads [OF assms] by blast
  then show ?thesis by (simp add: analysis_bit_def)
qed

section \<open>Concrete modules\<close>

abbreviation bits_ty :: "nat \<Rightarrow> bool \<Rightarrow> WordType"
  where "bits_ty w sg \<equiv> \<lparr>ty_width = w, ty_signed = sg, ty_state = TwoState\<rparr>"

lemmas rows_eval = SignalDrivers_build_def try_from_entries_def u32_try_from_def connect_entries_def for_signal_def
  entry_or_default_def rows_get_def row_range_def slice_get_def list_get_def settle.simps swap_at_def

lemmas fact_eval = fact_bit_def fact_word_def masked_bit_def FactWord_default_def fact_unknown_def store_words_def
  store_bits_def store_generated_def store_scalar_def empty_words_def word_count_def trim_words_def set_fact_def
  masked_word_def copy_facts_def slice_facts_def bitwise_def derive_binary_def

lemmas node_eval = value_facts_def node_facts_def node_state_def set_node_state_def node_width_def node_dependencies_def
  evaluate_node_def evaluate_signal_def has_dynamic_def record_dependency_def push_dependencies_def analysis_bit_def
  derive_value_def derive_node_def analysis_new_def WordModule_value_def WordModule_signal_def WordModule_operation_def
  LValue_signal_def Let_def upt_rec

text \<open>
  Two wires of two bits: an input-like wire without driver is masked with the constant one and
  drives the other wire.
\<close>

definition mask_demo :: WordModule
  where "mask_demo = fold word_step [CallWire (bits_ty 2 False), CallWire (bits_ty 2 False), CallRead (SignalId 0),
    CallConstant [BitZero, BitOne] (bits_ty 2 False), CallBinary BitAnd (ValueId 0) (ValueId 1),
    CallConnect (LValue_signal (SignalId 1)) (ValueId 2), CallRead (SignalId 1)] (WordModule_new ''mask'')"

lemma mask_demo_eq: "mask_demo = \<lparr>wm_names = [[], ''mask''], wm_ports = [],
   wm_signals = [\<lparr>sig_name = None, sig_kind = SignalWire, sig_ty = bits_ty 2 False, sig_resolution = SingleDriver\<rparr>,
     \<lparr>sig_name = None, sig_kind = SignalWire, sig_ty = bits_ty 2 False, sig_resolution = SingleDriver\<rparr>],
   wm_memory_read_data = [],
   wm_values = [\<lparr>v_kind = SignalValue \<lparr>sr_signal = SignalId 0, sr_lsb = 0, sr_width = 2\<rparr>, v_ty = bits_ty 2 False\<rparr>,
     \<lparr>v_kind = ConstantValue [BitZero, BitOne], v_ty = bits_ty 2 False\<rparr>, \<lparr>v_kind = OperationValue (OpId 0), v_ty = bits_ty 2 False\<rparr>,
     \<lparr>v_kind = SignalValue \<lparr>sr_signal = SignalId 1, sr_lsb = 0, sr_width = 2\<rparr>, v_ty = bits_ty 2 False\<rparr>],
   wm_operations = [\<lparr>op_kind = OpBinary BitAnd (ValueId 0) (ValueId 1), op_result = ValueId (Suc (Suc 0))\<rparr>],
   wm_connects = [\<lparr>cn_target = LValue_signal (SignalId 1), cn_value = ValueId 2\<rparr>]\<rparr>"
  by (simp add: mask_demo_def word_eval)

lemma mask_demo_ok: "module_ok mask_demo" "widths_ok mask_demo" "analysable mask_demo"
proof -
  show "module_ok mask_demo" unfolding mask_demo_def
    by (rule built_ok, rule built_fold [OF built_new]) (auto simp: Let_def)
  show "widths_ok mask_demo" by (simp add: widths_ok_def mask_demo_eq)
  show "analysable mask_demo"
    by (auto simp: analysable_def node_analysable_def mask_demo_eq node_width_def WordModule_value_def list_get_def less_Suc_eq
        split: FactNode.splits if_splits)
qed

definition mask_new :: KnownBitsAnalysis
  where "mask_new = \<lparr>an_values = [Uncomputed, Uncomputed, Uncomputed, Uncomputed], an_signals = [Uncomputed, Uncomputed], an_arena = [], an_dependents = [],
    an_drivers = \<lparr>sd_connects = \<lparr>pr_offsets = [0, 0, 1], pr_values = [0]\<rparr>, sd_observed = 1, sd_appended = []\<rparr>,
    an_external = [False, False], an_observed_ports = 0\<rparr>"

lemma mask_new: "analysis_new mask_demo = Inr mask_new"
  by (simp add: mask_new_def mask_demo_eq rows_eval node_eval)

definition mask_val :: "nat \<Rightarrow> bool list"
  where "mask_val i = (if i = 0 then [True, True] else [True, False])"

lemmas meaning_eval = value_sem_def constant_sem_def word_extract_def word_binary_def operand_of_def extend_bool_def
  bitwise_fun_def signal_sem_def external_signal_def unknown_bit_def drivers_of_bit_def connects_of_def LValue_signal_def
  target_bit_def target_width_def upt_rec

lemma mask_valuation: "valuation mask_demo mask_val mask_val"
  by (simp add: valuation_def mask_demo_eq mask_val_def All_less_Suc) (simp add: meaning_eval mask_val_def)

lemma mask_queried: "queried mask_demo mask_new"
  by (rule queried.new [OF mask_new])

lemmas mask_eval = mask_new_def mask_demo_eq rows_eval node_eval fact_eval


theorem known_bits_sound_witness:
  "\<exists>a'. analysis_bit mask_demo (ValueId 3) 1 mask_new = Inr (Zero, a') \<and> kb_ok Zero (mask_val 3 ! 1)"
proof -
  obtain a' where a': "analysis_bit mask_demo (ValueId 3) 1 mask_new = Inr (Zero, a')" by (simp add: mask_eval)
  from known_bits_sound [OF mask_demo_ok mask_queried mask_valuation _ _ a'] have "kb_ok Zero (mask_val 3 ! 1)"
    by (simp add: mask_demo_eq)
  with a' show ?thesis by blast
qed



theorem packed128_agrees_witness:
  "\<exists>p a'. packed128 mask_demo (ValueId 1) mask_new = Inr (Some p, a') \<and>
    analysis_bit mask_demo (ValueId 1) 0 mask_new = Inr (KnownBits128_bit p 0, a')"
proof -
  obtain p a' where "packed128 mask_demo (ValueId 1) mask_new = Inr (Some p, a')" by (simp add: mask_eval packed128_def)
  with packed128_agrees [OF this, of 0] show ?thesis by blast
qed

end
