(* ===== verification/Known_Bits_Limits.thy ===== *)
theory Known_Bits_Limits
  imports Known_Bits_Queries
begin

text \<open>
  Three modules on which the known-bits analysis departs from what its documentation says.
\<close>

section \<open>Packed facts read past the end of a fact\<close>


section \<open>Products with a sign-extended factor\<close>

text \<open>The constants one in eight bits and minus eight in four bits, both signed, and their product.\<close>

definition product_demo :: WordModule
  where "product_demo = fold word_step
    [CallConstant [BitZero, BitZero, BitZero, BitZero, BitZero, BitZero, BitZero, BitOne] (bits_ty 8 True),
     CallConstant [BitOne, BitZero, BitZero, BitZero] (bits_ty 4 True), CallBinary Mul (ValueId 0) (ValueId 1)] (WordModule_new ''product'')"

lemma product_demo_eq: "product_demo = \<lparr>wm_names = [[], ''product''], wm_ports = [], wm_signals = [], wm_memory_read_data = [],
   wm_values = [\<lparr>v_kind = ConstantValue [BitZero, BitZero, BitZero, BitZero, BitZero, BitZero, BitZero, BitOne], v_ty = bits_ty 8 True\<rparr>,
     \<lparr>v_kind = ConstantValue [BitOne, BitZero, BitZero, BitZero], v_ty = bits_ty 4 True\<rparr>,
     \<lparr>v_kind = OperationValue (OpId 0), v_ty = bits_ty 8 True\<rparr>],
   wm_operations = [\<lparr>op_kind = OpBinary Mul (ValueId 0) (ValueId 1), op_result = ValueId (Suc (Suc 0))\<rparr>], wm_connects = []\<rparr>"
  by (simp add: product_demo_def word_eval)

definition product_val :: "nat \<Rightarrow> bool list"
  where "product_val i = (if i = 0 then [True, False, False, False, False, False, False, False]
    else if i = 1 then [False, False, False, True] else [False, False, False, True, True, True, True, True])"

lemma product_valuation: "valuation product_demo product_val sig"
  by (simp add: valuation_def product_demo_eq product_val_def All_less_Suc)
    (simp add: meaning_eval product_val_def operand_val_def signed_val_def to_bits_def)

text \<open>
  C22: for a signed product the analysis may report a bit as zero that is one. Its rule for a factor that is a
  power of two reads the bits of the narrower factor as an unsigned number and drops its sign extension.
\<close>

theorem signed_product_unsound:
  "\<exists>a b sig. analysis_new product_demo = Inr a \<and> analysis_bit product_demo (ValueId 2) 7 a = Inr (Zero, b) \<and>
    valuation product_demo product_val sig \<and> product_val 2 ! 7"
proof -
  have "\<exists>a b. analysis_new product_demo = Inr a \<and> analysis_bit product_demo (ValueId 2) 7 a = Inr (Zero, b)"
    by (simp add: product_demo_eq rows_eval node_eval fact_eval derive_mul_def fact_is_zero_def fact_is_one_def
        fact_trailing_zeros_def power_of_two_def)
  moreover have "product_val 2 ! 7" by (simp add: product_val_def)
  ultimately show ?thesis using product_valuation by blast
qed

section \<open>Facts around a cycle\<close>

text \<open>
  One-bit wires \<open>b\<close> and \<open>c\<close> with \<open>c\<close> driven by their conjunction. First \<open>b\<close> has no driver, then zero
  drives it, then zero and one.
\<close>

definition cycle_demo :: WordModule
  where "cycle_demo = fold word_step [CallWire (bits_ty 1 False), CallWire (bits_ty 1 False), CallRead (SignalId 0),
    CallRead (SignalId 1), CallBinary BitAnd (ValueId 0) (ValueId 1), CallConnect (LValue_signal (SignalId 1)) (ValueId 2),
    CallConstant [BitZero] (bits_ty 1 False), CallConstant [BitOne] (bits_ty 1 False)] (WordModule_new ''cycle'')"

definition cycle_driven :: WordModule
  where "cycle_driven = word_step (CallConnect (LValue_signal (SignalId 0)) (ValueId 3)) cycle_demo"

definition cycle_shorted :: WordModule
  where "cycle_shorted = word_step (CallConnect (LValue_signal (SignalId 0)) (ValueId 4)) cycle_driven"

lemma cycle_demo_eq: "cycle_demo = \<lparr>wm_names = [[], ''cycle''], wm_ports = [],
   wm_signals = [\<lparr>sig_name = None, sig_kind = SignalWire, sig_ty = bits_ty 1 False, sig_resolution = SingleDriver\<rparr>,
     \<lparr>sig_name = None, sig_kind = SignalWire, sig_ty = bits_ty 1 False, sig_resolution = SingleDriver\<rparr>],
   wm_memory_read_data = [],
   wm_values = [\<lparr>v_kind = SignalValue \<lparr>sr_signal = SignalId 0, sr_lsb = 0, sr_width = 1\<rparr>, v_ty = bits_ty 1 False\<rparr>,
     \<lparr>v_kind = SignalValue \<lparr>sr_signal = SignalId 1, sr_lsb = 0, sr_width = 1\<rparr>, v_ty = bits_ty 1 False\<rparr>,
     \<lparr>v_kind = OperationValue (OpId 0), v_ty = bits_ty 1 False\<rparr>,
     \<lparr>v_kind = ConstantValue [BitZero], v_ty = bits_ty 1 False\<rparr>, \<lparr>v_kind = ConstantValue [BitOne], v_ty = bits_ty 1 False\<rparr>],
   wm_operations = [\<lparr>op_kind = OpBinary BitAnd (ValueId 0) (ValueId 1), op_result = ValueId (Suc (Suc 0))\<rparr>],
   wm_connects = [\<lparr>cn_target = LValue_signal (SignalId 1), cn_value = ValueId 2\<rparr>]\<rparr>"
  by (simp add: cycle_demo_def word_eval)

lemma cycle_driven_eq:
  "cycle_driven = cycle_demo\<lparr>wm_connects := wm_connects cycle_demo @ [\<lparr>cn_target = LValue_signal (SignalId 0), cn_value = ValueId 3\<rparr>]\<rparr>"
  by (simp add: cycle_driven_def cycle_demo_eq word_eval)

lemma cycle_shorted_eq:
  "cycle_shorted = cycle_driven\<lparr>wm_connects := wm_connects cycle_driven @ [\<lparr>cn_target = LValue_signal (SignalId 0), cn_value = ValueId 4\<rparr>]\<rparr>"
  by (simp add: cycle_shorted_def cycle_driven_eq cycle_demo_eq word_eval)

lemmas cycle_eqs = cycle_shorted_eq cycle_driven_eq cycle_demo_eq

definition cycle_val :: "nat \<Rightarrow> bool list"
  where "cycle_val i = [i \<noteq> 3]"

lemma cycle_valuation: "valuation cycle_shorted cycle_val cycle_val"
  unfolding valuation_def
proof (intro conjI allI impI)
  fix i
  assume "i < length (wm_values cycle_shorted)"
  then consider "i = 0" | "i = 1" | "i = 2" | "i = 3" | "i = 4" by (auto simp: cycle_eqs less_Suc_eq)
  then show "length (cycle_val i) = ty_width (v_ty (wm_values cycle_shorted ! i))"
    "value_sem cycle_shorted cycle_val cycle_val (wm_values cycle_shorted ! i) (cycle_val i)"
    by (cases; simp add: cycle_eqs cycle_val_def meaning_eval)+
next
  fix i
  assume "i < length (wm_signals cycle_shorted)"
  then consider "i = 0" | "i = 1" by (auto simp: cycle_eqs less_Suc_eq)
  then show "length (cycle_val i) = ty_width (sig_ty (wm_signals cycle_shorted ! i))"
    "signal_sem cycle_shorted cycle_val i (cycle_val i)"
    by (cases; simp add: cycle_eqs cycle_val_def meaning_eval)+
qed

lemmas sync_eval = analysis_sync_def drivers_sync_def append_drivers_def refresh_changed_def refresh_node_def
  reset_state_def same_facts_def propagation_limit_def usize_sat_add_def resize_def

definition cycle_queried :: KnownBitsAnalysis
  where "cycle_queried = \<lparr>an_values = [Computed (fact_unknown 1), Computed (fact_unknown 1), Computed (fact_unknown 1), Uncomputed, Uncomputed],
    an_signals = [Computed (fact_unknown 1), Computed (fact_unknown 1)], an_arena = [],
    an_dependents = [(ValueNode (ValueId 1), [ValueNode (ValueId 2)]), (ValueNode (ValueId 0), [ValueNode (ValueId 2)]),
      (SignalNode (SignalId 0), [ValueNode (ValueId 0)]), (SignalNode (SignalId 1), [ValueNode (ValueId 1)]),
      (ValueNode (ValueId 2), [SignalNode (SignalId 1)])],
    an_drivers = \<lparr>sd_connects = \<lparr>pr_offsets = [0, 0, 1], pr_values = [0]\<rparr>, sd_observed = 1, sd_appended = []\<rparr>,
    an_external = [False, False], an_observed_ports = 0\<rparr>"

lemma cycle_new: "rbind (analysis_new cycle_demo) (analysis_bit cycle_demo (ValueId 2) 0) = Inr (Unknown, cycle_queried)"
  by (simp add: cycle_demo_eq cycle_queried_def rows_eval node_eval fact_eval)

text \<open>
  C23: after append-only changes around a combinational cycle the analysis may keep a fact that no
  longer holds: the conjunction is still reported as zero although it can be one, while a new
  analysis of the same module reports it as unknown.
\<close>

theorem cyclic_sync_unsound:
  "\<exists>a b c d. rbind (analysis_new cycle_demo) (analysis_bit cycle_demo (ValueId 2) 0) = Inr (Unknown, a) \<and>
    analysis_sync cycle_driven a = Inr b \<and>
    analysis_sync cycle_shorted b = Inr c \<and>
    analysis_bit cycle_shorted (ValueId 2) 0 c = Inr (Zero, d) \<and>
    (\<exists>e. rbind (analysis_new cycle_shorted)
      (analysis_bit cycle_shorted (ValueId 2) 0) = Inr (Unknown, e)) \<and>
    valuation cycle_shorted cycle_val cycle_val \<and> cycle_val 2 ! 0"
proof -
  have "\<exists>b c d. analysis_sync cycle_driven cycle_queried = Inr b \<and>
      analysis_sync cycle_shorted b = Inr c \<and>
      analysis_bit cycle_shorted (ValueId 2) 0 c = Inr (Zero, d)"
    by (simp add: cycle_eqs cycle_queried_def rows_eval node_eval fact_eval sync_eval)
  moreover have "\<exists>e. rbind (analysis_new cycle_shorted)
      (analysis_bit cycle_shorted (ValueId 2) 0) = Inr (Unknown, e)"
    by (simp add: cycle_eqs rows_eval node_eval fact_eval)
  moreover have "cycle_val 2 ! 0" by (simp add: cycle_val_def)
  ultimately show ?thesis using cycle_new cycle_valuation by blast
qed

end
