(* ===== verification/Word_Rewrite.thy ===== *)
theory Word_Rewrite
  imports Word_Semantics
begin

text \<open>
  Rewriting a word module in place (\<^verbatim>\<open>crates/opto-ir/src/word/module/rewrite.rs\<close>): replacing the result
  of an operation by a constant, and redirecting every use of a value to its replacement. A panic of
  the sources is an error \<open>Panic\<close>; the module then no longer matters and is returned as it was.
\<close>

section \<open>Mapping lists with a result\<close>

fun rmap :: "('a \<Rightarrow> 'e + 'b) \<Rightarrow> 'a list \<Rightarrow> 'e + 'b list"
  where
    "rmap f [] = Inr []"
  | "rmap f (x # xs) = rbind (f x) (\<lambda>y. rbind (rmap f xs) (\<lambda>ys. Inr (y # ys)))"

lemma rmap_Inr: "rmap f xs = Inr ys \<longleftrightarrow> list_all2 (\<lambda>x y. f x = Inr y) xs ys"
  by (induction xs arbitrary: ys) (auto simp: rbind_eq_Inr list_all2_Cons1)

lemma rmap_exists: "(\<And>x. x \<in> set xs \<Longrightarrow> \<exists>y. f x = Inr y) \<Longrightarrow> \<exists>ys. rmap f xs = Inr ys"
proof (induction xs)
  case (Cons x xs)
  then obtain y ys where "f x = Inr y" "rmap f xs = Inr ys" by (meson list.set_intros)
  then show ?case by simp
qed simp

lemma list_all2_origin:
  assumes "list_all2 P xs ys" and "y \<in> set ys"
  obtains x where "x \<in> set xs" and "P x y"
  using assms by (induction rule: list_all2_induct) auto

section \<open>Constants for results\<close>

definition validate_constant_replacement :: "WordValue \<Rightarrow> BitVal list \<Rightarrow> SynthError + unit"
  where "validate_constant_replacement stored bits =
    (if length bits \<noteq> ty_width (v_ty stored) then Inl (WordFailure ''constant width does not match value width'')
     else if ty_state (v_ty stored) = TwoState \<and> list_ex unknown_bit bits
     then Inl (WordFailure ''two-state constant cannot contain x or z bits'')
     else Inr ())"

definition replace_operation_result_with_constant ::
  "WordModule \<Rightarrow> ValueId \<Rightarrow> BitVal list \<Rightarrow> (WordModule, SynthError, unit) outcome"
  where "replace_operation_result_with_constant m v bits =
    (case list_get (wm_values m) (ValueId_index v) of
       None \<Rightarrow> (Inl (WordFailure ''unknown RTL value''), m)
     | Some stored \<Rightarrow>
         (case v_kind stored of
            OperationValue _ \<Rightarrow>
              (case validate_constant_replacement stored bits of
                 Inl e \<Rightarrow> (Inl e, m)
               | Inr _ \<Rightarrow> (Inr (), m\<lparr>wm_values := (wm_values m)[ValueId_index v := stored\<lparr>v_kind := ConstantValue bits\<rparr>]\<rparr>))
          | _ \<Rightarrow> (Inl (WordFailure ''value is not an operation result''), m)))"

section \<open>Uses of values\<close>

definition map_reset :: "(ValueId \<Rightarrow> SynthError + ValueId) \<Rightarrow> Reset \<Rightarrow> SynthError + Reset"
  where "map_reset f r =
    rbind (f (rs_value r)) (\<lambda>v. rbind (f (rs_reset_value r)) (\<lambda>w. Inr (r\<lparr>rs_value := v, rs_reset_value := w\<rparr>)))"

definition map_enable :: "(ValueId \<Rightarrow> SynthError + ValueId) \<Rightarrow> Enable \<Rightarrow> SynthError + Enable"
  where "map_enable f e = rbind (f (en_value e)) (\<lambda>v. Inr (e\<lparr>en_value := v\<rparr>))"

definition map_enable_option :: "(ValueId \<Rightarrow> SynthError + ValueId) \<Rightarrow> Enable option \<Rightarrow> SynthError + Enable option"
  where "map_enable_option f e = (case e of None \<Rightarrow> Inr None | Some e \<Rightarrow> rbind (map_enable f e) (\<lambda>e. Inr (Some e)))"

text \<open>The visit of every operand, in the order of \<^verbatim>\<open>try_for_each_input_mut\<close>.\<close>

fun map_inputs :: "(ValueId \<Rightarrow> SynthError + ValueId) \<Rightarrow> OpKind \<Rightarrow> SynthError + OpKind"
  where
    "map_inputs f (OpUnary op x) = rbind (f x) (\<lambda>x. Inr (OpUnary op x))"
  | "map_inputs f (OpBinary op x y) = rbind (f x) (\<lambda>x. rbind (f y) (\<lambda>y. Inr (OpBinary op x y)))"
  | "map_inputs f (OpMux c x y) = rbind (f c) (\<lambda>c. rbind (f x) (\<lambda>x. rbind (f y) (\<lambda>y. Inr (OpMux c x y))))"
  | "map_inputs f (OpTriState x e) = rbind (f x) (\<lambda>x. rbind (map_enable f e) (\<lambda>e. Inr (OpTriState x e)))"
  | "map_inputs f (OpConcat parts) = rbind (rmap f parts) (\<lambda>parts. Inr (OpConcat parts))"
  | "map_inputs f (OpExtract x lsb w) = rbind (f x) (\<lambda>x. Inr (OpExtract x lsb w))"
  | "map_inputs f (OpCast k x t) = rbind (f x) (\<lambda>x. Inr (OpCast k x t))"
  | "map_inputs f (OpDynamicExtract x y w) = rbind (f x) (\<lambda>x. rbind (f y) (\<lambda>y. Inr (OpDynamicExtract x y w)))"
  | "map_inputs f (OpDynamicInsert x y z) =
      rbind (f x) (\<lambda>x. rbind (f y) (\<lambda>y. rbind (f z) (\<lambda>z. Inr (OpDynamicInsert x y z))))"
  | "map_inputs f (OpRegister r) =
      rbind (f (rg_d r)) (\<lambda>d. rbind (f (rg_clock r)) (\<lambda>c. rbind (map_enable_option f (rg_enable r)) (\<lambda>e.
        rbind (rmap (map_reset f) (rg_resets r)) (\<lambda>rs.
          Inr (OpRegister (r\<lparr>rg_d := d, rg_clock := c, rg_enable := e, rg_resets := rs\<rparr>))))))"
  | "map_inputs f (OpLatch l) =
      rbind (f (lt_d l)) (\<lambda>d. rbind (map_enable f (lt_enable l)) (\<lambda>e. rbind (rmap (map_reset f) (lt_resets l)) (\<lambda>rs.
        Inr (OpLatch (l\<lparr>lt_d := d, lt_enable := e, lt_resets := rs\<rparr>)))))"

definition replacement_of :: "ValueId list \<Rightarrow> ValueId \<Rightarrow> SynthError + ValueId"
  where "replacement_of table v =
    (case list_get table (ValueId_index v) of None \<Rightarrow> Inl (Panic ''index out of bounds'') | Some r \<Rightarrow> Inr r)"

text \<open>An operand is redirected only to a value that comes before the result.\<close>

definition rewrite_input :: "ValueId list \<Rightarrow> ValueId \<Rightarrow> ValueId \<Rightarrow> SynthError + ValueId"
  where "rewrite_input table result v =
    rbind (replacement_of table v) (\<lambda>r. Inr (if ValueId_index r < ValueId_index result then r else v))"

definition rewrite_operation :: "ValueId list \<Rightarrow> Operation \<Rightarrow> SynthError + Operation"
  where "rewrite_operation table x =
    rbind (map_inputs (rewrite_input table (op_result x)) (op_kind x)) (\<lambda>k. Inr (x\<lparr>op_kind := k\<rparr>))"

definition rewrite_connect :: "ValueId list \<Rightarrow> Connect \<Rightarrow> SynthError + Connect"
  where "rewrite_connect table c =
    rbind (replacement_of table (cn_value c)) (\<lambda>v.
      case lv_dynamic (cn_target c) of None \<Rightarrow> Inr (c\<lparr>cn_value := v\<rparr>)
      | Some d \<Rightarrow> rbind (replacement_of table (dr_offset d)) (\<lambda>i.
          Inr (c\<lparr>cn_value := v, cn_target := (cn_target c)\<lparr>lv_dynamic := Some (d\<lparr>dr_offset := i\<rparr>)\<rparr>\<rparr>)))"

definition check_replacement :: "WordModule \<Rightarrow> nat \<times> ValueId \<Rightarrow> SynthError + unit"
  where "check_replacement m = (\<lambda>(index, replacement).
    rbind (ValueId_from_index index) (\<lambda>original. rbind (value_ty m original) (\<lambda>t. rbind (value_ty m replacement) (\<lambda>u.
      check_that (t = u) ''value replacement changes type''))))"

definition rewrite_value_uses :: "WordModule \<Rightarrow> ValueId list \<Rightarrow> (WordModule, SynthError, unit) outcome"
  where "rewrite_value_uses m table =
    (if length table \<noteq> length (wm_values m) then (Inl (WordFailure ''value replacement table has the wrong length''), m)
     else case check_all (check_replacement m) (enumerate 0 table) of
       Inl e \<Rightarrow> (Inl e, m)
     | Inr _ \<Rightarrow>
         (case rmap (rewrite_operation table) (wm_operations m) of
            Inl e \<Rightarrow> (Inl e, m)
          | Inr operations \<Rightarrow>
              (case rmap (rewrite_connect table) (wm_connects m) of
                 Inl e \<Rightarrow> (Inl e, m)
               | Inr connects \<Rightarrow> (Inr (), m\<lparr>wm_operations := operations, wm_connects := connects\<rparr>))))"

section \<open>Operands of equal meaning\<close>

text \<open>Redirecting operands to values of the same type keeps the type of an operation.\<close>

definition same_types :: "WordModule \<Rightarrow> WordModule \<Rightarrow> (ValueId \<Rightarrow> SynthError + ValueId) \<Rightarrow> bool"
  where "same_types m m' f \<longleftrightarrow> wm_names m' = wm_names m \<and> (\<forall>v w. f v = Inr w \<longrightarrow> value_ty m' w = value_ty m v)"

lemma concat_type_map:
  assumes "same_types m m' f"
  shows "list_all2 (\<lambda>v w. f v = Inr w) ps qs \<Longrightarrow> concat_type m' n st qs = concat_type m n st ps"
proof (induction ps qs arbitrary: n st rule: list_all2_induct)
  case (Cons v ps w qs)
  then have "value_ty m' w = value_ty m v" using assms by (simp add: same_types_def)
  with Cons.IH show ?case by (simp cong: if_cong)
qed simp

lemma check_all_map: "list_all2 (\<lambda>x y. f x = g y) xs ys \<Longrightarrow> check_all f xs = check_all g ys"
  by (induction xs ys rule: list_all2_induct) simp_all

lemma validate_resets_map:
  assumes "same_types m m' f" and "f d = Inr d'" and "list_all2 (\<lambda>x y. map_reset f x = Inr y) rs rs'"
  shows "validate_resets m' d' rs' latch = validate_resets m d rs latch"
proof -
  have d: "value_ty m' d' = value_ty m d" using assms(1,2) by (simp add: same_types_def)
  have "list_all2 (\<lambda>x y. rs_kind y = rs_kind x \<and> value_ty m' (rs_value y) = value_ty m (rs_value x) \<and>
      value_ty m' (rs_reset_value y) = value_ty m (rs_reset_value x)) rs rs'"
    using assms(1,3) by (auto simp: map_reset_def rbind_eq_Inr same_types_def elim!: list_all2_mono)
  then have resets: "list_all2 (\<lambda>y x. rs_kind y = rs_kind x \<and> value_ty m' (rs_value y) = value_ty m (rs_value x) \<and>
      value_ty m' (rs_reset_value y) = value_ty m (rs_reset_value x)) rs' rs"
    by (simp add: list_all2_conv_all_nth)
  show ?thesis unfolding validate_resets_def d
    by (intro rbind_cong refl check_all_map list_all2_mono [OF resets]) (simp add: require_value_width_def)
qed

lemma operation_type_map:
  assumes "same_types m m' f" and "map_inputs f k = Inr k'"
  shows "operation_type m' k' = operation_type m k"
proof -
  have ty: "value_ty m' w = value_ty m v" if "f v = Inr w" for v w using assms(1) that by (simp add: same_types_def)
  have names: "validate_state_name m' n = validate_state_name m n" for n
    using assms(1) by (cases n) (simp_all add: validate_state_name_def resolve_name_def same_types_def)
  have enable: "check_enable m' e' c = check_enable m e c" if "map_enable_option f e = Inr e'" for e e' c
    using that ty by (auto simp: map_enable_option_def map_enable_def check_enable_def rbind_eq_Inr require_value_width_def split: option.splits)
  have enable1: "map_enable f e = Inr e' \<Longrightarrow> map_enable_option f (Some e) = Inr (Some e')" for e e'
    by (simp add: map_enable_option_def)
  show ?thesis
  proof (cases k)
    case (OpConcat parts)
    with assms(2) obtain qs where "k' = OpConcat qs" "list_all2 (\<lambda>v w. f v = Inr w) parts qs" by (auto simp: rbind_eq_Inr rmap_Inr)
    with OpConcat concat_type_map [OF assms(1)] show ?thesis by (auto simp: list_all2_Nil list_all2_Nil2)
  next
    case (OpTriState x e)
    with assms(2) show ?thesis by (auto simp: rbind_eq_Inr map_enable_def require_value_width_def ty)
  next
    case (OpRegister r)
    with assms(2) show ?thesis
      by (auto simp: rbind_eq_Inr rmap_Inr names enable require_value_width_def ty validate_resets_map [OF assms(1)])
  next
    case (OpLatch l)
    with assms(2) show ?thesis
      by (auto simp: rbind_eq_Inr rmap_Inr names enable [OF enable1] ty validate_resets_map [OF assms(1)])
  qed (use assms(2) in \<open>auto simp: rbind_eq_Inr require_value_width_def ty cong: if_cong\<close>)
qed

text \<open>In a valuation in which operands and their replacements agree, the operation keeps its meaning.\<close>

definition same_values :: "WordModule \<Rightarrow> WordModule \<Rightarrow> (nat \<Rightarrow> bool list) \<Rightarrow> (ValueId \<Rightarrow> SynthError + ValueId) \<Rightarrow> bool"
  where "same_values m m' val f \<longleftrightarrow>
    (\<forall>v w. f v = Inr w \<longrightarrow> val (ValueId_index w) = val (ValueId_index v) \<and> operand_of m' val w = operand_of m val v)"

lemma op_sem_map:
  assumes "same_values m m' val f" and "map_inputs f k = Inr k'"
  shows "op_sem m' val k' ty r = op_sem m val k ty r"
proof -
  have eq: "val (ValueId_index w) = val (ValueId_index v)" "operand_of m' val w = operand_of m val v" if "f v = Inr w" for v w
    using assms(1) that by (simp_all add: same_values_def)
  show ?thesis
  proof (cases k)
    case (OpConcat parts)
    with assms(2) obtain qs where qs: "k' = OpConcat qs" "list_all2 (\<lambda>v w. f v = Inr w) parts qs" by (auto simp: rbind_eq_Inr rmap_Inr)
    from qs(2) have "map (\<lambda>v. val (ValueId_index v)) qs = map (\<lambda>v. val (ValueId_index v)) parts"
      by (induction rule: list_all2_induct) (simp_all add: eq)
    then have "map (\<lambda>v. val (ValueId_index v)) (rev qs) = map (\<lambda>v. val (ValueId_index v)) (rev parts)" by (simp flip: rev_map)
    with OpConcat qs(1) show ?thesis by simp
  qed (use assms(2) in \<open>auto simp: rbind_eq_Inr eq\<close>)
qed

lemma rmap_inputs:
  assumes "list_all2 (\<lambda>x y. map_reset f x = Inr y) rs rs'"
  shows "list_all2 (\<lambda>v w. f v = Inr w) (reset_inputs rs) (reset_inputs rs')"
  using assms by (induction rule: list_all2_induct) (auto simp: reset_inputs_def map_reset_def rbind_eq_Inr)

lemma map_inputs_inputs:
  assumes "map_inputs f k = Inr k'"
  shows "list_all2 (\<lambda>v w. f v = Inr w) (op_inputs k) (op_inputs k')"
  using assms
  by (cases k) (auto simp: rbind_eq_Inr rmap_Inr map_enable_def map_enable_option_def intro!: list_all2_appendI rmap_inputs split: option.splits)

lemma map_inputs_exists:
  assumes "\<And>v. v \<in> set (op_inputs k) \<Longrightarrow> \<exists>w. f v = Inr w"
  shows "\<exists>k'. map_inputs f k = Inr k'"
proof -
  obtain g where g: "\<And>v. v \<in> set (op_inputs k) \<Longrightarrow> f v = Inr (g v)" using assms by metis
  have parts: "\<exists>ys. rmap f xs = Inr ys" if "set xs \<subseteq> set (op_inputs k)" for xs
    by (rule rmap_exists) (use that g in auto)
  have resets: "\<exists>ys. rmap (map_reset f) rs = Inr ys" if "set (reset_inputs rs) \<subseteq> set (op_inputs k)" for rs
    by (rule rmap_exists) (use that g in \<open>auto simp: reset_inputs_def map_reset_def UN_subset_iff\<close>)
  have enable: "\<exists>e'. map_enable f e = Inr e'" if "en_value e \<in> set (op_inputs k)" for e
    using g [OF that] by (simp add: map_enable_def)
  show ?thesis
  proof (cases k)
    case (OpConcat xs)
    with parts [of xs] show ?thesis by auto
  next
    case (OpTriState x e)
    with g enable [of e] show ?thesis by auto
  next
    case (OpRegister r)
    obtain e where "map_enable_option f (rg_enable r) = Inr e"
      using enable OpRegister by (cases "rg_enable r") (fastforce simp: map_enable_option_def)+
    moreover obtain rs where "rmap (map_reset f) (rg_resets r) = Inr rs" using resets [of "rg_resets r"] OpRegister by auto
    ultimately show ?thesis using OpRegister g by simp
  next
    case (OpLatch l)
    moreover obtain rs where "rmap (map_reset f) (lt_resets l) = Inr rs" using resets [of "lt_resets l"] OpLatch by auto
    ultimately show ?thesis using g enable [of "lt_enable l"] by auto
  qed (use g in auto)
qed

section \<open>The rewritten module\<close>

definition replacements_ok :: "WordModule \<Rightarrow> ValueId list \<Rightarrow> bool"
  where "replacements_ok m table \<longleftrightarrow> length table = length (wm_values m) \<and>
    (\<forall>i < length table. ValueId_index (table ! i) < length (wm_values m) \<and>
      v_ty (wm_values m ! ValueId_index (table ! i)) = v_ty (wm_values m ! i))"

definition replacements_agree :: "(nat \<Rightarrow> bool list) \<Rightarrow> ValueId list \<Rightarrow> bool"
  where "replacements_agree val table \<longleftrightarrow> (\<forall>i < length table. val (ValueId_index (table ! i)) = val i)"

lemma value_ty_Inr: "value_ty m v = Inr t \<longleftrightarrow> ValueId_index v < length (wm_values m) \<and> t = v_ty (wm_values m ! ValueId_index v)"
  by (auto simp: value_ty_def list_get_def)

lemma dense_values: "module_ok m \<Longrightarrow> i < length (wm_values m) \<Longrightarrow> ValueId_from_index i = Inr (ValueId i)"
  by (fastforce simp: module_ok_iff values_valid_def validate_value_def rbind_eq_Inr ValueId_from_index_def
      dense_from_index_def split: if_splits)

lemma check_replacements:
  assumes "module_ok m" and "length table = length (wm_values m)"
  shows "check_all (check_replacement m) (enumerate 0 table) = Inr () \<longleftrightarrow> replacements_ok m table"
  using assms(2) dense_values [OF assms(1)] unfolding check_all_Inr all_enumerate replacements_ok_def
  by (auto simp: check_replacement_def rbind_eq_Inr value_ty_Inr)

definition rewritten :: "WordModule \<Rightarrow> ValueId list \<Rightarrow> WordModule \<Rightarrow> bool"
  where "rewritten m table m' \<longleftrightarrow>
    (\<exists>ops cs. m' = m\<lparr>wm_operations := ops, wm_connects := cs\<rparr> \<and>
      list_all2 (\<lambda>x y. rewrite_operation table x = Inr y) (wm_operations m) ops \<and>
      list_all2 (\<lambda>x y. rewrite_connect table x = Inr y) (wm_connects m) cs)"

lemma rewritten_parts:
  assumes "rewritten m table m'"
  shows "wm_values m' = wm_values m" "wm_signals m' = wm_signals m" "wm_ports m' = wm_ports m" "wm_names m' = wm_names m"
    "list_all2 (\<lambda>x y. rewrite_operation table x = Inr y) (wm_operations m) (wm_operations m')"
    "list_all2 (\<lambda>x y. rewrite_connect table x = Inr y) (wm_connects m) (wm_connects m')"
  using assms by (auto simp: rewritten_def)

lemma replacement_exists: "replacements_ok m table \<Longrightarrow> ValueId_index v < length (wm_values m) \<Longrightarrow> \<exists>w. replacement_of table v = Inr w"
  by (simp add: replacement_of_def list_get_def replacements_ok_def)

lemma replacement_ok:
  assumes "replacements_ok m table" and "replacement_of table v = Inr w"
  shows "ValueId_index v < length (wm_values m)" "ValueId_index w < length (wm_values m)" "value_ty m w = value_ty m v"
    "replacements_agree val table \<Longrightarrow> val (ValueId_index w) = val (ValueId_index v)"
proof -
  have w: "ValueId_index v < length table" "w = table ! ValueId_index v"
    using assms(2) by (auto simp: replacement_of_def list_get_def split: if_splits)
  with assms(1) show "ValueId_index v < length (wm_values m)" "ValueId_index w < length (wm_values m)" "value_ty m w = value_ty m v"
    by (auto simp: replacements_ok_def value_ty_def list_get_def)
  show "val (ValueId_index w) = val (ValueId_index v)" if "replacements_agree val table" using that w by (simp add: replacements_agree_def)
qed

lemma rewrite_input_ok:
  assumes "replacements_ok m table" and "rewrite_input table result v = Inr w"
  shows "ValueId_index v < length (wm_values m)" "ValueId_index w < length (wm_values m)" "value_ty m w = value_ty m v"
    "replacements_agree val table \<Longrightarrow> val (ValueId_index w) = val (ValueId_index v)"
    "ValueId_index v < ValueId_index result \<Longrightarrow> ValueId_index w < ValueId_index result"
  using assms replacement_ok [OF assms(1)] by (auto simp: rewrite_input_def rbind_eq_Inr)

lemma value_ty_values: "wm_values m' = wm_values m \<Longrightarrow> value_ty m' v = value_ty m v"
  by (simp add: value_ty_def)

lemma rewritten_operation:
  assumes "rewritten m table m'" and "i < length (wm_operations m)"
  obtains k where "wm_operations m' ! i = (wm_operations m ! i)\<lparr>op_kind := k\<rparr>" and "i < length (wm_operations m')"
    and "map_inputs (rewrite_input table (op_result (wm_operations m ! i))) (op_kind (wm_operations m ! i)) = Inr k"
proof -
  have "rewrite_operation table (wm_operations m ! i) = Inr (wm_operations m' ! i)" and "i < length (wm_operations m')"
    using rewritten_parts(5) [OF assms(1)] assms(2) by (auto simp: list_all2_conv_all_nth)
  moreover obtain k where "map_inputs (rewrite_input table (op_result (wm_operations m ! i))) (op_kind (wm_operations m ! i)) = Inr k"
      and "(wm_operations m ! i)\<lparr>op_kind := k\<rparr> = wm_operations m' ! i"
    using calculation(1) by (auto simp: rewrite_operation_def rbind_eq_Inr)
  ultimately show thesis using that [of k] by simp
qed

lemma rewritten_typed:
  assumes "replacements_ok m table" and "rewritten m table m'"
  shows "same_types m m' (rewrite_input table result)"
  unfolding same_types_def value_ty_values [OF rewritten_parts(1) [OF assms(2)]]
  using rewrite_input_ok(3) [OF assms(1)] rewritten_parts(4) [OF assms(2)] by blast

lemma rewritten_validate_operation:
  assumes "replacements_ok m table" "rewritten m table m'" and i: "i < length (wm_operations m)"
    and "validate_operation m (i, wm_operations m ! i) = Inr ()"
  shows "validate_operation m' (i, wm_operations m' ! i) = Inr ()"
proof -
  let ?x = "wm_operations m ! i"
  obtain k where k: "wm_operations m' ! i = ?x\<lparr>op_kind := k\<rparr>" "map_inputs (rewrite_input table (op_result ?x)) (op_kind ?x) = Inr k"
    by (rule rewritten_operation [OF assms(2) i])
  note parts = rewritten_parts [OF assms(2)]
  obtain j r where j: "OpId_from_index i = Inr j" and r: "WordModule_value m (op_result ?x) = Some r" "v_kind r = OperationValue j"
      "operation_type m (op_kind ?x) = Inr (v_ty r)"
    and "\<forall>v \<in> set (op_inputs (op_kind ?x)). (\<exists>y. WordModule_value m v = Some y) \<and>
      (WordModule_value m v = None \<or> ValueId_index v < ValueId_index (op_result ?x))"
    using assms(4) by (auto simp: validate_operation_def rbind_eq_Inr check_all_Inr split: option.splits if_splits)
  then have inputs: "\<forall>v \<in> set (op_inputs (op_kind ?x)). ValueId_index v < ValueId_index (op_result ?x)" by auto
  have "WordModule_value m' v \<noteq> None \<and> ValueId_index v < ValueId_index (op_result ?x)" if v: "v \<in> set (op_inputs k)" for v
  proof -
    obtain u where "u \<in> set (op_inputs (op_kind ?x))" "rewrite_input table (op_result ?x) u = Inr v"
      using list_all2_origin [OF map_inputs_inputs [OF k(2)] v] .
    with rewrite_input_ok(2,5) [OF assms(1)] inputs parts(1) show ?thesis by (auto simp: WordModule_value_def list_get_def)
  qed
  moreover have "operation_type m' k = Inr (v_ty r)" using operation_type_map [OF rewritten_typed [OF assms(1,2)] k(2)] r(3) by simp
  moreover have "WordModule_value m' (op_result ?x) = Some r" using r(1) parts(1) by (simp add: WordModule_value_def)
  ultimately show ?thesis using j r(2) by (simp add: k(1) validate_operation_def rbind_eq_Inr check_all_Inr)
qed

lemma rewritten_validate_connect:
  assumes "replacements_ok m table" "rewritten m table m'" and "rewrite_connect table c = Inr c'" and "validate_connect m c = Inr ()"
  shows "validate_connect m' c' = Inr ()"
proof -
  note parts = rewritten_parts [OF assms(2)]
  obtain v where v: "replacement_of table (cn_value c) = Inr v" using assms(3) by (auto simp: rewrite_connect_def rbind_eq_Inr)
  have ty: "value_ty m' v = value_ty m (cn_value c)" using replacement_ok(3) [OF assms(1) v] value_ty_values [OF parts(1)] by simp
  have sig: "signal_ty m' s = signal_ty m s" for s using parts(2) by (simp add: signal_ty_def)
  have "lvalue_ty m' (cn_target c') = lvalue_ty m (cn_target c) \<and> cn_value c' = v"
  proof (cases "lv_dynamic (cn_target c)")
    case None
    with assms(3) v show ?thesis by (auto simp: rewrite_connect_def lvalue_ty_def sig)
  next
    case (Some d)
    with assms(3) v obtain i where i: "replacement_of table (dr_offset d) = Inr i"
        "c' = c\<lparr>cn_value := v, cn_target := (cn_target c)\<lparr>lv_dynamic := Some (d\<lparr>dr_offset := i\<rparr>)\<rparr>\<rparr>"
      by (auto simp: rewrite_connect_def rbind_eq_Inr)
    have "value_ty m' i = value_ty m (dr_offset d)" using replacement_ok(3) [OF assms(1) i(1)] value_ty_values [OF parts(1)] by simp
    with i(2) Some show ?thesis by (simp add: lvalue_ty_def sig cong: if_cong)
  qed
  with assms(4) ty show ?thesis by (simp add: validate_connect_def)
qed

lemma rewritten_module_ok:
  assumes ok: "module_ok m" and t: "replacements_ok m table" and r: "rewritten m table m'"
  shows "module_ok m'"
proof -
  note parts = rewritten_parts [OF r]
  have len: "length (wm_operations m') = length (wm_operations m)" using parts(5) by (simp add: list_all2_lengthD)
  have "validate_value m' (i, wm_values m' ! i) = Inr ()" if i: "i < length (wm_values m)" for i
  proof -
    have v: "validate_value m (i, wm_values m ! i) = Inr ()" using ok i by (simp add: module_ok_iff values_valid_def)
    show ?thesis
    proof (cases "v_kind (wm_values m ! i)")
      case (OperationValue op)
      then obtain x where x: "WordModule_operation m op = Some x" using v by (auto simp: validate_value_def rbind_eq_Inr split: option.splits)
      then have op: "OpId_index op < length (wm_operations m)" "wm_operations m ! OpId_index op = x"
        by (auto simp: WordModule_operation_def list_get_def split: if_splits)
      obtain k where "wm_operations m' ! OpId_index op = (wm_operations m ! OpId_index op)\<lparr>op_kind := k\<rparr>"
        by (rule rewritten_operation [OF r op(1)])
      with op len have "WordModule_operation m' op = Some (x\<lparr>op_kind := k\<rparr>)" by (simp add: WordModule_operation_def list_get_def)
      with v x OperationValue parts(1) show ?thesis by (simp add: validate_value_def rbind_eq_Inr)
    qed (use v parts(1,2) in \<open>simp_all add: validate_value_def WordModule_signal_def\<close>)
  qed
  then have "values_valid m'" using parts(1) by (simp add: values_valid_def)
  moreover have "operations_valid m'"
    using rewritten_validate_operation [OF t r] ok len by (simp add: module_ok_iff operations_valid_def)
  moreover have "connects_valid m'"
  proof -
    have "validate_connect m' c' = Inr ()" if c': "c' \<in> set (wm_connects m')" for c'
    proof -
      obtain c where "c \<in> set (wm_connects m)" "rewrite_connect table c = Inr c'"
        using list_all2_origin [OF parts(6) c'] .
      with rewritten_validate_connect [OF t r] ok show ?thesis by (simp add: module_ok_iff connects_valid_def)
    qed
    then show ?thesis by (simp add: connects_valid_def)
  qed
  moreover have "ports_valid m'" 
  proof -
    have names: "resolve_name m' = resolve_name m" "WordModule_signal m' = WordModule_signal m"
      using parts(2,4) by (simp_all add: WordModule_signal_def resolve_name_def fun_eq_iff)
    have "validate_port m' = validate_port m" unfolding validate_port_def names ..
    with ok parts(3) show ?thesis by (simp add: module_ok_iff ports_valid_def)
  qed
  moreover have "types_ok m'" using ok parts(1,2) by (simp add: module_ok_iff types_ok_def)
  ultimately show ?thesis by (simp add: module_ok_iff)
qed

section \<open>Valuations of the rewritten module\<close>

lemma drivers_of_bit_map:
  assumes "\<And>c. c \<in> set cs \<Longrightarrow> target_width w (g c) = target_width w c \<and> target_bit (g c) = target_bit c"
  shows "drivers_of_bit w (map g cs) t = map (\<lambda>(c, offset). (g c, offset)) (drivers_of_bit w cs t)"
  using assms by (induction cs) (auto simp: drivers_of_bit_def filter_map comp_def)

lemma rewritten_connects:
  assumes "replacements_ok m table" and "rewritten m table m'"
  obtains g where "wm_connects m' = map g (wm_connects m)"
    and "\<And>c. c \<in> set (wm_connects m) \<Longrightarrow> lv_signal (cn_target (g c)) = lv_signal (cn_target c) \<and>
      lv_range (cn_target (g c)) = lv_range (cn_target c) \<and>
      (lv_dynamic (cn_target (g c)) = None \<longleftrightarrow> lv_dynamic (cn_target c) = None)"
    and "\<And>c. c \<in> set (wm_connects m) \<Longrightarrow> replacement_of table (cn_value c) = Inr (cn_value (g c))"
proof -
  note all = rewritten_parts(6) [OF assms(2)]
  let ?g = "\<lambda>c. projr (rewrite_connect table c)"
  have "wm_connects m' = map ?g (wm_connects m)"
    using all by (induction rule: list_all2_induct) auto
  moreover have "\<exists>c'. rewrite_connect table c = Inr c'" if c: "c \<in> set (wm_connects m)" for c
    using all c by (induction rule: list_all2_induct) auto
  then have "lv_signal (cn_target (?g c)) = lv_signal (cn_target c) \<and>
      lv_range (cn_target (?g c)) = lv_range (cn_target c) \<and>
      (lv_dynamic (cn_target (?g c)) = None \<longleftrightarrow> lv_dynamic (cn_target c) = None) \<and>
      replacement_of table (cn_value c) = Inr (cn_value (?g c))" if c: "c \<in> set (wm_connects m)" for c
    using c by (fastforce simp: rewrite_connect_def rbind_eq_Inr split: option.splits)
  ultimately show thesis by (intro that [of ?g]) auto
qed

lemma rewritten_signal_sem:
  assumes "replacements_ok m table" and "rewritten m table m'" and "replacements_agree val table"
  shows "signal_sem m' val s r = signal_sem m val s r"
proof -
  obtain g where g: "wm_connects m' = map g (wm_connects m)"
    "\<And>c. c \<in> set (wm_connects m) \<Longrightarrow> lv_signal (cn_target (g c)) = lv_signal (cn_target c) \<and>
      lv_range (cn_target (g c)) = lv_range (cn_target c) \<and>
      (lv_dynamic (cn_target (g c)) = None \<longleftrightarrow> lv_dynamic (cn_target c) = None)"
    "\<And>c. c \<in> set (wm_connects m) \<Longrightarrow> replacement_of table (cn_value c) = Inr (cn_value (g c))"
    by (rule rewritten_connects [OF assms(1,2)]) auto
  have of: "connects_of m' s = map g (connects_of m s)" using g(2) by (simp add: connects_of_def g(1) filter_map comp_def cong: filter_cong)
  have sub: "c \<in> set (wm_connects m)" if "c \<in> set (connects_of m s)" for c using that by (simp add: connects_of_def)
  have drivers: "drivers_of_bit w (connects_of m' s) t = map (\<lambda>(c, offset). (g c, offset)) (drivers_of_bit w (connects_of m s) t)" for w t
    unfolding of by (rule drivers_of_bit_map) (use g(2) [OF sub] in \<open>auto simp: target_width_def target_bit_def fun_eq_iff\<close>)
  have val: "val (ValueId_index (cn_value (g c))) = val (ValueId_index (cn_value c))"
    if "drivers_of_bit w (connects_of m s) t = [(c, k)]" for c k w t
  proof -
    have "(c, k) \<in> set (drivers_of_bit w (connects_of m s) t)" using that by simp
    then have "c \<in> set (connects_of m s)" by (auto simp: drivers_of_bit_def)
    with replacement_ok(4) [OF assms(1) g(3) assms(3)] sub show ?thesis by blast
  qed
  have dynamic: "(\<exists>c \<in> set (connects_of m' s). lv_dynamic (cn_target c) \<noteq> None) \<longleftrightarrow>
      (\<exists>c \<in> set (connects_of m s). lv_dynamic (cn_target c) \<noteq> None)"
    using g(2) [OF sub] by (simp add: of del: not_None_eq cong: bex_cong)
  have external: "external_signal m' s = external_signal m s" using rewritten_parts(3) [OF assms(2)] by (simp add: external_signal_def)
  show ?thesis unfolding signal_sem_def dynamic external drivers
    by (intro arg_cong2 [where f = "(\<or>)"] refl, rule iff_allI, rule imp_cong [OF refl]) (auto simp: map_eq_Cons_conv val)
qed

lemma rewritten_valuation:
  assumes ok: "module_ok m" and t: "replacements_ok m table" and r: "rewritten m table m'" and a: "replacements_agree val table"
  shows "valuation m' val sig = valuation m val sig"
proof -
  note parts = rewritten_parts [OF r]
  have same: "same_values m m' val (rewrite_input table result)" for result
    using rewrite_input_ok(1-3) [OF t] rewrite_input_ok(4) [OF t _ a] parts(1)
    by (simp add: same_values_def operand_of_def value_ty_def list_get_def)
  have "value_sem m' val sig v r = value_sem m val sig v r" if v: "v \<in> set (wm_values m)" for v r
  proof (cases "v_kind v")
    case (OperationValue op)
    have op: "OpId_index op < length (wm_operations m)"
      using ok v OperationValue by (auto simp: module_ok_iff values_valid_def in_set_conv_nth validate_value_def rbind_eq_Inr
        WordModule_operation_def list_get_def split: option.splits if_splits)
    obtain k where "wm_operations m' ! OpId_index op = (wm_operations m ! OpId_index op)\<lparr>op_kind := k\<rparr>"
      and k: "map_inputs (rewrite_input table (op_result (wm_operations m ! OpId_index op))) (op_kind (wm_operations m ! OpId_index op)) = Inr k"
      by (rule rewritten_operation [OF r op])
    with OperationValue op_sem_map [OF same k] show ?thesis by (simp add: value_sem_def)
  qed (simp_all add: value_sem_def)
  with rewritten_signal_sem [OF t r a] show ?thesis by (simp add: valuation_def parts(1,2))
qed

section \<open>Rewriting succeeds\<close>

lemma rewrite_input_exists:
  "replacements_ok m table \<Longrightarrow> ValueId_index v < length (wm_values m) \<Longrightarrow> \<exists>w. rewrite_input table result v = Inr w"
  using replacement_exists by (fastforce simp: rewrite_input_def)

lemma operation_inputs_exist:
  assumes "module_ok m" and "x \<in> set (wm_operations m)" and "v \<in> set (op_inputs (op_kind x))"
  shows "ValueId_index v < length (wm_values m)"
  using assms by (fastforce simp: module_ok_iff operations_valid_def in_set_conv_nth validate_operation_def rbind_eq_Inr check_all_Inr
      WordModule_value_def list_get_def split: option.splits if_splits)

lemma connect_values_exist:
  assumes "module_ok m" and "c \<in> set (wm_connects m)"
  shows "ValueId_index (cn_value c) < length (wm_values m)"
    and "lv_dynamic (cn_target c) = Some d \<Longrightarrow> ValueId_index (dr_offset d) < length (wm_values m)"
proof -
  have c: "validate_connect m c = Inr ()" using assms by (simp add: module_ok_iff connects_valid_def)
  then show "ValueId_index (cn_value c) < length (wm_values m)" by (auto simp: validate_connect_def rbind_eq_Inr value_ty_Inr)
  assume "lv_dynamic (cn_target c) = Some d"
  with c show "ValueId_index (dr_offset d) < length (wm_values m)"
    by (auto simp: validate_connect_def rbind_eq_Inr lvalue_ty_def value_ty_Inr split: if_splits)
qed

lemma rewrite_value_uses_rewritten:
  assumes ok: "module_ok m" and t: "replacements_ok m table"
  obtains m' where "rewrite_value_uses m table = (Inr (), m')" and "rewritten m table m'"
proof -
  have "\<exists>ops. rmap (rewrite_operation table) (wm_operations m) = Inr ops"
  proof (rule rmap_exists)
    fix x assume x: "x \<in> set (wm_operations m)"
    have "\<exists>k. map_inputs (rewrite_input table (op_result x)) (op_kind x) = Inr k"
      by (rule map_inputs_exists) (rule rewrite_input_exists [OF t operation_inputs_exist [OF ok x]])
    then show "\<exists>y. rewrite_operation table x = Inr y" by (auto simp: rewrite_operation_def)
  qed
  moreover have "\<exists>cs. rmap (rewrite_connect table) (wm_connects m) = Inr cs"
  proof (rule rmap_exists)
    fix c assume c: "c \<in> set (wm_connects m)"
    show "\<exists>y. rewrite_connect table c = Inr y"
      using replacement_exists [OF t connect_values_exist(1) [OF ok c]] replacement_exists [OF t connect_values_exist(2) [OF ok c]]
      by (cases "lv_dynamic (cn_target c)") (fastforce simp: rewrite_connect_def)+
  qed
  ultimately obtain ops cs where "rmap (rewrite_operation table) (wm_operations m) = Inr ops" "rmap (rewrite_connect table) (wm_connects m) = Inr cs"
    by blast
  moreover have "length table = length (wm_values m)" using t by (simp add: replacements_ok_def)
  moreover from this have "check_all (check_replacement m) (enumerate 0 table) = Inr ()" using check_replacements [OF ok] t by simp
  ultimately show thesis by (intro that) (auto simp: rewrite_value_uses_def rewritten_def simp flip: rmap_Inr)
qed

lemma rewrite_value_uses_rejects:
  assumes "module_ok m" and "\<not> replacements_ok m table"
  shows "\<exists>e. rewrite_value_uses m table = (Inl e, m)"
proof (cases "length table = length (wm_values m)")
  case True
  with check_replacements [OF assms(1)] assms(2) obtain e where "check_all (check_replacement m) (enumerate 0 table) = Inl e"
    by (cases "check_all (check_replacement m) (enumerate 0 table)") auto
  with True show ?thesis by (simp add: rewrite_value_uses_def)
qed (simp add: rewrite_value_uses_def)


text \<open>A wire read twice, and a table that merges the readings.\<close>

definition twice_demo :: WordModule
  where "twice_demo = (let ty = \<lparr>ty_width = 2, ty_signed = False, ty_state = TwoState\<rparr> in
    fold word_step [CallWire ty, CallRead (SignalId 0), CallRead (SignalId 0), CallBinary BitXor (ValueId 0) (ValueId 1)]
      (WordModule_new ''twice''))"


end
