(* ===== verification/Constant_Fold.thy ===== *)
theory Constant_Fold
  imports Word_Rewrite Known_Bits_Queries
begin

text \<open>
  Folding the operations of a word module whose operands are constants
  (\<^verbatim>\<open>crates/opto-synth/src/planning/dataflow/canonical.rs\<close>), and those whose value the known-bits analysis
  proves. Both passes replace results by constants in the order of the values; the caller says which
  operations may be folded.
\<close>

section \<open>Constant results\<close>

definition constant_of :: "WordModule \<Rightarrow> ValueId \<Rightarrow> BitVal list option"
  where "constant_of m v =
    (case WordModule_value m v of None \<Rightarrow> None
     | Some x \<Rightarrow> (case v_kind x of ConstantValue bits \<Rightarrow> Some bits | _ \<Rightarrow> None))"

definition constant_bit :: "WordModule \<Rightarrow> ValueId \<Rightarrow> bool option"
  where "constant_bit m v =
    (case constant_of m v of None \<Rightarrow> None
     | Some bits \<Rightarrow>
         if length bits \<noteq> 1 then None
         else (case bit_lsb bits 0 of
             Some BitZero \<Rightarrow> Some False
           | Some BitOne \<Rightarrow> Some True
           | _ \<Rightarrow> None))"

definition folded_logical_value :: "BitVal list \<Rightarrow> BitVal"
  where "folded_logical_value input =
    (if BitOne \<in> set input then BitOne
     else if list_all (\<lambda>b. b = BitZero) input then BitZero
     else BitX)"

definition complement_bit :: "BitVal \<Rightarrow> BitVal"
  where "complement_bit b = (if b = BitZero then BitOne else if b = BitOne then BitZero else BitX)"

fun fold_unary :: "UnaryOp \<Rightarrow> BitVal list \<Rightarrow> BitVal list"
  where
    "fold_unary BitNot input = map complement_bit input"
  | "fold_unary LogicalNot input = [complement_bit (folded_logical_value input)]"
  | "fold_unary ReductionAnd input =
      [if BitZero \<in> set input then BitZero else if list_all (\<lambda>b. b = BitOne) input then BitOne else BitX]"
  | "fold_unary ReductionOr input = [folded_logical_value input]"
  | "fold_unary ReductionXor input =
      [if list_ex unknown_bit input then BitX
       else if even (length (filter (\<lambda>b. b = BitOne) input)) then BitZero else BitOne]"

definition fold_cast :: "BitVal list \<Rightarrow> CastKind \<Rightarrow> WordType \<Rightarrow> SynthError + BitVal list"
  where "fold_cast input kind target =
    (let target_width = ty_width target; input_width = length input
     in case kind of
       Truncate \<Rightarrow>
         if input_width < target_width then Inl (Invariant ''truncate target exceeds source width'')
         else Inr (drop (input_width - target_width) input)
     | ZeroExtend \<Rightarrow>
         if target_width < input_width then Inl (Invariant ''zero-extension target is narrower than its source'')
         else Inr (replicate (target_width - input_width) BitZero @ input)
     | SignExtend \<Rightarrow>
         if target_width < input_width then Inl (Invariant ''sign-extension target is narrower than its source'')
         else (case input of
             [] \<Rightarrow> Inl (Invariant ''cannot sign-extend an empty constant'')
           | sign # _ \<Rightarrow> Inr (replicate (target_width - input_width) sign @ input)))"

text \<open>The \<^verbatim>\<open>u32\<close> addition of an offset to the lowest extracted bit panics when it overflows.\<close>

fun fold_bits :: "WordModule \<Rightarrow> OpKind \<Rightarrow> SynthError + BitVal list option"
  where
    "fold_bits m (OpExtract v lsb width) =
      (case constant_of m v of None \<Rightarrow> Inr None
       | Some input \<Rightarrow>
           if lsb + width > 2 ^ 32 then Inl (Panic ''attempt to add with overflow'')
           else Inr (those (map (\<lambda>offset. bit_lsb input (lsb + offset)) (rev [0..<width]))))"
  | "fold_bits m (OpCast kind v target) =
      (case constant_of m v of None \<Rightarrow> Inr None
       | Some input \<Rightarrow> rbind (fold_cast input kind target) (\<lambda>bits. Inr (Some bits)))"
  | "fold_bits m (OpConcat parts) = Inr (map_option concat (those (map (constant_of m) parts)))"
  | "fold_bits m (OpUnary op arg) =
      Inr (map_option (fold_unary op) (constant_of m arg))"
  | "fold_bits m (OpMux cond then_value else_value) =
      (case constant_bit m cond of None \<Rightarrow> Inr None
       | Some select \<Rightarrow> Inr (constant_of m (if select then then_value else else_value)))"
  | "fold_bits m _ = Inr None"

definition fold_operation :: "WordModule \<Rightarrow> OpKind \<Rightarrow> WordType \<Rightarrow> SynthError + BitVal list option"
  where "fold_operation m k result_ty =
    rbind (fold_bits m k) (\<lambda>bits.
      case bits of None \<Rightarrow> Inr None
      | Some bits \<Rightarrow>
          if length bits \<noteq> ty_width result_ty then Inl (Invariant ''constant-folded result has the wrong width'')
          else if length bits \<ge> 2 ^ 32 then Inl (WordFailure ''constant width overflow'')
          else Inr (Some bits))"

section \<open>The passes\<close>

fun sfor :: "('a \<Rightarrow> 's \<Rightarrow> ('s, 'e, unit) outcome) \<Rightarrow> 'a list \<Rightarrow> 's \<Rightarrow> ('s, 'e, unit) outcome"
  where
    "sfor f [] s = (Inr (), s)"
  | "sfor f (x # xs) s = sbind (f x s) (\<lambda>_ s. sfor f xs s)"

definition fold_constant_at :: "(OpId \<Rightarrow> bool) \<Rightarrow> nat \<Rightarrow> WordModule \<Rightarrow> (WordModule, SynthError, unit) outcome"
  where "fold_constant_at permit index m =
    (case ValueId_from_index index of Inl e \<Rightarrow> (Inl e, m)
     | Inr v \<Rightarrow>
       (case WordModule_value m v of None \<Rightarrow> (Inl (Invariant ''unknown value''), m)
        | Some stored \<Rightarrow>
          (case v_kind stored of
             OperationValue op \<Rightarrow>
               if \<not> permit op then (Inr (), m)
               else (case WordModule_operation m op of None \<Rightarrow> (Inl (Invariant ''unknown operation''), m)
                 | Some operation \<Rightarrow>
                   (case fold_operation m (op_kind operation) (v_ty stored) of
                      Inl e \<Rightarrow> (Inl e, m)
                    | Inr None \<Rightarrow> (Inr (), m)
                    | Inr (Some bits) \<Rightarrow> replace_operation_result_with_constant m v bits))
           | _ \<Rightarrow> (Inr (), m))))"

definition fold_constants_by :: "(OpId \<Rightarrow> bool) \<Rightarrow> WordModule \<Rightarrow> (WordModule, SynthError, unit) outcome"
  where "fold_constants_by permit m = sfor (fold_constant_at permit) [0..<length (wm_values m)] m"

definition known_bits_of ::
  "WordModule \<Rightarrow> ValueId \<Rightarrow> KnownBitsAnalysis \<Rightarrow> string + BitVal list option \<times> KnownBitsAnalysis"
  where "known_bits_of m v facts =
    rbind (packed128 m v facts) (\<lambda>(packed, facts).
      case packed of Some p \<Rightarrow> Inr (KnownBits128_constant p, facts) | None \<Rightarrow> analysis_constant m v facts)"

definition fold_known_at ::
  "(OpId \<Rightarrow> bool) \<Rightarrow> nat \<Rightarrow> WordModule \<times> KnownBitsAnalysis \<Rightarrow> (WordModule \<times> KnownBitsAnalysis, SynthError, unit) outcome"
  where "fold_known_at permit index = (\<lambda>(m, facts).
    (case ValueId_from_index index of Inl e \<Rightarrow> (Inl e, m, facts)
     | Inr v \<Rightarrow>
       (case map_option v_kind (WordModule_value m v) of
          Some (OperationValue op) \<Rightarrow>
            if \<not> permit op then (Inr (), m, facts)
            else (case known_bits_of m v facts of
                Inl message \<Rightarrow> (Inl (Panic message), m, facts)
              | Inr (None, facts) \<Rightarrow> (Inr (), m, facts)
              | Inr (Some bits, facts) \<Rightarrow>
                  (case replace_operation_result_with_constant m v bits of (r, m) \<Rightarrow> (r, m, facts)))
        | _ \<Rightarrow> (Inr (), m, facts))))"

definition fold_known_values_by :: "(OpId \<Rightarrow> bool) \<Rightarrow> WordModule \<Rightarrow> (WordModule, SynthError, unit) outcome"
  where "fold_known_values_by permit m =
    (case analysis_new m of
       Inl message \<Rightarrow> (Inl (Panic message), m)
     | Inr facts \<Rightarrow>
         (case sfor (fold_known_at permit) [0..<length (wm_values m)] (m, facts) of (r, m, facts) \<Rightarrow> (r, m)))"

section \<open>Folded modules\<close>

definition constant_fits :: "BitVal list \<Rightarrow> WordType \<Rightarrow> bool"
  where "constant_fits bits ty \<longleftrightarrow> length bits = ty_width ty \<and> (ty_state ty = TwoState \<longrightarrow> \<not> list_ex unknown_bit bits)"

lemma constant_fits_iff: "validate_constant_replacement stored bits = Inr () \<longleftrightarrow> constant_fits bits (v_ty stored)"
  by (simp add: validate_constant_replacement_def constant_fits_def)

text \<open>
  What every pass keeps: the module differs only in results that became constants, and every valuation
  of the original is one of the folded module.
\<close>

definition folded_value :: "WordValue \<Rightarrow> WordValue \<Rightarrow> bool"
  where "folded_value x y \<longleftrightarrow> v_ty y = v_ty x \<and>
    (v_kind y = v_kind x \<or> (\<exists>op bits. v_kind x = OperationValue op \<and> v_kind y = ConstantValue bits \<and> constant_fits bits (v_ty x)))"

definition folds :: "WordModule \<Rightarrow> WordModule \<Rightarrow> bool"
  where "folds m m' \<longleftrightarrow> (\<exists>vs. m' = m\<lparr>wm_values := vs\<rparr> \<and> list_all2 folded_value (wm_values m) vs) \<and>
    (\<forall>val sig. valuation m val sig \<longrightarrow> valuation m' val sig)"

lemma folded_value_refl [simp]: "folded_value x x"
  by (simp add: folded_value_def)

lemma folded_value_trans: "folded_value x y \<Longrightarrow> folded_value y z \<Longrightarrow> folded_value x z"
  unfolding folded_value_def by (metis ValueKind.distinct(5))

lemma folds_refl [simp]: "folds m m"
  unfolding folds_def by (intro conjI exI [of _ "wm_values m"]) (simp_all add: list_all2_same)

lemma folds_trans: "folds m m' \<Longrightarrow> folds m' m'' \<Longrightarrow> folds m m''"
proof -
  assume "folds m m'" "folds m' m''"
  then obtain vs vs' where vs: "m' = m\<lparr>wm_values := vs\<rparr>" "m'' = m'\<lparr>wm_values := vs'\<rparr>"
      "list_all2 folded_value (wm_values m) vs" "list_all2 folded_value (wm_values m') vs'"
    and val: "\<forall>val sig. valuation m val sig \<longrightarrow> valuation m'' val sig"
    by (auto simp: folds_def)
  from list_all2_trans [OF folded_value_trans vs(3)] vs(4) have "list_all2 folded_value (wm_values m) vs'"
    by (simp add: vs(1))
  moreover have "m'' = m\<lparr>wm_values := vs'\<rparr>" using vs(1,2) by simp
  ultimately show ?thesis using val unfolding folds_def by blast
qed

lemma folds_parts:
  assumes "folds m m'"
  shows "wm_names m' = wm_names m" "wm_ports m' = wm_ports m" "wm_signals m' = wm_signals m"
    "wm_operations m' = wm_operations m" "wm_connects m' = wm_connects m" "length (wm_values m') = length (wm_values m)"
    "\<And>i. i < length (wm_values m) \<Longrightarrow> folded_value (wm_values m ! i) (wm_values m' ! i)"
    "\<And>i. i < length (wm_values m) \<Longrightarrow> v_ty (wm_values m' ! i) = v_ty (wm_values m ! i)"
  using assms by (auto simp: folds_def folded_value_def list_all2_conv_all_nth)

lemma map_inputs_id: "map_inputs Inr k = Inr k"
proof -
  have list: "rmap f xs = Inr xs" if "\<And>x. f x = Inr x" for f :: "'x \<Rightarrow> SynthError + 'x" and xs
    by (induction xs) (simp_all add: that)
  have "map_reset Inr r = Inr r" for r by (simp add: map_reset_def)
  moreover have "map_enable Inr e = Inr e" for e by (simp add: map_enable_def)
  moreover from this have "map_enable_option Inr e = Inr e" for e by (simp add: map_enable_option_def split: option.split)
  ultimately show ?thesis by (cases k) (simp_all add: list)
qed

lemma folds_value_ty: "folds m m' \<Longrightarrow> value_ty m' v = value_ty m v"
  using folds_parts(6,8) [of m m'] by (simp add: value_ty_def list_get_def)

lemma folds_operation_type:
  assumes "folds m m'"
  shows "operation_type m' k = operation_type m k"
  by (rule operation_type_map [OF _ map_inputs_id]) (simp add: same_types_def folds_parts(1) [OF assms] folds_value_ty [OF assms])

lemma folds_op_sem:
  assumes "folds m m'" and "operation_type m k = Inr ty"
  shows "op_sem m' val k t r = op_sem m val k t r"
proof -
  have "operand_of m' val v = operand_of m val v" if "v \<in> set (op_inputs k)" for v
    using operation_type_inputs [OF assms(2) that] folds_parts(8) [OF assms(1)] by (simp add: operand_of_def)
  then show ?thesis by (cases k) auto
qed

lemma folds_valid:
  assumes "folds m m'"
  shows "readable m \<Longrightarrow> readable m'" "widths_ok m \<Longrightarrow> widths_ok m'" "readable m \<Longrightarrow> analysable m \<Longrightarrow> analysable m'"
    "node_width m' = node_width m" "mirrors m' a = mirrors m a"
proof -
  note parts = folds_parts [OF assms]
  have all: "(\<forall>v \<in> set (wm_values m'). P (v_ty v)) \<longleftrightarrow> (\<forall>v \<in> set (wm_values m). P (v_ty v))" for P
    by (auto simp: all_set_conv_all_nth parts(6,8))
  show "widths_ok m \<Longrightarrow> widths_ok m'" using all [of "\<lambda>t. ty_width t < 2 ^ 32 - 1"] by (simp add: widths_ok_def)
  show nw: "node_width m' = node_width m"
    using parts by (auto simp: node_width_def fun_eq_iff WordModule_value_def WordModule_signal_def list_get_def split: FactNode.split)
  show "mirrors m' a = mirrors m a" using parts by (simp add: mirrors_def external_signal_def drivers_of_def)
  assume ok: "readable m"
  have "value_ty m' = value_ty m" "signal_ty m' = signal_ty m"
    by (simp_all add: fun_eq_iff folds_value_ty [OF assms] signal_ty_def parts(3))
  then have "validate_connect m' = validate_connect m" unfolding validate_connect_def lvalue_ty_def by (simp only:)
  then have "connects_valid m'" using ok by (simp add: readable_def connects_valid_def parts(5))
  moreover have "values_valid m'" unfolding values_valid_def
  proof (intro allI impI)
    fix i assume "i < length (wm_values m')"
    then have i: "i < length (wm_values m)" by (simp add: parts(6))
    have v: "validate_value m (i, wm_values m ! i) = Inr ()" by (rule value_valid [OF ok i])
    show "validate_value m' (i, wm_values m' ! i) = Inr ()"
    proof (cases "v_kind (wm_values m' ! i) = v_kind (wm_values m ! i)")
      case True
      have refs: "WordModule_signal m' = WordModule_signal m" "WordModule_operation m' = WordModule_operation m"
        by (simp_all add: fun_eq_iff WordModule_signal_def WordModule_operation_def parts(3,4))
      show ?thesis using v unfolding validate_value_def prod.case refs True parts(8) [OF i] .
    next
      case False
      then obtain bits where "v_kind (wm_values m' ! i) = ConstantValue bits" "constant_fits bits (v_ty (wm_values m ! i))"
        using parts(7) [OF i] by (auto simp: folded_value_def)
      with v show ?thesis by (auto simp: validate_value_def parts(8) [OF i] check_that_def constant_fits_def rbind_eq_Inr)
    qed
  qed
  moreover have "v_kind (wm_values m ! v) = OperationValue op"
    if "v < length (wm_values m)" "v_kind (wm_values m' ! v) = OperationValue op" for v op
    using parts(7) [OF that(1)] that(2) by (auto simp: folded_value_def)
  moreover have "types_ok m'" 
    using ok all [of "\<lambda>t. 0 < ty_width t \<and> ty_width t < 2 ^ 32"] by (simp add: readable_def types_ok_def parts(3))
  ultimately show "readable m'"
    using ok by (simp add: readable_def folds_operation_type [OF assms] parts(4,6,8))
  assume "analysable m"
  show "analysable m'" unfolding analysable_def
  proof (intro allI impI)
    fix node assume n: "node_width m' node \<noteq> None"
    then have "node_analysable m node" using \<open>analysable m\<close> by (simp add: analysable_def nw)
    show "node_analysable m' node" unfolding node_analysable_def
    proof (intro allI impI)
      fix v op assume node: "node = ValueNode v" and k: "v_kind (wm_values m' ! ValueId_index v) = OperationValue op"
      have i: "ValueId_index v < length (wm_values m)"
        using n node by (auto simp: nw node_width_def WordModule_value_def list_get_def split: if_splits)
      have k': "v_kind (wm_values m ! ValueId_index v) = OperationValue op" using parts(7) [OF i] k by (auto simp: folded_value_def)
      obtain x where x: "wm_operations m ! OpId_index op = x" "operation_type m (op_kind x) = Inr (v_ty (wm_values m ! ValueId_index v))"
        by (rule operation_value_typed [OF ok i k'])
      have a: "op_analysable m (op_kind x) (v_ty (wm_values m ! ValueId_index v))"
        using \<open>node_analysable m node\<close> node k' x(1) by (simp add: node_analysable_def)
      have same: "v_ty (wm_values m' ! ValueId_index u) = v_ty (wm_values m ! ValueId_index u)" if "u \<in> set (op_inputs (op_kind x))" for u
        by (rule parts(8) [OF operation_type_inputs [OF x(2) that]])
      have "op_analysable m' (op_kind x) t = op_analysable m (op_kind x) t" for t
        using same by (cases "(m, op_kind x, t)" rule: op_analysable.cases) auto
      with a show "op_analysable m' (op_kind (wm_operations m' ! OpId_index op)) (v_ty (wm_values m' ! ValueId_index v))"
        by (simp add: parts(4) x(1) parts(8) [OF i])
    qed
  qed
qed

section \<open>Folding one operation\<close>

definition bit_fits :: "BitVal \<Rightarrow> bool \<Rightarrow> bool"
  where "bit_fits b x \<longleftrightarrow> unknown_bit b \<or> x = (b = BitOne)"

lemma constant_sem_iff: "constant_sem bits r \<longleftrightarrow> list_all2 bit_fits (rev bits) r"
  by (simp add: constant_sem_def bit_fits_def [abs_def])

lemma bit_fits_simps [simp]: "bit_fits BitZero x \<longleftrightarrow> \<not> x" "bit_fits BitOne x \<longleftrightarrow> x" "bit_fits BitX x"
  by (auto simp: bit_fits_def unknown_bit_def)

lemma bit_fits_complement: "bit_fits b x \<Longrightarrow> bit_fits (complement_bit b) (\<not> x)"
  by (cases b) (auto simp: complement_bit_def bit_fits_def unknown_bit_def)

lemma bits_fit_sets:
  assumes "list_all2 bit_fits bs xs"
  shows "BitOne \<in> set bs \<Longrightarrow> True \<in> set xs" "BitZero \<in> set bs \<Longrightarrow> False \<in> set xs"
    "list_all (\<lambda>b. b = BitZero) bs \<Longrightarrow> True \<notin> set xs" "list_all (\<lambda>b. b = BitOne) bs \<Longrightarrow> False \<notin> set xs"
    "\<not> list_ex unknown_bit bs \<Longrightarrow> length (filter (\<lambda>b. b = BitOne) bs) = length (filter id xs)"
  using assms by (induction rule: list_all2_induct) (auto simp: bit_fits_def unknown_bit_def)

lemma fold_unary_sound:
  assumes "constant_sem bits xs"
  shows "constant_sem (fold_unary op bits) (unary_val op xs)"
proof -
  have fit: "list_all2 bit_fits (rev bits) xs" using assms by (simp add: constant_sem_iff)
  note sets = bits_fit_sets [OF fit]
  have logical: "bit_fits (folded_logical_value bits) (bits_val xs \<noteq> 0)"
    using sets(1,3) by (auto simp: folded_logical_value_def bits_val_zero)
  show ?thesis
  proof (cases op)
    case BitNot
    have "list_all2 bit_fits (map complement_bit (rev bits)) (map Not xs)"
      using fit by (simp add: list.rel_map) (auto elim: list_all2_mono dest: bit_fits_complement)
    with BitNot show ?thesis by (simp add: constant_sem_iff rev_map)
  next
    case LogicalNot
    with bit_fits_complement [OF logical] show ?thesis by (simp add: constant_sem_iff)
  next
    case ReductionAnd
    with sets(2,4) show ?thesis by (auto simp: constant_sem_iff)
  next
    case ReductionOr
    with logical show ?thesis by (simp add: constant_sem_iff)
  next
    case ReductionXor
    with sets(5) show ?thesis by (auto simp: constant_sem_iff simp flip: rev_filter)
  qed
qed

lemma word_cast_extend: "length xs \<le> w \<Longrightarrow> word_cast k xs w = xs @ replicate (w - length xs) (k = SignExtend \<and> xs \<noteq> [] \<and> last xs)"
  by (intro nth_equalityI) (auto simp: word_cast_def nth_append)

lemma word_cast_truncate: "w \<le> length xs \<Longrightarrow> word_cast k xs w = take w xs"
  by (intro nth_equalityI) (auto simp: word_cast_def)

lemma fold_cast_sound:
  assumes "constant_sem input xs" and "fold_cast input kind t = Inr bits"
  shows "constant_sem bits (word_cast kind xs (ty_width t))"
proof -
  have fit: "list_all2 bit_fits (rev input) xs" and len: "length xs = length input"
    using assms(1) by (auto simp: constant_sem_iff dest: list_all2_lengthD)
  have last: "bit_fits (hd input) (last xs)" if "input \<noteq> []"
  proof -
    from fit that len have "bit_fits (last (rev input)) (last xs)"
      by (cases "xs = []") (auto simp: list_all2_conv_all_nth last_conv_nth)
    then show ?thesis by (simp add: last_rev)
  qed
  show ?thesis
  proof (cases kind)
    case Truncate
    with assms(2) len have "bits = drop (length input - ty_width t) input" "ty_width t \<le> length xs"
      by (auto simp: fold_cast_def Let_def split: if_splits)
    moreover from this have "rev bits = take (ty_width t) (rev input)" using len by (simp add: rev_drop)
    ultimately show ?thesis using fit by (simp add: constant_sem_iff word_cast_truncate list_all2_takeI)
  next
    case ZeroExtend
    with assms(2) len have "bits = replicate (ty_width t - length xs) BitZero @ input" "length xs \<le> ty_width t"
      by (auto simp: fold_cast_def Let_def split: if_splits)
    moreover have "list_all2 bit_fits (replicate n BitZero) (replicate n False)" for n by (simp add: list_all2_conv_all_nth)
    ultimately show ?thesis using ZeroExtend fit by (simp add: constant_sem_iff word_cast_extend list_all2_appendI)
  next
    case SignExtend
    with assms(2) len have "bits = replicate (ty_width t - length xs) (hd input) @ input" "length xs \<le> ty_width t" "input \<noteq> []"
      by (auto simp: fold_cast_def Let_def split: if_splits list.splits)
    moreover have "xs \<noteq> []" using calculation(3) len by auto
    moreover have "list_all2 bit_fits (replicate n (hd input)) (replicate n (last xs))" for n
      using last [OF calculation(3)] by (simp add: list_all2_conv_all_nth)
    ultimately show ?thesis using SignExtend fit by (simp add: constant_sem_iff word_cast_extend list_all2_appendI)
  qed
qed

lemma those_Some: "those xs = Some ys \<longleftrightarrow> xs = map Some ys"
proof (induction xs arbitrary: ys)
  case (Cons x xs)
  then show ?case by (cases ys; cases x) (auto split: option.splits)
qed auto

lemma fold_extract_sound:
  assumes "constant_sem input xs" and "those (map (\<lambda>offset. bit_lsb input (lsb + offset)) (rev [0..<w])) = Some bits"
  shows "constant_sem bits (word_extract xs lsb w)"
proof -
  have fit: "list_all2 bit_fits (rev input) xs" using assms(1) by (simp add: constant_sem_iff)
  have "map (\<lambda>offset. bit_lsb input (lsb + offset)) (rev [0..<w]) = map Some bits" using assms(2) by (simp add: those_Some)
  then have "rev (map (\<lambda>offset. bit_lsb input (lsb + offset)) (rev [0..<w])) = rev (map Some bits)" by simp
  then have all: "map (\<lambda>offset. bit_lsb input (lsb + offset)) [0..<w] = map Some (rev bits)" by (simp add: rev_map)
  have len: "length bits = w" using arg_cong [OF all, of length] by simp
  have some: "bit_lsb input (lsb + i) = Some (rev bits ! i)" if "i < w" for i
    using arg_cong [OF all, of "\<lambda>l. l ! i"] that len by simp
  have nth: "lsb + i < length input \<and> rev bits ! i = rev input ! (lsb + i)" if "i < w" for i
    using some [OF that] by (auto simp: bit_lsb_def rev_nth split: if_splits)
  have "lsb + w \<le> length input \<or> w = 0" using nth [of "w - 1"] by auto
  with fit len nth show ?thesis
    by (auto simp: constant_sem_iff word_extract_def list_all2_conv_all_nth)
qed

lemma constant_sem_concat:
  assumes "list_all2 constant_sem parts rs"
  shows "constant_sem (concat parts) (concat (rev rs))"
  using assms by (induction rule: list_all2_induct) (auto simp: constant_sem_iff list_all2_appendI)

lemma constant_of_sound:
  assumes "valuation m val sig" and "constant_of m v = Some bits"
  shows "constant_sem bits (val (ValueId_index v))"
  using assms by (auto simp: constant_of_def valuation_def value_sem_def WordModule_value_def list_get_def
      split: option.splits ValueKind.splits if_splits)

lemma constant_bit_sound:
  assumes "valuation m val sig" and "constant_bit m v = Some b"
  shows "b = (True \<in> set (val (ValueId_index v)))"
proof -
  obtain x where x: "constant_of m v = Some [x]" "x = (if b then BitOne else BitZero)"
    using assms(2) by (auto simp: constant_bit_def bit_lsb_def length_Suc_conv split: option.splits if_splits BitVal.splits)
  from constant_of_sound [OF assms(1) x(1)] show ?thesis
    by (auto simp: constant_sem_iff x(2) list_all2_Cons1 split: if_splits)
qed

lemma fold_bits_sound:
  assumes val: "valuation m val sig" and "fold_bits m k = Inr (Some bits)" and "op_sem m val k ty r"
  shows "constant_sem bits r"
proof (cases k)
  case (OpUnary op a)
  with assms show ?thesis by (auto intro!: fold_unary_sound constant_of_sound [OF val])
next
  case (OpMux c x y)
  with assms(2) obtain b where b: "constant_bit m c = Some b" "constant_of m (if b then x else y) = Some bits"
    by (auto split: option.splits)
  from constant_bit_sound [OF val b(1)] constant_of_sound [OF val b(2)] OpMux assms(3) show ?thesis by (auto split: if_splits)
next
  case (OpConcat ps)
  with assms(2) obtain cs where cs: "map (constant_of m) ps = map Some cs" "bits = concat cs" by (auto simp: those_Some)
  have "list_all2 constant_sem cs (map (\<lambda>v. val (ValueId_index v)) ps)"
    using cs(1) by (induction ps arbitrary: cs) (auto simp: Cons_eq_map_conv constant_of_sound [OF val])
  from constant_sem_concat [OF this] OpConcat assms(3) cs(2) show ?thesis by (simp add: rev_map)
next
  case (OpExtract a lsb w)
  with assms(2) obtain input where "constant_of m a = Some input"
      "those (map (\<lambda>offset. bit_lsb input (lsb + offset)) (rev [0..<w])) = Some bits"
    by (auto split: option.splits if_splits)
  with fold_extract_sound [OF constant_of_sound [OF val]] OpExtract assms(3) show ?thesis by simp
next
  case (OpCast kind a t)
  with assms(2) obtain input where "constant_of m a = Some input" "fold_cast input kind t = Inr bits"
    by (auto simp: rbind_eq_Inr split: option.splits)
  with fold_cast_sound [OF constant_of_sound [OF val]] OpCast assms(3) show ?thesis by simp
qed (use assms(2) in auto)

text \<open>
  An operation on a valid module folds without a panic, to a constant of its width, and to one without
  unknown bits where its type has two states, unless it is a cast of a four-state value to a two-state type.
\<close>

definition keeps_states :: "WordModule \<Rightarrow> OpKind \<Rightarrow> bool"
  where "keeps_states m k \<longleftrightarrow>
    (\<forall>kind v t u. k = OpCast kind v t \<longrightarrow> value_ty m v = Inr u \<longrightarrow> ty_state t = TwoState \<longrightarrow> ty_state u = TwoState)"

lemma constant_of_fits:
  assumes "readable m" and "constant_of m v = Some bits"
  obtains ty where "value_ty m v = Inr ty" and "constant_fits bits ty" and "0 < ty_width ty" and "ty_width ty < 2 ^ 32"
proof -
  have v: "ValueId_index v < length (wm_values m)" "v_kind (wm_values m ! ValueId_index v) = ConstantValue bits"
    using assms(2) by (auto simp: constant_of_def WordModule_value_def list_get_def split: option.splits ValueKind.splits if_splits)
  have "constant_fits bits (v_ty (wm_values m ! ValueId_index v))"
    using value_valid [OF assms(1) v(1)] v(2) by (auto simp: validate_value_def rbind_eq_Inr check_that_def constant_fits_def split: if_splits)
  moreover have "0 < ty_width (v_ty (wm_values m ! ValueId_index v)) \<and> ty_width (v_ty (wm_values m ! ValueId_index v)) < 2 ^ 32"
    using assms(1) v(1) by (simp add: readable_def types_ok_def)
  ultimately show thesis using that v(1) by (simp add: value_ty_Inr)
qed

lemma fold_unary_fits:
  assumes "constant_fits bits t" and "unary_type op t = Inr ty"
  shows "constant_fits (fold_unary op bits) ty"
proof -
  have zeros: "list_all (\<lambda>b. b = BitZero) bits \<or> BitOne \<in> set bits" "list_all (\<lambda>b. b = BitOne) bits \<or> BitZero \<in> set bits"
    if "\<not> list_ex unknown_bit bits"
    using that by (auto simp: list_all_iff list_ex_iff unknown_bit_def) (metis BitVal.exhaust)+
  show ?thesis
  proof (cases op)
    case BitNot
    have "unknown_bit (complement_bit b) = unknown_bit b" for b by (cases b) (simp_all add: unknown_bit_def complement_bit_def)
    with BitNot assms show ?thesis by (auto simp: constant_fits_def unary_type_def list_ex_iff)
  qed (use assms zeros in \<open>auto simp: constant_fits_def unary_type_def WordType_new_def folded_logical_value_def complement_bit_def unknown_bit_def split: if_splits\<close>)
qed

lemma concat_type_fits:
  assumes "readable m"
  shows "concat_type m n st ps = Inr (w, st') \<Longrightarrow> map (constant_of m) ps = map Some cs \<Longrightarrow>
    w = n + length (concat cs) \<and> (st' = TwoState \<longrightarrow> st = TwoState \<and> \<not> list_ex unknown_bit (concat cs))"
proof (induction ps arbitrary: n st cs)
  case (Cons p ps)
  then obtain c cs' where cs: "cs = c # cs'" "constant_of m p = Some c" "map (constant_of m) ps = map Some cs'"
    by (auto simp: map_eq_Cons_conv)
  obtain t where t: "value_ty m p = Inr t" "constant_fits c t" by (rule constant_of_fits [OF assms cs(2)])
  have "concat_type m (n + ty_width t) (state_merge st (ty_state t)) ps = Inr (w, st')"
    using Cons.prems(1) t(1) by (auto simp: rbind_eq_Inr split: if_splits)
  from Cons.IH [OF this cs(3)] t(2) show ?case
    by (cases "ty_state t"; cases st) (auto simp: cs(1) constant_fits_def state_merge_def split: if_splits)
qed simp

lemma fold_cast_fits:
  assumes "constant_fits input t" and "kind = Truncate \<longrightarrow> ty_width target \<le> ty_width t" and "kind \<noteq> Truncate \<longrightarrow> ty_width t \<le> ty_width target"
    and "0 < ty_width t"
  obtains bits where "fold_cast input kind target = Inr bits" and "length bits = ty_width target"
    and "\<forall>b \<in> set bits. b = BitZero \<or> b \<in> set input"
proof -
  have len: "length input = ty_width t" using assms(1) by (simp add: constant_fits_def)
  then obtain b bs where input: "input = b # bs" using assms(4) by (cases input) auto
  show thesis
  proof (cases kind)
    case Truncate
    with assms(2) len have "fold_cast input kind target = Inr (drop (length input - ty_width target) input)"
      by (simp add: fold_cast_def Let_def)
    with that show thesis using Truncate assms(2) len by (auto dest: in_set_dropD)
  next
    case ZeroExtend
    with assms(3) len have "fold_cast input kind target = Inr (replicate (ty_width target - length input) BitZero @ input)"
      by (simp add: fold_cast_def Let_def)
    with that show thesis using ZeroExtend assms(3) len by (auto simp: set_replicate_conv_if)
  next
    case SignExtend
    with assms(3) len have "fold_cast input kind target = Inr (replicate (ty_width target - length input) b @ input)"
      by (simp add: fold_cast_def Let_def input)
    with that show thesis using SignExtend assms(3) len by (auto simp: set_replicate_conv_if input)
  qed
qed

lemma fold_bits_returns:
  assumes ok: "readable m" and ty: "operation_type m k = Inr ty"
  shows "\<exists>r. fold_bits m k = Inr r \<and>
    (\<forall>bits. r = Some bits \<longrightarrow> length bits = ty_width ty \<and> (keeps_states m k \<longrightarrow> constant_fits bits ty))"
proof (cases k)
  case (OpUnary op a)
  show ?thesis
  proof (cases "constant_of m a")
    case (Some input)
    obtain t where "value_ty m a = Inr t" "constant_fits input t" by (rule constant_of_fits [OF ok Some])
    with fold_unary_fits [of input t op ty] ty OpUnary Some show ?thesis by (auto simp: constant_fits_def)
  qed (simp add: OpUnary)
next
  case (OpMux c x y)
  show ?thesis
  proof (cases "constant_bit m c")
    case (Some b)
    have xy: "value_ty m x = Inr ty" "value_ty m y = Inr ty" using ty OpMux by (auto simp: rbind_eq_Inr split: if_splits)
    have "constant_fits bits ty" if "constant_of m (if b then x else y) = Some bits" for bits
      by (rule constant_of_fits [OF ok that]) (use xy in \<open>auto split: if_splits\<close>)
    with Some OpMux show ?thesis by (auto simp: constant_fits_def)
  qed (simp add: OpMux)
next
  case (OpConcat ps)
  obtain w st where w: "concat_type m 0 TwoState ps = Inr (w, st)" "WordType_new w False st = Inr ty"
    using ty OpConcat by (auto simp: rbind_eq_Inr split: if_splits)
  have "constant_fits (concat cs) ty" if "map (constant_of m) ps = map Some cs" for cs
    using concat_type_fits [OF ok w(1) that] w(2) by (auto simp: constant_fits_def WordType_new_def split: if_splits)
  then show ?thesis by (auto simp: OpConcat those_Some constant_fits_def)
next
  case (OpExtract a lsb w)
  show ?thesis
  proof (cases "constant_of m a")
    case (Some input)
    obtain t where t: "value_ty m a = Inr t" "constant_fits input t" by (rule constant_of_fits [OF ok Some])
    have b: "lsb + w < 2 ^ 32" "ty_width ty = w" "ty_state ty = ty_state t"
      using ty t(1) OpExtract by (auto simp: rbind_eq_Inr with_width_def WordType_new_def split: if_splits)
    have "length bits = w \<and> (\<not> list_ex unknown_bit input \<longrightarrow> \<not> list_ex unknown_bit bits)"
      if "map (\<lambda>offset. bit_lsb input (lsb + offset)) (rev [0..<w]) = map Some bits" for bits
    proof -
      have "x \<in> set input" if "x \<in> set bits" for x
      proof -
        have "Some x \<in> set (map Some bits)" using that by simp
        then have "\<exists>i. bit_lsb input i = Some x" unfolding \<open>map _ _ = map Some bits\<close> [symmetric] by auto
        then show ?thesis by (auto simp: bit_lsb_def split: if_splits)
      qed
      then show ?thesis using arg_cong [OF that, of length] by (auto simp: list_ex_iff)
    qed
    with b Some t(2) show ?thesis by (auto simp: OpExtract those_Some constant_fits_def)
  qed (simp add: OpExtract)
next
  case (OpCast kind a t)
  show ?thesis
  proof (cases "constant_of m a")
    case (Some input)
    obtain u where u: "value_ty m a = Inr u" "constant_fits input u" "0 < ty_width u"
      by (rule constant_of_fits [OF ok Some])
    have dir: "ty = t" "kind = Truncate \<longrightarrow> ty_width t \<le> ty_width u" "kind \<noteq> Truncate \<longrightarrow> ty_width u \<le> ty_width t"
      using ty u(1) OpCast by (cases kind; auto split: if_splits)+
    obtain bits where bits: "fold_cast input kind t = Inr bits" "length bits = ty_width t" "\<forall>b \<in> set bits. b = BitZero \<or> b \<in> set input"
      by (rule fold_cast_fits [OF u(2) dir(2,3) u(3)])
    from bits(3) have "list_ex unknown_bit bits \<Longrightarrow> list_ex unknown_bit input" by (auto simp: list_ex_iff unknown_bit_def)
    with Some OpCast dir(1) u bits(1,2) show ?thesis by (auto simp: keeps_states_def constant_fits_def)
  qed (simp add: OpCast)
qed auto

lemma fold_operation_returns:
  assumes ok: "readable m" and ty: "operation_type m k = Inr ty" and fits: "ty_width ty < 2 ^ 32"
  shows "\<exists>r. fold_operation m k ty = Inr r \<and>
    (\<forall>bits. r = Some bits \<longrightarrow> length bits = ty_width ty \<and> (keeps_states m k \<longrightarrow> constant_fits bits ty))"
  using fold_bits_returns [OF ok ty] fits by (auto simp: fold_operation_def split: option.splits)

lemma fold_operation_sound:
  assumes "valuation m val sig" and "fold_operation m k ty = Inr (Some bits)" and "op_sem m val k t r"
  shows "constant_sem bits r"
  using assms(2) by (intro fold_bits_sound [OF assms(1) _ assms(3)]) (auto simp: fold_operation_def rbind_eq_Inr split: option.splits if_splits)

section \<open>The passes keep every valuation\<close>

lemma replace_folds:
  assumes f: "folds m0 m" and ok: "readable m" and i: "i < length (wm_values m)" and k: "v_kind (wm_values m ! i) = OperationValue op"
    and fits: "constant_fits bits (v_ty (wm_values m ! i))"
    and sem: "\<And>val sig. valuation m0 val sig \<Longrightarrow> constant_sem bits (val i)"
  obtains m' where "replace_operation_result_with_constant m (ValueId i) bits = (Inr (), m')" and "folds m0 m'"
proof -
  let ?x = "wm_values m ! i" and ?y = "(wm_values m ! i)\<lparr>v_kind := ConstantValue bits\<rparr>"
  let ?m = "m\<lparr>wm_values := (wm_values m)[i := ?y]\<rparr>"
  have "validate_constant_replacement ?x bits = Inr ()" using fits by (simp add: constant_fits_iff)
  then have "replace_operation_result_with_constant m (ValueId i) bits = (Inr (), ?m)"
    using i k by (simp add: replace_operation_result_with_constant_def list_get_def)
  moreover have "folds m0 ?m"
  proof -
    have here: "list_all2 folded_value (wm_values m) ((wm_values m)[i := ?y])"
      using fits k i by (auto simp: list_all2_conv_all_nth nth_list_update folded_value_def)
    obtain vs where vs: "m = m0\<lparr>wm_values := vs\<rparr>" "list_all2 folded_value (wm_values m0) vs"
      and val: "\<And>val sig. valuation m0 val sig \<Longrightarrow> valuation m val sig" using f unfolding folds_def by blast
    have "valuation ?m val sig" if v0: "valuation m0 val sig" for val sig
    proof -
      have v: "valuation m val sig" by (rule val [OF v0])
      have ty: "v_ty ((wm_values m)[i := ?y] ! j) = v_ty (wm_values m ! j)" if "j < length (wm_values m)" for j
        using i by (simp add: nth_list_update)
      have "value_sem ?m val sig ((wm_values m)[i := ?y] ! j) (val j)" if j: "j < length (wm_values m)" for j
      proof (cases "j = i")
        case True
        then show ?thesis using i sem [OF v0] by (simp add: value_sem_def)
      next
        case False
        have sem: "value_sem m val sig (wm_values m ! j) (val j)" using j v unfolding valuation_def by blast
        show ?thesis
        proof (cases "v_kind (wm_values m ! j)")
          case (OperationValue p)
          obtain x where x: "wm_operations m ! OpId_index p = x" "operation_type m (op_kind x) = Inr (v_ty (wm_values m ! j))"
            by (rule operation_value_typed [OF ok j OperationValue])
          have "operand_of ?m val v = operand_of m val v" if "v \<in> set (op_inputs (op_kind x))" for v
            using ty [OF operation_type_inputs [OF x(2) that]] by (simp add: operand_of_def)
          then have "op_sem ?m val (op_kind x) t r = op_sem m val (op_kind x) t r" for t r by (cases "op_kind x") auto
          with sem OperationValue False x(1) show ?thesis by (simp add: value_sem_def)
        qed (use sem False in \<open>simp_all add: value_sem_def\<close>)
      qed
      moreover have "signal_sem ?m val s r = signal_sem m val s r" for s r by (simp add: signal_sem_def external_signal_def connects_of_def)
      ultimately show ?thesis using v by (simp add: valuation_def ty)
    qed
    moreover have "?m = m0\<lparr>wm_values := (wm_values m)[i := ?y]\<rparr>" by (subst vs(1)) simp
    moreover have "list_all2 folded_value (wm_values m0) ((wm_values m)[i := ?y])"
      using list_all2_trans [OF folded_value_trans vs(2)] here by (simp add: vs(1))
    ultimately show ?thesis unfolding folds_def by blast
  qed
  ultimately show thesis by (rule that)
qed

lemma sfor_invariant:
  assumes "I s" and "\<And>x s. x \<in> set xs \<Longrightarrow> I s \<Longrightarrow> I (snd (f x s))"
  shows "I (snd (sfor f xs s))"
  using assms
proof (induction xs arbitrary: s)
  case (Cons x xs)
  then have "I (snd (f x s))" by simp
  with Cons show ?case by (cases "f x s"; cases "fst (f x s)") (auto simp: sbind_def)
qed simp

lemma sfor_returns:
  assumes "I s" and "\<And>x s. x \<in> set xs \<Longrightarrow> I s \<Longrightarrow> \<exists>s'. f x s = (Inr (), s') \<and> I s'"
  shows "\<exists>s'. sfor f xs s = (Inr (), s') \<and> I s'"
  using assms
proof (induction xs arbitrary: s)
  case (Cons x xs)
  then obtain s' where "f x s = (Inr (), s')" "I s'" by fastforce
  with Cons show ?case by simp
qed simp

lemma value_op:
  assumes "i < length (wm_values m)" and "v_kind (wm_values m ! i) = OperationValue op" and "valuation m val sig"
  shows "op_sem m val (op_kind (wm_operations m ! OpId_index op)) (v_ty (wm_values m ! i)) (val i)"
  using assms by (auto simp: valuation_def value_sem_def)

lemma value_index:
  assumes "readable m" and "i < length (wm_values m)"
  shows "ValueId_from_index i = Inr (ValueId i)" "WordModule_value m (ValueId i) = Some (wm_values m ! i)"
  using value_valid [OF assms] assms(2)
  by (auto simp: validate_value_def rbind_eq_Inr WordModule_value_def list_get_def ValueId_from_index_def dense_from_index_def split: if_splits)

text \<open>A permitted operation that does not fold, or none.\<close>

definition settled :: "(OpId \<Rightarrow> bool) \<Rightarrow> WordModule \<Rightarrow> nat \<Rightarrow> bool"
  where "settled permit m i \<longleftrightarrow> (\<forall>op. v_kind (wm_values m ! i) = OperationValue op \<longrightarrow> permit op \<longrightarrow>
    fold_operation m (op_kind (wm_operations m ! OpId_index op)) (v_ty (wm_values m ! i)) = Inr None)"

lemma replace_operation_result_values:
  assumes "replace_operation_result_with_constant m (ValueId i) bits = (r, m')"
  shows "\<And>j. j \<noteq> i \<Longrightarrow> wm_values m' ! j = wm_values m ! j"
    and "r = Inr () \<Longrightarrow> v_kind (wm_values m' ! i) = ConstantValue bits"
  using assms by (auto simp: replace_operation_result_with_constant_def list_get_def split: option.splits ValueKind.splits sum.splits if_splits)

lemma fold_constant_at_folds:
  assumes ok: "readable m" and i: "i < length (wm_values m)"
  shows "\<exists>r m'. fold_constant_at permit i m = (r, m') \<and> folds m m' \<and> (\<forall>j. j \<noteq> i \<longrightarrow> wm_values m' ! j = wm_values m ! j) \<and>
    (r = Inr () \<longrightarrow> settled permit m' i) \<and> ((\<forall>x \<in> set (wm_operations m). keeps_states m (op_kind x)) \<longrightarrow> r = Inr ())"
proof (cases "\<exists>op. v_kind (wm_values m ! i) = OperationValue op \<and> permit op")
  case False
  then have "fold_constant_at permit i m = (Inr (), m)" by (auto simp: fold_constant_at_def value_index [OF ok i] split: ValueKind.splits)
  with False show ?thesis by (auto simp: settled_def)
next
  case True
  then obtain op where k: "v_kind (wm_values m ! i) = OperationValue op" "permit op" by blast
  obtain x where x: "WordModule_operation m op = Some x" "wm_operations m ! OpId_index op = x"
      "operation_type m (op_kind x) = Inr (v_ty (wm_values m ! i))"
    by (rule operation_value_typed [OF ok i k(1)])
  have x_in: "x \<in> set (wm_operations m)" using x(1) by (auto simp: WordModule_operation_def list_get_def split: if_splits)
  have "ty_width (v_ty (wm_values m ! i)) < 2 ^ 32" using ok i by (simp add: readable_def types_ok_def)
  from fold_operation_returns [OF ok x(3) this] obtain r where r: "fold_operation m (op_kind x) (v_ty (wm_values m ! i)) = Inr r"
      "\<forall>bits. r = Some bits \<longrightarrow> length bits = ty_width (v_ty (wm_values m ! i)) \<and>
        (keeps_states m (op_kind x) \<longrightarrow> constant_fits bits (v_ty (wm_values m ! i)))"
    by blast
  have at: "fold_constant_at permit i m =
      (case r of None \<Rightarrow> (Inr (), m) | Some bits \<Rightarrow> replace_operation_result_with_constant m (ValueId i) bits)"
    using k x(1) r(1) by (simp add: fold_constant_at_def value_index [OF ok i])
  show ?thesis
  proof (cases r)
    case None
    with at r(1) k x(2) show ?thesis by (auto simp: settled_def)
  next
    case (Some bits)
    show ?thesis
    proof (cases "constant_fits bits (v_ty (wm_values m ! i))")
      case True
      have "constant_sem bits (val i)" if "valuation m val sig" for val sig
        using fold_operation_sound [OF that r(1) [unfolded Some] value_op [OF i k(1) that, unfolded x(2)]] .
      then obtain m' where m': "replace_operation_result_with_constant m (ValueId i) bits = (Inr (), m')" "folds m m'"
        by (rule replace_folds [OF folds_refl ok i k(1) True])
      with at Some replace_operation_result_values [OF m'(1)] show ?thesis by (auto simp: settled_def)
    next
      case False
      then obtain e where "validate_constant_replacement (wm_values m ! i) bits = Inl e"
        using constant_fits_iff by (cases "validate_constant_replacement (wm_values m ! i) bits") auto
      then have "fold_constant_at permit i m = (Inl e, m)"
        using i k by (simp add: at Some replace_operation_result_with_constant_def list_get_def)
      moreover have "\<not> keeps_states m (op_kind x)" using False r(2) Some by blast
      ultimately show ?thesis using x_in by auto
    qed
  qed
qed

lemma folds_keeps_states: "folds m m' \<Longrightarrow> keeps_states m' k = keeps_states m k"
  by (simp add: keeps_states_def folds_value_ty)

text \<open>What folds is decided by the operands, which come before the result.\<close>

definition operands_ordered :: "WordModule \<Rightarrow> bool"
  where "operands_ordered m \<longleftrightarrow> (\<forall>i < length (wm_values m). \<forall>op. v_kind (wm_values m ! i) = OperationValue op \<longrightarrow>
    (\<forall>v \<in> set (op_inputs (op_kind (wm_operations m ! OpId_index op))). ValueId_index v < i))"

lemma module_ok_ordered:
  assumes "module_ok m"
  shows "operands_ordered m"
  unfolding operands_ordered_def
proof (intro allI impI ballI)
  fix i op v assume i: "i < length (wm_values m)" "v_kind (wm_values m ! i) = OperationValue op"
    and v: "v \<in> set (op_inputs (op_kind (wm_operations m ! OpId_index op)))"
  have vals: "values_valid m" using assms by (simp add: module_ok_iff)
  obtain x where x: "wm_operations m ! OpId_index op = x" "OpId_index op < length (wm_operations m)" "ValueId_index (op_result x) = i"
    by (rule operation_value [OF vals i])
  have "validate_operation m (OpId_index op, x) = Inr ()" using assms x by (auto simp: module_ok_iff operations_valid_def)
  then have "\<forall>v \<in> set (op_inputs (op_kind x)). (\<exists>y. WordModule_value m v = Some y) \<and>
      (WordModule_value m v = None \<or> ValueId_index v < ValueId_index (op_result x))"
    by (auto simp: validate_operation_def rbind_eq_Inr check_all_Inr split: option.splits if_splits)
  with x v show "ValueId_index v < i" by fastforce
qed

lemma fold_operation_cong:
  assumes "\<And>v. v \<in> set (op_inputs k) \<Longrightarrow> WordModule_value m' v = WordModule_value m v"
  shows "fold_operation m' k ty = fold_operation m k ty"
proof -
  have c: "constant_of m' v = constant_of m v" if "v \<in> set (op_inputs k)" for v using assms [OF that] by (simp add: constant_of_def)
  have "fold_bits m' k = fold_bits m k"
  proof (cases k)
    case (OpConcat ps)
    then have same: "map (constant_of m') ps = map (constant_of m) ps" using c by simp
    show ?thesis unfolding OpConcat fold_bits.simps same ..
  qed (use c in \<open>auto simp: constant_bit_def split: option.splits\<close>)
  then show ?thesis by (simp add: fold_operation_def)
qed

lemma folds_ordered: "folds m m' \<Longrightarrow> operands_ordered m \<Longrightarrow> operands_ordered m'"
  using folds_parts(4,6,7) [of m m'] by (fastforce simp: operands_ordered_def folded_value_def)

lemma sfor_append: "sfor f (xs @ ys) s = sbind (sfor f xs s) (\<lambda>_ s. sfor f ys s)"
  by (induction xs arbitrary: s) (auto simp: sbind_def split: prod.splits sum.splits)

lemma fold_constants_prefix:
  assumes ok: "readable m" "operands_ordered m" and "n \<le> length (wm_values m)"
  shows "\<exists>r m'. sfor (fold_constant_at permit) [0..<n] m = (r, m') \<and> folds m m' \<and>
    (r = Inr () \<longrightarrow> (\<forall>i < n. settled permit m' i)) \<and> ((\<forall>x \<in> set (wm_operations m). keeps_states m (op_kind x)) \<longrightarrow> r = Inr ())"
  using assms(3)
proof (induction n)
  case (Suc n)
  then obtain r m' where m': "sfor (fold_constant_at permit) [0..<n] m = (r, m')" "folds m m'"
      "r = Inr () \<longrightarrow> (\<forall>i < n. settled permit m' i)" "(\<forall>x \<in> set (wm_operations m). keeps_states m (op_kind x)) \<longrightarrow> r = Inr ()"
    by auto
  show ?case
  proof (cases r)
    case (Inl e)
    with m' show ?thesis by (auto simp: sfor_append)
  next
    case (Inr u)
    note parts = folds_parts [OF m'(2)]
    have ok': "readable m'" "operands_ordered m'" using folds_valid(1) [OF m'(2)] folds_ordered [OF m'(2)] ok by auto
    have n: "n < length (wm_values m')" using Suc.prems by (simp add: parts(6))
    obtain r2 m2 where m2: "fold_constant_at permit n m' = (r2, m2)" "folds m' m2" "\<forall>j. j \<noteq> n \<longrightarrow> wm_values m2 ! j = wm_values m' ! j"
        "r2 = Inr () \<longrightarrow> settled permit m2 n" "(\<forall>x \<in> set (wm_operations m'). keeps_states m' (op_kind x)) \<longrightarrow> r2 = Inr ()"
      using fold_constant_at_folds [OF ok'(1) n] by blast
    note parts2 = folds_parts [OF m2(2)]
    have "settled permit m2 i" if i: "i < n" for i
    proof -
      have "WordModule_value m2 v = WordModule_value m' v"
        if "v_kind (wm_values m' ! i) = OperationValue op" "v \<in> set (op_inputs (op_kind (wm_operations m' ! OpId_index op)))" for v op
      proof -
        have "ValueId_index v < i" using ok'(2) that i n by (auto simp: operands_ordered_def)
        with i m2(3) parts2(6) show ?thesis by (simp add: WordModule_value_def list_get_def)
      qed
      then show ?thesis using i m2(3) m'(3) Inr by (auto simp: settled_def parts2(4) fold_operation_cong [of _ m2 m'])
    qed
    then have "r2 = Inr () \<longrightarrow> (\<forall>i < Suc n. settled permit m2 i)" using m2(4) by (simp add: less_Suc_eq)
    moreover have "sfor (fold_constant_at permit) [0..<Suc n] m = (r2, m2)"
      using m'(1) Inr m2(1) by (cases r2) (auto simp: sfor_append)
    moreover have "folds m m2" by (rule folds_trans [OF m'(2) m2(2)])
    ultimately show ?thesis using m2(5) folds_keeps_states [OF m'(2)] by (auto simp: parts(4))
  qed
qed simp

lemma folds_types: "folds m m' \<Longrightarrow> map v_ty (wm_values m') = map v_ty (wm_values m)"
  using folds_parts(6,8) [of m m'] by (intro nth_equalityI) auto

text \<open>
  C27: folding the permitted operations of a valid module keeps the type of every value and every
  valuation, also when it stops with an error; it ends without error if no cast takes a four-state
  value to a two-state type. After one pass no permitted operation is left that folds.
\<close>

theorem fold_constants_correct:
  assumes "module_ok m"
  shows "case fold_constants_by permit m of (r, m') \<Rightarrow>
    readable m' \<and> map v_ty (wm_values m') = map v_ty (wm_values m) \<and>
    {(val, sig). valuation m val sig} \<subseteq> {(val, sig). valuation m' val sig} \<and>
    (r = Inr () \<longrightarrow> (\<forall>i < length (wm_values m). settled permit m' i)) \<and>
    ((\<forall>x \<in> set (wm_operations m). keeps_states m (op_kind x)) \<longrightarrow> r = Inr ())"
proof -
  note ok = module_ok_readable [OF assms] module_ok_ordered [OF assms]
  obtain r m' where m': "fold_constants_by permit m = (r, m')" "folds m m'" "r = Inr () \<longrightarrow> (\<forall>i < length (wm_values m). settled permit m' i)"
      "(\<forall>x \<in> set (wm_operations m). keeps_states m (op_kind x)) \<longrightarrow> r = Inr ()"
    using fold_constants_prefix [OF ok order_refl, of permit] by (auto simp: fold_constants_by_def)
  from m'(2) have "{(val, sig). valuation m val sig} \<subseteq> {(val, sig). valuation m' val sig}" by (auto simp: folds_def)
  with m' folds_types [OF m'(2)] folds_valid(1) [OF m'(2) ok(1)] show ?thesis by simp
qed

section \<open>Folding known values\<close>

lemma known_constant_bits:
  "known_constant w f = Some bits \<Longrightarrow> length bits = w \<and> \<not> list_ex unknown_bit bits"
proof -
  assume a: "known_constant w f = Some bits"
  let ?l = "rev [0..<w]" and ?g = "\<lambda>i. known_value (f i)"
  have "None \<notin> set (map ?g ?l)" and "bits = map the (map ?g ?l)"
    using a by (simp_all only: known_constant_def Let_def split: if_splits) auto
  moreover have "map Some (map the xs) = xs" if "None \<notin> set xs" for xs :: "BitVal option list"
    using that by (induction xs) auto
  ultimately have bits: "map Some bits = map ?g ?l" by metis
  have "\<not> unknown_bit b" if "b \<in> set bits" for b
  proof -
    have "Some b \<in> set (map Some bits)" using that by simp
    then obtain i where "known_value (f i) = Some b" unfolding bits by auto
    then show ?thesis by (cases "f i") (auto simp: unknown_bit_def)
  qed
  with arg_cong [OF bits, of length] show ?thesis by (auto simp: list_ex_iff)
qed

lemma known_bits_of_small:
  assumes "derive_value m v a = Inr (Some r, a')" and "fr_width r \<le> 128"
  shows "known_bits_of m v a = Inr (known_constant (fr_width r) (fact_bit (an_arena a') r), a')"
proof -
  obtain p where p: "packed128 m v a = Inr (Some p, a')" using assms by (simp add: packed128_def Let_def)
  from packed128_reads [OF this] obtain q where q: "derive_value m v a = Inr (Some q, a')" "KnownBits128_width p = fr_width q"
      "\<And>i. KnownBits128_bit p i = fact_bit (an_arena a') q i" by blast
  have "q = r" using q(1) assms(1) by simp
  moreover have "KnownBits128_bit p = fact_bit (an_arena a') q" by (rule ext) (rule q(3))
  ultimately show ?thesis using q(2) by (simp add: known_bits_of_def p KnownBits128_constant_def)
qed

text \<open>A query of the pass, on a module that was folded from one whose valuations the facts hold in.\<close>

lemma known_bits_of_ok:
  assumes ok: "readable m" "widths_ok m" "loop_ok m [] a" and i: "i < length (wm_values m)"
  obtains b a' where "known_bits_of m (ValueId i) a = Inr (b, a')" and "loop_ok m [] a'" and "progress m a a'"
    and "\<And>bits. b = Some bits \<Longrightarrow> length bits = ty_width (v_ty (wm_values m ! i)) \<and> \<not> list_ex unknown_bit bits"
    and "\<And>bits val sig. b = Some bits \<Longrightarrow> facts_true val sig a' \<Longrightarrow> val i = map (\<lambda>b. b = BitOne) (rev bits)"
proof -
  let ?v = "ValueId i" and ?w = "ty_width (v_ty (wm_values m ! i))"
  have w: "node_width m (ValueNode ?v) = Some ?w" using i by (simp add: node_width_def WordModule_value_def list_get_def)
  obtain r a1 where r: "derive_node m (ValueNode ?v) a = Inr (Some r, a1)" "node_state a1 (ValueNode ?v) = Some (Computed r)"
      "fr_width r = ?w" "loop_ok m [] a1" "progress m a a1"
    using derive_node_ok [OF ok w] by blast
  have d1: "derive_value m ?v a = Inr (Some r, a1)" using r(1) by (simp add: derive_value_def)
  have sound: "sound (an_arena b) q (val i)" if "node_state b (ValueNode ?v) = Some (Computed q)" "facts_true val sig b" for b q val sig
    using that by (simp add: facts_true_def) (metis ValueId.sel FactNode.simps(5) node_bits_def)
  show thesis
  proof (cases "?w \<le> 128")
    case True
    have k: "known_bits_of m ?v a = Inr (known_constant ?w (fact_bit (an_arena a1) r), a1)"
      using known_bits_of_small [OF d1] True r(3) by simp
    show thesis
    proof (rule that [OF k r(4,5)])
      show "length bits = ?w \<and> \<not> list_ex unknown_bit bits" if "known_constant ?w (fact_bit (an_arena a1) r) = Some bits" for bits
        by (rule known_constant_bits [OF that])
      show "val i = map (\<lambda>b. b = BitOne) (rev bits)"
        if "known_constant ?w (fact_bit (an_arena a1) r) = Some bits" "facts_true val sig a1" for bits val sig
        using known_constant_fits(1) [of "val i" "fact_bit (an_arena a1) r" bits] soundD [OF sound [OF r(2) that(2)]] that(1) r(3) by simp
    qed
  next
    case False
    then have p: "packed128 m ?v a = Inr (None, a1)" using r(3) by (simp add: packed128_def d1)
    obtain r2 a2 where r2: "derive_node m (ValueNode ?v) a1 = Inr (Some r2, a2)" "node_state a2 (ValueNode ?v) = Some (Computed r2)"
        "fr_width r2 = ?w" "loop_ok m [] a2" "progress m a1 a2"
      using derive_node_ok [OF ok(1,2) r(4) w] by blast
    have k: "known_bits_of m ?v a = Inr (known_constant ?w (fact_bit (an_arena a2) r2), a2)"
      by (simp add: known_bits_of_def p analysis_constant_def derive_value_def r2(1,3))
    show thesis
    proof (rule that [OF k r2(4) progress_trans [OF r(5) r2(5)]])
      show "length bits = ?w \<and> \<not> list_ex unknown_bit bits" if "known_constant ?w (fact_bit (an_arena a2) r2) = Some bits" for bits
        by (rule known_constant_bits [OF that])
      show "val i = map (\<lambda>b. b = BitOne) (rev bits)"
        if "known_constant ?w (fact_bit (an_arena a2) r2) = Some bits" "facts_true val sig a2" for bits val sig
        using known_constant_fits(1) [of "val i" "fact_bit (an_arena a2) r2" bits] soundD [OF sound [OF r2(2) that(2)]] that(1) r2(3) by simp
    qed
  qed
qed

lemma constant_sem_known: "\<not> list_ex unknown_bit bits \<Longrightarrow> constant_sem bits (map (\<lambda>b. b = BitOne) (rev bits))"
  by (simp add: constant_sem_iff list.rel_map list_all2_same list_ex_iff bit_fits_def)

text \<open>The state between two values: a module folded from the original, and facts true of the original.\<close>

definition folding :: "WordModule \<Rightarrow> WordModule \<times> KnownBitsAnalysis \<Rightarrow> bool"
  where "folding m = (\<lambda>(m', a). folds m m' \<and> loop_ok m' [] a \<and> (\<forall>val sig. valuation m val sig \<longrightarrow> facts_true val sig a))"

lemma folds_loop_ok: "folds m m' \<Longrightarrow> loop_ok m' [] a = loop_ok m [] a"
  using folds_valid(4,5) [of m m'] by (simp add: loop_ok_def facts_shaped_def)

lemma fold_known_at_folding:
  assumes ok: "readable m" "widths_ok m" "analysable m" and i: "i < length (wm_values m)" and s: "folding m s"
  shows "\<exists>s'. fold_known_at permit i s = (Inr (), s') \<and> folding m s'"
proof -
  obtain m' a where s': "s = (m', a)" by (cases s)
  with s have f: "folds m m'" "loop_ok m' [] a" "\<And>val sig. valuation m val sig \<Longrightarrow> facts_true val sig a" by (auto simp: folding_def)
  note ok' = folds_valid(1) [OF f(1) ok(1)] folds_valid(2) [OF f(1) ok(2)] folds_valid(3) [OF f(1) ok(1,3)]
  have i': "i < length (wm_values m')" using i by (simp add: folds_parts(6) [OF f(1)])
  note index = value_index [OF ok'(1) i']
  show ?thesis
  proof (cases "\<exists>op. v_kind (wm_values m' ! i) = OperationValue op \<and> permit op")
    case False
    then have "fold_known_at permit i s = (Inr (), s)" by (auto simp: fold_known_at_def s' index split: ValueKind.splits)
    with s show ?thesis by blast
  next
    case True
    then obtain op where k: "v_kind (wm_values m' ! i) = OperationValue op" "permit op" by blast
    obtain b a' where b: "known_bits_of m' (ValueId i) a = Inr (b, a')" "loop_ok m' [] a'" "progress m' a a'"
        "\<And>bits. b = Some bits \<Longrightarrow> length bits = ty_width (v_ty (wm_values m' ! i)) \<and> \<not> list_ex unknown_bit bits"
        "\<And>bits val sig. b = Some bits \<Longrightarrow> facts_true val sig a' \<Longrightarrow> val i = map (\<lambda>b. b = BitOne) (rev bits)"
      by (rule known_bits_of_ok [OF ok'(1,2) f(2) i']) blast
    have true: "facts_true val sig a'" if "valuation m val sig" for val sig
      using b(3) ok'(3) f(3) [OF that] f(1) that by (auto simp: progress_def folds_def)
    show ?thesis
    proof (cases b)
      case None
      with b(1) k have "fold_known_at permit i s = (Inr (), m', a')" by (simp add: fold_known_at_def s' index)
      with f(1) b(2) true show ?thesis by (simp add: folding_def)
    next
      case (Some bits)
      have fits: "constant_fits bits (v_ty (wm_values m' ! i))" using b(4) [OF Some] by (simp add: constant_fits_def)
      have "constant_sem bits (val i)" if "valuation m val sig" for val sig
        using constant_sem_known [of bits] b(4,5) [OF Some] true [OF that] by simp
      then obtain m'' where m'': "replace_operation_result_with_constant m' (ValueId i) bits = (Inr (), m'')" "folds m m''"
        by (rule replace_folds [OF f(1) ok'(1) i' k(1) fits])
      with b(1) k Some have "fold_known_at permit i s = (Inr (), m'', a')" by (simp add: fold_known_at_def s' index)
      moreover have "loop_ok m'' [] a'" using b(2) folds_loop_ok [OF f(1)] folds_loop_ok [OF m''(2)] by simp
      ultimately show ?thesis using m''(2) true by (simp add: folding_def)
    qed
  qed
qed

lemma fold_known_values_folds:
  assumes ok: "readable m" "widths_ok m" "analysable m" and new: "analysis_new m = Inr a"
  shows "\<exists>m'. fold_known_values_by permit m = (Inr (), m') \<and> folds m m'"
proof -
  have "folding m (m, a)" using analysis_new_ok [OF new] by (simp add: folding_def)
  then have "\<exists>s'. sfor (fold_known_at permit) [0..<length (wm_values m)] (m, a) = (Inr (), s') \<and> folding m s'"
    by (rule sfor_returns) (use fold_known_at_folding [OF ok] in auto)
  then show ?thesis by (auto simp: fold_known_values_by_def new folding_def)
qed

lemma folds_analysis_new:
  assumes "folds m m'"
  shows "analysis_new m' = analysis_new m"
  unfolding analysis_new_def SignalDrivers_build_def connect_entries_def folds_parts(2,3,5,6) [OF assms] ..


section \<open>Concrete modules\<close>

text \<open>A constant that is complemented and read back in part, beside a wire that is masked with it.\<close>

definition fold_demo :: WordModule
  where "fold_demo = fold word_step [CallConstant [BitZero, BitOne] (bits_ty 2 False), CallUnary BitNot (ValueId 0),
    CallExtract (ValueId 1) 1 1, CallWire (bits_ty 2 False), CallRead (SignalId 0), CallUnary BitNot (ValueId 3)] (WordModule_new ''fold'')"

lemma fold_demo_ok: "module_ok fold_demo"
  unfolding fold_demo_def by (rule built_ok, rule built_fold [OF built_new]) auto

lemmas fold_eval = fold_constants_by_def fold_constant_at_def fold_operation_def constant_of_def constant_bit_def bit_lsb_def
  complement_bit_def replace_operation_result_with_constant_def validate_constant_replacement_def WordModule_value_def
  WordModule_operation_def upt_rec

theorem fold_constants_correct_witness:
  "\<exists>m'. fold_constants_by (\<lambda>_. True) fold_demo = (Inr (), m') \<and> readable m' \<and>
    map v_kind (wm_values m') = [ConstantValue [BitZero, BitOne], ConstantValue [BitOne, BitZero], ConstantValue [BitOne],
      SignalValue \<lparr>sr_signal = SignalId 0, sr_lsb = 0, sr_width = 2\<rparr>, OperationValue (OpId 2)]"
proof -
  obtain m' where m': "fold_constants_by (\<lambda>_. True) fold_demo = (Inr (), m')"
    and k: "map v_kind (wm_values m') = [ConstantValue [BitZero, BitOne], ConstantValue [BitOne, BitZero], ConstantValue [BitOne],
      SignalValue \<lparr>sr_signal = SignalId 0, sr_lsb = 0, sr_width = 2\<rparr>, OperationValue (OpId 2)]"
    by (simp add: fold_demo_def word_eval WordModule_extract_def with_width_def fold_eval)
  from fold_constants_correct [OF fold_demo_ok, of "\<lambda>_. True"] m' k show ?thesis by simp
qed

text \<open>A wire masked with zero, which only the analysis proves constant.\<close>

definition zero_demo :: WordModule
  where "zero_demo = fold word_step [CallWire (bits_ty 2 False), CallRead (SignalId 0), CallConstant [BitZero, BitZero] (bits_ty 2 False),
    CallBinary BitAnd (ValueId 0) (ValueId 1)] (WordModule_new ''zero'')"

lemma zero_demo_eq: "zero_demo = \<lparr>wm_names = [[], ''zero''], wm_ports = [],
   wm_signals = [\<lparr>sig_name = None, sig_kind = SignalWire, sig_ty = bits_ty 2 False, sig_resolution = SingleDriver\<rparr>],
   wm_memory_read_data = [],
   wm_values = [\<lparr>v_kind = SignalValue \<lparr>sr_signal = SignalId 0, sr_lsb = 0, sr_width = 2\<rparr>, v_ty = bits_ty 2 False\<rparr>,
     \<lparr>v_kind = ConstantValue [BitZero, BitZero], v_ty = bits_ty 2 False\<rparr>, \<lparr>v_kind = OperationValue (OpId 0), v_ty = bits_ty 2 False\<rparr>],
   wm_operations = [\<lparr>op_kind = OpBinary BitAnd (ValueId 0) (ValueId 1), op_result = ValueId (Suc (Suc 0))\<rparr>],
   wm_connects = []\<rparr>"
  by (simp add: zero_demo_def word_eval)

lemma zero_demo_ok: "module_ok zero_demo" "widths_ok zero_demo" "analysable zero_demo"
proof -
  show "module_ok zero_demo" unfolding zero_demo_def
    by (rule built_ok, rule built_fold [OF built_new]) (auto simp: Let_def)
  show "widths_ok zero_demo" by (simp add: widths_ok_def zero_demo_eq)
  show "analysable zero_demo"
    by (auto simp: analysable_def node_analysable_def zero_demo_eq node_width_def WordModule_value_def list_get_def less_Suc_eq
        split: FactNode.splits if_splits)
qed

definition zero_new :: KnownBitsAnalysis
  where "zero_new = \<lparr>an_values = [Uncomputed, Uncomputed, Uncomputed], an_signals = [Uncomputed], an_arena = [], an_dependents = [],
    an_drivers = \<lparr>sd_connects = \<lparr>pr_offsets = [0, 0], pr_values = []\<rparr>, sd_observed = 0, sd_appended = []\<rparr>,
    an_external = [False], an_observed_ports = 0\<rparr>"

lemma zero_new: "analysis_new zero_demo = Inr zero_new"
  by (simp add: zero_new_def zero_demo_eq rows_eval node_eval)

lemma zero_known: "\<exists>a. known_bits_of zero_demo (ValueId 2) zero_new = Inr (Some [BitZero, BitZero], a)"
proof -
  obtain r a where r: "derive_value zero_demo (ValueId 2) zero_new = Inr (Some r, a)" "fr_width r = 2"
      "fact_bit (an_arena a) r 0 = Zero" "fact_bit (an_arena a) r 1 = Zero"
    by (simp add: zero_new_def zero_demo_eq rows_eval node_eval fact_eval)
  moreover have "[0..<2] = [0, 1 :: nat]" by (simp add: upt_rec)
  ultimately show ?thesis using known_bits_of_small [OF r(1)] by (simp add: known_constant_def)
qed


text \<open>
  C31: a cast of a four-state value to a two-state type is a valid operation, but the pass stops with an
  error on a module in which its operand is an unknown constant.
\<close>

definition state_cast_demo :: WordModule
  where "state_cast_demo = fold word_step [CallConstant [BitX] \<lparr>ty_width = 1, ty_signed = False, ty_state = FourState\<rparr>,
    CallCast ZeroExtend (ValueId 0) (bits_ty 2 False)] (WordModule_new ''cast'')"


end
