(* ===== verification/Value_Numbering.thy ===== *)
theory Value_Numbering
  imports Constant_Fold
begin

text \<open>
  The numbering of values in \<^verbatim>\<open>crates/opto-synth/src/planning/dataflow/canonical.rs\<close>: a table names for every
  value of a word module a representative that always has the same bits. Values are interned under a key made
  of their operation and the representatives of its operands, and simple Boolean identities alias a
  result to an operand or a constant.
\<close>

section \<open>Keys\<close>

datatype ValueKey =
    KeySignal SignalRef WordType
  | KeyConstant "BitVal list" WordType
  | KeyUnary UnaryOp ValueId WordType
  | KeyBinary BinaryOp ValueId ValueId WordType
  | KeyMux ValueId ValueId ValueId WordType
  | KeyConcat "ValueId list" WordType
  | KeyExtract ValueId nat nat WordType
  | KeyDynamicExtract ValueId ValueId nat WordType
  | KeyDynamicInsert ValueId ValueId ValueId WordType
  | KeyCast CastKind ValueId WordType WordType

type_synonym interned = "nat \<times> ValueKey \<Rightarrow> ValueId option"

datatype AliasOrKey = IsAlias ValueId | HasKey nat ValueKey | IsUnique

section \<open>Boolean identities\<close>

definition unary_input :: "WordModule \<Rightarrow> ValueId \<Rightarrow> UnaryOp \<Rightarrow> ValueId option"
  where "unary_input m v expected =
    (case WordModule_value m v of None \<Rightarrow> None
     | Some x \<Rightarrow>
         (case v_kind x of
            OperationValue operation \<Rightarrow>
              (case WordModule_operation m operation of None \<Rightarrow> None
               | Some y \<Rightarrow> (case op_kind y of OpUnary op arg \<Rightarrow> if op = expected then Some arg else None | _ \<Rightarrow> None))
          | _ \<Rightarrow> None))"

definition binary_is_commutative :: "BinaryOp \<Rightarrow> bool"
  where "binary_is_commutative op \<longleftrightarrow> op \<in> {Add, Mul, BitAnd, BitOr, BitXor, LogicalAnd, LogicalOr, Eq, Ne}"

definition constant_is_zero :: "WordModule \<Rightarrow> ValueId \<Rightarrow> bool"
  where "constant_is_zero m v =
    (case constant_of m v of None \<Rightarrow> False | Some bits \<Rightarrow> list_all (\<lambda>b. b = BitZero) bits)"

definition has_type :: "WordModule \<Rightarrow> ValueId \<Rightarrow> WordType \<Rightarrow> bool"
  where "has_type m v ty = (case WordModule_value m v of None \<Rightarrow> False | Some x \<Rightarrow> v_ty x = ty)"

definition alias_if_typed :: "WordModule \<Rightarrow> WordType \<Rightarrow> ValueId \<Rightarrow> ValueId option"
  where "alias_if_typed m result_ty v = (if has_type m v result_ty then Some v else None)"

definition logical_complements :: "WordModule \<Rightarrow> ValueId \<Rightarrow> ValueId \<Rightarrow> ValueId list \<Rightarrow> bool"
  where "logical_complements m left right canonical =
    (let canonical_input = \<lambda>v. (case unary_input m v LogicalNot of None \<Rightarrow> None | Some inner \<Rightarrow> list_get canonical (ValueId_index inner))
     in canonical_input left = Some right \<or> canonical_input right = Some left)"

definition interned_boolean :: "interned \<Rightarrow> bool \<Rightarrow> WordType \<Rightarrow> ValueId option"
  where "interned_boolean interned b ty = interned (0, KeyConstant [if b then BitOne else BitZero] ty)"

text \<open>
  A conjunction absorbs at \<open>False\<close> and has the unit \<open>True\<close>; a disjunction the other way round.
\<close>

definition absorbing_alias ::
  "bool \<Rightarrow> WordModule \<Rightarrow> ValueId \<Rightarrow> ValueId \<Rightarrow> WordType \<Rightarrow> ValueId list \<Rightarrow> interned \<Rightarrow> ValueId option"
  where "absorbing_alias absorber m left right result_ty canonical interned =
    (if constant_bit m left = Some absorber then alias_if_typed m result_ty left
     else if constant_bit m right = Some absorber then alias_if_typed m result_ty right
     else if constant_bit m left = Some (\<not> absorber) then alias_if_typed m result_ty right
     else if constant_bit m right = Some (\<not> absorber) then alias_if_typed m result_ty left
     else if logical_complements m left right canonical then interned_boolean interned absorber result_ty
     else None)"

definition boolean_binary_alias ::
  "WordModule \<Rightarrow> BinaryOp \<Rightarrow> ValueId \<Rightarrow> ValueId \<Rightarrow> WordType \<Rightarrow> ValueId list \<Rightarrow> interned \<Rightarrow> ValueId option"
  where "boolean_binary_alias m op left right result_ty canonical interned =
    (if op = BitAnd \<or> op = LogicalAnd then absorbing_alias False m left right result_ty canonical interned
     else if op = BitOr \<or> op = LogicalOr then absorbing_alias True m left right result_ty canonical interned
     else None)"

section \<open>The representative of an operation\<close>

definition canonical_value :: "ValueId list \<Rightarrow> ValueId \<Rightarrow> SynthError + ValueId"
  where "canonical_value canonical v =
    (case list_get canonical (ValueId_index v) of
       None \<Rightarrow> Inl (Invariant ''operation references unknown value'') | Some r \<Rightarrow> Inr r)"

definition canonical_operation_unary ::
  "WordModule \<Rightarrow> UnaryOp \<Rightarrow> ValueId \<Rightarrow> WordType \<Rightarrow> ValueId list \<Rightarrow> nat \<Rightarrow> SynthError + AliasOrKey"
  where "canonical_operation_unary m op arg result_ty canonical scope =
    (let inner = if op = BitNot \<and> ty_state result_ty = TwoState then unary_input m arg BitNot else None
     in case inner of
       Some inner \<Rightarrow> rbind (canonical_value canonical inner) (\<lambda>v. Inr (IsAlias v))
     | None \<Rightarrow> Inr (HasKey scope (KeyUnary op arg result_ty)))"

definition canonical_operation_binary ::
  "WordModule \<Rightarrow> BinaryOp \<Rightarrow> ValueId \<Rightarrow> ValueId \<Rightarrow> WordType \<Rightarrow> ValueId list \<Rightarrow> nat \<Rightarrow> interned \<Rightarrow> AliasOrKey"
  where "canonical_operation_binary m op left_value right_value result_ty canonical scope interned =
    (let swap = binary_is_commutative op \<and> ValueId_index right_value < ValueId_index left_value;
       left = if swap then right_value else left_value;
       right = if swap then left_value else right_value;
       is_idempotent = (left = right \<and> (op = BitAnd \<or> op = BitOr));
       is_zero_shift = ((op = Shl \<or> op = Shr \<or> op = Ashr) \<and> constant_is_zero m right \<and> has_type m left result_ty)
     in case boolean_binary_alias m op left right result_ty canonical interned of
       Some v \<Rightarrow> IsAlias v
     | None \<Rightarrow>
         if is_idempotent \<or> is_zero_shift then IsAlias left
         else if op = Add \<or> op = Sub \<or> op = Mul then IsUnique
         else HasKey scope (KeyBinary op left right result_ty))"

definition canonical_operation_mux ::
  "WordModule \<Rightarrow> ValueId \<Rightarrow> ValueId \<Rightarrow> ValueId \<Rightarrow> WordType \<Rightarrow> ValueId list \<Rightarrow> nat \<Rightarrow> SynthError + AliasOrKey"
  where "canonical_operation_mux m cond then_value else_value result_ty canonical scope =
    (let key = HasKey scope (KeyMux cond then_value else_value result_ty);
       inverted = if constant_bit m then_value = Some False \<and> constant_bit m else_value = Some True
         then unary_input m cond LogicalNot else None
     in if then_value = else_value then Inr (IsAlias then_value)
       else if constant_bit m then_value = Some True \<and> constant_bit m else_value = Some False \<and> has_type m cond result_ty
       then Inr (IsAlias cond)
       else case inverted of
         Some inner \<Rightarrow> rbind (canonical_value canonical inner) (\<lambda>inner.
           Inr (if has_type m inner result_ty then IsAlias inner else key))
       | None \<Rightarrow>
           (case constant_bit m cond of
              Some False \<Rightarrow> Inr (IsAlias else_value)
            | Some True \<Rightarrow> Inr (IsAlias then_value)
            | None \<Rightarrow> Inr key))"

fun canonical_operation ::
  "WordModule \<Rightarrow> OpKind \<Rightarrow> WordType \<Rightarrow> ValueId list \<Rightarrow> nat \<Rightarrow> interned \<Rightarrow> SynthError + AliasOrKey"
  where
    "canonical_operation m (OpUnary op arg) ty canonical scope interned =
      rbind (canonical_value canonical arg) (\<lambda>arg. canonical_operation_unary m op arg ty canonical scope)"
  | "canonical_operation m (OpBinary op left right) ty canonical scope interned =
      rbind (canonical_value canonical left) (\<lambda>left. rbind (canonical_value canonical right) (\<lambda>right.
        Inr (canonical_operation_binary m op left right ty canonical scope interned)))"
  | "canonical_operation m (OpMux cond then_value else_value) ty canonical scope interned =
      rbind (canonical_value canonical cond) (\<lambda>cond. rbind (canonical_value canonical then_value) (\<lambda>then_value.
        rbind (canonical_value canonical else_value) (\<lambda>else_value.
          canonical_operation_mux m cond then_value else_value ty canonical scope)))"
  | "canonical_operation m (OpConcat parts) ty canonical scope interned =
      rbind (rmap (canonical_value canonical) parts) (\<lambda>parts.
        Inr (case parts of
            [part] \<Rightarrow> if has_type m part ty then IsAlias part else HasKey scope (KeyConcat parts ty)
          | _ \<Rightarrow> HasKey scope (KeyConcat parts ty)))"
  | "canonical_operation m (OpExtract v lsb width) ty canonical scope interned =
      rbind (canonical_value canonical v) (\<lambda>v.
        Inr (if lsb = 0 \<and> has_type m v ty then IsAlias v else HasKey scope (KeyExtract v lsb width ty)))"
  | "canonical_operation m (OpDynamicExtract v offset width) ty canonical scope interned =
      rbind (canonical_value canonical v) (\<lambda>v. rbind (canonical_value canonical offset) (\<lambda>offset.
        Inr (HasKey scope (KeyDynamicExtract v offset width ty))))"
  | "canonical_operation m (OpDynamicInsert v offset replacement) ty canonical scope interned =
      rbind (canonical_value canonical v) (\<lambda>v. rbind (canonical_value canonical offset) (\<lambda>offset.
        rbind (canonical_value canonical replacement) (\<lambda>replacement.
          Inr (HasKey scope (KeyDynamicInsert v offset replacement ty)))))"
  | "canonical_operation m (OpCast kind v target) ty canonical scope interned =
      rbind (canonical_value canonical v) (\<lambda>v.
        Inr (if has_type m v target then IsAlias v else HasKey scope (KeyCast kind v target ty)))"
  | "canonical_operation m (OpTriState _ _) ty canonical scope interned = Inr IsUnique"
  | "canonical_operation m (OpRegister _) ty canonical scope interned = Inr IsUnique"
  | "canonical_operation m (OpLatch _) ty canonical scope interned = Inr IsUnique"

section \<open>The numbering\<close>

definition apply_key :: "nat \<Rightarrow> ValueId \<Rightarrow> AliasOrKey \<Rightarrow> ValueId list \<times> interned \<Rightarrow> ValueId list \<times> interned"
  where "apply_key index v k = (\<lambda>(canonical, interned).
    (case k of
       IsAlias a \<Rightarrow> (canonical[index := a], interned)
     | HasKey scope key \<Rightarrow>
         (case interned (scope, key) of
            Some representative \<Rightarrow> (canonical[index := representative], interned)
          | None \<Rightarrow> (canonical, interned((scope, key) \<mapsto> v)))
     | IsUnique \<Rightarrow> (canonical, interned)))"

definition number_value ::
  "WordModule \<Rightarrow> (OpId \<Rightarrow> nat option) \<Rightarrow> nat \<Rightarrow> ValueId list \<times> interned \<Rightarrow> (ValueId list \<times> interned, SynthError, unit) outcome"
  where "number_value m operation_scope index = (\<lambda>(canonical, interned).
    let s = (canonical, interned) in
    (case ValueId_from_index index of Inl e \<Rightarrow> (Inl e, s)
     | Inr v \<Rightarrow>
       (case list_get canonical index of None \<Rightarrow> (Inl (Panic ''index out of bounds''), s)
        | Some c \<Rightarrow>
          if c \<noteq> v then (Inr (), s)
          else (case WordModule_value m v of None \<Rightarrow> (Inl (Invariant ''unknown value''), s)
            | Some x \<Rightarrow>
              (case v_kind x of
                 SignalValue reference \<Rightarrow> (Inr (), apply_key index v (HasKey 0 (KeySignal reference (v_ty x))) s)
               | ConstantValue bits \<Rightarrow> (Inr (), apply_key index v (HasKey 0 (KeyConstant bits (v_ty x))) s)
               | OperationValue op \<Rightarrow>
                   (case WordModule_operation m op of None \<Rightarrow> (Inl (Invariant ''unknown operation''), s)
                    | Some y \<Rightarrow>
                      (case operation_scope op of None \<Rightarrow> (Inr (), s)
                       | Some scope \<Rightarrow>
                         (case canonical_operation m (op_kind y) (v_ty x) canonical scope interned of
                            Inl e \<Rightarrow> (Inl e, s)
                          | Inr k \<Rightarrow> (Inr (), apply_key index v k s))))))))) "

definition canonicalize_values_by ::
  "(OpId \<Rightarrow> nat option) \<Rightarrow> WordModule \<times> ValueId list \<Rightarrow> (WordModule \<times> ValueId list, SynthError, unit) outcome"
  where "canonicalize_values_by operation_scope = (\<lambda>(m, canonical).
    let permit = \<lambda>op. operation_scope op \<noteq> None in
    (case sbind (fold_constants_by permit m) (\<lambda>_. fold_known_values_by permit) of
       (Inl e, m) \<Rightarrow> (Inl e, m, canonical)
     | (Inr _, m) \<Rightarrow>
         (case sfor (number_value m operation_scope) [0..<length (wm_values m)] (canonical, \<lambda>_. None) of
            (r, canonical, interned) \<Rightarrow> (r, m, canonical))))"

definition canonicalize_values :: "WordModule \<times> ValueId list \<Rightarrow> (WordModule \<times> ValueId list, SynthError, unit) outcome"
  where "canonicalize_values = canonicalize_values_by (\<lambda>_. Some 1)"

section \<open>Laws of the binary operations\<close>

lemma map2_commute: "(\<And>x y. f x y = f y x) \<Longrightarrow> map2 f xs ys = map2 f ys xs"
  by (induction xs ys rule: list_induct2') auto

lemma word_binary_commute:
  assumes "binary_is_commutative op"
  shows "word_binary op ty a b = word_binary op ty b a"
proof -
  have "bitwise_fun op x y = bitwise_fun op y x" for x y by (auto simp: bitwise_fun_def)
  note swap = map2_commute [of "bitwise_fun op", OF this]
  from assms consider "op \<in> {BitAnd, BitOr, BitXor}" | "op \<in> {Add, Mul}" | "op \<in> {LogicalAnd, LogicalOr, Eq, Ne}"
    by (auto simp: binary_is_commutative_def)
  then show ?thesis
  proof cases
    case 1
    then show ?thesis by (simp add: word_binary_def Let_def swap [of "extend_bool a (ty_width ty) (ty_signed ty)"])
  next
    case 2
    then show ?thesis by (auto simp: word_binary_def Let_def algebra_simps)
  next
    case 3
    then show ?thesis by (auto simp: word_binary_def Let_def conj_commute)
  qed
qed

lemma state_merge_commute: "state_merge s t = state_merge t s"
  by (cases s; cases t) (simp_all add: state_merge_def)

lemma binary_type_commute: "binary_is_commutative op \<Longrightarrow> binary_type op t u = binary_type op u t"
  by (auto simp: binary_is_commutative_def binary_type_def Let_def state_merge_commute [of "ty_state t"] max.commute conj_commute)

text \<open>Absorbing element, unit and complement, for an operation absorbing at \<open>z\<close>.\<close>

definition absorbing :: "BinaryOp \<Rightarrow> bool \<Rightarrow> bool"
  where "absorbing op z \<longleftrightarrow> op \<in> {BitAnd, LogicalAnd} \<and> \<not> z \<or> op \<in> {BitOr, LogicalOr} \<and> z"

lemma absorbing_commutative: "absorbing op z \<Longrightarrow> binary_is_commutative op"
  by (auto simp: absorbing_def binary_is_commutative_def)

lemma absorbing_bitwise: "absorbing op z \<Longrightarrow> op \<in> {BitAnd, BitOr} \<Longrightarrow> bitwise_fun op x y = (if x = z then z else y)"
  by (auto simp: absorbing_def bitwise_fun_def)

lemma word_binary_absorbing:
  assumes "absorbing op z"
  shows "word_binary op ty a b = (if op \<in> {BitAnd, BitOr}
    then map2 (\<lambda>x y. if x = z then z else y) (extend_bool a (ty_width ty) (ty_signed ty)) (extend_bool b (ty_width ty) (ty_signed ty))
    else [if (True \<in> set (fst a)) = z then z else True \<in> set (fst b)])"
  using assms absorbing_bitwise [OF assms] by (auto simp: word_binary_def absorbing_def Let_def)

lemma bits_one: "length bs = Suc 0 \<longleftrightarrow> (\<exists>x. bs = [x])"
  by (auto simp: length_Suc_conv)

lemma absorb_left:
  assumes "absorbing op z" and "ty_width ty = 1"
  shows "word_binary op ty ([z], ta) (b, tb) = [z]"
proof -
  obtain y where "extend_bool (b, tb) 1 (ty_signed ty) = [y]"
    using bits_one [of "extend_bool (b, tb) 1 (ty_signed ty)"] by auto
  then show ?thesis
    by (simp add: word_binary_absorbing [OF assms(1)] extend_bool_same assms(2))
qed

lemma unit_left:
  assumes "absorbing op z" and "length b = ty_width ty" and "op \<in> {LogicalAnd, LogicalOr} \<Longrightarrow> ty_width ty = 1"
    and "op = BitAnd \<Longrightarrow> ty_width ty = 1 \<or> ty_signed ty \<and> ty_signed ta"
  shows "word_binary op ty ([\<not> z], ta) (b, tb) = b"
proof (cases "op \<in> {BitAnd, BitOr}")
  case True
  have "extend_bool ([\<not> z], ta) (ty_width ty) (ty_signed ty) ! i = (\<not> z)" if "i < ty_width ty" for i
    using assms(1,4) that True by (cases i) (auto simp: extend_bool_def absorbing_def)
  then show ?thesis using True assms(2)
    by (intro nth_equalityI) (auto simp: word_binary_absorbing [OF assms(1)] extend_bool_same)
next
  case False
  then have "op \<in> {LogicalAnd, LogicalOr}" using assms(1) by (auto simp: absorbing_def)
  then obtain x where "b = [x]" using assms(2,3) by (auto simp: bits_one)
  with False show ?thesis by (auto simp: word_binary_absorbing [OF assms(1)])
qed

lemma complement_left:
  assumes "absorbing op z" and "ty_width ty = 1" and "op \<in> {BitAnd, BitOr} \<Longrightarrow> length b = 1"
  shows "word_binary op ty ([bits_val b = 0], ta) (b, tb) = [z]"
proof (cases "op \<in> {BitAnd, BitOr}")
  case True
  then obtain x where "b = [x]" using assms(3) by (auto simp: bits_one)
  with True show ?thesis using assms(1,2) by (auto simp: word_binary_absorbing [OF assms(1)] extend_bool_same)
next
  case False
  then show ?thesis using assms(1) by (auto simp: word_binary_absorbing [OF assms(1)] bits_val_zero)
qed

section \<open>What keys and aliases mean\<close>

text \<open>Constants with the same bits and type have the same value, their unknown bits included.\<close>

definition uniform :: "WordModule \<Rightarrow> (nat \<Rightarrow> bool list) \<Rightarrow> bool"
  where "uniform m val \<longleftrightarrow> (\<forall>i < length (wm_values m). \<forall>j < length (wm_values m). \<forall>bits.
    v_kind (wm_values m ! i) = ConstantValue bits \<longrightarrow> wm_values m ! j = wm_values m ! i \<longrightarrow> val j = val i)"

fun key_type :: "ValueKey \<Rightarrow> WordType"
  where
    "key_type (KeySignal _ ty) = ty" | "key_type (KeyConstant _ ty) = ty" | "key_type (KeyUnary _ _ ty) = ty"
  | "key_type (KeyBinary _ _ _ ty) = ty" | "key_type (KeyMux _ _ _ ty) = ty" | "key_type (KeyConcat _ ty) = ty"
  | "key_type (KeyExtract _ _ _ ty) = ty" | "key_type (KeyDynamicExtract _ _ _ ty) = ty"
  | "key_type (KeyDynamicInsert _ _ _ ty) = ty" | "key_type (KeyCast _ _ _ ty) = ty"

fun key_means :: "WordModule \<Rightarrow> (nat \<Rightarrow> bool list) \<Rightarrow> ValueKey \<Rightarrow> nat \<Rightarrow> bool"
  where
    "key_means m val (KeySignal ref ty) i \<longleftrightarrow> v_kind (wm_values m ! i) = SignalValue ref"
  | "key_means m val (KeyConstant bits ty) i \<longleftrightarrow> v_kind (wm_values m ! i) = ConstantValue bits"
  | "key_means m val (KeyUnary op a ty) i \<longleftrightarrow> op_sem m val (OpUnary op a) ty (val i)"
  | "key_means m val (KeyBinary op a b ty) i \<longleftrightarrow> op_sem m val (OpBinary op a b) ty (val i)"
  | "key_means m val (KeyMux c a b ty) i \<longleftrightarrow> op_sem m val (OpMux c a b) ty (val i)"
  | "key_means m val (KeyConcat ps ty) i \<longleftrightarrow> op_sem m val (OpConcat ps) ty (val i)"
  | "key_means m val (KeyExtract a lsb w ty) i \<longleftrightarrow> op_sem m val (OpExtract a lsb w) ty (val i)"
  | "key_means m val (KeyDynamicExtract a b w ty) i \<longleftrightarrow> op_sem m val (OpDynamicExtract a b w) ty (val i)"
  | "key_means m val (KeyDynamicInsert a b c ty) i \<longleftrightarrow> op_sem m val (OpDynamicInsert a b c) ty (val i)"
  | "key_means m val (KeyCast k a t ty) i \<longleftrightarrow> op_sem m val (OpCast k a t) ty (val i)"

definition named :: "WordModule \<Rightarrow> (nat \<Rightarrow> bool list) \<Rightarrow> ValueKey \<Rightarrow> nat \<Rightarrow> bool"
  where "named m val key i \<longleftrightarrow> i < length (wm_values m) \<and> v_ty (wm_values m ! i) = key_type key \<and> key_means m val key i"

lemma named_unique:
  assumes "valuation m val sig" "uniform m val" and "named m val key i" "named m val key j"
  shows "val i = val j" and "v_ty (wm_values m ! i) = v_ty (wm_values m ! j)"
proof -
  show "v_ty (wm_values m ! i) = v_ty (wm_values m ! j)" using assms(3,4) by (simp add: named_def)
  have sem: "value_sem m val sig (wm_values m ! i) (val i)" "value_sem m val sig (wm_values m ! j) (val j)"
    using assms(1,3,4) by (auto simp: valuation_def named_def)
  show "val i = val j"
  proof (cases key)
    case (KeySignal ref ty)
    with assms(3,4) sem show ?thesis by (simp add: named_def value_sem_def)
  next
    case (KeyConstant bits ty)
    with assms(3,4) have "wm_values m ! i = wm_values m ! j" "v_kind (wm_values m ! j) = ConstantValue bits"
      by (simp_all add: named_def)
    with assms(2-4) show ?thesis unfolding uniform_def named_def by metis
  qed (use assms(3,4) in \<open>simp_all add: named_def\<close>)
qed

text \<open>Value \<open>i\<close> has what the alias or key says.\<close>

fun describes :: "WordModule \<Rightarrow> (nat \<Rightarrow> bool list) \<Rightarrow> nat \<Rightarrow> AliasOrKey \<Rightarrow> bool"
  where
    "describes m val i (IsAlias a) \<longleftrightarrow> value_ty m a = Inr (v_ty (wm_values m ! i)) \<and> val (ValueId_index a) = val i"
  | "describes m val i (HasKey scope key) \<longleftrightarrow> named m val key i"
  | "describes m val i IsUnique \<longleftrightarrow> True"

definition numbered :: "WordModule \<Rightarrow> (nat \<Rightarrow> bool list) \<Rightarrow> ValueId list \<times> interned \<Rightarrow> bool"
  where "numbered m val = (\<lambda>(canonical, interned). replacements_ok m canonical \<and> replacements_agree val canonical \<and>
    (\<forall>scope key v. interned (scope, key) = Some v \<longrightarrow> named m val key (ValueId_index v)))"

lemma apply_key_numbered:
  assumes "valuation m val sig" "uniform m val" "numbered m val s" and i: "i < length (wm_values m)" and "describes m val i k"
  shows "numbered m val (apply_key i (ValueId i) k s)"
proof -
  obtain canonical interned where s: "s = (canonical, interned)" by (cases s)
  with assms(3) have n: "replacements_ok m canonical" "replacements_agree val canonical" "\<And>scope key v. interned (scope, key) = Some v \<Longrightarrow> named m val key (ValueId_index v)"
    by (auto simp: numbered_def)
  have set: "replacements_ok m (canonical[i := a]) \<and> replacements_agree val (canonical[i := a])"
    if "ValueId_index a < length (wm_values m)" "v_ty (wm_values m ! ValueId_index a) = v_ty (wm_values m ! i)" "val (ValueId_index a) = val i" for a
    using n(1,2) i that by (auto simp: replacements_ok_def replacements_agree_def nth_list_update)
  show ?thesis
  proof (cases k)
    case (IsAlias a)
    with assms(5) set [of a] n(3) s show ?thesis by (auto simp: numbered_def apply_key_def value_ty_Inr)
  next
    case (HasKey scope key)
    show ?thesis
    proof (cases "interned (scope, key)")
      case None
      with HasKey assms(5) n s show ?thesis by (auto simp: numbered_def apply_key_def)
    next
      case (Some v)
      with HasKey assms(5) have "named m val key (ValueId_index v)" "named m val key i" using n(3) by auto
      with named_unique [OF assms(1,2) this] set [of v] n(3) s HasKey Some show ?thesis
        by (auto simp: numbered_def apply_key_def named_def)
    qed
  qed (use s n in \<open>simp add: numbered_def apply_key_def\<close>)
qed

section \<open>Reading the module\<close>

lemma has_type_iff: "has_type m v ty \<longleftrightarrow> value_ty m v = Inr ty"
  by (auto simp: has_type_def value_ty_def WordModule_value_def split: option.splits)

lemma value_ty_operand:
  assumes "value_ty m v = Inr t"
  shows "operand_of m val v = (val (ValueId_index v), t)" and "valuation m val sig \<Longrightarrow> length (val (ValueId_index v)) = ty_width t"
  using assms by (auto simp: value_ty_Inr operand_of_def valuation_def)

lemma constant_bit_value:
  assumes "valuation m val sig" and "constant_bit m v = Some b"
  shows "val (ValueId_index v) = [b]"
proof -
  obtain x where x: "constant_of m v = Some [x]" "x = (if b then BitOne else BitZero)"
    using assms(2) by (auto simp: constant_bit_def bit_lsb_def length_Suc_conv split: option.splits if_splits BitVal.splits)
  from constant_of_sound [OF assms(1) x(1)] show ?thesis
    by (auto simp: constant_sem_iff x(2) list_all2_Cons1 split: if_splits)
qed

lemma unary_input_sound:
  assumes "readable m" "valuation m val sig" and "unary_input m v op = Some inner"
  obtains t u where "value_ty m v = Inr t" and "value_ty m inner = Inr u" and "unary_type op u = Inr t"
    and "val (ValueId_index v) = unary_val op (val (ValueId_index inner))"
proof -
  obtain p y where i: "ValueId_index v < length (wm_values m)" and k: "v_kind (wm_values m ! ValueId_index v) = OperationValue p"
    and y: "WordModule_operation m p = Some y" "op_kind y = OpUnary op inner"
    using assms(3) by (auto simp: unary_input_def WordModule_value_def list_get_def split: option.splits ValueKind.splits OpKind.splits if_splits)
  obtain x where x: "wm_operations m ! OpId_index p = x" "WordModule_operation m p = Some x"
      "operation_type m (op_kind x) = Inr (v_ty (wm_values m ! ValueId_index v))"
    by (rule operation_value_typed [OF assms(1) i k])
  have "x = y" using x(2) y(1) by simp
  with x(3) y(2) obtain u where u: "value_ty m inner = Inr u" "unary_type op u = Inr (v_ty (wm_values m ! ValueId_index v))"
    by (auto simp: rbind_eq_Inr)
  have "val (ValueId_index v) = unary_val op (val (ValueId_index inner))"
    using value_op [OF i k assms(2)] y(2) by (simp add: x(1) \<open>x = y\<close>)
  with u i show thesis by (intro that) (auto simp: value_ty_Inr)
qed

lemma canonical_value_ok:
  assumes "numbered m val (canonical, interned)" and "canonical_value canonical v = Inr w"
  shows "value_ty m w = value_ty m v" "val (ValueId_index w) = val (ValueId_index v)"
proof -
  have "replacement_of canonical v = Inr w" using assms(2) by (simp add: canonical_value_def replacement_of_def split: option.splits)
  with assms(1) replacement_ok(3,4) [of m canonical v w] show "value_ty m w = value_ty m v" "val (ValueId_index w) = val (ValueId_index v)"
    by (auto simp: numbered_def)
qed

lemma canonical_value_exists:
  assumes "numbered m val (canonical, interned)" and "value_ty m v = Inr t"
  obtains w where "canonical_value canonical v = Inr w"
  using assms by (auto simp: numbered_def replacements_ok_def canonical_value_def list_get_def value_ty_Inr)

section \<open>Aliases of Boolean operations\<close>

text \<open>
  A bitwise conjunction of a one-bit operand with a wider one is excluded unless both are signed: there
  the sources take the operand one for all ones.
\<close>

definition mask_widths_ok :: "WordModule \<Rightarrow> OpKind \<Rightarrow> bool"
  where "mask_widths_ok m k \<longleftrightarrow> (\<forall>a b ta tb. k = OpBinary BitAnd a b \<longrightarrow> value_ty m a = Inr ta \<longrightarrow> value_ty m b = Inr tb \<longrightarrow>
    (ty_width ta = 1) = (ty_width tb = 1) \<or> ty_signed ta \<and> ty_signed tb)"

lemma mask_widths_swap: "mask_widths_ok m (OpBinary op a b) \<Longrightarrow> mask_widths_ok m (OpBinary op b a)"
  unfolding mask_widths_ok_def by (metis OpKind.inject(2))

lemma binary_type_absorbing:
  assumes "absorbing op z" and "binary_type op ta tb = Inr ty"
  shows "op \<in> {BitAnd, BitOr} \<Longrightarrow> ty_width ty = max (ty_width ta) (ty_width tb) \<and> ty_signed ty = (ty_signed ta \<and> ty_signed tb)"
    and "op \<in> {LogicalAnd, LogicalOr} \<Longrightarrow> ty_width ty = 1"
  using assms by (auto simp: absorbing_def binary_type_def Let_def WordType_new_def split: if_splits)

lemma absorbing_ops: "absorbing op z \<Longrightarrow> op \<in> {BitAnd, BitOr} \<or> op \<in> {LogicalAnd, LogicalOr}"
  by (auto simp: absorbing_def)

lemma absorbing_left_cases:
  assumes ok: "readable m" and v: "valuation m val sig" and z: "absorbing op z" and l: "value_ty m l = Inr ta" and r: "value_ty m r = Inr tb"
    and ty: "binary_type op ta tb = Inr ty" and mask: "mask_widths_ok m (OpBinary op l r)"
  shows "constant_bit m l = Some z \<Longrightarrow> ta = ty \<Longrightarrow> word_binary op ty (operand_of m val l) (operand_of m val r) = val (ValueId_index l)"
    and "constant_bit m l = Some (\<not> z) \<Longrightarrow> tb = ty \<Longrightarrow> word_binary op ty (operand_of m val l) (operand_of m val r) = val (ValueId_index r)"
    and "val (ValueId_index l) = [bits_val (val (ValueId_index r)) = 0] \<Longrightarrow> ty_width ty = 1 \<Longrightarrow>
      word_binary op ty (operand_of m val l) (operand_of m val r) = [z]"
proof -
  note len = value_ty_operand(2) [OF l v] value_ty_operand(2) [OF r v]
  note ops = value_ty_operand(1) [OF l] value_ty_operand(1) [OF r]
  note types = binary_type_absorbing [OF z ty] absorbing_ops [OF z]
  show "word_binary op ty (operand_of m val l) (operand_of m val r) = val (ValueId_index l)" if "constant_bit m l = Some z" "ta = ty"
    using constant_bit_value [OF v that(1)] len(1) absorb_left [OF z, of ty] that(2) by (simp add: ops)
  show "word_binary op ty (operand_of m val l) (operand_of m val r) = val (ValueId_index r)" if "constant_bit m l = Some (\<not> z)" "tb = ty"
  proof -
    have one: "val (ValueId_index l) = [\<not> z]" by (rule constant_bit_value [OF v that(1)])
    have "ty_width ty = 1 \<or> ty_signed ty \<and> ty_signed ta" if "op = BitAnd"
    proof -
      have "(ty_width ta = 1) = (ty_width tb = 1) \<or> ty_signed ta \<and> ty_signed tb"
        using mask l r that by (simp add: mask_widths_ok_def)
      moreover have "ty_width ta = 1" using len(1) one by simp
      moreover have "ty_signed ty = (ty_signed ta \<and> ty_signed tb)" using types(1) that by simp
      ultimately show ?thesis unfolding \<open>tb = ty\<close> by blast
    qed
    then show ?thesis unfolding ops one using len(2) that(2) types(2) by (intro unit_left [OF z]) auto
  qed
  show "word_binary op ty (operand_of m val l) (operand_of m val r) = [z]"
    if "val (ValueId_index l) = [bits_val (val (ValueId_index r)) = 0]" "ty_width ty = 1"
    unfolding ops that(1)
  proof (rule complement_left [OF z that(2)])
    assume "op \<in> {BitAnd, BitOr}"
    with types(1) that(2) len have "ty_width tb \<le> 1" "ty_width ta \<le> 1" by auto
    moreover have "0 < ty_width tb" using ok r by (auto simp: readable_def types_ok_def value_ty_Inr)
    ultimately show "length (val (ValueId_index r)) = 1" using len(2) by simp
  qed
qed

lemma interned_boolean_sound:
  assumes "valuation m val sig" "numbered m val (canonical, interned)" and "interned_boolean interned z ty = Some a" and "readable m"
  shows "value_ty m a = Inr ty" "val (ValueId_index a) = [z]" "ty_width ty = 1"
proof -
  have a: "named m val (KeyConstant [if z then BitOne else BitZero] ty) (ValueId_index a)"
    using assms(2,3) unfolding numbered_def interned_boolean_def by blast
  then show t: "value_ty m a = Inr ty" by (simp add: named_def value_ty_Inr)
  have c: "constant_of m a = Some [if z then BitOne else BitZero]"
    using a by (simp add: constant_of_def named_def WordModule_value_def list_get_def)
  from constant_of_sound [OF assms(1) c] show one: "val (ValueId_index a) = [z]"
    by (auto simp: constant_sem_iff list_all2_Cons1 split: if_splits)
  with value_ty_operand(2) [OF t assms(1)] show "ty_width ty = 1" by simp
qed

lemma absorbing_alias_describes:
  assumes ok: "readable m" and v: "valuation m val sig" and n: "numbered m val (canonical, interned)" and z: "absorbing op z"
    and l: "value_ty m l = Inr ta" and r: "value_ty m r = Inr tb" and ty: "binary_type op ta tb = Inr ty"
    and mask: "mask_widths_ok m (OpBinary op l r)"
    and sem: "word_binary op ty (operand_of m val l) (operand_of m val r) = val i" and i: "v_ty (wm_values m ! i) = ty"
    and a: "absorbing_alias z m l r ty canonical interned = Some a"
  shows "describes m val i (IsAlias a)"
proof -
  note comm = absorbing_commutative [OF z]
  have ty': "binary_type op tb ta = Inr ty" using ty binary_type_commute [OF comm] by simp
  have sem': "word_binary op ty (operand_of m val r) (operand_of m val l) = val i" using sem word_binary_commute [OF comm] by simp
  have mask': "mask_widths_ok m (OpBinary op r l)" by (rule mask_widths_swap [OF mask])
  note left = absorbing_left_cases [OF ok v z l r ty mask] and right = absorbing_left_cases [OF ok v z r l ty' mask']
  have typed: "value_ty m x = Inr ty \<and> a = x" if "alias_if_typed m ty x = Some a" for x
    using that by (auto simp: alias_if_typed_def has_type_iff split: if_splits)
  have complement: "describes m val i (IsAlias a)"
    if "interned_boolean interned z ty = Some a" "val (ValueId_index l) = [bits_val (val (ValueId_index r)) = 0] \<or>
      val (ValueId_index r) = [bits_val (val (ValueId_index l)) = 0]"
    using interned_boolean_sound [OF v n that(1) ok] that(2) left(3) right(3) sem sem' i by auto
  have not: "val (ValueId_index x) = [bits_val (val (ValueId_index y)) = 0]"
    if "unary_input m x LogicalNot = Some inner" "list_get canonical (ValueId_index inner) = Some y" for x y inner
  proof -
    have "canonical_value canonical inner = Inr y" using that(2) by (simp add: canonical_value_def)
    from canonical_value_ok(2) [OF n this] unary_input_sound [OF ok v that(1)] show ?thesis by auto
  qed
  from a consider (c1) "constant_bit m l = Some z" "alias_if_typed m ty l = Some a" | (c2) "constant_bit m r = Some z" "alias_if_typed m ty r = Some a"
    | (c3) "constant_bit m l = Some (\<not> z)" "alias_if_typed m ty r = Some a" | (c4) "constant_bit m r = Some (\<not> z)" "alias_if_typed m ty l = Some a"
    | (c5) "logical_complements m l r canonical" "interned_boolean interned z ty = Some a"
    by (auto simp: absorbing_alias_def split: if_splits)
  then show ?thesis
  proof cases
    case c1
    with typed l left(1) sem i show ?thesis by auto
  next
    case c2
    with typed r right(1) sem' i show ?thesis by auto
  next
    case c3
    with typed r left(2) sem i show ?thesis by auto
  next
    case c4
    with typed l right(2) sem' i show ?thesis by auto
  next
    case c5
    then have "val (ValueId_index l) = [bits_val (val (ValueId_index r)) = 0] \<or> val (ValueId_index r) = [bits_val (val (ValueId_index l)) = 0]"
      using not by (auto simp: logical_complements_def Let_def split: option.splits)
    with complement c5(2) show ?thesis by blast
  qed
qed

section \<open>The representative of an operation is right\<close>

lemma canonical_operation_unary_describes:
  assumes ok: "readable m" and v: "valuation m val sig" and n: "numbered m val (canonical, interned)"
    and t: "value_ty m a = Inr t" "unary_type op t = Inr (v_ty (wm_values m ! i))" and i: "i < length (wm_values m)"
    and sem: "op_sem m val (OpUnary op a) (v_ty (wm_values m ! i)) (val i)"
  shows "\<exists>k. canonical_operation_unary m op a (v_ty (wm_values m ! i)) canonical scope = Inr k \<and> describes m val i k"
proof (cases "if op = BitNot \<and> ty_state (v_ty (wm_values m ! i)) = TwoState then unary_input m a BitNot else None")
  case None
  then have "canonical_operation_unary m op a (v_ty (wm_values m ! i)) canonical scope = Inr (HasKey scope (KeyUnary op a (v_ty (wm_values m ! i))))"
    by (simp only: canonical_operation_unary_def Let_def) simp
  with sem i show ?thesis by (simp add: named_def)
next
  case (Some inner)
  then have op: "op = BitNot" and inner: "unary_input m a BitNot = Some inner" by (auto split: if_splits)
  from unary_input_sound [OF ok v inner] obtain u where
    u: "value_ty m a = Inr u" "value_ty m inner = Inr u" "val (ValueId_index a) = map Not (val (ValueId_index inner))"
    by (auto simp: unary_type_def)
  obtain w where w: "canonical_value canonical inner = Inr w" by (rule canonical_value_exists [OF n u(2)])
  have "describes m val i (IsAlias w)"
    using canonical_value_ok [OF n w] u t op sem by (simp add: unary_type_def comp_def)
  moreover have "canonical_operation_unary m op a (v_ty (wm_values m ! i)) canonical scope = Inr (IsAlias w)"
    using Some w by (simp only: canonical_operation_unary_def Let_def) simp
  ultimately show ?thesis by blast
qed

lemma boolean_binary_alias_absorbing:
  assumes "boolean_binary_alias m op l r ty canonical interned = Some a"
  obtains z where "absorbing op z" and "absorbing_alias z m l r ty canonical interned = Some a"
proof (cases "op = BitAnd \<or> op = LogicalAnd")
  case True
  with assms that [of False] show thesis by (auto simp: boolean_binary_alias_def absorbing_def)
next
  case False
  with assms have "op = BitOr \<or> op = LogicalOr" by (auto simp: boolean_binary_alias_def split: if_splits)
  with False assms that [of True] show thesis by (auto simp: boolean_binary_alias_def absorbing_def)
qed

lemma zero_shift_sound:
  assumes "readable m" and v: "valuation m val sig" and l: "value_ty m l = Inr ty" and "constant_is_zero m r" and "op \<in> {Shl, Shr, Ashr}"
  shows "word_binary op ty (operand_of m val l) (operand_of m val r) = val (ValueId_index l)"
proof -
  obtain bits where bits: "constant_of m r = Some bits" "list_all (\<lambda>b. b = BitZero) bits"
    using assms(4) by (auto simp: constant_is_zero_def split: option.splits)
  have "list_all2 bit_fits (rev bits) (val (ValueId_index r))"
    using constant_of_sound [OF v bits(1)] by (simp add: constant_sem_iff)
  then have "bits_val (val (ValueId_index r)) = 0" using bits_fit_sets(3) [of "rev bits"] bits(2) by (simp add: bits_val_zero list_all_iff)
  moreover have "shift_by op sg 0 bs = bs" for sg bs using assms(5) by (auto simp: shift_by_def)
  moreover have "extend_bool (operand_of m val l) (ty_width ty) (ty_signed ty) = val (ValueId_index l)"
    using value_ty_operand [OF l] v by (simp add: extend_bool_same)
  moreover have "fst (operand_of m val r) = val (ValueId_index r)" by (simp add: operand_of_def)
  ultimately show ?thesis using assms(5) by (auto simp: word_binary_def Let_def)
qed

lemma idempotent_sound:
  assumes v: "valuation m val sig" and l: "value_ty m l = Inr t" and ty: "binary_type op t t = Inr ty" and "op \<in> {BitAnd, BitOr}"
  shows "word_binary op ty (operand_of m val l) (operand_of m val l) = val (ValueId_index l)" and "ty = t"
proof -
  show "ty = t" using ty assms(4) by (cases "ty_state t") (auto simp: binary_type_def WordType_new_def Let_def state_merge_def split: if_splits)
  then have "extend_bool (operand_of m val l) (ty_width ty) (ty_signed ty) = val (ValueId_index l)"
    using value_ty_operand [OF l] v by (simp add: extend_bool_same)
  moreover have "map2 (bitwise_fun op) bs bs = bs" for bs using assms(4) by (induction bs) (auto simp: bitwise_fun_def)
  ultimately show "word_binary op ty (operand_of m val l) (operand_of m val l) = val (ValueId_index l)"
    using assms(4) by (auto simp: word_binary_def Let_def)
qed

lemma canonical_operation_binary_describes:
  assumes ok: "readable m" and v: "valuation m val sig" and n: "numbered m val (canonical, interned)"
    and t: "value_ty m a = Inr ta" "value_ty m b = Inr tb" "binary_type op ta tb = Inr (v_ty (wm_values m ! i))"
    and i: "i < length (wm_values m)" and mask: "mask_widths_ok m (OpBinary op a b)"
    and sem: "op_sem m val (OpBinary op a b) (v_ty (wm_values m ! i)) (val i)"
  shows "describes m val i (canonical_operation_binary m op a b (v_ty (wm_values m ! i)) canonical scope interned)"
proof -
  let ?ty = "v_ty (wm_values m ! i)"
  define swap where "swap \<longleftrightarrow> binary_is_commutative op \<and> ValueId_index b < ValueId_index a"
  define l r where "l = (if swap then b else a)" and "r = (if swap then a else b)"
  have comm: "swap \<Longrightarrow> binary_is_commutative op" by (simp add: swap_def)
  obtain tl' tr' where lr: "value_ty m l = Inr tl'" "value_ty m r = Inr tr'" "binary_type op tl' tr' = Inr ?ty"
    using t binary_type_commute [OF comm] by (cases swap) (auto simp: l_def r_def)
  have mask': "mask_widths_ok m (OpBinary op l r)"
    using mask mask_widths_swap [OF mask] by (simp add: l_def r_def)
  have sem': "word_binary op ?ty (operand_of m val l) (operand_of m val r) = val i"
    using sem word_binary_commute [OF comm] by (cases swap) (auto simp: l_def r_def)
  have eq: "canonical_operation_binary m op a b ?ty canonical scope interned =
    (case boolean_binary_alias m op l r ?ty canonical interned of
       Some v \<Rightarrow> IsAlias v
     | None \<Rightarrow>
         if l = r \<and> (op = BitAnd \<or> op = BitOr) \<or> (op = Shl \<or> op = Shr \<or> op = Ashr) \<and> constant_is_zero m r \<and> has_type m l ?ty then IsAlias l
         else if op = Add \<or> op = Sub \<or> op = Mul then IsUnique
         else HasKey scope (KeyBinary op l r ?ty))"
    by (simp only: canonical_operation_binary_def Let_def l_def r_def swap_def)
  show ?thesis
  proof (cases "boolean_binary_alias m op l r ?ty canonical interned")
    case (Some x)
    then obtain z where "absorbing op z" "absorbing_alias z m l r ?ty canonical interned = Some x"
      by (rule boolean_binary_alias_absorbing)
    from absorbing_alias_describes [OF ok v n this(1) lr mask' sem' refl this(2)] Some show ?thesis by (simp add: eq)
  next
    case None
    consider (same) "l = r" "op \<in> {BitAnd, BitOr}" | (shift) "op \<in> {Shl, Shr, Ashr}" "constant_is_zero m r" "has_type m l ?ty"
      | (other) "\<not> (l = r \<and> (op = BitAnd \<or> op = BitOr) \<or> (op = Shl \<or> op = Shr \<or> op = Ashr) \<and> constant_is_zero m r \<and> has_type m l ?ty)"
      by blast
    then show ?thesis
    proof cases
      case same
      with lr have "binary_type op tl' tl' = Inr ?ty" by simp
      note idem = idempotent_sound [OF v lr(1) this same(2)]
      have "canonical_operation_binary m op a b ?ty canonical scope interned = IsAlias l" unfolding eq None using same by auto
      moreover have "val (ValueId_index l) = val i" using idem(1) sem' same(1) by simp
      ultimately show ?thesis using idem(2) lr(1) by simp
    next
      case shift
      then have "value_ty m l = Inr ?ty" by (simp add: has_type_iff)
      moreover have "canonical_operation_binary m op a b ?ty canonical scope interned = IsAlias l" unfolding eq None using shift by auto
      moreover have "val (ValueId_index l) = val i" using zero_shift_sound [OF ok v _ shift(2,1)] calculation(1) sem' by simp
      ultimately show ?thesis by simp
    next
      case other
      with sem' i show ?thesis by (simp only: eq None option.case if_False) (auto simp: named_def)
    qed
  qed
qed

lemma canonical_operation_mux_describes:
  assumes ok: "readable m" and v: "valuation m val sig" and n: "numbered m val (canonical, interned)"
    and t: "value_ty m c = Inr tc" "ty_width tc = 1" "value_ty m a = Inr (v_ty (wm_values m ! i))" "value_ty m b = Inr (v_ty (wm_values m ! i))"
    and i: "i < length (wm_values m)"
    and sem: "op_sem m val (OpMux c a b) (v_ty (wm_values m ! i)) (val i)"
  shows "\<exists>k. canonical_operation_mux m c a b (v_ty (wm_values m ! i)) canonical scope = Inr k \<and> describes m val i k"
proof -
  let ?ty = "v_ty (wm_values m ! i)" and ?key = "HasKey scope (KeyMux c a b (v_ty (wm_values m ! i)))"
  let ?bit = "constant_bit m"
  note cval = constant_bit_value [OF v]
  have key: "describes m val i ?key" using sem i by (simp add: named_def)
  have result: "val i = (if True \<in> set (val (ValueId_index c)) then val (ValueId_index a) else val (ValueId_index b))" using sem by simp
  obtain x where x: "val (ValueId_index c) = [x]" using value_ty_operand(2) [OF t(1) v] t(2) by (auto simp: bits_one)
  consider (same) "a = b" | (direct) "a \<noteq> b" "?bit a = Some True" "?bit b = Some False" "has_type m c ?ty"
    | (inv) inner where "a \<noteq> b" "?bit a = Some False" "?bit b = Some True" "unary_input m c LogicalNot = Some inner"
    | (other) "a \<noteq> b" "\<not> (?bit a = Some True \<and> ?bit b = Some False \<and> has_type m c ?ty)"
        "(if ?bit a = Some False \<and> ?bit b = Some True then unary_input m c LogicalNot else None) = None"
    by (cases "a = b"; cases "?bit a = Some True \<and> ?bit b = Some False \<and> has_type m c ?ty";
        cases "?bit a = Some False \<and> ?bit b = Some True"; cases "unary_input m c LogicalNot") auto
  then show ?thesis
  proof cases
    case same
    then have "canonical_operation_mux m c a b ?ty canonical scope = Inr (IsAlias a)" by (simp add: canonical_operation_mux_def Let_def)
    with same result t show ?thesis by simp
  next
    case direct
    then have "canonical_operation_mux m c a b ?ty canonical scope = Inr (IsAlias c)" by (simp add: canonical_operation_mux_def Let_def)
    moreover have "val (ValueId_index c) = val i" using result x cval direct by auto
    ultimately show ?thesis using direct by (simp add: has_type_iff)
  next
    case inv
    from unary_input_sound [OF ok v inv(4)] obtain u where
      u: "value_ty m inner = Inr u" "val (ValueId_index c) = [bits_val (val (ValueId_index inner)) = 0]" by auto
    obtain w where w: "canonical_value canonical inner = Inr w" by (rule canonical_value_exists [OF n u(1)])
    have eq: "canonical_operation_mux m c a b ?ty canonical scope = Inr (if has_type m w ?ty then IsAlias w else ?key)"
      using inv w by (simp add: canonical_operation_mux_def Let_def)
    have "val (ValueId_index w) = val i" if "has_type m w ?ty"
    proof -
      have "value_ty m w = Inr ?ty" using that by (simp add: has_type_iff)
      moreover have "ty_width ?ty = 1" using value_ty_operand(2) [OF t(3) v] cval [OF inv(2)] by simp
      ultimately obtain y where "val (ValueId_index w) = [y]" using value_ty_operand(2) [OF _ v] by (fastforce simp: bits_one)
      moreover from this have "val (ValueId_index c) = [\<not> y]" using u(2) canonical_value_ok(2) [OF n w] by (simp add: bits_val_zero)
      ultimately show ?thesis using result cval [OF inv(2)] cval [OF inv(3)] by (cases y) simp_all
    qed
    with eq key show ?thesis by (simp add: has_type_iff)
  next
    case other
    have eq: "canonical_operation_mux m c a b ?ty canonical scope =
        (case ?bit c of Some False \<Rightarrow> Inr (IsAlias b) | Some True \<Rightarrow> Inr (IsAlias a) | None \<Rightarrow> Inr ?key)"
      using other by (simp only: canonical_operation_mux_def Let_def if_False option.case)
    show ?thesis
    proof (cases "?bit c")
      case None
      with eq key show ?thesis by simp
    next
      case (Some z)
      with eq have "canonical_operation_mux m c a b ?ty canonical scope = Inr (IsAlias (if z then a else b))" by (cases z) simp_all
      moreover have "val (ValueId_index (if z then a else b)) = val i" using result cval [OF Some] by auto
      ultimately show ?thesis using t by simp
    qed
  qed
qed

lemma canonical_same:
  assumes "numbered m val (canonical, interned)"
  shows "same_types m m (canonical_value canonical)" "same_values m m val (canonical_value canonical)"
proof -
  note ok = canonical_value_ok [OF assms]
  show "same_types m m (canonical_value canonical)" using ok(1) by (simp add: same_types_def)
  have "operand_of m val w = operand_of m val v" if w: "canonical_value canonical v = Inr w" for v w
  proof -
    have "replacements_ok m canonical" "replacement_of canonical v = Inr w"
      using assms w by (auto simp: numbered_def canonical_value_def replacement_of_def split: option.splits)
    from replacement_ok(1-3) [OF this] ok(2) [OF w] show ?thesis by (auto simp: operand_of_def value_ty_def list_get_def)
  qed
  with ok(2) show "same_values m m val (canonical_value canonical)" by (simp add: same_values_def)
qed

lemma canonical_operation_describes:
  assumes ok: "readable m" and v: "valuation m val sig" and n: "numbered m val (canonical, interned)"
    and ty: "operation_type m k = Inr (v_ty (wm_values m ! i))" and i: "i < length (wm_values m)"
    and mask: "mask_widths_ok m k" and sem: "op_sem m val k (v_ty (wm_values m ! i)) (val i)"
  shows "\<exists>r. canonical_operation m k (v_ty (wm_values m ! i)) canonical scope interned = Inr r \<and> describes m val i r"
proof -
  let ?f = "canonical_value canonical" and ?ty = "v_ty (wm_values m ! i)"
  have exists: "\<exists>w. ?f u = Inr w" if "u \<in> set (op_inputs k)" for u
  proof -
    have "value_ty m u = Inr (v_ty (wm_values m ! ValueId_index u))"
      using operation_type_inputs [OF ty that] by (simp add: value_ty_Inr)
    then show ?thesis using canonical_value_exists [OF n] by blast
  qed
  obtain k' where k': "map_inputs ?f k = Inr k'" using map_inputs_exists [of k ?f, OF exists] by blast
  note same = canonical_same [OF n]
  have ty': "operation_type m k' = Inr ?ty" using operation_type_map [OF same(1) k'] ty by simp
  have sem': "op_sem m val k' ?ty (val i)" using op_sem_map [OF same(2) k'] sem by simp
  have types: "value_ty m w = value_ty m u" if "?f u = Inr w" for u w using canonical_value_ok(1) [OF n that] .
  show ?thesis
  proof (cases k)
    case (OpUnary op a)
    with k' obtain a' where a: "?f a = Inr a'" "k' = OpUnary op a'" by (auto simp: rbind_eq_Inr)
    with ty' obtain t where "value_ty m a' = Inr t" "unary_type op t = Inr ?ty" by (auto simp: rbind_eq_Inr)
    from canonical_operation_unary_describes [OF ok v n this i] sem' a OpUnary show ?thesis by simp
  next
    case (OpBinary op a b)
    with k' obtain a' b' where a: "?f a = Inr a'" "?f b = Inr b'" "k' = OpBinary op a' b'" by (auto simp: rbind_eq_Inr)
    with ty' obtain t u where t: "value_ty m a' = Inr t" "value_ty m b' = Inr u" "binary_type op t u = Inr ?ty" by (auto simp: rbind_eq_Inr)
    have "mask_widths_ok m (OpBinary op a' b')" using mask OpBinary types [OF a(1)] types [OF a(2)] by (simp add: mask_widths_ok_def)
    from canonical_operation_binary_describes [OF ok v n t i this] sem' a OpBinary show ?thesis by simp
  next
    case (OpMux c a b)
    with k' obtain c' a' b' where a: "?f c = Inr c'" "?f a = Inr a'" "?f b = Inr b'" "k' = OpMux c' a' b'" by (auto simp: rbind_eq_Inr)
    with ty' obtain t where "value_ty m c' = Inr t" "ty_width t = 1" "value_ty m a' = Inr ?ty" "value_ty m b' = Inr ?ty"
      by (auto simp: rbind_eq_Inr require_value_width_def split: if_splits)
    from canonical_operation_mux_describes [OF ok v n this i] sem' a OpMux show ?thesis by simp
  next
    case (OpConcat ps)
    with k' obtain qs where q: "rmap ?f ps = Inr qs" "k' = OpConcat qs" by (auto simp: rbind_eq_Inr)
    have key: "describes m val i (HasKey scope (KeyConcat qs ?ty))" using sem' q i by (simp add: named_def)
    show ?thesis
    proof (cases "\<exists>p. qs = [p] \<and> has_type m p ?ty")
      case True
      then obtain p where p: "qs = [p]" "has_type m p ?ty" by blast
      then have "canonical_operation m k ?ty canonical scope interned = Inr (IsAlias p)" using q(1) OpConcat by simp
      moreover have "val (ValueId_index p) = val i" using sem' q(2) p(1) by simp
      ultimately show ?thesis using p(2) by (simp add: has_type_iff)
    next
      case False
      then have "canonical_operation m k ?ty canonical scope interned = Inr (HasKey scope (KeyConcat qs ?ty))"
        using q(1) OpConcat by (auto split: list.splits)
      with key show ?thesis by simp
    qed
  next
    case (OpExtract a lsb w)
    with k' obtain a' where a: "?f a = Inr a'" "k' = OpExtract a' lsb w" by (auto simp: rbind_eq_Inr)
    show ?thesis
    proof (cases "lsb = 0 \<and> has_type m a' ?ty")
      case True
      then have t: "value_ty m a' = Inr ?ty" by (simp add: has_type_iff)
      have "?ty = \<lparr>ty_width = w, ty_signed = ty_signed ?ty, ty_state = ty_state ?ty\<rparr>"
        using ty' a(2) t by (auto simp: with_width_def WordType_new_def split: if_splits)
      then have "ty_width ?ty = w" by (metis WordType.select_convs(1))
      with True sem' a value_ty_operand(2) [OF t v] have "val (ValueId_index a') = val i" by (simp add: word_extract_def)
      with True a OpExtract t show ?thesis by simp
    next
      case False
      with a OpExtract have "canonical_operation m k ?ty canonical scope interned = Inr (HasKey scope (KeyExtract a' lsb w ?ty))" by simp
      with sem' a i show ?thesis by (simp add: named_def)
    qed
  next
    case (OpDynamicExtract a b w)
    with k' sem' i show ?thesis by (auto simp: rbind_eq_Inr named_def)
  next
    case (OpDynamicInsert a b c)
    with k' sem' i show ?thesis by (auto simp: rbind_eq_Inr named_def)
  next
    case (OpCast kind a t)
    with k' obtain a' where a: "?f a = Inr a'" "k' = OpCast kind a' t" by (auto simp: rbind_eq_Inr)
    show ?thesis
    proof (cases "has_type m a' t")
      case True
      then have t: "value_ty m a' = Inr t" by (simp add: has_type_iff)
      have "?ty = t" using ty' a(2) t by (auto split: if_splits)
      moreover have "val (ValueId_index a') = val i"
        using sem' a(2) value_ty_operand(2) [OF t v] by (simp add: word_cast_truncate)
      ultimately show ?thesis using True a OpCast t by simp
    next
      case False
      with a OpCast have "canonical_operation m k ?ty canonical scope interned = Inr (HasKey scope (KeyCast kind a' t ?ty))" by simp
      with sem' a i show ?thesis by (simp add: named_def)
    qed
  qed simp_all
qed

section \<open>The numbering ends\<close>

text \<open>Every lookup is within the table, whatever its entries.\<close>

lemma canonical_value_total:
  assumes "length canonical = length (wm_values m)" and "value_ty m v = Inr t"
  shows "\<exists>w. canonical_value canonical v = Inr w"
  using assms by (simp add: canonical_value_def list_get_def value_ty_Inr)

lemma unary_input_typed:
  assumes "readable m" and "unary_input m v op = Some inner"
  shows "\<exists>u. value_ty m inner = Inr u"
proof -
  obtain p y where i: "ValueId_index v < length (wm_values m)" and k: "v_kind (wm_values m ! ValueId_index v) = OperationValue p"
    and y: "WordModule_operation m p = Some y" "op_kind y = OpUnary op inner"
    using assms(2) by (auto simp: unary_input_def WordModule_value_def list_get_def split: option.splits ValueKind.splits OpKind.splits if_splits)
  obtain x where "WordModule_operation m p = Some x" "operation_type m (op_kind x) = Inr (v_ty (wm_values m ! ValueId_index v))"
    by (rule operation_value_typed [OF assms(1) i k])
  with y show ?thesis by (auto simp: rbind_eq_Inr)
qed

lemma canonical_operation_returns:
  assumes ok: "readable m" and len: "length canonical = length (wm_values m)" and ty: "operation_type m k = Inr ty"
  shows "\<exists>r. canonical_operation m k ty canonical scope interned = Inr r"
proof -
  let ?f = "canonical_value canonical"
  have exists: "\<exists>w. ?f u = Inr w" if "u \<in> set (op_inputs k)" for u
    using canonical_value_total [OF len] operation_type_inputs [OF ty that] by (simp add: value_ty_Inr)
  obtain k' where k': "map_inputs ?f k = Inr k'" using map_inputs_exists [of k ?f, OF exists] by blast
  have inner: "\<exists>w. ?f x = Inr w" if "unary_input m v op = Some x" for v op x
    using unary_input_typed [OF ok that] canonical_value_total [OF len] by blast
  have u: "\<exists>r. canonical_operation_unary m op a ty canonical scope = Inr r" for op a
    using inner by (fastforce simp: canonical_operation_unary_def Let_def split: option.split)
  have x: "\<exists>r. canonical_operation_mux m c a b ty canonical scope = Inr r" for c a b
    using inner by (fastforce simp: canonical_operation_mux_def Let_def split: option.split bool.split)
  show ?thesis using k' u x by (cases k) (auto simp: rbind_eq_Inr)
qed

lemma number_value_returns:
  assumes ok: "readable m" and i: "i < length (wm_values m)" and len: "length (fst s) = length (wm_values m)"
  shows "\<exists>s'. number_value m scope i s = (Inr (), s') \<and> length (fst s') = length (wm_values m)"
proof -
  obtain canonical interned where s: "s = (canonical, interned)" by (cases s)
  note index = value_index [OF ok i]
  have key: "\<exists>c t. apply_key i (ValueId i) k (canonical, interned) = (c, t) \<and> length c = length (wm_values m)" for k
    using len by (simp add: apply_key_def s split: AliasOrKey.split option.split)
  note key' = key [of "HasKey 0 x" for x]
  have get: "list_get canonical i = Some (canonical ! i)" using len i s by (simp add: list_get_def)
  show ?thesis
  proof (cases "v_kind (wm_values m ! i)")
    case (OperationValue op)
    obtain x where x: "WordModule_operation m op = Some x" "operation_type m (op_kind x) = Inr (v_ty (wm_values m ! i))"
      by (rule operation_value_typed [OF ok i OperationValue])
    have l: "length canonical = length (wm_values m)" using len s by simp
    show ?thesis
    proof (cases "scope op")
      case None
      with OperationValue x(1) index get len show ?thesis by (simp add: number_value_def s Let_def)
    next
      case (Some n)
      obtain r where "canonical_operation m (op_kind x) (v_ty (wm_values m ! i)) canonical n interned = Inr r"
        using canonical_operation_returns [OF ok l x(2)] by blast
      with Some OperationValue x(1) index get len key [of r] show ?thesis by (auto simp: number_value_def s Let_def)
    qed
  qed (use index get len key' in \<open>auto simp: number_value_def s Let_def\<close>)
qed

section \<open>The numbering is right\<close>

lemma number_value_numbered:
  assumes ok: "readable m" and v: "valuation m val sig" and un: "uniform m val"
    and mask: "\<forall>x \<in> set (wm_operations m). mask_widths_ok m (op_kind x)"
    and i: "i < length (wm_values m)" and n: "numbered m val s" and s': "number_value m scope i s = (Inr (), s')"
  shows "numbered m val s'"
proof -
  obtain canonical interned where s: "s = (canonical, interned)" by (cases s)
  have l: "length canonical = length (wm_values m)" using n by (simp add: numbered_def s replacements_ok_def)
  note index = value_index [OF ok i] and key = apply_key_numbered [OF v un n [unfolded s] i]
  have get: "list_get canonical i = Some (canonical ! i)" using l i by (simp add: list_get_def)
  show ?thesis
  proof (cases "canonical ! i = ValueId i")
    case False
    with s' get index n show ?thesis by (simp add: number_value_def s Let_def)
  next
    case here: True
    show ?thesis
    proof (cases "v_kind (wm_values m ! i)")
      case (SignalValue ref)
      then have "describes m val i (HasKey 0 (KeySignal ref (v_ty (wm_values m ! i))))" using i by (simp add: named_def)
      from key [OF this] SignalValue s' here get index show ?thesis by (simp add: number_value_def s Let_def)
    next
      case (ConstantValue bits)
      then have "describes m val i (HasKey 0 (KeyConstant bits (v_ty (wm_values m ! i))))" using i by (simp add: named_def)
      from key [OF this] ConstantValue s' here get index show ?thesis by (simp add: number_value_def s Let_def)
    next
      case (OperationValue op)
      obtain x where x: "WordModule_operation m op = Some x" "wm_operations m ! OpId_index op = x"
          "operation_type m (op_kind x) = Inr (v_ty (wm_values m ! i))"
        by (rule operation_value_typed [OF ok i OperationValue])
      have "x \<in> set (wm_operations m)" using x(1) by (auto simp: WordModule_operation_def list_get_def split: if_splits)
      then have m: "mask_widths_ok m (op_kind x)" using mask by blast
      show ?thesis
      proof (cases "scope op")
        case None
        with OperationValue x(1) index get n s' here show ?thesis by (simp add: number_value_def s Let_def)
      next
        case (Some k)
        obtain r where r: "canonical_operation m (op_kind x) (v_ty (wm_values m ! i)) canonical k interned = Inr r" "describes m val i r"
          using canonical_operation_describes [OF ok v n [unfolded s] x(3) i m] value_op [OF i OperationValue v] x(2) by auto
        from key [OF r(2)] r(1) Some OperationValue x(1) index get s' here show ?thesis by (simp add: number_value_def s Let_def)
      qed
    qed
  qed
qed

lemma numbering_ends:
  assumes ok: "readable m" and len: "length canonical = length (wm_values m)"
  obtains canonical' interned where "sfor (number_value m scope) [0..<length (wm_values m)] (canonical, \<lambda>_. None) = (Inr (), canonical', interned)"
    and "\<And>val sig. valuation m val sig \<Longrightarrow> uniform m val \<Longrightarrow> \<forall>x \<in> set (wm_operations m). mask_widths_ok m (op_kind x) \<Longrightarrow>
      replacements_ok m canonical \<Longrightarrow> replacements_agree val canonical \<Longrightarrow> replacements_ok m canonical' \<and> replacements_agree val canonical'"
proof -
  let ?run = "sfor (number_value m scope) [0..<length (wm_values m)] (canonical, \<lambda>_. None)"
  have "\<exists>s'. ?run = (Inr (), s') \<and> length (fst s') = length (wm_values m)"
    by (rule sfor_returns) (use len number_value_returns [OF ok] in auto)
  then obtain canonical' interned where run: "?run = (Inr (), canonical', interned)" by (metis surj_pair)
  have "replacements_ok m canonical' \<and> replacements_agree val canonical'"
    if "valuation m val sig" "uniform m val" "\<forall>x \<in> set (wm_operations m). mask_widths_ok m (op_kind x)" "replacements_ok m canonical" "replacements_agree val canonical" for val sig
  proof -
    have "numbered m val (canonical, \<lambda>_. None)" using that(4,5) by (simp add: numbered_def)
    then have "\<exists>s'. ?run = (Inr (), s') \<and> numbered m val s'"
    proof (rule sfor_returns)
      fix i s assume i: "i \<in> set [0..<length (wm_values m)]" and n: "numbered m val s"
      then have "length (fst s) = length (wm_values m)" by (auto simp: numbered_def replacements_ok_def)
      with number_value_returns [OF ok, of i s scope] i obtain s' where s': "number_value m scope i s = (Inr (), s')" by auto
      from number_value_numbered [OF ok that(1-3) _ n s'] i s' show "\<exists>s'. number_value m scope i s = (Inr (), s') \<and> numbered m val s'"
        by simp
    qed
    then show ?thesis by (simp add: run numbered_def)
  qed
  with run show thesis by (rule that)
qed

lemma folds_mask_widths: "folds m m' \<Longrightarrow> mask_widths_ok m' k = mask_widths_ok m k"
  by (simp add: mask_widths_ok_def folds_value_ty)

lemma folds_table_ok: "folds m m' \<Longrightarrow> replacements_ok m' t = replacements_ok m t"
  using folds_parts(6,8) [of m m'] by (auto simp: replacements_ok_def)


section \<open>Concrete modules\<close>

text \<open>A wire complemented twice.\<close>

definition twice_not_demo :: WordModule
  where "twice_not_demo = fold word_step [CallWire (bits_ty 2 False), CallRead (SignalId 0), CallUnary BitNot (ValueId 0),
    CallUnary BitNot (ValueId 1)] (WordModule_new ''not'')"

lemma twice_not_demo_eq: "twice_not_demo = \<lparr>wm_names = [[], ''not''], wm_ports = [],
   wm_signals = [\<lparr>sig_name = None, sig_kind = SignalWire, sig_ty = bits_ty 2 False, sig_resolution = SingleDriver\<rparr>],
   wm_memory_read_data = [],
   wm_values = [\<lparr>v_kind = SignalValue \<lparr>sr_signal = SignalId 0, sr_lsb = 0, sr_width = 2\<rparr>, v_ty = bits_ty 2 False\<rparr>,
     \<lparr>v_kind = OperationValue (OpId 0), v_ty = bits_ty 2 False\<rparr>, \<lparr>v_kind = OperationValue (OpId (Suc 0)), v_ty = bits_ty 2 False\<rparr>],
   wm_operations = [\<lparr>op_kind = OpUnary BitNot (ValueId 0), op_result = ValueId (Suc 0)\<rparr>,
     \<lparr>op_kind = OpUnary BitNot (ValueId (Suc 0)), op_result = ValueId (Suc (Suc 0))\<rparr>],
   wm_connects = []\<rparr>"
  by (simp add: twice_not_demo_def word_eval)

lemma twice_not_demo_ok: "module_ok twice_not_demo" "widths_ok twice_not_demo" "analysable twice_not_demo"
    "\<exists>a. analysis_new twice_not_demo = Inr a" "replacements_ok twice_not_demo [ValueId 0, ValueId 1, ValueId 2]"
    "\<forall>x \<in> set (wm_operations twice_not_demo). keeps_states twice_not_demo (op_kind x) \<and> mask_widths_ok twice_not_demo (op_kind x)"
proof -
  show "module_ok twice_not_demo" unfolding twice_not_demo_def
    by (rule built_ok, rule built_fold [OF built_new]) (auto simp: Let_def)
  show "widths_ok twice_not_demo" by (simp add: widths_ok_def twice_not_demo_eq)
  show "analysable twice_not_demo"
    by (auto simp: analysable_def node_analysable_def twice_not_demo_eq node_width_def WordModule_value_def list_get_def less_Suc_eq
        split: FactNode.splits if_splits)
  show "\<exists>a. analysis_new twice_not_demo = Inr a" by (simp add: twice_not_demo_eq rows_eval node_eval)
  show "replacements_ok twice_not_demo [ValueId 0, ValueId 1, ValueId 2]" by (simp add: replacements_ok_def twice_not_demo_eq All_less_Suc)
  show "\<forall>x \<in> set (wm_operations twice_not_demo). keeps_states twice_not_demo (op_kind x) \<and> mask_widths_ok twice_not_demo (op_kind x)"
    by (simp add: twice_not_demo_eq keeps_states_def mask_widths_ok_def)
qed

lemma twice_not_valuation: "valuation twice_not_demo (\<lambda>i. if i = 1 then [True, False] else [False, True]) (\<lambda>_. [False, True])"
  by (simp add: valuation_def twice_not_demo_eq All_less_Suc meaning_eval)


text \<open>
  C30: the bitwise conjunction of the one-bit constant one with a wider wire is the lowest bit of the wire, but the
  numbering makes the whole wire its representative: in the valuation below the representative differs.
\<close>

definition mask_bug_demo :: WordModule
  where "mask_bug_demo = fold word_step [CallWire (bits_ty 2 False), CallRead (SignalId 0), CallConstant [BitOne] (bits_ty 1 False),
    CallBinary BitAnd (ValueId 1) (ValueId 0)] (WordModule_new ''mask'')"

definition mask_bug_val :: "nat \<Rightarrow> bool list"
  where "mask_bug_val i = (if i = 0 then [True, True] else if i = 1 then [True] else [True, False])"

lemma mask_bug_demo_eq: "mask_bug_demo = \<lparr>wm_names = [[], ''mask''], wm_ports = [],
   wm_signals = [\<lparr>sig_name = None, sig_kind = SignalWire, sig_ty = bits_ty 2 False, sig_resolution = SingleDriver\<rparr>],
   wm_memory_read_data = [],
   wm_values = [\<lparr>v_kind = SignalValue \<lparr>sr_signal = SignalId 0, sr_lsb = 0, sr_width = 2\<rparr>, v_ty = bits_ty 2 False\<rparr>,
     \<lparr>v_kind = ConstantValue [BitOne], v_ty = bits_ty 1 False\<rparr>, \<lparr>v_kind = OperationValue (OpId 0), v_ty = bits_ty 2 False\<rparr>],
   wm_operations = [\<lparr>op_kind = OpBinary BitAnd (ValueId (Suc 0)) (ValueId 0), op_result = ValueId (Suc (Suc 0))\<rparr>],
   wm_connects = []\<rparr>"
  by (simp add: mask_bug_demo_def word_eval)

lemma mask_bug_valuation: "valuation mask_bug_demo mask_bug_val (\<lambda>_. [True, True])"
  by (simp add: valuation_def mask_bug_demo_eq mask_bug_val_def All_less_Suc) (simp add: meaning_eval mask_bug_val_def)

lemma mask_bug_new: "analysis_new mask_bug_demo = Inr zero_new"
  by (simp add: zero_new_def mask_bug_demo_eq rows_eval node_eval)

lemma mask_bug_unknown: "\<exists>a. known_bits_of mask_bug_demo (ValueId 2) zero_new = Inr (None, a)"
proof -
  obtain r a where r: "derive_value mask_bug_demo (ValueId 2) zero_new = Inr (Some r, a)" "fr_width r = 2"
      "fact_bit (an_arena a) r 0 = Unknown"
    by (simp add: zero_new_def mask_bug_demo_eq rows_eval node_eval fact_eval)
  moreover have "[0..<2] = [0, 1 :: nat]" by (simp add: upt_rec)
  ultimately show ?thesis using known_bits_of_small [OF r(1)] by (simp add: known_constant_def)
qed

lemma mask_bug_folds:
  "fold_constants_by (\<lambda>_. True) mask_bug_demo = (Inr (), mask_bug_demo)"
  "fold_known_values_by (\<lambda>_. True) mask_bug_demo = (Inr (), mask_bug_demo)"
proof -
  show "fold_constants_by (\<lambda>_. True) mask_bug_demo = (Inr (), mask_bug_demo)"
    by (simp add: mask_bug_demo_eq fold_eval ValueId_from_index_def dense_from_index_def list_get_def)
  have len: "[0..<length (wm_values mask_bug_demo)] = [0, 1, 2]" by (simp add: mask_bug_demo_eq upt_rec)
  have skip: "fold_known_at (\<lambda>_. True) 0 (mask_bug_demo, zero_new) = (Inr (), mask_bug_demo, zero_new)"
    "fold_known_at (\<lambda>_. True) 1 (mask_bug_demo, zero_new) = (Inr (), mask_bug_demo, zero_new)"
    by (simp_all add: fold_known_at_def mask_bug_demo_eq ValueId_from_index_def dense_from_index_def WordModule_value_def list_get_def)
  obtain a where "known_bits_of mask_bug_demo (ValueId 2) zero_new = Inr (None, a)" using mask_bug_unknown by blast
  moreover have "WordModule_value mask_bug_demo (ValueId 2) = Some \<lparr>v_kind = OperationValue (OpId 0), v_ty = bits_ty 2 False\<rparr>"
    by (simp add: mask_bug_demo_eq WordModule_value_def list_get_def)
  ultimately have "fold_known_at (\<lambda>_. True) 2 (mask_bug_demo, zero_new) = (Inr (), mask_bug_demo, a)"
    by (simp add: fold_known_at_def ValueId_from_index_def dense_from_index_def)
  with skip show "fold_known_values_by (\<lambda>_. True) mask_bug_demo = (Inr (), mask_bug_demo)"
    by (simp add: fold_known_values_by_def mask_bug_new len)
qed

theorem numbering_ignores_mask_width:
  "canonicalize_values (mask_bug_demo, [ValueId 0, ValueId 1, ValueId 2]) = (Inr (), mask_bug_demo, [ValueId 0, ValueId 1, ValueId 0]) \<and>
   valuation mask_bug_demo mask_bug_val (\<lambda>_. [True, True]) \<and> mask_bug_val 2 \<noteq> mask_bug_val 0"
proof -
  have len: "[0..<length (wm_values mask_bug_demo)] = [0, 1, 2]" by (simp add: mask_bug_demo_eq upt_rec)
  obtain interned where "sfor (number_value mask_bug_demo (\<lambda>_. Some 1)) [0, 1, 2] ([ValueId 0, ValueId 1, ValueId 2], \<lambda>_. None) =
      (Inr (), [ValueId 0, ValueId 1, ValueId 0], interned)"
    by (simp add: mask_bug_demo_eq number_value_def Let_def ValueId_from_index_def dense_from_index_def list_get_def WordModule_value_def
        WordModule_operation_def apply_key_def canonical_value_def canonical_operation_binary_def binary_is_commutative_def boolean_binary_alias_def
        absorbing_alias_def alias_if_typed_def has_type_def constant_bit_def constant_of_def bit_lsb_def)
  then have "canonicalize_values (mask_bug_demo, [ValueId 0, ValueId 1, ValueId 2]) = (Inr (), mask_bug_demo, [ValueId 0, ValueId 1, ValueId 0])"
    by (simp add: canonicalize_values_def canonicalize_values_by_def mask_bug_folds len)
  with mask_bug_valuation show ?thesis by (simp add: mask_bug_val_def)
qed

end
