(* ===== verification/Axm_Balance.thy ===== *)
theory Axm_Balance
  imports Axm_Graph Word_Rewrite "HOL-Library.Product_Lexorder"
begin

text \<open>
  Balancing of an AXM graph (\<^verbatim>\<open>crates/opto-synth/src/boolean/logic/balance.rs\<close>): chains of conjunctions or
  exclusive disjunctions whose inner nodes have one reader become trees of small depth, and chains of
  multiplexers are split, in a new graph. The network is frozen, so reading the node of one of its
  literals never panics; reading any other is outside the model. Levels are numbers: a new node is at most one
  level above the nodes before it, so no level reaches \<open>2 ^ 32\<close>. Reference counts are numbers too, so the
  model is exact for networks with fewer than \<open>2 ^ 32\<close> operands.
\<close>

section \<open>Reading the frozen network\<close>

definition net_node :: "LogicNetwork \<Rightarrow> LogicNodeId \<Rightarrow> LogicNode"
  where "net_node net l = (case node_of net l of Inr n \<Rightarrow> n | Inl e \<Rightarrow> NConst False)"

definition count_reference :: "LogicNodeId \<Rightarrow> nat list \<Rightarrow> nat list"
  where "count_reference l references = references[lit_index l := references ! lit_index l + 1]"

definition reference_counts :: "LogicNetwork \<Rightarrow> LogicNodeId list \<Rightarrow> LogicNodeId list \<Rightarrow> nat list"
  where "reference_counts net ids roots =
    fold count_reference roots
      (fold (\<lambda>i. fold count_reference (node_fanins (net_node net i))) ids (replicate (node_count net) 0))"

definition remap_literal :: "LogicNodeId option list \<Rightarrow> LogicNodeId \<Rightarrow> LogicNodeId option"
  where "remap_literal remap l =
    map_option (\<lambda>mapped. if is_inverted l then inverted mapped else mapped) (remap ! lit_index l)"

section \<open>Chains\<close>

definition chains_into :: "LogicNetwork \<Rightarrow> nat list \<Rightarrow> LogicNodeId \<Rightarrow> LogicNodeId \<Rightarrow> bool"
  where "chains_into net references consumer fanin =
    (if is_inverted fanin \<or> references ! lit_index fanin \<noteq> 1 then False
     else case (net_node net consumer, net_node net fanin) of
         (NAnd _ _, NAnd _ _) \<Rightarrow> True
       | (NXor _ _, NXor _ _) \<Rightarrow> True
       | _ \<Rightarrow> False)"

definition continues_chain :: "LogicNetwork \<Rightarrow> nat list \<Rightarrow> LogicNodeId \<Rightarrow> bool"
  where "continues_chain net references arm \<longleftrightarrow>
    \<not> is_inverted arm \<and> references ! lit_index arm = 1 \<and> (case net_node net arm of NMux _ _ _ \<Rightarrow> True | _ \<Rightarrow> False)"

definition mux_chain_link ::
  "LogicNetwork \<Rightarrow> LogicNodeId \<Rightarrow> nat list \<Rightarrow> ((LogicNodeId \<times> LogicNodeId) \<times> LogicNodeId) option"
  where "mux_chain_link net i references =
    (case net_node net i of
       NMux cond then_value else_value \<Rightarrow>
         if continues_chain net references else_value then Some ((cond, then_value), else_value)
         else if continues_chain net references then_value then Some ((inverted cond, else_value), then_value)
         else None
     | _ \<Rightarrow> None)"

definition absorb :: "LogicNetwork \<Rightarrow> nat list \<Rightarrow> LogicNodeId \<Rightarrow> bool list \<Rightarrow> bool list"
  where "absorb net references i absorbed =
    (let chain = \<lambda>left right. fold (\<lambda>fanin absorbed.
         if chains_into net references i fanin then absorbed[lit_index fanin := True] else absorbed) [left, right] absorbed
     in case net_node net i of
       NAnd left right \<Rightarrow> chain left right
     | NXor left right \<Rightarrow> chain left right
     | NMux _ _ _ \<Rightarrow>
         (case mux_chain_link net i references of Some (_, following) \<Rightarrow> absorbed[lit_index following := True] | None \<Rightarrow> absorbed)
     | _ \<Rightarrow> absorbed)"

definition absorbed_nodes :: "LogicNetwork \<Rightarrow> nat list \<Rightarrow> LogicNodeId list \<Rightarrow> bool list"
  where "absorbed_nodes net references ids = fold (absorb net references) ids (replicate (node_count net) False)"

text \<open>
  The operands of a chain, in the order in which the stack yields them. A network that is not
  acyclic could make the walks run forever, which is the value \<open>None\<close>.
\<close>

partial_function (option) chain_operands ::
  "LogicNetwork \<Rightarrow> nat list \<Rightarrow> LogicNodeId \<Rightarrow> LogicNodeId list \<Rightarrow> LogicNodeId list \<Rightarrow> LogicNodeId list option"
  where "chain_operands net references i stack operands =
    (case stack of
       [] \<Rightarrow> Some operands
     | fanin # stack \<Rightarrow>
         if chains_into net references i fanin
         then chain_operands net references i (rev (node_fanins (net_node net fanin)) @ stack) operands
         else chain_operands net references i stack (operands @ [fanin]))"

partial_function (option) mux_links ::
  "LogicNetwork \<Rightarrow> nat list \<Rightarrow> LogicNodeId \<Rightarrow> (LogicNodeId \<times> LogicNodeId) list \<Rightarrow>
    ((LogicNodeId \<times> LogicNodeId) list \<times> LogicNodeId) option"
  where "mux_links net references current links =
    (case mux_chain_link net current references of
       Some (link, following) \<Rightarrow> mux_links net references following (links @ [link])
     | None \<Rightarrow>
         (case net_node net current of
            NMux cond then_value else_value \<Rightarrow> Some (links @ [(cond, then_value)], else_value)
          | _ \<Rightarrow> Some (links, current)))"

section \<open>The new graph\<close>

record Balance_Builder =
  bl_graph :: LogicGraph
  bl_levels :: "nat list"

definition bl_level :: "Balance_Builder \<Rightarrow> LogicNodeId \<Rightarrow> nat"
  where "bl_level b l = (case list_get (bl_levels b) (lit_index l) of None \<Rightarrow> 0 | Some k \<Rightarrow> k)"

definition bl_record :: "Balance_Builder \<Rightarrow> LogicNodeId \<Rightarrow> nat \<Rightarrow> Balance_Builder"
  where "bl_record b l k = b\<lparr>bl_levels := bl_levels b @ replicate (lit_index l + 1 - length (bl_levels b)) k\<rparr>"

definition bl_constant :: "Balance_Builder \<Rightarrow> bool \<Rightarrow> LogicNodeId \<times> Balance_Builder"
  where "bl_constant b v = (LogicGraph_constant v, bl_record b (LogicGraph_constant v) 0)"

definition bl_variable :: "Balance_Builder \<Rightarrow> nat \<Rightarrow> LogicNodeId option \<times> Balance_Builder"
  where "bl_variable b origin =
    (case LogicGraph_variable (bl_graph b) origin of
       (None, g) \<Rightarrow> (None, b\<lparr>bl_graph := g\<rparr>)
     | (Some l, g) \<Rightarrow> (Some l, bl_record (b\<lparr>bl_graph := g\<rparr>) l 0))"

definition bl_build :: "Balance_Builder \<Rightarrow> nat \<Rightarrow> LogicNodeId graph_result \<Rightarrow> (Balance_Builder, SynthError, LogicNodeId) outcome"
  where "bl_build b k res =
    (case res of
       (Inl e, g) \<Rightarrow> (Inl e, b\<lparr>bl_graph := g\<rparr>)
     | (Inr l, g) \<Rightarrow> (Inr l, bl_record (b\<lparr>bl_graph := g\<rparr>) l k))"

datatype Gate = GateAnd | GateXor | GateOr

definition bl_gate :: "Gate \<Rightarrow> Balance_Builder \<Rightarrow> LogicNodeId \<Rightarrow> LogicNodeId \<Rightarrow> (Balance_Builder, SynthError, LogicNodeId) outcome"
  where "bl_gate gate b left right =
    bl_build b (max (bl_level b left) (bl_level b right) + 1)
      (case gate of
         GateAnd \<Rightarrow> LogicGraph_and (bl_graph b) left right
       | GateXor \<Rightarrow> LogicGraph_xor (bl_graph b) left right
       | GateOr \<Rightarrow> LogicGraph_or (bl_graph b) left right)"

definition bl_mux ::
  "Balance_Builder \<Rightarrow> LogicNodeId \<Rightarrow> LogicNodeId \<Rightarrow> LogicNodeId \<Rightarrow> (Balance_Builder, SynthError, LogicNodeId) outcome"
  where "bl_mux b cond then_value else_value =
    bl_build b (max (max (bl_level b cond) (bl_level b then_value)) (bl_level b else_value) + 1)
      (LogicGraph_mux (bl_graph b) cond then_value else_value)"

text \<open>
  The heap of \<^verbatim>\<open>build_tree\<close> yields the least pair of a level and a slot of the store: a sorted list.
\<close>

function tree_loop ::
  "Gate \<Rightarrow> (nat \<times> nat) list \<Rightarrow> LogicNodeId list \<Rightarrow> Balance_Builder \<Rightarrow> (Balance_Builder, SynthError, LogicNodeId option) outcome"
  where
    "tree_loop gate [] store b = (Inr None, b)"
  | "tree_loop gate [(_, slot)] store b = (Inr (Some (store ! slot)), b)"
  | "tree_loop gate ((_, left) # (_, right) # heap) store b =
      sbind (bl_gate gate b (store ! left) (store ! right)) (\<lambda>combined b.
        tree_loop gate (insort (bl_level b combined, length store) heap) (store @ [combined]) b)"
  by pat_completeness auto
termination by (relation "measure (\<lambda>(gate, heap, store, b). length heap)") auto

definition build_tree ::
  "Gate \<Rightarrow> LogicNodeId list \<Rightarrow> Balance_Builder \<Rightarrow> (Balance_Builder, SynthError, LogicNodeId option) outcome"
  where "build_tree gate operands b =
    tree_loop gate (fold (\<lambda>(slot, operand). insort (bl_level b operand, slot)) (enumerate 0 operands) []) operands b"

function tree_level_loop :: "nat list \<Rightarrow> nat"
  where
    "tree_level_loop [] = 0"
  | "tree_level_loop [k] = k"
  | "tree_level_loop (left # right # heap) = tree_level_loop (insort (max left right + 1) heap)"
  by pat_completeness auto
termination by (relation "measure length") auto

definition tree_level_estimate :: "nat list \<Rightarrow> nat"
  where "tree_level_estimate ks = tree_level_loop (sort ks)"

definition PRIORITY_SPLIT_CAP :: nat
  where "PRIORITY_SPLIT_CAP = 64"

text \<open>The estimates depend on the builder through its levels only.\<close>

definition half :: "'a list \<Rightarrow> nat"
  where "half links = (length links + 1) div 2"

function priority_estimates :: "(LogicNodeId \<Rightarrow> nat) \<Rightarrow> (LogicNodeId \<times> LogicNodeId) list \<Rightarrow> nat \<Rightarrow> nat \<times> nat"
  and priority_level_estimate :: "(LogicNodeId \<Rightarrow> nat) \<Rightarrow> (LogicNodeId \<times> LogicNodeId) list \<Rightarrow> nat \<Rightarrow> nat"
  where
    "priority_estimates level [] default_level = (0, 0)"
  | "priority_estimates level ((s, d) # rest) default_level =
      (let links = (s, d) # rest; middle = half links;
         peel = max (max (level s) (level d)) (priority_level_estimate level rest default_level) + 1;
         guard = tree_level_estimate (map (\<lambda>(select, _). level select) (take middle links));
         top_estimate = priority_level_estimate level (take (half ((s, d) # rest) - 1) ((s, d) # rest)) (level (snd (links ! (middle - 1))));
         bottom = priority_level_estimate level (drop (half ((s, d) # rest)) ((s, d) # rest)) default_level
       in (peel, max (max guard top_estimate) bottom + 1))"
  | "priority_level_estimate level links default_level =
      (case links of
         [] \<Rightarrow> default_level
       | [(select, data)] \<Rightarrow> max (max (level select) (level data)) default_level + 1
       | _ \<Rightarrow>
           if length links > PRIORITY_SPLIT_CAP
           then fold (\<lambda>(select, data) accumulated. max (max (level select) (level data)) accumulated + 1) (rev links) default_level
           else (case priority_estimates level links default_level of (peel, split_level) \<Rightarrow> min peel split_level))"
  by pat_completeness auto
termination
  by (relation "measure (\<lambda>x. case x of Inl (level, links, d) \<Rightarrow> 2 * length links | Inr (level, links, d) \<Rightarrow> 2 * length links + 1)")
    (auto simp: half_def split: list.splits)

function build_priority ::
  "Balance_Builder \<Rightarrow> (LogicNodeId \<times> LogicNodeId) list \<Rightarrow> LogicNodeId \<Rightarrow> (Balance_Builder, SynthError, LogicNodeId) outcome"
  where
    "build_priority b [] default_value = (Inr default_value, b)"
  | "build_priority b [(select, data)] default_value = bl_mux b select data default_value"
  | "build_priority b ((select, data) # link # rest) default_value =
      (let links = (select, data) # link # rest;
         peel_first = sbind (build_priority b (link # rest) default_value) (\<lambda>tail_value b. bl_mux b select data tail_value)
       in if length links > PRIORITY_SPLIT_CAP then peel_first
         else case priority_estimates (bl_level b) links (bl_level b default_value) of (peel, split_level) \<Rightarrow>
           if split_level < peel
           then sbind (build_tree GateOr (map fst (take (half links) links)) b) (\<lambda>guard b.
             case guard of None \<Rightarrow> (Inl (Panic ''priority splits guard at least two selects''), b)
             | Some guard \<Rightarrow>
                 sbind (build_priority b (take (half ((select, data) # link # rest) - 1) ((select, data) # link # rest))
                     (snd (links ! (half links - 1)))) (\<lambda>top_value b.
                 sbind (build_priority b (drop (half ((select, data) # link # rest)) ((select, data) # link # rest)) default_value) (\<lambda>bottom b.
                   bl_mux b guard top_value bottom)))
           else peel_first)"
  by pat_completeness auto
termination by (relation "measure (\<lambda>(b, links, d). length links)") (auto simp: half_def)

section \<open>The pass\<close>

definition balance_node ::
  "LogicNetwork \<Rightarrow> nat list \<Rightarrow> LogicNodeId option list \<Rightarrow> LogicNodeId \<Rightarrow> Balance_Builder \<Rightarrow>
    (Balance_Builder, SynthError, LogicNodeId option) outcome option"
  where "balance_node net references remap i b =
    (let chain = \<lambda>gate left right.
         map_option (\<lambda>operands.
             case those (map (remap_literal remap) operands) of
               None \<Rightarrow> (Inr None, b)
             | Some operands \<Rightarrow> build_tree gate operands b)
           (chain_operands net references i [right, left] [])
     in case net_node net i of
       NConst v \<Rightarrow> Some (case bl_constant b v of (l, b) \<Rightarrow> (Inr (Some l), b))
     | NVar origin \<Rightarrow> Some (case bl_variable b (unat origin) of (l, b) \<Rightarrow> (Inr l, b))
     | NAnd left right \<Rightarrow> chain GateAnd left right
     | NXor left right \<Rightarrow> chain GateXor left right
     | NMux _ _ _ \<Rightarrow>
         map_option (\<lambda>(links, default_value).
             case (those (map (\<lambda>(select, data).
                 case remap_literal remap select of None \<Rightarrow> None
                 | Some select \<Rightarrow> map_option (Pair select) (remap_literal remap data)) links), remap_literal remap default_value) of
               (Some links, Some default_value) \<Rightarrow> smap Some (build_priority b links default_value)
             | _ \<Rightarrow> (Inr None, b))
           (mux_links net references i []))"

fun balance_loop ::
  "LogicNetwork \<Rightarrow> nat list \<Rightarrow> bool list \<Rightarrow> LogicNodeId list \<Rightarrow> LogicNodeId option list \<Rightarrow> Balance_Builder \<Rightarrow>
    (Balance_Builder, SynthError, LogicNodeId option list) outcome option"
  where
    "balance_loop net references absorbed [] remap b = Some (Inr remap, b)"
  | "balance_loop net references absorbed (i # ids) remap b =
      (if absorbed ! lit_index i then balance_loop net references absorbed ids remap b
       else case balance_node net references remap i b of
           None \<Rightarrow> None
         | Some (Inl e, b) \<Rightarrow> Some (Inl e, b)
         | Some (Inr new, b) \<Rightarrow> balance_loop net references absorbed ids (remap[lit_index i := new]) b)"

definition balance :: "LogicNetwork \<Rightarrow> LogicNodeId list \<Rightarrow> (LogicGraph, SynthError, LogicNodeId option list) outcome option"
  where "balance net roots =
    (case rmap LogicNodeId_from_index [0..<node_count net] of
       Inl e \<Rightarrow> Some (Inl e, LogicGraph_new)
     | Inr ids \<Rightarrow>
         (let references = reference_counts net ids roots; absorbed = absorbed_nodes net references ids
          in case balance_loop net references absorbed ids (replicate (node_count net) None) \<lparr>bl_graph = LogicGraph_new, bl_levels = [0]\<rparr> of
               None \<Rightarrow> None
             | Some (Inl e, b) \<Rightarrow> Some (Inl e, bl_graph b)
             | Some (Inr remap, b) \<Rightarrow> Some (Inr remap, LogicGraph_freeze (bl_graph b))))"

end
