(* ===== verification/Axm_Balance_Tables.thy ===== *)
theory Axm_Balance_Tables
  imports Axm_Balance
begin

text \<open>
  Balancing keeps the function of every root: each literal of the new graph denotes what the node it
  replaces denotes, when the new inputs have the values of the old ones.
\<close>

section \<open>The frozen network\<close>

text \<open>What the walks need of a network with the gates \<open>G\<close>.\<close>

definition frozen :: "LogicNetwork \<Rightarrow> gates \<Rightarrow> bool"
  where "frozen net G \<longleftrightarrow> wf_gates G \<and> (\<forall>l. valid_lit G l \<longleftrightarrow> lit_index l < node_count net) \<and>
    (\<forall>l. valid_lit G l \<longrightarrow> G (Lit_node l) = Some (gate_of_node (net_node net l)) \<and> net_node net l \<noteq> NConst True)"

lemma freeze_frozen:
  assumes "builder_ok b"
  shows "frozen (freeze b) (builder_gates b)"
proof -
  have o: "lengths_ok b" using assms by (simp add: builder_ok_def)
  have gates: "builder_gates b (Lit_node l) = (if lit_index l < length (kinds b) then Some (gate_at b (lit_index l)) else None)" for l
    by (rule gate_view_builder [OF o])
  have "net_node (freeze b) l \<noteq> NConst True \<and> gate_of_node (net_node (freeze b) l) = gate_at b (lit_index l)"
    if "valid_lit (builder_gates b) l" for l
  proof -
    have i: "lit_index l < length (kinds b)" using that gates by (auto simp: valid_lit_def split: if_splits)
    then obtain n where n: "node_of (freeze b) l = Inr n" "gate_of_node n = gate_at b (lit_index l)"
      using node_of_freeze [OF assms, of l] gates by auto
    moreover have "n \<noteq> NConst True"
      using n(1) by (cases "net_kind (freeze b) (Lit_node l)"; cases "the (net_kind (freeze b) (Lit_node l))")
        (auto simp: node_of_def Let_def rbind_eq_Inr unwrap_def)
    ultimately show ?thesis by (simp add: net_node_def)
  qed
  moreover have "valid_lit (builder_gates b) l \<longleftrightarrow> lit_index l < node_count (freeze b)" for l
    by (auto simp: valid_lit_def gates node_count_def)
  ultimately show ?thesis using builder_wf [OF assms] gates by (auto simp: frozen_def node_count_def valid_lit_def split: if_splits)
qed

lemma node_fanins_gate: "set (node_fanins n) = gate_lits (gate_of_node n)"
  by (cases n) auto

lemma frozen_fanin:
  assumes "frozen net G" "valid_lit G i" "f \<in> set (node_fanins (net_node net i))"
  shows "valid_lit G f" "lit_index f < lit_index i"
  using assms wf_litD [of G "Lit_node i" "gate_of_node (net_node net i)" f] by (auto simp: frozen_def node_fanins_gate)

lemma frozen_eval:
  assumes "frozen net G" "valid_lit G l" "\<not> is_inverted l"
  shows "net_node net l = NAnd a b \<Longrightarrow> eval_lit G env l = (eval_lit G env a \<and> eval_lit G env b)"
    and "net_node net l = NXor a b \<Longrightarrow> eval_lit G env l = (eval_lit G env a \<noteq> eval_lit G env b)"
    and "net_node net l = NMux a b c \<Longrightarrow> eval_lit G env l = (if eval_lit G env a then eval_lit G env b else eval_lit G env c)"
    and "net_node net l = NConst v \<Longrightarrow> eval_lit G env l = v"
    and "net_node net l = NVar x \<Longrightarrow> eval_lit G env l = env (Lit_node l)"
proof -
  have w: "wf_gates G" and g: "G (Lit_node l) = Some (gate_of_node (net_node net l))" and c: "net_node net l \<noteq> NConst True"
    using assms(1,2) by (auto simp: frozen_def)
  note e = gate_eval [OF w g assms(3)]
  show "net_node net l = NAnd a b \<Longrightarrow> eval_lit G env l = (eval_lit G env a \<and> eval_lit G env b)"
    "net_node net l = NXor a b \<Longrightarrow> eval_lit G env l = (eval_lit G env a \<noteq> eval_lit G env b)"
    "net_node net l = NMux a b c \<Longrightarrow> eval_lit G env l = (if eval_lit G env a then eval_lit G env b else eval_lit G env c)"
    using e by auto
  show "net_node net l = NConst v \<Longrightarrow> eval_lit G env l = v" "net_node net l = NVar x \<Longrightarrow> eval_lit G env l = env (Lit_node l)"
    using g c assms(3) by (auto simp: eval_lit_def eval_node.simps [of G env "Lit_node l"])
qed

text \<open>The positive literals of the nodes, in order.\<close>

definition node_ids :: "LogicNetwork \<Rightarrow> LogicNodeId list \<Rightarrow> bool"
  where "node_ids net ids \<longleftrightarrow> length ids = node_count net \<and> (\<forall>i < length ids. lit_index (ids ! i) = i \<and> \<not> is_inverted (ids ! i))"

lemma LogicNodeId_from_index_Inr: "LogicNodeId_from_index i = Inr l \<Longrightarrow> lit_index l = i \<and> \<not> is_inverted l"
  using NodeId_from_index_Inr [of i] Lit_from_node_Inr by (fastforce simp: LogicNodeId_from_index_def split: sum.splits)

lemma node_ids_from_index: "rmap LogicNodeId_from_index [0..<node_count net] = Inr ids \<Longrightarrow> node_ids net ids"
  using LogicNodeId_from_index_Inr by (auto simp: rmap_Inr node_ids_def list_all2_conv_all_nth)

lemma node_ids_distinct: "node_ids net ids \<Longrightarrow> distinct ids"
  by (metis distinct_conv_nth node_ids_def)

lemma node_ids_in: "node_ids net ids \<Longrightarrow> l \<in> set ids \<longleftrightarrow> lit_index l < node_count net \<and> \<not> is_inverted l"
  by (auto simp: node_ids_def in_set_conv_nth Lit_eq_iff NodeId_index_inj) (metis NodeId_index_inj)

section \<open>Reference counts\<close>

abbreviation occurrences :: "nat \<Rightarrow> LogicNodeId list \<Rightarrow> nat"
  where "occurrences j ls \<equiv> count_list (map lit_index ls) j"

lemma fold_count_reference:
  "\<forall>l \<in> set ls. lit_index l < length rs \<Longrightarrow>
    length (fold count_reference ls rs) = length rs \<and> (\<forall>j < length rs. fold count_reference ls rs ! j = rs ! j + occurrences j ls)"
  by (induction ls arbitrary: rs) (auto simp: count_reference_def nth_list_update)

lemma reference_counts_occurrences:
  assumes f: "frozen net G" and ids: "node_ids net ids" and roots: "\<forall>l \<in> set roots. valid_lit G l" and j: "j < node_count net"
  shows "reference_counts net ids roots ! j = occurrences j (concat (map (\<lambda>i. node_fanins (net_node net i)) ids) @ roots)"
proof -
  let ?F = "\<lambda>i. node_fanins (net_node net i)"
  have valid: "lit_index l < node_count net" if "i \<in> set ids" "l \<in> set (?F i)" for i l
  proof -
    have "valid_lit G i" using that(1) node_ids_in [OF ids] f by (auto simp: frozen_def)
    from frozen_fanin(1) [OF f this that(2)] f show ?thesis by (simp add: frozen_def)
  qed
  have inner: "\<forall>i \<in> set is'. \<forall>l \<in> set (?F i). lit_index l < length rs \<Longrightarrow>
      length (fold (\<lambda>i. fold count_reference (?F i)) is' rs) = length rs \<and>
      (\<forall>j < length rs. fold (\<lambda>i. fold count_reference (?F i)) is' rs ! j = rs ! j + occurrences j (concat (map ?F is')))" for is' rs
  proof (induction is' arbitrary: rs)
    case (Cons i is')
    let ?r = "fold count_reference (?F i) rs"
    have r: "length ?r = length rs" "\<forall>j < length rs. ?r ! j = rs ! j + occurrences j (?F i)"
      using fold_count_reference [of "?F i" rs] Cons.prems by auto
    with Cons.IH [of ?r] Cons.prems show ?case by simp
  qed simp
  let ?r = "fold (\<lambda>i. fold count_reference (?F i)) ids (replicate (node_count net) 0)"
  have r: "length ?r = node_count net" "\<forall>j < node_count net. ?r ! j = occurrences j (concat (map ?F ids))"
    using inner [of ids "replicate (node_count net) 0"] valid by auto
  have "\<forall>l \<in> set roots. lit_index l < length ?r" using roots f r(1) by (simp add: frozen_def)
  from fold_count_reference [OF this] r j show ?thesis by (simp add: reference_counts_def)
qed

lemma occurrences_le: "i \<in> set ids \<Longrightarrow> occurrences j (F i) \<le> occurrences j (concat (map F ids))"
  by (induction ids) auto

lemma occurrences_one:
  assumes "i \<in> set ids" "k \<in> set ids" "i \<noteq> k"
  shows "occurrences j (F i) + occurrences j (F k) \<le> occurrences j (concat (map F ids))"
  using assms by (induction ids) (auto simp: occurrences_le)

lemma occurrences_pos: "f \<in> set ls \<Longrightarrow> lit_index f = j \<Longrightarrow> 1 \<le> occurrences j ls"
  using count_list_0_iff [of "map lit_index ls" j] by (cases "occurrences j ls") auto

lemma occurrences_two: "f \<in> set ls \<Longrightarrow> g \<in> set ls \<Longrightarrow> f \<noteq> g \<Longrightarrow> lit_index f = j \<Longrightarrow> lit_index g = j \<Longrightarrow> 2 \<le> occurrences j ls"
proof (induction ls)
  case (Cons l ls)
  then show ?case using occurrences_pos [of f ls j] occurrences_pos [of g ls j] by auto
qed simp

section \<open>Absorbed nodes\<close>

text \<open>A node is absorbed by its only reader, which chains into it or links to it.\<close>

definition absorbs :: "LogicNetwork \<Rightarrow> nat list \<Rightarrow> LogicNodeId \<Rightarrow> LogicNodeId \<Rightarrow> bool"
  where "absorbs net references i f \<longleftrightarrow> f \<in> set (node_fanins (net_node net i)) \<and>
    (chains_into net references i f \<or> (\<exists>link. mux_chain_link net i references = Some (link, f)))"

lemma mux_chain_link_fanin:
  assumes "mux_chain_link net i references = Some (link, f)"
  obtains c t e where "net_node net i = NMux c t e" and "f = e \<and> link = (c, t) \<or> f = t \<and> link = (inverted c, e)"
    and "continues_chain net references f"
  using assms by (auto simp: mux_chain_link_def split: LogicNode.splits if_splits)

lemma absorbs_once: "absorbs net references i f \<Longrightarrow> references ! lit_index f = 1"
  by (auto simp: absorbs_def chains_into_def continues_chain_def elim!: mux_chain_link_fanin split: if_splits)

lemma list_update_True: "xs[k := True] ! j \<Longrightarrow> xs ! j \<or> k = j"
  by (cases "k = j") simp_all

lemma absorb_sets:
  assumes "absorb net references i absorbed ! j" and "\<not> absorbed ! j" and "j < length absorbed"
  shows "\<exists>f. absorbs net references i f \<and> lit_index f = j"
proof (cases "net_node net i")
  case (NMux c t e)
  show ?thesis
  proof (cases "mux_chain_link net i references")
    case (Some p)
    obtain link f where p: "p = (link, f)" by fastforce
    with Some have "mux_chain_link net i references = Some (link, f)" by simp
    moreover from this have "f \<in> set (node_fanins (net_node net i))" by (auto elim!: mux_chain_link_fanin)
    moreover have "lit_index f = j"
      using assms NMux Some p by (cases "lit_index f = j") (simp_all add: absorb_def)
    ultimately show ?thesis by (auto simp: absorbs_def)
  qed (use assms NMux in \<open>simp add: absorb_def\<close>)
qed (use assms in \<open>auto simp: absorb_def absorbs_def Let_def split: if_splits dest!: list_update_True\<close>)

lemma absorb_length [simp]: "length (absorb net references i absorbed) = length absorbed"
  by (auto simp: absorb_def Let_def split: LogicNode.split option.split)

lemma absorbed_nodes_reader:
  assumes "absorbed_nodes net references ids ! j" and "j < node_count net"
  shows "\<exists>i \<in> set ids. \<exists>f. absorbs net references i f \<and> lit_index f = j"
proof -
  have "fold (absorb net references) is' a ! j \<Longrightarrow> j < length a \<Longrightarrow> a ! j \<or> (\<exists>i \<in> set is'. \<exists>f. absorbs net references i f \<and> lit_index f = j)"
    for is' a
  proof (induction is' arbitrary: a)
    case (Cons i is')
    then have "absorb net references i a ! j \<or> (\<exists>i \<in> set is'. \<exists>f. absorbs net references i f \<and> lit_index f = j)" by simp
    with absorb_sets [of net references i a j] Cons.prems(2) show ?case by auto
  qed simp
  from this [of ids "replicate (node_count net) False"] assms show ?thesis by (simp add: absorbed_nodes_def)
qed

text \<open>Everything the walks need to know of the tables computed before them.\<close>

definition tables :: "LogicNetwork \<Rightarrow> gates \<Rightarrow> LogicNodeId list \<Rightarrow> LogicNodeId list \<Rightarrow> nat list \<Rightarrow> bool list \<Rightarrow> bool"
  where "tables net G ids roots references absorbed \<longleftrightarrow> frozen net G \<and> node_ids net ids \<and> (\<forall>l \<in> set roots. valid_lit G l) \<and>
    references = reference_counts net ids roots \<and> absorbed = absorbed_nodes net references ids"

lemma absorbed_reader:
  assumes t: "tables net G ids roots references absorbed" and c: "c \<in> set ids" "f \<in> set (node_fanins (net_node net c))"
    and a: "absorbed ! lit_index f"
  shows "absorbs net references c f" "occurrences (lit_index f) (node_fanins (net_node net c)) = 1"
proof -
  let ?F = "\<lambda>i. node_fanins (net_node net i)" and ?j = "lit_index f"
  have f: "frozen net G" and ids: "node_ids net ids" and roots: "\<forall>l \<in> set roots. valid_lit G l"
    and r: "references = reference_counts net ids roots" and ab: "absorbed = absorbed_nodes net references ids"
    using t by (auto simp: tables_def)
  have "valid_lit G c" using c(1) node_ids_in [OF ids] f by (simp add: frozen_def)
  from frozen_fanin(1) [OF f this c(2)] f have j: "?j < node_count net" by (simp add: frozen_def)
  obtain k g where k: "k \<in> set ids" "absorbs net references k g" "lit_index g = ?j"
    using absorbed_nodes_reader [OF a [unfolded ab] j] by blast
  have one: "references ! ?j = 1" using absorbs_once [OF k(2)] k(3) by simp
  then have le: "occurrences ?j (concat (map ?F ids)) \<le> 1"
    using reference_counts_occurrences [OF f ids roots j] r by simp
  have g: "g \<in> set (?F k)" using k(2) by (simp add: absorbs_def)
  have "k = c"
  proof (rule ccontr)
    assume "k \<noteq> c"
    with occurrences_one [OF k(1) c(1), where j = ?j and F = ?F] occurrences_pos [OF g k(3)] occurrences_pos [OF c(2) refl] le show False by simp
  qed
  have small: "occurrences ?j (?F c) \<le> 1" using occurrences_le [OF c(1), where j = ?j and F = ?F] le by simp
  have "g = f"
  proof (rule ccontr)
    assume "g \<noteq> f"
    with occurrences_two [of g "?F c" f ?j] g c(2) k(3) \<open>k = c\<close> small show False by simp
  qed
  with k(2) \<open>k = c\<close> show "absorbs net references c f" by simp
  show "occurrences ?j (?F c) = 1" using small occurrences_pos [OF c(2) refl] by simp
qed

lemma root_not_absorbed:
  assumes t: "tables net G ids roots references absorbed" and r: "r \<in> set roots"
  shows "\<not> absorbed ! lit_index r"
proof
  let ?F = "\<lambda>i. node_fanins (net_node net i)" and ?j = "lit_index r"
  assume a: "absorbed ! ?j"
  have f: "frozen net G" and ids: "node_ids net ids" and roots: "\<forall>l \<in> set roots. valid_lit G l"
    and rc: "references = reference_counts net ids roots" and ab: "absorbed = absorbed_nodes net references ids"
    using t by (auto simp: tables_def)
  have j: "?j < node_count net" using r roots f by (auto simp: frozen_def)
  obtain k g where k: "k \<in> set ids" "absorbs net references k g" "lit_index g = ?j"
    using absorbed_nodes_reader [OF a [unfolded ab] j] by blast
  have "references ! ?j = 1" using absorbs_once [OF k(2)] k(3) by simp
  moreover have "references ! ?j = occurrences ?j (concat (map ?F ids)) + occurrences ?j roots"
    using reference_counts_occurrences [OF f ids roots j] rc by simp
  moreover have "1 \<le> occurrences ?j (concat (map ?F ids))"
    using occurrences_le [OF k(1), where j = ?j and F = ?F] occurrences_pos [of g "?F k" ?j] k(2,3) by (simp add: absorbs_def)
  moreover have "1 \<le> occurrences ?j roots" by (rule occurrences_pos [OF r refl])
  ultimately show False by simp
qed

end
