(* ===== verification/Axm_Balance_Walks.thy ===== *)
theory Axm_Balance_Walks
  imports Axm_Balance_Tables
begin

text \<open>
  The walks over the chains of a frozen network: the operands of a chain of conjunctions or exclusive
  disjunctions, and the links of a chain of multiplexers, have the function of the chain, and none of
  them was absorbed, so each already has a literal in the new graph.
\<close>

section \<open>What a gate computes from its operands\<close>

fun gate_all :: "Gate \<Rightarrow> bool list \<Rightarrow> bool"
  where
    "gate_all GateAnd xs = (\<forall>x \<in> set xs. x)"
  | "gate_all GateOr xs = (\<exists>x \<in> set xs. x)"
  | "gate_all GateXor xs = odd (count_list xs True)"

fun gate_op :: "Gate \<Rightarrow> bool \<Rightarrow> bool \<Rightarrow> bool"
  where
    "gate_op GateAnd a b = (a \<and> b)"
  | "gate_op GateOr a b = (a \<or> b)"
  | "gate_op GateXor a b = (a \<noteq> b)"

lemma gate_all_append: "gate_all g (xs @ ys) = gate_op g (gate_all g xs) (gate_all g ys)"
  by (cases g) auto

lemma gate_op_laws: "gate_op g a b = gate_op g b a" "gate_op g (gate_op g a b) c = gate_op g a (gate_op g b c)"
  by (cases g; auto)+

lemma gate_op_swap: "gate_op g b (gate_op g a c) = gate_op g (gate_op g a b) c"
  by (cases g) auto

lemma gate_all_single [simp]: "gate_all g [a] = a"
  by (cases g) auto

lemma gate_all_Cons: "gate_all g (a # xs) = gate_op g a (gate_all g xs)"
  using gate_all_append [of g "[a]" xs] by simp

lemma gate_all_insort: "gate_all g (map f (insort x xs)) = gate_op g (f x) (gate_all g (map f xs))"
  by (induction xs) (auto simp: gate_all_Cons gate_op_laws(1) [of g "f x"] gate_op_laws(2) [of g _ _ "f x"])

lemma gate_all_nil_op: "gate_op g (gate_all g xs) (gate_all g []) = gate_all g xs"
  by (cases g) auto

section \<open>Chains of one gate\<close>

definition chain_gate :: "LogicNetwork \<Rightarrow> LogicNodeId \<Rightarrow> Gate option"
  where "chain_gate net i = (case net_node net i of NAnd _ _ \<Rightarrow> Some GateAnd | NXor _ _ \<Rightarrow> Some GateXor | _ \<Rightarrow> None)"

lemma chains_into_gate:
  "chains_into net references c f \<longleftrightarrow>
    \<not> is_inverted f \<and> references ! lit_index f = 1 \<and> chain_gate net f = chain_gate net c \<and> chain_gate net c \<noteq> None"
  by (auto simp: chains_into_def chain_gate_def split: LogicNode.split)

lemma chain_gate_fanins:
  assumes "frozen net G" "valid_lit G f" "\<not> is_inverted f" and "chain_gate net f = Some g"
  obtains a b where "node_fanins (net_node net f) = [a, b]" and "\<And>env. eval_lit G env f = gate_op g (eval_lit G env a) (eval_lit G env b)"
  using assms frozen_eval(1,2) [OF assms(1-3)] by (fastforce simp: chain_gate_def split: LogicNode.splits)

lemma mux_link_not_chain: "chain_gate net c \<noteq> None \<Longrightarrow> mux_chain_link net c references = None"
  by (auto simp: chain_gate_def mux_chain_link_def split: LogicNode.splits)

text \<open>An operand was read by a node of the chain.\<close>

definition chain_fanin :: "LogicNetwork \<Rightarrow> LogicNodeId list \<Rightarrow> Gate \<Rightarrow> LogicNodeId \<Rightarrow> bool"
  where "chain_fanin net ids g f \<longleftrightarrow> (\<exists>c \<in> set ids. chain_gate net c = Some g \<and> f \<in> set (node_fanins (net_node net c)))"

lemma chain_fanin_valid:
  assumes "tables net G ids roots references absorbed" and "chain_fanin net ids g f"
  shows "valid_lit G f"
proof -
  obtain c where c: "c \<in> set ids" "f \<in> set (node_fanins (net_node net c))" using assms(2) by (auto simp: chain_fanin_def)
  have f: "frozen net G" and "node_ids net ids" using assms(1) by (auto simp: tables_def)
  with c(1) have "valid_lit G c" by (simp add: node_ids_in frozen_def)
  from frozen_fanin(1) [OF f this c(2)] show ?thesis .
qed

lemma chain_operands_correct:
  assumes t: "tables net G ids roots references absorbed" and i: "chain_gate net i = Some g"
    and "\<forall>f \<in> set stack. chain_fanin net ids g f \<and> lit_index f < n"
  shows "\<exists>leaves. chain_operands net references i stack operands = Some (operands @ leaves) \<and>
    (\<forall>f \<in> set leaves. valid_lit G f \<and> lit_index f < n \<and> \<not> absorbed ! lit_index f) \<and>
    (\<forall>env. gate_all g (map (eval_lit G env) leaves) = gate_all g (map (eval_lit G env) stack)) \<and> (stack \<noteq> [] \<longrightarrow> leaves \<noteq> [])"
  using assms(3)
proof (induction "sum_list (map (\<lambda>f. 3 ^ lit_index f :: nat) stack)" arbitrary: stack operands rule: less_induct)
  case less
  have f: "frozen net G" using t by (simp add: tables_def)
  show ?case
  proof (cases stack)
    case (Cons x rest)
    have x: "chain_fanin net ids g x" "lit_index x < n" "valid_lit G x" using less.prems Cons chain_fanin_valid [OF t] by auto
    show ?thesis
    proof (cases "chains_into net references i x")
      case True
      then have g: "\<not> is_inverted x" "chain_gate net x = Some g" using i by (auto simp: chains_into_gate)
      obtain a b where ab: "node_fanins (net_node net x) = [a, b]" and ev: "\<And>env. eval_lit G env x = gate_op g (eval_lit G env a) (eval_lit G env b)"
        using chain_gate_fanins [OF f x(3) g] by metis
      have small: "lit_index a < lit_index x" "lit_index b < lit_index x" using frozen_fanin(2) [OF f x(3)] ab by auto
      have "x \<in> set ids" using x(3) g(1) t node_ids_in by (auto simp: tables_def frozen_def)
      then have fan: "chain_fanin net ids g a" "chain_fanin net ids g b" using g(2) ab by (auto simp: chain_fanin_def intro!: bexI [of _ x])
      obtain k where k: "lit_index x = Suc k" using small(1) by (cases "lit_index x") auto
      have "(3::nat) ^ lit_index a \<le> 3 ^ k" "(3::nat) ^ lit_index b \<le> 3 ^ k" "(3::nat) ^ k > 0"
        using small k by (auto intro: power_increasing)
      then have "(3::nat) ^ lit_index b + 3 ^ lit_index a < 3 ^ lit_index x" unfolding k power_Suc by linarith
      then have "sum_list (map (\<lambda>f. 3 ^ lit_index f) (b # a # rest)) < sum_list (map (\<lambda>f. 3 ^ lit_index f :: nat) stack)"
        using Cons by simp
      from less.hyps [OF this, of operands] fan small x(2) less.prems Cons obtain leaves where
        l: "chain_operands net references i (b # a # rest) operands = Some (operands @ leaves)"
          "\<forall>f \<in> set leaves. valid_lit G f \<and> lit_index f < n \<and> \<not> absorbed ! lit_index f"
          "\<And>env. gate_all g (map (eval_lit G env) leaves) = gate_all g (map (eval_lit G env) (b # a # rest))" "leaves \<noteq> []"
        by auto
      have "gate_all g (map (eval_lit G env) leaves) = gate_all g (map (eval_lit G env) stack)" for env
        unfolding l(3) by (simp only: Cons list.map gate_all_Cons ev gate_op_swap)
      moreover have "chain_operands net references i stack operands = Some (operands @ leaves)"
        using l(1) True ab by (subst chain_operands.simps) (simp add: Cons)
      ultimately show ?thesis using l(2,4) by blast
    next
      case False
      have "sum_list (map (\<lambda>f. 3 ^ lit_index f) rest) < sum_list (map (\<lambda>f. 3 ^ lit_index f :: nat) stack)" using Cons by simp
      from less.hyps [OF this, of "operands @ [x]"] less.prems Cons obtain leaves where
        l: "chain_operands net references i rest (operands @ [x]) = Some ((operands @ [x]) @ leaves)"
          "\<forall>f \<in> set leaves. valid_lit G f \<and> lit_index f < n \<and> \<not> absorbed ! lit_index f"
          "\<forall>env. gate_all g (map (eval_lit G env) leaves) = gate_all g (map (eval_lit G env) rest)"
        by auto
      obtain c where c: "c \<in> set ids" "chain_gate net c = Some g" "x \<in> set (node_fanins (net_node net c))"
        using x(1) by (auto simp: chain_fanin_def)
      have "\<not> absorbed ! lit_index x"
      proof
        assume "absorbed ! lit_index x"
        from absorbed_reader(1) [OF t c(1,3) this] have "chains_into net references c x"
          using mux_link_not_chain [of net c references] c(2) by (simp add: absorbs_def)
        with False c(2) i show False by (simp add: chains_into_gate)
      qed
      moreover have "chain_operands net references i stack operands = Some (operands @ x # leaves)"
        using l(1) False by (subst chain_operands.simps) (simp add: Cons)
      ultimately show ?thesis using l(2,3) x by (intro exI [of _ "x # leaves"]) (simp add: Cons gate_all_Cons)
    qed
  qed (subst chain_operands.simps, simp)
qed

section \<open>Chains of multiplexers\<close>

fun priority :: "('a \<Rightarrow> bool) \<Rightarrow> ('a \<times> 'a) list \<Rightarrow> 'a \<Rightarrow> bool"
  where
    "priority ev [] d = ev d"
  | "priority ev ((select, data) # links) d = (if ev select then ev data else priority ev links d)"

lemma priority_append: "priority ev (xs @ ys) d = (if \<exists>x \<in> set xs. ev (fst x) then priority ev xs d else priority ev ys d)"
  by (induction ev xs d rule: priority.induct) auto

lemma priority_default: "\<exists>x \<in> set xs. ev (fst x) \<Longrightarrow> priority ev xs d = priority ev xs e"
  by (induction ev xs d rule: priority.induct) auto

lemma priority_cong: "(\<forall>p \<in> set xs. ev (fst p) = ev' (fst p) \<and> ev (snd p) = ev' (snd p)) \<Longrightarrow> ev d = ev' d \<Longrightarrow> priority ev xs d = priority ev' xs d"
  by (induction ev xs d rule: priority.induct) auto

lemma mux_not_absorbed:
  assumes t: "tables net G ids roots references absorbed" and c: "c \<in> set ids" "net_node net c = NMux a b e"
    and f: "f \<in> {a, b, e}" and none: "mux_chain_link net c references = None \<or>
      (\<exists>link h. mux_chain_link net c references = Some (link, h) \<and> (f = a \<or> f \<noteq> h \<or> b = e))"
  shows "\<not> absorbed ! lit_index f"
proof
  assume ab: "absorbed ! lit_index f"
  have fan: "f \<in> set (node_fanins (net_node net c))" using f c(2) by auto
  have "\<not> chains_into net references c f" using c(2) by (simp add: chains_into_gate chain_gate_def)
  with absorbed_reader(1) [OF t c(1) fan ab] obtain link where link: "mux_chain_link net c references = Some (link, f)"
    by (auto simp: absorbs_def)
  have "occurrences (lit_index f) [a, b, e] = 1" using absorbed_reader(2) [OF t c(1) fan ab] c(2) by simp
  moreover have "f = e \<or> f = b" using link c(2) by (auto elim!: mux_chain_link_fanin)
  moreover have "f = a \<or> b = e" using none link by auto
  ultimately show False by (auto split: if_splits)
qed

lemma mux_links_correct:
  assumes t: "tables net G ids roots references absorbed" and "c \<in> set ids" and "net_node net c = NMux a b e"
  shows "\<exists>more d. mux_links net references c links = Some (links @ more, d) \<and> more \<noteq> [] \<and>
    (\<forall>f \<in> set (map fst more @ map snd more @ [d]). valid_lit G f \<and> lit_index f < lit_index c \<and> \<not> absorbed ! lit_index f) \<and>
    (\<forall>env. priority (eval_lit G env) more d = eval_lit G env c)"
  using assms(2,3)
proof (induction "lit_index c" arbitrary: c a b e links rule: less_induct)
  case less
  have f: "frozen net G" and ids: "node_ids net ids" using t by (auto simp: tables_def)
  have c: "valid_lit G c" "\<not> is_inverted c" using less.prems(1) node_ids_in [OF ids] f by (auto simp: frozen_def)
  note ev = frozen_eval(3) [OF f c less.prems(2)]
  have fan: "valid_lit G x \<and> lit_index x < lit_index c" if "x \<in> {a, b, e}" for x
    using frozen_fanin [OF f c(1), of x] that less.prems(2) by auto
  show ?case
  proof (cases "mux_chain_link net c references")
    case None
    have na: "\<not> absorbed ! lit_index x" if "x \<in> {a, b, e}" for x
      by (rule mux_not_absorbed [OF t less.prems that]) (simp add: None)
    have "mux_links net references c links = Some (links @ [(a, b)], e)"
      by (subst mux_links.simps) (simp add: None less.prems(2))
    moreover have "\<forall>f \<in> set (map fst [(a, b)] @ map snd [(a, b)] @ [e]). valid_lit G f \<and> lit_index f < lit_index c \<and> \<not> absorbed ! lit_index f"
      using na fan by auto
    ultimately show ?thesis using ev by (intro exI [of _ "[(a, b)]"] exI [of _ e]) simp
  next
    case (Some p)
    obtain s x h where p: "p = ((s, x), h)" by (cases p) auto
    note link = Some [unfolded p]
    have cases': "h = e \<and> s = a \<and> x = b \<or> h = b \<and> s = inverted a \<and> x = e" and cont: "continues_chain net references h"
      using link less.prems(2) by (auto elim!: mux_chain_link_fanin)
    then obtain a' b' e' where h: "net_node net h = NMux a' b' e'" "\<not> is_inverted h"
      by (auto simp: continues_chain_def split: LogicNode.splits)
    have h': "valid_lit G h" "lit_index h < lit_index c" using fan [of h] cases' by auto
    then have hin: "h \<in> set ids" using h(2) node_ids_in [OF ids] f by (simp add: frozen_def)
    obtain more d where m: "mux_links net references h (links @ [(s, x)]) = Some ((links @ [(s, x)]) @ more, d)"
      "\<forall>f \<in> set (map fst more @ map snd more @ [d]). valid_lit G f \<and> lit_index f < lit_index h \<and> \<not> absorbed ! lit_index f"
      "\<forall>env. priority (eval_lit G env) more d = eval_lit G env h"
      using less.hyps [OF h'(2) hin h(1), of "links @ [(s, x)]"] by blast
    have na: "\<not> absorbed ! lit_index a" by (rule mux_not_absorbed [OF t less.prems]) (use link in auto)
    have nx: "\<not> absorbed ! lit_index x"
      by (rule mux_not_absorbed [OF t less.prems]) (use link cases' in auto)
    have "mux_links net references c links = Some (links @ (s, x) # more, d)"
      using m(1) by (subst mux_links.simps) (simp add: link)
    moreover have "\<forall>f \<in> set (map fst ((s, x) # more) @ map snd ((s, x) # more) @ [d]). valid_lit G f \<and> lit_index f < lit_index c \<and> \<not> absorbed ! lit_index f"
    proof -
      have "valid_lit G s" "lit_index s < lit_index c" "\<not> absorbed ! lit_index s" using cases' fan [of a] na by auto
      moreover have "valid_lit G x" "lit_index x < lit_index c" using cases' fan [of x] by auto
      moreover have "valid_lit G f \<and> lit_index f < lit_index c \<and> \<not> absorbed ! lit_index f"
        if "f \<in> set (map fst more @ map snd more @ [d])" for f
        using m(2) that h'(2) less_trans by blast
      ultimately show ?thesis using nx by auto
    qed
    moreover have "priority (eval_lit G env) ((s, x) # more) d = eval_lit G env c" for env
      using cases' ev [of env] spec [OF m(3), of env] by (elim disjE conjE) simp_all
    ultimately show ?thesis by (intro exI [of _ "(s, x) # more"] exI [of _ d]) blast
  qed
qed

end
