(* ===== verification/Axm_Balance_Build.thy ===== *)
theory Axm_Balance_Build
  imports Axm_Balance_Walks
begin

text \<open>
  Building in the new graph: every call only extends the graph, keeps the meaning of each literal, and
  returns a literal for its gate, tree or priority chain, or the capacity panic of a full graph. Which
  shape a tree or a priority split takes depends on the levels; what it computes does not.
\<close>

section \<open>Extension\<close>

definition extends :: "LogicGraph \<Rightarrow> LogicGraph \<Rightarrow> bool"
  where "extends g g' \<longleftrightarrow> building g' \<and> graph_gates g \<subseteq>\<^sub>m graph_gates g' \<and>
    (\<forall>l env. valid_lit (graph_gates g) l \<longrightarrow> eval_lit (graph_gates g') env l = eval_lit (graph_gates g) env l)"

lemma extends_refl: "building g \<Longrightarrow> extends g g"
  by (simp add: extends_def)

lemma extends_valid: "extends g g' \<Longrightarrow> valid_lit (graph_gates g) l \<Longrightarrow> valid_lit (graph_gates g') l"
  unfolding extends_def valid_lit_def by (metis (no_types, lifting) domIff map_le_implies_dom_le subsetD)

lemma extends_trans: "extends g g' \<Longrightarrow> extends g' h \<Longrightarrow> extends g h"
  using extends_valid [of g g'] by (auto simp: extends_def intro: map_le_trans)

lemma graph_call_extends:
  "graph_call g F res \<longleftrightarrow> extends g (snd res) \<and>
    (case fst res of
       Inr x \<Rightarrow> valid_lit (graph_gates (snd res)) x \<and> (\<forall>env. eval_lit (graph_gates (snd res)) env x = F env)
     | Inl e \<Rightarrow> e = Panic ''logic network exceeds compact capacity'' \<and> graph_full (snd res))"
  by (auto simp: graph_call_def extends_def)

definition bl_call :: "Balance_Builder \<Rightarrow> (env \<Rightarrow> bool) \<Rightarrow> (Balance_Builder, SynthError, LogicNodeId) outcome \<Rightarrow> bool"
  where "bl_call b F res \<longleftrightarrow> graph_call (bl_graph b) F (fst res, bl_graph (snd res))"

abbreviation bl_eval :: "Balance_Builder \<Rightarrow> env \<Rightarrow> LogicNodeId \<Rightarrow> bool"
  where "bl_eval b \<equiv> eval_lit (graph_gates (bl_graph b))"

abbreviation bl_valid :: "Balance_Builder \<Rightarrow> LogicNodeId \<Rightarrow> bool"
  where "bl_valid b \<equiv> valid_lit (graph_gates (bl_graph b))"

abbreviation bl_extends :: "Balance_Builder \<Rightarrow> Balance_Builder \<Rightarrow> bool"
  where "bl_extends b b' \<equiv> extends (bl_graph b) (bl_graph b')"

lemma bl_eval_extends: "bl_extends b b' \<Longrightarrow> bl_valid b l \<Longrightarrow> bl_eval b' env l = bl_eval b env l"
  by (simp add: extends_def)

lemma bl_call_Inr: "bl_call b F (Inr l, b') \<longleftrightarrow> bl_extends b b' \<and> bl_valid b' l \<and> (\<forall>env. bl_eval b' env l = F env)"
  by (simp add: bl_call_def graph_call_extends)

lemma bl_call_Inl: "bl_call b F (Inl e, b') \<longleftrightarrow> bl_extends b b' \<and> e = Panic ''logic network exceeds compact capacity'' \<and> graph_full (bl_graph b')"
  by (simp add: bl_call_def graph_call_extends)

lemma bl_call_trans:
  assumes "bl_extends b b'" and "bl_call b' F' res" and "\<And>env. F' env = F env"
  shows "bl_call b F res"
  using assms extends_trans [OF assms(1)] by (cases res; cases "fst res") (auto simp: bl_call_Inr bl_call_Inl)

lemma bl_call_bind:
  assumes "bl_call b F res"
    and "\<And>l b'. bl_extends b b' \<Longrightarrow> bl_valid b' l \<Longrightarrow> (\<And>env. bl_eval b' env l = F env) \<Longrightarrow> bl_call b' H (k l b')"
  shows "bl_call b H (sbind res k)"
proof -
  obtain r b' where res: "res = (r, b')" by fastforce
  show ?thesis
  proof (cases r)
    case (Inr l)
    then have e: "bl_extends b b'" "bl_valid b' l" "\<And>env. bl_eval b' env l = F env" using assms(1) res by (auto simp: bl_call_Inr)
    have "bl_call b' H (k l b')" by (rule assms(2) [OF e])
    from bl_call_trans [OF e(1) this refl] show ?thesis by (simp add: res Inr)
  qed (use assms(1) res in \<open>simp add: bl_call_Inl\<close>)
qed

section \<open>Gates\<close>

lemma bl_graph_record [simp]: "bl_graph (bl_record b l k) = bl_graph b"
  by (simp add: bl_record_def)

lemma bl_build_call: "graph_call (bl_graph b) F res \<Longrightarrow> bl_call b F (bl_build b k res)"
  by (auto simp: bl_build_def bl_call_def split: prod.splits sum.splits)

lemma bl_gate_call:
  assumes "building (bl_graph b)" "bl_valid b l" "bl_valid b r"
  shows "bl_call b (\<lambda>env. gate_op gate (bl_eval b env l) (bl_eval b env r)) (bl_gate gate b l r)"
  unfolding bl_gate_def using LogicGraph_gates_correct [OF assms] by (intro bl_build_call) (cases gate; simp)

lemma bl_mux_call:
  assumes "building (bl_graph b)" "bl_valid b c" "bl_valid b t" "bl_valid b e"
  shows "bl_call b (\<lambda>env. if bl_eval b env c then bl_eval b env t else bl_eval b env e) (bl_mux b c t e)"
  unfolding bl_mux_def by (rule bl_build_call, rule LogicGraph_mux_correct [OF assms])

section \<open>Trees\<close>

lemma tree_loop_call:
  assumes "building (bl_graph b)" and "\<forall>l \<in> set store. bl_valid b l" and "\<forall>p \<in> set heap. snd p < length store" and "heap \<noteq> []"
  shows "\<exists>res. tree_loop gate heap store b = smap Some res \<and>
    bl_call b (\<lambda>env. gate_all gate (map (\<lambda>p. bl_eval b env (store ! snd p)) heap)) res"
  using assms
proof (induction gate heap store b rule: tree_loop.induct)
  case (2 gate k slot store b)
  then have "bl_call b (\<lambda>env. gate_all gate (map (\<lambda>p. bl_eval b env (store ! snd p)) [(k, slot)])) (Inr (store ! slot), b)"
    by (simp add: bl_call_Inr extends_refl)
  moreover have "tree_loop gate [(k, slot)] store b = smap Some (Inr (store ! slot), b)" by simp
  ultimately show ?case by blast
next
  case (3 gate k left m right heap store b)
  let ?c = "bl_gate gate b (store ! left) (store ! right)"
  let ?F = "\<lambda>env. gate_all gate (map (\<lambda>p. bl_eval b env (store ! snd p)) ((k, left) # (m, right) # heap))"
  have v: "bl_valid b (store ! left)" "bl_valid b (store ! right)" using "3.prems"(2,3) by auto
  note c = bl_gate_call [OF "3.prems"(1) v, of gate]
  obtain r b' where res: "?c = (r, b')" by fastforce
  show ?case
  proof (cases r)
    case (Inl e)
    with c res have "bl_call b ?F (Inl e, b')" by (simp add: bl_call_Inl)
    moreover have "tree_loop gate ((k, left) # (m, right) # heap) store b = smap Some (Inl e, b')" by (simp add: res Inl)
    ultimately show ?thesis by blast
  next
    case (Inr l)
    with c res have e: "bl_extends b b'" "bl_valid b' l"
      "\<And>env. bl_eval b' env l = gate_op gate (bl_eval b env (store ! left)) (bl_eval b env (store ! right))"
      by (auto simp: bl_call_Inr)
    let ?heap = "insort (bl_level b' l, length store) heap" and ?store = "store @ [l]"
    have b': "building (bl_graph b')" using e(1) by (simp add: extends_def)
    have s: "\<forall>x \<in> set ?store. bl_valid b' x" using "3.prems"(2) e(2) extends_valid [OF e(1)] by auto
    have h: "\<forall>p \<in> set ?heap. snd p < length ?store" using "3.prems"(3) by (auto simp: set_insort_key)
    have ne: "?heap \<noteq> []" by (simp add: insort_not_Nil)
    obtain res' where res': "tree_loop gate ?heap ?store b' = smap Some res'"
      "bl_call b' (\<lambda>env. gate_all gate (map (\<lambda>p. bl_eval b' env (?store ! snd p)) ?heap)) res'"
      using "3.IH" [OF res [unfolded Inr] b' s h ne] by blast
    have old: "map (\<lambda>p. bl_eval b' env (?store ! snd p)) heap = map (\<lambda>p. bl_eval b env (store ! snd p)) heap" for env
      using "3.prems"(2,3) bl_eval_extends [OF e(1)] by (auto simp: nth_append)
    have "gate_all gate (map (\<lambda>p. bl_eval b' env (?store ! snd p)) ?heap) = ?F env" for env
      unfolding gate_all_insort old by (simp add: e(3) gate_all_Cons gate_op_laws(2))
    then have "bl_call b ?F res'" by (rule bl_call_trans [OF e(1) res'(2)])
    moreover have "tree_loop gate ((k, left) # (m, right) # heap) store b = smap Some res'" using res'(1) by (simp add: res Inr)
    ultimately show ?thesis by blast
  qed
qed simp

lemma gate_all_heap:
  "gate_all g (map f (fold (\<lambda>x. insort (h x)) xs heap)) = gate_op g (gate_all g (map (\<lambda>x. f (h x)) xs)) (gate_all g (map f heap))"
proof (induction xs arbitrary: heap)
  case Nil
  then show ?case by (cases g) auto
next
  case (Cons x xs)
  then show ?case
    by (simp add: gate_all_insort gate_all_Cons) (cases g; auto)
qed

lemma set_heap: "set (fold (\<lambda>x. insort (h x)) xs heap) = h ` set xs \<union> set heap"
  by (induction xs arbitrary: heap) (auto simp: set_insort_key)

lemma build_tree_call:
  assumes "building (bl_graph b)" and "\<forall>l \<in> set operands. bl_valid b l" and "operands \<noteq> []"
  shows "\<exists>res. build_tree gate operands b = smap Some res \<and> bl_call b (\<lambda>env. gate_all gate (map (bl_eval b env) operands)) res"
proof -
  let ?h = "\<lambda>(slot, operand). (bl_level b operand, slot)"
  let ?heap = "fold (\<lambda>x. insort (?h x)) (enumerate 0 operands) []"
  have heap: "fold (\<lambda>(slot, operand). insort (bl_level b operand, slot)) (enumerate 0 operands) [] = ?heap"
    by (simp add: case_prod_beta')
  have set: "set ?heap = ?h ` set (enumerate 0 operands)" unfolding set_heap by simp
  have h: "\<forall>p \<in> set ?heap. snd p < length operands" unfolding set by (auto simp: in_set_enumerate_eq)
  have ne: "?heap \<noteq> []" using assms(3) set by (cases operands) auto
  have "map (\<lambda>x. bl_eval b env (operands ! snd (?h x))) (enumerate 0 operands) = map (bl_eval b env) operands" for env
    by (rule nth_equalityI) (auto simp: nth_enumerate_eq)
  then have "gate_all gate (map (\<lambda>p. bl_eval b env (operands ! snd p)) ?heap) = gate_all gate (map (bl_eval b env) operands)" for env
    unfolding gate_all_heap by (simp add: gate_all_nil_op)
  with tree_loop_call [OF assms(1,2) h ne, of gate] show ?thesis by (simp add: build_tree_def heap)
qed

section \<open>Priority chains\<close>

lemma priority_split:
  assumes "0 < k" "k \<le> length links"
  shows "priority ev links d =
    (if \<exists>x \<in> set (take k links). ev (fst x) then priority ev (take (k - 1) links) (snd (links ! (k - 1))) else priority ev (drop k links) d)"
proof -
  obtain n where k: "k = Suc n" "n < length links" using assms by (cases k) auto
  then have t: "take k links = take n links @ [links ! n]" by (simp add: take_Suc_conv_app_nth)
  have "priority ev links d = priority ev (take k links @ drop k links) d" by simp
  also have "\<dots> = (if \<exists>x \<in> set (take k links). ev (fst x) then priority ev (take k links) d else priority ev (drop k links) d)"
    by (rule priority_append)
  also have "priority ev (take k links) d = priority ev (take n links) (snd (links ! n))" if "\<exists>x \<in> set (take k links). ev (fst x)"
  proof (cases "\<exists>x \<in> set (take n links). ev (fst x)")
    case True
    then show ?thesis unfolding t by (simp add: priority_append priority_default [OF True, of d "snd (links ! n)"])
  next
    case False
    then have "ev (fst (links ! n))" using that t by auto
    moreover have "priority ev xs y = ev y" if "\<not> (\<exists>x \<in> set xs. ev (fst x))" for xs y
      using that by (induction ev xs y rule: priority.induct) auto
    ultimately show ?thesis unfolding t using False by (cases "links ! n") (simp add: priority_append)
  qed
  ultimately show ?thesis using k(1) by simp
qed

definition links_valid :: "Balance_Builder \<Rightarrow> (LogicNodeId \<times> LogicNodeId) list \<Rightarrow> bool"
  where "links_valid b links \<longleftrightarrow> (\<forall>p \<in> set links. bl_valid b (fst p) \<and> bl_valid b (snd p))"

lemma links_valid_extends: "bl_extends b b' \<Longrightarrow> links_valid b links \<Longrightarrow> links_valid b' links"
  using extends_valid by (auto simp: links_valid_def)

lemma links_valid_sub: "links_valid b links \<Longrightarrow> links_valid b (take k links)" "links_valid b links \<Longrightarrow> links_valid b (drop k links)"
  by (auto simp: links_valid_def dest: in_set_takeD in_set_dropD)

lemma priority_extends:
  "bl_extends b b' \<Longrightarrow> links_valid b links \<Longrightarrow> bl_valid b d \<Longrightarrow> priority (bl_eval b' env) links d = priority (bl_eval b env) links d"
  by (rule priority_cong) (auto simp: links_valid_def bl_eval_extends)

lemma extends_building: "extends g g' \<Longrightarrow> building g'"
  by (simp add: extends_def)

lemma build_priority_call:
  assumes "building (bl_graph b)" and "links_valid b links" and "bl_valid b d"
  shows "bl_call b (\<lambda>env. priority (bl_eval b env) links d) (build_priority b links d)"
  using assms
proof (induction "length links" arbitrary: b links d rule: less_induct)
  case less
  consider "links = []" | select data where "links = [(select, data)]" | select data link rest where "links = (select, data) # link # rest"
    by (metis list.exhaust surj_pair)
  then show ?case
  proof cases
    case 1
    with less.prems show ?thesis by (simp add: bl_call_Inr extends_refl)
  next
    case (2 select data)
    with less.prems bl_mux_call [of b select data d] show ?thesis by (simp add: links_valid_def if_bool_eq_conj)
  next
    case (3 select data link rest)
    let ?tl = "link # rest" and ?k = "half links" and ?F = "\<lambda>env. priority (bl_eval b env) links d"
    let ?peel = "sbind (build_priority b ?tl d) (\<lambda>tail_value b. bl_mux b select data tail_value)"
    have k: "0 < ?k" "?k < length links" "1 < length links" using 3 by (auto simp: half_def)
    have vs: "bl_valid b select" "bl_valid b data" "links_valid b ?tl" using less.prems(2) 3 by (auto simp: links_valid_def)
    have ih: "bl_call b (\<lambda>env. priority (bl_eval b env) ?tl d) (build_priority b ?tl d)"
      by (rule less.hyps [OF _ less.prems(1) vs(3) less.prems(3)]) (simp add: 3)
    have peel: "bl_call b ?F ?peel"
    proof (rule bl_call_bind [OF ih])
      fix l b' assume e: "bl_extends b b'" "bl_valid b' l" "\<And>env. bl_eval b' env l = priority (bl_eval b env) ?tl d"
      have "bl_call b' (\<lambda>env. if bl_eval b' env select then bl_eval b' env data else bl_eval b' env l) (bl_mux b' select data l)"
        by (rule bl_mux_call [OF extends_building [OF e(1)] extends_valid [OF e(1) vs(1)] extends_valid [OF e(1) vs(2)] e(2)])
      then show "bl_call b' ?F (bl_mux b' select data l)"
        by (simp add: 3 e(3) bl_eval_extends [OF e(1) vs(1)] bl_eval_extends [OF e(1) vs(2)] if_bool_eq_conj)
    qed
    let ?split = "sbind (build_tree GateOr (map fst (take ?k links)) b) (\<lambda>guard b.
             case guard of None \<Rightarrow> (Inl (Panic ''priority splits guard at least two selects''), b)
             | Some guard \<Rightarrow>
                 sbind (build_priority b (take (?k - 1) links) (snd (links ! (?k - 1)))) (\<lambda>top_value b.
                 sbind (build_priority b (drop ?k links) d) (\<lambda>bottom b. bl_mux b guard top_value bottom)))"
    have split: "bl_call b ?F ?split"
    proof -
      let ?t = "snd (links ! (?k - 1))"
      have t: "bl_valid b ?t" using less.prems(2) k by (simp add: links_valid_def)
      have "\<forall>l \<in> set (map fst (take ?k links)). bl_valid b l" "map fst (take ?k links) \<noteq> []"
        using less.prems(2) k by (auto simp: links_valid_def dest: in_set_takeD)
      from build_tree_call [OF less.prems(1) this, of GateOr] obtain res where
        res: "build_tree GateOr (map fst (take ?k links)) b = smap Some res"
          "bl_call b (\<lambda>env. gate_all GateOr (map (bl_eval b env) (map fst (take ?k links)))) res" by blast
      have "bl_call b ?F (sbind res (\<lambda>guard b.
                 sbind (build_priority b (take (?k - 1) links) ?t) (\<lambda>top_value b.
                 sbind (build_priority b (drop ?k links) d) (\<lambda>bottom b. bl_mux b guard top_value bottom))))"
      proof (rule bl_call_bind [OF res(2)])
        fix guard b1 assume e1: "bl_extends b b1" "bl_valid b1 guard"
          "\<And>env. bl_eval b1 env guard = gate_all GateOr (map (bl_eval b env) (map fst (take ?k links)))"
        have lv1: "links_valid b1 links" and d1: "bl_valid b1 d" and t1: "bl_valid b1 ?t" and b1: "building (bl_graph b1)"
          using links_valid_extends [OF e1(1) less.prems(2)] extends_valid [OF e1(1)] less.prems(3) t extends_building [OF e1(1)] by auto
        have top: "bl_call b1 (\<lambda>env. priority (bl_eval b1 env) (take (?k - 1) links) ?t) (build_priority b1 (take (?k - 1) links) ?t)"
          by (rule less.hyps [OF _ b1 links_valid_sub(1) [OF lv1] t1]) (use k in simp)
        show "bl_call b1 ?F (sbind (build_priority b1 (take (?k - 1) links) ?t) (\<lambda>top_value b.
            sbind (build_priority b (drop ?k links) d) (\<lambda>bottom b. bl_mux b guard top_value bottom)))"
        proof (rule bl_call_bind [OF top])
          fix tp b2 assume e2: "bl_extends b1 b2" "bl_valid b2 tp"
            "\<And>env. bl_eval b2 env tp = priority (bl_eval b1 env) (take (?k - 1) links) ?t"
          have lv2: "links_valid b2 links" and d2: "bl_valid b2 d" and b2: "building (bl_graph b2)" and g2: "bl_valid b2 guard"
            using links_valid_extends [OF e2(1) lv1] extends_valid [OF e2(1)] d1 e1(2) extends_building [OF e2(1)] by auto
          have bottom: "bl_call b2 (\<lambda>env. priority (bl_eval b2 env) (drop ?k links) d) (build_priority b2 (drop ?k links) d)"
            by (rule less.hyps [OF _ b2 links_valid_sub(2) [OF lv2] d2]) (use k in simp)
          show "bl_call b2 ?F (sbind (build_priority b2 (drop ?k links) d) (\<lambda>bottom b. bl_mux b guard tp bottom))"
          proof (rule bl_call_bind [OF bottom])
            fix bt b3 assume e3: "bl_extends b2 b3" "bl_valid b3 bt" "\<And>env. bl_eval b3 env bt = priority (bl_eval b2 env) (drop ?k links) d"
            have m: "bl_call b3 (\<lambda>env. if bl_eval b3 env guard then bl_eval b3 env tp else bl_eval b3 env bt) (bl_mux b3 guard tp bt)"
              by (rule bl_mux_call [OF extends_building [OF e3(1)] extends_valid [OF e3(1) g2] extends_valid [OF e3(1) e2(2)] e3(2)])
            have "bl_eval b3 env guard = (\<exists>x \<in> set (take ?k links). bl_eval b env (fst x))" for env
              by (simp add: bl_eval_extends [OF e3(1) g2] bl_eval_extends [OF e2(1) e1(2)] e1(3))
            moreover have "bl_eval b3 env tp = priority (bl_eval b env) (take (?k - 1) links) ?t" for env
              unfolding bl_eval_extends [OF e3(1) e2(2)] e2(3) by (rule priority_extends [OF e1(1) links_valid_sub(1) [OF less.prems(2)] t])
            moreover have "bl_eval b3 env bt = priority (bl_eval b env) (drop ?k links) d" for env
              unfolding e3(3) using priority_extends [OF extends_trans [OF e1(1) e2(1)] links_valid_sub(2) [OF less.prems(2)] less.prems(3)] .
            ultimately have "(if bl_eval b3 env guard then bl_eval b3 env tp else bl_eval b3 env bt) = ?F env" for env
              using priority_split [OF k(1) less_imp_le [OF k(2)], of "bl_eval b env" d] by simp
            then show "bl_call b3 ?F (bl_mux b3 guard tp bt)" using m by simp
          qed
        qed
      qed
      moreover have "?split = sbind res (\<lambda>guard b.
                 sbind (build_priority b (take (?k - 1) links) ?t) (\<lambda>top_value b.
                 sbind (build_priority b (drop ?k links) d) (\<lambda>bottom b. bl_mux b guard top_value bottom)))"
        unfolding res(1) by (cases res; cases "fst res") auto
      ultimately show ?thesis by simp
    qed
    have "build_priority b links d = ?peel \<or> build_priority b links d = ?split"
      unfolding 3 by (simp only: build_priority.simps Let_def split: prod.split if_split) blast
    with peel split show ?thesis by auto
  qed
qed

end
