(* ===== verification/Axm_Balance_Pass.thy ===== *)
theory Axm_Balance_Pass
  imports Axm_Balance_Build
begin

text \<open>
  The pass: nodes are translated in order, each from operands that were translated before it. A literal of
  the new graph denotes what the node it stands for denotes, whenever the new inputs carry the values of
  the old ones; only a full graph can leave a node without a literal.
\<close>

section \<open>A full graph stays full\<close>

lemma extends_full: 
  assumes "building g" and "extends g g'" and "graph_full g"
  shows "graph_full g'"
proof -
  obtain b where b: "builder g = Some b" "builder_ok b" using assms(1) by (auto simp: building_def)
  obtain b' where b': "builder g' = Some b'" "builder_ok b'" using assms(2) by (auto simp: extends_def building_def)
  let ?n = "NodeId (2 ^ 31)"
  have i: "NodeId_index ?n = 2 ^ 31" by (simp add: NodeId_index_def)
  have "2 ^ 31 < length (kinds b)" using assms(3) b(1) by (simp add: graph_full_def builder_full_def node_count_def)
  then have "?n \<in> dom (graph_gates g)" using b i by (simp add: graph_gates_def gate_view_builder builder_ok_def dom_def)
  then have "?n \<in> dom (graph_gates g')" using assms(2) map_le_implies_dom_le [of "graph_gates g" "graph_gates g'"] unfolding extends_def by blast
  then show ?thesis using b' i by (auto simp: graph_gates_def gate_view_builder builder_ok_def graph_full_def builder_full_def node_count_def split: if_splits)
qed

section \<open>Translated operands\<close>

text \<open>The inputs of the new graph have the values of the inputs they were made for.\<close>

definition carried :: "LogicNetwork \<Rightarrow> LogicNodeId option list \<Rightarrow> env \<Rightarrow> env \<Rightarrow> bool"
  where "carried net remap env env' \<longleftrightarrow>
    (\<forall>i x l. lit_index i < node_count net \<longrightarrow> \<not> is_inverted i \<longrightarrow> net_node net i = NVar x \<longrightarrow> remap ! lit_index i = Some l \<longrightarrow> env' (Lit_node l) = env (Lit_node i))"

definition translated :: "LogicNetwork \<Rightarrow> gates \<Rightarrow> LogicNodeId option list \<Rightarrow> LogicGraph \<Rightarrow> LogicNodeId \<Rightarrow> bool"
  where "translated net G remap g f \<longleftrightarrow>
    (case remap_literal remap f of
       None \<Rightarrow> graph_full g
     | Some l \<Rightarrow> valid_lit (graph_gates g) l \<and>
         (\<forall>env env'. carried net remap env env' \<longrightarrow> eval_lit (graph_gates g) env' l = eval_lit G env f))"

lemma translated_phase: "lit_index f = lit_index i \<Longrightarrow> translated net G remap g i \<Longrightarrow> translated net G remap g f"
proof -
  assume f: "lit_index f = lit_index i" and t: "translated net G remap g i"
  then have "Lit_node f = Lit_node i" by (simp add: NodeId_index_inj)
  then have "eval_lit G env f = (eval_lit G env i \<noteq> (is_inverted f \<noteq> is_inverted i))" for env by (auto simp: eval_lit_def)
  with t f show ?thesis by (auto simp: translated_def remap_literal_def split: option.splits if_splits)
qed

lemma translated_extends:
  assumes "building g" "extends g g'" and "translated net G remap g f"
    and "remap_literal remap' f = remap_literal remap f" and "\<And>env env'. carried net remap' env env' \<Longrightarrow> carried net remap env env'"
  shows "translated net G remap' g' f"
  using assms extends_valid [OF assms(2)] extends_full [OF assms(1,2)]
  by (auto simp: translated_def extends_def split: option.splits)

lemma translated_operands:
  assumes "\<forall>f \<in> set fs. translated net G remap g f"
  shows "case those (map (remap_literal remap) fs) of
      None \<Rightarrow> graph_full g
    | Some ls \<Rightarrow> length ls = length fs \<and> (\<forall>l \<in> set ls. valid_lit (graph_gates g) l) \<and>
        (\<forall>env env'. carried net remap env env' \<longrightarrow> map (eval_lit (graph_gates g) env') ls = map (eval_lit G env) fs)"
  using assms
proof (induction fs)
  case (Cons f fs)
  then show ?case
    by (cases "remap_literal remap f"; cases "those (map (remap_literal remap) fs)") (auto simp: translated_def split: option.splits)
qed simp

lemma translated_links:
  assumes "\<forall>f \<in> set (map fst links @ map snd links). translated net G remap g f"
  shows "case those (map (\<lambda>(select, data).
                 case remap_literal remap select of None \<Rightarrow> None
                 | Some select \<Rightarrow> map_option (Pair select) (remap_literal remap data)) links) of
      None \<Rightarrow> graph_full g
    | Some ls \<Rightarrow> (\<forall>p \<in> set ls. valid_lit (graph_gates g) (fst p) \<and> valid_lit (graph_gates g) (snd p)) \<and>
        (\<forall>env env' d d'. carried net remap env env' \<longrightarrow> eval_lit (graph_gates g) env' d' = eval_lit G env d \<longrightarrow>
          priority (eval_lit (graph_gates g) env') ls d' = priority (eval_lit G env) links d)"
  using assms
proof (induction links)
  case (Cons p links)
  let ?th = "those (map (\<lambda>(select, data). case remap_literal remap select of None \<Rightarrow> None
                 | Some select \<Rightarrow> map_option (Pair select) (remap_literal remap data)) links)"
  obtain s x where p: "p = (s, x)" by fastforce
  have s: "translated net G remap g s" and x: "translated net G remap g x" using Cons.prems p by auto
  have ih: "case ?th of None \<Rightarrow> graph_full g
    | Some ls \<Rightarrow> (\<forall>p \<in> set ls. valid_lit (graph_gates g) (fst p) \<and> valid_lit (graph_gates g) (snd p)) \<and>
        (\<forall>env env' d d'. carried net remap env env' \<longrightarrow> eval_lit (graph_gates g) env' d' = eval_lit G env d \<longrightarrow>
          priority (eval_lit (graph_gates g) env') ls d' = priority (eval_lit G env) links d)"
    by (rule Cons.IH) (use Cons.prems in auto)
  show ?case
  proof (cases "remap_literal remap s = None \<or> remap_literal remap x = None \<or> ?th = None")
    case True
    then have "graph_full g" using s x ih by (auto simp: translated_def)
    with True p show ?thesis by (auto split: option.splits)
  next
    case False
    then obtain s' x' ls where e: "remap_literal remap s = Some s'" "remap_literal remap x = Some x'" "?th = Some ls" by auto
    with s x ih show ?thesis by (auto simp: p translated_def)
  qed
qed simp

section \<open>One node\<close>

definition node_translated ::
  "LogicNetwork \<Rightarrow> gates \<Rightarrow> LogicNodeId option list \<Rightarrow> LogicNodeId \<Rightarrow> Balance_Builder \<Rightarrow>
    (Balance_Builder, SynthError, LogicNodeId option) outcome \<Rightarrow> bool"
  where "node_translated net G remap i b res \<longleftrightarrow> bl_extends b (snd res) \<and>
    (case fst res of
       Inl e \<Rightarrow> e = Panic ''logic network exceeds compact capacity'' \<and> graph_full (bl_graph (snd res))
     | Inr None \<Rightarrow> graph_full (bl_graph (snd res))
     | Inr (Some l) \<Rightarrow> bl_valid (snd res) l \<and> (\<forall>env env'. carried net remap env env' \<longrightarrow>
         ((\<exists>x. net_node net i = NVar x) \<longrightarrow> env' (Lit_node l) = env (Lit_node i)) \<longrightarrow> bl_eval (snd res) env' l = eval_lit G env i))"

lemma node_translated_call:
  assumes "bl_call b F res" and "\<And>env env'. carried net remap env env' \<Longrightarrow> F env' = eval_lit G env i"
  shows "node_translated net G remap i b (smap Some res)"
  using assms by (cases res; cases "fst res") (auto simp: node_translated_def bl_call_Inr bl_call_Inl)

lemma node_translated_skip: "building (bl_graph b) \<Longrightarrow> graph_full (bl_graph b) \<Longrightarrow> node_translated net G remap i b (Inr None, b)"
  by (simp add: node_translated_def extends_refl)

lemma building_wf_gates: "building g \<Longrightarrow> wf_gates (graph_gates g)"
  using builder_wf by (auto simp: building_def graph_gates_def)

lemma balance_node_correct:
  assumes t: "tables net G ids roots references absorbed" and i: "i \<in> set ids" and b: "building (bl_graph b)"
    and before: "\<forall>f. valid_lit G f \<and> lit_index f < lit_index i \<and> \<not> absorbed ! lit_index f \<longrightarrow> translated net G remap (bl_graph b) f"
  shows "\<exists>res. balance_node net references remap i b = Some res \<and> node_translated net G remap i b res"
proof -
  have f: "frozen net G" and ids: "node_ids net ids" using t by (auto simp: tables_def)
  have v: "valid_lit G i" "\<not> is_inverted i" using i node_ids_in [OF ids] f by (auto simp: frozen_def)
  note ev = frozen_eval [OF f v]
  have chain: "\<exists>res. map_option (\<lambda>operands.
             case those (map (remap_literal remap) operands) of
               None \<Rightarrow> (Inr None, b)
             | Some operands \<Rightarrow> build_tree gate operands b)
           (chain_operands net references i [right, left] []) = Some res \<and> node_translated net G remap i b res"
    if g: "chain_gate net i = Some gate" and fan: "node_fanins (net_node net i) = [left, right]"
      and e: "\<And>env. eval_lit G env i = gate_op gate (eval_lit G env left) (eval_lit G env right)" for gate left right
  proof -
    have "\<forall>f \<in> set [right, left]. chain_fanin net ids gate f \<and> lit_index f < lit_index i"
      using fan g i frozen_fanin(2) [OF f v(1)] by (auto simp: chain_fanin_def intro!: bexI [of _ i])
    from chain_operands_correct [OF t g this, of "[]"] obtain leaves where
      l: "chain_operands net references i [right, left] [] = Some leaves"
        "\<forall>f \<in> set leaves. valid_lit G f \<and> lit_index f < lit_index i \<and> \<not> absorbed ! lit_index f"
        "\<And>env. gate_all gate (map (eval_lit G env) leaves) = gate_all gate (map (eval_lit G env) [right, left])" "leaves \<noteq> []"
      by auto
    have "\<forall>f \<in> set leaves. translated net G remap (bl_graph b) f" using l(2) before by blast
    note tr = translated_operands [OF this]
    show ?thesis
    proof (cases "those (map (remap_literal remap) leaves)")
      case None
      with tr node_translated_skip [OF b] l(1) show ?thesis by simp
    next
      case (Some ls)
      with tr have ls: "length ls = length leaves" "\<forall>l \<in> set ls. bl_valid b l"
        "\<And>env env'. carried net remap env env' \<Longrightarrow> map (bl_eval b env') ls = map (eval_lit G env) leaves" by auto
      have "ls \<noteq> []" using ls(1) l(4) by auto
      from build_tree_call [OF b ls(2) this, of gate] obtain res where
        res: "build_tree gate ls b = smap Some res" "bl_call b (\<lambda>env. gate_all gate (map (bl_eval b env) ls)) res" by blast
      have "gate_all gate (map (bl_eval b env') ls) = eval_lit G env i" if "carried net remap env env'" for env env'
        unfolding ls(3) [OF that] l(3) e by (cases gate) auto
      from node_translated_call [OF res(2) this] show ?thesis using l(1) Some res(1) by simp
    qed
  qed
  show ?thesis
  proof (cases "net_node net i")
    case (NConst c)
    have "c = False" using NConst f v(1) by (auto simp: frozen_def)
    have "bl_call b (\<lambda>env. c) (case bl_constant b c of (l, b) \<Rightarrow> (Inr l, b))"
      using building_wf_gates [OF b] extends_refl [OF b] by (simp add: bl_constant_def bl_call_Inr LogicGraph_constant_def)
    from node_translated_call [OF this] ev(4) [OF NConst] show ?thesis
      by (auto simp: balance_node_def NConst bl_constant_def Let_def)
  next
    case (NVar x)
    obtain r g where var: "LogicGraph_variable (bl_graph b) (unat x) = (r, g)" by fastforce
    note c = LogicGraph_variable_correct [OF b var]
    have u: "unat x < 2 ^ 32" using unsigned_less [where 'a = nat, of x] by simp
    have c1: "building g" "graph_gates (bl_graph b) \<subseteq>\<^sub>m graph_gates g" using c by simp_all
    have old: "eval_lit (graph_gates g) env l = eval_lit (graph_gates (bl_graph b)) env l" if "valid_lit (graph_gates (bl_graph b)) l" for l env
      by (rule view_mono(1) [OF building_wf_gates [OF b] c1(2) that])
    have ex: "extends (bl_graph b) g" using c1 old by (simp add: extends_def)
    show ?thesis
    proof (cases r)
      case None
      with c u ex var show ?thesis by (simp add: balance_node_def NVar bl_variable_def node_translated_def Let_def)
    next
      case (Some l)
      with c have l: "\<not> is_inverted l" "graph_gates g (Lit_node l) = Some GInput" by auto
      then have "valid_lit (graph_gates g) l" "eval_lit (graph_gates g) env l = env (Lit_node l)" for env
        by (auto simp: valid_lit_def eval_lit_def eval_node.simps [of _ _ "Lit_node l"])
      with Some var ex ev(5) [OF NVar] show ?thesis
        by (auto simp: balance_node_def NVar bl_variable_def node_translated_def Let_def)
    qed
  next
    case (NAnd left right)
    have "chain_gate net i = Some GateAnd" "node_fanins (net_node net i) = [left, right]" using NAnd by (auto simp: chain_gate_def)
    from chain [OF this] ev(1) [OF NAnd] show ?thesis by (simp add: balance_node_def NAnd Let_def)
  next
    case (NXor left right)
    have "chain_gate net i = Some GateXor" "node_fanins (net_node net i) = [left, right]" using NXor by (auto simp: chain_gate_def)
    from chain [OF this] ev(2) [OF NXor] show ?thesis by (simp add: balance_node_def NXor Let_def)
  next
    case (NMux c th el)
    obtain links d where m: "mux_links net references i [] = Some (links, d)"
      "\<forall>f \<in> set (map fst links @ map snd links @ [d]). valid_lit G f \<and> lit_index f < lit_index i \<and> \<not> absorbed ! lit_index f"
      "\<forall>env. priority (eval_lit G env) links d = eval_lit G env i"
      using mux_links_correct [OF t i NMux, of "[]"] by auto
    have "\<forall>f \<in> set (map fst links @ map snd links). translated net G remap (bl_graph b) f" using m(2) before by auto
    note tl = translated_links [OF this]
    have td: "translated net G remap (bl_graph b) d" using m(2) before by auto
    let ?th = "those (map (\<lambda>(select, data).
                 case remap_literal remap select of None \<Rightarrow> None
                 | Some select \<Rightarrow> map_option (Pair select) (remap_literal remap data)) links)"
    have eq: "balance_node net references remap i b = Some (case (?th, remap_literal remap d) of
               (Some links, Some default_value) \<Rightarrow> smap Some (build_priority b links default_value)
             | _ \<Rightarrow> (Inr None, b))"
      by (simp add: balance_node_def NMux m(1) Let_def)
    show ?thesis
    proof (cases "?th = None \<or> remap_literal remap d = None")
      case True
      then have "graph_full (bl_graph b)" using tl td by (auto simp: translated_def)
      moreover have "balance_node net references remap i b = Some (Inr None, b)"
        unfolding eq using True by (auto split: option.split)
      ultimately show ?thesis using node_translated_skip [OF b] by blast
    next
      case False
      then obtain ls d' where e: "?th = Some ls" "remap_literal remap d = Some d'" by auto
      have lv: "links_valid b ls" and dv: "bl_valid b d'" and
        pr: "\<And>env env'. carried net remap env env' \<Longrightarrow> priority (bl_eval b env') ls d' = priority (eval_lit G env) links d"
        using tl td e by (auto simp: translated_def links_valid_def)
      have "priority (bl_eval b env') ls d' = eval_lit G env i" if "carried net remap env env'" for env env'
        using pr [OF that] m(3) by simp
      from node_translated_call [OF build_priority_call [OF b lv dv] this] show ?thesis
        unfolding eq e by simp
    qed
  qed
qed

section \<open>All nodes\<close>

definition progress ::
  "LogicNetwork \<Rightarrow> gates \<Rightarrow> bool list \<Rightarrow> LogicNodeId option list \<Rightarrow> LogicGraph \<Rightarrow> nat \<Rightarrow> bool"
  where "progress net G absorbed remap g k \<longleftrightarrow> building g \<and> length remap = node_count net \<and>
    (\<forall>j < node_count net. k \<le> j \<longrightarrow> remap ! j = None) \<and>
    (\<forall>f. valid_lit G f \<and> lit_index f < k \<and> \<not> absorbed ! lit_index f \<longrightarrow> translated net G remap g f)"

lemma progress_step:
  assumes p: "progress net G absorbed remap (bl_graph b) k" and i: "lit_index i = k" "\<not> is_inverted i" "k < node_count net"
    and n: "node_translated net G remap i b (Inr new, b')"
  shows "progress net G absorbed (remap[k := new]) (bl_graph b') (Suc k)"
proof -
  let ?r = "remap[k := new]"
  have e: "bl_extends b b'" and b: "building (bl_graph b)" and len: "length remap = node_count net" and none: "remap ! k = None"
    using n p i(3) by (auto simp: node_translated_def progress_def)
  have c: "carried net remap env env'" if "carried net ?r env env'" for env env'
    unfolding carried_def
  proof (intro allI impI)
    fix j x l assume j: "lit_index j < node_count net" "\<not> is_inverted j" "net_node net j = NVar x" "remap ! lit_index j = Some l"
    then have "?r ! lit_index j = Some l" using none by (cases "lit_index j = k") auto
    with that j show "env' (Lit_node l) = env (Lit_node j)" unfolding carried_def by blast
  qed
  have new: "translated net G ?r (bl_graph b') i"
  proof (cases new)
    case None
    with n i len show ?thesis by (simp add: translated_def remap_literal_def node_translated_def)
  next
    case (Some l)
    have "bl_eval b' env' l = eval_lit G env i" if "carried net ?r env env'" for env env'
    proof -
      have "(\<exists>x. net_node net i = NVar x) \<longrightarrow> env' (Lit_node l) = env (Lit_node i)"
        using that i len Some by (auto simp: carried_def)
      with n Some c [OF that] show ?thesis by (simp add: node_translated_def)
    qed
    with n i len Some show ?thesis by (simp add: translated_def remap_literal_def node_translated_def)
  qed
  have "translated net G ?r (bl_graph b') f" if "valid_lit G f" "lit_index f < Suc k" "\<not> absorbed ! lit_index f" for f
  proof (cases "lit_index f = k")
    case True
    then show ?thesis using translated_phase [OF _ new, of f] i(1) by simp
  next
    case False
    then have "translated net G remap (bl_graph b) f" using p that by (simp add: progress_def)
    from translated_extends [OF b e this _ c] False show ?thesis by (simp add: remap_literal_def)
  qed
  moreover have "?r ! j = None" if "j < node_count net" "Suc k \<le> j" for j using p that by (simp add: progress_def)
  ultimately show ?thesis using e len by (simp add: progress_def extends_def)
qed

lemma balance_loop_correct:
  assumes t: "tables net G ids roots references absorbed"
    and "todo = drop k ids" "progress net G absorbed remap (bl_graph b) k"
  shows "\<exists>res. balance_loop net references absorbed todo remap b = Some res \<and>
    (case fst res of Inl e \<Rightarrow> graph_full (bl_graph (snd res))
     | Inr remap' \<Rightarrow> progress net G absorbed remap' (bl_graph (snd res)) (node_count net))"
  using assms(2,3)
proof (induction todo arbitrary: k remap b)
  case Nil
  have "length ids \<le> k" using Nil.prems(1) by simp
  moreover have "length ids = node_count net" "\<And>f. valid_lit G f \<Longrightarrow> lit_index f < node_count net"
    using t by (auto simp: tables_def node_ids_def frozen_def)
  ultimately show ?case using Nil.prems(2) by (auto simp: progress_def)
next
  case (Cons i todo)
  have k: "k < length ids" using Cons.prems(1) by (metis drop_all list.distinct(1) not_le)
  then have "i # todo = ids ! k # drop (Suc k) ids" using Cons.prems(1) Cons_nth_drop_Suc [OF k] by simp
  then have i: "i = ids ! k" "todo = drop (Suc k) ids" by auto
  have idx: "lit_index i = k" "\<not> is_inverted i" "i \<in> set ids" "k < node_count net" using k i(1) t by (auto simp: tables_def node_ids_def)
  show ?case
  proof (cases "absorbed ! lit_index i")
    case True
    then have "progress net G absorbed remap (bl_graph b) (Suc k)"
      using Cons.prems(2) idx(1) by (auto simp: progress_def less_Suc_eq)
    from Cons.IH [OF i(2) this] True show ?thesis by simp
  next
    case False
    have b: "building (bl_graph b)" using Cons.prems(2) by (simp add: progress_def)
    have before: "\<forall>f. valid_lit G f \<and> lit_index f < lit_index i \<and> \<not> absorbed ! lit_index f \<longrightarrow> translated net G remap (bl_graph b) f"
      using Cons.prems(2) idx(1) by (simp add: progress_def)
    obtain r b' where r: "balance_node net references remap i b = Some (r, b')" "node_translated net G remap i b (r, b')"
      using balance_node_correct [OF t idx(3) b before] by (metis surj_pair)
    show ?thesis
    proof (cases r)
      case (Inl e)
      with r False show ?thesis by (simp add: node_translated_def)
    next
      case (Inr new)
      from Cons.IH [OF i(2) progress_step [OF Cons.prems(2) idx(1,2,4) r(2) [unfolded Inr]]] r(1) Inr False idx(1)
      show ?thesis by simp
    qed
  qed
qed

lemma from_index_error: "rmap LogicNodeId_from_index [0..<n] = Inl e \<Longrightarrow> 2 ^ 31 < n"
proof -
  have ok: "\<exists>l. LogicNodeId_from_index i = Inr l" if "i < 2 ^ 31" for i
  proof -
    have i: "i < 2 ^ 32" using that by simp
    then have "NodeId_from_index i = Inr (NodeId (of_nat i))" by (simp add: NodeId_from_index_def u32_of_usize_def)
    with NodeId_from_index_Inr obtain n where n: "NodeId_from_index i = Inr n" "NodeId_index n = i" by blast
    moreover have "\<exists>l. Lit_from_node n = Inr l"
      using that n(2) by (simp add: Lit_from_node_def checked_mul_def NodeId_index_def)
    ultimately show ?thesis by (auto simp: LogicNodeId_from_index_def)
  qed
  have "\<exists>ls. rmap LogicNodeId_from_index is = Inr ls" if "\<forall>i \<in> set is. i < 2 ^ 31" for "is"
    using that ok by (induction "is") fastforce+
  then have "\<exists>ls. rmap LogicNodeId_from_index [0..<n] = Inr ls" if "n \<le> 2 ^ 31" using that by auto
  then show "rmap LogicNodeId_from_index [0..<n] = Inl e \<Longrightarrow> 2 ^ 31 < n" by (metis Inr_not_Inl not_le)
qed



end
