(* ===== verification/Spec2Isabelle.thy ===== *)
theory Spec2Isabelle
  imports Logic_Probe Axm_Region Known_Bits_Limits Packed_Rows Value_Numbering Axm_Balance_Pass
begin

text \<open>
  \<^bold>\<open>A verification development for the opto logic-synthesis shell.\<close>

  Opto reads hardware descriptions, elaborates them into a word-level intermediate
  representation (\<^verbatim>\<open>crates/opto-ir/src/word\<close>), lowers word operations to single bits
  (\<^verbatim>\<open>crates/opto-synth/src/boolean/bitblast\<close>), keeps the bits in a hash-consed graph of
  two-input gates and multiplexers (\<^verbatim>\<open>crates/opto-ir/src/logic.rs\<close> behind
  \<^verbatim>\<open>crates/opto-synth/src/boolean/logic/network.rs\<close>), and maps the graph to cells. The
  development models the word level, the lowering and the graph, the part of the program whose
  mistakes silently change a circuit.

  \<^bold>\<open>Conventions.\<close> \<open>Prelude\<close> fixes the vocabulary. A method \<^verbatim>\<open>fn f(&mut self, ..) -> Result<T, E>\<close>
  is a function that returns \<open>Inl\<close> of an error or \<open>Inr\<close> of a result together with the store it
  leaves behind (\<open>outcome\<close>, sequenced with \<open>sbind\<close>); a panic is an error value of its own.
  Literals, node identifiers and hashed keys are 32-bit words with their packing; vector lengths
  and bit widths are natural numbers with the capacity checks of the sources written out. Bit
  vectors are lists, least significant bit first, read as numbers by \<open>bits_val\<close>. Source spans and
  provenance are left out, because they never influence a bit.

  \<^bold>\<open>The logic network.\<close> \<open>Logic_Lit\<close> has literals and node identifiers; \<open>Canonical\<close> the rule tables
  \<^verbatim>\<open>canonical_and\<close>, \<^verbatim>\<open>canonical_or\<close>, \<^verbatim>\<open>canonical_xor\<close> and \<^verbatim>\<open>canonical_mux\<close> over the trait
  \<^verbatim>\<open>Canonical\<close> as a record of operations; \<open>Logic_Builder\<close> the arena, structural hashing and the
  builder's methods; \<open>Logic_Probe\<close> the structural index and the read-only probe.
  \<open>Canonical_Correct\<close> proves the rules once for every store that keeps the contract
  \<open>canonical_store\<close>: the result denotes the operation and the recursion ends. The mutual recursion
  of disjunction and multiplexer runs on \<open>call_fuel\<close>, a bound by the size of the operands that is
  proved to be enough, so no theorem has an out-of-fuel case. \<open>Canonical_Replay\<close> shows that the probe
  finds exactly what the builder would return without adding a node.

  \<^bold>\<open>The bit-blaster.\<close> \<open>Bit_Emitter\<close> has the scalar interface of a backend and the contract \<open>bit_emitter\<close>
  of a Boolean backend as a locale. Its relation \<open>sim\<close> follows a run on symbolic bits by the run of the
  same algorithm on Booleans. The algorithms are written once over the interface: \<open>Adders\<close>
  (\<^verbatim>\<open>arithmetic/adders.rs\<close>), \<open>Operations\<close> (\<^verbatim>\<open>operations.rs\<close>, \<^verbatim>\<open>arithmetic/compare.rs\<close>,
  \<^verbatim>\<open>arithmetic/shift.rs\<close>), \<open>Compressor\<close> (\<^verbatim>\<open>compressor.rs\<close>), \<open>Multiplier\<close> (\<^verbatim>\<open>multiplier.rs\<close>), \<open>Division\<close>
  (\<^verbatim>\<open>arithmetic/division.rs\<close>) and \<open>Arithmetic_Region\<close> (\<^verbatim>\<open>arithmetic.rs\<close>); each has a theory
  \<open>_Correct\<close> with what it computes. \<open>Result_Shape\<close> has the facts on the form of results that hold for
  every backend.

  \<^bold>\<open>The AXM backend.\<close> \<open>Axm_Graph\<close> models \<^verbatim>\<open>LogicGraph\<close>, \<open>Axm_Backend\<close> the backend
  (\<^verbatim>\<open>backend.rs\<close>) with its input bindings and constant cache, and interprets \<open>bit_emitter\<close> on it; the
  interpretation turns every result on Booleans into one on literals of the graph, for every
  environment (\<open>Axm_Lowering\<close>, \<open>Axm_Operations\<close>, \<open>Axm_Arithmetic\<close>, \<open>Axm_Region\<close>).

  \<^bold>\<open>Balancing.\<close> \<open>Axm_Balance\<close> models \<^verbatim>\<open>logic/balance.rs\<close>. \<open>Axm_Balance_Tables\<close> shows what the reference counts
  and the absorption table mean, \<open>Axm_Balance_Walks\<close> that a walk over a chain ends (the sum of \<open>3\<close> to the
  power of the indices on the stack decreases) and yields operands that were not absorbed,
  \<open>Axm_Balance_Build\<close> that trees and priority chains compute the same for every level estimate, and
  \<open>Axm_Balance_Pass\<close> that every root keeps its function.

  \<^bold>\<open>The word level.\<close> \<open>Word_Module\<close> models \<^verbatim>\<open>WordModule\<close> (\<^verbatim>\<open>word/model.rs\<close>, \<^verbatim>\<open>word/module.rs\<close>), its
  builders (\<^verbatim>\<open>word/module/builders.rs\<close>) and its validation (\<^verbatim>\<open>word/validate.rs\<close>); \<open>Word_Valid\<close> proves
  that whatever sequence of builder calls made a module, it validates (\<open>module_ok\<close>). \<open>Word_Semantics\<close> says
  what a module means: a valuation gives every value and every signal a vector of bits such that
  operations and unconditional drivers hold. The definition of a valuation is relational, so it also
  covers modules with state and with combinational cycles; an unknown bit may be either Boolean.

  \<^bold>\<open>Known bits.\<close> \<open>Known_Bits\<close>, \<open>Known_Bits_Analysis\<close> model \<^verbatim>\<open>word/known_bits.rs\<close>: facts in an arena, the
  transfer function of every operation, drivers of signals and the memoised, explicit-stack traversal.
  \<open>Known_Bits_Facts\<close>, \<open>Known_Bits_Transfer\<close>, \<open>Known_Bits_Signals\<close> prove each part sound for the values of any
  valuation, \<open>Known_Bits_Eval\<close> that no step panics on a valid module, \<open>Known_Bits_Sound\<close> that the traversal
  ends and keeps its memo table sound, and \<open>Known_Bits_Queries\<close> what the public queries promise.
  \<open>Known_Bits_Limits\<close> has the concrete modules on which a promise fails.

  \<^bold>\<open>Rewriting and canonicalisation.\<close> \<open>Word_Rewrite\<close> models \<^verbatim>\<open>word/module/rewrite.rs\<close>, \<open>Constant_Fold\<close> and
  \<open>Value_Numbering\<close> model \<^verbatim>\<open>planning/dataflow/canonical.rs\<close>: folding of constants, folding of results that the
  known-bits analysis proves, and value numbering under Boolean identities. Each pass is shown to keep
  every valuation of the module; value numbering in addition gives each value a representative that is
  equal to it in every valuation. Two hypotheses there are real limits of the code, each with a module
  that fails without it: \<open>keeps_states\<close> (no cast drops unknown states) and \<open>mask_widths_ok\<close> (no one-bit
  mask meets a wider operand).

  \<^bold>\<open>Packed rows.\<close> \<open>Packed_Rows\<close> models \<^verbatim>\<open>opto-core/src/rows.rs\<close>; the in-place permutation of scattered
  entries is a partial function that is proved to return.

  \<^bold>\<open>Bounds and fuel.\<close> The halving loop of a reduction runs \<open>reduce_rounds\<close>, one per operand. Prefix
  networks run 65 doubling rounds, which covers every width below \<open>2 ^ 63\<close>. A Wallace round decreases
  the number of bits above two per column, so the number of bits is enough; the balanced schedule
  reduces three rows to two, so the number of rows is enough; the Dadda schedule visits its finite list
  of targets and its correctness assumes fewer than \<open>2 ^ 63\<close> rows, far beyond addressable memory.

  \<^bold>\<open>Not modelled.\<close> Reading sources and libraries, the command shell and the database are input and
  output around the core. Timing, power and the cost estimates that choose between recipes are
  floating-point or heuristic and do not change what a circuit computes: the theorems hold for every
  recipe on offer. Of the word IR, names, annotations, layouts, memories, instances and speculation are
  left out; of the dataflow planner, the resolution of signal aliases that calls the canonicalisation.
  Technology mapping, the traversal of the word module by the bit-blaster, dynamic selection, sequential
  elements and procedural elaboration remain to be modelled.
\<close>

end
